(* ===== verification/Prelude.thy ===== *)
theory Prelude
  imports Main "HOL-Library.Word"
begin

text \<open>
  Shared vocabulary of the development: the machine integers of the C sources as words, the two
  views of an integer as a sequence of bytes (least significant byte first, and most significant
  byte first), and the small facts on lists and words that the component theories use.

  \<^item> \<open>le_bytes n v\<close> is what \<open>htole<n*8>\<close> followed by \<open>memcpy\<close> stores,
    \<open>le_val\<close> what \<open>memcpy\<close> followed by \<open>le<n*8>toh\<close> loads.
  \<^item> \<open>or_bytes\<close> is the accumulation \<open>v |= (c << shift)\<close> that the stream readers
    of \<open>hpcio.c\<close> perform, over the list of shifts the loop goes through.

  The collection \<open>fmt_simps\<close> gathers the unfoldings of the byte-level operations.
\<close>

unbundle bit_operations_syntax

named_theorems fmt_simps \<open>unfoldings of byte-level readers and writers\<close>

type_synonym byte = "8 word"
type_synonym u8 = "8 word"
type_synonym u16 = "16 word"
type_synonym u32 = "32 word"
type_synonym u64 = "64 word"

section \<open>Integers as bytes, least significant byte first\<close>

primrec le_bytes :: "nat \<Rightarrow> 'a::len word \<Rightarrow> byte list" where
  "le_bytes 0 v = []"
| "le_bytes (Suc n) v = ucast v # le_bytes n (drop_bit 8 v)"

primrec le_val :: "byte list \<Rightarrow> 'a::len word" where
  "le_val [] = 0"
| "le_val (b # bs) = ucast b OR push_bit 8 (le_val bs)"

lemma length_le_bytes [simp]: "length (le_bytes n v) = n"
  by (induction n arbitrary: v) auto

lemma ucast_byte_split:
  fixes v :: "'a::len word"
  shows "ucast (ucast v :: byte) OR push_bit 8 (take_bit n (drop_bit 8 v)) = take_bit (n + 8) v"
  by (rule bit_word_eqI) (auto simp: bit_simps)

lemma le_val_le_bytes: "le_val (le_bytes n v) = take_bit (8 * n) v"
proof (induction n arbitrary: v)
  case 0
  show ?case by simp
next
  case (Suc n)
  then show ?case by (simp add: ucast_byte_split add.commute)
qed

lemma le_val_le_bytes_all [simp]:
  fixes v :: "'a::len word"
  assumes "LENGTH('a) \<le> 8 * n"
  shows "le_val (le_bytes n v) = v"
  using assms by (simp add: le_val_le_bytes take_bit_word_eq_self)

section \<open>Accumulating an integer from bytes at given shifts\<close>

fun or_bytes :: "nat list \<Rightarrow> byte list \<Rightarrow> 'a::len word \<Rightarrow> 'a word" where
  "or_bytes (s # ss) (b # bs) v = or_bytes ss bs (v OR push_bit s (ucast b))"
| "or_bytes ss bs v = v"

definition bytes_at :: "nat list \<Rightarrow> 'a::len word \<Rightarrow> byte list" where
  "bytes_at ss v = map (\<lambda>s. ucast (drop_bit s v)) ss"

lemma bytes_at_simps [simp]:
  "bytes_at [] v = []"
  "bytes_at (s # ss) v = ucast (drop_bit s v) # bytes_at ss v"
  by (simp_all add: bytes_at_def)

lemma length_bytes_at [simp]: "length (bytes_at ss v) = length ss"
  by (simp add: bytes_at_def)

lemma bit_or_bytes_at:
  fixes v acc :: "'a::len word"
  assumes "k < LENGTH('a)"
  shows "bit (or_bytes ss (bytes_at ss v) acc) k \<longleftrightarrow>
    bit acc k \<or> bit v k \<and> (\<exists>s \<in> set ss. s \<le> k \<and> k < s + 8)"
proof (induction ss arbitrary: acc)
  case Nil
  show ?case by simp
next
  case (Cons s ss)
  have "bit (push_bit s (ucast (ucast (drop_bit s v) :: byte)) :: 'a word) k
    \<longleftrightarrow> bit v k \<and> s \<le> k \<and> k < s + 8"
    using assms by (auto simp: bit_simps)
  then show ?case by (auto simp: Cons.IH bit_or_iff)
qed

text \<open>Shifts that cover every bit of the word recover it, in whichever order they come.\<close>

lemma or_bytes_at_cover:
  fixes v :: "'a::len word"
  assumes "\<And>k. k < LENGTH('a) \<Longrightarrow> \<exists>s \<in> set ss. s \<le> k \<and> k < s + 8"
  shows "or_bytes ss (bytes_at ss v) 0 = v"
  by (rule bit_word_eqI) (use assms in \<open>auto simp: bit_or_bytes_at\<close>)

section \<open>Lists\<close>

lemma take_drop_append_exact [simp]:
  "length xs = n \<Longrightarrow> take n (xs @ ys) = xs"
  "length xs = n \<Longrightarrow> drop n (xs @ ys) = ys"
  by auto

lemma drop_eq_Cons_nth:
  "drop n xs = y # ys \<Longrightarrow> n < length xs \<and> xs ! n = y \<and> drop (Suc n) xs = ys"
  by (metis Cons_nth_drop_Suc drop_all list.discI list.inject not_less)

end
