(* ===== verification/Fmt_Primitive.thy ===== *)
theory Fmt_Primitive
  imports Prelude
begin

text \<open>
  The byte-conversion layer of the database formats (\<open>src/common/lean/formats/primitive.h\<close>) and
  the types shared by the four formats (\<open>formats/common.h\<close>).

  The \<open>char*\<close> arguments of the C functions are addresses into a memory, a function from addresses
  to bytes; a writer returns the memory it leaves. A \<open>double\<close> is its 64-bit pattern, as the C code
  itself moves it around (\<open>memcpy\<close> between a \<open>double\<close> and a \<open>uint64_t\<close>).

  The locale \<open>struct_codec\<close> is the contract every serialised structure of the formats satisfies:
  what is written is what is read, a writer stays inside the size the format gives the structure,
  and a reader looks at nothing outside it. Its client lemma is the one the databases rest on: an
  array of structures written at a stride of that size is read back element by element.
\<close>

declare add_2_eq_Suc [simp del] add_2_eq_Suc' [simp del]

section \<open>Memory\<close>

type_synonym mem = "nat \<Rightarrow> byte"
type_synonym f64 = u64

definition put :: "mem \<Rightarrow> nat \<Rightarrow> byte list \<Rightarrow> mem" where
  "put m a bs = (\<lambda>i. if a \<le> i \<and> i < a + length bs then bs ! (i - a) else m i)"

definition get :: "mem \<Rightarrow> nat \<Rightarrow> nat \<Rightarrow> byte list" where
  "get m a n = map (\<lambda>i. m (a + i)) [0..<n]"

definition memset0 :: "mem \<Rightarrow> nat \<Rightarrow> nat \<Rightarrow> mem" where
  "memset0 m a n = put m a (replicate n 0)"

definition put_byte :: "mem \<Rightarrow> nat \<Rightarrow> byte \<Rightarrow> mem" where
  "put_byte m a b = put m a [b]"

definition get_byte :: "mem \<Rightarrow> nat \<Rightarrow> byte" where
  "get_byte m a = m a"

text \<open>The bytes of a string literal, without its terminator.\<close>

definition str_bytes :: "string \<Rightarrow> byte list" where [fmt_simps]:
  "str_bytes s = map (\<lambda>c. of_nat (of_char c)) s"

section \<open>Primitive conversions\<close>

definition fmt_u16_read :: "mem \<Rightarrow> nat \<Rightarrow> u16" where
  "fmt_u16_read m v = le_val (get m v 2)"

definition fmt_u16_write :: "mem \<Rightarrow> nat \<Rightarrow> u16 \<Rightarrow> mem" where
  "fmt_u16_write m o' v = put m o' (le_bytes 2 v)"

definition fmt_u32_read :: "mem \<Rightarrow> nat \<Rightarrow> u32" where
  "fmt_u32_read m v = le_val (get m v 4)"

definition fmt_u32_write :: "mem \<Rightarrow> nat \<Rightarrow> u32 \<Rightarrow> mem" where
  "fmt_u32_write m o' v = put m o' (le_bytes 4 v)"

definition fmt_u64_read :: "mem \<Rightarrow> nat \<Rightarrow> u64" where
  "fmt_u64_read m v = le_val (get m v 8)"

definition fmt_u64_write :: "mem \<Rightarrow> nat \<Rightarrow> u64 \<Rightarrow> mem" where
  "fmt_u64_write m o' v = put m o' (le_bytes 8 v)"

definition fmt_f64_read :: "mem \<Rightarrow> nat \<Rightarrow> f64" where
  "fmt_f64_read m v = (let vv = fmt_u64_read m v in vv)"

definition fmt_f64_write :: "mem \<Rightarrow> nat \<Rightarrow> f64 \<Rightarrow> mem" where
  "fmt_f64_write m o' v = (let vv = v in fmt_u64_write m o' vv)"

lemmas fmt_prim_defs [fmt_simps] =
  fmt_u16_read_def fmt_u16_write_def fmt_u32_read_def fmt_u32_write_def
  fmt_u64_read_def fmt_u64_write_def fmt_f64_read_def fmt_f64_write_def
  memset0_def put_byte_def Let_def

section \<open>Version checks\<close>

datatype fmt_version_t =
  fmt_version_exact | fmt_version_invalid | fmt_version_backward
| fmt_version_major | fmt_version_forward

definition FMT_DB_MajorVersion :: nat where [fmt_simps]:
  "FMT_DB_MajorVersion = 4"

text \<open>
  A \<open>char\<close> promoted to \<open>int\<close>: the sign is the platform's choice (signed on x86, unsigned on
  AArch64 and ppc64), so it is a parameter.
\<close>

definition char_to_int :: "bool \<Rightarrow> byte \<Rightarrow> int" where
  "char_to_int char_signed c = (if char_signed then sint c else uint c)"

section \<open>Reading back what was written\<close>

lemma length_get [simp]: "length (get m a n) = n"
  by (simp add: get_def)

lemma get_put_same [simp]: "length bs = n \<Longrightarrow> get (put m a bs) a n = bs"
  by (rule nth_equalityI) (auto simp: get_def put_def)

lemma get_put_before [simp]: "b + n \<le> a \<Longrightarrow> get (put m a bs) b n = get m b n"
  by (auto simp: get_def put_def)

lemma get_put_after [simp]: "a + length bs \<le> b \<Longrightarrow> get (put m a bs) b n = get m b n"
  by (auto simp: get_def put_def)

lemma put_before [simp]: "i < a \<Longrightarrow> put m a bs i = m i"
  by (simp add: put_def)

lemma put_after [simp]: "a + length bs \<le> i \<Longrightarrow> put m a bs i = m i"
  by (simp add: put_def)

lemma put_single [simp]: "put m a [b] a = b"
  by (simp add: put_def)

lemma hd_get_put [simp]: "bs \<noteq> [] \<Longrightarrow> hd (get (put m a bs) a (Suc 0)) = hd bs"
  by (cases bs) (auto simp: get_def put_def)

lemma hd_le_bytes [simp]: "0 < n \<Longrightarrow> hd (le_bytes n v) = ucast v"
  by (cases n) auto

lemma le_bytes_not_Nil [simp]: "0 < n \<Longrightarrow> le_bytes n v \<noteq> []"
  by (cases n) auto

lemma ucast_u16_u8 [simp]: "ucast (ucast (v :: u8) :: u16) = v"
  by (rule bit_word_eqI) (auto simp: bit_simps)

lemma get_byte_get [fmt_simps]: "get_byte m a = hd (get m a 1)"
  by (simp add: get_byte_def get_def)

lemma get_eq_mono:
  assumes "get m d sz = get m' d' sz" and "p + n \<le> sz"
  shows "get m (d + p) n = get m' (d' + p) n"
proof -
  have "get k (e + p) n = take n (drop p (get k e sz))" for k e
    by (rule nth_equalityI) (use assms(2) in \<open>auto simp: get_def add.assoc\<close>)
  then show ?thesis using assms(1) by simp
qed

lemma get_eq_start:
  assumes "get m d sz = get m' d' sz" and "n \<le> sz"
  shows "get m d n = get m' d' n"
  using get_eq_mono [OF assms(1), of 0 n] assms(2) by simp

text \<open>Two memories that agree on a structure agree on each integer and each byte inside it.\<close>

lemma le_val_get_eq:
  "get m d sz = get m' d' sz \<Longrightarrow> p + n \<le> sz \<Longrightarrow>
    le_val (get m (d + p) n) = le_val (get m' (d' + p) n)"
  "get m d sz = get m' d' sz \<Longrightarrow> n \<le> sz \<Longrightarrow> le_val (get m d n) = le_val (get m' d' n)"
  by (simp_all add: get_eq_mono [of m d sz m' d'] get_eq_start [of m d sz m' d'])

lemma hd_get_eq:
  "get m d sz = get m' d' sz \<Longrightarrow> p + n \<le> sz \<Longrightarrow> hd (get m (d + p) n) = hd (get m' (d' + p) n)"
  "get m d sz = get m' d' sz \<Longrightarrow> n \<le> sz \<Longrightarrow> hd (get m d n) = hd (get m' d' n)"
  by (simp_all add: get_eq_mono [of m d sz m' d'] get_eq_start [of m d sz m' d'])

lemmas rd_local_intros = le_val_get_eq hd_get_eq

section \<open>The contract of a serialised structure\<close>

text \<open>Structures written one after the other at a fixed stride, as the databases lay arrays out.\<close>

fun write_array :: "(mem \<Rightarrow> nat \<Rightarrow> 'a \<Rightarrow> mem) \<Rightarrow> nat \<Rightarrow> mem \<Rightarrow> nat \<Rightarrow> 'a list \<Rightarrow> mem" where
  "write_array w sz m d [] = m"
| "write_array w sz m d (x # xs) = write_array w sz (w m d x) (d + sz) xs"

locale struct_codec =
  fixes rd :: "mem \<Rightarrow> nat \<Rightarrow> 'a"
    and wr :: "mem \<Rightarrow> nat \<Rightarrow> 'a \<Rightarrow> mem"
    and sz :: nat
    and norm :: "'a \<Rightarrow> 'a"
  assumes rd_wr: "rd (wr m d x) d = norm x"
    and wr_frame: "i < d \<or> d + sz \<le> i \<Longrightarrow> wr m d x i = m i"
    and rd_local: "get m d sz = get m' d' sz \<Longrightarrow> rd m d = rd m' d'"
begin

lemma wr_inside: "{i. wr m d x i \<noteq> m i} \<subseteq> {d..<d + sz}"
proof
  fix i assume "i \<in> {i. wr m d x i \<noteq> m i}"
  then show "i \<in> {d..<d + sz}" using wr_frame [of i d m x] by (cases "i < d \<or> d + sz \<le> i") auto
qed

lemma get_wr_disjoint:
  assumes "e + n \<le> d \<or> d + sz \<le> e"
  shows "get (wr m d x) e n = get m e n"
  using assms by (auto simp: get_def intro!: wr_frame)

lemma rd_wr_disjoint:
  assumes "e + sz \<le> d \<or> d + sz \<le> e"
  shows "rd (wr m d x) e = rd m e"
  by (rule rd_local) (rule get_wr_disjoint [OF assms])

lemma array_frame: "i < d \<or> d + sz * length xs \<le> i \<Longrightarrow> write_array wr sz m d xs i = m i"
  by (induction xs arbitrary: m d) (auto simp: wr_frame algebra_simps)

lemma rd_array_before: "e + sz \<le> d \<Longrightarrow> rd (write_array wr sz m d xs) e = rd m e"
  by (rule rd_local) (auto simp: get_def array_frame)

lemma array_roundtrip:
  "i < length xs \<Longrightarrow> rd (write_array wr sz m d xs) (d + sz * i) = norm (xs ! i)"
proof (induction xs arbitrary: m d i)
  case Nil
  then show ?case by simp
next
  case (Cons x xs)
  show ?case
  proof (cases i)
    case 0
    then show ?thesis by (simp add: rd_array_before rd_wr)
  next
    case (Suc j)
    with Cons.prems have "j < length xs" by simp
    then show ?thesis using Cons.IH [of j "wr m d x" "d + sz"] Suc by (simp add: algebra_simps)
  qed
qed

end

end
