(* ===== verification/Fmt_Metadb.thy ===== *)
theory Fmt_Metadb
  imports Fmt_Primitive
begin

text \<open>
  The serialised structures of \<open>meta.db\<close> (\<open>src/common/lean/formats/metadb.c\<close> and
  \<open>metadb.h\<close>): one record per C struct, one reader and one writer each, and the version check.
  Fields of anonymous inner structs are flattened into the record of the outer one. Every
  structure is an interpretation of \<open>struct_codec\<close>.
\<close>

section \<open>Constants\<close>

definition FMT_METADB_MinorVersion :: nat where [fmt_simps]:
  "FMT_METADB_MinorVersion = 0"

definition FMT_METADB_SZ_FHdr :: nat where [fmt_simps]:
  "FMT_METADB_SZ_FHdr = 0x90"

definition FMT_METADB_SZ_GeneralSHdr :: nat where [fmt_simps]:
  "FMT_METADB_SZ_GeneralSHdr = 0x10"

definition FMT_METADB_SZ_IdNamesSHdr :: nat where [fmt_simps]:
  "FMT_METADB_SZ_IdNamesSHdr = 0x09"

definition FMT_METADB_SZ_MetricsSHdr :: nat where [fmt_simps]:
  "FMT_METADB_SZ_MetricsSHdr = 0x1b"

definition FMT_METADB_SZ_MetricDesc :: nat where [fmt_simps]:
  "FMT_METADB_SZ_MetricDesc = 0x20"

definition FMT_METADB_SZ_PropScopeInst :: nat where [fmt_simps]:
  "FMT_METADB_SZ_PropScopeInst = 0x10"

definition FMT_METADB_SZ_SummaryStat :: nat where [fmt_simps]:
  "FMT_METADB_SZ_SummaryStat = 0x18"

definition FMT_METADB_SZ_PropScope :: nat where [fmt_simps]:
  "FMT_METADB_SZ_PropScope = 0x10"

definition FMT_METADB_SZ_ModulesSHdr :: nat where [fmt_simps]:
  "FMT_METADB_SZ_ModulesSHdr = 0x0e"

definition FMT_METADB_SZ_ModuleSpec :: nat where [fmt_simps]:
  "FMT_METADB_SZ_ModuleSpec = 0x10"

definition FMT_METADB_SZ_FilesSHdr :: nat where [fmt_simps]:
  "FMT_METADB_SZ_FilesSHdr = 0x0e"

definition FMT_METADB_SZ_FileSpec :: nat where [fmt_simps]:
  "FMT_METADB_SZ_FileSpec = 0x10"

definition FMT_METADB_SZ_FunctionsSHdr :: nat where [fmt_simps]:
  "FMT_METADB_SZ_FunctionsSHdr = 0x0e"

definition FMT_METADB_SZ_FunctionSpec :: nat where [fmt_simps]:
  "FMT_METADB_SZ_FunctionSpec = 0x28"

definition FMT_METADB_SZ_ContextsSHdr :: nat where [fmt_simps]:
  "FMT_METADB_SZ_ContextsSHdr = 0x0b"

definition FMT_METADB_SZ_EntryPoint :: nat where [fmt_simps]:
  "FMT_METADB_SZ_EntryPoint = 0x20"

definition fmt_metadb_magic :: "byte list" where [fmt_simps]:
  "fmt_metadb_magic = str_bytes ''HPCTOOLKITmeta''"

definition fmt_metadb_footer :: "byte list" where [fmt_simps]:
  "fmt_metadb_footer = str_bytes ''_meta.db''"

section \<open>Version check\<close>

definition fmt_metadb_check :: "bool \<Rightarrow> mem \<Rightarrow> nat \<Rightarrow> fmt_version_t \<times> u8 option" where
  "fmt_metadb_check char_signed m hdr =
    (if get m hdr (length fmt_metadb_magic) \<noteq> fmt_metadb_magic then (fmt_version_invalid, None)
     else if char_to_int char_signed (get_byte m (hdr + 0xe)) \<noteq> int FMT_DB_MajorVersion
       then (fmt_version_major, None)
     else let minorVer = Some (get_byte m (hdr + 0xf)) in
       if char_to_int char_signed (get_byte m (hdr + 0xf)) < int FMT_METADB_MinorVersion
         then (fmt_version_backward, minorVer)
       else if char_to_int char_signed (get_byte m (hdr + 0xf)) > int FMT_METADB_MinorVersion
         then (fmt_version_forward, minorVer)
       else (fmt_version_exact, minorVer))"

section \<open>fHdr\<close>

record fmt_metadb_fHdr_t =
  fHdr_szGeneral :: u64
  fHdr_pGeneral :: u64
  fHdr_szIdNames :: u64
  fHdr_pIdNames :: u64
  fHdr_szMetrics :: u64
  fHdr_pMetrics :: u64
  fHdr_szContext :: u64
  fHdr_pContext :: u64
  fHdr_szStrings :: u64
  fHdr_pStrings :: u64
  fHdr_szModules :: u64
  fHdr_pModules :: u64
  fHdr_szFiles :: u64
  fHdr_pFiles :: u64
  fHdr_szFunctions :: u64
  fHdr_pFunctions :: u64

definition fmt_metadb_fHdr_read :: "mem \<Rightarrow> nat \<Rightarrow> fmt_metadb_fHdr_t" where [fmt_simps]:
  "fmt_metadb_fHdr_read m d =
    \<lparr> fHdr_szGeneral = fmt_u64_read m (d + 0x10),
      fHdr_pGeneral = fmt_u64_read m (d + 0x18),
      fHdr_szIdNames = fmt_u64_read m (d + 0x20),
      fHdr_pIdNames = fmt_u64_read m (d + 0x28),
      fHdr_szMetrics = fmt_u64_read m (d + 0x30),
      fHdr_pMetrics = fmt_u64_read m (d + 0x38),
      fHdr_szContext = fmt_u64_read m (d + 0x40),
      fHdr_pContext = fmt_u64_read m (d + 0x48),
      fHdr_szStrings = fmt_u64_read m (d + 0x50),
      fHdr_pStrings = fmt_u64_read m (d + 0x58),
      fHdr_szModules = fmt_u64_read m (d + 0x60),
      fHdr_pModules = fmt_u64_read m (d + 0x68),
      fHdr_szFiles = fmt_u64_read m (d + 0x70),
      fHdr_pFiles = fmt_u64_read m (d + 0x78),
      fHdr_szFunctions = fmt_u64_read m (d + 0x80),
      fHdr_pFunctions = fmt_u64_read m (d + 0x88) \<rparr>"

definition fmt_metadb_fHdr_write :: "mem \<Rightarrow> nat \<Rightarrow> fmt_metadb_fHdr_t \<Rightarrow> mem" where [fmt_simps]:
  "fmt_metadb_fHdr_write m d hdr =
    (let m = put m d fmt_metadb_magic;
         m = put_byte m (d + 0x0e) (of_nat FMT_DB_MajorVersion);
         m = put_byte m (d + 0x0f) (of_nat FMT_METADB_MinorVersion);
         m = fmt_u64_write m (d + 0x10) (fHdr_szGeneral hdr);
         m = fmt_u64_write m (d + 0x18) (fHdr_pGeneral hdr);
         m = fmt_u64_write m (d + 0x20) (fHdr_szIdNames hdr);
         m = fmt_u64_write m (d + 0x28) (fHdr_pIdNames hdr);
         m = fmt_u64_write m (d + 0x30) (fHdr_szMetrics hdr);
         m = fmt_u64_write m (d + 0x38) (fHdr_pMetrics hdr);
         m = fmt_u64_write m (d + 0x40) (fHdr_szContext hdr);
         m = fmt_u64_write m (d + 0x48) (fHdr_pContext hdr);
         m = fmt_u64_write m (d + 0x50) (fHdr_szStrings hdr);
         m = fmt_u64_write m (d + 0x58) (fHdr_pStrings hdr);
         m = fmt_u64_write m (d + 0x60) (fHdr_szModules hdr);
         m = fmt_u64_write m (d + 0x68) (fHdr_pModules hdr);
         m = fmt_u64_write m (d + 0x70) (fHdr_szFiles hdr);
         m = fmt_u64_write m (d + 0x78) (fHdr_pFiles hdr);
         m = fmt_u64_write m (d + 0x80) (fHdr_szFunctions hdr);
         m = fmt_u64_write m (d + 0x88) (fHdr_pFunctions hdr)
     in m)"

section \<open>generalSHdr\<close>

record fmt_metadb_generalSHdr_t =
  generalSHdr_pTitle :: u64
  generalSHdr_pDescription :: u64

definition fmt_metadb_generalSHdr_read :: "mem \<Rightarrow> nat \<Rightarrow> fmt_metadb_generalSHdr_t" where [fmt_simps]:
  "fmt_metadb_generalSHdr_read m d =
    \<lparr> generalSHdr_pTitle = fmt_u64_read m (d + 0x00),
      generalSHdr_pDescription = fmt_u64_read m (d + 0x08) \<rparr>"

definition fmt_metadb_generalSHdr_write :: "mem \<Rightarrow> nat \<Rightarrow> fmt_metadb_generalSHdr_t \<Rightarrow> mem" where [fmt_simps]:
  "fmt_metadb_generalSHdr_write m d ghdr =
    (let m = fmt_u64_write m (d + 0x00) (generalSHdr_pTitle ghdr);
         m = fmt_u64_write m (d + 0x08) (generalSHdr_pDescription ghdr)
     in m)"

section \<open>idNamesSHdr\<close>

record fmt_metadb_idNamesSHdr_t =
  idNamesSHdr_ppNames :: u64
  idNamesSHdr_nKinds :: u8

definition fmt_metadb_idNamesSHdr_read :: "mem \<Rightarrow> nat \<Rightarrow> fmt_metadb_idNamesSHdr_t" where [fmt_simps]:
  "fmt_metadb_idNamesSHdr_read m d =
    \<lparr> idNamesSHdr_ppNames = fmt_u64_read m (d + 0x00),
      idNamesSHdr_nKinds = get_byte m (d + 0x08) \<rparr>"

definition fmt_metadb_idNamesSHdr_write :: "mem \<Rightarrow> nat \<Rightarrow> fmt_metadb_idNamesSHdr_t \<Rightarrow> mem" where [fmt_simps]:
  "fmt_metadb_idNamesSHdr_write m d ihdr =
    (let m = fmt_u64_write m (d + 0x00) (idNamesSHdr_ppNames ihdr);
         m = put_byte m (d + 0x08) (idNamesSHdr_nKinds ihdr)
     in m)"

section \<open>metricsSHdr\<close>

record fmt_metadb_metricsSHdr_t =
  metricsSHdr_pMetrics :: u64
  metricsSHdr_nMetrics :: u32
  metricsSHdr_szMetric :: u8
  metricsSHdr_szScopeInst :: u8
  metricsSHdr_szSummary :: u8
  metricsSHdr_pScopes :: u64
  metricsSHdr_nScopes :: u8
  metricsSHdr_szScope :: u8

definition fmt_metadb_metricsSHdr_read :: "mem \<Rightarrow> nat \<Rightarrow> fmt_metadb_metricsSHdr_t" where [fmt_simps]:
  "fmt_metadb_metricsSHdr_read m d =
    \<lparr> metricsSHdr_pMetrics = fmt_u64_read m (d + 0x00),
      metricsSHdr_nMetrics = fmt_u32_read m (d + 0x08),
      metricsSHdr_szMetric = get_byte m (d + 0x0c),
      metricsSHdr_szScopeInst = get_byte m (d + 0x0d),
      metricsSHdr_szSummary = get_byte m (d + 0x0e),
      metricsSHdr_pScopes = fmt_u64_read m (d + 0x10),
      metricsSHdr_nScopes = ucast (fmt_u16_read m (d + 0x18)),
      metricsSHdr_szScope = get_byte m (d + 0x1a) \<rparr>"

definition fmt_metadb_metricsSHdr_write :: "mem \<Rightarrow> nat \<Rightarrow> fmt_metadb_metricsSHdr_t \<Rightarrow> mem" where [fmt_simps]:
  "fmt_metadb_metricsSHdr_write m d mhdr =
    (let m = fmt_u64_write m (d + 0x00) (metricsSHdr_pMetrics mhdr);
         m = fmt_u32_write m (d + 0x08) (metricsSHdr_nMetrics mhdr);
         m = put_byte m (d + 0x0c) (of_nat FMT_METADB_SZ_MetricDesc);
         m = put_byte m (d + 0x0d) (of_nat FMT_METADB_SZ_PropScopeInst);
         m = put_byte m (d + 0x0e) (of_nat FMT_METADB_SZ_SummaryStat);
         m = put_byte m (d + 0x0f) 0;
         m = fmt_u64_write m (d + 0x10) (metricsSHdr_pScopes mhdr);
         m = fmt_u16_write m (d + 0x18) (ucast (metricsSHdr_nScopes mhdr));
         m = put_byte m (d + 0x1a) (of_nat FMT_METADB_SZ_PropScope)
     in m)"

section \<open>metricDesc\<close>

record fmt_metadb_metricDesc_t =
  metricDesc_pName :: u64
  metricDesc_pScopeInsts :: u64
  metricDesc_pSummaries :: u64
  metricDesc_nScopeInsts :: u16
  metricDesc_nSummaries :: u16

definition fmt_metadb_metricDesc_read :: "mem \<Rightarrow> nat \<Rightarrow> fmt_metadb_metricDesc_t" where [fmt_simps]:
  "fmt_metadb_metricDesc_read m d =
    \<lparr> metricDesc_pName = fmt_u64_read m (d + 0x00),
      metricDesc_pScopeInsts = fmt_u64_read m (d + 0x08),
      metricDesc_pSummaries = fmt_u64_read m (d + 0x10),
      metricDesc_nScopeInsts = fmt_u16_read m (d + 0x18),
      metricDesc_nSummaries = fmt_u16_read m (d + 0x1a) \<rparr>"

definition fmt_metadb_metricDesc_write :: "mem \<Rightarrow> nat \<Rightarrow> fmt_metadb_metricDesc_t \<Rightarrow> mem" where [fmt_simps]:
  "fmt_metadb_metricDesc_write m d md =
    (let m = fmt_u64_write m (d + 0x00) (metricDesc_pName md);
         m = fmt_u64_write m (d + 0x08) (metricDesc_pScopeInsts md);
         m = fmt_u64_write m (d + 0x10) (metricDesc_pSummaries md);
         m = fmt_u16_write m (d + 0x18) (metricDesc_nScopeInsts md);
         m = fmt_u16_write m (d + 0x1a) (metricDesc_nSummaries md);
         m = memset0 m (d + 0x1c) (FMT_METADB_SZ_MetricDesc - 0x1c)
     in m)"

section \<open>propScopeInst\<close>

record fmt_metadb_propScopeInst_t =
  propScopeInst_pScope :: u64
  propScopeInst_propMetricId :: u16

definition fmt_metadb_propScopeInst_read :: "mem \<Rightarrow> nat \<Rightarrow> fmt_metadb_propScopeInst_t" where [fmt_simps]:
  "fmt_metadb_propScopeInst_read m d =
    \<lparr> propScopeInst_pScope = fmt_u64_read m (d + 0x00),
      propScopeInst_propMetricId = fmt_u16_read m (d + 0x08) \<rparr>"

definition fmt_metadb_propScopeInst_write :: "mem \<Rightarrow> nat \<Rightarrow> fmt_metadb_propScopeInst_t \<Rightarrow> mem" where [fmt_simps]:
  "fmt_metadb_propScopeInst_write m d psi =
    (let m = fmt_u64_write m (d + 0x00) (propScopeInst_pScope psi);
         m = fmt_u16_write m (d + 0x08) (propScopeInst_propMetricId psi);
         m = memset0 m (d + 0x0a) (FMT_METADB_SZ_PropScopeInst - 0x0a)
     in m)"

section \<open>summaryStat\<close>

record fmt_metadb_summaryStat_t =
  summaryStat_pScope :: u64
  summaryStat_pFormula :: u64
  summaryStat_combine :: u8
  summaryStat_statMetricId :: u16

definition fmt_metadb_summaryStat_read :: "mem \<Rightarrow> nat \<Rightarrow> fmt_metadb_summaryStat_t" where [fmt_simps]:
  "fmt_metadb_summaryStat_read m d =
    \<lparr> summaryStat_pScope = fmt_u64_read m (d + 0x00),
      summaryStat_pFormula = fmt_u64_read m (d + 0x08),
      summaryStat_combine = get_byte m (d + 0x10),
      summaryStat_statMetricId = fmt_u16_read m (d + 0x12) \<rparr>"

definition fmt_metadb_summaryStat_write :: "mem \<Rightarrow> nat \<Rightarrow> fmt_metadb_summaryStat_t \<Rightarrow> mem" where [fmt_simps]:
  "fmt_metadb_summaryStat_write m d ss =
    (let m = fmt_u64_write m (d + 0x00) (summaryStat_pScope ss);
         m = fmt_u64_write m (d + 0x08) (summaryStat_pFormula ss);
         m = put_byte m (d + 0x10) (summaryStat_combine ss);
         m = put_byte m (d + 0x11) 0;
         m = fmt_u16_write m (d + 0x12) (summaryStat_statMetricId ss);
         m = memset0 m (d + 0x14) (FMT_METADB_SZ_SummaryStat - 0x14)
     in m)"

section \<open>propScope\<close>

record fmt_metadb_propScope_t =
  propScope_pScopeName :: u64
  propScope_type :: u8
  propScope_propagationIndex :: u8

definition fmt_metadb_propScope_read :: "mem \<Rightarrow> nat \<Rightarrow> fmt_metadb_propScope_t" where [fmt_simps]:
  "fmt_metadb_propScope_read m d =
    \<lparr> propScope_pScopeName = fmt_u64_read m (d + 0x00),
      propScope_type = get_byte m (d + 0x08),
      propScope_propagationIndex = get_byte m (d + 0x09) \<rparr>"

definition fmt_metadb_propScope_write :: "mem \<Rightarrow> nat \<Rightarrow> fmt_metadb_propScope_t \<Rightarrow> mem" where [fmt_simps]:
  "fmt_metadb_propScope_write m d ps =
    (let m = fmt_u64_write m (d + 0x00) (propScope_pScopeName ps);
         m = put_byte m (d + 0x08) (propScope_type ps);
         m = put_byte m (d + 0x09) (propScope_propagationIndex ps);
         m = memset0 m (d + 0x0a) (FMT_METADB_SZ_PropScope - 0x0a)
     in m)"

section \<open>modulesSHdr\<close>

record fmt_metadb_modulesSHdr_t =
  modulesSHdr_pModules :: u64
  modulesSHdr_nModules :: u32
  modulesSHdr_szModule :: u16

definition fmt_metadb_modulesSHdr_read :: "mem \<Rightarrow> nat \<Rightarrow> fmt_metadb_modulesSHdr_t" where [fmt_simps]:
  "fmt_metadb_modulesSHdr_read m d =
    \<lparr> modulesSHdr_pModules = fmt_u64_read m (d + 0x00),
      modulesSHdr_nModules = fmt_u32_read m (d + 0x08),
      modulesSHdr_szModule = fmt_u16_read m (d + 0x0c) \<rparr>"

definition fmt_metadb_modulesSHdr_write :: "mem \<Rightarrow> nat \<Rightarrow> fmt_metadb_modulesSHdr_t \<Rightarrow> mem" where [fmt_simps]:
  "fmt_metadb_modulesSHdr_write m d mhdr =
    (let m = fmt_u64_write m (d + 0x00) (modulesSHdr_pModules mhdr);
         m = fmt_u32_write m (d + 0x08) (modulesSHdr_nModules mhdr);
         m = fmt_u16_write m (d + 0x0c) (of_nat FMT_METADB_SZ_ModuleSpec)
     in m)"

section \<open>moduleSpec\<close>

record fmt_metadb_moduleSpec_t =
  moduleSpec_pPath :: u64

definition fmt_metadb_moduleSpec_read :: "mem \<Rightarrow> nat \<Rightarrow> fmt_metadb_moduleSpec_t" where [fmt_simps]:
  "fmt_metadb_moduleSpec_read m d =
    \<lparr> moduleSpec_pPath = fmt_u64_read m (d + 0x08) \<rparr>"

definition fmt_metadb_moduleSpec_write :: "mem \<Rightarrow> nat \<Rightarrow> fmt_metadb_moduleSpec_t \<Rightarrow> mem" where [fmt_simps]:
  "fmt_metadb_moduleSpec_write m d lms =
    (let m = fmt_u32_write m (d + 0x00) 0;
         m = memset0 m (d + 0x04) 4;
         m = fmt_u64_write m (d + 0x08) (moduleSpec_pPath lms);
         m = memset0 m (d + 0x10) (FMT_METADB_SZ_ModuleSpec - 0x10)
     in m)"

section \<open>filesSHdr\<close>

record fmt_metadb_filesSHdr_t =
  filesSHdr_pFiles :: u64
  filesSHdr_nFiles :: u32
  filesSHdr_szFile :: u16

definition fmt_metadb_filesSHdr_read :: "mem \<Rightarrow> nat \<Rightarrow> fmt_metadb_filesSHdr_t" where [fmt_simps]:
  "fmt_metadb_filesSHdr_read m d =
    \<lparr> filesSHdr_pFiles = fmt_u64_read m (d + 0x00),
      filesSHdr_nFiles = fmt_u32_read m (d + 0x08),
      filesSHdr_szFile = fmt_u16_read m (d + 0x0c) \<rparr>"

definition fmt_metadb_filesSHdr_write :: "mem \<Rightarrow> nat \<Rightarrow> fmt_metadb_filesSHdr_t \<Rightarrow> mem" where [fmt_simps]:
  "fmt_metadb_filesSHdr_write m d fhdr =
    (let m = fmt_u64_write m (d + 0x00) (filesSHdr_pFiles fhdr);
         m = fmt_u32_write m (d + 0x08) (filesSHdr_nFiles fhdr);
         m = fmt_u16_write m (d + 0x0c) (of_nat FMT_METADB_SZ_FileSpec)
     in m)"

section \<open>fileSpec\<close>

record fmt_metadb_fileSpec_t =
  fileSpec_copied :: bool
  fileSpec_pPath :: u64

definition fmt_metadb_fileSpec_read :: "mem \<Rightarrow> nat \<Rightarrow> fmt_metadb_fileSpec_t" where [fmt_simps]:
  "fmt_metadb_fileSpec_read m d =
    \<lparr> fileSpec_copied = get_byte m (d + 0x00) AND 0x1 \<noteq> 0,
      fileSpec_pPath = fmt_u64_read m (d + 0x08) \<rparr>"

definition fmt_metadb_fileSpec_write :: "mem \<Rightarrow> nat \<Rightarrow> fmt_metadb_fileSpec_t \<Rightarrow> mem" where [fmt_simps]:
  "fmt_metadb_fileSpec_write m d sfs =
    (let m = fmt_u32_write m (d + 0x00) ((if fileSpec_copied sfs then 0x1 else 0) OR 0);
         m = memset0 m (d + 0x04) 4;
         m = fmt_u64_write m (d + 0x08) (fileSpec_pPath sfs);
         m = memset0 m (d + 0x10) (FMT_METADB_SZ_FileSpec - 0x10)
     in m)"

section \<open>functionsSHdr\<close>

record fmt_metadb_functionsSHdr_t =
  functionsSHdr_pFunctions :: u64
  functionsSHdr_nFunctions :: u32
  functionsSHdr_szFunction :: u16

definition fmt_metadb_functionsSHdr_read :: "mem \<Rightarrow> nat \<Rightarrow> fmt_metadb_functionsSHdr_t" where [fmt_simps]:
  "fmt_metadb_functionsSHdr_read m d =
    \<lparr> functionsSHdr_pFunctions = fmt_u64_read m (d + 0x00),
      functionsSHdr_nFunctions = fmt_u32_read m (d + 0x08),
      functionsSHdr_szFunction = fmt_u16_read m (d + 0x0c) \<rparr>"

definition fmt_metadb_functionsSHdr_write :: "mem \<Rightarrow> nat \<Rightarrow> fmt_metadb_functionsSHdr_t \<Rightarrow> mem" where [fmt_simps]:
  "fmt_metadb_functionsSHdr_write m d fhdr =
    (let m = fmt_u64_write m (d + 0x00) (functionsSHdr_pFunctions fhdr);
         m = fmt_u32_write m (d + 0x08) (functionsSHdr_nFunctions fhdr);
         m = fmt_u16_write m (d + 0x0c) (of_nat FMT_METADB_SZ_FunctionSpec)
     in m)"

section \<open>functionSpec\<close>

record fmt_metadb_functionSpec_t =
  functionSpec_pName :: u64
  functionSpec_pModule :: u64
  functionSpec_offset :: u64
  functionSpec_pFile :: u64
  functionSpec_line :: u32

definition fmt_metadb_functionSpec_read :: "mem \<Rightarrow> nat \<Rightarrow> fmt_metadb_functionSpec_t" where [fmt_simps]:
  "fmt_metadb_functionSpec_read m d =
    \<lparr> functionSpec_pName = fmt_u64_read m (d + 0x00),
      functionSpec_pModule = fmt_u64_read m (d + 0x08),
      functionSpec_offset = fmt_u64_read m (d + 0x10),
      functionSpec_pFile = fmt_u64_read m (d + 0x18),
      functionSpec_line = fmt_u32_read m (d + 0x20) \<rparr>"

definition fmt_metadb_functionSpec_write :: "mem \<Rightarrow> nat \<Rightarrow> fmt_metadb_functionSpec_t \<Rightarrow> mem" where [fmt_simps]:
  "fmt_metadb_functionSpec_write m d fs =
    (let m = fmt_u64_write m (d + 0x00) (functionSpec_pName fs);
         m = fmt_u64_write m (d + 0x08) (functionSpec_pModule fs);
         m = fmt_u64_write m (d + 0x10) (functionSpec_offset fs);
         m = fmt_u64_write m (d + 0x18) (functionSpec_pFile fs);
         m = fmt_u32_write m (d + 0x20) (functionSpec_line fs);
         m = memset0 m (d + 0x28) (FMT_METADB_SZ_FunctionSpec - 0x28)
     in m)"

section \<open>contextsSHdr\<close>

record fmt_metadb_contextsSHdr_t =
  contextsSHdr_pEntryPoints :: u64
  contextsSHdr_nEntryPoints :: u16
  contextsSHdr_szEntryPoint :: u8

definition fmt_metadb_contextsSHdr_read :: "mem \<Rightarrow> nat \<Rightarrow> fmt_metadb_contextsSHdr_t" where [fmt_simps]:
  "fmt_metadb_contextsSHdr_read m d =
    \<lparr> contextsSHdr_pEntryPoints = fmt_u64_read m (d + 0x00),
      contextsSHdr_nEntryPoints = fmt_u16_read m (d + 0x08),
      contextsSHdr_szEntryPoint = get_byte m (d + 0x0a) \<rparr>"

definition fmt_metadb_contextsSHdr_write :: "mem \<Rightarrow> nat \<Rightarrow> fmt_metadb_contextsSHdr_t \<Rightarrow> mem" where [fmt_simps]:
  "fmt_metadb_contextsSHdr_write m d chdr =
    (let m = fmt_u64_write m (d + 0x00) (contextsSHdr_pEntryPoints chdr);
         m = fmt_u16_write m (d + 0x08) (contextsSHdr_nEntryPoints chdr);
         m = put_byte m (d + 0x0a) (of_nat FMT_METADB_SZ_EntryPoint)
     in m)"

section \<open>entryPoint\<close>

record fmt_metadb_entryPoint_t =
  entryPoint_szChildren :: u64
  entryPoint_pChildren :: u64
  entryPoint_ctxId :: u32
  entryPoint_entryPoint :: u16
  entryPoint_pPrettyName :: u64

definition fmt_metadb_entryPoint_read :: "mem \<Rightarrow> nat \<Rightarrow> fmt_metadb_entryPoint_t" where [fmt_simps]:
  "fmt_metadb_entryPoint_read m d =
    \<lparr> entryPoint_szChildren = fmt_u64_read m (d + 0x00),
      entryPoint_pChildren = fmt_u64_read m (d + 0x08),
      entryPoint_ctxId = fmt_u32_read m (d + 0x10),
      entryPoint_entryPoint = fmt_u16_read m (d + 0x14),
      entryPoint_pPrettyName = fmt_u64_read m (d + 0x18) \<rparr>"

definition fmt_metadb_entryPoint_write :: "mem \<Rightarrow> nat \<Rightarrow> fmt_metadb_entryPoint_t \<Rightarrow> mem" where [fmt_simps]:
  "fmt_metadb_entryPoint_write m d ep =
    (let m = fmt_u64_write m (d + 0x00) (entryPoint_szChildren ep);
         m = fmt_u64_write m (d + 0x08) (entryPoint_pChildren ep);
         m = fmt_u32_write m (d + 0x10) (entryPoint_ctxId ep);
         m = fmt_u16_write m (d + 0x14) (entryPoint_entryPoint ep);
         m = fmt_u64_write m (d + 0x18) (entryPoint_pPrettyName ep);
         m = memset0 m (d + 0x20) (FMT_METADB_SZ_EntryPoint - 0x20)
     in m)"

section \<open>context\<close>

text \<open>
  A context has a variable size: up to five extra words follow the fixed part, present according
  to three flag bits. The reader fails when the recorded number of words cannot hold the
  fields that the flags announce, leaving the structure partly filled in; the writer returns the
  size it used.
\<close>

record fmt_metadb_context_t =
  context_szChildren :: u64
  context_pChildren :: u64
  context_ctxId :: u32
  context_relation :: u8
  context_lexicalType :: u8
  context_nFlexWords :: u8
  context_propagation :: u16
  context_pFunction :: u64
  context_pFile :: u64
  context_line :: u32
  context_pModule :: u64
  context_offset :: u64

definition FMT_METADB_MINSZ_Context :: nat where [fmt_simps]:
  "FMT_METADB_MINSZ_Context = 0x20"

definition FMT_METADB_SZ_Context :: "nat \<Rightarrow> nat" where [fmt_simps]:
  "FMT_METADB_SZ_Context nFlexWords = FMT_METADB_MINSZ_Context + 8 * nFlexWords"

definition FMT_METADB_MAXSZ_Context :: nat where [fmt_simps]:
  "FMT_METADB_MAXSZ_Context = FMT_METADB_SZ_Context 5"

definition fmt_metadb_context_read ::
  "fmt_metadb_context_t \<Rightarrow> mem \<Rightarrow> nat \<Rightarrow> bool \<times> fmt_metadb_context_t" where
  "fmt_metadb_context_read ctx m d =
    (let ctx = ctx\<lparr> context_szChildren := fmt_u64_read m (d + 0x00),
                    context_pChildren := fmt_u64_read m (d + 0x08),
                    context_ctxId := fmt_u32_read m (d + 0x10),
                    context_relation := get_byte m (d + 0x15),
                    context_lexicalType := get_byte m (d + 0x16),
                    context_nFlexWords := get_byte m (d + 0x17),
                    context_propagation := fmt_u16_read m (d + 0x18) \<rparr>;
         nFlexWords = unat (context_nFlexWords ctx);
         nwords = 0;
         ctx = ctx\<lparr> context_pFunction := 0 \<rparr>;
         hasFunction = (get_byte m (d + 0x14) AND 0x1 \<noteq> 0)
     in if hasFunction \<and> nFlexWords < nwords + 1 then (False, ctx)
     else let ctx = (if hasFunction
                     then ctx\<lparr> context_pFunction := fmt_u64_read m (d + 0x20 + nwords * 8) \<rparr>
                     else ctx);
              nwords = (if hasFunction then nwords + 1 else nwords);
              ctx = ctx\<lparr> context_pFile := 0, context_line := 0 \<rparr>;
              hasSrcLine = (get_byte m (d + 0x14) AND 0x2 \<noteq> 0)
     in if hasSrcLine \<and> nFlexWords < nwords + 2 then (False, ctx)
     else let ctx = (if hasSrcLine
                     then ctx\<lparr> context_pFile := fmt_u64_read m (d + 0x20 + nwords * 8),
                               context_line := fmt_u32_read m (d + 0x20 + (nwords + 1) * 8) \<rparr>
                     else ctx);
              nwords = (if hasSrcLine then nwords + 2 else nwords);
              ctx = ctx\<lparr> context_pModule := 0, context_offset := 0 \<rparr>;
              hasPoint = (get_byte m (d + 0x14) AND 0x4 \<noteq> 0)
     in if hasPoint \<and> nFlexWords < nwords + 2 then (False, ctx)
     else let ctx = (if hasPoint
                     then ctx\<lparr> context_pModule := fmt_u64_read m (d + 0x20 + nwords * 8),
                               context_offset := fmt_u64_read m (d + 0x20 + (nwords + 1) * 8) \<rparr>
                     else ctx)
     in (True, ctx))"

definition fmt_metadb_context_write ::
  "mem \<Rightarrow> nat \<Rightarrow> fmt_metadb_context_t \<Rightarrow> nat \<times> mem" where
  "fmt_metadb_context_write m d ctx =
    (let m = fmt_u64_write m (d + 0x00) (context_szChildren ctx);
         m = fmt_u64_write m (d + 0x08) (context_pChildren ctx);
         m = fmt_u32_write m (d + 0x10) (context_ctxId ctx);
         m = put_byte m (d + 0x14) 0;
         m = put_byte m (d + 0x15) (context_relation ctx);
         m = put_byte m (d + 0x16) (context_lexicalType ctx);
         m = fmt_u16_write m (d + 0x18) (context_propagation ctx);
         m = memset0 m (d + 0x1a) (FMT_METADB_MINSZ_Context - 0x1a);
         nwords = 0;
         (m, nwords) =
           (if context_pFunction ctx \<noteq> 0 then
              (let m = put_byte m (d + 0x14) (get_byte m (d + 0x14) OR 0x1);
                   m = fmt_u64_write m (d + 0x20 + nwords * 8) (context_pFunction ctx)
               in (m, nwords + 1))
            else (m, nwords));
         (m, nwords) =
           (if context_pFile ctx \<noteq> 0 then
              (let m = put_byte m (d + 0x14) (get_byte m (d + 0x14) OR 0x2);
                   m = fmt_u64_write m (d + 0x20 + nwords * 8) (context_pFile ctx);
                   m = fmt_u32_write m (d + 0x20 + (nwords + 1) * 8) (context_line ctx);
                   m = memset0 m (d + 0x20 + (nwords + 1) * 8 + 4) 4
               in (m, nwords + 2))
            else (m, nwords));
         (m, nwords) =
           (if context_pModule ctx \<noteq> 0 then
              (let m = put_byte m (d + 0x14) (get_byte m (d + 0x14) OR 0x4);
                   m = fmt_u64_write m (d + 0x20 + nwords * 8) (context_pModule ctx);
                   m = fmt_u64_write m (d + 0x20 + (nwords + 1) * 8) (context_offset ctx)
               in (m, nwords + 2))
            else (m, nwords));
         m = put_byte m (d + 0x17) (of_nat nwords)
     in (FMT_METADB_SZ_Context nwords, m))"

text \<open>
  The number of extra words a context needs, and the context a reader gives back: a line without
  a file and an offset without a module have no place in the format.
\<close>

definition context_words :: "fmt_metadb_context_t \<Rightarrow> nat" where
  "context_words ctx = (if context_pFunction ctx \<noteq> 0 then 1 else 0)
     + (if context_pFile ctx \<noteq> 0 then 2 else 0) + (if context_pModule ctx \<noteq> 0 then 2 else 0)"

definition context_norm :: "fmt_metadb_context_t \<Rightarrow> fmt_metadb_context_t" where
  "context_norm ctx = ctx\<lparr> context_nFlexWords := of_nat (context_words ctx),
     context_line := (if context_pFile ctx \<noteq> 0 then context_line ctx else 0),
     context_offset := (if context_pModule ctx \<noteq> 0 then context_offset ctx else 0) \<rparr>"

lemma context_words_bound: "context_words ctx \<le> 5"
  by (simp add: context_words_def)

lemma context_write_size:
  "fst (fmt_metadb_context_write m d ctx) = FMT_METADB_SZ_Context (context_words ctx)"
  by (simp add: fmt_metadb_context_write_def context_words_def Let_def)

lemma context_write_frame:
  assumes "i < d \<or> d + FMT_METADB_SZ_Context (context_words ctx) \<le> i"
  shows "snd (fmt_metadb_context_write m d ctx) i = m i"
  using assms by (auto simp: fmt_metadb_context_write_def context_words_def fmt_simps split: if_splits)

lemma context_read_write:
  "fmt_metadb_context_read c (snd (fmt_metadb_context_write m d ctx)) d = (True, context_norm ctx)"
proof -
  obtain sz p i r l n pr f fi li mo off
    where ctx: "ctx = fmt_metadb_context_t.make sz p i r l n pr f fi li mo off"
    by (cases ctx) (simp add: fmt_metadb_context_t.defs)
  show ?thesis
    unfolding ctx
    by (cases "f = 0"; cases "fi = 0"; cases "mo = 0")
      (simp_all add: fmt_metadb_context_read_def fmt_metadb_context_write_def context_norm_def
        context_words_def fmt_simps fmt_metadb_context_t.defs)
qed

section \<open>Every structure keeps the contract\<close>

interpretation metadb_fHdr: struct_codec fmt_metadb_fHdr_read fmt_metadb_fHdr_write
  FMT_METADB_SZ_FHdr "\<lambda>x. x"
  by unfold_locales (auto simp: fmt_simps intro: rd_local_intros)

interpretation metadb_generalSHdr: struct_codec fmt_metadb_generalSHdr_read fmt_metadb_generalSHdr_write
  FMT_METADB_SZ_GeneralSHdr "\<lambda>x. x"
  by unfold_locales (auto simp: fmt_simps intro: rd_local_intros)

interpretation metadb_idNamesSHdr: struct_codec fmt_metadb_idNamesSHdr_read fmt_metadb_idNamesSHdr_write
  FMT_METADB_SZ_IdNamesSHdr "\<lambda>x. x"
  by unfold_locales (auto simp: fmt_simps intro: rd_local_intros)

interpretation metadb_metricsSHdr: struct_codec fmt_metadb_metricsSHdr_read fmt_metadb_metricsSHdr_write
  FMT_METADB_SZ_MetricsSHdr "\<lambda>x. x\<lparr>metricsSHdr_szMetric := of_nat FMT_METADB_SZ_MetricDesc, metricsSHdr_szScopeInst := of_nat FMT_METADB_SZ_PropScopeInst, metricsSHdr_szSummary := of_nat FMT_METADB_SZ_SummaryStat, metricsSHdr_szScope := of_nat FMT_METADB_SZ_PropScope\<rparr>"
proof (unfold_locales, goal_cases)
  case (1 m d x)
  show ?case by (cases x) (auto simp: fmt_simps)
next
  case (2 i d m x)
  then show ?case by (auto simp: fmt_simps)
next
  case (3 m d m' d')
  then show ?case by (simp add: fmt_simps get_eq_mono [OF 3] get_eq_start [OF 3])
qed

interpretation metadb_metricDesc: struct_codec fmt_metadb_metricDesc_read fmt_metadb_metricDesc_write
  FMT_METADB_SZ_MetricDesc "\<lambda>x. x"
  by unfold_locales (auto simp: fmt_simps intro: rd_local_intros)

interpretation metadb_propScopeInst: struct_codec fmt_metadb_propScopeInst_read fmt_metadb_propScopeInst_write
  FMT_METADB_SZ_PropScopeInst "\<lambda>x. x"
  by unfold_locales (auto simp: fmt_simps intro: rd_local_intros)

interpretation metadb_summaryStat: struct_codec fmt_metadb_summaryStat_read fmt_metadb_summaryStat_write
  FMT_METADB_SZ_SummaryStat "\<lambda>x. x"
  by unfold_locales (auto simp: fmt_simps intro: rd_local_intros)

interpretation metadb_propScope: struct_codec fmt_metadb_propScope_read fmt_metadb_propScope_write
  FMT_METADB_SZ_PropScope "\<lambda>x. x"
  by unfold_locales (auto simp: fmt_simps intro: rd_local_intros)

interpretation metadb_modulesSHdr: struct_codec fmt_metadb_modulesSHdr_read fmt_metadb_modulesSHdr_write
  FMT_METADB_SZ_ModulesSHdr "\<lambda>x. x\<lparr>modulesSHdr_szModule := of_nat FMT_METADB_SZ_ModuleSpec\<rparr>"
  by unfold_locales (auto simp: fmt_simps intro: rd_local_intros)

interpretation metadb_moduleSpec: struct_codec fmt_metadb_moduleSpec_read fmt_metadb_moduleSpec_write
  FMT_METADB_SZ_ModuleSpec "\<lambda>x. x"
  by unfold_locales (auto simp: fmt_simps intro: rd_local_intros)

interpretation metadb_filesSHdr: struct_codec fmt_metadb_filesSHdr_read fmt_metadb_filesSHdr_write
  FMT_METADB_SZ_FilesSHdr "\<lambda>x. x\<lparr>filesSHdr_szFile := of_nat FMT_METADB_SZ_FileSpec\<rparr>"
  by unfold_locales (auto simp: fmt_simps intro: rd_local_intros)

interpretation metadb_fileSpec: struct_codec fmt_metadb_fileSpec_read fmt_metadb_fileSpec_write
  FMT_METADB_SZ_FileSpec "\<lambda>x. x"
proof (unfold_locales, goal_cases)
  case (1 m d x)
  show ?case by (cases x) (auto simp: fmt_simps)
next
  case (2 i d m x)
  then show ?case by (auto simp: fmt_simps)
next
  case (3 m d m' d')
  then show ?case by (simp add: fmt_simps get_eq_mono [OF 3] get_eq_start [OF 3])
qed

interpretation metadb_functionsSHdr: struct_codec fmt_metadb_functionsSHdr_read fmt_metadb_functionsSHdr_write
  FMT_METADB_SZ_FunctionsSHdr "\<lambda>x. x\<lparr>functionsSHdr_szFunction := of_nat FMT_METADB_SZ_FunctionSpec\<rparr>"
  by unfold_locales (auto simp: fmt_simps intro: rd_local_intros)

interpretation metadb_functionSpec: struct_codec fmt_metadb_functionSpec_read fmt_metadb_functionSpec_write
  FMT_METADB_SZ_FunctionSpec "\<lambda>x. x"
  by unfold_locales (auto simp: fmt_simps intro: rd_local_intros)

interpretation metadb_contextsSHdr: struct_codec fmt_metadb_contextsSHdr_read fmt_metadb_contextsSHdr_write
  FMT_METADB_SZ_ContextsSHdr "\<lambda>x. x\<lparr>contextsSHdr_szEntryPoint := of_nat FMT_METADB_SZ_EntryPoint\<rparr>"
  by unfold_locales (auto simp: fmt_simps intro: rd_local_intros)

interpretation metadb_entryPoint: struct_codec fmt_metadb_entryPoint_read fmt_metadb_entryPoint_write
  FMT_METADB_SZ_EntryPoint "\<lambda>x. x"
  by unfold_locales (auto simp: fmt_simps intro: rd_local_intros)

section \<open>Properties\<close>

text \<open>
  C38. A context written at any address is read back: the reader succeeds and gives every field of
  the context written, with the number of extra words the writer used and with the line and the
  offset cleared where the format has no place for them, whatever the structure read into held.
\<close>

theorem metadb_context_roundtrip:
  "fmt_metadb_context_read c (snd (fmt_metadb_context_write m d ctx)) d = (True, context_norm ctx)"
  by (rule context_read_write)

text \<open>
  Writing a context changes no byte outside the size it returns; that size is the one the
  number of extra words gives, and never exceeds the maximum the header announces to callers that
  allocate the buffer.
\<close>

theorem metadb_context_write_bounds:
  "{i. snd (fmt_metadb_context_write m d ctx) i \<noteq> m i}
     \<subseteq> {d..<d + fst (fmt_metadb_context_write m d ctx)} \<and>
   fst (fmt_metadb_context_write m d ctx) = FMT_METADB_SZ_Context (context_words ctx) \<and>
   fst (fmt_metadb_context_write m d ctx) \<le> FMT_METADB_MAXSZ_Context"
proof (intro conjI)
  show "{i. snd (fmt_metadb_context_write m d ctx) i \<noteq> m i}
     \<subseteq> {d..<d + fst (fmt_metadb_context_write m d ctx)}"
  proof
    fix i assume "i \<in> {i. snd (fmt_metadb_context_write m d ctx) i \<noteq> m i}"
    then show "i \<in> {d..<d + fst (fmt_metadb_context_write m d ctx)}"
      using context_write_frame [of i d ctx m] unfolding context_write_size
      by (cases "i < d \<or> d + FMT_METADB_SZ_Context (context_words ctx) \<le> i") auto
  qed
  show "fst (fmt_metadb_context_write m d ctx) = FMT_METADB_SZ_Context (context_words ctx)"
    by (rule context_write_size)
  show "fst (fmt_metadb_context_write m d ctx) \<le> FMT_METADB_MAXSZ_Context"
    using context_words_bound [of ctx] by (simp add: context_write_size fmt_simps)
qed

text \<open>
  C39. On arbitrary bytes the context reader succeeds exactly when the recorded number of extra words
  holds every group of fields that the flags announce: one word for a function, two for a source
  line, two for an instruction point.
\<close>

theorem metadb_context_read_checks:
  "fst (fmt_metadb_context_read c m d) \<longleftrightarrow>
     (if get_byte m (d + 0x14) AND 0x1 \<noteq> 0 then 1 else 0)
     + (if get_byte m (d + 0x14) AND 0x2 \<noteq> 0 then 2 else 0)
     + (if get_byte m (d + 0x14) AND 0x4 \<noteq> 0 then 2 else 0) \<le> unat (get_byte m (d + 0x17))"
  by (simp add: fmt_metadb_context_read_def Let_def)

text \<open>
  The file header and the six section headers of \<open>meta.db\<close> are read back as written, the size
  fields of the section headers being those of the format whatever the caller put there.
\<close>

theorem metadb_headers_roundtrip:
  "fmt_metadb_fHdr_read (fmt_metadb_fHdr_write m d fh) d = fh \<and>
   fmt_metadb_generalSHdr_read (fmt_metadb_generalSHdr_write m d gh) d = gh \<and>
   fmt_metadb_idNamesSHdr_read (fmt_metadb_idNamesSHdr_write m d ih) d = ih \<and>
   fmt_metadb_metricsSHdr_read (fmt_metadb_metricsSHdr_write m d mh) d =
     mh\<lparr> metricsSHdr_szMetric := of_nat FMT_METADB_SZ_MetricDesc,
         metricsSHdr_szScopeInst := of_nat FMT_METADB_SZ_PropScopeInst,
         metricsSHdr_szSummary := of_nat FMT_METADB_SZ_SummaryStat,
         metricsSHdr_szScope := of_nat FMT_METADB_SZ_PropScope \<rparr> \<and>
   fmt_metadb_modulesSHdr_read (fmt_metadb_modulesSHdr_write m d lh) d =
     lh\<lparr> modulesSHdr_szModule := of_nat FMT_METADB_SZ_ModuleSpec \<rparr> \<and>
   fmt_metadb_filesSHdr_read (fmt_metadb_filesSHdr_write m d sh) d =
     sh\<lparr> filesSHdr_szFile := of_nat FMT_METADB_SZ_FileSpec \<rparr> \<and>
   fmt_metadb_functionsSHdr_read (fmt_metadb_functionsSHdr_write m d nh) d =
     nh\<lparr> functionsSHdr_szFunction := of_nat FMT_METADB_SZ_FunctionSpec \<rparr> \<and>
   fmt_metadb_contextsSHdr_read (fmt_metadb_contextsSHdr_write m d ch) d =
     ch\<lparr> contextsSHdr_szEntryPoint := of_nat FMT_METADB_SZ_EntryPoint \<rparr>"
  by (intro conjI metadb_fHdr.rd_wr metadb_generalSHdr.rd_wr metadb_idNamesSHdr.rd_wr
      metadb_metricsSHdr.rd_wr metadb_modulesSHdr.rd_wr metadb_filesSHdr.rd_wr
      metadb_functionsSHdr.rd_wr metadb_contextsSHdr.rd_wr)

text \<open>
  Every array of \<open>meta.db\<close> written element after element at the stride its section header
  announces is read back at every index: metric descriptions, scope instances, summaries, scopes,
  modules, files, functions and entry points.
\<close>

theorem metadb_arrays_roundtrip:
  "(\<forall>i < length ms. fmt_metadb_metricDesc_read
      (write_array fmt_metadb_metricDesc_write FMT_METADB_SZ_MetricDesc m d ms)
      (d + FMT_METADB_SZ_MetricDesc * i) = ms ! i) \<and>
   (\<forall>i < length sis. fmt_metadb_propScopeInst_read
      (write_array fmt_metadb_propScopeInst_write FMT_METADB_SZ_PropScopeInst m d sis)
      (d + FMT_METADB_SZ_PropScopeInst * i) = sis ! i) \<and>
   (\<forall>i < length sums. fmt_metadb_summaryStat_read
      (write_array fmt_metadb_summaryStat_write FMT_METADB_SZ_SummaryStat m d sums)
      (d + FMT_METADB_SZ_SummaryStat * i) = sums ! i) \<and>
   (\<forall>i < length scs. fmt_metadb_propScope_read
      (write_array fmt_metadb_propScope_write FMT_METADB_SZ_PropScope m d scs)
      (d + FMT_METADB_SZ_PropScope * i) = scs ! i) \<and>
   (\<forall>i < length mods. fmt_metadb_moduleSpec_read
      (write_array fmt_metadb_moduleSpec_write FMT_METADB_SZ_ModuleSpec m d mods)
      (d + FMT_METADB_SZ_ModuleSpec * i) = mods ! i) \<and>
   (\<forall>i < length fls. fmt_metadb_fileSpec_read
      (write_array fmt_metadb_fileSpec_write FMT_METADB_SZ_FileSpec m d fls)
      (d + FMT_METADB_SZ_FileSpec * i) = fls ! i) \<and>
   (\<forall>i < length fns. fmt_metadb_functionSpec_read
      (write_array fmt_metadb_functionSpec_write FMT_METADB_SZ_FunctionSpec m d fns)
      (d + FMT_METADB_SZ_FunctionSpec * i) = fns ! i) \<and>
   (\<forall>i < length eps. fmt_metadb_entryPoint_read
      (write_array fmt_metadb_entryPoint_write FMT_METADB_SZ_EntryPoint m d eps)
      (d + FMT_METADB_SZ_EntryPoint * i) = eps ! i)"
  by (intro conjI allI impI metadb_metricDesc.array_roundtrip metadb_propScopeInst.array_roundtrip
      metadb_summaryStat.array_roundtrip metadb_propScope.array_roundtrip
      metadb_moduleSpec.array_roundtrip metadb_fileSpec.array_roundtrip
      metadb_functionSpec.array_roundtrip metadb_entryPoint.array_roundtrip)

theorem metadb_arrays_roundtrip_witness:
  "fmt_metadb_moduleSpec_read
     (write_array fmt_metadb_moduleSpec_write FMT_METADB_SZ_ModuleSpec (\<lambda>_. 0) 0x40
       [\<lparr> moduleSpec_pPath = 1 \<rparr>, \<lparr> moduleSpec_pPath = 0x1234 \<rparr>])
     (0x40 + FMT_METADB_SZ_ModuleSpec * 1) = \<lparr> moduleSpec_pPath = 0x1234 \<rparr>"
  using metadb_arrays_roundtrip [where m = "\<lambda>_. 0" and d = "0x40" and ms = "[]" and sis = "[]"
    and sums = "[]" and scs = "[]" and fls = "[]" and fns = "[]" and eps = "[]"
    and mods = "[\<lparr> moduleSpec_pPath = 1 \<rparr>, \<lparr> moduleSpec_pPath = 0x1234 \<rparr>]"]
  by (simp add: All_less_Suc)

end
