(* ===== verification/Fmt_Profiledb.thy ===== *)
theory Fmt_Profiledb
  imports Fmt_Primitive
begin

text \<open>
  The serialised structures of \<open>profile.db\<close> (\<open>src/common/lean/formats/profiledb.c\<close> and
  \<open>profiledb.h\<close>): one record per C struct, one reader and one writer each, and the version check.
  Fields of anonymous inner structs are flattened into the record of the outer one. Every
  structure is an interpretation of \<open>struct_codec\<close>.
\<close>

section \<open>Constants\<close>

definition FMT_PROFILEDB_MinorVersion :: nat where [fmt_simps]:
  "FMT_PROFILEDB_MinorVersion = 0"

definition FMT_PROFILEDB_SZ_FHdr :: nat where [fmt_simps]:
  "FMT_PROFILEDB_SZ_FHdr = 0x30"

definition FMT_PROFILEDB_SZ_ProfInfoSHdr :: nat where [fmt_simps]:
  "FMT_PROFILEDB_SZ_ProfInfoSHdr = 0x0d"

definition FMT_PROFILEDB_SZ_ProfInfo :: nat where [fmt_simps]:
  "FMT_PROFILEDB_SZ_ProfInfo = 0x30"

definition FMT_PROFILEDB_SZ_MVal :: nat where [fmt_simps]:
  "FMT_PROFILEDB_SZ_MVal = 0x0a"

definition FMT_PROFILEDB_SZ_CIdx :: nat where [fmt_simps]:
  "FMT_PROFILEDB_SZ_CIdx = 0x0c"

definition FMT_PROFILEDB_SZ_IdTupleHdr :: nat where [fmt_simps]:
  "FMT_PROFILEDB_SZ_IdTupleHdr = 0x08"

definition FMT_PROFILEDB_SZ_IdTupleElem :: nat where [fmt_simps]:
  "FMT_PROFILEDB_SZ_IdTupleElem = 0x10"

definition fmt_profiledb_magic :: "byte list" where [fmt_simps]:
  "fmt_profiledb_magic = str_bytes ''HPCTOOLKITprof''"

definition fmt_profiledb_footer :: "byte list" where [fmt_simps]:
  "fmt_profiledb_footer = str_bytes ''_prof.db''"

section \<open>Version check\<close>

definition fmt_profiledb_check :: "bool \<Rightarrow> mem \<Rightarrow> nat \<Rightarrow> fmt_version_t \<times> u8 option" where
  "fmt_profiledb_check char_signed m hdr =
    (if get m hdr (length fmt_profiledb_magic) \<noteq> fmt_profiledb_magic then (fmt_version_invalid, None)
     else if char_to_int char_signed (get_byte m (hdr + 0xe)) \<noteq> int FMT_DB_MajorVersion
       then (fmt_version_major, None)
     else let minorVer = Some (get_byte m (hdr + 0xf)) in
       if char_to_int char_signed (get_byte m (hdr + 0xf)) < int FMT_PROFILEDB_MinorVersion
         then (fmt_version_backward, minorVer)
       else if char_to_int char_signed (get_byte m (hdr + 0xf)) > int FMT_PROFILEDB_MinorVersion
         then (fmt_version_forward, minorVer)
       else (fmt_version_exact, minorVer))"

section \<open>fHdr\<close>

record fmt_profiledb_fHdr_t =
  fHdr_szProfileInfos :: u64
  fHdr_pProfileInfos :: u64
  fHdr_szIdTuples :: u64
  fHdr_pIdTuples :: u64

definition fmt_profiledb_fHdr_read :: "mem \<Rightarrow> nat \<Rightarrow> fmt_profiledb_fHdr_t" where [fmt_simps]:
  "fmt_profiledb_fHdr_read m d =
    \<lparr> fHdr_szProfileInfos = fmt_u64_read m (d + 0x10),
      fHdr_pProfileInfos = fmt_u64_read m (d + 0x18),
      fHdr_szIdTuples = fmt_u64_read m (d + 0x20),
      fHdr_pIdTuples = fmt_u64_read m (d + 0x28) \<rparr>"

definition fmt_profiledb_fHdr_write :: "mem \<Rightarrow> nat \<Rightarrow> fmt_profiledb_fHdr_t \<Rightarrow> mem" where [fmt_simps]:
  "fmt_profiledb_fHdr_write m d hdr =
    (let m = put m d fmt_profiledb_magic;
         m = put_byte m (d + 0x0e) (of_nat FMT_DB_MajorVersion);
         m = put_byte m (d + 0x0f) (of_nat FMT_PROFILEDB_MinorVersion);
         m = fmt_u64_write m (d + 0x10) (fHdr_szProfileInfos hdr);
         m = fmt_u64_write m (d + 0x18) (fHdr_pProfileInfos hdr);
         m = fmt_u64_write m (d + 0x20) (fHdr_szIdTuples hdr);
         m = fmt_u64_write m (d + 0x28) (fHdr_pIdTuples hdr)
     in m)"

section \<open>profInfoSHdr\<close>

record fmt_profiledb_profInfoSHdr_t =
  profInfoSHdr_pProfiles :: u64
  profInfoSHdr_nProfiles :: u32
  profInfoSHdr_szProfile :: u8

definition fmt_profiledb_profInfoSHdr_read :: "mem \<Rightarrow> nat \<Rightarrow> fmt_profiledb_profInfoSHdr_t" where [fmt_simps]:
  "fmt_profiledb_profInfoSHdr_read m d =
    \<lparr> profInfoSHdr_pProfiles = fmt_u64_read m (d + 0x00),
      profInfoSHdr_nProfiles = fmt_u32_read m (d + 0x08),
      profInfoSHdr_szProfile = get_byte m (d + 0x0c) \<rparr>"

definition fmt_profiledb_profInfoSHdr_write :: "mem \<Rightarrow> nat \<Rightarrow> fmt_profiledb_profInfoSHdr_t \<Rightarrow> mem" where [fmt_simps]:
  "fmt_profiledb_profInfoSHdr_write m d hdr =
    (let m = fmt_u64_write m (d + 0x00) (profInfoSHdr_pProfiles hdr);
         m = fmt_u32_write m (d + 0x08) (profInfoSHdr_nProfiles hdr);
         m = put_byte m (d + 0x0c) (of_nat FMT_PROFILEDB_SZ_ProfInfo)
     in m)"

section \<open>profInfo\<close>

record fmt_profiledb_profInfo_t =
  profInfo_nValues :: u64
  profInfo_pValues :: u64
  profInfo_nCtxs :: u32
  profInfo_pCtxIndices :: u64
  profInfo_pIdTuple :: u64
  profInfo_isSummary :: bool

definition fmt_profiledb_profInfo_read :: "mem \<Rightarrow> nat \<Rightarrow> fmt_profiledb_profInfo_t" where [fmt_simps]:
  "fmt_profiledb_profInfo_read m d =
    (let flags = fmt_u32_read m (d + 0x28) in
     \<lparr> profInfo_nValues = fmt_u64_read m (d + 0x00),
      profInfo_pValues = fmt_u64_read m (d + 0x08),
      profInfo_nCtxs = fmt_u32_read m (d + 0x10),
      profInfo_pCtxIndices = fmt_u64_read m (d + 0x18),
      profInfo_pIdTuple = fmt_u64_read m (d + 0x20),
      profInfo_isSummary = flags AND 0x1 \<noteq> 0 \<rparr>)"

definition fmt_profiledb_profInfo_write :: "mem \<Rightarrow> nat \<Rightarrow> fmt_profiledb_profInfo_t \<Rightarrow> mem" where [fmt_simps]:
  "fmt_profiledb_profInfo_write m d pi =
    (let m = fmt_u64_write m (d + 0x00) (profInfo_nValues pi);
         m = fmt_u64_write m (d + 0x08) (profInfo_pValues pi);
         m = fmt_u32_write m (d + 0x10) (profInfo_nCtxs pi);
         m = memset0 m (d + 0x14) 4;
         m = fmt_u64_write m (d + 0x18) (profInfo_pCtxIndices pi);
         m = fmt_u64_write m (d + 0x20) (profInfo_pIdTuple pi);
         m = fmt_u32_write m (d + 0x28) ((if profInfo_isSummary pi then 0x1 else 0) OR 0);
         m = memset0 m (d + 0x2c) (FMT_PROFILEDB_SZ_ProfInfo - 0x2c)
     in m)"

section \<open>mVal\<close>

record fmt_profiledb_mVal_t =
  mVal_metricId :: u16
  mVal_value :: f64

definition fmt_profiledb_mVal_read :: "mem \<Rightarrow> nat \<Rightarrow> fmt_profiledb_mVal_t" where [fmt_simps]:
  "fmt_profiledb_mVal_read m d =
    \<lparr> mVal_metricId = fmt_u16_read m (d + 0x00),
      mVal_value = fmt_f64_read m (d + 0x02) \<rparr>"

definition fmt_profiledb_mVal_write :: "mem \<Rightarrow> nat \<Rightarrow> fmt_profiledb_mVal_t \<Rightarrow> mem" where [fmt_simps]:
  "fmt_profiledb_mVal_write m d mv =
    (let m = fmt_u16_write m (d + 0x00) (mVal_metricId mv);
         m = fmt_f64_write m (d + 0x02) (mVal_value mv)
     in m)"

section \<open>cIdx\<close>

record fmt_profiledb_cIdx_t =
  cIdx_ctxId :: u32
  cIdx_startIndex :: u64

definition fmt_profiledb_cIdx_read :: "mem \<Rightarrow> nat \<Rightarrow> fmt_profiledb_cIdx_t" where [fmt_simps]:
  "fmt_profiledb_cIdx_read m d =
    \<lparr> cIdx_ctxId = fmt_u32_read m (d + 0x00),
      cIdx_startIndex = fmt_u64_read m (d + 0x04) \<rparr>"

definition fmt_profiledb_cIdx_write :: "mem \<Rightarrow> nat \<Rightarrow> fmt_profiledb_cIdx_t \<Rightarrow> mem" where [fmt_simps]:
  "fmt_profiledb_cIdx_write m d ci =
    (let m = fmt_u32_write m (d + 0x00) (cIdx_ctxId ci);
         m = fmt_u64_write m (d + 0x04) (cIdx_startIndex ci)
     in m)"

section \<open>idTupleHdr\<close>

record fmt_profiledb_idTupleHdr_t =
  idTupleHdr_nIds :: u16

definition fmt_profiledb_idTupleHdr_read :: "mem \<Rightarrow> nat \<Rightarrow> fmt_profiledb_idTupleHdr_t" where [fmt_simps]:
  "fmt_profiledb_idTupleHdr_read m d =
    \<lparr> idTupleHdr_nIds = fmt_u16_read m (d + 0x00) \<rparr>"

definition fmt_profiledb_idTupleHdr_write :: "mem \<Rightarrow> nat \<Rightarrow> fmt_profiledb_idTupleHdr_t \<Rightarrow> mem" where [fmt_simps]:
  "fmt_profiledb_idTupleHdr_write m d hdr =
    (let m = fmt_u16_write m (d + 0x00) (idTupleHdr_nIds hdr);
         m = memset0 m (d + 0x02) (FMT_PROFILEDB_SZ_IdTupleHdr - 0x02)
     in m)"

section \<open>idTupleElem\<close>

record fmt_profiledb_idTupleElem_t =
  idTupleElem_kind :: u8
  idTupleElem_isPhysical :: bool
  idTupleElem_logicalId :: u32
  idTupleElem_physicalId :: u64

definition fmt_profiledb_idTupleElem_read :: "mem \<Rightarrow> nat \<Rightarrow> fmt_profiledb_idTupleElem_t" where [fmt_simps]:
  "fmt_profiledb_idTupleElem_read m d =
    \<lparr> idTupleElem_kind = get_byte m (d + 0x00),
      idTupleElem_isPhysical = get_byte m (d + 0x02) AND 0x1 \<noteq> 0,
      idTupleElem_logicalId = fmt_u32_read m (d + 0x04),
      idTupleElem_physicalId = fmt_u64_read m (d + 0x08) \<rparr>"

definition fmt_profiledb_idTupleElem_write :: "mem \<Rightarrow> nat \<Rightarrow> fmt_profiledb_idTupleElem_t \<Rightarrow> mem" where [fmt_simps]:
  "fmt_profiledb_idTupleElem_write m d elem =
    (let m = put_byte m (d + 0x00) (idTupleElem_kind elem);
         m = put_byte m (d + 0x01) 0;
         m = put_byte m (d + 0x02) ((if idTupleElem_isPhysical elem then 0x1 else 0) OR 0);
         m = fmt_u32_write m (d + 0x04) (idTupleElem_logicalId elem);
         m = fmt_u64_write m (d + 0x08) (idTupleElem_physicalId elem)
     in m)"

section \<open>Every structure keeps the contract\<close>

interpretation profiledb_fHdr: struct_codec fmt_profiledb_fHdr_read fmt_profiledb_fHdr_write
  FMT_PROFILEDB_SZ_FHdr "\<lambda>x. x"
  by unfold_locales (auto simp: fmt_simps intro: rd_local_intros)

interpretation profiledb_profInfoSHdr: struct_codec fmt_profiledb_profInfoSHdr_read fmt_profiledb_profInfoSHdr_write
  FMT_PROFILEDB_SZ_ProfInfoSHdr "\<lambda>x. x\<lparr>profInfoSHdr_szProfile := of_nat FMT_PROFILEDB_SZ_ProfInfo\<rparr>"
  by unfold_locales (auto simp: fmt_simps intro: rd_local_intros)

interpretation profiledb_profInfo: struct_codec fmt_profiledb_profInfo_read fmt_profiledb_profInfo_write
  FMT_PROFILEDB_SZ_ProfInfo "\<lambda>x. x"
proof (unfold_locales, goal_cases)
  case (1 m d x)
  show ?case by (cases x) (auto simp: fmt_simps)
next
  case (2 i d m x)
  then show ?case by (auto simp: fmt_simps)
next
  case (3 m d m' d')
  then show ?case by (simp add: fmt_simps get_eq_mono [OF 3] get_eq_start [OF 3])
qed

interpretation profiledb_mVal: struct_codec fmt_profiledb_mVal_read fmt_profiledb_mVal_write
  FMT_PROFILEDB_SZ_MVal "\<lambda>x. x"
  by unfold_locales (auto simp: fmt_simps intro: rd_local_intros)

interpretation profiledb_cIdx: struct_codec fmt_profiledb_cIdx_read fmt_profiledb_cIdx_write
  FMT_PROFILEDB_SZ_CIdx "\<lambda>x. x"
  by unfold_locales (auto simp: fmt_simps intro: rd_local_intros)

interpretation profiledb_idTupleHdr: struct_codec fmt_profiledb_idTupleHdr_read fmt_profiledb_idTupleHdr_write
  FMT_PROFILEDB_SZ_IdTupleHdr "\<lambda>x. x"
  by unfold_locales (auto simp: fmt_simps intro: rd_local_intros)

interpretation profiledb_idTupleElem: struct_codec fmt_profiledb_idTupleElem_read fmt_profiledb_idTupleElem_write
  FMT_PROFILEDB_SZ_IdTupleElem "\<lambda>x. x"
proof (unfold_locales, goal_cases)
  case (1 m d x)
  show ?case by (cases x) (auto simp: fmt_simps)
next
  case (2 i d m x)
  then show ?case by (auto simp: fmt_simps)
next
  case (3 m d m' d')
  then show ?case by (simp add: fmt_simps get_eq_mono [OF 3] get_eq_start [OF 3])
qed

lemma profInfoSHdr_roundtrip:
  "fmt_profiledb_profInfoSHdr_read (fmt_profiledb_profInfoSHdr_write m d sh) d = sh\<lparr> profInfoSHdr_szProfile := 48 \<rparr>"
  using profiledb_profInfoSHdr.rd_wr by (simp add: FMT_PROFILEDB_SZ_ProfInfo_def)

section \<open>Properties\<close>

text \<open>
  C40. The headers of \<open>profile.db\<close> are read back as written, but for the size of a profile description, which is always 48, the
  size that the code and the layout table of \<open>doc/FORMATS.md\<close> give (the description of the field there says 40); and so is every element of its arrays: profile descriptions, metric values, context
  indices and the elements of an identifier tuple.
\<close>

theorem profiledb_roundtrip:
  "fmt_profiledb_fHdr_read (fmt_profiledb_fHdr_write m d fh) d = fh \<and>
   fmt_profiledb_profInfoSHdr_read (fmt_profiledb_profInfoSHdr_write m d sh) d = sh\<lparr> profInfoSHdr_szProfile := 48 \<rparr> \<and>
   fmt_profiledb_idTupleHdr_read (fmt_profiledb_idTupleHdr_write m d th) d = th \<and>
   (\<forall>i < length ps. fmt_profiledb_profInfo_read
      (write_array fmt_profiledb_profInfo_write FMT_PROFILEDB_SZ_ProfInfo m d ps)
      (d + FMT_PROFILEDB_SZ_ProfInfo * i) = ps ! i) \<and>
   (\<forall>i < length mvs. fmt_profiledb_mVal_read
      (write_array fmt_profiledb_mVal_write FMT_PROFILEDB_SZ_MVal m d mvs)
      (d + FMT_PROFILEDB_SZ_MVal * i) = mvs ! i) \<and>
   (\<forall>i < length cis. fmt_profiledb_cIdx_read
      (write_array fmt_profiledb_cIdx_write FMT_PROFILEDB_SZ_CIdx m d cis)
      (d + FMT_PROFILEDB_SZ_CIdx * i) = cis ! i) \<and>
   (\<forall>i < length els. fmt_profiledb_idTupleElem_read
      (write_array fmt_profiledb_idTupleElem_write FMT_PROFILEDB_SZ_IdTupleElem m d els)
      (d + FMT_PROFILEDB_SZ_IdTupleElem * i) = els ! i)"
  by (intro conjI allI impI profiledb_fHdr.rd_wr
      profInfoSHdr_roundtrip
      profiledb_idTupleHdr.rd_wr
      profiledb_profInfo.array_roundtrip
      profiledb_mVal.array_roundtrip
      profiledb_cIdx.array_roundtrip
      profiledb_idTupleElem.array_roundtrip)

theorem profiledb_roundtrip_witness:
  "fmt_profiledb_cIdx_read
     (write_array fmt_profiledb_cIdx_write FMT_PROFILEDB_SZ_CIdx (\<lambda>_. 0) 0x40
       [\<lparr> cIdx_ctxId = 7, cIdx_startIndex = 0 \<rparr>, \<lparr> cIdx_ctxId = 9, cIdx_startIndex = 3 \<rparr>])
     (0x40 + FMT_PROFILEDB_SZ_CIdx * 1) = \<lparr> cIdx_ctxId = 9, cIdx_startIndex = 3 \<rparr>"
  using profiledb_roundtrip [where m = "\<lambda>_. 0" and d = "0x40" and ps = "[]" and mvs = "[]" and els = "[]"
    and cis = "[\<lparr> cIdx_ctxId = 7, cIdx_startIndex = 0 \<rparr>, \<lparr> cIdx_ctxId = 9, cIdx_startIndex = 3 \<rparr>]"]
  by (simp add: All_less_Suc)

end
