(* ===== verification/Fmt_Cctdb.thy ===== *)
theory Fmt_Cctdb
  imports Fmt_Primitive
begin

text \<open>
  The serialised structures of \<open>cct.db\<close> (\<open>src/common/lean/formats/cctdb.c\<close> and
  \<open>cctdb.h\<close>): one record per C struct, one reader and one writer each, and the version check.
  Fields of anonymous inner structs are flattened into the record of the outer one. Every
  structure is an interpretation of \<open>struct_codec\<close>.
\<close>

section \<open>Constants\<close>

definition FMT_CCTDB_MinorVersion :: nat where [fmt_simps]:
  "FMT_CCTDB_MinorVersion = 0"

definition FMT_CCTDB_SZ_FHdr :: nat where [fmt_simps]:
  "FMT_CCTDB_SZ_FHdr = 0x30"

definition FMT_CCTDB_SZ_CtxInfoSHdr :: nat where [fmt_simps]:
  "FMT_CCTDB_SZ_CtxInfoSHdr = 0x0d"

definition FMT_CCTDB_SZ_CtxInfo :: nat where [fmt_simps]:
  "FMT_CCTDB_SZ_CtxInfo = 0x20"

definition FMT_CCTDB_SZ_PVal :: nat where [fmt_simps]:
  "FMT_CCTDB_SZ_PVal = 0x0c"

definition FMT_CCTDB_SZ_MIdx :: nat where [fmt_simps]:
  "FMT_CCTDB_SZ_MIdx = 0x0a"

definition fmt_cctdb_magic :: "byte list" where [fmt_simps]:
  "fmt_cctdb_magic = str_bytes ''HPCTOOLKITctxt''"

definition fmt_cctdb_footer :: "byte list" where [fmt_simps]:
  "fmt_cctdb_footer = str_bytes ''__ctx.db''"

section \<open>Version check\<close>

definition fmt_cctdb_check :: "bool \<Rightarrow> mem \<Rightarrow> nat \<Rightarrow> fmt_version_t \<times> u8 option" where
  "fmt_cctdb_check char_signed m hdr =
    (if get m hdr (length fmt_cctdb_magic) \<noteq> fmt_cctdb_magic then (fmt_version_invalid, None)
     else if char_to_int char_signed (get_byte m (hdr + 0xe)) \<noteq> int FMT_DB_MajorVersion
       then (fmt_version_major, None)
     else let minorVer = Some (get_byte m (hdr + 0xf)) in
       if char_to_int char_signed (get_byte m (hdr + 0xf)) < int FMT_CCTDB_MinorVersion
         then (fmt_version_backward, minorVer)
       else if char_to_int char_signed (get_byte m (hdr + 0xf)) > int FMT_CCTDB_MinorVersion
         then (fmt_version_forward, minorVer)
       else (fmt_version_exact, minorVer))"

section \<open>fHdr\<close>

record fmt_cctdb_fHdr_t =
  fHdr_szCtxInfo :: u64
  fHdr_pCtxInfo :: u64

definition fmt_cctdb_fHdr_read :: "mem \<Rightarrow> nat \<Rightarrow> fmt_cctdb_fHdr_t" where [fmt_simps]:
  "fmt_cctdb_fHdr_read m d =
    \<lparr> fHdr_szCtxInfo = fmt_u64_read m (d + 0x10),
      fHdr_pCtxInfo = fmt_u64_read m (d + 0x18) \<rparr>"

definition fmt_cctdb_fHdr_write :: "mem \<Rightarrow> nat \<Rightarrow> fmt_cctdb_fHdr_t \<Rightarrow> mem" where [fmt_simps]:
  "fmt_cctdb_fHdr_write m d hdr =
    (let m = put m d fmt_cctdb_magic;
         m = put_byte m (d + 0x0e) (of_nat FMT_DB_MajorVersion);
         m = put_byte m (d + 0x0f) (of_nat FMT_CCTDB_MinorVersion);
         m = fmt_u64_write m (d + 0x10) (fHdr_szCtxInfo hdr);
         m = fmt_u64_write m (d + 0x18) (fHdr_pCtxInfo hdr)
     in m)"

section \<open>ctxInfoSHdr\<close>

record fmt_cctdb_ctxInfoSHdr_t =
  ctxInfoSHdr_pCtxs :: u64
  ctxInfoSHdr_nCtxs :: u32
  ctxInfoSHdr_szCtx :: u8

definition fmt_cctdb_ctxInfoSHdr_read :: "mem \<Rightarrow> nat \<Rightarrow> fmt_cctdb_ctxInfoSHdr_t" where [fmt_simps]:
  "fmt_cctdb_ctxInfoSHdr_read m d =
    \<lparr> ctxInfoSHdr_pCtxs = fmt_u64_read m (d + 0x00),
      ctxInfoSHdr_nCtxs = fmt_u32_read m (d + 0x08),
      ctxInfoSHdr_szCtx = get_byte m (d + 0x0c) \<rparr>"

definition fmt_cctdb_ctxInfoSHdr_write :: "mem \<Rightarrow> nat \<Rightarrow> fmt_cctdb_ctxInfoSHdr_t \<Rightarrow> mem" where [fmt_simps]:
  "fmt_cctdb_ctxInfoSHdr_write m d hdr =
    (let m = fmt_u64_write m (d + 0x00) (ctxInfoSHdr_pCtxs hdr);
         m = fmt_u32_write m (d + 0x08) (ctxInfoSHdr_nCtxs hdr);
         m = put_byte m (d + 0x0c) (of_nat FMT_CCTDB_SZ_CtxInfo)
     in m)"

section \<open>ctxInfo\<close>

record fmt_cctdb_ctxInfo_t =
  ctxInfo_nValues :: u64
  ctxInfo_pValues :: u64
  ctxInfo_nMetrics :: u16
  ctxInfo_pMetricIndices :: u64

definition fmt_cctdb_ctxInfo_read :: "mem \<Rightarrow> nat \<Rightarrow> fmt_cctdb_ctxInfo_t" where [fmt_simps]:
  "fmt_cctdb_ctxInfo_read m d =
    \<lparr> ctxInfo_nValues = fmt_u64_read m (d + 0x00),
      ctxInfo_pValues = fmt_u64_read m (d + 0x08),
      ctxInfo_nMetrics = fmt_u16_read m (d + 0x10),
      ctxInfo_pMetricIndices = fmt_u64_read m (d + 0x18) \<rparr>"

definition fmt_cctdb_ctxInfo_write :: "mem \<Rightarrow> nat \<Rightarrow> fmt_cctdb_ctxInfo_t \<Rightarrow> mem" where [fmt_simps]:
  "fmt_cctdb_ctxInfo_write m d ci =
    (let m = fmt_u64_write m (d + 0x00) (ctxInfo_nValues ci);
         m = fmt_u64_write m (d + 0x08) (ctxInfo_pValues ci);
         m = fmt_u16_write m (d + 0x10) (ctxInfo_nMetrics ci);
         m = memset0 m (d + 0x12) 6;
         m = fmt_u64_write m (d + 0x18) (ctxInfo_pMetricIndices ci);
         m = memset0 m (d + 0x20) (FMT_CCTDB_SZ_CtxInfo - 0x20)
     in m)"

section \<open>pVal\<close>

record fmt_cctdb_pVal_t =
  pVal_profIndex :: u32
  pVal_value :: f64

definition fmt_cctdb_pVal_read :: "mem \<Rightarrow> nat \<Rightarrow> fmt_cctdb_pVal_t" where [fmt_simps]:
  "fmt_cctdb_pVal_read m d =
    \<lparr> pVal_profIndex = fmt_u32_read m (d + 0x00),
      pVal_value = fmt_f64_read m (d + 0x04) \<rparr>"

definition fmt_cctdb_pVal_write :: "mem \<Rightarrow> nat \<Rightarrow> fmt_cctdb_pVal_t \<Rightarrow> mem" where [fmt_simps]:
  "fmt_cctdb_pVal_write m d val =
    (let m = fmt_u32_write m (d + 0x00) (pVal_profIndex val);
         m = fmt_f64_write m (d + 0x04) (pVal_value val)
     in m)"

section \<open>mIdx\<close>

record fmt_cctdb_mIdx_t =
  mIdx_metricId :: u16
  mIdx_startIndex :: u64

definition fmt_cctdb_mIdx_read :: "mem \<Rightarrow> nat \<Rightarrow> fmt_cctdb_mIdx_t" where [fmt_simps]:
  "fmt_cctdb_mIdx_read m d =
    \<lparr> mIdx_metricId = fmt_u16_read m (d + 0x00),
      mIdx_startIndex = fmt_u64_read m (d + 0x02) \<rparr>"

definition fmt_cctdb_mIdx_write :: "mem \<Rightarrow> nat \<Rightarrow> fmt_cctdb_mIdx_t \<Rightarrow> mem" where [fmt_simps]:
  "fmt_cctdb_mIdx_write m d idx =
    (let m = fmt_u16_write m (d + 0x00) (mIdx_metricId idx);
         m = fmt_u64_write m (d + 0x02) (mIdx_startIndex idx)
     in m)"

section \<open>Every structure keeps the contract\<close>

interpretation cctdb_fHdr: struct_codec fmt_cctdb_fHdr_read fmt_cctdb_fHdr_write
  FMT_CCTDB_SZ_FHdr "\<lambda>x. x"
  by unfold_locales (auto simp: fmt_simps intro: rd_local_intros)

interpretation cctdb_ctxInfoSHdr: struct_codec fmt_cctdb_ctxInfoSHdr_read fmt_cctdb_ctxInfoSHdr_write
  FMT_CCTDB_SZ_CtxInfoSHdr "\<lambda>x. x\<lparr>ctxInfoSHdr_szCtx := of_nat FMT_CCTDB_SZ_CtxInfo\<rparr>"
  by unfold_locales (auto simp: fmt_simps intro: rd_local_intros)

interpretation cctdb_ctxInfo: struct_codec fmt_cctdb_ctxInfo_read fmt_cctdb_ctxInfo_write
  FMT_CCTDB_SZ_CtxInfo "\<lambda>x. x"
  by unfold_locales (auto simp: fmt_simps intro: rd_local_intros)

interpretation cctdb_pVal: struct_codec fmt_cctdb_pVal_read fmt_cctdb_pVal_write
  FMT_CCTDB_SZ_PVal "\<lambda>x. x"
  by unfold_locales (auto simp: fmt_simps intro: rd_local_intros)

interpretation cctdb_mIdx: struct_codec fmt_cctdb_mIdx_read fmt_cctdb_mIdx_write
  FMT_CCTDB_SZ_MIdx "\<lambda>x. x"
  by unfold_locales (auto simp: fmt_simps intro: rd_local_intros)

section \<open>Properties\<close>

text \<open>
  The headers of \<open>cct.db\<close> are read back as written (the context size field being that of
  the format), and so is every element of its arrays: context descriptions, profile values and
  metric indices.
\<close>

theorem cctdb_roundtrip:
  "fmt_cctdb_fHdr_read (fmt_cctdb_fHdr_write m d fh) d = fh \<and>
   fmt_cctdb_ctxInfoSHdr_read (fmt_cctdb_ctxInfoSHdr_write m d sh) d = sh\<lparr> ctxInfoSHdr_szCtx := of_nat FMT_CCTDB_SZ_CtxInfo \<rparr> \<and>
   (\<forall>i < length cs. fmt_cctdb_ctxInfo_read
      (write_array fmt_cctdb_ctxInfo_write FMT_CCTDB_SZ_CtxInfo m d cs)
      (d + FMT_CCTDB_SZ_CtxInfo * i) = cs ! i) \<and>
   (\<forall>i < length pvs. fmt_cctdb_pVal_read
      (write_array fmt_cctdb_pVal_write FMT_CCTDB_SZ_PVal m d pvs)
      (d + FMT_CCTDB_SZ_PVal * i) = pvs ! i) \<and>
   (\<forall>i < length mis. fmt_cctdb_mIdx_read
      (write_array fmt_cctdb_mIdx_write FMT_CCTDB_SZ_MIdx m d mis)
      (d + FMT_CCTDB_SZ_MIdx * i) = mis ! i)"
  by (intro conjI allI impI cctdb_fHdr.rd_wr
      cctdb_ctxInfoSHdr.rd_wr
      cctdb_ctxInfo.array_roundtrip
      cctdb_pVal.array_roundtrip
      cctdb_mIdx.array_roundtrip)

theorem cctdb_roundtrip_witness:
  "fmt_cctdb_pVal_read
     (write_array fmt_cctdb_pVal_write FMT_CCTDB_SZ_PVal (\<lambda>_. 0) 0x40
       [\<lparr> pVal_profIndex = 0, pVal_value = 1 \<rparr>, \<lparr> pVal_profIndex = 2, pVal_value = 0x3ff0000000000000 \<rparr>])
     (0x40 + FMT_CCTDB_SZ_PVal * 1) = \<lparr> pVal_profIndex = 2, pVal_value = 0x3ff0000000000000 \<rparr>"
  using cctdb_roundtrip [where m = "\<lambda>_. 0" and d = "0x40" and cs = "[]" and mis = "[]"
    and pvs = "[\<lparr> pVal_profIndex = 0, pVal_value = 1 \<rparr>, \<lparr> pVal_profIndex = 2, pVal_value = 0x3ff0000000000000 \<rparr>]"]
  by (simp add: All_less_Suc)

end
