(* ===== verification/Fmt_Tracedb.thy ===== *)
theory Fmt_Tracedb
  imports Fmt_Primitive
begin

text \<open>
  The serialised structures of \<open>trace.db\<close> (\<open>src/common/lean/formats/tracedb.c\<close> and
  \<open>tracedb.h\<close>): one record per C struct, one reader and one writer each, and the version check.
  Fields of anonymous inner structs are flattened into the record of the outer one. Every
  structure is an interpretation of \<open>struct_codec\<close>.
\<close>

section \<open>Constants\<close>

definition FMT_TRACEDB_MinorVersion :: nat where [fmt_simps]:
  "FMT_TRACEDB_MinorVersion = 0"

definition FMT_TRACEDB_SZ_FHdr :: nat where [fmt_simps]:
  "FMT_TRACEDB_SZ_FHdr = 0x20"

definition FMT_TRACEDB_SZ_CtxTraceSHdr :: nat where [fmt_simps]:
  "FMT_TRACEDB_SZ_CtxTraceSHdr = 0x20"

definition FMT_TRACEDB_SZ_CtxTrace :: nat where [fmt_simps]:
  "FMT_TRACEDB_SZ_CtxTrace = 0x18"

definition FMT_TRACEDB_SZ_CtxSample :: nat where [fmt_simps]:
  "FMT_TRACEDB_SZ_CtxSample = 0x0c"

definition fmt_tracedb_magic :: "byte list" where [fmt_simps]:
  "fmt_tracedb_magic = str_bytes ''HPCTOOLKITtrce''"

definition fmt_tracedb_footer :: "byte list" where [fmt_simps]:
  "fmt_tracedb_footer = str_bytes ''trace.db''"

section \<open>Version check\<close>

definition fmt_tracedb_check :: "bool \<Rightarrow> mem \<Rightarrow> nat \<Rightarrow> fmt_version_t \<times> u8 option" where
  "fmt_tracedb_check char_signed m hdr =
    (if get m hdr (length fmt_tracedb_magic) \<noteq> fmt_tracedb_magic then (fmt_version_invalid, None)
     else if char_to_int char_signed (get_byte m (hdr + 0xe)) \<noteq> int FMT_DB_MajorVersion
       then (fmt_version_major, None)
     else let minorVer = Some (get_byte m (hdr + 0xf)) in
       if char_to_int char_signed (get_byte m (hdr + 0xf)) < int FMT_TRACEDB_MinorVersion
         then (fmt_version_backward, minorVer)
       else if char_to_int char_signed (get_byte m (hdr + 0xf)) > int FMT_TRACEDB_MinorVersion
         then (fmt_version_forward, minorVer)
       else (fmt_version_exact, minorVer))"

section \<open>fHdr\<close>

record fmt_tracedb_fHdr_t =
  fHdr_szCtxTraces :: u64
  fHdr_pCtxTraces :: u64

definition fmt_tracedb_fHdr_read :: "mem \<Rightarrow> nat \<Rightarrow> fmt_tracedb_fHdr_t" where [fmt_simps]:
  "fmt_tracedb_fHdr_read m d =
    \<lparr> fHdr_szCtxTraces = fmt_u64_read m (d + 0x10),
      fHdr_pCtxTraces = fmt_u64_read m (d + 0x18) \<rparr>"

definition fmt_tracedb_fHdr_write :: "mem \<Rightarrow> nat \<Rightarrow> fmt_tracedb_fHdr_t \<Rightarrow> mem" where [fmt_simps]:
  "fmt_tracedb_fHdr_write m d hdr =
    (let m = put m d fmt_tracedb_magic;
         m = put_byte m (d + 0x0e) (of_nat FMT_DB_MajorVersion);
         m = put_byte m (d + 0x0f) (of_nat FMT_TRACEDB_MinorVersion);
         m = fmt_u64_write m (d + 0x10) (fHdr_szCtxTraces hdr);
         m = fmt_u64_write m (d + 0x18) (fHdr_pCtxTraces hdr)
     in m)"

section \<open>ctxTraceSHdr\<close>

record fmt_tracedb_ctxTraceSHdr_t =
  ctxTraceSHdr_pTraces :: u64
  ctxTraceSHdr_nTraces :: u32
  ctxTraceSHdr_szTrace :: u8
  ctxTraceSHdr_minTimestamp :: u64
  ctxTraceSHdr_maxTimestamp :: u64

definition fmt_tracedb_ctxTraceSHdr_read :: "mem \<Rightarrow> nat \<Rightarrow> fmt_tracedb_ctxTraceSHdr_t" where [fmt_simps]:
  "fmt_tracedb_ctxTraceSHdr_read m d =
    \<lparr> ctxTraceSHdr_pTraces = fmt_u64_read m (d + 0x00),
      ctxTraceSHdr_nTraces = fmt_u32_read m (d + 0x08),
      ctxTraceSHdr_szTrace = get_byte m (d + 0x0c),
      ctxTraceSHdr_minTimestamp = fmt_u64_read m (d + 0x10),
      ctxTraceSHdr_maxTimestamp = fmt_u64_read m (d + 0x18) \<rparr>"

definition fmt_tracedb_ctxTraceSHdr_write :: "mem \<Rightarrow> nat \<Rightarrow> fmt_tracedb_ctxTraceSHdr_t \<Rightarrow> mem" where [fmt_simps]:
  "fmt_tracedb_ctxTraceSHdr_write m d hdr =
    (let m = fmt_u64_write m (d + 0x00) (ctxTraceSHdr_pTraces hdr);
         m = fmt_u32_write m (d + 0x08) (ctxTraceSHdr_nTraces hdr);
         m = put_byte m (d + 0x0c) (of_nat FMT_TRACEDB_SZ_CtxTrace);
         m = memset0 m (d + 0x0d) 3;
         m = fmt_u64_write m (d + 0x10) (ctxTraceSHdr_minTimestamp hdr);
         m = fmt_u64_write m (d + 0x18) (ctxTraceSHdr_maxTimestamp hdr)
     in m)"

section \<open>ctxTrace\<close>

record fmt_tracedb_ctxTrace_t =
  ctxTrace_profIndex :: u32
  ctxTrace_pStart :: u64
  ctxTrace_pEnd :: u64

definition fmt_tracedb_ctxTrace_read :: "mem \<Rightarrow> nat \<Rightarrow> fmt_tracedb_ctxTrace_t" where [fmt_simps]:
  "fmt_tracedb_ctxTrace_read m d =
    \<lparr> ctxTrace_profIndex = fmt_u32_read m (d + 0x00),
      ctxTrace_pStart = fmt_u64_read m (d + 0x08),
      ctxTrace_pEnd = fmt_u64_read m (d + 0x10) \<rparr>"

definition fmt_tracedb_ctxTrace_write :: "mem \<Rightarrow> nat \<Rightarrow> fmt_tracedb_ctxTrace_t \<Rightarrow> mem" where [fmt_simps]:
  "fmt_tracedb_ctxTrace_write m d cth =
    (let m = fmt_u32_write m (d + 0x00) (ctxTrace_profIndex cth);
         m = memset0 m (d + 0x04) 4;
         m = fmt_u64_write m (d + 0x08) (ctxTrace_pStart cth);
         m = fmt_u64_write m (d + 0x10) (ctxTrace_pEnd cth);
         m = memset0 m (d + 0x18) (FMT_TRACEDB_SZ_CtxTrace - 0x18)
     in m)"

section \<open>ctxSample\<close>

record fmt_tracedb_ctxSample_t =
  ctxSample_timestamp :: u64
  ctxSample_ctxId :: u32

definition fmt_tracedb_ctxSample_read :: "mem \<Rightarrow> nat \<Rightarrow> fmt_tracedb_ctxSample_t" where [fmt_simps]:
  "fmt_tracedb_ctxSample_read m d =
    \<lparr> ctxSample_timestamp = fmt_u64_read m (d + 0x00),
      ctxSample_ctxId = fmt_u32_read m (d + 0x08) \<rparr>"

definition fmt_tracedb_ctxSample_write :: "mem \<Rightarrow> nat \<Rightarrow> fmt_tracedb_ctxSample_t \<Rightarrow> mem" where [fmt_simps]:
  "fmt_tracedb_ctxSample_write m d elem =
    (let m = fmt_u64_write m (d + 0x00) (ctxSample_timestamp elem);
         m = fmt_u32_write m (d + 0x08) (ctxSample_ctxId elem)
     in m)"

section \<open>Every structure keeps the contract\<close>

interpretation tracedb_fHdr: struct_codec fmt_tracedb_fHdr_read fmt_tracedb_fHdr_write
  FMT_TRACEDB_SZ_FHdr "\<lambda>x. x"
  by unfold_locales (auto simp: fmt_simps intro: rd_local_intros)

interpretation tracedb_ctxTraceSHdr: struct_codec fmt_tracedb_ctxTraceSHdr_read fmt_tracedb_ctxTraceSHdr_write
  FMT_TRACEDB_SZ_CtxTraceSHdr "\<lambda>x. x\<lparr>ctxTraceSHdr_szTrace := of_nat FMT_TRACEDB_SZ_CtxTrace\<rparr>"
  by unfold_locales (auto simp: fmt_simps intro: rd_local_intros)

interpretation tracedb_ctxTrace: struct_codec fmt_tracedb_ctxTrace_read fmt_tracedb_ctxTrace_write
  FMT_TRACEDB_SZ_CtxTrace "\<lambda>x. x"
  by unfold_locales (auto simp: fmt_simps intro: rd_local_intros)

interpretation tracedb_ctxSample: struct_codec fmt_tracedb_ctxSample_read fmt_tracedb_ctxSample_write
  FMT_TRACEDB_SZ_CtxSample "\<lambda>x. x"
  by unfold_locales (auto simp: fmt_simps intro: rd_local_intros)

section \<open>Properties\<close>

text \<open>
  The headers of \<open>trace.db\<close> are read back as written (the trace size field being that of
  the format), and so is every element of its arrays: trace descriptions and samples.
\<close>

theorem tracedb_roundtrip:
  "fmt_tracedb_fHdr_read (fmt_tracedb_fHdr_write m d fh) d = fh \<and>
   fmt_tracedb_ctxTraceSHdr_read (fmt_tracedb_ctxTraceSHdr_write m d sh) d = sh\<lparr> ctxTraceSHdr_szTrace := of_nat FMT_TRACEDB_SZ_CtxTrace \<rparr> \<and>
   (\<forall>i < length ts. fmt_tracedb_ctxTrace_read
      (write_array fmt_tracedb_ctxTrace_write FMT_TRACEDB_SZ_CtxTrace m d ts)
      (d + FMT_TRACEDB_SZ_CtxTrace * i) = ts ! i) \<and>
   (\<forall>i < length ss. fmt_tracedb_ctxSample_read
      (write_array fmt_tracedb_ctxSample_write FMT_TRACEDB_SZ_CtxSample m d ss)
      (d + FMT_TRACEDB_SZ_CtxSample * i) = ss ! i)"
  by (intro conjI allI impI tracedb_fHdr.rd_wr
      tracedb_ctxTraceSHdr.rd_wr
      tracedb_ctxTrace.array_roundtrip
      tracedb_ctxSample.array_roundtrip)

theorem tracedb_roundtrip_witness:
  "fmt_tracedb_ctxSample_read
     (write_array fmt_tracedb_ctxSample_write FMT_TRACEDB_SZ_CtxSample (\<lambda>_. 0) 0x40
       [\<lparr> ctxSample_timestamp = 100, ctxSample_ctxId = 1 \<rparr>, \<lparr> ctxSample_timestamp = 200, ctxSample_ctxId = 2 \<rparr>])
     (0x40 + FMT_TRACEDB_SZ_CtxSample * 1) = \<lparr> ctxSample_timestamp = 200, ctxSample_ctxId = 2 \<rparr>"
  using tracedb_roundtrip [where m = "\<lambda>_. 0" and d = "0x40" and ts = "[]"
    and ss = "[\<lparr> ctxSample_timestamp = 100, ctxSample_ctxId = 1 \<rparr>, \<lparr> ctxSample_timestamp = 200, ctxSample_ctxId = 2 \<rparr>]"]
  by (simp add: All_less_Suc)

end
