(* ===== verification/Splay.thy ===== *)
theory Splay
  imports Prelude "HOL-Library.Tree"
begin

text \<open>
  The top-down splay algorithm of \<open>src/common/lean/splay-macros.h\<close>, which every splay tree of the
  program expands, on an explicit store: nodes are addresses, the two link fields are maps from a node
  to the node they point to (\<open>None\<close> is a null pointer). The macro works in place on the links, with a
  dummy node on the stack that collects the left and the right tree. \<open>None\<close> as the address of the last
  node of such a tree stands for the dummy; its two fields are written before they are read.

  \<open>tree_at\<close> says which binary tree the links hold at an address. The algorithm on the store computes the
  tree \<open>fsplay\<close> of that tree, terminates, and touches no link of another node; \<open>fsplay\<close> keeps the nodes in
  order and brings the sought node to the root.
\<close>

type_synonym ptr = nat
type_synonym link = "ptr \<Rightarrow> ptr option"

section \<open>The macro\<close>

record splay_state =
  sp_left :: link
  sp_right :: link
  sp_root :: ptr
  ltree_max :: "ptr option"
  rtree_min :: "ptr option"
  dummy_left :: "ptr option"
  dummy_right :: "ptr option"

definition set_left :: "ptr option \<Rightarrow> ptr option \<Rightarrow> splay_state \<Rightarrow> splay_state" where
  "set_left who v s = (case who of None \<Rightarrow> s\<lparr> dummy_left := v \<rparr>
     | Some p \<Rightarrow> s\<lparr> sp_left := (sp_left s)(p := v) \<rparr>)"

definition set_right :: "ptr option \<Rightarrow> ptr option \<Rightarrow> splay_state \<Rightarrow> splay_state" where
  "set_right who v s = (case who of None \<Rightarrow> s\<lparr> dummy_right := v \<rparr>
     | Some p \<Rightarrow> s\<lparr> sp_right := (sp_right s)(p := v) \<rparr>)"

text \<open>
  One round of the loop, for a key given by its two comparisons with a node: \<open>Inl\<close> where the macro
  breaks out, \<open>Inr\<close> where it goes on.
\<close>

definition splay_link_right :: "ptr \<Rightarrow> splay_state \<Rightarrow> splay_state" where
  "splay_link_right yy s = (set_left (rtree_min s) (Some (sp_root s)) s)
     \<lparr> rtree_min := Some (sp_root s), sp_root := yy \<rparr>"

definition splay_link_left :: "ptr \<Rightarrow> splay_state \<Rightarrow> splay_state" where
  "splay_link_left yy s = (set_right (ltree_max s) (Some (sp_root s)) s)
     \<lparr> ltree_max := Some (sp_root s), sp_root := yy \<rparr>"

definition splay_step :: "(ptr \<Rightarrow> bool) \<Rightarrow> (ptr \<Rightarrow> bool) \<Rightarrow> splay_state \<Rightarrow> splay_state + splay_state" where
  "splay_step lt gt s =
    (if lt (sp_root s) then
       case sp_left s (sp_root s) of None \<Rightarrow> Inl s
       | Some yy \<Rightarrow>
           if lt yy then
             let s = s\<lparr> sp_left := (sp_left s)(sp_root s := sp_right s yy) \<rparr>;
                 s = s\<lparr> sp_right := (sp_right s)(yy := Some (sp_root s)) \<rparr>;
                 s = s\<lparr> sp_root := yy \<rparr>
             in (case sp_left s (sp_root s) of None \<Rightarrow> Inl s
                 | Some yy \<Rightarrow> Inr (splay_link_right yy s))
           else Inr (splay_link_right yy s)
     else if gt (sp_root s) then
       case sp_right s (sp_root s) of None \<Rightarrow> Inl s
       | Some yy \<Rightarrow>
           if gt yy then
             let s = s\<lparr> sp_right := (sp_right s)(sp_root s := sp_left s yy) \<rparr>;
                 s = s\<lparr> sp_left := (sp_left s)(yy := Some (sp_root s)) \<rparr>;
                 s = s\<lparr> sp_root := yy \<rparr>
             in (case sp_right s (sp_root s) of None \<Rightarrow> Inl s
                 | Some yy \<Rightarrow> Inr (splay_link_left yy s))
           else Inr (splay_link_left yy s)
     else Inl s)"

partial_function (option) splay_loop ::
  "(ptr \<Rightarrow> bool) \<Rightarrow> (ptr \<Rightarrow> bool) \<Rightarrow> splay_state \<Rightarrow> splay_state option" where
  "splay_loop lt gt s = (case splay_step lt gt s of Inl s' \<Rightarrow> Some s' | Inr s' \<Rightarrow> splay_loop lt gt s')"

definition splay_assemble :: "splay_state \<Rightarrow> splay_state" where
  "splay_assemble s =
    (let s = set_right (ltree_max s) (sp_left s (sp_root s)) s;
         s = set_left (rtree_min s) (sp_right s (sp_root s)) s;
         s = s\<lparr> sp_left := (sp_left s)(sp_root s := dummy_right s) \<rparr>
     in s\<lparr> sp_right := (sp_right s)(sp_root s := dummy_left s) \<rparr>)"

definition GENERAL_SPLAY_TREE :: "(ptr \<Rightarrow> bool) \<Rightarrow> (ptr \<Rightarrow> bool) \<Rightarrow> ptr option \<Rightarrow> link \<times> link \<Rightarrow>
    (ptr option \<times> link \<times> link) option" where
  "GENERAL_SPLAY_TREE lt gt root links = (case root of
     None \<Rightarrow> Some (None, links)
   | Some p \<Rightarrow>
       map_option (\<lambda>s. let s = splay_assemble s in (Some (sp_root s), sp_left s, sp_right s))
         (splay_loop lt gt \<lparr> sp_left = fst links, sp_right = snd links, sp_root = p, ltree_max = None,
            rtree_min = None, dummy_left = None, dummy_right = None \<rparr>))"

text \<open>Single keys with the built-in comparisons, and half-open intervals.\<close>

definition REGULAR_SPLAY_TREE :: "'k::linorder \<Rightarrow> (ptr \<Rightarrow> 'k) \<Rightarrow> ptr option \<Rightarrow> link \<times> link \<Rightarrow>
    (ptr option \<times> link \<times> link) option" where
  "REGULAR_SPLAY_TREE key val root links = GENERAL_SPLAY_TREE (\<lambda>p. key < val p) (\<lambda>p. key > val p) root links"

definition INTERVAL_SPLAY_TREE :: "'k::linorder \<Rightarrow> (ptr \<Rightarrow> 'k) \<Rightarrow> (ptr \<Rightarrow> 'k) \<Rightarrow> ptr option \<Rightarrow> link \<times> link \<Rightarrow>
    (ptr option \<times> link \<times> link) option" where
  "INTERVAL_SPLAY_TREE key start end root links =
     GENERAL_SPLAY_TREE (\<lambda>p. key < start p) (\<lambda>p. key \<ge> end p) root links"

section \<open>Trees in the store\<close>

fun tree_at :: "link \<Rightarrow> link \<Rightarrow> ptr option \<Rightarrow> ptr tree \<Rightarrow> bool" where
  "tree_at l r p Leaf \<longleftrightarrow> p = None"
| "tree_at l r p (Node lt a rt) \<longleftrightarrow> p = Some a \<and> tree_at l r (l a) lt \<and> tree_at l r (r a) rt"

definition root_of :: "ptr tree \<Rightarrow> ptr option" where
  "root_of t = (case t of Leaf \<Rightarrow> None | Node _ a _ \<Rightarrow> Some a)"

lemma root_of_simps [simp]: "root_of Leaf = None" "root_of (Node lt a rt) = Some a"
  by (simp_all add: root_of_def)

lemma tree_at_root: "tree_at l r p t \<Longrightarrow> p = root_of t"
  by (cases t) simp_all

lemma tree_at_cong:
  "(\<And>a. a \<in> set_tree t \<Longrightarrow> l' a = l a \<and> r' a = r a) \<Longrightarrow> tree_at l' r' p t \<longleftrightarrow> tree_at l r p t"
  by (induction t arbitrary: p) auto

lemma tree_at_upd [simp]:
  "a \<notin> set_tree t \<Longrightarrow> tree_at (l(a := v)) r p t \<longleftrightarrow> tree_at l r p t"
  "a \<notin> set_tree t \<Longrightarrow> tree_at l (r(a := v)) p t \<longleftrightarrow> tree_at l r p t"
  by (induction t arbitrary: p) auto

text \<open>
  The left tree while it is being built: its right spine, last node first, each with its left subtree;
  the last node's right link (the dummy's, when there is none) is the open slot. The right tree is the
  mirror image. \<open>T\<close> says what the outer subtrees are.
\<close>

type_synonym spine = "(ptr tree \<times> ptr) list"

fun slot :: "link \<Rightarrow> ptr option \<Rightarrow> spine \<Rightarrow> ptr option" where
  "slot inner d [] = d"
| "slot inner d ((t, a) # c) = inner a"

fun chain :: "(ptr option \<Rightarrow> ptr tree \<Rightarrow> bool) \<Rightarrow> link \<Rightarrow> link \<Rightarrow> ptr option \<Rightarrow> spine \<Rightarrow> bool" where
  "chain T inner outer d [] \<longleftrightarrow> True"
| "chain T inner outer d ((t, a) # c) \<longleftrightarrow> slot inner d c = Some a \<and> T (outer a) t \<and> chain T inner outer d c"

fun chain_nodes :: "spine \<Rightarrow> ptr set" where
  "chain_nodes [] = {}"
| "chain_nodes ((t, a) # c) = insert a (set_tree t \<union> chain_nodes c)"

fun last_node :: "spine \<Rightarrow> ptr option" where
  "last_node [] = None"
| "last_node ((t, a) # c) = Some a"

fun lnodes :: "spine \<Rightarrow> ptr list" where
  "lnodes [] = []"
| "lnodes ((t, a) # c) = lnodes c @ inorder t @ [a]"

fun rnodes :: "spine \<Rightarrow> ptr list" where
  "rnodes [] = []"
| "rnodes ((t, a) # c) = a # inorder t @ rnodes c"

fun plug_left :: "spine \<Rightarrow> ptr tree \<Rightarrow> ptr tree" where
  "plug_left [] t = t"
| "plug_left ((u, a) # c) t = plug_left c (Node u a t)"

fun plug_right :: "spine \<Rightarrow> ptr tree \<Rightarrow> ptr tree" where
  "plug_right [] t = t"
| "plug_right ((u, a) # c) t = plug_right c (Node t a u)"

lemma set_lnodes [simp]: "set (lnodes c) = chain_nodes c"
  by (induction c rule: lnodes.induct) auto

lemma set_rnodes [simp]: "set (rnodes c) = chain_nodes c"
  by (induction c rule: rnodes.induct) auto

lemma inorder_plug_left [simp]: "inorder (plug_left c t) = lnodes c @ inorder t"
  by (induction c t rule: plug_left.induct) auto

lemma inorder_plug_right [simp]: "inorder (plug_right c t) = inorder t @ rnodes c"
  by (induction c t rule: plug_right.induct) auto

lemma set_plug:
  "set_tree (plug_left c t) = chain_nodes c \<union> set_tree t"
  "set_tree (plug_right c t) = set_tree t \<union> chain_nodes c"
  by (simp_all flip: set_inorder)

lemma chain_plug_left:
  "chain (tree_at l r) r l d c \<Longrightarrow> tree_at l r (slot r d c) t \<Longrightarrow> tree_at l r d (plug_left c t)"
  by (induction c t rule: plug_left.induct) auto

lemma chain_plug_right:
  "chain (tree_at l r) l r d c \<Longrightarrow> tree_at l r (slot l d c) t \<Longrightarrow> tree_at l r d (plug_right c t)"
  by (induction c t rule: plug_right.induct) auto

section \<open>The algorithm on trees\<close>

type_synonym split_tree = "spine \<times> ptr tree \<times> spine"

fun fstep :: "(ptr \<Rightarrow> bool) \<Rightarrow> (ptr \<Rightarrow> bool) \<Rightarrow> split_tree \<Rightarrow> split_tree + split_tree" where
  "fstep lt gt (cl, Leaf, cr) = Inl (cl, Leaf, cr)"
| "fstep lt gt (cl, Node a x b, cr) =
    (if lt x then
       case a of Leaf \<Rightarrow> Inl (cl, Node a x b, cr)
       | Node a1 y b1 \<Rightarrow>
           if lt y then
             case a1 of Leaf \<Rightarrow> Inl (cl, Node a1 y (Node b1 x b), cr)
             | Node _ _ _ \<Rightarrow> Inr (cl, a1, (Node b1 x b, y) # cr)
           else Inr (cl, a, (b, x) # cr)
     else if gt x then
       case b of Leaf \<Rightarrow> Inl (cl, Node a x b, cr)
       | Node a1 y b1 \<Rightarrow>
           if gt y then
             case b1 of Leaf \<Rightarrow> Inl (cl, Node (Node a x a1) y b1, cr)
             | Node _ _ _ \<Rightarrow> Inr ((Node a x a1, y) # cl, b1, cr)
           else Inr ((a, x) # cl, b, cr)
     else Inl (cl, Node a x b, cr))"

lemma fstep_size: "fstep lt gt (cl, t, cr) = Inr (cl', t', cr') \<Longrightarrow> size t' < size t \<and> t' \<noteq> Leaf"
  by (cases t) (auto split: if_splits tree.splits)

function floop :: "(ptr \<Rightarrow> bool) \<Rightarrow> (ptr \<Rightarrow> bool) \<Rightarrow> split_tree \<Rightarrow> split_tree" where
  "floop lt gt s = (case fstep lt gt s of Inl s' \<Rightarrow> s' | Inr s' \<Rightarrow> floop lt gt s')"
  by auto
termination
  by (relation "measure (\<lambda>(_, _, (_, t, _)). size t)") (auto dest: fstep_size)

declare floop.simps [simp del]

definition fassemble :: "split_tree \<Rightarrow> ptr tree" where
  "fassemble s = (case s of (cl, Leaf, cr) \<Rightarrow> Leaf
     | (cl, Node a x b, cr) \<Rightarrow> Node (plug_left cl a) x (plug_right cr b))"

definition fsplay :: "(ptr \<Rightarrow> bool) \<Rightarrow> (ptr \<Rightarrow> bool) \<Rightarrow> ptr tree \<Rightarrow> ptr tree" where
  "fsplay lt gt t = fassemble (floop lt gt ([], t, []))"

section \<open>The store follows the tree\<close>

lemma slot_upd [simp]: "p \<notin> chain_nodes c \<Longrightarrow> slot (inner(p := v)) d c = slot inner d c"
  by (cases c) auto

text \<open>Writing a link of a node outside a spine keeps the spine.\<close>

lemma chain_upd [simp]:
  assumes "p \<notin> chain_nodes c"
  shows "chain (tree_at l (r(p := v))) (r(p := v)) l d c \<longleftrightarrow> chain (tree_at l r) r l d c"
    and "chain (tree_at (l(p := v)) r) r (l(p := v)) d c \<longleftrightarrow> chain (tree_at l r) r l d c"
    and "chain (tree_at (l(p := v)) r) (l(p := v)) r d c \<longleftrightarrow> chain (tree_at l r) l r d c"
    and "chain (tree_at l (r(p := v))) l (r(p := v)) d c \<longleftrightarrow> chain (tree_at l r) l r d c"
  using assms by (induction c rule: lnodes.induct) auto

text \<open>The nodes of a split tree, in order.\<close>

fun nodes :: "split_tree \<Rightarrow> ptr list" where
  "nodes (cl, t, cr) = lnodes cl @ inorder t @ rnodes cr"

declare nodes.simps [simp del]

definition splay_inv :: "splay_state \<Rightarrow> split_tree \<Rightarrow> bool" where
  "splay_inv s u \<longleftrightarrow> (case u of (cl, t, cr) \<Rightarrow>
     t \<noteq> Leaf \<and> tree_at (sp_left s) (sp_right s) (Some (sp_root s)) t
     \<and> chain (tree_at (sp_left s) (sp_right s)) (sp_right s) (sp_left s) (dummy_right s) cl
     \<and> chain (tree_at (sp_left s) (sp_right s)) (sp_left s) (sp_right s) (dummy_left s) cr
     \<and> ltree_max s = last_node cl \<and> rtree_min s = last_node cr
     \<and> distinct (nodes (cl, t, cr)))"

text \<open>Moving the root, with its outer subtree, onto one of the two spines.\<close>

lemma inv_link_right:
  assumes "splay_inv s (cl, Node (Node a1 y b1) x b, cr)"
  shows "splay_inv (splay_link_right y s) (cl, Node a1 y b1, (b, x) # cr)"
proof -
  have d: "distinct (nodes (cl, Node (Node a1 y b1) x b, cr))" using assms by (simp add: splay_inv_def)
  have n: "nodes (cl, Node a1 y b1, (b, x) # cr) = nodes (cl, Node (Node a1 y b1) x b, cr)"
    by (simp add: nodes.simps)
  show ?thesis
  proof (cases cr rule: last_node.cases)
    case 1
    with assms n show ?thesis by (simp add: splay_inv_def splay_link_right_def set_left_def)
  next
    case (2 t p c)
    have "p \<notin> chain_nodes cl \<union> set_tree a1 \<union> set_tree b1 \<union> set_tree b \<union> set_tree t \<union> chain_nodes c"
      "p \<noteq> x" "p \<noteq> y" "x \<notin> chain_nodes c"
      using d by (auto simp: 2 nodes.simps)
    with assms n show ?thesis by (simp add: 2 splay_inv_def splay_link_right_def set_left_def)
  qed
qed

lemma inv_link_left:
  assumes "splay_inv s (cl, Node a x (Node a1 y b1), cr)"
  shows "splay_inv (splay_link_left y s) ((a, x) # cl, Node a1 y b1, cr)"
proof -
  have d: "distinct (nodes (cl, Node a x (Node a1 y b1), cr))" using assms by (simp add: splay_inv_def)
  have n: "nodes ((a, x) # cl, Node a1 y b1, cr) = nodes (cl, Node a x (Node a1 y b1), cr)"
    by (simp add: nodes.simps)
  show ?thesis
  proof (cases cl rule: last_node.cases)
    case 1
    with assms n show ?thesis by (simp add: splay_inv_def splay_link_left_def set_right_def)
  next
    case (2 t p c)
    have "p \<notin> chain_nodes cr \<union> set_tree a1 \<union> set_tree b1 \<union> set_tree a \<union> set_tree t \<union> chain_nodes c"
      "p \<noteq> x" "p \<noteq> y" "x \<notin> chain_nodes c"
      using d by (auto simp: 2 nodes.simps)
    with assms n show ?thesis by (simp add: 2 splay_inv_def splay_link_left_def set_right_def)
  qed
qed

lemma inv_rotate_right:
  assumes "splay_inv s (cl, Node (Node a1 y b1) x b, cr)"
  shows "splay_inv (s\<lparr> sp_left := (sp_left s)(x := sp_right s y), sp_right := (sp_right s)(y := Some x),
     sp_root := y \<rparr>) (cl, Node a1 y (Node b1 x b), cr)"
proof -
  have n: "nodes (cl, Node a1 y (Node b1 x b), cr) = nodes (cl, Node (Node a1 y b1) x b, cr)"
    by (simp add: nodes.simps)
  have "distinct (nodes (cl, Node (Node a1 y b1) x b, cr))" using assms by (simp add: splay_inv_def)
  then have "x \<notin> chain_nodes cl \<union> set_tree a1 \<union> set_tree b1 \<union> set_tree b \<union> chain_nodes cr"
    "y \<notin> chain_nodes cl \<union> set_tree a1 \<union> set_tree b1 \<union> set_tree b \<union> chain_nodes cr" "x \<noteq> y"
    by (auto simp: nodes.simps)
  with assms n show ?thesis by (simp add: splay_inv_def)
qed

lemma inv_rotate_left:
  assumes "splay_inv s (cl, Node a x (Node a1 y b1), cr)"
  shows "splay_inv (s\<lparr> sp_right := (sp_right s)(x := sp_left s y), sp_left := (sp_left s)(y := Some x),
     sp_root := y \<rparr>) (cl, Node (Node a x a1) y b1, cr)"
proof -
  have n: "nodes (cl, Node (Node a x a1) y b1, cr) = nodes (cl, Node a x (Node a1 y b1), cr)"
    by (simp add: nodes.simps)
  have "distinct (nodes (cl, Node a x (Node a1 y b1), cr))" using assms by (simp add: splay_inv_def)
  then have "x \<notin> chain_nodes cl \<union> set_tree a1 \<union> set_tree b1 \<union> set_tree a \<union> chain_nodes cr"
    "y \<notin> chain_nodes cl \<union> set_tree a1 \<union> set_tree b1 \<union> set_tree a \<union> chain_nodes cr" "x \<noteq> y"
    by (auto simp: nodes.simps)
  with assms n show ?thesis by (simp add: splay_inv_def)
qed

declare nodes.simps [simp]

lemma splay_inv_Node:
  assumes "splay_inv s u"
  obtains cl a x b cr where "u = (cl, Node a x b, cr)"
proof -
  obtain cl t cr where u: "u = (cl, t, cr)" by (cases u)
  with assms have "t \<noteq> Leaf" by (simp add: splay_inv_def)
  with u that show ?thesis by (cases t) auto
qed

lemma splay_step_refines:
  assumes "splay_inv s u"
  shows "case fstep lt gt u of
     Inl u' \<Rightarrow> \<exists>s'. splay_step lt gt s = Inl s' \<and> splay_inv s' u'
   | Inr u' \<Rightarrow> \<exists>s'. splay_step lt gt s = Inr s' \<and> splay_inv s' u'"
proof -
  obtain cl a x b cr where u: "u = (cl, Node a x b, cr)"
    by (rule splay_inv_Node [OF assms])
  have root: "sp_root s = x" "sp_left s x = root_of a" "sp_right s x = root_of b"
    using assms by (auto simp: u splay_inv_def dest: tree_at_root)
  show ?thesis
  proof (cases "lt x")
    case lt: True
    show ?thesis
    proof (cases a)
      case Leaf
      with lt root assms show ?thesis by (simp add: u splay_step_def)
    next
      case (Node a1 y b1)
      note rot = inv_rotate_right [OF assms [unfolded u Node]]
      have y: "sp_left s y = root_of a1" "x \<noteq> y"
        using assms by (auto simp: u Node splay_inv_def dest: tree_at_root)
      show ?thesis
      proof (cases a1)
        case Leaf
        with lt root y rot inv_link_right [OF assms [unfolded u Node]] show ?thesis
          by (simp add: u Node splay_step_def Let_def)
      next
        case a1: (Node a2 z b2)
        with lt root y inv_link_right [OF rot [unfolded a1]] inv_link_right [OF assms [unfolded u Node]]
        show ?thesis by (simp add: u Node splay_step_def Let_def)
      qed
    qed
  next
    case nlt: False
    show ?thesis
    proof (cases "gt x \<and> b \<noteq> Leaf")
      case False
      with nlt root assms show ?thesis by (auto simp add: u splay_step_def)
    next
      case True
      then obtain a1 y b1 where b: "b = Node a1 y b1" by (cases b) auto
      note rot = inv_rotate_left [OF assms [unfolded u b]]
      have y: "sp_right s y = root_of b1" "x \<noteq> y"
        using assms by (auto simp: u b splay_inv_def dest: tree_at_root)
      show ?thesis
      proof (cases b1)
        case Leaf
        with nlt True root y rot inv_link_left [OF assms [unfolded u b]] show ?thesis
          by (simp add: u b splay_step_def Let_def)
      next
        case b1: (Node a2 z b2)
        with nlt True root y inv_link_left [OF rot [unfolded b1]] inv_link_left [OF assms [unfolded u b]]
        show ?thesis by (simp add: u b splay_step_def Let_def)
      qed
    qed
  qed
qed

text \<open>The links of the nodes outside \<open>N\<close> are those of \<open>ls\<close>.\<close>

definition links_frame :: "ptr set \<Rightarrow> link \<times> link \<Rightarrow> link \<Rightarrow> link \<Rightarrow> bool" where
  "links_frame N ls l r \<longleftrightarrow> (\<forall>p. p \<notin> N \<longrightarrow> l p = fst ls p \<and> r p = snd ls p)"

abbreviation splay_frame :: "ptr set \<Rightarrow> link \<times> link \<Rightarrow> splay_state \<Rightarrow> bool" where
  "splay_frame N ls s \<equiv> links_frame N ls (sp_left s) (sp_right s)"

fun split_nodes :: "split_tree \<Rightarrow> ptr set" where
  "split_nodes (cl, t, cr) = chain_nodes cl \<union> set_tree t \<union> chain_nodes cr"

lemma last_node_in: "last_node c = Some p \<Longrightarrow> p \<in> chain_nodes c"
  by (cases c rule: last_node.cases) auto

lemma frame_upd [simp]:
  "p \<in> N \<Longrightarrow> links_frame N ls (l(p := v)) r \<longleftrightarrow> links_frame N ls l r"
  "p \<in> N \<Longrightarrow> links_frame N ls l (r(p := v)) \<longleftrightarrow> links_frame N ls l r"
  by (auto simp: links_frame_def)

lemma frame_set:
  "(\<And>p. w = Some p \<Longrightarrow> p \<in> N) \<Longrightarrow> splay_frame N ls (set_left w v s) \<longleftrightarrow> splay_frame N ls s"
  "(\<And>p. w = Some p \<Longrightarrow> p \<in> N) \<Longrightarrow> splay_frame N ls (set_right w v s) \<longleftrightarrow> splay_frame N ls s"
  by (auto simp: set_left_def set_right_def split: option.splits)

lemma fstep_split_nodes:
  "fstep lt gt u = Inl u' \<or> fstep lt gt u = Inr u' \<Longrightarrow> split_nodes u' = split_nodes u"
  by (cases "(lt, gt, u)" rule: fstep.cases) (auto split: if_splits tree.splits)

lemma splay_step_frame:
  assumes "splay_inv s u" and "splay_frame (split_nodes u) ls s"
    and "splay_step lt gt s = Inl s' \<or> splay_step lt gt s = Inr s'"
  shows "splay_frame (split_nodes u) ls s'"
proof -
  obtain cl a x b cr where u: "u = (cl, Node a x b, cr)" by (rule splay_inv_Node [OF assms(1)])
  let ?N = "split_nodes u"
  have N: "sp_root s \<in> ?N" "\<And>p. ltree_max s = Some p \<Longrightarrow> p \<in> ?N" "\<And>p. rtree_min s = Some p \<Longrightarrow> p \<in> ?N"
    "\<And>y. sp_left s (sp_root s) = Some y \<Longrightarrow> y \<in> ?N" "\<And>y. sp_right s (sp_root s) = Some y \<Longrightarrow> y \<in> ?N"
    using assms(1) by (auto simp: u splay_inv_def last_node_in dest: tree_at_root simp: root_of_def split: tree.splits)
  from assms(3) assms(2) show ?thesis
    by (auto simp: splay_step_def Let_def splay_link_left_def splay_link_right_def frame_set N
        split: if_splits option.splits)
qed

lemma splay_loop_refines:
  assumes "splay_inv s u" and "splay_frame (split_nodes u) ls s"
  shows "\<exists>s'. splay_loop lt gt s = Some s' \<and> splay_inv s' (floop lt gt u) \<and>
    splay_frame (split_nodes (floop lt gt u)) ls s'"
  using assms
proof (induction lt gt u arbitrary: s rule: floop.induct)
  case (1 lt gt u)
  show ?case
  proof (cases "fstep lt gt u")
    case (Inl u')
    with splay_step_refines [OF 1(2), of lt gt] obtain s' where
      s': "splay_step lt gt s = Inl s'" "splay_inv s' u'" by auto
    moreover have "splay_frame (split_nodes u') ls s'"
      using splay_step_frame [OF 1(2,3) disjI1 [OF s'(1)]] fstep_split_nodes [OF disjI1 [OF Inl]] by simp
    moreover have "floop lt gt u = u'" using Inl by (simp add: floop.simps)
    ultimately show ?thesis by (subst splay_loop.simps) simp
  next
    case (Inr u')
    with splay_step_refines [OF 1(2), of lt gt] obtain s' where
      s': "splay_step lt gt s = Inr s'" "splay_inv s' u'" by auto
    moreover have "splay_frame (split_nodes u') ls s'"
      using splay_step_frame [OF 1(2,3) disjI2 [OF s'(1)]] fstep_split_nodes [OF disjI2 [OF Inr]] by simp
    moreover have "floop lt gt u = floop lt gt u'" using Inr by (subst floop.simps) simp
    ultimately show ?thesis
      using 1(1) [OF Inr, of s'] by (subst splay_loop.simps) simp
  qed
qed

text \<open>The two open slots are filled with the subtrees of the root; then the root gets the two trees.\<close>

definition filled :: "splay_state \<Rightarrow> spine \<Rightarrow> ptr tree \<Rightarrow> spine \<Rightarrow> ptr tree \<Rightarrow> bool" where
  "filled s cl a cr b \<longleftrightarrow>
     chain (tree_at (sp_left s) (sp_right s)) (sp_right s) (sp_left s) (dummy_right s) cl
     \<and> chain (tree_at (sp_left s) (sp_right s)) (sp_left s) (sp_right s) (dummy_left s) cr
     \<and> tree_at (sp_left s) (sp_right s) (slot (sp_right s) (dummy_right s) cl) a
     \<and> tree_at (sp_left s) (sp_right s) (slot (sp_left s) (dummy_left s) cr) b"

lemma fill_slots:
  assumes "splay_inv s (cl, Node a x b, cr)"
  defines "s1 \<equiv> set_right (ltree_max s) (sp_left s x) s"
  defines "s2 \<equiv> set_left (rtree_min s1) (sp_right s1 x) s1"
  shows "filled s2 cl a cr b \<and> sp_root s2 = x"
proof -
  consider "cl = []" "cr = []" | t p c where "cl = (t, p) # c" "cr = []"
    | u q e where "cl = []" "cr = (u, q) # e" | t p c u q e where "cl = (t, p) # c" "cr = (u, q) # e"
    by (cases cl; cases cr) auto
  then show ?thesis
    by cases (use assms(1) in \<open>auto simp: s1_def s2_def splay_inv_def filled_def set_left_def set_right_def\<close>)
qed

lemma splay_assemble_refines:
  assumes "splay_inv s u" and "splay_frame (split_nodes u) ls s"
  shows "tree_at (sp_left (splay_assemble s)) (sp_right (splay_assemble s))
      (Some (sp_root (splay_assemble s))) (fassemble u) \<and>
    (\<forall>p. p \<notin> set_tree (fassemble u) \<longrightarrow>
      sp_left (splay_assemble s) p = fst ls p \<and> sp_right (splay_assemble s) p = snd ls p)"
proof -
  obtain cl a x b cr where u: "u = (cl, Node a x b, cr)"
    by (rule splay_inv_Node [OF assms(1)])
  define s1 where "s1 = set_right (ltree_max s) (sp_left s x) s"
  define s2 where "s2 = set_left (rtree_min s1) (sp_right s1 x) s1"
  have f: "filled s2 cl a cr b" and r2: "sp_root s2 = x"
    using fill_slots [OF assms(1) [unfolded u]] by (auto simp: s1_def s2_def)
  have "rtree_min s1 = rtree_min s" by (simp add: s1_def set_right_def split: option.splits)
  then have fr: "splay_frame (split_nodes u) ls s2"
    using assms by (auto simp: s2_def s1_def frame_set u splay_inv_def last_node_in)
  have root: "sp_root s = x" "sp_root s1 = x"
    using assms(1) by (auto simp: u splay_inv_def s1_def set_right_def split: option.splits)
  have asm: "splay_assemble s = s2\<lparr> sp_left := (sp_left s2)(x := dummy_right s2),
      sp_right := (sp_right s2)(x := dummy_left s2) \<rparr>"
    by (simp add: splay_assemble_def Let_def root r2 flip: s1_def s2_def)
  note set_plug
  moreover have "x \<notin> chain_nodes cl \<union> set_tree a \<union> set_tree b \<union> chain_nodes cr"
    using assms(1) by (auto simp: u splay_inv_def)
  moreover have "tree_at (sp_left s2) (sp_right s2) (dummy_right s2) (plug_left cl a)"
    "tree_at (sp_left s2) (sp_right s2) (dummy_left s2) (plug_right cr b)"
    using f chain_plug_left chain_plug_right by (auto simp: filled_def)
  ultimately show ?thesis
    using fr by (simp add: asm r2 fassemble_def u links_frame_def)
qed

theorem general_splay_refines:
  assumes "tree_at (fst ls) (snd ls) p t" and "distinct (inorder t)"
  shows "\<exists>ls'. GENERAL_SPLAY_TREE lt gt p ls = Some (root_of (fsplay lt gt t), ls') \<and>
    tree_at (fst ls') (snd ls') (root_of (fsplay lt gt t)) (fsplay lt gt t) \<and>
    (\<forall>q. q \<notin> set_tree (fsplay lt gt t) \<longrightarrow> fst ls' q = fst ls q \<and> snd ls' q = snd ls q)"
proof (cases t)
  case Leaf
  then have "fsplay lt gt t = Leaf" by (simp add: fsplay_def floop.simps fassemble_def)
  with Leaf assms show ?thesis by (intro exI [of _ ls]) (simp add: GENERAL_SPLAY_TREE_def)
next
  case (Node a x b)
  let ?s = "\<lparr> sp_left = fst ls, sp_right = snd ls, sp_root = x, ltree_max = None,
            rtree_min = None, dummy_left = None, dummy_right = None \<rparr>"
  have "splay_inv ?s ([], t, [])" "splay_frame (split_nodes ([], t, [])) ls ?s"
    using assms Node by (simp_all add: splay_inv_def links_frame_def)
  then obtain s' where s': "splay_loop lt gt ?s = Some s'" "splay_inv s' (floop lt gt ([], t, []))"
      "splay_frame (split_nodes (floop lt gt ([], t, []))) ls s'"
    using splay_loop_refines by blast
  note as = splay_assemble_refines [OF s'(2,3), folded fsplay_def]
  then have "Some (sp_root (splay_assemble s')) = root_of (fsplay lt gt t)" using tree_at_root by blast
  with as s'(1) assms Node show ?thesis
    by (intro exI [of _ "(sp_left (splay_assemble s'), sp_right (splay_assemble s'))"])
      (auto simp: GENERAL_SPLAY_TREE_def Let_def)
qed

section \<open>What splaying does to the tree\<close>

text \<open>
  The comparisons place the key among the nodes of a list: the nodes before it, possibly one node it
  meets, the nodes after it. Every key is so placed among strictly ascending keys.
\<close>

definition located :: "(ptr \<Rightarrow> bool) \<Rightarrow> (ptr \<Rightarrow> bool) \<Rightarrow> ptr list \<Rightarrow> bool" where
  "located lt gt xs \<longleftrightarrow>
     sorted_wrt (\<lambda>a b. (lt a \<longrightarrow> lt b) \<and> (gt b \<longrightarrow> gt a) \<and> (gt a \<or> lt b)) xs \<and> (\<forall>a\<in>set xs. \<not> (lt a \<and> gt a))"

definition placed :: "(ptr \<Rightarrow> bool) \<Rightarrow> (ptr \<Rightarrow> bool) \<Rightarrow> split_tree \<Rightarrow> bool" where
  "placed lt gt u \<longleftrightarrow> located lt gt (nodes u)
     \<and> (\<forall>a\<in>chain_nodes (fst u). gt a) \<and> (\<forall>b\<in>chain_nodes (snd (snd u)). lt b)"

definition halved :: "(ptr \<Rightarrow> bool) \<Rightarrow> (ptr \<Rightarrow> bool) \<Rightarrow> ptr tree \<Rightarrow> bool" where
  "halved lt gt t \<longleftrightarrow> (\<forall>a\<in>set_tree (left t). gt a) \<and> (\<forall>b\<in>set_tree (right t). lt b)"

lemma located_append:
  "located lt gt (xs @ ys) \<longleftrightarrow> located lt gt xs \<and> located lt gt ys \<and>
    (\<forall>a\<in>set xs. \<forall>b\<in>set ys. (lt a \<longrightarrow> lt b) \<and> (gt b \<longrightarrow> gt a) \<and> (gt a \<or> lt b))"
  by (auto simp: located_def sorted_wrt_append)

lemma located_Cons:
  "located lt gt (x # ys) \<longleftrightarrow> \<not> (lt x \<and> gt x) \<and> located lt gt ys \<and>
    (\<forall>b\<in>set ys. (lt x \<longrightarrow> lt b) \<and> (gt b \<longrightarrow> gt x) \<and> (gt x \<or> lt b))"
  by (auto simp: located_def)

lemma located_sorted:
  fixes val :: "ptr \<Rightarrow> 'k::linorder"
  shows "sorted_wrt (<) (map val xs) \<Longrightarrow> located (\<lambda>p. key < val p) (\<lambda>p. key > val p) xs"
  by (induction xs) (auto simp: located_Cons located_def [of _ _ "[]"])

lemma located_split:
  assumes "located lt gt (xs @ x # ys)"
  shows "lt x \<Longrightarrow> \<forall>b\<in>set ys. lt b" and "gt x \<Longrightarrow> \<forall>a\<in>set xs. gt a"
    and "\<not> lt x \<Longrightarrow> \<not> gt x \<Longrightarrow> (\<forall>a\<in>set xs. gt a) \<and> (\<forall>b\<in>set ys. lt b)"
  using assms by (auto simp: located_append located_Cons)

lemma fstep_nodes: "fstep lt gt u = Inl u' \<or> fstep lt gt u = Inr u' \<Longrightarrow> nodes u' = nodes u"
  by (cases "(lt, gt, u)" rule: fstep.cases) (auto split: if_splits tree.splits)

lemma floop_nodes: "nodes (floop lt gt u) = nodes u"
proof (induction lt gt u rule: floop.induct)
  case (1 lt gt u)
  then show ?case
    by (subst floop.simps) (auto simp del: nodes.simps split: sum.splits
      dest: fstep_nodes [OF disjI1] fstep_nodes [OF disjI2])
qed

lemma placed_Node:
  assumes "placed lt gt (cl, Node a x b, cr)"
  shows "lt x \<Longrightarrow> \<forall>c\<in>set_tree b. lt c" and "gt x \<Longrightarrow> \<forall>c\<in>set_tree a. gt c"
    and "\<not> lt x \<Longrightarrow> \<not> gt x \<Longrightarrow> (\<forall>c\<in>set_tree a. gt c) \<and> (\<forall>c\<in>set_tree b. lt c)"
proof -
  have "located lt gt ((lnodes cl @ inorder a) @ x # inorder b @ rnodes cr)"
    using assms by (simp add: placed_def)
  note s = located_split [OF this]
  show "lt x \<Longrightarrow> \<forall>c\<in>set_tree b. lt c" using s(1) by simp
  show "gt x \<Longrightarrow> \<forall>c\<in>set_tree a. gt c" using s(2) by simp
  show "\<not> lt x \<Longrightarrow> \<not> gt x \<Longrightarrow> (\<forall>c\<in>set_tree a. gt c) \<and> (\<forall>c\<in>set_tree b. lt c)" using s(3) by simp
qed

lemma placed_push:
  assumes "placed lt gt (cl, Node a x b, cr)"
  shows "lt x \<Longrightarrow> placed lt gt (cl, a, (b, x) # cr)" and "gt x \<Longrightarrow> placed lt gt ((a, x) # cl, b, cr)"
proof -
  have l: "located lt gt (nodes (cl, Node a x b, cr))" "\<forall>c\<in>chain_nodes cl. gt c" "\<forall>c\<in>chain_nodes cr. lt c"
    using assms by (simp_all add: placed_def del: nodes.simps)
  have n: "nodes (cl, a, (b, x) # cr) = nodes (cl, Node a x b, cr)"
    "nodes ((a, x) # cl, b, cr) = nodes (cl, Node a x b, cr)" by simp_all
  show "placed lt gt (cl, a, (b, x) # cr)" if "lt x"
    unfolding placed_def n fst_conv snd_conv chain_nodes.simps
    using l placed_Node(1) [OF assms that] that by blast
  show "placed lt gt ((a, x) # cl, b, cr)" if "gt x"
    unfolding placed_def n fst_conv snd_conv chain_nodes.simps
    using l placed_Node(2) [OF assms that] that by blast
qed

lemma placed_rotate:
  "placed lt gt (cl, Node (Node a1 y b1) x b, cr) \<longleftrightarrow> placed lt gt (cl, Node a1 y (Node b1 x b), cr)"
  by (simp add: placed_def)

lemma fstep_placed_Inr:
  assumes p: "placed lt gt u" and "fstep lt gt u = Inr u'"
  shows "placed lt gt u'"
proof -
  obtain cl a x b cr where u: "u = (cl, Node a x b, cr)"
    using assms(2) by (cases "(lt, gt, u)" rule: fstep.cases) auto
  note s = assms(2) [unfolded u] and p = p [unfolded u]
  show ?thesis
  proof (cases "lt x")
    case True
    then obtain a1 y b1 where a: "a = Node a1 y b1" using s by (cases a) auto
    from s True p show ?thesis
      by (cases "lt y"; cases a1) (auto simp: a placed_rotate intro: placed_push(1))
  next
    case False
    with s have "gt x" by (auto split: if_splits)
    with s False obtain a1 y b1 where b: "b = Node a1 y b1" by (cases b) auto
    from s False \<open>gt x\<close> p show ?thesis
      by (cases "gt y"; cases b1) (auto simp: b intro: placed_push(2) simp flip: placed_rotate)
  qed
qed

lemma placed_halved:
  assumes "placed lt gt (cl, Node a x b, cr)"
    and "lt x \<and> a = Leaf \<or> \<not> lt x \<and> gt x \<and> b = Leaf \<or> \<not> lt x \<and> \<not> gt x"
  shows "halved lt gt (fassemble (cl, Node a x b, cr))"
proof -
  have "\<forall>c\<in>chain_nodes cl. gt c" "\<forall>c\<in>chain_nodes cr. lt c" using assms(1) by (simp_all add: placed_def)
  moreover have "(\<forall>c\<in>set_tree a. gt c) \<and> (\<forall>c\<in>set_tree b. lt c)"
    using assms(2) placed_Node [OF assms(1)] by (elim disjE conjE) simp_all
  ultimately show ?thesis
    by (simp add: halved_def fassemble_def set_plug ball_Un)
qed

lemma placed_not_both: "placed lt gt (cl, Node a x b, cr) \<Longrightarrow> gt x \<Longrightarrow> \<not> lt x"
  by (simp add: placed_def located_append located_Cons)

lemma fstep_placed_Inl:
  assumes p: "placed lt gt u" and "fstep lt gt u = Inl u'"
  shows "halved lt gt (fassemble u')"
proof (cases "fst (snd u)")
  case Leaf
  with assms(2) show ?thesis by (cases u) (auto simp: fassemble_def halved_def)
next
  case (Node a x b)
  then obtain cl cr where u: "u = (cl, Node a x b, cr)" by (cases u) auto
  note s = assms(2) [unfolded u] and p = p [unfolded u]
  show ?thesis
  proof (cases "lt x \<and> a \<noteq> Leaf \<or> \<not> lt x \<and> gt x \<and> b \<noteq> Leaf")
    case False
    then have "u' = (cl, Node a x b, cr)" using s by (auto split: if_splits tree.splits)
    with False placed_halved [OF p] show ?thesis by auto
  next
    case True
    then consider a1 y b1 where "a = Node a1 y b1" "lt x" | a1 y b1 where "b = Node a1 y b1" "\<not> lt x" "gt x"
      by (cases a; cases b) auto
    then show ?thesis
    proof cases
      case 1
      with s have "lt y" "a1 = Leaf" "u' = (cl, Node a1 y (Node b1 x b), cr)"
        by (auto split: if_splits tree.splits)
      with 1 p placed_halved [of lt gt cl a1 y "Node b1 x b" cr] show ?thesis
        by (simp add: placed_rotate)
    next
      case 2
      with s have y: "gt y" "b1 = Leaf" "u' = (cl, Node (Node a x a1) y b1, cr)"
        by (auto split: if_splits tree.splits)
      have r: "placed lt gt (cl, Node (Node a x a1) y b1, cr)" using p 2 by (simp add: placed_rotate)
      from y placed_halved [OF r] placed_not_both [OF r y(1)] show ?thesis by simp
    qed
  qed
qed

lemma floop_placed: "placed lt gt u \<Longrightarrow> halved lt gt (fassemble (floop lt gt u))"
proof (induction lt gt u rule: floop.induct)
  case (1 lt gt u)
  then show ?case
    by (subst floop.simps) (auto split: sum.splits dest: fstep_placed_Inl fstep_placed_Inr)
qed

lemma inorder_fassemble: "fst (snd u) \<noteq> Leaf \<Longrightarrow> inorder (fassemble u) = nodes u"
  by (cases u rule: nodes.cases) (auto simp: fassemble_def split: tree.splits)

lemma fstep_not_Leaf:
  "fst (snd u) \<noteq> Leaf \<Longrightarrow> fstep lt gt u = Inl u' \<or> fstep lt gt u = Inr u' \<Longrightarrow> fst (snd u') \<noteq> Leaf"
  by (cases "(lt, gt, u)" rule: fstep.cases) (auto split: if_splits tree.splits)

lemma floop_not_Leaf: "fst (snd u) \<noteq> Leaf \<Longrightarrow> fst (snd (floop lt gt u)) \<noteq> Leaf"
proof (induction lt gt u rule: floop.induct)
  case (1 lt gt u)
  then show ?case
    by (subst floop.simps) (auto split: sum.splits dest: fstep_not_Leaf [OF _ disjI1] fstep_not_Leaf [OF _ disjI2])
qed

lemma fsplay_Leaf [simp]: "fsplay lt gt Leaf = Leaf"
  by (simp add: fsplay_def floop.simps fassemble_def)

lemma inorder_fsplay [simp]: "inorder (fsplay lt gt t) = inorder t"
  using inorder_fassemble [OF floop_not_Leaf, of "([], t, [])"] floop_nodes [of lt gt "([], t, [])"]
  by (cases "t = Leaf") (auto simp: fsplay_def simp flip: fsplay_def)

lemma set_fsplay [simp]: "set_tree (fsplay lt gt t) = set_tree t"
  by (simp flip: set_inorder)

lemma fsplay_eq_Leaf [simp]: "fsplay lt gt t = Leaf \<longleftrightarrow> t = Leaf"
  by (metis set_fsplay eq_set_tree_empty)

lemma fsplay_halved: "located lt gt (inorder t) \<Longrightarrow> halved lt gt (fsplay lt gt t)"
  unfolding fsplay_def by (rule floop_placed) (simp add: placed_def)

text \<open>A node the key meets is at the root.\<close>

lemma fsplay_found:
  assumes "located lt gt (inorder t)" and "q \<in> set_tree t" and "\<not> lt q" and "\<not> gt q"
  shows "root_of (fsplay lt gt t) = Some q"
proof -
  have "q \<in> set_tree (fsplay lt gt t)" using assms(2) by simp
  moreover have "halved lt gt (fsplay lt gt t)" using assms(1) by (rule fsplay_halved)
  ultimately show ?thesis
    using assms(3,4) by (cases "fsplay lt gt t") (auto simp: halved_def)
qed

section \<open>The tree as a map\<close>

definition key_sorted :: "(ptr \<Rightarrow> 'k::linorder) \<Rightarrow> ptr tree \<Rightarrow> bool" where
  "key_sorted val t \<longleftrightarrow> sorted_wrt (<) (map val (inorder t))"

definition tree_map :: "(ptr \<Rightarrow> 'k) \<Rightarrow> ptr tree \<Rightarrow> 'k \<rightharpoonup> ptr" where
  "tree_map val t = map_of (map (\<lambda>p. (val p, p)) (inorder t))"

lemma key_sorted_distinct: "key_sorted val t \<Longrightarrow> distinct (inorder t)"
  by (auto simp: key_sorted_def strict_sorted_iff distinct_map)

lemma key_sorted_Node:
  "key_sorted val (Node a x b) \<longleftrightarrow> key_sorted val a \<and> key_sorted val b
     \<and> (\<forall>y\<in>set_tree a. val y < val x) \<and> (\<forall>y\<in>set_tree b. val x < val y) \<and>
     (\<forall>y\<in>set_tree a. \<forall>z\<in>set_tree b. val y < val z)"
  by (auto simp: key_sorted_def sorted_wrt_append)

lemma tree_map_None: "tree_map val t k = None \<longleftrightarrow> k \<notin> val ` set_tree t"
  by (auto simp: tree_map_def map_of_eq_None_iff image_iff simp flip: set_inorder)

lemma ran_tree_map: "key_sorted val t \<Longrightarrow> ran (tree_map val t) = set_tree t"
  by (simp add: tree_map_def key_sorted_def strict_sorted_iff ran_distinct comp_def image_image flip: set_inorder)

lemma tree_map_Node:
  "tree_map val (Node a x b) = (tree_map val b)(val x \<mapsto> x) ++ tree_map val a"
  by (simp add: tree_map_def)

lemma tree_map_inorder: "inorder t' = inorder t \<Longrightarrow> tree_map val t' = tree_map val t"
  by (simp add: tree_map_def)

lemma key_sorted_inorder: "inorder t' = inorder t \<Longrightarrow> key_sorted val t' \<longleftrightarrow> key_sorted val t"
  by (simp add: key_sorted_def)

lemma located_key:
  "key_sorted val t \<Longrightarrow> located (\<lambda>p. key < val p) (\<lambda>p. key > val p) (inorder t)"
  by (simp add: key_sorted_def located_sorted)

text \<open>After splaying for a key, the root decides whether the key is there.\<close>

lemma tree_map_halved:
  fixes val :: "ptr \<Rightarrow> 'k::linorder"
  assumes "halved (\<lambda>p. k < val p) (\<lambda>p. k > val p) (Node a x b)"
  shows "tree_map val (Node a x b) k = (if val x = k then Some x else None)"
proof -
  have "tree_map val a k = None" "tree_map val b k = None"
    using assms by (auto simp: tree_map_None halved_def)
  then show ?thesis by (auto simp: tree_map_Node map_add_def)
qed

text \<open>
  The tree with a new node \<open>n\<close> on top of a splayed tree, on either side of its root, and the tree
  without its root.
\<close>

lemma key_sorted_insert:
  fixes val :: "ptr \<Rightarrow> 'k::linorder"
  assumes "key_sorted val (Node a x b)" and "halved (\<lambda>p. val n < val p) (\<lambda>p. val n > val p) (Node a x b)"
  shows "val n < val x \<Longrightarrow> key_sorted val (Node a n (Node Leaf x b)) \<and>
      tree_map val (Node a n (Node Leaf x b)) = (tree_map val (Node a x b))(val n \<mapsto> n)"
    and "val n > val x \<Longrightarrow> key_sorted val (Node (Node a x Leaf) n b) \<and>
      tree_map val (Node (Node a x Leaf) n b) = (tree_map val (Node a x b))(val n \<mapsto> n)"
proof -
  have h: "\<forall>y\<in>set_tree a. val y < val n" "\<forall>y\<in>set_tree b. val n < val y" using assms(2) by (auto simp: halved_def)
  then have "tree_map val a (val n) = None" by (auto simp: tree_map_None)
  then show "val n < val x \<Longrightarrow> key_sorted val (Node a n (Node Leaf x b)) \<and>
      tree_map val (Node a n (Node Leaf x b)) = (tree_map val (Node a x b))(val n \<mapsto> n)"
    and "val n > val x \<Longrightarrow> key_sorted val (Node (Node a x Leaf) n b) \<and>
      tree_map val (Node (Node a x Leaf) n b) = (tree_map val (Node a x b))(val n \<mapsto> n)"
    using assms(1) h
    by (auto simp: key_sorted_Node tree_map_Node tree_map_def [of _ Leaf] key_sorted_def [of _ Leaf]
        map_add_def fun_eq_iff split: option.splits)
qed

end
