(* ===== verification/Splay_Map.thy ===== *)
theory Splay_Map
  imports Splay
begin

text \<open>
  What the clients of the splay macros rely on. The store of links under a root represents a finite map
  from keys to nodes; splaying for a key keeps the map, touches only the links of its nodes and brings up
  a root that decides the lookup. The steps the clients then do by hand (linking a new node above the
  root, unlinking the root) have their effect on the map.
\<close>

definition splay_rep :: "(ptr \<Rightarrow> 'k::linorder) \<Rightarrow> link \<times> link \<Rightarrow> ptr option \<Rightarrow> ('k \<rightharpoonup> ptr) \<Rightarrow> bool" where
  "splay_rep val ls root m \<longleftrightarrow>
     (\<exists>t. tree_at (fst ls) (snd ls) root t \<and> key_sorted val t \<and> m = tree_map val t)"

text \<open>A represented map whose root came up when splaying for \<open>k\<close>.\<close>

definition splay_top :: "(ptr \<Rightarrow> 'k::linorder) \<Rightarrow> 'k \<Rightarrow> link \<times> link \<Rightarrow> ptr \<Rightarrow> ('k \<rightharpoonup> ptr) \<Rightarrow> bool" where
  "splay_top val k ls x m \<longleftrightarrow>
     (\<exists>a b. tree_at (fst ls) (snd ls) (Some x) (Node a x b) \<and> key_sorted val (Node a x b) \<and>
        m = tree_map val (Node a x b) \<and> halved (\<lambda>p. k < val p) (\<lambda>p. k > val p) (Node a x b))"

lemma splay_rep_empty [simp]: "splay_rep val ls None m \<longleftrightarrow> m = Map.empty"
proof -
  have "tree_at l r None t \<longleftrightarrow> t = Leaf" for l r t by (cases t) auto
  then show ?thesis by (auto simp: splay_rep_def key_sorted_def tree_map_def)
qed

lemma splay_rep_single: "fst ls n = None \<Longrightarrow> snd ls n = None \<Longrightarrow> splay_rep val ls (Some n) [val n \<mapsto> n]"
  by (auto simp: splay_rep_def key_sorted_def tree_map_def intro!: exI [of _ "Node Leaf n Leaf"])

lemma splay_rep_val: "splay_rep val ls root m \<Longrightarrow> m k = Some n \<Longrightarrow> val n = k"
  by (auto simp: splay_rep_def tree_map_def dest!: map_of_SomeD)

lemma splay_rep_cong:
  assumes "splay_rep val ls root m" and "\<And>q. q \<in> ran m \<Longrightarrow> fst ls' q = fst ls q \<and> snd ls' q = snd ls q \<and> val' q = val q"
  shows "splay_rep val' ls' root m"
proof -
  obtain t where t: "tree_at (fst ls) (snd ls) root t" "key_sorted val t" "m = tree_map val t"
    using assms(1) by (auto simp: splay_rep_def)
  have eq: "fst ls' q = fst ls q \<and> snd ls' q = snd ls q \<and> val' q = val q" if "q \<in> set_tree t" for q
    using assms(2) that ran_tree_map [OF t(2)] t(3) by simp
  have "map val' (inorder t) = map val (inorder t)" "map (\<lambda>p. (val' p, p)) (inorder t) = map (\<lambda>p. (val p, p)) (inorder t)"
    using eq by (auto intro!: map_cong)
  then have "key_sorted val' t" "tree_map val' t = m"
    using t(2,3) by (simp_all only: key_sorted_def tree_map_def)
  moreover have "tree_at (fst ls') (snd ls') root t"
    using t(1) tree_at_cong [of t "fst ls'" "fst ls" "snd ls'" "snd ls" root] eq by blast
  ultimately show ?thesis by (auto simp: splay_rep_def)
qed

lemma splay_top_cong:
  assumes "splay_top val k ls x m" and "\<And>q. q \<in> ran m \<Longrightarrow> fst ls' q = fst ls q \<and> snd ls' q = snd ls q \<and> val' q = val q"
  shows "splay_top val' k ls' x m"
proof -
  obtain a b where t: "tree_at (fst ls) (snd ls) (Some x) (Node a x b)" "key_sorted val (Node a x b)"
    "m = tree_map val (Node a x b)" "halved (\<lambda>p. k < val p) (\<lambda>p. k > val p) (Node a x b)"
    using assms(1) by (auto simp: splay_top_def)
  define t where "t = Node a x b"
  have eq: "fst ls' q = fst ls q \<and> snd ls' q = snd ls q \<and> val' q = val q" if "q \<in> set_tree t" for q
    using assms(2) that ran_tree_map [OF t(2)] t(3) by (simp add: t_def)
  have "map val' (inorder t) = map val (inorder t)" "map (\<lambda>p. (val' p, p)) (inorder t) = map (\<lambda>p. (val p, p)) (inorder t)"
    using eq by (auto intro!: map_cong)
  then have "key_sorted val' t" "m = tree_map val' t"
    using t(2,3) by (simp_all only: key_sorted_def tree_map_def t_def)
  moreover have "tree_at (fst ls') (snd ls') (Some x) t"
    using t(1) tree_at_cong [of t "fst ls'" "fst ls" "snd ls'" "snd ls" "Some x"] eq unfolding t_def by blast
  moreover have "halved (\<lambda>p. k < val' p) (\<lambda>p. k > val' p) t"
    using t(4) eq by (simp add: halved_def t_def)
  ultimately show ?thesis unfolding t_def splay_top_def by blast
qed

lemma splay_top_rep: "splay_top val k ls x m \<Longrightarrow> splay_rep val ls (Some x) m"
  unfolding splay_top_def splay_rep_def by blast

lemma splay_top_lookup:
  assumes "splay_top val k ls x m"
  shows "m k = (if val x = k then Some x else None)" and "x \<in> ran m" and "m (val x) = Some x"
proof -
  obtain a b where t: "key_sorted val (Node a x b)" "m = tree_map val (Node a x b)"
    "halved (\<lambda>p. k < val p) (\<lambda>p. k > val p) (Node a x b)"
    using assms by (auto simp: splay_top_def)
  show "m k = (if val x = k then Some x else None)" unfolding t(2) by (rule tree_map_halved [OF t(3)])
  show "x \<in> ran m" using ran_tree_map [OF t(1)] t(2) by simp
  have "tree_map val a (val x) = None" using t(1) by (auto simp: tree_map_None key_sorted_Node)
  then show "m (val x) = Some x" by (simp add: t(2) tree_map_Node map_add_def)
qed

lemma splay_rep_splay:
  assumes "splay_rep val ls root m"
  shows "\<exists>root' ls'. REGULAR_SPLAY_TREE k val root ls = Some (root', ls') \<and> splay_rep val ls' root' m \<and>
    (\<forall>q. q \<notin> ran m \<longrightarrow> fst ls' q = fst ls q \<and> snd ls' q = snd ls q) \<and>
    (case root' of None \<Rightarrow> m = Map.empty \<and> root = None | Some x \<Rightarrow> splay_top val k ls' x m)"
proof -
  obtain t where t: "tree_at (fst ls) (snd ls) root t" "key_sorted val t" "m = tree_map val t"
    using assms by (auto simp: splay_rep_def)
  define t' where "t' = fsplay (\<lambda>p. k < val p) (\<lambda>p. k > val p) t"
  obtain ls' where s: "REGULAR_SPLAY_TREE k val root ls = Some (root_of t', ls')"
    "tree_at (fst ls') (snd ls') (root_of t') t'" "\<forall>q. q \<notin> set_tree t' \<longrightarrow> fst ls' q = fst ls q \<and> snd ls' q = snd ls q"
    using general_splay_refines [OF t(1) key_sorted_distinct [OF t(2)], of "\<lambda>p. k < val p" "\<lambda>p. k > val p"]
    unfolding REGULAR_SPLAY_TREE_def t'_def by blast
  have "inorder t' = inorder t" by (simp add: t'_def)
  then have inv: "key_sorted val t'" "tree_map val t' = m"
    using t(2,3) key_sorted_inorder tree_map_inorder by metis+
  have rep: "splay_rep val ls' (root_of t') m" using s(2) inv unfolding splay_rep_def by blast
  have top: "case root_of t' of None \<Rightarrow> m = Map.empty \<and> root = None | Some x \<Rightarrow> splay_top val k ls' x m"
  proof (cases t')
    case Leaf
    then have "t = Leaf" using fsplay_eq_Leaf unfolding t'_def by blast
    with t Leaf show ?thesis by (simp add: tree_map_def)
  next
    case (Node a x b)
    have "halved (\<lambda>p. k < val p) (\<lambda>p. k > val p) t'" unfolding t'_def by (rule fsplay_halved [OF located_key [OF t(2)]])
    with s(2) inv have "splay_top val k ls' x m" unfolding Node splay_top_def root_of_simps by blast
    then show ?thesis by (simp add: Node)
  qed
  have "ran m = set_tree t'" using ran_tree_map [OF inv(1)] inv(2) by simp
  with s(1,3) rep top show ?thesis by blast
qed

text \<open>A new node above the root: the root goes to the side its key is on.\<close>

lemma splay_top_insert:
  assumes top: "splay_top val (val n) (l, r) x m" and n: "n \<notin> ran m"
  shows "val n < val x \<Longrightarrow> splay_rep val (l(n := l x, x := None), r(n := Some x)) (Some n) (m(val n \<mapsto> n))"
    and "val n > val x \<Longrightarrow> splay_rep val (l(n := Some x), r(n := r x, x := None)) (Some n) (m(val n \<mapsto> n))"
proof -
  obtain a b where t: "tree_at l r (Some x) (Node a x b)" and s: "key_sorted val (Node a x b)"
    and m: "m = tree_map val (Node a x b)" and h: "halved (\<lambda>p. val n < val p) (\<lambda>p. val n > val p) (Node a x b)"
    using top by (auto simp: splay_top_def)
  have x: "x \<notin> set_tree a" "x \<notin> set_tree b" using key_sorted_distinct [OF s] by auto
  have nx: "n \<noteq> x" "n \<notin> set_tree a" "n \<notin> set_tree b" using n ran_tree_map [OF s] m by auto
  show "splay_rep val (l(n := l x, x := None), r(n := Some x)) (Some n) (m(val n \<mapsto> n))" if "val n < val x"
    using key_sorted_insert(1) [OF s h that] t x nx m
    by (auto simp: splay_rep_def intro!: exI [of _ "Node a n (Node Leaf x b)"])
  show "splay_rep val (l(n := Some x), r(n := r x, x := None)) (Some n) (m(val n \<mapsto> n))" if "val n > val x"
    using key_sorted_insert(2) [OF s h that] t x nx m
    by (auto simp: splay_rep_def intro!: exI [of _ "Node (Node a x Leaf) n b"])
qed

text \<open>
  Unlinking the root: the right subtree when there is no left one; otherwise the left subtree is splayed for
  the same key, which brings up its greatest node with no right child, and that node takes the right subtree.
\<close>

lemma tree_map_unlink:
  fixes val :: "ptr \<Rightarrow> 'k::linorder"
  assumes "key_sorted val (Node a x b)" and "inorder t' = inorder a @ inorder b"
  shows "key_sorted val t' \<and> tree_map val t' = (tree_map val (Node a x b))(val x := None)"
proof -
  have "tree_map val t' = tree_map val b ++ tree_map val a" using assms(2) by (simp add: tree_map_def)
  moreover have "tree_map val a (val x) = None" "tree_map val b (val x) = None"
    using assms(1) by (auto simp: tree_map_None key_sorted_Node)
  ultimately have "tree_map val t' = (tree_map val (Node a x b))(val x := None)"
    by (auto simp: tree_map_Node map_add_def fun_eq_iff split: option.splits)
  moreover have "key_sorted val t'" using assms by (auto simp: key_sorted_def sorted_wrt_append)
  ultimately show ?thesis by simp
qed

lemma splay_greatest:
  fixes val :: "ptr \<Rightarrow> 'k::linorder"
  assumes "key_sorted val a" and "\<forall>y \<in> set_tree a. val y < k" and "a \<noteq> Leaf"
  shows "\<exists>a1 y. fsplay (\<lambda>p. k < val p) (\<lambda>p. k > val p) a = Node a1 y Leaf \<and> inorder a = inorder a1 @ [y]"
proof -
  let ?a = "fsplay (\<lambda>p. k < val p) (\<lambda>p. k > val p) a"
  obtain a1 y b1 where a': "?a = Node a1 y b1" using fsplay_eq_Leaf [of _ _ a] assms(3) by (cases ?a) auto
  have "halved (\<lambda>p. k < val p) (\<lambda>p. k > val p) ?a" by (rule fsplay_halved [OF located_key [OF assms(1)]])
  then have "\<forall>z \<in> set_tree b1. k < val z" unfolding a' halved_def by simp
  moreover have "set_tree b1 \<subseteq> set_tree a" using set_fsplay [of "\<lambda>p. k < val p" "\<lambda>p. k > val p" a] unfolding a' by auto
  ultimately have "b1 = Leaf" using assms(2) by (metis subsetD order_less_asym eq_set_tree_empty ex_in_conv)
  with a' inorder_fsplay [of "\<lambda>p. k < val p" "\<lambda>p. k > val p" a] show ?thesis by auto
qed

lemma splay_top_delete:
  assumes top: "splay_top val k (l, r) x m" and k: "val x = k"
  shows "l x = None \<Longrightarrow> splay_rep val (l, r) (r x) (m(k := None))"
    and "l x \<noteq> None \<Longrightarrow> \<exists>y l' r'. REGULAR_SPLAY_TREE k val (l x) (l, r) = Some (Some y, l', r') \<and> r' x = r x \<and>
      splay_rep val (l'(x := Some y), r'(y := r x)) (Some y) (m(k := None)) \<and> y \<in> ran m \<and> y \<noteq> x \<and>
      (\<forall>q. q \<notin> ran m \<longrightarrow> l' q = l q \<and> r' q = r q)"
proof -
  obtain a b where t: "tree_at l r (Some x) (Node a x b)" and s: "key_sorted val (Node a x b)"
    and m: "m = tree_map val (Node a x b)"
    using top by (auto simp: splay_top_def)
  have d: "x \<notin> set_tree a" "x \<notin> set_tree b" "set_tree a \<inter> set_tree b = {}" "distinct (inorder a)"
    using key_sorted_distinct [OF s] by auto
  have ran: "ran m = set_tree (Node a x b)" using ran_tree_map [OF s] m by simp
  show "splay_rep val (l, r) (r x) (m(k := None))" if "l x = None"
  proof -
    have "a = Leaf" using that t by (cases a) auto
    then show ?thesis using t tree_map_unlink [OF s, of b] m k by (auto simp: splay_rep_def)
  qed
  assume lx: "l x \<noteq> None"
  have a: "a \<noteq> Leaf" using lx t by auto
  have sa: "key_sorted val a" "\<forall>y \<in> set_tree a. val y < k" using s k by (simp_all add: key_sorted_Node)
  obtain a1 y where a1: "fsplay (\<lambda>p. k < val p) (\<lambda>p. k > val p) a = Node a1 y Leaf" "inorder a = inorder a1 @ [y]"
    using splay_greatest [OF sa a] by blast
  have set_a: "set_tree a = insert y (set_tree a1)" using a1(2) by (metis set_inorder set_append list.set Un_insert_right sup_bot_right)
  obtain l' r' where g: "REGULAR_SPLAY_TREE k val (l x) (l, r) = Some (Some y, l', r')"
    "tree_at l' r' (Some y) (Node a1 y Leaf)" "\<forall>q. q \<notin> set_tree a \<longrightarrow> l' q = l q \<and> r' q = r q"
    using general_splay_refines [of "(l, r)" "l x" a "\<lambda>p. k < val p" "\<lambda>p. k > val p"] t d(4)
    unfolding REGULAR_SPLAY_TREE_def a1(1) set_a by auto
  have y: "y \<notin> set_tree a1" "y \<notin> set_tree b" "y \<noteq> x" "x \<notin> set_tree a1" using d a1(2) set_a by auto
  have "tree_at l' r' (r x) b"
    using t g(3) d(3) tree_at_cong [of b l' l r' r "r x"] by auto
  with g(2) y d(2) have "tree_at (l'(x := Some y)) (r'(y := r x)) (Some y) (Node a1 y b)" by simp
  moreover have "key_sorted val (Node a1 y b) \<and> tree_map val (Node a1 y b) = m(k := None)"
    using tree_map_unlink [OF s, of "Node a1 y b"] a1(2) m k by simp
  ultimately have "splay_rep val (l'(x := Some y), r'(y := r x)) (Some y) (m(k := None))"
    unfolding splay_rep_def fst_conv snd_conv by metis
  moreover have "r' x = r x" using g(3) d(1) by blast
  moreover have "y \<in> ran m" "\<forall>q. q \<notin> ran m \<longrightarrow> l' q = l q \<and> r' q = r q" using ran set_a g(3) by auto
  ultimately show "\<exists>y l' r'. REGULAR_SPLAY_TREE k val (l x) (l, r) = Some (Some y, l', r') \<and> r' x = r x \<and>
      splay_rep val (l'(x := Some y), r'(y := r x)) (Some y) (m(k := None)) \<and> y \<in> ran m \<and> y \<noteq> x \<and>
      (\<forall>q. q \<notin> ran m \<longrightarrow> l' q = l q \<and> r' q = r q)"
    using g(1) y(3) by blast
qed

end
