(* ===== verification/Splay_Uint64.thy ===== *)
theory Splay_Uint64
  imports Splay_Map
begin

text \<open>
  The splay tree with 64-bit keys (\<open>src/common/lean/splay-uint64.c\<close>), on which the maps of the GPU
  support are built. The store has the two links and the key of every node; the tree is given by the
  address of its root. An operation returns its result with the new root and store; \<open>None\<close> stands for
  an execution that does not return or dereferences a null pointer.

  A store \<open>represents\<close> a finite map from keys to nodes. The locale \<open>node_map\<close> is the contract of
  such a map; its consequence is that any sequence of operations answers as the finite map does.
\<close>

section \<open>The operations\<close>

record splay_uint64_store =
  su_left :: link
  su_right :: link
  su_key :: "ptr \<Rightarrow> u64"

type_synonym splay_tree = "ptr option \<times> splay_uint64_store"

definition splay_splay :: "u64 \<Rightarrow> splay_tree \<Rightarrow> splay_tree option" where
  "splay_splay splay_key t = map_option
     (\<lambda>(root, l, r). (root, (snd t)\<lparr> su_left := l, su_right := r \<rparr>))
     (REGULAR_SPLAY_TREE splay_key (su_key (snd t)) (fst t) (su_left (snd t), su_right (snd t)))"

definition splay_delete_root :: "splay_tree \<Rightarrow> splay_tree option" where
  "splay_delete_root t = (case t of (None, st) \<Rightarrow> None
   | (Some root, st) \<Rightarrow>
      (case (case su_left st root of
           None \<Rightarrow> Some (su_right st root, st)
         | Some _ \<Rightarrow>
             (case splay_splay (su_key st root) (su_left st root, st) of
                Some (Some l, st') \<Rightarrow>
                  (let st' = st'\<lparr> su_left := (su_left st')(root := Some l) \<rparr>;
                       st' = st'\<lparr> su_right := (su_right st')(l := su_right st' root) \<rparr>
                   in Some (su_left st' root, st'))
              | _ \<Rightarrow> None)) of
         None \<Rightarrow> None
       | Some (map_root, st') \<Rightarrow>
           Some (map_root, st'\<lparr> su_left := (su_left st')(root := None),
                                su_right := (su_right st')(root := None) \<rparr>)))"

definition splay_uint64_insert :: "ptr \<Rightarrow> splay_tree \<Rightarrow> (bool \<times> splay_tree) option" where
  "splay_uint64_insert node t =
    (let st = (snd t)\<lparr> su_left := (su_left (snd t))(node := None), su_right := (su_right (snd t))(node := None) \<rparr>
     in case fst t of
       None \<Rightarrow> Some (True, Some node, st)
     | Some _ \<Rightarrow>
        (case splay_splay (su_key st node) (fst t, st) of
           Some (Some root, st) \<Rightarrow>
             if su_key st node < su_key st root then
               (let st = st\<lparr> su_left := (su_left st)(node := su_left st root) \<rparr>;
                    st = st\<lparr> su_right := (su_right st)(node := Some root) \<rparr>;
                    st = st\<lparr> su_left := (su_left st)(root := None) \<rparr>
                in Some (True, Some node, st))
             else if su_key st node > su_key st root then
               (let st = st\<lparr> su_left := (su_left st)(node := Some root) \<rparr>;
                    st = st\<lparr> su_right := (su_right st)(node := su_right st root) \<rparr>;
                    st = st\<lparr> su_right := (su_right st)(root := None) \<rparr>
                in Some (True, Some node, st))
             else Some (True, Some root, st)
         | _ \<Rightarrow> None))"

definition splay_uint64_lookup :: "u64 \<Rightarrow> splay_tree \<Rightarrow> (ptr option \<times> splay_tree) option" where
  "splay_uint64_lookup key t = (case splay_splay key t of
     None \<Rightarrow> None
   | Some (None, st) \<Rightarrow> Some (None, None, st)
   | Some (Some root, st) \<Rightarrow> Some (if su_key st root = key then Some root else None, Some root, st))"

definition splay_uint64_delete :: "u64 \<Rightarrow> splay_tree \<Rightarrow> (ptr option \<times> splay_tree) option" where
  "splay_uint64_delete key t = (case fst t of
     None \<Rightarrow> Some (None, t)
   | Some _ \<Rightarrow>
      (case splay_splay key t of
         Some (Some root, st) \<Rightarrow>
           if su_key st root = key
           then map_option (\<lambda>t'. (Some root, t')) (splay_delete_root (Some root, st))
           else Some (None, Some root, st)
       | _ \<Rightarrow> None))"

text \<open>
  The traversals: the list of calls of the client's function, with the kind of visit. \<open>n\<close> bounds the
  depth of the recursion; on a deeper (or cyclic) structure the result is \<open>None\<close>.
\<close>

datatype splay_visit_t = splay_preorder_visit | splay_inorder_visit | splay_postorder_visit

datatype splay_order_t = splay_inorder | splay_allorder

fun splay_forall_inorder :: "nat \<Rightarrow> splay_uint64_store \<Rightarrow> ptr option \<Rightarrow> (ptr \<times> splay_visit_t) list option" where
  "splay_forall_inorder n st None = Some []"
| "splay_forall_inorder 0 st (Some node) = None"
| "splay_forall_inorder (Suc n) st (Some node) =
    (case (splay_forall_inorder n st (su_left st node), splay_forall_inorder n st (su_right st node)) of
       (Some ls, Some rs) \<Rightarrow> Some (ls @ (node, splay_inorder_visit) # rs)
     | _ \<Rightarrow> None)"

fun splay_forall_allorder :: "nat \<Rightarrow> splay_uint64_store \<Rightarrow> ptr option \<Rightarrow> (ptr \<times> splay_visit_t) list option" where
  "splay_forall_allorder n st None = Some []"
| "splay_forall_allorder 0 st (Some node) = None"
| "splay_forall_allorder (Suc n) st (Some node) =
    (case (splay_forall_allorder n st (su_left st node), splay_forall_allorder n st (su_right st node)) of
       (Some ls, Some rs) \<Rightarrow> Some ((node, splay_preorder_visit) # ls @ (node, splay_inorder_visit) # rs
         @ [(node, splay_postorder_visit)])
     | _ \<Rightarrow> None)"

definition splay_uint64_forall ::
  "nat \<Rightarrow> splay_order_t \<Rightarrow> splay_tree \<Rightarrow> (ptr \<times> splay_visit_t) list option" where
  "splay_uint64_forall n order t = (case order of
     splay_inorder \<Rightarrow> splay_forall_inorder n (snd t) (fst t)
   | splay_allorder \<Rightarrow> splay_forall_allorder n (snd t) (fst t))"

definition splay_count_helper :: "ptr \<times> splay_visit_t \<Rightarrow> u64 \<Rightarrow> u64" where
  "splay_count_helper visit count = count + 1"

definition splay_uint64_count :: "nat \<Rightarrow> splay_tree \<Rightarrow> u64 option" where
  "splay_uint64_count n t =
     map_option (\<lambda>visits. fold splay_count_helper visits 0) (splay_uint64_forall n splay_inorder t)"

section \<open>The contract of a map from keys to nodes\<close>

datatype ('k, 'n) map_op = Look 'k | Ins 'n | Del 'k
datatype 'n map_ans = Found "'n option" | Done bool

text \<open>
  A sequence of operations on the concrete structure, its meaning on a finite map, and the obligation
  of a client: a node is inserted when it is not in the map.
\<close>

fun run_ops :: "('k \<Rightarrow> 's \<Rightarrow> ('n option \<times> 's) option) \<Rightarrow> ('n \<Rightarrow> 's \<Rightarrow> (bool \<times> 's) option) \<Rightarrow>
    ('k \<Rightarrow> 's \<Rightarrow> ('n option \<times> 's) option) \<Rightarrow> ('k, 'n) map_op list \<Rightarrow> 's \<Rightarrow> ('n map_ans list \<times> 's) option" where
  "run_ops look ins del [] s = Some ([], s)"
| "run_ops look ins del (Look k # ops) s = (case look k s of None \<Rightarrow> None
     | Some (a, s') \<Rightarrow> map_option (\<lambda>(as, s''). (Found a # as, s'')) (run_ops look ins del ops s'))"
| "run_ops look ins del (Ins n # ops) s = (case ins n s of None \<Rightarrow> None
     | Some (b, s') \<Rightarrow> map_option (\<lambda>(as, s''). (Done b # as, s'')) (run_ops look ins del ops s'))"
| "run_ops look ins del (Del k # ops) s = (case del k s of None \<Rightarrow> None
     | Some (a, s') \<Rightarrow> map_option (\<lambda>(as, s''). (Found a # as, s'')) (run_ops look ins del ops s'))"

fun spec_ops :: "('n \<Rightarrow> 'k) \<Rightarrow> ('k, 'n) map_op list \<Rightarrow> ('k \<rightharpoonup> 'n) \<Rightarrow> 'n map_ans list \<times> ('k \<rightharpoonup> 'n)" where
  "spec_ops key [] m = ([], m)"
| "spec_ops key (Look k # ops) m = (case spec_ops key ops m of (as, m') \<Rightarrow> (Found (m k) # as, m'))"
| "spec_ops key (Ins n # ops) m =
    (case spec_ops key ops (case m (key n) of Some _ \<Rightarrow> m | None \<Rightarrow> m(key n \<mapsto> n)) of
     (as, m') \<Rightarrow> (Done True # as, m'))"
| "spec_ops key (Del k # ops) m = (case spec_ops key ops (m(k := None)) of (as, m') \<Rightarrow> (Found (m k) # as, m'))"

fun disciplined :: "('n \<Rightarrow> 'k) \<Rightarrow> ('k, 'n) map_op list \<Rightarrow> ('k \<rightharpoonup> 'n) \<Rightarrow> bool" where
  "disciplined key [] m \<longleftrightarrow> True"
| "disciplined key (Look k # ops) m \<longleftrightarrow> disciplined key ops m"
| "disciplined key (Ins n # ops) m \<longleftrightarrow>
     n \<notin> ran m \<and> disciplined key ops (case m (key n) of Some _ \<Rightarrow> m | None \<Rightarrow> m(key n \<mapsto> n))"
| "disciplined key (Del k # ops) m \<longleftrightarrow> disciplined key ops (m(k := None))"

locale node_map =
  fixes look :: "'k \<Rightarrow> 's \<Rightarrow> ('n option \<times> 's) option"
    and ins :: "'n \<Rightarrow> 's \<Rightarrow> (bool \<times> 's) option"
    and del :: "'k \<Rightarrow> 's \<Rightarrow> ('n option \<times> 's) option"
    and key :: "'n \<Rightarrow> 'k"
    and rep :: "'s \<Rightarrow> ('k \<rightharpoonup> 'n) \<Rightarrow> bool"
  assumes look_rep: "rep s m \<Longrightarrow> \<exists>s'. look k s = Some (m k, s') \<and> rep s' m"
    and ins_rep: "rep s m \<Longrightarrow> n \<notin> ran m \<Longrightarrow>
      \<exists>s'. ins n s = Some (True, s') \<and> rep s' (case m (key n) of Some _ \<Rightarrow> m | None \<Rightarrow> m(key n \<mapsto> n))"
    and del_rep: "rep s m \<Longrightarrow> \<exists>s'. del k s = Some (m k, s') \<and> rep s' (m(k := None))"
begin

lemma run_spec:
  "rep s m \<Longrightarrow> disciplined key ops m \<Longrightarrow>
   \<exists>s'. run_ops look ins del ops s = Some (fst (spec_ops key ops m), s') \<and> rep s' (snd (spec_ops key ops m))"
proof (induction ops arbitrary: s m)
  case Nil
  then show ?case by simp
next
  case (Cons op ops)
  show ?case
  proof (cases op)
    case (Look k)
    obtain s1 where s1: "look k s = Some (m k, s1)" "rep s1 m" using look_rep [OF Cons.prems(1)] by blast
    moreover have "disciplined key ops m" using Cons.prems(2) Look by simp
    ultimately show ?thesis using Cons.IH [OF s1(2)] Look by (auto simp: split_def)
  next
    case (Ins n)
    let ?m = "case m (key n) of Some _ \<Rightarrow> m | None \<Rightarrow> m(key n \<mapsto> n)"
    obtain s1 where s1: "ins n s = Some (True, s1)" "rep s1 ?m"
      using ins_rep [OF Cons.prems(1), of n] Cons.prems(2) Ins by auto
    moreover have "disciplined key ops ?m" using Cons.prems(2) Ins by simp
    ultimately obtain s2 where "run_ops look ins del ops s1 = Some (fst (spec_ops key ops ?m), s2)"
      "rep s2 (snd (spec_ops key ops ?m))" using Cons.IH [OF s1(2)] by blast
    with s1(1) Ins show ?thesis by (simp add: split_def)
  next
    case (Del k)
    obtain s1 where s1: "del k s = Some (m k, s1)" "rep s1 (m(k := None))"
      using del_rep [OF Cons.prems(1)] by blast
    moreover have "disciplined key ops (m(k := None))" using Cons.prems(2) Del by simp
    ultimately obtain s2 where "run_ops look ins del ops s1 = Some (fst (spec_ops key ops (m(k := None))), s2)"
      "rep s2 (snd (spec_ops key ops (m(k := None))))" using Cons.IH [OF s1(2)] by blast
    with s1(1) Del show ?thesis by (simp add: split_def)
  qed
qed

end

section \<open>The operations implement the map\<close>

abbreviation su_at :: "splay_uint64_store \<Rightarrow> ptr option \<Rightarrow> ptr tree \<Rightarrow> bool" where
  "su_at st root t \<equiv> tree_at (su_left st) (su_right st) root t"

abbreviation key_splay :: "(ptr \<Rightarrow> 'k::linorder) \<Rightarrow> 'k \<Rightarrow> ptr tree \<Rightarrow> ptr tree" where
  "key_splay val k t \<equiv> fsplay (\<lambda>p. k < val p) (\<lambda>p. k > val p) t"

definition su_rep :: "(ptr \<Rightarrow> u64) \<Rightarrow> splay_tree \<Rightarrow> (u64 \<rightharpoonup> ptr) \<Rightarrow> bool" where
  "su_rep key s m \<longleftrightarrow> su_key (snd s) = key \<and>
     (\<exists>t. su_at (snd s) (fst s) t \<and> key_sorted key t \<and> m = tree_map key t)"

lemma splay_splay_at:
  assumes "su_at st root t" and "key_sorted (su_key st) t"
  shows "\<exists>st'. splay_splay k (root, st) = Some (root_of (key_splay (su_key st) k t), st') \<and>
    su_at st' (root_of (key_splay (su_key st) k t)) (key_splay (su_key st) k t) \<and> su_key st' = su_key st \<and>
    (\<forall>q. q \<notin> set_tree t \<longrightarrow> su_left st' q = su_left st q \<and> su_right st' q = su_right st q)"
  using general_splay_refines [of "(su_left st, su_right st)" root t "\<lambda>p. k < su_key st p" "\<lambda>p. k > su_key st p"]
    assms key_sorted_distinct [OF assms(2)]
  by (auto simp: splay_splay_def REGULAR_SPLAY_TREE_def)

text \<open>The splayed tree, as the tree it came from.\<close>

lemma key_splay_simps:
  fixes val :: "ptr \<Rightarrow> 'k::linorder"
  shows "tree_map val (key_splay val k t) = tree_map val t"
    and "key_sorted val (key_splay val k t) \<longleftrightarrow> key_sorted val t"
  by (auto intro: tree_map_inorder simp: key_sorted_def)

lemma key_splay_halved:
  fixes val :: "ptr \<Rightarrow> 'k::linorder"
  shows "key_sorted val t \<Longrightarrow> halved (\<lambda>p. k < val p) (\<lambda>p. k > val p) (key_splay val k t)"
  by (rule fsplay_halved) (rule located_key)

lemma lookup_rep:
  assumes "su_rep key s m"
  shows "\<exists>s'. splay_uint64_lookup k s = Some (m k, s') \<and> su_rep key s' m"
proof -
  obtain root st where s: "s = (root, st)" by (cases s)
  obtain t where t: "su_at st root t" "key_sorted key t" "m = tree_map key t" and key: "su_key st = key"
    using assms by (auto simp: su_rep_def s)
  let ?t = "key_splay key k t"
  obtain st' where st': "splay_splay k s = Some (root_of ?t, st')" "su_at st' (root_of ?t) ?t" "su_key st' = key"
    using splay_splay_at [of st root t k] t key by (auto simp: s)
  then have rep: "su_rep key (root_of ?t, st') m"
    using t by (auto simp: su_rep_def key_splay_simps intro!: exI [of _ ?t])
  show ?thesis
  proof (cases ?t)
    case Leaf
    then have "t = Leaf" using fsplay_eq_Leaf by blast
    then have "m k = None" using t by (simp add: tree_map_def)
    with Leaf st'(1) rep show ?thesis by (simp add: splay_uint64_lookup_def)
  next
    case (Node a x b)
    have "tree_map key ?t k = (if key x = k then Some x else None)"
      using tree_map_halved key_splay_halved [OF t(2), of k] unfolding Node by blast
    then have "m k = (if key x = k then Some x else None)" using t(3) by (simp add: key_splay_simps)
    with Node st' rep show ?thesis by (simp add: splay_uint64_lookup_def)
  qed
qed

lemma insert_rep:
  assumes "su_rep key s m" and "n \<notin> ran m"
  shows "\<exists>s'. splay_uint64_insert n s = Some (True, s') \<and>
    su_rep key s' (case m (key n) of Some _ \<Rightarrow> m | None \<Rightarrow> m(key n \<mapsto> n))"
proof -
  obtain root st0 where s: "s = (root, st0)" by (cases s)
  obtain t where t0: "su_at st0 root t" and t: "key_sorted key t" "m = tree_map key t" and key: "su_key st0 = key"
    using assms(1) by (auto simp: su_rep_def s)
  define st where "st = st0\<lparr> su_left := (su_left st0)(n := None), su_right := (su_right st0)(n := None) \<rparr>"
  have n: "n \<notin> set_tree t" using assms(2) t by (simp add: ran_tree_map)
  have at: "su_at st root t" using t0 n by (simp add: st_def)
  have key': "su_key st = key" using key by (simp add: st_def)
  let ?t = "key_splay key (key n) t"
  obtain st' where st': "splay_splay (key n) (root, st) = Some (root_of ?t, st')" "su_at st' (root_of ?t) ?t"
    "su_key st' = key" "su_left st' n = None" "su_right st' n = None"
    using splay_splay_at [OF at, of "key n"] t key' n by (auto simp: st_def)
  show ?thesis
  proof (cases ?t)
    case Leaf
    then have "t = Leaf" using fsplay_eq_Leaf by blast
    then have "m = Map.empty" "root = None" using t at by (simp_all add: tree_map_def)
    moreover have "su_rep key (Some n, st) [key n \<mapsto> n]"
      using key' by (auto simp: su_rep_def st_def tree_map_def key_sorted_def intro!: exI [of _ "Node Leaf n Leaf"])
    ultimately show ?thesis by (simp add: splay_uint64_insert_def s flip: st_def)
  next
    case (Node a x b)
    have "t \<noteq> Leaf" using Node fsplay_Leaf by auto
    then have root: "root \<noteq> None" using at by (cases t) auto
    have sorted: "key_sorted key (Node a x b)" and m: "m = tree_map key (Node a x b)"
      and h: "halved (\<lambda>p. key n < key p) (\<lambda>p. key n > key p) (Node a x b)"
      using t key_splay_simps [of key "key n" t] key_splay_halved [OF t(1), of "key n"] unfolding Node by simp_all
    have nx: "n \<notin> set_tree (Node a x b)" using n Node set_fsplay by metis
    have x: "x \<notin> set_tree a" "x \<notin> set_tree b" using key_sorted_distinct [OF sorted] by auto
    have at': "su_at st' (Some x) (Node a x b)" using st'(2) unfolding Node by simp
    have ins: "splay_uint64_insert n s = (if key n < key x then Some (True, Some n,
          st'\<lparr> su_left := (su_left st')(n := su_left st' x, x := None), su_right := (su_right st')(n := Some x) \<rparr>)
        else if key n > key x then Some (True, Some n,
          st'\<lparr> su_left := (su_left st')(n := Some x), su_right := (su_right st')(n := su_right st' x, x := None) \<rparr>)
        else Some (True, Some x, st'))"
      using st' Node root key' nx by (auto simp: splay_uint64_insert_def s Let_def simp flip: st_def)
    have mk: "m (key n) = (if key x = key n then Some x else None)" unfolding m by (rule tree_map_halved [OF h])
    consider "key n < key x" | "key n > key x" | "key n = key x" by (metis linorder_less_linear)
    then show ?thesis
    proof cases
      case 1
      have "su_rep key (Some n, st'\<lparr> su_left := (su_left st')(n := su_left st' x, x := None),
          su_right := (su_right st')(n := Some x) \<rparr>) (m(key n \<mapsto> n))"
        using at' nx x st'(3) key_sorted_insert(1) [OF sorted h 1] m
        by (auto simp: su_rep_def intro!: exI [of _ "Node a n (Node Leaf x b)"])
      with 1 ins mk show ?thesis by auto
    next
      case 2
      have "su_rep key (Some n, st'\<lparr> su_left := (su_left st')(n := Some x),
          su_right := (su_right st')(n := su_right st' x, x := None) \<rparr>) (m(key n \<mapsto> n))"
        using at' nx x st'(3) key_sorted_insert(2) [OF sorted h 2] m
        by (auto simp: su_rep_def intro!: exI [of _ "Node (Node a x Leaf) n b"])
      with 2 ins mk show ?thesis by auto
    next
      case 3
      have "su_rep key (Some x, st') m"
        using at' sorted m st'(3) by (auto simp: su_rep_def intro!: exI [of _ "Node a x b"])
      with 3 ins mk show ?thesis by auto
    qed
  qed
qed

text \<open>
  Deleting the root: the left subtree is splayed for the key of the root, so that its greatest node comes
  up with no right child, and takes the right subtree.
\<close>

lemma delete_root_at:
  assumes at: "su_at st (Some x) (Node a x b)" and sorted: "key_sorted (su_key st) (Node a x b)"
  shows "\<exists>t' st'. splay_delete_root (Some x, st) = Some (root_of t', st') \<and> su_at st' (root_of t') t' \<and>
    inorder t' = inorder a @ inorder b \<and> su_key st' = su_key st"
proof (cases a)
  case Leaf
  have "x \<notin> set_tree b" using key_sorted_distinct [OF sorted] by simp
  with at Leaf tree_at_root show ?thesis
    by (intro exI [of _ b]) (auto simp: splay_delete_root_def)
next
  case (Node a0 y0 b0)
  let ?key = "su_key st" and ?a = "key_splay (su_key st) (su_key st x) a"
  have sa: "key_sorted ?key a" "\<forall>y\<in>set_tree a. ?key y < ?key x" using sorted by (simp_all add: key_sorted_Node)
  have d: "x \<notin> set_tree a" "x \<notin> set_tree b" "set_tree a \<inter> set_tree b = {}" "distinct (inorder a)"
    using key_sorted_distinct [OF sorted] by auto
  obtain st1 where s1: "splay_splay (?key x) (su_left st x, st) = Some (root_of ?a, st1)"
    "su_at st1 (root_of ?a) ?a" "su_key st1 = ?key"
    "\<And>q. q \<notin> set_tree a \<Longrightarrow> su_left st1 q = su_left st q \<and> su_right st1 q = su_right st q"
    using splay_splay_at [of st "su_left st x" a "?key x"] at sa(1) by auto
  obtain a1 y b1 where a': "?a = Node a1 y b1" using fsplay_eq_Leaf [of _ _ a] Node by (cases ?a) auto
  have "set_tree (Node a1 y b1) = set_tree a" "inorder (Node a1 y b1) = inorder a"
    using set_fsplay inorder_fsplay a' by metis+
  then have sub: "set_tree b1 \<subseteq> set_tree a" "set_tree a1 \<subseteq> set_tree a" "y \<in> set_tree a" and ino: "inorder a1 @ y # inorder b1 = inorder a"
    by auto
  have "\<forall>z\<in>set_tree b1. ?key x < ?key z" using key_splay_halved [OF sa(1), of "?key x"] unfolding a' halved_def by simp
  then have b1: "b1 = Leaf" using sub(1) sa(2) by (metis subsetD order_less_asym eq_set_tree_empty ex_in_conv)
  have "distinct (inorder a1 @ [y])" using d(4) ino b1 by simp
  then have y: "y \<notin> set_tree a1" "y \<notin> set_tree b" "y \<noteq> x" using d sub(3) by auto
  have b_at: "su_at st1 (su_right st x) b"
    using at s1(4) d(3) tree_at_cong [of b "su_left st1" "su_left st" "su_right st1" "su_right st" "su_right st x"] by auto
  have rx: "su_right st1 x = su_right st x" using s1(4) d(1) by blast
  let ?st = "st1\<lparr> su_left := (su_left st1)(x := None), su_right := (su_right st1)(y := su_right st x, x := None) \<rparr>"
  have "splay_delete_root (Some x, st) = Some (Some y, ?st)"
    using s1(1) a' at Node rx y by (simp add: splay_delete_root_def Let_def)
  moreover have "x \<notin> set_tree a1" using d(1) sub(2) by blast
  moreover have "su_at st1 (su_left st1 y) a1" using s1(2) unfolding a' by simp
  then have "su_at ?st (Some y) (Node a1 y b)"
    using b_at y d(2) \<open>x \<notin> set_tree a1\<close> by simp
  ultimately show ?thesis
    using ino b1 s1(3) by (intro exI [of _ "Node a1 y b"]) auto
qed

lemma delete_rep:
  assumes "su_rep key s m"
  shows "\<exists>s'. splay_uint64_delete k s = Some (m k, s') \<and> su_rep key s' (m(k := None))"
proof -
  obtain root st where s: "s = (root, st)" by (cases s)
  obtain t where t: "su_at st root t" "key_sorted key t" "m = tree_map key t" and key: "su_key st = key"
    using assms by (auto simp: su_rep_def s)
  let ?t = "key_splay key k t"
  obtain st' where st': "splay_splay k s = Some (root_of ?t, st')" "su_at st' (root_of ?t) ?t" "su_key st' = key"
    using splay_splay_at [of st root t k] t key by (auto simp: s)
  show ?thesis
  proof (cases ?t)
    case Leaf
    then have "t = Leaf" using fsplay_eq_Leaf by blast
    then have "m = Map.empty" "root = None" using t by (simp_all add: tree_map_def)
    with assms show ?thesis by (simp add: splay_uint64_delete_def s)
  next
    case (Node a x b)
    have "t \<noteq> Leaf" using Node fsplay_Leaf by auto
    then have root: "root \<noteq> None" using t by (cases t) auto
    have sorted: "key_sorted key (Node a x b)" and m: "m = tree_map key (Node a x b)"
      and h: "halved (\<lambda>p. k < key p) (\<lambda>p. k > key p) (Node a x b)"
      using t key_splay_simps [of key k t] key_splay_halved [OF t(2), of k] unfolding Node by simp_all
    have mk: "m k = (if key x = k then Some x else None)" unfolding m by (rule tree_map_halved [OF h])
    have at': "su_at st' (Some x) (Node a x b)" using st'(2) unfolding Node by simp
    show ?thesis
    proof (cases "key x = k")
      case False
      then have "m(k := None) = m" using mk by auto
      moreover have "su_rep key (Some x, st') m"
        using at' sorted m st'(3) by (auto simp: su_rep_def intro!: exI [of _ "Node a x b"])
      ultimately show ?thesis using False mk st' Node root by (auto simp: splay_uint64_delete_def s)
    next
      case True
      obtain t' st2 where d: "splay_delete_root (Some x, st') = Some (root_of t', st2)" "su_at st2 (root_of t') t'"
        "inorder t' = inorder a @ inorder b" "su_key st2 = key"
        using delete_root_at [OF at'] sorted st'(3) by auto
      have "su_rep key (root_of t', st2) (m(k := None))"
        using d tree_map_unlink [OF sorted d(3)] m True by (auto simp: su_rep_def intro!: exI [of _ t'])
      with True mk st' Node root d(1) show ?thesis by (auto simp: splay_uint64_delete_def s)
    qed
  qed
qed

interpretation su: node_map splay_uint64_lookup splay_uint64_insert splay_uint64_delete key "su_rep key" for key
  by unfold_locales (fact lookup_rep insert_rep delete_rep)+

section \<open>Traversals\<close>

lemma forall_inorder_at:
  "su_at st root t \<Longrightarrow> height t \<le> n \<Longrightarrow>
   splay_forall_inorder n st root = Some (map (\<lambda>p. (p, splay_inorder_visit)) (inorder t))"
proof (induction t arbitrary: root n)
  case (Node a x b)
  then obtain n' where "n = Suc n'" by (cases n) auto
  with Node show ?case by auto
qed simp

fun allorder :: "ptr tree \<Rightarrow> (ptr \<times> splay_visit_t) list" where
  "allorder Leaf = []"
| "allorder (Node a x b) = (x, splay_preorder_visit) # allorder a @ (x, splay_inorder_visit) # allorder b
     @ [(x, splay_postorder_visit)]"

lemma forall_allorder_at:
  "su_at st root t \<Longrightarrow> height t \<le> n \<Longrightarrow> splay_forall_allorder n st root = Some (allorder t)"
proof (induction t arbitrary: root n)
  case (Node a x b)
  then obtain n' where "n = Suc n'" by (cases n) auto
  with Node show ?case by auto
qed simp

lemma fold_count: "fold splay_count_helper visits c = c + of_nat (length visits)"
  by (induction visits arbitrary: c) (simp_all add: splay_count_helper_def)

section \<open>Properties\<close>

text \<open>
  C7. The splay tree is a finite map. Starting from the empty tree, every sequence of lookups, insertions
  of nodes not in the tree and deletions returns (no operation runs on or meets a null pointer), each
  with the answer of the finite map from keys to nodes: a lookup or deletion finds the node of the key
  or none, an insertion of a key that is present changes nothing, and always reports success.
\<close>

theorem splay_uint64_is_map:
  assumes "disciplined (su_key st) ops Map.empty"
  shows "map_option fst (run_ops splay_uint64_lookup splay_uint64_insert splay_uint64_delete ops (None, st))
    = Some (fst (spec_ops (su_key st) ops Map.empty))"
proof -
  have "su_rep (su_key st) (None, st) Map.empty"
    by (auto simp: su_rep_def tree_map_def key_sorted_def intro!: exI [of _ Leaf])
  from su.run_spec [OF this assms] show ?thesis by auto
qed

theorem splay_uint64_is_map_witness:
  "map_option fst (run_ops splay_uint64_lookup splay_uint64_insert splay_uint64_delete
      [Ins 5, Ins 3, Ins 9, Look 3, Del 5, Look 5, Ins 5, Del 9]
      (None, \<lparr> su_left = \<lambda>_. None, su_right = \<lambda>_. None, su_key = of_nat \<rparr>))
    = Some [Done True, Done True, Done True, Found (Some 3), Found (Some 5), Found None, Done True,
        Found (Some 9)]"
  using splay_uint64_is_map [of "\<lparr> su_left = \<lambda>_. None, su_right = \<lambda>_. None, su_key = of_nat \<rparr>"
      "[Ins 5, Ins 3, Ins 9, Look 3, Del 5, Look 5, Ins 5, Del 9]"]
  by simp

text \<open>
  The traversals visit the whole tree in key order, and the count is the number of keys of the map.
\<close>

theorem splay_uint64_forall_complete:
  assumes "su_rep key (root, st) m" and "card (dom m) \<le> n"
  shows "\<exists>ps. splay_uint64_forall n splay_inorder (root, st) = Some (map (\<lambda>p. (p, splay_inorder_visit)) ps) \<and>
    set ps = ran m \<and> sorted_wrt (<) (map key ps) \<and>
    splay_uint64_count n (root, st) = Some (of_nat (card (dom m)))"
proof -
  obtain t where t: "su_at st root t" "key_sorted key t" "m = tree_map key t"
    using assms(1) by (auto simp: su_rep_def)
  have "dom m = key ` set_tree t"
    using tree_map_None [of key t] t(3) by (metis (no_types, lifting) domD domI equalityI option.distinct(1) subsetI not_None_eq)
  moreover have "card (key ` set_tree t) = size t"
    using t(2) by (metis key_sorted_def strict_sorted_iff distinct_card length_inorder length_map set_map set_inorder)
  ultimately have card: "card (dom m) = size t" by simp
  have "height t \<le> n" using assms(2) card height_le_size_tree [of t] by simp
  with t(1) have "splay_uint64_forall n splay_inorder (root, st)
      = Some (map (\<lambda>p. (p, splay_inorder_visit)) (inorder t))"
    by (simp add: splay_uint64_forall_def forall_inorder_at)
  moreover from this have "splay_uint64_count n (root, st) = Some (of_nat (card (dom m)))"
    by (simp add: splay_uint64_count_def fold_count card)
  ultimately show ?thesis
    using t ran_tree_map [OF t(2)] by (intro exI [of _ "inorder t"]) (simp add: key_sorted_def)
qed

definition example_store :: splay_uint64_store where
  "example_store = \<lparr> su_left = (\<lambda>_. None)(2 := Some 1), su_right = \<lambda>_. None, su_key = of_nat \<rparr>"

theorem splay_uint64_forall_complete_witness:
  "\<exists>ps. splay_uint64_forall 2 splay_inorder (Some 2, example_store) = Some (map (\<lambda>p. (p, splay_inorder_visit)) ps) \<and>
    set ps = {1, 2} \<and> sorted_wrt (<) (map (of_nat :: nat \<Rightarrow> u64) ps) \<and>
    splay_uint64_count 2 (Some 2, example_store) = Some 2"
proof -
  let ?t = "Node (Node Leaf 1 Leaf) 2 Leaf" and ?m = "tree_map (of_nat :: nat \<Rightarrow> u64) (Node (Node Leaf 1 Leaf) 2 Leaf)"
  have s: "key_sorted (of_nat :: nat \<Rightarrow> u64) ?t" by (simp add: key_sorted_def)
  have "su_rep of_nat (Some 2, example_store) ?m"
    using s by (auto simp: su_rep_def example_store_def intro!: exI [of _ ?t])
  moreover have "dom ?m = {1, 2}" by (auto simp: tree_map_def split: if_splits)
  moreover have "ran ?m = {1, 2}" using ran_tree_map [OF s] by auto
  ultimately show ?thesis using splay_uint64_forall_complete [of of_nat "Some 2" example_store ?m 2] by auto
qed

end
