(* ===== verification/Cct_Walk.thy ===== *)
theory Cct_Walk
  imports Splay
begin

text \<open>
  The store of calling context tree nodes (\<open>struct cct_node_t\<close> of \<open>src/hpcrun/cct/cct.c\<close>, one map per
  field) and the traversals of it. The children of a node are a splay tree of siblings, linked by
  \<open>left\<close> and \<open>right\<close>; a traversal threads its stack through the \<open>previous\<close> fields of the siblings.

  A traversal calls an operation of the client at every node. The operation works on the store and on
  the client's state and may fail (\<open>None\<close>); a traversal gives \<open>None\<close> when an operation does, when it does
  not end, when an assertion of the code fails or a null pointer is dereferenced. The locale \<open>cct_op\<close> is
  what a traversal needs of an operation; the result is that the traversals end, call the operation once
  per node in the stated order, and leave the \<open>previous\<close> fields as they were.
\<close>

section \<open>Nodes\<close>

record ip_normalized_t =
  lm_id_of :: u16
  lm_ip_of :: u64

record cct_store =
  c_persistent_id :: "ptr \<Rightarrow> u32"
  c_addr :: "ptr \<Rightarrow> ip_normalized_t"
  c_is_leaf :: "ptr \<Rightarrow> bool"
  c_unwound :: "ptr \<Rightarrow> bool"
  c_display :: "ptr \<Rightarrow> bool"
  c_parent :: link
  c_children :: link
  c_left :: link
  c_right :: link
  c_previous :: link

section \<open>Walking a splay tree of siblings\<close>

partial_function (option) splay_postorder_first :: "cct_store \<Rightarrow> ptr \<Rightarrow> (ptr \<times> cct_store) option" where
  "splay_postorder_first cs cur =
    (case (case c_left cs cur of Some l \<Rightarrow> Some l | None \<Rightarrow> c_right cs cur) of
       None \<Rightarrow> Some (cur, cs)
     | Some nxt \<Rightarrow> splay_postorder_first (cs\<lparr> c_previous := (c_previous cs)(nxt := Some cur) \<rparr>) nxt)"

definition splay_walk_init :: "cct_store \<Rightarrow> ptr option \<Rightarrow> (ptr option \<times> cct_store) option" where
  "splay_walk_init cs root = (case root of
     None \<Rightarrow> Some (None, cs)
   | Some p \<Rightarrow> if c_previous cs p \<noteq> None then None
       else map_option (\<lambda>(n, cs). (Some n, cs)) (splay_postorder_first cs p))"

definition splay_walk_next :: "cct_store \<Rightarrow> ptr \<Rightarrow> (ptr option \<times> cct_store) option" where
  "splay_walk_next cs lst =
    (let parent = c_previous cs lst;
         cs = cs\<lparr> c_previous := (c_previous cs)(lst := None) \<rparr>
     in case parent of
       None \<Rightarrow> Some (None, cs)
     | Some p \<Rightarrow>
         (case c_right cs p of
            Some r \<Rightarrow> if c_left cs p = Some lst
              then map_option (\<lambda>(n, cs). (Some n, cs))
                (splay_postorder_first (cs\<lparr> c_previous := (c_previous cs)(r := Some p) \<rparr>) r)
              else Some (Some p, cs)
          | None \<Rightarrow> Some (Some p, cs)))"

section \<open>Walking the tree\<close>

type_synonym 'x walk_state = "cct_store \<times> 'x"
type_synonym 'x cct_op_t = "ptr \<Rightarrow> nat \<Rightarrow> 'x walk_state \<Rightarrow> 'x walk_state option"

text \<open>
  The two walking functions have the same loop and differ in where they call the operation: before the
  children of a node are walked, or after. \<open>before\<close> and \<open>after\<close> are these two calls, one of which does
  nothing. \<open>Unwalked\<close> is the top of the outer loop, \<open>Walked\<close> the head of the inner one.
\<close>

datatype walk_at = Unwalked ptr | Walked ptr

partial_function (option) cct_walk_loop :: "'x cct_op_t \<Rightarrow> 'x cct_op_t \<Rightarrow> ptr \<Rightarrow> walk_at \<Rightarrow> nat \<Rightarrow> 'x walk_state \<Rightarrow>
    (nat \<times> 'x walk_state) option" where
  "cct_walk_loop before after cct at level g = (case at of
     Unwalked cur \<Rightarrow>
       (case before cur level g of None \<Rightarrow> None
        | Some g \<Rightarrow>
           (case c_children (fst g) cur of
              None \<Rightarrow> cct_walk_loop before after cct (Walked cur) level g
            | Some children \<Rightarrow>
                (case splay_walk_init (fst g) (Some children) of
                   Some (Some cur, cs) \<Rightarrow>
                     if cur \<noteq> cct then cct_walk_loop before after cct (Unwalked cur) (level + 1) (cs, snd g)
                     else Some (level + 1, cs, snd g)
                 | _ \<Rightarrow> None)))
   | Walked cur \<Rightarrow>
       if cur = cct then Some (level, g)
       else (case after cur level g of None \<Rightarrow> None
        | Some g \<Rightarrow>
           (case splay_walk_next (fst g) cur of None \<Rightarrow> None
            | Some (Some nxt, cs) \<Rightarrow>
                if nxt \<noteq> cct then cct_walk_loop before after cct (Unwalked nxt) level (cs, snd g)
                else Some (level, cs, snd g)
            | Some (None, cs) \<Rightarrow>
                (case c_parent cs cur of None \<Rightarrow> None
                 | Some cur \<Rightarrow> cct_walk_loop before after cct (Walked cur) (level - 1) (cs, snd g)))))"

definition no_op :: "'x cct_op_t" where
  "no_op cur level g = Some g"

definition hpcrun_cct_walk_child_1st_w_level ::
  "ptr option \<Rightarrow> 'x cct_op_t \<Rightarrow> nat \<Rightarrow> 'x walk_state \<Rightarrow> 'x walk_state option" where
  "hpcrun_cct_walk_child_1st_w_level cct op level g = (case cct of
     None \<Rightarrow> Some g
   | Some cct \<Rightarrow> (case cct_walk_loop no_op op cct (Unwalked cct) level g of
       None \<Rightarrow> None
     | Some (level, g) \<Rightarrow> op cct level g))"

definition hpcrun_cct_walk_node_1st_w_level ::
  "ptr option \<Rightarrow> 'x cct_op_t \<Rightarrow> nat \<Rightarrow> 'x walk_state \<Rightarrow> 'x walk_state option" where
  "hpcrun_cct_walk_node_1st_w_level cct op level g = (case cct of
     None \<Rightarrow> Some g
   | Some cct \<Rightarrow> map_option snd (cct_walk_loop op no_op cct (Unwalked cct) level g))"

text \<open>Each node of one splay tree of siblings, at level 0.\<close>

partial_function (option) walk_children_loop :: "'x cct_op_t \<Rightarrow> ptr option \<Rightarrow> 'x walk_state \<Rightarrow> 'x walk_state option" where
  "walk_children_loop fn node g = (case node of
     None \<Rightarrow> Some g
   | Some n \<Rightarrow> (case fn n 0 g of None \<Rightarrow> None
     | Some g \<Rightarrow> (case splay_walk_next (fst g) n of None \<Rightarrow> None
       | Some (nxt, cs) \<Rightarrow> walk_children_loop fn nxt (cs, snd g))))"

definition hpcrun_walk_children :: "ptr option \<Rightarrow> 'x cct_op_t \<Rightarrow> 'x walk_state \<Rightarrow> 'x walk_state option" where
  "hpcrun_walk_children cct fn g = (case splay_walk_init (fst g) cct of None \<Rightarrow> None
     | Some (node, cs) \<Rightarrow> walk_children_loop fn node (cs, snd g))"

text \<open>From the root of the tree down to a node, the level counted from the node.\<close>

partial_function (option) walk_path_l :: "ptr option \<Rightarrow> 'x cct_op_t \<Rightarrow> nat \<Rightarrow> 'x walk_state \<Rightarrow> 'x walk_state option" where
  "walk_path_l node op level g = (case node of
     None \<Rightarrow> Some g
   | Some n \<Rightarrow> Option.bind (walk_path_l (c_parent (fst g) n) op (level + 1) g) (op n level))"

definition hpcrun_walk_path :: "ptr option \<Rightarrow> 'x cct_op_t \<Rightarrow> 'x walk_state \<Rightarrow> 'x walk_state option" where
  "hpcrun_walk_path node op g = walk_path_l node op 0 g"

section \<open>Trees in the store\<close>

text \<open>A splay tree of siblings, each with the splay tree of its children.\<close>

datatype sib = SNil | SNode (sleft: sib) (snode: ptr) (schildren: sib) (sright: sib)

fun sib_at :: "cct_store \<Rightarrow> ptr option \<Rightarrow> ptr option \<Rightarrow> sib \<Rightarrow> bool" where
  "sib_at cs par p SNil \<longleftrightarrow> p = None"
| "sib_at cs par p (SNode l a c r) \<longleftrightarrow> p = Some a \<and> c_parent cs a = par \<and>
     sib_at cs par (c_left cs a) l \<and> sib_at cs par (c_right cs a) r \<and> sib_at cs (Some a) (c_children cs a) c"

fun sib_nodes :: "sib \<Rightarrow> ptr list" where
  "sib_nodes SNil = []"
| "sib_nodes (SNode l a c r) = sib_nodes l @ sib_nodes r @ a # sib_nodes c"

definition sib_root :: "sib \<Rightarrow> ptr option" where
  "sib_root t = (case t of SNil \<Rightarrow> None | SNode l a c r \<Rightarrow> Some a)"

lemma sib_root_simps [simp]: "sib_root SNil = None" "sib_root (SNode l a c r) = Some a"
  by (simp_all add: sib_root_def)

lemma sib_at_root: "sib_at cs par p t \<Longrightarrow> p = sib_root t"
  by (cases t) simp_all

text \<open>The order of the calls: \<open>True\<close> marks the call before, \<open>False\<close> the call after the children.\<close>

type_synonym visit = "bool \<times> ptr \<times> nat"

fun visits :: "nat \<Rightarrow> sib \<Rightarrow> visit list" where
  "visits n SNil = []"
| "visits n (SNode l a c r) = visits n l @ visits n r @ (True, a, n) # visits (Suc n) c @ [(False, a, n)]"

definition open_visits :: "nat \<Rightarrow> sib \<Rightarrow> visit list" where
  "open_visits n t = (case t of SNil \<Rightarrow> []
     | SNode l a c r \<Rightarrow> visits n l @ visits n r @ (True, a, n) # visits (Suc n) c)"

lemma visits_open: "visits n (SNode l a c r) = open_visits n (SNode l a c r) @ [(False, a, n)]"
  by (simp add: open_visits_def)

fun run_visits :: "'x cct_op_t \<Rightarrow> 'x cct_op_t \<Rightarrow> visit list \<Rightarrow> 'x walk_state \<Rightarrow> 'x walk_state option" where
  "run_visits before after [] g = Some g"
| "run_visits before after ((b, a, n) # vs) g = (case (if b then before else after) a n g of
     None \<Rightarrow> None | Some g \<Rightarrow> run_visits before after vs g)"

lemma run_visits_append:
  "run_visits before after (vs @ ws) g = (case run_visits before after vs g of
     None \<Rightarrow> None | Some g \<Rightarrow> run_visits before after ws g)"
  by (induction before after vs g rule: run_visits.induct) (auto split: option.splits)

section \<open>What a traversal needs of an operation\<close>

definition same_links :: "cct_store \<Rightarrow> cct_store \<Rightarrow> bool" where
  "same_links cs cs' \<longleftrightarrow> c_parent cs' = c_parent cs \<and> c_children cs' = c_children cs \<and>
     c_left cs' = c_left cs \<and> c_right cs' = c_right cs"

locale cct_op =
  fixes op :: "'x cct_op_t"
  assumes op_previous: "op a n (cs\<lparr> c_previous := f \<rparr>, x) =
      map_option (\<lambda>(cs, x). (cs\<lparr> c_previous := f \<rparr>, x)) (op a n (cs, x))"
    and op_links: "op a n (cs, x) = Some (cs', x') \<Longrightarrow> same_links cs cs'"

interpretation no_op: cct_op no_op
  by unfold_locales (auto simp: no_op_def same_links_def)

context cct_op
begin

lemma op_previous_Some:
  "op a n (cs, x) = Some (cs', x') \<Longrightarrow> op a n (cs\<lparr> c_previous := f \<rparr>, x) = Some (cs'\<lparr> c_previous := f \<rparr>, x')"
  by (simp add: op_previous)

lemma op_previous_None: "op a n (cs, x) = None \<Longrightarrow> op a n (cs\<lparr> c_previous := f \<rparr>, x) = None"
  by (simp add: op_previous)

end

lemma sib_at_same_links: "same_links cs cs' \<Longrightarrow> sib_at cs' par p t \<longleftrightarrow> sib_at cs par p t"
  by (induction t arbitrary: par p) (auto simp: same_links_def)

lemma sib_at_previous [simp]: "sib_at (cs\<lparr> c_previous := f \<rparr>) par p t \<longleftrightarrow> sib_at cs par p t"
  by (rule sib_at_same_links) (simp add: same_links_def)

lemma postorder_first_down:
  "c_left cs a = Some b \<Longrightarrow> splay_postorder_first (cs\<lparr> c_previous := f \<rparr>) a =
     splay_postorder_first (cs\<lparr> c_previous := f(b := Some a) \<rparr>) b"
  "c_left cs a = None \<Longrightarrow> c_right cs a = Some b \<Longrightarrow> splay_postorder_first (cs\<lparr> c_previous := f \<rparr>) a =
     splay_postorder_first (cs\<lparr> c_previous := f(b := Some a) \<rparr>) b"
  "c_left cs a = None \<Longrightarrow> c_right cs a = None \<Longrightarrow> splay_postorder_first (cs\<lparr> c_previous := f \<rparr>) a =
     Some (a, cs\<lparr> c_previous := f \<rparr>)"
  by (subst splay_postorder_first.simps, simp)+

lemma postorder_first_in:
  "sib_at cs par (Some a) t \<Longrightarrow>
   \<exists>p f'. splay_postorder_first (cs\<lparr> c_previous := f \<rparr>) a = Some (p, cs\<lparr> c_previous := f' \<rparr>) \<and> p \<in> set (sib_nodes t)"
proof (induction t arbitrary: par a f)
  case SNil
  then show ?case by simp
next
  case (SNode l b c r)
  then have at: "a = b" "sib_at cs par (c_left cs a) l" "sib_at cs par (c_right cs a) r" by auto
  show ?case
  proof (cases "c_left cs a")
    case (Some p)
    then have "sib_at cs par (Some p) l" using at by simp
    from SNode.IH(1) [OF this, of "f(p := Some a)"] Some show ?thesis
      by (auto simp only: postorder_first_down sib_nodes.simps set_append)
  next
    case None
    show ?thesis
    proof (cases "c_right cs a")
      case (Some p)
      then have "sib_at cs par (Some p) r" using at by simp
      from SNode.IH(3) [OF this, of "f(p := Some a)"] None Some show ?thesis
        by (auto simp only: postorder_first_down sib_nodes.simps set_append)
    next
      case none: None
      with None at show ?thesis by (auto simp: postorder_first_down intro!: exI [of _ f])
    qed
  qed
qed

text \<open>
  A walk with the two operations. Entering a sibling tree at its root \<open>a\<close>: the traversal goes to the first
  node in postorder, and comes back to the head of the inner loop at \<open>a\<close> with every call of the tree made
  but the last one, and the \<open>previous\<close> fields as before.
\<close>

locale cct_walker = before: cct_op before + after: cct_op after
  for before :: "'x cct_op_t" and after :: "'x cct_op_t"
begin

lemma run_visits_links:
  "run_visits before after vs (cs, x) = Some (cs', x') \<Longrightarrow> same_links cs cs'"
proof (induction vs arbitrary: cs x)
  case Nil
  then show ?case by (simp add: same_links_def)
next
  case (Cons v vs)
  obtain b a n where v: "v = (b, a, n)" by (cases v)
  let ?op = "if b then before else after"
  obtain cs1 x1 where s1: "?op a n (cs, x) = Some (cs1, x1)" "run_visits before after vs (cs1, x1) = Some (cs', x')"
    using Cons.prems by (auto simp: v split: option.splits)
  have "same_links cs cs1" using s1(1) before.op_links after.op_links by (auto split: if_splits)
  with Cons.IH [OF s1(2)] show ?case by (simp add: same_links_def)
qed

definition enter :: "ptr \<Rightarrow> ptr \<Rightarrow> nat \<Rightarrow> link \<Rightarrow> 'x walk_state \<Rightarrow> (nat \<times> 'x walk_state) option" where
  "enter cct a n f g = (case splay_postorder_first ((fst g)\<lparr> c_previous := f \<rparr>) a of
     None \<Rightarrow> None
   | Some (p, cs) \<Rightarrow> cct_walk_loop before after cct (Unwalked p) n (cs, snd g))"

definition resume :: "ptr \<Rightarrow> walk_at \<Rightarrow> nat \<Rightarrow> link \<Rightarrow> 'x walk_state option \<Rightarrow> (nat \<times> 'x walk_state) option" where
  "resume cct at n f r = (case r of None \<Rightarrow> None
     | Some g \<Rightarrow> cct_walk_loop before after cct at n ((fst g)\<lparr> c_previous := f \<rparr>, snd g))"

lemma resume_append:
  "resume cct at n f (run_visits before after (vs @ ws) g) =
    (case run_visits before after vs g of None \<Rightarrow> None
     | Some g' \<Rightarrow> resume cct at n f (run_visits before after ws g'))"
  by (auto simp: run_visits_append resume_def split: option.splits)

lemma enter_down:
  "c_left cs a = Some b \<Longrightarrow> enter cct a n f (cs, x) = enter cct b n (f(b := Some a)) (cs, x)"
  "c_left cs a = None \<Longrightarrow> c_right cs a = Some b \<Longrightarrow> enter cct a n f (cs, x) = enter cct b n (f(b := Some a)) (cs, x)"
  "c_left cs a = None \<Longrightarrow> c_right cs a = None \<Longrightarrow>
     enter cct a n f (cs, x) = cct_walk_loop before after cct (Unwalked a) n (cs\<lparr> c_previous := f \<rparr>, x)"
  by (simp_all add: enter_def postorder_first_down)

text \<open>The head of the inner loop at a node whose traversal began at another node of its siblings.\<close>

lemma walked_after:
  assumes "b \<noteq> cct"
  shows "cct_walk_loop before after cct (Walked b) n (cs\<lparr> c_previous := f \<rparr>, x) =
    (case after b n (cs, x) of None \<Rightarrow> None
     | Some (cs', x') \<Rightarrow>
        (case splay_walk_next (cs'\<lparr> c_previous := f \<rparr>) b of None \<Rightarrow> None
            | Some (Some nxt, cs) \<Rightarrow>
                if nxt \<noteq> cct then cct_walk_loop before after cct (Unwalked nxt) n (cs, x')
                else Some (n, cs, x')
            | Some (None, cs) \<Rightarrow>
                (case c_parent cs b of None \<Rightarrow> None
                 | Some cur \<Rightarrow> cct_walk_loop before after cct (Walked cur) (n - 1) (cs, x'))))"
  using assms by (subst cct_walk_loop.simps) (auto simp: after.op_previous split: option.splits)

lemma walked_to_right:
  assumes "b \<noteq> cct" and "f b = Some a" and "c_left cs a = Some b" and "c_right cs a = Some d"
    and "sib_at cs par (Some d) r" and "cct \<notin> set (sib_nodes r)"
  shows "cct_walk_loop before after cct (Walked b) n (cs\<lparr> c_previous := f \<rparr>, x) =
    (case after b n (cs, x) of None \<Rightarrow> None
     | Some g \<Rightarrow> enter cct d n (f(b := None, d := Some a)) g)"
proof (cases "after b n (cs, x)")
  case (Some g)
  obtain cs' x' where g: "g = (cs', x')" by (cases g)
  have l: "same_links cs cs'" using after.op_links Some g by blast
  then have "sib_at cs' par (Some d) r" using assms(5) by (simp add: sib_at_same_links)
  then obtain p f' where "splay_postorder_first (cs'\<lparr> c_previous := f(b := None, d := Some a) \<rparr>) d
      = Some (p, cs'\<lparr> c_previous := f' \<rparr>)" "p \<in> set (sib_nodes r)"
    using postorder_first_in by blast
  moreover have "c_left cs' a = Some b" "c_right cs' a = Some d" using l assms by (simp_all add: same_links_def)
  ultimately show ?thesis
    using Some assms by (auto simp: walked_after g splay_walk_next_def Let_def enter_def)
qed (simp add: walked_after assms)

lemma walked_up:
  assumes "b \<noteq> cct" and "f b = Some a" and "a \<noteq> cct" and "c_left cs a \<noteq> Some b \<or> c_right cs a = None"
  shows "cct_walk_loop before after cct (Walked b) n (cs\<lparr> c_previous := f \<rparr>, x) =
    resume cct (Unwalked a) n (f(b := None)) (after b n (cs, x))"
proof (cases "after b n (cs, x)")
  case (Some g)
  obtain cs' x' where g: "g = (cs', x')" by (cases g)
  have l: "same_links cs cs'" using after.op_links Some g by blast
  then have "c_left cs' a \<noteq> Some b \<or> c_right cs' a = None" using assms by (auto simp: same_links_def)
  then have "splay_walk_next (cs'\<lparr> c_previous := f \<rparr>) b = Some (Some a, cs'\<lparr> c_previous := f(b := None) \<rparr>)"
    using assms(2) by (auto simp: splay_walk_next_def Let_def split: option.splits)
  with Some assms show ?thesis by (simp add: walked_after g resume_def)
qed (simp add: walked_after assms resume_def)

lemma walked_to_parent:
  assumes "b \<noteq> cct" and "f b = None" and "c_parent cs b = Some a"
  shows "cct_walk_loop before after cct (Walked b) (Suc n) (cs\<lparr> c_previous := f \<rparr>, x) =
    resume cct (Walked a) n f (after b (Suc n) (cs, x))"
proof (cases "after b (Suc n) (cs, x)")
  case (Some g)
  obtain cs' x' where g: "g = (cs', x')" by (cases g)
  have l: "same_links cs cs'" using after.op_links Some g by blast
  have f: "f(b := None) = f" using assms(2) by auto
  have "splay_walk_next (cs'\<lparr> c_previous := f \<rparr>) b = Some (None, cs'\<lparr> c_previous := f \<rparr>)"
    using assms(2) by (simp add: splay_walk_next_def Let_def f)
  with Some l assms show ?thesis by (simp add: walked_after g resume_def same_links_def)
qed (simp add: walked_after assms resume_def)

text \<open>A node and its children, when the siblings below it in the splay tree are done.\<close>

definition enters :: "ptr \<Rightarrow> sib \<Rightarrow> bool" where
  "enters cct t \<longleftrightarrow> (\<forall>a par n f cs x. sib_root t = Some a \<longrightarrow> sib_at cs par (Some a) t \<longrightarrow> distinct (sib_nodes t) \<longrightarrow>
     cct \<notin> set (sib_nodes t) \<longrightarrow> (\<forall>p\<in>set (sib_nodes t). p \<noteq> a \<longrightarrow> f p = None) \<longrightarrow>
     enter cct a n f (cs, x) = resume cct (Walked a) n f (run_visits before after (open_visits n t) (cs, x)))"

lemma entersD:
  assumes "enters cct t" and "sib_root t = Some a" and "sib_at cs par (Some a) t" and "distinct (sib_nodes t)"
    and "cct \<notin> set (sib_nodes t)" and "\<And>p. p \<in> set (sib_nodes t) \<Longrightarrow> p \<noteq> a \<Longrightarrow> f p = None"
  shows "enter cct a n f (cs, x) = resume cct (Walked a) n f (run_visits before after (open_visits n t) (cs, x))"
  using assms unfolding enters_def by blast

lemma unwalked_node:
  assumes IH: "enters cct c" and at: "sib_at cs (Some a) (c_children cs a) c" and "distinct (sib_nodes c)"
    and "cct \<notin> set (sib_nodes c)" and f: "\<And>p. p \<in> set (sib_nodes c) \<Longrightarrow> f p = None"
  shows "cct_walk_loop before after cct (Unwalked a) n (cs\<lparr> c_previous := f \<rparr>, x) =
    resume cct (Walked a) n f (run_visits before after ((True, a, n) # visits (Suc n) c) (cs, x))"
proof (cases "before a n (cs, x)")
  case None
  then show ?thesis by (subst cct_walk_loop.simps) (simp add: before.op_previous resume_def)
next
  case (Some g)
  obtain cs1 x1 where g: "g = (cs1, x1)" by (cases g)
  have l: "same_links cs cs1" using before.op_links Some g by blast
  then have at1: "sib_at cs1 (Some a) (c_children cs1 a) c"
    using at by (simp add: sib_at_same_links) (simp add: same_links_def)
  have step: "cct_walk_loop before after cct (Unwalked a) n (cs\<lparr> c_previous := f \<rparr>, x) =
      (case c_children cs1 a of
              None \<Rightarrow> cct_walk_loop before after cct (Walked a) n (cs1\<lparr> c_previous := f \<rparr>, x1)
            | Some children \<Rightarrow>
                (case splay_walk_init (cs1\<lparr> c_previous := f \<rparr>) (Some children) of
                   Some (Some cur, cs) \<Rightarrow>
                     if cur \<noteq> cct then cct_walk_loop before after cct (Unwalked cur) (Suc n) (cs, x1)
                     else Some (Suc n, cs, x1)
                 | _ \<Rightarrow> None))"
    using Some g by (subst cct_walk_loop.simps) (auto simp: before.op_previous split: option.splits)
  show ?thesis
  proof (cases c)
    case SNil
    then show ?thesis using at1 Some g by (simp add: step resume_def)
  next
    case (SNode l b e r)
    have b: "c_children cs1 a = Some b" "sib_at cs1 (Some a) (Some b) c" "c_parent cs1 b = Some a"
      using at1 by (simp_all add: SNode)
    have nb: "b \<noteq> cct" "f b = None" using assms(4) f by (auto simp: SNode)
    obtain p f' where p: "splay_postorder_first (cs1\<lparr> c_previous := f \<rparr>) b = Some (p, cs1\<lparr> c_previous := f' \<rparr>)"
      "p \<in> set (sib_nodes c)" using postorder_first_in [OF b(2)] by blast
    then have "p \<noteq> cct" using assms(4) by auto
    with p(1) b nb have "cct_walk_loop before after cct (Unwalked a) n (cs\<lparr> c_previous := f \<rparr>, x) =
        enter cct b (Suc n) f (cs1, x1)"
      by (simp add: step splay_walk_init_def enter_def)
    also have "\<dots> = resume cct (Walked b) (Suc n) f (run_visits before after (open_visits (Suc n) c) (cs1, x1))"
      using entersD [OF IH _ b(2) assms(3,4)] f by (simp add: SNode)
    also have "\<dots> = resume cct (Walked a) n f (run_visits before after (visits (Suc n) c) (cs1, x1))"
    proof (cases "run_visits before after (open_visits (Suc n) c) (cs1, x1)")
      case None
      then show ?thesis by (simp add: SNode visits_open run_visits_append resume_def del: visits.simps)
    next
      case ran: (Some g2)
      obtain cs2 x2 where g2: "g2 = (cs2, x2)" by (cases g2)
      have "same_links cs1 cs2" using run_visits_links ran g2 by blast
      then have "c_parent cs2 b = Some a" using b(3) by (simp add: same_links_def)
      from walked_to_parent [where f = f, OF nb this] show ?thesis
        using ran by (simp add: SNode visits_open run_visits_append g2 resume_def del: visits.simps split: option.splits)
    qed
    finally show ?thesis using Some g by simp
  qed
qed

lemma enter_sib: "enters cct t"
proof (induction t)
  case SNil
  then show ?case by (simp add: enters_def)
next
  case (SNode l a c r)
  show ?case unfolding enters_def
  proof (intro allI impI)
    fix a' :: ptr and par :: "ptr option" and n :: nat and f :: link and cs :: cct_store and x :: 'x
    let ?t = "SNode l a c r"
    assume "sib_root ?t = Some a'" and at: "sib_at cs par (Some a') ?t" and d: "distinct (sib_nodes ?t)"
      and cct: "cct \<notin> set (sib_nodes ?t)" and f: "\<forall>p\<in>set (sib_nodes ?t). p \<noteq> a' \<longrightarrow> f p = None"
    then have a': "a' = a" by simp
    have ne: "a \<noteq> cct" "distinct (sib_nodes l)" "distinct (sib_nodes r)" "distinct (sib_nodes c)"
      "cct \<notin> set (sib_nodes l)" "cct \<notin> set (sib_nodes r)" "cct \<notin> set (sib_nodes c)"
      and fc: "\<And>p. p \<in> set (sib_nodes l) \<Longrightarrow> f p = None" "\<And>p. p \<in> set (sib_nodes r) \<Longrightarrow> f p = None"
      "\<And>p. p \<in> set (sib_nodes c) \<Longrightarrow> f p = None"
      using d cct f by (auto simp: a')
    have node: "cct_walk_loop before after cct (Unwalked a) n (cs'\<lparr> c_previous := f \<rparr>, x') =
        resume cct (Walked a) n f (run_visits before after ((True, a, n) # visits (Suc n) c) (cs', x'))"
      if "same_links cs cs'" for cs' x'
      using unwalked_node [OF SNode.IH(2) _ ne(4,7) fc(3), where cs = cs' and a = a and n = n and x = x'] at that
      by (simp add: a' sib_at_same_links) (simp add: same_links_def)
    have up: "resume cct (Walked b) n (f(b := Some a)) (run_visits before after (open_visits n u) g) =
        (case run_visits before after (visits n u) g of None \<Rightarrow> None
         | Some (cs', x') \<Rightarrow> cct_walk_loop before after cct (Unwalked a) n (cs'\<lparr> c_previous := f \<rparr>, x'))"
      if u: "sib_root u = Some b" "b \<noteq> cct" "f b = None" and g: "same_links cs (fst g)"
        and lr: "c_left cs a \<noteq> Some b \<or> c_right cs a = None" for u b g
    proof (cases "run_visits before after (open_visits n u) g")
      case None
      then show ?thesis using u by (cases u) (simp_all add: visits_open run_visits_append resume_def del: visits.simps)
    next
      case (Some g2)
      obtain cs2 x2 where g2: "g2 = (cs2, x2)" by (cases g2)
      have "same_links (fst g) cs2" using run_visits_links Some g2 by (metis prod.collapse)
      with g have l2: "same_links cs cs2" by (simp add: same_links_def)
      with lr have "c_left cs2 a \<noteq> Some b \<or> c_right cs2 a = None" by (simp add: same_links_def)
      moreover have "f(b := None) = f" using u(3) by auto
      ultimately show ?thesis
        using walked_up [OF u(2), where f = "f(b := Some a)" and a = a and cs = cs2 and n = n and x = x2] ne(1) Some u(1)
        by (cases u) (auto simp: visits_open run_visits_append resume_def g2 simp del: visits.simps split: option.splits)
    qed
    have lnot: "c_left cs a = sib_root l" "c_right cs a = sib_root r" using at sib_at_root by (auto simp: a')
    have right: "enter cct d n (f(d := Some a)) (cs', x') =
        resume cct (Walked a) n f (run_visits before after (visits n r @ (True, a, n) # visits (Suc n) c) (cs', x'))"
      if l: "same_links cs cs'" and r: "sib_root r = Some d" for cs' x' d
    proof -
      have rd: "d \<in> set (sib_nodes r)" using r by (cases r) auto
      have "sib_at cs' par (Some d) r" using at l lnot r by (simp add: a' sib_at_same_links)
      then have "enter cct d n (f(d := Some a)) (cs', x') =
          resume cct (Walked d) n (f(d := Some a)) (run_visits before after (open_visits n r) (cs', x'))"
        using fc(2) by (intro entersD [OF SNode.IH(3) r _ ne(3,6)]) auto
      also have "sib_root l \<noteq> Some d" using d rd by (cases l) auto
      then have "resume cct (Walked d) n (f(d := Some a)) (run_visits before after (open_visits n r) (cs', x')) =
        (case run_visits before after (visits n r) (cs', x') of None \<Rightarrow> None
         | Some (cs', x') \<Rightarrow> cct_walk_loop before after cct (Unwalked a) n (cs'\<lparr> c_previous := f \<rparr>, x'))"
        using rd ne(6) fc(2) l by (intro up [OF r]) (auto simp: lnot)
      also have "\<dots> = resume cct (Walked a) n f (run_visits before after (visits n r @ (True, a, n) # visits (Suc n) c) (cs', x'))"
      proof (cases "run_visits before after (visits n r) (cs', x')")
        case (Some g2)
        obtain cs2 x2 where g2: "g2 = (cs2, x2)" by (cases g2)
        have "same_links cs' cs2" using run_visits_links Some g2 by blast
        then have "same_links cs cs2" using l by (simp add: same_links_def)
        from node [OF this] Some show ?thesis by (simp add: resume_append g2)
      qed (simp add: resume_append)
      finally show ?thesis .
    qed
    have rest: "(case run_visits before after (visits n l) (cs, x) of None \<Rightarrow> None
         | Some (cs', x') \<Rightarrow> (case sib_root r of
             None \<Rightarrow> cct_walk_loop before after cct (Unwalked a) n (cs'\<lparr> c_previous := f \<rparr>, x')
           | Some d \<Rightarrow> enter cct d n (f(d := Some a)) (cs', x'))) =
        resume cct (Walked a) n f (run_visits before after (open_visits n ?t) (cs, x))"
    proof (cases "run_visits before after (visits n l) (cs, x)")
      case (Some g2)
      obtain cs2 x2 where g2: "g2 = (cs2, x2)" by (cases g2)
      have l2: "same_links cs cs2" using run_visits_links Some g2 by blast
      show ?thesis
      proof (cases r)
        case SNil
        with node [OF l2] Some show ?thesis by (simp add: open_visits_def resume_append g2)
      next
        case (SNode r1 d r2 r3)
        then have "sib_root r = Some d" by simp
        from right [OF l2 this] Some show ?thesis
          by (simp add: open_visits_def resume_append g2 SNode del: visits.simps)
      qed
    qed (simp add: open_visits_def resume_append)
    show "enter cct a' n f (cs, x) = resume cct (Walked a') n f (run_visits before after (open_visits n ?t) (cs, x))"
    proof (cases l)
      case SNil
      have "c_left cs a = None" using lnot SNil by simp
      with rest show ?thesis using lnot SNil by (cases r) (auto simp: a' enter_down simp del: visits.simps(2))
    next
      case (SNode l1 b l2 l3)
      then have lb: "sib_root l = Some b" "c_left cs a = Some b" using lnot by simp_all
      have bl: "b \<in> set (sib_nodes l)" by (simp add: SNode)
      then have nb: "b \<noteq> cct" "f b = None" using ne(5) fc(1) by auto
      have "sib_at cs par (Some b) l" using at lb by (simp add: a')
      then have "enter cct a n f (cs, x) =
          resume cct (Walked b) n (f(b := Some a)) (run_visits before after (open_visits n l) (cs, x))"
        unfolding enter_down(1) [OF lb(2)]
        using fc(1) by (intro entersD [OF SNode.IH(1) lb(1) _ ne(2,5)]) auto
      also have "\<dots> = (case run_visits before after (visits n l) (cs, x) of None \<Rightarrow> None
         | Some (cs', x') \<Rightarrow> (case sib_root r of
             None \<Rightarrow> cct_walk_loop before after cct (Unwalked a) n (cs'\<lparr> c_previous := f \<rparr>, x')
           | Some d \<Rightarrow> enter cct d n (f(d := Some a)) (cs', x')))"
      proof (cases r)
        case SNil
        then have "c_right cs a = None" using lnot by simp
        moreover have "same_links cs (fst (cs, x))" by (simp add: same_links_def)
        ultimately show ?thesis
          using up [OF lb(1) nb] unfolding SNil sib_root_simps option.case by blast
      next
        case r: (SNode r1 d r2 r3)
        show ?thesis
        proof (cases "run_visits before after (open_visits n l) (cs, x)")
          case None
          then show ?thesis
            unfolding SNode by (simp add: visits_open run_visits_append resume_def del: visits.simps)
        next
          case (Some g2)
          obtain cs2 x2 where g2: "g2 = (cs2, x2)" by (cases g2)
          have l2: "same_links cs cs2" using run_visits_links Some g2 by blast
          have links: "c_left cs2 a = Some b" "c_right cs2 a = Some d" "sib_at cs2 par (Some d) r"
            using l2 lb(2) lnot(2) at by (auto simp: same_links_def a' r sib_at_same_links [OF l2])
          have "(f(b := Some a))(b := None, d := Some a) = f(d := Some a)" using nb(2) by auto
          with walked_to_right [where f = "f(b := Some a)", OF nb(1) _ links ne(6), of n x2] Some
          show ?thesis unfolding SNode
            by (auto simp: visits_open run_visits_append resume_def g2 r simp del: visits.simps
                split: option.splits)
        qed
      qed
      finally show ?thesis using rest a' by simp
    qed
  qed
qed

text \<open>
  The whole loop, started at a node with the children \<open>c\<close>: it makes the call before at the node, all the
  calls of the children, and leaves at the node.
\<close>

lemma walk_loop_all:
  assumes "sib_at cs (Some cct) (c_children cs cct) c" and "distinct (sib_nodes c)" and "cct \<notin> set (sib_nodes c)"
    and "\<And>p. p \<in> set (sib_nodes c) \<Longrightarrow> c_previous cs p = None"
  shows "cct_walk_loop before after cct (Unwalked cct) n (cs, x) =
    map_option (\<lambda>(cs', x'). (n, cs'\<lparr> c_previous := c_previous cs \<rparr>, x'))
      (run_visits before after ((True, cct, n) # visits (Suc n) c) (cs, x))"
proof -
  have "cct_walk_loop before after cct (Unwalked cct) n (cs\<lparr> c_previous := c_previous cs \<rparr>, x) =
    resume cct (Walked cct) n (c_previous cs)
      (run_visits before after ((True, cct, n) # visits (Suc n) c) (cs, x))"
    by (rule unwalked_node [OF enter_sib assms])
  moreover have "cct_walk_loop before after cct (Walked cct) n g = Some (n, g)" for n g
    by (subst cct_walk_loop.simps) simp
  ultimately show ?thesis
    by (simp add: resume_def split_def map_option_case split: option.splits)
qed

end

section \<open>The two traversals\<close>

fun cct_preorder :: "nat \<Rightarrow> sib \<Rightarrow> (ptr \<times> nat) list" where
  "cct_preorder n SNil = []"
| "cct_preorder n (SNode l a c r) = cct_preorder n l @ cct_preorder n r @ (a, n) # cct_preorder (Suc n) c"

fun cct_postorder :: "nat \<Rightarrow> sib \<Rightarrow> (ptr \<times> nat) list" where
  "cct_postorder n SNil = []"
| "cct_postorder n (SNode l a c r) = cct_postorder n l @ cct_postorder n r @ cct_postorder (Suc n) c @ [(a, n)]"

fun run_cct_ops :: "'x cct_op_t \<Rightarrow> (ptr \<times> nat) list \<Rightarrow> 'x walk_state \<Rightarrow> 'x walk_state option" where
  "run_cct_ops op [] g = Some g"
| "run_cct_ops op ((a, n) # vs) g = (case op a n g of None \<Rightarrow> None | Some g \<Rightarrow> run_cct_ops op vs g)"

lemma run_cct_ops_append:
  "run_cct_ops op (vs @ ws) g = (case run_cct_ops op vs g of None \<Rightarrow> None | Some g \<Rightarrow> run_cct_ops op ws g)"
  by (induction op vs g rule: run_cct_ops.induct) (auto split: option.splits)

lemma run_visits_before: "run_visits op no_op (visits n t) g = run_cct_ops op (cct_preorder n t) g"
  by (induction t arbitrary: n g)
    (auto simp: run_visits_append run_cct_ops_append no_op_def split: option.splits)

lemma run_visits_after: "run_visits no_op op (visits n t) g = run_cct_ops op (cct_postorder n t) g"
  by (induction t arbitrary: n g)
    (auto simp: run_visits_append run_cct_ops_append no_op_def split: option.splits)

lemma set_cct_preorder: "fst ` set (cct_preorder n t) = set (sib_nodes t)"
  by (induction t arbitrary: n) (auto simp: image_Un)

lemma set_cct_postorder: "fst ` set (cct_postorder n t) = set (sib_nodes t)"
  by (induction t arbitrary: n) (auto simp: image_Un)

text \<open>A calling context tree: a node and the siblings below it, no \<open>previous\<close> field in use.\<close>

definition cct_at :: "cct_store \<Rightarrow> ptr \<Rightarrow> sib \<Rightarrow> bool" where
  "cct_at cs cct c \<longleftrightarrow> sib_at cs (Some cct) (c_children cs cct) c \<and> distinct (cct # sib_nodes c) \<and>
     (\<forall>p\<in>set (sib_nodes c). c_previous cs p = None)"

definition restore_previous :: "link \<Rightarrow> 'x walk_state \<Rightarrow> 'x walk_state" where
  "restore_previous f g = ((fst g)\<lparr> c_previous := f \<rparr>, snd g)"

context cct_op
begin

lemma walk_node_1st:
  assumes "cct_at cs cct c"
  shows "hpcrun_cct_walk_node_1st_w_level (Some cct) op n (cs, x) =
    map_option (restore_previous (c_previous cs)) (run_cct_ops op ((cct, n) # cct_preorder (Suc n) c) (cs, x))"
proof -
  have w: "cct_walker op no_op" by (intro cct_walker.intro cct_op_axioms no_op.cct_op_axioms)
  show ?thesis
    using assms by (simp add: hpcrun_cct_walk_node_1st_w_level_def cct_at_def
        cct_walker.walk_loop_all [OF w, of cs cct c n x] run_visits_before restore_previous_def [abs_def]
        option.map_comp comp_def split_def split: option.splits)
qed

lemma walk_child_1st:
  assumes "cct_at cs cct c"
  shows "hpcrun_cct_walk_child_1st_w_level (Some cct) op n (cs, x) =
    map_option (restore_previous (c_previous cs)) (run_cct_ops op (cct_postorder (Suc n) c @ [(cct, n)]) (cs, x))"
proof -
  have w: "cct_walker no_op op" by (intro cct_walker.intro cct_op_axioms no_op.cct_op_axioms)
  show ?thesis
    using assms by (simp add: hpcrun_cct_walk_child_1st_w_level_def cct_at_def
        cct_walker.walk_loop_all [OF w, of cs cct c n x] run_visits_after restore_previous_def [abs_def]
        option.map_comp comp_def split_def run_cct_ops_append no_op_def op_previous split: option.splits)
qed

end

section \<open>Properties\<close>

text \<open>An operation that records the calls.\<close>

definition record_op :: "(ptr \<times> nat) list cct_op_t" where
  "record_op a n g = Some (fst g, snd g @ [(a, n)])"

interpretation rec: cct_op record_op
  by unfold_locales (auto simp: record_op_def same_links_def)

lemma run_record: "run_cct_ops record_op vs (cs, ws) = Some (cs, ws @ vs)"
  by (induction vs arbitrary: ws) (auto simp: record_op_def)

lemma length_orders:
  "length (cct_preorder n t) = length (sib_nodes t)" "length (cct_postorder n t) = length (sib_nodes t)"
  by (induction t arbitrary: n) auto

lemma distinct_orders:
  assumes "distinct (sib_nodes t)"
  shows "distinct (map fst (cct_preorder n t))" and "distinct (map fst (cct_postorder n t))"
  using assms set_cct_preorder [of n t] set_cct_postorder [of n t] length_orders
  by (metis card_distinct distinct_card length_map list.set_map)+

text \<open>
  C8. The two traversals of a calling context tree end, leave the store as it was (the \<open>previous\<close> fields
  used as their stack included), and call the operation exactly once at every node: the node-first one at
  the root and then in preorder, the child-first one in postorder and then at the root, each node with
  its depth.
\<close>

theorem cct_walks_complete:
  assumes "cct_at cs cct c"
  shows "hpcrun_cct_walk_node_1st_w_level (Some cct) record_op n (cs, []) =
      Some (cs, (cct, n) # cct_preorder (Suc n) c) \<and>
    hpcrun_cct_walk_child_1st_w_level (Some cct) record_op n (cs, []) =
      Some (cs, cct_postorder (Suc n) c @ [(cct, n)]) \<and>
    distinct (map fst ((cct, n) # cct_preorder (Suc n) c)) \<and>
    distinct (map fst (cct_postorder (Suc n) c @ [(cct, n)])) \<and>
    fst ` set ((cct, n) # cct_preorder (Suc n) c) = set (cct # sib_nodes c) \<and>
    fst ` set (cct_postorder (Suc n) c @ [(cct, n)]) = set (cct # sib_nodes c)"
proof -
  have "distinct (sib_nodes c)" "cct \<notin> set (sib_nodes c)" using assms by (simp_all add: cct_at_def)
  with distinct_orders [of c "Suc n"] set_cct_preorder [of "Suc n" c] set_cct_postorder [of "Suc n" c]
  show ?thesis
    by (auto simp: rec.walk_node_1st [OF assms] rec.walk_child_1st [OF assms] run_record restore_previous_def
        simp del: run_cct_ops.simps)
qed

definition example_cct :: cct_store where
  "example_cct = \<lparr> c_persistent_id = of_nat, c_addr = \<lambda>p. \<lparr> lm_id_of = 1, lm_ip_of = of_nat p \<rparr>,
     c_is_leaf = \<lambda>_. False, c_unwound = \<lambda>_. True, c_display = \<lambda>_. False,
     c_parent = [2 \<mapsto> 1, 3 \<mapsto> 1, 4 \<mapsto> 1, 5 \<mapsto> 3], c_children = [1 \<mapsto> 2, 3 \<mapsto> 5],
     c_left = [2 \<mapsto> 3], c_right = [2 \<mapsto> 4], c_previous = Map.empty \<rparr>"

definition example_sib :: sib where
  "example_sib = SNode (SNode SNil 3 (SNode SNil 5 SNil SNil) SNil) 2 SNil (SNode SNil 4 SNil SNil)"

lemma example_cct_at: "cct_at example_cct 1 example_sib"
  by (simp add: cct_at_def example_cct_def example_sib_def)

theorem cct_walks_complete_witness:
  "hpcrun_cct_walk_node_1st_w_level (Some 1) record_op 0 (example_cct, []) =
     Some (example_cct, [(1, 0), (3, 1), (5, 2), (4, 1), (2, 1)])"
  using cct_walks_complete [OF example_cct_at, of 0] by (simp add: example_sib_def)

end
