(* ===== verification/Stdio.thy ===== *)
theory Stdio
  imports Prelude
begin

text \<open>
  The part of C's stream library that the measurement-file code uses, and the vocabulary in which
  readers and writers of streams are specified.

  A \<open>FILE\<close> has its contents, a position, the end-of-file indicator, a position from which reads
  fail with an I/O error (\<open>fbad\<close>) and a capacity beyond which writes fail (\<open>fcap\<close>), so that every
  failing branch of the callers can be taken. Stream operations take and return the stream.

  A reader of the formats ends with one of the values of the \<open>HPCFMT_\<close> enumeration; \<open>HPCFMT_UB\<close> is
  added for the executions that the C standard leaves undefined (a write beyond an allocated buffer,
  a signed overflow, a use of a pointer that was never set). \<open>ThrowIfError\<close> is the macro
  \<open>HPCFMT_ThrowIfError\<close>, \<open>ignoring\<close> a call whose result is dropped.

  \<open>emits w bs\<close> says that the writer \<open>w\<close> puts exactly the bytes \<open>bs\<close>, \<open>parses r bs y\<close> that the reader
  \<open>r\<close> takes exactly the bytes \<open>bs\<close> and gives \<open>y\<close>, and \<open>strict r bs\<close> that it reports a failure on
  every proper prefix of \<open>bs\<close> that ends the stream. The three are closed under the ways the sources
  compose readers and writers; the collections \<open>emits_intros\<close>, \<open>parses_intros\<close> and \<open>strict_intros\<close>
  hold the rules. The locale \<open>codec\<close> is the contract of a writer and its reader.
\<close>

named_theorems emits_intros \<open>what a writer puts\<close>
named_theorems parses_intros \<open>what a reader takes\<close>
named_theorems strict_intros \<open>that a reader notices a truncated stream\<close>

section \<open>Streams\<close>

record FILE =
  fdata :: "byte list"
  fpos :: nat
  feof :: bool
  fbad :: nat
  fcap :: nat

definition fgetc :: "FILE \<Rightarrow> byte option \<times> FILE" where
  "fgetc fs = (if fbad fs \<le> fpos fs then (None, fs)
     else if fpos fs < length (fdata fs)
       then (Some (fdata fs ! fpos fs), fs\<lparr> fpos := fpos fs + 1 \<rparr>)
     else (None, fs\<lparr> feof := True \<rparr>))"

text \<open>
  Bytes put at the position: over the contents, beyond their end with the gap filled by zeros.
\<close>

definition fput :: "FILE \<Rightarrow> byte list \<Rightarrow> FILE" where
  "fput fs bs = (if bs = [] then fs else
     fs\<lparr> fdata := take (fpos fs) (fdata fs @ replicate (fpos fs - length (fdata fs)) 0) @ bs
                   @ drop (fpos fs + length bs) (fdata fs),
         fpos := fpos fs + length bs \<rparr>)"

definition fputc :: "byte \<Rightarrow> FILE \<Rightarrow> byte option \<times> FILE" where
  "fputc c fs = (if fpos fs < fcap fs then (Some c, fput fs [c]) else (None, fs))"

fun fread :: "nat \<Rightarrow> FILE \<Rightarrow> byte list \<times> FILE" where
  "fread 0 fs = ([], fs)"
| "fread (Suc n) fs = (case fgetc fs of
     (None, fs') \<Rightarrow> ([], fs')
   | (Some c, fs') \<Rightarrow> (case fread n fs' of (cs, fs'') \<Rightarrow> (c # cs, fs'')))"

fun fwrite :: "byte list \<Rightarrow> FILE \<Rightarrow> nat \<times> FILE" where
  "fwrite [] fs = (0, fs)"
| "fwrite (c # cs) fs = (case fputc c fs of
     (None, fs') \<Rightarrow> (0, fs')
   | (Some _, fs') \<Rightarrow> (case fwrite cs fs' of (n, fs'') \<Rightarrow> (Suc n, fs'')))"

text \<open>
  \<open>fseek\<close> takes a signed offset from the start, the position or the end; a negative target fails
  and leaves the position; success clears the end-of-file indicator.
\<close>

datatype whence = SEEK_SET | SEEK_CUR | SEEK_END

definition fseek :: "int \<Rightarrow> whence \<Rightarrow> FILE \<Rightarrow> bool \<times> FILE" where
  "fseek off w fs = (let base = (case w of SEEK_SET \<Rightarrow> 0 | SEEK_CUR \<Rightarrow> int (fpos fs)
                                 | SEEK_END \<Rightarrow> int (length (fdata fs))) in
     if base + off < 0 then (False, fs)
     else (True, fs\<lparr> fpos := nat (base + off), feof := False \<rparr>))"

definition ftell :: "FILE \<Rightarrow> nat" where
  "ftell fs = fpos fs"

section \<open>Results\<close>

datatype 'a hpcfmt = HPCFMT_OK (fmt_val: 'a) | HPCFMT_ERR | HPCFMT_EOF | HPCFMT_UB

type_synonym 'a reader = "FILE \<Rightarrow> 'a hpcfmt \<times> FILE"
type_synonym writer = "FILE \<Rightarrow> unit hpcfmt \<times> FILE"

definition fmt_return :: "'a \<Rightarrow> 'a reader" where
  "fmt_return x fs = (HPCFMT_OK x, fs)"

definition fmt_fail :: "'a reader" where
  "fmt_fail fs = (HPCFMT_ERR, fs)"

definition fmt_undefined :: "'a reader" where
  "fmt_undefined fs = (HPCFMT_UB, fs)"

definition ThrowIfError :: "'a reader \<Rightarrow> ('a \<Rightarrow> 'b reader) \<Rightarrow> 'b reader" where
  "ThrowIfError m k fs = (case m fs of
     (HPCFMT_OK x, fs') \<Rightarrow> k x fs'
   | (HPCFMT_UB, fs') \<Rightarrow> (HPCFMT_UB, fs')
   | (_, fs') \<Rightarrow> (HPCFMT_ERR, fs'))"

text \<open>A call whose failure is returned as it is, so that an end of file stays one.\<close>

definition ReturnIfError :: "'a reader \<Rightarrow> ('a \<Rightarrow> 'b reader) \<Rightarrow> 'b reader" where
  "ReturnIfError m k fs = (case m fs of
     (HPCFMT_OK x, fs') \<Rightarrow> k x fs'
   | (HPCFMT_UB, fs') \<Rightarrow> (HPCFMT_UB, fs')
   | (HPCFMT_EOF, fs') \<Rightarrow> (HPCFMT_EOF, fs')
   | (HPCFMT_ERR, fs') \<Rightarrow> (HPCFMT_ERR, fs'))"

text \<open>
  A call whose result is dropped: the rest sees what the call stored if it succeeded, and nothing
  (an unset variable) otherwise.
\<close>

definition ignoring :: "'a reader \<Rightarrow> ('a option \<Rightarrow> 'b reader) \<Rightarrow> 'b reader" where
  "ignoring m k fs = (case m fs of
     (HPCFMT_OK x, fs') \<Rightarrow> k (Some x) fs'
   | (HPCFMT_UB, fs') \<Rightarrow> (HPCFMT_UB, fs')
   | (_, fs') \<Rightarrow> k None fs')"

section \<open>What is ahead of a stream, and what a stream takes\<close>

definition ahead :: "FILE \<Rightarrow> byte list" where
  "ahead fs = drop (fpos fs) (take (fbad fs) (fdata fs))"

definition fskip :: "FILE \<Rightarrow> nat \<Rightarrow> FILE" where
  "fskip fs n = fs\<lparr> fpos := fpos fs + n \<rparr>"

definition room :: "FILE \<Rightarrow> nat \<Rightarrow> bool" where
  "room fs n \<longleftrightarrow> n = 0 \<or> fpos fs + n \<le> fcap fs"

lemma fskip_0 [simp]: "fskip fs 0 = fs"
  by (simp add: fskip_def)

lemma fskip_fskip [simp]: "fskip (fskip fs a) b = fskip fs (a + b)"
  by (simp add: fskip_def add.assoc)

lemma ahead_fskip [simp]: "ahead (fskip fs n) = drop n (ahead fs)"
  by (simp add: ahead_def fskip_def add.commute)

lemma fgetc_ahead_Cons: "ahead fs = c # cs \<Longrightarrow> fgetc fs = (Some c, fskip fs 1)"
  by (auto simp: ahead_def fgetc_def fskip_def dest!: drop_eq_Cons_nth)

lemma fgetc_ahead_Nil: "ahead fs = [] \<Longrightarrow> fst (fgetc fs) = None \<and> ahead (snd (fgetc fs)) = []"
  by (auto simp: ahead_def fgetc_def)

lemma fgetc_ahead:
  "fgetc fs = (case ahead fs of [] \<Rightarrow> (None, snd (fgetc fs)) | c # cs \<Rightarrow> (Some c, fskip fs 1))"
  by (cases "ahead fs") (auto simp: fgetc_ahead_Cons fgetc_ahead_Nil prod_eq_iff)

lemma fput_Nil [simp]: "fput fs [] = fs"
  by (simp add: fput_def)

lemma fput_fields [simp]:
  "fpos (fput fs bs) = fpos fs + length bs" "feof (fput fs bs) = feof fs"
  "fbad (fput fs bs) = fbad fs" "fcap (fput fs bs) = fcap fs"
  by (simp_all add: fput_def)

lemma fput_fput [simp]: "fput (fput fs a) b = fput fs (a @ b)"
  by (cases fs) (auto simp: fput_def min_def ac_simps)

lemma room_append: "room fs (length a + length b) \<longleftrightarrow> room fs (length a) \<and> room (fput fs a) (length b)"
  by (auto simp: room_def)

lemma take_append_take:
  "k < length (a @ b) \<Longrightarrow> take k (a @ b) = take k a \<and> k < length a \<or>
     take k (a @ b) = a @ take (k - length a) b \<and> k - length a < length b \<and> length a \<le> k"
  by auto

section \<open>What writers put and readers take\<close>

definition emits :: "writer \<Rightarrow> byte list \<Rightarrow> bool" where
  "emits w bs \<longleftrightarrow> (\<forall>fs. room fs (length bs) \<longrightarrow> w fs = (HPCFMT_OK (), fput fs bs))"

definition parses :: "'a reader \<Rightarrow> byte list \<Rightarrow> 'a \<Rightarrow> bool" where
  "parses r bs y \<longleftrightarrow> (\<forall>fs rest. ahead fs = bs @ rest \<longrightarrow> r fs = (HPCFMT_OK y, fskip fs (length bs)))"

definition strict :: "'a reader \<Rightarrow> byte list \<Rightarrow> bool" where
  "strict r bs \<longleftrightarrow> (\<forall>fs k. ahead fs = take k bs \<and> k < length bs \<longrightarrow>
     fst (r fs) = HPCFMT_ERR \<or> fst (r fs) = HPCFMT_EOF)"

lemma emitsD: "emits w bs \<Longrightarrow> room fs (length bs) \<Longrightarrow> w fs = (HPCFMT_OK (), fput fs bs)"
  by (simp add: emits_def)

lemma parsesD: "parses r bs y \<Longrightarrow> ahead fs = bs @ rest \<Longrightarrow> r fs = (HPCFMT_OK y, fskip fs (length bs))"
  by (simp add: parses_def)

lemma strictD:
  "strict r bs \<Longrightarrow> ahead fs = take k bs \<Longrightarrow> k < length bs \<Longrightarrow>
     fst (r fs) = HPCFMT_ERR \<or> fst (r fs) = HPCFMT_EOF"
  unfolding strict_def by blast

lemma emits_return [emits_intros]: "emits (fmt_return ()) []"
  by (simp add: emits_def fmt_return_def)

lemma parses_return [parses_intros]: "parses (fmt_return y) [] y"
  by (simp add: parses_def fmt_return_def)

lemma strict_Nil [strict_intros]: "strict r []"
  by (simp add: strict_def)

lemma emits_throw [emits_intros]:
  assumes "emits m a" and "emits (k ()) b"
  shows "emits (ThrowIfError m k) (a @ b)"
  using assms by (simp add: emits_def ThrowIfError_def room_append)

lemma emits_ignoring:
  assumes "emits m a" and "emits (k (Some ())) b"
  shows "emits (ignoring m k) (a @ b)"
  using assms by (simp add: emits_def ignoring_def room_append)

lemma parses_throw [parses_intros]:
  assumes "parses m a x" and "parses (k x) b y"
  shows "parses (ThrowIfError m k) (a @ b) y"
  using assms by (simp add: parses_def ThrowIfError_def)

lemma parses_ignoring:
  assumes "parses m a x" and "parses (k (Some x)) b y"
  shows "parses (ignoring m k) (a @ b) y"
  using assms by (simp add: parses_def ignoring_def)

lemma strict_throw [strict_intros]:
  assumes "parses m a x" and "strict m a" and "strict (k x) b"
  shows "strict (ThrowIfError m k) (a @ b)"
  unfolding strict_def
proof (intro allI impI)
  fix fs j assume j: "ahead fs = take j (a @ b) \<and> j < length (a @ b)"
  then consider (short) "ahead fs = take j a" "j < length a"
    | (long) "ahead fs = a @ take (j - length a) b" "j - length a < length b"
    using take_append_take [of j a b] by fastforce
  then show "fst (ThrowIfError m k fs) = HPCFMT_ERR \<or> fst (ThrowIfError m k fs) = HPCFMT_EOF"
  proof cases
    case short
    have "fst (m fs) = HPCFMT_ERR \<or> fst (m fs) = HPCFMT_EOF" by (rule strictD [OF assms(2) short])
    then show ?thesis by (cases "m fs") (auto simp: ThrowIfError_def)
  next
    case long
    then have "m fs = (HPCFMT_OK x, fskip fs (length a))" using parsesD [OF assms(1)] by simp
    moreover have "ahead (fskip fs (length a)) = take (j - length a) b" using long by simp
    ultimately show ?thesis using strictD [OF assms(3)] long by (simp add: ThrowIfError_def)
  qed
qed

lemma parses_return_if [parses_intros]:
  assumes "parses m a x" and "parses (k x) b y"
  shows "parses (ReturnIfError m k) (a @ b) y"
  using assms by (simp add: parses_def ReturnIfError_def)

lemma strict_return_if [strict_intros]:
  assumes "parses m a x" and "strict m a" and "strict (k x) b"
  shows "strict (ReturnIfError m k) (a @ b)"
proof -
  have "ThrowIfError m k fs = ReturnIfError m k fs \<or>
      fst (ReturnIfError m k fs) = HPCFMT_EOF" for fs
    by (cases "m fs"; cases "fst (m fs)") (auto simp: ThrowIfError_def ReturnIfError_def)
  with strict_throw [where k = k, OF assms] show ?thesis unfolding strict_def by metis
qed

lemma parses_if [parses_intros]: "c \<Longrightarrow> parses r bs y \<Longrightarrow> parses (if c then r else r') bs y"
  by simp

lemma parses_else: "\<not> c \<Longrightarrow> parses r' bs y \<Longrightarrow> parses (if c then r else r') bs y"
  by simp

lemma strict_else: "\<not> c \<Longrightarrow> strict r' bs \<Longrightarrow> strict (if c then r else r') bs"
  by simp

lemma emits_else: "\<not> c \<Longrightarrow> emits w' bs \<Longrightarrow> emits (if c then w else w') bs"
  by simp

lemma strict_if [strict_intros]: "c \<Longrightarrow> strict r bs \<Longrightarrow> strict (if c then r else r') bs"
  by simp

text \<open>Block transfers whose byte counts the caller inspects.\<close>

lemma fread_ahead: "ahead fs = bs @ rest \<Longrightarrow> fread (length bs) fs = (bs, fskip fs (length bs))"
proof (induction bs arbitrary: fs)
  case (Cons b bs)
  then have "fgetc fs = (Some b, fskip fs 1)" by (simp add: fgetc_ahead_Cons)
  with Cons show ?case by simp
qed simp

lemma fread_short: "length (ahead fs) < n \<Longrightarrow> fst (fread n fs) = ahead fs"
proof (induction n arbitrary: fs)
  case (Suc n)
  show ?case
  proof (cases "ahead fs")
    case Nil
    then show ?thesis using fgetc_ahead_Nil [OF Nil] by (auto split: prod.split)
  next
    case (Cons c cs)
    with Suc.prems Suc.IH [of "fskip fs 1"] show ?thesis
      by (auto simp: fgetc_ahead_Cons split: prod.split)
  qed
qed simp

lemma fwrite_room: "room fs (length bs) \<Longrightarrow> fwrite bs fs = (length bs, fput fs bs)"
proof (induction bs arbitrary: fs)
  case (Cons b bs)
  then have "fputc b fs = (Some b, fput fs [b])" "room (fput fs [b]) (length bs)"
    by (auto simp: room_def fputc_def)
  with Cons.IH show ?case by simp
qed simp

definition fread_n :: "nat \<Rightarrow> byte list reader" where
  "fread_n n fs = (case fread n fs of (bs, fs') \<Rightarrow> (HPCFMT_OK bs, fs'))"

definition fwrite_n :: "byte list \<Rightarrow> nat reader" where
  "fwrite_n bs fs = (case fwrite bs fs of (n, fs') \<Rightarrow> (HPCFMT_OK n, fs'))"

lemma parses_fread_n [parses_intros]: "length bs = n \<Longrightarrow> parses (fread_n n) bs bs"
  by (auto simp: parses_def fread_n_def fread_ahead)

lemma parses_block:
  assumes "length a = n" and "parses (k a) b y"
  shows "parses (ThrowIfError (fread_n n) k) (a @ b) y"
  using assms by (auto simp: parses_def ThrowIfError_def fread_n_def fread_ahead)

text \<open>
  A block read that is followed by a test of the number of bytes, and the tag of a file read this way.
\<close>

lemma strict_fread_n [strict_intros]:
  assumes "\<And>fs cs. length cs < length a \<Longrightarrow>
      fst (k cs fs) = HPCFMT_ERR \<or> fst (k cs fs) = HPCFMT_EOF"
    and "length a = n" and "strict (k a) b"
  shows "strict (ThrowIfError (fread_n n) k) (a @ b)"
  unfolding strict_def
proof (intro allI impI)
  fix fs j assume j: "ahead fs = take j (a @ b) \<and> j < length (a @ b)"
  then consider (short) "length (ahead fs) < length a"
    | (long) "ahead fs = a @ take (j - length a) b" "j - length a < length b"
    using take_append_take [of j a b] by fastforce
  then show "fst (ThrowIfError (fread_n n) k fs) = HPCFMT_ERR \<or>
      fst (ThrowIfError (fread_n n) k fs) = HPCFMT_EOF"
  proof cases
    case short
    then have "fst (fread n fs) = ahead fs" using fread_short assms(2) by blast
    with short assms(1) [of "ahead fs"] show ?thesis
      by (cases "fread n fs") (simp add: ThrowIfError_def fread_n_def)
  next
    case long
    then have "fread n fs = (a, fskip fs n)" using fread_ahead [of fs a] assms(2) by simp
    moreover have "ahead (fskip fs n) = take (j - length a) b" using long assms(2) by simp
    ultimately show ?thesis
      using strictD [OF assms(3)] long by (simp add: ThrowIfError_def fread_n_def)
  qed
qed

lemma emits_block:
  assumes "emits (k (length a)) b"
  shows "emits (ThrowIfError (fwrite_n a) k) (a @ b)"
  using assms by (simp add: emits_def ThrowIfError_def fwrite_n_def fwrite_room room_append)

lemma emits_fwrite_ignored:
  assumes "emits w b"
  shows "emits (ignoring (fwrite_n a) (\<lambda>_. w)) (a @ b)"
  using assms by (simp add: emits_def ignoring_def fwrite_n_def fwrite_room room_append)

text \<open>Composition where the last writer or reader returns directly.\<close>

lemma emits_eq: "emits w bs \<Longrightarrow> bs = cs \<Longrightarrow> emits w cs"
  by simp

lemma parses_eq: "parses r bs y \<Longrightarrow> bs = cs \<Longrightarrow> y = z \<Longrightarrow> parses r cs z"
  by simp

lemma parses_value: "parses r bs y \<Longrightarrow> y = z \<Longrightarrow> parses r bs z"
  by simp

lemma strict_eq: "strict r bs \<Longrightarrow> bs = cs \<Longrightarrow> strict r cs"
  by simp

section \<open>The contract of a writer and its reader\<close>

text \<open>
  What was put at a position is ahead of it once the stream is positioned there again.
\<close>

lemma ahead_fput:
  assumes "fpos fs + length bs \<le> fbad fs"
  shows "\<exists>rest. ahead ((fput fs bs)\<lparr> fpos := fpos fs \<rparr>) = bs @ rest"
proof (cases "bs = []")
  case False
  define pre where "pre = take (fpos fs) (fdata fs @ replicate (fpos fs - length (fdata fs)) 0)"
  define post where "post = drop (fpos fs + length bs) (fdata fs)"
  have "length pre = fpos fs" by (simp add: pre_def)
  moreover have "fdata (fput fs bs) = pre @ bs @ post"
    using False by (simp add: fput_def pre_def post_def)
  ultimately have "ahead ((fput fs bs)\<lparr> fpos := fpos fs \<rparr>) = bs @ take (fbad fs - fpos fs - length bs) post"
    using assms by (simp add: ahead_def)
  then show ?thesis by blast
qed simp

lemma fskip_fput: "fskip ((fput fs bs)\<lparr> fpos := fpos fs \<rparr>) (length bs) = fput fs bs"
  by (cases "bs = []") (simp_all add: fskip_def fput_def)

lemma emits_parses_roundtrip:
  assumes "emits w bs" and "parses r bs y" and "room fs (length bs)" and "fpos fs + length bs \<le> fbad fs"
  shows "\<exists>fs'. w fs = (HPCFMT_OK (), fs') \<and> r (fs'\<lparr> fpos := fpos fs \<rparr>) = (HPCFMT_OK y, fs')"
proof -
  let ?fs = "(fput fs bs)\<lparr> fpos := fpos fs \<rparr>"
  obtain rest where "ahead ?fs = bs @ rest" using ahead_fput [OF assms(4)] by blast
  then have "r ?fs = (HPCFMT_OK y, fskip ?fs (length bs))" using parsesD [OF assms(2)] by blast
  moreover have "fskip ?fs (length bs) = fput fs bs" by (rule fskip_fput)
  ultimately show ?thesis using emitsD [OF assms(1,3)] by simp
qed

locale codec =
  fixes wr :: "'a \<Rightarrow> writer"
    and rd :: "'b reader"
    and enc :: "'a \<Rightarrow> byte list"
    and img :: "'a \<Rightarrow> 'b"
    and valid :: "'a \<Rightarrow> bool"
  assumes wr_emits: "valid x \<Longrightarrow> emits (wr x) (enc x)"
    and rd_parses: "valid x \<Longrightarrow> parses rd (enc x) (img x)"
begin

lemma roundtrip:
  assumes "valid x" and "room fs (length (enc x))" and "fpos fs + length (enc x) \<le> fbad fs"
  shows "\<exists>fs'. wr x fs = (HPCFMT_OK (), fs') \<and>
    rd (fs'\<lparr> fpos := fpos fs \<rparr>) = (HPCFMT_OK (img x), fs')"
  by (rule emits_parses_roundtrip [OF wr_emits rd_parses]) (use assms in simp_all)

end

locale strict_codec = codec +
  assumes rd_strict: "valid x \<Longrightarrow> strict rd (enc x)"
begin

lemma truncated:
  assumes "valid x" and "ahead fs = take k (enc x)" and "k < length (enc x)"
  shows "fst (rd fs) = HPCFMT_ERR \<or> fst (rd fs) = HPCFMT_EOF"
  using strictD [OF rd_strict [OF assms(1)] assms(2,3)] .

end

section \<open>Loops\<close>

text \<open>
  The loops of the sources that write every element of an array, and that read a given number of
  elements, returning at the first failure.
\<close>

fun write_all :: "('a \<Rightarrow> writer) \<Rightarrow> 'a list \<Rightarrow> writer" where
  "write_all w [] = fmt_return ()"
| "write_all w (x # xs) = ThrowIfError (w x) (\<lambda>_. write_all w xs)"

fun read_n :: "nat \<Rightarrow> 'a reader \<Rightarrow> 'a list reader" where
  "read_n 0 r = fmt_return []"
| "read_n (Suc n) r = ThrowIfError r (\<lambda>x. ThrowIfError (read_n n r) (\<lambda>xs. fmt_return (x # xs)))"

context codec
begin

lemma emits_write_all:
  "list_all valid xs \<Longrightarrow> emits (write_all wr xs) (concat (map enc xs))"
  by (induction xs) (auto intro!: emits_intros wr_emits)

lemma parses_read_n:
  "list_all valid xs \<Longrightarrow> parses (read_n (length xs) rd) (concat (map enc xs)) (map img xs)"
proof (induction xs)
  case (Cons x xs)
  have "parses (read_n (length (x # xs)) rd) (enc x @ concat (map enc xs) @ []) (img x # map img xs)"
    unfolding read_n.simps list.size add_Suc_right add_0_right
    by (rule parses_throw [OF rd_parses parses_throw [OF Cons.IH parses_return]])
      (use Cons.prems in simp_all)
  then show ?case by simp
qed (auto intro: parses_intros)

end

context strict_codec
begin

lemma strict_read_n:
  "list_all valid xs \<Longrightarrow> strict (read_n (length xs) rd) (concat (map enc xs))"
proof (induction xs)
  case (Cons x xs)
  have "strict (read_n (length (x # xs)) rd) (enc x @ concat (map enc xs) @ [])"
    unfolding read_n.simps list.size add_Suc_right add_0_right
    by (rule strict_throw [OF rd_parses rd_strict strict_throw [OF parses_read_n Cons.IH strict_Nil]])
      (use Cons.prems in simp_all)
  then show ?case by simp
qed (auto intro: strict_intros)

end

end
