(* ===== verification/Hpcio.thy ===== *)
theory Hpcio
  imports Stdio
begin

text \<open>
  Endian-aware transfer of integers (\<open>src/common/lean/hpcio.c\<close>). Each routine is a loop over the
  shifts of the bytes of its value, one stream call per byte, that stops at the first failure and
  returns how many bytes it moved; a reader stores what it has accumulated even then. The loops are
  \<open>fread_shifts\<close> and \<open>fwrite_shifts\<close>, over the shifts in the order the \<open>for\<close> statement of the
  routine takes them. The buffer writers (\<open>_swrite\<close>) return the bytes they store, in order.
\<close>

section \<open>The loops\<close>

fun fread_shifts :: "nat list \<Rightarrow> 'a::len word \<Rightarrow> nat \<Rightarrow> FILE \<Rightarrow> ('a word \<times> nat) \<times> FILE" where
  "fread_shifts [] v num_read fs = ((v, num_read), fs)"
| "fread_shifts (shift # shifts) v num_read fs = (case fgetc fs of
     (None, fs') \<Rightarrow> ((v, num_read), fs')
   | (Some c, fs') \<Rightarrow> fread_shifts shifts (v OR push_bit shift (ucast c)) (num_read + 1) fs')"

fun fwrite_shifts :: "nat list \<Rightarrow> 'a::len word \<Rightarrow> nat \<Rightarrow> FILE \<Rightarrow> nat \<times> FILE" where
  "fwrite_shifts [] v num_write fs = (num_write, fs)"
| "fwrite_shifts (shift # shifts) v num_write fs = (case fputc (ucast (drop_bit shift v)) fs of
     (None, fs') \<Rightarrow> (num_write, fs')
   | (Some _, fs') \<Rightarrow> fwrite_shifts shifts v (num_write + 1) fs')"

section \<open>Little endian\<close>

definition hpcio_le2_fread :: "FILE \<Rightarrow> (u16 \<times> nat) \<times> FILE" where
  "hpcio_le2_fread fs = fread_shifts [0, 8] 0 0 fs"

definition hpcio_le4_fread :: "FILE \<Rightarrow> (u32 \<times> nat) \<times> FILE" where
  "hpcio_le4_fread fs = fread_shifts [0, 8, 16, 24] 0 0 fs"

definition hpcio_le8_fread :: "FILE \<Rightarrow> (u64 \<times> nat) \<times> FILE" where
  "hpcio_le8_fread fs = fread_shifts [0, 8, 16, 24, 32, 40, 48, 56] 0 0 fs"

definition hpcio_le2_fwrite :: "u16 \<Rightarrow> FILE \<Rightarrow> nat \<times> FILE" where
  "hpcio_le2_fwrite v fs = fwrite_shifts [0, 8] v 0 fs"

definition hpcio_le4_fwrite :: "u32 \<Rightarrow> FILE \<Rightarrow> nat \<times> FILE" where
  "hpcio_le4_fwrite v fs = fwrite_shifts [0, 8, 16, 24] v 0 fs"

definition hpcio_le8_fwrite :: "u64 \<Rightarrow> FILE \<Rightarrow> nat \<times> FILE" where
  "hpcio_le8_fwrite v fs = fwrite_shifts [0, 8, 16, 24, 32, 40, 48, 56] v 0 fs"

section \<open>Big endian\<close>

definition hpcio_be2_fread :: "FILE \<Rightarrow> (u16 \<times> nat) \<times> FILE" where
  "hpcio_be2_fread fs = fread_shifts [8, 0] 0 0 fs"

definition hpcio_be4_fread :: "FILE \<Rightarrow> (u32 \<times> nat) \<times> FILE" where
  "hpcio_be4_fread fs = fread_shifts [24, 16, 8, 0] 0 0 fs"

definition hpcio_be8_fread :: "FILE \<Rightarrow> (u64 \<times> nat) \<times> FILE" where
  "hpcio_be8_fread fs = fread_shifts [56, 48, 40, 32, 24, 16, 8, 0] 0 0 fs"

definition hpcio_be2_fwrite :: "u16 \<Rightarrow> FILE \<Rightarrow> nat \<times> FILE" where
  "hpcio_be2_fwrite v fs = fwrite_shifts [8, 0] v 0 fs"

definition hpcio_be4_fwrite :: "u32 \<Rightarrow> FILE \<Rightarrow> nat \<times> FILE" where
  "hpcio_be4_fwrite v fs = fwrite_shifts [24, 16, 8, 0] v 0 fs"

definition hpcio_be8_fwrite :: "u64 \<Rightarrow> FILE \<Rightarrow> nat \<times> FILE" where
  "hpcio_be8_fwrite v fs = fwrite_shifts [56, 48, 40, 32, 24, 16, 8, 0] v 0 fs"

definition hpcio_be2_swrite :: "u16 \<Rightarrow> byte list" where
  "hpcio_be2_swrite v = map (\<lambda>shift. ucast (drop_bit shift v)) [8, 0]"

definition hpcio_be4_swrite :: "u32 \<Rightarrow> byte list" where
  "hpcio_be4_swrite v = map (\<lambda>shift. ucast (drop_bit shift v)) [24, 16, 8, 0]"

definition hpcio_be8_swrite :: "u64 \<Rightarrow> byte list" where
  "hpcio_be8_swrite v = map (\<lambda>shift. ucast (drop_bit shift v)) [56, 48, 40, 32, 24, 16, 8, 0]"

section \<open>Byte arrays\<close>

text \<open>
  The index of these loops is a 32-bit \<open>unsigned int\<close>, compared with a \<open>size_t\<close>: for an array of
  \<open>2 ^ 32\<close> bytes or more it wraps around, and the loop ends only with the stream. The array is a
  list of the \<open>size\<close> bytes.
\<close>

lemma fgetc_Some: "fgetc fs = (Some c, fs') \<Longrightarrow>
    fpos fs < length (fdata fs) \<and> fs' = fs\<lparr> fpos := fpos fs + 1 \<rparr>"
  by (auto simp: fgetc_def split: if_splits)

function hpcio_beX_fread_loop ::
  "u32 \<Rightarrow> nat \<Rightarrow> byte list \<Rightarrow> FILE \<Rightarrow> (byte list \<times> nat) \<times> FILE" where
  "hpcio_beX_fread_loop i num_read val fs =
    (if unat i < length val then
       (case fgetc fs of
          (None, fs') \<Rightarrow> ((val, num_read), fs')
        | (Some c, fs') \<Rightarrow> hpcio_beX_fread_loop (i + 1) (num_read + 1) (val[unat i := c]) fs')
     else ((val, num_read), fs))"
  by auto
termination
  by (relation "measure (\<lambda>(i, n, val, fs). length (fdata fs) - fpos fs)")
    (auto dest!: sym [of _ "fgetc _"] fgetc_Some)

definition hpcio_beX_fread :: "byte list \<Rightarrow> FILE \<Rightarrow> (byte list \<times> nat) \<times> FILE" where
  "hpcio_beX_fread val fs = hpcio_beX_fread_loop 0 0 val fs"

lemma fputc_Some: "fputc c fs = (Some b, fs') \<Longrightarrow> fpos fs < fcap fs \<and> fs' = fput fs [c]"
  by (auto simp: fputc_def split: if_splits)

function hpcio_beX_fwrite_loop :: "u32 \<Rightarrow> nat \<Rightarrow> byte list \<Rightarrow> FILE \<Rightarrow> nat \<times> FILE" where
  "hpcio_beX_fwrite_loop i num_write val fs =
    (if unat i < length val then
       (case fputc (val ! unat i) fs of
          (None, fs') \<Rightarrow> (num_write, fs')
        | (Some _, fs') \<Rightarrow> hpcio_beX_fwrite_loop (i + 1) (num_write + 1) val fs')
     else (num_write, fs))"
  by auto
termination
  by (relation "measure (\<lambda>(i, n, val, fs). fcap fs - fpos fs)")
    (auto dest!: sym [of _ "fputc _ _"] fputc_Some)

definition hpcio_beX_fwrite :: "byte list \<Rightarrow> FILE \<Rightarrow> nat \<times> FILE" where
  "hpcio_beX_fwrite val fs = hpcio_beX_fwrite_loop 0 0 val fs"

declare hpcio_beX_fread_loop.simps [simp del] hpcio_beX_fwrite_loop.simps [simp del]

section \<open>What the loops read and write\<close>

lemma fread_shifts_ahead:
  "ahead fs = bs @ rest \<Longrightarrow> length bs = length ss \<Longrightarrow>
   fread_shifts ss v n fs = ((or_bytes ss bs v, n + length ss), fskip fs (length ss))"
proof (induction ss arbitrary: v n fs bs)
  case (Cons s ss)
  then obtain b bs' where bs: "bs = b # bs'" "length bs' = length ss" by (cases bs) auto
  with Cons.prems have "fgetc fs = (Some b, fskip fs 1)" "ahead (fskip fs 1) = bs' @ rest"
    by (simp_all add: fgetc_ahead_Cons)
  with bs Cons.IH [of "fskip fs 1" bs'] show ?case by simp
qed simp

text \<open>On a stream with too few bytes, the count is the number of bytes there were.\<close>

lemma fread_shifts_short:
  "length (ahead fs) < length ss \<Longrightarrow> snd (fst (fread_shifts ss v n fs)) = n + length (ahead fs)"
proof (induction ss arbitrary: v n fs)
  case (Cons s ss)
  show ?case
  proof (cases "ahead fs")
    case Nil
    then show ?thesis using fgetc_ahead_Nil [OF Nil] by (cases "fgetc fs") auto
  next
    case (Cons c cs)
    with Cons.prems Cons.IH [of "fskip fs 1"] show ?thesis by (simp add: fgetc_ahead_Cons)
  qed
qed simp

lemma fwrite_shifts_room:
  "room fs (length ss) \<Longrightarrow>
   fwrite_shifts ss v n fs = (n + length ss, fput fs (bytes_at ss v))"
proof (induction ss arbitrary: n fs)
  case (Cons s ss)
  then have "fputc (ucast (drop_bit s v)) fs
      = (Some (ucast (drop_bit s v)), fput fs [ucast (drop_bit s v)])"
    "room (fput fs [ucast (drop_bit s v)]) (length ss)"
    by (auto simp: room_def fputc_def)
  with Cons.IH show ?case by simp
qed (simp add: bytes_at_def)

lemma beX_fread_ahead:
  "unat i + length bs = length val \<Longrightarrow> length val < 2 ^ 32 \<Longrightarrow> ahead fs = bs @ rest \<Longrightarrow>
   hpcio_beX_fread_loop i n val fs = ((take (unat i) val @ bs, n + length bs), fskip fs (length bs))"
proof (induction bs arbitrary: i n val fs)
  case Nil
  then show ?case by (subst hpcio_beX_fread_loop.simps) simp
next
  case (Cons b bs)
  then have b: "fgetc fs = (Some b, fskip fs 1)" by (simp add: fgetc_ahead_Cons)
  have i: "unat (i + 1) = unat i + 1"
    using Cons.prems by (subst unat_word_ariths) (simp add: unat_of_nat)
  have "hpcio_beX_fread_loop (i + 1) (n + 1) (val[unat i := b]) (fskip fs 1) =
    ((take (unat (i + 1)) (val[unat i := b]) @ bs, n + 1 + length bs), fskip (fskip fs 1) (length bs))"
    using Cons.prems i by (intro Cons.IH) auto
  then show ?case
    using Cons.prems b i
    by (subst hpcio_beX_fread_loop.simps) (simp add: take_Suc_conv_app_nth)
qed

lemma beX_fread_short:
  "unat i + length (ahead fs) < length val \<Longrightarrow> length val < 2 ^ 32 \<Longrightarrow>
   snd (fst (hpcio_beX_fread_loop i n val fs)) = n + length (ahead fs)"
proof (induction "ahead fs" arbitrary: i n val fs)
  case Nil
  then show ?case using fgetc_ahead_Nil [of fs]
    by (subst hpcio_beX_fread_loop.simps) (auto split: prod.split)
next
  case (Cons b bs)
  then have b: "fgetc fs = (Some b, fskip fs 1)" by (metis fgetc_ahead_Cons)
  have len: "length (ahead fs) = Suc (length bs)" by (simp add: Cons.hyps(2) [symmetric])
  have i: "unat (i + 1) = unat i + 1"
    using Cons.prems len by (subst unat_word_ariths) (simp add: unat_of_nat)
  have bs: "bs = ahead (fskip fs 1)" by (simp add: Cons.hyps(2) [symmetric])
  have "snd (fst (hpcio_beX_fread_loop (i + 1) (n + 1) (val[unat i := b]) (fskip fs 1)))
      = n + 1 + length (ahead (fskip fs 1))"
    by (rule Cons.hyps(1) [OF bs]) (use Cons.prems len i in \<open>simp_all flip: bs\<close>)
  then show ?case
    using Cons.prems len b by (subst hpcio_beX_fread_loop.simps) (simp flip: bs)
qed

lemma beX_fwrite_room:
  "unat i + k = length val \<Longrightarrow> length val < 2 ^ 32 \<Longrightarrow> room fs k \<Longrightarrow>
   hpcio_beX_fwrite_loop i n val fs = (n + k, fput fs (drop (unat i) val))"
proof (induction k arbitrary: i n fs)
  case 0
  then show ?case by (subst hpcio_beX_fwrite_loop.simps) simp
next
  case (Suc k)
  have i: "unat (i + 1) = unat i + 1"
    using Suc.prems by (subst unat_word_ariths) (simp add: unat_of_nat)
  have "fputc (val ! unat i) fs = (Some (val ! unat i), fput fs [val ! unat i])"
    "room (fput fs [val ! unat i]) k"
    using Suc.prems by (auto simp: room_def fputc_def)
  moreover have "drop (unat i) val = val ! unat i # drop (unat i + 1) val"
    using Suc.prems by (simp add: Cons_nth_drop_Suc)
  ultimately show ?case
    using Suc.IH [of "i + 1" "fput fs [val ! unat i]" "n + 1"] Suc.prems i
    by (subst hpcio_beX_fwrite_loop.simps) simp
qed

section \<open>Shifts that cover a word\<close>

lemma cover16: "k < 16 \<Longrightarrow> \<exists>s \<in> {8, 0}. s \<le> k \<and> k < s + (8 :: nat)"
  by auto

lemma cover32: "k < 32 \<Longrightarrow> \<exists>s \<in> {24, 16, 8, 0}. s \<le> k \<and> k < s + (8 :: nat)"
  by auto

lemma cover64: "k < 64 \<Longrightarrow> \<exists>s \<in> {56, 48, 40, 32, 24, 16, 8, 0}. s \<le> k \<and> k < s + (8 :: nat)"
  by auto

lemma or_bytes_at_be:
  "or_bytes [8, 0] (bytes_at [8, 0] v) 0 = (v :: u16)"
  "or_bytes [24, 16, 8, 0] (bytes_at [24, 16, 8, 0] w) 0 = (w :: u32)"
  "or_bytes [56, 48, 40, 32, 24, 16, 8, 0] (bytes_at [56, 48, 40, 32, 24, 16, 8, 0] x) 0 = (x :: u64)"
  by (rule or_bytes_at_cover, use cover16 cover32 cover64 in simp)+

lemma or_bytes_at_le:
  "or_bytes [0, 8] (bytes_at [0, 8] v) 0 = (v :: u16)"
  "or_bytes [0, 8, 16, 24] (bytes_at [0, 8, 16, 24] w) 0 = (w :: u32)"
  "or_bytes [0, 8, 16, 24, 32, 40, 48, 56] (bytes_at [0, 8, 16, 24, 32, 40, 48, 56] x) 0 = (x :: u64)"
  by (rule or_bytes_at_cover, force)+

end
