(* ===== verification/Hpcfmt.thy ===== *)
theory Hpcfmt
  imports Hpcio
begin

text \<open>
  Readers and writers of the generic pieces of a measurement file: integers, byte arrays, strings
  and lists of name-value pairs (\<open>src/common/lean/hpcfmt.h\<close> and \<open>hpcfmt.c\<close>).

  A \<open>char*\<close> to a string is the list of the bytes in front of the terminator the owner put there,
  \<open>None\<close> being the null pointer; such a list may still hold a zero byte, where C's string functions
  stop (\<open>c_str\<close>). An allocator is \<open>None\<close> (a null function pointer) or tells for every size whether
  the allocation succeeds. A field that a failed call leaves unset is \<open>None\<close>.
\<close>

type_synonym c_string = "byte list"
type_synonym alloc_fn = "(nat \<Rightarrow> bool) option"

definition c_str :: "c_string \<Rightarrow> c_string" where
  "c_str s = takeWhile (\<lambda>c. c \<noteq> 0) s"

definition alloc_ok :: "alloc_fn \<Rightarrow> nat \<Rightarrow> bool" where
  "alloc_ok alloc n = (case alloc of None \<Rightarrow> False | Some a \<Rightarrow> a n)"

abbreviation malloc :: alloc_fn where
  "malloc \<equiv> Some (\<lambda>_. True)"

section \<open>Integers\<close>

definition fmt_sized :: "nat \<Rightarrow> (FILE \<Rightarrow> ('a \<times> nat) \<times> FILE) \<Rightarrow> 'a reader" where
  "fmt_sized n rd fs = (case rd fs of ((val, sz), fs') \<Rightarrow>
     if sz \<noteq> n then (if sz = 0 \<and> feof fs' then HPCFMT_EOF else HPCFMT_ERR, fs')
     else (HPCFMT_OK val, fs'))"

definition hpcfmt_int2_fread :: "u16 reader" where
  "hpcfmt_int2_fread infs = fmt_sized 2 hpcio_be2_fread infs"

definition hpcfmt_int4_fread :: "u32 reader" where
  "hpcfmt_int4_fread infs = fmt_sized 4 hpcio_be4_fread infs"

definition hpcfmt_int8_fread :: "u64 reader" where
  "hpcfmt_int8_fread infs = fmt_sized 8 hpcio_be8_fread infs"

definition hpcfmt_intX_fread :: "byte list \<Rightarrow> byte list reader" where
  "hpcfmt_intX_fread val infs = fmt_sized (length val) (hpcio_beX_fread val) infs"

definition hpcfmt_real8_fread :: "u64 reader" where
  "hpcfmt_real8_fread infs = fmt_sized 8 hpcio_be8_fread infs"

definition fmt_wrote :: "nat \<Rightarrow> (FILE \<Rightarrow> nat \<times> FILE) \<Rightarrow> writer" where
  "fmt_wrote n w fs = (case w fs of (sz, fs') \<Rightarrow>
     (if n \<noteq> sz then HPCFMT_ERR else HPCFMT_OK (), fs'))"

definition hpcfmt_int2_fwrite :: "u16 \<Rightarrow> writer" where
  "hpcfmt_int2_fwrite val outfs = fmt_wrote 2 (hpcio_be2_fwrite val) outfs"

definition hpcfmt_int4_fwrite :: "u32 \<Rightarrow> writer" where
  "hpcfmt_int4_fwrite val outfs = fmt_wrote 4 (hpcio_be4_fwrite val) outfs"

definition hpcfmt_int8_fwrite :: "u64 \<Rightarrow> writer" where
  "hpcfmt_int8_fwrite val outfs = fmt_wrote 8 (hpcio_be8_fwrite val) outfs"

definition hpcfmt_intX_fwrite :: "byte list \<Rightarrow> writer" where
  "hpcfmt_intX_fwrite val outfs = fmt_wrote (length val) (hpcio_beX_fwrite val) outfs"

definition hpcfmt_real8_fwrite :: "u64 \<Rightarrow> writer" where
  "hpcfmt_real8_fwrite val outfs = fmt_wrote 8 (hpcio_be8_fwrite val) outfs"

definition hpcfmt_int2_swrite :: "u16 \<Rightarrow> byte list" where
  "hpcfmt_int2_swrite val = hpcio_be2_swrite val"

definition hpcfmt_int4_swrite :: "u32 \<Rightarrow> byte list" where
  "hpcfmt_int4_swrite val = hpcio_be4_swrite val"

definition hpcfmt_int8_swrite :: "u64 \<Rightarrow> byte list" where
  "hpcfmt_int8_swrite val = hpcio_be8_swrite val"

section \<open>Generic read and write\<close>

definition hpcfmt_fread :: "nat \<Rightarrow> byte list reader" where
  "hpcfmt_fread n infs = (case fread n infs of (data, fs') \<Rightarrow>
     if length data = n then (HPCFMT_OK data, fs') else (HPCFMT_ERR, fs'))"

definition hpcfmt_fwrite :: "byte list \<Rightarrow> writer" where
  "hpcfmt_fwrite data outfs = (case fwrite data outfs of (bytes, fs') \<Rightarrow>
     if bytes = length data then (HPCFMT_OK (), fs') else (HPCFMT_ERR, fs'))"

section \<open>Strings\<close>

text \<open>
  The loop indices are \<open>int\<close>s that the code compares with a 32-bit unsigned length, so a string of
  \<open>2 ^ 31\<close> bytes overflows the index. The reader allocates \<open>len + 1\<close> bytes in 32-bit arithmetic:
  the largest length gives an empty buffer.
\<close>

fun str_fread_loop :: "nat \<Rightarrow> nat \<Rightarrow> c_string \<Rightarrow> c_string reader" where
  "str_fread_loop bufsz 0 buf fs =
    (if length buf < bufsz then (HPCFMT_OK (rev buf), fs) else (HPCFMT_UB, fs))"
| "str_fread_loop bufsz (Suc n) buf fs = (case fgetc fs of
     (None, fs') \<Rightarrow> (HPCFMT_ERR, fs')
   | (Some c, fs') \<Rightarrow>
       if length buf \<ge> bufsz \<or> length buf + 1 = 2 ^ 31 then (HPCFMT_UB, fs')
       else str_fread_loop bufsz n (c # buf) fs')"

definition hpcfmt_str_fread :: "alloc_fn \<Rightarrow> c_string reader" where
  "hpcfmt_str_fread alloc =
    ThrowIfError hpcfmt_int4_fread (\<lambda>len.
      if alloc_ok alloc (unat (len + 1))
      then str_fread_loop (unat (len + 1)) (unat len) []
      else fmt_fail)"

fun str_fwrite_loop :: "nat \<Rightarrow> c_string \<Rightarrow> writer" where
  "str_fwrite_loop i [] fs = (HPCFMT_OK (), fs)"
| "str_fwrite_loop i (c # cs) fs = (case fputc c fs of
     (None, fs') \<Rightarrow> (HPCFMT_ERR, fs')
   | (Some _, fs') \<Rightarrow>
       if i + 1 = 2 ^ 31 then (HPCFMT_UB, fs') else str_fwrite_loop (i + 1) cs fs')"

definition hpcfmt_str_fwrite :: "c_string option \<Rightarrow> writer" where
  "hpcfmt_str_fwrite str =
    (let chars = (case str of Some s \<Rightarrow> c_str s | None \<Rightarrow> []);
         len = (of_nat (length chars) :: u32)
     in ignoring (hpcfmt_int4_fwrite len) (\<lambda>_. str_fwrite_loop 0 (take (unat len) chars)))"

definition hpcfmt_str_ensure :: "c_string option \<Rightarrow> c_string" where
  "hpcfmt_str_ensure x = (case x of Some s \<Rightarrow> s | None \<Rightarrow> [])"

section \<open>Name-value pairs\<close>

record hpcfmt_nvpair_t =
  nv_name :: "c_string option"
  nv_val :: "c_string option"

definition hpcfmt_nvpair_fwrite :: "hpcfmt_nvpair_t \<Rightarrow> writer" where
  "hpcfmt_nvpair_fwrite nvp =
    ThrowIfError (hpcfmt_str_fwrite (nv_name nvp)) (\<lambda>_.
    ThrowIfError (hpcfmt_str_fwrite (nv_val nvp)) (\<lambda>_.
    fmt_return ()))"

text \<open>
  The variable arguments are a list of pointers in which a null name ends the pairs. Running past
  the end of the arguments is undefined (\<open>None\<close>).
\<close>

fun nvpairs_count :: "c_string option list \<Rightarrow> u32 option" where
  "nvpairs_count [] = None"
| "nvpairs_count (None # args) = Some 0"
| "nvpairs_count [Some n] = None"
| "nvpairs_count (Some n # v # args) = map_option (\<lambda>len. len + 1) (nvpairs_count args)"

fun nvpairs_write :: "c_string option list \<Rightarrow> writer" where
  "nvpairs_write [] = fmt_undefined"
| "nvpairs_write (None # args) = fmt_return ()"
| "nvpairs_write [Some n] = fmt_undefined"
| "nvpairs_write (Some n # v # args) =
    ignoring (hpcfmt_str_fwrite (Some n)) (\<lambda>_.
    ignoring (hpcfmt_str_fwrite v) (\<lambda>_. nvpairs_write args))"

definition hpcfmt_nvpairs_vfwrite :: "c_string option list \<Rightarrow> writer" where
  "hpcfmt_nvpairs_vfwrite args = (case nvpairs_count args of
     None \<Rightarrow> fmt_undefined
   | Some len \<Rightarrow> ignoring (hpcfmt_int4_fwrite len) (\<lambda>_. nvpairs_write args))"

definition hpcfmt_nvpair_fread :: "alloc_fn \<Rightarrow> hpcfmt_nvpair_t reader" where
  "hpcfmt_nvpair_fread alloc =
    ignoring (hpcfmt_str_fread alloc) (\<lambda>name.
    ignoring (hpcfmt_str_fread alloc) (\<lambda>val.
    fmt_return \<lparr> nv_name = name, nv_val = val \<rparr>))"

text \<open>
  The list reader drops the result of every pair. Its array has 16 bytes per pair; where the
  allocation gave nothing, the first pair is stored through an unset pointer.
\<close>

fun nvpairs_read :: "alloc_fn \<Rightarrow> nat \<Rightarrow> hpcfmt_nvpair_t list reader" where
  "nvpairs_read alloc 0 = fmt_return []"
| "nvpairs_read alloc (Suc n) =
    ignoring (hpcfmt_nvpair_fread alloc) (\<lambda>nvp.
    ThrowIfError (nvpairs_read alloc n) (\<lambda>nvps.
    fmt_return ((case nvp of Some p \<Rightarrow> p | None \<Rightarrow> \<lparr> nv_name = None, nv_val = None \<rparr>) # nvps)))"

definition hpcfmt_nvpairList_fread :: "alloc_fn \<Rightarrow> hpcfmt_nvpair_t list reader" where
  "hpcfmt_nvpairList_fread alloc =
    ThrowIfError hpcfmt_int4_fread (\<lambda>len.
      if len = 0 \<or> alloc_ok alloc (unat len * 16) then nvpairs_read alloc (unat len)
      else fmt_undefined)"

text \<open>
  The search compares with \<open>strcmp\<close>; the outer \<open>None\<close> is the use of a pointer that was never set.
\<close>

fun hpcfmt_nvpairList_search :: "hpcfmt_nvpair_t list \<Rightarrow> c_string \<Rightarrow> c_string option option" where
  "hpcfmt_nvpairList_search [] name = Some None"
| "hpcfmt_nvpairList_search (nvp # nvps) name = (case nv_name nvp of
     None \<Rightarrow> None
   | Some s \<Rightarrow>
       if c_str s = c_str name
       then (case nv_val nvp of None \<Rightarrow> None | Some v \<Rightarrow> Some (Some v))
       else hpcfmt_nvpairList_search nvps name)"

section \<open>Bytes of the encodings\<close>

definition enc_int2 :: "u16 \<Rightarrow> byte list" where
  "enc_int2 v = bytes_at [8, 0] v"

definition enc_int4 :: "u32 \<Rightarrow> byte list" where
  "enc_int4 v = bytes_at [24, 16, 8, 0] v"

definition enc_int8 :: "u64 \<Rightarrow> byte list" where
  "enc_int8 v = bytes_at [56, 48, 40, 32, 24, 16, 8, 0] v"

definition enc_str :: "c_string option \<Rightarrow> byte list" where
  "enc_str s = enc_int4 (of_nat (length (hpcfmt_str_ensure s))) @ hpcfmt_str_ensure s"

text \<open>A string that C can hold and the length field can count.\<close>

definition valid_str :: "c_string option \<Rightarrow> bool" where
  "valid_str s \<longleftrightarrow> 0 \<notin> set (hpcfmt_str_ensure s) \<and> length (hpcfmt_str_ensure s) < 2 ^ 31"

lemma length_enc_int [simp]:
  "length (enc_int2 v) = 2" "length (enc_int4 w) = 4" "length (enc_int8 x) = 8"
  by (simp_all add: enc_int2_def enc_int4_def enc_int8_def)

lemma c_str_ensure: "valid_str s \<Longrightarrow> (case s of Some s \<Rightarrow> c_str s | None \<Rightarrow> []) = hpcfmt_str_ensure s"
  by (cases s) (auto simp: valid_str_def hpcfmt_str_ensure_def c_str_def takeWhile_eq_all_conv)

section \<open>Integers keep the contract\<close>

lemma fmt_sized_short:
  "snd (fst (rd fs)) \<noteq> n \<Longrightarrow>
    fst (fmt_sized n rd fs) = HPCFMT_ERR \<or> fst (fmt_sized n rd fs) = HPCFMT_EOF"
  by (cases "rd fs"; cases "fst (rd fs)") (auto simp: fmt_sized_def)

lemma fmt_sized_parses:
  assumes "length bs = length ss" and "n = length ss" and "or_bytes ss bs 0 = v"
  shows "parses (fmt_sized n (fread_shifts ss 0 0)) bs v"
  using assms by (auto simp: parses_def fmt_sized_def fread_shifts_ahead)

lemma fmt_sized_strict:
  assumes "length bs = length ss" and "n = length ss"
  shows "strict (fmt_sized n (fread_shifts ss (0 :: 'a::len word) 0)) bs"
  unfolding strict_def
proof (intro allI impI)
  fix fs k assume k: "ahead fs = take k bs \<and> k < length bs"
  then have "snd (fst (fread_shifts ss (0 :: 'a::len word) 0 fs)) = k"
    using fread_shifts_short [of fs ss _ 0] assms by simp
  with k assms show "fst (fmt_sized n (fread_shifts ss (0 :: 'a::len word) 0) fs) = HPCFMT_ERR \<or>
      fst (fmt_sized n (fread_shifts ss (0 :: 'a::len word) 0) fs) = HPCFMT_EOF"
    by (intro fmt_sized_short) simp
qed

lemma fmt_wrote_emits:
  assumes "n = length ss"
  shows "emits (fmt_wrote n (fwrite_shifts ss v 0)) (bytes_at ss v)"
  using assms by (simp add: emits_def fmt_wrote_def fwrite_shifts_room)

lemmas int_fread_defs =
  hpcfmt_int2_fread_def hpcfmt_int4_fread_def hpcfmt_int8_fread_def hpcfmt_real8_fread_def
  hpcio_be2_fread_def hpcio_be4_fread_def hpcio_be8_fread_def

lemmas int_fwrite_defs =
  hpcfmt_int2_fwrite_def hpcfmt_int4_fwrite_def hpcfmt_int8_fwrite_def hpcfmt_real8_fwrite_def
  hpcio_be2_fwrite_def hpcio_be4_fwrite_def hpcio_be8_fwrite_def

lemma int_freads:
  "hpcfmt_int2_fread = fmt_sized 2 (fread_shifts [8, 0] 0 0)"
  "hpcfmt_int4_fread = fmt_sized 4 (fread_shifts [24, 16, 8, 0] 0 0)"
  "hpcfmt_int8_fread = fmt_sized 8 (fread_shifts [56, 48, 40, 32, 24, 16, 8, 0] 0 0)"
  "hpcfmt_real8_fread = fmt_sized 8 (fread_shifts [56, 48, 40, 32, 24, 16, 8, 0] 0 0)"
  by (simp_all add: fun_eq_iff int_fread_defs fmt_sized_def)

lemma int_fwrites:
  "hpcfmt_int2_fwrite v = fmt_wrote 2 (fwrite_shifts [8, 0] v 0)"
  "hpcfmt_int4_fwrite w = fmt_wrote 4 (fwrite_shifts [24, 16, 8, 0] w 0)"
  "hpcfmt_int8_fwrite x = fmt_wrote 8 (fwrite_shifts [56, 48, 40, 32, 24, 16, 8, 0] x 0)"
  "hpcfmt_real8_fwrite x = fmt_wrote 8 (fwrite_shifts [56, 48, 40, 32, 24, 16, 8, 0] x 0)"
  by (simp_all add: fun_eq_iff int_fwrite_defs fmt_wrote_def)

lemma fmt_sized_be:
  "n = length ss \<Longrightarrow> or_bytes ss (bytes_at ss v) 0 = v \<Longrightarrow>
    parses (fmt_sized n (fread_shifts ss 0 0)) (bytes_at ss v) v"
  "n = length ss \<Longrightarrow> strict (fmt_sized n (fread_shifts ss 0 0)) (bytes_at ss v)"
  by (simp_all only: fmt_sized_parses fmt_sized_strict length_bytes_at)

interpretation int2: strict_codec hpcfmt_int2_fwrite hpcfmt_int2_fread enc_int2 "\<lambda>x. x" "\<lambda>_. True"
  by unfold_locales (unfold enc_int2_def int_freads int_fwrites,
    auto simp only: list.size intro!: fmt_wrote_emits fmt_sized_be or_bytes_at_be)

interpretation int4: strict_codec hpcfmt_int4_fwrite hpcfmt_int4_fread enc_int4 "\<lambda>x. x" "\<lambda>_. True"
  by unfold_locales (unfold enc_int4_def int_freads int_fwrites,
    auto simp only: list.size intro!: fmt_wrote_emits fmt_sized_be or_bytes_at_be)

interpretation int8: strict_codec hpcfmt_int8_fwrite hpcfmt_int8_fread enc_int8 "\<lambda>x. x" "\<lambda>_. True"
  by unfold_locales (unfold enc_int8_def int_freads int_fwrites,
    auto simp only: list.size intro!: fmt_wrote_emits fmt_sized_be or_bytes_at_be)

interpretation real8: strict_codec hpcfmt_real8_fwrite hpcfmt_real8_fread enc_int8 "\<lambda>x. x" "\<lambda>_. True"
  by unfold_locales (unfold enc_int8_def int_freads int_fwrites,
    auto simp only: list.size intro!: fmt_wrote_emits fmt_sized_be or_bytes_at_be)

text \<open>Byte arrays of a fixed length below \<open>2 ^ 32\<close>.\<close>

lemma intX_emits: "length bs < 2 ^ 32 \<Longrightarrow> emits (hpcfmt_intX_fwrite bs) bs"
  using beX_fwrite_room [of 0 "length bs" bs]
  by (simp add: emits_def hpcfmt_intX_fwrite_def fmt_wrote_def hpcio_beX_fwrite_def)

lemma intX_parses:
  "length bs < 2 ^ 32 \<Longrightarrow> length val = length bs \<Longrightarrow> parses (hpcfmt_intX_fread val) bs bs"
  using beX_fread_ahead [of 0 bs val]
  by (simp add: parses_def hpcfmt_intX_fread_def fmt_sized_def hpcio_beX_fread_def)

lemma intX_strict:
  assumes "length bs < 2 ^ 32" and "length val = length bs"
  shows "strict (hpcfmt_intX_fread val) bs"
  unfolding strict_def
proof (intro allI impI)
  fix fs k assume k: "ahead fs = take k bs \<and> k < length bs"
  then have "snd (fst (hpcio_beX_fread val fs)) = k"
    using beX_fread_short [of 0 fs val 0] assms by (simp add: hpcio_beX_fread_def)
  with k assms show "fst (hpcfmt_intX_fread val fs) = HPCFMT_ERR \<or>
      fst (hpcfmt_intX_fread val fs) = HPCFMT_EOF"
    unfolding hpcfmt_intX_fread_def by (intro fmt_sized_short) simp
qed

section \<open>Strings keep the contract\<close>

lemma str_fread_loop_ahead:
  "ahead fs = cs @ rest \<Longrightarrow> length buf + length cs < min bufsz (2 ^ 31) \<Longrightarrow>
   str_fread_loop bufsz (length cs) buf fs = (HPCFMT_OK (rev buf @ cs), fskip fs (length cs))"
proof (induction cs arbitrary: buf fs)
  case (Cons c cs)
  then have "fgetc fs = (Some c, fskip fs 1)" by (simp add: fgetc_ahead_Cons)
  with Cons show ?case by simp
qed simp

lemma str_fread_loop_short:
  "length (ahead fs) < n \<Longrightarrow> length buf + n < min bufsz (2 ^ 31) \<Longrightarrow>
   fst (str_fread_loop bufsz n buf fs) = HPCFMT_ERR"
proof (induction n arbitrary: buf fs)
  case (Suc n)
  show ?case
  proof (cases "ahead fs")
    case Nil
    then show ?thesis using fgetc_ahead_Nil [OF Nil] by (auto split: prod.split)
  next
    case (Cons c cs)
    with Suc.prems Suc.IH [of "fskip fs 1" "c # buf"] show ?thesis by (simp add: fgetc_ahead_Cons)
  qed
qed simp

lemma str_fwrite_loop_room:
  "room fs (length cs) \<Longrightarrow> i + length cs < 2 ^ 31 \<Longrightarrow>
   str_fwrite_loop i cs fs = (HPCFMT_OK (), fput fs cs)"
proof (induction cs arbitrary: i fs)
  case (Cons c cs)
  then have "fputc c fs = (Some c, fput fs [c])" "room (fput fs [c]) (length cs)"
    by (auto simp: room_def fputc_def)
  with Cons show ?case by simp
qed simp

lemma unat_len:
  assumes "n < 2 ^ 31"
  shows "unat (of_nat n :: u32) = n" and "unat ((of_nat n :: u32) + 1) = n + 1"
proof -
  show "unat (of_nat n :: u32) = n" using assms by (simp add: unat_of_nat)
  have "(of_nat n :: u32) + 1 = of_nat (n + 1)" by simp
  then show "unat ((of_nat n :: u32) + 1) = n + 1"
    using assms by (simp only: unat_of_nat) simp
qed

lemma str_emits: "valid_str s \<Longrightarrow> emits (hpcfmt_str_fwrite s) (enc_str s)"
  unfolding hpcfmt_str_fwrite_def Let_def enc_str_def
  by (simp add: c_str_ensure, rule emits_ignoring [OF int4.wr_emits])
    (auto simp: emits_def valid_str_def unat_len str_fwrite_loop_room)

lemma str_parses:
  assumes "valid_str s" and "alloc_ok alloc (length (hpcfmt_str_ensure s) + 1)"
  shows "parses (hpcfmt_str_fread alloc) (enc_str s) (hpcfmt_str_ensure s)"
  unfolding hpcfmt_str_fread_def enc_str_def
  by (rule parses_throw [OF int4.rd_parses])
    (use assms in \<open>auto simp: parses_def valid_str_def unat_len str_fread_loop_ahead\<close>)

lemma str_strict:
  assumes "valid_str s" and "alloc_ok alloc (length (hpcfmt_str_ensure s) + 1)"
  shows "strict (hpcfmt_str_fread alloc) (enc_str s)"
  unfolding hpcfmt_str_fread_def enc_str_def
  by (rule strict_throw [OF int4.rd_parses int4.rd_strict])
    (use assms in \<open>auto simp: strict_def valid_str_def unat_len str_fread_loop_short\<close>)

lemma alloc_ok_malloc [simp]: "alloc_ok malloc n"
  by (simp add: alloc_ok_def)

interpretation str: strict_codec hpcfmt_str_fwrite "hpcfmt_str_fread malloc" enc_str
  hpcfmt_str_ensure valid_str
  by unfold_locales (simp_all add: str_emits str_parses str_strict)

section \<open>Lists of name-value pairs\<close>

text \<open>The arguments of a call that writes the given pairs.\<close>

definition nv_args :: "(c_string \<times> c_string) list \<Rightarrow> c_string option list" where
  "nv_args ps = concat (map (\<lambda>(n, v). [Some n, Some v]) ps) @ [None]"

definition enc_nvpairs :: "(c_string \<times> c_string) list \<Rightarrow> byte list" where
  "enc_nvpairs ps = enc_int4 (of_nat (length ps))
     @ concat (map (\<lambda>(n, v). enc_str (Some n) @ enc_str (Some v)) ps)"

definition valid_nv :: "c_string \<times> c_string \<Rightarrow> bool" where
  "valid_nv p \<longleftrightarrow> valid_str (Some (fst p)) \<and> valid_str (Some (snd p))"

definition nv_img :: "c_string \<times> c_string \<Rightarrow> hpcfmt_nvpair_t" where
  "nv_img p = \<lparr> nv_name = Some (fst p), nv_val = Some (snd p) \<rparr>"

lemma nv_args_simps [simp]:
  "nv_args [] = [None]" "nv_args ((n, v) # ps) = Some n # Some v # nv_args ps"
  by (simp_all add: nv_args_def)

lemma nvpairs_count_args: "nvpairs_count (nv_args ps) = Some (of_nat (length ps))"
  by (induction ps) (auto simp: ac_simps)

lemma nvpairs_write_emits:
  "list_all valid_nv ps \<Longrightarrow>
   emits (nvpairs_write (nv_args ps)) (concat (map (\<lambda>(n, v). enc_str (Some n) @ enc_str (Some v)) ps))"
proof (induction ps)
  case (Cons p ps)
  then show ?case
    by (cases p) (auto simp: valid_nv_def intro!: emits_ignoring str_emits)
qed (auto intro: emits_intros)

lemma nvpair_parses:
  "valid_nv (n, v) \<Longrightarrow>
   parses (hpcfmt_nvpair_fread malloc) (enc_str (Some n) @ enc_str (Some v)) (nv_img (n, v))"
  using parses_ignoring [OF str.rd_parses [of "Some n"]
      parses_ignoring [OF str.rd_parses [of "Some v"] parses_return], of
      "\<lambda>name val. \<lparr> nv_name = name, nv_val = val \<rparr>"]
  by (simp add: hpcfmt_nvpair_fread_def valid_nv_def nv_img_def hpcfmt_str_ensure_def)

lemma nvpairs_read_parses:
  "list_all valid_nv ps \<Longrightarrow> parses (nvpairs_read malloc (length ps))
     (concat (map (\<lambda>(n, v). enc_str (Some n) @ enc_str (Some v)) ps)) (map nv_img ps)"
proof (induction ps)
  case (Cons p ps)
  obtain n v where p: "p = (n, v)" by (cases p)
  have "parses (nvpairs_read malloc (Suc (length ps)))
     ((enc_str (Some n) @ enc_str (Some v))
       @ concat (map (\<lambda>(n, v). enc_str (Some n) @ enc_str (Some v)) ps) @ [])
     (nv_img p # map nv_img ps)"
    unfolding nvpairs_read.simps p
    by (rule parses_eq [OF parses_ignoring [OF nvpair_parses parses_throw [OF Cons.IH parses_return]]])
      (use Cons.prems p in simp_all)
  then show ?case by (simp add: p)
qed (auto intro: parses_intros)

interpretation nvpairs: codec "\<lambda>ps. hpcfmt_nvpairs_vfwrite (nv_args ps)"
  "hpcfmt_nvpairList_fread malloc" enc_nvpairs "map nv_img"
  "\<lambda>ps. list_all valid_nv ps \<and> length ps < 2 ^ 31"
proof (unfold_locales, goal_cases)
  case (1 ps)
  then show ?case
    by (simp add: hpcfmt_nvpairs_vfwrite_def enc_nvpairs_def nvpairs_count_args)
      (intro emits_ignoring int4.wr_emits nvpairs_write_emits TrueI, simp)
next
  case (2 ps)
  then show ?case
    unfolding hpcfmt_nvpairList_fread_def enc_nvpairs_def
    by (intro parses_throw [OF int4.rd_parses]) (simp_all add: unat_len nvpairs_read_parses)
qed

section \<open>Properties\<close>

lemma shifts_roundtrip:
  fixes v :: "'a::len word"
  assumes "room fs k" and "fpos fs + k \<le> fbad fs"
    and "or_bytes ss (bytes_at ss v) 0 = v" and k: "k = length ss"
  shows "\<exists>fs'. fwrite_shifts ss v 0 fs = (k, fs') \<and>
    fread_shifts ss 0 0 (fs'\<lparr> fpos := fpos fs \<rparr>) = ((v, k), fs')"
proof -
  let ?fs = "(fput fs (bytes_at ss v))\<lparr> fpos := fpos fs \<rparr>"
  obtain rest where "ahead ?fs = bytes_at ss v @ rest"
    using ahead_fput [of fs "bytes_at ss v"] assms(2) k by auto
  then have "fread_shifts ss (0 :: 'a word) 0 ?fs = ((v, length ss), fskip ?fs (length ss))"
    using fread_shifts_ahead [of ?fs "bytes_at ss v" rest ss "0 :: 'a word" 0] assms(3) by simp
  moreover have "fskip ?fs (length ss) = fput fs (bytes_at ss v)"
    using fskip_fput [of fs "bytes_at ss v"] by simp
  ultimately show ?thesis using fwrite_shifts_room [of fs ss v 0] assms(1) k by simp
qed

text \<open>
  Every integer written by one of the six stream writers of \<open>hpcio\<close>, little or big endian, is
  read back by the reader of the same width and byte order, all its bytes being counted by both and
  the stream left behind the value.
\<close>

theorem hpcio_roundtrip:
  assumes "room fs 2" and "room fs 4" and "room fs 8" and "fpos fs + 8 \<le> fbad fs"
  shows "(\<exists>fs'. hpcio_le2_fwrite v2 fs = (2, fs') \<and>
      hpcio_le2_fread (fs'\<lparr> fpos := fpos fs \<rparr>) = ((v2, 2), fs')) \<and>
   (\<exists>fs'. hpcio_le4_fwrite v4 fs = (4, fs') \<and>
      hpcio_le4_fread (fs'\<lparr> fpos := fpos fs \<rparr>) = ((v4, 4), fs')) \<and>
   (\<exists>fs'. hpcio_le8_fwrite v8 fs = (8, fs') \<and>
      hpcio_le8_fread (fs'\<lparr> fpos := fpos fs \<rparr>) = ((v8, 8), fs')) \<and>
   (\<exists>fs'. hpcio_be2_fwrite v2 fs = (2, fs') \<and>
      hpcio_be2_fread (fs'\<lparr> fpos := fpos fs \<rparr>) = ((v2, 2), fs')) \<and>
   (\<exists>fs'. hpcio_be4_fwrite v4 fs = (4, fs') \<and>
      hpcio_be4_fread (fs'\<lparr> fpos := fpos fs \<rparr>) = ((v4, 4), fs')) \<and>
   (\<exists>fs'. hpcio_be8_fwrite v8 fs = (8, fs') \<and>
      hpcio_be8_fread (fs'\<lparr> fpos := fpos fs \<rparr>) = ((v8, 8), fs'))"
  unfolding hpcio_le2_fread_def hpcio_le4_fread_def hpcio_le8_fread_def hpcio_be2_fread_def
    hpcio_be4_fread_def hpcio_be8_fread_def hpcio_le2_fwrite_def hpcio_le4_fwrite_def
    hpcio_le8_fwrite_def hpcio_be2_fwrite_def hpcio_be4_fwrite_def hpcio_be8_fwrite_def
  by (intro conjI shifts_roundtrip or_bytes_at_le or_bytes_at_be) (use assms in simp_all)

theorem hpcio_roundtrip_witness:
  "\<exists>fs'. hpcio_be8_fwrite 0x1122334455667788 \<lparr> fdata = [7, 8, 9], fpos = 2, feof = False,
      fbad = 100, fcap = 100 \<rparr> = (8, fs') \<and>
    hpcio_be8_fread (fs'\<lparr> fpos := 2 \<rparr>) = ((0x1122334455667788, 8), fs')"
  using hpcio_roundtrip [of "\<lparr> fdata = [7, 8, 9], fpos = 2, feof = False, fbad = 100, fcap = 100 \<rparr>"
      0 0 "0x1122334455667788"]
  by (simp add: room_def)

lemma fread_shifts_Nil:
  "ahead fs = [] \<Longrightarrow> ss \<noteq> [] \<Longrightarrow> fread_shifts ss v n fs = ((v, n), snd (fgetc fs)) \<and>
    (feof (snd (fgetc fs)) \<longleftrightarrow> feof fs \<or> fpos fs < fbad fs)"
  by (cases ss; cases "fgetc fs") (auto simp: fgetc_def ahead_def split: if_splits)

lemma fmt_sized_fails:
  fixes v :: "'a::len word"
  assumes "length (ahead fs) < k" and k: "k = length ss"
  shows "fst (fmt_sized k (fread_shifts ss v 0) fs) =
    (if ahead fs = [] \<and> (feof fs \<or> fpos fs < fbad fs) then HPCFMT_EOF else HPCFMT_ERR)"
proof (cases "ahead fs = []")
  case True
  with assms fread_shifts_Nil [OF True, of ss v 0] show ?thesis by (auto simp: fmt_sized_def)
next
  case False
  obtain w n fs' where r: "fread_shifts ss v 0 fs = ((w, n), fs')" by (metis surj_pair)
  with fread_shifts_short [of fs ss v 0] assms have "n = length (ahead fs)" by simp
  with r False assms show ?thesis by (simp add: fmt_sized_def)
qed

lemma hpcfmt_int_fread_empty:
  "ahead fs = [] \<Longrightarrow> fpos fs < fbad fs \<Longrightarrow> fst (hpcfmt_int8_fread fs) = HPCFMT_EOF"
  unfolding int_freads by (subst fmt_sized_fails) simp_all

text \<open>
  An integer reader that does not get all its bytes fails, and tells the two ways apart: the
  result is \<open>HPCFMT_EOF\<close> exactly when not a single byte was left and the end of the stream was
  reached, and \<open>HPCFMT_ERR\<close> when the value is cut short or the read failed.
\<close>

theorem hpcfmt_int_fread_fails:
  "(length (ahead fs) < 2 \<longrightarrow> fst (hpcfmt_int2_fread fs) =
     (if ahead fs = [] \<and> (feof fs \<or> fpos fs < fbad fs) then HPCFMT_EOF else HPCFMT_ERR)) \<and>
   (length (ahead fs) < 4 \<longrightarrow> fst (hpcfmt_int4_fread fs) =
     (if ahead fs = [] \<and> (feof fs \<or> fpos fs < fbad fs) then HPCFMT_EOF else HPCFMT_ERR)) \<and>
   (length (ahead fs) < 8 \<longrightarrow> fst (hpcfmt_int8_fread fs) =
     (if ahead fs = [] \<and> (feof fs \<or> fpos fs < fbad fs) then HPCFMT_EOF else HPCFMT_ERR))"
  unfolding int_freads by (intro conjI impI; rule fmt_sized_fails) simp_all

theorem hpcfmt_int_fread_fails_witness:
  "fst (hpcfmt_int4_fread \<lparr> fdata = [1, 2, 3], fpos = 0, feof = False, fbad = 9, fcap = 0 \<rparr>)
     = HPCFMT_ERR \<and>
   fst (hpcfmt_int8_fread \<lparr> fdata = [1, 2, 3], fpos = 3, feof = False, fbad = 9, fcap = 0 \<rparr>)
     = HPCFMT_EOF"
  using hpcfmt_int_fread_fails [of "\<lparr> fdata = [1, 2, 3], fpos = 0, feof = False, fbad = 9, fcap = 0 \<rparr>"]
    hpcfmt_int_fread_fails [of "\<lparr> fdata = [1, 2, 3], fpos = 3, feof = False, fbad = 9, fcap = 0 \<rparr>"]
  by (simp add: ahead_def)

text \<open>
  A string written to a stream with room for it is read back: the reader succeeds with the
  same bytes (the empty string for a null pointer) and leaves the stream where the writer did.
\<close>

theorem hpcfmt_str_roundtrip:
  assumes "valid_str s" and "room fs (4 + length (hpcfmt_str_ensure s))"
    and "fpos fs + (4 + length (hpcfmt_str_ensure s)) \<le> fbad fs"
  shows "\<exists>fs'. hpcfmt_str_fwrite s fs = (HPCFMT_OK (), fs') \<and>
    hpcfmt_str_fread malloc (fs'\<lparr> fpos := fpos fs \<rparr>) = (HPCFMT_OK (hpcfmt_str_ensure s), fs')"
  using str.roundtrip [OF assms(1), of fs] assms(2,3) by (simp add: enc_str_def)

theorem hpcfmt_str_roundtrip_witness:
  "\<exists>fs'. hpcfmt_str_fwrite (Some [104, 112, 99])
      \<lparr> fdata = [], fpos = 0, feof = False, fbad = 100, fcap = 100 \<rparr> = (HPCFMT_OK (), fs') \<and>
    hpcfmt_str_fread malloc (fs'\<lparr> fpos := 0 \<rparr>) = (HPCFMT_OK [104, 112, 99], fs')"
  using hpcfmt_str_roundtrip [of "Some [104, 112, 99]"
      "\<lparr> fdata = [], fpos = 0, feof = False, fbad = 100, fcap = 100 \<rparr>"]
  by (simp add: room_def valid_str_def hpcfmt_str_ensure_def)

text \<open>
  When the stream ends anywhere inside a string, in its length or in its bytes, the string reader
  reports a failure, whatever the allocator gives for the announced length.
\<close>

theorem hpcfmt_str_truncated:
  assumes "valid_str s" and "ahead fs = take k (enc_str s)" and "k < length (enc_str s)"
  shows "fst (hpcfmt_str_fread alloc fs) = HPCFMT_ERR \<or> fst (hpcfmt_str_fread alloc fs) = HPCFMT_EOF"
proof (cases "alloc_ok alloc (length (hpcfmt_str_ensure s) + 1)")
  case True
  from strictD [OF str_strict [OF assms(1) True] assms(2,3)] show ?thesis .
next
  case False
  have "strict (hpcfmt_str_fread alloc) (enc_str s)"
    unfolding hpcfmt_str_fread_def enc_str_def
    by (rule strict_throw [OF int4.rd_parses int4.rd_strict])
      (use assms(1) False in \<open>auto simp: strict_def valid_str_def unat_len fmt_fail_def\<close>)
  from strictD [OF this assms(2,3)] show ?thesis .
qed

theorem hpcfmt_str_truncated_witness:
  "fst (hpcfmt_str_fread malloc \<lparr> fdata = [0, 0, 0, 3, 104, 112], fpos = 0, feof = False,
      fbad = 100, fcap = 0 \<rparr>) = HPCFMT_ERR \<or>
   fst (hpcfmt_str_fread malloc \<lparr> fdata = [0, 0, 0, 3, 104, 112], fpos = 0, feof = False,
      fbad = 100, fcap = 0 \<rparr>) = HPCFMT_EOF"
  by (rule hpcfmt_str_truncated [of "Some [104, 112, 99]" _ 6])
    (simp_all add: valid_str_def hpcfmt_str_ensure_def ahead_def enc_str_def enc_int4_def)

text \<open>
  The buffer of the string reader is one byte longer than the announced length in 32-bit
  arithmetic. For the largest length it is empty, and a stream that holds that length and at least one
  byte more makes the reader store outside it.
\<close>

theorem hpcfmt_str_fread_length_wraps:
  assumes "ahead fs = enc_int4 0xffffffff @ c # rest"
  shows "fst (hpcfmt_str_fread malloc fs) = HPCFMT_UB"
proof -
  have "hpcfmt_int4_fread fs = (HPCFMT_OK 0xffffffff, fskip fs 4)"
    using parsesD [OF int4.rd_parses assms] by simp
  moreover have "fgetc (fskip fs 4) = (Some c, fskip fs 5)"
    using assms by (subst fgetc_ahead_Cons) auto
  moreover have "fst (str_fread_loop 0 n [] gs) = HPCFMT_UB"
    if "0 < n" and "fgetc gs = (Some c, gs')" for n gs gs'
    using that by (cases n) simp_all
  ultimately show ?thesis
    by (simp add: hpcfmt_str_fread_def ThrowIfError_def)
qed

theorem hpcfmt_str_fread_length_wraps_witness:
  "fst (hpcfmt_str_fread malloc \<lparr> fdata = [255, 255, 255, 255, 65], fpos = 0, feof = False,
      fbad = 100, fcap = 0 \<rparr>) = HPCFMT_UB"
  by (rule hpcfmt_str_fread_length_wraps [of _ 65 "[]"]) (simp add: ahead_def enc_int4_def)

text \<open>
  A list of name-value pairs written by the variable-argument writer is read back as that list,
  and a search in it returns the value of the first pair with the name, or a null pointer when no pair
  has it.
\<close>

theorem hpcfmt_nvpairs_roundtrip:
  assumes "list_all valid_nv ps" and "length ps < 2 ^ 31" and "room fs (length (enc_nvpairs ps))"
    and "fpos fs + length (enc_nvpairs ps) \<le> fbad fs" and "valid_str (Some name)"
  shows "\<exists>fs' nvps. hpcfmt_nvpairs_vfwrite (nv_args ps) fs = (HPCFMT_OK (), fs') \<and>
    hpcfmt_nvpairList_fread malloc (fs'\<lparr> fpos := fpos fs \<rparr>) = (HPCFMT_OK nvps, fs') \<and>
    nvps = map nv_img ps \<and>
    hpcfmt_nvpairList_search nvps name = Some (map_of ps name)"
proof -
  have c: "c_str s = s" if "valid_str (Some s)" for s
    using c_str_ensure [OF that] by (simp add: hpcfmt_str_ensure_def)
  have "hpcfmt_nvpairList_search (map nv_img ps) name = Some (map_of ps name)"
    using assms(1,5) by (induction ps) (auto simp: nv_img_def valid_nv_def c)
  then show ?thesis using nvpairs.roundtrip [of ps fs] assms by auto
qed

theorem hpcfmt_nvpairs_roundtrip_witness:
  "\<exists>fs' nvps. hpcfmt_nvpairs_vfwrite (nv_args [([112], [49]), ([106], [50])])
      \<lparr> fdata = [], fpos = 0, feof = False, fbad = 100, fcap = 100 \<rparr> = (HPCFMT_OK (), fs') \<and>
    hpcfmt_nvpairList_fread malloc (fs'\<lparr> fpos := 0 \<rparr>) = (HPCFMT_OK nvps, fs') \<and>
    nvps = map nv_img [([112], [49]), ([106], [50])] \<and>
    hpcfmt_nvpairList_search nvps [106] = Some (Some [50])"
  using hpcfmt_nvpairs_roundtrip [of "[([112], [49]), ([106], [50])]"
      "\<lparr> fdata = [], fpos = 0, feof = False, fbad = 100, fcap = 100 \<rparr>" "[106]"]
  by (simp add: room_def valid_nv_def valid_str_def hpcfmt_str_ensure_def enc_nvpairs_def enc_str_def)

text \<open>
  The list reader drops the results of the string readers: a stream that ends right after a
  count of one is accepted, as a list with one pair neither of whose strings was ever set, and a search
  in that list uses the unset name.
\<close>

theorem hpcfmt_nvpairList_fread_truncated:
  assumes "ahead fs = enc_int4 1"
  shows "fst (hpcfmt_nvpairList_fread malloc fs) = HPCFMT_OK [\<lparr> nv_name = None, nv_val = None \<rparr>] \<and>
    hpcfmt_nvpairList_search [\<lparr> nv_name = None, nv_val = None \<rparr>] name = None"
proof -
  have "hpcfmt_int4_fread fs = (HPCFMT_OK 1, fskip fs 4)"
    using parsesD [OF int4.rd_parses, of fs 1 "[]"] assms by simp
  moreover have str: "\<exists>gs'. hpcfmt_str_fread malloc gs = (HPCFMT_ERR, gs') \<and> ahead gs' = []"
    if "ahead gs = []" for gs
    using that fread_shifts_Nil [OF that, of "[24, 16, 8, 0]" "0 :: u32" 0] fgetc_ahead_Nil [OF that]
    by (auto simp: hpcfmt_str_fread_def ThrowIfError_def int_freads fmt_sized_def)
  obtain gs where "hpcfmt_str_fread malloc (fskip fs 4) = (HPCFMT_ERR, gs)" "ahead gs = []"
    using str [of "fskip fs 4"] assms by auto
  moreover from this str [of gs] obtain gs' where "hpcfmt_str_fread malloc gs = (HPCFMT_ERR, gs')"
    by auto
  ultimately show ?thesis
    by (simp add: hpcfmt_nvpairList_fread_def ThrowIfError_def ignoring_def hpcfmt_nvpair_fread_def
        fmt_return_def)
qed

theorem hpcfmt_nvpairList_fread_truncated_witness:
  "fst (hpcfmt_nvpairList_fread malloc \<lparr> fdata = [0, 0, 0, 1], fpos = 0, feof = False, fbad = 9, fcap = 0 \<rparr>)
     = HPCFMT_OK [\<lparr> nv_name = None, nv_val = None \<rparr>]"
  using hpcfmt_nvpairList_fread_truncated
    [of "\<lparr> fdata = [0, 0, 0, 1], fpos = 0, feof = False, fbad = 9, fcap = 0 \<rparr>"]
  by (simp add: ahead_def enc_int4_def)

end
