(* ===== verification/Id_Tuple.thy ===== *)
theory Id_Tuple
  imports Hpcfmt
begin

text \<open>
  Identifier tuples of profiles (\<open>src/common/lean/id-tuple.c\<close> and \<open>id-tuple.h\<close>): construction, the
  composition of kinds, copying and transfer. The array of identifiers is the list of its slots; the
  field \<open>length\<close> says how many of them are in use. A failed assertion or an access outside the array
  is \<open>None\<close> (in a reader or writer, \<open>HPCFMT_UB\<close>).
\<close>

section \<open>Kinds\<close>

definition IDTUPLE_GET_INTERPRET :: "u16 \<Rightarrow> u16" where
  "IDTUPLE_GET_INTERPRET kind = drop_bit 14 kind AND 0x3"

definition IDTUPLE_GET_KIND :: "u16 \<Rightarrow> u16" where
  "IDTUPLE_GET_KIND kind = kind AND (push_bit 14 1 - 1)"

definition IDTUPLE_COMPOSE :: "u16 \<Rightarrow> u16 \<Rightarrow> u16" where
  "IDTUPLE_COMPOSE kind intr = push_bit 14 intr OR kind"

definition IDTUPLE_SUMMARY :: u16 where "IDTUPLE_SUMMARY = 0"
definition IDTUPLE_NODE :: u16 where "IDTUPLE_NODE = 1"
definition IDTUPLE_RANK :: u16 where "IDTUPLE_RANK = 2"
definition IDTUPLE_THREAD :: u16 where "IDTUPLE_THREAD = 3"
definition IDTUPLE_GPUDEVICE :: u16 where "IDTUPLE_GPUDEVICE = 4"
definition IDTUPLE_GPUCONTEXT :: u16 where "IDTUPLE_GPUCONTEXT = 5"
definition IDTUPLE_GPUSTREAM :: u16 where "IDTUPLE_GPUSTREAM = 6"
definition IDTUPLE_CORE :: u16 where "IDTUPLE_CORE = 7"

definition PMS_id_tuple_len_SIZE :: nat where "PMS_id_tuple_len_SIZE = 2"
definition PMS_id_SIZE :: nat where "PMS_id_SIZE = 18"

section \<open>Tuples\<close>

record pms_id_t =
  pms_kind :: u16
  pms_physical_index :: u64
  pms_logical_index :: u64

record id_tuple_t =
  tuple_length :: u16
  tuple_ids_length :: u16
  tuple_ids :: "pms_id_t list"

definition id_tuple_constructor :: "pms_id_t list \<Rightarrow> int \<Rightarrow> id_tuple_t" where
  "id_tuple_constructor ids ids_length =
    \<lparr> tuple_length = 0, tuple_ids_length = of_int ids_length, tuple_ids = ids \<rparr>"

definition id_tuple_push_back :: "id_tuple_t \<Rightarrow> u16 \<Rightarrow> u64 \<Rightarrow> u64 \<Rightarrow> id_tuple_t option" where
  "id_tuple_push_back tuple kind physical_index logical_index =
    (let pos = unat (tuple_length tuple);
         tuple = tuple\<lparr> tuple_length := tuple_length tuple + 1 \<rparr>
     in if \<not> tuple_length tuple \<le> tuple_ids_length tuple then None
     else if \<not> pos < length (tuple_ids tuple) then None
     else Some (tuple\<lparr> tuple_ids := (tuple_ids tuple)[pos :=
            \<lparr> pms_kind = kind, pms_physical_index = physical_index,
              pms_logical_index = logical_index \<rparr>] \<rparr>))"

definition id_tuple_copy :: "id_tuple_t \<Rightarrow> id_tuple_t option" where
  "id_tuple_copy src =
    (let len = unat (tuple_length src)
     in if len \<le> length (tuple_ids src)
        then Some \<lparr> tuple_length = tuple_length src, tuple_ids_length = tuple_length src,
                    tuple_ids = take len (tuple_ids src) \<rparr>
        else None)"

section \<open>Transfer\<close>

definition pms_id_fwrite :: "pms_id_t \<Rightarrow> writer" where
  "pms_id_fwrite x =
    ThrowIfError (hpcfmt_int2_fwrite (pms_kind x)) (\<lambda>_.
    ThrowIfError (hpcfmt_int8_fwrite (pms_physical_index x)) (\<lambda>_.
    ThrowIfError (hpcfmt_int8_fwrite (pms_logical_index x)) (\<lambda>_.
    fmt_return ())))"

definition id_tuple_fwrite :: "id_tuple_t \<Rightarrow> writer" where
  "id_tuple_fwrite x =
    ThrowIfError (hpcfmt_int2_fwrite (tuple_length x)) (\<lambda>_.
      if unat (tuple_length x) \<le> length (tuple_ids x)
      then write_all pms_id_fwrite (take (unat (tuple_length x)) (tuple_ids x))
      else fmt_undefined)"

definition pms_id_fread :: "pms_id_t reader" where
  "pms_id_fread =
    ThrowIfError hpcfmt_int2_fread (\<lambda>kind.
    ThrowIfError hpcfmt_int8_fread (\<lambda>physical_index.
    ThrowIfError hpcfmt_int8_fread (\<lambda>logical_index.
    fmt_return \<lparr> pms_kind = kind, pms_physical_index = physical_index,
                 pms_logical_index = logical_index \<rparr>)))"

text \<open>The reader sets the length and the array and leaves \<open>ids_length\<close> as it was.\<close>

definition id_tuple_fread :: "u16 \<Rightarrow> id_tuple_t reader" where
  "id_tuple_fread ids_length =
    ThrowIfError hpcfmt_int2_fread (\<lambda>len.
    ThrowIfError (read_n (unat len) pms_id_fread) (\<lambda>ids.
    fmt_return \<lparr> tuple_length = len, tuple_ids_length = ids_length, tuple_ids = ids \<rparr>))"

text \<open>The tuples of several profiles; the counts are those of the arrays.\<close>

definition id_tuples_pms_fwrite :: "id_tuple_t list \<Rightarrow> writer" where
  "id_tuples_pms_fwrite x = write_all id_tuple_fwrite x"

definition id_tuples_pms_fread :: "u16 \<Rightarrow> u32 \<Rightarrow> id_tuple_t list reader" where
  "id_tuples_pms_fread ids_length num_tuples = read_n (unat num_tuples) (id_tuple_fread ids_length)"

section \<open>The contracts\<close>

definition enc_pms_id :: "pms_id_t \<Rightarrow> byte list" where
  "enc_pms_id x = enc_int2 (pms_kind x) @ enc_int8 (pms_physical_index x)
     @ enc_int8 (pms_logical_index x)"

definition enc_id_tuple :: "id_tuple_t \<Rightarrow> byte list" where
  "enc_id_tuple x = enc_int2 (tuple_length x)
     @ concat (map enc_pms_id (take (unat (tuple_length x)) (tuple_ids x)))"

text \<open>The invariant of a tuple: the slots in use are there.\<close>

definition id_tuple_ok :: "id_tuple_t \<Rightarrow> bool" where
  "id_tuple_ok x \<longleftrightarrow> tuple_length x \<le> tuple_ids_length x
     \<and> unat (tuple_ids_length x) = length (tuple_ids x)"

definition id_tuple_used :: "id_tuple_t \<Rightarrow> pms_id_t list" where
  "id_tuple_used x = take (unat (tuple_length x)) (tuple_ids x)"

lemmas int_rules =
  parses_throw parses_return int2.rd_parses int4.rd_parses int8.rd_parses real8.rd_parses
  str.rd_parses

lemmas int_strict_rules =
  strict_throw strict_Nil int2.rd_strict int4.rd_strict int8.rd_strict real8.rd_strict str.rd_strict

lemmas int_write_rules =
  emits_throw emits_return int2.wr_emits int4.wr_emits int8.wr_emits real8.wr_emits str.wr_emits

lemma enc_pms_id_app: "enc_pms_id x = enc_int2 (pms_kind x) @ enc_int8 (pms_physical_index x)
     @ enc_int8 (pms_logical_index x) @ []"
  by (simp add: enc_pms_id_def)

interpretation pms_id: strict_codec pms_id_fwrite pms_id_fread enc_pms_id "\<lambda>x. x" "\<lambda>_. True"
proof (unfold_locales, goal_cases)
  case (1 x)
  show ?case unfolding pms_id_fwrite_def enc_pms_id_app by (rule int_write_rules TrueI)+
next
  case (2 x)
  show ?case unfolding pms_id_fread_def enc_pms_id_app
    by (rule parses_value, (rule int_rules TrueI)+) simp
next
  case (3 x)
  show ?case unfolding pms_id_fread_def enc_pms_id_app by (rule int_strict_rules int_rules TrueI)+
qed

lemma enc_id_tuple_app: "enc_id_tuple x = enc_int2 (tuple_length x)
     @ concat (map enc_pms_id (id_tuple_used x)) @ []"
  by (simp add: enc_id_tuple_def id_tuple_used_def)

lemma ids_read:
  assumes "unat (tuple_length x) \<le> length (tuple_ids x)"
  shows "parses (read_n (unat (tuple_length x)) pms_id_fread)
      (concat (map enc_pms_id (id_tuple_used x))) (id_tuple_used x)"
    and "strict (read_n (unat (tuple_length x)) pms_id_fread)
      (concat (map enc_pms_id (id_tuple_used x)))"
  using pms_id.parses_read_n [of "id_tuple_used x"] pms_id.strict_read_n [of "id_tuple_used x"] assms
  by (simp_all add: id_tuple_used_def list_all_iff min.absorb2)

interpretation id_tuple: strict_codec id_tuple_fwrite "id_tuple_fread n" enc_id_tuple
  "\<lambda>x. x\<lparr> tuple_ids_length := n, tuple_ids := id_tuple_used x \<rparr>"
  "\<lambda>x. unat (tuple_length x) \<le> length (tuple_ids x)" for n
proof (unfold_locales, goal_cases)
  case (1 x)
  then show ?case unfolding id_tuple_fwrite_def enc_id_tuple_def
    by (intro emits_throw int2.wr_emits TrueI) (simp add: pms_id.emits_write_all list_all_iff)
next
  case (2 x)
  then show ?case unfolding id_tuple_fread_def enc_id_tuple_app
    by - (rule parses_value, (rule int_rules TrueI ids_read(1) | assumption)+, simp)
next
  case (3 x)
  then show ?case unfolding id_tuple_fread_def enc_id_tuple_app
    by - (rule int_strict_rules int_rules TrueI ids_read | assumption)+
qed

section \<open>Properties\<close>

text \<open>
  The interpretation bits and the kind of an identifier are recovered from their composition
  when they fit their fields, and composing the two parts of any kind gives it back.
\<close>

theorem idtuple_compose_roundtrip:
  "IDTUPLE_GET_KIND (IDTUPLE_COMPOSE (k AND 0x3fff) (i AND 0x3)) = k AND 0x3fff \<and>
   IDTUPLE_GET_INTERPRET (IDTUPLE_COMPOSE (k AND 0x3fff) (i AND 0x3)) = i AND 0x3 \<and>
   IDTUPLE_COMPOSE (IDTUPLE_GET_KIND k) (IDTUPLE_GET_INTERPRET k) = k"
proof -
  have m: "(0x3fff :: u16) = mask 14" "(0x3 :: u16) = mask 2" "push_bit 14 1 - 1 = (mask 14 :: u16)"
    by (simp_all add: mask_eq_exp_minus_1 push_bit_eq_mult)
  show ?thesis
    unfolding IDTUPLE_GET_KIND_def IDTUPLE_GET_INTERPRET_def IDTUPLE_COMPOSE_def m
    by (intro conjI; rule bit_word_eqI) (auto simp: bit_simps)
qed

text \<open>
  Pushing onto a tuple with a free slot succeeds, keeps the invariant that the slots in use
  exist, and appends the identifier to those in use; pushing onto a full one fails the assertion.
\<close>

theorem id_tuple_push_back_correct:
  assumes "id_tuple_ok t"
  shows "(tuple_length t < tuple_ids_length t \<longrightarrow>
     (\<exists>t'. id_tuple_push_back t k p l = Some t' \<and> id_tuple_ok t' \<and>
        id_tuple_used t' = id_tuple_used t
          @ [\<lparr> pms_kind = k, pms_physical_index = p, pms_logical_index = l \<rparr>])) \<and>
   (tuple_length t = tuple_ids_length t \<longrightarrow> id_tuple_push_back t k p l = None)"
proof (intro conjI impI)
  assume "tuple_length t < tuple_ids_length t"
  then have less: "unat (tuple_length t) < unat (tuple_ids_length t)" by (simp add: word_less_nat_alt)
  then have n: "unat (tuple_length t + 1) = Suc (unat (tuple_length t))"
    using unsigned_less [of "tuple_ids_length t", where ?'a = nat] by (simp add: unat_word_ariths)
  have "tuple_length t + 1 \<le> tuple_ids_length t" using less n by (simp add: word_le_nat_alt)
  with less n assms show "\<exists>t'. id_tuple_push_back t k p l = Some t' \<and> id_tuple_ok t' \<and>
        id_tuple_used t' = id_tuple_used t
          @ [\<lparr> pms_kind = k, pms_physical_index = p, pms_logical_index = l \<rparr>]"
    by (simp add: id_tuple_push_back_def id_tuple_ok_def id_tuple_used_def take_Suc_conv_app_nth)
next
  assume "tuple_length t = tuple_ids_length t"
  with assms show "id_tuple_push_back t k p l = None"
    by (simp add: id_tuple_push_back_def id_tuple_ok_def Let_def)
qed

theorem id_tuple_push_back_correct_witness:
  "\<exists>t'. id_tuple_push_back \<lparr> tuple_length = 1, tuple_ids_length = 2, tuple_ids =
        [\<lparr> pms_kind = IDTUPLE_NODE, pms_physical_index = 7, pms_logical_index = 0 \<rparr>,
         \<lparr> pms_kind = 0, pms_physical_index = 0, pms_logical_index = 0 \<rparr>] \<rparr> IDTUPLE_RANK 3 3 = Some t' \<and>
     id_tuple_used t' = [\<lparr> pms_kind = IDTUPLE_NODE, pms_physical_index = 7, pms_logical_index = 0 \<rparr>,
        \<lparr> pms_kind = IDTUPLE_RANK, pms_physical_index = 3, pms_logical_index = 3 \<rparr>]"
  using id_tuple_push_back_correct [of "\<lparr> tuple_length = 1, tuple_ids_length = 2, tuple_ids =
        [\<lparr> pms_kind = IDTUPLE_NODE, pms_physical_index = 7, pms_logical_index = 0 \<rparr>,
         \<lparr> pms_kind = 0, pms_physical_index = 0, pms_logical_index = 0 \<rparr>] \<rparr>" IDTUPLE_RANK 3 3]
  by (auto simp: id_tuple_ok_def id_tuple_used_def)

end
