(* ===== verification/Hpcrun_Fmt.thy ===== *)
theory Hpcrun_Fmt
  imports Id_Tuple Complex_Main
begin

text \<open>
  The sections of a measurement file and of a trace file (\<open>src/common/lean/hpcrun-fmt.c\<close> and
  \<open>hpcrun-fmt.h\<close>): file header, epoch header, metric table, load map, calling context nodes,
  dictionary of identifier kinds, sparse metrics, footer, trace header and trace records, and the
  header of the metric database. One record per structure and one reader and writer each, in the
  order of the source, with the calls whose results the source drops marked by \<open>ignoring\<close>.

  A \<open>double\<close> is its bit pattern. The flags of a metric are the 16 bytes of the union, laid out as the
  System V x86-64 ABI lays out its bit fields: the type, the value type and the value format in the first
  three bytes, the partner in bytes 4 and 5, the two display flags in bytes 6 and 7, and \<open>unused1\<close> in
  the last eight. A \<open>bool\<close> that the code reads through a \<open>uint16_t*\<close> is the byte this leaves in it.
  Allocations by a direct call of \<open>malloc\<close> are taken to succeed.
\<close>

section \<open>Constants\<close>

definition str_lit :: "string \<Rightarrow> byte list" where
  "str_lit s = map (\<lambda>c. of_nat (of_char c)) s"

definition HPCRUN_FMT_Magic :: "byte list" where
  "HPCRUN_FMT_Magic = str_lit ''HPCRUN-profile____''"

definition HPCRUN_FMT_Version :: "byte list" where
  "HPCRUN_FMT_Version = str_lit ''04.00''"

definition HPCRUN_FMT_Endian :: "byte list" where
  "HPCRUN_FMT_Endian = str_lit ''b''"

definition HPCRUN_FMT_EpochTag :: "byte list" where
  "HPCRUN_FMT_EpochTag = str_lit ''EPOCH___''"

definition HPCTRACE_FMT_Magic :: "byte list" where
  "HPCTRACE_FMT_Magic = str_lit ''HPCRUN-trace______''"

definition HPCTRACE_FMT_Version :: "byte list" where
  "HPCTRACE_FMT_Version = str_lit ''01.01''"

definition HPCTRACE_FMT_Endian :: "byte list" where
  "HPCTRACE_FMT_Endian = str_lit ''b''"

definition HPCMETRICDB_FMT_Magic :: "byte list" where
  "HPCMETRICDB_FMT_Magic = str_lit ''HPCPROF-metricdb__''"

definition HPCMETRICDB_FMT_Version :: "byte list" where
  "HPCMETRICDB_FMT_Version = str_lit ''00.10''"

definition HPCMETRICDB_FMT_Endian :: "byte list" where
  "HPCMETRICDB_FMT_Endian = str_lit ''b''"

definition HPCRUNsm :: u64 where
  "HPCRUNsm = 0x48504352554E736D"

definition LastNodeEnd :: u32 where
  "LastNodeEnd = 0x656E6421"

definition HPCTRACE_FMT_MetricId_NULL :: u32 where
  "HPCTRACE_FMT_MetricId_NULL = 0x7fffffff"

section \<open>Version numbers\<close>

text \<open>
  \<open>atof\<close> on decimal notation: blanks, a sign, digits, a fraction and an exponent; what does not parse
  ends the number. The hexadecimal and the infinite forms are left out. Values are exact rationals.
\<close>

definition is_digit :: "byte \<Rightarrow> bool" where
  "is_digit c \<longleftrightarrow> 48 \<le> unat c \<and> unat c \<le> 57"

definition digits_val :: "byte list \<Rightarrow> nat" where
  "digits_val ds = foldl (\<lambda>n d. 10 * n + (unat d - 48)) 0 ds"

definition parse_sign :: "byte list \<Rightarrow> bool \<times> byte list" where
  "parse_sign s = (case s of
     c # cs \<Rightarrow> if c = 45 then (True, cs) else if c = 43 then (False, cs) else (False, s)
   | [] \<Rightarrow> (False, []))"

definition parse_exp :: "byte list \<Rightarrow> int" where
  "parse_exp s = (case s of
     c # cs \<Rightarrow> if c = 101 \<or> c = 69 then
         (let (neg, ds) = parse_sign cs; e = int (digits_val (takeWhile is_digit ds))
          in if neg then - e else e)
       else 0
   | [] \<Rightarrow> 0)"

definition atof :: "c_string \<Rightarrow> rat" where
  "atof str =
    (let s = dropWhile (\<lambda>c. c = 32 \<or> 9 \<le> unat c \<and> unat c \<le> 13) (c_str str);
         (neg, s) = parse_sign s;
         whole = takeWhile is_digit s;
         s = drop (length whole) s;
         frac = (case s of c # cs \<Rightarrow> if c = 46 then takeWhile is_digit cs else [] | [] \<Rightarrow> []);
         s = (case s of c # cs \<Rightarrow> if c = 46 then drop (length frac) cs else s | [] \<Rightarrow> []);
         m = of_nat (digits_val (whole @ frac)) / 10 ^ length frac;
         e = (if whole @ frac = [] then 0 else parse_exp s);
         v = (if e \<ge> 0 then m * 10 ^ nat e else m / 10 ^ nat (- e))
     in if neg then - v else v)"

section \<open>File header\<close>

record hpcrun_fmt_hdr_t =
  hdr_versionStr :: c_string
  hdr_version :: rat
  hdr_endian :: byte
  hdr_nvps :: "hpcfmt_nvpair_t list option"

definition hpcrun_fmt_hdr_fread :: "alloc_fn \<Rightarrow> hpcrun_fmt_hdr_t reader" where
  "hpcrun_fmt_hdr_fread alloc =
    ThrowIfError (fread_n (length HPCRUN_FMT_Magic)) (\<lambda>tag.
    if length tag \<noteq> length HPCRUN_FMT_Magic then fmt_fail
    else if c_str tag \<noteq> c_str HPCRUN_FMT_Magic then fmt_fail
    else
    ThrowIfError (fread_n (length HPCRUN_FMT_Version)) (\<lambda>versionStr.
    if length versionStr \<noteq> length HPCRUN_FMT_Version then fmt_fail
    else let version = atof versionStr in
    ThrowIfError (fread_n (length HPCRUN_FMT_Endian)) (\<lambda>endian.
    if length endian \<noteq> length HPCRUN_FMT_Endian then fmt_fail
    else
    ignoring (hpcfmt_nvpairList_fread alloc) (\<lambda>nvps.
    fmt_return \<lparr> hdr_versionStr = versionStr, hdr_version = version, hdr_endian = hd endian,
                 hdr_nvps = nvps \<rparr>))))"

definition hpcrun_fmt_hdr_fwrite :: "c_string option list \<Rightarrow> writer" where
  "hpcrun_fmt_hdr_fwrite args =
    ignoring (fwrite_n HPCRUN_FMT_Magic) (\<lambda>_.
    ignoring (fwrite_n HPCRUN_FMT_Version) (\<lambda>_.
    ignoring (fwrite_n HPCRUN_FMT_Endian) (\<lambda>_.
    ignoring (hpcfmt_nvpairs_vfwrite args) (\<lambda>_.
    fmt_return ()))))"

section \<open>Epoch header\<close>

record hpcrun_fmt_epochHdr_t =
  epochHdr_flags :: u64
  epochHdr_measurementGranularity :: u64
  epochHdr_nvps :: "hpcfmt_nvpair_t list"

definition hpcrun_fmt_epochHdr_fread :: "alloc_fn \<Rightarrow> hpcrun_fmt_epochHdr_t reader" where
  "hpcrun_fmt_epochHdr_fread alloc =
    ThrowIfError (fread_n (length HPCRUN_FMT_EpochTag)) (\<lambda>tag fs.
    if length tag \<noteq> length HPCRUN_FMT_EpochTag
    then (if length tag = 0 \<and> feof fs then HPCFMT_EOF else HPCFMT_ERR, fs)
    else if c_str tag \<noteq> c_str HPCRUN_FMT_EpochTag then (HPCFMT_ERR, fs)
    else
    ThrowIfError hpcfmt_int8_fread (\<lambda>flags.
    ThrowIfError hpcfmt_int8_fread (\<lambda>measurementGranularity.
    ThrowIfError hpcfmt_int4_fread (\<lambda>dummy.
    ThrowIfError (hpcfmt_nvpairList_fread alloc) (\<lambda>nvps.
    fmt_return \<lparr> epochHdr_flags = flags,
                 epochHdr_measurementGranularity = measurementGranularity,
                 epochHdr_nvps = nvps \<rparr>)))) fs)"

definition hpcrun_fmt_epochHdr_fwrite :: "u64 \<Rightarrow> u64 \<Rightarrow> c_string option list \<Rightarrow> writer" where
  "hpcrun_fmt_epochHdr_fwrite flags measurementGranularity args =
    ThrowIfError (fwrite_n HPCRUN_FMT_EpochTag) (\<lambda>nw.
    if nw \<noteq> length HPCRUN_FMT_EpochTag then fmt_fail
    else
    ThrowIfError (hpcfmt_int8_fwrite flags) (\<lambda>_.
    ThrowIfError (hpcfmt_int8_fwrite measurementGranularity) (\<lambda>_.
    ThrowIfError (hpcfmt_int4_fwrite 0) (\<lambda>_.
    ThrowIfError (hpcfmt_nvpairs_vfwrite args) (\<lambda>_.
    fmt_return ())))))"

section \<open>Metric descriptions\<close>

record metric_desc_t =
  metric_name :: "c_string option"
  metric_description :: "c_string option"
  metric_flags :: "byte list"
  metric_period :: u64
  metric_properties_time :: bool
  metric_properties_cycles :: bool
  metric_formula :: "c_string option"
  metric_format :: "c_string option"
  metric_is_frequency :: byte
  metric_is_multiplexed :: byte
  metric_threshold_mean :: u64
  metric_num_samples :: u64

definition flags_ty :: "byte list \<Rightarrow> byte" where
  "flags_ty bits = bits ! 0"

definition flags_valFmt :: "byte list \<Rightarrow> byte" where
  "flags_valFmt bits = bits ! 2"

definition flags_unused1 :: "byte list \<Rightarrow> u64" where
  "flags_unused1 bits = le_val (drop 8 bits)"

definition MetricFlags_Ty_Raw :: byte where "MetricFlags_Ty_Raw = 1"
definition MetricFlags_Ty_Final :: byte where "MetricFlags_Ty_Final = 2"
definition MetricFlags_ValFmt_Int :: byte where "MetricFlags_ValFmt_Int = 1"
definition MetricFlags_ValFmt_Real :: byte where "MetricFlags_ValFmt_Real = 2"

text \<open>
  The old flags are bit fields of a 64-bit word: four bits each for the type, the value type and the
  value format, 16 for the partner, one each for the display flags.
\<close>

definition flags_of_old :: "u64 \<Rightarrow> byte list" where
  "flags_of_old old =
    [ucast (old AND 0xf), ucast (drop_bit 4 old AND 0xf), ucast (drop_bit 8 old AND 0xf), 0]
    @ le_bytes 2 (ucast (drop_bit 12 old) :: u16)
    @ [ucast (drop_bit 28 old AND 1), ucast (drop_bit 29 old AND 1)]
    @ replicate 8 0"

definition metric_flags_fread :: "byte list reader" where
  "metric_flags_fread =
    ThrowIfError (hpcfmt_intX_fread (replicate 16 0)) (\<lambda>flags fs.
    if \<not> (flags_ty flags = MetricFlags_Ty_Raw \<or> flags_ty flags = MetricFlags_Ty_Final)
       \<or> flags_unused1 flags \<noteq> 0
    then (case fseek (- 16) SEEK_CUR fs of (_, fs) \<Rightarrow>
      ThrowIfError hpcfmt_int8_fread (\<lambda>old.
      ThrowIfError hpcfmt_int8_fread (\<lambda>_.
      fmt_return (flags_of_old old))) fs)
    else fmt_return flags fs)"

definition hpcrun_fmt_metricDesc_fread :: "alloc_fn \<Rightarrow> metric_desc_t reader" where
  "hpcrun_fmt_metricDesc_fread alloc =
    ThrowIfError (hpcfmt_str_fread alloc) (\<lambda>name.
    ThrowIfError (hpcfmt_str_fread alloc) (\<lambda>description.
    ThrowIfError metric_flags_fread (\<lambda>flags.
    ThrowIfError hpcfmt_int8_fread (\<lambda>period.
    ThrowIfError (hpcfmt_str_fread alloc) (\<lambda>formula.
    ThrowIfError (hpcfmt_str_fread alloc) (\<lambda>format.
    ThrowIfError hpcfmt_int2_fread (\<lambda>is_frequency_metric.
    ThrowIfError hpcfmt_int2_fread (\<lambda>is_multiplexed.
    ThrowIfError hpcfmt_real8_fread (\<lambda>threshold_mean.
    ThrowIfError hpcfmt_int8_fread (\<lambda>num_samples.
    fmt_return \<lparr> metric_name = Some name, metric_description = Some description,
      metric_flags = flags, metric_period = period,
      metric_properties_time = False, metric_properties_cycles = False,
      metric_formula = Some formula, metric_format = Some format,
      metric_is_frequency = ucast is_frequency_metric, metric_is_multiplexed = ucast is_multiplexed,
      metric_threshold_mean = threshold_mean, metric_num_samples = num_samples \<rparr>))))))))))"

definition hpcrun_fmt_metricDesc_fwrite :: "metric_desc_t \<Rightarrow> writer" where
  "hpcrun_fmt_metricDesc_fwrite x =
    ThrowIfError (hpcfmt_str_fwrite (metric_name x)) (\<lambda>_.
    ThrowIfError (hpcfmt_str_fwrite (metric_description x)) (\<lambda>_.
    ThrowIfError (hpcfmt_intX_fwrite (metric_flags x)) (\<lambda>_.
    ThrowIfError (hpcfmt_int8_fwrite (metric_period x)) (\<lambda>_.
    ThrowIfError (hpcfmt_str_fwrite (metric_formula x)) (\<lambda>_.
    ThrowIfError (hpcfmt_str_fwrite (metric_format x)) (\<lambda>_.
    ThrowIfError (hpcfmt_int2_fwrite (ucast (metric_is_frequency x))) (\<lambda>_.
    ThrowIfError (hpcfmt_int2_fwrite (ucast (metric_is_multiplexed x))) (\<lambda>_.
    ThrowIfError (hpcfmt_real8_fwrite (metric_threshold_mean x)) (\<lambda>_.
    ThrowIfError (hpcfmt_int8_fwrite (metric_num_samples x)) (\<lambda>_.
    fmt_return ()))))))))))"

text \<open>The elements of the metric table take 96 bytes each on the x86-64 ABI.\<close>

definition hpcrun_fmt_metricTbl_fread :: "alloc_fn \<Rightarrow> metric_desc_t list reader" where
  "hpcrun_fmt_metricTbl_fread alloc =
    ThrowIfError hpcfmt_int4_fread (\<lambda>len.
      if len = 0 \<or> alloc_ok alloc (unat len * 96)
      then read_n (unat len) (hpcrun_fmt_metricDesc_fread alloc)
      else fmt_undefined)"

fun hpcrun_fmt_metricTbl_fwrite :: "metric_desc_t list \<Rightarrow> writer" where
  "hpcrun_fmt_metricTbl_fwrite [] = fmt_return ()"
| "hpcrun_fmt_metricTbl_fwrite (x # xs) =
    ignoring (hpcrun_fmt_metricDesc_fwrite x) (\<lambda>_. hpcrun_fmt_metricTbl_fwrite xs)"

section \<open>Load map\<close>

record loadmap_entry_t =
  lm_id :: u16
  lm_name :: "c_string option"
  lm_flags :: u64

definition hpcrun_fmt_loadmapEntry_fread :: "alloc_fn \<Rightarrow> loadmap_entry_t reader" where
  "hpcrun_fmt_loadmapEntry_fread alloc =
    ThrowIfError hpcfmt_int2_fread (\<lambda>i.
    ThrowIfError (hpcfmt_str_fread alloc) (\<lambda>name.
    ThrowIfError hpcfmt_int8_fread (\<lambda>flags.
    fmt_return \<lparr> lm_id = i, lm_name = Some name, lm_flags = flags \<rparr>)))"

definition hpcrun_fmt_loadmapEntry_fwrite :: "loadmap_entry_t \<Rightarrow> writer" where
  "hpcrun_fmt_loadmapEntry_fwrite x =
    ThrowIfError (hpcfmt_int2_fwrite (lm_id x)) (\<lambda>_.
    ThrowIfError (hpcfmt_str_fwrite (lm_name x)) (\<lambda>_.
    ThrowIfError (hpcfmt_int8_fwrite (lm_flags x)) (\<lambda>_.
    fmt_return ())))"

text \<open>The entries take 24 bytes each on the x86-64 ABI; an end of file at the count is reported as such.\<close>

definition hpcrun_fmt_loadmap_fread :: "alloc_fn \<Rightarrow> loadmap_entry_t list reader" where
  "hpcrun_fmt_loadmap_fread alloc =
    ReturnIfError hpcfmt_int4_fread (\<lambda>len.
      if len = 0 \<or> alloc_ok alloc (unat len * 24)
      then read_n (unat len) (hpcrun_fmt_loadmapEntry_fread alloc)
      else fmt_undefined)"

definition hpcrun_fmt_loadmap_fwrite :: "loadmap_entry_t list \<Rightarrow> writer" where
  "hpcrun_fmt_loadmap_fwrite lst =
    ThrowIfError (hpcfmt_int4_fwrite (of_nat (length lst))) (\<lambda>_.
    write_all hpcrun_fmt_loadmapEntry_fwrite lst)"

section \<open>Calling context nodes\<close>

record hpcrun_fmt_cct_node_t =
  cct_id :: u32
  cct_id_parent :: u32
  cct_lm_id :: u16
  cct_lm_ip :: u64
  cct_unwound :: bool

definition HPCRUN_FMT_RetainIdFlag :: u32 where "HPCRUN_FMT_RetainIdFlag = 1"

definition hpcrun_fmt_doRetainId :: "u32 \<Rightarrow> bool" where
  "hpcrun_fmt_doRetainId i \<longleftrightarrow> i AND HPCRUN_FMT_RetainIdFlag \<noteq> 0"

definition hpcrun_fmt_cct_node_fread :: "hpcrun_fmt_cct_node_t reader" where
  "hpcrun_fmt_cct_node_fread =
    ThrowIfError hpcfmt_int4_fread (\<lambda>i.
    ThrowIfError hpcfmt_int4_fread (\<lambda>id_parent.
    ThrowIfError hpcfmt_int2_fread (\<lambda>lm_id.
    ThrowIfError hpcfmt_int8_fread (\<lambda>lm_ip.
    ThrowIfError (hpcfmt_fread 1) (\<lambda>cct_flags.
    fmt_return \<lparr> cct_id = i, cct_id_parent = id_parent, cct_lm_id = lm_id, cct_lm_ip = lm_ip,
                 cct_unwound = (hd cct_flags AND 1 \<noteq> 0) \<rparr>)))))"

definition hpcrun_fmt_cct_node_fwrite :: "hpcrun_fmt_cct_node_t \<Rightarrow> writer" where
  "hpcrun_fmt_cct_node_fwrite x =
    ThrowIfError (hpcfmt_int4_fwrite (cct_id x)) (\<lambda>_.
    ThrowIfError (hpcfmt_int4_fwrite (cct_id_parent x)) (\<lambda>_.
    ThrowIfError (hpcfmt_int2_fwrite (cct_lm_id x)) (\<lambda>_.
    ThrowIfError (hpcfmt_int8_fwrite (cct_lm_ip x)) (\<lambda>_.
    ThrowIfError (hpcfmt_fwrite [0 OR (if cct_unwound x then 1 else 0)]) (\<lambda>_.
    fmt_return ())))))"

section \<open>Dictionary of identifier kinds\<close>

record hpcrun_fmt_idtuple_dxnry_entry_t =
  dxnry_kind :: "u16 option"
  dxnry_kindStr :: "c_string option"

fun dxnry_entries_fread :: "alloc_fn \<Rightarrow> nat \<Rightarrow> hpcrun_fmt_idtuple_dxnry_entry_t list reader" where
  "dxnry_entries_fread alloc 0 = fmt_return []"
| "dxnry_entries_fread alloc (Suc n) =
    ignoring hpcfmt_int2_fread (\<lambda>kind.
    ignoring (hpcfmt_str_fread alloc) (\<lambda>kindStr.
    ThrowIfError (dxnry_entries_fread alloc n) (\<lambda>entries.
    fmt_return (\<lparr> dxnry_kind = kind, dxnry_kindStr = kindStr \<rparr> # entries))))"

definition hpcrun_fmt_idtuple_dxnry_fread ::
  "alloc_fn \<Rightarrow> hpcrun_fmt_idtuple_dxnry_entry_t list reader" where
  "hpcrun_fmt_idtuple_dxnry_fread alloc =
    ThrowIfError hpcfmt_int2_fread (\<lambda>num_entries.
      if num_entries = 0 \<or> alloc_ok alloc (unat num_entries * 16)
      then dxnry_entries_fread alloc (unat num_entries)
      else fmt_undefined)"

definition idtuple_kinds :: "(u16 \<times> c_string) list" where
  "idtuple_kinds =
    [(IDTUPLE_SUMMARY, str_lit ''SUMMARY''), (IDTUPLE_NODE, str_lit ''NODE''),
     (IDTUPLE_RANK, str_lit ''RANK''), (IDTUPLE_THREAD, str_lit ''THREAD''),
     (IDTUPLE_GPUDEVICE, str_lit ''GPUDEVICE''), (IDTUPLE_GPUCONTEXT, str_lit ''GPUCONTEXT''),
     (IDTUPLE_GPUSTREAM, str_lit ''GPUSTREAM''), (IDTUPLE_CORE, str_lit ''CORE'')]"

definition HPCRUN_IDTUPLE_COUNT :: u16 where "HPCRUN_IDTUPLE_COUNT = 8"

fun dxnry_entries_fwrite :: "(u16 \<times> c_string) list \<Rightarrow> writer" where
  "dxnry_entries_fwrite [] = fmt_return ()"
| "dxnry_entries_fwrite ((kind, kindStr) # ks) =
    ignoring (hpcfmt_int2_fwrite kind) (\<lambda>_.
    ignoring (hpcfmt_str_fwrite (Some kindStr)) (\<lambda>_.
    dxnry_entries_fwrite ks))"

definition hpcrun_fmt_idtuple_dxnry_fwrite :: writer where
  "hpcrun_fmt_idtuple_dxnry_fwrite =
    ThrowIfError (hpcfmt_int2_fwrite HPCRUN_IDTUPLE_COUNT) (\<lambda>_.
    dxnry_entries_fwrite idtuple_kinds)"

section \<open>Sparse metrics\<close>

text \<open>
  Values and metric identifiers are two arrays in the source, written and read in step; so are the
  context identifiers and indices. The second pair has one element more than \<open>num_nz_cct_nodes\<close>, a
  sum the source forms in 32 bits. The loop over the values has a 32-bit index that never reaches a count
  of \<open>2 ^ 32\<close> or more; such a count is \<open>HPCFMT_UB\<close> here.
\<close>

record hpcrun_fmt_sparse_metrics_t =
  sm_id_tuple :: id_tuple_t
  sm_num_vals :: u64
  sm_num_nz_cct_nodes :: u32
  sm_values :: "(u64 \<times> u16) list"
  sm_cct_nodes :: "(u32 \<times> u64) list"

definition val_mid_fread :: "(u64 \<times> u16) reader" where
  "val_mid_fread =
    ThrowIfError hpcfmt_int8_fread (\<lambda>bits.
    ThrowIfError hpcfmt_int2_fread (\<lambda>mid.
    fmt_return (bits, mid)))"

definition val_mid_fwrite :: "u64 \<times> u16 \<Rightarrow> writer" where
  "val_mid_fwrite x =
    ThrowIfError (hpcfmt_int8_fwrite (fst x)) (\<lambda>_.
    ThrowIfError (hpcfmt_int2_fwrite (snd x)) (\<lambda>_.
    fmt_return ()))"

definition id_idx_fread :: "(u32 \<times> u64) reader" where
  "id_idx_fread =
    ThrowIfError hpcfmt_int4_fread (\<lambda>cct_node_id.
    ThrowIfError hpcfmt_int8_fread (\<lambda>cct_node_idx.
    fmt_return (cct_node_id, cct_node_idx)))"

definition id_idx_fwrite :: "u32 \<times> u64 \<Rightarrow> writer" where
  "id_idx_fwrite x =
    ThrowIfError (hpcfmt_int4_fwrite (fst x)) (\<lambda>_.
    ThrowIfError (hpcfmt_int8_fwrite (snd x)) (\<lambda>_.
    fmt_return ()))"

definition hpcrun_fmt_sparse_metrics_fread :: "u16 \<Rightarrow> hpcrun_fmt_sparse_metrics_t reader" where
  "hpcrun_fmt_sparse_metrics_fread ids_length =
    ThrowIfError (id_tuple_fread ids_length) (\<lambda>id_tuple.
    ThrowIfError hpcfmt_int8_fread (\<lambda>num_vals.
    ThrowIfError hpcfmt_int4_fread (\<lambda>num_nz_cct_nodes.
    ThrowIfError (if unat num_vals < 2 ^ 32 then read_n (unat num_vals) val_mid_fread
                  else fmt_undefined) (\<lambda>vals.
    ThrowIfError (read_n (unat (num_nz_cct_nodes + 1)) id_idx_fread) (\<lambda>cct_nodes.
    fmt_return \<lparr> sm_id_tuple = id_tuple, sm_num_vals = num_vals,
                 sm_num_nz_cct_nodes = num_nz_cct_nodes,
                 sm_values = vals, sm_cct_nodes = cct_nodes \<rparr>)))))"

definition hpcrun_fmt_sparse_metrics_fwrite :: "hpcrun_fmt_sparse_metrics_t \<Rightarrow> writer" where
  "hpcrun_fmt_sparse_metrics_fwrite x =
    ThrowIfError (id_tuple_fwrite (sm_id_tuple x)) (\<lambda>_.
    ThrowIfError (hpcfmt_int8_fwrite (sm_num_vals x)) (\<lambda>_.
    ThrowIfError (hpcfmt_int4_fwrite (sm_num_nz_cct_nodes x)) (\<lambda>_.
    if unat (sm_num_vals x) \<le> length (sm_values x) \<and> unat (sm_num_vals x) < 2 ^ 32
       \<and> unat (sm_num_nz_cct_nodes x + 1) \<le> length (sm_cct_nodes x) then
    ThrowIfError (write_all val_mid_fwrite (take (unat (sm_num_vals x)) (sm_values x))) (\<lambda>_.
    ThrowIfError (write_all id_idx_fwrite
                   (take (unat (sm_num_nz_cct_nodes x + 1)) (sm_cct_nodes x))) (\<lambda>_.
    fmt_return ()))
    else fmt_undefined)))"

section \<open>Footer\<close>

record hpcrun_fmt_footer_t =
  footer_hdr_start :: u64
  footer_hdr_end :: u64
  footer_loadmap_start :: u64
  footer_loadmap_end :: u64
  footer_cct_start :: u64
  footer_cct_end :: u64
  footer_met_tbl_start :: u64
  footer_met_tbl_end :: u64
  footer_idtpl_dxnry_start :: u64
  footer_idtpl_dxnry_end :: u64
  footer_sm_start :: u64
  footer_sm_end :: u64
  footer_footer_start :: u64
  footer_HPCRUNsm :: u64

definition hpcrun_fmt_footer_fwrite :: "hpcrun_fmt_footer_t \<Rightarrow> writer" where
  "hpcrun_fmt_footer_fwrite x =
    ThrowIfError (hpcfmt_int8_fwrite (footer_hdr_start x)) (\<lambda>_.
    ThrowIfError (hpcfmt_int8_fwrite (footer_hdr_end x)) (\<lambda>_.
    ThrowIfError (hpcfmt_int8_fwrite (footer_loadmap_start x)) (\<lambda>_.
    ThrowIfError (hpcfmt_int8_fwrite (footer_loadmap_end x)) (\<lambda>_.
    ThrowIfError (hpcfmt_int8_fwrite (footer_cct_start x)) (\<lambda>_.
    ThrowIfError (hpcfmt_int8_fwrite (footer_cct_end x)) (\<lambda>_.
    ThrowIfError (hpcfmt_int8_fwrite (footer_met_tbl_start x)) (\<lambda>_.
    ThrowIfError (hpcfmt_int8_fwrite (footer_met_tbl_end x)) (\<lambda>_.
    ThrowIfError (hpcfmt_int8_fwrite (footer_idtpl_dxnry_start x)) (\<lambda>_.
    ThrowIfError (hpcfmt_int8_fwrite (footer_idtpl_dxnry_end x)) (\<lambda>_.
    ThrowIfError (hpcfmt_int8_fwrite (footer_sm_start x)) (\<lambda>_.
    ThrowIfError (hpcfmt_int8_fwrite (footer_sm_end x)) (\<lambda>_.
    ThrowIfError (hpcfmt_int8_fwrite (footer_footer_start x)) (\<lambda>_.
    ThrowIfError (hpcfmt_int8_fwrite (footer_HPCRUNsm x)) (\<lambda>_.
    fmt_return ()))))))))))))))"

definition hpcrun_fmt_footer_fread :: "hpcrun_fmt_footer_t reader" where
  "hpcrun_fmt_footer_fread =
    ThrowIfError hpcfmt_int8_fread (\<lambda>hdr_start.
    ThrowIfError hpcfmt_int8_fread (\<lambda>hdr_end.
    ThrowIfError hpcfmt_int8_fread (\<lambda>loadmap_start.
    ThrowIfError hpcfmt_int8_fread (\<lambda>loadmap_end.
    ThrowIfError hpcfmt_int8_fread (\<lambda>cct_start.
    ThrowIfError hpcfmt_int8_fread (\<lambda>cct_end.
    ThrowIfError hpcfmt_int8_fread (\<lambda>met_tbl_start.
    ThrowIfError hpcfmt_int8_fread (\<lambda>met_tbl_end.
    ThrowIfError hpcfmt_int8_fread (\<lambda>idtpl_dxnry_start.
    ThrowIfError hpcfmt_int8_fread (\<lambda>idtpl_dxnry_end.
    ThrowIfError hpcfmt_int8_fread (\<lambda>sm_start.
    ThrowIfError hpcfmt_int8_fread (\<lambda>sm_end.
    ThrowIfError hpcfmt_int8_fread (\<lambda>footer_start.
    ThrowIfError hpcfmt_int8_fread (\<lambda>magic.
    if magic \<noteq> HPCRUNsm then fmt_fail
    else fmt_return \<lparr> footer_hdr_start = hdr_start, footer_hdr_end = hdr_end,
      footer_loadmap_start = loadmap_start, footer_loadmap_end = loadmap_end,
      footer_cct_start = cct_start, footer_cct_end = cct_end,
      footer_met_tbl_start = met_tbl_start, footer_met_tbl_end = met_tbl_end,
      footer_idtpl_dxnry_start = idtpl_dxnry_start, footer_idtpl_dxnry_end = idtpl_dxnry_end,
      footer_sm_start = sm_start, footer_sm_end = sm_end,
      footer_footer_start = footer_start, footer_HPCRUNsm = magic \<rparr>))))))))))))))"

section \<open>Traces\<close>

record hpctrace_fmt_hdr_t =
  trace_versionStr :: c_string
  trace_version :: rat
  trace_endian :: byte
  trace_flags :: u64

definition HPCTRACE_HDR_FLAGS_GET_BIT :: "u64 \<Rightarrow> nat \<Rightarrow> bool" where
  "HPCTRACE_HDR_FLAGS_GET_BIT flag pos \<longleftrightarrow> drop_bit pos flag AND 1 \<noteq> 0"

definition HPCTRACE_HDR_FLAGS_SET_BIT :: "u64 \<Rightarrow> nat \<Rightarrow> u64 \<Rightarrow> u64" where
  "HPCTRACE_HDR_FLAGS_SET_BIT flag pos val = flag XOR ((- val XOR flag) AND push_bit pos 1)"

abbreviation data_centric :: "u64 \<Rightarrow> bool" where
  "data_centric flags \<equiv> HPCTRACE_HDR_FLAGS_GET_BIT flags 0"

definition hpctrace_fmt_hdr_fread :: "hpctrace_fmt_hdr_t reader" where
  "hpctrace_fmt_hdr_fread =
    ThrowIfError (fread_n (length HPCTRACE_FMT_Magic)) (\<lambda>tag.
    if length tag \<noteq> length HPCTRACE_FMT_Magic then fmt_fail
    else if c_str tag \<noteq> c_str HPCTRACE_FMT_Magic then fmt_fail
    else
    ThrowIfError (fread_n (length HPCTRACE_FMT_Version)) (\<lambda>versionStr.
    if length versionStr \<noteq> length HPCTRACE_FMT_Version then fmt_fail
    else let version = atof versionStr in
    ThrowIfError (fread_n (length HPCTRACE_FMT_Endian)) (\<lambda>endian.
    if length endian \<noteq> length HPCTRACE_FMT_Endian then fmt_fail
    else
    ThrowIfError (if version > 1 then hpcfmt_int8_fread else fmt_return 0) (\<lambda>flags.
    fmt_return \<lparr> trace_versionStr = versionStr, trace_version = version, trace_endian = hd endian,
                 trace_flags = flags \<rparr>))))"

definition hpctrace_fmt_hdr_fwrite :: "u64 \<Rightarrow> writer" where
  "hpctrace_fmt_hdr_fwrite flags =
    ThrowIfError (fwrite_n HPCTRACE_FMT_Magic) (\<lambda>nw.
    if nw \<noteq> length HPCTRACE_FMT_Magic then fmt_fail else
    ThrowIfError (fwrite_n HPCTRACE_FMT_Version) (\<lambda>nw.
    if nw \<noteq> length HPCTRACE_FMT_Version then fmt_fail else
    ThrowIfError (fwrite_n HPCTRACE_FMT_Endian) (\<lambda>nw.
    if nw \<noteq> length HPCTRACE_FMT_Endian then fmt_fail else
    ThrowIfError (hpcfmt_int8_fwrite flags) (\<lambda>_.
    fmt_return ()))))"

record hpctrace_fmt_datum_t =
  datum_comp :: u64
  datum_cpId :: u32
  datum_metricId :: u32

definition hpctrace_fmt_datum_fread :: "u64 \<Rightarrow> hpctrace_fmt_datum_t reader" where
  "hpctrace_fmt_datum_fread flags =
    ReturnIfError hpcfmt_int8_fread (\<lambda>comp.
    ThrowIfError hpcfmt_int4_fread (\<lambda>cpId.
    ThrowIfError (if data_centric flags then hpcfmt_int4_fread
                  else fmt_return HPCTRACE_FMT_MetricId_NULL) (\<lambda>metricId.
    fmt_return \<lparr> datum_comp = comp, datum_cpId = cpId, datum_metricId = metricId \<rparr>)))"

definition hpctrace_fmt_datum_fwrite :: "u64 \<Rightarrow> hpctrace_fmt_datum_t \<Rightarrow> writer" where
  "hpctrace_fmt_datum_fwrite flags x =
    ThrowIfError (hpcfmt_int8_fwrite (datum_comp x)) (\<lambda>_.
    ThrowIfError (hpcfmt_int4_fwrite (datum_cpId x)) (\<lambda>_.
    ThrowIfError (if data_centric flags then hpcfmt_int4_fwrite (datum_metricId x)
                  else fmt_return ()) (\<lambda>_.
    fmt_return ())))"

definition hpctrace_fmt_datum_swrite :: "u64 \<Rightarrow> hpctrace_fmt_datum_t \<Rightarrow> byte list" where
  "hpctrace_fmt_datum_swrite flags x =
    hpcfmt_int8_swrite (datum_comp x) @ hpcfmt_int4_swrite (datum_cpId x)
    @ (if data_centric flags then hpcfmt_int4_swrite (datum_metricId x) else [])"

section \<open>Metric database header\<close>

text \<open>
  The reader puts the version and the byte order into locals and converts the version from the
  structure's own, unset string: the version of the result is whatever was in the structure.
\<close>

record hpcmetricDB_fmt_hdr_t =
  mdb_versionStr :: c_string
  mdb_version :: rat
  mdb_numNodes :: u32
  mdb_numMetrics :: u32

definition hpcmetricDB_fmt_hdr_fread :: "hpcmetricDB_fmt_hdr_t \<Rightarrow> hpcmetricDB_fmt_hdr_t reader" where
  "hpcmetricDB_fmt_hdr_fread hdr =
    ThrowIfError (fread_n (length HPCMETRICDB_FMT_Magic)) (\<lambda>tag.
    if length tag \<noteq> length HPCMETRICDB_FMT_Magic then fmt_fail
    else if c_str tag \<noteq> c_str HPCMETRICDB_FMT_Magic then fmt_fail
    else
    ThrowIfError (fread_n (length HPCMETRICDB_FMT_Version)) (\<lambda>version.
    if length version \<noteq> length HPCMETRICDB_FMT_Version then fmt_fail
    else
    ThrowIfError (fread_n (length HPCMETRICDB_FMT_Endian)) (\<lambda>endian.
    if length endian \<noteq> length HPCMETRICDB_FMT_Endian then fmt_fail
    else
    ThrowIfError hpcfmt_int4_fread (\<lambda>numNodes.
    ThrowIfError hpcfmt_int4_fread (\<lambda>numMetrics.
    fmt_return (hdr\<lparr> mdb_version := atof (mdb_versionStr hdr),
                     mdb_numNodes := numNodes, mdb_numMetrics := numMetrics \<rparr>))))))"

definition hpcmetricDB_fmt_hdr_fwrite :: "hpcmetricDB_fmt_hdr_t \<Rightarrow> writer" where
  "hpcmetricDB_fmt_hdr_fwrite hdr =
    ThrowIfError (fwrite_n HPCMETRICDB_FMT_Magic) (\<lambda>nw.
    if nw \<noteq> length HPCTRACE_FMT_Magic then fmt_fail else
    ThrowIfError (fwrite_n HPCMETRICDB_FMT_Version) (\<lambda>nw.
    if nw \<noteq> length HPCMETRICDB_FMT_Version then fmt_fail else
    ThrowIfError (fwrite_n HPCMETRICDB_FMT_Endian) (\<lambda>nw.
    if nw \<noteq> length HPCMETRICDB_FMT_Endian then fmt_fail else
    ThrowIfError (hpcfmt_int4_fwrite (mdb_numNodes hdr)) (\<lambda>_.
    ThrowIfError (hpcfmt_int4_fwrite (mdb_numMetrics hdr)) (\<lambda>_.
    fmt_return ())))))"

section \<open>The contracts\<close>

lemma hpcfmt_fread_parses: "length bs = n \<Longrightarrow> parses (hpcfmt_fread n) bs bs"
  by (auto simp: parses_def hpcfmt_fread_def fread_ahead)

lemma hpcfmt_fread_strict: "length bs = n \<Longrightarrow> strict (hpcfmt_fread n) bs"
  unfolding strict_def
proof (intro allI impI)
  fix fs k assume "length bs = n" and k: "ahead fs = take k bs \<and> k < length bs"
  then have "fst (fread n fs) = ahead fs" by (intro fread_short) simp
  with k \<open>length bs = n\<close> show "fst (hpcfmt_fread n fs) = HPCFMT_ERR \<or>
      fst (hpcfmt_fread n fs) = HPCFMT_EOF"
    by (cases "fread n fs") (simp add: hpcfmt_fread_def)
qed

lemma hpcfmt_fwrite_emits: "emits (hpcfmt_fwrite bs) bs"
  by (simp add: emits_def hpcfmt_fwrite_def fwrite_room)

subsection \<open>Load map entries\<close>

definition enc_loadmapEntry :: "loadmap_entry_t \<Rightarrow> byte list" where
  "enc_loadmapEntry x = enc_int2 (lm_id x) @ enc_str (lm_name x) @ enc_int8 (lm_flags x) @ []"

definition loadmapEntry_img :: "loadmap_entry_t \<Rightarrow> loadmap_entry_t" where
  "loadmapEntry_img x = x\<lparr> lm_name := Some (hpcfmt_str_ensure (lm_name x)) \<rparr>"

interpretation loadmapEntry: strict_codec hpcrun_fmt_loadmapEntry_fwrite
  "hpcrun_fmt_loadmapEntry_fread malloc" enc_loadmapEntry loadmapEntry_img "\<lambda>x. valid_str (lm_name x)"
proof (unfold_locales, goal_cases)
  case (1 x)
  then show ?case unfolding hpcrun_fmt_loadmapEntry_fwrite_def enc_loadmapEntry_def
    by - (rule int_write_rules TrueI | assumption)+
next
  case (2 x)
  then show ?case unfolding hpcrun_fmt_loadmapEntry_fread_def enc_loadmapEntry_def
    by - (rule parses_value, (rule int_rules TrueI | assumption)+, simp add: loadmapEntry_img_def)
next
  case (3 x)
  then show ?case unfolding hpcrun_fmt_loadmapEntry_fread_def enc_loadmapEntry_def
    by - (rule int_strict_rules int_rules TrueI | assumption)+
qed

definition enc_loadmap :: "loadmap_entry_t list \<Rightarrow> byte list" where
  "enc_loadmap xs = enc_int4 (of_nat (length xs)) @ concat (map enc_loadmapEntry xs)"

definition valid_loadmap :: "loadmap_entry_t list \<Rightarrow> bool" where
  "valid_loadmap xs \<longleftrightarrow> list_all (\<lambda>x. valid_str (lm_name x)) xs \<and> length xs < 2 ^ 31"

lemma loadmap_count:
  "valid_loadmap xs \<Longrightarrow> unat (of_nat (length xs) :: u32) = length xs"
  by (simp add: valid_loadmap_def unat_len)

interpretation loadmap: strict_codec hpcrun_fmt_loadmap_fwrite "hpcrun_fmt_loadmap_fread malloc"
  enc_loadmap "map loadmapEntry_img" valid_loadmap
proof (unfold_locales, goal_cases)
  case (1 xs)
  then show ?case unfolding hpcrun_fmt_loadmap_fwrite_def enc_loadmap_def
    by (intro emits_throw int4.wr_emits TrueI loadmapEntry.emits_write_all)
      (simp add: valid_loadmap_def)
next
  case (2 xs)
  then show ?case unfolding hpcrun_fmt_loadmap_fread_def enc_loadmap_def
    by (intro parses_return_if [OF int4.rd_parses])
      (simp_all add: loadmap_count loadmapEntry.parses_read_n valid_loadmap_def unat_len)
next
  case (3 xs)
  then show ?case unfolding hpcrun_fmt_loadmap_fread_def enc_loadmap_def
    by (intro strict_return_if [OF int4.rd_parses int4.rd_strict])
      (simp_all add: loadmap_count loadmapEntry.strict_read_n valid_loadmap_def unat_len)
qed

subsection \<open>Calling context nodes\<close>

definition enc_cct_node :: "hpcrun_fmt_cct_node_t \<Rightarrow> byte list" where
  "enc_cct_node x = enc_int4 (cct_id x) @ enc_int4 (cct_id_parent x) @ enc_int2 (cct_lm_id x)
     @ enc_int8 (cct_lm_ip x) @ [if cct_unwound x then 1 else 0] @ []"

lemma length_enc_cct_node: "length (enc_cct_node x) = 19"
  by (simp add: enc_cct_node_def)

interpretation cct_node: strict_codec hpcrun_fmt_cct_node_fwrite hpcrun_fmt_cct_node_fread
  enc_cct_node "\<lambda>x. x" "\<lambda>_. True"
proof (unfold_locales, goal_cases)
  case (1 x)
  show ?case unfolding hpcrun_fmt_cct_node_fwrite_def enc_cct_node_def or.left_neutral
    by (rule int_write_rules TrueI hpcfmt_fwrite_emits)+
next
  case (2 x)
  show ?case unfolding hpcrun_fmt_cct_node_fread_def enc_cct_node_def
    by (rule parses_value, (rule int_rules TrueI hpcfmt_fread_parses | simp)+)
next
  case (3 x)
  show ?case unfolding hpcrun_fmt_cct_node_fread_def enc_cct_node_def
    by (rule int_strict_rules int_rules TrueI hpcfmt_fread_parses hpcfmt_fread_strict | simp)+
qed

subsection \<open>Footer\<close>

definition enc_footer :: "hpcrun_fmt_footer_t \<Rightarrow> byte list" where
  "enc_footer x = enc_int8 (footer_hdr_start x) @ enc_int8 (footer_hdr_end x)
     @ enc_int8 (footer_loadmap_start x) @ enc_int8 (footer_loadmap_end x)
     @ enc_int8 (footer_cct_start x) @ enc_int8 (footer_cct_end x)
     @ enc_int8 (footer_met_tbl_start x) @ enc_int8 (footer_met_tbl_end x)
     @ enc_int8 (footer_idtpl_dxnry_start x) @ enc_int8 (footer_idtpl_dxnry_end x)
     @ enc_int8 (footer_sm_start x) @ enc_int8 (footer_sm_end x)
     @ enc_int8 (footer_footer_start x) @ enc_int8 (footer_HPCRUNsm x) @ []"

lemma length_enc_footer: "length (enc_footer x) = 112"
  by (simp add: enc_footer_def)

interpretation footer: strict_codec hpcrun_fmt_footer_fwrite hpcrun_fmt_footer_fread enc_footer
  "\<lambda>x. x" "\<lambda>x. footer_HPCRUNsm x = HPCRUNsm"
proof (unfold_locales, goal_cases)
  case (1 x)
  show ?case unfolding hpcrun_fmt_footer_fwrite_def enc_footer_def
    by (rule int_write_rules TrueI)+
next
  case (2 x)
  then show ?case unfolding hpcrun_fmt_footer_fread_def enc_footer_def
    by - (rule parses_value, (rule int_rules TrueI | simp)+)
next
  case (3 x)
  then show ?case unfolding hpcrun_fmt_footer_fread_def enc_footer_def
    by - (rule int_strict_rules int_rules TrueI)+
qed

subsection \<open>Sparse metrics\<close>

definition enc_val_mid :: "u64 \<times> u16 \<Rightarrow> byte list" where
  "enc_val_mid x = enc_int8 (fst x) @ enc_int2 (snd x) @ []"

definition enc_id_idx :: "u32 \<times> u64 \<Rightarrow> byte list" where
  "enc_id_idx x = enc_int4 (fst x) @ enc_int8 (snd x) @ []"

interpretation val_mid: strict_codec val_mid_fwrite val_mid_fread enc_val_mid "\<lambda>x. x" "\<lambda>_. True"
proof (unfold_locales, goal_cases)
  case (1 x)
  show ?case unfolding val_mid_fwrite_def enc_val_mid_def by (rule int_write_rules TrueI)+
next
  case (2 x)
  show ?case unfolding val_mid_fread_def enc_val_mid_def
    by (rule parses_value, (rule int_rules TrueI)+, simp)
next
  case (3 x)
  show ?case unfolding val_mid_fread_def enc_val_mid_def by (rule int_strict_rules int_rules TrueI)+
qed

interpretation id_idx: strict_codec id_idx_fwrite id_idx_fread enc_id_idx "\<lambda>x. x" "\<lambda>_. True"
proof (unfold_locales, goal_cases)
  case (1 x)
  show ?case unfolding id_idx_fwrite_def enc_id_idx_def by (rule int_write_rules TrueI)+
next
  case (2 x)
  show ?case unfolding id_idx_fread_def enc_id_idx_def
    by (rule parses_value, (rule int_rules TrueI)+, simp)
next
  case (3 x)
  show ?case unfolding id_idx_fread_def enc_id_idx_def by (rule int_strict_rules int_rules TrueI)+
qed

text \<open>The invariant of a sparse metrics block: the counts are those of the arrays.\<close>

definition valid_sm :: "hpcrun_fmt_sparse_metrics_t \<Rightarrow> bool" where
  "valid_sm x \<longleftrightarrow> unat (tuple_length (sm_id_tuple x)) \<le> length (tuple_ids (sm_id_tuple x))
     \<and> length (sm_values x) = unat (sm_num_vals x) \<and> unat (sm_num_vals x) < 2 ^ 32
     \<and> length (sm_cct_nodes x) = unat (sm_num_nz_cct_nodes x + 1)"

definition enc_sm :: "hpcrun_fmt_sparse_metrics_t \<Rightarrow> byte list" where
  "enc_sm x = enc_id_tuple (sm_id_tuple x) @ enc_int8 (sm_num_vals x)
     @ enc_int4 (sm_num_nz_cct_nodes x) @ concat (map enc_val_mid (sm_values x))
     @ concat (map enc_id_idx (sm_cct_nodes x)) @ []"

definition sm_img :: "u16 \<Rightarrow> hpcrun_fmt_sparse_metrics_t \<Rightarrow> hpcrun_fmt_sparse_metrics_t" where
  "sm_img n x = x\<lparr> sm_id_tuple := (sm_id_tuple x)\<lparr> tuple_ids_length := n,
     tuple_ids := id_tuple_used (sm_id_tuple x) \<rparr> \<rparr>"

lemma sm_arrays:
  assumes "valid_sm x"
  shows "parses (read_n (unat (sm_num_vals x)) val_mid_fread)
      (concat (map enc_val_mid (sm_values x))) (sm_values x)"
    and "strict (read_n (unat (sm_num_vals x)) val_mid_fread) (concat (map enc_val_mid (sm_values x)))"
    and "parses (read_n (unat (sm_num_nz_cct_nodes x + 1)) id_idx_fread)
      (concat (map enc_id_idx (sm_cct_nodes x))) (sm_cct_nodes x)"
    and "strict (read_n (unat (sm_num_nz_cct_nodes x + 1)) id_idx_fread)
      (concat (map enc_id_idx (sm_cct_nodes x)))"
  using val_mid.parses_read_n [of "sm_values x"] val_mid.strict_read_n [of "sm_values x"]
    id_idx.parses_read_n [of "sm_cct_nodes x"] id_idx.strict_read_n [of "sm_cct_nodes x"] assms
  by (simp_all add: valid_sm_def list_all_iff)

interpretation sm: strict_codec hpcrun_fmt_sparse_metrics_fwrite "hpcrun_fmt_sparse_metrics_fread n"
  enc_sm "sm_img n" valid_sm for n
proof (unfold_locales, goal_cases)
  case (1 x)
  have "emits (ThrowIfError (write_all val_mid_fwrite (sm_values x)) (\<lambda>_.
      ThrowIfError (write_all id_idx_fwrite (sm_cct_nodes x)) (\<lambda>_. fmt_return ())))
    (concat (map enc_val_mid (sm_values x)) @ concat (map enc_id_idx (sm_cct_nodes x)) @ [])"
    by (intro emits_throw emits_return val_mid.emits_write_all id_idx.emits_write_all)
      (simp_all add: list_all_iff)
  then show ?case
    using 1 unfolding hpcrun_fmt_sparse_metrics_fwrite_def enc_sm_def
    by (intro emits_throw id_tuple.wr_emits int8.wr_emits int4.wr_emits TrueI)
      (simp_all add: valid_sm_def)
next
  case (2 x)
  then have "unat (tuple_length (sm_id_tuple x)) \<le> length (tuple_ids (sm_id_tuple x))"
    "unat (sm_num_vals x) < 2 ^ 32" by (simp_all add: valid_sm_def)
  with 2 show ?case unfolding hpcrun_fmt_sparse_metrics_fread_def enc_sm_def
    by - (rule parses_value, (rule int_rules id_tuple.rd_parses parses_if sm_arrays TrueI | assumption)+,
      simp add: sm_img_def)
next
  case (3 x)
  then have "unat (tuple_length (sm_id_tuple x)) \<le> length (tuple_ids (sm_id_tuple x))"
    "unat (sm_num_vals x) < 2 ^ 32" by (simp_all add: valid_sm_def)
  with 3 show ?case unfolding hpcrun_fmt_sparse_metrics_fread_def enc_sm_def
    by - (rule int_strict_rules int_rules id_tuple.rd_parses id_tuple.rd_strict parses_if strict_if
        sm_arrays TrueI | assumption)+
qed

subsection \<open>Metric descriptions\<close>

definition valid_flags :: "byte list \<Rightarrow> bool" where
  "valid_flags flags \<longleftrightarrow> length flags = 16
     \<and> (flags_ty flags = MetricFlags_Ty_Raw \<or> flags_ty flags = MetricFlags_Ty_Final)
     \<and> flags_unused1 flags = 0"

lemma metric_flags_codec:
  assumes "valid_flags flags"
  shows "emits (hpcfmt_intX_fwrite flags) flags"
    and "parses metric_flags_fread flags flags"
    and "strict metric_flags_fread flags"
proof -
  let ?k = "\<lambda>flags fs.
    if \<not> (flags_ty flags = MetricFlags_Ty_Raw \<or> flags_ty flags = MetricFlags_Ty_Final)
       \<or> flags_unused1 flags \<noteq> 0
    then (case fseek (- 16) SEEK_CUR fs of (_, fs) \<Rightarrow>
      ThrowIfError hpcfmt_int8_fread (\<lambda>old.
      ThrowIfError hpcfmt_int8_fread (\<lambda>_.
      fmt_return (flags_of_old old))) fs)
    else fmt_return flags fs"
  have X: "parses (hpcfmt_intX_fread (replicate 16 0)) flags flags"
    "strict (hpcfmt_intX_fread (replicate 16 0)) flags"
    using assms by (auto simp: valid_flags_def intro!: intX_parses intX_strict)
  have "parses (?k flags) [] flags"
    using assms by (auto simp: parses_def valid_flags_def fmt_return_def)
  from parses_throw [where k = ?k, OF X(1) this] show "parses metric_flags_fread flags flags"
    by (simp add: metric_flags_fread_def)
  from strict_throw [where k = ?k, OF X strict_Nil] show "strict metric_flags_fread flags"
    by (simp add: metric_flags_fread_def)
  show "emits (hpcfmt_intX_fwrite flags) flags"
    using assms by (auto simp: valid_flags_def intro!: intX_emits)
qed

definition valid_metricDesc :: "metric_desc_t \<Rightarrow> bool" where
  "valid_metricDesc x \<longleftrightarrow> valid_str (metric_name x) \<and> valid_str (metric_description x)
     \<and> valid_flags (metric_flags x) \<and> valid_str (metric_formula x) \<and> valid_str (metric_format x)"

definition enc_metricDesc :: "metric_desc_t \<Rightarrow> byte list" where
  "enc_metricDesc x = enc_str (metric_name x) @ enc_str (metric_description x) @ metric_flags x
     @ enc_int8 (metric_period x) @ enc_str (metric_formula x) @ enc_str (metric_format x)
     @ enc_int2 (ucast (metric_is_frequency x)) @ enc_int2 (ucast (metric_is_multiplexed x))
     @ enc_int8 (metric_threshold_mean x) @ enc_int8 (metric_num_samples x) @ []"

text \<open>What is read back: null strings as empty ones, and the two properties cleared.\<close>

definition metricDesc_img :: "metric_desc_t \<Rightarrow> metric_desc_t" where
  "metricDesc_img x = x\<lparr>
     metric_name := Some (hpcfmt_str_ensure (metric_name x)),
     metric_description := Some (hpcfmt_str_ensure (metric_description x)),
     metric_formula := Some (hpcfmt_str_ensure (metric_formula x)),
     metric_format := Some (hpcfmt_str_ensure (metric_format x)),
     metric_properties_time := False, metric_properties_cycles := False \<rparr>"

lemma ucast_byte_u16: "ucast (ucast (b :: byte) :: u16) = b"
  by (rule bit_word_eqI) (auto simp: bit_simps)

interpretation metricDesc: strict_codec hpcrun_fmt_metricDesc_fwrite
  "hpcrun_fmt_metricDesc_fread malloc" enc_metricDesc metricDesc_img valid_metricDesc
proof (unfold_locales, goal_cases)
  case (1 x)
  then show ?case unfolding valid_metricDesc_def hpcrun_fmt_metricDesc_fwrite_def enc_metricDesc_def
    by - ((elim conjE)?, (rule int_write_rules metric_flags_codec TrueI | assumption)+)
next
  case (2 x)
  then show ?case unfolding valid_metricDesc_def hpcrun_fmt_metricDesc_fread_def enc_metricDesc_def
    by - ((elim conjE)?, rule parses_value, (rule int_rules metric_flags_codec TrueI | assumption)+,
      simp add: metricDesc_img_def ucast_byte_u16)
next
  case (3 x)
  then show ?case unfolding valid_metricDesc_def hpcrun_fmt_metricDesc_fread_def enc_metricDesc_def
    by - ((elim conjE)?, (rule int_strict_rules int_rules metric_flags_codec TrueI | assumption)+)
qed

lemma metricTbl_emits:
  "list_all valid_metricDesc xs \<Longrightarrow>
   emits (hpcrun_fmt_metricTbl_fwrite xs) (concat (map enc_metricDesc xs))"
  by (induction xs) (auto intro: emits_intros intro!: emits_ignoring metricDesc.wr_emits)

text \<open>The writer of \<open>write_data.c\<close> puts the count in front of the table.\<close>

interpretation metricTbl: strict_codec
  "\<lambda>xs. ignoring (hpcfmt_int4_fwrite (of_nat (length xs))) (\<lambda>_. hpcrun_fmt_metricTbl_fwrite xs)"
  "hpcrun_fmt_metricTbl_fread malloc"
  "\<lambda>xs. enc_int4 (of_nat (length xs)) @ concat (map enc_metricDesc xs)"
  "map metricDesc_img" "\<lambda>xs. list_all valid_metricDesc xs \<and> length xs < 2 ^ 31"
proof (unfold_locales, goal_cases)
  case (1 xs)
  then show ?case by (intro emits_ignoring int4.wr_emits TrueI metricTbl_emits) simp
next
  case (2 xs)
  then show ?case unfolding hpcrun_fmt_metricTbl_fread_def
    by (intro parses_throw [OF int4.rd_parses]) (simp_all add: metricDesc.parses_read_n unat_len)
next
  case (3 xs)
  then show ?case unfolding hpcrun_fmt_metricTbl_fread_def
    by (intro strict_throw [OF int4.rd_parses int4.rd_strict])
      (simp_all add: metricDesc.strict_read_n unat_len)
qed

subsection \<open>Headers\<close>

lemma tag_lengths [simp]:
  "length HPCRUN_FMT_Magic = 18" "length HPCRUN_FMT_Version = 5" "length HPCRUN_FMT_Endian = 1"
  "length HPCRUN_FMT_EpochTag = 8"
  "length HPCTRACE_FMT_Magic = 18" "length HPCTRACE_FMT_Version = 5" "length HPCTRACE_FMT_Endian = 1"
  "length HPCMETRICDB_FMT_Magic = 18" "length HPCMETRICDB_FMT_Version = 5"
  "length HPCMETRICDB_FMT_Endian = 1"
  by (simp_all add: HPCRUN_FMT_Magic_def HPCRUN_FMT_Version_def HPCRUN_FMT_Endian_def
      HPCRUN_FMT_EpochTag_def HPCTRACE_FMT_Magic_def HPCTRACE_FMT_Version_def HPCTRACE_FMT_Endian_def
      HPCMETRICDB_FMT_Magic_def HPCMETRICDB_FMT_Version_def HPCMETRICDB_FMT_Endian_def str_lit_def)

definition enc_hdr :: "(c_string \<times> c_string) list \<Rightarrow> byte list" where
  "enc_hdr ps = HPCRUN_FMT_Magic @ HPCRUN_FMT_Version @ HPCRUN_FMT_Endian @ enc_nvpairs ps @ []"

definition hdr_img :: "(c_string \<times> c_string) list \<Rightarrow> hpcrun_fmt_hdr_t" where
  "hdr_img ps = \<lparr> hdr_versionStr = HPCRUN_FMT_Version, hdr_version = atof HPCRUN_FMT_Version,
     hdr_endian = hd HPCRUN_FMT_Endian, hdr_nvps = Some (map nv_img ps) \<rparr>"

abbreviation valid_nvs :: "(c_string \<times> c_string) list \<Rightarrow> bool" where
  "valid_nvs ps \<equiv> list_all valid_nv ps \<and> length ps < 2 ^ 31"

interpretation hdr: codec "\<lambda>ps. hpcrun_fmt_hdr_fwrite (nv_args ps)" "hpcrun_fmt_hdr_fread malloc"
  enc_hdr hdr_img valid_nvs
proof (unfold_locales, goal_cases)
  case (1 ps)
  then show ?case unfolding hpcrun_fmt_hdr_fwrite_def enc_hdr_def
    by (intro emits_fwrite_ignored emits_ignoring nvpairs.wr_emits emits_return) auto
next
  case (2 ps)
  then show ?case unfolding hpcrun_fmt_hdr_fread_def enc_hdr_def Let_def
    by - (rule parses_value, (rule parses_block parses_else parses_ignoring nvpairs.rd_parses
        parses_return | assumption | (simp; fail))+, simp add: hdr_img_def)
qed

definition enc_epochHdr :: "u64 \<times> u64 \<times> (c_string \<times> c_string) list \<Rightarrow> byte list" where
  "enc_epochHdr = (\<lambda>(flags, gran, ps). HPCRUN_FMT_EpochTag @ enc_int8 flags @ enc_int8 gran
     @ enc_int4 0 @ enc_nvpairs ps @ [])"

interpretation epochHdr: codec "\<lambda>(flags, gran, ps). hpcrun_fmt_epochHdr_fwrite flags gran (nv_args ps)"
  "hpcrun_fmt_epochHdr_fread malloc" enc_epochHdr
  "\<lambda>(flags, gran, ps). \<lparr> epochHdr_flags = flags, epochHdr_measurementGranularity = gran,
     epochHdr_nvps = map nv_img ps \<rparr>" "\<lambda>(flags, gran, ps). valid_nvs ps"
proof (unfold_locales, goal_cases)
  case (1 x)
  obtain flags gran ps where x: "x = (flags, gran, ps)" by (cases x)
  from 1 have "valid_nvs ps" by (simp add: x)
  then show ?case unfolding hpcrun_fmt_epochHdr_fwrite_def enc_epochHdr_def x prod.case
    by - (rule emits_block emits_else int_write_rules nvpairs.wr_emits TrueI
        | assumption | (simp; fail))+
next
  case (2 x)
  obtain flags gran ps where x: "x = (flags, gran, ps)" by (cases x)
  from 2 have v: "valid_nvs ps" by (simp add: x)
  then have "parses (ThrowIfError hpcfmt_int8_fread (\<lambda>flags.
    ThrowIfError hpcfmt_int8_fread (\<lambda>measurementGranularity.
    ThrowIfError hpcfmt_int4_fread (\<lambda>dummy.
    ThrowIfError (hpcfmt_nvpairList_fread malloc) (\<lambda>nvps.
    fmt_return \<lparr> epochHdr_flags = flags,
                 epochHdr_measurementGranularity = measurementGranularity,
                 epochHdr_nvps = nvps \<rparr>)))))
    (enc_int8 flags @ enc_int8 gran @ enc_int4 0 @ enc_nvpairs ps @ [])
    \<lparr> epochHdr_flags = flags, epochHdr_measurementGranularity = gran, epochHdr_nvps = map nv_img ps \<rparr>"
    by - (rule int_rules nvpairs.rd_parses TrueI | assumption)+
  then show ?case unfolding hpcrun_fmt_epochHdr_fread_def enc_epochHdr_def x prod.case
    by (intro parses_block) (auto simp: parses_def)
qed

definition trace_hdr_img :: "u64 \<Rightarrow> hpctrace_fmt_hdr_t" where
  "trace_hdr_img flags = \<lparr> trace_versionStr = HPCTRACE_FMT_Version,
     trace_version = atof HPCTRACE_FMT_Version, trace_endian = hd HPCTRACE_FMT_Endian,
     trace_flags = flags \<rparr>"

definition enc_trace_hdr :: "u64 \<Rightarrow> byte list" where
  "enc_trace_hdr flags = HPCTRACE_FMT_Magic @ HPCTRACE_FMT_Version @ HPCTRACE_FMT_Endian
     @ enc_int8 flags @ []"

text \<open>The version of the traces that the code writes is above 1, so the flags are read.\<close>

lemma trace_version: "atof HPCTRACE_FMT_Version = 101 / 100"
  by (simp add: atof_def HPCTRACE_FMT_Version_def str_lit_def c_str_def parse_sign_def is_digit_def
      digits_val_def parse_exp_def)

interpretation trace_hdr: strict_codec hpctrace_fmt_hdr_fwrite hpctrace_fmt_hdr_fread enc_trace_hdr
  trace_hdr_img "\<lambda>_. True"
proof (unfold_locales, goal_cases)
  case (1 flags)
  show ?case unfolding hpctrace_fmt_hdr_fwrite_def enc_trace_hdr_def
    by (rule emits_block emits_else int_write_rules TrueI | (simp; fail))+
next
  case (2 flags)
  show ?case unfolding hpctrace_fmt_hdr_fread_def enc_trace_hdr_def Let_def
    by (rule parses_value, (rule parses_block parses_else parses_if int_rules TrueI
      | (simp add: trace_version; fail))+, simp add: trace_hdr_img_def)
next
  case (3 flags)
  show ?case unfolding hpctrace_fmt_hdr_fread_def enc_trace_hdr_def Let_def
    by (rule strict_fread_n strict_else parses_if strict_if int_strict_rules int_rules TrueI
      | (simp add: trace_version fmt_fail_def; fail))+
qed

definition enc_datum :: "u64 \<Rightarrow> hpctrace_fmt_datum_t \<Rightarrow> byte list" where
  "enc_datum flags x = enc_int8 (datum_comp x) @ enc_int4 (datum_cpId x)
     @ (if data_centric flags then enc_int4 (datum_metricId x) else []) @ []"

definition datum_img :: "u64 \<Rightarrow> hpctrace_fmt_datum_t \<Rightarrow> hpctrace_fmt_datum_t" where
  "datum_img flags x = (if data_centric flags then x
     else x\<lparr> datum_metricId := HPCTRACE_FMT_MetricId_NULL \<rparr>)"

interpretation datum: strict_codec "hpctrace_fmt_datum_fwrite flags" "hpctrace_fmt_datum_fread flags"
  "enc_datum flags" "datum_img flags" "\<lambda>_. True" for flags
proof (unfold_locales, goal_cases)
  case (1 x)
  show ?case unfolding hpctrace_fmt_datum_fwrite_def enc_datum_def
    by (cases "data_centric flags"; simp only: if_True if_False) (rule int_write_rules TrueI)+
next
  case (2 x)
  show ?case unfolding hpctrace_fmt_datum_fread_def enc_datum_def datum_img_def
    by (cases "data_centric flags"; simp only: if_True if_False)
      (rule parses_value, (rule parses_return_if int_rules TrueI)+, simp)+
next
  case (3 x)
  show ?case unfolding hpctrace_fmt_datum_fread_def enc_datum_def
    by (cases "data_centric flags"; simp only: if_True if_False)
      (rule strict_return_if int_strict_rules int_rules TrueI)+
qed

subsection \<open>Dictionary of identifier kinds\<close>

definition enc_kind :: "u16 \<times> c_string \<Rightarrow> byte list" where
  "enc_kind x = enc_int2 (fst x) @ enc_str (Some (snd x))"

definition dxnry_img :: "u16 \<times> c_string \<Rightarrow> hpcrun_fmt_idtuple_dxnry_entry_t" where
  "dxnry_img x = \<lparr> dxnry_kind = Some (fst x), dxnry_kindStr = Some (snd x) \<rparr>"

lemma dxnry_entries_emits:
  "list_all (\<lambda>x. valid_str (Some (snd x))) ks \<Longrightarrow>
   emits (dxnry_entries_fwrite ks) (concat (map enc_kind ks))"
proof (induction ks)
  case (Cons x ks)
  then show ?case
    by (cases x) (auto simp: enc_kind_def intro!: emits_ignoring int2.wr_emits str.wr_emits)
qed (auto intro: emits_intros)

lemma dxnry_entries_parses:
  "list_all (\<lambda>x. valid_str (Some (snd x))) ks \<Longrightarrow>
   parses (dxnry_entries_fread malloc (length ks)) (concat (map enc_kind ks)) (map dxnry_img ks)"
proof (induction ks)
  case (Cons x ks)
  have "parses (dxnry_entries_fread malloc (Suc (length ks)))
      (enc_int2 (fst x) @ enc_str (Some (snd x)) @ concat (map enc_kind ks) @ [])
      (\<lparr> dxnry_kind = Some (fst x), dxnry_kindStr = Some (hpcfmt_str_ensure (Some (snd x))) \<rparr>
        # map dxnry_img ks)"
    unfolding dxnry_entries_fread.simps
    by (rule parses_ignoring int2.rd_parses str.rd_parses parses_throw parses_return Cons.IH TrueI
      | (use Cons.prems in \<open>simp; fail\<close>))+
  then show ?case
    by (simp add: enc_kind_def [of x] dxnry_img_def [of x] hpcfmt_str_ensure_def)
qed (auto intro: parses_intros)

lemma valid_kinds: "list_all (\<lambda>x. valid_str (Some (snd x))) idtuple_kinds"
  by (simp add: idtuple_kinds_def str_lit_def valid_str_def hpcfmt_str_ensure_def)

lemma kinds_count: "unat HPCRUN_IDTUPLE_COUNT = length idtuple_kinds"
  by (simp add: HPCRUN_IDTUPLE_COUNT_def idtuple_kinds_def)

definition enc_dxnry :: "byte list" where
  "enc_dxnry = enc_int2 HPCRUN_IDTUPLE_COUNT @ concat (map enc_kind idtuple_kinds)"

interpretation dxnry: codec "\<lambda>_ :: unit. hpcrun_fmt_idtuple_dxnry_fwrite"
  "hpcrun_fmt_idtuple_dxnry_fread malloc" "\<lambda>_. enc_dxnry" "\<lambda>_. map dxnry_img idtuple_kinds" "\<lambda>_. True"
proof (unfold_locales, goal_cases)
  case 1
  show ?case unfolding hpcrun_fmt_idtuple_dxnry_fwrite_def enc_dxnry_def
    by (intro emits_throw int2.wr_emits dxnry_entries_emits valid_kinds TrueI)
next
  case 2
  show ?case unfolding hpcrun_fmt_idtuple_dxnry_fread_def enc_dxnry_def
    by (rule parses_throw [OF int2.rd_parses [OF TrueI]])
      (simp add: kinds_count dxnry_entries_parses valid_kinds)
qed

subsection \<open>Metric database header\<close>

definition enc_mdb :: "hpcmetricDB_fmt_hdr_t \<Rightarrow> byte list" where
  "enc_mdb x = HPCMETRICDB_FMT_Magic @ HPCMETRICDB_FMT_Version @ HPCMETRICDB_FMT_Endian
     @ enc_int4 (mdb_numNodes x) @ enc_int4 (mdb_numMetrics x) @ []"

interpretation mdb: strict_codec hpcmetricDB_fmt_hdr_fwrite "hpcmetricDB_fmt_hdr_fread h" enc_mdb
  "\<lambda>x. h\<lparr> mdb_version := atof (mdb_versionStr h), mdb_numNodes := mdb_numNodes x,
         mdb_numMetrics := mdb_numMetrics x \<rparr>" "\<lambda>_. True" for h
proof (unfold_locales, goal_cases)
  case (1 x)
  show ?case unfolding hpcmetricDB_fmt_hdr_fwrite_def enc_mdb_def
    by (rule emits_block emits_else int_write_rules TrueI | (simp; fail))+
next
  case (2 x)
  show ?case unfolding hpcmetricDB_fmt_hdr_fread_def enc_mdb_def
    by (rule parses_block parses_else int_rules TrueI | (simp; fail))+
next
  case (3 x)
  show ?case unfolding hpcmetricDB_fmt_hdr_fread_def enc_mdb_def
    by (rule strict_fread_n strict_else int_strict_rules int_rules TrueI
      | (simp add: fmt_fail_def; fail))+
qed

section \<open>Properties\<close>

text \<open>
  A load map written to a stream with room for it is read back entry by entry (null names as
  empty ones), the stream ending where the writer left it.
\<close>

theorem hpcrun_loadmap_roundtrip:
  assumes "valid_loadmap lm" and "room fs (length (enc_loadmap lm))"
    and "fpos fs + length (enc_loadmap lm) \<le> fbad fs"
  shows "\<exists>fs'. hpcrun_fmt_loadmap_fwrite lm fs = (HPCFMT_OK (), fs') \<and>
    hpcrun_fmt_loadmap_fread malloc (fs'\<lparr> fpos := fpos fs \<rparr>) = (HPCFMT_OK (map loadmapEntry_img lm), fs')"
  by (rule loadmap.roundtrip [OF assms])

theorem hpcrun_loadmap_roundtrip_witness:
  "\<exists>fs'. hpcrun_fmt_loadmap_fwrite [\<lparr> lm_id = 1, lm_name = Some [97, 46, 111], lm_flags = 1 \<rparr>]
      \<lparr> fdata = [], fpos = 0, feof = False, fbad = 1000, fcap = 1000 \<rparr> = (HPCFMT_OK (), fs') \<and>
    hpcrun_fmt_loadmap_fread malloc (fs'\<lparr> fpos := 0 \<rparr>)
      = (HPCFMT_OK [\<lparr> lm_id = 1, lm_name = Some [97, 46, 111], lm_flags = 1 \<rparr>], fs')"
  using hpcrun_loadmap_roundtrip [of "[\<lparr> lm_id = 1, lm_name = Some [97, 46, 111], lm_flags = 1 \<rparr>]"
      "\<lparr> fdata = [], fpos = 0, feof = False, fbad = 1000, fcap = 1000 \<rparr>"]
  by (simp add: valid_loadmap_def valid_str_def hpcfmt_str_ensure_def room_def enc_loadmap_def
      enc_loadmapEntry_def enc_str_def loadmapEntry_img_def)

text \<open>
  A block of sparse metrics whose counts are those of its arrays is read back as written: the
  identifier tuple (its slots in use), the values with their metrics, and the contexts with the index
  of their first value, the closing pair included.
\<close>

theorem hpcrun_sparse_metrics_roundtrip:
  assumes "valid_sm x" and "room fs (length (enc_sm x))" and "fpos fs + length (enc_sm x) \<le> fbad fs"
  shows "\<exists>fs'. hpcrun_fmt_sparse_metrics_fwrite x fs = (HPCFMT_OK (), fs') \<and>
    hpcrun_fmt_sparse_metrics_fread n (fs'\<lparr> fpos := fpos fs \<rparr>) = (HPCFMT_OK (sm_img n x), fs')"
  by (rule sm.roundtrip [OF assms])

theorem hpcrun_sparse_metrics_roundtrip_witness:
  "\<exists>fs'. hpcrun_fmt_sparse_metrics_fwrite \<lparr> sm_id_tuple = id_tuple_constructor [] 0, sm_num_vals = 1,
       sm_num_nz_cct_nodes = 1, sm_values = [(5, 0)], sm_cct_nodes = [(12, 0), (LastNodeEnd, 1)] \<rparr>
      \<lparr> fdata = [], fpos = 0, feof = False, fbad = 1000, fcap = 1000 \<rparr> = (HPCFMT_OK (), fs') \<and>
    hpcrun_fmt_sparse_metrics_fread 0 (fs'\<lparr> fpos := 0 \<rparr>) = (HPCFMT_OK (\<lparr>
       sm_id_tuple = id_tuple_constructor [] 0, sm_num_vals = 1,
       sm_num_nz_cct_nodes = 1, sm_values = [(5, 0)], sm_cct_nodes = [(12, 0), (LastNodeEnd, 1)] \<rparr>), fs')"
  using hpcrun_sparse_metrics_roundtrip [of "\<lparr> sm_id_tuple = id_tuple_constructor [] 0,
       sm_num_vals = 1, sm_num_nz_cct_nodes = 1, sm_values = [(5, 0)],
       sm_cct_nodes = [(12, 0), (LastNodeEnd, 1)] \<rparr>"
      "\<lparr> fdata = [], fpos = 0, feof = False, fbad = 1000, fcap = 1000 \<rparr>" 0]
  by (simp add: valid_sm_def sm_img_def id_tuple_constructor_def id_tuple_used_def room_def enc_sm_def
      enc_id_tuple_def enc_val_mid_def enc_id_idx_def)

text \<open>
  A metric description with the flags of a raw or final metric is read back as written (null
  strings as empty ones, the two properties that are not in the file cleared).
\<close>

theorem hpcrun_metricDesc_roundtrip:
  assumes "valid_metricDesc x" and "room fs (length (enc_metricDesc x))"
    and "fpos fs + length (enc_metricDesc x) \<le> fbad fs"
  shows "\<exists>fs'. hpcrun_fmt_metricDesc_fwrite x fs = (HPCFMT_OK (), fs') \<and>
    hpcrun_fmt_metricDesc_fread malloc (fs'\<lparr> fpos := fpos fs \<rparr>) = (HPCFMT_OK (metricDesc_img x), fs')"
  by (rule metricDesc.roundtrip [OF assms])

definition example_metric :: metric_desc_t where
  "example_metric = \<lparr> metric_name = Some [67], metric_description = None,
     metric_flags = [1, 1, 2, 0, 0, 0, 1, 1, 0, 0, 0, 0, 0, 0, 0, 0], metric_period = 4000,
     metric_properties_time = True, metric_properties_cycles = False, metric_formula = None,
     metric_format = None, metric_is_frequency = 1, metric_is_multiplexed = 0,
     metric_threshold_mean = 0, metric_num_samples = 9 \<rparr>"

theorem hpcrun_metricDesc_roundtrip_witness:
  "\<exists>fs'. hpcrun_fmt_metricDesc_fwrite example_metric
      \<lparr> fdata = [], fpos = 0, feof = False, fbad = 1000, fcap = 1000 \<rparr> = (HPCFMT_OK (), fs') \<and>
    hpcrun_fmt_metricDesc_fread malloc (fs'\<lparr> fpos := 0 \<rparr>)
      = (HPCFMT_OK (metricDesc_img example_metric), fs')"
  using hpcrun_metricDesc_roundtrip [of example_metric "\<lparr> fdata = [], fpos = 0, feof = False, fbad = 1000, fcap = 1000 \<rparr>"]
  by (simp add: valid_metricDesc_def example_metric_def valid_str_def hpcfmt_str_ensure_def room_def
      enc_metricDesc_def enc_str_def valid_flags_def flags_ty_def flags_unused1_def
      MetricFlags_Ty_Raw_def)

text \<open>
  A section cut off anywhere is noticed: when the stream ends inside the encoding of a load map, a
  metric description, a context node, a block of sparse metrics, a footer or a trace record, the
  reader of that section returns an error or an end of file.
\<close>

theorem hpcrun_sections_truncated:
  "(valid_loadmap lm \<and> ahead fs = take k (enc_loadmap lm) \<and> k < length (enc_loadmap lm) \<longrightarrow>
      fst (hpcrun_fmt_loadmap_fread malloc fs) \<in> {HPCFMT_ERR, HPCFMT_EOF}) \<and>
   (valid_metricDesc md \<and> ahead fs = take k (enc_metricDesc md) \<and> k < length (enc_metricDesc md) \<longrightarrow>
      fst (hpcrun_fmt_metricDesc_fread malloc fs) \<in> {HPCFMT_ERR, HPCFMT_EOF}) \<and>
   (ahead fs = take k (enc_cct_node node) \<and> k < length (enc_cct_node node) \<longrightarrow>
      fst (hpcrun_fmt_cct_node_fread fs) \<in> {HPCFMT_ERR, HPCFMT_EOF}) \<and>
   (valid_sm sm \<and> ahead fs = take k (enc_sm sm) \<and> k < length (enc_sm sm) \<longrightarrow>
      fst (hpcrun_fmt_sparse_metrics_fread n fs) \<in> {HPCFMT_ERR, HPCFMT_EOF}) \<and>
   (footer_HPCRUNsm ft = HPCRUNsm \<and> ahead fs = take k (enc_footer ft) \<and> k < length (enc_footer ft) \<longrightarrow>
      fst (hpcrun_fmt_footer_fread fs) \<in> {HPCFMT_ERR, HPCFMT_EOF}) \<and>
   (ahead fs = take k (enc_datum flags dat) \<and> k < length (enc_datum flags dat) \<longrightarrow>
      fst (hpctrace_fmt_datum_fread flags fs) \<in> {HPCFMT_ERR, HPCFMT_EOF})"
  using loadmap.truncated [where x = lm and fs = fs and k = k]
    metricDesc.truncated [where x = md and fs = fs and k = k]
    cct_node.truncated [where x = node and fs = fs and k = k]
    sm.truncated [where x = sm and fs = fs and k = k]
    footer.truncated [where x = ft and fs = fs and k = k]
    datum.truncated [where x = dat and fs = fs and k = k and flags = flags]
  by auto

theorem hpcrun_sections_truncated_witness:
  "fst (hpctrace_fmt_datum_fread 0 \<lparr> fdata = [0, 0, 0, 0, 0, 0, 0, 1, 0], fpos = 0, feof = False,
      fbad = 100, fcap = 0 \<rparr>) \<in> {HPCFMT_ERR, HPCFMT_EOF}"
proof -
  let ?x = "\<lparr> datum_comp = 1, datum_cpId = 7, datum_metricId = 0 \<rparr>"
  have "ahead \<lparr> fdata = [0, 0, 0, 0, 0, 0, 0, 1, 0], fpos = 0, feof = False, fbad = 100, fcap = 0 \<rparr>
      = take 9 (enc_datum 0 ?x)"
    by (simp add: ahead_def enc_datum_def enc_int8_def enc_int4_def)
  moreover have "9 < length (enc_datum 0 ?x)" by (simp add: enc_datum_def)
  ultimately show ?thesis
    using hpcrun_sections_truncated [where dat = ?x and flags = 0 and k = 9 and
        fs = "\<lparr> fdata = [0, 0, 0, 0, 0, 0, 0, 1, 0], fpos = 0, feof = False, fbad = 100, fcap = 0 \<rparr>"]
    by blast
qed

definition enc_trace :: "u64 \<Rightarrow> hpctrace_fmt_datum_t list \<Rightarrow> byte list" where
  "enc_trace flags xs = enc_trace_hdr flags @ concat (map (enc_datum flags) xs)"

lemma enc_trace_parses:
  "parses (ThrowIfError hpctrace_fmt_hdr_fread (\<lambda>h. read_n (length xs) (hpctrace_fmt_datum_fread (trace_flags h))))
    (enc_trace flags xs) (map (datum_img flags) xs)"
  unfolding enc_trace_def
  by (rule parses_throw [OF trace_hdr.rd_parses [OF TrueI]])
    (simp add: trace_hdr_img_def datum.parses_read_n list_all_iff)

lemma trace_end:
  assumes "ahead fs = []" and "fpos fs < fbad fs"
  shows "fst (hpctrace_fmt_datum_fread flags fs) = HPCFMT_EOF"
proof -
  have "fst (hpcfmt_int8_fread fs) = HPCFMT_EOF" using hpcfmt_int_fread_empty [OF assms(1)] assms(2) by simp
  then show ?thesis by (cases "hpcfmt_int8_fread fs") (simp add: hpctrace_fmt_datum_fread_def ReturnIfError_def)
qed

text \<open>
  A trace file is read back whole: when a header and any number of records are written at the end
  of a stream, the reader gets the header's flags, then every record (the metric of a record only if
  the flags say that records have one), and then an end of file and not an error.
\<close>

theorem hpctrace_file_roundtrip:
  assumes "room fs (length (enc_trace flags xs))"
    and "fpos fs + length (enc_trace flags xs) < fbad fs" and "fpos fs = length (fdata fs)"
  shows "\<exists>fs'. ThrowIfError (hpctrace_fmt_hdr_fwrite flags)
        (\<lambda>_. write_all (hpctrace_fmt_datum_fwrite flags) xs) fs = (HPCFMT_OK (), fs') \<and>
    ThrowIfError hpctrace_fmt_hdr_fread (\<lambda>h. read_n (length xs) (hpctrace_fmt_datum_fread (trace_flags h)))
        (fs'\<lparr> fpos := fpos fs \<rparr>) = (HPCFMT_OK (map (datum_img flags) xs), fs') \<and>
    fst (hpctrace_fmt_datum_fread flags fs') = HPCFMT_EOF"
proof -
  let ?bs = "enc_trace flags xs"
  have w: "emits (ThrowIfError (hpctrace_fmt_hdr_fwrite flags)
      (\<lambda>_. write_all (hpctrace_fmt_datum_fwrite flags) xs)) ?bs"
    unfolding enc_trace_def
    by (intro emits_throw trace_hdr.wr_emits datum.emits_write_all) (simp_all add: list_all_iff)
  note r = enc_trace_parses [of xs flags]
  have "ahead (fput fs ?bs) = []" using assms(3) by (simp add: ahead_def fput_def)
  then have "fst (hpctrace_fmt_datum_fread flags (fput fs ?bs)) = HPCFMT_EOF"
    using trace_end assms(2) by simp
  then show ?thesis
    using emits_parses_roundtrip [OF w r assms(1)] assms(2) emitsD [OF w assms(1)] by auto
qed

theorem hpctrace_file_roundtrip_witness:
  "\<exists>fs'. ThrowIfError (hpctrace_fmt_hdr_fwrite 1)
        (\<lambda>_. write_all (hpctrace_fmt_datum_fwrite 1)
          [\<lparr> datum_comp = 1, datum_cpId = 7, datum_metricId = 3 \<rparr>])
        \<lparr> fdata = [], fpos = 0, feof = False, fbad = 1000, fcap = 1000 \<rparr> = (HPCFMT_OK (), fs') \<and>
    ThrowIfError hpctrace_fmt_hdr_fread (\<lambda>h. read_n 1 (hpctrace_fmt_datum_fread (trace_flags h)))
        (fs'\<lparr> fpos := 0 \<rparr>)
      = (HPCFMT_OK [\<lparr> datum_comp = 1, datum_cpId = 7, datum_metricId = 3 \<rparr>], fs') \<and>
    fst (hpctrace_fmt_datum_fread 1 fs') = HPCFMT_EOF"
  using hpctrace_file_roundtrip [of "\<lparr> fdata = [], fpos = 0, feof = False, fbad = 1000, fcap = 1000 \<rparr>"
      1 "[\<lparr> datum_comp = 1, datum_cpId = 7, datum_metricId = 3 \<rparr>]"]
  by (simp add: room_def enc_trace_def enc_trace_hdr_def enc_datum_def datum_img_def
      HPCTRACE_HDR_FLAGS_GET_BIT_def)

text \<open>
  The buffer writer of trace records stores exactly the bytes that the stream writer puts.
\<close>

theorem hpctrace_datum_swrite_fwrite:
  assumes "room fs (length (hpctrace_fmt_datum_swrite flags x))"
  shows "hpctrace_fmt_datum_fwrite flags x fs
     = (HPCFMT_OK (), fput fs (hpctrace_fmt_datum_swrite flags x))"
proof -
  have "hpctrace_fmt_datum_swrite flags x = enc_datum flags x"
    by (simp add: hpctrace_fmt_datum_swrite_def enc_datum_def hpcfmt_int8_swrite_def
        hpcfmt_int4_swrite_def hpcio_be8_swrite_def hpcio_be4_swrite_def enc_int8_def enc_int4_def)
  with assms show ?thesis using emitsD [OF datum.wr_emits] by simp
qed

theorem hpctrace_datum_swrite_fwrite_witness:
  "hpctrace_fmt_datum_fwrite 0 \<lparr> datum_comp = 258, datum_cpId = 7, datum_metricId = 3 \<rparr>
      \<lparr> fdata = [], fpos = 0, feof = False, fbad = 0, fcap = 12 \<rparr>
    = (HPCFMT_OK (), \<lparr> fdata = [0, 0, 0, 0, 0, 0, 1, 2, 0, 0, 0, 7], fpos = 12, feof = False,
        fbad = 0, fcap = 12 \<rparr>)"
  using hpctrace_datum_swrite_fwrite [of "\<lparr> fdata = [], fpos = 0, feof = False, fbad = 0, fcap = 12 \<rparr>"
      0 "\<lparr> datum_comp = 258, datum_cpId = 7, datum_metricId = 3 \<rparr>"]
  by (simp add: room_def hpctrace_fmt_datum_swrite_def hpcfmt_int8_swrite_def hpcio_be8_swrite_def
      hpcfmt_int4_swrite_def hpcio_be4_swrite_def HPCTRACE_HDR_FLAGS_GET_BIT_def fput_def)

lemma fread_n_ahead: "fread n fs = (take n (ahead fs), snd (fread n fs))"
proof (cases "n \<le> length (ahead fs)")
  case True
  have "ahead fs = take n (ahead fs) @ drop n (ahead fs)" by simp
  from fread_ahead [OF this] True show ?thesis by (simp add: min.absorb2)
next
  case False
  with fread_short [of fs n] show ?thesis by (simp add: prod_eq_iff)
qed

lemma magic_accepts:
  assumes "fst (ThrowIfError (fread_n n) (\<lambda>tag. if length tag \<noteq> n then fmt_fail
      else if c_str tag \<noteq> c_str magic then fmt_fail else k tag) fs) = HPCFMT_OK h"
    and "length magic = n" and "0 \<notin> set magic"
  shows "take n (ahead fs) = magic"
proof -
  obtain tag fs' where f: "fread n fs = (tag, fs')" and tag: "tag = take n (ahead fs)"
    using fread_n_ahead [of n fs] by (metis prod.collapse fst_conv)
  have "length tag = n" "c_str tag = c_str magic"
    using assms(1) f by (auto simp: ThrowIfError_def fread_n_def fmt_fail_def split: if_splits)
  moreover have "c_str magic = magic" using assms(3) by (auto simp: c_str_def takeWhile_eq_all_conv)
  ultimately have magic: "takeWhile (\<lambda>c. c \<noteq> 0) tag = magic" and
    len: "length (takeWhile (\<lambda>c. c \<noteq> 0) tag) = length tag"
    using assms(2) unfolding c_str_def by metis+
  have "takeWhile (\<lambda>c. c \<noteq> 0) tag = tag"
    using takeWhile_dropWhile_id [of "\<lambda>c. c \<noteq> 0" tag] len
    by (metis add_cancel_right_right append_Nil2 length_0_conv length_append)
  with magic tag show ?thesis by simp
qed

lemma magic_no_zero:
  "0 \<notin> set HPCRUN_FMT_Magic" "0 \<notin> set HPCTRACE_FMT_Magic" "0 \<notin> set HPCMETRICDB_FMT_Magic"
  by (simp_all add: HPCRUN_FMT_Magic_def HPCTRACE_FMT_Magic_def HPCMETRICDB_FMT_Magic_def str_lit_def)

text \<open>
  A reader that accepts a file has seen its magic: if the profile, trace or metric database header
  reader succeeds, the stream begins with the 18 bytes of that format, so no reader accepts a file of
  another of the three formats.
\<close>

theorem hpcrun_headers_check_magic:
  "(fst (hpcrun_fmt_hdr_fread alloc fs) = HPCFMT_OK h \<longrightarrow> take 18 (ahead fs) = HPCRUN_FMT_Magic) \<and>
   (fst (hpctrace_fmt_hdr_fread fs) = HPCFMT_OK th \<longrightarrow> take 18 (ahead fs) = HPCTRACE_FMT_Magic) \<and>
   (fst (hpcmetricDB_fmt_hdr_fread m fs) = HPCFMT_OK mh \<longrightarrow>
      take 18 (ahead fs) = HPCMETRICDB_FMT_Magic)"
  unfolding hpcrun_fmt_hdr_fread_def hpctrace_fmt_hdr_fread_def hpcmetricDB_fmt_hdr_fread_def tag_lengths
  by (intro conjI impI; rule magic_accepts) (auto simp: magic_no_zero)

theorem hpcrun_headers_check_magic_witness:
  "take 18 (ahead \<lparr> fdata = enc_trace_hdr 0, fpos = 0, feof = False, fbad = 100, fcap = 0 \<rparr>)
     = HPCTRACE_FMT_Magic"
proof -
  let ?fs = "\<lparr> fdata = enc_trace_hdr 0, fpos = 0, feof = False, fbad = 100, fcap = 0 \<rparr>"
  have "ahead ?fs = enc_trace_hdr 0 @ []" by (simp add: ahead_def enc_trace_hdr_def)
  from parsesD [OF trace_hdr.rd_parses [OF TrueI] this]
  have "fst (hpctrace_fmt_hdr_fread ?fs) = HPCFMT_OK (trace_hdr_img 0)" by simp
  then show ?thesis using hpcrun_headers_check_magic [of None ?fs] by blast
qed

text \<open>
  Setting a bit of the flags of a trace header to 0 or 1 gives that bit, and leaves the others.
\<close>

theorem hpctrace_hdr_flags_set_bit:
  assumes "p < 64" and "q < 64" and "v = 0 \<or> v = 1"
  shows "HPCTRACE_HDR_FLAGS_GET_BIT (HPCTRACE_HDR_FLAGS_SET_BIT flag p v) q =
    (if p = q then v = 1 else HPCTRACE_HDR_FLAGS_GET_BIT flag q)"
proof -
  have get: "HPCTRACE_HDR_FLAGS_GET_BIT f q \<longleftrightarrow> bit f q" for f
    by (simp add: HPCTRACE_HDR_FLAGS_GET_BIT_def bit_iff_odd_drop_bit and_one_eq odd_iff_mod_2_eq_one
        even_iff_mod_2_eq_zero)
  have "bit (- v) q \<longleftrightarrow> v = 1" using assms(2,3) by (auto simp: bit_simps)
  then show ?thesis
    unfolding get HPCTRACE_HDR_FLAGS_SET_BIT_def using assms by (auto simp: bit_simps)
qed

theorem hpctrace_hdr_flags_set_bit_witness:
  "HPCTRACE_HDR_FLAGS_GET_BIT (HPCTRACE_HDR_FLAGS_SET_BIT 0xff 1 0) 1 = False"
  using hpctrace_hdr_flags_set_bit [where p = 1 and q = 1 and v = 0 and flag = "0xff"] by simp

end
