(* ===== verification/Cct.thy ===== *)
theory Cct
  imports Cct_Walk Splay_Map Hpcrun_Fmt "HOL-Library.Product_Lexorder"
begin

text \<open>
  The calling context tree of a thread (\<open>src/hpcrun/cct/cct.c\<close>): creating nodes, inserting, finding and
  deleting children, inserting call paths, joining and merging trees, and the list of free nodes.

  The state is the store of nodes with the counter of persistent identifiers, the head of the free list,
  the next address the allocator hands out, and whether the debugging flag \<open>FREEABLE\<close> is set. The
  children of a node are a splay tree ordered by normalized address. A null pointer is \<open>None\<close>; an
  operation that dereferences one, or does not end, gives \<open>None\<close>.
\<close>

section \<open>Addresses\<close>

definition ip_normalized_eq :: "ip_normalized_t \<Rightarrow> ip_normalized_t \<Rightarrow> bool" where
  "ip_normalized_eq a b \<longleftrightarrow> lm_id_of a = lm_id_of b \<and> lm_ip_of a = lm_ip_of b"

definition ip_normalized_lt :: "ip_normalized_t \<Rightarrow> ip_normalized_t \<Rightarrow> bool" where
  "ip_normalized_lt a b =
    (if lm_id_of a < lm_id_of b then True
     else if lm_id_of a > lm_id_of b then False
     else if lm_ip_of a < lm_ip_of b then True
     else if lm_ip_of a > lm_ip_of b then False
     else False)"

definition ip_normalized_gt :: "ip_normalized_t \<Rightarrow> ip_normalized_t \<Rightarrow> bool" where
  "ip_normalized_gt a b = ip_normalized_lt b a"

definition cct_addr_eq :: "ip_normalized_t \<Rightarrow> ip_normalized_t \<Rightarrow> bool" where
  "cct_addr_eq a b = ip_normalized_eq a b"

definition cct_addr_lt :: "ip_normalized_t \<Rightarrow> ip_normalized_t \<Rightarrow> bool" where
  "cct_addr_lt a b =
    (if ip_normalized_lt a b then True else if ip_normalized_gt a b then False else False)"

definition cct_addr_gt :: "ip_normalized_t \<Rightarrow> ip_normalized_t \<Rightarrow> bool" where
  "cct_addr_gt a b = cct_addr_lt b a"

definition PLACEHOLDER_VALUE :: "u64 list \<Rightarrow> u64" where
  "PLACEHOLDER_VALUE cs = fold (\<lambda>c v. push_bit 8 v OR (c AND 0xff)) cs 0"

definition HPCRUN_PLACEHOLDER_LM :: u16 where "HPCRUN_PLACEHOLDER_LM = 0"

definition hpcrun_placeholder_root_primary :: u64 where
  "hpcrun_placeholder_root_primary = PLACEHOLDER_VALUE [0x5e, 0x50, 0x72, 0x69, 0x6d, 0x61, 0x72, 0x79]"

definition hpcrun_placeholder_root_partial :: u64 where
  "hpcrun_placeholder_root_partial = PLACEHOLDER_VALUE [0x5e, 0x50, 0x61, 0x72, 0x74, 0x69, 0x61, 0x6c]"

definition hpcrun_placeholder_no_activity :: u64 where
  "hpcrun_placeholder_no_activity = PLACEHOLDER_VALUE [0x4e, 0x6f, 0x41, 0x63, 0x74, 0x76, 0x74, 0x79]"

definition ADDR2 :: "u16 \<Rightarrow> u64 \<Rightarrow> ip_normalized_t" where
  "ADDR2 i p = \<lparr> lm_id_of = i, lm_ip_of = p \<rparr>"

definition CCT_ROOT :: ip_normalized_t where
  "CCT_ROOT = ADDR2 HPCRUN_PLACEHOLDER_LM hpcrun_placeholder_root_primary"

definition PARTIAL_ROOT :: ip_normalized_t where
  "PARTIAL_ROOT = ADDR2 HPCRUN_PLACEHOLDER_LM hpcrun_placeholder_root_partial"

definition UNRESOLVED_ROOT :: u16 where "UNRESOLVED_ROOT = - 50"

definition HPCRUN_DUMMY_NODE :: u16 where "HPCRUN_DUMMY_NODE = 65534"

section \<open>Nodes and the free list\<close>

record cct_state =
  st_cct :: cct_store
  st_next_id :: u32
  st_freelist :: "ptr option"
  st_fresh :: ptr
  st_freeable :: bool

definition upd_cct :: "(cct_store \<Rightarrow> cct_store) \<Rightarrow> cct_state \<Rightarrow> cct_state" where
  "upd_cct f st = st\<lparr> st_cct := f (st_cct st) \<rparr>"

definition new_persistent_id :: "cct_state \<Rightarrow> u32 \<times> cct_state" where
  "new_persistent_id st = (st_next_id st, st\<lparr> st_next_id := st_next_id st + 2 \<rparr>)"

definition add_node_to_freelist :: "ptr option \<Rightarrow> cct_state \<Rightarrow> cct_state" where
  "add_node_to_freelist cct st = (case cct of None \<Rightarrow> st
     | Some p \<Rightarrow> (upd_cct (\<lambda>cs. cs\<lparr> c_parent := (c_parent cs)(p := st_freelist st) \<rparr>) st)\<lparr> st_freelist := Some p \<rparr>)"

definition remove_node_from_freelist :: "cct_state \<Rightarrow> ptr option \<times> cct_state" where
  "remove_node_from_freelist st = (case st_freelist st of None \<Rightarrow> (None, st)
     | Some first_root \<Rightarrow>
        (let children = c_children (st_cct st) first_root;
             left = c_left (st_cct st) first_root;
             right = c_right (st_cct st) first_root;
             st = st\<lparr> st_freelist := c_parent (st_cct st) first_root \<rparr>;
             st = add_node_to_freelist children st;
             st = add_node_to_freelist left st;
             st = add_node_to_freelist right st
         in (Some first_root, st)))"

definition cct_malloc :: "cct_state \<Rightarrow> ptr \<times> cct_state" where
  "cct_malloc st = (st_fresh st, st\<lparr> st_fresh := Suc (st_fresh st) \<rparr>)"

definition hpcrun_cct_node_alloc :: "cct_state \<Rightarrow> ptr \<times> cct_state" where
  "hpcrun_cct_node_alloc st = (case remove_node_from_freelist st of
     (Some cct_new, st) \<Rightarrow> (cct_new, st)
   | (None, st) \<Rightarrow> cct_malloc st)"

definition hpcrun_cct_node_free :: "ptr option \<Rightarrow> cct_state \<Rightarrow> cct_state" where
  "hpcrun_cct_node_free cct st = add_node_to_freelist cct st"

definition cct_node_create :: "ip_normalized_t \<Rightarrow> bool \<Rightarrow> ptr option \<Rightarrow> cct_state \<Rightarrow> ptr \<times> cct_state" where
  "cct_node_create addr unwound parent st =
    (case (if st_freeable st then cct_malloc st else hpcrun_cct_node_alloc st) of (node, st) \<Rightarrow>
       (case new_persistent_id st of (i, st) \<Rightarrow>
          (node, upd_cct (\<lambda>cs. \<lparr> c_persistent_id = (c_persistent_id cs)(node := i),
              c_addr = (c_addr cs)(node := addr), c_is_leaf = (c_is_leaf cs)(node := False),
              c_unwound = (c_unwound cs)(node := unwound), c_display = (c_display cs)(node := False),
              c_parent = (c_parent cs)(node := parent), c_children = (c_children cs)(node := None),
              c_left = (c_left cs)(node := None), c_right = (c_right cs)(node := None),
              c_previous = (c_previous cs)(node := None) \<rparr>) st)))"

section \<open>Constructors and accessors\<close>

definition hpcrun_cct_new :: "cct_state \<Rightarrow> ptr \<times> cct_state" where
  "hpcrun_cct_new st = cct_node_create CCT_ROOT True None st"

definition hpcrun_cct_new_partial :: "cct_state \<Rightarrow> ptr \<times> cct_state" where
  "hpcrun_cct_new_partial st = cct_node_create PARTIAL_ROOT True None st"

definition hpcrun_cct_top_new :: "u16 \<Rightarrow> u64 \<Rightarrow> cct_state \<Rightarrow> ptr \<times> cct_state" where
  "hpcrun_cct_top_new lmid lmip st = cct_node_create (ADDR2 lmid lmip) True None st"

definition hpcrun_cct_copy_just_addr :: "ptr option \<Rightarrow> cct_state \<Rightarrow> ptr option \<times> cct_state" where
  "hpcrun_cct_copy_just_addr cct st = (case cct of None \<Rightarrow> (None, st)
     | Some p \<Rightarrow> (case cct_node_create (c_addr (st_cct st) p) (c_unwound (st_cct st) p) None st of (n, st) \<Rightarrow> (Some n, st)))"

definition hpcrun_cct_parent :: "ptr option \<Rightarrow> cct_store \<Rightarrow> ptr option" where
  "hpcrun_cct_parent x cs = (case x of None \<Rightarrow> None | Some p \<Rightarrow> c_parent cs p)"

definition hpcrun_cct_children :: "ptr option \<Rightarrow> cct_store \<Rightarrow> ptr option" where
  "hpcrun_cct_children x cs = (case x of None \<Rightarrow> None | Some p \<Rightarrow> c_children cs p)"

definition hpcrun_cct_persistent_id :: "ptr option \<Rightarrow> cct_store \<Rightarrow> u32" where
  "hpcrun_cct_persistent_id x cs = (case x of None \<Rightarrow> - 1 | Some p \<Rightarrow> c_persistent_id cs p)"

definition hpcrun_cct_is_leaf :: "ptr option \<Rightarrow> cct_store \<Rightarrow> bool" where
  "hpcrun_cct_is_leaf node cs = (case node of None \<Rightarrow> False | Some p \<Rightarrow> c_is_leaf cs p \<or> c_children cs p = None)"

definition hpcrun_cct_unwound :: "ptr option \<Rightarrow> cct_store \<Rightarrow> bool" where
  "hpcrun_cct_unwound node cs = (case node of None \<Rightarrow> True | Some p \<Rightarrow> c_unwound cs p)"

definition hpcrun_cct_no_children :: "ptr option \<Rightarrow> cct_store \<Rightarrow> bool" where
  "hpcrun_cct_no_children node cs = (case node of None \<Rightarrow> False | Some p \<Rightarrow> c_children cs p = None)"

definition hpcrun_cct_is_root :: "ptr \<Rightarrow> cct_store \<Rightarrow> bool" where
  "hpcrun_cct_is_root node cs \<longleftrightarrow> c_parent cs node = None"

definition hpcrun_cct_is_dummy :: "ptr \<Rightarrow> cct_store \<Rightarrow> bool" where
  "hpcrun_cct_is_dummy node cs \<longleftrightarrow> lm_id_of (c_addr cs node) = HPCRUN_DUMMY_NODE"

partial_function (option) leftmost_loop :: "cct_store \<Rightarrow> ptr \<Rightarrow> ptr option" where
  "leftmost_loop cs leftmost = (case c_left cs leftmost of None \<Rightarrow> Some leftmost
     | Some more_left \<Rightarrow> leftmost_loop cs more_left)"

definition hpcrun_leftmost_child :: "ptr \<Rightarrow> cct_store \<Rightarrow> ptr option option" where
  "hpcrun_leftmost_child x cs = (case c_children cs x of None \<Rightarrow> Some None
     | Some leftmost \<Rightarrow> map_option Some (leftmost_loop cs leftmost))"

section \<open>Mutators\<close>

definition cct_splay :: "ptr option \<Rightarrow> ip_normalized_t \<Rightarrow> cct_state \<Rightarrow> (ptr option \<times> cct_state) option" where
  "cct_splay cct addr st = map_option
     (\<lambda>(rt, l, r). (rt, upd_cct (\<lambda>cs. cs\<lparr> c_left := l, c_right := r \<rparr>) st))
     (GENERAL_SPLAY_TREE (\<lambda>p. cct_addr_lt addr (c_addr (st_cct st) p)) (\<lambda>p. cct_addr_gt addr (c_addr (st_cct st) p))
       cct (c_left (st_cct st), c_right (st_cct st)))"

definition set_children :: "ptr \<Rightarrow> ptr option \<Rightarrow> cct_state \<Rightarrow> cct_state" where
  "set_children p v = upd_cct (\<lambda>cs. cs\<lparr> c_children := (c_children cs)(p := v) \<rparr>)"

definition set_parent :: "ptr \<Rightarrow> ptr option \<Rightarrow> cct_state \<Rightarrow> cct_state" where
  "set_parent p v = upd_cct (\<lambda>cs. cs\<lparr> c_parent := (c_parent cs)(p := v) \<rparr>)"

definition set_left_sib :: "ptr \<Rightarrow> ptr option \<Rightarrow> cct_state \<Rightarrow> cct_state" where
  "set_left_sib p v = upd_cct (\<lambda>cs. cs\<lparr> c_left := (c_left cs)(p := v) \<rparr>)"

definition set_right_sib :: "ptr \<Rightarrow> ptr option \<Rightarrow> cct_state \<Rightarrow> cct_state" where
  "set_right_sib p v = upd_cct (\<lambda>cs. cs\<lparr> c_right := (c_right cs)(p := v) \<rparr>)"

text \<open>A node goes above the root of its siblings: \<open>new->left\<close>, \<open>new->right\<close>, then one link of \<open>found\<close>.\<close>

definition link_above :: "ptr \<Rightarrow> ip_normalized_t \<Rightarrow> ptr \<Rightarrow> cct_state \<Rightarrow> cct_state" where
  "link_above new frm found st =
    (if cct_addr_lt frm (c_addr (st_cct st) found) then
       (let st = set_left_sib new (c_left (st_cct st) found) st;
            st = set_right_sib new (Some found) st
        in set_left_sib found None st)
     else
       (let st = set_left_sib new (Some found) st;
            st = set_right_sib new (c_right (st_cct st) found) st
        in set_right_sib found None st))"

definition hpcrun_cct_insert_addr :: "ptr option \<Rightarrow> ip_normalized_t \<Rightarrow> bool \<Rightarrow> cct_state \<Rightarrow> (ptr option \<times> cct_state) option" where
  "hpcrun_cct_insert_addr node frm unwound st = (case node of None \<Rightarrow> Some (None, st)
     | Some p \<Rightarrow> (case cct_splay (c_children (st_cct st) p) frm st of None \<Rightarrow> None
       | Some (found, st) \<Rightarrow>
          (let st = set_children p found st
           in if found \<noteq> None \<and> cct_addr_eq frm (c_addr (st_cct st) (the found)) then Some (found, st)
           else (case cct_node_create frm unwound (Some p) st of (new, st) \<Rightarrow>
              (let st = set_children p (Some new) st
               in case found of None \<Rightarrow> Some (Some new, st)
                | Some f \<Rightarrow> Some (Some new, link_above new frm f st))))))"

definition hpcrun_cct_insert_ip_norm :: "ptr option \<Rightarrow> ip_normalized_t \<Rightarrow> bool \<Rightarrow> cct_state \<Rightarrow> (ptr option \<times> cct_state) option" where
  "hpcrun_cct_insert_ip_norm node ip_norm unwound st = hpcrun_cct_insert_addr node ip_norm unwound st"

definition hpcrun_cct_insert_dummy :: "ptr option \<Rightarrow> u16 \<Rightarrow> cct_state \<Rightarrow> (ptr option \<times> cct_state) option" where
  "hpcrun_cct_insert_dummy node lm_ip st = hpcrun_cct_insert_addr node (ADDR2 HPCRUN_DUMMY_NODE (ucast lm_ip)) True st"

definition hpcrun_cct_delete_addr :: "ptr option \<Rightarrow> ip_normalized_t \<Rightarrow> cct_state \<Rightarrow> (ptr option \<times> cct_state) option" where
  "hpcrun_cct_delete_addr node frm st = (case node of None \<Rightarrow> Some (None, st)
     | Some p \<Rightarrow> (case cct_splay (c_children (st_cct st) p) frm st of None \<Rightarrow> None
       | Some (None, st) \<Rightarrow> Some (None, set_children p None st)
       | Some (Some found, st) \<Rightarrow>
          (let st = set_children p (Some found) st
           in if \<not> cct_addr_eq frm (c_addr (st_cct st) found) then Some (None, st)
           else (case c_left (st_cct st) found of
               None \<Rightarrow> Some (Some found, set_children p (c_right (st_cct st) found) st)
             | Some l \<Rightarrow> (case cct_splay (Some l) frm st of
                 Some (Some l', st) \<Rightarrow>
                   (let st = set_left_sib found (Some l') st;
                        st = set_right_sib l' (c_right (st_cct st) found) st
                    in Some (Some found, set_children p (Some l') st))
               | _ \<Rightarrow> None)))))"

definition hpcrun_cct_find_addr :: "ptr option \<Rightarrow> ip_normalized_t \<Rightarrow> cct_state \<Rightarrow> (ptr option \<times> cct_state) option" where
  "hpcrun_cct_find_addr cct addr st = (case cct of None \<Rightarrow> Some (None, st)
     | Some p \<Rightarrow> (case cct_splay (c_children (st_cct st) p) addr st of None \<Rightarrow> None
       | Some (found, st) \<Rightarrow>
          (let st = set_children p found st
           in if found \<noteq> None \<and> cct_addr_eq addr (c_addr (st_cct st) (the found)) then Some (found, st)
           else Some (None, st))))"

partial_function (option) hpcrun_cct_insert_path_return_leaf ::
  "ptr option \<Rightarrow> ptr option \<Rightarrow> cct_state \<Rightarrow> (ptr option \<times> cct_state) option" where
  "hpcrun_cct_insert_path_return_leaf rt path st = (case path of None \<Rightarrow> Some (rt, st)
     | Some p \<Rightarrow> (case c_parent (st_cct st) p of None \<Rightarrow> Some (rt, st)
       | Some par \<Rightarrow> Option.bind (hpcrun_cct_insert_path_return_leaf rt (Some par) st)
           (\<lambda>(rt, st). hpcrun_cct_insert_addr rt (c_addr (st_cct st) p) (c_unwound (st_cct st) p) st)))"

definition hpcrun_cct_delete_self :: "ptr \<Rightarrow> cct_state \<Rightarrow> cct_state option" where
  "hpcrun_cct_delete_self cct st = map_option
     (\<lambda>(_, st). hpcrun_cct_node_free (Some cct) (set_parent cct None (set_right_sib cct None (set_left_sib cct None st))))
     (hpcrun_cct_delete_addr (c_parent (st_cct st) cct) (c_addr (st_cct st) cct) st)"

definition hpcrun_cct_terminate_path :: "ptr \<Rightarrow> cct_state \<Rightarrow> cct_state" where
  "hpcrun_cct_terminate_path node = upd_cct (\<lambda>cs. cs\<lparr> c_is_leaf := (c_is_leaf cs)(node := True) \<rparr>)"

definition hpcrun_cct_insert_node :: "ptr \<Rightarrow> ptr \<Rightarrow> cct_state \<Rightarrow> (ptr \<times> cct_state) option" where
  "hpcrun_cct_insert_node target src st =
    (let st = set_parent src (Some target) st
     in case cct_splay (c_children (st_cct st) target) (c_addr (st_cct st) src) st of None \<Rightarrow> None
      | Some (found, st) \<Rightarrow>
         (let st = set_children target (Some src) st
          in case found of None \<Rightarrow> Some (src, st)
           | Some f \<Rightarrow> Some (src, link_above src (c_addr (st_cct st) src) f st)))"

definition hpcrun_cct_retain :: "ptr \<Rightarrow> cct_state \<Rightarrow> cct_state" where
  "hpcrun_cct_retain x = upd_cct (\<lambda>cs. cs\<lparr> c_persistent_id :=
     (c_persistent_id cs)(x := c_persistent_id cs x OR HPCRUN_FMT_RetainIdFlag) \<rparr>)"

definition hpcrun_cct_retained :: "ptr \<Rightarrow> cct_store \<Rightarrow> bool" where
  "hpcrun_cct_retained x cs \<longleftrightarrow> c_persistent_id cs x AND HPCRUN_FMT_RetainIdFlag \<noteq> 0"

definition hpcrun_cct_set_children :: "ptr option \<Rightarrow> ptr option \<Rightarrow> cct_state \<Rightarrow> cct_state" where
  "hpcrun_cct_set_children cct children st = (case cct of None \<Rightarrow> st | Some p \<Rightarrow> set_children p children st)"

definition hpcrun_cct_set_parent :: "ptr option \<Rightarrow> ptr option \<Rightarrow> cct_state \<Rightarrow> cct_state" where
  "hpcrun_cct_set_parent cct parent st = (case cct of None \<Rightarrow> st | Some p \<Rightarrow> set_parent p parent st)"

definition cct_remove_my_subtree :: "ptr \<Rightarrow> cct_state \<Rightarrow> cct_state" where
  "cct_remove_my_subtree cct st = set_children cct None st"

text \<open>
  Inserting the path that leads to a node: the walk of the path calls \<open>l_insert_path\<close> at each of its
  nodes, which moves the pointer to the current node of the other tree.
\<close>

definition l_insert_path :: "(cct_state \<times> ptr option) cct_op_t" where
  "l_insert_path node level g = (case g of (cs, st, tree) \<Rightarrow>
     (let st = st\<lparr> st_cct := cs \<rparr>; addr = c_addr cs node
      in if cct_addr_eq addr CCT_ROOT then Some (cs, st, tree)
         else map_option (\<lambda>(tree, st). (st_cct st, st, tree)) (hpcrun_cct_insert_addr tree addr (c_unwound cs node) st)))"

definition hpcrun_cct_insert_path :: "ptr option \<Rightarrow> ptr option \<Rightarrow> cct_state \<Rightarrow> (ptr option \<times> cct_state) option" where
  "hpcrun_cct_insert_path rt path st =
     map_option (\<lambda>(cs, st, tree). (tree, st\<lparr> st_cct := cs \<rparr>)) (hpcrun_walk_path path l_insert_path (st_cct st, st, rt))"

section \<open>Merging\<close>

text \<open>
  \<open>merge\<close> is the client's operation on two nodes. The functions call each other; \<open>n\<close> bounds the depth of the
  calls, and a deeper computation gives \<open>None\<close>.
\<close>

type_synonym 'x merge_op_t = "ptr \<Rightarrow> ptr \<Rightarrow> cct_state \<times> 'x \<Rightarrow> (cct_state \<times> 'x) option"

definition attach_to_a :: "ptr \<Rightarrow> unit cct_op_t" where
  "attach_to_a targ node level g = Some ((fst g)\<lparr> c_parent := (c_parent (fst g))(node := Some targ) \<rparr>, snd g)"

definition cct_child_find_cache :: "ptr \<Rightarrow> ip_normalized_t \<Rightarrow> cct_state \<Rightarrow> (ptr option \<times> cct_state) option" where
  "cct_child_find_cache cct addr st = hpcrun_cct_find_addr (Some cct) addr st"

definition cct_disjoint_union_cached :: "ptr option \<Rightarrow> ptr \<Rightarrow> cct_state \<Rightarrow> cct_state option" where
  "cct_disjoint_union_cached target src st = (case target of None \<Rightarrow> Some st
     | Some t \<Rightarrow> (case cct_splay (c_children (st_cct st) t) (c_addr (st_cct st) src) st of None \<Rightarrow> None
       | Some (None, st) \<Rightarrow> Some (set_parent src (Some t) (set_children t (Some src) st))
       | Some (Some found, st) \<Rightarrow>
           Some (set_parent src (Some t) (set_children t (Some src) (link_above src (c_addr (st_cct st) src) found st)))))"

datatype merge_call = Merge ptr ptr | Walkset ptr "ptr option" | Join ptr ptr

type_synonym 'x merge_fn = "merge_call \<Rightarrow> cct_state \<times> 'x \<Rightarrow> (ptr option \<times> cct_state \<times> 'x) option"

definition cct_merge_body :: "'x merge_fn \<Rightarrow> 'x merge_op_t \<Rightarrow> ptr \<Rightarrow> ptr \<Rightarrow> cct_state \<times> 'x \<Rightarrow> (cct_state \<times> 'x) option" where
  "cct_merge_body call merge cct_a cct_b g =
    (case (if hpcrun_cct_is_leaf (Some cct_a) (st_cct (fst g)) \<and> hpcrun_cct_is_leaf (Some cct_b) (st_cct (fst g))
           then merge cct_a cct_b g else Some g) of None \<Rightarrow> None
     | Some (st, x) \<Rightarrow>
        if c_children (st_cct st) cct_a = None then
          (let st = set_children cct_a (c_children (st_cct st) cct_b) st
           in map_option (\<lambda>(cs, _). (set_children cct_b None (st\<lparr> st_cct := cs \<rparr>), x))
             (hpcrun_walk_children (Some cct_b) (attach_to_a cct_a) (st_cct st, ())))
        else
          (case c_children (st_cct st) cct_b of None \<Rightarrow> Some (st, x)
           | Some c \<Rightarrow> (case call (Walkset cct_a (Some c)) (st, x) of None \<Rightarrow> None
             | Some (None, st, x) \<Rightarrow> Some (set_children cct_b None st, x)
             | Some (Some _, st, x) \<Rightarrow> Some (st, x))))"

definition walkset_l_merge_body :: "'x merge_fn \<Rightarrow> ptr \<Rightarrow> ptr \<Rightarrow> cct_state \<times> 'x \<Rightarrow> (ptr option \<times> cct_state \<times> 'x) option" where
  "walkset_l_merge_body call targ cct g =
    (case call (Walkset targ (c_left (st_cct (fst g)) cct)) g of None \<Rightarrow> None
     | Some (l, st, x) \<Rightarrow>
        (let st = (if l = None then set_left_sib cct None st else st)
         in case call (Walkset targ (c_right (st_cct st) cct)) (st, x) of None \<Rightarrow> None
          | Some (r, st, x) \<Rightarrow>
             (let st = (if r = None then set_right_sib cct None st else st)
              in call (Join targ cct) (st, x))))"

definition merge_or_join_body :: "'x merge_fn \<Rightarrow> ptr \<Rightarrow> ptr \<Rightarrow> cct_state \<times> 'x \<Rightarrow> (ptr option \<times> cct_state \<times> 'x) option" where
  "merge_or_join_body call targ n g = (case g of (st, x) \<Rightarrow>
     (case cct_child_find_cache targ (c_addr (st_cct st) n) st of None \<Rightarrow> None
      | Some (Some tmp, st) \<Rightarrow> map_option (\<lambda>(_, g). (Some n, g)) (call (Merge tmp n) (st, x))
      | Some (None, st) \<Rightarrow>
         (let st = hpcrun_cct_node_free (c_left (st_cct st) n) st;
              st = hpcrun_cct_node_free (c_right (st_cct st) n) st
          in map_option (\<lambda>st. (None, st, x)) (cct_disjoint_union_cached (Some targ) n st))))"

primrec cct_merge_call :: "nat \<Rightarrow> 'x merge_op_t \<Rightarrow> 'x merge_fn" where
  "cct_merge_call 0 merge = (\<lambda>call g. None)"
| "cct_merge_call (Suc n) merge = (\<lambda>call g. case call of
     Merge cct_a cct_b \<Rightarrow> map_option (\<lambda>g. (None, g)) (cct_merge_body (cct_merge_call n merge) merge cct_a cct_b g)
   | Walkset targ None \<Rightarrow> Some (None, g)
   | Walkset targ (Some cct) \<Rightarrow> walkset_l_merge_body (cct_merge_call n merge) targ cct g
   | Join targ k \<Rightarrow> merge_or_join_body (cct_merge_call n merge) targ k g)"

definition hpcrun_cct_merge :: "nat \<Rightarrow> 'x merge_op_t \<Rightarrow> ptr \<Rightarrow> ptr \<Rightarrow> cct_state \<times> 'x \<Rightarrow> (cct_state \<times> 'x) option" where
  "hpcrun_cct_merge n merge cct_a cct_b g = cct_merge_body (cct_merge_call n merge) merge cct_a cct_b g"

section \<open>Bundles\<close>

record cct_bundle_t =
  b_top :: ptr
  b_tree_root :: ptr
  b_thread_root :: "ptr option"
  b_partial_unw_root :: ptr
  b_unresolved_root :: ptr
  b_ctxt :: "ptr option"
  b_num_nodes :: u64

text \<open>\<open>ctxt\<close> is the node of the creation context, \<open>attach\<close> the debugging flag \<open>ATTACH_THREAD_CTXT\<close>.\<close>

definition hpcrun_cct_bundle_init :: "bool \<Rightarrow> ptr option \<Rightarrow> cct_state \<Rightarrow> (cct_bundle_t \<times> cct_state) option" where
  "hpcrun_cct_bundle_init attach ctxt st = (case hpcrun_cct_new st of (tp, st) \<Rightarrow>
     (case (if attach \<and> ctxt \<noteq> None then hpcrun_cct_insert_path (Some tp) ctxt st else Some (Some tp, st)) of None \<Rightarrow> None
      | Some (thread_root, st) \<Rightarrow>
         (case hpcrun_cct_new_partial st of (part, st) \<Rightarrow>
            (case hpcrun_cct_top_new UNRESOLVED_ROOT 0 st of (unres, st) \<Rightarrow>
               Some (\<lparr> b_top = tp, b_tree_root = tp, b_thread_root = thread_root, b_partial_unw_root = part,
                  b_unresolved_root = unres, b_ctxt = ctxt, b_num_nodes = 0 \<rparr>, st)))))"

definition hpcrun_empty_cct :: "cct_bundle_t \<Rightarrow> bool" where
  "hpcrun_empty_cct cct \<longleftrightarrow> b_num_nodes cct \<le> 1"

definition hpcrun_cct_bundle_get_no_activity_node :: "cct_bundle_t option \<Rightarrow> cct_state \<Rightarrow> (ptr option \<times> cct_state) option" where
  "hpcrun_cct_bundle_get_no_activity_node cct st = (case cct of None \<Rightarrow> Some (None, st)
     | Some b \<Rightarrow> hpcrun_cct_insert_ip_norm (Some (b_top b)) (ADDR2 HPCRUN_PLACEHOLDER_LM hpcrun_placeholder_no_activity) True st)"

section \<open>The tree a store represents\<close>

text \<open>Addresses are ordered as pairs of load module and offset.\<close>

definition addr_key :: "ip_normalized_t \<Rightarrow> u16 \<times> u64" where
  "addr_key a = (lm_id_of a, lm_ip_of a)"

lemma addr_lt_key: "cct_addr_lt a b \<longleftrightarrow> addr_key a < addr_key b"
  by (auto simp: cct_addr_lt_def ip_normalized_lt_def ip_normalized_gt_def addr_key_def less_prod_simp)

lemma addr_gt_key: "cct_addr_gt a b \<longleftrightarrow> addr_key a > addr_key b"
  by (simp add: cct_addr_gt_def addr_lt_key)

lemma addr_eq_key: "cct_addr_eq a b \<longleftrightarrow> addr_key a = addr_key b"
  by (auto simp: cct_addr_eq_def ip_normalized_eq_def addr_key_def)

abbreviation node_key :: "cct_store \<Rightarrow> ptr \<Rightarrow> u16 \<times> u64" where
  "node_key cs p \<equiv> addr_key (c_addr cs p)"

text \<open>
  A store represents the forest on the nodes \<open>N\<close> with roots \<open>Rt\<close> and children \<open>C\<close>: the splay tree of a node's
  children is the finite map \<open>C p\<close> from addresses to nodes, every other node is the child of exactly its parent,
  a rank rules out cycles, and the roots have no siblings.
\<close>

definition cct_rep :: "cct_store \<Rightarrow> ptr set \<Rightarrow> ptr set \<Rightarrow> (ptr \<Rightarrow> u16 \<times> u64 \<rightharpoonup> ptr) \<Rightarrow> bool" where
  "cct_rep cs N Rt C \<longleftrightarrow> finite N \<and> Rt \<subseteq> N \<and>
     (\<forall>p \<in> N. splay_rep (node_key cs) (c_left cs, c_right cs) (c_children cs p) (C p)) \<and>
     (\<forall>p \<in> N. \<forall>q \<in> ran (C p). q \<in> N \<and> q \<notin> Rt \<and> c_parent cs q = Some p) \<and>
     (\<forall>q \<in> N. q \<notin> Rt \<longrightarrow> (\<exists>p \<in> N. q \<in> ran (C p))) \<and>
     (\<exists>rk :: ptr \<Rightarrow> nat. \<forall>p \<in> N. \<forall>q \<in> ran (C p). rk p < rk q) \<and>
     (\<forall>q \<in> N. c_previous cs q = None) \<and> (\<forall>r \<in> Rt. c_left cs r = None \<and> c_right cs r = None)"

lemma cct_repD:
  assumes "cct_rep cs N Rt C"
  shows "finite N" and "Rt \<subseteq> N"
    and "p \<in> N \<Longrightarrow> splay_rep (node_key cs) (c_left cs, c_right cs) (c_children cs p) (C p)"
    and "p \<in> N \<Longrightarrow> q \<in> ran (C p) \<Longrightarrow> q \<in> N \<and> q \<notin> Rt \<and> c_parent cs q = Some p"
    and "q \<in> N \<Longrightarrow> q \<notin> Rt \<Longrightarrow> \<exists>p \<in> N. q \<in> ran (C p)"
    and "q \<in> N \<Longrightarrow> c_previous cs q = None"
    and "r \<in> Rt \<Longrightarrow> c_left cs r = None \<and> c_right cs r = None"
  using assms by (simp_all add: cct_rep_def)

lemma cct_rep_disjoint:
  assumes "cct_rep cs N Rt C" and "p \<in> N" and "p' \<in> N" and "p \<noteq> p'"
  shows "ran (C p) \<inter> ran (C p') = {}"
proof -
  have "c_parent cs q = Some p" if "q \<in> ran (C p)" for q using cct_repD(4) [OF assms(1,2) that] by blast
  moreover have "c_parent cs q = Some p'" if "q \<in> ran (C p')" for q using cct_repD(4) [OF assms(1,3) that] by blast
  ultimately show ?thesis using assms(4) by fastforce
qed

text \<open>Replacing the children of one node, perhaps with one new node among them.\<close>

lemma cct_rep_replace:
  assumes rep: "cct_rep cs N Rt C" and p: "p \<in> N" and X: "X \<inter> N = {}" "finite X"
    and m: "splay_rep (node_key cs') (c_left cs', c_right cs') (c_children cs' p) m" "ran m = ran (C p) \<union> X"
    and same: "\<And>q. q \<in> N \<Longrightarrow> c_addr cs' q = c_addr cs q \<and> c_parent cs' q = c_parent cs q \<and> c_previous cs' q = c_previous cs q"
    and kids: "\<And>q. q \<in> N \<Longrightarrow> q \<noteq> p \<Longrightarrow> c_children cs' q = c_children cs q"
    and links: "\<And>q. q \<in> N \<Longrightarrow> q \<notin> ran (C p) \<Longrightarrow> c_left cs' q = c_left cs q \<and> c_right cs' q = c_right cs q"
    and new: "\<And>n. n \<in> X \<Longrightarrow> c_parent cs' n = Some p \<and> c_children cs' n = None \<and> c_previous cs' n = None"
  shows "cct_rep cs' (N \<union> X) Rt (\<lambda>q. if q = p then m else if q \<in> X then Map.empty else C q)"
proof -
  let ?C = "\<lambda>q. if q = p then m else if q \<in> X then Map.empty else C q"
  note R = cct_repD [OF rep]
  have split: "splay_rep (node_key cs') (c_left cs', c_right cs') (c_children cs' q) (?C q)" if "q \<in> N \<union> X" for q
  proof (cases "q = p \<or> q \<in> X")
    case True
    then show ?thesis using m(1) new p X by auto
  next
    case False
    with that have q: "q \<in> N" "q \<noteq> p" by auto
    have dis: "ran (C p) \<inter> ran (C q) = {}" using cct_rep_disjoint [OF rep p q(1)] q(2) by simp
    have "splay_rep (node_key cs') (c_left cs', c_right cs') (c_children cs q) (C q)"
      using same links R(4) [OF q(1)] dis by (intro splay_rep_cong [OF R(3) [OF q(1)]]) auto
    then show ?thesis using False kids [OF q] by simp
  qed
  obtain rk :: "ptr \<Rightarrow> nat" where rk: "\<forall>p \<in> N. \<forall>q \<in> ran (C p). rk p < rk q"
    using rep unfolding cct_rep_def by blast
  have rank: "\<exists>rk :: ptr \<Rightarrow> nat. \<forall>q \<in> N \<union> X. \<forall>c \<in> ran (?C q). rk q < rk c"
  proof (intro exI ballI)
    fix q c assume "q \<in> N \<union> X" "c \<in> ran (?C q)"
    then show "(\<lambda>q. if q \<in> X then Suc (rk p) else rk q) q < (\<lambda>q. if q \<in> X then Suc (rk p) else rk q) c"
      using rk m(2) X p R(4) by (auto split: if_splits)
  qed
  have kids': "c \<in> N \<union> X \<and> c \<notin> Rt \<and> c_parent cs' c = Some q" if "q \<in> N \<union> X" "c \<in> ran (?C q)" for q c
    using that R(2,4) m(2) new same X p by (auto split: if_splits)
  have par: "\<exists>q \<in> N \<union> X. c \<in> ran (?C q)" if c: "c \<in> N \<union> X" "c \<notin> Rt" for c
  proof (cases "c \<in> X")
    case True
    then show ?thesis using m(2) p by (intro bexI [of _ p]) auto
  next
    case False
    with c R(5) obtain q where "q \<in> N" "c \<in> ran (C q)" by blast
    then show ?thesis using m(2) X by (intro bexI [of _ q]) auto
  qed
  show ?thesis
    unfolding cct_rep_def
  proof (intro conjI ballI impI)
    show "c_previous cs' q = None" if "q \<in> N \<union> X" for q using that same new R(6) by auto
    show "c_left cs' r = None" "c_right cs' r = None" if "r \<in> Rt" for r
      using that R(2,7) R(4) [OF p] links [of r] by auto
  qed (use R(1,2) X(2) split kids' par rank in \<open>auto\<close>)
qed

section \<open>The free list\<close>

text \<open>
  The free list is linked by the parent field; each of its nodes heads a tree of free nodes, linked by
  \<open>left\<close>, \<open>right\<close> and \<open>children\<close>, that is taken apart when the node is reused.
\<close>

fun links_at :: "cct_store \<Rightarrow> ptr option \<Rightarrow> sib \<Rightarrow> bool" where
  "links_at cs p SNil \<longleftrightarrow> p = None"
| "links_at cs p (SNode l a c r) \<longleftrightarrow> p = Some a \<and> links_at cs (c_left cs a) l \<and> links_at cs (c_children cs a) c \<and>
     links_at cs (c_right cs a) r"

fun forest_at :: "cct_store \<Rightarrow> ptr option \<Rightarrow> sib list \<Rightarrow> bool" where
  "forest_at cs h [] \<longleftrightarrow> h = None"
| "forest_at cs h (t # ts) \<longleftrightarrow> (\<exists>a. h = Some a \<and> links_at cs (Some a) t \<and> forest_at cs (c_parent cs a) ts)"

definition forest_nodes :: "sib list \<Rightarrow> ptr list" where
  "forest_nodes ts = concat (map sib_nodes ts)"

lemma forest_nodes_simps [simp]: "forest_nodes [] = []" "forest_nodes (t # ts) = sib_nodes t @ forest_nodes ts"
  by (simp_all add: forest_nodes_def)

lemma links_at_cong:
  "(\<And>q. q \<in> set (sib_nodes t) \<Longrightarrow> c_left cs' q = c_left cs q \<and> c_right cs' q = c_right cs q \<and> c_children cs' q = c_children cs q) \<Longrightarrow>
   links_at cs' p t \<longleftrightarrow> links_at cs p t"
  by (induction t arbitrary: p) auto

lemma links_at_root: "links_at cs (Some a) t \<Longrightarrow> a \<in> set (sib_nodes t)"
  by (cases t) auto

lemma forest_at_cong:
  assumes "\<And>q. q \<in> set (forest_nodes ts) \<Longrightarrow> c_left cs' q = c_left cs q \<and> c_right cs' q = c_right cs q \<and>
    c_children cs' q = c_children cs q \<and> c_parent cs' q = c_parent cs q"
  shows "forest_at cs' h ts \<longleftrightarrow> forest_at cs h ts"
  using assms
proof (induction ts arbitrary: h)
  case (Cons t ts)
  have "links_at cs' p t \<longleftrightarrow> links_at cs p t" for p by (rule links_at_cong) (use Cons.prems in auto)
  moreover have "forest_at cs' h ts \<longleftrightarrow> forest_at cs h ts" for h by (rule Cons.IH) (use Cons.prems in auto)
  moreover have "links_at cs (Some a) t \<Longrightarrow> c_parent cs' a = c_parent cs a" for a using Cons.prems links_at_root by fastforce
  ultimately show ?case by auto
qed simp

definition free_ok :: "cct_state \<Rightarrow> ptr set \<Rightarrow> bool" where
  "free_ok st N \<longleftrightarrow> (\<exists>ts. forest_at (st_cct st) (st_freelist st) ts \<and> distinct (forest_nodes ts) \<and>
     set (forest_nodes ts) \<inter> N = {} \<and> (\<forall>q \<in> set (forest_nodes ts). q < st_fresh st)) \<and> (\<forall>q \<in> N. q < st_fresh st)"

text \<open>Adding a tree to the free list changes the parent of its root only.\<close>

definition push_tree :: "sib \<Rightarrow> sib list \<Rightarrow> sib list" where
  "push_tree t ts = (if t = SNil then ts else t # ts)"

lemma add_freelist_links: "links_at (st_cct (add_node_to_freelist p st)) p' t' \<longleftrightarrow> links_at (st_cct st) p' t'"
  by (rule links_at_cong) (simp add: add_node_to_freelist_def upd_cct_def split: option.split)

lemma add_freelist:
  assumes "forest_at (st_cct st) (st_freelist st) ts" and "links_at (st_cct st) p t"
    and "set (sib_nodes t) \<inter> set (forest_nodes ts) = {}"
  shows "forest_at (st_cct (add_node_to_freelist p st)) (st_freelist (add_node_to_freelist p st)) (push_tree t ts)"
proof (cases p)
  case None
  with assms(1,2) show ?thesis by (cases t) (auto simp: add_node_to_freelist_def push_tree_def)
next
  case (Some a)
  let ?cs = "st_cct (add_node_to_freelist p st)"
  have a: "a \<in> set (sib_nodes t)" "t \<noteq> SNil" using assms(2) links_at_root Some by (fastforce, cases t) auto
  have "forest_at ?cs (st_freelist st) ts \<longleftrightarrow> forest_at (st_cct st) (st_freelist st) ts"
    by (rule forest_at_cong) (use a(1) assms(3) Some in \<open>auto simp: add_node_to_freelist_def upd_cct_def\<close>)
  moreover have "st_freelist (add_node_to_freelist p st) = Some a" "c_parent ?cs a = st_freelist st"
    by (simp_all add: Some add_node_to_freelist_def upd_cct_def)
  ultimately show ?thesis using assms(1,2) a(2) add_freelist_links [of p st p t] Some by (simp add: push_tree_def)
qed

lemma forest_nodes_push [simp]: "set (forest_nodes (push_tree t ts)) = set (sib_nodes t) \<union> set (forest_nodes ts)"
  and distinct_push: "distinct (forest_nodes (push_tree t ts)) \<longleftrightarrow> distinct (sib_nodes t @ forest_nodes ts)"
  by (auto simp: push_tree_def)

text \<open>An allocation takes a node that is not in use; of the nodes in use it changes nothing.\<close>

definition alloc_frame :: "ptr set \<Rightarrow> cct_state \<Rightarrow> cct_state \<Rightarrow> bool" where
  "alloc_frame N st st' \<longleftrightarrow> (\<exists>f. st_cct st' = (st_cct st)\<lparr> c_parent := f \<rparr> \<and> (\<forall>q \<in> N. f q = c_parent (st_cct st) q)) \<and>
     st_next_id st' = st_next_id st \<and> st_freeable st' = st_freeable st"

lemma add_freelist_frame:
  assumes "alloc_frame N st st'" and "links_at (st_cct st') p t" and "set (sib_nodes t) \<inter> N = {}"
  shows "alloc_frame N st (add_node_to_freelist p st')"
proof (cases p)
  case None
  then show ?thesis using assms(1) by (simp add: add_node_to_freelist_def)
next
  case (Some a)
  then have "a \<notin> N" using assms(2,3) links_at_root by fastforce
  obtain f where f: "st_cct st' = (st_cct st)\<lparr> c_parent := f \<rparr>" "\<forall>q \<in> N. f q = c_parent (st_cct st) q"
    using assms(1) by (auto simp: alloc_frame_def)
  with \<open>a \<notin> N\<close> assms(1) Some show ?thesis
    by (auto simp: alloc_frame_def add_node_to_freelist_def upd_cct_def intro!: exI [of _ "f(a := st_freelist st')"])
qed

lemma reuse_node:
  assumes free: "free_ok st N" and h: "st_freelist st = Some a"
  shows "\<exists>st'. remove_node_from_freelist st = (Some a, st') \<and> a \<notin> N \<and> free_ok st' (insert a N) \<and> alloc_frame N st st'"
proof -
  obtain ts0 where ts0: "forest_at (st_cct st) (Some a) ts0" "distinct (forest_nodes ts0)"
    "set (forest_nodes ts0) \<inter> N = {}" "\<forall>q \<in> set (forest_nodes ts0). q < st_fresh st" and N: "\<forall>q \<in> N. q < st_fresh st"
    using free h unfolding free_ok_def by auto
  obtain t ts where "ts0 = t # ts" using ts0(1) by (cases ts0) auto
  with ts0(1) obtain l c r where ts: "ts0 = SNode l a c r # ts" and t: "links_at (st_cct st) (Some a) (SNode l a c r)"
    and fts: "forest_at (st_cct st) (c_parent (st_cct st) a) ts"
    by (cases t) auto
  have d: "distinct (sib_nodes l @ sib_nodes c @ sib_nodes r @ forest_nodes ts)"
    "a \<notin> set (sib_nodes l) \<union> set (sib_nodes c) \<union> set (sib_nodes r) \<union> set (forest_nodes ts)"
    using ts0(2) by (auto simp: ts)
  have dis: "set (sib_nodes l) \<inter> N = {}" "set (sib_nodes c) \<inter> N = {}" "set (sib_nodes r) \<inter> N = {}" "a \<notin> N"
    using ts0(3) by (auto simp: ts)
  define s0 where "s0 = st\<lparr> st_freelist := c_parent (st_cct st) a \<rparr>"
  define s1 where "s1 = add_node_to_freelist (c_children (st_cct st) a) s0"
  define s2 where "s2 = add_node_to_freelist (c_left (st_cct st) a) s1"
  define s3 where "s3 = add_node_to_freelist (c_right (st_cct st) a) s2"
  have run: "remove_node_from_freelist st = (Some a, s3)"
    by (simp add: remove_node_from_freelist_def h Let_def s0_def s1_def s2_def s3_def)
  have l0: "links_at (st_cct s0) (c_children (st_cct st) a) c" "links_at (st_cct s0) (c_left (st_cct st) a) l"
    "links_at (st_cct s0) (c_right (st_cct st) a) r" "forest_at (st_cct s0) (st_freelist s0) ts"
    using t fts by (simp_all add: s0_def)
  have l1: "links_at (st_cct s1) p' t' \<longleftrightarrow> links_at (st_cct s0) p' t'"
    and l2: "links_at (st_cct s2) p' t' \<longleftrightarrow> links_at (st_cct s0) p' t'" for p' t'
    by (simp_all add: s1_def s2_def add_freelist_links)
  have f1: "forest_at (st_cct s1) (st_freelist s1) (push_tree c ts)"
    unfolding s1_def by (rule add_freelist [OF l0(4,1)]) (use d(1) in auto)
  have f2: "forest_at (st_cct s2) (st_freelist s2) (push_tree l (push_tree c ts))"
    unfolding s2_def by (rule add_freelist [OF f1 l0(2) [folded l1]]) (use d(1) in auto)
  have f3: "forest_at (st_cct s3) (st_freelist s3) (push_tree r (push_tree l (push_tree c ts)))"
    unfolding s3_def by (rule add_freelist [OF f2 l0(3) [folded l2]]) (use d(1) in auto)
  have fr0: "alloc_frame N st s0" by (auto simp: alloc_frame_def s0_def intro!: exI [of _ "c_parent (st_cct st)"])
  have fr1: "alloc_frame N st s1" unfolding s1_def by (rule add_freelist_frame [OF fr0 l0(1) dis(2)])
  have fr2: "alloc_frame N st s2" unfolding s2_def by (rule add_freelist_frame [OF fr1 l0(2) [folded l1] dis(1)])
  have fr3: "alloc_frame N st s3" unfolding s3_def by (rule add_freelist_frame [OF fr2 l0(3) [folded l2] dis(3)])
  have fresh: "st_fresh s3 = st_fresh st"
    by (simp add: s3_def s2_def s1_def s0_def add_node_to_freelist_def upd_cct_def split: option.split)
  have "free_ok s3 (insert a N)"
    unfolding free_ok_def fresh
    using f3 d ts0(3,4) N dis
    by (intro conjI exI [of _ "push_tree r (push_tree l (push_tree c ts))"]) (auto simp: distinct_push ts)
  with run dis(4) fr3 show ?thesis by blast
qed

lemma alloc_ok:
  assumes "free_ok st N"
  shows "\<exists>n st'. (if st_freeable st then cct_malloc st else hpcrun_cct_node_alloc st) = (n, st') \<and> n \<notin> N \<and>
    free_ok st' (insert n N) \<and> alloc_frame N st st'"
proof -
  have m: "\<exists>n st'. cct_malloc st = (n, st') \<and> n \<notin> N \<and> free_ok st' (insert n N) \<and> alloc_frame N st st'"
    using assms by (auto simp: cct_malloc_def free_ok_def alloc_frame_def less_Suc_eq intro!: exI [of _ "c_parent (st_cct st)"])
  show ?thesis
  proof (cases "st_freeable st \<or> st_freelist st = None")
    case True
    with m show ?thesis by (auto simp: hpcrun_cct_node_alloc_def remove_node_from_freelist_def)
  next
    case False
    then obtain a where "st_freelist st = Some a" by auto
    from reuse_node [OF assms this] False show ?thesis by (auto simp: hpcrun_cct_node_alloc_def)
  qed
qed

lemma free_ok_cong:
  assumes "free_ok st N" and "st_fresh st' = st_fresh st" and "st_freelist st' = st_freelist st"
    and "\<And>q. q \<notin> N \<Longrightarrow> c_left (st_cct st') q = c_left (st_cct st) q \<and> c_right (st_cct st') q = c_right (st_cct st) q \<and>
      c_children (st_cct st') q = c_children (st_cct st) q \<and> c_parent (st_cct st') q = c_parent (st_cct st) q"
  shows "free_ok st' N"
proof -
  obtain ts where ts: "forest_at (st_cct st) (st_freelist st) ts" "distinct (forest_nodes ts)"
    "set (forest_nodes ts) \<inter> N = {}" "\<forall>q \<in> set (forest_nodes ts). q < st_fresh st" "\<forall>q \<in> N. q < st_fresh st"
    using assms(1) unfolding free_ok_def by blast
  have "forest_at (st_cct st') (st_freelist st) ts \<longleftrightarrow> forest_at (st_cct st) (st_freelist st) ts"
    by (rule forest_at_cong) (use assms(4) ts(3) in blast)
  with ts assms(2,3) show ?thesis unfolding free_ok_def by auto
qed

section \<open>Creating, finding and inserting\<close>

definition same_node :: "cct_store \<Rightarrow> cct_store \<Rightarrow> ptr \<Rightarrow> bool" where
  "same_node cs cs' q \<longleftrightarrow> c_persistent_id cs' q = c_persistent_id cs q \<and> c_addr cs' q = c_addr cs q \<and>
     c_is_leaf cs' q = c_is_leaf cs q \<and> c_unwound cs' q = c_unwound cs q \<and> c_display cs' q = c_display cs q \<and>
     c_parent cs' q = c_parent cs q \<and> c_previous cs' q = c_previous cs q"

definition created :: "cct_state \<Rightarrow> ip_normalized_t \<Rightarrow> bool \<Rightarrow> ptr option \<Rightarrow> ptr \<Rightarrow> cct_state \<Rightarrow> bool" where
  "created st addr unwound parent n st' \<longleftrightarrow> c_persistent_id (st_cct st') n = st_next_id st \<and> c_addr (st_cct st') n = addr \<and>
     \<not> c_is_leaf (st_cct st') n \<and> c_unwound (st_cct st') n = unwound \<and> \<not> c_display (st_cct st') n \<and>
     c_parent (st_cct st') n = parent \<and> c_previous (st_cct st') n = None"

lemma create_ok:
  assumes "free_ok st N"
  shows "\<exists>n st'. cct_node_create addr unwound parent st = (n, st') \<and> n \<notin> N \<and> free_ok st' (insert n N) \<and>
    created st addr unwound parent n st' \<and> st_next_id st' = st_next_id st + 2 \<and>
    c_children (st_cct st') n = None \<and> c_left (st_cct st') n = None \<and> c_right (st_cct st') n = None \<and>
    (\<forall>q \<in> N. same_node (st_cct st) (st_cct st') q \<and> c_children (st_cct st') q = c_children (st_cct st) q \<and>
      c_left (st_cct st') q = c_left (st_cct st) q \<and> c_right (st_cct st') q = c_right (st_cct st) q)"
proof -
  obtain n st1 where a: "(if st_freeable st then cct_malloc st else hpcrun_cct_node_alloc st) = (n, st1)" "n \<notin> N"
    "free_ok st1 (insert n N)" "alloc_frame N st st1"
    using alloc_ok [OF assms] by blast
  obtain f where f: "st_cct st1 = (st_cct st)\<lparr> c_parent := f \<rparr>" "\<forall>q \<in> N. f q = c_parent (st_cct st) q"
    "st_next_id st1 = st_next_id st"
    using a(4) by (auto simp: alloc_frame_def)
  define st' where "st' = snd (cct_node_create addr unwound parent st)"
  have run: "cct_node_create addr unwound parent st = (n, st')"
    unfolding st'_def by (simp add: cct_node_create_def a(1) new_persistent_id_def)
  have st': "st' = upd_cct (\<lambda>cs. \<lparr> c_persistent_id = (c_persistent_id cs)(n := st_next_id st),
              c_addr = (c_addr cs)(n := addr), c_is_leaf = (c_is_leaf cs)(n := False),
              c_unwound = (c_unwound cs)(n := unwound), c_display = (c_display cs)(n := False),
              c_parent = (c_parent cs)(n := parent), c_children = (c_children cs)(n := None),
              c_left = (c_left cs)(n := None), c_right = (c_right cs)(n := None),
              c_previous = (c_previous cs)(n := None) \<rparr>) (st1\<lparr> st_next_id := st_next_id st + 2 \<rparr>)"
    unfolding st'_def by (simp add: cct_node_create_def a(1) new_persistent_id_def f(3))
  have "free_ok st' (insert n N)"
    by (rule free_ok_cong [OF a(3)]) (auto simp: st' upd_cct_def)
  moreover have "created st addr unwound parent n st'" by (simp add: created_def st' upd_cct_def)
  moreover have "same_node (st_cct st) (st_cct st') q \<and> c_children (st_cct st') q = c_children (st_cct st) q \<and>
      c_left (st_cct st') q = c_left (st_cct st) q \<and> c_right (st_cct st') q = c_right (st_cct st) q" if "q \<in> N" for q
    using that a(2) f(2) by (auto simp: same_node_def st' upd_cct_def f(1))
  ultimately show ?thesis
    using run a(2) by (intro exI [of _ n] exI [of _ st']) (simp add: st' upd_cct_def)
qed

definition cct_inv :: "cct_state \<Rightarrow> ptr set \<Rightarrow> ptr set \<Rightarrow> (ptr \<Rightarrow> u16 \<times> u64 \<rightharpoonup> ptr) \<Rightarrow> bool" where
  "cct_inv st N Rt C \<longleftrightarrow> cct_rep (st_cct st) N Rt C \<and> free_ok st N"

text \<open>Splaying the children of a node keeps the tree and brings up a root that decides the lookup.\<close>

lemma splay_children:
  assumes inv: "cct_inv st N Rt C" and p: "p \<in> N"
  obtains found st1 st' where "cct_splay (c_children (st_cct st) p) frm st = Some (found, st1)"
    and "set_children p found st1 = st'" and "cct_inv st' N Rt C" and "\<forall>q. same_node (st_cct st) (st_cct st') q"
    and "st_next_id st' = st_next_id st"
    and "case found of None \<Rightarrow> C p = Map.empty
      | Some x \<Rightarrow> splay_top (node_key (st_cct st')) (addr_key frm) (c_left (st_cct st'), c_right (st_cct st')) x (C p)"
proof -
  let ?cs = "st_cct st"
  have rep: "cct_rep ?cs N Rt C" and free: "free_ok st N" using inv by (auto simp: cct_inv_def)
  note R = cct_repD [OF rep]
  obtain found l r where s: "REGULAR_SPLAY_TREE (addr_key frm) (node_key ?cs) (c_children ?cs p) (c_left ?cs, c_right ?cs) = Some (found, l, r)"
    "splay_rep (node_key ?cs) (l, r) found (C p)" "\<forall>q. q \<notin> ran (C p) \<longrightarrow> l q = c_left ?cs q \<and> r q = c_right ?cs q"
    "case found of None \<Rightarrow> C p = Map.empty \<and> c_children ?cs p = None | Some x \<Rightarrow> splay_top (node_key ?cs) (addr_key frm) (l, r) x (C p)"
    using splay_rep_splay [OF R(3) [OF p], of "addr_key frm"] by auto
  define st' where "st' = set_children p found (upd_cct (\<lambda>cs. cs\<lparr> c_left := l, c_right := r \<rparr>) st)"
  have st': "st_cct st' = ?cs\<lparr> c_left := l, c_right := r, c_children := (c_children ?cs)(p := found) \<rparr>"
    "st_fresh st' = st_fresh st" "st_freelist st' = st_freelist st" "st_next_id st' = st_next_id st"
    by (simp_all add: st'_def set_children_def upd_cct_def)
  have "cct_rep (st_cct st') (N \<union> {}) Rt (\<lambda>q. if q = p then C p else if q \<in> {} then Map.empty else C q)"
    by (rule cct_rep_replace [OF rep p]) (use s(2,3) in \<open>auto simp: st'\<close>)
  moreover have "(\<lambda>q. if q = p then C p else if q \<in> {} then Map.empty else C q) = C" by auto
  ultimately have "cct_rep (st_cct st') N Rt C" by simp
  moreover have "free_ok st' N"
    using s(3) R(4) [OF p] p by (intro free_ok_cong [OF free]) (auto simp: st')
  moreover have "cct_splay (c_children ?cs p) frm st = Some (found, upd_cct (\<lambda>cs. cs\<lparr> c_left := l, c_right := r \<rparr>) st)"
    using s(1) by (simp add: cct_splay_def REGULAR_SPLAY_TREE_def addr_lt_key addr_gt_key)
  moreover have "\<forall>q. same_node ?cs (st_cct st') q" by (simp add: same_node_def st')
  moreover have "case found of None \<Rightarrow> C p = Map.empty
        | Some x \<Rightarrow> splay_top (node_key (st_cct st')) (addr_key frm) (c_left (st_cct st'), c_right (st_cct st')) x (C p)"
    using s(4) by (auto simp: st' split: option.splits)
  ultimately show thesis
    using st'(4) st'_def by (intro that [of found "upd_cct (\<lambda>cs. cs\<lparr> c_left := l, c_right := r \<rparr>) st" st']) (simp_all add: cct_inv_def)
qed

lemma find_addr_rep:
  assumes inv: "cct_inv st N Rt C" and p: "p \<in> N"
  shows "\<exists>st'. hpcrun_cct_find_addr (Some p) frm st = Some (C p (addr_key frm), st') \<and> cct_inv st' N Rt C \<and>
    (\<forall>q. same_node (st_cct st) (st_cct st') q) \<and> st_next_id st' = st_next_id st"
proof -
  obtain found st1 st' where s: "cct_splay (c_children (st_cct st) p) frm st = Some (found, st1)" "set_children p found st1 = st'"
    and F: "cct_inv st' N Rt C" "\<forall>q. same_node (st_cct st) (st_cct st') q" "st_next_id st' = st_next_id st"
    and top: "case found of None \<Rightarrow> C p = Map.empty
      | Some x \<Rightarrow> splay_top (node_key (st_cct st')) (addr_key frm) (c_left (st_cct st'), c_right (st_cct st')) x (C p)"
    by (rule splay_children [OF inv p])
  have "hpcrun_cct_find_addr (Some p) frm st = Some (C p (addr_key frm), st')"
  proof (cases found)
    case None
    then show ?thesis using top s by (simp add: hpcrun_cct_find_addr_def)
  next
    case (Some x)
    then have "C p (addr_key frm) = (if node_key (st_cct st') x = addr_key frm then Some x else None)"
      using top splay_top_lookup(1) by fastforce
    with Some s show ?thesis by (auto simp: hpcrun_cct_find_addr_def Let_def addr_eq_key)
  qed
  with F show ?thesis by blast
qed

text \<open>Linking a new node above the root of the splayed siblings.\<close>

lemma link_above_rep:
  assumes top: "splay_top (node_key (st_cct st)) (node_key (st_cct st) n) (c_left (st_cct st), c_right (st_cct st)) x m"
    and n: "n \<notin> ran m" and ne: "node_key (st_cct st) x \<noteq> node_key (st_cct st) n" and frm: "c_addr (st_cct st) n = frm"
  shows "splay_rep (node_key (st_cct (link_above n frm x st)))
      (c_left (st_cct (link_above n frm x st)), c_right (st_cct (link_above n frm x st))) (Some n) (m(addr_key frm \<mapsto> n))"
    and "same_node (st_cct st) (st_cct (link_above n frm x st)) q"
    and "c_children (st_cct (link_above n frm x st)) = c_children (st_cct st)"
    and "q \<noteq> n \<Longrightarrow> q \<noteq> x \<Longrightarrow> c_left (st_cct (link_above n frm x st)) q = c_left (st_cct st) q \<and>
      c_right (st_cct (link_above n frm x st)) q = c_right (st_cct st) q"
    and "st_fresh (link_above n frm x st) = st_fresh st" "st_freelist (link_above n frm x st) = st_freelist st"
      "st_next_id (link_above n frm x st) = st_next_id st"
proof -
  have x: "x \<noteq> n" using splay_top_lookup(2) [OF top] n by auto
  note ins = splay_top_insert [OF top n]
  have key: "node_key (st_cct (link_above n frm x st)) = node_key (st_cct st)"
    by (auto simp: link_above_def Let_def set_left_sib_def set_right_sib_def upd_cct_def fun_eq_iff)
  show "splay_rep (node_key (st_cct (link_above n frm x st)))
      (c_left (st_cct (link_above n frm x st)), c_right (st_cct (link_above n frm x st))) (Some n) (m(addr_key frm \<mapsto> n))"
  proof (cases "node_key (st_cct st) n < node_key (st_cct st) x")
    case True
    with ins(1) x frm show ?thesis unfolding key
      by (simp add: link_above_def Let_def set_left_sib_def set_right_sib_def upd_cct_def addr_lt_key fun_upd_twist)
  next
    case False
    with ne have "node_key (st_cct st) n > node_key (st_cct st) x" by (metis linorder_less_linear)
    with False ins(2) x frm show ?thesis unfolding key
      by (simp add: link_above_def Let_def set_left_sib_def set_right_sib_def upd_cct_def addr_lt_key fun_upd_twist)
  qed
qed (auto simp: link_above_def Let_def set_left_sib_def set_right_sib_def upd_cct_def same_node_def)

lemma insert_addr_found:
  assumes inv: "cct_inv st N Rt C" and p: "p \<in> N" and q: "C p (addr_key frm) = Some q"
  shows "\<exists>st'. hpcrun_cct_insert_addr (Some p) frm unwound st = Some (Some q, st') \<and> cct_inv st' N Rt C \<and>
    (\<forall>q. same_node (st_cct st) (st_cct st') q) \<and> st_next_id st' = st_next_id st"
proof -
  obtain found st1 st' where s: "cct_splay (c_children (st_cct st) p) frm st = Some (found, st1)" "set_children p found st1 = st'"
    and F: "cct_inv st' N Rt C" "\<forall>q. same_node (st_cct st) (st_cct st') q" "st_next_id st' = st_next_id st"
    and top: "case found of None \<Rightarrow> C p = Map.empty
      | Some x \<Rightarrow> splay_top (node_key (st_cct st')) (addr_key frm) (c_left (st_cct st'), c_right (st_cct st')) x (C p)"
    by (rule splay_children [OF inv p])
  obtain x where x: "found = Some x" using top q by (cases found) auto
  have "C p (addr_key frm) = (if node_key (st_cct st') x = addr_key frm then Some x else None)"
    using top x splay_top_lookup(1) by fastforce
  with q have "x = q" "node_key (st_cct st') q = addr_key frm" by (auto split: if_splits)
  with x s have "hpcrun_cct_insert_addr (Some p) frm unwound st = Some (Some q, st')"
    by (simp add: hpcrun_cct_insert_addr_def Let_def addr_eq_key)
  with F show ?thesis by blast
qed

text \<open>A new node \<open>n\<close> above the siblings that were splayed for its address, in the store after its creation.\<close>

lemma linked_above:
  assumes top: "case found of None \<Rightarrow> m = Map.empty
      | Some x \<Rightarrow> splay_top (node_key cs) (addr_key frm) (c_left cs, c_right cs) x m"
    and q: "m (addr_key frm) = None" and n: "n \<notin> ran m"
    and new: "c_addr (st_cct st) n = frm" "c_left (st_cct st) n = None" "c_right (st_cct st) n = None"
    and keep: "\<And>q. q \<in> ran m \<Longrightarrow> c_addr (st_cct st) q = c_addr cs q \<and> c_left (st_cct st) q = c_left cs q \<and> c_right (st_cct st) q = c_right cs q"
  shows "let st' = (case found of None \<Rightarrow> st | Some x \<Rightarrow> link_above n frm x st)
    in splay_rep (node_key (st_cct st')) (c_left (st_cct st'), c_right (st_cct st')) (Some n) (m(addr_key frm \<mapsto> n)) \<and>
      (\<forall>q. same_node (st_cct st) (st_cct st') q) \<and> c_children (st_cct st') = c_children (st_cct st) \<and>
      (\<forall>q. q \<noteq> n \<longrightarrow> q \<notin> ran m \<longrightarrow> c_left (st_cct st') q = c_left (st_cct st) q \<and> c_right (st_cct st') q = c_right (st_cct st) q) \<and>
      st_fresh st' = st_fresh st \<and> st_freelist st' = st_freelist st \<and> st_next_id st' = st_next_id st"
proof (cases found)
  case None
  then have "m = Map.empty" using top by simp
  with None new splay_rep_single [of "(c_left (st_cct st), c_right (st_cct st))" n "node_key (st_cct st)"] show ?thesis
    by (simp add: same_node_def)
next
  case (Some x)
  have top2: "splay_top (node_key cs) (addr_key frm) (c_left cs, c_right cs) x m" using top Some by simp
  have x: "x \<in> ran m" "node_key cs x \<noteq> addr_key frm" using splay_top_lookup [OF top2] q by auto
  have "splay_top (node_key (st_cct st)) (addr_key frm) (c_left (st_cct st), c_right (st_cct st)) x m"
    by (rule splay_top_cong [OF top2]) (simp add: keep)
  moreover have "node_key (st_cct st) x \<noteq> addr_key frm" using x keep by simp
  ultimately have L: "splay_top (node_key (st_cct st)) (node_key (st_cct st) n) (c_left (st_cct st), c_right (st_cct st)) x m"
    "node_key (st_cct st) x \<noteq> node_key (st_cct st) n" using new(1) by simp_all
  note la = link_above_rep [OF L(1) n L(2) new(1)]
  from la x(1) Some show ?thesis unfolding Let_def by auto
qed

lemma insert_addr_new:
  assumes inv: "cct_inv st N Rt C" and p: "p \<in> N" and q: "C p (addr_key frm) = None"
  shows "\<exists>n st'. hpcrun_cct_insert_addr (Some p) frm unwound st = Some (Some n, st') \<and> n \<notin> N \<and>
    cct_inv st' (insert n N) Rt (C(p := (C p)(addr_key frm \<mapsto> n), n := Map.empty)) \<and>
    (\<forall>q \<in> N. same_node (st_cct st) (st_cct st') q) \<and> created st frm unwound (Some p) n st' \<and>
    st_next_id st' = st_next_id st + 2"
proof -
  obtain found st1 st2 where s: "cct_splay (c_children (st_cct st) p) frm st = Some (found, st1)" "set_children p found st1 = st2"
    and F: "cct_inv st2 N Rt C" "\<forall>q. same_node (st_cct st) (st_cct st2) q" "st_next_id st2 = st_next_id st"
    and top: "case found of None \<Rightarrow> C p = Map.empty
      | Some x \<Rightarrow> splay_top (node_key (st_cct st2)) (addr_key frm) (c_left (st_cct st2), c_right (st_cct st2)) x (C p)"
    by (rule splay_children [OF inv p])
  have rep: "cct_rep (st_cct st2) N Rt C" and free: "free_ok st2 N" using F(1) by (auto simp: cct_inv_def)
  note R = cct_repD [OF rep]
  obtain n st3 where c: "cct_node_create frm unwound (Some p) st2 = (n, st3)" "n \<notin> N" "free_ok st3 (insert n N)"
    "created st2 frm unwound (Some p) n st3" "st_next_id st3 = st_next_id st2 + 2"
    "c_children (st_cct st3) n = None" "c_left (st_cct st3) n = None" "c_right (st_cct st3) n = None"
    and keep: "\<And>q. q \<in> N \<Longrightarrow> same_node (st_cct st2) (st_cct st3) q \<and> c_children (st_cct st3) q = c_children (st_cct st2) q \<and>
      c_left (st_cct st3) q = c_left (st_cct st2) q \<and> c_right (st_cct st3) q = c_right (st_cct st2) q"
    using create_ok [OF free] by metis
  define st4 where "st4 = set_children p (Some n) st3"
  define st5 where "st5 = (case found of None \<Rightarrow> st4 | Some x \<Rightarrow> link_above n frm x st4)"
  have st4: "st_cct st4 = (st_cct st3)\<lparr> c_children := (c_children (st_cct st3))(p := Some n) \<rparr>" "st_fresh st4 = st_fresh st3"
    "st_freelist st4 = st_freelist st3" "st_next_id st4 = st_next_id st3"
    by (simp_all add: st4_def set_children_def upd_cct_def)
  have n: "n \<notin> ran (C p)" using R(4) [OF p] c(2) by blast
  have st5: "splay_rep (node_key (st_cct st5)) (c_left (st_cct st5), c_right (st_cct st5)) (Some n) ((C p)(addr_key frm \<mapsto> n)) \<and>
    (\<forall>q. same_node (st_cct st4) (st_cct st5) q) \<and> c_children (st_cct st5) = c_children (st_cct st4) \<and>
    (\<forall>q. q \<noteq> n \<longrightarrow> q \<notin> ran (C p) \<longrightarrow> c_left (st_cct st5) q = c_left (st_cct st4) q \<and> c_right (st_cct st5) q = c_right (st_cct st4) q) \<and>
    st_fresh st5 = st_fresh st4 \<and> st_freelist st5 = st_freelist st4 \<and> st_next_id st5 = st_next_id st4"
    unfolding st5_def
    by (rule linked_above [OF top q n, unfolded Let_def]) (use c(4,7,8) R(4) [OF p] keep in \<open>auto simp: st4 created_def same_node_def\<close>)
  have run: "hpcrun_cct_insert_addr (Some p) frm unwound st = Some (Some n, st5)"
    using s c(1) top q splay_top_lookup(1)
    by (cases found) (force simp: hpcrun_cct_insert_addr_def Let_def addr_eq_key st5_def st4_def)+
  have "cct_rep (st_cct st5) (N \<union> {n}) Rt (\<lambda>q. if q = p then (C p)(addr_key frm \<mapsto> n) else if q \<in> {n} then Map.empty else C q)"
  proof (rule cct_rep_replace [OF rep p])
    have nN: "x \<noteq> n" if "x \<in> N" for x using that c(2) by blast
    show "{n} \<inter> N = {}" "finite {n}" using c(2) by auto
    show "ran ((C p)(addr_key frm \<mapsto> n)) = ran (C p) \<union> {n}" using q by auto
    show "splay_rep (node_key (st_cct st5)) (c_left (st_cct st5), c_right (st_cct st5)) (c_children (st_cct st5) p) ((C p)(addr_key frm \<mapsto> n))"
      using st5 by (simp add: st4)
    show "c_addr (st_cct st5) x = c_addr (st_cct st2) x \<and> c_parent (st_cct st5) x = c_parent (st_cct st2) x \<and>
      c_previous (st_cct st5) x = c_previous (st_cct st2) x" if "x \<in> N" for x
      using st5 keep [OF that] by (simp add: st4 same_node_def)
    show "c_children (st_cct st5) x = c_children (st_cct st2) x" if "x \<in> N" "x \<noteq> p" for x
      using st5 keep [OF that(1)] that by (simp add: st4)
    show "c_left (st_cct st5) x = c_left (st_cct st2) x \<and> c_right (st_cct st5) x = c_right (st_cct st2) x"
      if "x \<in> N" "x \<notin> ran (C p)" for x
      using st5 keep [OF that(1)] that nN by (simp add: st4)
    show "c_parent (st_cct st5) x = Some p \<and> c_children (st_cct st5) x = None \<and> c_previous (st_cct st5) x = None"
      if "x \<in> {n}" for x
      using that st5 c(4,6) nN [OF p] by (auto simp: st4 same_node_def created_def)
  qed
  moreover have "(\<lambda>q. if q = p then (C p)(addr_key frm \<mapsto> n) else if q \<in> {n} then Map.empty else C q) =
      C(p := (C p)(addr_key frm \<mapsto> n), n := Map.empty)" using p c(2) by auto
  moreover have "free_ok st5 (insert n N)"
    using st5 R(4) [OF p] p by (intro free_ok_cong [OF c(3)]) (auto simp: st4 same_node_def)
  moreover have "\<forall>q \<in> N. same_node (st_cct st) (st_cct st5) q"
    using F(2) keep st5 by (simp add: same_node_def st4)
  moreover have "created st frm unwound (Some p) n st5"
    using c(4) F(3) st5 by (simp add: created_def same_node_def st4)
  ultimately show ?thesis
    using st5 run c(2,5) F(3) by (intro exI [of _ n] exI [of _ st5]) (simp add: cct_inv_def st4)
qed

end
