(* ===== verification/Cct_Trie.thy ===== *)
theory Cct_Trie
  imports Cct "HOL-Library.Sublist"
begin

text \<open>
  The calling context tree as a trie: what a sequence of insertions makes of the paths of the tree, that a
  node is reached by one path only and that its parents lead back along it, and that the persistent
  identifiers of the nodes differ.
\<close>

section \<open>Paths\<close>

type_synonym kids = "ptr \<Rightarrow> u16 \<times> u64 \<rightharpoonup> ptr"

primrec follow :: "kids \<Rightarrow> ptr \<Rightarrow> (u16 \<times> u64) list \<Rightarrow> ptr option" where
  "follow C p [] = Some p"
| "follow C p (k # ks) = Option.bind (C p k) (\<lambda>q. follow C q ks)"

definition closed_in :: "ptr set \<Rightarrow> kids \<Rightarrow> bool" where
  "closed_in N C \<longleftrightarrow> (\<forall>p \<in> N. ran (C p) \<subseteq> N)"

lemma cct_inv_closed: "cct_inv st N Rt C \<Longrightarrow> closed_in N C"
  using cct_repD(4) by (fastforce simp: cct_inv_def closed_in_def)

lemma closed_step: "closed_in N C \<Longrightarrow> p \<in> N \<Longrightarrow> C p k = Some q \<Longrightarrow> q \<in> N"
  by (meson closed_in_def ranI subsetD)

lemma follow_append: "follow C p (ks @ ls) = Option.bind (follow C p ks) (\<lambda>q. follow C q ls)"
  by (induction ks arbitrary: p) (auto simp: Option.bind_assoc split: Option.bind_split)

lemma follow_closed: "closed_in N C \<Longrightarrow> p \<in> N \<Longrightarrow> follow C p ks = Some q \<Longrightarrow> q \<in> N"
  by (induction ks arbitrary: p) (auto dest: closed_step split: Option.bind_splits)

text \<open>One new child \<open>n\<close> of \<open>p\<close> adds one path for each path to \<open>p\<close>, and changes no other.\<close>

definition child_new :: "kids \<Rightarrow> ptr \<Rightarrow> u16 \<times> u64 \<Rightarrow> ptr \<Rightarrow> kids" where
  "child_new C p k n = C(p := (C p)(k \<mapsto> n), n := Map.empty)"

lemma follow_child_new:
  assumes "closed_in N C" "p \<in> N" "n \<notin> N" "C p k = None" "x \<in> N"
  shows "follow (child_new C p k n) x ks = (case follow C x ks of Some q \<Rightarrow> Some q
     | None \<Rightarrow> if \<exists>w. ks = w @ [k] \<and> follow C x w = Some p then Some n else None)"
  using assms(5)
proof (induction ks arbitrary: x)
  case (Cons j ks)
  have xn: "x \<noteq> n" using Cons.prems assms(3) by blast
  have pn: "p \<noteq> n" using assms(2,3) by blast
  show ?case
  proof (cases "x = p \<and> j = k")
    case True
    have "follow (child_new C p k n) n ks = (if ks = [] then Some n else None)"
      by (cases ks) (simp_all add: child_new_def)
    moreover have "(\<exists>w. k # ks = w @ [k] \<and> follow C p w = Some p) \<longleftrightarrow> ks = []"
    proof
      assume "\<exists>w. k # ks = w @ [k] \<and> follow C p w = Some p"
      then obtain w where w: "k # ks = w @ [k]" "follow C p w = Some p" by blast
      with assms(4) show "ks = []" by (cases w) auto
    qed (auto intro: exI [of _ "[]"])
    moreover have "child_new C p k n p k = Some n" using pn by (simp add: child_new_def)
    ultimately show ?thesis using True assms(4) by auto
  next
    case False
    then have C: "child_new C p k n x j = C x j" using xn by (auto simp: child_new_def)
    show ?thesis
    proof (cases "C x j")
      case None
      have "\<not> (\<exists>w. j # ks = w @ [k] \<and> follow C x w = Some p)"
      proof
        assume "\<exists>w. j # ks = w @ [k] \<and> follow C x w = Some p"
        then obtain w where "j # ks = w @ [k]" "follow C x w = Some p" by blast
        with None False show False by (cases w) auto
      qed
      with None C show ?thesis by simp
    next
      case (Some y)
      have "(\<exists>w. j # ks = w @ [k] \<and> follow C x w = Some p) \<longleftrightarrow> (\<exists>w. ks = w @ [k] \<and> follow C y w = Some p)"
      proof
        assume "\<exists>w. j # ks = w @ [k] \<and> follow C x w = Some p"
        then obtain w where w: "j # ks = w @ [k]" "follow C x w = Some p" by blast
        with False Some show "\<exists>w. ks = w @ [k] \<and> follow C y w = Some p" by (cases w) auto
      next
        assume "\<exists>w. ks = w @ [k] \<and> follow C y w = Some p"
        then obtain w where "ks = w @ [k]" "follow C y w = Some p" by blast
        with Some show "\<exists>w. j # ks = w @ [k] \<and> follow C x w = Some p" by (intro exI [of _ "j # w"]) simp
      qed
      with Some C Cons.IH [OF closed_step [OF assms(1) Cons.prems Some]] show ?thesis by auto
    qed
  qed
qed simp

text \<open>A node has one path from the roots, and its parents lead back along it.\<close>

fun path_up :: "cct_store \<Rightarrow> ptr \<Rightarrow> (u16 \<times> u64) list \<Rightarrow> ptr \<Rightarrow> bool" where
  "path_up cs q [] r \<longleftrightarrow> q = r"
| "path_up cs q (k # ks) r \<longleftrightarrow> node_key cs q = k \<and> (\<exists>p. c_parent cs q = Some p \<and> path_up cs p ks r)"

lemma follow_snoc_cases:
  assumes "follow C p (ks @ [k]) = Some q"
  obtains x where "follow C p ks = Some x" "C x k = Some q"
  using assms by (auto simp: follow_append split: Option.bind_splits)

lemma cct_rep_step:
  assumes "cct_rep cs N Rt C" and "p \<in> N" and "C p k = Some q"
  shows "q \<in> N \<and> q \<notin> Rt \<and> c_parent cs q = Some p \<and> node_key cs q = k"
  using cct_repD(4) [OF assms(1,2) ranI [of "C p" k q, OF assms(3)]] splay_rep_val [OF cct_repD(3) [OF assms(1,2)] assms(3)] by blast

lemma follow_up:
  assumes inv: "cct_inv st N Rt C" and "p \<in> N" and "follow C p ks = Some q"
  shows "path_up (st_cct st) q (rev ks) p"
  using assms(3)
proof (induction ks arbitrary: q rule: rev_induct)
  case (snoc k ks)
  from snoc.prems obtain x where x: "follow C p ks = Some x" "C x k = Some q" by (rule follow_snoc_cases)
  have xN: "x \<in> N" using follow_closed [OF cct_inv_closed [OF inv] assms(2) x(1)] .
  have rep: "cct_rep (st_cct st) N Rt C" using inv by (simp add: cct_inv_def)
  from snoc.IH [OF x(1)] cct_rep_step [OF rep xN x(2)] show ?case by simp
qed simp

lemma root_not_below:
  assumes inv: "cct_inv st N Rt C" and "r \<in> N" "q \<in> Rt" and "follow C r ks = Some q"
  shows "ks = []"
proof (cases ks rule: rev_cases)
  case (snoc ls k)
  with assms(4) obtain x where x: "follow C r ls = Some x" "C x k = Some q" by (auto elim: follow_snoc_cases)
  have "x \<in> N" using follow_closed [OF cct_inv_closed [OF inv] assms(2) x(1)] .
  with x(2) cct_rep_step [of "st_cct st" N Rt C x k q] inv assms(3) show ?thesis by (auto simp: cct_inv_def)
qed

lemma follow_inj:
  assumes inv: "cct_inv st N Rt C" and "r \<in> Rt" "r' \<in> Rt" and "follow C r ks = Some q" "follow C r' ls = Some q"
  shows "r = r' \<and> ks = ls"
  using assms(4,5)
proof (induction ks arbitrary: q ls rule: rev_induct)
  case Nil
  have rep: "cct_rep (st_cct st) N Rt C" using inv by (simp add: cct_inv_def)
  have N: "r \<in> N" "r' \<in> N" using cct_repD(2) [OF rep] assms(2,3) by auto
  have "q = r" using Nil by simp
  with root_not_below [OF inv N(2), of q ls] assms(2) Nil(2) show ?case by auto
next
  case (snoc k ks)
  have rep: "cct_rep (st_cct st) N Rt C" using inv by (simp add: cct_inv_def)
  have N: "r \<in> N" "r' \<in> N" using cct_repD(2) [OF rep] assms(2,3) by auto
  from snoc.prems(1) obtain x where x: "follow C r ks = Some x" "C x k = Some q" by (rule follow_snoc_cases)
  have xN: "x \<in> N" using follow_closed [OF cct_inv_closed [OF inv] N(1) x(1)] .
  have q: "q \<notin> Rt" "c_parent (st_cct st) q = Some x" "node_key (st_cct st) q = k"
    using cct_rep_step [OF rep xN x(2)] by auto
  show ?case
  proof (cases ls rule: rev_cases)
    case Nil
    with snoc.prems(2) q(1) assms(3) show ?thesis by auto
  next
    case (snoc ls' k')
    with snoc.prems(2) obtain y where y: "follow C r' ls' = Some y" "C y k' = Some q" by (auto elim: follow_snoc_cases)
    have yN: "y \<in> N" using follow_closed [OF cct_inv_closed [OF inv] N(2) y(1)] .
    have "c_parent (st_cct st) q = Some y" "node_key (st_cct st) q = k'"
      using cct_rep_step [OF rep yN y(2)] by auto
    with q have "x = y" "k = k'" by simp_all
    with snoc.IH [OF x(1)] y(1) snoc show ?thesis by simp
  qed
qed

lemma follow_reaches:
  assumes inv: "cct_inv st N Rt C" and "q \<in> N"
  shows "\<exists>r \<in> Rt. \<exists>ks. follow C r ks = Some q"
proof -
  have rep: "cct_rep (st_cct st) N Rt C" using inv by (simp add: cct_inv_def)
  then obtain rk :: "ptr \<Rightarrow> nat" where rk: "\<And>p q. p \<in> N \<Longrightarrow> q \<in> ran (C p) \<Longrightarrow> rk p < rk q"
    unfolding cct_rep_def by blast
  show ?thesis
    using assms(2)
  proof (induction "rk q" arbitrary: q rule: less_induct)
    case less
    show ?case
    proof (cases "q \<in> Rt")
      case True
      then show ?thesis by (intro bexI [of _ q] exI [of _ "[]"]) simp_all
    next
      case False
      then obtain p k where p: "p \<in> N" "C p k = Some q" using cct_repD(5) [OF rep less.prems] unfolding ran_def by blast
      then have "rk p < rk q" using rk [OF p(1) ranI [of "C p" k q, OF p(2)]] by simp
      with less.hyps [OF _ p(1)] obtain r ks where "r \<in> Rt" "follow C r ks = Some p" by blast
      with p(2) show ?thesis by (intro bexI [of _ r] exI [of _ "ks @ [k]"]) (simp_all add: follow_append)
    qed
  qed
qed

section \<open>Insertions\<close>

text \<open>
  Adding the path \<open>ks\<close> below the node that \<open>w\<close> leads to from the root \<open>r\<close>: every old path leads to its old node,
  the new paths are the prefixes of \<open>ks\<close> below \<open>w\<close>, and \<open>w @ ks\<close> leads to \<open>q\<close>.
\<close>

definition paths_of :: "kids \<Rightarrow> ptr \<Rightarrow> (u16 \<times> u64) list set" where
  "paths_of C r = {ks. follow C r ks \<noteq> None}"

definition trie_added :: "ptr set \<Rightarrow> kids \<Rightarrow> kids \<Rightarrow> ptr \<Rightarrow> (u16 \<times> u64) list \<Rightarrow> (u16 \<times> u64) list \<Rightarrow> ptr \<Rightarrow> bool" where
  "trie_added Rt C C' r w ks q \<longleftrightarrow>
     (\<forall>x \<in> Rt. \<forall>ls y. follow C x ls = Some y \<longrightarrow> follow C' x ls = Some y) \<and>
     (\<forall>x \<in> Rt. paths_of C' x = paths_of C x \<union> (if x = r then {w @ v |v. prefix v ks} else {})) \<and>
     follow C' r (w @ ks) = Some q"

lemma trie_added_Nil: "follow C r w = Some p \<Longrightarrow> trie_added Rt C C r w [] p"
  by (auto simp: trie_added_def paths_of_def)

lemma trie_added_Cons:
  assumes "trie_added Rt C C1 r w [k] q1" and "trie_added Rt C1 C2 r (w @ [k]) ks q"
  shows "trie_added Rt C C2 r w (k # ks) q"
proof -
  define A B where "A = {w @ v |v. prefix v [k]}" and "B = {(w @ [k]) @ v |v. prefix v ks}"
  have AB: "A \<union> B = {w @ v |v. prefix v (k # ks)}" by (auto simp: A_def B_def prefix_Cons)
  have "paths_of C1 x = paths_of C x \<union> (if x = r then A else {})" "paths_of C2 x = paths_of C1 x \<union> (if x = r then B else {})"
    if "x \<in> Rt" for x using assms that by (simp_all only: trie_added_def A_def B_def)
  then have "paths_of C2 x = paths_of C x \<union> (if x = r then A \<union> B else {})" if "x \<in> Rt" for x
    using that by auto
  with assms show ?thesis unfolding trie_added_def AB by simp
qed

text \<open>The identifiers in use are positive, below the counter and differ; and no node is marked for writing yet.\<close>

definition ids_ok :: "cct_state \<Rightarrow> ptr set \<Rightarrow> bool" where
  "ids_ok st N \<longleftrightarrow> inj_on (c_persistent_id (st_cct st)) N \<and>
     (\<forall>q \<in> N. 0 < c_persistent_id (st_cct st) q \<and> c_persistent_id (st_cct st) q < st_next_id st \<and> \<not> c_display (st_cct st) q)"

text \<open>The counter can be advanced \<open>k\<close> times before the identifiers, which are signed in a node, become negative.\<close>

definition ids_left :: "cct_state \<Rightarrow> nat \<Rightarrow> bool" where
  "ids_left st k \<longleftrightarrow> 0 < st_next_id st \<and> unat (st_next_id st) + 2 * k < 2 ^ 31"

lemma ids_ok_same:
  assumes "ids_ok st N" and "\<forall>q \<in> N. same_node (st_cct st) (st_cct st') q" and "st_next_id st' = st_next_id st"
  shows "ids_ok st' N"
  using assms by (auto simp: ids_ok_def same_node_def inj_on_def)

lemma ids_ok_created:
  assumes "ids_ok st N" and "\<forall>q \<in> N. same_node (st_cct st) (st_cct st') q" and "created st a u pr n st'"
    and "st_next_id st' = st_next_id st + 2" and "ids_left st (Suc k)"
  shows "ids_ok st' (insert n N)" and "ids_left st' k"
proof -
  have nx: "unat (st_next_id st') = unat (st_next_id st) + 2"
    using assms(4,5) by (simp add: ids_left_def unat_word_ariths)
  then have le: "st_next_id st < st_next_id st'" by (simp add: word_less_nat_alt)
  have pos: "0 < st_next_id st" using assms(5) by (simp add: ids_left_def)
  have id: "c_persistent_id (st_cct st') n = st_next_id st" "\<not> c_display (st_cct st') n"
    "\<And>q. q \<in> N \<Longrightarrow> c_persistent_id (st_cct st') q = c_persistent_id (st_cct st) q \<and> c_display (st_cct st') q = c_display (st_cct st) q"
    using assms(2,3) by (auto simp: created_def same_node_def)
  show "ids_ok st' (insert n N)"
    unfolding ids_ok_def
  proof
    show "\<forall>q \<in> insert n N. 0 < c_persistent_id (st_cct st') q \<and> c_persistent_id (st_cct st') q < st_next_id st' \<and> \<not> c_display (st_cct st') q"
      using assms(1) id le pos by (auto simp: ids_ok_def)
    show "inj_on (c_persistent_id (st_cct st')) (insert n N)"
      using assms(1) id by (fastforce simp: ids_ok_def inj_on_def)
  qed
  show "ids_left st' k" using nx assms(5) le by (auto simp: ids_left_def word_less_nat_alt)
qed

text \<open>Inserting one address below a node.\<close>

lemma insert_addr_trie:
  assumes inv: "cct_inv st N Rt C" and r: "r \<in> Rt" and w: "follow C r w = Some p"
  obtains q st' C' where "hpcrun_cct_insert_addr (Some p) frm unwound st = Some (Some q, st')"
    and "cct_inv st' (insert q N) Rt C'" and "trie_added Rt C C' r w [addr_key frm] q"
    and "\<forall>q \<in> N. same_node (st_cct st) (st_cct st') q"
    and "\<forall>k. ids_ok st N \<longrightarrow> ids_left st (Suc k) \<longrightarrow> ids_ok st' (insert q N) \<and> ids_left st' k"
proof -
  let ?k = "addr_key frm"
  have rep: "cct_rep (st_cct st) N Rt C" using inv by (simp add: cct_inv_def)
  have RN: "x \<in> N" if "x \<in> Rt" for x using cct_repD(2) [OF rep] that by blast
  have p: "p \<in> N" using follow_closed [OF cct_inv_closed [OF inv] RN [OF r] w] .
  have wk: "{w @ v |v. prefix v [?k]} = {w, w @ [?k]}" by (auto simp: prefix_Cons)
  show thesis
  proof (cases "C p ?k")
    case (Some q)
    then have q: "q \<in> N" using cct_rep_step [OF rep p] by blast
    then have N: "insert q N = N" by blast
    obtain st' where st': "hpcrun_cct_insert_addr (Some p) frm unwound st = Some (Some q, st')" "cct_inv st' N Rt C"
      "\<forall>q. same_node (st_cct st) (st_cct st') q" "st_next_id st' = st_next_id st"
      using insert_addr_found [OF inv p Some] by blast
    have "follow C r (w @ [?k]) = Some q" using w Some by (simp add: follow_append)
    then have "trie_added Rt C C r w [?k] q" using w unfolding trie_added_def wk by (auto simp: paths_of_def)
    moreover have "ids_ok st' N \<and> ids_left st' k" if "ids_ok st N" "ids_left st (Suc k)" for k
      using that ids_ok_same [of st N st'] st'(3,4) by (simp add: ids_left_def)
    ultimately show thesis using that [OF st'(1), of C] st'(2,3) unfolding N by blast
  next
    case None
    obtain n st' where n: "hpcrun_cct_insert_addr (Some p) frm unwound st = Some (Some n, st')" "n \<notin> N"
      "cct_inv st' (insert n N) Rt (child_new C p ?k n)" "\<forall>q \<in> N. same_node (st_cct st) (st_cct st') q"
      "created st frm unwound (Some p) n st'" "st_next_id st' = st_next_id st + 2"
      using insert_addr_new [OF inv p None, of unwound] by (auto simp: child_new_def)
    have f: "follow (child_new C p ?k n) x ks = (case follow C x ks of Some q \<Rightarrow> Some q
       | None \<Rightarrow> if x = r \<and> ks = w @ [?k] then Some n else None)" if x: "x \<in> Rt" for x ks
    proof -
      have "(\<exists>v. ks = v @ [?k] \<and> follow C x v = Some p) \<longleftrightarrow> x = r \<and> ks = w @ [?k]"
        using follow_inj [OF inv x r _ w] w by blast
      then show ?thesis using follow_child_new [OF cct_inv_closed [OF inv] p n(2) None RN [OF x], of ks] by auto
    qed
    have "follow C r (w @ [?k]) = None" using w None by (simp add: follow_append)
    then have "trie_added Rt C (child_new C p ?k n) r w [?k] n"
      using w r unfolding trie_added_def wk by (auto simp: f paths_of_def split: option.splits if_splits)
    with n ids_ok_created [OF _ n(4,5,6)] show thesis by (intro that [OF n(1,3)]) auto
  qed
qed

text \<open>A new root.\<close>

lemma new_root:
  assumes inv: "cct_inv st N Rt C"
  obtains n st' where "cct_node_create addr unwound None st = (n, st')" and "n \<notin> N"
    and "cct_inv st' (insert n N) (insert n Rt) (C(n := Map.empty))"
    and "created st addr unwound None n st'"
    and "\<forall>x ks. x \<in> N \<longrightarrow> follow (C(n := Map.empty)) x ks = follow C x ks" and "paths_of (C(n := Map.empty)) n = {[]}"
    and "\<forall>k. ids_ok st N \<longrightarrow> ids_left st (Suc k) \<longrightarrow> ids_ok st' (insert n N) \<and> ids_left st' k"
    and "\<forall>q \<in> N. same_node (st_cct st) (st_cct st') q"
proof -
  have rep: "cct_rep (st_cct st) N Rt C" and free: "free_ok st N" using inv by (auto simp: cct_inv_def)
  note R = cct_repD [OF rep]
  obtain n st' where c: "cct_node_create addr unwound None st = (n, st')" "n \<notin> N" "free_ok st' (insert n N)"
    "created st addr unwound None n st'" "st_next_id st' = st_next_id st + 2"
    "c_children (st_cct st') n = None" "c_left (st_cct st') n = None" "c_right (st_cct st') n = None"
    and keep: "\<And>q. q \<in> N \<Longrightarrow> same_node (st_cct st) (st_cct st') q \<and> c_children (st_cct st') q = c_children (st_cct st) q \<and>
      c_left (st_cct st') q = c_left (st_cct st) q \<and> c_right (st_cct st') q = c_right (st_cct st) q"
    using create_ok [OF free, of addr unwound None] by blast
  let ?C = "C(n := Map.empty)"
  have nN: "q \<noteq> n" if "q \<in> N" for q using that c(2) by blast
  obtain rk :: "ptr \<Rightarrow> nat" where rk: "\<forall>p \<in> N. \<forall>q \<in> ran (C p). rk p < rk q"
    using rep unfolding cct_rep_def by blast
  have "cct_rep (st_cct st') (insert n N) (insert n Rt) ?C"
    unfolding cct_rep_def
  proof (intro conjI ballI impI)
    show "finite (insert n N)" "insert n Rt \<subseteq> insert n N" using R(1,2) by auto
    show "splay_rep (node_key (st_cct st')) (c_left (st_cct st'), c_right (st_cct st')) (c_children (st_cct st') p) (?C p)"
      if "p \<in> insert n N" for p
    proof (cases "p = n")
      case False
      with that have p: "p \<in> N" by blast
      have "splay_rep (node_key (st_cct st')) (c_left (st_cct st'), c_right (st_cct st')) (c_children (st_cct st) p) (C p)"
        using keep R(4) [OF p] by (intro splay_rep_cong [OF R(3) [OF p]]) (simp add: same_node_def)
      with False keep [OF p] show ?thesis by simp
    qed (simp add: c(6))
    show "q \<in> insert n N" "q \<notin> insert n Rt" "c_parent (st_cct st') q = Some p"
      if "p \<in> insert n N" "q \<in> ran (?C p)" for p q
    proof -
      have p: "p \<in> N" "q \<in> ran (C p)" using that by (auto split: if_splits)
      show "q \<in> insert n N" "q \<notin> insert n Rt" "c_parent (st_cct st') q = Some p"
        using R(4) [OF p] nN [of q] keep [of q] by (auto simp: same_node_def)
    qed
    show "\<exists>p \<in> insert n N. q \<in> ran (?C p)" if "q \<in> insert n N" "q \<notin> insert n Rt" for q
    proof -
      obtain p where "p \<in> N" "q \<in> ran (C p)" using R(5) [of q] \<open>q \<in> insert n N\<close> \<open>q \<notin> insert n Rt\<close> by blast
      then show ?thesis using nN [of p] by (intro bexI [of _ p]) auto
    qed
    show "\<exists>rk :: ptr \<Rightarrow> nat. \<forall>p \<in> insert n N. \<forall>q \<in> ran (?C p). rk p < rk q"
      using rk by (intro exI [of _ rk]) (auto split: if_splits)
    show "c_previous (st_cct st') q = None" if "q \<in> insert n N" for q
      using that keep R(6) c(4) by (auto simp: same_node_def created_def)
    show "c_left (st_cct st') q = None" "c_right (st_cct st') q = None" if "q \<in> insert n Rt" for q
      using that keep [of q] R(2,7) c(7,8) by auto
  qed
  then have inv': "cct_inv st' (insert n N) (insert n Rt) ?C" using c(3) by (simp add: cct_inv_def)
  have f: "follow ?C x ks = follow C x ks" if "x \<in> N" for x ks
    using that
  proof (induction ks arbitrary: x)
    case (Cons k ks)
    then show ?case using nN [OF Cons.prems] closed_step [OF cct_inv_closed [OF inv] Cons.prems]
      by (cases "C x k") auto
  qed simp
  have nil: "follow ?C n ks = (if ks = [] then Some n else None)" for ks by (cases ks) simp_all
  have one: "paths_of ?C n = {[]}" unfolding paths_of_def nil by auto
  have same: "\<forall>q \<in> N. same_node (st_cct st) (st_cct st') q" using keep by blast
  have ids: "ids_ok st' (insert n N) \<and> ids_left st' k" if "ids_ok st N" "ids_left st (Suc k)" for k
    using ids_ok_created [OF that(1) same c(4,5) that(2)] by simp
  show thesis by (rule that [OF c(1,2) inv' c(4) _ one _ same]) (use f ids in blast)+
qed

end
