(* ===== verification/Metrics.thy ===== *)
theory Metrics
  imports Hpcrun_Fmt
begin

text \<open>
  The metrics of the measurement library (\<open>src/hpcrun/metrics.c\<close>): the registry of metric kinds and
  descriptors, and the metric values of a context.

  A descriptor node has an address; a kind is its place in the chain of kinds, which only grows at
  its end. The values of a context are a list of arrays, one for each kind in use. \<open>None\<close> stands for
  an execution that C leaves undefined (an access outside an array, the termination of the process, an
  unset entry). A value is its 64 bits; the addition of doubles is a parameter on bit patterns.
\<close>

section \<open>State\<close>

type_synonym mnode = nat

record metric_desc_list_t =
  md_val :: metric_desc_t
  md_proc :: nat
  md_id :: nat
  md_g_id :: nat

record kind_info_t =
  ki_idx :: nat
  ki_has_set_max :: bool
  ki_metric_tbl :: "mnode option list"
  ki_null_metrics :: "u64 list"
  ki_metric_data :: "mnode list"

datatype kind_state_t = KIND_UNINITIALIZED | KIND_INITIALIZING | KIND_INITIALIZED

record dmap =
  dm_desc :: mnode
  dm_id :: nat
  dm_kind :: nat
  dm_proc :: nat

record metrics_state =
  ms_node :: "mnode \<Rightarrow> metric_desc_list_t"
  ms_next_node :: mnode
  ms_pre_alloc :: "mnode list"
  ms_kinds :: "kind_info_t list"
  ms_kind_state :: kind_state_t
  ms_num_kind_metrics :: nat
  ms_metric_data :: "dmap option list"

section \<open>The registry\<close>

definition hpcrun_metrics_new_kind :: "metrics_state \<Rightarrow> nat \<times> metrics_state" where
  "hpcrun_metrics_new_kind ms = (length (ms_kinds ms),
     ms\<lparr> ms_kinds := ms_kinds ms @ [\<lparr> ki_idx = 0, ki_has_set_max = False, ki_metric_tbl = [],
       ki_null_metrics = [], ki_metric_data = [] \<rparr>] \<rparr>)"

fun hpcrun_pre_allocate_metrics :: "nat \<Rightarrow> metrics_state \<Rightarrow> metrics_state" where
  "hpcrun_pre_allocate_metrics 0 ms = ms"
| "hpcrun_pre_allocate_metrics (Suc n) ms = hpcrun_pre_allocate_metrics n
     (ms\<lparr> ms_pre_alloc := ms_next_node ms # ms_pre_alloc ms, ms_next_node := Suc (ms_next_node ms) \<rparr>)"

text \<open>Closing a kind: the table of its descriptors by index, and an array of zeros.\<close>

fun metric_tbl_fill :: "(mnode \<Rightarrow> metric_desc_list_t) \<Rightarrow> mnode list \<Rightarrow> mnode option list \<Rightarrow> mnode option list option" where
  "metric_tbl_fill nd [] tbl = Some tbl"
| "metric_tbl_fill nd (l # ls) tbl =
    (if md_id (nd l) < length tbl then metric_tbl_fill nd ls (tbl[md_id (nd l) := Some l]) else None)"

definition hpcrun_get_num_metrics :: "nat \<Rightarrow> metrics_state \<Rightarrow> (nat \<times> metrics_state) option" where
  "hpcrun_get_num_metrics k ms =
    (if k \<ge> length (ms_kinds ms) then None
     else let kind = ms_kinds ms ! k; n_metrics = ki_idx kind
     in if ki_has_set_max kind then Some (n_metrics, ms)
     else (case metric_tbl_fill (ms_node ms) (ki_metric_data kind) (replicate n_metrics None) of
         None \<Rightarrow> None
       | Some tbl \<Rightarrow> Some (n_metrics, ms\<lparr> ms_kinds := (ms_kinds ms)[k := kind\<lparr> ki_metric_tbl := tbl,
           ki_null_metrics := replicate n_metrics 0, ki_has_set_max := True \<rparr>] \<rparr>)))"

definition hpcrun_close_kind :: "nat \<Rightarrow> metrics_state \<Rightarrow> metrics_state option" where
  "hpcrun_close_kind k ms = map_option snd (hpcrun_get_num_metrics k ms)"

text \<open>The table from metric identifiers to descriptors, filled from all kinds when first needed.\<close>

fun metric_data_fill :: "(mnode \<Rightarrow> metric_desc_list_t) \<Rightarrow> nat \<Rightarrow> mnode list \<Rightarrow> dmap option list \<Rightarrow>
    dmap option list option" where
  "metric_data_fill nd k [] md = Some md"
| "metric_data_fill nd k (l # ls) md =
    (if md_g_id (nd l) < length md
     then metric_data_fill nd k ls (md[md_g_id (nd l) :=
       Some \<lparr> dm_desc = l, dm_id = md_id (nd l), dm_kind = k, dm_proc = md_proc (nd l) \<rparr>])
     else None)"

fun finalize_kinds :: "nat \<Rightarrow> nat \<Rightarrow> metrics_state \<Rightarrow> metrics_state option" where
  "finalize_kinds 0 k ms = Some ms"
| "finalize_kinds (Suc n) k ms = (case hpcrun_get_num_metrics k ms of None \<Rightarrow> None
     | Some (_, ms) \<Rightarrow>
        (case metric_data_fill (ms_node ms) k (ki_metric_data (ms_kinds ms ! k)) (ms_metric_data ms) of
           None \<Rightarrow> None
         | Some md \<Rightarrow> finalize_kinds n (Suc k) (ms\<lparr> ms_metric_data := md \<rparr>)))"

text \<open>
  The caller that wins the exchange fills the table. Another caller waits for it: here the state in
  between is not seen, since a call runs to its end.
\<close>

definition hpcrun_metrics_data_finalize :: "metrics_state \<Rightarrow> metrics_state option" where
  "hpcrun_metrics_data_finalize ms = (case ms_kind_state ms of
     KIND_INITIALIZED \<Rightarrow> Some ms
   | KIND_UNINITIALIZED \<Rightarrow>
       map_option (\<lambda>ms. ms\<lparr> ms_kind_state := KIND_INITIALIZED \<rparr>)
         (finalize_kinds (length (ms_kinds ms)) 0
           (ms\<lparr> ms_kind_state := KIND_INITIALIZING,
                ms_metric_data := replicate (ms_num_kind_metrics ms) None \<rparr>))
   | KIND_INITIALIZING \<Rightarrow> None)"

definition hpcrun_get_num_kind_metrics :: "metrics_state \<Rightarrow> (nat \<times> metrics_state) option" where
  "hpcrun_get_num_kind_metrics ms =
     map_option (\<lambda>ms. (ms_num_kind_metrics ms, ms)) (hpcrun_metrics_data_finalize ms)"

definition metric_data_at :: "metrics_state \<Rightarrow> int \<Rightarrow> dmap option" where
  "metric_data_at ms metric_id = (if 0 \<le> metric_id \<and> nat metric_id < length (ms_metric_data ms)
     then ms_metric_data ms ! nat metric_id else None)"

definition hpcrun_id2metric :: "int \<Rightarrow> metrics_state \<Rightarrow> (mnode option \<times> metrics_state) option" where
  "hpcrun_id2metric metric_id ms = (case hpcrun_get_num_kind_metrics ms of None \<Rightarrow> None
     | Some (n_metrics, ms) \<Rightarrow>
        if 0 \<le> metric_id \<and> metric_id < int n_metrics
        then map_option (\<lambda>d. (Some (dm_desc d), ms)) (metric_data_at ms metric_id)
        else Some (None, ms))"

definition hpcrun_get_metric_proc :: "int \<Rightarrow> metrics_state \<Rightarrow> (nat option \<times> metrics_state) option" where
  "hpcrun_get_metric_proc metric_id ms = (case hpcrun_get_num_kind_metrics ms of None \<Rightarrow> None
     | Some (n_metrics, ms) \<Rightarrow>
        if 0 \<le> metric_id \<and> metric_id < int n_metrics
        then map_option (\<lambda>d. (Some (dm_proc d), ms)) (metric_data_at ms metric_id)
        else Some (None, ms))"

definition hpcrun_id2metric_linked :: "int \<Rightarrow> metrics_state \<Rightarrow> mnode option" where
  "hpcrun_id2metric_linked metric_id ms =
     find (\<lambda>l. int (md_g_id (ms_node ms l)) = metric_id) (concat (map ki_metric_data (ms_kinds ms)))"

definition set_flag :: "nat \<Rightarrow> byte \<Rightarrow> int \<Rightarrow> metrics_state \<Rightarrow> metrics_state option" where
  "set_flag i v metric_id ms = map_option (\<lambda>l. ms\<lparr> ms_node := (ms_node ms)(l :=
       (ms_node ms l)\<lparr> md_val := (md_val (ms_node ms l))\<lparr> metric_flags :=
         (metric_flags (md_val (ms_node ms l)))[i := v] \<rparr> \<rparr>) \<rparr>)
     (hpcrun_id2metric_linked metric_id ms)"

definition hpcrun_set_display :: "int \<Rightarrow> byte \<Rightarrow> metrics_state \<Rightarrow> metrics_state option" where
  "hpcrun_set_display metric_id shw ms = set_flag 6 shw metric_id ms"

definition hpcrun_set_move2proc :: "int \<Rightarrow> bool \<Rightarrow> metrics_state \<Rightarrow> metrics_state option" where
  "hpcrun_set_move2proc metric_id move ms = set_flag 3 (if move then 1 else 0) metric_id ms"

definition hpcrun_set_percent :: "int \<Rightarrow> byte \<Rightarrow> metrics_state \<Rightarrow> metrics_state option" where
  "hpcrun_set_percent metric_id show_percent ms = set_flag 7 show_percent metric_id ms"

text \<open>
  The next kind after \<open>curr\<close> (the first, after a null pointer), with its table; past the last kind the
  table is the address of a member of no kind, which the caller must not use.
\<close>

definition hpcrun_get_metric_tbl :: "nat option \<Rightarrow> metrics_state \<Rightarrow> nat option \<times> mnode option list option" where
  "hpcrun_get_metric_tbl cur ms =
    (let k = (case cur of None \<Rightarrow> 0 | Some k \<Rightarrow> Suc k)
     in if k < length (ms_kinds ms) then (Some k, Some (ki_metric_tbl (ms_kinds ms ! k))) else (None, None))"

definition hpcrun_metricFlags_NULL :: "byte list" where
  "hpcrun_metricFlags_NULL = [0, 0, 0, 0, 0, 0, 1, 1, 0, 0, 0, 0, 0, 0, 0, 0]"

definition hpcrun_set_new_metric_desc :: "nat \<Rightarrow> c_string option \<Rightarrow> c_string option \<Rightarrow> byte \<Rightarrow> u64 \<Rightarrow> nat \<Rightarrow>
    bool \<times> bool \<Rightarrow> metrics_state \<Rightarrow> (int \<times> metrics_state) option" where
  "hpcrun_set_new_metric_desc k name description valFmt period upd_fn prop ms =
    (if k \<ge> length (ms_kinds ms) then None
     else let kind = ms_kinds ms ! k
     in if ki_has_set_max kind then Some (- 1, ms)
     else let metric_id = ms_num_kind_metrics ms;
              ms = ms\<lparr> ms_num_kind_metrics := metric_id + 1 \<rparr>;
              n = (case ms_pre_alloc ms of p # _ \<Rightarrow> p | [] \<Rightarrow> ms_next_node ms);
              ms = (case ms_pre_alloc ms of p # ps \<Rightarrow> ms\<lparr> ms_pre_alloc := ps \<rparr>
                    | [] \<Rightarrow> ms\<lparr> ms_next_node := Suc (ms_next_node ms) \<rparr>);
              kind' = kind\<lparr> ki_metric_data := n # ki_metric_data kind, ki_idx := ki_idx kind + 1 \<rparr>
     in if name = None then None
     else Some (int metric_id, ms\<lparr> ms_kinds := (ms_kinds ms)[k := kind'],
       ms_node := (ms_node ms)(n := \<lparr> md_val = \<lparr> metric_name = name, metric_description = description,
             metric_flags = hpcrun_metricFlags_NULL[0 := MetricFlags_Ty_Raw, 2 := valFmt],
             metric_period = period, metric_properties_time = fst prop, metric_properties_cycles = snd prop,
             metric_formula = None, metric_format = None, metric_is_frequency = 0, metric_is_multiplexed = 0,
             metric_threshold_mean = 0, metric_num_samples = 0 \<rparr>,
           md_proc = upd_fn, md_id = ki_idx kind, md_g_id = metric_id \<rparr>) \<rparr>))"

definition hpcrun_set_new_metric_info_w_fn :: "nat \<Rightarrow> c_string option \<Rightarrow> byte \<Rightarrow> u64 \<Rightarrow> nat \<Rightarrow> bool \<times> bool \<Rightarrow>
    metrics_state \<Rightarrow> (int \<times> metrics_state) option" where
  "hpcrun_set_new_metric_info_w_fn k name valFmt period upd_fn prop ms =
     hpcrun_set_new_metric_desc k name name valFmt period upd_fn prop ms"

text \<open>The update procedure of the standard metrics, as the name of a function.\<close>

definition hpcrun_metric_std_inc_proc :: nat where "hpcrun_metric_std_inc_proc = 1"

definition hpcrun_set_new_metric_desc_and_period :: "nat \<Rightarrow> c_string option \<Rightarrow> c_string option \<Rightarrow> byte \<Rightarrow> u64 \<Rightarrow>
    bool \<times> bool \<Rightarrow> metrics_state \<Rightarrow> (int \<times> metrics_state) option" where
  "hpcrun_set_new_metric_desc_and_period k name description valFmt period prop ms =
     hpcrun_set_new_metric_desc k name description valFmt period hpcrun_metric_std_inc_proc prop ms"

definition hpcrun_set_new_metric_info_and_period :: "nat \<Rightarrow> c_string option \<Rightarrow> byte \<Rightarrow> u64 \<Rightarrow>
    bool \<times> bool \<Rightarrow> metrics_state \<Rightarrow> (int \<times> metrics_state) option" where
  "hpcrun_set_new_metric_info_and_period k name valFmt period prop ms =
     hpcrun_set_new_metric_info_w_fn k name valFmt period hpcrun_metric_std_inc_proc prop ms"

definition hpcrun_set_new_metric_info :: "nat \<Rightarrow> c_string option \<Rightarrow> metrics_state \<Rightarrow> (int \<times> metrics_state) option" where
  "hpcrun_set_new_metric_info k name ms =
     hpcrun_set_new_metric_info_and_period k name MetricFlags_ValFmt_Int 1 (False, False) ms"

section \<open>The values of a context\<close>

type_synonym metric_data_list_t = "(nat \<times> u64 list) list"

text \<open>The first entry of a kind, by its place in the list.\<close>

fun mdl_place :: "nat \<Rightarrow> metric_data_list_t \<Rightarrow> nat option" where
  "mdl_place k [] = None"
| "mdl_place k ((k', vs) # es) = (if k' = k then Some 0 else map_option Suc (mdl_place k es))"

definition mdl_find :: "nat \<Rightarrow> metric_data_list_t \<Rightarrow> u64 list option" where
  "mdl_find k es = map_option (\<lambda>i. snd (es ! i)) (mdl_place k es)"

definition hpcrun_new_metric_data_list_kind :: "nat \<Rightarrow> metrics_state \<Rightarrow> ((nat \<times> u64 list) \<times> metrics_state) option" where
  "hpcrun_new_metric_data_list_kind k ms = (case hpcrun_get_num_kind_metrics ms of None \<Rightarrow> None
     | Some (_, ms) \<Rightarrow> (case hpcrun_get_num_metrics k ms of None \<Rightarrow> None
       | Some (n_metrics, ms) \<Rightarrow> Some ((k, replicate n_metrics 0), ms)))"

definition hpcrun_new_metric_data_list_kind_final ::
  "nat \<Rightarrow> metrics_state \<Rightarrow> ((nat \<times> u64 list) \<times> metrics_state) option" where
  "hpcrun_new_metric_data_list_kind_final k ms = (case hpcrun_get_num_kind_metrics ms of None \<Rightarrow> None
     | Some (_, ms) \<Rightarrow> (case hpcrun_get_num_metrics k ms of None \<Rightarrow> None
       | Some (n_metrics, ms) \<Rightarrow> Some ((k, replicate n_metrics 0), ms)))"

definition hpcrun_new_metric_data_list :: "int \<Rightarrow> metrics_state \<Rightarrow> ((nat \<times> u64 list) \<times> metrics_state) option" where
  "hpcrun_new_metric_data_list metric_id ms = (case hpcrun_get_num_kind_metrics ms of None \<Rightarrow> None
     | Some (_, ms) \<Rightarrow> (case metric_data_at ms metric_id of None \<Rightarrow> None
       | Some d \<Rightarrow> (case hpcrun_get_num_metrics (dm_kind d) ms of None \<Rightarrow> None
         | Some (n_metrics, ms) \<Rightarrow> Some ((dm_kind d, replicate n_metrics 0), ms))))"

text \<open>
  The entry for the kind of a metric, created at the end of the list when there is none. The result is
  the list and the place of the entry.
\<close>

definition hpcrun_reify_metric_data_list_kind ::
  "metric_data_list_t \<Rightarrow> int \<Rightarrow> metrics_state \<Rightarrow> (metric_data_list_t \<times> nat \<times> metrics_state) option" where
  "hpcrun_reify_metric_data_list_kind rv metric_id ms = (case metric_data_at ms metric_id of None \<Rightarrow> None
     | Some d \<Rightarrow> (case mdl_place (dm_kind d) rv of
         Some i \<Rightarrow> Some (rv, i, ms)
       | None \<Rightarrow> map_option (\<lambda>(e, ms). (rv @ [e], length rv, ms)) (hpcrun_new_metric_data_list metric_id ms)))"

text \<open>The location of a metric: the entry of its kind and the index in its array.\<close>

definition hpcrun_metric_set_loc ::
  "metric_data_list_t \<Rightarrow> int \<Rightarrow> metrics_state \<Rightarrow> (metric_data_list_t \<times> (nat \<times> nat) \<times> metrics_state) option" where
  "hpcrun_metric_set_loc rv metric_id ms = (case metric_data_at ms metric_id of None \<Rightarrow> None
     | Some d \<Rightarrow> (case mdl_place (dm_kind d) rv of
         Some i \<Rightarrow> Some (rv, (i, dm_id d), ms)
       | None \<Rightarrow> if rv = [] then None
           else map_option (\<lambda>(e, ms). (rv @ [e], (length rv, dm_id d), ms)) (hpcrun_new_metric_data_list metric_id ms)))"

definition mdl_get :: "metric_data_list_t \<Rightarrow> nat \<times> nat \<Rightarrow> u64 option" where
  "mdl_get es loc = (if fst loc < length es \<and> snd loc < length (snd (es ! fst loc))
     then Some (snd (es ! fst loc) ! snd loc) else None)"

definition mdl_set :: "metric_data_list_t \<Rightarrow> nat \<times> nat \<Rightarrow> u64 \<Rightarrow> metric_data_list_t" where
  "mdl_set es loc v = es[fst loc := (fst (es ! fst loc), (snd (es ! fst loc))[snd loc := v])]"

datatype metric_operation = Op_plus | Op_set

definition hpcrun_metric_std :: "(u64 \<Rightarrow> u64 \<Rightarrow> u64) \<Rightarrow> int \<Rightarrow> metric_data_list_t \<Rightarrow> metric_operation \<Rightarrow> u64 \<Rightarrow>
    metrics_state \<Rightarrow> (metric_data_list_t \<times> metrics_state) option" where
  "hpcrun_metric_std fadd metric_id lst operation val ms = (case metric_data_at ms metric_id of None \<Rightarrow> None
     | Some d \<Rightarrow>
      (let minfo = md_val (ms_node ms (dm_desc d))
       in case hpcrun_metric_set_loc lst metric_id ms of None \<Rightarrow> None
       | Some (lst, loc, ms) \<Rightarrow> (case mdl_get lst loc of None \<Rightarrow> None
         | Some old \<Rightarrow>
             if flags_valFmt (metric_flags minfo) = MetricFlags_ValFmt_Int
             then Some (mdl_set lst loc (case operation of Op_plus \<Rightarrow> old + val | Op_set \<Rightarrow> val), ms)
             else if flags_valFmt (metric_flags minfo) = MetricFlags_ValFmt_Real
             then Some (mdl_set lst loc (case operation of Op_plus \<Rightarrow> fadd old val | Op_set \<Rightarrow> val), ms)
             else None)))"

definition hpcrun_metric_std_set :: "(u64 \<Rightarrow> u64 \<Rightarrow> u64) \<Rightarrow> int \<Rightarrow> metric_data_list_t \<Rightarrow> u64 \<Rightarrow>
    metrics_state \<Rightarrow> (metric_data_list_t \<times> metrics_state) option" where
  "hpcrun_metric_std_set fadd metric_id lst value ms = hpcrun_metric_std fadd metric_id lst Op_set value ms"

definition hpcrun_metric_std_inc :: "(u64 \<Rightarrow> u64 \<Rightarrow> u64) \<Rightarrow> int \<Rightarrow> metric_data_list_t \<Rightarrow> u64 \<Rightarrow>
    metrics_state \<Rightarrow> (metric_data_list_t \<times> metrics_state) option" where
  "hpcrun_metric_std_inc fadd metric_id lst incr ms = hpcrun_metric_std fadd metric_id lst Op_plus incr ms"

definition fetch_metric ::
  "metric_data_list_t \<Rightarrow> int \<Rightarrow> metrics_state \<Rightarrow> (metric_data_list_t \<times> (nat \<times> nat) \<times> metrics_state) option" where
  "fetch_metric metrics metric_id ms = (case hpcrun_reify_metric_data_list_kind metrics metric_id ms of None \<Rightarrow> None
     | Some (es, i, ms) \<Rightarrow> map_option (\<lambda>d. (es, (i, dm_id d), ms)) (metric_data_at ms metric_id))"

section \<open>Copies\<close>

text \<open>The entries \<open>0\<close> to \<open>n - 1\<close> of an array.\<close>

definition row :: "nat \<Rightarrow> u64 list \<Rightarrow> u64 list option" where
  "row n vs = (if n \<le> length vs then Some (take n vs) else None)"

fun dense_copy_kinds :: "nat \<Rightarrow> kind_info_t list \<Rightarrow> metric_data_list_t \<Rightarrow> u64 list option" where
  "dense_copy_kinds k [] es = Some []"
| "dense_copy_kinds k (ki # kis) es =
    (case row (ki_idx ki) (case mdl_find k es of Some vs \<Rightarrow> vs | None \<Rightarrow> ki_null_metrics ki) of None \<Rightarrow> None
     | Some vs \<Rightarrow> map_option ((@) vs) (dense_copy_kinds (Suc k) kis es))"

definition hpcrun_metric_set_dense_copy :: "kind_info_t list \<Rightarrow> metric_data_list_t \<Rightarrow> u64 list option" where
  "hpcrun_metric_set_dense_copy kinds es = dense_copy_kinds 0 kinds es"

fun sparse_count_kinds :: "nat \<Rightarrow> kind_info_t list \<Rightarrow> metric_data_list_t \<Rightarrow> u64 \<Rightarrow> u64 option" where
  "sparse_count_kinds k [] es num_nzval = Some num_nzval"
| "sparse_count_kinds k (ki # kis) es num_nzval = (case mdl_find k es of
     None \<Rightarrow> sparse_count_kinds (Suc k) kis es num_nzval
   | Some actual \<Rightarrow> (case row (ki_idx ki) actual of None \<Rightarrow> None
     | Some vs \<Rightarrow> sparse_count_kinds (Suc k) kis es (fold (\<lambda>v n. if v \<noteq> 0 then n + 1 else n) vs num_nzval)))"

definition hpcrun_metric_sparse_count :: "kind_info_t list \<Rightarrow> metric_data_list_t \<Rightarrow> u64 option" where
  "hpcrun_metric_sparse_count kinds es = sparse_count_kinds 0 kinds es 0"

text \<open>
  The sparse copy writes the non-zero values, with the numbers of their metrics in the file, into two
  arrays from an index on. The index is passed as an \<open>int\<close>; the sum with the number of values copied is
  a 64-bit number.
\<close>

record sparse_copy_st =
  sc_val :: "u64 list"
  sc_ids :: "u16 list"
  sc_num :: u64
  sc_id :: nat

fun sparse_copy_row :: "u32 \<Rightarrow> u64 list \<Rightarrow> sparse_copy_st \<Rightarrow> sparse_copy_st option" where
  "sparse_copy_row idx [] st = Some st"
| "sparse_copy_row idx (v # vs) st =
    (if v \<noteq> 0 then
       (let i = unat (scast idx + sc_num st)
        in if i < length (sc_val st) \<and> i < length (sc_ids st)
        then sparse_copy_row idx vs (st\<lparr> sc_val := (sc_val st)[i := v],
          sc_ids := (sc_ids st)[i := of_nat (sc_id st)], sc_num := sc_num st + 1, sc_id := sc_id st + 1 \<rparr>)
        else None)
     else sparse_copy_row idx vs (st\<lparr> sc_id := sc_id st + 1 \<rparr>))"

fun sparse_copy_kinds :: "u32 \<Rightarrow> nat \<Rightarrow> kind_info_t list \<Rightarrow> metric_data_list_t \<Rightarrow> sparse_copy_st \<Rightarrow> sparse_copy_st option" where
  "sparse_copy_kinds idx k [] es st = Some st"
| "sparse_copy_kinds idx k (ki # kis) es st = (case mdl_find k es of
     None \<Rightarrow> sparse_copy_kinds idx (Suc k) kis es (st\<lparr> sc_id := sc_id st + ki_idx ki \<rparr>)
   | Some actual \<Rightarrow> (case row (ki_idx ki) actual of None \<Rightarrow> None
     | Some vs \<Rightarrow> (case sparse_copy_row idx vs st of None \<Rightarrow> None
       | Some st \<Rightarrow> sparse_copy_kinds idx (Suc k) kis es st)))"

definition hpcrun_metric_set_sparse_copy :: "u64 list \<Rightarrow> u16 list \<Rightarrow> kind_info_t list \<Rightarrow> metric_data_list_t \<Rightarrow> u32 \<Rightarrow>
    (u64 \<times> u64 list \<times> u16 list) option" where
  "hpcrun_metric_set_sparse_copy val metric_ids kinds es initializing_idx =
     map_option (\<lambda>st. (sc_num st, sc_val st, sc_ids st))
       (sparse_copy_kinds initializing_idx 0 kinds es
         \<lparr> sc_val = val, sc_ids = metric_ids, sc_num = 0, sc_id = 0 \<rparr>)"

text \<open>Merging the values of one context into those of another, as integers.\<close>

fun hpcrun_merge_cct_metrics :: "metric_data_list_t \<Rightarrow> metric_data_list_t \<Rightarrow> metrics_state \<Rightarrow>
    (metric_data_list_t \<times> metrics_state) option" where
  "hpcrun_merge_cct_metrics dest [] ms = Some (dest, ms)"
| "hpcrun_merge_cct_metrics dest ((k, svs) # src) ms =
    (case (case mdl_place k dest of
         Some i \<Rightarrow> Some (dest, i, ms)
       | None \<Rightarrow> if dest = [] then None
           else map_option (\<lambda>(e, ms). (dest @ [e], length dest, ms)) (hpcrun_new_metric_data_list_kind_final k ms)) of
       None \<Rightarrow> None
     | Some (dest, i, ms) \<Rightarrow> (case hpcrun_get_num_metrics k ms of None \<Rightarrow> None
       | Some (n_metrics, ms) \<Rightarrow> (case (row n_metrics (snd (dest ! i)), row n_metrics svs) of
           (Some ds, Some ss) \<Rightarrow> hpcrun_merge_cct_metrics
             (dest[i := (k, map2 (+) ds ss @ drop n_metrics (snd (dest ! i)))]) src ms
         | _ \<Rightarrow> None)))"

section \<open>The values of a context as a function\<close>

text \<open>
  After finalization every kind is closed and the table of metrics is set; from then on no operation on
  values changes the registry.
\<close>

definition kind_closed :: "kind_info_t \<Rightarrow> bool" where
  "kind_closed ki \<longleftrightarrow> ki_has_set_max ki \<and> ki_null_metrics ki = replicate (ki_idx ki) 0"

definition metrics_ready :: "metrics_state \<Rightarrow> bool" where
  "metrics_ready ms \<longleftrightarrow> ms_kind_state ms = KIND_INITIALIZED \<and> (\<forall>ki \<in> set (ms_kinds ms). kind_closed ki) \<and>
     (\<forall>d. Some d \<in> set (ms_metric_data ms) \<longrightarrow>
        dm_kind d < length (ms_kinds ms) \<and> dm_id d < ki_idx (ms_kinds ms ! dm_kind d))"

text \<open>A list of values has at most one entry for a kind, with the values of all its metrics.\<close>

definition mdl_ok :: "kind_info_t list \<Rightarrow> metric_data_list_t \<Rightarrow> bool" where
  "mdl_ok kinds es \<longleftrightarrow> distinct (map fst es) \<and>
     (\<forall>(k, vs) \<in> set es. k < length kinds \<and> length vs = ki_idx (kinds ! k))"

text \<open>The value of metric \<open>i\<close> of kind \<open>k\<close>: zero where the context has no entry for the kind.\<close>

definition mdl_val :: "metric_data_list_t \<Rightarrow> nat \<Rightarrow> nat \<Rightarrow> u64" where
  "mdl_val es k i = (case mdl_find k es of None \<Rightarrow> 0 | Some vs \<Rightarrow> vs ! i)"

definition mdl_row :: "metric_data_list_t \<Rightarrow> nat \<Rightarrow> nat \<Rightarrow> u64 list" where
  "mdl_row es k n = map (mdl_val es k) [0..<n]"

text \<open>All values, kind after kind: what the profile means by the metrics of a context.\<close>

definition mdl_rows :: "nat \<Rightarrow> kind_info_t list \<Rightarrow> metric_data_list_t \<Rightarrow> u64 list" where
  "mdl_rows k kis es = concat (map2 (\<lambda>k ki. mdl_row es k (ki_idx ki)) [k..<k + length kis] kis)"

lemma mdl_rows_Nil [simp]: "mdl_rows k [] es = []"
  by (simp add: mdl_rows_def)

lemma mdl_rows_Cons [simp]: "mdl_rows k (ki # kis) es = mdl_row es k (ki_idx ki) @ mdl_rows (Suc k) kis es"
  by (simp add: mdl_rows_def upt_conv_Cons del: upt_Suc)

lemma length_mdl_row [simp]: "length (mdl_row es k n) = n"
  by (simp add: mdl_row_def)

lemma mdl_place_find: "mdl_place k es = Some i \<Longrightarrow> i < length es \<and> fst (es ! i) = k"
  by (induction k es arbitrary: i rule: mdl_place.induct) (auto split: if_splits)

lemma mdl_place_None: "mdl_place k es = None \<longleftrightarrow> k \<notin> fst ` set es"
  by (induction k es rule: mdl_place.induct) auto

lemma mdl_find_map_of: "mdl_find k es = map_of es k"
proof (induction k es rule: mdl_place.induct)
  case (2 k k' vs es)
  show ?case
  proof (cases "k' = k")
    case False
    then have "mdl_find k ((k', vs) # es) = mdl_find k es"
      unfolding mdl_find_def by (cases "mdl_place k es") simp_all
    with 2 [OF False] False show ?thesis by simp
  qed (simp add: mdl_find_def)
qed (simp add: mdl_find_def)

lemma mdl_ok_find:
  assumes "mdl_ok kinds es" and "mdl_find k es = Some vs"
  shows "k < length kinds \<and> length vs = ki_idx (kinds ! k)"
proof -
  from assms(2) have "(k, vs) \<in> set es" by (simp add: mdl_find_map_of map_of_SomeD)
  with assms(1) show ?thesis unfolding mdl_ok_def by blast
qed

lemma mdl_row_find: "mdl_find k es = Some vs \<Longrightarrow> length vs = n \<Longrightarrow> mdl_row es k n = vs"
  by (auto simp: mdl_row_def mdl_val_def intro!: nth_equalityI)

lemma mdl_row_none: "mdl_find k es = None \<Longrightarrow> mdl_row es k n = replicate n 0"
  by (auto simp: mdl_row_def mdl_val_def intro!: nth_equalityI)

lemma row_ok:
  assumes "mdl_ok kinds es" and "mdl_find k es = Some vs" and "ki = kinds ! k"
  shows "row (ki_idx ki) vs = Some (mdl_row es k (ki_idx ki))"
  using mdl_ok_find [OF assms(1,2)] assms(2,3) by (simp add: row_def mdl_row_find)

section \<open>Copies of the values\<close>

lemma drop_kinds:
  assumes "drop k kinds = ki # kis"
  shows "kinds ! k = ki" and "drop (Suc k) kinds = kis" and "ki \<in> set kinds" and "k < length kinds"
  using drop_eq_Cons_nth [OF assms] by auto

lemma dense_copy_kinds_rows:
  assumes "mdl_ok kinds es" and "\<forall>ki \<in> set kinds. kind_closed ki" and "drop k kinds = kis"
  shows "dense_copy_kinds k kis es = Some (mdl_rows k kis es)"
  using assms(3)
proof (induction kis arbitrary: k)
  case (Cons ki kis)
  note d = drop_kinds [OF Cons.prems]
  from d(3) assms(2) have "kind_closed ki" by blast
  then have "row (ki_idx ki) (case mdl_find k es of Some vs \<Rightarrow> vs | None \<Rightarrow> ki_null_metrics ki)
      = Some (mdl_row es k (ki_idx ki))"
    using row_ok [OF assms(1) _ d(1) [symmetric]]
    by (cases "mdl_find k es") (simp_all add: kind_closed_def row_def [of _ "replicate _ _"] mdl_row_none)
  with Cons.IH [OF d(2)] show ?case by simp
qed simp

lemma fold_nonzero_count:
  "fold (\<lambda>v n. if v \<noteq> 0 then n + 1 else n) vs n = n + of_nat (length (filter (\<lambda>v. v \<noteq> (0 :: u64)) vs))"
  for n :: u64
  by (induction vs arbitrary: n) auto

lemma sparse_count_kinds_rows:
  assumes "mdl_ok kinds es" and "drop k kinds = kis"
  shows "sparse_count_kinds k kis es n = Some (n + of_nat (length (filter (\<lambda>v. v \<noteq> 0) (mdl_rows k kis es))))"
  using assms(2)
proof (induction kis arbitrary: k n)
  case (Cons ki kis)
  note d = drop_kinds [OF Cons.prems]
  show ?case
  proof (cases "mdl_find k es")
    case None
    with Cons.IH [OF d(2)] show ?thesis by (simp add: mdl_row_none)
  next
    case (Some vs)
    with Cons.IH [OF d(2)] row_ok [OF assms(1) Some d(1) [symmetric]] show ?thesis
      by (simp only: sparse_count_kinds.simps option.case fold_nonzero_count mdl_rows_Cons filter_append length_append
          of_nat_add add.assoc)
  qed
qed simp

text \<open>The non-zero values of a list with their places, the first place being \<open>j\<close>.\<close>

definition nonzeros :: "nat \<Rightarrow> u64 list \<Rightarrow> (u64 \<times> nat) list" where
  "nonzeros j vs = filter (\<lambda>(v, _). v \<noteq> 0) (zip vs [j..<j + length vs])"

lemma nonzeros_Nil [simp]: "nonzeros j [] = []"
  by (simp add: nonzeros_def)

lemma nonzeros_Cons [simp]:
  "nonzeros j (v # vs) = (if v \<noteq> 0 then [(v, j)] else []) @ nonzeros (Suc j) vs"
  by (simp add: nonzeros_def upt_conv_Cons del: upt_Suc)

lemma nonzeros_append: "nonzeros j (us @ vs) = nonzeros j us @ nonzeros (j + length us) vs"
  by (induction us arbitrary: j) auto

lemma nonzeros_replicate [simp]: "nonzeros j (replicate n 0) = []"
  by (induction n arbitrary: j) auto

lemma length_nonzeros: "length (nonzeros j vs) = length (filter (\<lambda>v. v \<noteq> 0) vs)"
  by (induction vs arbitrary: j) auto

lemma map_fst_nonzeros: "map fst (nonzeros j vs) = filter (\<lambda>v. v \<noteq> 0) vs"
  by (induction vs arbitrary: j) auto

text \<open>Writing a list into an array from a place on.\<close>

definition overwrite :: "nat \<Rightarrow> 'a list \<Rightarrow> 'a list \<Rightarrow> 'a list" where
  "overwrite i ys xs = take i xs @ ys @ drop (i + length ys) xs"

lemma overwrite_Nil [simp]: "overwrite i [] xs = xs"
  by (simp add: overwrite_def)

lemma length_overwrite [simp]: "i + length ys \<le> length xs \<Longrightarrow> length (overwrite i ys xs) = length xs"
  by (auto simp: overwrite_def)

lemma overwrite_Cons:
  "i < length xs \<Longrightarrow> overwrite (Suc i) ys (xs[i := y]) = overwrite i (y # ys) xs"
  by (simp add: overwrite_def take_Suc_conv_app_nth take_update_cancel)

lemma overwrite_overwrite:
  assumes "i + length ys \<le> length xs"
  shows "overwrite (i + length ys) zs (overwrite i ys xs) = overwrite i (ys @ zs) xs"
  using assms by (cases ys) (simp_all add: overwrite_def min_def add.commute add.left_commute)

text \<open>One kind, then all kinds: the values go to the places from \<open>b + n\<close> on.\<close>

lemma index_sum:
  assumes "b < 2 ^ 31" and "n < 2 ^ 63"
  shows "unat (scast (of_nat b :: u32) + of_nat n :: u64) = b + n"
proof -
  have "sint (of_nat b :: u32) = int b"
    using assms(1) by (simp add: sint_uint signed_take_bit_int_eq_self unsigned_of_nat take_bit_nat_eq_self)
  then have "(scast (of_nat b :: u32) :: u64) = of_nat b"
    by (metis of_int_of_nat_eq of_int_sint scast_eq)
  then show ?thesis
    using assms by (simp add: unsigned_of_nat take_bit_nat_eq_self flip: of_nat_add)
qed

lemma sparse_copy_row_nonzeros:
  assumes "b < 2 ^ 31" and "n + length (nonzeros j vs) < 2 ^ 63"
    and "b + n + length (nonzeros j vs) \<le> length val" and "length ids = length val"
  shows "sparse_copy_row (of_nat b) vs \<lparr> sc_val = val, sc_ids = ids, sc_num = of_nat n, sc_id = j \<rparr> =
    Some \<lparr> sc_val = overwrite (b + n) (map fst (nonzeros j vs)) val,
      sc_ids = overwrite (b + n) (map (of_nat \<circ> snd) (nonzeros j vs)) ids,
      sc_num = of_nat (n + length (nonzeros j vs)), sc_id = j + length vs \<rparr>"
  using assms
proof (induction vs arbitrary: n j val ids)
  case (Cons v vs)
  have i: "unat (scast (of_nat b :: u32) + of_nat n :: u64) = b + n"
    using Cons.prems by (intro index_sum) auto
  show ?case
  proof (cases "v = 0")
    case True
    with Cons.IH [of n "Suc j" val ids] Cons.prems show ?thesis by simp
  next
    case False
    with Cons.prems have "b + n < length val" by simp
    moreover have "(1 :: u64) + of_nat n = of_nat (Suc n)" by simp
    ultimately show ?thesis
      using False Cons.IH [of "Suc n" "Suc j" "val[b + n := v]" "ids[b + n := of_nat j]"] Cons.prems i
      by (simp add: Let_def overwrite_Cons add.commute)
  qed
qed simp

lemma sparse_copy_kinds_nonzeros:
  assumes "mdl_ok kinds es" and "b < 2 ^ 31" and "drop k kinds = kis"
    and "n + length (nonzeros j (mdl_rows k kis es)) < 2 ^ 63"
    and "b + n + length (nonzeros j (mdl_rows k kis es)) \<le> length val" and "length ids = length val"
  shows "sparse_copy_kinds (of_nat b) k kis es \<lparr> sc_val = val, sc_ids = ids, sc_num = of_nat n, sc_id = j \<rparr> =
    Some \<lparr> sc_val = overwrite (b + n) (map fst (nonzeros j (mdl_rows k kis es))) val,
      sc_ids = overwrite (b + n) (map (of_nat \<circ> snd) (nonzeros j (mdl_rows k kis es))) ids,
      sc_num = of_nat (n + length (nonzeros j (mdl_rows k kis es))), sc_id = j + length (mdl_rows k kis es) \<rparr>"
  using assms(3-)
proof (induction kis arbitrary: k n j val ids)
  case (Cons ki kis)
  note d = drop_kinds [OF Cons.prems(1)]
  show ?case
  proof (cases "mdl_find k es")
    case None
    then show ?thesis
      using Cons.IH [OF d(2), of n "j + ki_idx ki" val ids] Cons.prems
      by (simp add: mdl_row_none nonzeros_append add.assoc)
  next
    case (Some vs)
    define r where "r = mdl_row es k (ki_idx ki)"
    define m where "m = n + length (nonzeros j r)"
    have len: "length r = ki_idx ki" by (simp add: r_def)
    have row: "row (ki_idx ki) vs = Some r" using row_ok [OF assms(1) Some d(1) [symmetric]] r_def by simp
    note P = Cons.prems(2-) [folded r_def, unfolded mdl_rows_Cons nonzeros_append, folded r_def, unfolded len length_append]
    have one: "sparse_copy_row (of_nat b) r \<lparr> sc_val = val, sc_ids = ids, sc_num = of_nat n, sc_id = j \<rparr> =
      Some \<lparr> sc_val = overwrite (b + n) (map fst (nonzeros j r)) val,
        sc_ids = overwrite (b + n) (map (of_nat \<circ> snd) (nonzeros j r)) ids,
        sc_num = of_nat m, sc_id = j + ki_idx ki \<rparr>"
      using P sparse_copy_row_nonzeros [OF assms(2), of n j r val ids] by (simp add: len m_def)
    have rest: "sparse_copy_kinds (of_nat b) (Suc k) kis es
        \<lparr> sc_val = overwrite (b + n) (map fst (nonzeros j r)) val,
          sc_ids = overwrite (b + n) (map (of_nat \<circ> snd) (nonzeros j r)) ids, sc_num = of_nat m, sc_id = j + ki_idx ki \<rparr> =
      Some \<lparr> sc_val = overwrite (b + m) (map fst (nonzeros (j + ki_idx ki) (mdl_rows (Suc k) kis es)))
            (overwrite (b + n) (map fst (nonzeros j r)) val),
          sc_ids = overwrite (b + m) (map (of_nat \<circ> snd) (nonzeros (j + ki_idx ki) (mdl_rows (Suc k) kis es)))
            (overwrite (b + n) (map (of_nat \<circ> snd) (nonzeros j r)) ids),
          sc_num = of_nat (m + length (nonzeros (j + ki_idx ki) (mdl_rows (Suc k) kis es))),
          sc_id = j + ki_idx ki + length (mdl_rows (Suc k) kis es) \<rparr>"
      using P by (intro Cons.IH [OF d(2)]) (auto simp: m_def)
    have v: "overwrite (b + m) (map f ys) (overwrite (b + n) (map f (nonzeros j r)) xs)
        = overwrite (b + n) (map f (nonzeros j r) @ map f ys) xs"
      if "length xs = length val" for f :: "u64 \<times> nat \<Rightarrow> 'z" and xs ys
      using overwrite_overwrite [of "b + n" "map f (nonzeros j r)" xs "map f ys"] P that
      by (simp add: m_def add.assoc)
    show ?thesis
      using P rest
      by (simp add: Some row one v r_def [symmetric] nonzeros_append len) (simp add: m_def add.assoc o_def)
  qed
qed simp

section \<open>Updating the values\<close>

lemma ready_kind_metrics [simp]: "metrics_ready ms \<Longrightarrow> hpcrun_get_num_kind_metrics ms = Some (ms_num_kind_metrics ms, ms)"
  by (simp add: metrics_ready_def hpcrun_get_num_kind_metrics_def hpcrun_metrics_data_finalize_def)

lemma ready_num_metrics [simp]:
  "metrics_ready ms \<Longrightarrow> k < length (ms_kinds ms) \<Longrightarrow> hpcrun_get_num_metrics k ms = Some (ki_idx (ms_kinds ms ! k), ms)"
  by (auto simp: metrics_ready_def hpcrun_get_num_metrics_def kind_closed_def Let_def)

lemma ready_metric_data:
  assumes "metrics_ready ms" and "metric_data_at ms j = Some d"
  shows "dm_kind d < length (ms_kinds ms)" and "dm_id d < ki_idx (ms_kinds ms ! dm_kind d)"
proof -
  from assms(2) have "Some d \<in> set (ms_metric_data ms)"
    by (auto simp: metric_data_at_def in_set_conv_nth split: if_splits)
  with assms(1) show "dm_kind d < length (ms_kinds ms)" "dm_id d < ki_idx (ms_kinds ms ! dm_kind d)"
    by (auto simp: metrics_ready_def)
qed

lemma ready_new_list [simp]:
  "metrics_ready ms \<Longrightarrow> metric_data_at ms j = Some d \<Longrightarrow>
    hpcrun_new_metric_data_list j ms = Some ((dm_kind d, replicate (ki_idx (ms_kinds ms ! dm_kind d)) 0), ms)"
  using ready_metric_data by (simp add: hpcrun_new_metric_data_list_def)

lemma ready_new_list_kind [simp]:
  "metrics_ready ms \<Longrightarrow> k < length (ms_kinds ms) \<Longrightarrow>
    hpcrun_new_metric_data_list_kind_final k ms = Some ((k, replicate (ki_idx (ms_kinds ms ! k)) 0), ms)"
  by (simp add: hpcrun_new_metric_data_list_kind_final_def)

text \<open>A list with an entry for a kind: the list itself, or the list with a row of zeros at its end.\<close>

definition mdl_extend :: "kind_info_t list \<Rightarrow> nat \<Rightarrow> metric_data_list_t \<Rightarrow> metric_data_list_t" where
  "mdl_extend kinds k es = (if mdl_place k es = None then es @ [(k, replicate (ki_idx (kinds ! k)) 0)] else es)"

definition mdl_at :: "nat \<Rightarrow> metric_data_list_t \<Rightarrow> nat" where
  "mdl_at k es = (case mdl_place k es of Some i \<Rightarrow> i | None \<Rightarrow> length es)"

lemma map_of_extend:
  "map_of (mdl_extend kinds k es) =
    (if map_of es k = None then (map_of es)(k \<mapsto> replicate (ki_idx (kinds ! k)) 0) else map_of es)"
proof (cases "map_of es k")
  case None
  then show ?thesis
    by (auto simp: mdl_extend_def mdl_place_None map_of_eq_None_iff [symmetric] map_add_def fun_eq_iff split: option.splits)
qed (simp add: mdl_extend_def mdl_place_None map_of_eq_None_iff [symmetric])

lemma mdl_ok_extend: "mdl_ok kinds es \<Longrightarrow> k < length kinds \<Longrightarrow> mdl_ok kinds (mdl_extend kinds k es)"
  by (auto simp: mdl_ok_def mdl_extend_def mdl_place_None)

lemma mdl_val_extend:
  "i < ki_idx (kinds ! k') \<Longrightarrow> mdl_val (mdl_extend kinds k es) k' i = mdl_val es k' i"
  by (auto simp: mdl_val_def mdl_find_map_of map_of_extend)

lemma mdl_at_extend:
  "mdl_at k es < length (mdl_extend kinds k es)" "fst (mdl_extend kinds k es ! mdl_at k es) = k"
  using mdl_place_find [of k es] by (auto simp: mdl_at_def mdl_extend_def split: option.splits)

lemma map_of_update:
  "distinct (map fst es) \<Longrightarrow> i < length es \<Longrightarrow> fst (es ! i) = k \<Longrightarrow> map_of (es[i := (k, vs)]) = (map_of es)(k \<mapsto> vs)"
proof (induction es arbitrary: i)
  case (Cons e es)
  show ?case
  proof (cases i)
    case 0
    with Cons.prems show ?thesis by (cases e) auto
  next
    case (Suc i')
    with Cons.prems have "fst (es ! i') \<in> fst ` set es" by auto
    with Cons.prems Suc have "fst e \<noteq> k" by auto
    with Suc Cons show ?thesis by (cases e) (simp add: fun_eq_iff)
  qed
qed simp

lemma mdl_ok_update:
  assumes "mdl_ok kinds es" and "i < length es" and "fst (es ! i) = k" and "length vs = ki_idx (kinds ! k)"
  shows "mdl_ok kinds (es[i := (k, vs)])"
proof -
  have "(k, snd (es ! i)) \<in> set es" using assms(2,3) by (metis nth_mem prod.collapse)
  with assms(1) have "k < length kinds" by (auto simp: mdl_ok_def)
  moreover have "map fst (es[i := (k, vs)]) = map fst es"
    using assms(2,3) by (simp add: map_update list_update_same_conv)
  ultimately show ?thesis
    using assms(1,4) unfolding mdl_ok_def by (auto dest!: subsetD [OF set_update_subset_insert])
qed

lemma mdl_entry:
  assumes "mdl_ok kinds es" and "i < length es" and "fst (es ! i) = k"
  shows "mdl_find k es = Some (snd (es ! i))" and "length (snd (es ! i)) = ki_idx (kinds ! k)"
proof -
  show f: "mdl_find k es = Some (snd (es ! i))"
    using assms by (auto simp: mdl_find_map_of mdl_ok_def intro!: map_of_is_SomeI)
  show "length (snd (es ! i)) = ki_idx (kinds ! k)" using mdl_ok_find [OF assms(1) f] by simp
qed

lemma set_loc_ready:
  assumes "metrics_ready ms" and "es \<noteq> []" and "metric_data_at ms j = Some d"
  shows "hpcrun_metric_set_loc es j ms =
    Some (mdl_extend (ms_kinds ms) (dm_kind d) es, (mdl_at (dm_kind d) es, dm_id d), ms)"
  using assms by (auto simp: hpcrun_metric_set_loc_def mdl_extend_def mdl_at_def split: option.split)

lemma fetch_ready:
  assumes "metrics_ready ms" and "metric_data_at ms j = Some d"
  shows "fetch_metric es j ms =
    Some (mdl_extend (ms_kinds ms) (dm_kind d) es, (mdl_at (dm_kind d) es, dm_id d), ms)"
  using assms by (auto simp: fetch_metric_def hpcrun_reify_metric_data_list_kind_def mdl_extend_def mdl_at_def
      split: option.split)

lemma mdl_set_val:
  assumes "mdl_ok kinds es" and "i < length es" and "fst (es ! i) = k" and "l < ki_idx (kinds ! k)"
  shows "mdl_get es (i, l) = Some (mdl_val es k l)"
    and "mdl_ok kinds (mdl_set es (i, l) v)"
    and "mdl_val (mdl_set es (i, l) v) k' l' = (if k' = k \<and> l' = l then v else mdl_val es k' l')"
proof -
  note e = mdl_entry [OF assms(1-3)]
  show "mdl_get es (i, l) = Some (mdl_val es k l)"
    using assms(2,4) e by (simp add: mdl_get_def mdl_val_def)
  show "mdl_ok kinds (mdl_set es (i, l) v)"
    using mdl_ok_update [OF assms(1-3)] e(2) assms(3) by (simp add: mdl_set_def)
  have "distinct (map fst es)" using assms(1) by (simp add: mdl_ok_def)
  from map_of_update [OF this assms(2,3)] e assms(3,4)
  show "mdl_val (mdl_set es (i, l) v) k' l' = (if k' = k \<and> l' = l then v else mdl_val es k' l')"
    by (auto simp: mdl_val_def mdl_set_def mdl_find_map_of)
qed

text \<open>An update in general: \<open>f\<close> is applied to the value of the metric, every other value is as before.\<close>

definition value_updated :: "kind_info_t list \<Rightarrow> metric_data_list_t \<Rightarrow> dmap \<Rightarrow> (u64 \<Rightarrow> u64) \<Rightarrow> metric_data_list_t \<Rightarrow> bool" where
  "value_updated kinds es d f es' \<longleftrightarrow> mdl_ok kinds es' \<and>
     (\<forall>k < length kinds. \<forall>i < ki_idx (kinds ! k). mdl_val es' k i =
        (if k = dm_kind d \<and> i = dm_id d then f (mdl_val es k i) else mdl_val es k i))"

lemma metric_std_updates:
  assumes "metrics_ready ms" and "es \<noteq> []" and "mdl_ok (ms_kinds ms) es" and "metric_data_at ms j = Some d"
    and "flags_valFmt (metric_flags (md_val (ms_node ms (dm_desc d)))) = fmt"
    and "fmt \<in> {MetricFlags_ValFmt_Int, MetricFlags_ValFmt_Real}"
  shows "\<exists>es'. hpcrun_metric_std fadd j es op v ms = Some (es', ms) \<and>
    value_updated (ms_kinds ms) es d (\<lambda>old. case op of Op_plus \<Rightarrow> if fmt = MetricFlags_ValFmt_Int then old + v else fadd old v
      | Op_set \<Rightarrow> v) es'"
proof -
  note d = ready_metric_data [OF assms(1,4)]
  define es1 where "es1 = mdl_extend (ms_kinds ms) (dm_kind d) es"
  have ok: "mdl_ok (ms_kinds ms) es1" unfolding es1_def by (rule mdl_ok_extend [OF assms(3) d(1)])
  have at: "mdl_at (dm_kind d) es < length es1" "fst (es1 ! mdl_at (dm_kind d) es) = dm_kind d"
    unfolding es1_def by (rule mdl_at_extend)+
  note upd = mdl_set_val [OF ok at d(2)]
  have old: "mdl_val es1 k i = mdl_val es k i" if "i < ki_idx (ms_kinds ms ! k)" for k i
    unfolding es1_def using that by (rule mdl_val_extend)
  define w where "w = (case op of Op_plus \<Rightarrow> if fmt = MetricFlags_ValFmt_Int then mdl_val es (dm_kind d) (dm_id d) + v
      else fadd (mdl_val es (dm_kind d) (dm_id d)) v | Op_set \<Rightarrow> v)"
  have "hpcrun_metric_std fadd j es op v ms = Some (mdl_set es1 (mdl_at (dm_kind d) es, dm_id d) w, ms)"
    using assms(4-6) upd(1) old [OF d(2)]
    by (auto simp: hpcrun_metric_std_def set_loc_ready [OF assms(1,2,4)] es1_def [symmetric] w_def
        split: metric_operation.split)
  moreover have "value_updated (ms_kinds ms) es d (\<lambda>old. case op of Op_plus \<Rightarrow>
      if fmt = MetricFlags_ValFmt_Int then old + v else fadd old v | Op_set \<Rightarrow> v)
      (mdl_set es1 (mdl_at (dm_kind d) es, dm_id d) w)"
    unfolding value_updated_def upd(3) using upd(2) old by (auto simp: w_def)
  ultimately show ?thesis by blast
qed

section \<open>Merging\<close>

definition values_added :: "kind_info_t list \<Rightarrow> metric_data_list_t \<Rightarrow> metric_data_list_t \<Rightarrow> metric_data_list_t \<Rightarrow> bool" where
  "values_added kinds es src es' \<longleftrightarrow> mdl_ok kinds es' \<and>
     (\<forall>k < length kinds. \<forall>i < ki_idx (kinds ! k). mdl_val es' k i = mdl_val es k i + mdl_val src k i)"

lemma mdl_val_Cons: "mdl_val ((k, vs) # es) k' i = (if k' = k then vs ! i else mdl_val es k' i)"
  by (simp add: mdl_val_def mdl_find_map_of)

lemma mdl_val_absent: "k \<notin> fst ` set es \<Longrightarrow> mdl_val es k i = 0"
  by (simp add: mdl_val_def mdl_find_def mdl_place_None [symmetric])

text \<open>One entry of the source: the entry of the destination, created when missing, gets the sums.\<close>

lemma merge_entry:
  assumes "metrics_ready ms" and "es \<noteq> []" and "mdl_ok (ms_kinds ms) es"
    and "k < length (ms_kinds ms)" and "length svs = ki_idx (ms_kinds ms ! k)"
  obtains es' where "hpcrun_merge_cct_metrics es ((k, svs) # src) ms = hpcrun_merge_cct_metrics es' src ms"
    and "es' \<noteq> []" and "values_added (ms_kinds ms) es [(k, svs)] es'"
proof -
  define es1 where "es1 = mdl_extend (ms_kinds ms) k es"
  define i where "i = mdl_at k es"
  have ok: "mdl_ok (ms_kinds ms) es1" unfolding es1_def by (rule mdl_ok_extend [OF assms(3,4)])
  have at: "i < length es1" "fst (es1 ! i) = k" unfolding es1_def i_def by (rule mdl_at_extend)+
  note e = mdl_entry [OF ok at]
  define vs where "vs = map2 (+) (snd (es1 ! i)) svs"
  have len: "length vs = ki_idx (ms_kinds ms ! k)" using e(2) assms(5) by (simp add: vs_def)
  have loc: "(case mdl_place k es of
         Some i \<Rightarrow> Some (es, i, ms)
       | None \<Rightarrow> if es = [] then None
           else map_option (\<lambda>(e, ms). (es @ [e], length es, ms)) (hpcrun_new_metric_data_list_kind_final k ms))
      = Some (es1, i, ms)"
    using assms(1,2,4) by (auto simp: es1_def i_def mdl_extend_def mdl_at_def split: option.split)
  have step: "hpcrun_merge_cct_metrics es ((k, svs) # src) ms = hpcrun_merge_cct_metrics (es1[i := (k, vs)]) src ms"
    using assms(1,4,5) e(2) by (simp add: loc row_def vs_def)
  have "distinct (map fst es1)" using ok by (simp add: mdl_ok_def)
  note m = map_of_update [OF this at, of vs]
  have "mdl_val (es1[i := (k, vs)]) k' j = mdl_val es k' j + mdl_val [(k, svs)] k' j"
    if "j < ki_idx (ms_kinds ms ! k')" for k' j
  proof -
    have "mdl_val es1 k' j = mdl_val es k' j" unfolding es1_def using that by (rule mdl_val_extend)
    moreover have "mdl_val (es1[i := (k, vs)]) k' j = mdl_val es1 k' j + mdl_val [(k, svs)] k' j"
      using e assms(5) that by (auto simp: mdl_val_def mdl_find_map_of m) (simp add: vs_def)
    ultimately show ?thesis by simp
  qed
  then have "values_added (ms_kinds ms) es [(k, svs)] (es1[i := (k, vs)])"
    using mdl_ok_update [OF ok at len] by (simp add: values_added_def)
  moreover have "es1[i := (k, vs)] \<noteq> []" using at(1) by auto
  ultimately show thesis using step that by blast
qed

lemma merge_adds:
  assumes "metrics_ready ms" and "es \<noteq> []" and "mdl_ok (ms_kinds ms) es" and "mdl_ok (ms_kinds ms) src"
  shows "\<exists>es'. hpcrun_merge_cct_metrics es src ms = Some (es', ms) \<and> values_added (ms_kinds ms) es src es'"
  using assms(2-)
proof (induction src arbitrary: es)
  case Nil
  then show ?case by (simp add: values_added_def mdl_val_def mdl_find_def)
next
  case (Cons e src)
  obtain k svs where e: "e = (k, svs)" by (cases e)
  from Cons.prems(3) have k: "k < length (ms_kinds ms)" "length svs = ki_idx (ms_kinds ms ! k)"
    and src: "mdl_ok (ms_kinds ms) src" "k \<notin> fst ` set src"
    by (auto simp: e mdl_ok_def)
  obtain es1 where es1: "hpcrun_merge_cct_metrics es ((k, svs) # src) ms = hpcrun_merge_cct_metrics es1 src ms"
    "es1 \<noteq> []" "values_added (ms_kinds ms) es [(k, svs)] es1"
    by (rule merge_entry [OF assms(1) Cons.prems(1,2) k])
  with Cons.IH [OF es1(2) _ src(1)] obtain es2 where
    es2: "hpcrun_merge_cct_metrics es1 src ms = Some (es2, ms)" "values_added (ms_kinds ms) es1 src es2"
    by (auto simp: values_added_def)
  have "mdl_val es2 k' i = mdl_val es k' i + mdl_val ((k, svs) # src) k' i"
    if "k' < length (ms_kinds ms)" "i < ki_idx (ms_kinds ms ! k')" for k' i
  proof -
    have "mdl_val es2 k' i = mdl_val es k' i + mdl_val [(k, svs)] k' i + mdl_val src k' i"
      using es1(3) es2(2) that by (simp add: values_added_def)
    then show ?thesis using src(2) by (simp add: mdl_val_Cons mdl_val_absent)
  qed
  with es1(1) es2 show ?case by (auto simp: e values_added_def)
qed

section \<open>The registry invariant\<close>

text \<open>
  While metrics are registered: the nodes of a kind are numbered from its last one down to 0, the
  global numbers of all nodes are exactly those below the number of metrics, no two nodes share one,
  and a closed kind has the table of its descriptors in order.
\<close>

definition kind_ok :: "(mnode \<Rightarrow> metric_desc_list_t) \<Rightarrow> kind_info_t \<Rightarrow> bool" where
  "kind_ok nd ki \<longleftrightarrow> map (\<lambda>n. md_id (nd n)) (ki_metric_data ki) = rev [0..<ki_idx ki] \<and>
     (ki_has_set_max ki \<longrightarrow> ki_metric_tbl ki = map Some (rev (ki_metric_data ki)) \<and>
        ki_null_metrics ki = replicate (ki_idx ki) 0)"

definition registered :: "metrics_state \<Rightarrow> nat \<Rightarrow> mnode \<Rightarrow> bool" where
  "registered ms k n \<longleftrightarrow> k < length (ms_kinds ms) \<and> n \<in> set (ki_metric_data (ms_kinds ms ! k))"

definition g_id_of :: "metrics_state \<Rightarrow> mnode \<Rightarrow> nat" where
  "g_id_of ms n = md_g_id (ms_node ms n)"

definition registry_ok :: "metrics_state \<Rightarrow> bool" where
  "registry_ok ms \<longleftrightarrow> ms_kind_state ms = KIND_UNINITIALIZED \<and> (\<forall>ki \<in> set (ms_kinds ms). kind_ok (ms_node ms) ki) \<and>
     (\<forall>k n. registered ms k n \<longrightarrow> g_id_of ms n < ms_num_kind_metrics ms \<and> n < ms_next_node ms \<and> n \<notin> set (ms_pre_alloc ms)) \<and>
     (\<forall>g < ms_num_kind_metrics ms. \<exists>k n. registered ms k n \<and> g_id_of ms n = g) \<and>
     (\<forall>k n k' n'. registered ms k n \<longrightarrow> registered ms k' n' \<longrightarrow> g_id_of ms n = g_id_of ms n' \<longrightarrow> k = k' \<and> n = n') \<and>
     distinct (ms_pre_alloc ms) \<and> (\<forall>n \<in> set (ms_pre_alloc ms). n < ms_next_node ms)"

definition metrics_init :: "metrics_state" where
  "metrics_init = \<lparr> ms_node = (\<lambda>_. \<lparr> md_val = \<lparr> metric_name = None, metric_description = None, metric_flags = [],
        metric_period = 0, metric_properties_time = False, metric_properties_cycles = False, metric_formula = None,
        metric_format = None, metric_is_frequency = 0, metric_is_multiplexed = 0, metric_threshold_mean = 0,
        metric_num_samples = 0 \<rparr>, md_proc = 0, md_id = 0, md_g_id = 0 \<rparr>),
      ms_next_node = 0, ms_pre_alloc = [], ms_kinds = [], ms_kind_state = KIND_UNINITIALIZED,
      ms_num_kind_metrics = 0, ms_metric_data = [] \<rparr>"

datatype reg_op =
    New_kind
  | Pre_allocate nat
  | New_metric nat "c_string option" "c_string option" byte u64 nat "bool \<times> bool"
  | Close_kind nat
  | Set_flag nat byte int

fun run_reg_op :: "reg_op \<Rightarrow> metrics_state \<Rightarrow> metrics_state option" where
  "run_reg_op New_kind ms = Some (snd (hpcrun_metrics_new_kind ms))"
| "run_reg_op (Pre_allocate n) ms = Some (hpcrun_pre_allocate_metrics n ms)"
| "run_reg_op (New_metric k name description valFmt period upd_fn prop) ms =
    map_option snd (hpcrun_set_new_metric_desc k name description valFmt period upd_fn prop ms)"
| "run_reg_op (Close_kind k) ms = hpcrun_close_kind k ms"
| "run_reg_op (Set_flag i v j) ms = set_flag i v j ms"

fun run_reg :: "reg_op list \<Rightarrow> metrics_state \<Rightarrow> metrics_state option" where
  "run_reg [] ms = Some ms"
| "run_reg (r # rs) ms = (case run_reg_op r ms of None \<Rightarrow> None | Some ms \<Rightarrow> run_reg rs ms)"

lemma registry_ok_init: "registry_ok metrics_init"
  by (simp add: registry_ok_def metrics_init_def registered_def)

lemma kind_ok_distinct: "kind_ok nd ki \<Longrightarrow> distinct (ki_metric_data ki)"
  by (metis distinct_map distinct_rev distinct_upt kind_ok_def)

lemma kind_ok_node:
  assumes "kind_ok nd ki" and "n \<in> set (ki_metric_data ki)"
  shows "md_id (nd n) < ki_idx ki"
proof -
  from assms(2) have "md_id (nd n) \<in> set (map (\<lambda>n. md_id (nd n)) (ki_metric_data ki))" by simp
  also have "\<dots> = {0..<ki_idx ki}" using assms(1) by (simp only: kind_ok_def) simp
  finally show ?thesis by simp
qed

text \<open>A change of the kinds that keeps the nodes of each kind keeps what is registered.\<close>

lemma registry_ok_cong:
  assumes "registry_ok ms" and "registered ms' = registered ms" and "g_id_of ms' = g_id_of ms"
    and "ms_kind_state ms' = ms_kind_state ms" and "ms_num_kind_metrics ms' = ms_num_kind_metrics ms"
    and "ms_next_node ms' = ms_next_node ms" and "ms_pre_alloc ms' = ms_pre_alloc ms"
    and "\<forall>ki \<in> set (ms_kinds ms'). kind_ok (ms_node ms') ki"
  shows "registry_ok ms'"
  using assms unfolding registry_ok_def by simp

lemma registry_ok_new_kind:
  assumes "registry_ok ms"
  shows "registry_ok (snd (hpcrun_metrics_new_kind ms))"
proof (rule registry_ok_cong [OF assms])
  show "registered (snd (hpcrun_metrics_new_kind ms)) = registered ms"
    by (auto simp: registered_def hpcrun_metrics_new_kind_def nth_append fun_eq_iff)
  show "\<forall>ki \<in> set (ms_kinds (snd (hpcrun_metrics_new_kind ms))). kind_ok (ms_node (snd (hpcrun_metrics_new_kind ms))) ki"
    using assms by (simp add: registry_ok_def hpcrun_metrics_new_kind_def kind_ok_def)
qed (simp_all add: hpcrun_metrics_new_kind_def g_id_of_def fun_eq_iff)

lemma registry_ok_pre_allocate: "registry_ok ms \<Longrightarrow> registry_ok (hpcrun_pre_allocate_metrics n ms)"
proof (induction n arbitrary: ms)
  case (Suc n)
  let ?ms = "ms\<lparr> ms_pre_alloc := ms_next_node ms # ms_pre_alloc ms, ms_next_node := Suc (ms_next_node ms) \<rparr>"
  have "registered ?ms = registered ms" "g_id_of ?ms = g_id_of ms" by (auto simp: registered_def g_id_of_def fun_eq_iff)
  with Suc.prems have "registry_ok ?ms" unfolding registry_ok_def by (auto simp: less_Suc_eq)
  with Suc.IH show ?case by simp
qed simp

lemma metric_tbl_fill_gen:
  assumes "map (\<lambda>n. md_id (nd n)) ls = rev [0..<length ls]" and "length ls \<le> length tbl"
  shows "metric_tbl_fill nd ls tbl = Some (map Some (rev ls) @ drop (length ls) tbl)"
  using assms
proof (induction ls arbitrary: tbl)
  case (Cons l ls)
  then have "md_id (nd l) = length ls" "map (\<lambda>n. md_id (nd n)) ls = rev [0..<length ls]" by auto
  moreover have "drop (length ls) (tbl[length ls := Some l]) = Some l # drop (Suc (length ls)) tbl"
    using Cons.prems(2) by (simp add: drop_update_swap Cons_nth_drop_Suc [symmetric])
  ultimately show ?case using Cons by simp
qed simp

lemma metric_tbl_fill_ok:
  assumes "kind_ok nd ki"
  shows "metric_tbl_fill nd (ki_metric_data ki) (replicate (ki_idx ki) None) = Some (map Some (rev (ki_metric_data ki)))"
proof -
  have "length (ki_metric_data ki) = ki_idx ki"
    using assms unfolding kind_ok_def by (metis length_map length_rev length_upt minus_nat.diff_0)
  with assms show ?thesis by (simp add: kind_ok_def metric_tbl_fill_gen)
qed

text \<open>Closing a kind succeeds and changes nothing but the marks of that kind.\<close>

definition closed_ki :: "kind_info_t \<Rightarrow> kind_info_t" where
  "closed_ki ki = (if ki_has_set_max ki then ki else ki\<lparr> ki_metric_tbl := map Some (rev (ki_metric_data ki)),
     ki_null_metrics := replicate (ki_idx ki) 0, ki_has_set_max := True \<rparr>)"

lemma closed_ki_simps [simp]:
  "ki_metric_data (closed_ki ki) = ki_metric_data ki" "ki_idx (closed_ki ki) = ki_idx ki" "ki_has_set_max (closed_ki ki)"
  by (auto simp: closed_ki_def)

lemma closed_ki_ok: "kind_ok nd ki \<Longrightarrow> kind_ok nd (closed_ki ki) \<and> kind_closed (closed_ki ki)"
  by (auto simp: kind_ok_def closed_ki_def kind_closed_def)

lemma get_num_metrics_ok:
  assumes "k < length (ms_kinds ms)" and "kind_ok (ms_node ms) (ms_kinds ms ! k)"
  shows "hpcrun_get_num_metrics k ms = Some (ki_idx (ms_kinds ms ! k),
    ms\<lparr> ms_kinds := (ms_kinds ms)[k := closed_ki (ms_kinds ms ! k)] \<rparr>)"
proof -
  have same: "ms\<lparr> ms_kinds := ms_kinds ms \<rparr> = ms" by simp
  show ?thesis
    using assms by (simp add: hpcrun_get_num_metrics_def Let_def metric_tbl_fill_ok closed_ki_def same)
qed

lemma registry_ok_close:
  assumes "registry_ok ms" and "hpcrun_close_kind k ms = Some ms'"
  shows "registry_ok ms'"
proof -
  from assms(2) have k: "k < length (ms_kinds ms)"
    by (auto simp: hpcrun_close_kind_def hpcrun_get_num_metrics_def split: if_splits)
  then have ok: "kind_ok (ms_node ms) (ms_kinds ms ! k)" using assms(1) by (simp add: registry_ok_def)
  have ms': "ms' = ms\<lparr> ms_kinds := (ms_kinds ms)[k := closed_ki (ms_kinds ms ! k)] \<rparr>"
    using assms(2) get_num_metrics_ok [OF k ok] by (simp add: hpcrun_close_kind_def)
  show ?thesis
  proof (rule registry_ok_cong [OF assms(1)])
    show "registered ms' = registered ms"
      using k by (auto simp: ms' registered_def fun_eq_iff nth_list_update split: if_splits)
    show "\<forall>ki \<in> set (ms_kinds ms'). kind_ok (ms_node ms') ki"
      using assms(1) closed_ki_ok [OF ok]
      by (auto simp: ms' registry_ok_def dest!: subsetD [OF set_update_subset_insert])
  qed (simp_all add: ms' g_id_of_def fun_eq_iff)
qed

lemma kind_ok_nodes_cong:
  assumes "kind_ok nd ki" and "\<And>n. n \<in> set (ki_metric_data ki) \<Longrightarrow> md_id (nd' n) = md_id (nd n)"
  shows "kind_ok nd' ki"
  using assms by (simp add: kind_ok_def cong: map_cong)

lemma registry_ok_set_flag:
  assumes "registry_ok ms" and "set_flag i v j ms = Some ms'"
  shows "registry_ok ms'"
proof (rule registry_ok_cong [OF assms(1)])
  from assms(2) show "registered ms' = registered ms" "g_id_of ms' = g_id_of ms" "ms_kind_state ms' = ms_kind_state ms"
    "ms_num_kind_metrics ms' = ms_num_kind_metrics ms" "ms_next_node ms' = ms_next_node ms" "ms_pre_alloc ms' = ms_pre_alloc ms"
    by (auto simp: set_flag_def registered_def g_id_of_def fun_eq_iff)
  from assms(2) have "md_id (ms_node ms' n) = md_id (ms_node ms n)" for n by (auto simp: set_flag_def)
  moreover from assms(2) have "ms_kinds ms' = ms_kinds ms" by (auto simp: set_flag_def)
  ultimately show "\<forall>ki \<in> set (ms_kinds ms'). kind_ok (ms_node ms') ki"
    using assms(1) by (auto simp: registry_ok_def intro: kind_ok_nodes_cong)
qed

text \<open>Registering a metric in an open kind: its node is a fresh one, its number is the next one.\<close>

definition fresh_mnode :: "metrics_state \<Rightarrow> mnode" where
  "fresh_mnode ms = (case ms_pre_alloc ms of p # _ \<Rightarrow> p | [] \<Rightarrow> ms_next_node ms)"

lemma fresh_mnode:
  assumes "registry_ok ms"
  shows "\<not> registered ms k (fresh_mnode ms)"
proof
  assume r: "registered ms k (fresh_mnode ms)"
  with assms have "fresh_mnode ms < ms_next_node ms" "fresh_mnode ms \<notin> set (ms_pre_alloc ms)"
    unfolding registry_ok_def by blast+
  then show False by (auto simp: fresh_mnode_def split: list.splits)
qed

lemma new_metric_desc_open:
  assumes "k < length (ms_kinds ms)" and "\<not> ki_has_set_max (ms_kinds ms ! k)" and "name \<noteq> None"
    and "hpcrun_set_new_metric_desc k name description valFmt period upd_fn prop ms = Some (j, ms')"
  shows "j = int (ms_num_kind_metrics ms)"
    and "ms_num_kind_metrics ms' = Suc (ms_num_kind_metrics ms)" and "ms_kind_state ms' = ms_kind_state ms"
    and "ms_kinds ms' = (ms_kinds ms)[k := (ms_kinds ms ! k)\<lparr> ki_metric_data := fresh_mnode ms # ki_metric_data (ms_kinds ms ! k),
      ki_idx := ki_idx (ms_kinds ms ! k) + 1 \<rparr>]"
    and "\<exists>d. ms_node ms' = (ms_node ms)(fresh_mnode ms := d) \<and> md_id d = ki_idx (ms_kinds ms ! k) \<and>
      md_g_id d = ms_num_kind_metrics ms \<and> md_proc d = upd_fn \<and> metric_name (md_val d) = name \<and>
      metric_description (md_val d) = description \<and> metric_period (md_val d) = period \<and>
      flags_valFmt (metric_flags (md_val d)) = valFmt"
    and "ms_pre_alloc ms' = tl (ms_pre_alloc ms)"
    and "ms_next_node ms' = (if ms_pre_alloc ms = [] then Suc (ms_next_node ms) else ms_next_node ms)"
  using assms
  by (auto simp: hpcrun_set_new_metric_desc_def Let_def fresh_mnode_def flags_valFmt_def hpcrun_metricFlags_NULL_def
      split: list.splits)

lemma new_metric_desc_closed:
  assumes "k < length (ms_kinds ms)" and "ki_has_set_max (ms_kinds ms ! k)"
  shows "hpcrun_set_new_metric_desc k name description valFmt period upd_fn prop ms = Some (- 1, ms)"
  using assms by (simp add: hpcrun_set_new_metric_desc_def Let_def)

lemma new_metric_registered:
  assumes k: "k < length (ms_kinds ms)" "\<not> ki_has_set_max (ms_kinds ms ! k)" "name \<noteq> None"
    and new: "hpcrun_set_new_metric_desc k name description valFmt period upd_fn prop ms = Some (j, ms')"
  shows "registered ms' k' n \<longleftrightarrow> registered ms k' n \<or> k' = k \<and> n = fresh_mnode ms"
    and "g_id_of ms' n = (if n = fresh_mnode ms then ms_num_kind_metrics ms else g_id_of ms n)"
proof -
  note f = new_metric_desc_open [OF k new]
  show "registered ms' k' n \<longleftrightarrow> registered ms k' n \<or> k' = k \<and> n = fresh_mnode ms"
    using k(1) by (auto simp: registered_def f(4) nth_list_update)
  show "g_id_of ms' n = (if n = fresh_mnode ms then ms_num_kind_metrics ms else g_id_of ms n)"
    using f(5) by (auto simp: g_id_of_def)
qed

lemma registered_old:
  assumes "registry_ok ms" and "registered ms k n"
  shows "g_id_of ms n < ms_num_kind_metrics ms" and "n < ms_next_node ms" and "n \<notin> set (ms_pre_alloc ms)"
    and "n \<noteq> fresh_mnode ms"
  using assms fresh_mnode [OF assms(1)] unfolding registry_ok_def by blast+

lemma new_metric_kinds_ok:
  assumes ok: "registry_ok ms" and k: "k < length (ms_kinds ms)" "\<not> ki_has_set_max (ms_kinds ms ! k)" "name \<noteq> None"
    and new: "hpcrun_set_new_metric_desc k name description valFmt period upd_fn prop ms = Some (j, ms')"
    and ki: "ki \<in> set (ms_kinds ms')"
  shows "kind_ok (ms_node ms') ki"
proof -
  note f = new_metric_desc_open [OF k new]
  from f(5) obtain d where d: "ms_node ms' = (ms_node ms)(fresh_mnode ms := d)" "md_id d = ki_idx (ms_kinds ms ! k)"
    by blast
  from ki obtain k' where k': "k' < length (ms_kinds ms)" "ki = ms_kinds ms' ! k'"
    by (auto simp: f(4) in_set_conv_nth)
  have o: "kind_ok (ms_node ms) (ms_kinds ms ! k')" using ok k'(1) by (simp add: registry_ok_def)
  have "md_id (ms_node ms' n) = md_id (ms_node ms n)" if "n \<in> set (ki_metric_data (ms_kinds ms ! k'))" for n
    using registered_old(4) [OF ok, of k' n] that k'(1) by (simp add: registered_def d(1))
  note o' = kind_ok_nodes_cong [OF o this]
  show ?thesis
  proof (cases "k' = k")
    case True
    with o' k k' show ?thesis by (simp add: f(4) kind_ok_def d)
  next
    case False
    with o' k' show ?thesis by (simp add: f(4))
  qed
qed

lemma registry_ok_new_metric_open:
  assumes ok: "registry_ok ms" and k: "k < length (ms_kinds ms)" "\<not> ki_has_set_max (ms_kinds ms ! k)" "name \<noteq> None"
    and new: "hpcrun_set_new_metric_desc k name description valFmt period upd_fn prop ms = Some (j, ms')"
  shows "registry_ok ms'"
proof -
  note f = new_metric_desc_open [OF k new]
  note reg = new_metric_registered [OF k new]
  note old = registered_old [OF ok]
  have fresh: "fresh_mnode ms < ms_next_node ms'" "fresh_mnode ms \<notin> set (ms_pre_alloc ms')"
    using ok by (auto simp: registry_ok_def fresh_mnode_def f(6,7) split: list.splits)
  have pre: "set (ms_pre_alloc ms') \<subseteq> set (ms_pre_alloc ms)" "ms_next_node ms \<le> ms_next_node ms'"
    using list.set_sel(2) [of "ms_pre_alloc ms"] by (cases "ms_pre_alloc ms"; auto simp: f(6,7))+
  show "registry_ok ms'"
    unfolding registry_ok_def
  proof (intro conjI allI impI ballI)
    show "ms_kind_state ms' = KIND_UNINITIALIZED" using ok f(3) by (simp add: registry_ok_def)
    show "kind_ok (ms_node ms') ki" if "ki \<in> set (ms_kinds ms')" for ki by (rule new_metric_kinds_ok [OF ok k new that])
    show "g_id_of ms' n < ms_num_kind_metrics ms'" "n < ms_next_node ms'" "n \<notin> set (ms_pre_alloc ms')"
      if "registered ms' k' n" for k' n
      using that old [of k' n] fresh pre by (auto simp: reg f(2))
    show "\<exists>k n. registered ms' k n \<and> g_id_of ms' n = i" if "i < ms_num_kind_metrics ms'" for i
    proof (cases "i = ms_num_kind_metrics ms")
      case True
      then show ?thesis by (auto simp: reg)
    next
      case False
      with that have "i < ms_num_kind_metrics ms" by (simp add: f(2))
      with ok obtain k' n where "registered ms k' n" "g_id_of ms n = i" by (auto simp: registry_ok_def)
      with old(4) [of k' n] show ?thesis by (intro exI [of _ k'] exI [of _ n]) (simp add: reg)
    qed
    show "k1 = k2" "n1 = n2" if "registered ms' k1 n1" "registered ms' k2 n2" "g_id_of ms' n1 = g_id_of ms' n2" for k1 n1 k2 n2
      using that ok old(1,4) [of k1 n1] old(1,4) [of k2 n2] fresh_mnode [OF ok]
      unfolding reg registry_ok_def by (auto split: if_splits dest: old(1))
    show "distinct (ms_pre_alloc ms')" using ok by (simp add: registry_ok_def f(6) distinct_tl)
    show "n < ms_next_node ms'" if "n \<in> set (ms_pre_alloc ms')" for n
      using that pre ok unfolding registry_ok_def by (meson less_le_trans subsetD)
  qed
qed

lemma registry_ok_run_op:
  assumes "registry_ok ms" and "run_reg_op r ms = Some ms'"
  shows "registry_ok ms'"
proof (cases r)
  case (New_metric k name description valFmt period upd_fn pr)
  with assms(2) obtain j where new: "hpcrun_set_new_metric_desc k name description valFmt period upd_fn pr ms = Some (j, ms')"
    by auto
  then have k: "k < length (ms_kinds ms)" by (auto simp: hpcrun_set_new_metric_desc_def split: if_splits)
  show ?thesis
  proof (cases "ki_has_set_max (ms_kinds ms ! k)")
    case True
    with assms(1) new k new_metric_desc_closed show ?thesis by simp
  next
    case False
    with new k have "name \<noteq> None" by (auto simp: hpcrun_set_new_metric_desc_def Let_def split: if_splits)
    then show ?thesis by (rule registry_ok_new_metric_open [OF assms(1) k False _ new])
  qed
next
  case New_kind
  with assms(2) have "ms' = snd (hpcrun_metrics_new_kind ms)" by simp
  with registry_ok_new_kind [OF assms(1)] show ?thesis by simp
next
  case (Pre_allocate n)
  with assms(2) have "ms' = hpcrun_pre_allocate_metrics n ms" by simp
  with registry_ok_pre_allocate [OF assms(1)] show ?thesis by simp
next
  case (Close_kind k)
  with assms(2) show ?thesis by (intro registry_ok_close [OF assms(1)]) simp
next
  case (Set_flag i v j)
  with assms(2) show ?thesis by (intro registry_ok_set_flag [OF assms(1)]) simp
qed

lemma registry_ok_run: "registry_ok ms \<Longrightarrow> run_reg rs ms = Some ms' \<Longrightarrow> registry_ok ms'"
  by (induction rs ms rule: run_reg.induct) (auto intro: registry_ok_run_op split: option.splits)

section \<open>Finalization\<close>

definition dmap_of :: "(mnode \<Rightarrow> metric_desc_list_t) \<Rightarrow> nat \<Rightarrow> mnode \<Rightarrow> dmap" where
  "dmap_of nd k n = \<lparr> dm_desc = n, dm_id = md_id (nd n), dm_kind = k, dm_proc = md_proc (nd n) \<rparr>"

lemma metric_data_fill_ok:
  assumes "\<forall>n \<in> set ls. md_g_id (nd n) < length md" and "inj_on (\<lambda>n. md_g_id (nd n)) (set ls)" and "distinct ls"
  shows "\<exists>md'. metric_data_fill nd k ls md = Some md' \<and> length md' = length md \<and>
    (\<forall>n \<in> set ls. md' ! md_g_id (nd n) = Some (dmap_of nd k n)) \<and>
    (\<forall>g. g \<notin> (\<lambda>n. md_g_id (nd n)) ` set ls \<longrightarrow> md' ! g = md ! g)"
  using assms
proof (induction ls arbitrary: md)
  case (Cons l ls)
  let ?md = "md[md_g_id (nd l) := Some (dmap_of nd k l)]"
  from Cons.IH [of ?md] Cons.prems obtain md' where md': "metric_data_fill nd k ls ?md = Some md'" "length md' = length md"
    "\<forall>n \<in> set ls. md' ! md_g_id (nd n) = Some (dmap_of nd k n)"
    "\<forall>g. g \<notin> (\<lambda>n. md_g_id (nd n)) ` set ls \<longrightarrow> md' ! g = ?md ! g"
    by auto
  have "md_g_id (nd l) \<notin> (\<lambda>n. md_g_id (nd n)) ` set ls" using Cons.prems(2,3) by (auto simp: inj_on_def)
  with md'(4) Cons.prems(1) have "md' ! md_g_id (nd l) = Some (dmap_of nd k l)" by simp
  with md' Cons.prems(1) show ?case by (auto simp: dmap_of_def)
qed simp

text \<open>The table after the kinds from \<open>k\<close> on: every registered metric of a kind below has its entry.\<close>

definition filled_below :: "nat \<Rightarrow> metrics_state \<Rightarrow> bool" where
  "filled_below k ms \<longleftrightarrow> length (ms_metric_data ms) = ms_num_kind_metrics ms \<and>
     (\<forall>k' n. k' < k \<longrightarrow> registered ms k' n \<longrightarrow> ms_metric_data ms ! g_id_of ms n = Some (dmap_of (ms_node ms) k' n)) \<and>
     (\<forall>k' < k. k' < length (ms_kinds ms) \<longrightarrow> kind_closed (ms_kinds ms ! k'))"

definition registry_eq :: "metrics_state \<Rightarrow> metrics_state \<Rightarrow> bool" where
  "registry_eq ms ms' \<longleftrightarrow> ms_node ms' = ms_node ms \<and> ms_num_kind_metrics ms' = ms_num_kind_metrics ms \<and>
     map ki_metric_data (ms_kinds ms') = map ki_metric_data (ms_kinds ms) \<and> map ki_idx (ms_kinds ms') = map ki_idx (ms_kinds ms)"

definition numbered :: "metrics_state \<Rightarrow> bool" where
  "numbered ms \<longleftrightarrow> (\<forall>ki \<in> set (ms_kinds ms). kind_ok (ms_node ms) ki) \<and>
     (\<forall>k n. registered ms k n \<longrightarrow> g_id_of ms n < ms_num_kind_metrics ms) \<and>
     (\<forall>g < ms_num_kind_metrics ms. \<exists>k n. registered ms k n \<and> g_id_of ms n = g) \<and>
     (\<forall>k n k' n'. registered ms k n \<longrightarrow> registered ms k' n' \<longrightarrow> g_id_of ms n = g_id_of ms n' \<longrightarrow> k = k' \<and> n = n')"

lemma registry_eq_registered:
  assumes "registry_eq ms ms'"
  shows "registered ms' = registered ms" and "g_id_of ms' = g_id_of ms" and "length (ms_kinds ms') = length (ms_kinds ms)"
proof -
  show len: "length (ms_kinds ms') = length (ms_kinds ms)" using assms unfolding registry_eq_def by (metis length_map)
  have "ki_metric_data (ms_kinds ms' ! k) = ki_metric_data (ms_kinds ms ! k)" if "k < length (ms_kinds ms)" for k
    using assms that len unfolding registry_eq_def by (metis nth_map)
  with len show "registered ms' = registered ms" by (auto simp: registered_def fun_eq_iff)
  show "g_id_of ms' = g_id_of ms" using assms by (simp add: g_id_of_def registry_eq_def fun_eq_iff)
qed

lemma map_update_same: "f y = f (xs ! k) \<Longrightarrow> map f (xs[k := y]) = map f xs"
  by (metis list_update_id map_update)

lemma finalize_kind_step:
  assumes "numbered ms" and "filled_below k ms" and "k < length (ms_kinds ms)"
  shows "\<exists>ms'. hpcrun_get_num_metrics k ms = Some (ki_idx (ms_kinds ms ! k), ms') \<and>
    (\<exists>md. metric_data_fill (ms_node ms') k (ki_metric_data (ms_kinds ms' ! k)) (ms_metric_data ms') = Some md \<and>
      registry_eq ms (ms'\<lparr> ms_metric_data := md \<rparr>) \<and> numbered (ms'\<lparr> ms_metric_data := md \<rparr>) \<and>
      filled_below (Suc k) (ms'\<lparr> ms_metric_data := md \<rparr>))"
proof -
  let ?ki = "ms_kinds ms ! k"
  let ?ms = "ms\<lparr> ms_kinds := (ms_kinds ms)[k := closed_ki ?ki] \<rparr>"
  have ok: "kind_ok (ms_node ms) ?ki" using assms by (simp add: numbered_def)
  have reg: "registered ms k n" if "n \<in> set (ki_metric_data ?ki)" for n using that assms(3) by (simp add: registered_def)
  have g: "md_g_id (ms_node ms n) = g_id_of ms n" for n by (simp add: g_id_of_def)
  have "\<forall>n \<in> set (ki_metric_data ?ki). md_g_id (ms_node ms n) < length (ms_metric_data ms)"
    using assms(1,2) reg by (auto simp: g numbered_def filled_below_def)
  moreover have "inj_on (\<lambda>n. md_g_id (ms_node ms n)) (set (ki_metric_data ?ki))"
    using assms(1) reg unfolding g numbered_def inj_on_def by blast
  ultimately obtain md where md: "metric_data_fill (ms_node ms) k (ki_metric_data ?ki) (ms_metric_data ms) = Some md"
    "length md = length (ms_metric_data ms)"
    "\<forall>n \<in> set (ki_metric_data ?ki). md ! g_id_of ms n = Some (dmap_of (ms_node ms) k n)"
    "\<forall>i. i \<notin> g_id_of ms ` set (ki_metric_data ?ki) \<longrightarrow> md ! i = ms_metric_data ms ! i"
    using metric_data_fill_ok [OF _ _ kind_ok_distinct [OF ok], of "ms_node ms" "ms_metric_data ms" k] by (auto simp: g)
  let ?ms' = "?ms\<lparr> ms_metric_data := md \<rparr>"
  have eq: "registry_eq ms ?ms'" by (simp add: registry_eq_def map_update_same)
  note e = registry_eq_registered [OF eq]
  have num: "numbered ?ms'"
    using assms(1) closed_ki_ok [OF ok] unfolding numbered_def e
    by (auto dest!: subsetD [OF set_update_subset_insert])
  have "md ! g_id_of ms n = Some (dmap_of (ms_node ms) k' n)" if "registered ms k' n" "k' < Suc k" for k' n
  proof (cases "k' = k")
    case True
    with that md(3) show ?thesis by (simp add: registered_def)
  next
    case False
    with assms(1) that reg have "g_id_of ms n \<notin> g_id_of ms ` set (ki_metric_data ?ki)"
      unfolding numbered_def by blast
    with md(4) assms(2) that False show ?thesis by (simp add: filled_below_def)
  qed
  then have "filled_below (Suc k) ?ms'"
    using assms(2,3) md(2) closed_ki_ok [OF ok] unfolding filled_below_def e
    by (auto simp: nth_list_update less_Suc_eq)
  with eq num md(1) show ?thesis
    using get_num_metrics_ok [OF assms(3) ok] assms(3) by simp
qed

lemma registry_eq_trans: "registry_eq a b \<Longrightarrow> registry_eq b c \<Longrightarrow> registry_eq a c"
  by (simp add: registry_eq_def)

lemma finalize_kinds_ok:
  assumes "numbered ms" and "filled_below k ms" and "k + n = length (ms_kinds ms)"
  shows "\<exists>ms'. finalize_kinds n k ms = Some ms' \<and> registry_eq ms ms' \<and> numbered ms' \<and> filled_below (k + n) ms'"
  using assms
proof (induction n arbitrary: k ms)
  case 0
  then show ?case by (simp add: registry_eq_def)
next
  case (Suc n)
  then obtain ms1 md where 1: "hpcrun_get_num_metrics k ms = Some (ki_idx (ms_kinds ms ! k), ms1)"
    "metric_data_fill (ms_node ms1) k (ki_metric_data (ms_kinds ms1 ! k)) (ms_metric_data ms1) = Some md"
    "registry_eq ms (ms1\<lparr> ms_metric_data := md \<rparr>)" "numbered (ms1\<lparr> ms_metric_data := md \<rparr>)"
    "filled_below (Suc k) (ms1\<lparr> ms_metric_data := md \<rparr>)"
    using finalize_kind_step [OF Suc.prems(1,2)] by auto
  have "Suc k + n = length (ms_kinds (ms1\<lparr> ms_metric_data := md \<rparr>))"
    using Suc.prems(3) registry_eq_registered(3) [OF 1(3)] by simp
  from Suc.IH [OF 1(4,5) this] 1 registry_eq_trans show ?case by fastforce
qed

lemma linked_registered:
  assumes "numbered ms"
  shows "registered ms k n \<Longrightarrow> hpcrun_id2metric_linked (int (g_id_of ms n)) ms = Some n"
    and "j < 0 \<or> int (ms_num_kind_metrics ms) \<le> j \<Longrightarrow> hpcrun_id2metric_linked j ms = None"
proof -
  let ?xs = "concat (map ki_metric_data (ms_kinds ms))"
  have mem: "m \<in> set ?xs \<longleftrightarrow> (\<exists>k. registered ms k m)" for m
    by (auto simp: registered_def dest: nth_mem) (metis in_set_conv_nth)
  show "hpcrun_id2metric_linked (int (g_id_of ms n)) ms = Some n" if "registered ms k n"
  proof (cases "hpcrun_id2metric_linked (int (g_id_of ms n)) ms")
    case None
    have "n \<in> set ?xs" using that mem by blast
    with None show ?thesis by (auto simp: hpcrun_id2metric_linked_def find_None_iff g_id_of_def)
  next
    case (Some m)
    then obtain i where i: "i < length ?xs" "m = ?xs ! i" and "g_id_of ms m = g_id_of ms n"
      by (auto simp: hpcrun_id2metric_linked_def find_Some_iff g_id_of_def)
    moreover have "m \<in> set ?xs" unfolding i(2) by (rule nth_mem [OF i(1)])
    ultimately have "m \<in> set ?xs" "g_id_of ms m = g_id_of ms n" by auto
    with mem assms that Some show ?thesis unfolding numbered_def by blast
  qed
  show "hpcrun_id2metric_linked j ms = None" if "j < 0 \<or> int (ms_num_kind_metrics ms) \<le> j"
  proof -
    have "int (g_id_of ms m) \<noteq> j" if "m \<in> set ?xs" for m
    proof -
      from that mem obtain k where "registered ms k m" by blast
      with assms have "g_id_of ms m < ms_num_kind_metrics ms" unfolding numbered_def by blast
      with \<open>j < 0 \<or> int (ms_num_kind_metrics ms) \<le> j\<close> show ?thesis by linarith
    qed
    then show ?thesis unfolding hpcrun_id2metric_linked_def find_None_iff g_id_of_def by blast
  qed
qed

lemma finalize_ok:
  assumes "registry_ok ms"
  shows "\<exists>ms'. hpcrun_metrics_data_finalize ms = Some ms' \<and> registry_eq ms ms' \<and> numbered ms' \<and>
    filled_below (length (ms_kinds ms)) ms' \<and> ms_kind_state ms' = KIND_INITIALIZED"
proof -
  let ?ms = "ms\<lparr> ms_kind_state := KIND_INITIALIZING, ms_metric_data := replicate (ms_num_kind_metrics ms) None \<rparr>"
  have reg: "registered ?ms = registered ms" "g_id_of ?ms = g_id_of ms" by (auto simp: registered_def g_id_of_def fun_eq_iff)
  have "numbered ?ms" using assms unfolding numbered_def registry_ok_def reg by simp
  moreover have "filled_below 0 ?ms" by (simp add: filled_below_def)
  ultimately obtain ms1 where 1: "finalize_kinds (length (ms_kinds ms)) 0 ?ms = Some ms1" "registry_eq ?ms ms1"
    "numbered ms1" "filled_below (length (ms_kinds ms)) ms1"
    using finalize_kinds_ok [of ?ms 0 "length (ms_kinds ms)"] by auto
  let ?ms1 = "ms1\<lparr> ms_kind_state := KIND_INITIALIZED \<rparr>"
  have reg1: "registered ?ms1 = registered ms1" "g_id_of ?ms1 = g_id_of ms1" by (auto simp: registered_def g_id_of_def fun_eq_iff)
  have "registry_eq ms ?ms1" using 1(2) by (simp add: registry_eq_def)
  moreover have "numbered ?ms1" using 1(3) unfolding numbered_def reg1 by simp
  moreover have "filled_below (length (ms_kinds ms)) ?ms1" using 1(4) unfolding filled_below_def reg1 by simp
  moreover have "hpcrun_metrics_data_finalize ms = Some ?ms1"
    using assms 1(1) by (simp add: hpcrun_metrics_data_finalize_def registry_ok_def)
  ultimately show ?thesis by auto
qed

lemma filled_ready:
  assumes "numbered ms" and "filled_below (length (ms_kinds ms)) ms" and "ms_kind_state ms = KIND_INITIALIZED"
  shows "metrics_ready ms"
    and "registered ms k n \<Longrightarrow> metric_data_at ms (int (g_id_of ms n)) = Some (dmap_of (ms_node ms) k n)"
proof -
  have entry: "ms_metric_data ms ! g_id_of ms n = Some (dmap_of (ms_node ms) k n)" if "registered ms k n" for k n
    using assms(2) that by (simp add: filled_below_def registered_def)
  have bound: "g_id_of ms n < length (ms_metric_data ms)" if "registered ms k n" for k n
    using assms(1,2) that by (auto simp: filled_below_def numbered_def)
  show "metric_data_at ms (int (g_id_of ms n)) = Some (dmap_of (ms_node ms) k n)" if "registered ms k n" for k n
    using entry [OF that] bound [OF that] by (simp add: metric_data_at_def)
  have "dm_kind d < length (ms_kinds ms) \<and> dm_id d < ki_idx (ms_kinds ms ! dm_kind d)" if "Some d \<in> set (ms_metric_data ms)" for d
  proof -
    from that obtain g where g: "g < length (ms_metric_data ms)" "ms_metric_data ms ! g = Some d" by (auto simp: in_set_conv_nth)
    with assms(1,2) obtain k n where kn: "registered ms k n" "g_id_of ms n = g" by (auto simp: filled_below_def numbered_def)
    with entry [OF kn(1)] g have d: "d = dmap_of (ms_node ms) k n" by simp
    have "kind_ok (ms_node ms) (ms_kinds ms ! k)" using kn(1) assms(1) by (simp add: registered_def numbered_def)
    from kind_ok_node [OF this] kn(1) show ?thesis by (auto simp: d dmap_of_def registered_def)
  qed
  moreover have "\<forall>ki \<in> set (ms_kinds ms). kind_closed ki"
    using assms(2) by (auto simp: filled_below_def in_set_conv_nth)
  ultimately show "metrics_ready ms" using assms(3) by (simp add: metrics_ready_def)
qed

section \<open>Properties\<close>

text \<open>
  C31. Registration and finalization of metrics: after any sequence of registrations (new kinds, preallocated
  nodes, new metrics, closed kinds, changed flags) from the initial state, the finalization succeeds, and
  \<open>hpcrun_id2metric\<close>, which reads the table the finalization builds, returns for every number the very
  descriptor that the search \<open>hpcrun_id2metric_linked\<close> through the lists of all kinds finds: a null pointer
  outside \<open>0 .. num_kind_metrics - 1\<close> and a descriptor inside.
\<close>

theorem metrics_finalize_table:
  assumes "run_reg rs metrics_init = Some ms"
  shows "\<exists>ms'. hpcrun_metrics_data_finalize ms = Some ms' \<and> metrics_ready ms' \<and>
    (\<forall>j. hpcrun_id2metric j ms = Some (hpcrun_id2metric_linked j ms, ms')) \<and>
    (\<forall>j. hpcrun_id2metric_linked j ms \<noteq> None \<longleftrightarrow> 0 \<le> j \<and> j < int (ms_num_kind_metrics ms))"
proof -
  have "registry_ok ms" using assms registry_ok_init by (rule registry_ok_run [rotated])
  then obtain ms' where ms': "hpcrun_metrics_data_finalize ms = Some ms'" "registry_eq ms ms'" "numbered ms'"
    "filled_below (length (ms_kinds ms)) ms'" "ms_kind_state ms' = KIND_INITIALIZED"
    using finalize_ok by blast
  note r = registry_eq_registered [OF ms'(2)]
  have num: "ms_num_kind_metrics ms' = ms_num_kind_metrics ms" using ms'(2) by (simp add: registry_eq_def)
  have linked: "hpcrun_id2metric_linked j ms = hpcrun_id2metric_linked j ms'" for j
    using ms'(2) by (simp add: hpcrun_id2metric_linked_def registry_eq_def)
  note f = filled_ready [OF ms'(3) ms'(4) [folded r(3)] ms'(5)]
  note l = linked_registered [OF ms'(3)]
  have "hpcrun_id2metric j ms = Some (hpcrun_id2metric_linked j ms, ms') \<and>
    (hpcrun_id2metric_linked j ms \<noteq> None \<longleftrightarrow> 0 \<le> j \<and> j < int (ms_num_kind_metrics ms))" for j
  proof (cases "0 \<le> j \<and> j < int (ms_num_kind_metrics ms)")
    case True
    then have "nat j < ms_num_kind_metrics ms'" using num by linarith
    with ms'(3) obtain k n where "registered ms' k n" "g_id_of ms' n = nat j" by (auto simp: numbered_def)
    with True f(2) [of k n] l(1) [of k n] show ?thesis
      by (simp add: hpcrun_id2metric_def hpcrun_get_num_kind_metrics_def ms'(1) num linked dmap_of_def)
  next
    case False
    with l(2) [of j] show ?thesis
      by (auto simp: hpcrun_id2metric_def hpcrun_get_num_kind_metrics_def ms'(1) num linked)
  qed
  with ms'(1) f(1) show ?thesis by blast
qed

text \<open>A registry with two kinds, the second opened before the first is complete.\<close>

definition example_registry :: "reg_op list" where
  "example_registry = [New_kind, Pre_allocate 1, New_metric 0 (Some []) None MetricFlags_ValFmt_Int 1 1 (False, False), New_kind,
     New_metric 1 (Some []) None MetricFlags_ValFmt_Int 1 1 (False, False), Set_flag 6 0 1,
     New_metric 0 (Some []) None MetricFlags_ValFmt_Real 1 1 (True, False), Close_kind 0]"

definition example_ms :: "metrics_state" where
  "example_ms = the (run_reg example_registry metrics_init)"

lemma example_registry_runs: "run_reg example_registry metrics_init = Some example_ms"
proof -
  have "\<not> Option.is_none (run_reg example_registry metrics_init)" by code_simp
  then show ?thesis by (simp add: example_ms_def Option.is_none_def)
qed

theorem metrics_finalize_table_witness:
  "\<exists>ms'. hpcrun_metrics_data_finalize example_ms = Some ms' \<and> metrics_ready ms' \<and>
    (\<forall>j. hpcrun_id2metric j example_ms = Some (hpcrun_id2metric_linked j example_ms, ms')) \<and>
    (\<forall>j. hpcrun_id2metric_linked j example_ms \<noteq> None \<longleftrightarrow> 0 \<le> j \<and> j < int (ms_num_kind_metrics example_ms))"
  by (rule metrics_finalize_table [OF example_registry_runs])

text \<open>
  A metric registered in an open kind gets the next number, and from then on that number stands for a
  descriptor with the given name, description, period, value format and update procedure; no other number
  changes its meaning. In a closed kind the registration is refused with -1 and changes nothing.
\<close>

theorem metrics_new_metric:
  assumes "run_reg rs metrics_init = Some ms" and "k < length (ms_kinds ms)" and "name \<noteq> None"
    and "hpcrun_set_new_metric_desc k name description valFmt period upd_fn prop ms = Some (j, ms')"
  shows "if ki_has_set_max (ms_kinds ms ! k) then j = - 1 \<and> ms' = ms
    else j = int (ms_num_kind_metrics ms) \<and>
      (\<forall>i. i \<noteq> j \<longrightarrow> hpcrun_id2metric_linked i ms' = hpcrun_id2metric_linked i ms \<and>
         (\<forall>n. hpcrun_id2metric_linked i ms = Some n \<longrightarrow> ms_node ms' n = ms_node ms n)) \<and>
      (\<exists>n d. hpcrun_id2metric_linked j ms' = Some n \<and> ms_node ms' n = d \<and> md_proc d = upd_fn \<and>
         metric_name (md_val d) = name \<and> metric_description (md_val d) = description \<and>
         metric_period (md_val d) = period \<and> flags_valFmt (metric_flags (md_val d)) = valFmt)"
proof (cases "ki_has_set_max (ms_kinds ms ! k)")
  case True
  with assms(2,4) new_metric_desc_closed show ?thesis by simp
next
  case False
  have ok: "registry_ok ms" using assms(1) registry_ok_init by (rule registry_ok_run [rotated])
  note f = new_metric_desc_open [OF assms(2) False assms(3,4)]
  note reg = new_metric_registered [OF assms(2) False assms(3,4)]
  have num: "numbered ms" "numbered ms'"
    using ok registry_ok_new_metric_open [OF ok assms(2) False assms(3,4)] by (auto simp: registry_ok_def numbered_def)
  have new: "hpcrun_id2metric_linked j ms' = Some (fresh_mnode ms)"
    using linked_registered(1) [OF num(2), of k "fresh_mnode ms"] f(1) by (simp add: reg)
  have "hpcrun_id2metric_linked i ms' = hpcrun_id2metric_linked i ms \<and>
    (\<forall>n. hpcrun_id2metric_linked i ms = Some n \<longrightarrow> ms_node ms' n = ms_node ms n)" if "i \<noteq> j" for i
  proof (cases "0 \<le> i \<and> i < int (ms_num_kind_metrics ms)")
    case True
    then have "nat i < ms_num_kind_metrics ms" by linarith
    with num(1) obtain k' n where n: "registered ms k' n" "g_id_of ms n = nat i" by (auto simp: numbered_def)
    have "n \<noteq> fresh_mnode ms" using registered_old(4) [OF ok n(1)] .
    with f(5) linked_registered(1) [OF num(1) n(1)] linked_registered(1) [OF num(2), of k' n] n True show ?thesis
      by (auto simp: reg)
  next
    case False
    with that f(1,2) linked_registered(2) [OF num(1), of i] linked_registered(2) [OF num(2), of i] show ?thesis by auto
  qed
  with False new f(1,5) show ?thesis by auto
qed

definition example_new :: "int \<times> metrics_state" where
  "example_new = the (hpcrun_set_new_metric_desc 1 (Some [97]) None MetricFlags_ValFmt_Int 7 2 (False, False) example_ms)"

lemma example_new_runs:
  "hpcrun_set_new_metric_desc 1 (Some [97]) None MetricFlags_ValFmt_Int 7 2 (False, False) example_ms =
    Some (fst example_new, snd example_new)"
proof -
  have "\<not> Option.is_none (hpcrun_set_new_metric_desc 1 (Some [97]) None MetricFlags_ValFmt_Int 7 2 (False, False) example_ms)"
    by code_simp
  then show ?thesis by (simp add: example_new_def Option.is_none_def)
qed

theorem metrics_new_metric_witness:
  "fst example_new = 3 \<and> (\<exists>n. hpcrun_id2metric_linked 3 (snd example_new) = Some n \<and>
     metric_name (md_val (ms_node (snd example_new) n)) = Some [97] \<and>
     metric_period (md_val (ms_node (snd example_new) n)) = 7)"
proof -
  have k: "1 < length (ms_kinds example_ms)" "\<not> ki_has_set_max (ms_kinds example_ms ! 1)" "ms_num_kind_metrics example_ms = 3"
    by code_simp+
  show ?thesis
    using metrics_new_metric [OF example_registry_runs k(1) _ example_new_runs] k(2,3) by auto
qed

text \<open>
  Updates of a context's values, once the metrics are final: \<open>hpcrun_metric_std_inc\<close> adds to the value of its metric
  (as a 64-bit integer, or by the addition of doubles) and \<open>hpcrun_metric_std_set\<close> replaces it; the value
  of every other metric of every kind is as before, also when the kind had no values in this context yet.
\<close>

theorem metrics_std_update:
  assumes "metrics_ready ms" and "es \<noteq> []" and "mdl_ok (ms_kinds ms) es" and "metric_data_at ms j = Some d"
    and "flags_valFmt (metric_flags (md_val (ms_node ms (dm_desc d)))) = fmt"
    and "fmt \<in> {MetricFlags_ValFmt_Int, MetricFlags_ValFmt_Real}"
  shows "\<exists>es' es''. hpcrun_metric_std_inc fadd j es v ms = Some (es', ms) \<and>
    value_updated (ms_kinds ms) es d (\<lambda>old. if fmt = MetricFlags_ValFmt_Int then old + v else fadd old v) es' \<and>
    hpcrun_metric_std_set fadd j es v ms = Some (es'', ms) \<and> value_updated (ms_kinds ms) es d (\<lambda>_. v) es''"
  using metric_std_updates [OF assms, of fadd Op_plus v] metric_std_updates [OF assms, of fadd Op_set v]
  by (auto simp: hpcrun_metric_std_inc_def hpcrun_metric_std_set_def)

definition example_ready :: "metrics_state" where
  "example_ready = the (hpcrun_metrics_data_finalize example_ms)"

lemma example_ready: "metrics_ready example_ready"
proof -
  have "registry_ok example_ms" using example_registry_runs registry_ok_init by (rule registry_ok_run [rotated])
  then obtain ms' where ms': "hpcrun_metrics_data_finalize example_ms = Some ms'" "registry_eq example_ms ms'" "numbered ms'"
    "filled_below (length (ms_kinds example_ms)) ms'" "ms_kind_state ms' = KIND_INITIALIZED"
    using finalize_ok by blast
  from filled_ready(1) [OF ms'(3) ms'(4) [folded registry_eq_registered(3) [OF ms'(2)]] ms'(5)] ms'(1)
  show ?thesis by (simp add: example_ready_def)
qed

definition example_values :: "metric_data_list_t" where
  "example_values = [(0, [5, 0])]"

definition example_dmap :: "dmap" where
  "example_dmap = the (metric_data_at example_ready 1)"

lemma example_dmap: "metric_data_at example_ready 1 = Some example_dmap" "dm_kind example_dmap = 1" "dm_id example_dmap = 0"
  by code_simp+

lemma example_values_ok: "mdl_ok (ms_kinds example_ready) example_values"
  by code_simp

theorem metrics_std_update_witness:
  "\<exists>es'. hpcrun_metric_std_inc (+) 1 example_values 9 example_ready = Some (es', example_ready) \<and>
    value_updated (ms_kinds example_ready) example_values example_dmap (\<lambda>old. old + 9) es'"
proof -
  have "flags_valFmt (metric_flags (md_val (ms_node example_ready (dm_desc example_dmap)))) = MetricFlags_ValFmt_Int"
    by code_simp
  from metrics_std_update [OF example_ready _ example_values_ok example_dmap(1) this, of "(+)" 9]
  show ?thesis by (auto simp: example_values_def)
qed

text \<open>
  \<open>hpcrun_merge_cct_metrics\<close> adds, metric by metric, the values of the source to those of the destination; a kind that
  only the source has is created in the destination.
\<close>

theorem metrics_merge_adds:
  assumes "metrics_ready ms" and "dest \<noteq> []" and "mdl_ok (ms_kinds ms) dest" and "mdl_ok (ms_kinds ms) src"
  shows "\<exists>es'. hpcrun_merge_cct_metrics dest src ms = Some (es', ms) \<and> values_added (ms_kinds ms) dest src es'"
  by (rule merge_adds [OF assms])

theorem metrics_merge_adds_witness:
  "\<exists>es'. hpcrun_merge_cct_metrics example_values [(1, [4]), (0, [1, 2])] example_ready = Some (es', example_ready) \<and>
    values_added (ms_kinds example_ready) example_values [(1, [4]), (0, [1, 2])] es'"
proof -
  have "mdl_ok (ms_kinds example_ready) [(1, [4]), (0, [1, 2])]" by code_simp
  from metrics_merge_adds [OF example_ready _ example_values_ok this] show ?thesis by (simp add: example_values_def)
qed

text \<open>
  C32. The sparse copy of a context's values is its dense copy without the zeros: from the given place on it writes the
  non-zero values, each with its index in the dense copy as its 16-bit metric number, touches no other place, and returns
  their number, which is what \<open>hpcrun_metric_sparse_count\<close> counted beforehand.
\<close>

theorem metrics_sparse_copy:
  assumes "metrics_ready ms" and "mdl_ok (ms_kinds ms) es" and "b < 2 ^ 31"
    and "nz = nonzeros 0 (mdl_rows 0 (ms_kinds ms) es)"
    and "b + length nz \<le> length val" and "length ids = length val" and "length nz < 2 ^ 63"
  shows "hpcrun_metric_set_dense_copy (ms_kinds ms) es = Some (mdl_rows 0 (ms_kinds ms) es) \<and>
    hpcrun_metric_sparse_count (ms_kinds ms) es = Some (of_nat (length nz)) \<and>
    hpcrun_metric_set_sparse_copy val ids (ms_kinds ms) es (of_nat b) =
      Some (of_nat (length nz), overwrite b (map fst nz) val, overwrite b (map (of_nat \<circ> snd) nz) ids)"
proof (intro conjI)
  have closed: "\<forall>ki \<in> set (ms_kinds ms). kind_closed ki" using assms(1) by (simp add: metrics_ready_def)
  show "hpcrun_metric_set_dense_copy (ms_kinds ms) es = Some (mdl_rows 0 (ms_kinds ms) es)"
    unfolding hpcrun_metric_set_dense_copy_def by (rule dense_copy_kinds_rows [OF assms(2) closed]) simp
  show "hpcrun_metric_sparse_count (ms_kinds ms) es = Some (of_nat (length nz))"
    using sparse_count_kinds_rows [OF assms(2), of 0]
    by (simp add: hpcrun_metric_sparse_count_def assms(4) length_nonzeros)
  show "hpcrun_metric_set_sparse_copy val ids (ms_kinds ms) es (of_nat b) =
      Some (of_nat (length nz), overwrite b (map fst nz) val, overwrite b (map (of_nat \<circ> snd) nz) ids)"
    using sparse_copy_kinds_nonzeros [OF assms(2,3), of 0 "ms_kinds ms" 0 0 val ids] assms(4-)
    by (simp add: hpcrun_metric_set_sparse_copy_def)
qed

theorem metrics_sparse_copy_witness:
  "hpcrun_metric_set_sparse_copy [1, 1, 1] [9, 9, 9] (ms_kinds example_ready) [(1, [4]), (0, [0, 6])] 1 =
    Some (2, [1, 6, 4], [9, 1, 2])"
proof -
  have "mdl_ok (ms_kinds example_ready) [(1, [4]), (0, [0, 6])]" by code_simp
  moreover have "nonzeros 0 (mdl_rows 0 (ms_kinds example_ready) [(1, [4]), (0, [0, 6])]) = [(6, 1), (4, 2)]" by code_simp
  ultimately show ?thesis
    using metrics_sparse_copy [OF example_ready, of "[(1, [4]), (0, [0, 6])]" 1 "[(6, 1), (4, 2)]" "[1, 1, 1]" "[9, 9, 9]"]
    by (simp add: overwrite_def)
qed

text \<open>
  The table is built once: a metric that is registered in a new kind after the finalization gets a number below
  \<open>num_kind_metrics\<close> for which the table has no entry, so that \<open>hpcrun_id2metric\<close> and every operation that looks up its kind read outside the table.
\<close>

theorem metrics_late_kind_out_of_bounds:
  assumes "metrics_ready ms" and "length (ms_metric_data ms) = ms_num_kind_metrics ms" and "name \<noteq> None"
    and "hpcrun_set_new_metric_desc (fst (hpcrun_metrics_new_kind ms)) name description valFmt period upd_fn prop
      (snd (hpcrun_metrics_new_kind ms)) = Some (j, ms')"
  shows "0 \<le> j \<and> j < int (ms_num_kind_metrics ms') \<and> hpcrun_id2metric j ms' = None \<and>
    hpcrun_new_metric_data_list j ms' = None"
  using assms
  by (auto simp: metrics_ready_def hpcrun_metrics_new_kind_def hpcrun_set_new_metric_desc_def Let_def hpcrun_id2metric_def
      hpcrun_get_num_kind_metrics_def hpcrun_metrics_data_finalize_def metric_data_at_def hpcrun_new_metric_data_list_def
      split: list.splits)

theorem metrics_late_kind_out_of_bounds_witness:
  "hpcrun_id2metric 3 (snd (the (hpcrun_set_new_metric_desc (fst (hpcrun_metrics_new_kind example_ready)) (Some []) None 1 1 1
     (False, False) (snd (hpcrun_metrics_new_kind example_ready))))) = None"
proof -
  let ?r = "hpcrun_set_new_metric_desc (fst (hpcrun_metrics_new_kind example_ready)) (Some []) None 1 1 1
     (False, False) (snd (hpcrun_metrics_new_kind example_ready))"
  have "\<not> Option.is_none ?r" "fst (the ?r) = 3" by code_simp+
  then have r: "?r = Some (3, snd (the ?r))" by (metis Option.is_none_def option.collapse prod.collapse)
  have "length (ms_metric_data example_ready) = ms_num_kind_metrics example_ready" by code_simp
  from metrics_late_kind_out_of_bounds [OF example_ready this _ r] show ?thesis by simp
qed

end
