(* ===== verification/Cct2metrics.thy ===== *)
theory Cct2metrics
  imports Splay_Map Metrics
begin

text \<open>
  The map from the nodes of a calling context tree to their metric values (\<open>src/hpcrun/cct2metrics.c\<close>
  and \<open>.h\<close>): a splay tree keyed by the address of the context node, one per thread.

  A function with a parameter \<open>map\<close> works on the map the caller names, or on the map of the thread
  (\<open>tl_map\<close>) when it is a null pointer (here \<open>None\<close>). The list of values of a node is stored with its map
  node, the null pointer being the empty list. \<open>None\<close> as a result stands for undefined behaviour, as in
  the theory of metrics.
\<close>

section \<open>State and operations\<close>

record c2m_state =
  m_node :: "ptr \<Rightarrow> ptr"
  m_kind_metrics :: "ptr \<Rightarrow> metric_data_list_t"
  m_left :: link
  m_right :: link
  m_fresh :: ptr
  tl_map :: "ptr option"

definition hpcrun_cct2metrics_init :: "c2m_state \<Rightarrow> c2m_state" where
  "hpcrun_cct2metrics_init s = s\<lparr> tl_map := None \<rparr>"

definition c2m_splay :: "ptr option \<Rightarrow> ptr \<Rightarrow> c2m_state \<Rightarrow> (ptr option \<times> c2m_state) option" where
  "c2m_splay mp node s = map_option (\<lambda>(rt, l, r). (rt, s\<lparr> m_left := l, m_right := r \<rparr>))
     (REGULAR_SPLAY_TREE node (m_node s) mp (m_left s, m_right s))"

definition cct2metrics_new :: "ptr \<Rightarrow> metric_data_list_t \<Rightarrow> c2m_state \<Rightarrow> ptr \<times> c2m_state" where
  "cct2metrics_new node kind_metrics s = (m_fresh s,
     s\<lparr> m_fresh := Suc (m_fresh s), m_node := (m_node s)(m_fresh s := node),
        m_kind_metrics := (m_kind_metrics s)(m_fresh s := kind_metrics),
        m_left := (m_left s)(m_fresh s := None), m_right := (m_right s)(m_fresh s := None) \<rparr>)"

definition current_map :: "ptr option option \<Rightarrow> c2m_state \<Rightarrow> ptr option" where
  "current_map mp s = (case mp of Some m \<Rightarrow> m | None \<Rightarrow> tl_map s)"

definition set_current_map :: "ptr option option \<Rightarrow> ptr option \<Rightarrow> c2m_state \<Rightarrow> ptr option option \<times> c2m_state" where
  "set_current_map mp rt s = (case mp of Some _ \<Rightarrow> (Some rt, s) | None \<Rightarrow> (None, s\<lparr> tl_map := rt \<rparr>))"

definition hpcrun_get_metric_data_list_specific ::
  "ptr option option \<Rightarrow> ptr \<Rightarrow> c2m_state \<Rightarrow> (metric_data_list_t \<times> ptr option option \<times> c2m_state) option" where
  "hpcrun_get_metric_data_list_specific mp nd s = (case current_map mp s of
     None \<Rightarrow> Some ([], mp, s)
   | Some _ \<Rightarrow> (case c2m_splay (current_map mp s) nd s of
       Some (Some rt, s) \<Rightarrow>
         (case set_current_map mp (Some rt) s of (mp, s) \<Rightarrow>
            Some (if m_node s rt = nd then m_kind_metrics s rt else [], mp, s))
     | _ \<Rightarrow> None))"

definition hpcrun_get_metric_data_list :: "ptr \<Rightarrow> c2m_state \<Rightarrow> (metric_data_list_t \<times> c2m_state) option" where
  "hpcrun_get_metric_data_list nd s =
     map_option (\<lambda>(l, mp, s). (l, s)) (hpcrun_get_metric_data_list_specific None nd s)"

text \<open>A node that is in the mp already is left as it is; the code reports a violated invariant.\<close>

definition cct2metrics_assoc :: "ptr \<Rightarrow> metric_data_list_t \<Rightarrow> c2m_state \<Rightarrow> c2m_state option" where
  "cct2metrics_assoc node kind_metrics s = (case tl_map s of
     None \<Rightarrow> (case cct2metrics_new node kind_metrics s of (new, s) \<Rightarrow> Some (s\<lparr> tl_map := Some new \<rparr>))
   | Some _ \<Rightarrow>
      (case cct2metrics_new node kind_metrics s of (new, s) \<Rightarrow>
         (case c2m_splay (tl_map s) node s of
            Some (Some rt, s) \<Rightarrow>
              if m_node s rt = node then Some (s\<lparr> tl_map := Some rt \<rparr>)
              else if m_node s rt < node then
                (let s = s\<lparr> m_left := (m_left s)(new := Some rt) \<rparr>;
                     s = s\<lparr> m_right := (m_right s)(new := m_right s rt) \<rparr>;
                     s = s\<lparr> m_right := (m_right s)(rt := None) \<rparr>
                 in Some (s\<lparr> tl_map := Some new \<rparr>))
              else
                (let s = s\<lparr> m_left := (m_left s)(new := m_left s rt) \<rparr>;
                     s = s\<lparr> m_right := (m_right s)(new := Some rt) \<rparr>;
                     s = s\<lparr> m_left := (m_left s)(rt := None) \<rparr>
                 in Some (s\<lparr> tl_map := Some new \<rparr>))
          | _ \<Rightarrow> None)))"

definition hpcrun_move_metric_data_list_specific :: "ptr option option \<Rightarrow> ptr option \<Rightarrow> ptr option \<Rightarrow> c2m_state \<Rightarrow>
    (metric_data_list_t \<times> ptr option option \<times> c2m_state) option" where
  "hpcrun_move_metric_data_list_specific mp dest source s = (case (dest, source) of
     (Some d, Some src) \<Rightarrow>
       (case current_map mp s of
          None \<Rightarrow> Some ([], mp, s)
        | Some rt \<Rightarrow>
            (case set_current_map mp (Some rt) s of (mp, s) \<Rightarrow>
               if m_node s rt = src then
                 (let l = m_kind_metrics s rt;
                      s = s\<lparr> m_kind_metrics := (m_kind_metrics s)(rt := []) \<rparr>
                  in map_option (\<lambda>s. (l, mp, s)) (cct2metrics_assoc d l s))
               else Some ([], mp, s)))
   | _ \<Rightarrow> Some ([], mp, s))"

definition hpcrun_move_metric_data_list :: "ptr option \<Rightarrow> ptr option \<Rightarrow> c2m_state \<Rightarrow> (metric_data_list_t \<times> c2m_state) option" where
  "hpcrun_move_metric_data_list dest source s =
     map_option (\<lambda>(l, mp, s). (l, s)) (hpcrun_move_metric_data_list_specific None dest source s)"

text \<open>
  The entry for a metric of a node, as the mp node that owns the list and the place in it; \<open>None\<close> for an
  entry that no list has (the association was refused).
\<close>

definition hpcrun_reify_metric_set ::
  "ptr \<Rightarrow> int \<Rightarrow> c2m_state \<Rightarrow> metrics_state \<Rightarrow> ((ptr \<times> nat) option \<times> c2m_state \<times> metrics_state) option" where
  "hpcrun_reify_metric_set nd metric_id s ms = (case hpcrun_get_metric_data_list nd s of None \<Rightarrow> None
     | Some (rv, s) \<Rightarrow>
        if rv = [] then
          (case hpcrun_new_metric_data_list metric_id ms of None \<Rightarrow> None
           | Some (e, ms) \<Rightarrow> (case cct2metrics_assoc nd [e] s of None \<Rightarrow> None
             | Some s' \<Rightarrow> Some (if tl_map s' = Some (m_fresh s) then Some (m_fresh s, 0) else None, s', ms)))
        else
          (case (tl_map s, hpcrun_reify_metric_data_list_kind rv metric_id ms) of
             (Some rt, Some (rv, i, ms)) \<Rightarrow>
               Some (Some (rt, i), s\<lparr> m_kind_metrics := (m_kind_metrics s)(rt := rv) \<rparr>, ms)
           | _ \<Rightarrow> None))"

datatype update_metric_t = SET | INCR

text \<open>
  The update works on the list from the entry on; \<open>fadd\<close> is the addition of doubles.
\<close>

definition cct_metric_data_update :: "(u64 \<Rightarrow> u64 \<Rightarrow> u64) \<Rightarrow> int \<Rightarrow> ptr \<Rightarrow> update_metric_t \<Rightarrow> u64 \<Rightarrow>
    c2m_state \<Rightarrow> metrics_state \<Rightarrow> (c2m_state \<times> metrics_state) option" where
  "cct_metric_data_update fadd metric_id x type incr s ms = (case hpcrun_reify_metric_set x metric_id s ms of
     None \<Rightarrow> None
   | Some (None, s, ms) \<Rightarrow> Some (s, ms)
   | Some (Some (mn, i), s, ms) \<Rightarrow>
      (let upd = (case type of SET \<Rightarrow> hpcrun_metric_std_set | INCR \<Rightarrow> hpcrun_metric_std_inc)
       in case upd fadd metric_id (drop i (m_kind_metrics s mn)) incr ms of None \<Rightarrow> None
        | Some (es, ms) \<Rightarrow> Some (s\<lparr> m_kind_metrics := (m_kind_metrics s)(mn := take i (m_kind_metrics s mn) @ es) \<rparr>, ms)))"

definition cct_metric_data_set :: "(u64 \<Rightarrow> u64 \<Rightarrow> u64) \<Rightarrow> int \<Rightarrow> ptr \<Rightarrow> u64 \<Rightarrow>
    c2m_state \<Rightarrow> metrics_state \<Rightarrow> (c2m_state \<times> metrics_state) option" where
  "cct_metric_data_set fadd metric_id x val s ms = cct_metric_data_update fadd metric_id x SET val s ms"

definition cct_metric_data_increment :: "(u64 \<Rightarrow> u64 \<Rightarrow> u64) \<Rightarrow> int \<Rightarrow> ptr \<Rightarrow> u64 \<Rightarrow>
    c2m_state \<Rightarrow> metrics_state \<Rightarrow> (c2m_state \<times> metrics_state) option" where
  "cct_metric_data_increment fadd metric_id x incr s ms = cct_metric_data_update fadd metric_id x INCR incr s ms"

section \<open>The mp a state represents\<close>

definition c2m_rep :: "c2m_state \<Rightarrow> ptr option \<Rightarrow> (ptr \<rightharpoonup> metric_data_list_t) \<Rightarrow> bool" where
  "c2m_rep s rt M \<longleftrightarrow> (\<exists>mm. splay_rep (m_node s) (m_left s, m_right s) rt mm \<and>
     M = map_option (m_kind_metrics s) \<circ> mm \<and> (\<forall>n \<in> ran mm. n < m_fresh s))"

definition metrics_of :: "(ptr \<rightharpoonup> metric_data_list_t) \<Rightarrow> ptr \<Rightarrow> metric_data_list_t" where
  "metrics_of M p = (case M p of Some es \<Rightarrow> es | None \<Rightarrow> [])"

lemma c2m_rep_tl_map [simp]: "c2m_rep (s\<lparr> tl_map := t \<rparr>) rt M \<longleftrightarrow> c2m_rep s rt M"
  by (simp add: c2m_rep_def)

lemma c2m_rep_None [simp]: "c2m_rep s None M \<longleftrightarrow> M = Map.empty"
  by (auto simp: c2m_rep_def)

lemma c2m_rep_links [simp]:
  "c2m_rep (s\<lparr> m_right := r, m_left := l \<rparr>) rt M \<longleftrightarrow> c2m_rep (s\<lparr> m_left := l, m_right := r \<rparr>) rt M"
  by (simp add: c2m_rep_def)

text \<open>After a splay the root decides what the node's list is.\<close>

lemma c2m_splay_top:
  assumes "splay_rep (m_node s) (m_left s, m_right s) (Some rt0) mm"
  shows "\<exists>rt l r. c2m_splay (Some rt0) node s = Some (Some rt, s\<lparr> m_left := l, m_right := r \<rparr>) \<and>
    splay_top (m_node s) node (l, r) rt mm \<and> (\<forall>q. q \<notin> ran mm \<longrightarrow> l q = m_left s q \<and> r q = m_right s q)"
proof -
  obtain rt' l r where s: "REGULAR_SPLAY_TREE node (m_node s) (Some rt0) (m_left s, m_right s) = Some (rt', l, r)"
    "\<forall>q. q \<notin> ran mm \<longrightarrow> l q = m_left s q \<and> r q = m_right s q"
    "case rt' of None \<Rightarrow> mm = Map.empty \<and> Some rt0 = None | Some x \<Rightarrow> splay_top (m_node s) node (l, r) x mm"
    using splay_rep_splay [OF assms, of node] by auto
  from s(3) obtain rt where "rt' = Some rt" "splay_top (m_node s) node (l, r) rt mm"
    by (auto split: option.splits)
  with s(1,2) show ?thesis
    by (intro exI [of _ rt] exI [of _ l] exI [of _ r]) (simp add: c2m_splay_def)
qed

lemma c2m_splay_rep:
  assumes "c2m_rep s (Some rt0) M"
  shows "\<exists>rt l r. c2m_splay (Some rt0) node s = Some (Some rt, s\<lparr> m_left := l, m_right := r \<rparr>) \<and>
    c2m_rep (s\<lparr> m_left := l, m_right := r \<rparr>) (Some rt) M \<and>
    M node = (if m_node s rt = node then Some (m_kind_metrics s rt) else None)"
proof -
  obtain mm where mm: "splay_rep (m_node s) (m_left s, m_right s) (Some rt0) mm"
    "M = map_option (m_kind_metrics s) \<circ> mm" "\<forall>n \<in> ran mm. n < m_fresh s"
    using assms by (auto simp: c2m_rep_def)
  obtain rt l r where top: "c2m_splay (Some rt0) node s = Some (Some rt, s\<lparr> m_left := l, m_right := r \<rparr>)"
    "splay_top (m_node s) node (l, r) rt mm" using c2m_splay_top [OF mm(1)] by blast
  have "c2m_rep (s\<lparr> m_left := l, m_right := r \<rparr>) (Some rt) M"
    using splay_top_rep [OF top(2)] mm(2,3) by (auto simp: c2m_rep_def)
  moreover have "M node = (if m_node s rt = node then Some (m_kind_metrics s rt) else None)"
    using splay_top_lookup(1) [OF top(2)] mm(2) by simp
  ultimately show ?thesis using top(1) by blast
qed

lemma get_specific_rep:
  assumes "c2m_rep s (current_map mp s) M"
  shows "\<exists>mp' s'. hpcrun_get_metric_data_list_specific mp node s = Some (metrics_of M node, mp', s') \<and>
    c2m_rep s' (current_map mp' s') M \<and> (mp' = None \<longleftrightarrow> mp = None) \<and> m_fresh s' = m_fresh s \<and>
    m_node s' = m_node s \<and> m_kind_metrics s' = m_kind_metrics s \<and>
    (M node = None \<or> current_map mp' s' \<noteq> None \<and> m_node s' (the (current_map mp' s')) = node \<and>
      M node = Some (m_kind_metrics s' (the (current_map mp' s'))))"
proof (cases "current_map mp s")
  case None
  then show ?thesis using assms by (auto simp: hpcrun_get_metric_data_list_specific_def metrics_of_def)
next
  case (Some rt0)
  obtain rt l r where r: "c2m_splay (Some rt0) node s = Some (Some rt, s\<lparr> m_left := l, m_right := r \<rparr>)"
    "c2m_rep (s\<lparr> m_left := l, m_right := r \<rparr>) (Some rt) M"
    "M node = (if m_node s rt = node then Some (m_kind_metrics s rt) else None)"
    using c2m_splay_rep [of s rt0 M node] assms Some by auto
  show ?thesis
    using r Some
    by (cases mp) (auto simp: hpcrun_get_metric_data_list_specific_def set_current_map_def current_map_def metrics_of_def)
qed

text \<open>Associating a list with a node: a new map node, unless the map has one for it.\<close>

lemma assoc_rep:
  assumes "c2m_rep s (tl_map s) M"
  shows "\<exists>s'. cct2metrics_assoc nd es s = Some s' \<and> m_fresh s' = Suc (m_fresh s) \<and>
    c2m_rep s' (tl_map s') (if M nd = None then M(nd \<mapsto> es) else M) \<and>
    (tl_map s' = Some (m_fresh s) \<longleftrightarrow> M nd = None) \<and> (M nd = None \<longrightarrow> m_node s' (m_fresh s) = nd)"
proof -
  define n s1 where "n = m_fresh s" and "s1 = snd (cct2metrics_new nd es s)"
  have new: "cct2metrics_new nd es s = (n, s1)" by (simp add: n_def s1_def cct2metrics_new_def)
  have f1: "m_node s1 n = nd" "m_kind_metrics s1 n = es" "m_left s1 n = None" "m_right s1 n = None" "m_fresh s1 = Suc n"
    "tl_map s1 = tl_map s" by (simp_all add: n_def s1_def cct2metrics_new_def)
  obtain mm where mm0: "splay_rep (m_node s) (m_left s, m_right s) (tl_map s) mm"
    "M = map_option (m_kind_metrics s) \<circ> mm" and ran: "\<forall>q \<in> ran mm. q < n"
    using assms by (auto simp: c2m_rep_def n_def)
  have mm: "splay_rep (m_node s1) (m_left s1, m_right s1) (tl_map s) mm"
    using ran by (intro splay_rep_cong [OF mm0(1)]) (auto simp: s1_def cct2metrics_new_def n_def)
  have "m_kind_metrics s1 q = m_kind_metrics s q" if "q \<in> ran mm" for q
    using ran that by (auto simp: s1_def cct2metrics_new_def n_def)
  then have "(map_option (m_kind_metrics s) \<circ> mm) x = (map_option (m_kind_metrics s1) \<circ> mm) x" for x
    by (cases "mm x") (auto dest: ranI)
  then have M: "M = map_option (m_kind_metrics s1) \<circ> mm" unfolding mm0(2) by blast
  have n: "n \<notin> ran mm" "M nd = None \<longleftrightarrow> mm nd = None" using ran by (auto simp: M)
  have link: "c2m_rep (s1\<lparr> m_left := l, m_right := r, tl_map := Some n \<rparr>) (Some n) (M(nd \<mapsto> es))"
    if "splay_rep (m_node s1) (l, r) (Some n) (mm(nd \<mapsto> n))" for l r
  proof -
    have "\<forall>q \<in> ran (mm(nd \<mapsto> n)). q < Suc n" using ran by (auto simp: ran_def less_Suc_eq)
    with that M f1 show ?thesis by (auto simp: c2m_rep_def fun_eq_iff intro!: exI [of _ "mm(nd \<mapsto> n)"])
  qed
  show ?thesis
  proof (cases "tl_map s")
    case None
    then have "mm = Map.empty" using mm by simp
    with link [of "m_left s1" "m_right s1"] f1 None splay_rep_single [of "(m_left s1, m_right s1)" n "m_node s1"] M
    show ?thesis by (simp add: cct2metrics_assoc_def new n_def [symmetric])
  next
    case (Some rt0)
    with c2m_splay_top [of s1 rt0 mm nd] mm obtain rt l r where
      spl: "c2m_splay (Some rt0) nd s1 = Some (Some rt, s1\<lparr> m_left := l, m_right := r \<rparr>)"
      and top: "splay_top (m_node s1) nd (l, r) rt mm" by auto
    note look = splay_top_lookup [OF top]
    have rt: "rt \<noteq> n" using look(2) n(1) by auto
    note ins = splay_top_insert [OF top [folded f1(1)] n(1), unfolded f1(1)]
    consider "m_node s1 rt = nd" | "m_node s1 rt < nd" | "nd < m_node s1 rt" by linarith
    then show ?thesis
    proof cases
      case 1
      have "c2m_rep (s1\<lparr> m_left := l, m_right := r \<rparr>) (Some rt) M"
        using splay_top_rep [OF top] M ran f1(5) by (auto simp: c2m_rep_def less_Suc_eq)
      with 1 spl look(1) n rt f1 Some show ?thesis
        by (auto simp: cct2metrics_assoc_def new n_def [symmetric])
    next
      case 2
      with spl look(1) n rt f1 Some link [OF ins(2)] show ?thesis
        by (simp add: cct2metrics_assoc_def new n_def [symmetric] fun_upd_twist)
    next
      case 3
      with spl look(1) n rt f1 Some link [OF ins(1)] show ?thesis
        by (simp add: cct2metrics_assoc_def new n_def [symmetric] fun_upd_twist)
    qed
  qed
qed

text \<open>Replacing the list of the node at the root.\<close>

lemma c2m_rep_update:
  assumes "c2m_rep s rt M" and "rt = Some x" and "M (m_node s x) \<noteq> None" and "x' = x"
    and top: "\<And>mm. splay_rep (m_node s) (m_left s, m_right s) rt mm \<Longrightarrow> mm (m_node s x) = Some x"
  shows "c2m_rep (s\<lparr> m_kind_metrics := (m_kind_metrics s)(x' := es) \<rparr>) rt (M(m_node s x \<mapsto> es))"
proof -
  obtain mm where mm: "splay_rep (m_node s) (m_left s, m_right s) rt mm"
    "M = map_option (m_kind_metrics s) \<circ> mm" "\<forall>n \<in> ran mm. n < m_fresh s"
    using assms(1) by (auto simp: c2m_rep_def)
  have "(map_option ((m_kind_metrics s)(x := es)) \<circ> mm) q = (M(m_node s x \<mapsto> es)) q" for q
  proof (cases "mm q")
    case None
    then show ?thesis using mm(2) top [OF mm(1)] by auto
  next
    case (Some y)
    then have "m_node s y = q" using splay_rep_val [OF mm(1)] by blast
    with Some show ?thesis using mm(2) top [OF mm(1)] by auto
  qed
  then have "M(m_node s x \<mapsto> es) = map_option ((m_kind_metrics s)(x := es)) \<circ> mm" by (intro ext) (rule sym)
  with mm(1,3) assms(4) show ?thesis by (auto simp: c2m_rep_def)
qed

lemma splay_rep_root:
  assumes "splay_rep val ls (Some x) m"
  shows "m (val x) = Some x"
proof -
  obtain t where t: "tree_at (fst ls) (snd ls) (Some x) t" "key_sorted val t" "m = tree_map val t"
    using assms by (auto simp: splay_rep_def)
  obtain a b where ab: "t = Node a x b" using t(1) by (cases t) auto
  have "tree_map val a (val x) = None" using t(2) by (auto simp: ab tree_map_None key_sorted_Node)
  then show ?thesis by (simp add: t(3) ab tree_map_Node map_add_def)
qed

lemma c2m_rep_root_update:
  assumes "c2m_rep s (Some x) M"
  shows "c2m_rep (s\<lparr> m_kind_metrics := (m_kind_metrics s)(x := es) \<rparr>) (Some x) (M(m_node s x \<mapsto> es))"
    and "M (m_node s x) = Some (m_kind_metrics s x)"
proof -
  obtain mm where mm: "splay_rep (m_node s) (m_left s, m_right s) (Some x) mm" "M = map_option (m_kind_metrics s) \<circ> mm"
    using assms by (auto simp: c2m_rep_def)
  show "M (m_node s x) = Some (m_kind_metrics s x)" using splay_rep_root [OF mm(1)] mm(2) by simp
  then show "c2m_rep (s\<lparr> m_kind_metrics := (m_kind_metrics s)(x := es) \<rparr>) (Some x) (M(m_node s x \<mapsto> es))"
    by (intro c2m_rep_update [OF assms]) (auto dest: splay_rep_root)
qed

section \<open>Updates\<close>

text \<open>The lists of a thread: every node in the map has a well-formed list with at least one entry.\<close>

definition c2m_ok :: "kind_info_t list \<Rightarrow> (ptr \<rightharpoonup> metric_data_list_t) \<Rightarrow> bool" where
  "c2m_ok kinds M \<longleftrightarrow> (\<forall>p es. M p = Some es \<longrightarrow> es \<noteq> [] \<and> mdl_ok kinds es)"

lemma mdl_ok_Nil [simp]: "mdl_ok kinds []"
  by (simp add: mdl_ok_def)

lemma c2m_ok_metrics_of: "c2m_ok kinds M \<Longrightarrow> mdl_ok kinds (metrics_of M p)"
  by (auto simp: c2m_ok_def metrics_of_def split: option.splits)

text \<open>The entry that is reified: the list extended by the kind, stored at the node.\<close>

lemma reify_rep:
  assumes rep: "c2m_rep s (tl_map s) M" and ok: "c2m_ok (ms_kinds ms) M" and ms: "metrics_ready ms"
    and d: "metric_data_at ms j = Some d"
  shows "\<exists>mn s'. hpcrun_reify_metric_set nd j s ms = Some (Some (mn, mdl_at (dm_kind d) (metrics_of M nd)), s', ms) \<and>
    tl_map s' = Some mn \<and> m_node s' mn = nd \<and>
    c2m_rep s' (Some mn) (M(nd \<mapsto> mdl_extend (ms_kinds ms) (dm_kind d) (metrics_of M nd)))"
proof -
  obtain s1 where g: "hpcrun_get_metric_data_list nd s = Some (metrics_of M nd, s1)" "c2m_rep s1 (tl_map s1) M"
    "M nd = None \<or> tl_map s1 \<noteq> None \<and> m_node s1 (the (tl_map s1)) = nd"
    using get_specific_rep [of s None M nd] rep by (auto simp: hpcrun_get_metric_data_list_def current_map_def split: option.splits)
  show ?thesis
  proof (cases "M nd")
    case None
    obtain s2 where a: "cct2metrics_assoc nd [(dm_kind d, replicate (ki_idx (ms_kinds ms ! dm_kind d)) 0)] s1 = Some s2"
      "c2m_rep s2 (tl_map s2) (M(nd \<mapsto> [(dm_kind d, replicate (ki_idx (ms_kinds ms ! dm_kind d)) 0)]))"
      "tl_map s2 = Some (m_fresh s1)" "m_node s2 (m_fresh s1) = nd"
      using assoc_rep [OF g(2), of nd] None by force
    with a g(1) None ms d show ?thesis
      by (simp add: hpcrun_reify_metric_set_def metrics_of_def mdl_extend_def mdl_at_def)
  next
    case (Some es)
    then obtain rt where rt: "tl_map s1 = Some rt" "m_node s1 rt = nd" using g(3) by auto
    have es: "es \<noteq> []" "metrics_of M nd = es" using ok Some by (auto simp: c2m_ok_def metrics_of_def)
    have "hpcrun_reify_metric_data_list_kind es j ms = Some (mdl_extend (ms_kinds ms) (dm_kind d) es, mdl_at (dm_kind d) es, ms)"
      using ms d by (auto simp: hpcrun_reify_metric_data_list_kind_def mdl_extend_def mdl_at_def split: option.split)
    with g(1) es rt c2m_rep_root_update(1) [of s1 rt M] g(2) show ?thesis
      by (simp add: hpcrun_reify_metric_set_def)
  qed
qed

text \<open>Updating from the entry on is updating the whole list at the place of the entry.\<close>

lemma mdl_set_suffix: "i < length L \<Longrightarrow> take i L @ mdl_set (drop i L) (0, l) w = mdl_set L (i, l) w"
  by (simp add: mdl_set_def list_update_append1 Cons_nth_drop_Suc [symmetric] upd_conv_take_nth_drop)

definition metric_update :: "(u64 \<Rightarrow> u64 \<Rightarrow> u64) \<Rightarrow> byte \<Rightarrow> update_metric_t \<Rightarrow> u64 \<Rightarrow> u64 \<Rightarrow> u64" where
  "metric_update fadd fmt type v old = (case type of SET \<Rightarrow> v
     | INCR \<Rightarrow> if fmt = MetricFlags_ValFmt_Int then old + v else fadd old v)"

definition metric_fmt :: "metrics_state \<Rightarrow> dmap \<Rightarrow> byte" where
  "metric_fmt ms d = flags_valFmt (metric_flags (md_val (ms_node ms (dm_desc d))))"

lemma std_suffix:
  assumes ms: "metrics_ready ms" and d: "metric_data_at ms j = Some d"
    and fmt: "metric_fmt ms d \<in> {MetricFlags_ValFmt_Int, MetricFlags_ValFmt_Real}"
    and L: "mdl_ok (ms_kinds ms) L" "i < length L" "fst (L ! i) = dm_kind d"
  shows "(case type of SET \<Rightarrow> hpcrun_metric_std_set | INCR \<Rightarrow> hpcrun_metric_std_inc) fadd j (drop i L) v ms =
    Some (mdl_set (drop i L) (0, dm_id d) (metric_update fadd (metric_fmt ms d) type v (mdl_val L (dm_kind d) (dm_id d))), ms)"
proof -
  obtain k vs rest where dr: "drop i L = (k, vs) # rest" using L(2) by (metis Cons_nth_drop_Suc prod.collapse)
  then have kv: "k = dm_kind d" "vs = snd (L ! i)"
    using L(2,3) by (metis Cons_nth_drop_Suc fst_conv list.inject, metis Cons_nth_drop_Suc list.inject snd_conv)
  have len: "dm_id d < length vs" "vs ! dm_id d = mdl_val L (dm_kind d) (dm_id d)"
    using mdl_entry [OF L] ready_metric_data(2) [OF ms d] kv(2) by (auto simp: mdl_val_def)
  have "hpcrun_metric_set_loc (drop i L) j ms = Some (drop i L, (0, dm_id d), ms)"
    using d kv(1) by (simp add: hpcrun_metric_set_loc_def dr)
  moreover have "mdl_get (drop i L) (0, dm_id d) = Some (mdl_val L (dm_kind d) (dm_id d))"
    using len by (simp add: mdl_get_def dr)
  ultimately show ?thesis
    using fmt d by (auto simp: hpcrun_metric_std_set_def hpcrun_metric_std_inc_def hpcrun_metric_std_def Let_def
        metric_update_def metric_fmt_def split: update_metric_t.split)
qed

lemma update_exact:
  assumes rep: "c2m_rep s (tl_map s) M" and ok: "c2m_ok (ms_kinds ms) M" and ms: "metrics_ready ms"
    and d: "metric_data_at ms j = Some d" and fmt: "metric_fmt ms d \<in> {MetricFlags_ValFmt_Int, MetricFlags_ValFmt_Real}"
  shows "\<exists>s' es. cct_metric_data_update fadd j nd type v s ms = Some (s', ms) \<and> c2m_rep s' (tl_map s') (M(nd \<mapsto> es)) \<and>
    es \<noteq> [] \<and> value_updated (ms_kinds ms) (metrics_of M nd) d (metric_update fadd (metric_fmt ms d) type v) es"
proof -
  define L i where "L = mdl_extend (ms_kinds ms) (dm_kind d) (metrics_of M nd)" and "i = mdl_at (dm_kind d) (metrics_of M nd)"
  note dd = ready_metric_data [OF ms d]
  have L: "mdl_ok (ms_kinds ms) L" "i < length L" "fst (L ! i) = dm_kind d"
    unfolding L_def i_def using mdl_ok_extend [OF c2m_ok_metrics_of [OF ok] dd(1)] mdl_at_extend by auto
  obtain mn s1 where r: "hpcrun_reify_metric_set nd j s ms = Some (Some (mn, i), s1, ms)" "tl_map s1 = Some mn"
    "m_node s1 mn = nd" "c2m_rep s1 (Some mn) (M(nd \<mapsto> L))"
    using reify_rep [OF rep ok ms d, of nd] unfolding L_def i_def by blast
  have mn: "m_kind_metrics s1 mn = L" using c2m_rep_root_update(2) [OF r(4)] r(3) by simp
  define w where "w = metric_update fadd (metric_fmt ms d) type v (mdl_val L (dm_kind d) (dm_id d))"
  let ?s = "s1\<lparr> m_kind_metrics := (m_kind_metrics s1)(mn := mdl_set L (i, dm_id d) w) \<rparr>"
  have run: "cct_metric_data_update fadd j nd type v s ms = Some (?s, ms)"
    using std_suffix [OF ms d fmt L, of type fadd v] r(1) mdl_set_suffix [OF L(2)]
    by (simp add: cct_metric_data_update_def Let_def mn w_def)
  have rep': "c2m_rep ?s (tl_map ?s) (M(nd \<mapsto> mdl_set L (i, dm_id d) w))"
    using c2m_rep_root_update(1) [OF r(4), of "mdl_set L (i, dm_id d) w"] r(2,3) by simp
  note upd = mdl_set_val [OF L dd(2)]
  have old: "mdl_val L k l = mdl_val (metrics_of M nd) k l" if "l < ki_idx (ms_kinds ms ! k)" for k l
    unfolding L_def using that by (rule mdl_val_extend)
  have "value_updated (ms_kinds ms) (metrics_of M nd) d (metric_update fadd (metric_fmt ms d) type v) (mdl_set L (i, dm_id d) w)"
    unfolding value_updated_def upd(3) using upd(2) old by (simp add: w_def)
  moreover have "mdl_set L (i, dm_id d) w \<noteq> []" using L(2) by (auto simp: mdl_set_def)
  ultimately show ?thesis using run rep' by blast
qed

text \<open>A sequence of increments of a thread.\<close>

fun run_increments :: "(u64 \<Rightarrow> u64 \<Rightarrow> u64) \<Rightarrow> (int \<times> ptr \<times> u64) list \<Rightarrow> c2m_state \<Rightarrow> metrics_state \<Rightarrow>
    (c2m_state \<times> metrics_state) option" where
  "run_increments fadd [] s ms = Some (s, ms)"
| "run_increments fadd ((j, nd, v) # us) s ms = (case cct_metric_data_increment fadd j nd v s ms of None \<Rightarrow> None
     | Some (s, ms) \<Rightarrow> run_increments fadd us s ms)"

definition metric_loc :: "metrics_state \<Rightarrow> int \<Rightarrow> (nat \<times> nat) option" where
  "metric_loc ms j = map_option (\<lambda>d. (dm_kind d, dm_id d)) (metric_data_at ms j)"

definition counted :: "metrics_state \<Rightarrow> (int \<times> ptr \<times> u64) list \<Rightarrow> int \<Rightarrow> ptr \<Rightarrow> u64" where
  "counted ms us j nd = sum_list (map (\<lambda>(_, _, v). v) (filter (\<lambda>(j', nd', _). metric_loc ms j' = metric_loc ms j \<and> nd' = nd) us))"

definition value_of :: "metrics_state \<Rightarrow> (ptr \<rightharpoonup> metric_data_list_t) \<Rightarrow> int \<Rightarrow> ptr \<Rightarrow> u64" where
  "value_of ms M j nd = (case metric_data_at ms j of None \<Rightarrow> 0 | Some d \<Rightarrow> mdl_val (metrics_of M nd) (dm_kind d) (dm_id d))"

definition counts_int :: "metrics_state \<Rightarrow> int \<Rightarrow> bool" where
  "counts_int ms j \<longleftrightarrow> (\<exists>d. metric_data_at ms j = Some d \<and> metric_fmt ms d = MetricFlags_ValFmt_Int)"

lemma value_of_increment:
  assumes ms: "metrics_ready ms" and d: "metric_data_at ms j = Some d" "metric_fmt ms d = MetricFlags_ValFmt_Int"
    and upd: "value_updated (ms_kinds ms) (metrics_of M nd) d (metric_update fadd (metric_fmt ms d) INCR v) es"
  shows "value_of ms (M(nd \<mapsto> es)) j' nd' = value_of ms M j' nd' + counted ms [(j, nd, v)] j' nd'"
proof (cases "metric_data_at ms j'")
  case None
  then show ?thesis using d(1) by (simp add: value_of_def counted_def metric_loc_def)
next
  case (Some d')
  have "mdl_val es (dm_kind d') (dm_id d') =
    (if dm_kind d' = dm_kind d \<and> dm_id d' = dm_id d then mdl_val (metrics_of M nd) (dm_kind d') (dm_id d') + v
     else mdl_val (metrics_of M nd) (dm_kind d') (dm_id d'))"
    using upd ready_metric_data [OF ms Some] d(2) by (auto simp: value_updated_def metric_update_def)
  then show ?thesis
    using Some d(1) by (auto simp: value_of_def counted_def metric_loc_def metrics_of_def)
qed

lemma value_of_empty: "value_of ms Map.empty j nd = 0"
  by (simp add: value_of_def metrics_of_def mdl_val_def mdl_find_def split: option.split)

lemma counted_Cons: "counted ms (u # us) j nd = counted ms [u] j nd + counted ms us j nd"
  by (simp add: counted_def)

lemma run_increments_count:
  assumes ms: "metrics_ready ms" and "\<forall>(j, _, _) \<in> set us. counts_int ms j"
    and "c2m_rep s (tl_map s) M" and "c2m_ok (ms_kinds ms) M"
  shows "\<exists>s' M'. run_increments fadd us s ms = Some (s', ms) \<and> c2m_rep s' (tl_map s') M' \<and> c2m_ok (ms_kinds ms) M' \<and>
    (\<forall>j nd. value_of ms M' j nd = value_of ms M j nd + counted ms us j nd)"
  using assms(2-)
proof (induction us arbitrary: s M)
  case Nil
  then show ?case by (auto simp: counted_def)
next
  case (Cons u us)
  obtain j nd v where u: "u = (j, nd, v)" by (cases u) auto
  from Cons.prems(1) obtain d where d: "metric_data_at ms j = Some d" "metric_fmt ms d = MetricFlags_ValFmt_Int"
    by (auto simp: u counts_int_def)
  obtain s1 es where 1: "cct_metric_data_increment fadd j nd v s ms = Some (s1, ms)" "c2m_rep s1 (tl_map s1) (M(nd \<mapsto> es))"
    "es \<noteq> []" and upd: "value_updated (ms_kinds ms) (metrics_of M nd) d (metric_update fadd (metric_fmt ms d) INCR v) es"
    using update_exact [OF Cons.prems(2,3) ms d(1), of fadd nd INCR v] d(2)
    by (auto simp: cct_metric_data_increment_def)
  have ok: "c2m_ok (ms_kinds ms) (M(nd \<mapsto> es))"
    using Cons.prems(3) 1(3) upd by (auto simp: c2m_ok_def value_updated_def)
  have us: "\<forall>(j, _, _) \<in> set us. counts_int ms j" using Cons.prems(1) by (auto split: prod.splits)
  from Cons.IH [OF us 1(2) ok] obtain s' M' where 2: "run_increments fadd us s1 ms = Some (s', ms)"
    "c2m_rep s' (tl_map s') M'" "c2m_ok (ms_kinds ms) M'"
    "\<forall>j nd'. value_of ms M' j nd' = value_of ms (M(nd \<mapsto> es)) j nd' + counted ms us j nd'"
    by blast
  have "value_of ms M' j' nd' = value_of ms M j' nd' + counted ms (u # us) j' nd'" for j' nd'
    using 2(4) value_of_increment [OF ms d upd, of j' nd'] counted_Cons [of ms u us j' nd'] u by (simp add: add.assoc)
  with 1(1) 2 show ?case by (auto simp: u)
qed

section \<open>Properties\<close>

text \<open>
  Attribution of samples: from the empty map of a thread, any sequence of calls of \<open>cct_metric_data_increment\<close> for integer
  metrics succeeds, and afterwards the value of every metric at every context node is the sum, modulo \<open>2 ^ 64\<close>, of the
  increments made for exactly that metric and that node; the lookups of the splay tree in between lose and mix up nothing.
\<close>

theorem cct2metrics_counts:
  assumes "metrics_ready ms" and "\<forall>(j, _, _) \<in> set us. counts_int ms j" and "tl_map s = None"
  shows "\<exists>s' M'. run_increments fadd us s ms = Some (s', ms) \<and> c2m_rep s' (tl_map s') M' \<and> c2m_ok (ms_kinds ms) M' \<and>
    (\<forall>j nd. value_of ms M' j nd = counted ms us j nd)"
proof -
  have "c2m_rep s (tl_map s) Map.empty" "c2m_ok (ms_kinds ms) Map.empty" using assms(3) by (auto simp: c2m_ok_def)
  from run_increments_count [OF assms(1,2) this] show ?thesis unfolding value_of_empty add_0 .
qed

definition example_c2m :: c2m_state where
  "example_c2m = \<lparr> m_node = \<lambda>_. 0, m_kind_metrics = \<lambda>_. [], m_left = Map.empty, m_right = Map.empty, m_fresh = 0, tl_map = None \<rparr>"

theorem cct2metrics_counts_witness:
  "\<exists>s' M'. run_increments (+) [(0, 7, 3), (1, 4, 9), (0, 7, 5)] example_c2m example_ready = Some (s', example_ready) \<and>
    c2m_rep s' (tl_map s') M' \<and> value_of example_ready M' 0 7 = 8"
proof -
  have c: "counts_int example_ready 0" "counts_int example_ready 1"
    unfolding counts_int_def by (rule exI [of _ "the (metric_data_at example_ready 0)"], code_simp)
      (rule exI [of _ "the (metric_data_at example_ready 1)"], code_simp)
  have "counted example_ready [(0, 7, 3), (1, 4, 9), (0, 7, 5)] 0 7 = 8" by code_simp
  moreover have "\<forall>(j, _, _) \<in> set [(0, 7, 3), (1, 4, 9), (0, 7, 5)]. counts_int example_ready j" using c by simp
  moreover have "tl_map example_c2m = None" by (simp add: example_c2m_def)
  ultimately show ?thesis
    using cct2metrics_counts [OF example_ready, of "[(0, 7, 3), (1, 4, 9), (0, 7, 5)]" example_c2m "(+)"] by metis
qed

text \<open>
  \<open>hpcrun_move_metric_data_list_specific\<close> looks for its source only at the root of the splay tree: unless the root
  happens to be the map node of the source, the values stay where they are and a null pointer is returned, also when the
  map has values for the source.
\<close>

theorem cct2metrics_move_without_splay:
  assumes "tl_map s = Some rt" and "m_node s rt \<noteq> src"
  shows "hpcrun_move_metric_data_list (Some dst) (Some src) s = Some ([], s)"
  using assms by (simp add: hpcrun_move_metric_data_list_def hpcrun_move_metric_data_list_specific_def current_map_def
      set_current_map_def)

theorem cct2metrics_move_without_splay_witness:
  "let s = example_c2m\<lparr> m_node := (\<lambda>_. 9)(1 := 7), m_kind_metrics := (\<lambda>_. [])(1 := [(0, [5])]), m_left := [0 \<mapsto> 1],
     tl_map := Some 0 \<rparr>
   in hpcrun_move_metric_data_list (Some 3) (Some 7) s = Some ([], s)"
  unfolding Let_def by (rule cct2metrics_move_without_splay [where rt = 0]) (simp_all add: example_c2m_def)

end
