(* ===== verification/Cct_Backtrace.thy ===== *)
theory Cct_Backtrace
  imports Cct_Trie Cct2metrics
begin

text \<open>
  Recording a sample (\<open>src/hpcrun/cct_insert_backtrace.c\<close>): the frames of a backtrace are inserted into the
  calling context tree from the outermost to the innermost, frames inside a run of recursive calls being
  left out, and the value of the sample is added to its metric at the node of the innermost frame.

  A backtrace is a buffer of frames with two positions: the frames lie from the position of the innermost
  one up to that of the outermost one. Reading outside the buffer gives \<open>None\<close>. The flag \<open>retain_recursion\<close>,
  the kernel call path hook and the registered update procedures are parameters.
\<close>

section \<open>Operations\<close>

record frame_t =
  fr_ip_norm :: ip_normalized_t
  fr_the_function :: ip_normalized_t

definition frame_at :: "frame_t list \<Rightarrow> int \<Rightarrow> frame_t option" where
  "frame_at buf i = (if 0 \<le> i \<and> i < int (length buf) then Some (buf ! nat i) else None)"

definition skip_recursive :: "bool \<Rightarrow> frame_t list \<Rightarrow> int \<Rightarrow> int \<Rightarrow> ip_normalized_t \<Rightarrow> bool option" where
  "skip_recursive retain_recursion buf path_beg path_end parent_routine =
    (if retain_recursion \<or> path_beg < path_end + 1 then Some False
     else (case (frame_at buf path_beg, frame_at buf (path_beg - 1)) of
       (Some f, Some g) \<Rightarrow> Some (ip_normalized_eq (fr_the_function f) parent_routine \<and>
          ip_normalized_eq (fr_the_function f) (fr_the_function g))
     | _ \<Rightarrow> None))"

function raw_backtrace_loop :: "bool \<Rightarrow> frame_t list \<Rightarrow> int \<Rightarrow> int \<Rightarrow> ip_normalized_t \<Rightarrow> ptr option \<Rightarrow> cct_state \<Rightarrow>
    (ptr option \<times> cct_state) option" where
  "raw_backtrace_loop retain buf path_beg path_end parent_routine cct st =
    (if path_beg < path_end then Some (cct, st)
     else (case (frame_at buf path_beg, skip_recursive retain buf path_beg path_end parent_routine) of
       (Some f, Some True) \<Rightarrow> raw_backtrace_loop retain buf (path_beg - 1) path_end (fr_the_function f) cct st
     | (Some f, Some False) \<Rightarrow>
         (case hpcrun_cct_insert_addr cct (fr_ip_norm f) True st of None \<Rightarrow> None
          | Some (cct, st) \<Rightarrow> raw_backtrace_loop retain buf (path_beg - 1) path_end (fr_the_function f) cct st)
     | _ \<Rightarrow> None))"
  by pat_completeness auto
termination by (relation "measure (\<lambda>(_, _, b, e, _). nat (b - e + 1))") auto

declare raw_backtrace_loop.simps [simp del]

definition cct_insert_raw_backtrace :: "bool \<Rightarrow> ptr option \<Rightarrow> frame_t list \<Rightarrow> int \<Rightarrow> int \<Rightarrow> cct_state \<Rightarrow>
    (ptr option \<times> cct_state) option" where
  "cct_insert_raw_backtrace retain cct buf path_beg path_end st =
    (if cct = None then Some (None, st)
     else (case raw_backtrace_loop retain buf path_beg path_end (ADDR2 0 0) cct st of None \<Rightarrow> None
       | Some (None, st) \<Rightarrow> None
       | Some (Some cct, st) \<Rightarrow> Some (Some cct, hpcrun_cct_terminate_path cct st)))"

definition hpcrun_cct_insert_backtrace :: "bool \<Rightarrow> ptr option \<Rightarrow> frame_t list \<Rightarrow> int \<Rightarrow> int \<Rightarrow> cct_state \<Rightarrow>
    (ptr option \<times> cct_state) option" where
  "hpcrun_cct_insert_backtrace retain treenode buf path_beg path_end st =
     cct_insert_raw_backtrace retain treenode buf path_beg path_end st"

type_synonym sample_state = "cct_state \<times> c2m_state \<times> metrics_state"
type_synonym metric_upd_proc_t = "int \<Rightarrow> metric_data_list_t \<Rightarrow> u64 \<Rightarrow> metrics_state \<Rightarrow> (metric_data_list_t \<times> metrics_state) option"

text \<open>A null \<open>treenode\<close> is not modelled: the values would be filed under the null pointer.\<close>

definition hpcrun_cct_insert_backtrace_w_metric :: "bool \<Rightarrow> (ptr \<Rightarrow> cct_state \<Rightarrow> (ptr \<times> cct_state) option) option \<Rightarrow>
    (nat \<Rightarrow> metric_upd_proc_t) \<Rightarrow> ptr option \<Rightarrow> int \<Rightarrow> frame_t list \<Rightarrow> int \<Rightarrow> int \<Rightarrow> u64 \<Rightarrow> sample_state \<Rightarrow>
    (ptr \<times> sample_state) option" where
  "hpcrun_cct_insert_backtrace_w_metric retain kcp procs treenode metric_id buf path_beg path_end datum g =
    (case g of (st, s, ms) \<Rightarrow> (case hpcrun_cct_insert_backtrace retain treenode buf path_beg path_end st of
       Some (Some path, st) \<Rightarrow>
         (case (case kcp of None \<Rightarrow> Some (path, st) | Some k \<Rightarrow> k path st) of None \<Rightarrow> None
          | Some (path, st) \<Rightarrow>
             (case hpcrun_reify_metric_set path metric_id s ms of None \<Rightarrow> None
              | Some (mset, s, ms) \<Rightarrow>
                 (case hpcrun_get_metric_proc metric_id ms of None \<Rightarrow> None
                  | Some (None, ms) \<Rightarrow> Some (path, st, s, ms)
                  | Some (Some upd_proc, ms) \<Rightarrow>
                     (case mset of None \<Rightarrow> Some (path, st, s, ms)
                      | Some (mn, i) \<Rightarrow>
                         (case procs upd_proc metric_id (drop i (m_kind_metrics s mn)) datum ms of None \<Rightarrow> None
                          | Some (es, ms) \<Rightarrow> Some (path, st, s\<lparr> m_kind_metrics := (m_kind_metrics s)(mn :=
                               take i (m_kind_metrics s mn) @ es) \<rparr>, ms))))))
     | _ \<Rightarrow> None))"

record backtrace_t =
  bt_beg :: int
  bt_len :: int
  bt_frames :: "frame_t list"

definition hpcrun_cct_insert_bt :: "bool \<Rightarrow> (ptr \<Rightarrow> cct_state \<Rightarrow> (ptr \<times> cct_state) option) option \<Rightarrow>
    (nat \<Rightarrow> metric_upd_proc_t) \<Rightarrow> ptr option \<Rightarrow> int \<Rightarrow> backtrace_t \<Rightarrow> u64 \<Rightarrow> sample_state \<Rightarrow> (ptr \<times> sample_state) option" where
  "hpcrun_cct_insert_bt retain kcp procs node metricId bt datum g =
     hpcrun_cct_insert_backtrace_w_metric retain kcp procs node metricId (bt_frames bt) (bt_beg bt + bt_len bt - 1)
       (bt_beg bt) datum g"

datatype fence_enum_t = FENCE_NONE | FENCE_MAIN | FENCE_THREAD | FENCE_TRAMP | FENCE_BAD

record backtrace_info_t =
  bi_frames :: "frame_t list"
  bi_begin :: int
  bi_last :: int
  bi_fence :: fence_enum_t

text \<open>Where the insertion starts: the last of the three conditions that holds decides.\<close>

definition cct_cursor :: "cct_bundle_t \<Rightarrow> bool \<Rightarrow> backtrace_info_t \<Rightarrow> bool \<Rightarrow> ptr option \<Rightarrow> cct_state \<Rightarrow> ptr option" where
  "cct_cursor cct partial bt tramp_found tramp_cct_node st =
    (let cct_cursor = Some (b_tree_root cct);
         cct_cursor = (if tramp_found then hpcrun_cct_parent tramp_cct_node (st_cct st) else cct_cursor);
         cct_cursor = (if partial then Some (b_partial_unw_root cct) else cct_cursor)
     in if bi_fence bt = FENCE_THREAD then b_thread_root cct else cct_cursor)"

definition hpcrun_cct_record_backtrace :: "bool \<Rightarrow> cct_bundle_t \<Rightarrow> bool \<Rightarrow> backtrace_info_t \<Rightarrow> bool \<Rightarrow> ptr option \<Rightarrow>
    cct_state \<Rightarrow> (ptr option \<times> cct_state) option" where
  "hpcrun_cct_record_backtrace retain cct partial bt tramp_found tramp_cct_node st =
     hpcrun_cct_insert_backtrace retain (cct_cursor cct partial bt tramp_found tramp_cct_node st) (bi_frames bt)
       (bi_last bt) (bi_begin bt) st"

type_synonym cursor_finalize_fn = "cct_bundle_t \<Rightarrow> backtrace_info_t \<Rightarrow> ptr option \<Rightarrow> cct_state \<Rightarrow> (ptr option \<times> cct_state) option"

definition cct_cursor_finalize :: "cursor_finalize_fn option \<Rightarrow> cursor_finalize_fn" where
  "cct_cursor_finalize cursor_finalize cct bt cursor st =
     (case cursor_finalize of Some f \<Rightarrow> f cct bt cursor st | None \<Rightarrow> Some (cursor, st))"

definition hpcrun_cct_record_backtrace_w_metric :: "bool \<Rightarrow> (ptr \<Rightarrow> cct_state \<Rightarrow> (ptr \<times> cct_state) option) option \<Rightarrow>
    (nat \<Rightarrow> metric_upd_proc_t) \<Rightarrow> cursor_finalize_fn option \<Rightarrow> cct_bundle_t \<Rightarrow>
    bool \<Rightarrow> backtrace_info_t \<Rightarrow> bool \<Rightarrow> ptr option \<Rightarrow> int \<Rightarrow> u64 \<Rightarrow> sample_state \<Rightarrow> (ptr \<times> sample_state) option" where
  "hpcrun_cct_record_backtrace_w_metric retain kcp procs finalize cct partial bt tramp_found tramp_cct_node metricId metricIncr g =
    (case g of (st, s, ms) \<Rightarrow>
      (case cct_cursor_finalize finalize cct bt (cct_cursor cct partial bt tramp_found tramp_cct_node st) st of None \<Rightarrow> None
       | Some (cursor, st) \<Rightarrow>
          hpcrun_cct_insert_backtrace_w_metric retain kcp procs cursor metricId (bi_frames bt) (bi_last bt) (bi_begin bt)
            metricIncr (st, s, ms)))"

section \<open>The frames that are recorded\<close>

text \<open>
  The frames of a backtrace, outermost first, and which of them are recorded: the innermost one, and every
  one whose function differs from that of its caller or of its callee. The caller of the outermost frame
  counts as the function with load module 0 and offset 0.
\<close>

definition frames :: "frame_t list \<Rightarrow> int \<Rightarrow> int \<Rightarrow> frame_t list" where
  "frames buf path_beg path_end = rev (drop (nat path_end) (take (nat (path_beg + 1)) buf))"

definition recorded_at :: "ip_normalized_t \<Rightarrow> frame_t list \<Rightarrow> nat \<Rightarrow> bool" where
  "recorded_at parent fs i \<longleftrightarrow> Suc i = length fs \<or>
     fr_the_function (fs ! i) \<noteq> (if i = 0 then parent else fr_the_function (fs ! (i - 1))) \<or>
     fr_the_function (fs ! i) \<noteq> fr_the_function (fs ! Suc i)"

definition recorded :: "bool \<Rightarrow> ip_normalized_t \<Rightarrow> frame_t list \<Rightarrow> frame_t list" where
  "recorded retain parent fs = (if retain then fs
     else map ((!) fs) (filter (recorded_at parent fs) [0..<length fs]))"

definition call_path :: "bool \<Rightarrow> frame_t list \<Rightarrow> (u16 \<times> u64) list" where
  "call_path retain fs = map (addr_key \<circ> fr_ip_norm) (recorded retain (ADDR2 0 0) fs)"

lemma recorded_Nil [simp]: "recorded retain parent [] = []"
  by (simp add: recorded_def)

lemma recorded_Cons:
  "recorded retain parent (f # fs) =
    (if retain \<or> fs = [] \<or> fr_the_function f \<noteq> parent \<or> fr_the_function f \<noteq> fr_the_function (hd fs) then [f] else []) @
    recorded retain (fr_the_function f) fs"
proof (cases retain)
  case False
  have S: "recorded_at parent (f # fs) (Suc i) \<longleftrightarrow> recorded_at (fr_the_function f) fs i" for i
    by (auto simp: recorded_at_def nth_Cons')
  have "recorded_at parent (f # fs) 0 \<longleftrightarrow>
      fs = [] \<or> fr_the_function f \<noteq> parent \<or> fr_the_function f \<noteq> fr_the_function (hd fs)"
    by (cases fs) (auto simp: recorded_at_def)
  moreover have "[0..<length (f # fs)] = 0 # map Suc [0..<length fs]" by (simp only: length_Cons upt_conv_Cons map_Suc_upt zero_less_Suc)
  moreover have "recorded False parent (f # fs) = (if recorded_at parent (f # fs) 0 then [f] else []) @ recorded False (fr_the_function f) fs"
    unfolding recorded_def calculation(2) by (simp add: filter_map comp_def S)
  ultimately show ?thesis using False by auto
qed (simp add: recorded_def)

primrec insert_frames :: "frame_t list \<Rightarrow> ptr \<Rightarrow> cct_state \<Rightarrow> (ptr \<times> cct_state) option" where
  "insert_frames [] p st = Some (p, st)"
| "insert_frames (f # fs) p st = (case hpcrun_cct_insert_addr (Some p) (fr_ip_norm f) True st of
     Some (Some q, st) \<Rightarrow> insert_frames fs q st | _ \<Rightarrow> None)"

lemma insert_addr_not_null: "hpcrun_cct_insert_addr (Some p) a u st = Some (q, st') \<Longrightarrow> q \<noteq> None"
  by (auto simp: hpcrun_cct_insert_addr_def Let_def split: option.splits prod.splits if_splits)

lemma ip_normalized_eq_iff: "ip_normalized_eq a b \<longleftrightarrow> a = b"
  by (auto simp: ip_normalized_eq_def)

lemma frames_last:
  assumes "0 \<le> path_end" "path_end \<le> path_beg" "path_beg < int (length buf)"
  shows "frames buf path_beg path_end = buf ! nat path_beg # frames buf (path_beg - 1) path_end"
proof -
  have "take (nat (path_beg + 1)) buf = take (nat path_beg) buf @ [buf ! nat path_beg]"
    using assms by (simp add: nat_add_distrib take_Suc_conv_app_nth)
  then show ?thesis using assms by (simp add: frames_def)
qed

lemma raw_loop_frames:
  assumes "0 \<le> path_end" "path_beg < int (length buf)"
  shows "raw_backtrace_loop retain buf path_beg path_end parent (Some p) st =
    map_option (map_prod Some id) (insert_frames (recorded retain parent (frames buf path_beg path_end)) p st)"
  using assms(2)
proof (induction "nat (path_beg - path_end + 1)" arbitrary: path_beg parent p st)
  case 0
  then have "path_beg < path_end" by simp
  moreover have "frames buf path_beg path_end = []" using \<open>path_beg < path_end\<close> assms(1) by (simp add: frames_def)
  ultimately show ?case by (simp add: raw_backtrace_loop.simps [of retain buf path_beg])
next
  case (Suc n)
  have le: "path_end \<le> path_beg" using Suc.hyps(2) by linarith
  let ?f = "buf ! nat path_beg"
  have f: "frame_at buf path_beg = Some ?f" using le assms(1) Suc.prems by (simp add: frame_at_def)
  have fs: "frames buf path_beg path_end = ?f # frames buf (path_beg - 1) path_end"
    using frames_last [OF assms(1) le Suc.prems] .
  have empty: "frames buf (path_beg - 1) path_end = [] \<longleftrightarrow> path_beg < path_end + 1"
    using le assms(1) Suc.prems by (auto simp: frames_def)
  have IH: "raw_backtrace_loop retain buf (path_beg - 1) path_end parent (Some p) st =
    map_option (map_prod Some id) (insert_frames (recorded retain parent (frames buf (path_beg - 1) path_end)) p st)" for parent p st
    using Suc.hyps(2) Suc.prems le by (intro Suc.hyps(1)) auto
  have skip: "skip_recursive retain buf path_beg path_end parent = Some (\<not> (retain \<or> frames buf (path_beg - 1) path_end = [] \<or>
      fr_the_function ?f \<noteq> parent \<or> fr_the_function ?f \<noteq> fr_the_function (hd (frames buf (path_beg - 1) path_end))))"
  proof (cases "retain \<or> path_beg < path_end + 1")
    case True
    then show ?thesis using empty by (auto simp: skip_recursive_def)
  next
    case False
    then have "frame_at buf (path_beg - 1) = Some (hd (frames buf (path_beg - 1) path_end))"
      using frames_last [of path_end "path_beg - 1" buf] assms(1) Suc.prems by (simp add: frame_at_def)
    with False f empty show ?thesis by (auto simp: skip_recursive_def ip_normalized_eq_iff)
  qed
  have ins: "hpcrun_cct_insert_addr (Some p) a True st = None \<or>
      (\<exists>q st'. hpcrun_cct_insert_addr (Some p) a True st = Some (Some q, st'))" for a
    using insert_addr_not_null [of p a True st] by (cases "hpcrun_cct_insert_addr (Some p) a True st") auto
  show ?case
    unfolding raw_backtrace_loop.simps [of retain buf path_beg] fs recorded_Cons f skip
    using le ins [of "fr_ip_norm ?f"] IH
    by (cases "retain \<or> frames buf (path_beg - 1) path_end = [] \<or> fr_the_function ?f \<noteq> parent \<or>
      fr_the_function ?f \<noteq> fr_the_function (hd (frames buf (path_beg - 1) path_end))") (simp_all only: if_True if_False not_True_eq_False
        not_False_eq_True option.case prod.case bool.case append_Nil append_Cons insert_frames.simps, auto)
qed

section \<open>What a sample does to the tree\<close>

text \<open>Nodes that stay where they are.\<close>

definition same_place :: "cct_store \<Rightarrow> cct_store \<Rightarrow> ptr \<Rightarrow> bool" where
  "same_place cs cs' q \<longleftrightarrow> c_parent cs' q = c_parent cs q \<and> c_addr cs' q = c_addr cs q"

lemma insert_frames_trie:
  assumes "cct_inv st N Rt C" and r: "r \<in> Rt" and "follow C r w = Some p"
  shows "\<exists>q st' N' C'. insert_frames fs p st = Some (q, st') \<and> cct_inv st' N' Rt C' \<and> N \<subseteq> N' \<and> card N' \<le> card N + length fs \<and>
    trie_added Rt C C' r w (map (addr_key \<circ> fr_ip_norm) fs) q \<and> (\<forall>q \<in> N. same_node (st_cct st) (st_cct st') q) \<and>
    (\<forall>k. ids_ok st N \<longrightarrow> ids_left st (length fs + k) \<longrightarrow> ids_ok st' N' \<and> ids_left st' k)"
  using assms(1,3)
proof (induction fs arbitrary: st N C w p)
  case Nil
  then show ?case by (intro exI [of _ p] exI [of _ st] exI [of _ N] exI [of _ C]) (simp add: trie_added_Nil same_node_def)
next
  case (Cons f fs)
  obtain q1 st1 C1 where 1: "hpcrun_cct_insert_addr (Some p) (fr_ip_norm f) True st = Some (Some q1, st1)"
    "cct_inv st1 (insert q1 N) Rt C1" "trie_added Rt C C1 r w [addr_key (fr_ip_norm f)] q1"
    "\<forall>q \<in> N. same_node (st_cct st) (st_cct st1) q"
    and ids1: "\<forall>k. ids_ok st N \<longrightarrow> ids_left st (Suc k) \<longrightarrow> ids_ok st1 (insert q1 N) \<and> ids_left st1 k"
    by (rule insert_addr_trie [OF Cons.prems(1) r Cons.prems(2), of "fr_ip_norm f" True])
  have "follow C1 r (w @ [addr_key (fr_ip_norm f)]) = Some q1" using 1(3) by (simp add: trie_added_def)
  from Cons.IH [OF 1(2) this] obtain q st' N' C' where
    2: "insert_frames fs q1 st1 = Some (q, st')" "cct_inv st' N' Rt C'" "insert q1 N \<subseteq> N'"
    "card N' \<le> card (insert q1 N) + length fs"
    "trie_added Rt C1 C' r (w @ [addr_key (fr_ip_norm f)]) (map (addr_key \<circ> fr_ip_norm) fs) q"
    "\<forall>q \<in> insert q1 N. same_node (st_cct st1) (st_cct st') q"
    and ids2: "\<forall>k. ids_ok st1 (insert q1 N) \<longrightarrow> ids_left st1 (length fs + k) \<longrightarrow> ids_ok st' N' \<and> ids_left st' k" by blast
  have "trie_added Rt C C' r w (map (addr_key \<circ> fr_ip_norm) (f # fs)) q"
    using trie_added_Cons [OF 1(3) 2(5)] by simp
  moreover have "\<forall>q \<in> N. same_node (st_cct st) (st_cct st') q" using 1(4) 2(6) by (simp add: same_node_def)
  moreover have "ids_ok st' N' \<and> ids_left st' k" if "ids_ok st N" "ids_left st (length (f # fs) + k)" for k
    using ids1 [rule_format, of "length fs + k"] that ids2 by auto
  moreover have "card N' \<le> card N + length (f # fs)" using 2(4) card_insert_le_m1 [of "Suc (card N)" N q1] by simp
  ultimately show ?case
    using 1(1) 2(1,2,3) by (intro exI [of _ q] exI [of _ st'] exI [of _ N'] exI [of _ C']) (simp add: comp_def)
qed

lemma terminate_path_inv:
  "cct_inv (hpcrun_cct_terminate_path q st) N Rt C \<longleftrightarrow> cct_inv st N Rt C"
  "ids_ok (hpcrun_cct_terminate_path q st) N \<longleftrightarrow> ids_ok st N"
  "ids_left (hpcrun_cct_terminate_path q st) k \<longleftrightarrow> ids_left st k"
proof -
  have c: "links_at (cs\<lparr> c_is_leaf := f \<rparr>) p t \<longleftrightarrow> links_at cs p t" "forest_at (cs\<lparr> c_is_leaf := f \<rparr>) p ts \<longleftrightarrow> forest_at cs p ts"
    for cs :: cct_store and f p t ts by (rule links_at_cong forest_at_cong; simp)+
  show "cct_inv (hpcrun_cct_terminate_path q st) N Rt C \<longleftrightarrow> cct_inv st N Rt C"
    by (simp add: cct_inv_def cct_rep_def free_ok_def hpcrun_cct_terminate_path_def upd_cct_def c)
  show "ids_ok (hpcrun_cct_terminate_path q st) N \<longleftrightarrow> ids_ok st N"
    "ids_left (hpcrun_cct_terminate_path q st) k \<longleftrightarrow> ids_left st k"
    by (simp_all add: ids_ok_def ids_left_def hpcrun_cct_terminate_path_def upd_cct_def)
qed

text \<open>The positions of a backtrace lie in its buffer.\<close>

definition frames_in :: "frame_t list \<Rightarrow> int \<Rightarrow> int \<Rightarrow> bool" where
  "frames_in buf path_beg path_end \<longleftrightarrow> 0 \<le> path_end \<and> path_beg < int (length buf)"

lemma length_recorded: "length (recorded retain parent fs) \<le> length fs"
  by (induction fs arbitrary: parent) (auto simp: recorded_Cons le_SucI)

lemma length_frames: "length (frames buf path_beg path_end) \<le> length buf"
  by (simp add: frames_def)

lemma insert_backtrace_trie:
  assumes inv: "cct_inv st N Rt C" and r: "r \<in> Rt" and w: "follow C r w = Some p" and fr: "frames_in buf path_beg path_end"
  obtains q st' N' C' where "hpcrun_cct_insert_backtrace retain (Some p) buf path_beg path_end st = Some (Some q, st')"
    and "cct_inv st' N' Rt C'" and "N \<subseteq> N'" and "c_is_leaf (st_cct st') q"
    and "card N' \<le> card N + length buf" and "\<forall>q \<in> N. same_place (st_cct st) (st_cct st') q"
    and "trie_added Rt C C' r w (call_path retain (frames buf path_beg path_end)) q"
    and "\<forall>k. ids_ok st N \<longrightarrow> ids_left st (length buf + k) \<longrightarrow> ids_ok st' N' \<and> ids_left st' k"
proof -
  define fs where "fs = recorded retain (ADDR2 0 0) (frames buf path_beg path_end)"
  have len: "length fs \<le> length buf"
    unfolding fs_def by (rule order_trans [OF length_recorded length_frames])
  obtain q st1 N' C' where i: "insert_frames fs p st = Some (q, st1)" "cct_inv st1 N' Rt C'" "N \<subseteq> N'"
    "card N' \<le> card N + length fs" "\<forall>q \<in> N. same_node (st_cct st) (st_cct st1) q"
    "trie_added Rt C C' r w (map (addr_key \<circ> fr_ip_norm) fs) q"
    and ids: "\<forall>k. ids_ok st N \<longrightarrow> ids_left st (length fs + k) \<longrightarrow> ids_ok st1 N' \<and> ids_left st1 k"
    using insert_frames_trie [OF inv r w, of fs] by blast
  have run: "hpcrun_cct_insert_backtrace retain (Some p) buf path_beg path_end st = Some (Some q, hpcrun_cct_terminate_path q st1)"
    using fr i(1) by (simp add: hpcrun_cct_insert_backtrace_def cct_insert_raw_backtrace_def raw_loop_frames frames_in_def
        fs_def [symmetric])
  have "trie_added Rt C C' r w (call_path retain (frames buf path_beg path_end)) q"
    using i(6) by (simp add: call_path_def fs_def)
  moreover have "ids_ok (hpcrun_cct_terminate_path q st1) N' \<and> ids_left (hpcrun_cct_terminate_path q st1) k"
    if "ids_ok st N" "ids_left st (length buf + k)" for k
  proof -
    have "ids_left st (length fs + k)" using that(2) len by (simp add: ids_left_def)
    with ids that(1) show ?thesis by (simp add: terminate_path_inv)
  qed
  moreover have "c_is_leaf (st_cct (hpcrun_cct_terminate_path q st1)) q"
    by (simp add: hpcrun_cct_terminate_path_def upd_cct_def)
  moreover have "card N' \<le> card N + length buf" using i(4) len by linarith
  moreover have "\<forall>q' \<in> N. same_place (st_cct st) (st_cct (hpcrun_cct_terminate_path q st1)) q'"
    using i(5) by (simp add: same_place_def same_node_def hpcrun_cct_terminate_path_def upd_cct_def)
  ultimately show thesis using that [OF run, of N' C'] i(2,3) by (simp add: terminate_path_inv)
qed

section \<open>Samples\<close>

text \<open>A sample: the root of the tree it goes to, its metric, its backtrace and its value.\<close>

type_synonym sample = "ptr \<times> int \<times> frame_t list \<times> int \<times> int \<times> u64"

definition sample_path :: "bool \<Rightarrow> sample \<Rightarrow> (u16 \<times> u64) list" where
  "sample_path retain smp = (case smp of (x, j, buf, b, e, v) \<Rightarrow> call_path retain (frames buf b e))"

definition sample_frames :: "sample \<Rightarrow> nat" where
  "sample_frames smp = (case smp of (x, j, buf, b, e, v) \<Rightarrow> length buf)"

lemma sample_simps [simp]: "sample_path retain (x, j, buf, b, e, v) = call_path retain (frames buf b e)"
  "sample_frames (x, j, buf, b, e, v) = length buf"
  by (simp_all add: sample_path_def sample_frames_def)

fun run_samples :: "bool \<Rightarrow> (nat \<Rightarrow> metric_upd_proc_t) \<Rightarrow> sample list \<Rightarrow> sample_state \<Rightarrow> (ptr list \<times> sample_state) option" where
  "run_samples retain procs [] g = Some ([], g)"
| "run_samples retain procs ((x, j, buf, b, e, v) # ss) g =
    (case hpcrun_cct_insert_backtrace_w_metric retain None procs (Some x) j buf b e v g of None \<Rightarrow> None
     | Some (q, g) \<Rightarrow> map_option (\<lambda>(qs, g). (q # qs, g)) (run_samples retain procs ss g))"

text \<open>Integer metrics that are updated by \<open>hpcrun_metric_std_inc\<close>, the default.\<close>

definition adds_samples :: "(u64 \<Rightarrow> u64 \<Rightarrow> u64) \<Rightarrow> (nat \<Rightarrow> metric_upd_proc_t) \<Rightarrow> metrics_state \<Rightarrow> sample \<Rightarrow> bool" where
  "adds_samples fadd procs ms smp \<longleftrightarrow> (case smp of (x, j, buf, b, e, v) \<Rightarrow> counts_int ms j \<and> frames_in buf b e \<and>
     (\<exists>pr. hpcrun_get_metric_proc j ms = Some (Some pr, ms) \<and> procs pr = hpcrun_metric_std_inc fadd))"

lemma w_metric_increment:
  assumes rep: "c2m_rep s (tl_map s) M" and ok: "c2m_ok (ms_kinds ms) M" and ms: "metrics_ready ms"
    and smp: "adds_samples fadd procs ms (x, j, buf, b, e, v)"
    and path: "hpcrun_cct_insert_backtrace retain (Some p) buf b e st = Some (Some q, st')"
  obtains s' M' where "hpcrun_cct_insert_backtrace_w_metric retain None procs (Some p) j buf b e v (st, s, ms) = Some (q, st', s', ms)"
    and "c2m_rep s' (tl_map s') M'" and "c2m_ok (ms_kinds ms) M'"
    and "\<forall>j' nd. value_of ms M' j' nd = value_of ms M j' nd + counted ms [(j, q, v)] j' nd"
proof -
  obtain pr where pr: "hpcrun_get_metric_proc j ms = Some (Some pr, ms)" "procs pr = hpcrun_metric_std_inc fadd"
    using smp by (auto simp: adds_samples_def)
  obtain d where d: "metric_data_at ms j = Some d" using smp by (auto simp: adds_samples_def counts_int_def)
  obtain mn i s1 where r: "hpcrun_reify_metric_set q j s ms = Some (Some (mn, i), s1, ms)"
    using reify_rep [OF rep ok ms d, of q] by blast
  have "\<forall>(j, _, _) \<in> set [(j, q, v)]. counts_int ms j" using smp by (simp add: adds_samples_def)
  from run_increments_count [OF ms this rep ok, of fadd] obtain s' M' where
    inc: "cct_metric_data_increment fadd j q v s ms = Some (s', ms)" "c2m_rep s' (tl_map s') M'" "c2m_ok (ms_kinds ms) M'"
    "\<forall>j' nd. value_of ms M' j' nd = value_of ms M j' nd + counted ms [(j, q, v)] j' nd"
    by (auto split: option.splits)
  have "hpcrun_cct_insert_backtrace_w_metric retain None procs (Some p) j buf b e v (st, s, ms) = Some (q, st', s', ms)"
    using inc(1) path r pr
    by (auto simp: hpcrun_cct_insert_backtrace_w_metric_def cct_metric_data_increment_def cct_metric_data_update_def Let_def
        split: option.splits)
  with inc(2-4) show thesis by (rule that [rotated])
qed

text \<open>Where the paths of the trie grow, the nodes of the paths that were there stay.\<close>

definition samples_added :: "bool \<Rightarrow> ptr set \<Rightarrow> kids \<Rightarrow> kids \<Rightarrow> sample list \<Rightarrow> ptr list \<Rightarrow> bool" where
  "samples_added retain Rt C C' ss qs \<longleftrightarrow>
     (\<forall>x \<in> Rt. \<forall>ls y. follow C x ls = Some y \<longrightarrow> follow C' x ls = Some y) \<and>
     (\<forall>x \<in> Rt. paths_of C' x = paths_of C x \<union> {ks. \<exists>smp \<in> set ss. fst smp = x \<and> prefix ks (sample_path retain smp)}) \<and>
     list_all2 (\<lambda>smp q. follow C' (fst smp) (sample_path retain smp) = Some q) ss qs"

lemma samples_added_Cons:
  assumes x: "fst smp \<in> Rt" and 1: "trie_added Rt C C1 (fst smp) [] (sample_path retain smp) q"
    and 2: "samples_added retain Rt C1 C2 ss qs"
  shows "samples_added retain Rt C C2 (smp # ss) (q # qs)"
proof -
  have p: "paths_of C1 x = paths_of C x \<union> {ks. fst smp = x \<and> prefix ks (sample_path retain smp)}" if "x \<in> Rt" for x
    using 1 that by (auto simp: trie_added_def)
  have "paths_of C2 x = paths_of C x \<union> {ks. \<exists>smp \<in> set (smp # ss). fst smp = x \<and> prefix ks (sample_path retain smp)}" if "x \<in> Rt" for x
    using 2 p [OF that] that by (auto simp: samples_added_def)
  moreover have "follow C1 (fst smp) (sample_path retain smp) = Some q" using 1 by (simp add: trie_added_def)
  moreover have "follow C2 x ls = Some y" if "x \<in> Rt" "follow C x ls = Some y" for x ls y
    using 1 2 that by (auto simp: trie_added_def samples_added_def)
  ultimately show ?thesis using 2 x by (auto simp: samples_added_def)
qed

lemma run_samples_rep:
  assumes ms: "metrics_ready ms" and "\<forall>smp \<in> set ss. adds_samples fadd procs ms smp \<and> fst smp \<in> Rt"
    and "cct_inv st N Rt C" and "c2m_rep s (tl_map s) M" and "c2m_ok (ms_kinds ms) M"
    and "ids_ok st N" and "ids_left st (sum_list (map sample_frames ss))"
  shows "\<exists>qs st' s' N' C' M'. run_samples retain procs ss (st, s, ms) = Some (qs, st', s', ms) \<and>
    cct_inv st' N' Rt C' \<and> samples_added retain Rt C C' ss qs \<and> ids_ok st' N' \<and> ids_left st' 0 \<and> N \<subseteq> N' \<and>
    card N' \<le> card N + sum_list (map sample_frames ss) \<and> (\<forall>q \<in> N. same_place (st_cct st) (st_cct st') q) \<and>
    c2m_rep s' (tl_map s') M' \<and> c2m_ok (ms_kinds ms) M' \<and>
    (\<forall>j nd. value_of ms M' j nd = value_of ms M j nd +
       counted ms (map2 (\<lambda>(_, j, _, _, _, v) q. (j, q, v)) ss qs) j nd)"
  using assms(2-)
proof (induction ss arbitrary: st N C s M)
  case Nil
  then show ?case
    by (intro exI [of _ "[]"] exI [of _ st] exI [of _ s] exI [of _ N] exI [of _ C] exI [of _ M])
      (simp add: samples_added_def counted_def same_place_def)
next
  case (Cons smp ss)
  obtain r j buf b e v where smp: "smp = (r, j, buf, b, e, v)" by (cases smp) auto
  have add: "adds_samples fadd procs ms (r, j, buf, b, e, v)" and r: "r \<in> Rt" using Cons.prems(1) smp by simp_all
  then have fr: "frames_in buf b e" by (simp add: adds_samples_def)
  have f0: "follow C r [] = Some r" by simp
  obtain q st1 N1 C1 where 1: "hpcrun_cct_insert_backtrace retain (Some r) buf b e st = Some (Some q, st1)"
    "cct_inv st1 N1 Rt C1" "N \<subseteq> N1" "card N1 \<le> card N + length buf" "\<forall>q \<in> N. same_place (st_cct st) (st_cct st1) q"
    and tr: "trie_added Rt C C1 r [] (call_path retain (frames buf b e)) q"
    and ids: "\<forall>k. ids_ok st N \<longrightarrow> ids_left st (length buf + k) \<longrightarrow> ids_ok st1 N1 \<and> ids_left st1 k"
    by (rule insert_backtrace_trie [OF Cons.prems(2) r f0 fr, of retain])
  have path: "sample_path retain smp = call_path retain (frames buf b e)" by (simp add: smp)
  obtain s1 M1 where 2: "hpcrun_cct_insert_backtrace_w_metric retain None procs (Some r) j buf b e v (st, s, ms) = Some (q, st1, s1, ms)"
    "c2m_rep s1 (tl_map s1) M1" "c2m_ok (ms_kinds ms) M1"
    and val: "\<forall>j' nd. value_of ms M1 j' nd = value_of ms M j' nd + counted ms [(j, q, v)] j' nd"
    by (rule w_metric_increment [OF Cons.prems(3,4) ms add 1(1)])
  have left: "ids_ok st1 N1" "ids_left st1 (sum_list (map sample_frames ss))"
    using ids Cons.prems(5,6) by (auto simp: smp)
  have ss: "\<forall>smp \<in> set ss. adds_samples fadd procs ms smp \<and> fst smp \<in> Rt" using Cons.prems(1) by simp
  from Cons.IH [OF ss 1(2) 2(2,3) left] obtain qs st' s' N' C' M' where
    3: "run_samples retain procs ss (st1, s1, ms) = Some (qs, st', s', ms)" "cct_inv st' N' Rt C'"
    "samples_added retain Rt C1 C' ss qs" "ids_ok st' N'" "ids_left st' 0" "N1 \<subseteq> N'"
    "card N' \<le> card N1 + sum_list (map sample_frames ss)" "\<forall>q \<in> N1. same_place (st_cct st1) (st_cct st') q" "c2m_rep s' (tl_map s') M'" "c2m_ok (ms_kinds ms) M'"
    and val': "\<forall>j nd. value_of ms M' j nd = value_of ms M1 j nd +
       counted ms (map2 (\<lambda>(_, j, _, _, _, v) q. (j, q, v)) ss qs) j nd" by blast
  have "value_of ms M' j' nd = value_of ms M j' nd +
      counted ms (map2 (\<lambda>(_, j, _, _, _, v) q. (j, q, v)) (smp # ss) (q # qs)) j' nd" for j' nd
    using val val' counted_Cons [of ms "(j, q, v)" "map2 (\<lambda>(_, j, _, _, _, v) q. (j, q, v)) ss qs" j' nd]
    by (simp add: smp add.assoc)
  moreover have "run_samples retain procs (smp # ss) (st, s, ms) = Some (q # qs, st', s', ms)" using 2(1) 3(1) by (simp add: smp)
  moreover have "card N' \<le> card N + sum_list (map sample_frames (smp # ss))" using 1(4) 3(7) by (simp add: smp)
  moreover have "\<forall>q \<in> N. same_place (st_cct st) (st_cct st') q" using 1(3,5) 3(8) by (auto simp: same_place_def)
  moreover have "samples_added retain Rt C C' (smp # ss) (q # qs)"
    using samples_added_Cons [of smp Rt C C1 retain q C' ss qs] tr r 3(3) path by (simp add: smp)
  ultimately show ?case
    using 3 1(3)
    by (intro exI [of _ "q # qs"] exI [of _ st'] exI [of _ s'] exI [of _ N'] exI [of _ C'] exI [of _ M']) auto
qed

definition samples_value :: "bool \<Rightarrow> metrics_state \<Rightarrow> sample list \<Rightarrow> int \<Rightarrow> ptr \<Rightarrow> (u16 \<times> u64) list \<Rightarrow> u64" where
  "samples_value retain ms ss j x ks = sum_list (map (\<lambda>(_, _, _, _, _, v). v)
     (filter (\<lambda>smp. metric_loc ms (fst (snd smp)) = metric_loc ms j \<and> fst smp = x \<and> sample_path retain smp = ks) ss))"

lemma counted_samples:
  assumes "list_all2 (\<lambda>smp q. follow C (fst smp) (sample_path retain smp) = Some q) ss qs" and "follow C x ks = Some q"
    and "\<forall>smp \<in> set ss. fst smp \<in> Rt" and "\<And>y ls. y \<in> Rt \<Longrightarrow> follow C y ls = Some q \<Longrightarrow> y = x \<and> ls = ks"
  shows "counted ms (map2 (\<lambda>(_, j, _, _, _, v) q. (j, q, v)) ss qs) j q = samples_value retain ms ss j x ks"
  using assms(1,3)
proof (induction ss qs rule: list_all2_induct)
  case Nil
  show ?case by (simp add: counted_def samples_value_def)
next
  case (Cons smp ss q1 qs)
  obtain y i buf b e v where smp: "smp = (y, i, buf, b, e, v)" by (cases smp) auto
  have "q1 = q \<longleftrightarrow> fst smp = x \<and> sample_path retain smp = ks"
    using Cons.hyps(1) Cons.prems assms(2) assms(4) [of "fst smp" "sample_path retain smp"] by auto
  then have "q1 = q \<longleftrightarrow> y = x \<and> call_path retain (frames buf b e) = ks" by (simp add: smp)
  moreover have "counted ms (map2 (\<lambda>(_, j, _, _, _, v) q. (j, q, v)) ss qs) j q = samples_value retain ms ss j x ks"
    using Cons.IH Cons.prems by simp
  ultimately show ?case by (simp add: counted_def samples_value_def smp del: follow.simps)
qed

lemma fresh_cct:
  assumes "st_freelist st = None"
  shows "cct_inv st {} {} C" and "ids_ok st {}"
  using assms by (auto simp: cct_inv_def cct_rep_def free_ok_def ids_ok_def intro!: exI [of _ "[]"])

section \<open>Properties\<close>

text \<open>
  C3. Inserting a backtrace, at any node of the trees: the call returns, and what it returns is the node that the recorded frames
  lead to from there. Every path that was in the trees still leads to its node, the paths that are new are the prefixes of the
  recorded call path below the start, and the trees of the other roots are unchanged. The node returned is marked as a leaf, and
  its parents lead back along the recorded frames. The frames recorded are those of the reference definition \<open>recorded\<close>:
  all, or without the inner frames of a run of recursive calls.
\<close>

theorem insert_backtrace_refines_trie:
  assumes "cct_inv st N Rt C" and "r \<in> Rt" and "follow C r w = Some p" and "frames_in buf path_beg path_end"
  shows "\<exists>q st' N' C'. hpcrun_cct_insert_backtrace retain (Some p) buf path_beg path_end st = Some (Some q, st') \<and>
    cct_inv st' N' Rt C' \<and> N \<subseteq> N' \<and> c_is_leaf (st_cct st') q \<and>
    trie_added Rt C C' r w (call_path retain (frames buf path_beg path_end)) q \<and>
    path_up (st_cct st') q (rev (w @ call_path retain (frames buf path_beg path_end))) r"
proof -
  obtain q st' N' C' where i: "hpcrun_cct_insert_backtrace retain (Some p) buf path_beg path_end st = Some (Some q, st')"
    "cct_inv st' N' Rt C'" "N \<subseteq> N'" "c_is_leaf (st_cct st') q"
    "trie_added Rt C C' r w (call_path retain (frames buf path_beg path_end)) q"
    by (rule insert_backtrace_trie [OF assms, of retain])
  have "r \<in> N'" using i(2) assms(2) by (auto simp: cct_inv_def cct_rep_def)
  moreover have "follow C' r (w @ call_path retain (frames buf path_beg path_end)) = Some q"
    using i(5) by (simp add: trie_added_def)
  ultimately have "path_up (st_cct st') q (rev (w @ call_path retain (frames buf path_beg path_end))) r"
    by (rule follow_up [OF i(2)])
  with i show ?thesis by blast
qed

definition example_st :: cct_state where
  "example_st = \<lparr> st_cct = example_cct, st_next_id = 12, st_freelist = None, st_fresh = 0, st_freeable = False \<rparr>"

definition example_frames :: "frame_t list" where
  "example_frames = map (\<lambda>(i, f). \<lparr> fr_ip_norm = ADDR2 1 i, fr_the_function = ADDR2 1 f \<rparr>)
     [(0x72, 0x70), (0x55, 0x50), (0x54, 0x50), (0x53, 0x50), (0x11, 0x10)]"

lemma example_call_path: "call_path False (frames example_frames 4 0) = [(1, 0x11), (1, 0x53), (1, 0x55), (1, 0x72)]"
  by code_simp

theorem insert_backtrace_refines_trie_witness:
  "\<exists>r st1 q st' N' C'. hpcrun_cct_new example_st = (r, st1) \<and>
    hpcrun_cct_insert_backtrace False (Some r) example_frames 4 0 st1 = Some (Some q, st') \<and> cct_inv st' N' {r} C' \<and>
    follow C' r [(1, 0x11), (1, 0x53), (1, 0x55), (1, 0x72)] = Some q \<and>
    path_up (st_cct st') q [(1, 0x72), (1, 0x55), (1, 0x53), (1, 0x11)] r"
proof -
  have "cct_inv example_st {} {} (\<lambda>_. Map.empty)" by (rule fresh_cct) (simp add: example_st_def)
  then obtain r st1 where new: "hpcrun_cct_new example_st = (r, st1)" "cct_inv st1 {r} {r} ((\<lambda>_. Map.empty)(r := Map.empty))"
    unfolding hpcrun_cct_new_def by (rule new_root)
  have "frames_in example_frames 4 0" by code_simp
  from insert_backtrace_refines_trie [OF new(2) singletonI _ this, of "[]" r False]
  have "\<exists>q st' N' C'. hpcrun_cct_insert_backtrace False (Some r) example_frames 4 0 st1 = Some (Some q, st') \<and>
    cct_inv st' N' {r} C' \<and> follow C' r [(1, 0x11), (1, 0x53), (1, 0x55), (1, 0x72)] = Some q \<and>
    path_up (st_cct st') q [(1, 0x72), (1, 0x55), (1, 0x53), (1, 0x11)] r"
    by (simp del: follow.simps path_up.simps add: example_call_path trie_added_def follow.simps(1)) blast
  with new(1) show ?thesis by blast
qed

end
