(* ===== verification/Sparse_File.thy ===== *)
theory Sparse_File
  imports Hpcrun_Fmt
begin

text \<open>
  The iterator over a measurement file (\<open>hpcrun_sparse_file_t\<close> and the \<open>hpcrun_sparse_*\<close> functions of
  \<open>src/common/lean/hpcrun-fmt.c\<close>): open through the footer, read the sections one element per call,
  pause and resume. The object is a record with the fields of the structure at their C widths; an
  operation takes it and returns its integer result, the element it stores and the new object. A result
  \<open>None\<close> stands for an execution that C leaves undefined.

  Opening a path is a stream or its absence (\<open>None\<close>); closing is a boolean, whether it succeeds. The
  fields that \<open>hpcrun_sparse_open\<close> does not set are what the allocation held (its first argument).
\<close>

section \<open>State\<close>

datatype sf_mode = OPENED | PAUSED

record hpcrun_sparse_file_t =
  sf_file :: FILE
  sf_footer :: hpcrun_fmt_footer_t
  sf_mode :: sf_mode
  sf_cur_pos :: u64
  sf_start_pos :: u64
  sf_end_pos :: u64
  sf_num_cct_nodes :: u64
  sf_cct_nodes_read :: u32
  sf_metric_bytes_read :: u64
  sf_cur_metric_id :: u16
  sf_lm_bytes_read :: u64
  sf_sm_block_touched :: u32
  sf_cur_block_end :: u64
  sf_cur_block_start :: u64
  sf_num_nzval :: u64
  sf_num_nz_cct_nodes :: u32
  sf_cct_node_id_idx_offset :: u64
  sf_val_mid_offset :: u64

definition SF_SUCCEED :: int where "SF_SUCCEED = 0"
definition SF_END :: int where "SF_END = 0"
definition SF_FAIL :: int where "SF_FAIL = 1"
definition SF_ERR :: int where "SF_ERR = - 1"

definition SF_footer_SIZE :: u64 where "SF_footer_SIZE = 7 * 16"
definition SF_num_lm_SIZE :: u64 where "SF_num_lm_SIZE = 4"
definition SF_num_metric_SIZE :: u64 where "SF_num_metric_SIZE = 4"
definition SF_num_cct_SIZE :: u64 where "SF_num_cct_SIZE = 8"
definition SF_cct_node_SIZE :: u32 where "SF_cct_node_SIZE = 19"
definition SF_num_val_SIZE :: u64 where "SF_num_val_SIZE = 8"
definition SF_val_SIZE :: u64 where "SF_val_SIZE = 8"
definition SF_mid_SIZE :: u64 where "SF_mid_SIZE = 2"
definition SF_num_nz_cct_node_SIZE :: u64 where "SF_num_nz_cct_node_SIZE = 4"
definition SF_cct_node_id_SIZE :: u32 where "SF_cct_node_id_SIZE = 4"
definition SF_cct_node_idx_SIZE :: u32 where "SF_cct_node_idx_SIZE = 8"

lemmas SF_defs = SF_SUCCEED_def SF_END_def SF_FAIL_def SF_ERR_def SF_footer_SIZE_def
  SF_num_lm_SIZE_def SF_num_metric_SIZE_def SF_num_cct_SIZE_def SF_cct_node_SIZE_def
  SF_num_val_SIZE_def SF_val_SIZE_def SF_mid_SIZE_def SF_num_nz_cct_node_SIZE_def
  SF_cct_node_id_SIZE_def SF_cct_node_idx_SIZE_def

type_synonym 'a sf_result = "int option \<times> 'a option \<times> hpcrun_sparse_file_t"

text \<open>
  A 64-bit offset is passed to \<open>fseek\<close> as a signed \<open>long\<close>; its result is dropped everywhere.
\<close>

definition seek_set :: "u64 \<Rightarrow> FILE \<Rightarrow> FILE" where
  "seek_set off fs = snd (fseek (sint off) SEEK_SET fs)"

definition sf_seek :: "u64 \<Rightarrow> hpcrun_sparse_file_t \<Rightarrow> hpcrun_sparse_file_t" where
  "sf_seek off sf = sf\<lparr> sf_file := seek_set off (sf_file sf) \<rparr>"

definition sf_tell :: "hpcrun_sparse_file_t \<Rightarrow> u64" where
  "sf_tell sf = of_nat (ftell (sf_file sf))"

text \<open>\<open>HPCFMT_ThrowIfError\<close> in these functions: the error code is \<open>-1\<close>, which is \<open>SF_ERR\<close> too.\<close>

definition sf_throw ::
  "'a reader \<Rightarrow> hpcrun_sparse_file_t \<Rightarrow> ('a \<Rightarrow> hpcrun_sparse_file_t \<Rightarrow> 'b sf_result) \<Rightarrow> 'b sf_result" where
  "sf_throw r sf k = (case r (sf_file sf) of
     (HPCFMT_OK x, fs) \<Rightarrow> k x (sf\<lparr> sf_file := fs \<rparr>)
   | (HPCFMT_UB, fs) \<Rightarrow> (None, None, sf\<lparr> sf_file := fs \<rparr>)
   | (_, fs) \<Rightarrow> (Some SF_ERR, None, sf\<lparr> sf_file := fs \<rparr>))"

definition hpcrun_sparse_check_mode :: "hpcrun_sparse_file_t \<Rightarrow> sf_mode \<Rightarrow> int" where
  "hpcrun_sparse_check_mode sf expected = (if sf_mode sf \<noteq> expected then SF_ERR else SF_SUCCEED)"

section \<open>Open, close, pause, resume\<close>

definition hpcrun_sparse_footer_update_w_start ::
  "hpcrun_fmt_footer_t \<Rightarrow> u64 \<Rightarrow> hpcrun_fmt_footer_t" where
  "hpcrun_sparse_footer_update_w_start f start_pos = f\<lparr>
     footer_hdr_start := footer_hdr_start f + start_pos,
     footer_hdr_end := footer_hdr_end f + start_pos,
     footer_loadmap_start := footer_loadmap_start f + start_pos,
     footer_loadmap_end := footer_loadmap_end f + start_pos,
     footer_cct_start := footer_cct_start f + start_pos,
     footer_cct_end := footer_cct_end f + start_pos,
     footer_met_tbl_start := footer_met_tbl_start f + start_pos,
     footer_met_tbl_end := footer_met_tbl_end f + start_pos,
     footer_idtpl_dxnry_start := footer_idtpl_dxnry_start f + start_pos,
     footer_idtpl_dxnry_end := footer_idtpl_dxnry_end f + start_pos,
     footer_sm_start := footer_sm_start f + start_pos,
     footer_sm_end := footer_sm_end f + start_pos,
     footer_footer_start := footer_footer_start f + start_pos \<rparr>"

definition hpcrun_sparse_open ::
  "hpcrun_sparse_file_t \<Rightarrow> FILE option \<Rightarrow> u64 \<Rightarrow> u64 \<Rightarrow> hpcrun_sparse_file_t option" where
  "hpcrun_sparse_open garbage file start_pos end_pos = (case file of
     None \<Rightarrow> None
   | Some fs \<Rightarrow>
      (let sf = garbage\<lparr> sf_file := fs, sf_mode := OPENED, sf_cur_pos := start_pos,
             sf_start_pos := start_pos, sf_end_pos := end_pos, sf_cct_nodes_read := 0,
             sf_metric_bytes_read := 0, sf_cur_metric_id := 0, sf_lm_bytes_read := 0,
             sf_sm_block_touched := 0 \<rparr>;
           fs = (if end_pos = 0 then snd (fseek 0 SEEK_END fs) else fs);
           end_pos = (if end_pos = 0 then of_nat (ftell fs) else end_pos);
           sf = sf\<lparr> sf_end_pos := end_pos \<rparr>;
           footer_position = end_pos - SF_footer_SIZE;
           fs = seek_set footer_position fs
       in case hpcrun_fmt_footer_fread fs of
            (HPCFMT_OK f, fs) \<Rightarrow>
              (let f = hpcrun_sparse_footer_update_w_start f start_pos
               in Some (sf\<lparr> sf_footer := f, sf_file := seek_set (footer_hdr_start f) fs \<rparr>))
          | _ \<Rightarrow> None))"

definition hpcrun_sparse_pause :: "bool \<Rightarrow> hpcrun_sparse_file_t \<Rightarrow> int \<times> hpcrun_sparse_file_t" where
  "hpcrun_sparse_pause closes sf =
    (if hpcrun_sparse_check_mode sf OPENED \<noteq> SF_SUCCEED then (SF_ERR, sf)
     else let sf = sf\<lparr> sf_cur_pos := sf_tell sf \<rparr>;
              ret = (if closes then 0 else 1)
     in (ret, if ret = 0 then sf\<lparr> sf_mode := PAUSED \<rparr> else sf))"

definition hpcrun_sparse_resume :: "FILE option \<Rightarrow> hpcrun_sparse_file_t \<Rightarrow> int \<times> hpcrun_sparse_file_t" where
  "hpcrun_sparse_resume file sf =
    (if hpcrun_sparse_check_mode sf PAUSED \<noteq> SF_SUCCEED then (SF_ERR, sf)
     else case file of
       None \<Rightarrow> (SF_FAIL, sf)
     | Some fs \<Rightarrow>
         if sf_cur_pos sf < sf_start_pos sf \<or> sf_cur_pos sf \<ge> sf_end_pos sf then (SF_ERR, sf)
         else (SF_SUCCEED, sf\<lparr> sf_file := seek_set (sf_cur_pos sf) fs, sf_mode := OPENED \<rparr>))"

section \<open>Sections read at once\<close>

definition hpcrun_sparse_read_hdr :: "hpcrun_sparse_file_t \<Rightarrow> hpcrun_fmt_hdr_t sf_result" where
  "hpcrun_sparse_read_hdr sf =
    (if hpcrun_sparse_check_mode sf OPENED \<noteq> SF_SUCCEED then (Some SF_ERR, None, sf)
     else sf_throw (hpcrun_fmt_hdr_fread malloc) (sf_seek (footer_hdr_start (sf_footer sf)) sf)
       (\<lambda>hdr sf. if sf_tell sf \<noteq> footer_hdr_end (sf_footer sf) then (Some SF_ERR, Some hdr, sf)
                 else (Some SF_SUCCEED, Some hdr, sf)))"

definition hpcrun_sparse_read_idtuple_dxnry ::
  "hpcrun_sparse_file_t \<Rightarrow> hpcrun_fmt_idtuple_dxnry_entry_t list sf_result" where
  "hpcrun_sparse_read_idtuple_dxnry sf =
    (if hpcrun_sparse_check_mode sf OPENED \<noteq> SF_SUCCEED then (Some SF_ERR, None, sf)
     else sf_throw (hpcrun_fmt_idtuple_dxnry_fread malloc)
       (sf_seek (footer_idtpl_dxnry_start (sf_footer sf)) sf)
       (\<lambda>dxnry sf. if sf_tell sf \<noteq> footer_idtpl_dxnry_end (sf_footer sf)
                   then (Some SF_ERR, Some dxnry, sf)
                   else (Some SF_SUCCEED, Some dxnry, sf)))"

text \<open>
  The length of the tuple is looked at before the result of its reader; a reader that failed before
  storing it leaves the caller's, so both ways the result is an error.
\<close>

definition hpcrun_sparse_read_id_tuple :: "u16 \<Rightarrow> hpcrun_sparse_file_t \<Rightarrow> id_tuple_t sf_result" where
  "hpcrun_sparse_read_id_tuple ids_length sf =
    (if hpcrun_sparse_check_mode sf OPENED \<noteq> SF_SUCCEED then (Some SF_ERR, None, sf)
     else sf_throw (id_tuple_fread ids_length) (sf_seek (footer_sm_start (sf_footer sf)) sf)
       (\<lambda>t sf. if tuple_length t = 0 then (Some SF_ERR, Some t, sf)
               else (Some SF_SUCCEED, Some t, sf)))"

section \<open>Sections read element by element\<close>

definition hpcrun_sparse_next_lm :: "hpcrun_sparse_file_t \<Rightarrow> loadmap_entry_t sf_result" where
  "hpcrun_sparse_next_lm sf =
    (if hpcrun_sparse_check_mode sf OPENED \<noteq> SF_SUCCEED then (Some SF_ERR, None, sf)
     else let sf = (if sf_lm_bytes_read sf = 0 then sf\<lparr> sf_lm_bytes_read := SF_num_lm_SIZE \<rparr> else sf);
              realoffset = footer_loadmap_start (sf_footer sf) + sf_lm_bytes_read sf
     in if realoffset = footer_loadmap_end (sf_footer sf) then (Some SF_END, None, sf)
     else if realoffset > footer_loadmap_end (sf_footer sf) then (Some SF_ERR, None, sf)
     else sf_throw (hpcrun_fmt_loadmapEntry_fread malloc) (sf_seek realoffset sf)
       (\<lambda>lm sf. (Some (uint (lm_id lm)), Some lm,
          sf\<lparr> sf_lm_bytes_read := sf_lm_bytes_read sf + (sf_tell sf - realoffset) \<rparr>)))"

definition hpcrun_sparse_next_metric :: "hpcrun_sparse_file_t \<Rightarrow> metric_desc_t sf_result" where
  "hpcrun_sparse_next_metric sf =
    (if hpcrun_sparse_check_mode sf OPENED \<noteq> SF_SUCCEED then (Some SF_ERR, None, sf)
     else let sf = (if sf_metric_bytes_read sf = 0
                    then sf\<lparr> sf_metric_bytes_read := SF_num_metric_SIZE \<rparr> else sf);
              realoffset = footer_met_tbl_start (sf_footer sf) + sf_metric_bytes_read sf
     in if realoffset = footer_met_tbl_end (sf_footer sf) then (Some SF_END, None, sf)
     else if realoffset > footer_met_tbl_end (sf_footer sf) then (Some SF_ERR, None, sf)
     else sf_throw (hpcrun_fmt_metricDesc_fread malloc) (sf_seek realoffset sf)
       (\<lambda>m sf. let sf = sf\<lparr> sf_cur_metric_id := sf_cur_metric_id sf + 1,
                            sf_metric_bytes_read := sf_metric_bytes_read sf + (sf_tell sf - realoffset) \<rparr>
               in (Some (uint (sf_cur_metric_id sf)), Some m, sf)))"

text \<open>
  The product of the node size, an \<open>int\<close>, and the number of nodes read, a 32-bit unsigned, is formed in
  32 bits. The identifier of the node is returned as an \<open>int\<close>.
\<close>

definition context_realoffset :: "hpcrun_sparse_file_t \<Rightarrow> u64" where
  "context_realoffset sf = footer_cct_start (sf_footer sf)
     + ucast (SF_cct_node_SIZE * sf_cct_nodes_read sf) + SF_num_cct_SIZE"

definition next_context_read :: "hpcrun_sparse_file_t \<Rightarrow> hpcrun_fmt_cct_node_t sf_result" where
  "next_context_read sf =
    (if (ucast (sf_cct_nodes_read sf) :: u64) = sf_num_cct_nodes sf then (Some SF_END, None, sf)
     else let realoffset = context_realoffset sf
     in if realoffset > footer_cct_end (sf_footer sf) then (Some SF_ERR, None, sf)
     else sf_throw hpcrun_fmt_cct_node_fread (sf_seek realoffset sf)
       (\<lambda>node sf. (Some (sint (cct_id node)), Some node,
          sf\<lparr> sf_cct_nodes_read := sf_cct_nodes_read sf + 1 \<rparr>)))"

definition hpcrun_sparse_next_context :: "hpcrun_sparse_file_t \<Rightarrow> hpcrun_fmt_cct_node_t sf_result" where
  "hpcrun_sparse_next_context sf =
    (if hpcrun_sparse_check_mode sf OPENED \<noteq> SF_SUCCEED then (Some SF_ERR, None, sf)
     else if sf_cct_nodes_read sf = 0
     then sf_throw hpcfmt_int8_fread (sf_seek (footer_cct_start (sf_footer sf)) sf)
            (\<lambda>n sf. next_context_read (sf\<lparr> sf_num_cct_nodes := n \<rparr>))
     else next_context_read sf)"

section \<open>Blocks and their entries\<close>

definition next_block_init ::
  "hpcrun_sparse_file_t \<Rightarrow> (hpcrun_sparse_file_t \<Rightarrow> unit sf_result) \<Rightarrow> unit sf_result" where
  "next_block_init sf k =
    (if sf_sm_block_touched sf = 0 then
       sf_throw hpcfmt_int2_fread (sf_seek (footer_sm_start (sf_footer sf)) sf) (\<lambda>id_tuple_length sf.
         let id_tuple_size = of_nat (PMS_id_tuple_len_SIZE + PMS_id_SIZE * unat id_tuple_length) in
         sf_throw hpcfmt_int8_fread (sf_seek (footer_sm_start (sf_footer sf) + id_tuple_size) sf)
           (\<lambda>num_nzval sf. let sf = sf\<lparr> sf_num_nzval := num_nzval \<rparr> in
         sf_throw hpcfmt_int4_fread sf (\<lambda>num_nz_cct_nodes sf.
         let sf = sf\<lparr> sf_num_nz_cct_nodes := num_nz_cct_nodes,
                      sf_val_mid_offset := footer_sm_start (sf_footer sf) + id_tuple_size
                        + SF_num_val_SIZE + SF_num_nz_cct_node_SIZE \<rparr>
         in k (sf\<lparr> sf_cct_node_id_idx_offset := sf_val_mid_offset sf
                     + (SF_mid_SIZE + SF_val_SIZE) * sf_num_nzval sf \<rparr>))))
     else k sf)"

definition hpcrun_sparse_next_block :: "hpcrun_sparse_file_t \<Rightarrow> unit sf_result" where
  "hpcrun_sparse_next_block sf =
    (if hpcrun_sparse_check_mode sf OPENED \<noteq> SF_SUCCEED then (Some SF_ERR, None, sf)
     else next_block_init sf (\<lambda>sf.
     if sf_sm_block_touched sf = sf_num_nz_cct_nodes sf then (Some SF_END, None, sf)
     else let realoffset = sf_cct_node_id_idx_offset sf
            + ucast ((SF_cct_node_id_SIZE + SF_cct_node_idx_SIZE) * sf_sm_block_touched sf)
     in if realoffset > footer_sm_end (sf_footer sf) then (Some SF_ERR, None, sf)
     else
     sf_throw hpcfmt_int4_fread (sf_seek realoffset sf) (\<lambda>cct_node_id sf.
     sf_throw hpcfmt_int8_fread sf (\<lambda>val_mid_idx sf.
     let sf = sf\<lparr> sf_cur_block_start := sf_val_mid_offset sf
                    + (SF_mid_SIZE + SF_val_SIZE) * val_mid_idx \<rparr>;
         sf = sf\<lparr> sf_file := snd (fseek (uint SF_cct_node_id_SIZE) SEEK_CUR (sf_file sf)) \<rparr>
     in
     sf_throw hpcfmt_int8_fread sf (\<lambda>next_block_start_idx sf.
     let sf = sf\<lparr> sf_cur_block_end := sf_val_mid_offset sf
                    + (SF_mid_SIZE + SF_val_SIZE) * next_block_start_idx,
                  sf_sm_block_touched := sf_sm_block_touched sf + 1 \<rparr>
     in (Some (sint cct_node_id), None,
         sf_seek (sf_val_mid_offset sf + (SF_mid_SIZE + SF_val_SIZE) * val_mid_idx) sf))))))"

text \<open>The metric identifier is a 16-bit unsigned that is incremented before it is returned.\<close>

definition hpcrun_sparse_next_entry :: "hpcrun_sparse_file_t \<Rightarrow> u64 sf_result" where
  "hpcrun_sparse_next_entry sf =
    (if hpcrun_sparse_check_mode sf OPENED \<noteq> SF_SUCCEED then (Some SF_ERR, None, sf)
     else if sf_sm_block_touched sf = 0 then (Some SF_ERR, None, sf)
     else let cur_pos = sf_tell sf;
              cur_block_start_pos = sf_cur_block_start sf;
              cur_block_end_pos = sf_cur_block_end sf;
              sm_end = footer_sm_end (sf_footer sf)
     in if cur_pos > sm_end \<or> cur_block_start_pos > sm_end \<or> cur_block_end_pos > sm_end
        then (Some SF_ERR, None, sf)
     else if cur_pos < cur_block_start_pos \<or> cur_pos > cur_block_end_pos then (Some SF_ERR, None, sf)
     else if cur_pos = cur_block_end_pos then (Some SF_END, None, sf)
     else
     sf_throw hpcfmt_int8_fread sf (\<lambda>val sf.
     sf_throw hpcfmt_int2_fread sf (\<lambda>mid sf.
     let mid = mid + 1 in (Some (uint mid), Some val, sf))))"

section \<open>Positions and contents\<close>

definition content :: "FILE \<Rightarrow> byte list" where
  "content fs = take (fbad fs) (fdata fs)"

definition holds :: "byte list \<Rightarrow> nat \<Rightarrow> byte list \<Rightarrow> bool" where
  "holds d off bs \<longleftrightarrow> (\<exists>rest. drop off d = bs @ rest)"

lemma holds_append: "holds d off (a @ b) \<longleftrightarrow> holds d off a \<and> holds d (off + length a) b"
  unfolding holds_def
proof safe
  fix rest assume "drop off d = (a @ b) @ rest"
  then show "\<exists>r. drop off d = a @ r" "\<exists>r. drop (off + length a) d = b @ r"
    by (auto simp flip: drop_drop simp: add.commute [of off])
next
  fix r s assume "drop off d = a @ r" "drop (off + length a) d = b @ s"
  moreover have "drop (off + length a) d = drop (length a) (drop off d)" by (simp add: add.commute)
  ultimately show "\<exists>rest. drop off d = (a @ b) @ rest" by auto
qed

lemma holds_Nil [simp]: "holds d off []"
  by (simp add: holds_def)

lemma ahead_content: "ahead fs = drop (fpos fs) (content fs)"
  by (simp add: ahead_def content_def)

lemma content_fskip [simp]: "content (fskip fs n) = content fs"
  by (simp add: content_def fskip_def)

lemma sint_small:
  fixes w :: "'a::len word"
  assumes "unat w < 2 ^ (LENGTH('a) - 1)"
  shows "sint w = int (unat w)"
proof -
  have u: "uint w = int (unat w)" by simp
  have "int (unat w) < int (2 ^ (LENGTH('a) - 1))" using assms by (simp only: of_nat_less_iff)
  then have "uint w < 2 ^ (LENGTH('a) - 1)" by (simp only: u of_nat_power of_nat_numeral)
  moreover have "- (2 ^ (LENGTH('a) - 1)) \<le> uint w" by (rule order_trans [OF _ uint_ge_0]) simp
  ultimately have "signed_take_bit (LENGTH('a) - 1) (uint w) = uint w"
    by (simp only: signed_take_bit_int_eq_self_iff)
  then show ?thesis using u by (simp only: sint_uint One_nat_def)
qed

lemma seek_set_small:
  "unat off < 2 ^ 63 \<Longrightarrow> seek_set off fs = fs\<lparr> fpos := unat off, feof := False \<rparr>"
  using sint_small [of off] by (simp add: seek_set_def fseek_def)

lemma seek_set_content [simp]: "content (seek_set off fs) = content fs"
  by (simp add: seek_set_def fseek_def content_def Let_def)

lemma sf_throw_parses:
  assumes "parses r bs y" and "drop (fpos (sf_file sf)) (content (sf_file sf)) = bs @ rest"
  shows "sf_throw r sf k = k y (sf\<lparr> sf_file := fskip (sf_file sf) (length bs) \<rparr>)"
  using parsesD [OF assms(1), of "sf_file sf" rest] assms(2)
  by (simp add: sf_throw_def ahead_content)

lemma sf_throw_at:
  assumes "parses r bs y" and "holds (content (sf_file sf)) (unat off) bs" and "unat off < 2 ^ 63"
  shows "sf_throw r (sf_seek off sf) k
    = k y (sf\<lparr> sf_file := fskip (seek_set off (sf_file sf)) (length bs) \<rparr>)"
proof -
  obtain rest where "drop (unat off) (content (sf_file sf)) = bs @ rest"
    using assms(2) by (auto simp: holds_def)
  then have "sf_throw r (sf_seek off sf) k =
      k y ((sf_seek off sf)\<lparr> sf_file := fskip (sf_file (sf_seek off sf)) (length bs) \<rparr>)"
    using assms(3) by (intro sf_throw_parses [OF assms(1)])
      (simp add: sf_seek_def seek_set_small content_def)
  then show ?thesis by (simp add: sf_seek_def)
qed

lemma fpos_seek_set [simp]: "unat off < 2 ^ 63 \<Longrightarrow> fpos (seek_set off fs) = unat off"
  by (simp add: seek_set_small)

lemma fpos_fskip_seek [simp]:
  "unat off < 2 ^ 63 \<Longrightarrow> fpos (fskip (seek_set off fs) n) = unat off + n"
  by (simp add: seek_set_small fskip_def)

section \<open>Reading a section to its end\<close>

text \<open>
  What the callers do: call until the result is not positive. At most \<open>n\<close> calls are made; the answer has
  the elements, the last result and the object.
\<close>

fun drain :: "(hpcrun_sparse_file_t \<Rightarrow> 'b sf_result) \<Rightarrow> nat \<Rightarrow> hpcrun_sparse_file_t \<Rightarrow>
    'b list \<times> int option \<times> hpcrun_sparse_file_t" where
  "drain nxt 0 sf = ([], None, sf)"
| "drain nxt (Suc n) sf = (case nxt sf of
     (Some r, Some x, sf') \<Rightarrow>
       if r > 0 then (case drain nxt n sf' of (xs, r', sf'') \<Rightarrow> (x # xs, r', sf''))
       else ([], Some r, sf')
   | (r, _, sf') \<Rightarrow> ([], r, sf'))"

text \<open>
  The contract of an operation that yields the next element of a section: at the end it reports the
  end, and otherwise it yields the element encoded at its position with a positive result and moves
  behind it. \<open>pos\<close> is the byte offset of the next element, \<open>lim\<close> the end of the section, \<open>budget\<close> the
  number of elements the operation can still number, \<open>keeps\<close> what it leaves as it was.
\<close>

locale section_iterator =
  fixes nxt :: "hpcrun_sparse_file_t \<Rightarrow> 'b sf_result"
    and ready :: "hpcrun_sparse_file_t \<Rightarrow> bool"
    and pos :: "hpcrun_sparse_file_t \<Rightarrow> nat"
    and lim :: "hpcrun_sparse_file_t \<Rightarrow> nat"
    and budget :: "hpcrun_sparse_file_t \<Rightarrow> nat"
    and enc :: "'a \<Rightarrow> byte list"
    and img :: "'a \<Rightarrow> 'b"
    and valid :: "'a \<Rightarrow> bool"
    and keeps :: "hpcrun_sparse_file_t \<Rightarrow> hpcrun_sparse_file_t \<Rightarrow> bool"
  assumes keeps_trans: "keeps sf sf' \<Longrightarrow> keeps sf' sf'' \<Longrightarrow> keeps sf sf''"
    and nxt_end: "ready sf \<Longrightarrow> pos sf = lim sf \<Longrightarrow>
      \<exists>sf'. nxt sf = (Some SF_END, None, sf') \<and> ready sf' \<and> pos sf' = pos sf \<and> lim sf' = lim sf \<and>
        keeps sf sf'"
    and nxt_elem: "ready sf \<Longrightarrow> valid x \<Longrightarrow> holds (content (sf_file sf)) (pos sf) (enc x) \<Longrightarrow>
      pos sf + length (enc x) \<le> lim sf \<Longrightarrow> 0 < budget sf \<Longrightarrow>
      \<exists>r sf'. 0 < r \<and> nxt sf = (Some r, Some (img x), sf') \<and> ready sf' \<and>
        pos sf' = pos sf + length (enc x) \<and> lim sf' = lim sf \<and>
        content (sf_file sf') = content (sf_file sf) \<and> budget sf \<le> Suc (budget sf') \<and> keeps sf sf'"
begin

lemma drain_all:
  assumes "ready sf" and "list_all valid xs" and "length xs \<le> budget sf"
    and "holds (content (sf_file sf)) (pos sf) (concat (map enc xs))"
    and "pos sf + length (concat (map enc xs)) = lim sf"
  shows "\<exists>sf'. drain nxt (Suc (length xs)) sf = (map img xs, Some SF_END, sf') \<and> ready sf' \<and>
    pos sf' = lim sf \<and> keeps sf sf'"
  using assms
proof (induction xs arbitrary: sf)
  case Nil
  then show ?case using nxt_end [of sf] by (auto simp: SF_defs)
next
  case (Cons x xs)
  from Cons.prems have "valid x" "holds (content (sf_file sf)) (pos sf) (enc x)"
    "pos sf + length (enc x) \<le> lim sf" "0 < budget sf"
    by (auto simp: holds_append)
  with nxt_elem [of sf x] Cons.prems(1) obtain r sf' where
    s: "0 < r" "nxt sf = (Some r, Some (img x), sf')" "ready sf'" "pos sf' = pos sf + length (enc x)"
      "lim sf' = lim sf" "content (sf_file sf') = content (sf_file sf)" "budget sf \<le> Suc (budget sf')"
      "keeps sf sf'"
    by blast
  with Cons.IH [of sf'] Cons.prems obtain sf'' where
    "drain nxt (Suc (length xs)) sf' = (map img xs, Some SF_END, sf'')" "ready sf''" "pos sf'' = lim sf"
      "keeps sf' sf''"
    by (auto simp: holds_append)
  with s keeps_trans show ?case by auto
qed

end

text \<open>
  The parts of the object the iterators depend on. Reading one section moves the iterator of that
  section only.
\<close>

definition sf_core :: "hpcrun_sparse_file_t \<Rightarrow> sf_mode \<times> hpcrun_fmt_footer_t \<times> byte list" where
  "sf_core sf = (sf_mode sf, sf_footer sf, content (sf_file sf))"

definition lm_iter :: "hpcrun_sparse_file_t \<Rightarrow> u64" where
  "lm_iter sf = sf_lm_bytes_read sf"

definition met_iter :: "hpcrun_sparse_file_t \<Rightarrow> u64 \<times> u16" where
  "met_iter sf = (sf_metric_bytes_read sf, sf_cur_metric_id sf)"

definition ctx_iter :: "hpcrun_sparse_file_t \<Rightarrow> u32 \<times> u64" where
  "ctx_iter sf = (sf_cct_nodes_read sf, sf_num_cct_nodes sf)"

definition blk_iter :: "hpcrun_sparse_file_t \<Rightarrow> u32" where
  "blk_iter sf = sf_sm_block_touched sf"

definition lm_keeps :: "hpcrun_sparse_file_t \<Rightarrow> hpcrun_sparse_file_t \<Rightarrow> bool" where
  "lm_keeps sf sf' \<longleftrightarrow> sf_core sf' = sf_core sf \<and> met_iter sf' = met_iter sf \<and> ctx_iter sf' = ctx_iter sf
     \<and> blk_iter sf' = blk_iter sf"

definition met_keeps :: "hpcrun_sparse_file_t \<Rightarrow> hpcrun_sparse_file_t \<Rightarrow> bool" where
  "met_keeps sf sf' \<longleftrightarrow> sf_core sf' = sf_core sf \<and> lm_iter sf' = lm_iter sf \<and> ctx_iter sf' = ctx_iter sf
     \<and> blk_iter sf' = blk_iter sf"

definition ctx_keeps :: "hpcrun_sparse_file_t \<Rightarrow> hpcrun_sparse_file_t \<Rightarrow> bool" where
  "ctx_keeps sf sf' \<longleftrightarrow> sf_core sf' = sf_core sf \<and> lm_iter sf' = lm_iter sf \<and> met_iter sf' = met_iter sf
     \<and> blk_iter sf' = blk_iter sf"

lemmas keeps_defs = lm_keeps_def met_keeps_def ctx_keeps_def sf_core_def lm_iter_def met_iter_def
  ctx_iter_def blk_iter_def

section \<open>Load modules\<close>

definition lm_off :: "hpcrun_sparse_file_t \<Rightarrow> u64" where
  "lm_off sf = (if sf_lm_bytes_read sf = 0 then 4 else sf_lm_bytes_read sf)"

definition lm_pos :: "hpcrun_sparse_file_t \<Rightarrow> nat" where
  "lm_pos sf = unat (footer_loadmap_start (sf_footer sf)) + unat (lm_off sf)"

definition lm_lim :: "hpcrun_sparse_file_t \<Rightarrow> nat" where
  "lm_lim sf = unat (footer_loadmap_end (sf_footer sf))"

definition lm_ready :: "hpcrun_sparse_file_t \<Rightarrow> bool" where
  "lm_ready sf \<longleftrightarrow> sf_mode sf = OPENED \<and> lm_pos sf \<le> lm_lim sf \<and> lm_lim sf < 2 ^ 63"

lemma unat_add_small:
  "unat (a :: u64) + unat b < 2 ^ 63 \<Longrightarrow> unat (a + b) = unat a + unat b"
  by (simp add: unat_word_ariths)

lemma unat_of_nat_small: "n < 2 ^ 63 \<Longrightarrow> unat (of_nat n :: u64) = n"
  by (simp add: unat_of_nat)

lemma uint_pos: "w \<noteq> 0 \<Longrightarrow> 0 < uint w"
  by (metis uint_0_iff uint_ge_0 order_le_less)

lemma u64_eq_iff: "(a :: u64) = b \<longleftrightarrow> unat a = unat b"
  by (simp add: word_unat_eq_iff)

lemma next_lm_opened:
  assumes "sf_mode sf = OPENED"
  shows "hpcrun_sparse_next_lm sf =
    (let off = footer_loadmap_start (sf_footer sf) + lm_off sf;
         sf' = sf\<lparr> sf_lm_bytes_read := lm_off sf \<rparr>
     in if off = footer_loadmap_end (sf_footer sf) then (Some SF_END, None, sf')
     else if off > footer_loadmap_end (sf_footer sf) then (Some SF_ERR, None, sf')
     else sf_throw (hpcrun_fmt_loadmapEntry_fread malloc) (sf_seek off sf')
       (\<lambda>lm sf. (Some (uint (lm_id lm)), Some lm,
          sf\<lparr> sf_lm_bytes_read := sf_lm_bytes_read sf + (sf_tell sf - off) \<rparr>)))"
  using assms
  by (cases "sf_lm_bytes_read sf = 0")
    (simp_all add: hpcrun_sparse_next_lm_def hpcrun_sparse_check_mode_def lm_off_def SF_SUCCEED_def
      SF_num_lm_SIZE_def Let_def)

text \<open>Moving an offset on by the size of what was read.\<close>

lemma tell_diff:
  fixes off :: u64
  assumes "unat off < 2 ^ 63"
  shows "of_nat (ftell (fskip (seek_set off fs) n)) - off = of_nat n"
  using assms by (simp add: ftell_def)

lemma unat_advance:
  "unat (w :: u64) + n < 2 ^ 63 \<Longrightarrow> unat (w + of_nat n) = unat w + n"
  by (subst unat_add_small) (simp_all add: unat_of_nat_small)

interpretation lms: section_iterator hpcrun_sparse_next_lm lm_ready lm_pos lm_lim "\<lambda>_. 2 ^ 31"
  enc_loadmapEntry loadmapEntry_img "\<lambda>x. valid_str (lm_name x) \<and> lm_id x \<noteq> 0" lm_keeps
proof (unfold_locales, goal_cases)
  case 1
  then show ?case by (simp add: lm_keeps_def)
next
  case (2 sf)
  then have "footer_loadmap_start (sf_footer sf) + lm_off sf = footer_loadmap_end (sf_footer sf)"
    by (simp add: u64_eq_iff unat_add_small lm_ready_def lm_pos_def lm_lim_def)
  moreover have "lm_off (sf\<lparr> sf_lm_bytes_read := lm_off sf \<rparr>) = lm_off sf" by (simp add: lm_off_def)
  ultimately show ?case using 2
    by (simp add: keeps_defs next_lm_opened lm_ready_def lm_pos_def lm_lim_def)
next
  case (3 sf x)
  let ?off = "footer_loadmap_start (sf_footer sf) + lm_off sf" and ?n = "length (enc_loadmapEntry x)"
  have off: "unat ?off = lm_pos sf" and lt: "unat ?off < 2 ^ 63"
    using 3 by (auto simp: lm_ready_def lm_pos_def unat_add_small)
  have "0 < ?n" by (simp add: enc_loadmapEntry_def)
  with 3 off have "unat ?off < lm_lim sf" by linarith
  then have cmp: "?off \<noteq> footer_loadmap_end (sf_footer sf)" "\<not> ?off > footer_loadmap_end (sf_footer sf)"
    by (auto simp: lm_lim_def word_less_nat_alt)
  let ?sf' = "sf\<lparr> sf_lm_bytes_read := lm_off sf + of_nat ?n,
    sf_file := fskip (seek_set ?off (sf_file sf)) ?n \<rparr>"
  have "holds (content (sf_file (sf\<lparr> sf_lm_bytes_read := lm_off sf \<rparr>))) (unat ?off) (enc_loadmapEntry x)"
    using 3(3) off by simp
  note thr = sf_throw_at [OF loadmapEntry.rd_parses [OF conjunct1 [OF 3(2)]] this lt]
  have "hpcrun_sparse_next_lm sf = (Some (uint (lm_id x)), Some (loadmapEntry_img x), ?sf')"
    unfolding next_lm_opened [OF conjunct1 [OF 3(1) [unfolded lm_ready_def]]] Let_def thr
    using cmp by (simp add: sf_tell_def tell_diff [OF lt] loadmapEntry_img_def)
  moreover have "0 < uint (lm_id x)" using 3(2) by (simp add: uint_pos)
  moreover have "unat (lm_off sf) + ?n < 2 ^ 63" using 3 by (simp add: lm_ready_def lm_pos_def)
  then have "unat (lm_off sf + of_nat ?n) = unat (lm_off sf) + ?n" by (rule unat_advance)
  moreover from this \<open>0 < ?n\<close> have "lm_off sf + of_nat ?n \<noteq> 0" by auto
  ultimately show ?case using 3 
    by (simp add: lm_ready_def lm_lim_def lm_pos_def lm_off_def [of ?sf'] keeps_defs)
qed

section \<open>Metrics\<close>

definition met_off :: "hpcrun_sparse_file_t \<Rightarrow> u64" where
  "met_off sf = (if sf_metric_bytes_read sf = 0 then 4 else sf_metric_bytes_read sf)"

definition met_pos :: "hpcrun_sparse_file_t \<Rightarrow> nat" where
  "met_pos sf = unat (footer_met_tbl_start (sf_footer sf)) + unat (met_off sf)"

definition met_lim :: "hpcrun_sparse_file_t \<Rightarrow> nat" where
  "met_lim sf = unat (footer_met_tbl_end (sf_footer sf))"

definition met_ready :: "hpcrun_sparse_file_t \<Rightarrow> bool" where
  "met_ready sf \<longleftrightarrow> sf_mode sf = OPENED \<and> met_pos sf \<le> met_lim sf \<and> met_lim sf < 2 ^ 63"

definition met_budget :: "hpcrun_sparse_file_t \<Rightarrow> nat" where
  "met_budget sf = 2 ^ 16 - 1 - unat (sf_cur_metric_id sf)"

lemma next_metric_opened:
  assumes "sf_mode sf = OPENED"
  shows "hpcrun_sparse_next_metric sf =
    (let off = footer_met_tbl_start (sf_footer sf) + met_off sf;
         sf' = sf\<lparr> sf_metric_bytes_read := met_off sf \<rparr>
     in if off = footer_met_tbl_end (sf_footer sf) then (Some SF_END, None, sf')
     else if off > footer_met_tbl_end (sf_footer sf) then (Some SF_ERR, None, sf')
     else sf_throw (hpcrun_fmt_metricDesc_fread malloc) (sf_seek off sf')
       (\<lambda>m sf. (Some (uint (sf_cur_metric_id sf + 1)), Some m,
          sf\<lparr> sf_cur_metric_id := sf_cur_metric_id sf + 1,
              sf_metric_bytes_read := sf_metric_bytes_read sf + (sf_tell sf - off) \<rparr>)))"
  using assms
  by (cases "sf_metric_bytes_read sf = 0")
    (simp_all add: hpcrun_sparse_next_metric_def hpcrun_sparse_check_mode_def met_off_def SF_SUCCEED_def
      SF_num_metric_SIZE_def Let_def)

interpretation mets: section_iterator hpcrun_sparse_next_metric met_ready met_pos met_lim met_budget
  enc_metricDesc metricDesc_img valid_metricDesc met_keeps
proof (unfold_locales, goal_cases)
  case 1
  then show ?case by (simp add: met_keeps_def)
next
  case (2 sf)
  then have "footer_met_tbl_start (sf_footer sf) + met_off sf = footer_met_tbl_end (sf_footer sf)"
    by (simp add: u64_eq_iff unat_add_small met_ready_def met_pos_def met_lim_def)
  moreover have "met_off (sf\<lparr> sf_metric_bytes_read := met_off sf \<rparr>) = met_off sf"
    by (simp add: met_off_def)
  ultimately show ?case using 2
    by (simp add: keeps_defs next_metric_opened met_ready_def met_pos_def met_lim_def)
next
  case (3 sf x)
  let ?off = "footer_met_tbl_start (sf_footer sf) + met_off sf" and ?n = "length (enc_metricDesc x)"
  have off: "unat ?off = met_pos sf" and lt: "unat ?off < 2 ^ 63"
    using 3 by (auto simp: met_ready_def met_pos_def unat_add_small)
  have "0 < ?n" by (simp add: enc_metricDesc_def)
  with 3 off have "unat ?off < met_lim sf" by linarith
  then have cmp: "?off \<noteq> footer_met_tbl_end (sf_footer sf)" "\<not> ?off > footer_met_tbl_end (sf_footer sf)"
    by (auto simp: met_lim_def word_less_nat_alt)
  let ?sf' = "sf\<lparr> sf_metric_bytes_read := met_off sf + of_nat ?n, sf_cur_metric_id := sf_cur_metric_id sf + 1,
    sf_file := fskip (seek_set ?off (sf_file sf)) ?n \<rparr>"
  have "holds (content (sf_file (sf\<lparr> sf_metric_bytes_read := met_off sf \<rparr>))) (unat ?off) (enc_metricDesc x)"
    using 3(3) off by simp
  note thr = sf_throw_at [OF metricDesc.rd_parses [OF 3(2)] this lt]
  have "hpcrun_sparse_next_metric sf = (Some (uint (sf_cur_metric_id sf + 1)), Some (metricDesc_img x), ?sf')"
    unfolding next_metric_opened [OF conjunct1 [OF 3(1) [unfolded met_ready_def]]] Let_def thr
    using cmp by (simp add: sf_tell_def tell_diff [OF lt])
  moreover have id: "unat (sf_cur_metric_id sf + 1) = Suc (unat (sf_cur_metric_id sf))"
    using 3(5) by (simp add: met_budget_def unat_word_ariths)
  then have "0 < uint (sf_cur_metric_id sf + 1)" by (intro uint_pos) auto
  moreover have "unat (met_off sf) + ?n < 2 ^ 63" using 3 by (simp add: met_ready_def met_pos_def)
  then have "unat (met_off sf + of_nat ?n) = unat (met_off sf) + ?n" by (rule unat_advance)
  moreover from this \<open>0 < ?n\<close> have "met_off sf + of_nat ?n \<noteq> 0" by auto
  ultimately show ?case using 3 id
    by (simp add: met_ready_def met_lim_def met_pos_def met_off_def [of ?sf'] met_budget_def keeps_defs)
qed

section \<open>Contexts\<close>

text \<open>
  The number of nodes is stored in front of them. As long as the nodes take fewer than \<open>2 ^ 32\<close> bytes the
  32-bit product is exact.
\<close>

definition ctx_pos :: "hpcrun_sparse_file_t \<Rightarrow> nat" where
  "ctx_pos sf = unat (footer_cct_start (sf_footer sf)) + 8 + 19 * unat (sf_cct_nodes_read sf)"

definition ctx_lim :: "nat \<Rightarrow> hpcrun_sparse_file_t \<Rightarrow> nat" where
  "ctx_lim N sf = unat (footer_cct_start (sf_footer sf)) + 8 + 19 * N"

definition ctx_ready :: "nat \<Rightarrow> hpcrun_sparse_file_t \<Rightarrow> bool" where
  "ctx_ready N sf \<longleftrightarrow> sf_mode sf = OPENED \<and> 19 * N < 2 ^ 32 \<and> unat (sf_cct_nodes_read sf) \<le> N
     \<and> (sf_cct_nodes_read sf \<noteq> 0 \<longrightarrow> sf_num_cct_nodes sf = of_nat N)
     \<and> holds (content (sf_file sf)) (unat (footer_cct_start (sf_footer sf))) (enc_int8 (of_nat N))
     \<and> ctx_lim N sf \<le> unat (footer_cct_end (sf_footer sf))
     \<and> unat (footer_cct_end (sf_footer sf)) < 2 ^ 63"

lemma unat_ucast_u64: "unat (ucast (w :: u32) :: u64) = unat w"
  using unsigned_less [of w, where ?'a = nat] by (simp add: unsigned_ucast_eq take_bit_nat_eq_self)

lemma context_realoffset_small:
  assumes "ctx_ready N sf"
  shows "unat (context_realoffset sf) = ctx_pos sf"
proof -
  have m: "19 * unat (sf_cct_nodes_read sf) < 2 ^ 32" using assms by (simp add: ctx_ready_def)
  then have "unat (SF_cct_node_SIZE * sf_cct_nodes_read sf) = 19 * unat (sf_cct_nodes_read sf)"
    by (simp add: SF_cct_node_SIZE_def unat_word_ariths)
  then have u: "unat (ucast (SF_cct_node_SIZE * sf_cct_nodes_read sf) :: u64)
      = 19 * unat (sf_cct_nodes_read sf)" by (simp add: unat_ucast_u64)
  have "ctx_pos sf < 2 ^ 63" using assms by (simp add: ctx_ready_def ctx_pos_def ctx_lim_def)
  then show ?thesis
    by (simp add: context_realoffset_def ctx_pos_def unat_add_small u SF_num_cct_SIZE_def)
qed

lemma next_context_ready:
  assumes "ctx_ready N sf"
  shows "\<exists>fs. hpcrun_sparse_next_context sf =
      next_context_read (sf\<lparr> sf_file := fs, sf_num_cct_nodes := of_nat N \<rparr>) \<and>
    content fs = content (sf_file sf)"
proof (cases "sf_cct_nodes_read sf = 0")
  case True
  have lt: "unat (footer_cct_start (sf_footer sf)) < 2 ^ 63"
    using assms by (simp add: ctx_ready_def ctx_lim_def)
  have "holds (content (sf_file sf)) (unat (footer_cct_start (sf_footer sf))) (enc_int8 (of_nat N))"
    using assms by (simp add: ctx_ready_def)
  note thr = sf_throw_at [OF int8.rd_parses [OF TrueI] this lt]
  show ?thesis
    using True assms
    by (intro exI [of _ "fskip (seek_set (footer_cct_start (sf_footer sf)) (sf_file sf)) 8"])
      (simp add: hpcrun_sparse_next_context_def hpcrun_sparse_check_mode_def ctx_ready_def thr)
next
  case False
  with assms have n: "of_nat N = sf_num_cct_nodes sf" and m: "sf_mode sf = OPENED"
    by (simp_all add: ctx_ready_def)
  show ?thesis
    using False m unfolding n
    by (intro exI [of _ "sf_file sf"])
      (simp add: hpcrun_sparse_next_context_def hpcrun_sparse_check_mode_def)
qed

lemma nodes_read_eq:
  "19 * N < 2 ^ 32 \<Longrightarrow> (ucast (c :: u32) :: u64) = of_nat N \<longleftrightarrow> unat c = N"
  by (simp add: u64_eq_iff unat_ucast_u64 unat_of_nat)

interpretation ctxs: section_iterator hpcrun_sparse_next_context "ctx_ready N" ctx_pos "ctx_lim N"
  "\<lambda>_. 2 ^ 32" enc_cct_node "\<lambda>x. x" "\<lambda>x. 0 < sint (cct_id x)" ctx_keeps for N
proof (unfold_locales, goal_cases)
  case 1
  then show ?case by (simp add: ctx_keeps_def)
next
  case (2 sf)
  obtain fs where fs: "hpcrun_sparse_next_context sf =
      next_context_read (sf\<lparr> sf_file := fs, sf_num_cct_nodes := of_nat N \<rparr>)"
    "content fs = content (sf_file sf)" using next_context_ready [OF 2(1)] by blast
  have "unat (sf_cct_nodes_read sf) = N" using 2(2) by (simp add: ctx_pos_def ctx_lim_def)
  with 2 fs show ?case
    by (simp add: next_context_read_def nodes_read_eq ctx_ready_def ctx_pos_def ctx_lim_def keeps_defs)
next
  case (3 sf x)
  obtain fs where fs: "hpcrun_sparse_next_context sf =
      next_context_read (sf\<lparr> sf_file := fs, sf_num_cct_nodes := of_nat N \<rparr>)"
    "content fs = content (sf_file sf)" using next_context_ready [OF 3(1)] by blast
  let ?sf = "sf\<lparr> sf_file := fs, sf_num_cct_nodes := of_nat N \<rparr>"
  have less: "unat (sf_cct_nodes_read sf) < N"
    using 3(4) by (simp add: ctx_pos_def ctx_lim_def length_enc_cct_node)
  have ready: "ctx_ready N ?sf" using 3(1) fs(2) by (simp add: ctx_ready_def ctx_lim_def)
  have off: "unat (context_realoffset ?sf) = ctx_pos sf"
    using context_realoffset_small [OF ready] by (simp add: ctx_pos_def)
  have lt: "unat (context_realoffset ?sf) < 2 ^ 63" and le: "ctx_pos sf \<le> unat (footer_cct_end (sf_footer sf))"
    using 3 off by (simp_all add: ctx_ready_def)
  have h: "holds (content (sf_file ?sf)) (unat (context_realoffset ?sf)) (enc_cct_node x)"
    using 3(3) fs(2) off by simp
  note thr = sf_throw_at [OF cct_node.rd_parses [OF TrueI] h lt]
  have n: "unat (sf_cct_nodes_read sf + 1) = Suc (unat (sf_cct_nodes_read sf))"
    using less 3(1) by (simp add: ctx_ready_def unat_word_ariths)
  have "hpcrun_sparse_next_context sf = (Some (sint (cct_id x)), Some x,
      ?sf\<lparr> sf_file := fskip (seek_set (context_realoffset ?sf) fs) (length (enc_cct_node x)),
          sf_cct_nodes_read := sf_cct_nodes_read sf + 1 \<rparr>)"
    unfolding fs(1) next_context_read_def Let_def thr
    using less le off 3(1) nodes_read_eq [of N "sf_cct_nodes_read sf"]
    by (simp add: ctx_ready_def word_less_nat_alt)
  with 3 less n fs(2) show ?case
    by (simp add: ctx_ready_def ctx_pos_def ctx_lim_def length_enc_cct_node keeps_defs)
qed

section \<open>Entries of a block\<close>

lemma sf_throw_here:
  assumes "parses r bs y" and "holds (content (sf_file sf)) (fpos (sf_file sf)) bs"
  shows "sf_throw r sf k = k y (sf\<lparr> sf_file := fskip (sf_file sf) (length bs) \<rparr>)"
  using assms(2) sf_throw_parses [OF assms(1)] by (auto simp: holds_def)

lemma fpos_fskip [simp]: "fpos (fskip fs n) = fpos fs + n"
  by (simp add: fskip_def)

text \<open>The value together with the result of the call, the number of its metric.\<close>

definition next_entry_pair :: "hpcrun_sparse_file_t \<Rightarrow> (u64 \<times> int) sf_result" where
  "next_entry_pair sf = (case hpcrun_sparse_next_entry sf of
     (Some r, Some v, sf') \<Rightarrow> (Some r, Some (v, r), sf') | (r, _, sf') \<Rightarrow> (r, None, sf'))"

definition ent_pos :: "hpcrun_sparse_file_t \<Rightarrow> nat" where
  "ent_pos sf = fpos (sf_file sf)"

definition ent_lim :: "hpcrun_sparse_file_t \<Rightarrow> nat" where
  "ent_lim sf = unat (sf_cur_block_end sf)"

definition ent_ready :: "hpcrun_sparse_file_t \<Rightarrow> bool" where
  "ent_ready sf \<longleftrightarrow> sf_mode sf = OPENED \<and> sf_sm_block_touched sf \<noteq> 0
     \<and> unat (sf_cur_block_start sf) \<le> ent_pos sf \<and> ent_pos sf \<le> ent_lim sf
     \<and> ent_lim sf \<le> unat (footer_sm_end (sf_footer sf)) \<and> unat (footer_sm_end (sf_footer sf)) < 2 ^ 63"

lemma unat_tell: "fpos (sf_file sf) < 2 ^ 63 \<Longrightarrow> unat (sf_tell sf) = fpos (sf_file sf)"
  by (simp add: sf_tell_def ftell_def unat_of_nat_small)

lemma length_enc_val_mid [simp]: "length (enc_val_mid x) = 10"
  by (simp add: enc_val_mid_def)

lemma length_enc_id_idx [simp]: "length (enc_id_idx x) = 12"
  by (simp add: enc_id_idx_def)

lemma ent_ready_guards:
  assumes "ent_ready sf"
  shows "\<not> (sf_tell sf > footer_sm_end (sf_footer sf) \<or> sf_cur_block_start sf > footer_sm_end (sf_footer sf)
      \<or> sf_cur_block_end sf > footer_sm_end (sf_footer sf))"
    and "\<not> (sf_tell sf < sf_cur_block_start sf \<or> sf_tell sf > sf_cur_block_end sf)"
    and "sf_tell sf = sf_cur_block_end sf \<longleftrightarrow> ent_pos sf = ent_lim sf"
proof -
  have "unat (sf_tell sf) = ent_pos sf"
    using assms unat_tell [of sf] by (simp add: ent_ready_def ent_pos_def)
  then show "\<not> (sf_tell sf > footer_sm_end (sf_footer sf)
        \<or> sf_cur_block_start sf > footer_sm_end (sf_footer sf)
        \<or> sf_cur_block_end sf > footer_sm_end (sf_footer sf))"
      "\<not> (sf_tell sf < sf_cur_block_start sf \<or> sf_tell sf > sf_cur_block_end sf)"
      "sf_tell sf = sf_cur_block_end sf \<longleftrightarrow> ent_pos sf = ent_lim sf"
    using assms by (auto simp: ent_ready_def ent_lim_def word_less_nat_alt u64_eq_iff)
qed

interpretation ents: section_iterator next_entry_pair ent_ready ent_pos ent_lim "\<lambda>_. 2 ^ 64"
  enc_val_mid "\<lambda>(v, m). (v, uint (m + 1))" "\<lambda>(v, m). m + 1 \<noteq> 0"
  "\<lambda>sf sf'. \<exists>fs. sf' = sf\<lparr> sf_file := fs \<rparr> \<and> content fs = content (sf_file sf)"
proof (unfold_locales, goal_cases)
  case 1
  then show ?case by auto
next
  case (2 sf)
  have "\<exists>fs. sf = sf\<lparr> sf_file := fs \<rparr> \<and> content fs = content (sf_file sf)"
    by (intro exI [of _ "sf_file sf"]) simp
  with 2 ent_ready_guards [OF 2(1)] show ?case
    by (simp add: next_entry_pair_def hpcrun_sparse_next_entry_def hpcrun_sparse_check_mode_def
        ent_ready_def Let_def)
next
  case (3 sf x)
  obtain v m where x: "x = (v, m)" by (cases x)
  have "ent_pos sf \<noteq> ent_lim sf" using 3(4) by simp
  with ent_ready_guards [OF 3(1)] 3(1)
  have n: "hpcrun_sparse_next_entry sf = sf_throw hpcfmt_int8_fread sf (\<lambda>val sf.
     sf_throw hpcfmt_int2_fread sf (\<lambda>mid sf. (Some (uint (mid + 1)), Some val, sf)))"
    by (simp add: hpcrun_sparse_next_entry_def hpcrun_sparse_check_mode_def ent_ready_def Let_def)
  have h: "holds (content (sf_file sf)) (fpos (sf_file sf)) (enc_int8 v)"
      "holds (content (sf_file sf)) (fpos (sf_file sf) + 8) (enc_int2 m)"
    using 3(3) by (auto simp: x enc_val_mid_def holds_append ent_pos_def)
  have "hpcrun_sparse_next_entry sf
      = (Some (uint (m + 1)), Some v, sf\<lparr> sf_file := fskip (sf_file sf) 10 \<rparr>)"
    unfolding n by (simp add: sf_throw_here [OF int8.rd_parses [OF TrueI] h(1)]
        sf_throw_here [OF int2.rd_parses [OF TrueI], of _ m] h(2))
  moreover have "0 < uint (m + 1)" using 3(2) by (intro uint_pos) (simp add: x)
  moreover have "\<exists>fs. sf\<lparr> sf_file := fskip (sf_file sf) 10 \<rparr> = sf\<lparr> sf_file := fs \<rparr> \<and>
      content fs = content (sf_file sf)"
    by (intro exI [of _ "fskip (sf_file sf) 10"]) simp
  ultimately show ?case using 3
    by (simp add: next_entry_pair_def x ent_ready_def ent_pos_def ent_lim_def)
qed

section \<open>Blocks\<close>

text \<open>Elements of a fixed size: the encoding of a slice of the list is at the offset of its first.\<close>

lemma holds_slice:
  assumes "holds d off (concat (map enc xs))" and "\<And>x. length (enc x) = n" and "a + k \<le> length xs"
  shows "holds d (off + n * a) (concat (map enc (take k (drop a xs))))"
proof -
  have len: "length (concat (map enc ys)) = n * length ys" for ys
    by (induction ys) (simp_all add: assms(2))
  have "concat (map enc xs) = concat (map enc (take a xs)) @ concat (map enc (take k (drop a xs)))
      @ concat (map enc (drop k (drop a xs)))"
    by (metis append_take_drop_id concat_append map_append)
  with assms(1) show ?thesis using assms(3) by (simp add: holds_append len min.absorb2)
qed

lemma holds_nth:
  assumes "holds d off (concat (map enc xs))" and "\<And>x. length (enc x) = n" and "i < length xs"
  shows "holds d (off + n * i) (enc (xs ! i))"
  using holds_slice [OF assms(1,2), of i 1] assms(3) by (simp add: take_Suc_conv_app_nth)

definition tuple_size :: "hpcrun_fmt_sparse_metrics_t \<Rightarrow> nat" where
  "tuple_size x = 2 + 18 * unat (tuple_length (sm_id_tuple x))"

lemma length_enc_id_tuple: "valid_sm x \<Longrightarrow> length (enc_id_tuple (sm_id_tuple x)) = tuple_size x"
proof -
  assume "valid_sm x"
  moreover have "length (concat (map enc_pms_id ys)) = 18 * length ys" for ys
    by (induction ys) (simp_all add: enc_pms_id_def)
  ultimately show ?thesis
    by (simp add: enc_id_tuple_def tuple_size_def valid_sm_def min.absorb2)
qed

text \<open>
  The offsets in a file whose sparse metrics start at \<open>s\<close>: of the values, and of the contexts with
  their indices.
\<close>

definition val_off :: "hpcrun_fmt_sparse_metrics_t \<Rightarrow> nat \<Rightarrow> nat" where
  "val_off x s = s + tuple_size x + 12"

definition idx_off :: "hpcrun_fmt_sparse_metrics_t \<Rightarrow> nat \<Rightarrow> nat" where
  "idx_off x s = val_off x s + 10 * unat (sm_num_vals x)"

lemma holds_sm:
  assumes "valid_sm x" and "holds d s (enc_sm x)"
  shows "holds d s (enc_int2 (tuple_length (sm_id_tuple x)))"
    and "holds d (s + tuple_size x) (enc_int8 (sm_num_vals x))"
    and "holds d (s + tuple_size x + 8) (enc_int4 (sm_num_nz_cct_nodes x))"
    and "holds d (val_off x s) (concat (map enc_val_mid (sm_values x)))"
    and "holds d (idx_off x s) (concat (map enc_id_idx (sm_cct_nodes x)))"
proof -
  have len: "length (concat (map enc_val_mid ys)) = 10 * length ys" for ys
    by (induction ys) simp_all
  have "holds d s (enc_id_tuple (sm_id_tuple x))" using assms(2) by (simp add: enc_sm_def holds_append)
  then show "holds d s (enc_int2 (tuple_length (sm_id_tuple x)))"
    by (simp add: enc_id_tuple_def holds_append)
  show "holds d (s + tuple_size x) (enc_int8 (sm_num_vals x))"
    "holds d (s + tuple_size x + 8) (enc_int4 (sm_num_nz_cct_nodes x))"
    "holds d (val_off x s) (concat (map enc_val_mid (sm_values x)))"
    "holds d (idx_off x s) (concat (map enc_id_idx (sm_cct_nodes x)))"
    using assms by (simp_all add: enc_sm_def holds_append length_enc_id_tuple len val_off_def idx_off_def
        valid_sm_def add.assoc)
qed

lemma length_enc_sm:
  "valid_sm x \<Longrightarrow> s + length (enc_sm x) = idx_off x s + 12 * length (sm_cct_nodes x)"
proof -
  assume v: "valid_sm x"
  have "length (concat (map enc_val_mid ys)) = 10 * length ys" for ys by (induction ys) simp_all
  moreover have "length (concat (map enc_id_idx ys)) = 12 * length ys" for ys by (induction ys) simp_all
  ultimately show ?thesis using v
    by (simp add: enc_sm_def length_enc_id_tuple idx_off_def val_off_def valid_sm_def)
qed

text \<open>
  A well-formed index: one more pair than there are contexts, the indices ascending from 0 to the
  number of values, and few enough contexts for the 32-bit product.
\<close>

definition sm_wf :: "hpcrun_fmt_sparse_metrics_t \<Rightarrow> bool" where
  "sm_wf x \<longleftrightarrow> valid_sm x \<and> 12 * length (sm_cct_nodes x) < 2 ^ 32
     \<and> length (sm_cct_nodes x) = Suc (unat (sm_num_nz_cct_nodes x))
     \<and> sorted (map (\<lambda>p. unat (snd p)) (sm_cct_nodes x))
     \<and> unat (snd (last (sm_cct_nodes x))) = unat (sm_num_vals x)"

definition blk_ready :: "hpcrun_fmt_sparse_metrics_t \<Rightarrow> hpcrun_sparse_file_t \<Rightarrow> bool" where
  "blk_ready x sf \<longleftrightarrow> sf_mode sf = OPENED \<and> sm_wf x
     \<and> holds (content (sf_file sf)) (unat (footer_sm_start (sf_footer sf))) (enc_sm x)
     \<and> unat (footer_sm_end (sf_footer sf)) = unat (footer_sm_start (sf_footer sf)) + length (enc_sm x)
     \<and> unat (footer_sm_end (sf_footer sf)) < 2 ^ 63
     \<and> unat (sf_sm_block_touched sf) \<le> unat (sm_num_nz_cct_nodes x)"

definition blk_set :: "hpcrun_fmt_sparse_metrics_t \<Rightarrow> hpcrun_sparse_file_t \<Rightarrow> bool" where
  "blk_set x sf \<longleftrightarrow> sf_num_nz_cct_nodes sf = sm_num_nz_cct_nodes x
     \<and> unat (sf_val_mid_offset sf) = val_off x (unat (footer_sm_start (sf_footer sf)))
     \<and> unat (sf_cct_node_id_idx_offset sf) = idx_off x (unat (footer_sm_start (sf_footer sf)))"

lemma blk_bounds:
  assumes "blk_ready x sf"
  shows "idx_off x (unat (footer_sm_start (sf_footer sf))) + 12 * length (sm_cct_nodes x)
      = unat (footer_sm_end (sf_footer sf))"
    and "idx_off x (unat (footer_sm_start (sf_footer sf))) + 12 * length (sm_cct_nodes x) < 2 ^ 63"
  using assms length_enc_sm [of x "unat (footer_sm_start (sf_footer sf))"]
  by (simp_all add: blk_ready_def sm_wf_def)

lemma next_block_init_ready:
  assumes "blk_ready x sf" and "sf_sm_block_touched sf \<noteq> 0 \<longrightarrow> blk_set x sf"
  shows "\<exists>sf'. (\<forall>k. next_block_init sf k = k sf') \<and> blk_ready x sf' \<and> blk_set x sf' \<and>
    sf_sm_block_touched sf' = sf_sm_block_touched sf \<and> content (sf_file sf') = content (sf_file sf) \<and>
    sf_footer sf' = sf_footer sf"
proof (cases "sf_sm_block_touched sf = 0")
  case False
  with assms show ?thesis by (intro exI [of _ sf]) (simp add: next_block_init_def)
next
  case True
  let ?s = "footer_sm_start (sf_footer sf)" and ?len = "tuple_length (sm_id_tuple x)"
  define ts :: u64 where "ts = of_nat (PMS_id_tuple_len_SIZE + PMS_id_SIZE * unat ?len)"
  have v: "valid_sm x" and h: "holds (content (sf_file sf)) (unat ?s) (enc_sm x)"
    using assms(1) by (simp_all add: blk_ready_def sm_wf_def)
  note sm = holds_sm [OF v h]
  have b: "val_off x (unat ?s) + 10 * unat (sm_num_vals x) < 2 ^ 63"
    using blk_bounds [OF assms(1)] by (simp add: idx_off_def)
  then have bs: "unat ?s < 2 ^ 63" "unat ?s + tuple_size x < 2 ^ 63" "tuple_size x < 2 ^ 63"
    by (simp_all add: val_off_def)
  have eq: "PMS_id_tuple_len_SIZE + PMS_id_SIZE * unat ?len = tuple_size x"
    by (simp add: PMS_id_tuple_len_SIZE_def PMS_id_SIZE_def tuple_size_def)
  have ts: "unat ts = tuple_size x" using unat_of_nat_small [OF bs(3)] by (simp only: ts_def eq)
  have s2: "unat (?s + ts) = unat ?s + tuple_size x" using bs ts by (simp only: unat_add_small)
  let ?F1 = "fskip (seek_set ?s (sf_file sf)) 2"
  let ?F2 = "fskip (seek_set (?s + ts) ?F1) 8"
  let ?vo = "?s + ts + SF_num_val_SIZE + SF_num_nz_cct_node_SIZE"
  let ?sf' = "sf\<lparr> sf_num_nzval := sm_num_vals x, sf_file := fskip ?F2 4,
    sf_num_nz_cct_nodes := sm_num_nz_cct_nodes x, sf_val_mid_offset := ?vo,
    sf_cct_node_id_idx_offset := ?vo + (SF_mid_SIZE + SF_val_SIZE) * sm_num_vals x \<rparr>"
  have t1: "sf_throw hpcfmt_int2_fread (sf_seek ?s sf) k = k ?len (sf\<lparr> sf_file := ?F1 \<rparr>)" for k :: "_ \<Rightarrow> _ \<Rightarrow> unit sf_result"
    using sf_throw_at [OF int2.rd_parses [OF TrueI] sm(1) bs(1)] by simp
  have "holds (content (sf_file (sf\<lparr> sf_file := ?F1 \<rparr>))) (unat (?s + ts)) (enc_int8 (sm_num_vals x))"
    using sm(2) s2 by simp
  then have t2: "sf_throw hpcfmt_int8_fread (sf_seek (?s + ts) (sf\<lparr> sf_file := ?F1 \<rparr>)) k
      = k (sm_num_vals x) (sf\<lparr> sf_file := ?F2 \<rparr>)" for k :: "_ \<Rightarrow> _ \<Rightarrow> unit sf_result"
    by (subst sf_throw_at [OF int8.rd_parses [OF TrueI]]) (use bs s2 in simp_all)
  have "fpos ?F2 = unat ?s + tuple_size x + 8" using bs s2 by (subst fpos_fskip_seek) simp_all
  then have t3: "sf_throw hpcfmt_int4_fread (sf\<lparr> sf_file := ?F2, sf_num_nzval := sm_num_vals x \<rparr>) k
      = k (sm_num_nz_cct_nodes x) (sf\<lparr> sf_num_nzval := sm_num_vals x, sf_file := fskip ?F2 4 \<rparr>)"
    for k :: "_ \<Rightarrow> _ \<Rightarrow> unit sf_result"
    using sm(3) by (subst sf_throw_here [OF int4.rd_parses [OF TrueI]]) simp_all
  have "next_block_init sf k = k ?sf'" for k
    using True
    by (simp add: next_block_init_def t1 Let_def t2 t3 flip: ts_def del: of_nat_add of_nat_mult)
  moreover have "blk_set x ?sf'"
  proof -
    have vo: "unat ?vo = val_off x (unat ?s)"
      using b s2 by (simp add: SF_defs val_off_def unat_add_small)
    have "unat ((SF_mid_SIZE + SF_val_SIZE) * sm_num_vals x) = 10 * unat (sm_num_vals x)"
      using b by (simp add: SF_defs unat_word_ariths)
    with vo b show ?thesis by (simp add: blk_set_def idx_off_def unat_add_small)
  qed
  ultimately show ?thesis using assms(1) True by (intro exI [of _ ?sf']) (simp add: blk_ready_def)
qed

lemma fseek_cur [simp]:
  "fseek (uint SF_cct_node_id_SIZE) SEEK_CUR fs = (True, fs\<lparr> fpos := fpos fs + 4, feof := False \<rparr>)"
  by (simp add: fseek_def SF_cct_node_id_SIZE_def nat_add_distrib)

lemma content_pos [simp]: "content (fs\<lparr> fpos := p, feof := e \<rparr>) = content fs"
  by (simp add: content_def)

text \<open>The indices ascend and stay within the values.\<close>

lemma sm_wf_idx:
  assumes "sm_wf x" and "j < length (sm_cct_nodes x)"
  shows "unat (snd (sm_cct_nodes x ! j)) \<le> unat (sm_num_vals x)"
    and "Suc j < length (sm_cct_nodes x) \<Longrightarrow>
      unat (snd (sm_cct_nodes x ! j)) \<le> unat (snd (sm_cct_nodes x ! Suc j))"
proof -
  let ?l = "map (\<lambda>p. unat (snd p)) (sm_cct_nodes x)"
  have s: "sorted ?l" using assms(1) by (simp add: sm_wf_def)
  let ?m = "length (sm_cct_nodes x) - 1"
  have m: "?m < length (sm_cct_nodes x)" "j \<le> ?m" "sm_cct_nodes x \<noteq> []" using assms(2) by auto
  have "unat (snd (sm_cct_nodes x ! j)) \<le> unat (snd (sm_cct_nodes x ! ?m))"
    using sorted_nth_mono [OF s m(2)] m(1) assms(2) by simp
  also have "sm_cct_nodes x ! ?m = last (sm_cct_nodes x)" using last_conv_nth [OF m(3)] by simp
  also have "unat (snd (last (sm_cct_nodes x))) = unat (sm_num_vals x)"
    using assms(1) by (simp add: sm_wf_def)
  finally show "unat (snd (sm_cct_nodes x ! j)) \<le> unat (sm_num_vals x)" .
  show "unat (snd (sm_cct_nodes x ! j)) \<le> unat (snd (sm_cct_nodes x ! Suc j))"
    if "Suc j < length (sm_cct_nodes x)"
    using sorted_nth_mono [OF s, of j "Suc j"] that assms(2) by simp
qed

lemma val_pos:
  assumes "blk_ready x sf" and "blk_set x sf" and "j < length (sm_cct_nodes x)"
  shows "unat (sf_val_mid_offset sf + (SF_mid_SIZE + SF_val_SIZE) * snd (sm_cct_nodes x ! j))
      = val_off x (unat (footer_sm_start (sf_footer sf))) + 10 * unat (snd (sm_cct_nodes x ! j))"
    and "val_off x (unat (footer_sm_start (sf_footer sf))) + 10 * unat (snd (sm_cct_nodes x ! j))
      \<le> unat (footer_sm_end (sf_footer sf))"
proof -
  let ?w = "snd (sm_cct_nodes x ! j)" and ?v = "val_off x (unat (footer_sm_start (sf_footer sf)))"
  have le: "unat ?w \<le> unat (sm_num_vals x)"
    using sm_wf_idx(1) [OF _ assms(3)] assms(1) by (simp add: blk_ready_def)
  with blk_bounds [OF assms(1)] show "?v + 10 * unat ?w \<le> unat (footer_sm_end (sf_footer sf))"
    by (simp add: idx_off_def)
  with assms(1) have lt: "?v + 10 * unat ?w < 2 ^ 63" by (simp add: blk_ready_def)
  then have "unat ((SF_mid_SIZE + SF_val_SIZE) * ?w) = 10 * unat ?w"
    by (simp add: SF_defs unat_word_ariths)
  with lt assms(2) show "unat (sf_val_mid_offset sf + (SF_mid_SIZE + SF_val_SIZE) * ?w) = ?v + 10 * unat ?w"
    by (simp add: blk_set_def unat_add_small)
qed

lemma next_block_step:
  assumes "blk_ready x sf" and "sf_sm_block_touched sf \<noteq> 0 \<longrightarrow> blk_set x sf"
    and i: "unat (sf_sm_block_touched sf) = i" "i < unat (sm_num_nz_cct_nodes x)"
  shows "\<exists>sf'. hpcrun_sparse_next_block sf = (Some (sint (fst (sm_cct_nodes x ! i))), None, sf') \<and>
    blk_ready x sf' \<and> blk_set x sf' \<and> unat (sf_sm_block_touched sf') = Suc i \<and> ent_ready sf' \<and>
    content (sf_file sf') = content (sf_file sf) \<and> sf_footer sf' = sf_footer sf \<and>
    ent_pos sf' = val_off x (unat (footer_sm_start (sf_footer sf))) + 10 * unat (snd (sm_cct_nodes x ! i)) \<and>
    ent_lim sf' = val_off x (unat (footer_sm_start (sf_footer sf)))
      + 10 * unat (snd (sm_cct_nodes x ! Suc i))"
proof -
  obtain sf1 where init: "\<And>k. next_block_init sf k = k sf1" and r1: "blk_ready x sf1" and s1: "blk_set x sf1"
    and t1: "sf_sm_block_touched sf1 = sf_sm_block_touched sf"
    and c1: "content (sf_file sf1) = content (sf_file sf)" and f1: "sf_footer sf1 = sf_footer sf"
    using next_block_init_ready [OF assms(1,2)] by blast
  let ?s = "unat (footer_sm_start (sf_footer sf))" and ?p = "sm_cct_nodes x ! i" and ?q = "sm_cct_nodes x ! Suc i"
  define off where "off = sf_cct_node_id_idx_offset sf1
    + ucast ((SF_cct_node_id_SIZE + SF_cct_node_idx_SIZE) * sf_sm_block_touched sf1)"
  have wf: "sm_wf x" "valid_sm x" "length (sm_cct_nodes x) = Suc (unat (sm_num_nz_cct_nodes x))"
    "12 * length (sm_cct_nodes x) < 2 ^ 32" "sf_mode sf = OPENED"
    and h: "holds (content (sf_file sf1)) ?s (enc_sm x)"
    using assms(1) c1 by (simp_all add: blk_ready_def sm_wf_def)
  note bounds = blk_bounds [OF assms(1)]
  have "unat ((SF_cct_node_id_SIZE + SF_cct_node_idx_SIZE) * sf_sm_block_touched sf1) = 12 * i"
    using wf i t1 by (simp add: SF_defs unat_word_ariths)
  then have off: "unat off = idx_off x ?s + 12 * i"
    unfolding off_def using s1 f1 bounds i wf by (subst unat_add_small) (simp_all add: blk_set_def unat_ucast_u64)
  then have lt: "unat off < 2 ^ 63" using bounds wf i by simp
  have hn: "holds (content (sf_file sf1)) (idx_off x ?s + 12 * j) (enc_id_idx (sm_cct_nodes x ! j))"
    if "j < length (sm_cct_nodes x)" for j
    using holds_nth [OF holds_sm(5) [OF wf(2) h] length_enc_id_idx that] .
  have "holds (content (sf_file sf1)) (idx_off x ?s + 12 * i) (enc_id_idx ?p)"
    "holds (content (sf_file sf1)) (idx_off x ?s + 12 * i + 12) (enc_id_idx ?q)"
    using hn [of i] hn [of "Suc i"] wf i by (simp_all add: ac_simps)
  then have hp: "holds (content (sf_file sf1)) (unat off) (enc_int4 (fst ?p))"
    "holds (content (sf_file sf1)) (unat off + 4) (enc_int8 (snd ?p))"
    "holds (content (sf_file sf1)) (unat off + 16) (enc_int8 (snd ?q))"
    by (simp_all add: enc_id_idx_def holds_append off ac_simps)
  let ?F1 = "fskip (seek_set off (sf_file sf1)) 4"
  let ?F3 = "(fskip (seek_set off (sf_file sf1)) 12)\<lparr> fpos := 16 + unat off, feof := False \<rparr>"
  have b1: "sf_throw hpcfmt_int4_fread (sf_seek off sf1) k = k (fst ?p) (sf1\<lparr> sf_file := ?F1 \<rparr>)"
    for k :: "_ \<Rightarrow> _ \<Rightarrow> unit sf_result"
    using sf_throw_at [OF int4.rd_parses [OF TrueI] hp(1) lt] by simp
  have b2: "sf_throw hpcfmt_int8_fread (sf1\<lparr> sf_file := ?F1 \<rparr>) k = k (snd ?p) (sf1\<lparr> sf_file := fskip ?F1 8 \<rparr>)"
    for k :: "_ \<Rightarrow> _ \<Rightarrow> unit sf_result"
    using hp(2) lt by (subst sf_throw_here [OF int8.rd_parses [OF TrueI]]) simp_all
  have b3: "sf_throw hpcfmt_int8_fread (sf1\<lparr> sf_cur_block_start := cs, sf_file := ?F3 \<rparr>) k
      = k (snd ?q) (sf1\<lparr> sf_cur_block_start := cs, sf_file := fskip ?F3 8 \<rparr>)"
    for k :: "_ \<Rightarrow> _ \<Rightarrow> unit sf_result" and cs
    using hp(3) lt by (subst sf_throw_here [OF int8.rd_parses [OF TrueI]]) (simp_all add: add.commute)
  let ?cs = "sf_val_mid_offset sf1 + (SF_mid_SIZE + SF_val_SIZE) * snd ?p"
  let ?ce = "sf_val_mid_offset sf1 + (SF_mid_SIZE + SF_val_SIZE) * snd ?q"
  let ?sf' = "sf_seek ?cs (sf1\<lparr> sf_cur_block_start := ?cs, sf_file := fskip ?F3 8, sf_cur_block_end := ?ce,
    sf_sm_block_touched := sf_sm_block_touched sf1 + 1 \<rparr>)"
  have "sf_sm_block_touched sf1 \<noteq> sf_num_nz_cct_nodes sf1" using i s1 t1 by (auto simp: blk_set_def)
  moreover have "\<not> footer_sm_end (sf_footer sf) < off"
    using off bounds wf i by (simp add: word_less_nat_alt)
  moreover have "fpos ?F1 + 12 = unat off + 16" using lt by simp
  ultimately have n: "hpcrun_sparse_next_block sf = (Some (sint (fst ?p)), None, ?sf')"
    using f1 by (simp add: hpcrun_sparse_next_block_def init hpcrun_sparse_check_mode_def wf(5) b1 b2 b3 Let_def flip: off_def)
  have j: "i < length (sm_cct_nodes x)" "Suc i < length (sm_cct_nodes x)" using wf i by auto
  have cs: "unat ?cs = val_off x ?s + 10 * unat (snd ?p)" and ce: "unat ?ce = val_off x ?s + 10 * unat (snd ?q)"
    and ce_le: "unat ?ce \<le> unat (footer_sm_end (sf_footer sf))"
    using val_pos [OF r1 s1 j(1)] val_pos [OF r1 s1 j(2)] f1 by simp_all
  have "unat (snd ?p) \<le> unat (snd ?q)" using sm_wf_idx(2) [OF wf(1) j] .
  moreover have "unat ?cs < 2 ^ 63" "unat (sf_sm_block_touched sf1 + 1) = Suc i"
    using cs ce ce_le bounds \<open>unat (snd ?p) \<le> unat (snd ?q)\<close> i wf t1 by (simp_all add: unat_word_ariths)
  moreover from this have "sf_sm_block_touched sf1 + 1 \<noteq> 0" by auto
  ultimately show ?thesis
    using n r1 s1 f1 c1 cs ce ce_le i
    by (intro exI [of _ ?sf']) (simp add: sf_seek_def blk_ready_def blk_set_def ent_ready_def ent_pos_def
        ent_lim_def)
qed

lemma next_block_end:
  assumes "blk_ready x sf" and "sf_sm_block_touched sf \<noteq> 0 \<longrightarrow> blk_set x sf"
    and "sf_sm_block_touched sf = sm_num_nz_cct_nodes x"
  shows "\<exists>sf'. hpcrun_sparse_next_block sf = (Some SF_END, None, sf')"
proof -
  obtain sf1 where "\<And>k. next_block_init sf k = k sf1" "blk_set x sf1"
    "sf_sm_block_touched sf1 = sf_sm_block_touched sf"
    using next_block_init_ready [OF assms(1,2)] by blast
  with assms show ?thesis
    by (simp add: hpcrun_sparse_next_block_def hpcrun_sparse_check_mode_def blk_ready_def blk_set_def)
qed

text \<open>
  The loop of a caller over the blocks: the result of each call that yields one, with the entries of
  the block read to their end (at most \<open>m\<close> calls each).
\<close>

fun read_blocks :: "nat \<Rightarrow> nat \<Rightarrow> hpcrun_sparse_file_t \<Rightarrow>
    (int \<times> (u64 \<times> int) list) list \<times> int option \<times> hpcrun_sparse_file_t" where
  "read_blocks m 0 sf = ([], None, sf)"
| "read_blocks m (Suc n) sf = (case hpcrun_sparse_next_block sf of
     (Some r, _, sf') \<Rightarrow>
       if r > 0 then (case drain next_entry_pair m sf' of
         (es, Some e, sf'') \<Rightarrow> if e = SF_END
           then (case read_blocks m n sf'' of (bs, r', sf3) \<Rightarrow> ((r, es) # bs, r', sf3))
           else ([(r, es)], Some e, sf'')
       | (es, None, sf'') \<Rightarrow> ([(r, es)], None, sf''))
       else ([], Some r, sf')
   | (None, _, sf') \<Rightarrow> ([], None, sf'))"

text \<open>What the section means: the values of context \<open>i\<close> are those between its index and the next.\<close>

definition block_of :: "hpcrun_fmt_sparse_metrics_t \<Rightarrow> nat \<Rightarrow> int \<times> (u64 \<times> int) list" where
  "block_of x i = (sint (fst (sm_cct_nodes x ! i)),
     map (\<lambda>(v, m). (v, uint (m + 1)))
       (take (unat (snd (sm_cct_nodes x ! Suc i)) - unat (snd (sm_cct_nodes x ! i)))
          (drop (unat (snd (sm_cct_nodes x ! i))) (sm_values x))))"

definition sm_readable :: "hpcrun_fmt_sparse_metrics_t \<Rightarrow> bool" where
  "sm_readable x \<longleftrightarrow> sm_wf x \<and> list_all (\<lambda>(v, m). m + 1 \<noteq> 0) (sm_values x)
     \<and> list_all (\<lambda>p. 0 < sint (fst p)) (butlast (sm_cct_nodes x))"

lemma drain_more:
  "drain nxt n sf = (xs, Some r, sf') \<Longrightarrow> n \<le> m \<Longrightarrow> drain nxt m sf = (xs, Some r, sf')"
proof (induction n arbitrary: sf xs m)
  case 0
  then show ?case by simp
next
  case (Suc n)
  obtain m' where m: "m = Suc m'" "n \<le> m'" using Suc.prems(2) by (cases m) auto
  with Suc.prems Suc.IH [OF _ m(2)] show ?case
    by (auto split: option.splits prod.splits if_splits)
qed

lemma drain_block:
  assumes "sm_readable x" and "blk_ready x sf" and "ent_ready sf" and "Suc i < length (sm_cct_nodes x)"
    and "ent_pos sf = val_off x (unat (footer_sm_start (sf_footer sf))) + 10 * unat (snd (sm_cct_nodes x ! i))"
    and "ent_lim sf = val_off x (unat (footer_sm_start (sf_footer sf)))
      + 10 * unat (snd (sm_cct_nodes x ! Suc i))"
    and m: "length (sm_values x) < m"
  shows "\<exists>fs. drain next_entry_pair m sf = (snd (block_of x i), Some SF_END, sf\<lparr> sf_file := fs \<rparr>) \<and>
    content fs = content (sf_file sf)"
proof -
  let ?a = "unat (snd (sm_cct_nodes x ! i))" and ?b = "unat (snd (sm_cct_nodes x ! Suc i))"
  let ?xs = "take (?b - ?a) (drop ?a (sm_values x))"
  have wf: "sm_wf x" "valid_sm x" and h: "holds (content (sf_file sf))
      (unat (footer_sm_start (sf_footer sf))) (enc_sm x)"
    using assms(2) by (simp_all add: blk_ready_def sm_wf_def)
  have ab: "?a \<le> ?b" using sm_wf_idx(2) [OF wf(1)] assms(4) by simp
  have b: "?b \<le> length (sm_values x)"
    using sm_wf_idx(1) [OF wf(1) assms(4)] wf(2) by (simp add: valid_sm_def)
  have len: "length ?xs = ?b - ?a" using ab b by simp
  have l10: "length (concat (map enc_val_mid ys)) = 10 * length ys" for ys by (induction ys) simp_all
  have "list_all (\<lambda>(v, m). m + 1 \<noteq> 0) ?xs"
    using assms(1) by (auto simp: sm_readable_def list_all_iff dest!: in_set_takeD in_set_dropD)
  moreover have "length ?xs \<le> 2 ^ 64" using len unsigned_less [of "snd (sm_cct_nodes x ! Suc i)", where ?'a = nat] by simp
  moreover have "holds (content (sf_file sf)) (ent_pos sf) (concat (map enc_val_mid ?xs))"
    using holds_slice [OF holds_sm(4) [OF wf(2) h] length_enc_val_mid, of ?a "?b - ?a"] ab b assms(5) by simp
  moreover have "ent_pos sf + length (concat (map enc_val_mid ?xs)) = ent_lim sf"
    using assms(5,6) ab by (simp only: l10 len)
  ultimately obtain fs where "drain next_entry_pair (Suc (length ?xs)) sf
      = (snd (block_of x i), Some SF_END, sf\<lparr> sf_file := fs \<rparr>)" "content fs = content (sf_file sf)"
    using ents.drain_all [OF assms(3), of ?xs] by (auto simp: block_of_def)
  moreover have "Suc (length ?xs) \<le> m" using len b m by simp
  ultimately show ?thesis using drain_more by blast
qed

lemma read_blocks_from:
  assumes "sm_readable x" and "length (sm_values x) < m" and "blk_ready x sf"
    and "sf_sm_block_touched sf \<noteq> 0 \<longrightarrow> blk_set x sf"
  shows "\<exists>sf'. read_blocks m (Suc (unat (sm_num_nz_cct_nodes x) - unat (sf_sm_block_touched sf))) sf
    = (map (block_of x) [unat (sf_sm_block_touched sf)..<unat (sm_num_nz_cct_nodes x)], Some SF_END, sf')"
  using assms(3,4)
proof (induction "unat (sm_num_nz_cct_nodes x) - unat (sf_sm_block_touched sf)" arbitrary: sf)
  case 0
  then have "sf_sm_block_touched sf = sm_num_nz_cct_nodes x" by (simp add: blk_ready_def word_unat_eq_iff)
  with next_block_end [OF 0(2,3)] show ?case by (auto simp: SF_defs)
next
  case (Suc n)
  let ?i = "unat (sf_sm_block_touched sf)" and ?N = "unat (sm_num_nz_cct_nodes x)"
  have i: "?i < ?N" and len: "length (sm_cct_nodes x) = Suc ?N"
    using Suc.hyps(2) assms(1) by (simp_all add: sm_readable_def sm_wf_def)
  obtain sf1 where s1: "hpcrun_sparse_next_block sf = (Some (sint (fst (sm_cct_nodes x ! ?i))), None, sf1)"
    "blk_ready x sf1" "blk_set x sf1" "unat (sf_sm_block_touched sf1) = Suc ?i" "ent_ready sf1"
    and f1: "content (sf_file sf1) = content (sf_file sf)" "sf_footer sf1 = sf_footer sf"
    and p1: "ent_pos sf1 = val_off x (unat (footer_sm_start (sf_footer sf))) + 10 * unat (snd (sm_cct_nodes x ! ?i))"
      "ent_lim sf1 = val_off x (unat (footer_sm_start (sf_footer sf))) + 10 * unat (snd (sm_cct_nodes x ! Suc ?i))"
    using next_block_step [OF Suc.prems refl i] by blast
  obtain fs where d: "drain next_entry_pair m sf1 = (snd (block_of x ?i), Some SF_END, sf1\<lparr> sf_file := fs \<rparr>)"
    "content fs = content (sf_file sf1)"
    using drain_block [OF assms(1) s1(2,5), of ?i m] p1 f1 i len assms(2) by auto
  have "butlast (sm_cct_nodes x) ! ?i = sm_cct_nodes x ! ?i" "?i < length (butlast (sm_cct_nodes x))"
    using i len by (simp_all add: nth_butlast)
  then have pos: "0 < sint (fst (sm_cct_nodes x ! ?i))"
    using assms(1) by (metis sm_readable_def list_all_length)
  have "n = ?N - unat (sf_sm_block_touched (sf1\<lparr> sf_file := fs \<rparr>))" using s1(4) Suc.hyps(2) by simp
  moreover have "blk_ready x (sf1\<lparr> sf_file := fs \<rparr>)" "blk_set x (sf1\<lparr> sf_file := fs \<rparr>)"
    using s1(2,3) d(2) by (simp_all add: blk_ready_def blk_set_def)
  ultimately obtain sf' where "read_blocks m (Suc n) (sf1\<lparr> sf_file := fs \<rparr>)
      = (map (block_of x) [Suc ?i..<?N], Some SF_END, sf')"
    using Suc.hyps(1) [of "sf1\<lparr> sf_file := fs \<rparr>"] s1(4) by (auto simp del: read_blocks.simps)
  moreover have "fst (block_of x ?i) = sint (fst (sm_cct_nodes x ! ?i))" by (simp add: block_of_def)
  then have "(sint (fst (sm_cct_nodes x ! ?i)), snd (block_of x ?i)) = block_of x ?i"
    by (metis prod.collapse)
  ultimately show ?case
    using s1(1) d(1) pos i Suc.hyps(2) [symmetric] by (simp add: upt_conv_Cons del: upt_Suc)
qed

end
