(* ===== verification/Sparse_Read.thy ===== *)
theory Sparse_Read
  imports Sparse_File
begin

text \<open>
  What the iterator over a measurement file delivers for a whole file. \<open>measurement_valid\<close> says which
  data a file can hold for the reader, \<open>sections_in\<close> that a file has them where its footer says;
  \<open>sparse_read_all\<close> is the loop of a client (each section to its end, in the order of the profile
  reader). The properties are that opening finds the footer, that the client gets every element of
  every section in order, that a paused object refuses every access, and where 32-bit offsets wrap.
\<close>

section \<open>The client\<close>

record sparse_contents =
  rd_lms :: "loadmap_entry_t list"
  rd_metrics :: "metric_desc_t list"
  rd_contexts :: "hpcrun_fmt_cct_node_t list"
  rd_blocks :: "(int \<times> (u64 \<times> int) list) list"
  rd_status :: "int option list"

definition sparse_read_all :: "nat \<Rightarrow> hpcrun_sparse_file_t \<Rightarrow> sparse_contents" where
  "sparse_read_all n sf =
    (case drain hpcrun_sparse_next_lm n sf of (ls, r1, sf) \<Rightarrow>
     case drain hpcrun_sparse_next_metric n sf of (ms, r2, sf) \<Rightarrow>
     case drain hpcrun_sparse_next_context n sf of (ns, r3, sf) \<Rightarrow>
     case read_blocks n n sf of (bs, r4, sf) \<Rightarrow>
       \<lparr> rd_lms = ls, rd_metrics = ms, rd_contexts = ns, rd_blocks = bs, rd_status = [r1, r2, r3, r4] \<rparr>)"

section \<open>What a file holds\<close>

definition measurement_valid :: "loadmap_entry_t list \<Rightarrow> metric_desc_t list \<Rightarrow>
    hpcrun_fmt_cct_node_t list \<Rightarrow> hpcrun_fmt_sparse_metrics_t \<Rightarrow> bool" where
  "measurement_valid ls ms ns x \<longleftrightarrow>
     list_all (\<lambda>l. valid_str (lm_name l) \<and> lm_id l \<noteq> 0) ls \<and> length ls \<le> 2 ^ 31
     \<and> list_all valid_metricDesc ms \<and> length ms < 2 ^ 16
     \<and> list_all (\<lambda>c. 0 < sint (cct_id c)) ns \<and> 19 * length ns < 2 ^ 32
     \<and> sm_readable x"

definition enc_cct :: "hpcrun_fmt_cct_node_t list \<Rightarrow> byte list" where
  "enc_cct ns = enc_int8 (of_nat (length ns)) @ concat (map enc_cct_node ns)"

definition enc_metricTbl :: "metric_desc_t list \<Rightarrow> byte list" where
  "enc_metricTbl ms = enc_int4 (of_nat (length ms)) @ concat (map enc_metricDesc ms)"

definition at_section :: "byte list \<Rightarrow> u64 \<Rightarrow> u64 \<Rightarrow> byte list \<Rightarrow> bool" where
  "at_section d s e bs \<longleftrightarrow> holds d (unat s) bs \<and> unat s + length bs = unat e \<and> unat e < 2 ^ 63"

definition sections_in :: "hpcrun_fmt_footer_t \<Rightarrow> byte list \<Rightarrow> loadmap_entry_t list \<Rightarrow>
    metric_desc_t list \<Rightarrow> hpcrun_fmt_cct_node_t list \<Rightarrow> hpcrun_fmt_sparse_metrics_t \<Rightarrow> bool" where
  "sections_in f d ls ms ns x \<longleftrightarrow>
     at_section d (footer_loadmap_start f) (footer_loadmap_end f) (enc_loadmap ls)
     \<and> at_section d (footer_met_tbl_start f) (footer_met_tbl_end f) (enc_metricTbl ms)
     \<and> at_section d (footer_cct_start f) (footer_cct_end f) (enc_cct ns)
     \<and> at_section d (footer_sm_start f) (footer_sm_end f) (enc_sm x)"

text \<open>An object as \<open>hpcrun_sparse_open\<close> leaves it.\<close>

definition sf_fresh :: "hpcrun_sparse_file_t \<Rightarrow> bool" where
  "sf_fresh sf \<longleftrightarrow> sf_mode sf = OPENED \<and> sf_lm_bytes_read sf = 0 \<and> sf_metric_bytes_read sf = 0
     \<and> sf_cur_metric_id sf = 0 \<and> sf_cct_nodes_read sf = 0 \<and> sf_sm_block_touched sf = 0"

section \<open>Each section from its start\<close>

lemma drain_lms:
  assumes "measurement_valid ls ms ns x" and "sections_in (sf_footer sf) (content (sf_file sf)) ls ms ns x"
    and "sf_mode sf = OPENED" and "lm_iter sf = 0" and "length ls < n"
  shows "\<exists>sf'. drain hpcrun_sparse_next_lm n sf = (map loadmapEntry_img ls, Some SF_END, sf') \<and> lm_keeps sf sf'"
proof -
  have s: "at_section (content (sf_file sf)) (footer_loadmap_start (sf_footer sf))
      (footer_loadmap_end (sf_footer sf)) (enc_loadmap ls)"
    using assms(2) by (simp add: sections_in_def)
  have p: "lm_pos sf = unat (footer_loadmap_start (sf_footer sf)) + 4"
    using assms(4) by (simp add: lm_pos_def lm_off_def lm_iter_def)
  have "lm_ready sf" "holds (content (sf_file sf)) (lm_pos sf) (concat (map enc_loadmapEntry ls))"
    "lm_pos sf + length (concat (map enc_loadmapEntry ls)) = lm_lim sf"
    using s assms(3) unfolding p lm_ready_def at_section_def enc_loadmap_def lm_lim_def holds_append
    by simp_all
  moreover have "list_all (\<lambda>l. valid_str (lm_name l) \<and> lm_id l \<noteq> 0) ls" "length ls \<le> 2 ^ 31"
    using assms(1) by (simp_all add: measurement_valid_def)
  ultimately obtain sf' where "drain hpcrun_sparse_next_lm (Suc (length ls)) sf
      = (map loadmapEntry_img ls, Some SF_END, sf')" "lm_keeps sf sf'"
    using lms.drain_all [of sf ls] by blast
  with drain_more [of hpcrun_sparse_next_lm "Suc (length ls)" sf _ _ _ n] assms(5) show ?thesis by auto
qed

lemma drain_metrics:
  assumes "measurement_valid ls ms ns x" and "sections_in (sf_footer sf) (content (sf_file sf)) ls ms ns x"
    and "sf_mode sf = OPENED" and "met_iter sf = (0, 0)" and "length ms < n"
  shows "\<exists>sf'. drain hpcrun_sparse_next_metric n sf = (map metricDesc_img ms, Some SF_END, sf') \<and> met_keeps sf sf'"
proof -
  have s: "at_section (content (sf_file sf)) (footer_met_tbl_start (sf_footer sf))
      (footer_met_tbl_end (sf_footer sf)) (enc_metricTbl ms)"
    using assms(2) by (simp add: sections_in_def)
  have p: "met_pos sf = unat (footer_met_tbl_start (sf_footer sf)) + 4"
    using assms(4) by (simp add: met_pos_def met_off_def met_iter_def)
  have "met_ready sf" "holds (content (sf_file sf)) (met_pos sf) (concat (map enc_metricDesc ms))"
    "met_pos sf + length (concat (map enc_metricDesc ms)) = met_lim sf"
    using s assms(3) unfolding p met_ready_def at_section_def enc_metricTbl_def met_lim_def holds_append
    by simp_all
  moreover have "list_all valid_metricDesc ms" "length ms \<le> met_budget sf"
    using assms(1,4) by (simp_all add: measurement_valid_def met_budget_def met_iter_def)
  ultimately obtain sf' where "drain hpcrun_sparse_next_metric (Suc (length ms)) sf
      = (map metricDesc_img ms, Some SF_END, sf')" "met_keeps sf sf'"
    using mets.drain_all [of sf ms] by blast
  with drain_more [of hpcrun_sparse_next_metric "Suc (length ms)" sf _ _ _ n] assms(5) show ?thesis by auto
qed

lemma drain_contexts:
  assumes "measurement_valid ls ms ns x" and "sections_in (sf_footer sf) (content (sf_file sf)) ls ms ns x"
    and "sf_mode sf = OPENED" and "fst (ctx_iter sf) = 0" and "length ns < n"
  shows "\<exists>sf'. drain hpcrun_sparse_next_context n sf = (ns, Some SF_END, sf') \<and> ctx_keeps sf sf'"
proof -
  have s: "at_section (content (sf_file sf)) (footer_cct_start (sf_footer sf))
      (footer_cct_end (sf_footer sf)) (enc_cct ns)"
    using assms(2) by (simp add: sections_in_def)
  have p: "ctx_pos sf = unat (footer_cct_start (sf_footer sf)) + 8"
    using assms(4) by (simp add: ctx_pos_def ctx_iter_def)
  have len: "length (concat (map enc_cct_node ys)) = 19 * length ys" for ys
    by (induction ys) (simp_all add: length_enc_cct_node)
  have v: "list_all (\<lambda>c. 0 < sint (cct_id c)) ns" "19 * length ns < 2 ^ 32" "length ns \<le> 2 ^ 32"
    using assms(1) by (simp_all add: measurement_valid_def)
  have "ctx_ready (length ns) sf" "holds (content (sf_file sf)) (ctx_pos sf) (concat (map enc_cct_node ns))"
    "ctx_pos sf + length (concat (map enc_cct_node ns)) = ctx_lim (length ns) sf"
    using s assms(3,4) v(2) unfolding p ctx_ready_def at_section_def enc_cct_def ctx_lim_def holds_append
    by (simp_all add: len ctx_iter_def)
  with v obtain sf' where "drain hpcrun_sparse_next_context (Suc (length ns)) sf
      = (map (\<lambda>x. x) ns, Some SF_END, sf')" "ctx_keeps sf sf'"
    using ctxs.drain_all [of "length ns" sf ns] by blast
  with drain_more [of hpcrun_sparse_next_context "Suc (length ns)" sf _ _ _ n] assms(5) show ?thesis by auto
qed

lemma read_blocks_more:
  "read_blocks m n sf = (bs, Some r, sf') \<Longrightarrow> n \<le> k \<Longrightarrow> read_blocks m k sf = (bs, Some r, sf')"
proof (induction n arbitrary: sf bs k)
  case 0
  then show ?case by simp
next
  case (Suc n)
  obtain k' where k: "k = Suc k'" "n \<le> k'" using Suc.prems(2) by (cases k) auto
  with Suc.prems Suc.IH [OF _ k(2)] show ?case
    by (auto split: option.splits prod.splits if_splits)
qed

lemma drain_blocks:
  assumes "measurement_valid ls ms ns x" and "sections_in (sf_footer sf) (content (sf_file sf)) ls ms ns x"
    and "sf_mode sf = OPENED" and "blk_iter sf = 0"
    and "unat (sm_num_nz_cct_nodes x) < n" and "length (sm_values x) < n"
  shows "\<exists>sf'. read_blocks n n sf = (map (block_of x) [0..<unat (sm_num_nz_cct_nodes x)], Some SF_END, sf')"
proof -
  have x: "sm_readable x" using assms(1) by (simp add: measurement_valid_def)
  moreover have "blk_ready x sf" "sf_sm_block_touched sf \<noteq> 0 \<longrightarrow> blk_set x sf"
    using assms x by (simp_all add: blk_ready_def blk_iter_def sections_in_def at_section_def sm_readable_def)
  ultimately obtain sf' where "read_blocks n (Suc (unat (sm_num_nz_cct_nodes x))) sf
      = (map (block_of x) [0..<unat (sm_num_nz_cct_nodes x)], Some SF_END, sf')"
    using read_blocks_from [OF x assms(6), of sf] assms(4) by (auto simp: blk_iter_def simp del: read_blocks.simps)
  with read_blocks_more [of n "Suc (unat (sm_num_nz_cct_nodes x))" sf _ _ _ n] assms(5)
  show ?thesis by auto
qed

lemma read_all_sections:
  assumes "measurement_valid ls ms ns x" and "sections_in (sf_footer sf) (content (sf_file sf)) ls ms ns x"
    and "sf_fresh sf"
    and "Max {length ls, length ms, length ns, unat (sm_num_nz_cct_nodes x), length (sm_values x)} < n"
  shows "sparse_read_all n sf = \<lparr> rd_lms = map loadmapEntry_img ls, rd_metrics = map metricDesc_img ms,
    rd_contexts = ns, rd_blocks = map (block_of x) [0..<unat (sm_num_nz_cct_nodes x)],
    rd_status = [Some SF_END, Some SF_END, Some SF_END, Some SF_END] \<rparr>"
proof -
  have n: "length ls < n" "length ms < n" "length ns < n" "unat (sm_num_nz_cct_nodes x) < n"
    "length (sm_values x) < n" using assms(4) by auto
  have i: "sf_mode sf = OPENED" "lm_iter sf = 0" "met_iter sf = (0, 0)" "fst (ctx_iter sf) = 0" "blk_iter sf = 0"
    using assms(3) by (simp_all add: sf_fresh_def keeps_defs)
  obtain s1 where s1: "drain hpcrun_sparse_next_lm n sf = (map loadmapEntry_img ls, Some SF_END, s1)" "lm_keeps sf s1"
    using drain_lms [OF assms(1,2) i(1,2) n(1)] by blast
  then have k1: "sf_mode s1 = OPENED" "sf_footer s1 = sf_footer sf" "content (sf_file s1) = content (sf_file sf)"
    "met_iter s1 = (0, 0)" "fst (ctx_iter s1) = 0" "blk_iter s1 = 0"
    using i by (simp_all add: lm_keeps_def sf_core_def)
  obtain s2 where s2: "drain hpcrun_sparse_next_metric n s1 = (map metricDesc_img ms, Some SF_END, s2)" "met_keeps s1 s2"
    using drain_metrics [OF assms(1) _ k1(1) k1(4) n(2)] assms(2) k1 by auto
  then have k2: "sf_mode s2 = OPENED" "sf_footer s2 = sf_footer sf" "content (sf_file s2) = content (sf_file sf)"
    "fst (ctx_iter s2) = 0" "blk_iter s2 = 0"
    using k1 by (simp_all add: met_keeps_def sf_core_def)
  obtain s3 where s3: "drain hpcrun_sparse_next_context n s2 = (ns, Some SF_END, s3)" "ctx_keeps s2 s3"
    using drain_contexts [OF assms(1) _ k2(1) k2(4) n(3)] assms(2) k2 by auto
  then have k3: "sf_mode s3 = OPENED" "sf_footer s3 = sf_footer sf" "content (sf_file s3) = content (sf_file sf)"
    "blk_iter s3 = 0"
    using k2 by (simp_all add: ctx_keeps_def sf_core_def)
  obtain s4 where "read_blocks n n s3 = (map (block_of x) [0..<unat (sm_num_nz_cct_nodes x)], Some SF_END, s4)"
    using drain_blocks [OF assms(1) _ k3(1) k3(4) n(4,5)] assms(2) k3 by auto
  with s1(1) s2(1) s3(1) show ?thesis by (simp add: sparse_read_all_def)
qed

section \<open>Opening\<close>

lemma sparse_open_footer:
  assumes "length (fdata fs) \<le> fbad fs" and "length (fdata fs) < 2 ^ 63"
    and "fdata fs = body @ enc_footer f" and "footer_HPCRUNsm f = HPCRUNsm"
    and "end_pos = 0 \<or> unat end_pos = length (fdata fs)"
  shows "\<exists>sf. hpcrun_sparse_open garbage (Some fs) start_pos end_pos = Some sf \<and> sf_fresh sf \<and>
    sf_footer sf = hpcrun_sparse_footer_update_w_start f start_pos \<and> content (sf_file sf) = fdata fs"
proof -
  let ?n = "length (fdata fs)"
  have n: "?n = length body + 112" using assms(3) by (simp add: length_enc_footer)
  define ep :: u64 where "ep = of_nat ?n"
  have ep: "unat ep = ?n" unfolding ep_def using assms(2) by (rule unat_of_nat_small)
  have "end_pos \<noteq> 0 \<Longrightarrow> end_pos = ep" using assms(5) ep by (auto simp: word_unat_eq_iff)
  moreover have "fpos (snd (fseek 0 SEEK_END fs)) = ?n" by (simp add: fseek_def)
  moreover define fs1 where "fs1 = (if end_pos = 0 then snd (fseek 0 SEEK_END fs) else fs)"
  ultimately have e: "(if end_pos = 0 then of_nat (ftell fs1) else end_pos) = ep"
    by (simp add: ftell_def ep_def)
  have c1: "content fs1 = fdata fs" using assms(1) by (simp add: fs1_def fseek_def content_def)
  have fp: "unat (ep - SF_footer_SIZE) = length body"
    using ep n assms(2) by (subst unat_sub) (simp_all add: word_le_nat_alt SF_footer_SIZE_def)
  then have "unat (ep - SF_footer_SIZE) < 2 ^ 63" using n assms(2) by simp
  then have "fpos (seek_set (ep - SF_footer_SIZE) fs1) = length body" using fp by simp
  then have "ahead (seek_set (ep - SF_footer_SIZE) fs1) = enc_footer f @ []"
    using assms(3) by (simp add: ahead_content c1)
  then have "hpcrun_fmt_footer_fread (seek_set (ep - SF_footer_SIZE) fs1)
      = (HPCFMT_OK f, fskip (seek_set (ep - SF_footer_SIZE) fs1) (length (enc_footer f)))"
    using parsesD [OF footer.rd_parses [OF assms(4)]] by blast
  moreover have "content (seek_set a (fskip (seek_set b fs1) c)) = fdata fs" for a b c using c1 by simp
  ultimately show ?thesis
    unfolding hpcrun_sparse_open_def option.case Let_def fs1_def [symmetric] e
    by (simp add: sf_fresh_def)
qed

lemma throw_int8:
  "ahead fs = enc_int8 a @ rest \<Longrightarrow> ThrowIfError hpcfmt_int8_fread k fs = k a (fskip fs 8)"
  using parsesD [OF int8.rd_parses [OF TrueI, of a], of fs rest] by (simp add: ThrowIfError_def)

lemma footer_fread_bad_magic:
  "ahead fs = enc_footer f @ rest \<Longrightarrow> footer_HPCRUNsm f \<noteq> HPCRUNsm \<Longrightarrow>
   fst (hpcrun_fmt_footer_fread fs) = HPCFMT_ERR"
  by (simp add: hpcrun_fmt_footer_fread_def enc_footer_def throw_int8 fmt_fail_def)

lemma footer_fread_empty: "ahead fs = [] \<Longrightarrow> fst (hpcrun_fmt_footer_fread fs) \<in> {HPCFMT_ERR, HPCFMT_EOF}"
proof -
  define f where "f = \<lparr> footer_hdr_start = 0, footer_hdr_end = 0, footer_loadmap_start = 0,
    footer_loadmap_end = 0, footer_cct_start = 0, footer_cct_end = 0, footer_met_tbl_start = 0,
    footer_met_tbl_end = 0, footer_idtpl_dxnry_start = 0, footer_idtpl_dxnry_end = 0,
    footer_sm_start = 0, footer_sm_end = 0, footer_footer_start = 0, footer_HPCRUNsm = HPCRUNsm \<rparr>"
  assume "ahead fs = []"
  then have "ahead fs = take 0 (enc_footer f)" by simp
  then show ?thesis using footer.truncated [of f fs 0] by (simp add: f_def length_enc_footer)
qed

section \<open>Properties\<close>

text \<open>
  C5. Reading a measurement file. A file ends with a footer whose magic is right and has, where the
  footer says (shifted by the start position), the load map, metric table, context nodes and sparse
  metrics of a measurement. Then opening it succeeds, and a client that calls each iterator until it
  stops obtains every load module, every metric, every context and every block of values of every
  context, in order and nothing else, each section ending with \<open>SF_END\<close>.
\<close>

theorem sparse_open_read_all:
  assumes "length (fdata fs) \<le> fbad fs" and "length (fdata fs) < 2 ^ 63"
    and "fdata fs = body @ enc_footer f" and "footer_HPCRUNsm f = HPCRUNsm"
    and "end_pos = 0 \<or> unat end_pos = length (fdata fs)"
    and "measurement_valid ls ms ns x"
    and "sections_in (hpcrun_sparse_footer_update_w_start f start_pos) (fdata fs) ls ms ns x"
    and "Max {length ls, length ms, length ns, unat (sm_num_nz_cct_nodes x), length (sm_values x)} < n"
  shows "map_option (sparse_read_all n) (hpcrun_sparse_open garbage (Some fs) start_pos end_pos) =
    Some \<lparr> rd_lms = map loadmapEntry_img ls, rd_metrics = map metricDesc_img ms, rd_contexts = ns,
      rd_blocks = map (block_of x) [0..<unat (sm_num_nz_cct_nodes x)],
      rd_status = [Some SF_END, Some SF_END, Some SF_END, Some SF_END] \<rparr>"
proof -
  obtain sf where o: "hpcrun_sparse_open garbage (Some fs) start_pos end_pos = Some sf" "sf_fresh sf"
    "sf_footer sf = hpcrun_sparse_footer_update_w_start f start_pos" "content (sf_file sf) = fdata fs"
    using sparse_open_footer [OF assms(1-5)] by blast
  then have "sections_in (sf_footer sf) (content (sf_file sf)) ls ms ns x" using assms(7) by simp
  from read_all_sections [OF assms(6) this o(2) assms(8)] o(1) show ?thesis by simp
qed

definition example_sm :: hpcrun_fmt_sparse_metrics_t where
  "example_sm = \<lparr> sm_id_tuple = id_tuple_constructor [] 0, sm_num_vals = 2, sm_num_nz_cct_nodes = 1,
     sm_values = [(5, 0), (7, 1)], sm_cct_nodes = [(12, 0), (LastNodeEnd, 2)] \<rparr>"

definition example_lm :: loadmap_entry_t where
  "example_lm = \<lparr> lm_id = 1, lm_name = Some [97], lm_flags = 1 \<rparr>"

definition example_node :: hpcrun_fmt_cct_node_t where
  "example_node = \<lparr> cct_id = 12, cct_id_parent = 0, cct_lm_id = 1, cct_lm_ip = 64, cct_unwound = True \<rparr>"

lemma length_enc_cct_nodes: "length (concat (map enc_cct_node ns)) = 19 * length ns"
  by (induction ns) (simp_all add: length_enc_cct_node)

lemma holds_mid: "n = length a \<Longrightarrow> holds (a @ b @ c) n b"
  by (simp add: holds_def)

definition example_footer :: hpcrun_fmt_footer_t where
  "example_footer = \<lparr> footer_hdr_start = 0, footer_hdr_end = 0, footer_loadmap_start = 0,
    footer_loadmap_end = 19, footer_cct_start = 19, footer_cct_end = 46, footer_met_tbl_start = 46,
    footer_met_tbl_end = 111, footer_idtpl_dxnry_start = 0, footer_idtpl_dxnry_end = 0,
    footer_sm_start = 111, footer_sm_end = 169, footer_footer_start = 169, footer_HPCRUNsm = HPCRUNsm \<rparr>"

definition example_sf :: hpcrun_sparse_file_t where
  "example_sf = \<lparr> sf_file = \<lparr> fdata = [], fpos = 7, feof = False, fbad = 0, fcap = 0 \<rparr>,
     sf_footer = example_footer, sf_mode = OPENED, sf_cur_pos = 3, sf_start_pos = 0, sf_end_pos = 100,
     sf_num_cct_nodes = 0, sf_cct_nodes_read = 5, sf_metric_bytes_read = 0, sf_cur_metric_id = 0,
     sf_lm_bytes_read = 0, sf_sm_block_touched = 0, sf_cur_block_end = 0, sf_cur_block_start = 0,
     sf_num_nzval = 0, sf_num_nz_cct_nodes = 0, sf_cct_node_id_idx_offset = 0, sf_val_mid_offset = 0 \<rparr>"

definition example_body :: "byte list" where
  "example_body = enc_loadmap [example_lm] @ enc_cct [example_node] @ enc_metricTbl [example_metric]
     @ enc_sm example_sm"

lemma example_lengths:
  "length (enc_loadmap [example_lm]) = 19" "length (enc_cct [example_node]) = 27"
  "length (enc_metricTbl [example_metric]) = 65" "length (enc_sm example_sm) = 58"
  by (simp_all add: enc_loadmap_def enc_loadmapEntry_def example_lm_def enc_str_def hpcfmt_str_ensure_def
      enc_cct_def length_enc_cct_node enc_metricTbl_def enc_metricDesc_def example_metric_def enc_sm_def
      enc_id_tuple_def example_sm_def id_tuple_constructor_def id_tuple_used_def)

lemma example_valid: "measurement_valid [example_lm] [example_metric] [example_node] example_sm"
  by (simp add: measurement_valid_def example_lm_def valid_str_def hpcfmt_str_ensure_def example_node_def
      sm_readable_def sm_wf_def valid_sm_def example_sm_def id_tuple_constructor_def valid_metricDesc_def
      example_metric_def valid_flags_def flags_ty_def flags_unused1_def MetricFlags_Ty_Raw_def)

lemma example_sections:
  "sections_in (hpcrun_sparse_footer_update_w_start example_footer 0) (example_body @ enc_footer example_footer)
     [example_lm] [example_metric] [example_node] example_sm"
proof -
  have "holds (example_body @ enc_footer example_footer) 0 (enc_loadmap [example_lm])"
    "holds (example_body @ enc_footer example_footer) 19 (enc_cct [example_node])"
    "holds (example_body @ enc_footer example_footer) 46 (enc_metricTbl [example_metric])"
    "holds (example_body @ enc_footer example_footer) 111 (enc_sm example_sm)"
    using holds_mid [of 0 "[]"] holds_mid [of 19 "enc_loadmap [example_lm]"]
      holds_mid [of 46 "enc_loadmap [example_lm] @ enc_cct [example_node]"]
      holds_mid [of 111 "enc_loadmap [example_lm] @ enc_cct [example_node] @ enc_metricTbl [example_metric]"]
    by (simp_all add: example_body_def example_lengths)
  then show ?thesis
    by (simp add: sections_in_def at_section_def hpcrun_sparse_footer_update_w_start_def
        example_footer_def example_lengths)
qed

theorem sparse_open_read_all_witness:
  "map_option (sparse_read_all 9) (hpcrun_sparse_open example_sf (Some \<lparr> fdata = example_body @ enc_footer example_footer,
       fpos = 0, feof = False, fbad = 1000, fcap = 0 \<rparr>) 0 0) =
    Some \<lparr> rd_lms = [example_lm], rd_metrics = [metricDesc_img example_metric], rd_contexts = [example_node],
      rd_blocks = [(12, [(5, 1), (7, 2)])], rd_status = [Some 0, Some 0, Some 0, Some 0] \<rparr>"
proof -
  let ?fs = "\<lparr> fdata = example_body @ enc_footer example_footer, fpos = 0, feof = False, fbad = 1000, fcap = 0 \<rparr>"
  have "length (fdata ?fs) = 281" by (simp add: example_body_def example_lengths length_enc_footer)
  then show ?thesis
    using sparse_open_read_all [of ?fs example_body example_footer 0 "[example_lm]" "[example_metric]"
        "[example_node]" example_sm 0 9 example_sf] example_valid example_sections
    by (simp add: example_footer_def example_sm_def block_of_def SF_END_def loadmapEntry_img_def
        example_lm_def hpcfmt_str_ensure_def)
qed

text \<open>
  C6. Opening checks the end of the file: of a file of at least 112 bytes, read as a footer, it is the
  magic at the end that decides whether opening succeeds; a shorter file, or a path that cannot be
  opened, is refused.
\<close>

theorem sparse_open_checks:
  assumes "length (fdata fs) \<le> fbad fs" and "length (fdata fs) < 2 ^ 63"
    and "fdata fs = body @ enc_footer f \<or> length (fdata fs) < 112"
  shows "(hpcrun_sparse_open garbage (Some fs) start_pos 0 \<noteq> None \<longleftrightarrow>
    112 \<le> length (fdata fs) \<and> footer_HPCRUNsm f = HPCRUNsm) \<and> hpcrun_sparse_open garbage None start_pos end_pos = None"
proof (cases "112 \<le> length (fdata fs)")
  case True
  with assms(3) have d: "fdata fs = body @ enc_footer f" by simp
  show ?thesis
  proof (cases "footer_HPCRUNsm f = HPCRUNsm")
    case magic: True
    with True sparse_open_footer [OF assms(1,2) d magic, of 0] show ?thesis by (auto simp: hpcrun_sparse_open_def)
  next
    case False
    let ?fs = "seek_set (of_nat (length (fdata fs)) - SF_footer_SIZE) (snd (fseek 0 SEEK_END fs))"
    have "unat (of_nat (length (fdata fs)) - SF_footer_SIZE) = length body"
      using d assms(2) unat_of_nat_small [OF assms(2)]
      by (subst unat_sub) (simp_all add: word_le_nat_alt SF_footer_SIZE_def length_enc_footer)
    then have "ahead ?fs = enc_footer f @ []"
      using d assms(1,2) by (simp add: ahead_def seek_set_small fseek_def)
    from footer_fread_bad_magic [OF this False] show ?thesis
      using False by (auto simp: hpcrun_sparse_open_def ftell_def fseek_def Let_def split: hpcfmt.splits prod.splits)
  qed
next
  case False
  let ?n = "length (fdata fs)"
  let ?fs = "seek_set (of_nat ?n - SF_footer_SIZE) (snd (fseek 0 SEEK_END fs))"
  have "?n < 112" using False by simp
  have "of_nat ?n - SF_footer_SIZE = of_int (int ?n - 112)" by (simp add: SF_footer_SIZE_def)
  moreover have "signed_take_bit 63 (int ?n - 112) = int ?n - 112"
    using \<open>?n < 112\<close> by (simp add: signed_take_bit_int_eq_self_iff)
  ultimately have "sint (of_nat ?n - SF_footer_SIZE) = int ?n - 112"
    by (simp only: signed_of_int) simp
  then have "ahead ?fs = []" using assms(1) False by (simp add: ahead_def seek_set_def fseek_def Let_def)
  from footer_fread_empty [OF this] show ?thesis
    using False by (auto simp: hpcrun_sparse_open_def ftell_def fseek_def Let_def split: hpcfmt.splits prod.splits)
qed

theorem sparse_open_checks_witness:
  "hpcrun_sparse_open example_sf (Some \<lparr> fdata = example_body @ enc_footer (example_footer\<lparr> footer_HPCRUNsm := 0 \<rparr>),
     fpos = 0, feof = False, fbad = 1000, fcap = 0 \<rparr>) 0 0 = None"
proof -
  let ?f = "example_footer\<lparr> footer_HPCRUNsm := 0 \<rparr>"
  let ?fs = "\<lparr> fdata = example_body @ enc_footer ?f, fpos = 0, feof = False, fbad = 1000, fcap = 0 \<rparr>"
  have "length (fdata ?fs) = 281" by (simp add: example_body_def example_lengths length_enc_footer)
  then show ?thesis using sparse_open_checks [of ?fs example_body ?f example_sf 0] by (simp add: HPCRUNsm_def)
qed

text \<open>
  A paused object refuses every access: each reading operation and a second pause return \<open>SF_ERR\<close>,
  store nothing and leave the object as it was.
\<close>

theorem sparse_paused_refuses:
  "(let sf = sf\<lparr> sf_mode := PAUSED \<rparr> in
     hpcrun_sparse_read_hdr sf = (Some SF_ERR, None, sf) \<and>
     hpcrun_sparse_next_lm sf = (Some SF_ERR, None, sf) \<and>
     hpcrun_sparse_next_metric sf = (Some SF_ERR, None, sf) \<and>
     hpcrun_sparse_read_idtuple_dxnry sf = (Some SF_ERR, None, sf) \<and>
     hpcrun_sparse_next_context sf = (Some SF_ERR, None, sf) \<and>
     hpcrun_sparse_read_id_tuple n sf = (Some SF_ERR, None, sf) \<and>
     hpcrun_sparse_next_block sf = (Some SF_ERR, None, sf) \<and>
     hpcrun_sparse_next_entry sf = (Some SF_ERR, None, sf) \<and>
     hpcrun_sparse_pause b sf = (SF_ERR, sf))"
  by (simp add: hpcrun_sparse_check_mode_def hpcrun_sparse_read_hdr_def hpcrun_sparse_next_lm_def
      hpcrun_sparse_next_metric_def hpcrun_sparse_read_idtuple_dxnry_def hpcrun_sparse_next_context_def
      hpcrun_sparse_read_id_tuple_def hpcrun_sparse_next_block_def hpcrun_sparse_next_entry_def
      hpcrun_sparse_pause_def SF_ERR_def SF_SUCCEED_def Let_def)

text \<open>
  Pause and resume: an open object whose position is within its part of the file, paused and resumed
  on the reopened file, is open again, at the same position, with every iterator where it was; with a
  position outside, the resume is refused with \<open>SF_ERR\<close> and the object stays paused.
\<close>

theorem sparse_pause_resume:
  assumes "sf_mode sf = OPENED" and "fpos (sf_file sf) < 2 ^ 63"
  shows "hpcrun_sparse_resume (Some fs) (snd (hpcrun_sparse_pause True sf)) =
    (if unat (sf_start_pos sf) \<le> fpos (sf_file sf) \<and> fpos (sf_file sf) < unat (sf_end_pos sf)
     then (SF_SUCCEED, sf\<lparr> sf_cur_pos := sf_tell sf,
        sf_file := fs\<lparr> fpos := fpos (sf_file sf), feof := False \<rparr> \<rparr>)
     else (SF_ERR, sf\<lparr> sf_cur_pos := sf_tell sf, sf_mode := PAUSED \<rparr>))"
proof -
  have "unat (sf_tell sf) = fpos (sf_file sf)" by (rule unat_tell [OF assms(2)])
  then show ?thesis
    using assms by (auto simp: hpcrun_sparse_resume_def hpcrun_sparse_pause_def hpcrun_sparse_check_mode_def
        SF_defs seek_set_small word_less_nat_alt word_le_nat_alt not_less Let_def)
qed

theorem sparse_pause_resume_witness:
  "hpcrun_sparse_resume (Some \<lparr> fdata = [1], fpos = 0, feof = False, fbad = 9, fcap = 0 \<rparr>)
      (snd (hpcrun_sparse_pause True example_sf)) = (SF_SUCCEED, example_sf\<lparr> sf_cur_pos := 7,
        sf_file := \<lparr> fdata = [1], fpos = 7, feof = False, fbad = 9, fcap = 0 \<rparr> \<rparr>)"
  using sparse_pause_resume [of example_sf "\<lparr> fdata = [1], fpos = 0, feof = False, fbad = 9, fcap = 0 \<rparr>"]
  by (simp add: example_sf_def sf_tell_def ftell_def)

text \<open>
  The offset of a context node is formed with a 32-bit product: after 226050911 nodes it has wrapped,
  and the next node is looked for 13 bytes into the array instead of 4294967309.
\<close>

theorem sparse_context_offset_wraps:
  "context_realoffset (sf\<lparr> sf_cct_nodes_read := 226050911 \<rparr>)
     = footer_cct_start (sf_footer sf) + SF_num_cct_SIZE + 13 \<and>
   19 * 226050911 = (4294967309 :: nat)"
  by (simp add: context_realoffset_def SF_cct_node_SIZE_def)

end
