(* ===== verification/Cct_Write.thy ===== *)
theory Cct_Write
  imports Cct Cct2metrics Sparse_Read "HOL-Library.Multiset"
begin

text \<open>
  Writing the calling context tree of a thread (\<open>src/hpcrun/cct/cct.c\<close>, \<open>hpcrun_cct_fwrite\<close>, and
  \<open>cct_bundle.c\<close>): a child-first walk counts the non-zero values and marks the nodes to write, a
  node-first walk writes the marked nodes and collects the values for the sparse metrics section.

  \<open>HPCRUN_CCT_KEEP_DUMMY\<close> is 1 in the sources; the branches for 0 are left out. The fresh memory of the
  arrays holds \<open>junk\<close>. \<open>kinds\<close> are the kinds of the metrics, finalized.
\<close>

section \<open>Counting and marking\<close>

record count_arg_t =
  ca_count_dummy :: bool
  ca_n :: u64
  ca_cct2metrics_map :: "ptr option"
  ca_num_nzval :: u64
  ca_num_nz_cct_nodes :: u32

definition set_display :: "ptr \<Rightarrow> cct_store \<Rightarrow> cct_store" where
  "set_display p cs = cs\<lparr> c_display := (c_display cs)(p := True) \<rparr>"

definition l_count_mark :: "kind_info_t list \<Rightarrow> (count_arg_t \<times> c2m_state) cct_op_t" where
  "l_count_mark kinds n level g = (case g of (cs, count_arg, s) \<Rightarrow>
    if hpcrun_cct_is_dummy n cs \<and> \<not> ca_count_dummy count_arg then Some g
    else (case hpcrun_get_metric_data_list_specific (Some (ca_cct2metrics_map count_arg)) n s of
      Some (data_list, Some mp, s) \<Rightarrow>
        (case hpcrun_metric_sparse_count kinds data_list of None \<Rightarrow> None
         | Some num_nzval \<Rightarrow>
            (let cs = (if num_nzval \<noteq> 0 \<or> hpcrun_cct_retained n cs then set_display n cs else cs);
                 cs = (case c_parent cs n of Some p \<Rightarrow> if c_display cs n then set_display p cs else cs | None \<Rightarrow> cs)
             in Some (cs, count_arg\<lparr> ca_cct2metrics_map := mp,
                  ca_num_nzval := ca_num_nzval count_arg + num_nzval,
                  ca_num_nz_cct_nodes := ca_num_nz_cct_nodes count_arg + (if num_nzval \<noteq> 0 then 1 else 0),
                  ca_n := ca_n count_arg + (if c_display cs n then 1 else 0) \<rparr>, s)))
    | _ \<Rightarrow> None))"

text \<open>The result is the number of nodes, the map, and the counts of values and of nodes that have some.\<close>

definition hpcrun_cct_num_nz_nodes_and_mark_display :: "kind_info_t list \<Rightarrow> ptr option \<Rightarrow> bool \<Rightarrow> ptr option \<Rightarrow> u64 \<Rightarrow> u32 \<Rightarrow>
    cct_store \<times> c2m_state \<Rightarrow> (u64 \<times> ptr option \<times> u64 \<times> u32 \<times> cct_store \<times> c2m_state) option" where
  "hpcrun_cct_num_nz_nodes_and_mark_display kinds cct count_dummy cct2metrics_map num_nzval num_nz_cct_nodes g =
    (case g of (cs, s) \<Rightarrow>
      (case hpcrun_cct_walk_child_1st_w_level cct (l_count_mark kinds) 0
         (cs, \<lparr> ca_count_dummy = count_dummy, ca_n = 0, ca_cct2metrics_map = cct2metrics_map,
                ca_num_nzval = num_nzval, ca_num_nz_cct_nodes = num_nz_cct_nodes \<rparr>, s) of None \<Rightarrow> None
       | Some (cs, a, s) \<Rightarrow> Some (ca_n a, ca_cct2metrics_map a, ca_num_nzval a, ca_num_nz_cct_nodes a, cs, s)))"

section \<open>Writing\<close>

record write_arg_t =
  wa_fs :: FILE
  wa_cct2metrics_map :: "ptr option"
  wa_values :: "u64 list"
  wa_mids :: "u16 list"
  wa_cct_node_ids :: "u32 list"
  wa_cct_node_idxs :: "u64 list"
  wa_num_nz_cct_nodes :: u32
  wa_cur_cct_node_idx :: u64

definition array_set :: "'a list \<Rightarrow> u32 \<Rightarrow> 'a \<Rightarrow> 'a list option" where
  "array_set xs i v = (if unat i < length xs then Some (xs[unat i := v]) else None)"

definition tmp_node :: "cct_store \<Rightarrow> ptr \<Rightarrow> hpcrun_fmt_cct_node_t" where
  "tmp_node cs node = (let parent = hpcrun_cct_parent (Some node) cs in
     \<lparr> cct_id = hpcrun_cct_persistent_id (Some node) cs,
       cct_id_parent = (if parent \<noteq> None then hpcrun_cct_persistent_id parent cs else 0),
       cct_lm_id = lm_id_of (c_addr cs node), cct_lm_ip = lm_ip_of (c_addr cs node),
       cct_unwound = c_unwound cs node \<rparr>)"

definition lwrite :: "kind_info_t list \<Rightarrow> (write_arg_t \<times> c2m_state) cct_op_t" where
  "lwrite kinds node level g = (case g of (cs, w, s) \<Rightarrow>
    (case hpcrun_get_metric_data_list_specific (Some (wa_cct2metrics_map w)) node s of
       Some (data_list, Some mp, s) \<Rightarrow>
         (case hpcrun_metric_set_sparse_copy (wa_values w) (wa_mids w) kinds data_list (ucast (wa_cur_cct_node_idx w)) of
            None \<Rightarrow> None
          | Some (num_nzval, values, mids) \<Rightarrow>
             (case (if num_nzval \<noteq> 0 then array_set (wa_cct_node_ids w) (wa_num_nz_cct_nodes w) (cct_id (tmp_node cs node))
                    else Some (wa_cct_node_ids w),
                    if num_nzval \<noteq> 0 then array_set (wa_cct_node_idxs w) (wa_num_nz_cct_nodes w) (wa_cur_cct_node_idx w)
                    else Some (wa_cct_node_idxs w)) of
                (Some ids, Some idxs) \<Rightarrow>
                  Some (cs, w\<lparr> wa_cct2metrics_map := mp, wa_values := values, wa_mids := mids,
                     wa_cct_node_ids := ids, wa_cct_node_idxs := idxs,
                     wa_num_nz_cct_nodes := wa_num_nz_cct_nodes w + (if num_nzval \<noteq> 0 then 1 else 0),
                     wa_cur_cct_node_idx := wa_cur_cct_node_idx w + num_nzval,
                     wa_fs := (if c_display cs node then snd (hpcrun_fmt_cct_node_fwrite (tmp_node cs node) (wa_fs w))
                               else wa_fs w) \<rparr>, s)
              | _ \<Rightarrow> None))
     | _ \<Rightarrow> None))"

text \<open>The fields of the sparse metrics that the writer fills in, as its reader has them: arrays of pairs.\<close>

definition sm_filled :: "id_tuple_t \<Rightarrow> u64 \<Rightarrow> write_arg_t \<Rightarrow> hpcrun_fmt_sparse_metrics_t" where
  "sm_filled tuple num_vals w = \<lparr> sm_id_tuple = tuple, sm_num_vals = num_vals,
     sm_num_nz_cct_nodes = wa_num_nz_cct_nodes w, sm_values = zip (wa_values w) (wa_mids w),
     sm_cct_nodes = zip (wa_cct_node_ids w) (wa_cct_node_idxs w) \<rparr>"

definition HPCRUN_OK :: int where "HPCRUN_OK = 1"
definition HPCRUN_ERR :: int where "HPCRUN_ERR = - 1"

definition hpcrun_cct_fwrite :: "kind_info_t list \<Rightarrow> u64 \<Rightarrow> ptr option \<Rightarrow> ptr option \<Rightarrow> FILE option \<Rightarrow> id_tuple_t \<Rightarrow>
    cct_store \<times> c2m_state \<Rightarrow> (int \<times> (hpcrun_fmt_sparse_metrics_t \<times> FILE) option \<times> cct_store \<times> c2m_state) option" where
  "hpcrun_cct_fwrite kinds junk cct2metrics_map cct fs tuple g = (case fs of None \<Rightarrow> Some (HPCRUN_ERR, None, g)
     | Some fs \<Rightarrow>
        (case hpcrun_cct_num_nz_nodes_and_mark_display kinds cct True cct2metrics_map 0 0 g of None \<Rightarrow> None
         | Some (num_nodes, mp, num_nzval, num_nz_cct_nodes, cs, s) \<Rightarrow>
            (case hpcrun_cct_walk_node_1st_w_level cct (lwrite kinds) 0
               (cs, \<lparr> wa_fs = snd (hpcfmt_int8_fwrite num_nodes fs), wa_cct2metrics_map = mp,
                  wa_values = replicate (unat num_nzval) junk, wa_mids = replicate (unat num_nzval) (ucast junk),
                  wa_cct_node_ids = replicate (unat (num_nz_cct_nodes + 1)) (ucast junk),
                  wa_cct_node_idxs = replicate (unat (num_nz_cct_nodes + 1)) junk,
                  wa_num_nz_cct_nodes = 0, wa_cur_cct_node_idx = 0 \<rparr>, s) of None \<Rightarrow> None
             | Some (cs, w, s) \<Rightarrow>
                (case (array_set (wa_cct_node_ids w) num_nz_cct_nodes LastNodeEnd,
                       array_set (wa_cct_node_idxs w) num_nz_cct_nodes (wa_cur_cct_node_idx w)) of
                   (Some ids, Some idxs) \<Rightarrow>
                     (let w = w\<lparr> wa_cct_node_ids := ids, wa_cct_node_idxs := idxs \<rparr>
                      in Some (if wa_num_nz_cct_nodes w \<noteq> num_nz_cct_nodes then HPCRUN_ERR
                               else if wa_cur_cct_node_idx w \<noteq> num_nzval then HPCRUN_ERR else HPCRUN_OK,
                             Some (sm_filled tuple num_nzval w, wa_fs w), cs, s))
                 | _ \<Rightarrow> None))))"

definition hpcrun_cct_bundle_fwrite :: "kind_info_t list \<Rightarrow> u64 \<Rightarrow> FILE option \<Rightarrow> cct_bundle_t \<Rightarrow> ptr option \<Rightarrow> id_tuple_t \<Rightarrow>
    cct_state \<times> c2m_state \<Rightarrow> (int \<times> (hpcrun_fmt_sparse_metrics_t \<times> FILE) option \<times> cct_state \<times> c2m_state) option" where
  "hpcrun_cct_bundle_fwrite kinds junk fs bndl cct2metrics_map tuple g = (case g of (st, s) \<Rightarrow>
    (if fs = None then Some (HPCRUN_ERR, None, g)
     else (case hpcrun_cct_insert_node (b_tree_root bndl) (b_partial_unw_root bndl) st of None \<Rightarrow> None
       | Some (_, st) \<Rightarrow>
          map_option (\<lambda>(r, out, cs, s). (r, out, st\<lparr> st_cct := cs \<rparr>, s))
            (hpcrun_cct_fwrite kinds junk cct2metrics_map (Some (b_top bndl)) fs tuple (st_cct st, s)))))"

section \<open>What the walks do\<close>

text \<open>The values of a node that are not zero, with the numbers of their metrics in the file.\<close>

definition node_values :: "kind_info_t list \<Rightarrow> (ptr \<rightharpoonup> metric_data_list_t) \<Rightarrow> ptr \<Rightarrow> (u64 \<times> nat) list" where
  "node_values kinds M q = nonzeros 0 (mdl_rows 0 kinds (metrics_of M q))"

text \<open>The nodes to write, in the order of the walk: those with values, those a trace refers to, and their ancestors.\<close>

fun kept :: "(ptr \<Rightarrow> bool) \<Rightarrow> sib \<Rightarrow> ptr list" where
  "kept I SNil = []"
| "kept I (SNode l a c r) = kept I l @ kept I r @ (if I a \<or> kept I c \<noteq> [] then a # kept I c else [])"

definition wanted :: "kind_info_t list \<Rightarrow> (ptr \<rightharpoonup> metric_data_list_t) \<Rightarrow> cct_store \<Rightarrow> ptr \<Rightarrow> bool" where
  "wanted kinds M cs q \<longleftrightarrow> node_values kinds M q \<noteq> [] \<or> hpcrun_cct_retained q cs"

lemma set_kept: "set (kept I t) \<subseteq> set (sib_nodes t)"
  by (induction t) auto

text \<open>The store differs from the original one in the marks only.\<close>

interpretation mark: cct_op "l_count_mark kinds"
  by unfold_locales (auto simp: l_count_mark_def set_display_def same_links_def Let_def hpcrun_cct_is_dummy_def
      hpcrun_cct_retained_def split: option.splits if_splits prod.splits)

interpretation wr: cct_op "lwrite kinds"
  by unfold_locales (auto simp: lwrite_def same_links_def tmp_node_def hpcrun_cct_parent_def hpcrun_cct_persistent_id_def Let_def
      split: option.splits if_splits prod.splits)

lemma sib_at_display [simp]: "sib_at (cs\<lparr> c_display := D \<rparr>) par p t \<longleftrightarrow> sib_at cs par p t"
  by (rule sib_at_same_links) (simp add: same_links_def)

lemma wanted_display [simp]: "wanted kinds M (cs\<lparr> c_display := D \<rparr>) = wanted kinds M cs"
  by (simp add: wanted_def fun_eq_iff hpcrun_cct_retained_def)

text \<open>What is needed of the values: they belong to finalized metrics and can be counted with an \<open>int\<close>.\<close>

definition values_ready :: "metrics_state \<Rightarrow> (ptr \<rightharpoonup> metric_data_list_t) \<Rightarrow> bool" where
  "values_ready ms M \<longleftrightarrow> metrics_ready ms \<and> c2m_ok (ms_kinds ms) M \<and> (\<forall>q. length (node_values (ms_kinds ms) M q) < 2 ^ 31)"

lemma get_data_list:
  assumes "c2m_rep s mp M"
  obtains mp' s' where "hpcrun_get_metric_data_list_specific (Some mp) q s = Some (metrics_of M q, Some mp', s')"
    and "c2m_rep s' mp' M"
proof -
  have "c2m_rep s (current_map (Some mp) s) M" using assms by (simp add: current_map_def)
  from get_specific_rep [OF this, of q] obtain mp1 s' where
    "hpcrun_get_metric_data_list_specific (Some mp) q s = Some (metrics_of M q, mp1, s')"
    "c2m_rep s' (current_map mp1 s') M" "mp1 \<noteq> None" by auto
  then show thesis by (intro that [of "the mp1" s']) (auto simp: current_map_def)
qed

lemma sparse_count_node:
  assumes "values_ready ms M"
  shows "hpcrun_metric_sparse_count (ms_kinds ms) (metrics_of M q) = Some (of_nat (length (node_values (ms_kinds ms) M q)))"
    and "(of_nat (length (node_values (ms_kinds ms) M q)) :: u64) = 0 \<longleftrightarrow> node_values (ms_kinds ms) M q = []"
proof -
  have "mdl_ok (ms_kinds ms) (metrics_of M q)" using assms c2m_ok_metrics_of by (auto simp: values_ready_def)
  then show "hpcrun_metric_sparse_count (ms_kinds ms) (metrics_of M q) = Some (of_nat (length (node_values (ms_kinds ms) M q)))"
    using sparse_count_kinds_rows [of "ms_kinds ms" "metrics_of M q" 0]
    by (simp add: hpcrun_metric_sparse_count_def node_values_def length_nonzeros)
  have "length (node_values (ms_kinds ms) M q) < 2 ^ 64"
    using assms by (auto simp: values_ready_def intro: less_trans)
  then show "(of_nat (length (node_values (ms_kinds ms) M q)) :: u64) = 0 \<longleftrightarrow> node_values (ms_kinds ms) M q = []"
    by (auto simp: word_of_nat_eq_0_iff dest: dvd_imp_le)
qed

text \<open>The counts after the nodes \<open>qs\<close>, of which \<open>ks\<close> are marked.\<close>

definition counted_nodes :: "kind_info_t list \<Rightarrow> (ptr \<rightharpoonup> metric_data_list_t) \<Rightarrow> ptr list \<Rightarrow> ptr list \<Rightarrow> ptr option \<Rightarrow>
    count_arg_t \<Rightarrow> count_arg_t" where
  "counted_nodes kinds M ks qs mp a = a\<lparr> ca_cct2metrics_map := mp, ca_n := ca_n a + of_nat (length ks),
     ca_num_nzval := ca_num_nzval a + of_nat (length (concat (map (node_values kinds M) qs))),
     ca_num_nz_cct_nodes := ca_num_nz_cct_nodes a + of_nat (length (filter (\<lambda>q. node_values kinds M q \<noteq> []) qs)) \<rparr>"

definition marks :: "ptr list \<Rightarrow> ptr option \<Rightarrow> (ptr \<Rightarrow> bool) \<Rightarrow> ptr \<Rightarrow> bool" where
  "marks ks par D q \<longleftrightarrow> D q \<or> q \<in> set ks \<or> ks \<noteq> [] \<and> par = Some q"

lemma counted_nodes_append:
  "counted_nodes kinds M ks' qs' mp' (counted_nodes kinds M ks qs mp a) = counted_nodes kinds M (ks @ ks') (qs @ qs') mp' a"
  by (simp add: counted_nodes_def add.assoc)

lemma counted_nodes_simps [simp]:
  "ca_count_dummy (counted_nodes kinds M ks qs mp a) = ca_count_dummy a"
  "ca_cct2metrics_map (counted_nodes kinds M ks qs mp a) = mp"
  by (simp_all add: counted_nodes_def)

lemma count_mark_node:
  assumes v: "values_ready ms M" and rep: "c2m_rep s (ca_cct2metrics_map a) M" and "ca_count_dummy a"
  obtains mp s' where "l_count_mark (ms_kinds ms) q n (cs\<lparr> c_display := D \<rparr>, a, s) =
      Some (cs\<lparr> c_display := marks (if wanted (ms_kinds ms) M cs q \<or> D q then [q] else []) (c_parent cs q) D \<rparr>,
        counted_nodes (ms_kinds ms) M (if wanted (ms_kinds ms) M cs q \<or> D q then [q] else []) [q] mp a, s')"
    and "c2m_rep s' mp M"
proof -
  obtain mp s' where g: "hpcrun_get_metric_data_list_specific (Some (ca_cct2metrics_map a)) q s = Some (metrics_of M q, Some mp, s')"
    "c2m_rep s' mp M" by (rule get_data_list [OF rep])
  have d: "cs\<lparr> c_display := f \<rparr> = cs\<lparr> c_display := f' \<rparr>" if "\<And>x. f x = f' x" for f f' using that by presburger
  have "l_count_mark (ms_kinds ms) q n (cs\<lparr> c_display := D \<rparr>, a, s) =
      Some (cs\<lparr> c_display := marks (if wanted (ms_kinds ms) M cs q \<or> D q then [q] else []) (c_parent cs q) D \<rparr>,
        counted_nodes (ms_kinds ms) M (if wanted (ms_kinds ms) M cs q \<or> D q then [q] else []) [q] mp a, s')"
    using assms(3)
    by (cases "c_parent cs q") (auto simp: l_count_mark_def g sparse_count_node [OF v] Let_def set_display_def wanted_def
        hpcrun_cct_retained_def counted_nodes_def marks_def intro!: d split: if_splits)
  with g(2) show thesis by (rule that [rotated])
qed

lemma marks_append: "marks ks' par (marks ks par D) = marks (ks @ ks') par D"
  by (auto simp: marks_def fun_eq_iff)

lemma marks_node:
  assumes "\<not> D a" and "par \<noteq> Some a"
  shows "marks (if I \<or> marks kc (Some a) D a then [a] else []) par (marks kc (Some a) D) =
      marks (if I \<or> kc \<noteq> [] then a # kc else []) par D"
  and "a \<notin> set kc \<Longrightarrow> marks kc (Some a) D a \<longleftrightarrow> kc \<noteq> []"
  using assms by (auto simp: marks_def fun_eq_iff)

text \<open>The lengths do not depend on the order in which the nodes are counted.\<close>

lemma counted_nodes_mset:
  assumes "mset ks = mset ks'" and "mset qs = mset qs'"
  shows "counted_nodes kinds M ks qs mp a = counted_nodes kinds M ks' qs' mp a"
proof -
  have "length (concat (map f qs)) = sum_mset (image_mset (\<lambda>q. length (f q)) (mset qs))" for f :: "ptr \<Rightarrow> (u64 \<times> nat) list" and qs
    by (induction qs) simp_all
  moreover have "length (filter P qs) = size (filter_mset P (mset qs))" for P and qs :: "ptr list"
    by (metis mset_filter size_mset)
  moreover have "length ks = length ks'" using assms(1) by (metis size_mset)
  ultimately show ?thesis using assms(2) by (simp add: counted_nodes_def)
qed

lemma count_mark_sib:
  assumes v: "values_ready ms M" and "c2m_rep s (ca_cct2metrics_map a) M" and "ca_count_dummy a"
    and "sib_at cs par p t" and "distinct (sib_nodes t)" and "\<forall>q \<in> set (sib_nodes t). \<not> D q \<and> par \<noteq> Some q"
  shows "\<exists>mp s'. run_cct_ops (l_count_mark (ms_kinds ms)) (cct_postorder n t) (cs\<lparr> c_display := D \<rparr>, a, s) =
      Some (cs\<lparr> c_display := marks (kept (wanted (ms_kinds ms) M cs) t) par D \<rparr>,
        counted_nodes (ms_kinds ms) M (kept (wanted (ms_kinds ms) M cs) t) (sib_nodes t) mp a, s') \<and> c2m_rep s' mp M"
  using assms(2-)
proof (induction t arbitrary: n par p D a s)
  case SNil
  have "marks [] par D = D" "counted_nodes (ms_kinds ms) M [] [] (ca_cct2metrics_map a) a = a"
    by (simp_all add: marks_def counted_nodes_def fun_eq_iff)
  with SNil.prems(1) show ?case by (intro exI [of _ "ca_cct2metrics_map a"] exI [of _ s]) simp
next
  case (SNode l b c r)
  let ?I = "wanted (ms_kinds ms) M cs" and ?cnt = "counted_nodes (ms_kinds ms) M"
  let ?run = "\<lambda>vs g. run_cct_ops (l_count_mark (ms_kinds ms)) vs g"
  have at: "sib_at cs par (c_left cs b) l" "sib_at cs par (c_right cs b) r" "sib_at cs (Some b) (c_children cs b) c"
    "c_parent cs b = par" using SNode.prems(3) by auto
  have d: "distinct (sib_nodes l)" "distinct (sib_nodes r)" "distinct (sib_nodes c)"
    "set (sib_nodes l) \<inter> set (sib_nodes r) = {}" "set (sib_nodes l) \<inter> set (sib_nodes c) = {}"
    "set (sib_nodes r) \<inter> set (sib_nodes c) = {}" "b \<notin> set (sib_nodes l) \<union> set (sib_nodes r) \<union> set (sib_nodes c)"
    using SNode.prems(4) by auto
  have D: "\<not> D b" "par \<noteq> Some b" "\<forall>q \<in> set (sib_nodes l) \<union> set (sib_nodes r) \<union> set (sib_nodes c). \<not> D q \<and> par \<noteq> Some q"
    using SNode.prems(5) by auto
  define D1 where "D1 = marks (kept ?I l) par D"
  define D2 where "D2 = marks (kept ?I r) par D1"
  define D3 where "D3 = marks (kept ?I c) (Some b) D2"
  have D1: "\<forall>q \<in> set (sib_nodes r). \<not> D1 q \<and> par \<noteq> Some q" using D(3) d set_kept [of ?I l] by (auto simp: D1_def marks_def)
  have D2: "\<forall>q \<in> set (sib_nodes c). \<not> D2 q \<and> Some b \<noteq> Some q" "\<not> D2 b"
    using D d set_kept [of ?I l] set_kept [of ?I r] by (auto simp: D2_def D1_def marks_def)
  obtain mp1 s1 where 1: "?run (cct_postorder n l) (cs\<lparr> c_display := D \<rparr>, a, s) =
      Some (cs\<lparr> c_display := D1 \<rparr>, ?cnt (kept ?I l) (sib_nodes l) mp1 a, s1)" "c2m_rep s1 mp1 M"
    using SNode.IH(1) [OF SNode.prems(1,2) at(1) d(1), of D n] D(3) unfolding D1_def by blast
  define a1 where "a1 = ?cnt (kept ?I l) (sib_nodes l) mp1 a"
  have a1: "ca_count_dummy a1" "c2m_rep s1 (ca_cct2metrics_map a1) M" using 1(2) SNode.prems(2) by (simp_all add: a1_def)
  obtain mp2 s2 where 2: "?run (cct_postorder n r) (cs\<lparr> c_display := D1 \<rparr>, a1, s1) =
      Some (cs\<lparr> c_display := D2 \<rparr>, ?cnt (kept ?I r) (sib_nodes r) mp2 a1, s2)" "c2m_rep s2 mp2 M"
    using SNode.IH(3) [OF a1(2,1) at(2) d(2) D1, of n] unfolding D2_def by blast
  define a2 where "a2 = ?cnt (kept ?I r) (sib_nodes r) mp2 a1"
  have a2: "ca_count_dummy a2" "c2m_rep s2 (ca_cct2metrics_map a2) M" using 2(2) a1(1) by (simp_all add: a2_def)
  obtain mp3 s3 where 3: "?run (cct_postorder (Suc n) c) (cs\<lparr> c_display := D2 \<rparr>, a2, s2) =
      Some (cs\<lparr> c_display := D3 \<rparr>, ?cnt (kept ?I c) (sib_nodes c) mp3 a2, s3)" "c2m_rep s3 mp3 M"
    using SNode.IH(2) [OF a2(2,1) at(3) d(3) D2(1), of "Suc n"] unfolding D3_def by blast
  define a3 where "a3 = ?cnt (kept ?I c) (sib_nodes c) mp3 a2"
  have a3: "ca_count_dummy a3" "c2m_rep s3 (ca_cct2metrics_map a3) M" using 3(2) a2(1) by (simp_all add: a3_def)
  obtain mp s' where 4: "l_count_mark (ms_kinds ms) b n (cs\<lparr> c_display := D3 \<rparr>, a3, s3) =
      Some (cs\<lparr> c_display := marks (if ?I b \<or> D3 b then [b] else []) (c_parent cs b) D3 \<rparr>,
        ?cnt (if ?I b \<or> D3 b then [b] else []) [b] mp a3, s')" "c2m_rep s' mp M"
    by (rule count_mark_node [OF v a3(2,1)])
  have bc: "b \<notin> set (kept ?I c)" using d(7) set_kept [of ?I c] by auto
  have D3b: "D3 b \<longleftrightarrow> kept ?I c \<noteq> []" unfolding D3_def using marks_node(2) [of D2 b par "kept ?I c"] D2(2) D(2) bc by simp
  have X: "marks (if ?I b \<or> D3 b then [b] else []) (c_parent cs b) D3 = marks (kept ?I (SNode l b c r)) par D"
    using marks_node(1) [of D2 b par "?I b" "kept ?I c"] D2(2) D(2) by (simp add: D3_def at(4) D2_def D1_def marks_append)
  have Y: "?cnt (if ?I b \<or> D3 b then [b] else []) [b] mp a3 = ?cnt (kept ?I (SNode l b c r)) (sib_nodes (SNode l b c r)) mp a"
    unfolding a3_def a2_def a1_def counted_nodes_append D3b by (rule counted_nodes_mset) auto
  have "?run (cct_postorder n (SNode l b c r)) (cs\<lparr> c_display := D \<rparr>, a, s) =
      Some (cs\<lparr> c_display := marks (if ?I b \<or> D3 b then [b] else []) (c_parent cs b) D3 \<rparr>,
        ?cnt (if ?I b \<or> D3 b then [b] else []) [b] mp a3, s')"
    using 1(1) 2(1) 3(1) 4(1) by (simp add: run_cct_ops_append flip: a1_def a2_def a3_def)
  with 4(2) show ?case unfolding X Y by blast
qed

text \<open>The positions at which the values of the nodes that have some start.\<close>

fun starts :: "kind_info_t list \<Rightarrow> (ptr \<rightharpoonup> metric_data_list_t) \<Rightarrow> nat \<Rightarrow> ptr list \<Rightarrow> nat list" where
  "starts kinds M b [] = []"
| "starts kinds M b (q # qs) = (if node_values kinds M q \<noteq> [] then [b] else []) @
     starts kinds M (b + length (node_values kinds M q)) qs"

definition with_values :: "kind_info_t list \<Rightarrow> (ptr \<rightharpoonup> metric_data_list_t) \<Rightarrow> ptr list \<Rightarrow> ptr list" where
  "with_values kinds M qs = filter (\<lambda>q. node_values kinds M q \<noteq> []) qs"

lemma length_starts: "length (starts kinds M b qs) = length (with_values kinds M qs)"
  by (induction qs arbitrary: b) (simp_all add: with_values_def)

text \<open>The state of the writer after the nodes \<open>qs\<close>, from position \<open>b\<close> of the values and \<open>k\<close> of the nodes.\<close>

definition wrote :: "kind_info_t list \<Rightarrow> (ptr \<rightharpoonup> metric_data_list_t) \<Rightarrow> cct_store \<Rightarrow> nat \<Rightarrow> nat \<Rightarrow> ptr list \<Rightarrow> ptr option \<Rightarrow>
    write_arg_t \<Rightarrow> write_arg_t" where
  "wrote kinds M cs b k qs mp w =
    \<lparr> wa_fs = fput (wa_fs w) (concat (map (enc_cct_node \<circ> tmp_node cs) (filter (c_display cs) qs))), wa_cct2metrics_map = mp,
       wa_values = overwrite b (map fst (concat (map (node_values kinds M) qs))) (wa_values w),
       wa_mids = overwrite b (map (of_nat \<circ> snd) (concat (map (node_values kinds M) qs))) (wa_mids w),
       wa_cct_node_ids = overwrite k (map (c_persistent_id cs) (with_values kinds M qs)) (wa_cct_node_ids w),
       wa_cct_node_idxs = overwrite k (map of_nat (starts kinds M b qs)) (wa_cct_node_idxs w),
       wa_num_nz_cct_nodes = of_nat (k + length (with_values kinds M qs)),
       wa_cur_cct_node_idx = of_nat (b + length (concat (map (node_values kinds M) qs))) \<rparr>"

definition can_write :: "kind_info_t list \<Rightarrow> (ptr \<rightharpoonup> metric_data_list_t) \<Rightarrow> cct_store \<Rightarrow> nat \<Rightarrow> nat \<Rightarrow> ptr list \<Rightarrow> write_arg_t \<Rightarrow> bool" where
  "can_write kinds M cs b k qs w \<longleftrightarrow> wa_cur_cct_node_idx w = of_nat b \<and> wa_num_nz_cct_nodes w = of_nat k \<and>
     b + length (concat (map (node_values kinds M) qs)) \<le> length (wa_values w) \<and> length (wa_mids w) = length (wa_values w) \<and>
     length (wa_values w) < 2 ^ 31 \<and>
     k + length (with_values kinds M qs) \<le> length (wa_cct_node_ids w) \<and> length (wa_cct_node_idxs w) = length (wa_cct_node_ids w) \<and>
     length (wa_cct_node_ids w) < 2 ^ 32 \<and>
     room (wa_fs w) (length (concat (map (enc_cct_node \<circ> tmp_node cs) (filter (c_display cs) qs))))"

lemma sparse_copy_node:
  assumes v: "values_ready ms M" and "b + length (node_values (ms_kinds ms) M q) \<le> length vals" "length mids = length vals"
    "length vals < 2 ^ 31"
  shows "hpcrun_metric_set_sparse_copy vals mids (ms_kinds ms) (metrics_of M q) (ucast (of_nat b :: u64)) =
    Some (of_nat (length (node_values (ms_kinds ms) M q)), overwrite b (map fst (node_values (ms_kinds ms) M q)) vals,
      overwrite b (map (of_nat \<circ> snd) (node_values (ms_kinds ms) M q)) mids)"
proof -
  have ok: "mdl_ok (ms_kinds ms) (metrics_of M q)" using v c2m_ok_metrics_of by (auto simp: values_ready_def)
  have b: "b < 2 ^ 31" using assms(2,4) by linarith
  have "(ucast (of_nat b :: u64) :: u32) = of_nat b"
    using b by (simp add: unsigned_of_nat take_bit_nat_eq_self)
  then show ?thesis
    using sparse_copy_kinds_nonzeros [OF ok b, of 0 "ms_kinds ms" 0 0 vals mids] assms
    by (simp add: hpcrun_metric_set_sparse_copy_def node_values_def)
qed

lemma array_set_overwrite:
  assumes "k < length xs" and "length xs < 2 ^ 32"
  shows "array_set xs (of_nat k) x = Some (overwrite k [x] xs)"
proof -
  have "unat (of_nat k :: u32) = k" using assms by (simp add: unat_of_nat take_bit_nat_eq_self)
  with assms show ?thesis by (simp add: array_set_def overwrite_def upd_conv_take_nth_drop)
qed

lemma node_fwrite_put:
  assumes "room fs (length (enc_cct_node x))"
  shows "snd (hpcrun_fmt_cct_node_fwrite x fs) = fput fs (enc_cct_node x)"
  using emitsD [OF cct_node.wr_emits assms] by simp

lemma lwrite_node:
  assumes v: "values_ready ms M" and rep: "c2m_rep s (wa_cct2metrics_map w) M" and can: "can_write (ms_kinds ms) M cs b k [q] w"
  obtains mp s' where "lwrite (ms_kinds ms) q n (cs, w, s) = Some (cs, wrote (ms_kinds ms) M cs b k [q] mp w, s')"
    and "c2m_rep s' mp M"
proof -
  obtain mp s' where g: "hpcrun_get_metric_data_list_specific (Some (wa_cct2metrics_map w)) q s = Some (metrics_of M q, Some mp, s')"
    "c2m_rep s' mp M" by (rule get_data_list [OF rep])
  have c: "wa_cur_cct_node_idx w = of_nat b" "wa_num_nz_cct_nodes w = of_nat k"
    "b + length (node_values (ms_kinds ms) M q) \<le> length (wa_values w)" "length (wa_mids w) = length (wa_values w)"
    "length (wa_values w) < 2 ^ 31" "length (wa_cct_node_idxs w) = length (wa_cct_node_ids w)" "length (wa_cct_node_ids w) < 2 ^ 32"
    "node_values (ms_kinds ms) M q \<noteq> [] \<Longrightarrow> k < length (wa_cct_node_ids w)"
    "c_display cs q \<Longrightarrow> room (wa_fs w) (length (enc_cct_node (tmp_node cs q)))"
    using can by (auto simp: can_write_def with_values_def)
  have "lwrite (ms_kinds ms) q n (cs, w, s) = Some (cs, wrote (ms_kinds ms) M cs b k [q] mp w, s')"
    using sparse_copy_node [OF v c(3,4,5)] sparse_count_node(2) [OF v, of q] c(6-)
    by (auto simp: lwrite_def g(1) c(1,2) array_set_overwrite wrote_def with_values_def node_fwrite_put tmp_node_def
        hpcrun_cct_persistent_id_def Let_def)
  with g(2) show thesis by (rule that [rotated])
qed

lemma wrote_append:
  assumes "can_write kinds M cs b k (qs @ qs') w"
  shows "wrote kinds M cs (b + length (concat (map (node_values kinds M) qs))) (k + length (with_values kinds M qs)) qs' mp'
      (wrote kinds M cs b k qs mp w) = wrote kinds M cs b k (qs @ qs') mp' w"
proof -
  have st: "starts kinds M b (qs @ qs') = starts kinds M b qs @ starts kinds M (b + length (concat (map (node_values kinds M) qs))) qs'"
    by (induction qs arbitrary: b) (simp_all add: add.assoc)
  have ow: "overwrite (i + n) zs (overwrite i ys xs) = overwrite i (ys @ zs) xs"
    if "n = length ys" "i + length ys \<le> length xs" for i n and ys zs xs :: "'x list" using overwrite_overwrite that by metis
  show ?thesis
    using assms
    by (simp add: wrote_def with_values_def can_write_def st ow length_starts [unfolded with_values_def])
qed

lemma can_write_split:
  assumes "can_write kinds M cs b k (qs @ qs') w"
  shows "can_write kinds M cs b k qs w"
    and "can_write kinds M cs (b + length (concat (map (node_values kinds M) qs))) (k + length (with_values kinds M qs)) qs'
      (wrote kinds M cs b k qs mp w)"
  using assms by (auto simp: can_write_def wrote_def with_values_def room_append length_starts [unfolded with_values_def])

lemma lwrite_run:
  assumes v: "values_ready ms M" and "c2m_rep s (wa_cct2metrics_map w) M" and "can_write (ms_kinds ms) M cs b k (map fst vs) w"
  shows "\<exists>mp s'. run_cct_ops (lwrite (ms_kinds ms)) vs (cs, w, s) = Some (cs, wrote (ms_kinds ms) M cs b k (map fst vs) mp w, s') \<and>
    c2m_rep s' mp M"
  using assms(2,3)
proof (induction vs arbitrary: b k w s)
  case Nil
  have "wrote (ms_kinds ms) M cs b k [] (wa_cct2metrics_map w) w = w"
    using Nil.prems(2) by (simp add: wrote_def with_values_def can_write_def)
  with Nil.prems(1) show ?case by (intro exI [of _ "wa_cct2metrics_map w"] exI [of _ s]) simp
next
  case (Cons y vs)
  obtain q n where y: "y = (q, n)" by (cases y)
  have can: "can_write (ms_kinds ms) M cs b k ([q] @ map fst vs) w" using Cons.prems(2) by (simp add: y)
  obtain mp1 s1 where 1: "lwrite (ms_kinds ms) q n (cs, w, s) = Some (cs, wrote (ms_kinds ms) M cs b k [q] mp1 w, s1)"
    "c2m_rep s1 mp1 M" by (rule lwrite_node [OF v Cons.prems(1) can_write_split(1) [OF can]])
  have "c2m_rep s1 (wa_cct2metrics_map (wrote (ms_kinds ms) M cs b k [q] mp1 w)) M" using 1(2) by (simp add: wrote_def)
  from Cons.IH [OF this can_write_split(2) [OF can]] wrote_append [OF can] 1(1) show ?case
    by (simp add: y)
qed

section \<open>The whole section\<close>

definition cct_nodes :: "ptr \<Rightarrow> sib \<Rightarrow> ptr list" where
  "cct_nodes cct c = cct # sib_nodes c"

definition kept_nodes :: "(ptr \<Rightarrow> bool) \<Rightarrow> ptr \<Rightarrow> sib \<Rightarrow> ptr list" where
  "kept_nodes I cct c = (if I cct \<or> kept I c \<noteq> [] then cct # kept I c else [])"

definition sm_of :: "kind_info_t list \<Rightarrow> (ptr \<rightharpoonup> metric_data_list_t) \<Rightarrow> cct_store \<Rightarrow> id_tuple_t \<Rightarrow> ptr list \<Rightarrow> hpcrun_fmt_sparse_metrics_t" where
  "sm_of kinds M cs tuple qs =
    (let vs = concat (map (node_values kinds M) qs); ws = with_values kinds M qs in
     \<lparr> sm_id_tuple = tuple, sm_num_vals = of_nat (length vs), sm_num_nz_cct_nodes = of_nat (length ws),
       sm_values = map (\<lambda>(v, i). (v, of_nat i)) vs,
       sm_cct_nodes = zip (map (c_persistent_id cs) ws @ [LastNodeEnd]) (map of_nat (starts kinds M 0 qs @ [length vs])) \<rparr>)"

lemma preorder_nodes: "map fst (cct_preorder n t) = sib_nodes t"
  by (induction t arbitrary: n) simp_all

lemma filter_kept:
  "distinct (sib_nodes t) \<Longrightarrow> filter (\<lambda>q. q \<in> set (kept I t)) (sib_nodes t) = kept I t"
proof (induction t)
  case (SNode l a c r)
  define P where "P q \<longleftrightarrow> q \<in> set (kept I (SNode l a c r))" for q
  have d: "distinct (sib_nodes l)" "distinct (sib_nodes r)" "distinct (sib_nodes c)" using SNode.prems by auto
  have out: "x \<notin> set (kept I t)" if "x \<in> set (sib_nodes t')" "set (sib_nodes t') \<inter> set (sib_nodes t) = {}" for x t t'
    using that set_kept [of I t] by blast
  have al: "a \<notin> set (kept I l)" "a \<notin> set (kept I r)" using SNode.prems set_kept [of I l] set_kept [of I r] by auto
  have dis: "set (sib_nodes l) \<inter> set (sib_nodes r) = {}" "set (sib_nodes l) \<inter> set (sib_nodes c) = {}"
    "set (sib_nodes r) \<inter> set (sib_nodes l) = {}" "set (sib_nodes r) \<inter> set (sib_nodes c) = {}"
    "set (sib_nodes c) \<inter> set (sib_nodes l) = {}" "set (sib_nodes c) \<inter> set (sib_nodes r) = {}" using SNode.prems by auto
  have "P x \<longleftrightarrow> x \<in> set (kept I l)" if "x \<in> set (sib_nodes l)" for x
    using out [OF that dis(1)] out [OF that dis(2)] that SNode.prems by (auto simp: P_def)
  moreover have "P x \<longleftrightarrow> x \<in> set (kept I r)" if "x \<in> set (sib_nodes r)" for x
    using out [OF that dis(3)] out [OF that dis(4)] that SNode.prems by (auto simp: P_def)
  moreover have "P x \<longleftrightarrow> x \<in> set (kept I c)" if "x \<in> set (sib_nodes c)" for x
    using out [OF that dis(5)] out [OF that dis(6)] that SNode.prems by (auto simp: P_def)
  ultimately have "filter P (sib_nodes l) = filter (\<lambda>q. q \<in> set (kept I l)) (sib_nodes l)"
    "filter P (sib_nodes r) = filter (\<lambda>q. q \<in> set (kept I r)) (sib_nodes r)"
    "filter P (sib_nodes c) = filter (\<lambda>q. q \<in> set (kept I c)) (sib_nodes c)" by (auto cong: filter_cong)
  moreover have "P a \<longleftrightarrow> I a \<or> kept I c \<noteq> []" using al by (simp add: P_def)
  ultimately show ?case unfolding P_def [symmetric] using SNode.IH d by simp
qed simp

text \<open>The memory that \<open>hpcrun_cct_fwrite\<close> allocates is overwritten completely.\<close>

lemma overwrite_all: "length ys = length xs \<Longrightarrow> overwrite 0 ys xs = ys"
  by (simp add: overwrite_def)

lemma overwrite_all_but_one: "length xs = Suc (length ys) \<Longrightarrow> overwrite (length ys) [y] (overwrite 0 ys xs) = ys @ [y]"
  using overwrite_overwrite [of 0 ys xs "[y]"] overwrite_all [of "ys @ [y]" xs] by simp

definition writable :: "metrics_state \<Rightarrow> (ptr \<rightharpoonup> metric_data_list_t) \<Rightarrow> cct_store \<Rightarrow> ptr \<Rightarrow> sib \<Rightarrow> bool" where
  "writable ms M cs cct c \<longleftrightarrow> cct_at cs cct c \<and> c_parent cs cct = None \<and> (\<forall>q \<in> set (cct_nodes cct c). \<not> c_display cs q) \<and>
     values_ready ms M \<and> length (concat (map (node_values (ms_kinds ms) M) (cct_nodes cct c))) < 2 ^ 31 \<and>
     Suc (length (cct_nodes cct c)) < 2 ^ 32"

lemma mark_display_run:
  assumes w: "writable ms M cs cct c" and rep: "c2m_rep s mp M"
  defines "ks \<equiv> kept_nodes (wanted (ms_kinds ms) M cs) cct c"
  obtains mp' s' where "hpcrun_cct_num_nz_nodes_and_mark_display (ms_kinds ms) (Some cct) True mp 0 0 (cs, s) =
      Some (of_nat (length ks), mp', of_nat (length (concat (map (node_values (ms_kinds ms) M) (cct_nodes cct c)))),
        of_nat (length (with_values (ms_kinds ms) M (cct_nodes cct c))), cs\<lparr> c_display := marks ks None (c_display cs) \<rparr>, s')"
    and "c2m_rep s' mp' M"
proof -
  let ?I = "wanted (ms_kinds ms) M cs" and ?cnt = "counted_nodes (ms_kinds ms) M"
  define a where "a = \<lparr> ca_count_dummy = True, ca_n = 0, ca_cct2metrics_map = mp, ca_num_nzval = 0, ca_num_nz_cct_nodes = 0 \<rparr>"
  have W: "cct_at cs cct c" "c_parent cs cct = None" "\<forall>q \<in> set (cct_nodes cct c). \<not> c_display cs q" "values_ready ms M"
    using w by (simp_all add: writable_def)
  have at: "sib_at cs (Some cct) (c_children cs cct) c" "distinct (sib_nodes c)" "cct \<notin> set (sib_nodes c)"
    using W(1) by (simp_all add: cct_at_def)
  have a: "ca_count_dummy a" "c2m_rep s (ca_cct2metrics_map a) M" using rep by (simp_all add: a_def)
  have D: "\<forall>q \<in> set (sib_nodes c). \<not> c_display cs q \<and> Some cct \<noteq> Some q" using W(3) at(3) by (auto simp: cct_nodes_def)
  define D1 where "D1 = marks (kept ?I c) (Some cct) (c_display cs)"
  obtain mp1 s1 where 1: "run_cct_ops (l_count_mark (ms_kinds ms)) (cct_postorder 1 c) (cs, a, s) =
      Some (cs\<lparr> c_display := D1 \<rparr>, ?cnt (kept ?I c) (sib_nodes c) mp1 a, s1)" "c2m_rep s1 mp1 M"
    using count_mark_sib [OF W(4) a(2,1) at(1,2) D, of 1] unfolding D1_def by auto
  define a1 where "a1 = ?cnt (kept ?I c) (sib_nodes c) mp1 a"
  have a1: "ca_count_dummy a1" "c2m_rep s1 (ca_cct2metrics_map a1) M" using 1(2) a(1) by (simp_all add: a1_def)
  obtain mp2 s2 where 2: "l_count_mark (ms_kinds ms) cct 0 (cs\<lparr> c_display := D1 \<rparr>, a1, s1) =
      Some (cs\<lparr> c_display := marks (if ?I cct \<or> D1 cct then [cct] else []) (c_parent cs cct) D1 \<rparr>,
        ?cnt (if ?I cct \<or> D1 cct then [cct] else []) [cct] mp2 a1, s2)" "c2m_rep s2 mp2 M"
    by (rule count_mark_node [OF W(4) a1(2,1)])
  have cc: "\<not> c_display cs cct" "cct \<notin> set (kept ?I c)" using W(3) at(3) set_kept [of ?I c] by (auto simp: cct_nodes_def)
  have D1c: "D1 cct \<longleftrightarrow> kept ?I c \<noteq> []" using cc marks_node(2) [of "c_display cs" cct None "kept ?I c"] by (simp add: D1_def)
  have X: "marks (if ?I cct \<or> D1 cct then [cct] else []) (c_parent cs cct) D1 = marks ks None (c_display cs)"
    using marks_node(1) [of "c_display cs" cct None "?I cct" "kept ?I c"] cc(1)
    by (simp add: D1_def W(2) ks_def kept_nodes_def)
  have Y: "?cnt (if ?I cct \<or> D1 cct then [cct] else []) [cct] mp2 a1 = ?cnt ks (cct_nodes cct c) mp2 a"
    unfolding a1_def counted_nodes_append D1c ks_def kept_nodes_def cct_nodes_def by (rule counted_nodes_mset) auto
  have "run_cct_ops (l_count_mark (ms_kinds ms)) (cct_postorder (Suc 0) c @ [(cct, 0)]) (cs, a, s) =
      Some (cs\<lparr> c_display := marks ks None (c_display cs) \<rparr>, ?cnt ks (cct_nodes cct c) mp2 a, s2)"
    using 1(1) 2(1) unfolding X Y by (simp add: run_cct_ops_append flip: a1_def)
  then have "hpcrun_cct_num_nz_nodes_and_mark_display (ms_kinds ms) (Some cct) True mp 0 0 (cs, s) =
      Some (of_nat (length ks), mp2, of_nat (length (concat (map (node_values (ms_kinds ms) M) (cct_nodes cct c)))),
        of_nat (length (with_values (ms_kinds ms) M (cct_nodes cct c))), cs\<lparr> c_display := marks ks None (c_display cs) \<rparr>, s2)"
    unfolding hpcrun_cct_num_nz_nodes_and_mark_display_def prod.case mark.walk_child_1st [OF W(1)] a_def [symmetric]
    by (simp add: restore_previous_def counted_nodes_def a_def with_values_def)
  with 2(2) show thesis by (rule that [rotated])
qed

lemma fwrite_walk:
  assumes w: "writable ms M cs cct c" and rep: "c2m_rep s mp M"
    and arr: "length vals = length (concat (map (node_values (ms_kinds ms) M) (cct_nodes cct c)))" "length mids = length vals"
      "length ids = Suc (length (with_values (ms_kinds ms) M (cct_nodes cct c)))" "length idxs = length ids"
  defines "ks \<equiv> kept_nodes (wanted (ms_kinds ms) M cs) cct c"
  assumes room: "room fs (length (concat (map (enc_cct_node \<circ> tmp_node cs) ks)))"
  defines "cs1 \<equiv> cs\<lparr> c_display := marks ks None (c_display cs) \<rparr>"
    and "w0 \<equiv> \<lparr> wa_fs = fs, wa_cct2metrics_map = mp, wa_values = vals, wa_mids = mids, wa_cct_node_ids = ids,
      wa_cct_node_idxs = idxs, wa_num_nz_cct_nodes = 0, wa_cur_cct_node_idx = 0 \<rparr>"
  shows "\<exists>mp' s'. hpcrun_cct_walk_node_1st_w_level (Some cct) (lwrite (ms_kinds ms)) 0 (cs1, w0, s) =
      Some (cs1, wrote (ms_kinds ms) M cs1 0 0 (cct_nodes cct c) mp' w0, s') \<and> c2m_rep s' mp' M"
    and "wa_fs (wrote (ms_kinds ms) M cs1 0 0 (cct_nodes cct c) mp' w0) = fput fs (concat (map (enc_cct_node \<circ> tmp_node cs) ks))"
proof -
  have W: "cct_at cs cct c" "\<forall>q \<in> set (cct_nodes cct c). \<not> c_display cs q" "values_ready ms M"
    and len: "length (concat (map (node_values (ms_kinds ms) M) (cct_nodes cct c))) < 2 ^ 31" "Suc (length (cct_nodes cct c)) < 2 ^ 32"
    using w by (simp_all add: writable_def)
  have at: "cct_at cs1 cct c" using W(1) by (simp add: cs1_def cct_at_def)
  have tmp: "tmp_node cs1 = tmp_node cs" by (simp add: cs1_def tmp_node_def fun_eq_iff hpcrun_cct_parent_def hpcrun_cct_persistent_id_def
      Let_def split: option.split)
  have d: "distinct (sib_nodes c)" "cct \<notin> set (sib_nodes c)" using W(1) by (simp_all add: cct_at_def)
  have disp: "c_display cs1 q \<longleftrightarrow> q \<in> set ks" if "q \<in> set (cct_nodes cct c)" for q
    using W(2) that by (simp add: cs1_def marks_def)
  have "filter (\<lambda>q. q \<in> set ks) (sib_nodes c) = kept (wanted (ms_kinds ms) M cs) c"
  proof -
    have "filter (\<lambda>q. q \<in> set ks) (sib_nodes c) = filter (\<lambda>q. q \<in> set (kept (wanted (ms_kinds ms) M cs) c)) (sib_nodes c)"
      using d(2) by (intro filter_cong) (auto simp: ks_def kept_nodes_def)
    then show ?thesis using filter_kept [OF d(1)] by simp
  qed
  then have "filter (\<lambda>q. q \<in> set ks) (cct_nodes cct c) = ks"
    using d(2) set_kept [of "wanted (ms_kinds ms) M cs" c] by (auto simp: cct_nodes_def ks_def kept_nodes_def)
  then have ks: "filter (c_display cs1) (cct_nodes cct c) = ks" using disp by (metis (mono_tags, lifting) filter_cong)
  have "length (with_values (ms_kinds ms) M (cct_nodes cct c)) \<le> length (cct_nodes cct c)" by (simp add: with_values_def)
  then have can: "can_write (ms_kinds ms) M cs1 0 0 (cct_nodes cct c) w0"
    using arr len room by (simp add: can_write_def ks tmp w0_def)
  have nodes: "map fst ((cct, 0) # cct_preorder (Suc 0) c) = cct_nodes cct c" by (simp add: cct_nodes_def preorder_nodes)
  have rep0: "c2m_rep s (wa_cct2metrics_map w0) M" using rep by (simp add: w0_def)
  obtain mp1 s1 where "run_cct_ops (lwrite (ms_kinds ms)) ((cct, 0) # cct_preorder (Suc 0) c) (cs1, w0, s) =
      Some (cs1, wrote (ms_kinds ms) M cs1 0 0 (cct_nodes cct c) mp1 w0, s1)" "c2m_rep s1 mp1 M"
    using lwrite_run [OF W(3) rep0 can [folded nodes]] unfolding nodes by blast
  then show "\<exists>mp' s'. hpcrun_cct_walk_node_1st_w_level (Some cct) (lwrite (ms_kinds ms)) 0 (cs1, w0, s) =
      Some (cs1, wrote (ms_kinds ms) M cs1 0 0 (cct_nodes cct c) mp' w0, s') \<and> c2m_rep s' mp' M"
    unfolding wr.walk_node_1st [OF at] by (intro exI [of _ mp1] exI [of _ s1]) (simp add: restore_previous_def)
  show "wa_fs (wrote (ms_kinds ms) M cs1 0 0 (cct_nodes cct c) mp' w0) = fput fs (concat (map (enc_cct_node \<circ> tmp_node cs) ks))"
    by (simp add: wrote_def ks tmp w0_def)
qed

lemma array_set_last:
  assumes "length xs = Suc (length ys)" and "Suc (length ys) < 2 ^ 32"
  shows "array_set (overwrite 0 ys xs) (of_nat (length ys)) y = Some (ys @ [y])"
  using array_set_overwrite [of "length ys" "overwrite 0 ys xs" y] overwrite_all_but_one [of xs ys y] assms by simp

lemma zip_map_split: "zip (map fst vs) (map (f \<circ> snd) vs) = map (\<lambda>(v, i). (v, f i)) vs"
  by (induction vs) auto

lemma cct_fwrite_run:
  assumes w: "writable ms M cs cct c" and rep: "c2m_rep s mp M"
  defines "ks \<equiv> kept_nodes (wanted (ms_kinds ms) M cs) cct c"
  assumes room: "room fs (length (enc_cct (map (tmp_node cs) ks)))"
  shows "\<exists>s' mp'. hpcrun_cct_fwrite (ms_kinds ms) junk mp (Some cct) (Some fs) tuple (cs, s) =
    Some (HPCRUN_OK, Some (sm_of (ms_kinds ms) M cs tuple (cct_nodes cct c), fput fs (enc_cct (map (tmp_node cs) ks))),
      cs\<lparr> c_display := marks ks None (c_display cs) \<rparr>, s') \<and> c2m_rep s' mp' M"
proof -
  let ?qs = "cct_nodes cct c" and ?cs = "cs\<lparr> c_display := marks ks None (c_display cs) \<rparr>"
  define vs where "vs = concat (map (node_values (ms_kinds ms) M) ?qs)"
  define ws where "ws = with_values (ms_kinds ms) M ?qs"
  have "length ws \<le> length ?qs" by (simp add: ws_def with_values_def)
  then have len: "length vs < 2 ^ 31" "Suc (length ws) < 2 ^ 32" using w by (simp_all add: writable_def vs_def)
  obtain mp1 s1 where 1: "hpcrun_cct_num_nz_nodes_and_mark_display (ms_kinds ms) (Some cct) True mp 0 0 (cs, s) =
      Some (of_nat (length ks), mp1, of_nat (length vs), of_nat (length ws), ?cs, s1)" "c2m_rep s1 mp1 M"
    using mark_display_run [OF w rep] unfolding ks_def vs_def ws_def by blast
  have n: "unat (of_nat (length vs) :: u64) = length vs" "unat ((of_nat (length ws) :: u32) + 1) = Suc (length ws)"
    using len by (simp_all add: unat_of_nat take_bit_nat_eq_self unat_word_ariths)
  define w0 where "w0 = \<lparr> wa_fs = fput fs (enc_int8 (of_nat (length ks))), wa_cct2metrics_map = mp1,
    wa_values = replicate (length vs) junk, wa_mids = replicate (length vs) (ucast junk),
    wa_cct_node_ids = replicate (Suc (length ws)) (ucast junk), wa_cct_node_idxs = replicate (Suc (length ws)) junk,
    wa_num_nz_cct_nodes = 0, wa_cur_cct_node_idx = 0 \<rparr>"
  have r: "room fs (length (enc_int8 (of_nat (length ks))))"
    "room (fput fs (enc_int8 (of_nat (length ks)))) (length (concat (map (enc_cct_node \<circ> tmp_node cs) ks)))"
    using room by (simp_all add: enc_cct_def room_def)
  have head: "snd (hpcfmt_int8_fwrite (of_nat (length ks)) fs) = fput fs (enc_int8 (of_nat (length ks)))"
    using emitsD [OF int8.wr_emits r(1)] by simp
  obtain mp2 s2 where 2: "hpcrun_cct_walk_node_1st_w_level (Some cct) (lwrite (ms_kinds ms)) 0 (?cs, w0, s1) =
      Some (?cs, wrote (ms_kinds ms) M ?cs 0 0 ?qs mp2 w0, s2)" "c2m_rep s2 mp2 M"
    using fwrite_walk(1) [OF w 1(2), of "wa_values w0" "wa_mids w0" "wa_cct_node_ids w0" "wa_cct_node_idxs w0" "wa_fs w0"] r(2)
    by (simp add: w0_def vs_def ws_def ks_def) blast
  have fs: "wa_fs (wrote (ms_kinds ms) M ?cs 0 0 ?qs mp2 w0) = fput fs (enc_cct (map (tmp_node cs) ks))"
    using fwrite_walk(2) [OF w 1(2), of "wa_values w0" "wa_mids w0" "wa_cct_node_ids w0" "wa_cct_node_idxs w0" "wa_fs w0" mp2] r(2)
    by (simp add: w0_def vs_def ws_def ks_def enc_cct_def)
  define w1 where "w1 = wrote (ms_kinds ms) M ?cs 0 0 ?qs mp2 w0"
  have w1: "wa_values w1 = map fst vs" "wa_mids w1 = map (of_nat \<circ> snd) vs"
    "wa_cct_node_ids w1 = overwrite 0 (map (c_persistent_id cs) ws) (replicate (Suc (length ws)) (ucast junk))"
    "wa_cct_node_idxs w1 = overwrite 0 (map of_nat (starts (ms_kinds ms) M 0 ?qs)) (replicate (Suc (length ws)) junk)"
    "wa_num_nz_cct_nodes w1 = of_nat (length ws)" "wa_cur_cct_node_idx w1 = of_nat (length vs)"
    by (simp_all add: w1_def wrote_def w0_def vs_def [symmetric] ws_def [symmetric] overwrite_all)
  have st: "length (starts (ms_kinds ms) M 0 ?qs) = length ws" by (simp add: length_starts ws_def)
  have ids: "array_set (wa_cct_node_ids w1) (of_nat (length ws)) LastNodeEnd = Some (map (c_persistent_id cs) ws @ [LastNodeEnd])"
    "array_set (wa_cct_node_idxs w1) (of_nat (length ws)) (of_nat (length vs)) =
      Some (map of_nat (starts (ms_kinds ms) M 0 ?qs @ [length vs]))"
    using array_set_last [of "replicate (Suc (length ws)) (ucast junk)" "map (c_persistent_id cs) ws" LastNodeEnd]
      array_set_last [of "replicate (Suc (length ws)) junk" "map of_nat (starts (ms_kinds ms) M 0 ?qs)" "of_nat (length vs)"]
      len(2) st unfolding w1 by simp_all
  have "hpcrun_cct_fwrite (ms_kinds ms) junk mp (Some cct) (Some fs) tuple (cs, s) =
    Some (HPCRUN_OK, Some (sm_of (ms_kinds ms) M cs tuple ?qs, fput fs (enc_cct (map (tmp_node cs) ks))), ?cs, s2)"
    unfolding hpcrun_cct_fwrite_def option.case 1(1) prod.case head n w0_def [symmetric] 2(1) w1_def [symmetric] w1(6) ids
    using fs [folded w1_def]
    by (simp add: w1 sm_filled_def sm_of_def Let_def zip_map_split vs_def [symmetric] ws_def [symmetric])
  with 2(2) show ?thesis by blast
qed

text \<open>What the section means to its reader.\<close>

lemma starts_first: "(starts kinds M b qs @ [b + length (concat (map (node_values kinds M) qs))]) ! 0 = b"
  by (induction qs arbitrary: b) auto

lemma starts_block:
  assumes "i < length (with_values kinds M qs)"
  defines "S \<equiv> \<lambda>b qs. starts kinds M b qs @ [b + length (concat (map (node_values kinds M) qs))]"
  shows "b \<le> S b qs ! i \<and> S b qs ! i \<le> S b qs ! Suc i \<and>
    take (S b qs ! Suc i - S b qs ! i) (drop (S b qs ! i - b) (concat (map (node_values kinds M) qs))) =
      node_values kinds M (with_values kinds M qs ! i)"
  using assms(1)
proof (induction qs arbitrary: b i)
  case (Cons q qs)
  show ?case
  proof (cases "node_values kinds M q = []")
    case True
    then show ?thesis using Cons.IH [of i b] Cons.prems by (simp add: S_def with_values_def)
  next
    case False
    let ?b = "b + length (node_values kinds M q)"
    have S: "S b (q # qs) = b # S ?b qs" using False by (simp add: S_def add.assoc)
    show ?thesis
    proof (cases i)
      case 0
      then show ?thesis using starts_first [of kinds M ?b qs] False unfolding S by (simp add: S_def with_values_def)
    next
      case (Suc j)
      have j: "j < length (with_values kinds M qs)" using Cons.prems Suc False by (simp add: with_values_def)
      have "S b (q # qs) ! i = S ?b qs ! j" "S b (q # qs) ! Suc i = S ?b qs ! Suc j" unfolding S Suc by simp_all
      with Cons.IH [OF j, of ?b] Suc False show ?thesis by (auto simp: with_values_def)
    qed
  qed
qed (simp add: with_values_def)

lemma starts_le: "x \<in> set (starts kinds M b qs) \<Longrightarrow> b \<le> x \<and> x \<le> b + length (concat (map (node_values kinds M) qs))"
  by (induction qs arbitrary: b) (fastforce split: if_splits)+

lemma sorted_starts: "sorted (starts kinds M b qs @ [b + length (concat (map (node_values kinds M) qs))])"
proof (induction qs arbitrary: b)
  case (Cons q qs)
  from Cons.IH [of "b + length (node_values kinds M q)"] show ?case
    using starts_le [of _ kinds M "b + length (node_values kinds M q)" qs] by (force simp: sorted_append add.assoc)
qed simp

text \<open>The identifiers are positive as signed numbers, and the numbers of the metrics fit in 16 bits.\<close>

definition file_ids_ok :: "kind_info_t list \<Rightarrow> (ptr \<rightharpoonup> metric_data_list_t) \<Rightarrow> cct_store \<Rightarrow> ptr list \<Rightarrow> bool" where
  "file_ids_ok kinds M cs qs \<longleftrightarrow> (\<forall>q \<in> set qs. 0 < sint (c_persistent_id cs q)) \<and>
     (\<forall>q \<in> set qs. \<forall>(v, i) \<in> set (node_values kinds M q). i < 2 ^ 16 - 1) \<and> 12 * Suc (length qs) < 2 ^ 32"

lemma sm_of_lists:
  assumes "length (concat (map (node_values kinds M) qs)) < 2 ^ 31" and "Suc (length qs) < 2 ^ 32"
  defines "ws \<equiv> with_values kinds M qs" and "S \<equiv> starts kinds M 0 qs @ [length (concat (map (node_values kinds M) qs))]"
  shows "length (sm_cct_nodes (sm_of kinds M cs tuple qs)) = Suc (length ws)" and "length S = Suc (length ws)"
    and "map (\<lambda>p. unat (snd p)) (sm_cct_nodes (sm_of kinds M cs tuple qs)) = S"
    and "map fst (sm_cct_nodes (sm_of kinds M cs tuple qs)) = map (c_persistent_id cs) ws @ [LastNodeEnd]"
    and "unat (sm_num_nz_cct_nodes (sm_of kinds M cs tuple qs)) = length ws"
    and "unat (sm_num_nz_cct_nodes (sm_of kinds M cs tuple qs) + 1) = Suc (length ws)"
    and "unat (sm_num_vals (sm_of kinds M cs tuple qs)) = length (concat (map (node_values kinds M) qs))"
proof -
  have ws: "length ws \<le> length qs" by (simp add: ws_def with_values_def)
  show S: "length S = Suc (length ws)" by (simp add: S_def ws_def length_starts)
  then have z: "map fst (sm_cct_nodes (sm_of kinds M cs tuple qs)) = map (c_persistent_id cs) ws @ [LastNodeEnd]"
    "map snd (sm_cct_nodes (sm_of kinds M cs tuple qs)) = map of_nat S"
    by (simp_all add: sm_of_def Let_def ws_def S_def)
  then show "map fst (sm_cct_nodes (sm_of kinds M cs tuple qs)) = map (c_persistent_id cs) ws @ [LastNodeEnd]" by simp
  from arg_cong [OF z(2), of length] S show "length (sm_cct_nodes (sm_of kinds M cs tuple qs)) = Suc (length ws)" by simp
  have "x < 2 ^ 64" if "x \<in> set S" for x using that assms(1) starts_le [of x kinds M 0 qs] by (auto simp: S_def)
  then have "map (unat \<circ> (of_nat :: nat \<Rightarrow> u64)) S = S" by (intro map_idI) (simp add: unat_of_nat)
  with arg_cong [OF z(2), of "map unat"] show "map (\<lambda>p. unat (snd p)) (sm_cct_nodes (sm_of kinds M cs tuple qs)) = S"
    by (simp add: comp_def)
  show "unat (sm_num_nz_cct_nodes (sm_of kinds M cs tuple qs)) = length ws"
    "unat (sm_num_nz_cct_nodes (sm_of kinds M cs tuple qs) + 1) = Suc (length ws)"
    using assms(2) ws by (simp_all add: sm_of_def Let_def ws_def unat_of_nat take_bit_nat_eq_self unat_word_ariths)
  show "unat (sm_num_vals (sm_of kinds M cs tuple qs)) = length (concat (map (node_values kinds M) qs))"
    using assms(1) by (simp add: sm_of_def Let_def unat_of_nat take_bit_nat_eq_self)
qed

definition block :: "kind_info_t list \<Rightarrow> (ptr \<rightharpoonup> metric_data_list_t) \<Rightarrow> cct_store \<Rightarrow> ptr \<Rightarrow> int \<times> (u64 \<times> int) list" where
  "block kinds M cs q = (sint (c_persistent_id cs q), map (\<lambda>(v, i). (v, int i + 1)) (node_values kinds M q))"

lemma metric_number: "i < 2 ^ 16 - 1 \<Longrightarrow> uint ((of_nat i :: u16) + 1) = int i + 1"
  by (simp add: uint_nat unat_word_ariths unat_of_nat take_bit_nat_eq_self)

lemma sm_of_readable:
  assumes len: "length (concat (map (node_values kinds M) qs)) < 2 ^ 31" "Suc (length qs) < 2 ^ 32" and ids: "file_ids_ok kinds M cs qs"
    and tuple: "unat (tuple_length tuple) \<le> length (tuple_ids tuple)"
  shows "sm_readable (sm_of kinds M cs tuple qs)"
    and "map (block_of (sm_of kinds M cs tuple qs)) [0..<length (with_values kinds M qs)] = map (block kinds M cs) (with_values kinds M qs)"
proof -
  let ?x = "sm_of kinds M cs tuple qs" and ?vs = "concat (map (node_values kinds M) qs)"
  define ws S where "ws = with_values kinds M qs" and "S = starts kinds M 0 qs @ [length ?vs]"
  note L = sm_of_lists [OF len, folded ws_def S_def]
  have ws: "set ws \<subseteq> set qs" "length ws \<le> length qs" by (auto simp: ws_def with_values_def)
  have S: "map (\<lambda>p. unat (snd p)) (sm_cct_nodes ?x) ! i = S ! i" for i using L(3) by simp
  have nth: "unat (snd (sm_cct_nodes ?x ! i)) = S ! i" if "i \<le> length ws" for i
    using S [of i] that L(1) by simp
  have ne: "sm_cct_nodes ?x \<noteq> []" using L(1) [of cs tuple] by auto
  have "last (map (\<lambda>p. unat (snd p)) (sm_cct_nodes ?x)) = last S" using L(3) by simp
  then have last: "unat (snd (last (sm_cct_nodes ?x))) = length ?vs" using ne by (simp add: last_map S_def)
  have sort: "sorted (map (\<lambda>p. unat (snd p)) (sm_cct_nodes ?x))"
    using sorted_starts [of kinds M 0 qs] unfolding L(3) by (simp add: S_def)
  have vals: "sm_values ?x = map (\<lambda>(v, i). (v, of_nat i)) ?vs" "sm_id_tuple ?x = tuple" by (simp_all add: sm_of_def Let_def)
  have num: "i < 2 ^ 16 - 1" if "(v, i) \<in> set ?vs" for v i using that ids by (fastforce simp: file_ids_ok_def)
  have "sm_wf ?x"
    using L last sort tuple ids ws(2) len(1) by (simp add: sm_wf_def valid_sm_def vals file_ids_ok_def)
  moreover have "list_all (\<lambda>(v, m). m + 1 \<noteq> 0) (sm_values ?x)"
    using metric_number num by (fastforce simp: vals list_all_iff)
  moreover have "list_all (\<lambda>p. 0 < sint (fst p)) (butlast (sm_cct_nodes ?x))"
  proof -
    have "map fst (butlast (sm_cct_nodes ?x)) = map (c_persistent_id cs) ws" using L(4) by (simp add: map_butlast)
    then have "list_all (\<lambda>i. 0 < sint i) (map fst (butlast (sm_cct_nodes ?x)))"
      using ids ws(1) by (auto simp: list_all_iff file_ids_ok_def)
    then show ?thesis by (simp add: list.pred_map comp_def)
  qed
  ultimately show "sm_readable ?x" by (simp add: sm_readable_def)
  have "block_of ?x i = block kinds M cs (ws ! i)" if i: "i < length ws" for i
  proof -
    have id: "fst (sm_cct_nodes ?x ! i) = c_persistent_id cs (ws ! i)"
      using arg_cong [OF L(4), of "\<lambda>l. l ! i"] i L(1) by (simp add: nth_append)
    have T: "take (S ! Suc i - S ! i) (drop (S ! i) ?vs) = node_values kinds M (ws ! i)"
      using starts_block [of i kinds M qs 0] i by (simp add: S_def ws_def)
    have sub: "set (node_values kinds M (ws ! i)) \<subseteq> set ?vs" using ws(1) nth_mem [OF i] by fastforce
    have num': "uint ((of_nat k :: u16) + 1) = int k + 1" if "(v, k) \<in> set (node_values kinds M (ws ! i))" for v k
      by (rule metric_number, rule num, rule subsetD [OF sub that])
    have "snd (block_of ?x i) = map (\<lambda>(v, m). (v, uint (m + 1))) (take (S ! Suc i - S ! i) (drop (S ! i) (sm_values ?x)))"
      using nth [of i] nth [of "Suc i"] i by (simp add: block_of_def)
    also have "\<dots> = map (\<lambda>(v, m). (v, uint (m + 1))) (map (\<lambda>(v, i). (v, of_nat i :: u16)) (node_values kinds M (ws ! i)))"
      unfolding vals(1) drop_map take_map T ..
    also have "\<dots> = map (\<lambda>(v, i). (v, int i + 1)) (node_values kinds M (ws ! i))"
      unfolding map_map
    proof (rule map_cong [OF refl])
      fix y assume m: "y \<in> set (node_values kinds M (ws ! i))"
      obtain v k where y: "y = (v, k)" by (rule prod.exhaust)
      show "((\<lambda>(v, m). (v, uint (m + 1))) \<circ> (\<lambda>(v, i). (v, of_nat i :: u16))) y = (case y of (v, i) \<Rightarrow> (v, int i + 1))"
        using num' [OF m [unfolded y]] by (simp add: y)
    qed
    finally have "snd (block_of ?x i) = snd (block kinds M cs (ws ! i))" by (simp only: block_def snd_conv)
    moreover have "fst (block_of ?x i) = fst (block kinds M cs (ws ! i))" by (simp only: block_of_def block_def id fst_conv)
    ultimately show ?thesis by (rule prod_eqI [rotated])
  qed
  then show "map (block_of ?x) [0..<length (with_values kinds M qs)] = map (block kinds M cs) (with_values kinds M qs)"
    by (intro nth_equalityI) (simp_all add: ws_def)
qed

text \<open>Every node but the first comes after its parent.\<close>

fun parents_first :: "cct_store \<Rightarrow> ptr set \<Rightarrow> ptr list \<Rightarrow> bool" where
  "parents_first cs S [] \<longleftrightarrow> True"
| "parents_first cs S (q # qs) \<longleftrightarrow> (\<exists>p \<in> S. c_parent cs q = Some p) \<and> parents_first cs (insert q S) qs"

lemma parents_first_append: "parents_first cs S (xs @ ys) \<longleftrightarrow> parents_first cs S xs \<and> parents_first cs (S \<union> set xs) ys"
  by (induction xs arbitrary: S) auto

lemma kept_parents: "sib_at cs (Some par) p t \<Longrightarrow> par \<in> S \<Longrightarrow> parents_first cs S (kept I t)"
proof (induction t arbitrary: par p S)
  case (SNode l a c r)
  then show ?case by (auto simp: parents_first_append)
qed simp

lemma with_values_kept:
  assumes "\<And>q. node_values kinds M q \<noteq> [] \<Longrightarrow> I q"
  shows "set (with_values kinds M (sib_nodes t)) \<subseteq> set (kept I t)"
  using assms by (induction t) (auto simp: with_values_def)

section \<open>Properties\<close>

text \<open>
  C4. Writing a calling context tree: the section has the number of nodes and then the nodes to keep, which are those with a
  non-zero value, those that a trace refers to, and their ancestors, each after its parent; the checks of the code succeed.
  The sparse metrics collected on the way are well-formed for the reader of measurement files, and their blocks are, for
  exactly the nodes with a non-zero value, the persistent identifier and the non-zero values with the numbers of their metrics.
\<close>

theorem cct_section_written:
  assumes "writable ms M cs cct c" and "c2m_rep s mp M" and "file_ids_ok (ms_kinds ms) M cs (cct_nodes cct c)"
    and "unat (tuple_length tuple) \<le> length (tuple_ids tuple)"
    and "room fs (length (enc_cct (map (tmp_node cs) (kept_nodes (wanted (ms_kinds ms) M cs) cct c))))"
  shows "\<exists>sm cs' s'. hpcrun_cct_fwrite (ms_kinds ms) junk mp (Some cct) (Some fs) tuple (cs, s) =
      Some (HPCRUN_OK, Some (sm, fput fs (enc_cct (map (tmp_node cs) (kept_nodes (wanted (ms_kinds ms) M cs) cct c)))), cs', s') \<and>
    sm_readable sm \<and> sm_id_tuple sm = tuple \<and>
    map (block_of sm) [0..<unat (sm_num_nz_cct_nodes sm)] = map (block (ms_kinds ms) M cs) (with_values (ms_kinds ms) M (cct_nodes cct c)) \<and>
    set (with_values (ms_kinds ms) M (cct_nodes cct c)) \<subseteq> set (kept_nodes (wanted (ms_kinds ms) M cs) cct c) \<and>
    parents_first cs {cct} (tl (kept_nodes (wanted (ms_kinds ms) M cs) cct c))"
proof -
  let ?x = "sm_of (ms_kinds ms) M cs tuple (cct_nodes cct c)"
  have len: "length (concat (map (node_values (ms_kinds ms) M) (cct_nodes cct c))) < 2 ^ 31" "Suc (length (cct_nodes cct c)) < 2 ^ 32"
    and at: "sib_at cs (Some cct) (c_children cs cct) c" using assms(1) by (simp_all add: writable_def cct_at_def)
  obtain s' where run: "hpcrun_cct_fwrite (ms_kinds ms) junk mp (Some cct) (Some fs) tuple (cs, s) =
      Some (HPCRUN_OK, Some (?x, fput fs (enc_cct (map (tmp_node cs) (kept_nodes (wanted (ms_kinds ms) M cs) cct c)))),
        cs\<lparr> c_display := marks (kept_nodes (wanted (ms_kinds ms) M cs) cct c) None (c_display cs) \<rparr>, s')"
    using cct_fwrite_run [OF assms(1,2,5)] by blast
  note R = sm_of_readable [OF len assms(3,4)]
  have sub: "set (with_values (ms_kinds ms) M (cct_nodes cct c)) \<subseteq> set (kept_nodes (wanted (ms_kinds ms) M cs) cct c)"
    using with_values_kept [of "ms_kinds ms" M "wanted (ms_kinds ms) M cs" c]
    by (auto simp: wanted_def with_values_def cct_nodes_def kept_nodes_def)
  have "parents_first cs {cct} (tl (kept_nodes (wanted (ms_kinds ms) M cs) cct c))"
    using kept_parents [OF at, of "{cct}"] by (simp add: kept_nodes_def)
  moreover have "sm_id_tuple ?x = tuple" by (simp add: sm_of_def Let_def)
  moreover have "map (block_of ?x) [0..<unat (sm_num_nz_cct_nodes ?x)] =
      map (block (ms_kinds ms) M cs) (with_values (ms_kinds ms) M (cct_nodes cct c))"
    unfolding sm_of_lists(5) [OF len] by (rule R(2))
  ultimately show ?thesis using run R(1) sub by blast
qed

definition example_map :: "ptr \<rightharpoonup> metric_data_list_t" where
  "example_map = [5 \<mapsto> example_values]"

definition example_c2m1 :: c2m_state where
  "example_c2m1 = example_c2m\<lparr> m_node := (\<lambda>_. 0)(0 := 5), m_kind_metrics := (\<lambda>_. [])(0 := example_values), m_fresh := 1 \<rparr>"

definition example_file :: FILE where
  "example_file = \<lparr> fdata = [], fpos = 0, feof = False, fbad = 1000, fcap = 1000 \<rparr>"

lemma example_c2m1: "c2m_rep example_c2m1 (Some 0) example_map"
proof -
  have "splay_rep (m_node example_c2m1) (m_left example_c2m1, m_right example_c2m1) (Some 0) [m_node example_c2m1 0 \<mapsto> 0]"
    by (rule splay_rep_single) (simp_all add: example_c2m1_def example_c2m_def)
  then show ?thesis
    by (intro c2m_rep_def [THEN iffD2] exI [of _ "[5 \<mapsto> 0]"]) (auto simp: example_c2m1_def example_map_def fun_eq_iff)
qed

lemma example_node_values: "node_values (ms_kinds example_ready) example_map q = (if q = 5 then [(5, 0)] else [])"
proof -
  have "nonzeros 0 (mdl_rows 0 (ms_kinds example_ready) example_values) = [(5, 0)]"
    "nonzeros 0 (mdl_rows 0 (ms_kinds example_ready) []) = []" by code_simp+
  then show ?thesis by (simp add: node_values_def metrics_of_def example_map_def)
qed

lemma example_writable: "writable example_ready example_map example_cct 1 example_sib"
proof -
  have "c2m_ok (ms_kinds example_ready) example_map" using example_values_ok by (simp add: c2m_ok_def example_map_def example_values_def)
  then show ?thesis
    using example_cct_at
    by (simp add: writable_def values_ready_def example_ready example_node_values cct_nodes_def example_sib_def example_cct_def)
qed

lemma example_kept: "kept_nodes (wanted (ms_kinds example_ready) example_map example_cct) 1 example_sib = [1, 3, 5]"
  by (simp add: kept_nodes_def example_sib_def wanted_def example_node_values hpcrun_cct_retained_def example_cct_def
      HPCRUN_FMT_RetainIdFlag_def)

theorem cct_section_written_witness:
  "\<exists>sm cs' s'. hpcrun_cct_fwrite (ms_kinds example_ready) 0 (Some 0) (Some 1) (Some example_file) (id_tuple_constructor [] 0) (example_cct, example_c2m1) =
      Some (HPCRUN_OK, Some (sm, fput example_file (enc_cct (map (tmp_node example_cct) [1, 3, 5]))), cs', s') \<and>
    sm_readable sm \<and> map (block_of sm) [0..<unat (sm_num_nz_cct_nodes sm)] = [(5, [(5, 1)])]"
proof -
  have ids: "file_ids_ok (ms_kinds example_ready) example_map example_cct (cct_nodes 1 example_sib)"
    by (simp add: file_ids_ok_def example_node_values cct_nodes_def example_sib_def) (simp add: example_cct_def)
  have tuple: "unat (tuple_length (id_tuple_constructor [] 0)) \<le> length (tuple_ids (id_tuple_constructor [] 0))"
    by (simp add: id_tuple_constructor_def)
  have room: "room example_file (length (enc_cct (map (tmp_node example_cct)
      (kept_nodes (wanted (ms_kinds example_ready) example_map example_cct) 1 example_sib))))"
    unfolding example_kept by (simp add: room_def example_file_def enc_cct_def enc_cct_node_def)
  have "map (block (ms_kinds example_ready) example_map example_cct) (with_values (ms_kinds example_ready) example_map (cct_nodes 1 example_sib)) = [(5, [(5, 1)])]"
    by (simp add: block_def with_values_def example_node_values cct_nodes_def example_sib_def) (simp add: example_cct_def)
  then show ?thesis
    using cct_section_written [OF example_writable example_c2m1 ids tuple room] unfolding example_kept by metis
qed

end
