(* ===== verification/Cct_File.thy ===== *)
theory Cct_File
  imports Cct_Backtrace Cct_Write
begin

text \<open>
  From samples to the section of a profile: the trees that samples build can be walked, a bundle of trees is
  created, filled with samples and written, and what the reader of the file finds is what was sampled.
\<close>

section \<open>The trees of a state can be walked\<close>

fun sib_of :: "(ptr \<Rightarrow> sib) \<Rightarrow> ptr tree \<Rightarrow> sib" where
  "sib_of f Leaf = SNil"
| "sib_of f (Node l a r) = SNode (sib_of f l) a (f a) (sib_of f r)"

lemma sib_of_at:
  "tree_at (c_left cs) (c_right cs) p t \<Longrightarrow>
   (\<And>a. a \<in> set_tree t \<Longrightarrow> c_parent cs a = par \<and> sib_at cs (Some a) (c_children cs a) (f a)) \<Longrightarrow> sib_at cs par p (sib_of f t)"
  by (induction t arbitrary: p) auto

lemma sib_of_nodes: "set (sib_nodes (sib_of f t)) = (\<Union>a \<in> set_tree t. insert a (set (sib_nodes (f a))))"
  by (induction t) auto

lemma sib_of_distinct:
  assumes "distinct (inorder t)" and "\<And>a. a \<in> set_tree t \<Longrightarrow> distinct (a # sib_nodes (f a))"
    and "\<And>a b. a \<in> set_tree t \<Longrightarrow> b \<in> set_tree t \<Longrightarrow> a \<noteq> b \<Longrightarrow>
      insert a (set (sib_nodes (f a))) \<inter> insert b (set (sib_nodes (f b))) = {}"
  shows "distinct (sib_nodes (sib_of f t))"
  using assms
proof (induction t)
  case (Node l a r)
  define G where "G b = insert b (set (sib_nodes (f b)))" for b
  have nodes: "set (sib_nodes (sib_of f t)) = (\<Union>b \<in> set_tree t. G b)" for t by (simp add: sib_of_nodes G_def)
  have dis: "G b \<inter> G c = {}" if "b \<in> set_tree (Node l a r)" "c \<in> set_tree (Node l a r)" "b \<noteq> c" for b c
    unfolding G_def by (rule Node.prems(3) [OF that])
  have un: "(\<Union>b \<in> X. G b) \<inter> (\<Union>c \<in> Y. G c) = {}"
    if "X \<subseteq> set_tree (Node l a r)" "Y \<subseteq> set_tree (Node l a r)" "X \<inter> Y = {}" for X Y
  proof -
    have "G b \<inter> G c = {}" if "b \<in> X" "c \<in> Y" for b c
      by (rule dis) (use that \<open>X \<subseteq> _\<close> \<open>Y \<subseteq> _\<close> \<open>X \<inter> Y = {}\<close> in auto)
    then show ?thesis by blast
  qed
  have X: "set_tree l \<inter> set_tree r = {}" "{a} \<inter> set_tree l = {}" "{a} \<inter> set_tree r = {}" using Node.prems(1) by auto
  have "distinct (sib_nodes (sib_of f l))" "distinct (sib_nodes (sib_of f r))"
    using Node.prems by (auto intro!: Node.IH)
  moreover have "set (sib_nodes (sib_of f l)) \<inter> set (sib_nodes (sib_of f r)) = {}"
    unfolding nodes by (rule un) (use X in auto)
  moreover have "G a \<inter> set (sib_nodes (sib_of f l)) = {}" "G a \<inter> set (sib_nodes (sib_of f r)) = {}"
    unfolding nodes using un [of "{a}" "set_tree l"] un [of "{a}" "set_tree r"] X by auto
  ultimately show ?case using Node.prems(2) [of a] by (auto simp: G_def)
qed simp

definition below :: "kids \<Rightarrow> ptr \<Rightarrow> ptr set" where
  "below C p = {q. \<exists>ks. follow C p ks = Some q}"

lemma below_step: "below C p = insert p (\<Union>q \<in> ran (C p). below C q)"
proof -
  have "follow C p ks = Some q \<longleftrightarrow> ks = [] \<and> q = p \<or> (\<exists>k c ls. ks = k # ls \<and> C p k = Some c \<and> follow C c ls = Some q)" for ks q
    by (cases ks) (auto split: Option.bind_splits)
  then show ?thesis unfolding below_def ran_def by blast
qed

lemma below_disjoint:
  assumes inv: "cct_inv st N Rt C" and p: "p \<in> N" and "a \<in> ran (C p)" "b \<in> ran (C p)" "a \<noteq> b"
  shows "below C a \<inter> below C b = {}"
proof (rule Int_emptyI)
  fix x assume x: "x \<in> below C a" "x \<in> below C b"
  obtain r w where r: "r \<in> Rt" "follow C r w = Some p" using follow_reaches [OF inv p] by blast
  obtain k j where k: "C p k = Some a" "C p j = Some b" using assms(3,4) unfolding ran_def by blast
  obtain ks ls where "follow C a ks = Some x" "follow C b ls = Some x" using x unfolding below_def by blast
  with r(2) k have "follow C r (w @ k # ks) = Some x" "follow C r (w @ j # ls) = Some x" by (simp_all add: follow_append)
  from follow_inj [OF inv r(1,1) this] k assms(5) show False by simp
qed

lemma below_not_self:
  assumes inv: "cct_inv st N Rt C" and p: "p \<in> N" and "a \<in> ran (C p)"
  shows "p \<notin> below C a"
proof
  assume "p \<in> below C a"
  then obtain ks where ks: "follow C a ks = Some p" unfolding below_def by blast
  obtain r w where r: "r \<in> Rt" "follow C r w = Some p" using follow_reaches [OF inv p] by blast
  obtain k where "C p k = Some a" using assms(3) unfolding ran_def by blast
  with r(2) ks have "follow C r (w @ k # ks) = Some p" by (simp add: follow_append)
  from follow_inj [OF inv r(1,1) this r(2)] show False by simp
qed

lemma sib_exists:
  assumes inv: "cct_inv st N Rt C" and "p \<in> N"
  shows "\<exists>c. sib_at (st_cct st) (Some p) (c_children (st_cct st) p) c \<and> distinct (p # sib_nodes c) \<and> set (p # sib_nodes c) = below C p"
proof -
  let ?cs = "st_cct st"
  have rep: "cct_rep ?cs N Rt C" using inv by (simp add: cct_inv_def)
  note R = cct_repD [OF rep]
  obtain rk :: "ptr \<Rightarrow> nat" where rk: "\<forall>p \<in> N. \<forall>q \<in> ran (C p). rk p < rk q" using rep unfolding cct_rep_def by blast
  have m: "rk q \<le> Max (rk ` N)" if "q \<in> N" for q using that R(1) by simp
  show ?thesis
    using assms(2)
  proof (induction "Max (rk ` N) - rk p" arbitrary: p rule: less_induct)
    case less
    obtain t where t: "tree_at (c_left ?cs) (c_right ?cs) (c_children ?cs p) t" "key_sorted (node_key ?cs) t" "C p = tree_map (node_key ?cs) t"
      using R(3) [OF less.prems] by (auto simp: splay_rep_def)
    have ran: "ran (C p) = set_tree t" using t(2,3) by (simp add: ran_tree_map)
    have "\<forall>a \<in> set_tree t. \<exists>c. sib_at ?cs (Some a) (c_children ?cs a) c \<and> distinct (a # sib_nodes c) \<and> set (a # sib_nodes c) = below C a"
    proof
      fix a assume a: "a \<in> set_tree t"
      then have aN: "a \<in> N" using R(4) [OF less.prems] ran by blast
      moreover have "rk p < rk a" using rk less.prems a ran by blast
      ultimately show "\<exists>c. sib_at ?cs (Some a) (c_children ?cs a) c \<and> distinct (a # sib_nodes c) \<and> set (a # sib_nodes c) = below C a"
        using m [OF aN] by (intro less.hyps) auto
    qed
    then obtain f where f: "\<And>a. a \<in> set_tree t \<Longrightarrow> sib_at ?cs (Some a) (c_children ?cs a) (f a) \<and> distinct (a # sib_nodes (f a)) \<and>
      set (a # sib_nodes (f a)) = below C a" by metis
    have "sib_at ?cs (Some p) (c_children ?cs p) (sib_of f t)"
      using f R(4) [OF less.prems] ran by (intro sib_of_at [OF t(1)]) blast
    moreover have nodes: "set (sib_nodes (sib_of f t)) = (\<Union>a \<in> ran (C p). below C a)"
      unfolding sib_of_nodes ran using f by simp
    moreover have "distinct (sib_nodes (sib_of f t))"
      using f below_disjoint [OF inv less.prems] ran
      by (intro sib_of_distinct [OF key_sorted_distinct [OF t(2)]]) auto
    moreover have "p \<notin> set (sib_nodes (sib_of f t))" unfolding nodes using below_not_self [OF inv less.prems] by blast
    ultimately show ?case using below_step [of C p] by (intro exI [of _ "sib_of f t"]) auto
  qed
qed

lemma cct_at_exists:
  assumes inv: "cct_inv st N Rt C" and p: "p \<in> N"
  obtains c where "cct_at (st_cct st) p c" and "set (cct_nodes p c) = below C p"
proof -
  obtain c where c: "sib_at (st_cct st) (Some p) (c_children (st_cct st) p) c" "distinct (p # sib_nodes c)" "set (p # sib_nodes c) = below C p"
    using sib_exists [OF inv p] by blast
  have "below C p \<subseteq> N" using follow_closed [OF cct_inv_closed [OF inv] p] by (auto simp: below_def)
  then have "\<forall>q \<in> set (sib_nodes c). c_previous (st_cct st) q = None"
    using c(3) cct_repD(6) [of "st_cct st" N Rt C] inv by (auto simp: cct_inv_def)
  with c show thesis by (intro that [of c]) (simp_all add: cct_at_def cct_nodes_def)
qed

section \<open>Attaching a tree\<close>

lemma cct_rep_adopt:
  assumes rep: "cct_rep cs N Rt C" and t: "t \<in> N" and src: "src \<in> Rt" and out: "t \<notin> below C src" and k: "C t k = None"
    and m: "splay_rep (node_key cs') (c_left cs', c_right cs') (c_children cs' t) ((C t)(k \<mapsto> src))"
    and same: "\<And>q. q \<in> N \<Longrightarrow> c_addr cs' q = c_addr cs q \<and> c_previous cs' q = c_previous cs q \<and>
      c_parent cs' q = (if q = src then Some t else c_parent cs q)"
    and kids: "\<And>q. q \<in> N \<Longrightarrow> q \<noteq> t \<Longrightarrow> c_children cs' q = c_children cs q"
    and links: "\<And>q. q \<in> N \<Longrightarrow> q \<notin> ran (C t) \<Longrightarrow> q \<noteq> src \<Longrightarrow> c_left cs' q = c_left cs q \<and> c_right cs' q = c_right cs q"
  shows "cct_rep cs' N (Rt - {src}) (C(t := (C t)(k \<mapsto> src)))"
proof -
  let ?C = "C(t := (C t)(k \<mapsto> src))"
  note R = cct_repD [OF rep]
  have srcN: "src \<in> N" using R(2) src by blast
  have no: "src \<notin> ran (C p)" if "p \<in> N" for p using R(4) [OF that] src by blast
  have ran: "ran (?C p) = (if p = t then insert src (ran (C t)) else ran (C p))" for p using k by auto
  obtain rk :: "ptr \<Rightarrow> nat" where rk: "\<forall>p \<in> N. \<forall>q \<in> ran (C p). rk p < rk q" using rep unfolding cct_rep_def by blast
  have sub: "c \<in> below C src \<longleftrightarrow> q \<in> below C src \<or> c = src" if qc: "q \<in> N" "c \<in> ran (C q)" for q c
  proof -
    obtain j where j: "C q j = Some c" using qc(2) unfolding ran_def by blast
    have "follow C src (ks @ [j]) = Some c" if "follow C src ks = Some q" for ks using that j by (simp add: follow_append)
    moreover have "\<exists>ls. follow C src ls = Some q" if c: "follow C src ks = Some c" "c \<noteq> src" for ks
    proof (cases ks rule: rev_cases)
      case Nil
      then show ?thesis using c by simp
    next
      case (snoc ls i)
      then obtain x where x: "follow C src ls = Some x" "C x i = Some c" using c(1) by (auto elim: follow_snoc_cases)
      have "closed_in N C" using R(4) by (auto simp: closed_in_def)
      then have "x \<in> N" using follow_closed srcN x(1) by blast
      then have "x = q" using R(4) [of x c] R(4) [OF qc] ranI [of "C x" i c] x(2) by simp
      with x(1) show ?thesis by blast
    qed
    ultimately show ?thesis using no [OF qc(1)] qc(2) unfolding below_def by blast
  qed
  let ?rk = "\<lambda>q. if q \<in> below C src then rk q + Suc (rk t) else rk q"
  have src0: "src \<in> below C src" by (auto simp: below_def intro: exI [of _ "[]"])
  have rank: "?rk q < ?rk c" if "q \<in> N" "c \<in> ran (?C q)" for q c
  proof (cases "q = t \<and> c = src")
    case True
    then show ?thesis using out src0 by simp
  next
    case False
    then have c: "c \<in> ran (C q)" using that(2) unfolding ran by (auto split: if_splits)
    moreover have "c \<noteq> src" using no [OF that(1)] c by blast
    ultimately show ?thesis using sub [OF that(1) c] rk that(1) by simp
  qed
  have split: "splay_rep (node_key cs') (c_left cs', c_right cs') (c_children cs' q) (?C q)" if q: "q \<in> N" for q
  proof (cases "q = t")
    case False
    have dis: "ran (C t) \<inter> ran (C q) = {}" using cct_rep_disjoint [OF rep t q] False by simp
    have "splay_rep (node_key cs') (c_left cs', c_right cs') (c_children cs q) (C q)"
      using same links R(4) [OF q] dis no [OF q] by (intro splay_rep_cong [OF R(3) [OF q]]) auto
    then show ?thesis using False kids [OF q] by simp
  qed (use m in simp)
  show ?thesis
    unfolding cct_rep_def
  proof (intro conjI ballI impI)
    show "\<exists>rk :: ptr \<Rightarrow> nat. \<forall>p \<in> N. \<forall>q \<in> ran (?C p). rk p < rk q" using rank by (intro exI [of _ ?rk]) blast
    show "finite N" "Rt - {src} \<subseteq> N" using R(1,2) by auto
    show "splay_rep (node_key cs') (c_left cs', c_right cs') (c_children cs' p) (?C p)" if "p \<in> N" for p by (rule split [OF that])
    show "q \<in> N" "q \<notin> Rt - {src}" "c_parent cs' q = Some p" if "p \<in> N" "q \<in> ran (?C p)" for p q
      using that R(4) [of p q] srcN same [of q] no [of p] unfolding ran by (auto split: if_splits)
    show "\<exists>p \<in> N. q \<in> ran (?C p)" if "q \<in> N" "q \<notin> Rt - {src}" for q
      using R(5) [OF that(1)] that(2) t unfolding ran by (cases "q = src") auto
    show "c_previous cs' q = None" if "q \<in> N" for q using same [OF that] R(6) [OF that] by simp
    show "c_left cs' r = None" "c_right cs' r = None" if "r \<in> Rt - {src}" for r
      using links [of r] that R(2) R(4) [OF t, of r] R(7) [of r] by auto
  qed
qed

lemma insert_node_rep:
  assumes inv: "cct_inv st N Rt C" and t: "t \<in> N" and src: "src \<in> Rt" and out: "t \<notin> below C src"
    and k: "C t (node_key (st_cct st) src) = None"
  shows "\<exists>st'. hpcrun_cct_insert_node t src st = Some (src, st') \<and>
    cct_inv st' N (Rt - {src}) (C(t := (C t)(node_key (st_cct st) src \<mapsto> src))) \<and>
    (\<forall>q. same_node ((st_cct st)\<lparr> c_parent := (c_parent (st_cct st))(src := Some t) \<rparr>) (st_cct st') q) \<and> st_next_id st' = st_next_id st"
proof -
  have rep: "cct_rep (st_cct st) N Rt C" and free: "free_ok st N" using inv by (auto simp: cct_inv_def)
  note R = cct_repD [OF rep]
  let ?a = "c_addr (st_cct st) src"
  have srcN: "src \<in> N" and no: "src \<notin> ran (C t)" and tsrc: "t \<noteq> src"
    using R(2) src R(4) [OF t] out by (auto simp: below_def dest: spec [of _ "[]"])
  define st1 where "st1 = set_parent src (Some t) st"
  have st1: "st_cct st1 = (st_cct st)\<lparr> c_parent := (c_parent (st_cct st))(src := Some t) \<rparr>" "st_fresh st1 = st_fresh st"
    "st_freelist st1 = st_freelist st" "st_next_id st1 = st_next_id st"
    by (simp_all add: st1_def set_parent_def upd_cct_def)
  have "cct_rep (st_cct st1) N Rt C" using rep src by (auto simp: cct_rep_def st1)
  moreover have "free_ok st1 N" by (rule free_ok_cong [OF free]) (use srcN in \<open>auto simp: st1\<close>)
  ultimately have inv1: "cct_inv st1 N Rt C" by (simp add: cct_inv_def)
  obtain found st2 st3 where s: "cct_splay (c_children (st_cct st1) t) ?a st1 = Some (found, st2)" "set_children t found st2 = st3"
    and F: "cct_inv st3 N Rt C" "\<forall>q. same_node (st_cct st1) (st_cct st3) q" "st_next_id st3 = st_next_id st1"
    and top: "case found of None \<Rightarrow> C t = Map.empty
      | Some x \<Rightarrow> splay_top (node_key (st_cct st3)) (addr_key ?a) (c_left (st_cct st3), c_right (st_cct st3)) x (C t)"
    by (rule splay_children [OF inv1 t])
  define st4 where "st4 = set_children t (Some src) st2"
  have st4: "st4 = set_children t (Some src) st3" by (simp add: st4_def s(2) [symmetric] set_children_def upd_cct_def)
  have st4': "st_cct st4 = (st_cct st3)\<lparr> c_children := (c_children (st_cct st3))(t := Some src) \<rparr>" "st_fresh st4 = st_fresh st3"
    "st_freelist st4 = st_freelist st3" "st_next_id st4 = st_next_id st3"
    by (simp_all add: st4 set_children_def upd_cct_def)
  define st5 where "st5 = (case found of None \<Rightarrow> st4 | Some x \<Rightarrow> link_above src ?a x st4)"
  have rep3: "cct_rep (st_cct st3) N Rt C" and free3: "free_ok st3 N" using F(1) by (auto simp: cct_inv_def)
  have a: "c_addr (st_cct st3) src = ?a" using F(2) by (simp add: same_node_def st1)
  have st5: "splay_rep (node_key (st_cct st5)) (c_left (st_cct st5), c_right (st_cct st5)) (Some src) ((C t)(addr_key ?a \<mapsto> src)) \<and>
    (\<forall>q. same_node (st_cct st4) (st_cct st5) q) \<and> c_children (st_cct st5) = c_children (st_cct st4) \<and>
    (\<forall>q. q \<noteq> src \<longrightarrow> q \<notin> ran (C t) \<longrightarrow> c_left (st_cct st5) q = c_left (st_cct st4) q \<and> c_right (st_cct st5) q = c_right (st_cct st4) q) \<and>
    st_fresh st5 = st_fresh st4 \<and> st_freelist st5 = st_freelist st4 \<and> st_next_id st5 = st_next_id st4"
    unfolding st5_def
    by (rule linked_above [OF top k no, unfolded Let_def]) (use a cct_repD(7) [OF rep3 src] in \<open>auto simp: st4'\<close>)
  have run: "hpcrun_cct_insert_node t src st = Some (src, st5)"
  proof -
    have "c_addr (st_cct st1) src = ?a" "c_addr (st_cct st4) src = ?a" using a by (simp_all add: st1 st4')
    then show ?thesis using s(1)
      by (cases found) (simp_all add: hpcrun_cct_insert_node_def Let_def st5_def flip: st1_def st4_def)
  qed
  have par: "c_parent (st_cct st3) q = (if q = src then Some t else c_parent (st_cct st) q)" for q
    using F(2) by (simp add: same_node_def st1)
  have "cct_rep (st_cct st5) N (Rt - {src}) (C(t := (C t)(addr_key ?a \<mapsto> src)))"
    by (rule cct_rep_adopt [OF rep3 t src out k]) (use st5 par in \<open>auto simp: st4' same_node_def\<close>)
  moreover have "free_ok st5 N"
  proof (rule free_ok_cong [OF free3])
    fix q assume "q \<notin> N"
    then have "q \<noteq> t" "q \<noteq> src" "q \<notin> ran (C t)" using t srcN R(4) [OF t] by blast+
    then show "c_left (st_cct st5) q = c_left (st_cct st3) q \<and> c_right (st_cct st5) q = c_right (st_cct st3) q \<and>
      c_children (st_cct st5) q = c_children (st_cct st3) q \<and> c_parent (st_cct st5) q = c_parent (st_cct st3) q"
      using st5 by (simp add: st4' same_node_def)
  qed (use st5 in \<open>simp_all add: st4'\<close>)
  moreover have "\<forall>q. same_node ((st_cct st)\<lparr> c_parent := (c_parent (st_cct st))(src := Some t) \<rparr>) (st_cct st5) q"
    using F(2) st5 unfolding st1 by (simp add: same_node_def st4')
  ultimately show ?thesis using run st5 F(3) st1(4) st4'(4) by (intro exI [of _ st5]) (simp add: cct_inv_def)
qed

section \<open>Bundles\<close>

definition bundle_roots :: "cct_bundle_t \<Rightarrow> ptr set" where
  "bundle_roots b = {b_top b, b_partial_unw_root b, b_unresolved_root b}"

text \<open>A bundle as it is created for a thread without creation context.\<close>

definition bundle_ok :: "cct_bundle_t \<Rightarrow> cct_state \<Rightarrow> bool" where
  "bundle_ok b st \<longleftrightarrow> b_tree_root b = b_top b \<and> b_thread_root b = Some (b_top b) \<and> b_top b \<noteq> b_partial_unw_root b \<and>
     c_parent (st_cct st) (b_top b) = None \<and>
     node_key (st_cct st) (b_partial_unw_root b) = addr_key PARTIAL_ROOT"

lemma bundle_init:
  assumes free: "st_freelist st = None" and b: "hpcrun_cct_bundle_init attach None st = Some (b, st')" and ids: "ids_left st (k + 3)"
  shows "\<exists>N C. cct_inv st' N (bundle_roots b) C \<and> (\<forall>x \<in> bundle_roots b. paths_of C x = {[]}) \<and> bundle_ok b st' \<and>
    ids_ok st' N \<and> ids_left st' k"
proof -
  let ?C0 = "(\<lambda>_. Map.empty) :: kids"
  obtain t st1 where 1: "cct_node_create CCT_ROOT True None st = (t, st1)" "t \<notin> {}"
    "cct_inv st1 (insert t {}) (insert t {}) (?C0(t := Map.empty))" "created st CCT_ROOT True None t st1"
    "\<forall>x ks. x \<in> {} \<longrightarrow> follow (?C0(t := Map.empty)) x ks = follow ?C0 x ks" "paths_of (?C0(t := Map.empty)) t = {[]}"
    "\<forall>k. ids_ok st {} \<longrightarrow> ids_left st (Suc k) \<longrightarrow> ids_ok st1 (insert t {}) \<and> ids_left st1 k"
    by (rule new_root [OF fresh_cct(1) [OF free]])
  let ?C1 = "?C0(t := Map.empty)"
  obtain p st2 where 2: "cct_node_create PARTIAL_ROOT True None st1 = (p, st2)" "p \<notin> insert t {}"
    "cct_inv st2 (insert p (insert t {})) (insert p (insert t {})) (?C1(p := Map.empty))" "created st1 PARTIAL_ROOT True None p st2"
    "\<forall>x ks. x \<in> insert t {} \<longrightarrow> follow (?C1(p := Map.empty)) x ks = follow ?C1 x ks" "paths_of (?C1(p := Map.empty)) p = {[]}"
    "\<forall>k. ids_ok st1 (insert t {}) \<longrightarrow> ids_left st1 (Suc k) \<longrightarrow> ids_ok st2 (insert p (insert t {})) \<and> ids_left st2 k"
    "\<forall>q \<in> insert t {}. same_node (st_cct st1) (st_cct st2) q"
    by (rule new_root [OF 1(3)])
  let ?C2 = "?C1(p := Map.empty)"
  obtain u st3 where 3: "cct_node_create (ADDR2 UNRESOLVED_ROOT 0) True None st2 = (u, st3)" "u \<notin> insert p (insert t {})"
    "cct_inv st3 (insert u (insert p (insert t {}))) (insert u (insert p (insert t {}))) (?C2(u := Map.empty))"
    "created st2 (ADDR2 UNRESOLVED_ROOT 0) True None u st3"
    "\<forall>x ks. x \<in> insert p (insert t {}) \<longrightarrow> follow (?C2(u := Map.empty)) x ks = follow ?C2 x ks" "paths_of (?C2(u := Map.empty)) u = {[]}"
    "\<forall>k. ids_ok st2 (insert p (insert t {})) \<longrightarrow> ids_left st2 (Suc k) \<longrightarrow> ids_ok st3 (insert u (insert p (insert t {}))) \<and> ids_left st3 k"
    "\<forall>q \<in> insert p (insert t {}). same_node (st_cct st2) (st_cct st3) q"
    by (rule new_root [OF 2(3)])
  have b': "b = \<lparr> b_top = t, b_tree_root = t, b_thread_root = Some t, b_partial_unw_root = p, b_unresolved_root = u, b_ctxt = None,
      b_num_nodes = 0 \<rparr>" "st' = st3"
    using b 1(1) 2(1) 3(1) by (simp_all add: hpcrun_cct_bundle_init_def hpcrun_cct_new_def hpcrun_cct_new_partial_def hpcrun_cct_top_new_def)
  have roots: "bundle_roots b = insert u (insert p (insert t {}))" by (auto simp: bundle_roots_def b'(1))
  have paths: "\<forall>x \<in> bundle_roots b. paths_of (?C2(u := Map.empty)) x = {[]}"
  proof -
    have "paths_of (?C2(u := Map.empty)) t = {[]}" "paths_of (?C2(u := Map.empty)) p = {[]}"
      using 3(5) 2(5,6) 1(6) by (simp_all add: paths_of_def)
    with 3(6) show ?thesis by (simp add: roots)
  qed
  have ids1: "ids_ok st1 {t}" "ids_left st1 (k + 2)" using 1(7) fresh_cct(2) [OF free] ids by (auto simp: numeral_3_eq_3 numeral_2_eq_2)
  have ids2: "ids_ok st2 {p, t}" "ids_left st2 (k + 1)" using 2(7) ids1 by (auto simp: numeral_2_eq_2)
  have ids3: "ids_ok st' (bundle_roots b)" "ids_left st' k" using 3(7) ids2 by (auto simp: roots b'(2))
  have "c_parent (st_cct st3) t = None" "node_key (st_cct st3) p = addr_key PARTIAL_ROOT"
    using 1(4) 2(4,8) 3(8) by (simp_all add: created_def same_node_def)
  then have "bundle_ok b st'" using 2(2) by (simp add: bundle_ok_def b')
  with 3(3) paths ids3 show ?thesis unfolding roots b'(2) by blast
qed

text \<open>The samples of a thread: whether the unwind was partial, the backtrace, the metric and the value.\<close>

type_synonym thread_sample = "bool \<times> backtrace_info_t \<times> int \<times> u64"

fun run_bundle :: "bool \<Rightarrow> (nat \<Rightarrow> metric_upd_proc_t) \<Rightarrow> cct_bundle_t \<Rightarrow> thread_sample list \<Rightarrow> sample_state \<Rightarrow>
    (ptr list \<times> sample_state) option" where
  "run_bundle retain procs b [] g = Some ([], g)"
| "run_bundle retain procs b ((partial, bt, j, v) # ss) g =
    (case hpcrun_cct_record_backtrace_w_metric retain None procs None b partial bt False None j v g of None \<Rightarrow> None
     | Some (q, g) \<Rightarrow> map_option (\<lambda>(qs, g). (q # qs, g)) (run_bundle retain procs b ss g))"

definition sample_in :: "cct_bundle_t \<Rightarrow> thread_sample \<Rightarrow> sample" where
  "sample_in b smp = (case smp of (partial, bt, j, v) \<Rightarrow>
     (if bi_fence bt \<noteq> FENCE_THREAD \<and> partial then b_partial_unw_root b else b_top b, j, bi_frames bt, bi_last bt, bi_begin bt, v))"

lemma run_bundle_samples:
  assumes "b_tree_root b = b_top b" and "b_thread_root b = Some (b_top b)"
  shows "run_bundle retain procs b ss g = run_samples retain procs (map (sample_in b) ss) g"
proof (induction ss arbitrary: g)
  case (Cons smp ss)
  obtain partial bt j v where smp: "smp = (partial, bt, j, v)" by (cases smp) auto
  have "cct_cursor b partial bt False None st = Some (fst (sample_in b smp))" for st
    using assms by (simp add: cct_cursor_def Let_def sample_in_def smp)
  then have "hpcrun_cct_record_backtrace_w_metric retain None procs None b partial bt False None j v g =
      hpcrun_cct_insert_backtrace_w_metric retain None procs (Some (fst (sample_in b smp))) j (bi_frames bt) (bi_last bt) (bi_begin bt) v g"
    by (simp add: hpcrun_cct_record_backtrace_w_metric_def cct_cursor_finalize_def split: prod.split)
  with Cons.IH show ?case by (simp add: smp sample_in_def split: option.split)
qed simp

lemma sample_in_root: "fst (sample_in b smp) \<in> {b_top b, b_partial_unw_root b}"
  by (simp add: sample_in_def split: prod.split)

text \<open>What a run of samples leaves behind: the trees, their paths, the nodes of the samples and the values.\<close>

definition sampled :: "bool \<Rightarrow> metrics_state \<Rightarrow> cct_bundle_t \<Rightarrow> thread_sample list \<Rightarrow> ptr list \<Rightarrow> cct_state \<Rightarrow> ptr set \<Rightarrow> kids \<Rightarrow>
    (ptr \<rightharpoonup> metric_data_list_t) \<Rightarrow> bool" where
  "sampled retain ms b ss qs st N C M \<longleftrightarrow> cct_inv st N (bundle_roots b) C \<and>
     (\<forall>x \<in> bundle_roots b. paths_of C x =
        {[]} \<union> {ks. \<exists>smp \<in> set (map (sample_in b) ss). fst smp = x \<and> prefix ks (sample_path retain smp)}) \<and>
     list_all2 (\<lambda>smp q. follow C (fst smp) (sample_path retain smp) = Some q \<and>
       path_up (st_cct st) q (rev (sample_path retain smp)) (fst smp)) (map (sample_in b) ss) qs \<and>
     inj_on (c_persistent_id (st_cct st)) N \<and>
     (\<forall>x \<in> bundle_roots b. \<forall>ks q j. follow C x ks = Some q \<longrightarrow>
        value_of ms M j q = samples_value retain ms (map (sample_in b) ss) j x ks)"

lemma run_bundle_sampled:
  assumes ms: "metrics_ready ms" and add: "\<forall>smp \<in> set ss. adds_samples fadd procs ms (sample_in b smp)" and s: "tl_map s = None"
    and st: "st_freelist st = None" and ids: "ids_left st (sum_list (map (sample_frames \<circ> sample_in b) ss) + 3)"
    and b: "hpcrun_cct_bundle_init attach None st = Some (b, st1)"
  shows "\<exists>qs st' s' N C M. run_bundle retain procs b ss (st1, s, ms) = Some (qs, st', s', ms) \<and> sampled retain ms b ss qs st' N C M \<and>
    c2m_rep s' (tl_map s') M \<and> c2m_ok (ms_kinds ms) M \<and> ids_ok st' N \<and> ids_left st' 0 \<and> bundle_ok b st' \<and>
    card N \<le> 3 + sum_list (map (sample_frames \<circ> sample_in b) ss)"
proof -
  let ?ss = "map (sample_in b) ss" and ?R = "bundle_roots b"
  obtain N1 C1 where i: "cct_inv st1 N1 ?R C1" "\<forall>x \<in> ?R. paths_of C1 x = {[]}" "bundle_ok b st1" "ids_ok st1 N1"
    "ids_left st1 (sum_list (map (sample_frames \<circ> sample_in b) ss))" using bundle_init [OF st b ids] by blast
  have N1: "?R \<subseteq> N1" "N1 \<subseteq> ?R"
  proof -
    show "?R \<subseteq> N1" using i(1) by (simp add: cct_inv_def cct_rep_def)
    show "N1 \<subseteq> ?R"
    proof
      fix q assume "q \<in> N1"
      then obtain r ks where r: "r \<in> ?R" "follow C1 r ks = Some q" using follow_reaches [OF i(1)] by blast
      then have "ks \<in> paths_of C1 r" by (simp add: paths_of_def)
      with i(2) r show "q \<in> ?R" by auto
    qed
  qed
  have "card N1 \<le> 3" unfolding subset_antisym [OF N1(2,1)] bundle_roots_def by (rule order_trans [OF card_insert_le_m1 [of 3]]) (auto intro: card_insert_le_m1)
  have "fst (sample_in b smp) \<in> ?R" for smp using sample_in_root [of b smp] by (auto simp: bundle_roots_def)
  then have R: "\<forall>smp \<in> set ?ss. adds_samples fadd procs ms smp \<and> fst smp \<in> ?R" using add by auto
  have rep: "c2m_rep s (tl_map s) Map.empty" "c2m_ok (ms_kinds ms) Map.empty" using s by (auto simp: c2m_ok_def)
  obtain qs st' s' N C M where run: "run_samples retain procs ?ss (st1, s, ms) = Some (qs, st', s', ms)"
    "cct_inv st' N ?R C" "samples_added retain ?R C1 C ?ss qs" "ids_ok st' N" "ids_left st' 0" "N1 \<subseteq> N"
    "card N \<le> card N1 + sum_list (map sample_frames ?ss)" "\<forall>q \<in> N1. same_place (st_cct st1) (st_cct st') q"
    "c2m_rep s' (tl_map s') M" "c2m_ok (ms_kinds ms) M"
    and val: "\<forall>j nd. value_of ms M j nd = value_of ms Map.empty j nd + counted ms (map2 (\<lambda>(_, j, _, _, _, v) q. (j, q, v)) ?ss qs) j nd"
    using run_samples_rep [OF ms R i(1) rep i(4), of retain] i(5) by (auto simp: comp_def)
  have leaves: "list_all2 (\<lambda>smp q. follow C (fst smp) (sample_path retain smp) = Some q) ?ss qs"
    using run(3) by (simp add: samples_added_def)
  have rN: "x \<in> N" if "x \<in> ?R" for x using run(2) that by (auto simp: cct_inv_def cct_rep_def)
  have up: "list_all2 (\<lambda>smp q. follow C (fst smp) (sample_path retain smp) = Some q \<and>
      path_up (st_cct st') q (rev (sample_path retain smp)) (fst smp)) ?ss qs"
    using leaves R rN follow_up [OF run(2)] unfolding list_all2_conv_all_nth by (metis nth_mem)
  have "value_of ms M j q = samples_value retain ms ?ss j x ks" if "x \<in> ?R" "follow C x ks = Some q" for x ks q j
    unfolding val [rule_format] value_of_empty add_0
    by (rule counted_samples [OF leaves that(2), of ?R]) (use R follow_inj [OF run(2) _ that(1) _ that(2)] in \<open>blast+\<close>)
  then have sampled: "sampled retain ms b ss qs st' N C M"
    using run(2,3,4) up i(2) by (auto simp: sampled_def samples_added_def ids_ok_def)
  have "b_top b \<in> N1" "b_partial_unw_root b \<in> N1" using N1(1) by (auto simp: bundle_roots_def)
  then have "bundle_ok b st'" using i(3) run(8) by (auto simp: bundle_ok_def same_place_def)
  moreover have "run_bundle retain procs b ss (st1, s, ms) = Some (qs, st', s', ms)"
    using run(1) i(3) by (simp add: run_bundle_samples bundle_ok_def)
  moreover have "card N \<le> 3 + sum_list (map (sample_frames \<circ> sample_in b) ss)" using run(7) \<open>card N1 \<le> 3\<close> by (simp add: comp_def)
  ultimately show ?thesis using sampled run(4,5,9,10) by blast
qed

section \<open>Writing a bundle\<close>

definition num_metrics :: "metrics_state \<Rightarrow> nat" where
  "num_metrics ms = length (mdl_rows 0 (ms_kinds ms) [])"

lemma length_mdl_rows: "length (mdl_rows k kis es) = length (mdl_rows k' kis es')"
  by (induction kis arbitrary: k k') (simp_all add: mdl_row_def)

lemma node_values_bound:
  "length (node_values (ms_kinds ms) M q) \<le> num_metrics ms" "(v, i) \<in> set (node_values (ms_kinds ms) M q) \<Longrightarrow> i < num_metrics ms"
proof -
  let ?r = "mdl_rows 0 (ms_kinds ms) (metrics_of M q)"
  have l: "length ?r = num_metrics ms" unfolding num_metrics_def by (rule length_mdl_rows)
  show "length (node_values (ms_kinds ms) M q) \<le> num_metrics ms"
    using length_filter_le [of "\<lambda>v. v \<noteq> 0" ?r] l by (simp add: node_values_def length_nonzeros)
  show "i < num_metrics ms" if "(v, i) \<in> set (node_values (ms_kinds ms) M q)"
    using that l by (auto simp: node_values_def nonzeros_def dest!: set_zip_rightD)
qed

lemma all_node_values_bound: "length (concat (map (node_values (ms_kinds ms) M) qs)) \<le> length qs * num_metrics ms"
  using node_values_bound(1) by (induction qs) (auto intro: add_mono)

lemma follow_adopted:
  assumes "t \<notin> below C x"
  shows "follow (C(t := m)) x ks = follow C x ks"
  using assms
proof (induction ks arbitrary: x)
  case (Cons k ks)
  have "x \<noteq> t" using Cons.prems by (auto simp: below_def dest: spec [of _ "[]"])
  moreover have "t \<notin> below C y" if "C x k = Some y" for y
    using Cons.prems below_step [of C x] ranI [of "C x" k y] that by blast
  ultimately show ?case using Cons.IH by (cases "C x k") simp_all
qed simp

lemma below_adopted:
  assumes inv: "cct_inv st N Rt C" and t: "t \<in> Rt" and src: "src \<in> Rt" "src \<noteq> t" and k: "C t k = None"
  shows "below (C(t := (C t)(k \<mapsto> src))) t = below C t \<union> below C src"
proof -
  let ?C = "C(t := (C t)(k \<mapsto> src))"
  have N: "x \<in> N" if "x \<in> Rt" for x using inv that by (auto simp: cct_inv_def cct_rep_def)
  have out: "t \<notin> below C x" if "x \<in> ran (C t) \<or> x = src" for x
  proof
    assume "t \<in> below C x"
    then obtain ks where ks: "follow C x ks = Some t" by (auto simp: below_def)
    have "x \<in> N" using that N [OF src(1)] cct_repD(4) [of "st_cct st" N Rt C t x] N [OF t] inv by (auto simp: cct_inv_def)
    from root_not_below [OF inv this t ks] ks have "x = t" by simp
    with that src(2) have "t \<in> ran (C t)" by simp
    then show False using cct_repD(4) [of "st_cct st" N Rt C t t] N [OF t] inv t by (auto simp: cct_inv_def)
  qed
  have "below ?C x = below C x" if "x \<in> ran (C t) \<or> x = src" for x
    using follow_adopted [OF out [OF that]] by (simp add: below_def)
  moreover have "ran (?C t) = insert src (ran (C t))" using k by simp
  ultimately show ?thesis using below_step [of ?C t] below_step [of C t] by auto
qed

lemma bundle_fwrite_run:
  assumes inv: "cct_inv st N (bundle_roots b) C" and b: "bundle_ok b st" and ids: "ids_ok st N" "unat (st_next_id st) \<le> 2 ^ 31"
    and free: "C (b_top b) (addr_key PARTIAL_ROOT) = None"
    and ms: "metrics_ready ms" "c2m_ok (ms_kinds ms) M" and rep: "c2m_rep s mp M"
    and small: "num_metrics ms < 2 ^ 16 - 1" "card N * num_metrics ms < 2 ^ 31" "12 * Suc (card N) < 2 ^ 32"
    and tuple: "unat (tuple_length tuple) \<le> length (tuple_ids tuple)" and room: "room fs (8 + 19 * card N)"
  shows "\<exists>sm ns ws st' s'. hpcrun_cct_bundle_fwrite (ms_kinds ms) junk (Some fs) b mp tuple (st, s) =
      Some (HPCRUN_OK, Some (sm, fput fs (enc_cct (map (tmp_node (st_cct st')) ns))), st', s') \<and>
    sm_readable sm \<and> sm_id_tuple sm = tuple \<and>
    map (block_of sm) [0..<unat (sm_num_nz_cct_nodes sm)] = map (block (ms_kinds ms) M (st_cct st)) ws \<and> distinct ws \<and>
    set ws = {q \<in> below C (b_top b) \<union> below C (b_partial_unw_root b). node_values (ms_kinds ms) M q \<noteq> []} \<and>
    set ws \<subseteq> set ns \<and> set ns \<subseteq> N \<and> parents_first (st_cct st') {b_top b} (tl ns) \<and>
    (\<forall>n \<in> set (map (tmp_node (st_cct st')) ns). 0 < sint (cct_id n)) \<and> length ns \<le> card N"
proof -
  let ?t = "b_top b" and ?p = "b_partial_unw_root b"
  have roots: "?t \<in> bundle_roots b" "?p \<in> bundle_roots b" by (simp_all add: bundle_roots_def)
  have N: "?t \<in> N" "?p \<in> N" "finite N" using inv roots by (auto simp: cct_inv_def cct_rep_def)
  have tp: "?t \<noteq> ?p" "b_tree_root b = ?t" "c_parent (st_cct st) ?t = None" using b by (simp_all add: bundle_ok_def)
  have key: "node_key (st_cct st) ?p = addr_key PARTIAL_ROOT" using b by (simp add: bundle_ok_def)
  have out: "?t \<notin> below C ?p"
  proof
    assume "?t \<in> below C ?p"
    then obtain ks where ks: "follow C ?p ks = Some ?t" by (auto simp: below_def)
    with root_not_below [OF inv N(2) roots(1) ks] tp(1) show False by simp
  qed
  let ?C = "C(?t := (C ?t)(node_key (st_cct st) ?p \<mapsto> ?p))"
  have k: "C ?t (node_key (st_cct st) ?p) = None" using free key by simp
  obtain st1 where 1: "hpcrun_cct_insert_node ?t ?p st = Some (?p, st1)" "cct_inv st1 N (bundle_roots b - {?p}) ?C"
    "\<forall>q. same_node ((st_cct st)\<lparr> c_parent := (c_parent (st_cct st))(?p := Some ?t) \<rparr>) (st_cct st1) q"
    using insert_node_rep [OF inv N(1) roots(2) out k] by blast
  have same: "c_persistent_id (st_cct st1) = c_persistent_id (st_cct st)" "c_display (st_cct st1) = c_display (st_cct st)"
    "c_parent (st_cct st1) ?t = None" using 1(3) tp by (auto simp: same_node_def)
  obtain c where c: "cct_at (st_cct st1) ?t c" "set (cct_nodes ?t c) = below ?C ?t" by (rule cct_at_exists [OF 1(2) N(1)])
  let ?qs = "cct_nodes ?t c" and ?I = "wanted (ms_kinds ms) M (st_cct st1)"
  have below: "below ?C ?t = below C ?t \<union> below C ?p" using below_adopted [OF inv roots(1) roots(2) _ k] tp(1) by simp
  have qsN: "set ?qs \<subseteq> N" using c(2) follow_closed [OF cct_inv_closed [OF 1(2)] N(1)] by (auto simp: below_def)
  have dq: "distinct ?qs" using c(1) by (simp add: cct_at_def cct_nodes_def)
  have lq: "length ?qs \<le> card N" using distinct_card [OF dq] card_mono [OF N(3) qsN] by simp
  have lv: "length (concat (map (node_values (ms_kinds ms) M) ?qs)) < 2 ^ 31"
    by (rule le_less_trans [OF all_node_values_bound le_less_trans [OF mult_le_mono1 [OF lq] small(2)]])
  have len: "Suc (length ?qs) < 2 ^ 32" using lq small(3) by simp
  have "length (node_values (ms_kinds ms) M q) < 2 ^ 31" for q using node_values_bound(1) [of ms M q] small(1) by simp
  then have v: "values_ready ms M" using ms by (simp add: values_ready_def)
  have w: "writable ms M (st_cct st1) ?t c"
    using c(1) v lv len ids(1) qsN by (auto simp: writable_def same ids_ok_def)
  have pos: "0 < sint (c_persistent_id (st_cct st) q)" if "q \<in> N" for q
  proof -
    have "0 < c_persistent_id (st_cct st) q" "c_persistent_id (st_cct st) q < st_next_id st" using ids(1) that by (auto simp: ids_ok_def)
    then have u: "0 < unat (c_persistent_id (st_cct st) q)" "unat (c_persistent_id (st_cct st) q) < 2 ^ 31"
      using ids(2) by (auto simp: word_less_nat_alt)
    have "sint (c_persistent_id (st_cct st) q) = int (unat (c_persistent_id (st_cct st) q))"
      by (rule sint_small) (use u(2) in simp)
    then show ?thesis using u(1) by (simp only: of_nat_0_less_iff)
  qed
  have fids: "file_ids_ok (ms_kinds ms) M (st_cct st1) ?qs"
    using pos qsN small(1,3) lq node_values_bound(2) [of _ _ ms M] by (fastforce simp: file_ids_ok_def same)
  let ?ks = "kept_nodes ?I ?t c"
  have ksq: "set ?ks \<subseteq> set ?qs" "length ?ks \<le> length ?qs"
  proof -
    show s: "set ?ks \<subseteq> set ?qs" using set_kept [of ?I c] by (auto simp: kept_nodes_def cct_nodes_def)
    have "kept ?I c = filter (\<lambda>q. q \<in> set (kept ?I c)) (sib_nodes c)" using filter_kept [of c ?I] dq by (simp add: cct_nodes_def)
    then have "length (kept ?I c) \<le> length (sib_nodes c)" by (metis length_filter_le)
    then show "length ?ks \<le> length ?qs" by (simp add: kept_nodes_def cct_nodes_def)
  qed
  have "length (enc_cct (map (tmp_node (st_cct st1)) ?ks)) = 8 + 19 * length ?ks"
    by (simp add: enc_cct_def comp_def length_concat enc_cct_node_def sum_list_triv)
  then have r: "room fs (length (enc_cct (map (tmp_node (st_cct st1)) ?ks)))" using room ksq(2) lq by (auto simp: room_def)
  let ?sm = "sm_of (ms_kinds ms) M (st_cct st1) tuple ?qs" and ?ws = "with_values (ms_kinds ms) M ?qs"
  obtain s' where 2: "hpcrun_cct_fwrite (ms_kinds ms) junk mp (Some ?t) (Some fs) tuple (st_cct st1, s) =
      Some (HPCRUN_OK, Some (?sm, fput fs (enc_cct (map (tmp_node (st_cct st1)) ?ks))),
        (st_cct st1)\<lparr> c_display := marks ?ks None (c_display (st_cct st1)) \<rparr>, s')"
    using cct_fwrite_run [OF w rep r] by blast
  define st2 where "st2 = st1\<lparr> st_cct := (st_cct st1)\<lparr> c_display := marks ?ks None (c_display (st_cct st1)) \<rparr> \<rparr>"
  have tmp: "tmp_node (st_cct st2) = tmp_node (st_cct st1)"
    by (simp add: st2_def tmp_node_def fun_eq_iff hpcrun_cct_parent_def hpcrun_cct_persistent_id_def Let_def split: option.split)
  have run: "hpcrun_cct_bundle_fwrite (ms_kinds ms) junk (Some fs) b mp tuple (st, s) =
      Some (HPCRUN_OK, Some (?sm, fput fs (enc_cct (map (tmp_node (st_cct st2)) ?ks))), st2, s')"
    unfolding tmp using 1(1) 2 tp(2) by (simp add: hpcrun_cct_bundle_fwrite_def st2_def)
  note R = sm_of_readable [OF lv len fids tuple]
  have blocks: "map (block_of ?sm) [0..<unat (sm_num_nz_cct_nodes ?sm)] = map (block (ms_kinds ms) M (st_cct st)) ?ws"
    unfolding sm_of_lists(5) [OF lv len] R(2) by (simp add: block_def same)
  have ws: "set ?ws = {q \<in> below C ?t \<union> below C ?p. node_values (ms_kinds ms) M q \<noteq> []}" "distinct ?ws"
    using c(2) below dq by (auto simp: with_values_def)
  have wsk: "set ?ws \<subseteq> set ?ks"
    using with_values_kept [of "ms_kinds ms" M ?I c] by (auto simp: wanted_def with_values_def cct_nodes_def kept_nodes_def)
  have pf: "parents_first cs {?t} (tl ?ks)" if "c_parent cs = c_parent (st_cct st1)" for cs
  proof -
    have "parents_first (st_cct st1) {?t} (tl ?ks)"
      using kept_parents [of "st_cct st1" ?t "c_children (st_cct st1) ?t" c "{?t}" ?I] c(1) by (simp add: cct_at_def kept_nodes_def)
    moreover have "parents_first cs S qs = parents_first (st_cct st1) S qs" for S qs using that by (induction qs arbitrary: S) simp_all
    ultimately show ?thesis by simp
  qed
  have "\<forall>n \<in> set (map (tmp_node (st_cct st2)) ?ks). 0 < sint (cct_id n)"
    using pos ksq(1) qsN unfolding tmp by (auto simp: tmp_node_def hpcrun_cct_persistent_id_def Let_def same)
  moreover have "parents_first (st_cct st2) {?t} (tl ?ks)" by (rule pf) (simp add: st2_def)
  moreover have "sm_id_tuple ?sm = tuple" by (simp add: sm_of_def Let_def)
  moreover have "set ?ks \<subseteq> N" "length ?ks \<le> card N" using ksq qsN lq by auto
  ultimately show ?thesis using run R(1) blocks ws wsk by blast
qed

section \<open>Properties\<close>

text \<open>
  C2. Attribution of samples, end to end: into the trees of a new thread any list of samples of integer metrics is recorded
  without failure. The contexts of the trees are then exactly the prefixes of the recorded call paths, the partial ones in a
  tree of their own; each sample returned the node of its own call path, whose parents spell that path; nodes of different
  contexts have different persistent identifiers; and the value of each metric at each context is the sum, modulo \<open>2 ^ 64\<close>, of
  the values of the samples of that metric with that call path.
\<close>

theorem sample_attribution:
  assumes "metrics_ready ms" and "\<forall>smp \<in> set ss. adds_samples fadd procs ms (sample_in b smp)" and "tl_map s = None"
    and "st_freelist st = None" and "ids_left st (sum_list (map (sample_frames \<circ> sample_in b) ss) + 3)"
    and "hpcrun_cct_bundle_init attach None st = Some (b, st1)"
  shows "\<exists>qs st' s' N C M. run_bundle retain procs b ss (st1, s, ms) = Some (qs, st', s', ms) \<and>
    c2m_rep s' (tl_map s') M \<and> sampled retain ms b ss qs st' N C M"
  using run_bundle_sampled [OF assms, of retain] by blast

definition example_bt :: "int \<Rightarrow> backtrace_info_t" where
  "example_bt fin = \<lparr> bi_frames = example_frames, bi_begin = fin, bi_last = 4, bi_fence = FENCE_MAIN \<rparr>"

definition example_thread :: "thread_sample list" where
  "example_thread = [(False, example_bt 0, 0, 3), (True, example_bt 3, 0, 7), (False, example_bt 0, 0, 5)]"

lemma example_counts: "counts_int example_ready 0"
  unfolding counts_int_def by (rule exI [of _ "the (metric_data_at example_ready 0)"]) code_simp

lemma example_num: "0 < ms_num_kind_metrics example_ready"
  by code_simp

lemma example_paths: "call_path False (frames example_frames 4 3) = [(1, 0x11), (1, 0x53)]"
  by code_simp

lemma example_thread_adds:
  "\<forall>smp \<in> set example_thread. adds_samples (+) (\<lambda>_. hpcrun_metric_std_inc (+)) example_ready (sample_in b smp)"
proof -
  obtain d where d: "metric_data_at example_ready 0 = Some d" using example_counts by (auto simp: counts_int_def)
  have p: "hpcrun_get_metric_proc 0 example_ready = Some (Some (dm_proc d), example_ready)"
    using d example_num by (simp add: hpcrun_get_metric_proc_def example_ready)
  have f: "frames_in example_frames 4 0" "frames_in example_frames 4 3" by code_simp+
  with example_counts p show ?thesis by (simp add: example_thread_def example_bt_def sample_in_def adds_samples_def)
qed

lemma example_thread_frames: "sum_list (map (sample_frames \<circ> sample_in b) example_thread) = 15"
  by (simp add: example_thread_def example_bt_def sample_in_def example_frames_def)

lemma example_thread_ids: "ids_left example_st (sum_list (map (sample_frames \<circ> sample_in b) example_thread) + 3)"
  by (simp add: example_thread_frames ids_left_def example_st_def)

lemma example_thread_value:
  "samples_value False example_ready (map (sample_in b) example_thread) 0 (b_top b) [(1, 0x11), (1, 0x53), (1, 0x55), (1, 0x72)] = 8"
  by (simp add: samples_value_def example_thread_def example_bt_def sample_in_def example_call_path example_paths)

lemma example_bundle: "\<exists>b st1. hpcrun_cct_bundle_init False None example_st = Some (b, st1)"
  by (simp add: hpcrun_cct_bundle_init_def split: prod.split)

theorem sample_attribution_witness:
  "\<exists>b st1 qs st' s' N C M. hpcrun_cct_bundle_init False None example_st = Some (b, st1) \<and>
    run_bundle False (\<lambda>_. hpcrun_metric_std_inc (+)) b example_thread (st1, example_c2m, example_ready) = Some (qs, st', s', example_ready) \<and>
    c2m_rep s' (tl_map s') M \<and> sampled False example_ready b example_thread qs st' N C M \<and>
    (\<forall>q. follow C (b_top b) [(1, 0x11), (1, 0x53), (1, 0x55), (1, 0x72)] = Some q \<longrightarrow> value_of example_ready M 0 q = 8)"
proof -
  let ?procs = "\<lambda>_. hpcrun_metric_std_inc (+)"
  obtain b st1 where b: "hpcrun_cct_bundle_init False None example_st = Some (b, st1)" using example_bundle by blast
  have s: "tl_map example_c2m = None" "st_freelist example_st = None" by (simp_all add: example_c2m_def example_st_def)
  obtain qs st' s' N C M where run: "run_bundle False ?procs b example_thread (st1, example_c2m, example_ready) = Some (qs, st', s', example_ready)"
    "c2m_rep s' (tl_map s') M" "sampled False example_ready b example_thread qs st' N C M"
    using sample_attribution [OF example_ready example_thread_adds s example_thread_ids b, of False] by blast
  have val: "\<forall>x \<in> bundle_roots b. \<forall>ks q j. follow C x ks = Some q \<longrightarrow>
      value_of example_ready M j q = samples_value False example_ready (map (sample_in b) example_thread) j x ks"
    using run(3) unfolding sampled_def by (elim conjE)
  have root: "b_top b \<in> bundle_roots b" by (simp add: bundle_roots_def)
  have "value_of example_ready M 0 q = 8" if "follow C (b_top b) [(1, 0x11), (1, 0x53), (1, 0x55), (1, 0x72)] = Some q" for q
    unfolding val [rule_format, OF root that] by (rule example_thread_value)
  then have "\<forall>q. follow C (b_top b) [(1, 0x11), (1, 0x53), (1, 0x55), (1, 0x72)] = Some q \<longrightarrow> value_of example_ready M 0 q = 8"
    by (intro allI impI)
  with b run show ?thesis by (intro exI conjI)
qed

text \<open>
  From samples to the profile: the trees of a thread that has recorded samples are written without failure. The section has
  each node after its parent; every node has a positive identifier. The sparse metrics that go with it are well-formed for
  the reader, and their blocks are those of exactly the contexts, of full and of partial unwinds, that have a non-zero value:
  the identifier of the context and its non-zero values, where the value of a metric is the sum of the samples taken in
  that context.
\<close>

theorem profile_section:
  assumes "metrics_ready ms" and "\<forall>smp \<in> set ss. adds_samples fadd procs ms (sample_in b smp)" and "tl_map s = None"
    and "st_freelist st = None" and "ids_left st (sum_list (map (sample_frames \<circ> sample_in b) ss) + 3)"
    and "hpcrun_cct_bundle_init attach None st = Some (b, st1)"
    and "n = 3 + sum_list (map (sample_frames \<circ> sample_in b) ss)"
    and "num_metrics ms < 2 ^ 16 - 1" and "n * num_metrics ms < 2 ^ 31" and "12 * Suc n < 2 ^ 32"
    and "\<forall>smp \<in> set ss. fst (sample_in b smp) = b_top b \<longrightarrow> \<not> prefix [addr_key PARTIAL_ROOT] (sample_path retain (sample_in b smp))"
    and "unat (tuple_length tuple) \<le> length (tuple_ids tuple)" and "room fs (8 + 19 * n)"
  shows "\<exists>qs st' s' N C M sm ns ws st'' s''. run_bundle retain procs b ss (st1, s, ms) = Some (qs, st', s', ms) \<and>
    sampled retain ms b ss qs st' N C M \<and>
    hpcrun_cct_bundle_fwrite (ms_kinds ms) junk (Some fs) b (tl_map s') tuple (st', s') =
      Some (HPCRUN_OK, Some (sm, fput fs (enc_cct (map (tmp_node (st_cct st'')) ns))), st'', s'') \<and>
    sm_readable sm \<and> parents_first (st_cct st'') {b_top b} (tl ns) \<and>
    (\<forall>n \<in> set (map (tmp_node (st_cct st'')) ns). 0 < sint (cct_id n)) \<and>
    map (block_of sm) [0..<unat (sm_num_nz_cct_nodes sm)] = map (block (ms_kinds ms) M (st_cct st')) ws \<and> distinct ws \<and>
    set ws \<subseteq> set ns \<and>
    set ws = {q. \<exists>x \<in> {b_top b, b_partial_unw_root b}. \<exists>ks. follow C x ks = Some q \<and> node_values (ms_kinds ms) M q \<noteq> []}"
proof -
  obtain qs st' s' N C M where 1: "run_bundle retain procs b ss (st1, s, ms) = Some (qs, st', s', ms)"
    "sampled retain ms b ss qs st' N C M" "c2m_rep s' (tl_map s') M" "c2m_ok (ms_kinds ms) M" "ids_ok st' N" "ids_left st' 0"
    "bundle_ok b st'" "card N \<le> n"
    using run_bundle_sampled [OF assms(1-6), of retain] assms(7) by blast
  have inv: "cct_inv st' N (bundle_roots b) C" using 1(2) by (simp add: sampled_def)
  have "paths_of C (b_top b) = {[]} \<union> {ks. \<exists>smp \<in> set (map (sample_in b) ss). fst smp = b_top b \<and> prefix ks (sample_path retain smp)}"
    using 1(2) by (simp add: sampled_def bundle_roots_def)
  then have "[addr_key PARTIAL_ROOT] \<notin> paths_of C (b_top b)" using assms(11) by auto
  then have free: "C (b_top b) (addr_key PARTIAL_ROOT) = None" by (simp add: paths_of_def)
  have ids: "unat (st_next_id st') \<le> 2 ^ 31" using 1(6) by (simp add: ids_left_def)
  have small: "card N * num_metrics ms < 2 ^ 31" "12 * Suc (card N) < 2 ^ 32" "room fs (8 + 19 * card N)"
    using 1(8) assms(9,10,13) by (auto simp: room_def intro: le_less_trans [OF mult_le_mono1 [OF 1(8)]])
  obtain sm ns ws st'' s'' where 2: "hpcrun_cct_bundle_fwrite (ms_kinds ms) junk (Some fs) b (tl_map s') tuple (st', s') =
      Some (HPCRUN_OK, Some (sm, fput fs (enc_cct (map (tmp_node (st_cct st'')) ns))), st'', s'')"
    "sm_readable sm" "map (block_of sm) [0..<unat (sm_num_nz_cct_nodes sm)] = map (block (ms_kinds ms) M (st_cct st')) ws" "distinct ws"
    "set ws = {q \<in> below C (b_top b) \<union> below C (b_partial_unw_root b). node_values (ms_kinds ms) M q \<noteq> []}"
    "set ws \<subseteq> set ns" "parents_first (st_cct st'') {b_top b} (tl ns)" "\<forall>n \<in> set (map (tmp_node (st_cct st'')) ns). 0 < sint (cct_id n)"
    using bundle_fwrite_run [OF inv 1(7,5) ids free assms(1) 1(4,3) assms(8) small(1,2) assms(12) small(3)] by blast
  have "set ws = {q. \<exists>x \<in> {b_top b, b_partial_unw_root b}. \<exists>ks. follow C x ks = Some q \<and> node_values (ms_kinds ms) M q \<noteq> []}"
    using 2(5) by (auto simp: below_def)
  with 1(1,2) 2 show ?thesis by blast
qed

theorem profile_section_witness:
  "\<exists>b st1 qs st' s' N C M sm ns ws st'' s''. hpcrun_cct_bundle_init False None example_st = Some (b, st1) \<and>
    run_bundle False (\<lambda>_. hpcrun_metric_std_inc (+)) b example_thread (st1, example_c2m, example_ready) = Some (qs, st', s', example_ready) \<and>
    sampled False example_ready b example_thread qs st' N C M \<and>
    hpcrun_cct_bundle_fwrite (ms_kinds example_ready) 0 (Some example_file) b (tl_map s') (id_tuple_constructor [] 0) (st', s') =
      Some (HPCRUN_OK, Some (sm, fput example_file (enc_cct (map (tmp_node (st_cct st'')) ns))), st'', s'') \<and>
    sm_readable sm \<and> map (block_of sm) [0..<unat (sm_num_nz_cct_nodes sm)] = map (block (ms_kinds example_ready) M (st_cct st')) ws"
proof -
  obtain b st1 where b: "hpcrun_cct_bundle_init False None example_st = Some (b, st1)" using example_bundle by blast
  have s: "tl_map example_c2m = None" "st_freelist example_st = None" by (simp_all add: example_c2m_def example_st_def)
  have n: "18 = 3 + sum_list (map (sample_frames \<circ> sample_in b) example_thread)" by (simp add: example_thread_frames)
  have m: "num_metrics example_ready = 3" unfolding num_metrics_def by code_simp
  then have m1: "num_metrics example_ready < 2 ^ 16 - 1" "18 * num_metrics example_ready < 2 ^ 31" by simp_all
  have sz: "12 * Suc 18 < (2 :: nat) ^ 32" by simp
  have p: "\<forall>smp \<in> set example_thread. fst (sample_in b smp) = b_top b \<longrightarrow> \<not> prefix [addr_key PARTIAL_ROOT] (sample_path False (sample_in b smp))"
    by (simp add: example_thread_def example_bt_def sample_in_def example_call_path example_paths addr_key_def PARTIAL_ROOT_def ADDR2_def
        HPCRUN_PLACEHOLDER_LM_def)
  have tuple: "unat (tuple_length (id_tuple_constructor [] 0)) \<le> length (tuple_ids (id_tuple_constructor [] 0))"
    by (simp add: id_tuple_constructor_def)
  have room: "room example_file (8 + 19 * 18)" by (simp add: room_def example_file_def)
  from profile_section [OF example_ready example_thread_adds s example_thread_ids b n m1 sz p tuple room, of 0] b
  show ?thesis by blast
qed

end
