(* ===== verification/Linked_List.thy ===== *)
theory Linked_List
  imports Splay
begin

text \<open>
  Linked lists in a store: a list is the pointer to its first node and the field of the nodes that
  points to the next one. \<open>linked nx x L\<close> says that following \<open>nx\<close> from \<open>x\<close> visits the nodes \<open>L\<close> and
  then the null pointer. The loops of the sources over such lists are \<open>chain_find\<close>, the search for the
  first node with a property, and \<open>chain_fold\<close>, a loop that updates a state at each node; on a cyclic list
  they do not end, which is \<open>None\<close>.
\<close>

fun linked :: "(ptr \<Rightarrow> ptr option) \<Rightarrow> ptr option \<Rightarrow> ptr list \<Rightarrow> bool" where
  "linked nx x [] \<longleftrightarrow> x = None"
| "linked nx x (p # ps) \<longleftrightarrow> x = Some p \<and> linked nx (nx p) ps"

partial_function (option) chain_find :: "(ptr \<Rightarrow> bool) \<Rightarrow> (ptr \<Rightarrow> ptr option) \<Rightarrow> ptr option \<Rightarrow> ptr option option" where
  "chain_find P nx x = (case x of None \<Rightarrow> Some None
     | Some p \<Rightarrow> if P p then Some (Some p) else chain_find P nx (nx p))"

partial_function (option) chain_fold :: "(ptr \<Rightarrow> 's \<Rightarrow> 's option) \<Rightarrow> (ptr \<Rightarrow> ptr option) \<Rightarrow> ptr option \<Rightarrow> 's \<Rightarrow> 's option" where
  "chain_fold f nx x s = (case x of None \<Rightarrow> Some s
     | Some p \<Rightarrow> (case f p s of None \<Rightarrow> None | Some s \<Rightarrow> chain_fold f nx (nx p) s))"

declare chain_find.simps [code] chain_fold.simps [code]

lemma linked_None [simp]: "linked nx None L \<longleftrightarrow> L = []"
  by (cases L) auto

lemma linked_Some: "linked nx (Some p) L \<longleftrightarrow> (\<exists>ps. L = p # ps \<and> linked nx (nx p) ps)"
  by (cases L) auto

lemma linked_unique: "linked nx x L \<Longrightarrow> linked nx x L' \<Longrightarrow> L = L'"
  by (induction L arbitrary: x L') (auto simp: linked_Some)

lemma linked_cong: "(\<And>p. p \<in> set L \<Longrightarrow> nx' p = nx p) \<Longrightarrow> linked nx' x L \<longleftrightarrow> linked nx x L"
  by (induction L arbitrary: x) auto

lemma linked_upd [simp]: "p \<notin> set L \<Longrightarrow> linked (nx(p := v)) x L \<longleftrightarrow> linked nx x L"
  by (rule linked_cong) auto

lemma linked_append: "linked nx x (L @ p # ps) \<Longrightarrow> linked nx (Some p) (p # ps)"
  by (induction L arbitrary: x) auto

lemma linked_tail_short: "linked nx x L \<Longrightarrow> linked nx (Some p) (p # ps) \<Longrightarrow> p \<in> set L \<Longrightarrow> length ps < length L"
proof -
  assume c: "linked nx x L" "linked nx (Some p) (p # ps)" "p \<in> set L"
  then obtain a b where L: "L = a @ p # b" by (meson split_list)
  from linked_append [of nx x a p b] c L have "p # b = p # ps" using linked_unique by blast
  with L show ?thesis by simp
qed

lemma linked_distinct: "linked nx x L \<Longrightarrow> distinct L"
proof (induction L arbitrary: x)
  case (Cons p L)
  then have c: "linked nx (nx p) L" "linked nx (Some p) (p # L)" by simp_all
  have "p \<notin> set L" using linked_tail_short [OF c] by auto
  with Cons.IH [OF c(1)] show ?case by simp
qed simp

lemma linked_last:
  assumes "linked nx x (L @ [p])"
  shows "nx p = None"
  using assms by (induction L arbitrary: x) auto

text \<open>Appending behind the last node.\<close>

lemma linked_snoc:
  "linked nx x L \<Longrightarrow> q \<notin> set L \<Longrightarrow> L = [] \<or> last L = l \<Longrightarrow> nx q = None \<Longrightarrow>
   linked (if L = [] then nx else nx(l := Some q)) (if L = [] then Some q else x) (L @ [q])"
proof (induction L arbitrary: x)
  case (Cons p L)
  have d: "distinct (p # L)" using Cons.prems(1) by (rule linked_distinct)
  show ?case
  proof (cases "L = []")
    case True
    with Cons.prems show ?thesis by auto
  next
    case False
    then have "l \<noteq> p" "q \<noteq> l" using Cons.prems d by auto
    with False Cons show ?thesis by auto
  qed
qed simp

lemma chain_find_linked:
  "linked nx x L \<Longrightarrow> chain_find P nx x = Some (List.find P L)"
  by (induction L arbitrary: x) (auto simp: chain_find.simps)

lemma chain_fold_linked:
  "linked nx x L \<Longrightarrow> (\<And>p s. p \<in> set L \<Longrightarrow> f p s = Some (g p s)) \<Longrightarrow> chain_fold f nx x s = Some (fold g L s)"
  by (induction L arbitrary: x s) (auto simp: chain_fold.simps)

end
