(* ===== verification/Loadmap.thy ===== *)
theory Loadmap
  imports Linked_List Hpcrun_Fmt
begin

text \<open>
  The load map of a process (\<open>src/hpcrun/loadmap.c\<close>): the load modules that were ever mapped, newest first,
  as a doubly linked list; the description (\<open>dso_info_t\<close>) of each one that is mapped now; the list of free
  descriptions; and the clients that are told when a module is mapped or unmapped.

  Modules, descriptions and the structures of the clients are three stores. Memory that was allocated and not
  yet set has the contents the store happens to have there. The callbacks of the clients are numbers, and a call is
  recorded with the module it was made for. Using the load map before \<open>hpcrun_initLoadmap\<close>, or a loop over a cyclic
  list, gives \<open>None\<close>. The strings are the bytes before the terminating zero.
\<close>

section \<open>Data\<close>

record FnboundsResponse =
  fb_entries :: "ptr option"
  fb_num_entries :: u64
  fb_is_relocatable :: bool
  fb_reference_offset :: u64

record dso_info_t =
  dso_name :: c_string
  dso_start_addr :: u64
  dso_end_addr :: u64
  dso_start_to_ref_dist :: u64
  dso_table :: "ptr option"
  dso_nsymbols :: u64
  dso_is_relocatable :: bool
  dso_next :: "ptr option"
  dso_prev :: "ptr option"

record load_module_t =
  mod_id :: u16
  mod_name :: c_string
  mod_dso_info :: "ptr option"
  mod_dlpi_phdr :: "ptr option"
  mod_next :: "ptr option"
  mod_prev :: "ptr option"
  mod_flags :: u32

record hpcrun_loadmap_t =
  lmap_size :: u16
  lmap_head :: "ptr option"
  lmap_end :: "ptr option"

record loadmap_notify_t =
  n_map :: "nat option"
  n_unmap :: "nat option"
  n_next :: "ptr option"

record loadmap_state =
  s_mods :: "ptr \<Rightarrow> load_module_t"
  s_dsos :: "ptr \<Rightarrow> dso_info_t"
  s_notify :: "ptr \<Rightarrow> loadmap_notify_t"
  s_loadmap_ptr :: "hpcrun_loadmap_t option"
  s_dso_free_list :: "ptr option"
  notification_recipients :: "ptr option"
  s_calls :: "(nat \<times> ptr) list"
  s_fresh :: ptr

definition LOADMAP_ENTRY_ANALYZE :: u32 where "LOADMAP_ENTRY_ANALYZE = 1"

definition upd_mod :: "ptr \<Rightarrow> (load_module_t \<Rightarrow> load_module_t) \<Rightarrow> loadmap_state \<Rightarrow> loadmap_state" where
  "upd_mod p f s = s\<lparr> s_mods := (s_mods s)(p := f (s_mods s p)) \<rparr>"

definition upd_dso :: "ptr \<Rightarrow> (dso_info_t \<Rightarrow> dso_info_t) \<Rightarrow> loadmap_state \<Rightarrow> loadmap_state" where
  "upd_dso p f s = s\<lparr> s_dsos := (s_dsos s)(p := f (s_dsos s p)) \<rparr>"

section \<open>Clients\<close>

definition hpcrun_loadmap_notify_register :: "ptr \<Rightarrow> loadmap_state \<Rightarrow> loadmap_state" where
  "hpcrun_loadmap_notify_register n s =
    s\<lparr> s_notify := (s_notify s)(n := (s_notify s n)\<lparr> n_next := notification_recipients s \<rparr>),
       notification_recipients := Some n \<rparr>"

definition call_client :: "nat option \<Rightarrow> ptr \<Rightarrow> loadmap_state \<Rightarrow> loadmap_state" where
  "call_client cb lm s = (case cb of None \<Rightarrow> s | Some f \<Rightarrow> s\<lparr> s_calls := s_calls s @ [(f, lm)] \<rparr>)"

definition hpcrun_loadmap_notify_map :: "ptr \<Rightarrow> loadmap_state \<Rightarrow> loadmap_state option" where
  "hpcrun_loadmap_notify_map lm s =
    chain_fold (\<lambda>n s. Some (call_client (n_map (s_notify s n)) lm s)) (\<lambda>n. n_next (s_notify s n)) (notification_recipients s) s"

definition hpcrun_loadmap_notify_unmap :: "ptr \<Rightarrow> loadmap_state \<Rightarrow> loadmap_state option" where
  "hpcrun_loadmap_notify_unmap lm s =
    chain_fold (\<lambda>n s. Some (call_client (n_unmap (s_notify s n)) lm s)) (\<lambda>n. n_next (s_notify s n)) (notification_recipients s) s"

section \<open>Descriptions of mapped modules\<close>

definition hpcrun_dso_new :: "loadmap_state \<Rightarrow> ptr \<times> loadmap_state" where
  "hpcrun_dso_new s = (case s_dso_free_list s of
     Some x \<Rightarrow>
       (let s = s\<lparr> s_dso_free_list := dso_next (s_dsos s x) \<rparr>;
            s = (case s_dso_free_list s of Some y \<Rightarrow> upd_dso y (\<lambda>d. d\<lparr> dso_prev := None \<rparr>) s | None \<Rightarrow> s)
        in (x, upd_dso x (\<lambda>d. d\<lparr> dso_next := None \<rparr>) s))
   | None \<Rightarrow> (s_fresh s, s\<lparr> s_fresh := Suc (s_fresh s) \<rparr>))"

definition hpcrun_dso_make :: "c_string \<Rightarrow> FnboundsResponse option \<Rightarrow> u64 \<Rightarrow> u64 \<Rightarrow> loadmap_state \<Rightarrow> ptr \<times> loadmap_state" where
  "hpcrun_dso_make name fnbres startaddr endaddr s = (case hpcrun_dso_new s of (x, s) \<Rightarrow>
     (x, upd_dso x (\<lambda>d.
        let d = d\<lparr> dso_name := c_str name, dso_nsymbols := 0, dso_start_to_ref_dist := 0,
                   dso_start_addr := startaddr, dso_end_addr := endaddr \<rparr>;
            d = (case fnbres of None \<Rightarrow> d
                 | Some r \<Rightarrow>
                    (let d = d\<lparr> dso_table := fb_entries r, dso_nsymbols := fb_num_entries r, dso_is_relocatable := fb_is_relocatable r \<rparr>
                     in if fb_is_relocatable r then d\<lparr> dso_start_to_ref_dist := startaddr - fb_reference_offset r \<rparr> else d))
        in d\<lparr> dso_next := None, dso_prev := None \<rparr>) s))"

section \<open>Load modules\<close>

definition hpcrun_loadModule_new :: "c_string \<Rightarrow> loadmap_state \<Rightarrow> (ptr \<times> loadmap_state) option" where
  "hpcrun_loadModule_new name s = (case s_loadmap_ptr s of None \<Rightarrow> None
     | Some m \<Rightarrow>
        (let x = s_fresh s; size = lmap_size m + 1
         in Some (x, s\<lparr> s_fresh := Suc x, s_loadmap_ptr := Some (m\<lparr> lmap_size := size \<rparr>),
              s_mods := (s_mods s)(x := \<lparr> mod_id = size, mod_name = c_str name, mod_dso_info = None, mod_dlpi_phdr = None,
                                          mod_next = None, mod_prev = None, mod_flags = 0 \<rparr>) \<rparr>)))"

definition hpcrun_loadModule_flags_set :: "ptr \<Rightarrow> u32 \<Rightarrow> loadmap_state \<Rightarrow> loadmap_state" where
  "hpcrun_loadModule_flags_set lm flag s = upd_mod lm (\<lambda>m. m\<lparr> mod_flags := mod_flags m OR flag \<rparr>) s"

definition hpcrun_loadModule_flags_get :: "ptr \<Rightarrow> loadmap_state \<Rightarrow> u32" where
  "hpcrun_loadModule_flags_get lm s = mod_flags (s_mods s lm)"

section \<open>The load map\<close>

definition hpcrun_loadmap_init :: hpcrun_loadmap_t where
  "hpcrun_loadmap_init = \<lparr> lmap_size = 0, lmap_head = None, lmap_end = None \<rparr>"

definition hpcrun_initLoadmap :: "loadmap_state \<Rightarrow> loadmap_state" where
  "hpcrun_initLoadmap s =
    (let s = s\<lparr> notification_recipients := None \<rparr>
     in if s_loadmap_ptr s = None then s\<lparr> s_loadmap_ptr := Some hpcrun_loadmap_init, s_dso_free_list := None \<rparr> else s)"

definition hpcrun_getLoadmap :: "loadmap_state \<Rightarrow> hpcrun_loadmap_t option" where
  "hpcrun_getLoadmap s = s_loadmap_ptr s"

definition find_module :: "(ptr \<Rightarrow> bool) \<Rightarrow> loadmap_state \<Rightarrow> ptr option option" where
  "find_module P s = (case s_loadmap_ptr s of None \<Rightarrow> None
     | Some m \<Rightarrow> chain_find P (\<lambda>x. mod_next (s_mods s x)) (lmap_head m))"

definition hpcrun_loadmap_findByAddr :: "u64 \<Rightarrow> u64 \<Rightarrow> loadmap_state \<Rightarrow> (ptr option \<times> loadmap_state) option" where
  "hpcrun_loadmap_findByAddr begin_addr end_addr s =
    (if begin_addr = 0 then Some (None, s)
     else map_option (\<lambda>r. case r of None \<Rightarrow> (None, s)
         | Some x \<Rightarrow> (Some x, hpcrun_loadModule_flags_set x LOADMAP_ENTRY_ANALYZE s))
       (find_module (\<lambda>x. case mod_dso_info (s_mods s x) of None \<Rightarrow> False
          | Some d \<Rightarrow> dso_start_addr (s_dsos s d) \<le> begin_addr \<and> end_addr \<le> dso_end_addr (s_dsos s d)) s))"

definition hpcrun_loadmap_findByName :: "c_string \<Rightarrow> loadmap_state \<Rightarrow> ptr option option" where
  "hpcrun_loadmap_findByName name s = find_module (\<lambda>x. mod_name (s_mods s x) = c_str name) s"

definition hpcrun_loadmap_findById :: "u16 \<Rightarrow> loadmap_state \<Rightarrow> ptr option option" where
  "hpcrun_loadmap_findById i s = find_module (\<lambda>x. mod_id (s_mods s x) = i) s"

text \<open>
  The last component of a path, as \<open>basename\<close> of \<open>libgen.h\<close> gives it. (It may cut a trailing slash in place; the names of
  load modules are paths of files and have none.)
\<close>

definition basename :: "c_string \<Rightarrow> c_string" where
  "basename path = (if path = [] then [0x2e]
     else (let p = rev (dropWhile (\<lambda>c. c = 0x2f) (rev path))
           in if p = [] then [0x2f] else rev (takeWhile (\<lambda>c. c \<noteq> 0x2f) (rev p))))"

definition hpcrun_loadmap_findLoadName :: "c_string \<Rightarrow> loadmap_state \<Rightarrow> c_string option option" where
  "hpcrun_loadmap_findLoadName name s =
    map_option (map_option (\<lambda>x. mod_name (s_mods s x))) (find_module (\<lambda>x. basename (mod_name (s_mods s x)) = c_str name) s)"

definition hpcrun_loadmap_pushFront :: "ptr \<Rightarrow> loadmap_state \<Rightarrow> loadmap_state option" where
  "hpcrun_loadmap_pushFront lm s = (case s_loadmap_ptr s of None \<Rightarrow> None
     | Some m \<Rightarrow> Some (case lmap_head m of
         Some h \<Rightarrow>
           (let s = upd_mod h (\<lambda>x. x\<lparr> mod_prev := Some lm \<rparr>) s;
                s = upd_mod lm (\<lambda>x. x\<lparr> mod_next := Some h, mod_prev := None \<rparr>) s
            in s\<lparr> s_loadmap_ptr := Some (m\<lparr> lmap_head := Some lm \<rparr>) \<rparr>)
       | None \<Rightarrow>
           (let s = s\<lparr> s_loadmap_ptr := Some (m\<lparr> lmap_head := Some lm, lmap_end := Some lm \<rparr>) \<rparr>
            in upd_mod lm (\<lambda>x. x\<lparr> mod_next := None, mod_prev := None \<rparr>) s)))"

definition hpcrun_loadmap_unmap :: "ptr \<Rightarrow> loadmap_state \<Rightarrow> loadmap_state option" where
  "hpcrun_loadmap_unmap lm s = (case mod_dso_info (s_mods s lm) of None \<Rightarrow> Some s
     | Some old_dso \<Rightarrow>
        (case hpcrun_loadmap_notify_unmap lm s of None \<Rightarrow> None
         | Some s \<Rightarrow>
            (let s = upd_mod lm (\<lambda>x. x\<lparr> mod_dso_info := None, mod_dlpi_phdr := None \<rparr>) s;
                 s = upd_dso old_dso (\<lambda>d. d\<lparr> dso_next := s_dso_free_list s, dso_prev := None \<rparr>) s;
                 s = (case s_dso_free_list s of Some y \<Rightarrow> upd_dso y (\<lambda>d. d\<lparr> dso_prev := Some old_dso \<rparr>) s | None \<Rightarrow> s)
             in Some (s\<lparr> s_dso_free_list := Some old_dso \<rparr>))))"

definition hpcrun_loadmap_map :: "ptr \<Rightarrow> loadmap_state \<Rightarrow> (ptr \<times> loadmap_state) option" where
  "hpcrun_loadmap_map dso s =
    (case hpcrun_loadmap_findByName (dso_name (s_dsos s dso)) s of None \<Rightarrow> None
     | Some r \<Rightarrow>
        (case (case r of
             Some lm \<Rightarrow>
               (if mod_dso_info (s_mods s lm) \<noteq> Some dso
                then map_option (\<lambda>s. (lm, upd_mod lm (\<lambda>x. x\<lparr> mod_dso_info := Some dso \<rparr>) s)) (hpcrun_loadmap_unmap lm s)
                else Some (lm, s))
           | None \<Rightarrow>
               (case hpcrun_loadModule_new (dso_name (s_dsos s dso)) s of None \<Rightarrow> None
                | Some (lm, s) \<Rightarrow>
                   map_option (Pair lm) (hpcrun_loadmap_pushFront lm (upd_mod lm (\<lambda>x. x\<lparr> mod_dso_info := Some dso \<rparr>) s)))) of
           None \<Rightarrow> None
         | Some (lm, s) \<Rightarrow> map_option (Pair lm) (hpcrun_loadmap_notify_map lm s)))"

definition hpcrun_loadModule_add :: "c_string \<Rightarrow> loadmap_state \<Rightarrow> (u16 \<times> loadmap_state) option" where
  "hpcrun_loadModule_add name s = (case hpcrun_loadModule_new name s of None \<Rightarrow> None
     | Some (lm, s) \<Rightarrow> map_option (\<lambda>s. (mod_id (s_mods s lm), s)) (hpcrun_loadmap_pushFront lm s))"

partial_function (option) iterate_modules :: "('d \<Rightarrow> ptr \<Rightarrow> int \<times> 'd) \<Rightarrow> (ptr \<Rightarrow> load_module_t) \<Rightarrow> ptr option \<Rightarrow> int \<Rightarrow> 'd \<Rightarrow>
    (int \<times> 'd) option" where
  "iterate_modules cb mods x ret data = (case x of None \<Rightarrow> Some (ret, data)
     | Some p \<Rightarrow> (case mod_dlpi_phdr (mods p) of None \<Rightarrow> iterate_modules cb mods (mod_next (mods p)) ret data
        | Some _ \<Rightarrow> (case cb data p of (ret, data) \<Rightarrow>
            if ret \<noteq> 0 then Some (ret, data) else iterate_modules cb mods (mod_next (mods p)) ret data)))"

declare iterate_modules.simps [code]

definition hpcrun_loadmap_iterate :: "('d \<Rightarrow> ptr \<Rightarrow> int \<times> 'd) \<Rightarrow> 'd \<Rightarrow> loadmap_state \<Rightarrow> (int \<times> 'd) option" where
  "hpcrun_loadmap_iterate cb data s = (case s_loadmap_ptr s of None \<Rightarrow> None
     | Some m \<Rightarrow> iterate_modules cb (s_mods s) (lmap_head m) 0 data)"

section \<open>Invariant\<close>

text \<open>
  \<open>L\<close> are the modules from the head on, \<open>F\<close> the free descriptions and \<open>R\<close> the registered clients. The identifiers count down from
  the number of modules, as 16-bit numbers; a description is free or belongs to at most one module.
\<close>

definition end_of :: "ptr list \<Rightarrow> ptr option" where
  "end_of L = (if L = [] then None else Some (last L))"

definition dsos_ok :: "loadmap_state \<Rightarrow> ptr list \<Rightarrow> ptr list \<Rightarrow> bool" where
  "dsos_ok s L F \<longleftrightarrow> linked (\<lambda>d. dso_next (s_dsos s d)) (s_dso_free_list s) F \<and>
     linked (\<lambda>d. dso_prev (s_dsos s d)) (end_of F) (rev F) \<and> set F \<subseteq> {..<s_fresh s} \<and>
     (\<forall>p \<in> set L. \<forall>d. mod_dso_info (s_mods s p) = Some d \<longrightarrow> d < s_fresh s \<and> d \<notin> set F) \<and>
     (\<forall>p \<in> set L. \<forall>q \<in> set L. \<forall>d. mod_dso_info (s_mods s p) = Some d \<longrightarrow> mod_dso_info (s_mods s q) = Some d \<longrightarrow> p = q)"

definition mods_ok :: "loadmap_state \<Rightarrow> ptr list \<Rightarrow> bool" where
  "mods_ok s L \<longleftrightarrow> (\<exists>m. s_loadmap_ptr s = Some m \<and> linked (\<lambda>p. mod_next (s_mods s p)) (lmap_head m) L \<and> lmap_end m = end_of L \<and>
       lmap_size m = of_nat (length L)) \<and>
     linked (\<lambda>p. mod_prev (s_mods s p)) (end_of L) (rev L) \<and>
     map (\<lambda>p. mod_id (s_mods s p)) L = map of_nat (rev [1..<Suc (length L)]) \<and> set L \<subseteq> {..<s_fresh s}"

definition loadmap_inv :: "loadmap_state \<Rightarrow> ptr list \<Rightarrow> ptr list \<Rightarrow> ptr list \<Rightarrow> bool" where
  "loadmap_inv s L F R \<longleftrightarrow> mods_ok s L \<and> dsos_ok s L F \<and> linked (\<lambda>n. n_next (s_notify s n)) (notification_recipients s) R"

text \<open>A description that is neither free nor in use, as the one \<open>hpcrun_dso_make\<close> returns.\<close>

definition loose :: "loadmap_state \<Rightarrow> ptr list \<Rightarrow> ptr list \<Rightarrow> ptr \<Rightarrow> bool" where
  "loose s L F d \<longleftrightarrow> d < s_fresh s \<and> d \<notin> set F \<and> (\<forall>p \<in> set L. mod_dso_info (s_mods s p) \<noteq> Some d)"

lemma end_of_simps [simp]: "end_of [] = None" "end_of (p # L) = Some (last (p # L))" "end_of (L @ [p]) = Some p"
  by (simp_all add: end_of_def)

lemma upd_mod_simps [simp]:
  "s_mods (upd_mod p f s) = (s_mods s)(p := f (s_mods s p))" "s_dsos (upd_mod p f s) = s_dsos s"
  "s_notify (upd_mod p f s) = s_notify s" "s_loadmap_ptr (upd_mod p f s) = s_loadmap_ptr s"
  "s_dso_free_list (upd_mod p f s) = s_dso_free_list s" "notification_recipients (upd_mod p f s) = notification_recipients s"
  "s_calls (upd_mod p f s) = s_calls s" "s_fresh (upd_mod p f s) = s_fresh s"
  by (simp_all add: upd_mod_def)

lemma upd_dso_simps [simp]:
  "s_dsos (upd_dso p g s) = (s_dsos s)(p := g (s_dsos s p))" "s_mods (upd_dso p g s) = s_mods s"
  "s_notify (upd_dso p g s) = s_notify s" "s_loadmap_ptr (upd_dso p g s) = s_loadmap_ptr s"
  "s_dso_free_list (upd_dso p g s) = s_dso_free_list s" "notification_recipients (upd_dso p g s) = notification_recipients s"
  "s_calls (upd_dso p g s) = s_calls s" "s_fresh (upd_dso p g s) = s_fresh s"
  by (simp_all add: upd_dso_def)

lemma linked_prev_Cons:
  assumes "linked pv (end_of L) (rev L)" and "x \<notin> set L"
  shows "linked (if L = [] then pv(x := None) else pv(hd L := Some x, x := None)) (end_of (x # L)) (rev (x # L))"
proof (cases L)
  case Nil
  then show ?thesis by simp
next
  case (Cons h T)
  then have "distinct (rev L)" using assms(1) linked_distinct by blast
  then have "h \<notin> set T" using Cons by simp
  with assms Cons have "linked pv (end_of L) (rev T @ [h])" by simp
  then have "linked (pv(x := None, h := Some x)) (end_of L) ((rev T @ [h]) @ [x])"
    using linked_snoc [of "pv(x := None)" "end_of L" "rev T @ [h]" x h] assms(2) Cons by auto
  with Cons assms(2) show ?thesis by (auto simp: fun_upd_twist)
qed

lemma linked_prev_tl:
  assumes "linked pv (end_of (h # y # T)) (rev (h # y # T))"
  shows "linked (pv(y := None)) (end_of (y # T)) (rev (y # T))"
proof -
  have "y \<notin> set T" using linked_distinct [OF assms] by auto
  have "linked (pv(y := None)) x (A @ [y])" if "linked pv x (A @ [y, h])" "y \<notin> set A" for x A
    using that by (induction A arbitrary: x) auto
  from this [of _ "rev T"] assms \<open>y \<notin> set T\<close> show ?thesis by simp
qed

section \<open>What the clients are told\<close>

definition told :: "('n \<Rightarrow> nat option) \<Rightarrow> 'n list \<Rightarrow> ptr \<Rightarrow> (nat \<times> ptr) list" where
  "told cb R lm = map (\<lambda>f. (f, lm)) (concat (map (\<lambda>n. case cb n of None \<Rightarrow> [] | Some f \<Rightarrow> [f]) R))"

lemma chain_fold_calls:
  assumes "linked nx x R"
  shows "chain_fold (\<lambda>n s. Some (call_client (cb (s_notify s n)) lm s)) nx x s =
    Some (s\<lparr> s_calls := s_calls s @ told (\<lambda>n. cb (s_notify s n)) R lm \<rparr>)"
  using assms
proof (induction R arbitrary: x s)
  case (Cons n R)
  have "s_notify (call_client c lm s) = s_notify s" for c by (simp add: call_client_def split: option.split)
  with Cons show ?case by (auto simp: chain_fold.simps call_client_def told_def split: option.split)
qed (simp add: chain_fold.simps told_def)

lemma notify_runs:
  assumes "linked (\<lambda>n. n_next (s_notify s n)) (notification_recipients s) R"
  shows "hpcrun_loadmap_notify_map lm s = Some (s\<lparr> s_calls := s_calls s @ told (\<lambda>n. n_map (s_notify s n)) R lm \<rparr>)"
    and "hpcrun_loadmap_notify_unmap lm s = Some (s\<lparr> s_calls := s_calls s @ told (\<lambda>n. n_unmap (s_notify s n)) R lm \<rparr>)"
  unfolding hpcrun_loadmap_notify_map_def hpcrun_loadmap_notify_unmap_def
  using chain_fold_calls [OF assms] by auto

section \<open>The load map as a list\<close>

text \<open>
  What a client can see of a module: its identifier, name and flags, and while it is mapped the addresses, the distance to the
  reference address and the number of symbols of its description.
\<close>

record module_view =
  mv_id :: u16
  mv_name :: c_string
  mv_dso :: "(u64 \<times> u64 \<times> u64 \<times> u64) option"
  mv_flags :: u32

definition dso_view :: "dso_info_t \<Rightarrow> u64 \<times> u64 \<times> u64 \<times> u64" where
  "dso_view d = (dso_start_addr d, dso_end_addr d, dso_start_to_ref_dist d, dso_nsymbols d)"

definition mview :: "loadmap_state \<Rightarrow> ptr \<Rightarrow> module_view" where
  "mview s p = \<lparr> mv_id = mod_id (s_mods s p), mv_name = mod_name (s_mods s p),
     mv_dso = map_option (\<lambda>d. dso_view (s_dsos s d)) (mod_dso_info (s_mods s p)), mv_flags = mod_flags (s_mods s p) \<rparr>"

definition view :: "loadmap_state \<Rightarrow> ptr list \<Rightarrow> module_view list" where
  "view s L = map (mview s) L"

fun upd_first :: "('a \<Rightarrow> bool) \<Rightarrow> ('a \<Rightarrow> 'a) \<Rightarrow> 'a list \<Rightarrow> 'a list" where
  "upd_first P f [] = []"
| "upd_first P f (x # xs) = (if P x then f x # xs else x # upd_first P f xs)"

lemma upd_first_none: "(\<And>x. x \<in> set xs \<Longrightarrow> \<not> P x) \<Longrightarrow> upd_first P f xs = xs"
  by (induction xs) auto

lemma upd_first_find:
  assumes "List.find (\<lambda>p. P (g p)) L = Some q" and "distinct L" and "g' q = f (g q)" and "\<And>p. p \<noteq> q \<Longrightarrow> p \<in> set L \<Longrightarrow> g' p = g p"
  shows "map g' L = upd_first P f (map g L)"
  using assms
proof (induction L)
  case (Cons p L)
  show ?case
  proof (cases "P (g p)")
    case True
    then have "q = p" using Cons.prems(1) by simp
    moreover have "g' x = g x" if "x \<in> set L" for x using that Cons.prems(2) \<open>q = p\<close> by (intro Cons.prems(4)) auto
    ultimately show ?thesis using True Cons.prems(3) by simp
  next
    case False
    with Cons.prems have "List.find (\<lambda>p. P (g p)) L = Some q" by simp
    then have "q \<in> set L" by (auto simp: find_Some_iff)
    then have "g' p = g p" using Cons.prems(2) by (intro Cons.prems(4)) auto
    with False Cons show ?thesis by auto
  qed
qed simp

lemma upd_first_view:
  assumes "List.find (\<lambda>p. P (mview s p)) L = Some q" and "distinct L" and "mview s' q = f (mview s q)"
    and "\<And>p. p \<noteq> q \<Longrightarrow> mview s' p = mview s p"
  shows "view s' L = upd_first P f (view s L)"
  unfolding view_def using assms by (intro upd_first_find [where P = P and g = "mview s"]) auto

lemma find_in: "List.find P L = Some q \<Longrightarrow> q \<in> set L \<and> P q"
  by (auto simp: find_Some_iff)

lemma find_module_inv:
  assumes "mods_ok s L"
  shows "find_module P s = Some (List.find P L)"
  using assms by (auto simp: find_module_def mods_ok_def intro: chain_find_linked)

lemma mods_distinct: "mods_ok s L \<Longrightarrow> distinct L"
  by (auto simp: mods_ok_def dest: linked_distinct)

text \<open>Updates of a module that keep its links, and of descriptions that no module has.\<close>

lemma mods_ok_cong:
  assumes "mods_ok s L" and "s_loadmap_ptr s' = s_loadmap_ptr s" and "s_fresh s \<le> s_fresh s'"
    and "\<And>p. p \<in> set L \<Longrightarrow> mod_next (s_mods s' p) = mod_next (s_mods s p) \<and> mod_prev (s_mods s' p) = mod_prev (s_mods s p) \<and>
      mod_id (s_mods s' p) = mod_id (s_mods s p)"
  shows "mods_ok s' L"
proof -
  have "linked (\<lambda>p. mod_next (s_mods s' p)) x L = linked (\<lambda>p. mod_next (s_mods s p)) x L" for x
    by (rule linked_cong) (simp add: assms(4))
  moreover have "linked (\<lambda>p. mod_prev (s_mods s' p)) x (rev L) = linked (\<lambda>p. mod_prev (s_mods s p)) x (rev L)" for x
    by (rule linked_cong) (simp add: assms(4))
  moreover have "map (\<lambda>p. mod_id (s_mods s' p)) L = map (\<lambda>p. mod_id (s_mods s p)) L" by (simp add: assms(4))
  ultimately show ?thesis using assms(1,2,3) unfolding mods_ok_def by (fastforce simp del: map_eq_conv)
qed

subsection \<open>Making a description\<close>

definition made :: "c_string \<Rightarrow> FnboundsResponse option \<Rightarrow> u64 \<Rightarrow> u64 \<Rightarrow> dso_info_t \<Rightarrow> bool" where
  "made name fnbres a e d \<longleftrightarrow> dso_name d = c_str name \<and>
     dso_view d = (a, e, case fnbres of None \<Rightarrow> 0 | Some r \<Rightarrow> if fb_is_relocatable r then a - fb_reference_offset r else 0,
       case fnbres of None \<Rightarrow> 0 | Some r \<Rightarrow> fb_num_entries r)"

lemma dso_new_inv:
  assumes "loadmap_inv s L F R" and "hpcrun_dso_new s = (d, s')"
  shows "loadmap_inv s' L (tl F) R" "loose s' L (tl F) d" "view s' L = view s L" "s_calls s' = s_calls s" "s_mods s' = s_mods s"
    "s_notify s' = s_notify s"
proof -
  have dok: "dsos_ok s L F" and mok: "mods_ok s L" and nt: "linked (\<lambda>n. n_next (s_notify s n)) (notification_recipients s) R"
    using assms(1) by (simp_all add: loadmap_inv_def)
  have *: "loadmap_inv s' L (tl F) R \<and> loose s' L (tl F) d \<and> view s' L = view s L \<and> s_calls s' = s_calls s \<and> s_mods s' = s_mods s \<and>
    s_notify s' = s_notify s"
  proof (cases F)
    case Nil
    then have free: "s_dso_free_list s = None" using dok by (simp add: dsos_ok_def)
    then have s': "d = s_fresh s" "s' = s\<lparr> s_fresh := Suc (s_fresh s) \<rparr>" using assms(2) by (auto simp: hpcrun_dso_new_def)
    have "mods_ok s' L" by (rule mods_ok_cong [OF mok]) (simp_all add: s')
    moreover have "dsos_ok s' L F" using dok Nil by (auto simp: dsos_ok_def s' less_Suc_eq)
    moreover have "loose s' L F d" using dok Nil by (auto simp: dsos_ok_def loose_def s')
    moreover have "view s' L = view s L" by (simp add: view_def mview_def s')
    ultimately show ?thesis using nt Nil by (simp add: loadmap_inv_def s')
  next
    case (Cons x T)
    have lk: "linked (\<lambda>d. dso_next (s_dsos s d)) (Some x) (x # T)" and free: "s_dso_free_list s = Some x"
      using dok Cons by (auto simp: dsos_ok_def)
    have xT: "x \<notin> set T" using linked_distinct [OF lk] by simp
    have pv: "linked (\<lambda>d. dso_prev (s_dsos s d)) (end_of (x # T)) (rev (x # T))" using dok Cons by (simp add: dsos_ok_def)
    have T: "linked (\<lambda>d. dso_next (s_dsos s d)) (dso_next (s_dsos s x)) T" using lk by simp
    have d: "d = x" using assms(2) free by (simp add: hpcrun_dso_new_def Let_def)
    have s': "s' = upd_dso x (\<lambda>d. d\<lparr> dso_next := None \<rparr>) (case dso_next (s_dsos s x) of
        Some y \<Rightarrow> upd_dso y (\<lambda>d. d\<lparr> dso_prev := None \<rparr>) (s\<lparr> s_dso_free_list := dso_next (s_dsos s x) \<rparr>)
      | None \<Rightarrow> s\<lparr> s_dso_free_list := dso_next (s_dsos s x) \<rparr>)"
      using assms(2) free by (auto simp: hpcrun_dso_new_def Let_def)
    have same: "s_mods s' = s_mods s" "s_notify s' = s_notify s" "s_fresh s' = s_fresh s" "s_loadmap_ptr s' = s_loadmap_ptr s"
      "notification_recipients s' = notification_recipients s" "s_calls s' = s_calls s" "s_dso_free_list s' = dso_next (s_dsos s x)"
      unfolding s' by (auto split: option.split)
    have nx': "dso_next (s_dsos s' q) = (if q = x then None else dso_next (s_dsos s q))" for q unfolding s' by (auto split: option.split)
    have dv: "dso_view (s_dsos s' q) = dso_view (s_dsos s q)" for q unfolding s' by (auto simp: dso_view_def split: option.split)
    have "linked (\<lambda>d. dso_next (s_dsos s' d)) (s_dso_free_list s') T"
      unfolding same(7) using T by (subst linked_cong [where nx = "\<lambda>d. dso_next (s_dsos s d)"]) (use xT nx' in auto)
    moreover have "linked (\<lambda>d. dso_prev (s_dsos s' d)) (end_of T) (rev T)"
    proof (cases T)
      case (Cons y U)
      then have nxt: "dso_next (s_dsos s x) = Some y" using T by simp
      have "linked ((\<lambda>d. dso_prev (s_dsos s d))(y := None)) (end_of (y # U)) (rev (y # U))"
        using pv unfolding Cons by (rule linked_prev_tl)
      moreover have "(\<lambda>d. dso_prev (s_dsos s' d)) = (\<lambda>d. dso_prev (s_dsos s d))(y := None)" unfolding s' nxt by (auto simp: fun_eq_iff)
      ultimately show ?thesis using Cons by simp
    qed simp
    ultimately have "dsos_ok s' L T" using dok Cons unfolding dsos_ok_def same by auto
    moreover have "mods_ok s' L" by (rule mods_ok_cong [OF mok]) (simp_all add: same)
    moreover have "loose s' L T d" using dok Cons xT d by (auto simp: loose_def dsos_ok_def same)
    moreover have "view s' L = view s L" by (simp add: view_def mview_def same dv)
    ultimately show ?thesis using nt Cons by (simp add: loadmap_inv_def same)
  qed
  then show "loadmap_inv s' L (tl F) R" "loose s' L (tl F) d" "view s' L = view s L" "s_calls s' = s_calls s" "s_mods s' = s_mods s"
    "s_notify s' = s_notify s" by blast+
qed

text \<open>A description that is loose may be written without any effect on the map.\<close>

lemma loose_upd:
  assumes "loadmap_inv s L F R" and "loose s L F d"
  shows "loadmap_inv (upd_dso d g s) L F R" "loose (upd_dso d g s) L F d" "view (upd_dso d g s) L = view s L"
proof -
  have d: "d \<notin> set F" "\<And>p. p \<in> set L \<Longrightarrow> mod_dso_info (s_mods s p) \<noteq> Some d" using assms(2) by (auto simp: loose_def)
  have "linked (\<lambda>q. f (s_dsos (upd_dso d g s) q)) x G = linked (\<lambda>q. f (s_dsos s q)) x G" if "d \<notin> set G" for f x G
    by (rule linked_cong) (use that in auto)
  with d(1) assms(1) show "loadmap_inv (upd_dso d g s) L F R" by (auto simp: loadmap_inv_def dsos_ok_def mods_ok_def)
  show "loose (upd_dso d g s) L F d" using assms(2) by (simp add: loose_def)
  show "view (upd_dso d g s) L = view s L"
    using d(2) by (auto simp: view_def mview_def intro!: option.map_cong)
qed

lemma dso_make_inv:
  assumes "loadmap_inv s L F R" and "hpcrun_dso_make name fnbres a e s = (d, s')"
  shows "loadmap_inv s' L (tl F) R" "loose s' L (tl F) d" "view s' L = view s L" "made name fnbres a e (s_dsos s' d)"
    "s_calls s' = s_calls s" "s_notify s' = s_notify s" "s_mods s' = s_mods s"
proof -
  obtain s1 where s1: "hpcrun_dso_new s = (d, s1)" using assms(2) by (auto simp: hpcrun_dso_make_def split: prod.splits)
  then obtain g where s': "s' = upd_dso d g s1" using assms(2) by (auto simp: hpcrun_dso_make_def)
  note n = dso_new_inv [OF assms(1) s1] and u = loose_upd [OF dso_new_inv(1,2) [OF assms(1) s1], of g]
  show "loadmap_inv s' L (tl F) R" "loose s' L (tl F) d" "view s' L = view s L" using u n s' by simp_all
  show "made name fnbres a e (s_dsos s' d)"
    using assms(2) s1 by (auto simp: hpcrun_dso_make_def made_def dso_view_def Let_def split: option.splits)
  show "s_calls s' = s_calls s" "s_notify s' = s_notify s" "s_mods s' = s_mods s" using n s' by simp_all
qed

subsection \<open>Unmapping\<close>

lemma unmap_inv:
  assumes "loadmap_inv s L F R" and "p \<in> set L"
  shows "\<exists>s' F'. hpcrun_loadmap_unmap p s = Some s' \<and> loadmap_inv s' L F' R \<and> s_notify s' = s_notify s \<and>
    (\<forall>q. mview s' q = (mview s q)\<lparr> mv_dso := if q = p then None else mv_dso (mview s q) \<rparr>) \<and>
    s_calls s' = s_calls s @ (if mod_dso_info (s_mods s p) = None then [] else told (\<lambda>n. n_unmap (s_notify s n)) R p) \<and>
    (\<forall>q. mod_dso_info (s_mods s' q) = (if q = p then None else mod_dso_info (s_mods s q))) \<and>
    (\<forall>d. loose s L F d \<longrightarrow> loose s' L F' d \<and> s_dsos s' d = s_dsos s d)"
proof (cases "mod_dso_info (s_mods s p)")
  case None
  then have v: "mview s q = (mview s q)\<lparr> mv_dso := if q = p then None else mv_dso (mview s q) \<rparr>" for q by (simp add: mview_def)
  from None have "hpcrun_loadmap_unmap p s = Some s" by (simp add: hpcrun_loadmap_unmap_def)
  with assms v None show ?thesis by auto
next
  case (Some d)
  have dok: "dsos_ok s L F" and mok: "mods_ok s L" and nt: "linked (\<lambda>n. n_next (s_notify s n)) (notification_recipients s) R"
    using assms(1) by (simp_all add: loadmap_inv_def)
  have d: "d < s_fresh s" "d \<notin> set F" "\<And>q. q \<in> set L \<Longrightarrow> mod_dso_info (s_mods s q) = Some d \<Longrightarrow> q = p"
    using dok assms(2) Some unfolding dsos_ok_def by blast+
  let ?calls = "s_calls s @ told (\<lambda>n. n_unmap (s_notify s n)) R p"
  let ?s1 = "upd_dso d (\<lambda>x. x\<lparr> dso_next := s_dso_free_list s, dso_prev := None \<rparr>)
    (upd_mod p (\<lambda>x. x\<lparr> mod_dso_info := None, mod_dlpi_phdr := None \<rparr>) (s\<lparr> s_calls := ?calls \<rparr>))"
  define s' where "s' = (case s_dso_free_list s of Some y \<Rightarrow> upd_dso y (\<lambda>x. x\<lparr> dso_prev := Some d \<rparr>) ?s1 | None \<Rightarrow> ?s1)
    \<lparr> s_dso_free_list := Some d \<rparr>"
  have run: "hpcrun_loadmap_unmap p s = Some s'"
    by (simp add: hpcrun_loadmap_unmap_def Some notify_runs(2) [OF nt] Let_def s'_def split: option.split)
  have same: "s_notify s' = s_notify s" "s_fresh s' = s_fresh s" "s_loadmap_ptr s' = s_loadmap_ptr s" "s_calls s' = ?calls"
    "notification_recipients s' = notification_recipients s" "s_dso_free_list s' = Some d"
    "s_mods s' = (s_mods s)(p := (s_mods s p)\<lparr> mod_dso_info := None, mod_dlpi_phdr := None \<rparr>)"
    by (auto simp: s'_def split: option.split)
  have nx': "dso_next (s_dsos s' q) = (if q = d then s_dso_free_list s else dso_next (s_dsos s q))" for q
    by (auto simp: s'_def split: option.split)
  have dv: "dso_view (s_dsos s' q) = dso_view (s_dsos s q)" for q by (auto simp: s'_def dso_view_def split: option.split)
  have fl: "linked (\<lambda>d. dso_next (s_dsos s d)) (s_dso_free_list s) F" "linked (\<lambda>d. dso_prev (s_dsos s d)) (end_of F) (rev F)"
    using dok by (simp_all add: dsos_ok_def)
  have "linked (\<lambda>d. dso_next (s_dsos s' d)) (Some d) (d # F)"
    using fl(1) by (simp add: nx') (subst linked_cong [where nx = "\<lambda>d. dso_next (s_dsos s d)"], use d(2) in auto)
  moreover have "linked (\<lambda>d. dso_prev (s_dsos s' d)) (end_of (d # F)) (rev (d # F))"
  proof -
    have "(\<lambda>d. dso_prev (s_dsos s' d)) = (if F = [] then (\<lambda>d. dso_prev (s_dsos s d))(d := None)
        else (\<lambda>d. dso_prev (s_dsos s d))(hd F := Some d, d := None))"
      using fl(1) d(2) by (cases F) (auto simp: s'_def fun_eq_iff)
    then show ?thesis using linked_prev_Cons [OF fl(2) d(2)] by simp
  qed
  ultimately have "dsos_ok s' L (d # F)" using dok d unfolding dsos_ok_def same by auto
  moreover have "mods_ok s' L" by (rule mods_ok_cong [OF mok]) (simp_all add: same)
  ultimately have inv: "loadmap_inv s' L (d # F) R" using nt by (simp add: loadmap_inv_def same)
  have v: "mview s' q = (mview s q)\<lparr> mv_dso := if q = p then None else mv_dso (mview s q) \<rparr>" for q
    by (simp add: mview_def same dv)
  have ls: "loose s' L (d # F) e \<and> s_dsos s' e = s_dsos s e" if "loose s L F e" for e
  proof -
    have "e \<noteq> d" using that Some assms(2) by (auto simp: loose_def)
    moreover have "s_dso_free_list s \<noteq> Some e" using that fl(1) by (cases F) (auto simp: loose_def)
    ultimately show ?thesis using that by (auto simp: loose_def same) (auto simp: s'_def split: option.split)
  qed
  show ?thesis using run inv same(1,4,7) v Some ls by (intro exI [of _ s'] exI [of _ "d # F"]) simp
qed

subsection \<open>Adding a module\<close>

lemma push_new_inv:
  assumes "loadmap_inv s L F R" and "dso = None \<or> (\<exists>d. dso = Some d \<and> loose s L F d)"
  shows "\<exists>s1 s'. hpcrun_loadModule_new name s = Some (s_fresh s, s1) \<and>
    hpcrun_loadmap_pushFront (s_fresh s) (upd_mod (s_fresh s) (\<lambda>x. x\<lparr> mod_dso_info := dso \<rparr>) s1) = Some s' \<and>
    loadmap_inv s' (s_fresh s # L) F R \<and> s_notify s' = s_notify s \<and> s_calls s' = s_calls s \<and>
    view s' (s_fresh s # L) = \<lparr> mv_id = of_nat (Suc (length L)), mv_name = c_str name,
      mv_dso = map_option (\<lambda>d. dso_view (s_dsos s d)) dso, mv_flags = 0 \<rparr> # view s L \<and>
    mod_id (s_mods s' (s_fresh s)) = of_nat (Suc (length L)) \<and> mod_dso_info (s_mods s' (s_fresh s)) = dso \<and> s_dsos s' = s_dsos s"
proof -
  have dok: "dsos_ok s L F" and nt: "linked (\<lambda>n. n_next (s_notify s n)) (notification_recipients s) R"
    using assms(1) by (simp_all add: loadmap_inv_def)
  obtain m where m: "s_loadmap_ptr s = Some m" "linked (\<lambda>p. mod_next (s_mods s p)) (lmap_head m) L" "lmap_end m = end_of L"
    "lmap_size m = of_nat (length L)" and pv: "linked (\<lambda>p. mod_prev (s_mods s p)) (end_of L) (rev L)"
    and ids: "map (\<lambda>p. mod_id (s_mods s p)) L = map of_nat (rev [1..<Suc (length L)])" and sub: "set L \<subseteq> {..<s_fresh s}"
    using assms(1) by (auto simp: loadmap_inv_def mods_ok_def)
  let ?x = "s_fresh s"
  let ?new = "\<lparr> mod_id = of_nat (Suc (length L)), mod_name = c_str name, mod_dso_info = dso, mod_dlpi_phdr = None,
      mod_next = lmap_head m, mod_prev = None, mod_flags = 0 \<rparr> :: load_module_t"
  have xL: "?x \<notin> set L" using sub by auto
  define M where "M = (if L = [] then (s_mods s)(?x := ?new)
    else (s_mods s)(hd L := (s_mods s (hd L))\<lparr> mod_prev := Some ?x \<rparr>, ?x := ?new))"
  define s' where "s' = s\<lparr> s_fresh := Suc ?x, s_mods := M,
    s_loadmap_ptr := Some \<lparr> lmap_size = of_nat (Suc (length L)), lmap_head = Some ?x, lmap_end = end_of (?x # L) \<rparr> \<rparr>"
  obtain s1 where s1: "hpcrun_loadModule_new name s = Some (?x, s1)"
    "hpcrun_loadmap_pushFront ?x (upd_mod ?x (\<lambda>x. x\<lparr> mod_dso_info := dso \<rparr>) s1) = Some s'"
    using m xL by (cases L) (auto simp: hpcrun_loadModule_new_def hpcrun_loadmap_pushFront_def s'_def M_def upd_mod_def Let_def fun_upd_twist)
  have nx: "mod_next (M q) = (if q = ?x then lmap_head m else mod_next (s_mods s q))" for q using xL by (auto simp: M_def)
  have pv': "(\<lambda>q. mod_prev (M q)) = (if L = [] then (\<lambda>q. mod_prev (s_mods s q))(?x := None)
      else (\<lambda>q. mod_prev (s_mods s q))(hd L := Some ?x, ?x := None))" using xL by (auto simp: M_def fun_eq_iff)
  have rest: "mod_id (M q) = mod_id (s_mods s q)" "mod_dso_info (M q) = mod_dso_info (s_mods s q)"
    "mod_name (M q) = mod_name (s_mods s q)" "mod_flags (M q) = mod_flags (s_mods s q)" if "q \<in> set L" for q
    using that xL by (auto simp: M_def)
  have "linked (\<lambda>q. mod_next (M q)) (Some ?x) (?x # L)"
    using m(2) by (simp add: nx) (subst linked_cong [where nx = "\<lambda>d. mod_next (s_mods s d)"], use xL in auto)
  moreover have "linked (\<lambda>q. mod_prev (M q)) (end_of (?x # L)) (rev (?x # L))"
    unfolding pv' by (rule linked_prev_Cons [OF pv xL])
  moreover have "map (\<lambda>p. mod_id (M p)) (?x # L) = map of_nat (rev [1..<Suc (length (?x # L))])"
    using ids rest(1) xL by (simp add: M_def cong: map_cong)
  ultimately have "mods_ok s' (?x # L)" using sub by (auto simp: mods_ok_def s'_def simp del: end_of_simps(2) rev.simps linked.simps(2))
  moreover have "dsos_ok s' (?x # L) F"
  proof -
    have "mod_dso_info (M ?x) = dso" by (simp add: M_def)
    then show ?thesis using dok assms(2) rest(2) unfolding dsos_ok_def by (auto simp: s'_def loose_def less_Suc_eq)
  qed
  moreover have "view s' (?x # L) = \<lparr> mv_id = of_nat (Suc (length L)), mv_name = c_str name,
      mv_dso = map_option (\<lambda>d. dso_view (s_dsos s d)) dso, mv_flags = 0 \<rparr> # view s L"
    using rest by (auto simp: view_def mview_def s'_def) (simp_all add: M_def)
  moreover have "mod_id (s_mods s' ?x) = of_nat (Suc (length L))" "mod_dso_info (s_mods s' ?x) = dso" "s_dsos s' = s_dsos s"
    by (simp_all add: s'_def M_def)
  ultimately show ?thesis using s1 nt by (intro exI [of _ s1] exI [of _ s']) (simp add: loadmap_inv_def s'_def)
qed

section \<open>The operations on the list\<close>

definition named :: "c_string \<Rightarrow> module_view \<Rightarrow> bool" where
  "named name v \<longleftrightarrow> mv_name v = c_str name"

definition spec_add :: "c_string \<Rightarrow> (u64 \<times> u64 \<times> u64 \<times> u64) option \<Rightarrow> module_view list \<Rightarrow> module_view list" where
  "spec_add name D V = \<lparr> mv_id = of_nat (Suc (length V)), mv_name = c_str name, mv_dso = D, mv_flags = 0 \<rparr> # V"

definition spec_map :: "c_string \<Rightarrow> u64 \<times> u64 \<times> u64 \<times> u64 \<Rightarrow> module_view list \<Rightarrow> module_view list" where
  "spec_map name D V = (if \<exists>v \<in> set V. named name v then upd_first (named name) (\<lambda>v. v\<lparr> mv_dso := Some D \<rparr>) V
     else spec_add name (Some D) V)"

definition spec_unmap :: "c_string \<Rightarrow> module_view list \<Rightarrow> module_view list" where
  "spec_unmap name V = upd_first (named name) (\<lambda>v. v\<lparr> mv_dso := None \<rparr>) V"

definition covers :: "u64 \<Rightarrow> u64 \<Rightarrow> module_view \<Rightarrow> bool" where
  "covers a e v = (case mv_dso v of None \<Rightarrow> False | Some (s, t, _) \<Rightarrow> s \<le> a \<and> e \<le> t)"

definition spec_find :: "u64 \<Rightarrow> u64 \<Rightarrow> module_view list \<Rightarrow> module_view list" where
  "spec_find a e V = (if a = 0 then V else upd_first (covers a e) (\<lambda>v. v\<lparr> mv_flags := mv_flags v OR LOADMAP_ENTRY_ANALYZE \<rparr>) V)"

lemma find_name_inv:
  assumes "mods_ok s L"
  shows "hpcrun_loadmap_findByName name s = Some (List.find (\<lambda>p. named name (mview s p)) L)"
  by (simp add: hpcrun_loadmap_findByName_def find_module_inv [OF assms] named_def mview_def)

lemma map_inv:
  assumes "loadmap_inv s L F R" and "loose s L F d"
  shows "\<exists>p s' L' F'. hpcrun_loadmap_map d s = Some (p, s') \<and> loadmap_inv s' L' F' R \<and> s_notify s' = s_notify s \<and>
    view s' L' = spec_map (dso_name (s_dsos s d)) (dso_view (s_dsos s d)) (view s L) \<and>
    p \<in> set L' \<and> named (dso_name (s_dsos s d)) (mview s' p) \<and> mv_dso (mview s' p) = Some (dso_view (s_dsos s d)) \<and>
    mod_dso_info (s_mods s' p) = Some d \<and> s_dsos s' d = s_dsos s d \<and>
    s_calls s' = s_calls s @ (if p \<in> set L \<and> mod_dso_info (s_mods s p) \<noteq> None then told (\<lambda>n. n_unmap (s_notify s n)) R p else []) @
      told (\<lambda>n. n_map (s_notify s n)) R p"
proof -
  let ?n = "dso_name (s_dsos s d)"
  have mok: "mods_ok s L" using assms(1) by (simp add: loadmap_inv_def)
  note find = find_name_inv [OF mok, of ?n]
  have calls: "loadmap_inv (s\<lparr> s_calls := c \<rparr>) L F R = loadmap_inv s L F R" for s L F R c
    by (simp add: loadmap_inv_def mods_ok_def dsos_ok_def)
  show ?thesis
  proof (cases "List.find (\<lambda>p. named ?n (mview s p)) L")
    case None
    have notin: "\<not> (\<exists>v \<in> set (view s L). named ?n v)" using None by (auto simp: find_None_iff view_def)
    obtain s1 s2 where 1: "hpcrun_loadModule_new ?n s = Some (s_fresh s, s1)"
      "hpcrun_loadmap_pushFront (s_fresh s) (upd_mod (s_fresh s) (\<lambda>x. x\<lparr> mod_dso_info := Some d \<rparr>) s1) = Some s2"
      "loadmap_inv s2 (s_fresh s # L) F R" "s_notify s2 = s_notify s" "s_calls s2 = s_calls s"
      "view s2 (s_fresh s # L) = spec_add ?n (Some (dso_view (s_dsos s d))) (view s L)"
      "mod_dso_info (s_mods s2 (s_fresh s)) = Some d" "s_dsos s2 = s_dsos s"
      using push_new_inv [OF assms(1), of "Some d" ?n] assms(2) by (auto simp: spec_add_def view_def)
    have "linked (\<lambda>n. n_next (s_notify s2 n)) (notification_recipients s2) R" using 1(3) by (simp add: loadmap_inv_def)
    note run = notify_runs(1) [OF this, of "s_fresh s"]
    let ?s' = "s2\<lparr> s_calls := s_calls s @ told (\<lambda>n. n_map (s_notify s n)) R (s_fresh s) \<rparr>"
    have v: "mview ?s' q = mview s2 q" for q by (simp add: mview_def)
    have fresh: "s_fresh s \<notin> set L" using mok by (auto simp: mods_ok_def)
    have hd: "mview s2 (s_fresh s) = hd (spec_add ?n (Some (dso_view (s_dsos s d))) (view s L))"
      unfolding 1(6) [symmetric] by (simp add: view_def)
    have "hpcrun_loadmap_map d s = Some (s_fresh s, ?s')" by (simp add: hpcrun_loadmap_map_def find None 1 run)
    with 1(3) 1(6) notin v hd show ?thesis
      by (intro exI [of _ "s_fresh s"] exI [of _ ?s'] exI [of _ "s_fresh s # L"] exI [of _ F])
        (simp add: calls 1(4,7,8) spec_map_def view_def fresh named_def spec_add_def)
  next
    case (Some p)
    then have p: "p \<in> set L" "named ?n (mview s p)" using find_in [of _ L p] by auto
    then have isin: "\<exists>v \<in> set (view s L). named ?n v" by (auto simp: view_def)
    have neq: "mod_dso_info (s_mods s p) \<noteq> Some d" using assms(2) p(1) by (simp add: loose_def)
    obtain s1 F1 where 1: "hpcrun_loadmap_unmap p s = Some s1" "loadmap_inv s1 L F1 R" "s_notify s1 = s_notify s"
      "\<And>q. mview s1 q = (mview s q)\<lparr> mv_dso := if q = p then None else mv_dso (mview s q) \<rparr>"
      "s_calls s1 = s_calls s @ (if mod_dso_info (s_mods s p) = None then [] else told (\<lambda>n. n_unmap (s_notify s n)) R p)"
      "\<And>q. mod_dso_info (s_mods s1 q) = (if q = p then None else mod_dso_info (s_mods s q))"
      "loose s1 L F1 d" "s_dsos s1 d = s_dsos s d"
      using unmap_inv [OF assms(1) p(1)] assms(2) by blast
    let ?s2 = "upd_mod p (\<lambda>x. x\<lparr> mod_dso_info := Some d \<rparr>) s1"
    have nt: "linked (\<lambda>n. n_next (s_notify ?s2 n)) (notification_recipients ?s2) R" using 1(2) by (simp add: loadmap_inv_def)
    note run = notify_runs(1) [OF nt, of p]
    have "mods_ok ?s2 L" by (rule mods_ok_cong [of s1]) (use 1(2) in \<open>auto simp: loadmap_inv_def\<close>)
    moreover have "dsos_ok ?s2 L F1" using 1(2,7) unfolding loadmap_inv_def dsos_ok_def loose_def by auto
    ultimately have inv: "loadmap_inv ?s2 L F1 R" using nt by (simp add: loadmap_inv_def)
    let ?s' = "?s2\<lparr> s_calls := s_calls s1 @ told (\<lambda>n. n_map (s_notify s n)) R p \<rparr>"
    have v: "mview ?s' p = (mview s p)\<lparr> mv_dso := Some (dso_view (s_dsos s d)) \<rparr>" "\<And>q. q \<noteq> p \<Longrightarrow> mview ?s' q = mview s q"
      using 1(4) [of p] 1(4) by (auto simp: mview_def 1(8))
    have "view ?s' L = upd_first (named ?n) (\<lambda>v. v\<lparr> mv_dso := Some (dso_view (s_dsos s d)) \<rparr>) (view s L)"
      by (rule upd_first_view [where P = "named ?n", OF Some mods_distinct [OF mok]]) (rule v(1), rule v(2))
    moreover have "hpcrun_loadmap_map d s = Some (p, ?s')" by (simp add: hpcrun_loadmap_map_def find Some neq 1(1) run 1(3))
    ultimately show ?thesis using inv isin p v(1)
      by (intro exI [of _ p] exI [of _ ?s'] exI [of _ L] exI [of _ F1]) (simp add: calls 1(3,5,8) spec_map_def named_def)
  qed
qed

lemma unload_inv:
  assumes "loadmap_inv s L F R" and "hpcrun_loadmap_findByName name s = Some (Some p)"
  shows "\<exists>s' F'. hpcrun_loadmap_unmap p s = Some s' \<and> loadmap_inv s' L F' R \<and> view s' L = spec_unmap name (view s L)"
proof -
  have mok: "mods_ok s L" using assms(1) by (simp add: loadmap_inv_def)
  have f: "List.find (\<lambda>p. named name (mview s p)) L = Some p" using assms(2) by (simp add: find_name_inv [OF mok])
  then have p: "p \<in> set L" using find_in [of _ L p] by auto
  obtain s' F' where 1: "hpcrun_loadmap_unmap p s = Some s'" "loadmap_inv s' L F' R"
      "\<And>q. mview s' q = (mview s q)\<lparr> mv_dso := if q = p then None else mv_dso (mview s q) \<rparr>"
    using unmap_inv [OF assms(1) p] by blast
  have "view s' L = spec_unmap name (view s L)"
    unfolding spec_unmap_def by (rule upd_first_view [where P = "named name", OF f mods_distinct [OF mok]]) (simp_all add: 1(3))
  with 1 show ?thesis by blast
qed

lemma find_addr_inv:
  assumes "loadmap_inv s L F R"
  shows "\<exists>s'. hpcrun_loadmap_findByAddr a e s = Some (if a = 0 then None else List.find (\<lambda>p. covers a e (mview s p)) L, s') \<and>
    loadmap_inv s' L F R \<and> view s' L = spec_find a e (view s L) \<and> s_calls s' = s_calls s \<and> s_notify s' = s_notify s \<and>
    s_dsos s' = s_dsos s \<and> (\<forall>p. mod_dso_info (s_mods s' p) = mod_dso_info (s_mods s p))"
proof -
  have mok: "mods_ok s L" using assms by (simp add: loadmap_inv_def)
  have pred: "(\<lambda>x. case mod_dso_info (s_mods s x) of None \<Rightarrow> False
          | Some d \<Rightarrow> dso_start_addr (s_dsos s d) \<le> a \<and> e \<le> dso_end_addr (s_dsos s d)) = (\<lambda>p. covers a e (mview s p))"
    by (auto simp: covers_def mview_def dso_view_def fun_eq_iff split: option.split)
  show ?thesis
  proof (cases "a = 0 \<or> List.find (\<lambda>p. covers a e (mview s p)) L = None")
    case True
    then have "hpcrun_loadmap_findByAddr a e s = Some (None, s)"
      by (auto simp: hpcrun_loadmap_findByAddr_def pred find_module_inv [OF mok])
    moreover have "spec_find a e (view s L) = view s L"
      using True by (auto simp: spec_find_def view_def find_None_iff intro!: upd_first_none)
    ultimately show ?thesis using assms True by auto
  next
    case False
    then obtain p where f: "List.find (\<lambda>p. covers a e (mview s p)) L = Some p" and a: "a \<noteq> 0" by auto
    let ?s' = "hpcrun_loadModule_flags_set p LOADMAP_ENTRY_ANALYZE s"
    have "mods_ok ?s' L" by (rule mods_ok_cong [OF mok]) (auto simp: hpcrun_loadModule_flags_set_def)
    then have "loadmap_inv ?s' L F R" using assms by (auto simp: loadmap_inv_def dsos_ok_def hpcrun_loadModule_flags_set_def)
    moreover have "view ?s' L = spec_find a e (view s L)"
      using a upd_first_view [where P = "covers a e", OF f mods_distinct [OF mok], of ?s' "\<lambda>v. v\<lparr> mv_flags := mv_flags v OR LOADMAP_ENTRY_ANALYZE \<rparr>"]
      by (simp add: spec_find_def mview_def hpcrun_loadModule_flags_set_def)
    ultimately show ?thesis using a f
      by (auto simp: hpcrun_loadmap_findByAddr_def pred find_module_inv [OF mok] hpcrun_loadModule_flags_set_def)
  qed
qed

section \<open>Histories of a load map\<close>

datatype lm_op = Load c_string "FnboundsResponse option" u64 u64 | Unload c_string | Add c_string | Find u64 u64

fun run_lm_op :: "lm_op \<Rightarrow> loadmap_state \<Rightarrow> loadmap_state option" where
  "run_lm_op (Load name fnbres a e) s = (case hpcrun_dso_make name fnbres a e s of (dso, s) \<Rightarrow>
     map_option snd (hpcrun_loadmap_map dso s))"
| "run_lm_op (Unload name) s = (case hpcrun_loadmap_findByName name s of None \<Rightarrow> None
     | Some None \<Rightarrow> Some s
     | Some (Some lm) \<Rightarrow> hpcrun_loadmap_unmap lm s)"
| "run_lm_op (Add name) s = map_option snd (hpcrun_loadModule_add name s)"
| "run_lm_op (Find a e) s = map_option snd (hpcrun_loadmap_findByAddr a e s)"

fun run_lm_ops :: "lm_op list \<Rightarrow> loadmap_state \<Rightarrow> loadmap_state option" where
  "run_lm_ops [] s = Some s"
| "run_lm_ops (x # xs) s = (case run_lm_op x s of None \<Rightarrow> None | Some s \<Rightarrow> run_lm_ops xs s)"

definition dso_of :: "FnboundsResponse option \<Rightarrow> u64 \<Rightarrow> u64 \<Rightarrow> u64 \<times> u64 \<times> u64 \<times> u64" where
  "dso_of fnbres a e = (case fnbres of None \<Rightarrow> (a, e, 0, 0)
     | Some r \<Rightarrow> (a, e, if fb_is_relocatable r then a - fb_reference_offset r else 0, fb_num_entries r))"

fun spec_lm_op :: "lm_op \<Rightarrow> module_view list \<Rightarrow> module_view list" where
  "spec_lm_op (Load name fnbres a e) V = spec_map name (dso_of fnbres a e) V"
| "spec_lm_op (Unload name) V = spec_unmap name V"
| "spec_lm_op (Add name) V = spec_add name None V"
| "spec_lm_op (Find a e) V = spec_find a e V"

lemma c_str_idem [simp]: "c_str (c_str s) = c_str s"
  by (auto simp: c_str_def)

lemma spec_map_c_str [simp]: "spec_map (c_str name) D V = spec_map name D V"
  by (simp add: spec_map_def spec_add_def named_def [abs_def])

lemma run_lm_op_inv:
  assumes "loadmap_inv s L F R"
  shows "\<exists>s' L' F'. run_lm_op x s = Some s' \<and> loadmap_inv s' L' F' R \<and> view s' L' = spec_lm_op x (view s L)"
proof (cases x)
  case (Load name fnbres a e)
  obtain d s1 where s1: "hpcrun_dso_make name fnbres a e s = (d, s1)" by (cases "hpcrun_dso_make name fnbres a e s")
  note mk = dso_make_inv [OF assms s1]
  from mk(4) have n: "dso_name (s_dsos s1 d) = c_str name" "dso_view (s_dsos s1 d) = dso_of fnbres a e"
    by (auto simp: made_def dso_of_def split: option.split)
  from map_inv [OF mk(1,2)] obtain p s' L' F' where "hpcrun_loadmap_map d s1 = Some (p, s')" "loadmap_inv s' L' F' R"
    "view s' L' = spec_map (c_str name) (dso_of fnbres a e) (view s L)" unfolding n mk(3) by blast
  with Load s1 show ?thesis by auto
next
  case (Unload name)
  have mok: "mods_ok s L" using assms by (simp add: loadmap_inv_def)
  show ?thesis
  proof (cases "List.find (\<lambda>p. named name (mview s p)) L")
    case None
    then have "spec_unmap name (view s L) = view s L"
      by (auto simp: spec_unmap_def view_def find_None_iff intro!: upd_first_none)
    then have "run_lm_op x s = Some s" "view s L = spec_lm_op x (view s L)"
      by (simp_all add: Unload None find_name_inv [OF mok])
    with assms show ?thesis by blast
  next
    case (Some p)
    then have "hpcrun_loadmap_findByName name s = Some (Some p)" by (simp add: find_name_inv [OF mok])
    from unload_inv [OF assms this] this show ?thesis by (auto simp: Unload)
  qed
next
  case (Add name)
  have same: "upd_mod q (mod_dso_info_update (\<lambda>_. None)) s1 = s1" if "hpcrun_loadModule_new name s = Some (q, s1)" for q s1
    using that by (auto simp: hpcrun_loadModule_new_def upd_mod_def Let_def split: option.splits)
  obtain s1 s' where 1: "hpcrun_loadModule_new name s = Some (s_fresh s, s1)"
    "hpcrun_loadmap_pushFront (s_fresh s) s1 = Some s'" "loadmap_inv s' (s_fresh s # L) F R"
    "view s' (s_fresh s # L) = spec_add name None (view s L)"
    using push_new_inv [OF assms, of None name] same by (auto simp: spec_add_def view_def)
  then have "run_lm_op x s = Some s'" "spec_lm_op x (view s L) = spec_add name None (view s L)"
    by (simp_all add: Add hpcrun_loadModule_add_def)
  with 1(3,4) show ?thesis by metis
next
  case (Find a e)
  with find_addr_inv [OF assms, of a e] show ?thesis by auto
qed

lemma run_lm_ops_inv:
  "loadmap_inv s L F R \<Longrightarrow> \<exists>s' L' F'. run_lm_ops xs s = Some s' \<and> loadmap_inv s' L' F' R \<and> view s' L' = fold spec_lm_op xs (view s L)"
proof (induction xs arbitrary: s L F)
  case Nil
  then show ?case by auto
next
  case (Cons x xs)
  obtain s1 L1 F1 where 1: "run_lm_op x s = Some s1" "loadmap_inv s1 L1 F1 R" "view s1 L1 = spec_lm_op x (view s L)"
    using run_lm_op_inv [OF Cons.prems] by blast
  from Cons.IH [OF 1(2)] show ?case by (simp add: 1)
qed

lemma init_inv:
  assumes "s_loadmap_ptr s = None"
  shows "loadmap_inv (hpcrun_initLoadmap s) [] [] []"
  using assms by (simp add: hpcrun_initLoadmap_def loadmap_inv_def mods_ok_def dsos_ok_def hpcrun_loadmap_init_def Let_def)

lemma register_inv:
  assumes "loadmap_inv s L F R" and "n \<notin> set R"
  shows "loadmap_inv (hpcrun_loadmap_notify_register n s) L F (n # R)"
proof -
  have "linked (\<lambda>m. n_next (s_notify (hpcrun_loadmap_notify_register n s) m)) (notification_recipients s) R =
      linked (\<lambda>m. n_next (s_notify s m)) (notification_recipients s) R"
    by (rule linked_cong) (use assms(2) in \<open>auto simp: hpcrun_loadmap_notify_register_def\<close>)
  with assms(1) show ?thesis by (auto simp: loadmap_inv_def mods_ok_def dsos_ok_def hpcrun_loadmap_notify_register_def)
qed

subsection \<open>Identifiers\<close>

lemma inv_ids:
  assumes "loadmap_inv s L F R" and "i < length L"
  shows "mod_id (s_mods s (L ! i)) = of_nat (length L - i)"
proof -
  have "map (\<lambda>p. mod_id (s_mods s p)) L = map of_nat (rev [1..<Suc (length L)])"
    using assms(1) by (simp add: loadmap_inv_def mods_ok_def)
  then have "map (\<lambda>p. mod_id (s_mods s p)) L ! i = map of_nat (rev [1..<Suc (length L)]) ! i" by simp
  with assms(2) show ?thesis by (simp add: rev_nth nth_append del: upt_Suc) 
qed

lemma of_nat_u16_inj:
  assumes "of_nat a = (of_nat b :: u16)" and "a < 2 ^ 16" and "b < 2 ^ 16"
  shows "a = b"
proof -
  have "unat (of_nat a :: u16) = unat (of_nat b :: u16)" using assms(1) by simp
  with assms(2,3) show ?thesis by (simp add: unat_of_nat)
qed

lemma find_nth:
  "i < length L \<Longrightarrow> P (L ! i) \<Longrightarrow> (\<And>j. j < i \<Longrightarrow> \<not> P (L ! j)) \<Longrightarrow> List.find P L = Some (L ! i)"
  by (auto simp: find_Some_iff)

lemma inv_find_id:
  assumes "loadmap_inv s L F R" and "length L < 2 ^ 16" and "i < length L"
  shows "mod_id (s_mods s (L ! i)) = of_nat (length L - i) \<and> mod_id (s_mods s (L ! i)) \<noteq> 0 \<and>
    hpcrun_loadmap_findById (mod_id (s_mods s (L ! i))) s = Some (Some (L ! i))"
proof -
  have mok: "mods_ok s L" using assms(1) by (simp add: loadmap_inv_def)
  note ids = inv_ids [OF assms(1)]
  have "of_nat (length L - i) = (of_nat 0 :: u16) \<Longrightarrow> length L - i = 0" using assms(2) by (intro of_nat_u16_inj) simp_all
  then have "mod_id (s_mods s (L ! i)) \<noteq> 0" using assms(3) ids [OF assms(3)] by auto
  moreover have "mod_id (s_mods s (L ! j)) \<noteq> mod_id (s_mods s (L ! i))" if "j < i" for j
  proof
    assume "mod_id (s_mods s (L ! j)) = mod_id (s_mods s (L ! i))"
    then have "of_nat (length L - j) = (of_nat (length L - i) :: u16)" using ids [of j] ids [OF assms(3)] that assms(3) by simp
    then have "length L - j = length L - i" using assms(2) by (intro of_nat_u16_inj) simp_all
    with that assms(3) show False by simp
  qed
  ultimately show ?thesis
    using assms(3) ids [OF assms(3)] by (simp add: hpcrun_loadmap_findById_def find_module_inv [OF mok] find_nth)
qed

section \<open>Properties\<close>

text \<open>
  C21. The load map behaves as a list of modules. From the initialised map, with any clients registered, every sequence of loads,
  unloads, additions and address lookups runs without failure; the linked structure is well-formed afterwards (no description is
  both free and in use, and none has two owners) and shows exactly the modules of the abstract list, on which a load under a known
  name replaces the description of the first module of that name, and under a new name adds a module in front.
\<close>

theorem loadmap_refines_list:
  assumes "s_loadmap_ptr s = None" and "distinct R"
  shows "\<exists>s' L F. run_lm_ops ops (fold hpcrun_loadmap_notify_register R (hpcrun_initLoadmap s)) = Some s' \<and>
    loadmap_inv s' L F (rev R) \<and> view s' L = fold spec_lm_op ops []"
proof -
  have "distinct (rev R @ R') \<Longrightarrow> loadmap_inv s L F R' \<Longrightarrow> loadmap_inv (fold hpcrun_loadmap_notify_register R s) L F (rev R @ R')" for s L F R'
  proof (induction R arbitrary: s R')
    case (Cons n R)
    then show ?case using register_inv [of s L F R' n] Cons.IH [of "n # R'"] by auto
  qed simp
  from this [of "[]", OF _ init_inv [OF assms(1)]] assms(2)
  have "loadmap_inv (fold hpcrun_loadmap_notify_register R (hpcrun_initLoadmap s)) [] [] (rev R)" by simp
  from run_lm_ops_inv [OF this, of ops] show ?thesis by (simp add: view_def)
qed

definition lm_start :: loadmap_state where
  "lm_start = \<lparr> s_mods = \<lambda>_. \<lparr> mod_id = 0, mod_name = [], mod_dso_info = None, mod_dlpi_phdr = None, mod_next = None, mod_prev = None,
       mod_flags = 0 \<rparr>,
     s_dsos = \<lambda>_. \<lparr> dso_name = [], dso_start_addr = 0, dso_end_addr = 0, dso_start_to_ref_dist = 0, dso_table = None, dso_nsymbols = 0,
       dso_is_relocatable = False, dso_next = None, dso_prev = None \<rparr>,
     s_notify = \<lambda>n. \<lparr> n_map = Some (10 * n), n_unmap = Some (10 * n + 1), n_next = None \<rparr>,
     s_loadmap_ptr = None, s_dso_free_list = None, notification_recipients = None, s_calls = [], s_fresh = 0 \<rparr>"

definition lm_example :: "lm_op list" where
  "lm_example = [Load [97] None 0x1000 0x2000, Add [107], Find 0x1800 0x1810, Unload [97], Load [98] None 0x1000 0x3000,
     Load [97] None 0x4000 0x5000, Find 0x1800 0x1810]"

theorem loadmap_refines_list_witness:
  "\<exists>s' L F. run_lm_ops lm_example (fold hpcrun_loadmap_notify_register [1, 2] (hpcrun_initLoadmap lm_start)) = Some s' \<and>
    loadmap_inv s' L F [2, 1] \<and>
    view s' L = [\<lparr> mv_id = 3, mv_name = [98], mv_dso = Some (0x1000, 0x3000, 0, 0), mv_flags = 1 \<rparr>,
      \<lparr> mv_id = 2, mv_name = [107], mv_dso = None, mv_flags = 0 \<rparr>,
      \<lparr> mv_id = 1, mv_name = [97], mv_dso = Some (0x4000, 0x5000, 0, 0), mv_flags = 1 \<rparr>]"
proof -
  have "fold spec_lm_op lm_example [] = [\<lparr> mv_id = 3, mv_name = [98], mv_dso = Some (0x1000, 0x3000, 0, 0), mv_flags = 1 \<rparr>,
      \<lparr> mv_id = 2, mv_name = [107], mv_dso = None, mv_flags = 0 \<rparr>,
      \<lparr> mv_id = 1, mv_name = [97], mv_dso = Some (0x4000, 0x5000, 0, 0), mv_flags = 1 \<rparr>]" by code_simp
  with loadmap_refines_list [of lm_start "[1, 2]" lm_example] show ?thesis by (simp add: lm_start_def)
qed

text \<open>
  C22. Mapping a module: when the names in the map are distinct they stay so, which is the promise of \<open>loadmap.h\<close> that a name appears
  exactly once. The module returned has the name of the description and is the one found by that name afterwards, the description is
  in use, and the clients are told of the module, after those that had to hear that its previous mapping is gone.
\<close>

theorem loadmap_map_correct:
  assumes "loadmap_inv s L F R" and "loose s L F d" and "distinct (map mv_name (view s L))"
  shows "\<exists>p s' L' F'. hpcrun_loadmap_map d s = Some (p, s') \<and> loadmap_inv s' L' F' R \<and> distinct (map mv_name (view s' L')) \<and>
    hpcrun_loadmap_findByName (dso_name (s_dsos s d)) s' = Some (Some p) \<and> mv_dso (mview s' p) = Some (dso_view (s_dsos s d)) \<and>
    s_calls s' = s_calls s @ (if p \<in> set L \<and> mod_dso_info (s_mods s p) \<noteq> None then told (\<lambda>n. n_unmap (s_notify s n)) R p else []) @
      told (\<lambda>n. n_map (s_notify s n)) R p"
proof -
  let ?n = "dso_name (s_dsos s d)" and ?D = "dso_view (s_dsos s d)"
  obtain p s' L' F' where 1: "hpcrun_loadmap_map d s = Some (p, s')" "loadmap_inv s' L' F' R" "view s' L' = spec_map ?n ?D (view s L)"
    "p \<in> set L'" "named ?n (mview s' p)" "mv_dso (mview s' p) = Some ?D"
    "s_calls s' = s_calls s @ (if p \<in> set L \<and> mod_dso_info (s_mods s p) \<noteq> None then told (\<lambda>n. n_unmap (s_notify s n)) R p else []) @
      told (\<lambda>n. n_map (s_notify s n)) R p"
    using map_inv [OF assms(1,2)] by blast
  have upd: "map mv_name (upd_first P (\<lambda>v. v\<lparr> mv_dso := x \<rparr>) V) = map mv_name V" for P x V by (induction V) auto
  have dist: "distinct (map mv_name (view s' L'))"
    using assms(3) unfolding 1(3) spec_map_def spec_add_def by (auto simp: upd named_def)
  have mok: "mods_ok s' L'" using 1(2) by (simp add: loadmap_inv_def)
  have "List.find (\<lambda>p. named ?n (mview s' p)) L' = Some p"
  proof (cases "List.find (\<lambda>p. named ?n (mview s' p)) L'")
    case None
    with 1(4,5) show ?thesis by (auto simp: find_None_iff)
  next
    case (Some q)
    then have q: "q \<in> set L'" "named ?n (mview s' q)" using find_in [of _ L' q] by auto
    have "inj_on (\<lambda>p. mv_name (mview s' p)) (set L')" using dist by (simp add: view_def distinct_map o_def comp_def)
    then have "q = p" using q 1(4,5) by (auto simp: named_def inj_on_def)
    with Some show ?thesis by simp
  qed
  with 1 dist show ?thesis by (auto simp: find_name_inv [OF mok])
qed

theorem loadmap_map_correct_witness:
  "\<exists>d s1 p s'. hpcrun_dso_make [97] None 1 2 (hpcrun_initLoadmap lm_start) = (d, s1) \<and> hpcrun_loadmap_map d s1 = Some (p, s') \<and>
    hpcrun_loadmap_findByName [97] s' = Some (Some p) \<and> mv_dso (mview s' p) = Some (1, 2, 0, 0)"
proof -
  have inv: "loadmap_inv (hpcrun_initLoadmap lm_start) [] [] []" by (rule init_inv) (simp add: lm_start_def)
  obtain d s1 where s1: "hpcrun_dso_make [97] None 1 2 (hpcrun_initLoadmap lm_start) = (d, s1)" by (meson surj_pair)
  note mk = dso_make_inv [OF inv s1]
  have n: "dso_name (s_dsos s1 d) = [97]" "dso_view (s_dsos s1 d) = (1, 2, 0, 0)" using mk(4) by (auto simp: made_def c_str_def)
  have "distinct (map mv_name (view s1 []))" by (simp add: view_def)
  from loadmap_map_correct [OF mk(1,2) this] s1 show ?thesis unfolding n by blast
qed

lemma length_upd_first [simp]: "length (upd_first P f V) = length V"
  by (induction V) auto

lemma adds_length: "length ((spec_lm_op (Add name) ^^ n) V) = n + length V"
  by (induction n) (simp_all add: spec_add_def)

lemma many_modules: "\<exists>s L F. loadmap_inv s L F [] \<and> length L = n"
proof -
  have "loadmap_inv (hpcrun_initLoadmap lm_start) [] [] []" by (rule init_inv) (simp add: lm_start_def)
  from run_lm_ops_inv [OF this, of "replicate n (Add [])"] obtain s' L F where "loadmap_inv s' L F []"
    "view s' L = fold spec_lm_op (replicate n (Add [])) []" by (auto simp: view_def)
  moreover from this(2) have "length (view s' L) = n" by (simp add: adds_length)
  then have "length L = n" by (simp add: view_def)
  ultimately show ?thesis by blast
qed

text \<open>
  C23. Identifiers of modules: after any sequence of loads, unloads, additions and address lookups on the initialised map, as long as there
  are fewer than \<open>2 ^ 16\<close> modules, the modules in the list, from its end to its head, have the identifiers \<open>1, 2, ...\<close>, so that none is 0 and
  no two are the same, and looking an identifier up finds its module.
\<close>

theorem loadmap_ids:
  assumes "s_loadmap_ptr s = None" and "run_lm_ops ops (hpcrun_initLoadmap s) = Some s'" and "s_loadmap_ptr s' = Some m"
    and "linked (\<lambda>p. mod_next (s_mods s' p)) (lmap_head m) L" and "length L < 2 ^ 16" and "i < length L"
  shows "mod_id (s_mods s' (L ! i)) = of_nat (length L - i) \<and> mod_id (s_mods s' (L ! i)) \<noteq> 0 \<and>
    hpcrun_loadmap_findById (mod_id (s_mods s' (L ! i))) s' = Some (Some (L ! i))"
proof -
  obtain L' F' where inv: "loadmap_inv s' L' F' []" using run_lm_ops_inv [OF init_inv [OF assms(1)], of ops] assms(2) by auto
  then have "L' = L" using assms(3,4) by (auto simp: loadmap_inv_def mods_ok_def intro: linked_unique)
  with inv have "loadmap_inv s' L F' []" by simp
  from inv_find_id [OF this assms(5,6)] show ?thesis .
qed

theorem loadmap_ids_witness:
  "\<exists>s'. run_lm_ops lm_example (hpcrun_initLoadmap lm_start) = Some s' \<and> hpcrun_loadmap_findById 3 s' = Some (Some 3)"
proof -
  have c: "map_option (\<lambda>s. (map_option lmap_head (s_loadmap_ptr s), mod_next (s_mods s 3), mod_next (s_mods s 2), mod_next (s_mods s 1)))
      (run_lm_ops lm_example (hpcrun_initLoadmap lm_start)) = Some (Some (Some 3), Some 2, Some 1, None)" by code_simp
  then obtain s' where s': "run_lm_ops lm_example (hpcrun_initLoadmap lm_start) = Some s'" by auto
  with c obtain m where m: "s_loadmap_ptr s' = Some m" "linked (\<lambda>p. mod_next (s_mods s' p)) (lmap_head m) [3, 2, 1]" by auto
  have "s_loadmap_ptr lm_start = None" by (simp add: lm_start_def)
  note t = loadmap_ids [OF this s' m, of 0]
  have i: "mod_id (s_mods s' 3) = 3" using t by simp
  have "hpcrun_loadmap_findById (mod_id (s_mods s' ([3, 2, 1] ! 0))) s' = Some (Some ([3, 2, 1] ! 0))"
    by (rule conjunct2 [OF conjunct2 [OF t]]) simp_all
  then have "hpcrun_loadmap_findById 3 s' = Some (Some 3)" by (simp only: nth_Cons_0 i)
  then show ?thesis using s' by blast
qed

text \<open>
  C24. When a process has mapped more than \<open>2 ^ 16\<close> modules the 16-bit counter of identifiers has wrapped: the first module has the
  identifier of a newer one, and looking its identifier up finds the newer module.
\<close>

theorem loadmap_ids_wrap:
  assumes "loadmap_inv s L F R" and "2 ^ 16 < length L"
  shows "\<exists>p. p \<noteq> last L \<and> hpcrun_loadmap_findById (mod_id (s_mods s (last L))) s = Some (Some p)"
proof -
  have mok: "mods_ok s L" and d: "distinct L" using assms(1) mods_distinct by (auto simp: loadmap_inv_def)
  note ids = inv_ids [OF assms(1)]
  let ?j = "length L - 1 - 2 ^ 16" and ?P = "\<lambda>p. mod_id (s_mods s p) = mod_id (s_mods s (last L))"
  have "L \<noteq> []" using assms(2) by auto
  then have L: "last L = L ! (length L - 1)" "?j < length L - 1" using assms(2) by (auto simp: last_conv_nth)
  have "mod_id (s_mods s (L ! ?j)) = of_nat (1 + 2 ^ 16)" using ids [of ?j] assms(2) by (simp add: Suc_diff_Suc)
  also have "\<dots> = mod_id (s_mods s (last L))" using ids [of "length L - 1"] L assms(2) by simp
  finally have same: "?P (L ! ?j)" .
  then obtain p where p: "List.find ?P L = Some p" using L(2) by (cases "List.find ?P L") (auto simp: find_None_iff)
  then obtain k where k: "k < length L" "p = L ! k" "\<forall>j < k. \<not> ?P (L ! j)" by (auto simp: find_Some_iff)
  have "k \<le> ?j" using k(3) same by (meson not_le_imp_less)
  then have "p \<noteq> last L" using k(1,2) L d by (auto simp: nth_eq_iff_index_eq)
  with p show ?thesis by (auto simp: hpcrun_loadmap_findById_def find_module_inv [OF mok])
qed

theorem loadmap_ids_wrap_witness:
  "\<exists>s L F p. loadmap_inv s L F [] \<and> length L = 2 ^ 16 + 1 \<and> p \<noteq> last L \<and>
    hpcrun_loadmap_findById (mod_id (s_mods s (last L))) s = Some (Some p)"
proof -
  obtain s L F where L: "loadmap_inv s L F []" "length L = 2 ^ 16 + 1" using many_modules by blast
  with loadmap_ids_wrap [OF L(1)] show ?thesis by auto
qed

end
