(* ===== verification/Write_Data.thy ===== *)
theory Write_Data
  imports Cct_File Loadmap
begin

text \<open>
  Writing the profile of a thread (\<open>src/hpcrun/write_data.c\<close>): the header, and for each epoch the load map, the calling
  context trees, the metric table, the dictionary of id tuples, the sparse metrics and, after the last one, the footer, each
  section at a multiple of 1024 bytes.

  The strings that describe the process (\<open>process_info\<close>) and the stream that opening the profile file gives are
  arguments; so is whether sampling is active. The epochs are a list; the load map of an epoch is either null or the load map of
  the process, which is the only one there is. The pointer \<open>footer\<close> is \<open>None\<close> when it is null, and an execution that
  dereferences a null pointer gives \<open>None\<close>. The code for the instrumentation of Intel devices, which is compiled only with
  \<open>ENABLE_GTPIN\<close>, is left out.
\<close>

section \<open>Printing of numbers\<close>

fun dec_digits :: "nat \<Rightarrow> c_string" where
  "dec_digits n = (if n < 10 then [of_nat (48 + n)] else dec_digits (n div 10) @ [of_nat (48 + n mod 10)])"

fun hex_digits :: "nat \<Rightarrow> c_string" where
  "hex_digits n = (let d = (\<lambda>k. of_nat (if k < 10 then 48 + k else 87 + k) :: byte)
     in if n < 16 then [d n] else hex_digits (n div 16) @ [d (n mod 16)])"

declare dec_digits.simps [simp del] hex_digits.simps [simp del]

definition dec_int :: "int \<Rightarrow> c_string" where
  "dec_int i = (if i < 0 then 45 # dec_digits (nat (- i)) else dec_digits (nat i))"

definition snprintf :: "nat \<Rightarrow> c_string \<Rightarrow> c_string" where
  "snprintf bufSZ s = take (bufSZ - 1) s"

section \<open>Data\<close>

record epoch_t =
  ep_csdata :: cct_bundle_t
  ep_csdata_ctxt :: "ptr option"
  ep_loadmap :: bool

record core_profile_trace_data_t =
  cp_id :: "32 word"
  cp_id_tuple :: id_tuple_t
  cp_epoch :: "epoch_t list"
  cp_trace_min_time_us :: u64
  cp_trace_max_time_us :: u64
  cp_trace_is_ordered :: bool
  cp_trace_expected_disorder :: u32
  cp_hpcrun_file :: "FILE option"

record process_info =
  pi_executable_name :: c_string
  pi_executable_pathname :: c_string
  pi_PATH :: "c_string option"
  pi_jobid :: "c_string option"
  pi_rank :: "32 word"
  pi_hostid :: u32
  pi_pid :: u32

text \<open>The components whose state a write goes through: the trees, their metric values, the metrics and the load map.\<close>

record measured =
  me_cct :: cct_state
  me_c2m :: c2m_state
  me_metrics :: metrics_state
  me_loadmap :: loadmap_state

definition MULTIPLE_1024 :: "u64 \<Rightarrow> u64" where
  "MULTIPLE_1024 v = (v + 1023) AND NOT 1023"

definition bufSZ :: nat where "bufSZ = 32"

definition hdr_args :: "process_info \<Rightarrow> core_profile_trace_data_t \<Rightarrow> c_string option list" where
  "hdr_args p cptd =
    (let rank = (if sint (pi_rank p) < 0 then 0 else sint (pi_rank p));
         jobIdStr = (case pi_jobid p of None \<Rightarrow> [] | Some j \<Rightarrow> j);
         traceDisorderStr = snprintf bufSZ (dec_digits (unat (cp_trace_expected_disorder cptd)))
     in [Some (str_lit ''program-name''), Some (pi_executable_name p),
         Some (str_lit ''program-path''), Some (pi_executable_pathname p),
         Some (str_lit ''env-path''), pi_PATH p,
         Some (str_lit ''job-id''), Some jobIdStr,
         Some (str_lit ''mpi-rank''), Some (snprintf bufSZ (dec_int rank)),
         Some (str_lit ''thread-id''), Some (snprintf bufSZ (dec_int (sint (cp_id cptd)))),
         Some (str_lit ''host-id''), Some (snprintf bufSZ (hex_digits (unat (pi_hostid p)))),
         Some (str_lit ''process-id''), Some (snprintf bufSZ (dec_digits (unat (pi_pid p)))),
         Some (str_lit ''trace-min-time''), Some (snprintf bufSZ (dec_digits (unat (cp_trace_min_time_us cptd)))),
         Some (str_lit ''trace-max-time''), Some (snprintf bufSZ (dec_digits (unat (cp_trace_max_time_us cptd)))),
         Some (str_lit ''trace-disorder''), Some (if cp_trace_is_ordered cptd then str_lit ''0'' else traceDisorderStr),
         None])"

definition lazy_open_data_file :: "bool \<Rightarrow> process_info \<Rightarrow> FILE option \<Rightarrow> core_profile_trace_data_t \<Rightarrow>
    FILE option \<times> core_profile_trace_data_t" where
  "lazy_open_data_file active p opened cptd = (case cp_hpcrun_file cptd of
     Some fs \<Rightarrow> (Some fs, cptd)
   | None \<Rightarrow>
      (case opened of None \<Rightarrow> (None, cptd)
       | Some fs \<Rightarrow>
          (let fs = (if active then snd (hpcrun_fmt_hdr_fwrite (hdr_args p cptd) fs) else fs)
           in (Some fs, cptd\<lparr> cp_hpcrun_file := Some fs \<rparr>))))"

section \<open>Sections\<close>

definition pos_of :: "FILE \<Rightarrow> u64" where
  "pos_of fs = of_nat (ftell fs)"

text \<open>The end of a section, where the footer is kept: the position is recorded and the stream moved to the next multiple.\<close>

definition end_section :: "(u64 \<Rightarrow> hpcrun_fmt_footer_t \<Rightarrow> hpcrun_fmt_footer_t) \<Rightarrow> hpcrun_fmt_footer_t option \<times> FILE \<Rightarrow>
    hpcrun_fmt_footer_t option \<times> FILE" where
  "end_section upd g = (case g of (None, fs) \<Rightarrow> (None, fs)
     | (Some f, fs) \<Rightarrow> (Some (upd (pos_of fs) f), seek_set (MULTIPLE_1024 (pos_of fs)) fs))"

definition module_entry :: "loadmap_state \<Rightarrow> ptr \<Rightarrow> loadmap_entry_t" where
  "module_entry s lm_src = \<lparr> lm_id = mod_id (s_mods s lm_src), lm_name = Some (mod_name (s_mods s lm_src)),
     lm_flags = scast (hpcrun_loadModule_flags_get lm_src s) \<rparr>"

partial_function (option) write_modules :: "loadmap_state \<Rightarrow> ptr option \<Rightarrow> FILE \<Rightarrow> (bool \<times> FILE) option" where
  "write_modules s lm_src fs = (case lm_src of None \<Rightarrow> Some (True, fs)
     | Some p \<Rightarrow> (case hpcrun_fmt_loadmapEntry_fwrite (module_entry s p) fs of
         (HPCFMT_OK _, fs) \<Rightarrow> write_modules s (mod_prev (s_mods s p)) fs
       | (HPCFMT_UB, fs) \<Rightarrow> None
       | (_, fs) \<Rightarrow> Some (False, fs)))"

declare write_modules.simps [code]

definition write_loadmap :: "loadmap_state \<Rightarrow> FILE \<Rightarrow> (bool \<times> FILE) option" where
  "write_loadmap s fs = (case hpcrun_getLoadmap s of None \<Rightarrow> None
     | Some m \<Rightarrow> write_modules s (lmap_end m) (snd (hpcfmt_int4_fwrite (ucast (lmap_size m)) fs)))"

definition tbl_descs :: "metrics_state \<Rightarrow> mnode option list \<Rightarrow> metric_desc_t list option" where
  "tbl_descs ms tbl = (if None \<in> set tbl then None else Some (map (\<lambda>n. md_val (ms_node ms (the n))) tbl))"

partial_function (option) write_metric_tbls :: "metrics_state \<Rightarrow> nat option \<Rightarrow> FILE \<Rightarrow> (bool \<times> FILE) option" where
  "write_metric_tbls ms cur fs = (case hpcrun_get_metric_tbl cur ms of
     (Some k, Some tbl) \<Rightarrow>
       (case tbl_descs ms tbl of None \<Rightarrow> None
        | Some ds \<Rightarrow> (case hpcrun_fmt_metricTbl_fwrite ds fs of
            (HPCFMT_OK _, fs) \<Rightarrow> write_metric_tbls ms (Some k) fs
          | (HPCFMT_UB, fs) \<Rightarrow> None
          | (_, fs) \<Rightarrow> Some (False, fs)))
   | _ \<Rightarrow> Some (True, fs))"

declare write_metric_tbls.simps [code]

definition write_metrics :: "metrics_state \<Rightarrow> FILE \<Rightarrow> (bool \<times> FILE \<times> metrics_state) option" where
  "write_metrics ms fs = (case hpcrun_get_num_kind_metrics ms of None \<Rightarrow> None
     | Some (n, ms) \<Rightarrow> map_option (\<lambda>(ok, fs). (ok, fs, ms)) (write_metric_tbls ms None (snd (hpcfmt_int4_fwrite (of_nat n) fs))))"

section \<open>Epochs\<close>

type_synonym epoch_result = "(int \<times> hpcrun_fmt_footer_t option \<times> FILE \<times> measured) option"

text \<open>After the trees: the metric table, the dictionary, the sparse metrics and, for the last epoch, the footer.\<close>

definition write_footer :: "bool \<Rightarrow> hpcrun_fmt_footer_t option \<Rightarrow> FILE \<Rightarrow> measured \<Rightarrow> epoch_result" where
  "write_footer is_last footer fs me =
    (if is_last then
       (case footer of None \<Rightarrow> None
        | Some f \<Rightarrow>
           (let f = f\<lparr> footer_HPCRUNsm := HPCRUNsm \<rparr>
            in case hpcrun_fmt_footer_fwrite f fs of
                 (HPCFMT_OK _, fs) \<Rightarrow> Some (HPCRUN_OK, Some f, fs, me)
               | (HPCFMT_UB, fs) \<Rightarrow> None
               | (_, fs) \<Rightarrow> Some (HPCRUN_ERR, Some f, fs, me)))
     else Some (HPCRUN_OK, footer, fs, me))"

definition write_tables :: "bool \<Rightarrow> hpcrun_fmt_sparse_metrics_t \<Rightarrow> hpcrun_fmt_footer_t option \<Rightarrow> FILE \<Rightarrow> measured \<Rightarrow> epoch_result" where
  "write_tables is_last sm footer fs me =
    (let footer = map_option (footer_met_tbl_start_update (\<lambda>_. pos_of fs)) footer
     in case write_metrics (me_metrics me) fs of None \<Rightarrow> None
      | Some (False, fs, ms) \<Rightarrow> Some (HPCRUN_ERR, footer, fs, me\<lparr> me_metrics := ms \<rparr>)
      | Some (True, fs, ms) \<Rightarrow>
         (let me = me\<lparr> me_metrics := ms \<rparr>;
              (footer, fs) = end_section (\<lambda>p. footer_met_tbl_end_update (\<lambda>_. p)) (footer, fs);
              footer = map_option (footer_idtpl_dxnry_start_update (\<lambda>_. pos_of fs)) footer;
              fs = snd (hpcrun_fmt_idtuple_dxnry_fwrite fs);
              (footer, fs) = end_section (\<lambda>p. footer_idtpl_dxnry_end_update (\<lambda>_. p)) (footer, fs);
              footer = map_option (footer_sm_start_update (\<lambda>_. pos_of fs)) footer
          in case hpcrun_fmt_sparse_metrics_fwrite sm fs of
               (HPCFMT_UB, fs) \<Rightarrow> None
             | (HPCFMT_OK _, fs) \<Rightarrow>
                (let (footer, fs) = end_section (\<lambda>p. footer_sm_end_update (\<lambda>_. p)) (footer, fs);
                     footer = map_option (footer_footer_start_update (\<lambda>_. pos_of fs)) footer
                 in write_footer is_last footer fs me)
             | (_, fs) \<Rightarrow> Some (HPCRUN_ERR, footer, fs, me)))"

definition write_cct :: "u64 \<Rightarrow> bool \<Rightarrow> id_tuple_t \<Rightarrow> cct_bundle_t \<Rightarrow> hpcrun_fmt_footer_t option \<Rightarrow> FILE \<Rightarrow> measured \<Rightarrow> epoch_result" where
  "write_cct junk is_last tuple csdata footer fs me =
    (let footer = map_option (footer_cct_start_update (\<lambda>_. pos_of fs)) footer
     in case hpcrun_cct_bundle_fwrite (ms_kinds (me_metrics me)) junk (Some fs) csdata (tl_map (me_c2m me)) tuple (me_cct me, me_c2m me) of
        Some (ret, Some (sm, fs), st, s) \<Rightarrow>
          (let me = me\<lparr> me_cct := st, me_c2m := s \<rparr>;
               (footer, fs) = end_section (\<lambda>p. footer_cct_end_update (\<lambda>_. p)) (footer, fs)
           in if ret \<noteq> HPCRUN_OK then Some (HPCRUN_ERR, footer, fs, me) else write_tables is_last sm footer fs me)
      | _ \<Rightarrow> None)"

definition write_epoch :: "u64 \<Rightarrow> bool \<Rightarrow> id_tuple_t \<Rightarrow> epoch_t \<Rightarrow> hpcrun_fmt_footer_t option \<Rightarrow> FILE \<Rightarrow> measured \<Rightarrow> epoch_result" where
  "write_epoch junk is_last tuple s footer fs me =
    (let footer = map_option (footer_loadmap_start_update (\<lambda>_. pos_of fs)) footer
     in if \<not> ep_loadmap s then Some (HPCRUN_ERR, footer, fs, me)
     else (case write_loadmap (me_loadmap me) fs of None \<Rightarrow> None
       | Some (False, fs) \<Rightarrow> Some (HPCRUN_ERR, footer, fs, me)
       | Some (True, fs) \<Rightarrow>
          (let (footer, fs) = end_section (\<lambda>p. footer_loadmap_end_update (\<lambda>_. p)) (footer, fs)
           in write_cct junk is_last tuple (ep_csdata s) footer fs me)))"

fun write_epochs_loop :: "u64 \<Rightarrow> id_tuple_t \<Rightarrow> epoch_t list \<Rightarrow> hpcrun_fmt_footer_t option \<Rightarrow> FILE \<Rightarrow> measured \<Rightarrow> epoch_result" where
  "write_epochs_loop junk tuple [] footer fs me = Some (HPCRUN_OK, footer, fs, me)"
| "write_epochs_loop junk tuple (s # ss) footer fs me =
    (case write_epoch junk (ss = []) tuple s footer fs me of None \<Rightarrow> None
     | Some (ret, footer, fs, me) \<Rightarrow>
        if ret = HPCRUN_OK then write_epochs_loop junk tuple ss footer fs me else Some (ret, footer, fs, me))"

definition write_epochs :: "bool \<Rightarrow> u64 \<Rightarrow> FILE \<Rightarrow> core_profile_trace_data_t \<Rightarrow> hpcrun_fmt_footer_t option \<Rightarrow> measured \<Rightarrow> epoch_result" where
  "write_epochs active junk fs cptd footer me =
    (if \<not> active then Some (HPCRUN_OK, footer, fs, me)
     else write_epochs_loop junk (cp_id_tuple cptd) (cp_epoch cptd) footer fs me)"

definition hpcrun_write_profile_data :: "bool \<Rightarrow> u64 \<Rightarrow> hpcrun_fmt_footer_t \<Rightarrow> process_info \<Rightarrow> FILE option \<Rightarrow>
    (core_profile_trace_data_t \<times> measured \<Rightarrow> core_profile_trace_data_t \<times> measured) option \<Rightarrow>
    core_profile_trace_data_t \<Rightarrow> measured \<Rightarrow> (int \<times> FILE \<times> measured) option" where
  "hpcrun_write_profile_data active junk uninit p opened scale_fn cptd me =
    (let (cptd, me) = (case scale_fn of None \<Rightarrow> (cptd, me) | Some f \<Rightarrow> f (cptd, me));
         footer = uninit\<lparr> footer_hdr_start := 0 \<rparr>
     in case lazy_open_data_file active p opened cptd of
          (None, cptd) \<Rightarrow> None
        | (Some fs, cptd) \<Rightarrow>
           (case end_section (\<lambda>p. footer_hdr_end_update (\<lambda>_. p)) (Some footer, fs) of (footer, fs) \<Rightarrow>
              (case write_epochs active junk fs cptd footer me of None \<Rightarrow> None
               | Some (_, _, fs, me) \<Rightarrow> Some (HPCRUN_OK, fs, me))))"

section \<open>The list of epochs\<close>

text \<open>
  From \<open>src/hpcrun/epoch.c\<close>. An epoch of which the load map is not the current one is followed by a new epoch; what that does to the
  trampoline of the thread is left out.
\<close>

definition hpcrun_reset_epoch :: "epoch_t \<Rightarrow> core_profile_trace_data_t \<Rightarrow> core_profile_trace_data_t" where
  "hpcrun_reset_epoch epoch cptd = cptd\<lparr> cp_epoch := [epoch] \<rparr>"

definition hpcrun_epoch_init :: "bool \<Rightarrow> ptr option \<Rightarrow> core_profile_trace_data_t \<Rightarrow> measured \<Rightarrow> (core_profile_trace_data_t \<times> measured) option" where
  "hpcrun_epoch_init attach ctxt cptd me = (case cp_epoch cptd of [] \<Rightarrow> None
     | epoch # _ \<Rightarrow>
        (case hpcrun_cct_bundle_init attach ctxt (me_cct me) of None \<Rightarrow> None
         | Some (b, st) \<Rightarrow> Some (cptd\<lparr> cp_epoch := [epoch\<lparr> ep_csdata := b, ep_loadmap := hpcrun_getLoadmap (me_loadmap me) \<noteq> None \<rparr>] \<rparr>,
             me\<lparr> me_cct := st \<rparr>)))"

definition hpcrun_epoch_reset :: "bool \<Rightarrow> core_profile_trace_data_t \<Rightarrow> measured \<Rightarrow> (core_profile_trace_data_t \<times> measured) option" where
  "hpcrun_epoch_reset attach cptd me = (case cp_epoch cptd of [] \<Rightarrow> None
     | epoch # _ \<Rightarrow>
        (case hpcrun_cct_bundle_init attach (ep_csdata_ctxt epoch) (me_cct me) of None \<Rightarrow> None
         | Some (b, st) \<Rightarrow> Some (hpcrun_reset_epoch (epoch\<lparr> ep_csdata := b \<rparr>) cptd, me\<lparr> me_cct := st \<rparr>)))"

definition hpcrun_check_for_new_loadmap :: "bool \<Rightarrow> core_profile_trace_data_t \<Rightarrow> measured \<Rightarrow> (core_profile_trace_data_t \<times> measured) option" where
  "hpcrun_check_for_new_loadmap attach cptd me = (case cp_epoch cptd of [] \<Rightarrow> None
     | epoch # older \<Rightarrow>
        (let current = hpcrun_getLoadmap (me_loadmap me) \<noteq> None
         in if ep_loadmap epoch \<noteq> current then
              (case hpcrun_cct_bundle_init attach (b_ctxt (ep_csdata epoch)) (me_cct me) of None \<Rightarrow> None
               | Some (b, st) \<Rightarrow>
                  Some (cptd\<lparr> cp_epoch := epoch\<lparr> ep_loadmap := current \<rparr> # epoch\<lparr> ep_csdata := b \<rparr> # older \<rparr>, me\<lparr> me_cct := st \<rparr>))
            else Some (cptd, me)))"

text \<open>The flush that makes room when memory is low.\<close>

definition hpcrun_flush_epochs :: "bool \<Rightarrow> u64 \<Rightarrow> process_info \<Rightarrow> FILE option \<Rightarrow> bool \<Rightarrow>
    core_profile_trace_data_t \<Rightarrow> measured \<Rightarrow> (core_profile_trace_data_t \<times> measured) option" where
  "hpcrun_flush_epochs active junk p opened attach cptd me = (case lazy_open_data_file active p opened cptd of
     (None, cptd) \<Rightarrow> Some (cptd, me)
   | (Some fs, cptd) \<Rightarrow>
      (case write_epochs active junk fs cptd None me of None \<Rightarrow> None
       | Some (_, _, fs, me) \<Rightarrow> hpcrun_epoch_reset attach (cptd\<lparr> cp_hpcrun_file := Some fs \<rparr>) me))"

section \<open>Positions and contents of the file\<close>

definition next_pos :: "nat \<Rightarrow> nat" where
  "next_pos n = (n + 1023) div 1024 * 1024"

lemma next_pos_le: "n \<le> next_pos n" "next_pos n \<le> n + 1023"
  using div_mult_mod_eq [of "n + 1023" 1024] mod_less_divisor [of 1024 "n + 1023"] unfolding next_pos_def by linarith+

lemma unat_MULTIPLE_1024:
  assumes "n + 1023 < 2 ^ 64"
  shows "unat (MULTIPLE_1024 (of_nat n)) = next_pos n"
proof -
  let ?x = "of_nat n + 1023 :: u64"
  have x: "unat ?x = n + 1023" using assms by (simp add: unat_word_ariths unat_of_nat)
  have "(NOT 1023 :: u64) = NOT (mask 10)" by (simp add: mask_eq_exp_minus_1)
  then have "MULTIPLE_1024 (of_nat n) = ?x AND NOT (mask 10)" by (simp add: MULTIPLE_1024_def)
  also have "\<dots> = push_bit 10 (drop_bit 10 ?x)" by (rule bit_word_eqI) (auto simp: bit_simps)
  also have "\<dots> = drop_bit 10 ?x * 1024" by (simp add: push_bit_eq_mult)
  finally have "unat (MULTIPLE_1024 (of_nat n)) = (unat ?x div 1024 * 1024) mod 2 ^ 64"
    by (simp add: unat_word_ariths unat_drop_bit_eq drop_bit_eq_div)
  moreover have "unat ?x div 1024 * 1024 < 2 ^ 64" using x assms by (metis div_times_less_eq_dividend le_less_trans)
  ultimately show ?thesis by (simp add: x next_pos_def)
qed

lemma fput_at_end:
  assumes "length (fdata fs) \<le> fpos fs" and "bs \<noteq> []"
  shows "fdata (fput fs bs) = fdata fs @ replicate (fpos fs - length (fdata fs)) 0 @ bs"
  using assms by (simp add: fput_def)

lemma holds_extend: "holds d off b \<Longrightarrow> holds (d @ e) off b"
  by (auto simp: holds_def)

lemma holds_fput:
  assumes "length (fdata fs) \<le> fpos fs"
  shows "holds (fdata (fput fs bs)) (fpos fs) bs"
  using assms by (cases "bs = []") (auto simp: holds_def fput_at_end)

lemma holds_keep:
  assumes "length (fdata fs) \<le> fpos fs" and "holds (fdata fs) off b"
  shows "holds (fdata (fput fs bs)) off b"
  using assms by (cases "bs = []") (auto simp: fput_at_end holds_extend)

text \<open>A section: its bytes are put at the position and the stream moved to the next multiple of 1024.\<close>

definition sec :: "FILE \<Rightarrow> byte list \<Rightarrow> FILE" where
  "sec fs bs = (fput fs bs)\<lparr> fpos := next_pos (fpos fs + length bs), feof := False \<rparr>"

lemma sec_simps [simp]:
  "fpos (sec fs bs) = next_pos (fpos fs + length bs)" "fcap (sec fs bs) = fcap fs" "fbad (sec fs bs) = fbad fs"
  "fdata (sec fs bs) = fdata (fput fs bs)"
  by (simp_all add: sec_def)

definition at_end :: "FILE \<Rightarrow> bool" where
  "at_end fs \<longleftrightarrow> length (fdata fs) \<le> fpos fs"

lemma at_end_fput:
  assumes "at_end fs"
  shows "at_end (fput fs bs)"
  using assms by (cases "bs = []") (auto simp: at_end_def fput_at_end)

lemma at_end_sec:
  assumes "at_end fs"
  shows "at_end (sec fs bs)"
  using at_end_fput [OF assms, of bs] next_pos_le(1) [of "fpos fs + length bs"] by (simp add: at_end_def)

lemma holds_sec:
  assumes "at_end fs"
  shows "holds (fdata (sec fs bs)) (fpos fs) bs" "holds (fdata fs) off b \<Longrightarrow> holds (fdata (sec fs bs)) off b"
    "holds (fdata fs) off b \<Longrightarrow> holds (fdata (fput fs bs)) off b"
  using assms by (simp_all add: holds_fput holds_keep at_end_def)

lemma end_section_Some:
  assumes "fpos fs + length bs + 1023 < 2 ^ 63"
  shows "end_section upd (Some f, fput fs bs) = (Some (upd (of_nat (fpos fs + length bs)) f), sec fs bs)"
proof -
  let ?n = "fpos fs + length bs"
  have u: "unat (MULTIPLE_1024 (of_nat ?n)) = next_pos ?n" by (rule unat_MULTIPLE_1024, rule less_trans [OF assms]) simp
  have "next_pos ?n < 2 ^ 63" by (rule le_less_trans [OF next_pos_le(2) assms])
  then have "unat (MULTIPLE_1024 (of_nat ?n)) < 2 ^ 63" unfolding u .
  from seek_set_small [OF this]
  have s: "seek_set (MULTIPLE_1024 (of_nat ?n)) g = g\<lparr> fpos := next_pos ?n, feof := False \<rparr>" for g unfolding u .
  show ?thesis unfolding end_section_def pos_of_def ftell_def prod.case option.case fput_fields s by (simp add: sec_def)
qed

section \<open>What the sections contain\<close>

lemma write_modules_run:
  "linked (\<lambda>p. mod_prev (s_mods s p)) x P \<Longrightarrow> (\<And>p. p \<in> set P \<Longrightarrow> valid_str (Some (mod_name (s_mods s p)))) \<Longrightarrow>
   room fs (length (concat (map (\<lambda>p. enc_loadmapEntry (module_entry s p)) P))) \<Longrightarrow>
   write_modules s x fs = Some (True, fput fs (concat (map (\<lambda>p. enc_loadmapEntry (module_entry s p)) P)))"
proof (induction P arbitrary: x fs)
  case Nil
  then show ?case by (simp add: write_modules.simps)
next
  case (Cons p P)
  have "emits (hpcrun_fmt_loadmapEntry_fwrite (module_entry s p)) (enc_loadmapEntry (module_entry s p))"
    using Cons.prems(2) by (intro loadmapEntry.wr_emits) (simp add: module_entry_def)
  moreover have r: "room fs (length (enc_loadmapEntry (module_entry s p)))"
    "room (fput fs (enc_loadmapEntry (module_entry s p))) (length (concat (map (\<lambda>p. enc_loadmapEntry (module_entry s p)) P)))"
    using Cons.prems(3) by (auto simp: room_def)
  ultimately have w: "hpcrun_fmt_loadmapEntry_fwrite (module_entry s p) fs = (HPCFMT_OK (), fput fs (enc_loadmapEntry (module_entry s p)))"
    using emitsD by blast
  have "write_modules s (mod_prev (s_mods s p)) (fput fs (enc_loadmapEntry (module_entry s p))) =
      Some (True, fput (fput fs (enc_loadmapEntry (module_entry s p))) (concat (map (\<lambda>p. enc_loadmapEntry (module_entry s p)) P)))"
    using Cons.prems r(2) by (intro Cons.IH) auto
  with w Cons.prems(1) show ?case by (subst write_modules.simps) simp
qed

definition module_entries :: "loadmap_state \<Rightarrow> ptr list \<Rightarrow> loadmap_entry_t list" where
  "module_entries s L = map (module_entry s) (rev L)"

lemma write_loadmap_run:
  assumes "loadmap_inv s L F R" and "length L < 2 ^ 16" and "\<forall>p \<in> set L. valid_str (Some (mod_name (s_mods s p)))"
    and "room fs (length (enc_loadmap (module_entries s L)))"
  shows "write_loadmap s fs = Some (True, fput fs (enc_loadmap (module_entries s L)))"
proof -
  obtain m where m: "s_loadmap_ptr s = Some m" "lmap_end m = end_of L" "lmap_size m = of_nat (length L)"
    and pv: "linked (\<lambda>p. mod_prev (s_mods s p)) (end_of L) (rev L)"
    using assms(1) by (auto simp: loadmap_inv_def mods_ok_def)
  have sz: "(ucast (of_nat (length L) :: u16) :: u32) = of_nat (length L)"
    using assms(2) by (simp add: unsigned_of_nat take_bit_nat_eq_self)
  let ?n = "enc_int4 (of_nat (length L))"
  have e: "enc_loadmap (module_entries s L) = ?n @ concat (map (\<lambda>p. enc_loadmapEntry (module_entry s p)) (rev L))"
    by (simp add: enc_loadmap_def module_entries_def o_def)
  have r: "room fs (length ?n)" "room (fput fs ?n) (length (concat (map (\<lambda>p. enc_loadmapEntry (module_entry s p)) (rev L))))"
    using assms(4) unfolding e by (auto simp: room_def)
  have "hpcfmt_int4_fwrite (of_nat (length L)) fs = (HPCFMT_OK (), fput fs ?n)" by (rule emitsD [OF int4.wr_emits r(1)]) simp
  with write_modules_run [OF pv _ r(2)] assms(3) show ?thesis
    unfolding e by (simp add: write_loadmap_def hpcrun_getLoadmap_def m sz)
qed

subsection \<open>The metric table\<close>

text \<open>The descriptors in the order of the file: kind by kind, each kind in the order of its table.\<close>

definition kind_descs :: "metrics_state \<Rightarrow> kind_info_t \<Rightarrow> metric_desc_t list" where
  "kind_descs ms ki = map (\<lambda>n. md_val (ms_node ms (the n))) (ki_metric_tbl ki)"

definition metric_list :: "metrics_state \<Rightarrow> metric_desc_t list" where
  "metric_list ms = concat (map (kind_descs ms) (ms_kinds ms))"

definition tables_ok :: "metrics_state \<Rightarrow> bool" where
  "tables_ok ms \<longleftrightarrow> (\<forall>ki \<in> set (ms_kinds ms). None \<notin> set (ki_metric_tbl ki)) \<and> length (metric_list ms) = ms_num_kind_metrics ms"

definition kinds_done :: "nat option \<Rightarrow> nat" where
  "kinds_done cur = (case cur of None \<Rightarrow> 0 | Some k \<Rightarrow> Suc k)"

lemma write_metric_tbls_run:
  assumes "\<forall>ki \<in> set (ms_kinds ms). None \<notin> set (ki_metric_tbl ki)" and "list_all valid_metricDesc (metric_list ms)"
    and "bs = concat (map enc_metricDesc (concat (map (kind_descs ms) (drop (kinds_done cur) (ms_kinds ms)))))" and "room fs (length bs)"
  shows "write_metric_tbls ms cur fs = Some (True, fput fs bs)"
  using assms(3,4)
proof (induction "length (ms_kinds ms) - kinds_done cur" arbitrary: cur fs bs)
  case 0
  then have "hpcrun_get_metric_tbl cur ms = (None, None)" "bs = []"
    by (simp_all add: hpcrun_get_metric_tbl_def kinds_done_def)
  then show ?case by (subst write_metric_tbls.simps) simp
next
  case (Suc n)
  let ?k = "kinds_done cur" and ?ki = "ms_kinds ms ! kinds_done cur"
  let ?b = "concat (map enc_metricDesc (kind_descs ms ?ki))"
    and ?bs = "concat (map enc_metricDesc (concat (map (kind_descs ms) (drop (kinds_done (Some ?k)) (ms_kinds ms)))))"
  have k: "?k < length (ms_kinds ms)" using Suc.hyps(2) by simp
  then have tbl: "hpcrun_get_metric_tbl cur ms = (Some ?k, Some (ki_metric_tbl ?ki))"
    by (simp add: hpcrun_get_metric_tbl_def kinds_done_def Let_def)
  have ki: "?ki \<in> set (ms_kinds ms)" using k by simp
  then have ds: "tbl_descs ms (ki_metric_tbl ?ki) = Some (kind_descs ms ?ki)" using assms(1) by (auto simp: tbl_descs_def kind_descs_def)
  have bs: "bs = ?b @ ?bs" using Suc.prems(1) Cons_nth_drop_Suc [OF k, symmetric] by (simp add: kinds_done_def)
  have r: "room fs (length ?b)" "room (fput fs ?b) (length ?bs)" using Suc.prems(2) unfolding bs by (auto simp: room_def)
  have "list_all valid_metricDesc (kind_descs ms ?ki)" using assms(2) ki by (auto simp: metric_list_def list_all_iff)
  then have "hpcrun_fmt_metricTbl_fwrite (kind_descs ms ?ki) fs = (HPCFMT_OK (), fput fs ?b)"
    by (intro emitsD [OF metricTbl_emits r(1)])
  moreover have "write_metric_tbls ms (Some ?k) (fput fs ?b) = Some (True, fput (fput fs ?b) ?bs)"
    using Suc.hyps(2) k r(2) by (intro Suc.hyps(1)) (simp_all add: kinds_done_def)
  ultimately show ?case unfolding bs by (subst write_metric_tbls.simps) (simp add: tbl ds)
qed

lemma write_metrics_run:
  assumes "metrics_ready ms" and "tables_ok ms" and "list_all valid_metricDesc (metric_list ms)"
    and "room fs (length (enc_metricTbl (metric_list ms)))"
  shows "write_metrics ms fs = Some (True, fput fs (enc_metricTbl (metric_list ms)), ms)"
proof -
  let ?n = "enc_int4 (of_nat (ms_num_kind_metrics ms))" and ?b = "concat (map enc_metricDesc (metric_list ms))"
  have e: "enc_metricTbl (metric_list ms) = ?n @ ?b" using assms(2) by (simp add: enc_metricTbl_def tables_ok_def)
  have r: "room fs (length ?n)" "room (fput fs ?n) (length ?b)" using assms(4) unfolding e by (auto simp: room_def)
  have "hpcfmt_int4_fwrite (of_nat (ms_num_kind_metrics ms)) fs = (HPCFMT_OK (), fput fs ?n)" by (rule emitsD [OF int4.wr_emits r(1)]) simp
  moreover have "write_metric_tbls ms None (fput fs ?n) = Some (True, fput (fput fs ?n) ?b)"
    using assms(2,3) r(2) by (intro write_metric_tbls_run) (simp_all add: tables_ok_def metric_list_def kinds_done_def)
  ultimately show ?thesis unfolding e using assms(1) by (simp add: write_metrics_def)
qed

section \<open>The file\<close>

text \<open>The positions that the footer records for a file whose sections are \<open>b1, b2, ...\<close>, from the stream before each of them.\<close>

definition tables_footer :: "FILE \<Rightarrow> byte list \<Rightarrow> byte list \<Rightarrow> byte list \<Rightarrow> hpcrun_fmt_footer_t \<Rightarrow> hpcrun_fmt_footer_t" where
  "tables_footer fs b1 b2 b3 f = f\<lparr> footer_met_tbl_start := of_nat (fpos fs), footer_met_tbl_end := of_nat (fpos fs + length b1),
     footer_idtpl_dxnry_start := of_nat (fpos (sec fs b1)), footer_idtpl_dxnry_end := of_nat (fpos (sec fs b1) + length b2),
     footer_sm_start := of_nat (fpos (sec (sec fs b1) b2)), footer_sm_end := of_nat (fpos (sec (sec fs b1) b2) + length b3),
     footer_footer_start := of_nat (fpos (sec (sec (sec fs b1) b2) b3)), footer_HPCRUNsm := HPCRUNsm \<rparr>"

lemma pos_sec: "fpos (sec fs bs) \<le> fpos fs + length bs + 1023"
  using next_pos_le(2) [of "fpos fs + length bs"] by simp

lemma room_cap: "fpos fs + n \<le> m \<Longrightarrow> m \<le> fcap fs \<Longrightarrow> room fs n"
  by (simp add: room_def)

lemma write_tables_run:
  assumes "metrics_ready (me_metrics me)" and "tables_ok (me_metrics me)" and "list_all valid_metricDesc (metric_list (me_metrics me))"
    and "valid_sm sm" and "b1 = enc_metricTbl (metric_list (me_metrics me))" and "b2 = enc_dxnry" and "b3 = enc_sm sm"
    and "fpos fs + length b1 + length b2 + length b3 + 5000 < B" and "B \<le> fcap fs" and "B \<le> 2 ^ 62"
  shows "write_tables True sm (Some f) fs me = Some (HPCRUN_OK, Some (tables_footer fs b1 b2 b3 f),
    fput (sec (sec (sec fs b1) b2) b3) (enc_footer (tables_footer fs b1 b2 b3 f)), me)"
proof -
  let ?f1 = "sec fs b1" and ?f2 = "sec (sec fs b1) b2" and ?f3 = "sec (sec (sec fs b1) b2) b3" and ?F = "tables_footer fs b1 b2 b3 f"
  have p: "fpos ?f1 \<le> fpos fs + length b1 + 1023" "fpos ?f2 \<le> fpos ?f1 + length b2 + 1023" "fpos ?f3 \<le> fpos ?f2 + length b3 + 1023"
    by (rule pos_sec)+
  have r: "room fs (length b1)" "room ?f1 (length b2)" "room ?f2 (length b3)" "room ?f3 (length (enc_footer ?F))"
    by (rule room_cap [where m = B]; use p assms(8,9) in \<open>simp add: length_enc_footer\<close>)+
  have q: "fpos fs + length b1 + 1023 < 2 ^ 63" "fpos ?f1 + length b2 + 1023 < 2 ^ 63" "fpos ?f2 + length b3 + 1023 < 2 ^ 63"
    by (rule less_le_trans [where y = B]; use p assms(8,10) in simp)+
  have w: "write_metrics (me_metrics me) fs = Some (True, fput fs b1, me_metrics me)"
    using write_metrics_run [OF assms(1-3)] r(1) by (simp add: assms(5))
  have d: "hpcrun_fmt_idtuple_dxnry_fwrite ?f1 = (HPCFMT_OK (), fput ?f1 b2)"
    unfolding assms(6) by (rule emitsD [OF dxnry.wr_emits]) (use r(2) assms(6) in simp_all)
  have s: "hpcrun_fmt_sparse_metrics_fwrite sm ?f2 = (HPCFMT_OK (), fput ?f2 b3)"
    unfolding assms(7) by (rule emitsD [OF sm.wr_emits [OF assms(4)]]) (use r(3) assms(7) in simp)
  have "footer_HPCRUNsm ?F = HPCRUNsm" by (simp add: tables_footer_def)
  then have ft: "hpcrun_fmt_footer_fwrite ?F ?f3 = (HPCFMT_OK (), fput ?f3 (enc_footer ?F))" by (rule emitsD [OF footer.wr_emits r(4)])
  have F: "f\<lparr> footer_met_tbl_start := pos_of fs, footer_met_tbl_end := of_nat (fpos fs + length b1),
     footer_idtpl_dxnry_start := pos_of ?f1, footer_idtpl_dxnry_end := of_nat (fpos (sec fs b1) + length b2),
     footer_sm_start := pos_of ?f2, footer_sm_end := of_nat (fpos (sec (sec fs b1) b2) + length b3),
     footer_footer_start := pos_of ?f3, footer_HPCRUNsm := HPCRUNsm \<rparr> = ?F"
    by (simp add: tables_footer_def pos_of_def ftell_def)
  show ?thesis
    unfolding write_tables_def write_footer_def w Let_def option.map option.case prod.case bool.case end_section_Some [OF q(1)] d snd_conv
      end_section_Some [OF q(2)] s hpcfmt.case end_section_Some [OF q(3)] F ft if_True by simp
qed

definition trees_footer :: "FILE \<Rightarrow> byte list \<Rightarrow> byte list \<Rightarrow> hpcrun_fmt_footer_t \<Rightarrow> hpcrun_fmt_footer_t" where
  "trees_footer fs bL bC f = f\<lparr> footer_loadmap_start := of_nat (fpos fs), footer_loadmap_end := of_nat (fpos fs + length bL),
     footer_cct_start := of_nat (fpos (sec fs bL)), footer_cct_end := of_nat (fpos (sec fs bL) + length bC) \<rparr>"

lemma write_epoch_run:
  assumes "loadmap_inv (me_loadmap me) L F R" and "length L < 2 ^ 16" and "\<forall>p \<in> set L. valid_str (Some (mod_name (s_mods (me_loadmap me) p)))"
    and "bL = enc_loadmap (module_entries (me_loadmap me) L)" and "ep_loadmap ep"
    and "hpcrun_cct_bundle_fwrite (ms_kinds (me_metrics me)) junk (Some (sec fs bL)) (ep_csdata ep) (tl_map (me_c2m me)) tuple (me_cct me, me_c2m me) =
      Some (HPCRUN_OK, Some (sm, fput (sec fs bL) bC), st', s')"
    and "metrics_ready (me_metrics me)" and "tables_ok (me_metrics me)" and "list_all valid_metricDesc (metric_list (me_metrics me))"
    and "valid_sm sm" and "b1 = enc_metricTbl (metric_list (me_metrics me))" and "b2 = enc_dxnry" and "b3 = enc_sm sm"
    and "fpos fs + length bL + length bC + length b1 + length b2 + length b3 + 8000 < B" and "B \<le> fcap fs" and "B \<le> 2 ^ 62"
    and "fs2 = sec (sec fs bL) bC" and "f' = tables_footer fs2 b1 b2 b3 (trees_footer fs bL bC f)"
  shows "write_epoch junk True tuple ep (Some f) fs me = Some (HPCRUN_OK, Some f',
    fput (sec (sec (sec fs2 b1) b2) b3) (enc_footer f'), me\<lparr> me_cct := st', me_c2m := s' \<rparr>)"
proof -
  have p: "fpos (sec fs bL) \<le> fpos fs + length bL + 1023" "fpos fs2 \<le> fpos (sec fs bL) + length bC + 1023"
    unfolding assms(17) by (rule pos_sec)+
  have q: "fpos fs + length bL + 1023 < 2 ^ 63" "fpos (sec fs bL) + length bC + 1023 < 2 ^ 63"
    by (rule less_le_trans [where y = B]; use p assms(14,16) in simp)+
  have "room fs (length (enc_loadmap (module_entries (me_loadmap me) L)))"
    by (rule room_cap [where m = B]; use assms(4,14,15) in simp)
  from write_loadmap_run [OF assms(1-3) this] have w: "write_loadmap (me_loadmap me) fs = Some (True, fput fs bL)" by (simp add: assms(4))
  let ?me = "me\<lparr> me_cct := st', me_c2m := s' \<rparr>" and ?f = "trees_footer fs bL bC f"
  have "fpos fs2 + length b1 + length b2 + length b3 + 5000 < B" using p assms(14) by simp
  moreover have "B \<le> fcap fs2" using assms(15) by (simp add: assms(17))
  ultimately have t: "write_tables True sm (Some ?f) fs2 ?me = Some (HPCRUN_OK, Some f',
      fput (sec (sec (sec fs2 b1) b2) b3) (enc_footer f'), ?me)"
    unfolding assms(18) using assms(7-13,16) by (intro write_tables_run) simp_all
  have F: "f\<lparr> footer_loadmap_start := pos_of fs, footer_loadmap_end := of_nat (fpos fs + length bL),
     footer_cct_start := pos_of (sec fs bL), footer_cct_end := of_nat (fpos (sec fs bL) + length bC) \<rparr> = ?f"
    by (simp add: trees_footer_def pos_of_def ftell_def)
  have "write_cct junk True tuple (ep_csdata ep) (Some (f\<lparr> footer_loadmap_start := pos_of fs, footer_loadmap_end := of_nat (fpos fs + length bL) \<rparr>))
      (sec fs bL) me = write_tables True sm (Some ?f) fs2 ?me"
    unfolding write_cct_def assms(6) Let_def option.map option.case prod.case end_section_Some [OF q(2)] F assms(17) by simp
  then show ?thesis
    unfolding write_epoch_def w Let_def option.map option.case prod.case bool.case end_section_Some [OF q(1)] t using assms(5) by simp
qed

section \<open>The header\<close>

definition hdr_pairs :: "process_info \<Rightarrow> core_profile_trace_data_t \<Rightarrow> (c_string \<times> c_string) list" where
  "hdr_pairs p cptd = [(str_lit ''program-name'', pi_executable_name p), (str_lit ''program-path'', pi_executable_pathname p),
     (str_lit ''env-path'', hpcfmt_str_ensure (pi_PATH p)), (str_lit ''job-id'', hpcfmt_str_ensure (pi_jobid p)),
     (str_lit ''mpi-rank'', snprintf bufSZ (dec_int (max 0 (sint (pi_rank p))))),
     (str_lit ''thread-id'', snprintf bufSZ (dec_int (sint (cp_id cptd)))),
     (str_lit ''host-id'', snprintf bufSZ (hex_digits (unat (pi_hostid p)))),
     (str_lit ''process-id'', snprintf bufSZ (dec_digits (unat (pi_pid p)))),
     (str_lit ''trace-min-time'', snprintf bufSZ (dec_digits (unat (cp_trace_min_time_us cptd)))),
     (str_lit ''trace-max-time'', snprintf bufSZ (dec_digits (unat (cp_trace_max_time_us cptd)))),
     (str_lit ''trace-disorder'', if cp_trace_is_ordered cptd then str_lit ''0''
        else snprintf bufSZ (dec_digits (unat (cp_trace_expected_disorder cptd))))]"

lemma hdr_args_pairs: "hpcrun_fmt_hdr_fwrite (hdr_args p cptd) = hpcrun_fmt_hdr_fwrite (nv_args (hdr_pairs p cptd))"
proof -
  have "hpcfmt_str_fwrite s = hpcfmt_str_fwrite (Some (hpcfmt_str_ensure s))" for s
    by (cases s) (simp_all add: hpcfmt_str_fwrite_def hpcfmt_str_ensure_def c_str_def)
  moreover have "(case j of None \<Rightarrow> [] | Some j \<Rightarrow> j) = hpcfmt_str_ensure j" for j by (simp add: hpcfmt_str_ensure_def split: option.split)
  moreover have "(if i < 0 then 0 else i) = max 0 i" for i :: int by (simp add: max_def)
  ultimately show ?thesis
    by (simp add: hpcrun_fmt_hdr_fwrite_def hpcfmt_nvpairs_vfwrite_def hdr_args_def hdr_pairs_def Let_def)
qed

lemma byte_nonzero: "0 < k \<Longrightarrow> k < 256 \<Longrightarrow> (of_nat k :: byte) \<noteq> 0"
  using unat_of_nat [of k, where 'a = 8] by auto

lemma digits_nonzero: "0 \<notin> set (dec_digits n)" "0 \<notin> set (hex_digits n)" "0 \<notin> set (dec_int i)"
proof -
  have b: "k < 16 \<Longrightarrow> (of_nat (48 + k) :: byte) \<noteq> 0" "k < 16 \<Longrightarrow> (of_nat (87 + k) :: byte) \<noteq> 0" for k
    by (intro byte_nonzero; simp)+
  have m: "k mod 10 < 16" "k < 10 \<Longrightarrow> k < 16" for k :: nat by (simp_all add: less_trans [OF mod_less_divisor])
  show d: "0 \<notin> set (dec_digits n)" for n
  proof (induction n rule: dec_digits.induct)
    case (1 n)
    then show ?case using b(1) m by (subst dec_digits.simps) (simp add: eq_commute [of 0] del: of_nat_add)
  qed
  show "0 \<notin> set (hex_digits n)"
  proof (induction n rule: hex_digits.induct)
    case (1 n)
    then show ?case using b [of n] b [of "n mod 16"] by (subst hex_digits.simps) (simp add: Let_def eq_commute [of 0] del: of_nat_add)
  qed
  show "0 \<notin> set (dec_int i)" using d by (simp add: dec_int_def)
qed

lemma snprintf_valid: "0 \<notin> set s \<Longrightarrow> valid_str (Some (snprintf bufSZ s))"
  by (auto simp: valid_str_def hpcfmt_str_ensure_def snprintf_def bufSZ_def dest: in_set_takeD)

definition process_ok :: "process_info \<Rightarrow> bool" where
  "process_ok p \<longleftrightarrow> valid_str (Some (pi_executable_name p)) \<and> valid_str (Some (pi_executable_pathname p)) \<and>
     valid_str (pi_PATH p) \<and> valid_str (pi_jobid p)"

lemma hdr_pairs_valid:
  assumes "process_ok p"
  shows "valid_nvs (hdr_pairs p cptd)"
proof -
  have lit: "valid_str (Some (str_lit s))" if "s \<in> {''program-name'', ''program-path'', ''env-path'', ''job-id'', ''mpi-rank'', ''thread-id'',
      ''host-id'', ''process-id'', ''trace-min-time'', ''trace-max-time'', ''trace-disorder'', ''0''}" for s
    using that by (auto simp: valid_str_def hpcfmt_str_ensure_def str_lit_def)
  have e: "valid_str s = valid_str (Some (hpcfmt_str_ensure s))" for s by (simp add: valid_str_def hpcfmt_str_ensure_def)
  show ?thesis using assms e [of "pi_PATH p"] e [of "pi_jobid p"]
    by (simp add: hdr_pairs_def valid_nv_def lit snprintf_valid digits_nonzero process_ok_def)
qed

text \<open>The buffers of \<open>lazy_open_data_file\<close> hold every number they are used for.\<close>

lemma length_dec_digits: "n < 10 ^ Suc k \<Longrightarrow> length (dec_digits n) \<le> Suc k"
proof (induction k arbitrary: n)
  case 0
  then show ?case by (subst dec_digits.simps) simp
next
  case (Suc k)
  then have "n div 10 < 10 ^ Suc k" by (simp add: less_mult_imp_div_less mult.commute)
  from Suc.IH [OF this] show ?case by (subst dec_digits.simps) simp
qed

lemma snprintf_dec_u64: "snprintf bufSZ (dec_digits (unat (w :: u64))) = dec_digits (unat w)"
proof -
  have "unat w < 2 ^ 64" by (rule less_le_trans [OF unsigned_less]) simp
  then have "unat w < 10 ^ Suc 19" by simp
  from length_dec_digits [OF this] show ?thesis by (simp add: snprintf_def bufSZ_def)
qed

section \<open>Reading the file\<close>

lemma sm_size:
  assumes "sm_readable sm"
  shows "length (enc_sm sm) < 2 ^ 40"
proof -
  have v: "valid_sm sm" "12 * length (sm_cct_nodes sm) < 2 ^ 32" "unat (sm_num_vals sm) < 2 ^ 32"
    using assms by (simp_all add: sm_readable_def sm_wf_def valid_sm_def)
  have "unat (tuple_length (sm_id_tuple sm)) < 2 ^ 16" by (rule less_le_trans [OF unsigned_less]) simp
  then show ?thesis using length_enc_sm [OF v(1), of 0] v(2,3) by (simp add: idx_off_def val_off_def tuple_size_def)
qed

lemma dxnry_size: "0 < length enc_dxnry" "length enc_dxnry < 1000"
  by code_simp+

lemma length_enc_cct: "length (enc_cct ns) = 8 + 19 * length ns"
  by (simp add: enc_cct_def length_enc_cct_nodes)

lemma at_section_nat:
  assumes "holds d s bs" and "s + length bs < B" and "B \<le> 2 ^ 62"
  shows "at_section d (of_nat s) (of_nat (s + length bs)) bs"
proof -
  have "s + length bs < 2 ^ 63" using assms(2,3) by (simp add: less_le_trans)
  then have "unat (of_nat s :: u64) = s" "unat (of_nat (s + length bs) :: u64) = s + length bs"
    by (simp_all add: unat_of_nat del: of_nat_add)
  with assms(1) \<open>s + length bs < 2 ^ 63\<close> show ?thesis unfolding at_section_def by simp
qed

lemma footer_update_0: "hpcrun_sparse_footer_update_w_start f 0 = f"
  by (simp add: hpcrun_sparse_footer_update_w_start_def)

lemma epoch_sections:
  assumes "at_end fs" and "fs2 = sec (sec fs bL) bC" and "f' = tables_footer fs2 b1 b2 b3 (trees_footer fs bL bC f)"
    and "fs' = fput (sec (sec (sec fs2 b1) b2) b3) (enc_footer f')"
    and "bL = enc_loadmap ls" and "bC = enc_cct ns" and "b1 = enc_metricTbl ms" and "b3 = enc_sm sm"
    and "fpos fs + length bL + length bC + length b1 + length b2 + length b3 + 8000 < B" and "B \<le> 2 ^ 62"
  shows "sections_in f' (fdata fs') ls ms ns sm" "\<exists>body. fdata fs' = body @ enc_footer f'" "length (fdata fs') < 2 ^ 63"
    "holds (fdata fs) off bs \<Longrightarrow> holds (fdata fs') off bs"
proof -
  define f1 where "f1 = sec fs bL"
  define f3 where "f3 = sec fs2 b1"
  define f4 where "f4 = sec f3 b2"
  define f5 where "f5 = sec f4 b3"
  have fs2: "fs2 = sec f1 bC" and fs': "fs' = fput f5 (enc_footer f')" by (simp_all add: assms(2,4) f1_def f3_def f4_def f5_def)
  have e: "at_end f1" "at_end fs2" "at_end f3" "at_end f4" "at_end f5"
    unfolding f1_def f3_def f4_def f5_def assms(2) by (intro at_end_sec assms(1))+
  have p: "fpos f1 \<le> fpos fs + length bL + 1023" "fpos fs2 \<le> fpos f1 + length bC + 1023" "fpos f3 \<le> fpos fs2 + length b1 + 1023"
    "fpos f4 \<le> fpos f3 + length b2 + 1023" "fpos f5 \<le> fpos f4 + length b3 + 1023"
    unfolding f1_def fs2 f3_def f4_def f5_def by (rule pos_sec)+
  have k5: "holds (fdata f5) o' b \<Longrightarrow> holds (fdata fs') o' b" for o' b unfolding fs' by (rule holds_sec(3) [OF e(5)])
  have k4: "holds (fdata f4) o' b \<Longrightarrow> holds (fdata fs') o' b" for o' b
    by (rule k5) (simp only: f5_def holds_sec(2) [OF e(4)])
  have k3: "holds (fdata f3) o' b \<Longrightarrow> holds (fdata fs') o' b" for o' b
    by (rule k4) (simp only: f4_def holds_sec(2) [OF e(3)])
  have k2: "holds (fdata fs2) o' b \<Longrightarrow> holds (fdata fs') o' b" for o' b
    by (rule k3) (simp only: f3_def holds_sec(2) [OF e(2)])
  have k1: "holds (fdata f1) o' b \<Longrightarrow> holds (fdata fs') o' b" for o' b
    by (rule k2) (simp only: fs2 holds_sec(2) [OF e(1)])
  show k0: "holds (fdata fs) off bs \<Longrightarrow> holds (fdata fs') off bs"
    by (rule k1) (simp only: f1_def holds_sec(2) [OF assms(1)])
  have h: "holds (fdata fs') (fpos fs) bL" "holds (fdata fs') (fpos f1) bC" "holds (fdata fs') (fpos fs2) b1" "holds (fdata fs') (fpos f4) b3"
    using k1 [OF holds_sec(1) [OF assms(1), of bL, folded f1_def]] k2 [OF holds_sec(1) [OF e(1), of bC, folded fs2]]
      k3 [OF holds_sec(1) [OF e(2), of b1, folded f3_def]] k5 [OF holds_sec(1) [OF e(4), of b3, folded f5_def]] by simp_all
  have F: "footer_loadmap_start f' = of_nat (fpos fs)" "footer_loadmap_end f' = of_nat (fpos fs + length bL)"
    "footer_cct_start f' = of_nat (fpos f1)" "footer_cct_end f' = of_nat (fpos f1 + length bC)"
    "footer_met_tbl_start f' = of_nat (fpos fs2)" "footer_met_tbl_end f' = of_nat (fpos fs2 + length b1)"
    "footer_sm_start f' = of_nat (fpos f4)" "footer_sm_end f' = of_nat (fpos f4 + length b3)"
    unfolding assms(3) tables_footer_def trees_footer_def f1_def f3_def f4_def by simp_all
  have "at_section (fdata fs') (of_nat (fpos fs)) (of_nat (fpos fs + length bL)) bL"
    "at_section (fdata fs') (of_nat (fpos fs2)) (of_nat (fpos fs2 + length b1)) b1"
    "at_section (fdata fs') (of_nat (fpos f1)) (of_nat (fpos f1 + length bC)) bC"
    "at_section (fdata fs') (of_nat (fpos f4)) (of_nat (fpos f4 + length b3)) b3"
    by (rule at_section_nat [OF h(1) _ assms(10)] at_section_nat [OF h(3) _ assms(10)] at_section_nat [OF h(2) _ assms(10)]
        at_section_nat [OF h(4) _ assms(10)]; use p assms(9) in simp)+
  then show "sections_in f' (fdata fs') ls ms ns sm" unfolding sections_in_def F assms(5-8) by blast
  have "fdata fs' = (fdata f5 @ replicate (fpos f5 - length (fdata f5)) 0) @ enc_footer f'"
    unfolding fs' using e(5) length_enc_footer [of f'] by (subst fput_at_end) (auto simp: at_end_def)
  then show "\<exists>body. fdata fs' = body @ enc_footer f'" by blast
  have "length (fdata fs') \<le> fpos f5 + 112" using at_end_fput [OF e(5), of "enc_footer f'"] by (simp add: fs' at_end_def length_enc_footer)
  also have "\<dots> < B" using p assms(9) by simp
  also have "B \<le> 2 ^ 63" using assms(10) by simp
  finally show "length (fdata fs') < 2 ^ 63" .
qed

text \<open>A thread that has recorded samples: its trees can be written to any stream with enough room.\<close>

definition trees_written :: "metrics_state \<Rightarrow> u64 \<Rightarrow> cct_bundle_t \<Rightarrow> id_tuple_t \<Rightarrow> cct_state \<Rightarrow> c2m_state \<Rightarrow>
    (hpcrun_fmt_sparse_metrics_t \<Rightarrow> ptr list \<Rightarrow> cct_state \<Rightarrow> c2m_state \<Rightarrow> bool) \<Rightarrow> FILE \<Rightarrow> bool" where
  "trees_written ms junk b tuple st s P g \<longleftrightarrow> (\<exists>sm ns st' s'.
      hpcrun_cct_bundle_fwrite (ms_kinds ms) junk (Some g) b (tl_map s) tuple (st, s) =
        Some (HPCRUN_OK, Some (sm, fput g (enc_cct (map (tmp_node (st_cct st')) ns))), st', s') \<and>
      sm_readable sm \<and> length ns < 2 ^ 27 \<and> (\<forall>n \<in> set (map (tmp_node (st_cct st')) ns). 0 < sint (cct_id n)) \<and> P sm ns st' s')"

text \<open>What a process has to have for its threads to write their profiles.\<close>

definition process_writable :: "process_info \<Rightarrow> loadmap_state \<Rightarrow> ptr list \<Rightarrow> metrics_state \<Rightarrow> bool" where
  "process_writable p lm L ms \<longleftrightarrow> process_ok p \<and> (\<exists>F R. loadmap_inv lm L F R) \<and> length L < 2 ^ 16 \<and>
     (\<forall>x \<in> set L. valid_str (Some (mod_name (s_mods lm x)))) \<and> metrics_ready ms \<and> tables_ok ms \<and>
     list_all valid_metricDesc (metric_list ms) \<and> length (metric_list ms) < 2 ^ 16"

lemma modules_valid:
  assumes "process_writable p lm L ms"
  shows "list_all (\<lambda>l. valid_str (lm_name l) \<and> lm_id l \<noteq> 0) (module_entries lm L)"
    "map loadmapEntry_img (module_entries lm L) = module_entries lm L"
proof -
  obtain F R where inv: "loadmap_inv lm L F R" and small: "length L < 2 ^ 16"
    using assms by (auto simp: process_writable_def)
  have "mod_id (s_mods lm x) \<noteq> 0" if x: "x \<in> set L" for x
  proof -
    obtain i where i: "i < length L" "x = L ! i" using x by (auto simp: in_set_conv_nth)
    have "of_nat (length L - i) = (of_nat 0 :: u16) \<Longrightarrow> length L - i = 0" using small by (intro of_nat_u16_inj) simp_all
    then show ?thesis using inv_ids [OF inv i(1)] i by auto
  qed
  then show "list_all (\<lambda>l. valid_str (lm_name l) \<and> lm_id l \<noteq> 0) (module_entries lm L)"
    using assms by (auto simp: module_entries_def module_entry_def list_all_iff process_writable_def)
  show "map loadmapEntry_img (module_entries lm L) = module_entries lm L"
    by (simp add: module_entries_def loadmapEntry_img_def module_entry_def hpcfmt_str_ensure_def)
qed

lemma write_profile_run:
  assumes w: "process_writable p lm L ms" and cp: "cp_hpcrun_file cptd = None" "cp_epoch cptd = [ep]" "ep_loadmap ep"
    and fs: "fdata fs = []" "fpos fs = 0" "2 ^ 62 \<le> fcap fs"
    and b0: "b0 = enc_hdr (hdr_pairs p cptd)" and bL: "bL = enc_loadmap (module_entries lm L)" and b1: "b1 = enc_metricTbl (metric_list ms)"
    and size: "length b0 + length bL + length b1 < 2 ^ 60"
    and trees: "\<And>g. 2 ^ 62 \<le> fcap g \<Longrightarrow> fpos g < 2 ^ 61 \<Longrightarrow> trees_written ms junk (ep_csdata ep) (cp_id_tuple cptd) st s P g"
  shows "\<exists>fs' sm ns st' s'. hpcrun_write_profile_data True junk uninit p (Some fs) None cptd
      \<lparr> me_cct = st, me_c2m = s, me_metrics = ms, me_loadmap = lm \<rparr> =
      Some (HPCRUN_OK, fs', \<lparr> me_cct = st', me_c2m = s', me_metrics = ms, me_loadmap = lm \<rparr>) \<and> P sm ns st' s' \<and>
    (\<forall>r k. fdata r = fdata fs' \<longrightarrow> length (fdata r) \<le> fbad r \<longrightarrow> 2 ^ 32 \<le> k \<longrightarrow>
       map_option (sparse_read_all k) (hpcrun_sparse_open garbage (Some r) 0 0) =
       Some \<lparr> rd_lms = module_entries lm L, rd_metrics = map metricDesc_img (metric_list ms),
         rd_contexts = map (tmp_node (st_cct st')) ns, rd_blocks = map (block_of sm) [0..<unat (sm_num_nz_cct_nodes sm)],
         rd_status = [Some SF_END, Some SF_END, Some SF_END, Some SF_END] \<rparr>) \<and>
    (\<forall>r. fdata r = fdata fs' \<longrightarrow> length (fdata r) \<le> fbad r \<longrightarrow> fpos r = 0 \<longrightarrow>
       fst (hpcrun_fmt_hdr_fread malloc r) = HPCFMT_OK (hdr_img (hdr_pairs p cptd)))"
proof -
  let ?me = "\<lparr> me_cct = st, me_c2m = s, me_metrics = ms, me_loadmap = lm \<rparr>"
  obtain F R where W: "process_ok p" "loadmap_inv lm L F R" "length L < 2 ^ 16" "\<forall>x \<in> set L. valid_str (Some (mod_name (s_mods lm x)))"
    "metrics_ready ms" "tables_ok ms" "list_all valid_metricDesc (metric_list ms)" "length (metric_list ms) < 2 ^ 16"
    using w by (auto simp: process_writable_def)
  have hv: "valid_nvs (hdr_pairs p cptd)" by (rule hdr_pairs_valid [OF W(1)])
  have "room fs (length b0)" using fs size by (simp add: room_def)
  then have hw: "snd (hpcrun_fmt_hdr_fwrite (hdr_args p cptd) fs) = fput fs b0"
    unfolding hdr_args_pairs b0 using emitsD [OF hdr.wr_emits [OF hv]] by simp
  define f0 where "f0 = sec fs b0"
  have e0: "at_end f0" unfolding f0_def by (rule at_end_sec) (simp add: at_end_def fs)
  have p0: "fpos f0 \<le> length b0 + 1023" using pos_sec [of fs b0] fs by (simp add: f0_def)
  have p1: "fpos (sec f0 bL) \<le> fpos f0 + length bL + 1023" by (rule pos_sec)
  have cap: "2 ^ 62 \<le> fcap f0" using fs by (simp add: f0_def)
  have "2 ^ 62 \<le> fcap (sec f0 bL)" "fpos (sec f0 bL) < 2 ^ 61" using cap p0 p1 size by simp_all
  from trees [OF this] obtain sm ns st' s' where B:
    "hpcrun_cct_bundle_fwrite (ms_kinds ms) junk (Some (sec f0 bL)) (ep_csdata ep) (tl_map s) (cp_id_tuple cptd) (st, s) =
        Some (HPCRUN_OK, Some (sm, fput (sec f0 bL) (enc_cct (map (tmp_node (st_cct st')) ns))), st', s')"
    "sm_readable sm" "length ns < 2 ^ 27" "\<forall>n \<in> set (map (tmp_node (st_cct st')) ns). 0 < sint (cct_id n)" "P sm ns st' s'"
    unfolding trees_written_def by (elim exE conjE) (rule that)
  let ?ns = "map (tmp_node (st_cct st')) ns" and ?f = "uninit\<lparr> footer_hdr_start := 0, footer_hdr_end := of_nat (length b0) \<rparr>"
  define bC where "bC = enc_cct ?ns"
  define b3 where "b3 = enc_sm sm"
  define fs2 where "fs2 = sec (sec f0 bL) bC"
  define f' where "f' = tables_footer fs2 b1 enc_dxnry b3 (trees_footer f0 bL bC ?f)"
  define fs' where "fs' = fput (sec (sec (sec fs2 b1) enc_dxnry) b3) (enc_footer f')"
  have sz: "fpos f0 + length bL + length bC + length b1 + length enc_dxnry + length b3 + 8000 < 2 ^ 62"
    using p0 size B(3) sm_size [OF B(2)] dxnry_size(2) by (simp add: bC_def b3_def length_enc_cct)
  have vs: "valid_sm sm" using B(2) by (simp add: sm_readable_def sm_wf_def)
  have ep: "write_epoch junk True (cp_id_tuple cptd) ep (Some ?f) f0 ?me =
      Some (HPCRUN_OK, Some f', fs', ?me\<lparr> me_cct := st', me_c2m := s' \<rparr>)"
    unfolding fs'_def
    by (rule write_epoch_run [where L = L and F = F and R = R and bL = bL and bC = bC and sm = sm and B = "2 ^ 62", OF _ W(3) _ _ cp(3) _ _ _ _ vs _ _ _ sz cap])
      (use W B(1) bL b1 in \<open>simp_all add: bC_def b3_def fs2_def f'_def\<close>)
  have "fpos fs + length b0 + 1023 < 2 ^ 63" using size fs by simp
  from end_section_Some [OF this] have eh: "end_section (\<lambda>p. footer_hdr_end_update (\<lambda>_. p)) (Some (uninit\<lparr> footer_hdr_start := 0 \<rparr>), fput fs b0) = (Some ?f, f0)"
    by (simp add: f0_def fs)
  have run: "hpcrun_write_profile_data True junk uninit p (Some fs) None cptd ?me =
      Some (HPCRUN_OK, fs', \<lparr> me_cct = st', me_c2m = s', me_metrics = ms, me_loadmap = lm \<rparr>)"
    by (simp add: hpcrun_write_profile_data_def lazy_open_data_file_def cp hw Let_def eh write_epochs_def ep)
  have S: "sections_in f' (fdata fs') (module_entries lm L) (metric_list ms) ?ns sm" "\<exists>body. fdata fs' = body @ enc_footer f'"
    "length (fdata fs') < 2 ^ 63" "\<And>off bs. holds (fdata f0) off bs \<Longrightarrow> holds (fdata fs') off bs"
    by (rule epoch_sections [OF e0 fs2_def f'_def fs'_def bL bC_def b1 b3_def sz order_refl] | assumption)+
  have mv: "measurement_valid (module_entries lm L) (metric_list ms) ?ns sm"
    using modules_valid(1) [OF w] W(3,7,8) B(2,3,4) by (simp add: measurement_valid_def list_all_iff module_entries_def)
  have rd: "map_option (sparse_read_all k) (hpcrun_sparse_open garbage (Some r) 0 0) =
       Some \<lparr> rd_lms = module_entries lm L, rd_metrics = map metricDesc_img (metric_list ms),
         rd_contexts = ?ns, rd_blocks = map (block_of sm) [0..<unat (sm_num_nz_cct_nodes sm)],
         rd_status = [Some SF_END, Some SF_END, Some SF_END, Some SF_END] \<rparr>"
    if r: "fdata r = fdata fs'" "length (fdata r) \<le> fbad r" "2 ^ 32 \<le> k" for r k
  proof -
    obtain body where "fdata r = body @ enc_footer f'" using S(2) r(1) by auto
    moreover have "footer_HPCRUNsm f' = HPCRUNsm" by (simp add: f'_def tables_footer_def)
    ultimately obtain sf where o: "hpcrun_sparse_open garbage (Some r) 0 0 = Some sf" "sf_fresh sf" "sf_footer sf = f'" "content (sf_file sf) = fdata r"
      using sparse_open_footer [of r body f' 0 garbage 0] r(1,2) S(3) footer_update_0 by metis
    have "unat (sm_num_nz_cct_nodes sm) < 2 ^ 32" by (rule less_le_trans [OF unsigned_less]) simp
    moreover have "length (sm_values sm) < 2 ^ 32" using vs by (simp add: valid_sm_def)
    ultimately have "Max {length (module_entries lm L), length (metric_list ms), length ?ns, unat (sm_num_nz_cct_nodes sm), length (sm_values sm)} < k"
      using r(3) W(3,8) B(3) by (simp add: module_entries_def)
    moreover have "sections_in (sf_footer sf) (content (sf_file sf)) (module_entries lm L) (metric_list ms) ?ns sm" using S(1) o r(1) by simp
    ultimately show ?thesis using read_all_sections [OF mv _ o(2)] o(1) modules_valid(2) [OF w] by simp
  qed
  have hd: "fst (hpcrun_fmt_hdr_fread malloc r) = HPCFMT_OK (hdr_img (hdr_pairs p cptd))"
    if r: "fdata r = fdata fs'" "length (fdata r) \<le> fbad r" "fpos r = 0" for r
  proof -
    have "holds (fdata f0) 0 b0" using holds_sec(1) [of fs b0] fs by (simp add: f0_def at_end_def)
    then have "holds (fdata r) 0 b0" unfolding r(1) by (rule S(4))
    then obtain rest where "ahead r = b0 @ rest" using r(2,3) by (auto simp: ahead_def holds_def)
    then show ?thesis using parsesD [OF hdr.rd_parses [OF hv]] unfolding b0 by simp
  qed
  show ?thesis using run B(5) rd hd by blast
qed

definition blocks_of :: "metrics_state \<Rightarrow> cct_bundle_t \<Rightarrow> (ptr \<Rightarrow> u16 \<times> u64 \<Rightarrow> ptr option) \<Rightarrow> (ptr \<rightharpoonup> metric_data_list_t) \<Rightarrow> cct_state \<Rightarrow>
    ptr list \<Rightarrow> hpcrun_fmt_sparse_metrics_t \<Rightarrow> ptr list \<Rightarrow> cct_state \<Rightarrow> bool" where
  "blocks_of ms b C M st ws sm ns st' \<longleftrightarrow>
     map (block_of sm) [0..<unat (sm_num_nz_cct_nodes sm)] = map (block (ms_kinds ms) M (st_cct st)) ws \<and>
     parents_first (st_cct st') {b_top b} (tl ns) \<and> distinct ws \<and> set ws \<subseteq> set ns \<and>
     set ws = {q. \<exists>x \<in> {b_top b, b_partial_unw_root b}. \<exists>ks. follow C x ks = Some q \<and> node_values (ms_kinds ms) M q \<noteq> []}"

lemma thread_trees:
  assumes ready: "metrics_ready ms" and "\<forall>smp \<in> set ss. adds_samples fadd procs ms (sample_in b smp)" and "tl_map s = None"
    and "st_freelist st = None" and "ids_left st (sum_list (map (sample_frames \<circ> sample_in b) ss) + 3)"
    and "hpcrun_cct_bundle_init attach None st = Some (b, st1)"
    and n: "n = 3 + sum_list (map (sample_frames \<circ> sample_in b) ss)" "n < 2 ^ 27"
    and nm: "num_metrics ms < 2 ^ 16 - 1" "n * num_metrics ms < 2 ^ 31"
    and path: "\<forall>smp \<in> set ss. fst (sample_in b smp) = b_top b \<longrightarrow> \<not> prefix [addr_key PARTIAL_ROOT] (sample_path retain (sample_in b smp))"
    and tuple: "unat (tuple_length tuple) \<le> length (tuple_ids tuple)"
  shows "\<exists>qs st' s' N C M. run_bundle retain procs b ss (st1, s, ms) = Some (qs, st', s', ms) \<and> sampled retain ms b ss qs st' N C M \<and>
    (\<forall>g. 2 ^ 62 \<le> fcap g \<longrightarrow> fpos g < 2 ^ 61 \<longrightarrow>
      trees_written ms junk b tuple st' s' (\<lambda>sm ns st'' s''. \<exists>ws. blocks_of ms b C M st' ws sm ns st'') g)"
proof -
  obtain qs st' s' N C M where 1: "run_bundle retain procs b ss (st1, s, ms) = Some (qs, st', s', ms)"
    "sampled retain ms b ss qs st' N C M" "c2m_rep s' (tl_map s') M" "c2m_ok (ms_kinds ms) M" "ids_ok st' N" "ids_left st' 0"
    "bundle_ok b st'" "card N \<le> n"
    using run_bundle_sampled [OF assms(1-6), of retain] n(1) by blast
  have inv: "cct_inv st' N (bundle_roots b) C" using 1(2) by (simp add: sampled_def)
  have "paths_of C (b_top b) = {[]} \<union> {ks. \<exists>smp \<in> set (map (sample_in b) ss). fst smp = b_top b \<and> prefix ks (sample_path retain smp)}"
    using 1(2) by (simp add: sampled_def bundle_roots_def)
  then have "[addr_key PARTIAL_ROOT] \<notin> paths_of C (b_top b)" using path by auto
  then have free: "C (b_top b) (addr_key PARTIAL_ROOT) = None" by (simp add: paths_of_def)
  have ids: "unat (st_next_id st') \<le> 2 ^ 31" using 1(6) by (simp add: ids_left_def)
  have small: "card N * num_metrics ms < 2 ^ 31" "12 * Suc (card N) < 2 ^ 32"
    using 1(8) n(2) nm(2) by (auto intro: le_less_trans [OF mult_le_mono1 [OF 1(8)]])
  have "trees_written ms junk b tuple st' s' (\<lambda>sm ns st'' s''. \<exists>ws. blocks_of ms b C M st' ws sm ns st'') g"
    if g: "2 ^ 62 \<le> fcap g" "fpos g < 2 ^ 61" for g
  proof -
    have "room g (8 + 19 * card N)" using g 1(8) n(2) by (simp add: room_def)
    from bundle_fwrite_run [OF inv 1(7,5) ids free ready 1(4,3) nm(1) small tuple this, of junk]
    obtain sm ns ws st'' s'' where 2: "hpcrun_cct_bundle_fwrite (ms_kinds ms) junk (Some g) b (tl_map s') tuple (st', s') =
        Some (HPCRUN_OK, Some (sm, fput g (enc_cct (map (tmp_node (st_cct st'')) ns))), st'', s'')"
      "sm_readable sm" "map (block_of sm) [0..<unat (sm_num_nz_cct_nodes sm)] = map (block (ms_kinds ms) M (st_cct st')) ws" "distinct ws"
      "set ws = {q \<in> below C (b_top b) \<union> below C (b_partial_unw_root b). node_values (ms_kinds ms) M q \<noteq> []}"
      "set ws \<subseteq> set ns" "parents_first (st_cct st'') {b_top b} (tl ns)" "\<forall>n \<in> set (map (tmp_node (st_cct st'')) ns). 0 < sint (cct_id n)"
      "length ns \<le> card N" by blast
    have "set ws = {q. \<exists>x \<in> {b_top b, b_partial_unw_root b}. \<exists>ks. follow C x ks = Some q \<and> node_values (ms_kinds ms) M q \<noteq> []}"
      using 2(5) by (auto simp: below_def)
    then have B: "blocks_of ms b C M st' ws sm ns st''" using 2(3,4,6,7) unfolding blocks_of_def by blast
    have len: "length ns < 2 ^ 27" using 2(9) 1(8) n(2) by simp
    show ?thesis unfolding trees_written_def by (intro exI conjI) (rule 2(1) 2(2) len 2(8) B)+
  qed
  with 1(1,2) show ?thesis by blast
qed

section \<open>Properties\<close>

text \<open>
  C1. From samples to the measurement file and back. A new thread records samples of integer metrics and writes its profile to an
  empty file with enough room. Then the write succeeds; the header of the file gives back the description of the process; and the
  sparse reader opens the file and enumerates every load module with its identifier, name and flags, in ascending order of the
  identifiers, every metric in the order of the table, the context nodes, each after its parent, and the blocks of values. The
  blocks belong to exactly the contexts that have a non-zero value, where the value of a metric at a context is the sum of the
  samples taken there.
\<close>

theorem profile_file_read_back:
  assumes "process_writable p lm L ms" and "\<forall>smp \<in> set ss. adds_samples fadd procs ms (sample_in b smp)" and "tl_map s = None"
    and "st_freelist st = None" and "ids_left st (sum_list (map (sample_frames \<circ> sample_in b) ss) + 3)"
    and "hpcrun_cct_bundle_init attach None st = Some (b, st1)"
    and "n = 3 + sum_list (map (sample_frames \<circ> sample_in b) ss)" and "n < 2 ^ 27"
    and "num_metrics ms < 2 ^ 16 - 1" and "n * num_metrics ms < 2 ^ 31"
    and "\<forall>smp \<in> set ss. fst (sample_in b smp) = b_top b \<longrightarrow> \<not> prefix [addr_key PARTIAL_ROOT] (sample_path retain (sample_in b smp))"
    and "cp_hpcrun_file cptd = None" and "cp_epoch cptd = [ep]" and "ep_loadmap ep" and "ep_csdata ep = b"
    and "unat (tuple_length (cp_id_tuple cptd)) \<le> length (tuple_ids (cp_id_tuple cptd))"
    and "fdata fs = []" and "fpos fs = 0" and "2 ^ 62 \<le> fcap fs"
    and "length (enc_hdr (hdr_pairs p cptd)) + length (enc_loadmap (module_entries lm L)) + length (enc_metricTbl (metric_list ms)) < 2 ^ 60"
  shows "\<exists>qs st' s' N C M fs' me' ns ws. run_bundle retain procs b ss (st1, s, ms) = Some (qs, st', s', ms) \<and>
    sampled retain ms b ss qs st' N C M \<and>
    hpcrun_write_profile_data True junk uninit p (Some fs) None cptd
      \<lparr> me_cct = st', me_c2m = s', me_metrics = ms, me_loadmap = lm \<rparr> = Some (HPCRUN_OK, fs', me') \<and>
    (\<forall>r k. fdata r = fdata fs' \<longrightarrow> length (fdata r) \<le> fbad r \<longrightarrow> 2 ^ 32 \<le> k \<longrightarrow>
       map_option (sparse_read_all k) (hpcrun_sparse_open garbage (Some r) 0 0) =
       Some \<lparr> rd_lms = module_entries lm L, rd_metrics = map metricDesc_img (metric_list ms),
         rd_contexts = map (tmp_node (st_cct (me_cct me'))) ns, rd_blocks = map (block (ms_kinds ms) M (st_cct st')) ws,
         rd_status = [Some SF_END, Some SF_END, Some SF_END, Some SF_END] \<rparr>) \<and>
    (\<forall>r. fdata r = fdata fs' \<longrightarrow> length (fdata r) \<le> fbad r \<longrightarrow> fpos r = 0 \<longrightarrow>
       fst (hpcrun_fmt_hdr_fread malloc r) = HPCFMT_OK (hdr_img (hdr_pairs p cptd))) \<and>
    parents_first (st_cct (me_cct me')) {b_top b} (tl ns) \<and> distinct ws \<and> set ws \<subseteq> set ns \<and>
    set ws = {q. \<exists>x \<in> {b_top b, b_partial_unw_root b}. \<exists>ks. follow C x ks = Some q \<and> node_values (ms_kinds ms) M q \<noteq> []}"
proof -
  have ready: "metrics_ready ms" using assms(1) by (simp add: process_writable_def)
  obtain qs st' s' N C M where 1: "run_bundle retain procs b ss (st1, s, ms) = Some (qs, st', s', ms)"
    "sampled retain ms b ss qs st' N C M"
    "\<forall>g. 2 ^ 62 \<le> fcap g \<longrightarrow> fpos g < 2 ^ 61 \<longrightarrow>
      trees_written ms junk b (cp_id_tuple cptd) st' s' (\<lambda>sm ns st'' s''. \<exists>ws. blocks_of ms b C M st' ws sm ns st'') g"
    using thread_trees [OF ready assms(2-11,16), of junk] by blast
  then have trees: "\<And>g. 2 ^ 62 \<le> fcap g \<Longrightarrow> fpos g < 2 ^ 61 \<Longrightarrow>
      trees_written ms junk (ep_csdata ep) (cp_id_tuple cptd) st' s' (\<lambda>sm ns st'' s''. \<exists>ws. blocks_of ms b C M st' ws sm ns st'') g"
    using assms(15) by blast
  obtain fs' sm ns st'' s'' ws where 2: "hpcrun_write_profile_data True junk uninit p (Some fs) None cptd
      \<lparr> me_cct = st', me_c2m = s', me_metrics = ms, me_loadmap = lm \<rparr> =
      Some (HPCRUN_OK, fs', \<lparr> me_cct = st'', me_c2m = s'', me_metrics = ms, me_loadmap = lm \<rparr>)" and "blocks_of ms b C M st' ws sm ns st''"
    and 3: "\<forall>r k. fdata r = fdata fs' \<longrightarrow> length (fdata r) \<le> fbad r \<longrightarrow> 2 ^ 32 \<le> k \<longrightarrow>
       map_option (sparse_read_all k) (hpcrun_sparse_open garbage (Some r) 0 0) =
       Some \<lparr> rd_lms = module_entries lm L, rd_metrics = map metricDesc_img (metric_list ms),
         rd_contexts = map (tmp_node (st_cct st'')) ns, rd_blocks = map (block_of sm) [0..<unat (sm_num_nz_cct_nodes sm)],
         rd_status = [Some SF_END, Some SF_END, Some SF_END, Some SF_END] \<rparr>"
    and 4: "\<forall>r. fdata r = fdata fs' \<longrightarrow> length (fdata r) \<le> fbad r \<longrightarrow> fpos r = 0 \<longrightarrow>
       fst (hpcrun_fmt_hdr_fread malloc r) = HPCFMT_OK (hdr_img (hdr_pairs p cptd))"
    using write_profile_run [OF assms(1,12-14,17-19) refl refl refl assms(20) trees, of uninit garbage] by blast
  then have ws: "map (block_of sm) [0..<unat (sm_num_nz_cct_nodes sm)] = map (block (ms_kinds ms) M (st_cct st')) ws"
      "parents_first (st_cct st'') {b_top b} (tl ns)" "distinct ws" "set ws \<subseteq> set ns"
      "set ws = {q. \<exists>x \<in> {b_top b, b_partial_unw_root b}. \<exists>ks. follow C x ks = Some q \<and> node_values (ms_kinds ms) M q \<noteq> []}"
    unfolding blocks_of_def by blast+
  obtain me' where me: "hpcrun_write_profile_data True junk uninit p (Some fs) None cptd
      \<lparr> me_cct = st', me_c2m = s', me_metrics = ms, me_loadmap = lm \<rparr> = Some (HPCRUN_OK, fs', me')" "st_cct st'' = st_cct (me_cct me')"
    using 2 by simp
  show ?thesis
    by (intro exI conjI) (rule 1(1) 1(2) me(1) 3 [unfolded ws(1) me(2)] 4 ws(2) [unfolded me(2)] ws(3-5))+
qed

definition example_process :: process_info where
  "example_process = \<lparr> pi_executable_name = [97], pi_executable_pathname = [47, 97], pi_PATH = None, pi_jobid = None, pi_rank = 3,
     pi_hostid = 0xab, pi_pid = 1234 \<rparr>"

definition example_cptd :: "cct_bundle_t \<Rightarrow> core_profile_trace_data_t" where
  "example_cptd b = \<lparr> cp_id = 0, cp_id_tuple = id_tuple_constructor [] 0,
     cp_epoch = [\<lparr> ep_csdata = b, ep_csdata_ctxt = None, ep_loadmap = True \<rparr>], cp_trace_min_time_us = 5, cp_trace_max_time_us = 17,
     cp_trace_is_ordered = True, cp_trace_expected_disorder = 2, cp_hpcrun_file = None \<rparr>"

definition empty_file :: FILE where
  "empty_file = \<lparr> fdata = [], fpos = 0, feof = False, fbad = 0, fcap = 2 ^ 62 \<rparr>"

lemma example_loadmap:
  "\<exists>lm L F. loadmap_inv lm L F [] \<and> length L = 1 \<and> (\<forall>x \<in> set L. mod_name (s_mods lm x) = [97]) \<and>
    module_entries lm L = [\<lparr> lm_id = 1, lm_name = Some [97], lm_flags = 0 \<rparr>]"
proof -
  have "loadmap_inv (hpcrun_initLoadmap lm_start) [] [] []" by (rule init_inv) (simp add: lm_start_def)
  from run_lm_ops_inv [OF this, of "[Load [97] None 4096 8192]"] obtain lm L F where 1: "loadmap_inv lm L F []"
    "view lm L = spec_map [97] (4096, 8192, 0, 0) []" by (auto simp: view_def dso_of_def)
  then have v: "map (mview lm) L = [\<lparr> mv_id = 1, mv_name = [97], mv_dso = Some (4096, 8192, 0, 0), mv_flags = 0 \<rparr>]"
    by (simp add: view_def spec_map_def spec_add_def c_str_def)
  then obtain q where q: "L = [q]" "mview lm q = \<lparr> mv_id = 1, mv_name = [97], mv_dso = Some (4096, 8192, 0, 0), mv_flags = 0 \<rparr>" by auto
  then have "module_entries lm L = [\<lparr> lm_id = 1, lm_name = Some [97], lm_flags = 0 \<rparr>]" "mod_name (s_mods lm q) = [97]"
    by (auto simp: module_entries_def module_entry_def mview_def hpcrun_loadModule_flags_get_def)
  with 1(1) q(1) show ?thesis by (intro exI [of _ lm] exI [of _ L] exI [of _ F]) simp
qed

lemma example_metrics: "tables_ok example_ready" "length (metric_list example_ready) = 3"
  "list_all valid_metricDesc (metric_list example_ready)"
proof -
  show "tables_ok example_ready" unfolding tables_ok_def by code_simp
  show "length (metric_list example_ready) = 3" by code_simp
  have "list_all (\<lambda>x. hpcfmt_str_ensure (metric_name x) = [] \<and> hpcfmt_str_ensure (metric_description x) = [] \<and>
      valid_flags (metric_flags x) \<and> hpcfmt_str_ensure (metric_formula x) = [] \<and> hpcfmt_str_ensure (metric_format x) = [])
    (metric_list example_ready)" by code_simp
  then show "list_all valid_metricDesc (metric_list example_ready)" by (simp add: list_all_iff valid_metricDesc_def valid_str_def)
qed

lemma example_thread_setup:
  "tl_map example_c2m = None" "st_freelist example_st = None" "18 = 3 + sum_list (map (sample_frames \<circ> sample_in b) example_thread)"
  "(18 :: nat) < 2 ^ 27" "num_metrics example_ready < 2 ^ 16 - 1" "18 * num_metrics example_ready < 2 ^ 31"
  "\<forall>smp \<in> set example_thread. fst (sample_in b smp) = b_top b \<longrightarrow> \<not> prefix [addr_key PARTIAL_ROOT] (sample_path False (sample_in b smp))"
proof -
  have "num_metrics example_ready = 3" unfolding num_metrics_def by code_simp
  then show "num_metrics example_ready < 2 ^ 16 - 1" "18 * num_metrics example_ready < 2 ^ 31" by simp_all
  show "\<forall>smp \<in> set example_thread. fst (sample_in b smp) = b_top b \<longrightarrow> \<not> prefix [addr_key PARTIAL_ROOT] (sample_path False (sample_in b smp))"
    by (simp add: example_thread_def example_bt_def sample_in_def example_call_path example_paths addr_key_def PARTIAL_ROOT_def ADDR2_def
        HPCRUN_PLACEHOLDER_LM_def)
qed (simp_all add: example_c2m_def example_st_def example_thread_frames)

lemma example_cptd_fields:
  "cp_hpcrun_file (example_cptd b) = None" "cp_epoch (example_cptd b) = [\<lparr> ep_csdata = b, ep_csdata_ctxt = None, ep_loadmap = True \<rparr>]"
  "ep_loadmap \<lparr> ep_csdata = b, ep_csdata_ctxt = None, ep_loadmap = True \<rparr>"
  "ep_csdata \<lparr> ep_csdata = b, ep_csdata_ctxt = None, ep_loadmap = True \<rparr> = b"
  "unat (tuple_length (cp_id_tuple (example_cptd b))) \<le> length (tuple_ids (cp_id_tuple (example_cptd b)))"
  "fdata empty_file = []" "fpos empty_file = 0" "2 ^ 62 \<le> fcap empty_file"
  by (simp_all add: example_cptd_def id_tuple_constructor_def empty_file_def)

lemma example_process_writable: "loadmap_inv lm L F R \<Longrightarrow> length L = 1 \<Longrightarrow> \<forall>x \<in> set L. mod_name (s_mods lm x) = [97] \<Longrightarrow> process_writable example_process lm L example_ready"
  by (auto simp: process_writable_def process_ok_def example_process_def valid_str_def hpcfmt_str_ensure_def example_ready example_metrics)

lemma example_sizes:
  assumes "module_entries lm L = [\<lparr> lm_id = 1, lm_name = Some [97], lm_flags = 0 \<rparr>]"
  shows "length (enc_hdr (hdr_pairs example_process (example_cptd b))) + length (enc_loadmap (module_entries lm L)) +
    length (enc_metricTbl (metric_list example_ready)) < 2 ^ 60"
proof -
  have "length (enc_hdr (hdr_pairs example_process (example_cptd b))) < 1000" by code_simp
  moreover have "length (enc_loadmap (module_entries lm L)) < 1000" unfolding assms by code_simp
  moreover have "length (enc_metricTbl (metric_list example_ready)) < 1000" by code_simp
  ultimately show ?thesis by simp
qed

theorem profile_file_read_back_witness:
  "\<exists>b st1 lm L qs st' s' C M fs' me' ns ws. hpcrun_cct_bundle_init False None example_st = Some (b, st1) \<and>
    run_bundle False (\<lambda>_. hpcrun_metric_std_inc (+)) b example_thread (st1, example_c2m, example_ready) = Some (qs, st', s', example_ready) \<and>
    hpcrun_write_profile_data True 0 example_footer example_process (Some empty_file) None (example_cptd b)
      \<lparr> me_cct = st', me_c2m = s', me_metrics = example_ready, me_loadmap = lm \<rparr> = Some (HPCRUN_OK, fs', me') \<and>
    map_option (sparse_read_all (2 ^ 32)) (hpcrun_sparse_open example_sf (Some (fs'\<lparr> fbad := length (fdata fs') \<rparr>)) 0 0) =
       Some \<lparr> rd_lms = [\<lparr> lm_id = 1, lm_name = Some [97], lm_flags = 0 \<rparr>], rd_metrics = map metricDesc_img (metric_list example_ready),
         rd_contexts = map (tmp_node (st_cct (me_cct me'))) ns, rd_blocks = map (block (ms_kinds example_ready) M (st_cct st')) ws,
         rd_status = [Some SF_END, Some SF_END, Some SF_END, Some SF_END] \<rparr> \<and>
    set ws = {q. \<exists>x \<in> {b_top b, b_partial_unw_root b}. \<exists>ks. follow C x ks = Some q \<and> node_values (ms_kinds example_ready) M q \<noteq> []}"
proof -
  obtain lm L F where lm: "loadmap_inv lm L F []" "length L = 1" "\<forall>x \<in> set L. mod_name (s_mods lm x) = [97]"
    "module_entries lm L = [\<lparr> lm_id = 1, lm_name = Some [97], lm_flags = 0 \<rparr>]" using example_loadmap by blast
  obtain b st1 where b: "hpcrun_cct_bundle_init False None example_st = Some (b, st1)" using example_bundle by blast
  note ex = example_thread_setup
  note cp = example_cptd_fields
  obtain qs st' s' N C M fs' me' ns ws where R:
    "run_bundle False (\<lambda>_. hpcrun_metric_std_inc (+)) b example_thread (st1, example_c2m, example_ready) = Some (qs, st', s', example_ready)"
    "hpcrun_write_profile_data True 0 example_footer example_process (Some empty_file) None (example_cptd b)
      \<lparr> me_cct = st', me_c2m = s', me_metrics = example_ready, me_loadmap = lm \<rparr> = Some (HPCRUN_OK, fs', me')"
    "\<forall>r k. fdata r = fdata fs' \<longrightarrow> length (fdata r) \<le> fbad r \<longrightarrow> 2 ^ 32 \<le> k \<longrightarrow>
       map_option (sparse_read_all k) (hpcrun_sparse_open example_sf (Some r) 0 0) =
       Some \<lparr> rd_lms = module_entries lm L, rd_metrics = map metricDesc_img (metric_list example_ready),
         rd_contexts = map (tmp_node (st_cct (me_cct me'))) ns, rd_blocks = map (block (ms_kinds example_ready) M (st_cct st')) ws,
         rd_status = [Some SF_END, Some SF_END, Some SF_END, Some SF_END] \<rparr>"
    "set ws = {q. \<exists>x \<in> {b_top b, b_partial_unw_root b}. \<exists>ks. follow C x ks = Some q \<and> node_values (ms_kinds example_ready) M q \<noteq> []}"
    using profile_file_read_back [where junk = 0 and uninit = example_footer and garbage = example_sf, OF example_process_writable [OF lm(1-3)] example_thread_adds ex(1,2) example_thread_ids b ex(3-7) cp(1-5) cp(6,7,8) example_sizes [OF lm(4)]] by blast
  have rd: "map_option (sparse_read_all (2 ^ 32)) (hpcrun_sparse_open example_sf (Some (fs'\<lparr> fbad := length (fdata fs') \<rparr>)) 0 0) =
       Some \<lparr> rd_lms = [\<lparr> lm_id = 1, lm_name = Some [97], lm_flags = 0 \<rparr>], rd_metrics = map metricDesc_img (metric_list example_ready),
         rd_contexts = map (tmp_node (st_cct (me_cct me'))) ns, rd_blocks = map (block (ms_kinds example_ready) M (st_cct st')) ws,
         rd_status = [Some SF_END, Some SF_END, Some SF_END, Some SF_END] \<rparr>"
    using R(3) [rule_format, of "fs'\<lparr> fbad := length (fdata fs') \<rparr>" "2 ^ 32"] unfolding lm(4) by simp
  show ?thesis by (intro exI conjI) (rule b R(1) R(2) rd R(4))+
qed

text \<open>
  The flush that is to make room when memory is low passes a null footer to the writer: in the situation in which the profile of a
  thread is written correctly at its end, the flush writes the sections and then dereferences the null pointer.
\<close>

theorem flush_epochs_null_footer:
  assumes "process_writable p lm L ms" and "\<forall>smp \<in> set ss. adds_samples fadd procs ms (sample_in b smp)" and "tl_map s = None"
    and "st_freelist st = None" and "ids_left st (sum_list (map (sample_frames \<circ> sample_in b) ss) + 3)"
    and "hpcrun_cct_bundle_init attach None st = Some (b, st1)"
    and "n = 3 + sum_list (map (sample_frames \<circ> sample_in b) ss)" and "n < 2 ^ 27"
    and "num_metrics ms < 2 ^ 16 - 1" and "n * num_metrics ms < 2 ^ 31"
    and "\<forall>smp \<in> set ss. fst (sample_in b smp) = b_top b \<longrightarrow> \<not> prefix [addr_key PARTIAL_ROOT] (sample_path retain (sample_in b smp))"
    and "cp_hpcrun_file cptd = None" and "cp_epoch cptd = [ep]" and "ep_loadmap ep" and "ep_csdata ep = b"
    and "unat (tuple_length (cp_id_tuple cptd)) \<le> length (tuple_ids (cp_id_tuple cptd))"
    and "fpos fs = 0" and "2 ^ 62 \<le> fcap fs"
    and "length (enc_hdr (hdr_pairs p cptd)) + length (enc_loadmap (module_entries lm L)) + length (enc_metricTbl (metric_list ms)) < 2 ^ 60"
  shows "\<exists>qs st' s'. run_bundle retain procs b ss (st1, s, ms) = Some (qs, st', s', ms) \<and>
    hpcrun_flush_epochs True junk p (Some fs) attach cptd \<lparr> me_cct = st', me_c2m = s', me_metrics = ms, me_loadmap = lm \<rparr> = None"
proof -
  obtain F R where W: "process_ok p" "loadmap_inv lm L F R" "length L < 2 ^ 16" "\<forall>x \<in> set L. valid_str (Some (mod_name (s_mods lm x)))"
    "metrics_ready ms" "tables_ok ms" "list_all valid_metricDesc (metric_list ms)" using assms(1) by (auto simp: process_writable_def)
  obtain qs st' s' where 1: "run_bundle retain procs b ss (st1, s, ms) = Some (qs, st', s', ms)"
    "\<And>g. 2 ^ 62 \<le> fcap g \<Longrightarrow> fpos g < 2 ^ 61 \<Longrightarrow> \<exists>P. trees_written ms junk b (cp_id_tuple cptd) st' s' P g"
    using thread_trees [OF W(5) assms(2-11,16), of junk] by blast
  let ?me = "\<lparr> me_cct = st', me_c2m = s', me_metrics = ms, me_loadmap = lm \<rparr>"
  let ?b0 = "enc_hdr (hdr_pairs p cptd)" and ?bL = "enc_loadmap (module_entries lm L)" and ?b1 = "enc_metricTbl (metric_list ms)"
  let ?g = "fput (fput fs ?b0) ?bL"
  have r: "room fs (length ?b0)" "room (fput fs ?b0) (length ?bL)" "2 ^ 62 \<le> fcap ?g" "fpos ?g < 2 ^ 61"
    using assms(17-19) by (simp_all add: room_def)
  have hw: "snd (hpcrun_fmt_hdr_fwrite (hdr_args p cptd) fs) = fput fs ?b0"
    unfolding hdr_args_pairs using emitsD [OF hdr.wr_emits [OF hdr_pairs_valid [OF W(1)]] r(1)] by simp
  obtain sm ns st'' s'' where B: "hpcrun_cct_bundle_fwrite (ms_kinds ms) junk (Some ?g) b (tl_map s') (cp_id_tuple cptd) (st', s') =
      Some (HPCRUN_OK, Some (sm, fput ?g (enc_cct (map (tmp_node (st_cct st'')) ns))), st'', s'')" "sm_readable sm" "length ns < 2 ^ 27"
    using 1(2) [OF r(3,4)] unfolding trees_written_def by (elim exE conjE) (rule that)
  let ?h = "fput ?g (enc_cct (map (tmp_node (st_cct st'')) ns))"
  have "fpos ?h + length ?b1 + length enc_dxnry + length (enc_sm sm) \<le> 2 ^ 62"
    using assms(17,19) B(3) sm_size [OF B(2)] dxnry_size(2) by (simp add: length_enc_cct)
  then have q: "room ?h (length ?b1)" "room (fput ?h ?b1) (length enc_dxnry)" "room (fput (fput ?h ?b1) enc_dxnry) (length (enc_sm sm))"
    using assms(18) by (simp_all add: room_def)
  have vs: "valid_sm sm" using B(2) by (simp add: sm_readable_def sm_wf_def)
  have d: "hpcrun_fmt_idtuple_dxnry_fwrite (fput ?h ?b1) = (HPCFMT_OK (), fput (fput ?h ?b1) enc_dxnry)"
    by (rule emitsD [OF dxnry.wr_emits q(2)]) simp
  note run = write_loadmap_run [OF W(2-4) r(2)] write_metrics_run [OF W(5-7) q(1)] d emitsD [OF sm.wr_emits [OF vs] q(3)]
  have "write_tables True sm None ?h (?me\<lparr> me_cct := st'', me_c2m := s'' \<rparr>) = None"
    by (simp add: write_tables_def end_section_def write_footer_def run del: fput_fput)
  then have "write_epoch junk True (cp_id_tuple cptd) ep None (fput fs ?b0) ?me = None"
    by (simp add: write_epoch_def write_cct_def end_section_def run B(1) assms(14,15) del: fput_fput)
  then have "hpcrun_flush_epochs True junk p (Some fs) attach cptd ?me = None"
    by (simp add: hpcrun_flush_epochs_def lazy_open_data_file_def assms(12,13) hw write_epochs_def Let_def)
  with 1(1) show ?thesis by blast
qed

theorem flush_epochs_null_footer_witness:
  "\<exists>b st1 lm qs st' s'. hpcrun_cct_bundle_init False None example_st = Some (b, st1) \<and>
    run_bundle False (\<lambda>_. hpcrun_metric_std_inc (+)) b example_thread (st1, example_c2m, example_ready) = Some (qs, st', s', example_ready) \<and>
    hpcrun_flush_epochs True 0 example_process (Some empty_file) False (example_cptd b)
      \<lparr> me_cct = st', me_c2m = s', me_metrics = example_ready, me_loadmap = lm \<rparr> = None"
proof -
  obtain lm L F where lm: "loadmap_inv lm L F []" "length L = 1" "\<forall>x \<in> set L. mod_name (s_mods lm x) = [97]"
    "module_entries lm L = [\<lparr> lm_id = 1, lm_name = Some [97], lm_flags = 0 \<rparr>]" using example_loadmap by blast
  obtain b st1 where b: "hpcrun_cct_bundle_init False None example_st = Some (b, st1)" using example_bundle by blast
  note ex = example_thread_setup
  note cp = example_cptd_fields
  from flush_epochs_null_footer [where junk = 0, OF example_process_writable [OF lm(1-3)] example_thread_adds ex(1,2) example_thread_ids b ex(3-7) cp(1-5) cp(7,8)
      example_sizes [OF lm(4)]] b show ?thesis by blast
qed

end
