(* ===== verification/Interleaving.thy ===== *)
theory Interleaving
  imports Main
begin

text \<open>
  Threads that run the operations of a lock in any interleaving. A system is a step relation
  \<open>stp t s s'\<close>: thread \<open>t\<close> performs one access to the shared memory. Every access is atomic and the accesses of all
  threads form one sequence; the memory orders the sources ask for are not modelled further.

  \<open>reach I stp\<close> are the states that steps lead to from the states \<open>I\<close>. A \<open>schedule\<close> is an infinite execution, and it is
  \<open>fair\<close> when a thread that is inside an operation takes a step again and again. The locale \<open>progress\<close> is the
  argument that something happens in every fair execution: a rank that no step increases, and at any moment a thread,
  the helper, whose next step decreases it.
\<close>

inductive reach :: "('s \<Rightarrow> bool) \<Rightarrow> ('t \<Rightarrow> 's \<Rightarrow> 's \<Rightarrow> bool) \<Rightarrow> 's \<Rightarrow> bool" for I stp where
  start: "I s \<Longrightarrow> reach I stp s"
| step: "reach I stp s \<Longrightarrow> stp t s s' \<Longrightarrow> reach I stp s'"

lemma reach_invariant:
  assumes "reach I stp s" and "\<And>s. I s \<Longrightarrow> P s" and "\<And>t s s'. P s \<Longrightarrow> stp t s s' \<Longrightarrow> P s'"
  shows "P s"
  using assms(1) by induction (blast intro: assms(2,3))+

definition schedule :: "('t \<Rightarrow> 's \<Rightarrow> 's \<Rightarrow> bool) \<Rightarrow> (nat \<Rightarrow> 't) \<Rightarrow> (nat \<Rightarrow> 's) \<Rightarrow> bool" where
  "schedule stp th \<sigma> \<longleftrightarrow> (\<forall>i. stp (th i) (\<sigma> i) (\<sigma> (Suc i)))"

definition fair :: "('s \<Rightarrow> 't \<Rightarrow> bool) \<Rightarrow> (nat \<Rightarrow> 't) \<Rightarrow> (nat \<Rightarrow> 's) \<Rightarrow> bool" where
  "fair active th \<sigma> \<longleftrightarrow> (\<forall>i u. active (\<sigma> i) u \<longrightarrow> (\<exists>j\<ge>i. th j = u))"

lemma scheduleD: "schedule stp th \<sigma> \<Longrightarrow> stp (th i) (\<sigma> i) (\<sigma> (Suc i))"
  by (simp add: schedule_def)

lemma fairD: "fair active th \<sigma> \<Longrightarrow> active (\<sigma> i) u \<Longrightarrow> \<exists>j\<ge>i. th j = u"
  by (simp add: fair_def)

lemma schedule_reach:
  assumes "schedule stp th \<sigma>" and "I (\<sigma> 0)"
  shows "reach I stp (\<sigma> i)"
proof (induction i)
  case 0
  from assms(2) show ?case by (rule reach.start)
next
  case (Suc i)
  from this scheduleD [OF assms(1)] show ?case by (rule reach.step)
qed

text \<open>A thread that keeps its place until it steps does step, in the state it waited in.\<close>

lemma fair_next_step:
  assumes s: "schedule stp th \<sigma>" and f: "fair active th \<sigma>" and "P (\<sigma> i)"
    and act: "\<And>s. P s \<Longrightarrow> active s u" and keep: "\<And>t s s'. P s \<Longrightarrow> stp t s s' \<Longrightarrow> t \<noteq> u \<Longrightarrow> P s'"
  shows "\<exists>j\<ge>i. th j = u \<and> P (\<sigma> j)"
proof -
  define n where "n = (LEAST n. th (i + n) = u)"
  obtain j where "j \<ge> i" "th j = u"
    using fairD [OF f act [OF assms(3)]] by blast
  then have "\<exists>n. th (i + n) = u"
    by (metis le_add_diff_inverse)
  then have n: "th (i + n) = u" "\<And>k. k < n \<Longrightarrow> th (i + k) \<noteq> u"
    unfolding n_def by (auto intro: LeastI_ex dest: not_less_Least)
  have "P (\<sigma> (i + k))" if "k \<le> n" for k
    using that
  proof (induction k)
    case 0
    then show ?case using assms(3) by simp
  next
    case (Suc k)
    then show ?case using keep [OF _ scheduleD [OF s, of "i + k"]] n(2) [of k] by simp
  qed
  with n(1) show ?thesis by (intro exI [of _ "i + n"]) simp
qed

locale progress =
  fixes stp :: "'t \<Rightarrow> 's \<Rightarrow> 's \<Rightarrow> bool" and waiting :: "'s \<Rightarrow> bool" and goal :: "'s \<Rightarrow> bool"
    and active :: "'s \<Rightarrow> 't \<Rightarrow> bool" and rank :: "'s \<Rightarrow> nat" and helper :: "'s \<Rightarrow> 't"
  assumes waits: "waiting s \<Longrightarrow> stp t s s' \<Longrightarrow> goal s' \<or> waiting s'"
    and helper_active: "waiting s \<Longrightarrow> active s (helper s)"
    and others: "waiting s \<Longrightarrow> stp t s s' \<Longrightarrow> \<not> goal s' \<Longrightarrow> rank s' < rank s \<or> rank s' = rank s \<and> helper s' = helper s"
    and helps: "waiting s \<Longrightarrow> stp (helper s) s s' \<Longrightarrow> \<not> goal s' \<Longrightarrow> rank s' < rank s"
begin

lemma rank_falls:
  assumes s: "schedule stp th \<sigma>" and f: "fair active th \<sigma>" and w: "waiting (\<sigma> i)"
  shows "\<exists>j\<ge>i. goal (\<sigma> j) \<or> waiting (\<sigma> j) \<and> rank (\<sigma> j) < rank (\<sigma> i)"
proof (rule ccontr)
  assume "\<not> ?thesis"
  then have no: "\<not> goal (\<sigma> j)" "waiting (\<sigma> j) \<Longrightarrow> rank (\<sigma> j) \<ge> rank (\<sigma> i)" if "j \<ge> i" for j
    using that by (auto simp: not_less)
  have same: "waiting (\<sigma> (i + k)) \<and> rank (\<sigma> (i + k)) = rank (\<sigma> i) \<and> helper (\<sigma> (i + k)) = helper (\<sigma> i)" for k
  proof (induction k)
    case (Suc k)
    note st = scheduleD [OF s, of "i + k"]
    have w': "waiting (\<sigma> (i + Suc k))"
      using waits [OF _ st] Suc no(1) [of "Suc (i + k)"] by auto
    with others [OF _ st] Suc no [of "Suc (i + k)"] show ?case by force
  qed (use w in simp)
  obtain j where "j \<ge> i" "th j = helper (\<sigma> i)"
    using fairD [OF f helper_active [OF w]] by blast
  then obtain k where k: "th (i + k) = helper (\<sigma> i)"
    by (metis le_add_diff_inverse)
  have "rank (\<sigma> (Suc (i + k))) < rank (\<sigma> (i + k))"
    using helps [of "\<sigma> (i + k)" "\<sigma> (Suc (i + k))"] scheduleD [OF s, of "i + k"] same [of k] no(1) [of "Suc (i + k)"] k by simp
  with same [of k] same [of "Suc k"] show False by simp
qed

lemma eventually_goal:
  assumes "schedule stp th \<sigma>" and "fair active th \<sigma>" and "waiting (\<sigma> i)"
  shows "\<exists>j\<ge>i. goal (\<sigma> j)"
  using assms(3)
proof (induction "rank (\<sigma> i)" arbitrary: i rule: less_induct)
  case less
  then obtain j where "j \<ge> i" "goal (\<sigma> j) \<or> waiting (\<sigma> j) \<and> rank (\<sigma> j) < rank (\<sigma> i)"
    using rank_falls [OF assms(1,2)] by blast
  with less.hyps show ?case by (meson order_trans)
qed

end

end
