(* ===== verification/Mcs_Lock.thy ===== *)
theory Mcs_Lock
  imports Interleaving Splay "HOL-Library.Sublist"
begin

text \<open>
  The queue lock of \<open>src/common/lean/mcs-lock.c\<close>. A thread brings a queue node of its own to every operation, so a thread
  is named by the address of its node. The operations are cut at their accesses to shared memory: a constructor of
  \<open>mcs_pc\<close> says which access the thread performs next and carries the local variables it still needs, and
  \<open>mcs_lock\<close>, \<open>mcs_trylock\<close> and \<open>mcs_unlock\<close> perform that access. The loops that wait for a value read it once per
  step. Between operations a thread is \<open>Idle\<close>, or it has the lock and is \<open>Critical\<close>.
\<close>

section \<open>Data\<close>

record mcs_node_t =
  mn_next :: "ptr option"
  mn_blocked :: bool

record mcs_lock_t =
  ml_tail :: "ptr option"
  ml_nodes :: "ptr \<Rightarrow> mcs_node_t"

datatype mcs_pc = Idle | Lock_Init | Lock_Swap | Lock_Block ptr | Lock_Link ptr | Lock_Spin
  | Try_Init | Try_Swap | Critical | Unlock_Load | Unlock_Swap | Unlock_Spin | Unlock_Signal ptr

definition set_next :: "ptr \<Rightarrow> ptr option \<Rightarrow> mcs_lock_t \<Rightarrow> mcs_lock_t" where
  "set_next p v l = l\<lparr> ml_nodes := (ml_nodes l)(p := (ml_nodes l p)\<lparr> mn_next := v \<rparr>) \<rparr>"

definition set_blocked :: "ptr \<Rightarrow> bool \<Rightarrow> mcs_lock_t \<Rightarrow> mcs_lock_t" where
  "set_blocked p v l = l\<lparr> ml_nodes := (ml_nodes l)(p := (ml_nodes l p)\<lparr> mn_blocked := v \<rparr>) \<rparr>"

section \<open>Operations\<close>

definition mcs_init :: "mcs_lock_t \<Rightarrow> mcs_lock_t" where
  "mcs_init l = l\<lparr> ml_tail := None \<rparr>"

fun mcs_lock :: "ptr \<Rightarrow> mcs_pc \<Rightarrow> mcs_lock_t \<Rightarrow> mcs_pc \<times> mcs_lock_t" where
  "mcs_lock me Lock_Init l = (Lock_Swap, set_next me None l)"
| "mcs_lock me Lock_Swap l =
    (case ml_tail l of None \<Rightarrow> Critical | Some predecessor \<Rightarrow> Lock_Block predecessor, l\<lparr> ml_tail := Some me \<rparr>)"
| "mcs_lock me (Lock_Block predecessor) l = (Lock_Link predecessor, set_blocked me True l)"
| "mcs_lock me (Lock_Link predecessor) l = (Lock_Spin, set_next predecessor (Some me) l)"
| "mcs_lock me Lock_Spin l = (if mn_blocked (ml_nodes l me) then Lock_Spin else Critical, l)"
| "mcs_lock me pc l = (pc, l)"

fun mcs_trylock :: "ptr \<Rightarrow> mcs_pc \<Rightarrow> mcs_lock_t \<Rightarrow> mcs_pc \<times> mcs_lock_t" where
  "mcs_trylock me Try_Init l = (Try_Swap, set_next me None l)"
| "mcs_trylock me Try_Swap l = (if ml_tail l = None then (Critical, l\<lparr> ml_tail := Some me \<rparr>) else (Idle, l))"
| "mcs_trylock me pc l = (pc, l)"

fun mcs_unlock :: "ptr \<Rightarrow> mcs_pc \<Rightarrow> mcs_lock_t \<Rightarrow> mcs_pc \<times> mcs_lock_t" where
  "mcs_unlock me Unlock_Load l =
    (case mn_next (ml_nodes l me) of None \<Rightarrow> Unlock_Swap | Some successor \<Rightarrow> Unlock_Signal successor, l)"
| "mcs_unlock me Unlock_Swap l = (if ml_tail l = Some me then (Idle, l\<lparr> ml_tail := None \<rparr>) else (Unlock_Spin, l))"
| "mcs_unlock me Unlock_Spin l =
    (case mn_next (ml_nodes l me) of None \<Rightarrow> Unlock_Spin | Some successor \<Rightarrow> Unlock_Signal successor, l)"
| "mcs_unlock me (Unlock_Signal successor) l = (Idle, set_blocked successor False l)"
| "mcs_unlock me pc l = (pc, l)"

section \<open>Threads\<close>

fun mcs_access :: "ptr \<Rightarrow> mcs_pc \<Rightarrow> mcs_lock_t \<Rightarrow> mcs_pc \<times> mcs_lock_t" where
  "mcs_access me Try_Init l = mcs_trylock me Try_Init l"
| "mcs_access me Try_Swap l = mcs_trylock me Try_Swap l"
| "mcs_access me Unlock_Load l = mcs_unlock me Unlock_Load l"
| "mcs_access me Unlock_Swap l = mcs_unlock me Unlock_Swap l"
| "mcs_access me Unlock_Spin l = mcs_unlock me Unlock_Spin l"
| "mcs_access me (Unlock_Signal s) l = mcs_unlock me (Unlock_Signal s) l"
| "mcs_access me pc l = mcs_lock me pc l"

type_synonym mcs_state = "mcs_lock_t \<times> (ptr \<Rightarrow> mcs_pc)"

inductive mcs_step :: "ptr \<Rightarrow> mcs_state \<Rightarrow> mcs_state \<Rightarrow> bool" where
  call_lock: "pc t = Idle \<Longrightarrow> mcs_step t (l, pc) (l, pc(t := Lock_Init))"
| call_trylock: "pc t = Idle \<Longrightarrow> mcs_step t (l, pc) (l, pc(t := Try_Init))"
| call_unlock: "pc t = Critical \<Longrightarrow> mcs_step t (l, pc) (l, pc(t := Unlock_Load))"
| access: "pc t \<noteq> Idle \<Longrightarrow> pc t \<noteq> Critical \<Longrightarrow> mcs_access t (pc t) l = (p, l') \<Longrightarrow> mcs_step t (l, pc) (l', pc(t := p))"

inductive_cases mcs_stepE: "mcs_step t (l, pc) s'"

definition mcs_start :: "mcs_state \<Rightarrow> bool" where
  "mcs_start s \<longleftrightarrow> ml_tail (fst s) = None \<and> (\<forall>t. snd s t = Idle)"

abbreviation mcs_reach :: "mcs_state \<Rightarrow> bool" where
  "mcs_reach \<equiv> reach mcs_start mcs_step"

section \<open>The queue\<close>

text \<open>
  The threads between the exchange of the tail and the end of the unlock form a queue. \<open>mcs_queue\<close> is what an access does
  to it. A thread that is not the first is on its way to the loop in which it waits, and \<open>behind\<close> says how far it is
  linked to its predecessor.
\<close>

fun mcs_queue :: "ptr \<Rightarrow> mcs_pc \<Rightarrow> mcs_lock_t \<Rightarrow> ptr list \<Rightarrow> ptr list" where
  "mcs_queue t Lock_Swap l q = q @ [t]"
| "mcs_queue t Try_Swap l q = (if ml_tail l = None then q @ [t] else q)"
| "mcs_queue t Unlock_Swap l q = (if ml_tail l = Some t then tl q else q)"
| "mcs_queue t (Unlock_Signal _) l q = tl q"
| "mcs_queue t _ l q = q"

fun queued :: "mcs_pc \<Rightarrow> bool" where
  "queued Idle = False"
| "queued Lock_Init = False"
| "queued Lock_Swap = False"
| "queued Try_Init = False"
| "queued Try_Swap = False"
| "queued _ = True"

fun holding :: "mcs_pc \<Rightarrow> bool" where
  "holding Critical = True"
| "holding Unlock_Load = True"
| "holding Unlock_Swap = True"
| "holding Unlock_Spin = True"
| "holding (Unlock_Signal _) = True"
| "holding _ = False"

definition behind :: "mcs_lock_t \<Rightarrow> (ptr \<Rightarrow> mcs_pc) \<Rightarrow> ptr \<Rightarrow> ptr \<Rightarrow> bool" where
  "behind l pc p u \<longleftrightarrow>
     pc u = Lock_Block p \<and> mn_next (ml_nodes l p) = None
   \<or> pc u = Lock_Link p \<and> mn_next (ml_nodes l p) = None \<and> mn_blocked (ml_nodes l u)
   \<or> pc u = Lock_Spin \<and> mn_next (ml_nodes l p) = Some u \<and> mn_blocked (ml_nodes l u)"

fun lined :: "mcs_lock_t \<Rightarrow> (ptr \<Rightarrow> mcs_pc) \<Rightarrow> ptr list \<Rightarrow> bool" where
  "lined l pc [] \<longleftrightarrow> True"
| "lined l pc [p] \<longleftrightarrow> mn_next (ml_nodes l p) = None"
| "lined l pc (p # u # q) \<longleftrightarrow> behind l pc p u \<and> lined l pc (u # q)"

definition first_ok :: "mcs_lock_t \<Rightarrow> (ptr \<Rightarrow> mcs_pc) \<Rightarrow> ptr list \<Rightarrow> bool" where
  "first_ok l pc q \<longleftrightarrow> (\<forall>h r. q = h # r \<longrightarrow>
     (holding (pc h) \<or> pc h = Lock_Spin \<and> \<not> mn_blocked (ml_nodes l h)) \<and>
     (pc h = Unlock_Spin \<longrightarrow> r \<noteq> []) \<and> (\<forall>u. pc h = Unlock_Signal u \<longrightarrow> mn_next (ml_nodes l h) = Some u))"

definition mcs_inv :: "ptr list \<Rightarrow> mcs_lock_t \<Rightarrow> (ptr \<Rightarrow> mcs_pc) \<Rightarrow> bool" where
  "mcs_inv q l pc \<longleftrightarrow> distinct q \<and> set q = {t. queued (pc t)} \<and> ml_tail l = (if q = [] then None else Some (last q)) \<and>
     first_ok l pc q \<and> lined l pc q \<and> (\<forall>t. pc t = Lock_Swap \<or> pc t = Try_Swap \<longrightarrow> mn_next (ml_nodes l t) = None)"

section \<open>The invariant\<close>

lemma set_simps [simp]:
  "ml_tail (set_next p v l) = ml_tail l" "ml_tail (set_blocked p b l) = ml_tail l"
  "mn_next (ml_nodes (set_next p v l) x) = (if x = p then v else mn_next (ml_nodes l x))"
  "mn_blocked (ml_nodes (set_next p v l) x) = mn_blocked (ml_nodes l x)"
  "mn_next (ml_nodes (set_blocked p b l) x) = mn_next (ml_nodes l x)"
  "mn_blocked (ml_nodes (set_blocked p b l) x) = (if x = p then b else mn_blocked (ml_nodes l x))"
  by (simp_all add: set_next_def set_blocked_def)

lemma in_tl: "x \<in> set (tl q) \<Longrightarrow> x \<in> set q" by (cases q) auto

lemma queued_simps: "holding p \<Longrightarrow> queued p" by (cases p) auto

lemma behind_cong:
  "ml_nodes l' p = ml_nodes l p \<Longrightarrow> ml_nodes l' u = ml_nodes l u \<Longrightarrow> pc' u = pc u \<Longrightarrow> behind l' pc' p u = behind l pc p u"
  by (simp add: behind_def)

lemma behind_pc: "behind l pc p u \<Longrightarrow> queued (pc u) \<and> \<not> holding (pc u)"
  by (auto simp: behind_def)

lemma lined_cong:
  "(\<And>p. p \<in> set q \<Longrightarrow> mn_next (ml_nodes l' p) = mn_next (ml_nodes l p)) \<Longrightarrow>
   (\<And>p. p \<in> set (tl q) \<Longrightarrow> mn_blocked (ml_nodes l' p) = mn_blocked (ml_nodes l p) \<and> pc' p = pc p) \<Longrightarrow>
   lined l' pc' q = lined l pc q"
  by (induction l pc q rule: lined.induct) (auto simp: behind_def)

lemma lined_tl: "lined l pc (p # q) \<Longrightarrow> lined l pc q"
  by (cases q) auto

lemma lined_not_holding: "lined l pc q \<Longrightarrow> t \<in> set (tl q) \<Longrightarrow> \<not> holding (pc t)"
  by (induction l pc q rule: lined.induct) (auto dest: behind_pc)

lemma lined_snoc:
  "lined l pc q \<Longrightarrow> t \<notin> set q \<Longrightarrow> mn_next (ml_nodes l t) = None \<Longrightarrow>
   pc' t = Lock_Block (last q) \<Longrightarrow> (\<And>u. u \<noteq> t \<Longrightarrow> pc' u = pc u) \<Longrightarrow> ml_nodes l' = ml_nodes l \<Longrightarrow> lined l' pc' (q @ [t])"
  by (induction l pc q rule: lined.induct) (auto simp: behind_def)

lemma lined_last: "lined l pc q \<Longrightarrow> q \<noteq> [] \<Longrightarrow> mn_next (ml_nodes l (last q)) = None"
  by (induction l pc q rule: lined.induct) auto

text \<open>A thread inside the queue that waits or links has a predecessor there.\<close>

lemma lined_split:
  assumes "lined l pc q" and "t \<in> set (tl q)"
  shows "\<exists>q1 p q2. q = q1 @ p # t # q2 \<and> behind l pc p t"
  using assms
proof (induction l pc q rule: lined.induct)
  case (3 l pc p u q)
  then show ?case
  proof (cases "t = u")
    case True
    with 3(2) show ?thesis by (metis append_Nil lined.simps(3))
  next
    case False
    then obtain q1 p' q2 where "u # q = q1 @ p' # t # q2" "behind l pc p' t"
      using 3 by auto
    then show ?thesis by (metis append_Cons)
  qed
qed auto

lemma lined_block:
  "lined l pc q \<Longrightarrow> distinct q \<Longrightarrow> t \<in> set (tl q) \<Longrightarrow> pc t = Lock_Block p \<Longrightarrow>
   lined (set_blocked t True l) (pc(t := Lock_Link p)) q"
proof (induction l pc q rule: lined.induct)
  case (3 l pc h u q)
  have "behind (set_blocked t True l) (pc(t := Lock_Link p)) h u"
    using 3 by (auto simp: behind_def)
  moreover have "lined (set_blocked t True l) (pc(t := Lock_Link p)) (u # q)"
  proof (cases "t = u")
    case True
    then have "lined (set_blocked t True l) (pc(t := Lock_Link p)) (u # q) = lined l pc (u # q)"
      using 3 by (intro lined_cong) auto
    with 3 show ?thesis by simp
  qed (use 3 in \<open>auto simp: fun_upd_def\<close>)
  ultimately show ?case by (simp add: fun_upd_def)
qed auto

lemma lined_link:
  "lined l pc q \<Longrightarrow> distinct q \<Longrightarrow> t \<in> set (tl q) \<Longrightarrow> pc t = Lock_Link p \<Longrightarrow>
   lined (set_next p (Some t) l) (pc(t := Lock_Spin)) q"
proof (induction l pc q rule: lined.induct)
  case (3 l pc h u q)
  show ?case
  proof (cases "t = u")
    case True
    then have "p = h" "behind l pc h u"
      using 3 by (auto simp: behind_def)
    moreover have "lined (set_next p (Some t) l) (pc(t := Lock_Spin)) (u # q) = lined l pc (u # q)"
      using 3 True \<open>p = h\<close> by (intro lined_cong) auto
    ultimately show ?thesis using 3 True by (auto simp: behind_def fun_upd_def)
  next
    case False
    then obtain q1 p' q2 where "u # q = q1 @ p' # t # q2" "behind l pc p' t"
      using lined_split [of l pc "u # q" t] 3 by auto
    then have "p \<in> set (u # q)"
      using 3(5) by (auto simp: behind_def)
    with 3 False have "p \<noteq> h" by auto
    then show ?thesis using 3 False by (auto simp: behind_def fun_upd_def)
  qed
qed auto

lemma first_cong:
  assumes "first_ok l pc q" and "\<And>h. q \<noteq> [] \<Longrightarrow> h = hd q \<Longrightarrow> ml_nodes l' h = ml_nodes l h \<and> pc' h = pc h"
  shows "first_ok l' pc' q"
  using assms by (fastforce simp: first_ok_def)

lemma mcs_invD:
  assumes "mcs_inv q l pc"
  shows "distinct q" "set q = {t. queued (pc t)}" "ml_tail l = (if q = [] then None else Some (last q))"
    "first_ok l pc q" "lined l pc q" "\<And>t. pc t = Lock_Swap \<or> pc t = Try_Swap \<Longrightarrow> mn_next (ml_nodes l t) = None"
  using assms by (auto simp: mcs_inv_def)

lemma holding_first:
  assumes "mcs_inv q l pc" and "holding (pc t)"
  shows "\<exists>r. q = t # r"
proof -
  have "t \<in> set q" using mcs_invD(2) [OF assms(1)] assms(2) by (simp add: queued_simps)
  moreover have "t \<notin> set (tl q)" using lined_not_holding [OF mcs_invD(5) [OF assms(1)]] assms(2) by blast
  ultimately show ?thesis by (cases q) auto
qed

lemma waiting_place:
  assumes "mcs_inv q l pc" and "queued (pc t)" and "\<not> holding (pc t)" and "pc t \<noteq> Lock_Spin \<or> mn_blocked (ml_nodes l t)"
  shows "t \<in> set (tl q)"
proof -
  have "t \<in> set q" using mcs_invD(2) [OF assms(1)] assms(2) by simp
  then show ?thesis using assms(3,4) mcs_invD(4) [OF assms(1)] by (cases q) (auto simp: first_ok_def)
qed

lemma blocked_pred:
  assumes "mcs_inv q l pc" and "pc t = Lock_Block p \<or> pc t = Lock_Link p"
  shows "t \<in> set (tl q)" "p \<in> set q" "mn_next (ml_nodes l p) = None" "p \<noteq> t" "queued (pc p)"
proof -
  show t: "t \<in> set (tl q)" using waiting_place [OF assms(1)] assms(2) by auto
  from lined_split [OF mcs_invD(5) [OF assms(1)] t]
  show p: "p \<in> set q" "mn_next (ml_nodes l p) = None" "p \<noteq> t"
    using assms(2) mcs_invD(1) [OF assms(1)] by (auto simp: behind_def)
  from p(1) show "queued (pc p)" using mcs_invD(2) [OF assms(1)] by simp
qed

lemma signalled_next:
  assumes "mcs_inv q l pc" and "pc t = Unlock_Signal u"
  shows "\<exists>r. q = t # u # r \<and> pc u = Lock_Spin \<and> mn_blocked (ml_nodes l u)"
proof -
  obtain r where q: "q = t # r" using holding_first [OF assms(1), of t] assms(2) by auto
  then have "mn_next (ml_nodes l t) = Some u" using mcs_invD(4) [OF assms(1)] assms(2) by (simp add: first_ok_def)
  then show ?thesis using q mcs_invD(5) [OF assms(1)] by (cases r) (auto simp: behind_def)
qed

lemma spin_place:
  assumes "mcs_inv q l pc" and "pc t = Lock_Spin"
  shows "(\<exists>r. q = t # r) \<and> \<not> mn_blocked (ml_nodes l t) \<or> t \<in> set (tl q) \<and> mn_blocked (ml_nodes l t)"
proof -
  have "t \<in> set q" using mcs_invD(2) [OF assms(1)] assms(2) by simp
  then show ?thesis
    using lined_split [OF mcs_invD(5) [OF assms(1)], of t] mcs_invD(4) [OF assms(1)] assms(2)
    by (cases q) (auto simp: behind_def first_ok_def)
qed

text \<open>Calls and returns that do not touch the queue, and accesses of a thread outside it.\<close>

lemma inv_outside:
  assumes "mcs_inv q l pc" and "\<not> queued (pc t)" and "\<not> queued p" and "ml_tail l' = ml_tail l"
    and "\<And>x. x \<noteq> t \<Longrightarrow> ml_nodes l' x = ml_nodes l x" and "p = Lock_Swap \<or> p = Try_Swap \<Longrightarrow> mn_next (ml_nodes l' t) = None"
  shows "mcs_inv q l' (pc(t := p))"
proof -
  have t: "t \<notin> set q" using mcs_invD(2) [OF assms(1)] assms(2) by auto
  have "first_ok l' (pc(t := p)) q"
    by (rule first_cong [OF mcs_invD(4) [OF assms(1)]]) (use t assms(5) in auto)
  moreover have "lined l' (pc(t := p)) q = lined l pc q"
    using t assms(5) by (intro lined_cong) (metis fun_upd_other in_tl)+
  moreover have "set q = {x. queued ((pc(t := p)) x)}"
    using mcs_invD(2) [OF assms(1)] assms(2,3) by auto
  ultimately show ?thesis
    using mcs_invD(1,3,5,6) [OF assms(1)] assms(4-6) by (auto simp: mcs_inv_def)
qed

text \<open>The first thread of the queue moves on without a store.\<close>

lemma inv_first:
  assumes "mcs_inv q l pc" and "q = t # r" and "holding p" and "p = Unlock_Spin \<Longrightarrow> r \<noteq> []"
    and "\<And>u. p = Unlock_Signal u \<Longrightarrow> mn_next (ml_nodes l t) = Some u"
  shows "mcs_inv q l (pc(t := p))"
proof -
  have "first_ok l (pc(t := p)) q" using assms(2-5) by (simp add: first_ok_def)
  moreover have "lined l (pc(t := p)) q = lined l pc q"
    using assms(2) mcs_invD(1) [OF assms(1)] by (intro lined_cong) auto
  moreover have "set q = {x. queued ((pc(t := p)) x)}"
    using mcs_invD(2) [OF assms(1)] assms(2,3) by (auto simp: queued_simps)
  ultimately show ?thesis
    using mcs_invD(1,3,5,6) [OF assms(1)] assms(3) by (auto simp: mcs_inv_def)
qed

lemma inv_swap:
  assumes "mcs_inv q l pc" and "pc t = Lock_Swap \<or> pc t = Try_Swap \<and> q = []"
  shows "mcs_inv (q @ [t]) (l\<lparr> ml_tail := Some t \<rparr>) (pc(t := if q = [] then Critical else Lock_Block (last q)))"
proof -
  let ?pc = "pc(t := if q = [] then Critical else Lock_Block (last q))"
  have t: "t \<notin> set q" "mn_next (ml_nodes l t) = None" using mcs_invD(2,6) [OF assms(1)] assms(2) by auto
  have "lined (l\<lparr> ml_tail := Some t \<rparr>) ?pc (q @ [t])"
    by (cases "q = []") (use t lined_snoc [OF mcs_invD(5) [OF assms(1)]] in auto)
  moreover have "first_ok (l\<lparr> ml_tail := Some t \<rparr>) ?pc (q @ [t])"
    using mcs_invD(4) [OF assms(1)] t by (cases q) (auto simp: first_ok_def)
  moreover have "set (q @ [t]) = {x. queued (?pc x)}"
    using mcs_invD(2) [OF assms(1)] by auto
  ultimately show ?thesis
    using mcs_invD(1,6) [OF assms(1)] t by (auto simp: mcs_inv_def)
qed

lemma inv_wait:
  assumes "mcs_inv q l pc" and "t \<in> set (tl q)" and "\<not> holding p" and "queued p"
    and "lined l' (pc(t := p)) q" and "ml_tail l' = ml_tail l" and "q \<noteq> [] \<Longrightarrow> mn_blocked (ml_nodes l' (hd q)) = mn_blocked (ml_nodes l (hd q))"
    and nx: "\<And>x v. mn_next (ml_nodes l x) = Some v \<Longrightarrow> mn_next (ml_nodes l' x) = Some v"
    and ns: "\<And>x. \<not> queued (pc x) \<Longrightarrow> mn_next (ml_nodes l' x) = mn_next (ml_nodes l x)"
  shows "mcs_inv q l' (pc(t := p))"
proof -
  obtain h r where q: "q = h # r" "t \<in> set r" "t \<noteq> h"
    using assms(2) mcs_invD(1) [OF assms(1)] by (cases q) auto
  have "first_ok l' (pc(t := p)) q"
    using mcs_invD(4) [OF assms(1)] q assms(7) nx by (auto simp: first_ok_def)
  moreover have "set q = {x. queued ((pc(t := p)) x)}"
    using mcs_invD(2) [OF assms(1)] q(1,2) assms(4) by auto
  moreover have "mn_next (ml_nodes l' x) = None" if "pc x = Lock_Swap \<or> pc x = Try_Swap" for x
    using mcs_invD(6) [OF assms(1) that] ns [of x] that by auto
  moreover have "p \<noteq> Lock_Swap" "p \<noteq> Try_Swap" using assms(4) by auto
  ultimately show ?thesis
    using mcs_invD(1,3) [OF assms(1)] assms(5,6) by (auto simp: mcs_inv_def)
qed

lemma inv_leave:
  assumes "mcs_inv (t # q) l pc" and "ml_tail l' = (if q = [] then None else ml_tail l)"
    and "\<And>x. mn_next (ml_nodes l' x) = mn_next (ml_nodes l x)"
    and "\<And>u r. q = u # r \<Longrightarrow> pc u = Lock_Spin \<and> \<not> mn_blocked (ml_nodes l' u)"
    and "\<And>x. q = [] \<or> x \<noteq> hd q \<Longrightarrow> mn_blocked (ml_nodes l' x) = mn_blocked (ml_nodes l x)"
  shows "mcs_inv q l' (pc(t := Idle))"
proof -
  have d: "distinct (t # q)" by (rule mcs_invD(1) [OF assms(1)])
  then have p: "p \<noteq> hd q" "p \<noteq> t" if "p \<in> set (tl q)" for p using that by (cases q; auto)+
  have "lined l pc q" using mcs_invD(5) [OF assms(1)] by (rule lined_tl)
  moreover have "lined l' (pc(t := Idle)) q = lined l pc q"
    using p assms(3,5) by (intro lined_cong) auto
  moreover have "first_ok l' (pc(t := Idle)) q"
    using assms(4) d by (auto simp: first_ok_def)
  moreover have "set q = {x. queued ((pc(t := Idle)) x)}"
    using mcs_invD(2) [OF assms(1)] d by auto
  ultimately show ?thesis
    using d mcs_invD(3,6) [OF assms(1)] assms(2,3) by (auto simp: mcs_inv_def)
qed

lemma mcs_access_inv:
  assumes inv: "mcs_inv q l pc" and run: "pc t \<noteq> Idle" "pc t \<noteq> Critical" "mcs_access t (pc t) l = (p, l')"
  shows "mcs_inv (mcs_queue t (pc t) l q) l' (pc(t := p))"
proof (cases "pc t")
  case Lock_Swap
  then show ?thesis using run(3) inv_swap [OF inv] mcs_invD(3) [OF inv] by (auto split: if_splits)
next
  case (Lock_Block a)
  note b = blocked_pred [OF inv disjI1, OF Lock_Block]
  have "hd q \<noteq> t" using b(1) mcs_invD(1) [OF inv] by (cases q) auto
  with b show ?thesis using run(3) Lock_Block lined_block [OF mcs_invD(5,1) [OF inv] b(1) Lock_Block]
    by (auto intro!: inv_wait [OF inv b(1)])
next
  case (Lock_Link a)
  note b = blocked_pred [OF inv disjI2, OF Lock_Link]
  then show ?thesis using run(3) Lock_Link lined_link [OF mcs_invD(5,1) [OF inv] b(1) Lock_Link]
    by (auto intro!: inv_wait [OF inv b(1)])
next
  case Lock_Spin
  show ?thesis
  proof (cases "mn_blocked (ml_nodes l t)")
    case False
    then obtain r where q: "q = t # r" using spin_place [OF inv Lock_Spin] by blast
    then show ?thesis using run(3) Lock_Spin False inv_first [OF inv q, of Critical] by auto
  qed (use run(3) Lock_Spin inv in \<open>simp add: fun_upd_idem\<close>)
next
  case Try_Swap
  show ?thesis
  proof (cases "q = []")
    case True
    then show ?thesis using run(3) Try_Swap inv_swap [OF inv, of t] mcs_invD(3) [OF inv] by auto
  qed (use run(3) Try_Swap inv_outside [OF inv, of t Idle l] mcs_invD(3) [OF inv] in auto)
next
  case Unlock_Load
  then obtain r where q: "q = t # r" using holding_first [OF inv, of t] by auto
  then show ?thesis using run(3) Unlock_Load inv_first [OF inv q, of p] by (auto split: option.splits)
next
  case Unlock_Swap
  then obtain r where q: "q = t # r" using holding_first [OF inv, of t] by auto
  then show ?thesis using run(3) Unlock_Swap mcs_invD(1,3) [OF inv] inv_first [OF inv q, of Unlock_Spin] inv_leave [of t r l pc l'] inv
    by (auto split: if_splits)
next
  case Unlock_Spin
  then obtain r where q: "q = t # r" using holding_first [OF inv, of t] by auto
  then show ?thesis using run(3) Unlock_Spin inv_first [OF inv q, of p] mcs_invD(4) [OF inv] inv
    by (auto simp: first_ok_def fun_upd_idem split: option.splits)
next
  case (Unlock_Signal u)
  then obtain r where q: "q = t # u # r" "pc u = Lock_Spin" using signalled_next [OF inv] by blast
  then show ?thesis using run(3) Unlock_Signal inv by (auto intro!: inv_leave [of t "u # r" l])
qed (use run inv in \<open>auto intro!: inv_outside\<close>)

lemma mcs_step_inv:
  assumes "mcs_step t (l, pc) (l', pc')" and inv: "mcs_inv q l pc"
  shows "mcs_inv (mcs_queue t (pc t) l q) l' pc'"
  using assms(1)
proof cases
  case call_unlock
  then obtain r where q: "q = t # r" using holding_first [OF inv, of t] by auto
  then show ?thesis using call_unlock inv_first [OF inv q, of Unlock_Load] by auto
qed (use inv mcs_access_inv [OF inv] in \<open>auto intro!: inv_outside\<close>)

lemma mcs_start_inv: "mcs_start (l, pc) \<Longrightarrow> mcs_inv [] l pc"
  by (simp add: mcs_start_def mcs_inv_def first_ok_def)

lemma mcs_reach_inv:
  assumes "mcs_reach (l, pc)"
  shows "\<exists>q. mcs_inv q l pc"
  using reach_invariant [OF assms, of "\<lambda>s. \<exists>q. mcs_inv q (fst s) (snd s)"] mcs_start_inv mcs_step_inv by fastforce

section \<open>First come, first served\<close>

text \<open>
  A history of an execution: \<open>arrivals\<close> has the threads in the order in which they joined the queue, \<open>entries\<close> those that
  got the lock, in the order in which they got it.
\<close>

inductive mcs_history :: "mcs_state \<Rightarrow> ptr list \<Rightarrow> ptr list \<Rightarrow> bool" where
  begin_history: "mcs_start s \<Longrightarrow> mcs_history s [] []"
| go_on: "mcs_history (l, pc) arrivals entries \<Longrightarrow> mcs_step t (l, pc) (l', pc') \<Longrightarrow>
    mcs_history (l', pc') (if \<not> queued (pc t) \<and> queued (pc' t) then arrivals @ [t] else arrivals)
      (if pc t \<noteq> Critical \<and> pc' t = Critical then entries @ [t] else entries)"

definition served :: "(ptr \<Rightarrow> mcs_pc) \<Rightarrow> ptr list \<Rightarrow> ptr list" where
  "served pc q = (case q of h # r \<Rightarrow> (if holding (pc h) then [h] else []) | [] \<Rightarrow> [])"

lemma served_other: "q \<noteq> [] \<Longrightarrow> t \<noteq> hd q \<Longrightarrow> served (pc(t := p)) (q @ r) = served pc q"
  by (cases q) (auto simp: served_def)

lemma served_simps [simp]: "served pc [] = []" "served pc (t # r) = (if holding (pc t) then [t] else [])"
  by (simp_all add: served_def)

lemma mcs_step_queue:
  assumes st: "mcs_step t (l, pc) (l', pc')" and inv: "mcs_inv q l pc"
  shows "\<exists>gone. gone @ mcs_queue t (pc t) l q = (if \<not> queued (pc t) \<and> queued (pc' t) then q @ [t] else q) \<and>
    gone @ served pc' (mcs_queue t (pc t) l q) = (if pc t \<noteq> Critical \<and> pc' t = Critical then served pc q @ [t] else served pc q)"
proof (cases "q \<noteq> [] \<and> hd q = t")
  case True
  then obtain r where q: "q = t # r" by (cases q) auto
  then have "holding (pc t) \<or> pc t = Lock_Spin \<and> \<not> mn_blocked (ml_nodes l t)"
    using mcs_invD(4) [OF inv] by (auto simp: first_ok_def)
  moreover have "served pc r = []"
    using mcs_invD(5) [OF inv] q by (cases r) (auto dest: behind_pc)
  then have "served (pc(t := p)) r = []" for p
    using mcs_invD(1) [OF inv] q served_other [of r t pc p "[]"] by (cases r) auto
  ultimately show ?thesis using st q
    by (cases "pc t") (auto elim!: mcs_stepE split: option.splits if_splits intro: exI [of _ "[]"])
next
  case False
  then have "\<not> holding (pc t)"
    using holding_first [OF inv, of t] by auto
  moreover have "pc t = Lock_Spin \<Longrightarrow> mn_blocked (ml_nodes l t)"
    using spin_place [OF inv, of t] False by auto
  ultimately show ?thesis using st False served_other [of q t pc] served_other [of q t pc _ "[]"] mcs_invD(3) [OF inv]
    by (cases "pc t"; cases "q = []") (auto elim!: mcs_stepE split: option.splits if_splits intro: exI [of _ "[]"])
qed

lemma mcs_history_queue:
  assumes "mcs_history s arrivals entries"
  shows "\<exists>past q. mcs_inv q (fst s) (snd s) \<and> arrivals = past @ q \<and> entries = past @ served (snd s) q"
  using assms
proof induction
  case (begin_history s)
  then show ?case using mcs_start_inv [of "fst s" "snd s"] by (intro exI [of _ "[]"]) auto
next
  case (go_on l pc arrivals entries t l' pc')
  then obtain past q where q: "mcs_inv q l pc" "arrivals = past @ q" "entries = past @ served pc q" by auto
  from mcs_step_queue [OF go_on.hyps(2) q(1)] obtain gone where g:
    "gone @ mcs_queue t (pc t) l q = (if \<not> queued (pc t) \<and> queued (pc' t) then q @ [t] else q)"
    "gone @ served pc' (mcs_queue t (pc t) l q) = (if pc t \<noteq> Critical \<and> pc' t = Critical then served pc q @ [t] else served pc q)"
    by blast
  show ?case
    using mcs_step_inv [OF go_on.hyps(2) q(1)] g q(2,3)
    by (intro exI [of _ "past @ gone"] exI [of _ "mcs_queue t (pc t) l q"]) auto
qed

section \<open>Progress\<close>

text \<open>
  For a thread \<open>t\<close> in the queue: the threads before it, then how far the first one is from leaving the queue, then how far
  the second one is from being linked to it. The first thread helps, except when it waits for the second one to link itself.
\<close>

fun holder_rank :: "mcs_pc \<Rightarrow> nat" where
  "holder_rank Lock_Spin = 5"
| "holder_rank Critical = 4"
| "holder_rank Unlock_Load = 3"
| "holder_rank Unlock_Swap = 2"
| "holder_rank Unlock_Spin = 1"
| "holder_rank _ = 0"

fun link_rank :: "mcs_pc \<Rightarrow> nat" where
  "link_rank (Lock_Block _) = 2"
| "link_rank (Lock_Link _) = 1"
| "link_rank _ = 0"

primrec place :: "ptr \<Rightarrow> ptr list \<Rightarrow> nat" where
  "place t [] = 0"
| "place t (h # r) = (if t = h then 0 else Suc (place t r))"

type_synonym mcs_queued = "mcs_state \<times> ptr list"

fun mcs_qstep :: "ptr \<Rightarrow> mcs_queued \<Rightarrow> mcs_queued \<Rightarrow> bool" where
  "mcs_qstep t ((l, pc), q) (s', q') \<longleftrightarrow> mcs_step t (l, pc) s' \<and> q' = mcs_queue t (pc t) l q"

fun mcs_waiting :: "ptr \<Rightarrow> mcs_queued \<Rightarrow> bool" where
  "mcs_waiting t ((l, pc), q) \<longleftrightarrow> mcs_inv q l pc \<and> queued (pc t) \<and> \<not> holding (pc t)"

fun mcs_rank :: "ptr \<Rightarrow> mcs_queued \<Rightarrow> nat" where
  "mcs_rank t ((l, pc), q) = (case q of h # u # r \<Rightarrow>
      if t = h then 0 else place t q * 100 + holder_rank (pc h) * 10 + link_rank (pc u) | _ \<Rightarrow> 0)"

fun mcs_helper :: "mcs_queued \<Rightarrow> ptr" where
  "mcs_helper ((l, pc), q) = (case q of h # u # r \<Rightarrow> if pc h = Unlock_Spin \<and> mn_next (ml_nodes l h) = None then u else h | _ \<Rightarrow> hd q)"

lemma waiting_access:
  "queued p \<Longrightarrow> \<not> holding p \<Longrightarrow> mcs_access v p l = (p', l') \<Longrightarrow> p' = Critical \<or> queued p' \<and> \<not> holding p'"
  by (cases p) (auto split: if_splits)

lemma mcs_still_waiting:
  assumes w: "mcs_waiting t ((l, pc), q)" and st: "mcs_step v (l, pc) (l', pc')" and ng: "pc' t \<noteq> Critical"
  shows "mcs_waiting t ((l', pc'), mcs_queue v (pc v) l q)"
  using w st ng mcs_step_inv [OF st] waiting_access [of "pc v" v l] by (auto elim!: mcs_stepE split: if_splits)

lemma mcs_waiting_cases:
  assumes "mcs_waiting t ((l, pc), q)"
  obtains (first) r where "q = t # r" "pc t = Lock_Spin" "\<not> mn_blocked (ml_nodes l t)"
    | (later) h u r where "q = h # u # r" "t \<in> set (u # r)" "t \<noteq> h" "h \<noteq> u" "h \<notin> set r" "u \<notin> set r" "behind l pc h u"
        "holding (pc h) \<or> pc h = Lock_Spin \<and> \<not> mn_blocked (ml_nodes l h)"
proof -
  have inv: "mcs_inv q l pc" using assms by simp
  then have "t \<in> set q" using assms mcs_invD(2) [OF inv] by auto
  then show ?thesis
    using assms mcs_invD(1,4,5) [OF inv] first later by (cases q rule: remdups_adj.cases) (auto simp: first_ok_def)
qed

lemma place_append: "t \<in> set q \<Longrightarrow> place t (q @ r) = place t q"
  by (induction q) auto

lemma mcs_rank_bound:
  "mcs_rank t ((l, pc), q) \<le> place t q * 100 + 52"
proof -
  have "holder_rank a * 10 + link_rank b \<le> 52" for a b
    by (cases a; cases b) auto
  then show ?thesis by (auto split: list.split)
qed

lemma mcs_step_elsewhere:
  assumes "mcs_inv (h # u # r) l pc" and "mcs_step v (l, pc) (l', pc')" and "v \<noteq> h" "v \<noteq> u"
  shows "mn_next (ml_nodes l' h) = mn_next (ml_nodes l h)" "pc' h = pc h" "pc' u = pc u"
    "\<exists>e. mcs_queue v (pc v) l (h # u # r) = h # u # r @ e"
proof -
  have nh: "\<not> holding (pc v)" using holding_first [OF assms(1), of v] assms(3) by auto
  show "pc' h = pc h" "pc' u = pc u" using assms(2-4) by (auto elim!: mcs_stepE)
  show "\<exists>e. mcs_queue v (pc v) l (h # u # r) = h # u # r @ e" using nh mcs_invD(3) [OF assms(1)] by (cases "pc v") auto
  have "p \<noteq> h" if p: "pc v = Lock_Link p" for p
  proof -
    obtain q1 p' q2 where "h # u # r = q1 @ p' # v # q2" "behind l pc p' v"
      using lined_split [OF mcs_invD(5) [OF assms(1)] blocked_pred(1) [OF assms(1) disjI2, OF p]] by blast
    then show ?thesis using p assms(4) mcs_invD(1) [OF assms(1)] by (cases q1) (auto simp: behind_def)
  qed
  then show "mn_next (ml_nodes l' h) = mn_next (ml_nodes l h)"
    using nh assms(2,3) by (cases "pc v") (auto elim!: mcs_stepE split: if_splits)
qed

lemma holder_access:
  assumes "mcs_step h (l, pc) (l', pc')" and "holding (pc h) \<or> pc h = Lock_Spin \<and> \<not> mn_blocked (ml_nodes l h)"
    and "pc' h \<noteq> Idle"
  shows "holder_rank (pc' h) < holder_rank (pc h) \<or> pc' h = pc h \<and> l' = l \<and> pc h = Unlock_Spin \<and> mn_next (ml_nodes l h) = None"
    "mcs_queue h (pc h) l q = q" "x \<noteq> h \<Longrightarrow> pc' x = pc x"
  using assms by (cases "pc h"; auto elim!: mcs_stepE split: option.splits if_splits)+

lemma mcs_rank_step:
  assumes w: "mcs_waiting t ((l, pc), q)" and st: "mcs_step v (l, pc) (l', pc')" and ng: "pc' t \<noteq> Critical"
  defines "q' \<equiv> mcs_queue v (pc v) l q"
  shows "mcs_rank t ((l', pc'), q') < mcs_rank t ((l, pc), q) \<or>
    mcs_rank t ((l', pc'), q') = mcs_rank t ((l, pc), q) \<and> mcs_helper ((l', pc'), q') = mcs_helper ((l, pc), q) \<and> v \<noteq> mcs_helper ((l, pc), q)"
  using w
proof (cases rule: mcs_waiting_cases)
  case (first r)
  have v: "v \<noteq> t" using st ng first by (auto elim!: mcs_stepE)
  moreover from v have "pc' t = Lock_Spin" using st first(2) by (auto elim!: mcs_stepE)
  moreover have "\<not> holding (pc v)" using v holding_first [of q l pc v] first(1) w by auto
  then have "\<exists>e. q' = t # r @ e" using first(1) mcs_invD(3) [of q l pc] w unfolding q'_def by (cases "pc v") auto
  ultimately show ?thesis using first by (auto split: list.split)
next
  case (later h u r)
  have inv: "mcs_inv (h # u # r) l pc" using w later(1) by simp
  consider "v = h" "pc' h = Idle" | "v = h" "pc' h \<noteq> Idle" | "v = u" | "v \<noteq> h" "v \<noteq> u" by blast
  then show ?thesis
  proof cases
    case 1
    then have "q' = u # r" unfolding q'_def later(1) using st later(4,8) mcs_invD(3) [OF inv]
      by (cases "pc h") (auto elim!: mcs_stepE split: option.splits if_splits)
    then have "mcs_rank t ((l', pc'), q') < place t q * 100"
      using mcs_rank_bound [of t l' pc' q'] later(1,3) by simp
    then show ?thesis using later(1,3) by simp
  next
    case 2
    note h = holder_access [OF st [unfolded 2(1)] later(8) 2(2)]
    have "q' = q" unfolding q'_def 2(1) by (rule h(2))
    then show ?thesis using h(1) h(3) [of u] later(1,3,4) 2(1) by auto
  next
    case 3
    then show ?thesis using st later(1,3,4,7) unfolding q'_def
      by (auto simp: behind_def elim!: mcs_stepE)
  next
    case 4
    obtain e where e: "q' = h # u # r @ e"
      using mcs_step_elsewhere(4) [OF inv st 4] unfolding q'_def later(1) by blast
    note o = mcs_step_elsewhere(1-3) [OF inv st 4]
    have "place t (h # u # r @ e) = place t q"
      using place_append [of t "h # u # r" e] later(1,2) by simp
    then show ?thesis using o e later(1,3) 4 by simp
  qed
qed

lemma mcs_helper_active: "mcs_waiting t ((l, pc), q) \<Longrightarrow> pc (mcs_helper ((l, pc), q)) \<noteq> Idle"
  by (erule mcs_waiting_cases) (auto simp: behind_def split: list.split)

lemma mcs_qstepD:
  assumes st: "mcs_qstep v s s'" and w: "mcs_waiting t s"
  shows "snd (fst s') t = Critical \<or> mcs_waiting t s'"
    "snd (fst s') t \<noteq> Critical \<Longrightarrow> mcs_rank t s' < mcs_rank t s \<or>
       mcs_rank t s' = mcs_rank t s \<and> mcs_helper s' = mcs_helper s \<and> v \<noteq> mcs_helper s"
proof -
  obtain l pc q l' pc' q' where s: "s = ((l, pc), q)" "s' = ((l', pc'), q')" by (metis surj_pair)
  then have q: "mcs_step v (l, pc) (l', pc')" "q' = mcs_queue v (pc v) l q" using st by simp_all
  show "snd (fst s') t = Critical \<or> mcs_waiting t s'"
    using mcs_still_waiting [OF w [unfolded s(1)] q(1)] unfolding s q(2) by auto
  show "snd (fst s') t \<noteq> Critical \<Longrightarrow> mcs_rank t s' < mcs_rank t s \<or>
       mcs_rank t s' = mcs_rank t s \<and> mcs_helper s' = mcs_helper s \<and> v \<noteq> mcs_helper s"
    using mcs_rank_step [OF w [unfolded s(1)] q(1)] unfolding s q(2) fst_conv snd_conv by blast
qed

interpretation waiting: progress mcs_qstep "mcs_waiting t" "\<lambda>s. snd (fst s) t = Critical" "\<lambda>s u. snd (fst s) u \<noteq> Idle" "mcs_rank t" mcs_helper
  for t :: ptr
proof (unfold_locales, goal_cases)
  case (1 s v s')
  then show ?case using mcs_qstepD(1) [OF 1(2,1)] by blast
next
  case (2 s)
  obtain l pc q where "s = ((l, pc), q)" by (metis surj_pair)
  with 2 mcs_helper_active [of t l pc q] show ?case by (simp only: fst_conv snd_conv not_False_eq_True)
next
  case (3 s v s')
  then show ?case using mcs_qstepD(2) [OF 3(2,1)] by blast
next
  case (4 s s')
  then show ?case using mcs_qstepD(2) [OF 4(2,1)] by blast
qed

lemma mcs_pc_kept: "mcs_step v s s' \<Longrightarrow> v \<noteq> t \<Longrightarrow> snd s' t = snd s t"
  by (auto elim: mcs_step.cases)

lemma mcs_lock_steps:
  assumes "mcs_step t s s'"
  shows "snd s t = Lock_Init \<Longrightarrow> snd s' t = Lock_Swap"
    "snd s t = Lock_Swap \<Longrightarrow> snd s' t = Critical \<or> queued (snd s' t) \<and> \<not> holding (snd s' t)"
  using assms by (auto elim!: mcs_step.cases split: option.splits)

lemma mcs_queue_along:
  assumes sch: "schedule mcs_step th \<sigma>" and st: "mcs_start (\<sigma> 0)"
  shows "\<exists>Q. (\<forall>i. mcs_inv (Q i) (fst (\<sigma> i)) (snd (\<sigma> i))) \<and> schedule mcs_qstep th (\<lambda>i. (\<sigma> i, Q i))"
proof -
  define Q where "Q = rec_nat [] (\<lambda>i q. mcs_queue (th i) (snd (\<sigma> i) (th i)) (fst (\<sigma> i)) q)"
  have Q: "Q 0 = []" "Q (Suc i) = mcs_queue (th i) (snd (\<sigma> i) (th i)) (fst (\<sigma> i)) (Q i)" for i
    by (simp_all add: Q_def)
  have step: "mcs_step (th i) (fst (\<sigma> i), snd (\<sigma> i)) (fst (\<sigma> (Suc i)), snd (\<sigma> (Suc i)))" for i
    using scheduleD [OF sch] by simp
  have "mcs_inv (Q i) (fst (\<sigma> i)) (snd (\<sigma> i))" for i
  proof (induction i)
    case 0
    then show ?case using mcs_start_inv [of "fst (\<sigma> 0)" "snd (\<sigma> 0)"] st by (simp add: Q)
  next
    case (Suc i)
    then show ?case using mcs_step_inv [OF step] by (simp add: Q)
  qed
  moreover have "schedule mcs_qstep th (\<lambda>i. (\<sigma> i, Q i))"
    unfolding schedule_def
  proof
    fix i
    obtain l pc where "\<sigma> i = (l, pc)" by fastforce
    then show "mcs_qstep (th i) (\<sigma> i, Q i) (\<sigma> (Suc i), Q (Suc i))" using scheduleD [OF sch, of i] by (simp add: Q)
  qed
  ultimately show ?thesis by blast
qed

section \<open>Examples of executions\<close>

text \<open>Threads that acquire and release the lock for ever, run by a given sequence of threads.\<close>

fun mcs_next :: "ptr \<Rightarrow> mcs_state \<Rightarrow> mcs_state" where
  "mcs_next t (l, pc) = (if pc t = Idle then (l, pc(t := Lock_Init)) else if pc t = Critical then (l, pc(t := Unlock_Load))
     else (case mcs_access t (pc t) l of (p, l') \<Rightarrow> (l', pc(t := p))))"

definition example_mcs :: mcs_state where
  "example_mcs = (mcs_init \<lparr> ml_tail = Some 0, ml_nodes = (\<lambda>_. \<lparr> mn_next = Some 7, mn_blocked = False \<rparr>) \<rparr>, \<lambda>_. Idle)"

primrec example_run :: "nat \<Rightarrow> mcs_state" where
  "example_run 0 = example_mcs"
| "example_run (Suc i) = mcs_next (i mod 2) (example_run i)"

lemma mcs_next_step: "mcs_step t s (mcs_next t s)"
  by (cases s) (auto intro: mcs_step.intros split: prod.split)

lemma mcs_history_next:
  "mcs_history (l, pc) arrivals entries \<Longrightarrow> mcs_next t (l, pc) = (l', pc') \<Longrightarrow>
   mcs_history (l', pc') (if \<not> queued (pc t) \<and> queued (pc' t) then arrivals @ [t] else arrivals)
      (if pc t \<noteq> Critical \<and> pc' t = Critical then entries @ [t] else entries)"
  using mcs_history.go_on [of l pc arrivals entries t l' pc'] mcs_next_step [of t "(l, pc)"] by presburger

lemma example_schedule: "schedule mcs_step (\<lambda>i. i mod 2) example_run"
  by (simp add: schedule_def mcs_next_step)

lemma example_start: "mcs_start (example_run 0)"
  by (simp add: mcs_start_def example_mcs_def mcs_init_def)

lemma example_fair: "fair (\<lambda>s u. snd s u \<noteq> Idle) (\<lambda>i. i mod 2) example_run"
  unfolding fair_def
proof (intro allI impI)
  fix i u
  assume "snd (example_run i) u \<noteq> Idle"
  moreover have "snd (example_run i) v = Idle" if "v \<ge> 2" for v
    using that
  proof (induction i)
    case (Suc i)
    then show ?case using mcs_pc_kept [OF mcs_next_step, of "i mod 2" v "example_run i"] mod_less_divisor [of 2 i] by simp
  qed (simp add: example_mcs_def)
  ultimately have "u < 2" by (meson not_less)
  then show "\<exists>j\<ge>i. j mod 2 = u" by (intro exI [of _ "2 * i + u"]) simp
qed

section \<open>Properties\<close>

text \<open>
  C12. Mutual exclusion: in every interleaving of any number of threads that call \<open>mcs_lock\<close>, \<open>mcs_trylock\<close> and
  \<open>mcs_unlock\<close>, at most one thread is between the acquisition of the lock and the last access of its unlock.
\<close>

theorem mcs_mutual_exclusion:
  assumes "mcs_reach (l, pc)" and "holding (pc t)" and "holding (pc u)"
  shows "t = u"
proof -
  obtain q where "mcs_inv q l pc" using mcs_reach_inv [OF assms(1)] by blast
  from holding_first [OF this assms(2)] holding_first [OF this assms(3)] show ?thesis by auto
qed

theorem mcs_mutual_exclusion_witness:
  "mcs_reach (example_run 6) \<and> snd (example_run 6) 0 = Critical \<and> \<not> holding (snd (example_run 6) 1)"
proof -
  have r: "mcs_reach (fst (example_run 6), snd (example_run 6))"
    using schedule_reach [OF example_schedule, of mcs_start 6] example_start by simp
  have c: "snd (example_run 6) 0 = Critical"
    by code_simp
  then show ?thesis using r mcs_mutual_exclusion [OF r, of 0 1] by auto
qed

text \<open>
  C13. First come, first served: the threads get the lock in the order in which they exchanged the tail, none is left out and
  none overtakes another.
\<close>

theorem mcs_first_come_first_served:
  assumes "mcs_history s arrivals entries"
  shows "prefix entries arrivals"
proof -
  obtain past q where "arrivals = past @ q" "entries = past @ served (snd s) q" using mcs_history_queue [OF assms] by blast
  then show ?thesis by (cases q) auto
qed

theorem mcs_first_come_first_served_witness:
  "\<exists>s arrivals. mcs_history s arrivals [1] \<and> prefix [1] arrivals"
proof -
  let ?l = "fst example_mcs"
  have "mcs_history example_mcs [] []" using example_start by (simp add: mcs_history.begin_history)
  then have "mcs_history (?l, \<lambda>_. Idle) [] []" by (simp add: example_mcs_def)
  from mcs_history_next [OF this, of 1 ?l "(\<lambda>_. Idle)(1 := Lock_Init)"]
  have "mcs_history (?l, (\<lambda>_. Idle)(1 := Lock_Init)) [] []" by simp
  from mcs_history_next [OF this, of 1 "set_next 1 None ?l" "(\<lambda>_. Idle)(1 := Lock_Swap)"]
  have "mcs_history (set_next 1 None ?l, (\<lambda>_. Idle)(1 := Lock_Swap)) [] []" by simp
  from mcs_history_next [OF this, of 1 "(set_next 1 None ?l)\<lparr> ml_tail := Some 1 \<rparr>" "(\<lambda>_. Idle)(1 := Critical)"]
  obtain s where "mcs_history s [1] [1]" by (auto simp: example_mcs_def mcs_init_def)
  then show ?thesis using mcs_first_come_first_served by blast
qed

text \<open>
  C14. No starvation: in every fair execution, in which a thread inside an operation or with the lock takes another step in
  the end, a thread that calls \<open>mcs_lock\<close> gets the lock.
\<close>

theorem mcs_lock_no_starvation:
  assumes sch: "schedule mcs_step th \<sigma>" and st: "mcs_start (\<sigma> 0)" and fr: "fair (\<lambda>s u. snd s u \<noteq> Idle) th \<sigma>"
    and i: "snd (\<sigma> i) t = Lock_Init"
  shows "\<exists>j\<ge>i. snd (\<sigma> j) t = Critical"
proof -
  obtain j where j: "j \<ge> i" "th j = t" "snd (\<sigma> j) t = Lock_Init"
    using fair_next_step [OF sch fr, of "\<lambda>s. snd s t = Lock_Init" i t] i mcs_pc_kept by force
  then have "snd (\<sigma> (Suc j)) t = Lock_Swap"
    using mcs_lock_steps(1) scheduleD [OF sch, of j] by simp
  then obtain k where k: "k \<ge> Suc j" "th k = t" "snd (\<sigma> k) t = Lock_Swap"
    using fair_next_step [OF sch fr, of "\<lambda>s. snd s t = Lock_Swap" "Suc j" t] mcs_pc_kept by force
  then consider "snd (\<sigma> (Suc k)) t = Critical" | "queued (snd (\<sigma> (Suc k)) t)" "\<not> holding (snd (\<sigma> (Suc k)) t)"
    using mcs_lock_steps(2) [of t "\<sigma> k" "\<sigma> (Suc k)"] scheduleD [OF sch, of k] by auto
  then have "\<exists>n\<ge>Suc k. snd (\<sigma> n) t = Critical"
  proof cases
    case 2
    obtain Q where "\<And>i. mcs_inv (Q i) (fst (\<sigma> i)) (snd (\<sigma> i))" and q: "schedule mcs_qstep th (\<lambda>i. (\<sigma> i, Q i))"
      using mcs_queue_along [OF sch st] by blast
    then have "mcs_waiting t (\<sigma> (Suc k), Q (Suc k))"
      using 2 by (cases "\<sigma> (Suc k)") (metis fst_conv snd_conv mcs_waiting.simps)
    moreover have "fair (\<lambda>s u. snd (fst s) u \<noteq> Idle) th (\<lambda>i. (\<sigma> i, Q i))"
      using fr by (simp add: fair_def)
    ultimately show ?thesis using waiting.eventually_goal [OF q] by fastforce
  qed auto
  then show ?thesis using j(1) k(1) by (meson Suc_leD order_trans)
qed

theorem mcs_lock_no_starvation_witness:
  "snd (example_run 2) 1 = Lock_Init \<and> (\<exists>j\<ge>2. snd (example_run j) 1 = Critical)"
proof -
  have "snd (example_run 2) 1 = Lock_Init"
    by code_simp
  then show ?thesis using mcs_lock_no_starvation [OF example_schedule example_start example_fair] by blast
qed

end
