(* ===== verification/Spinlock.thy ===== *)
theory Spinlock
  imports Interleaving Prelude
begin

text \<open>
  The test-and-set lock of \<open>src/common/lean/spinlock.h\<close> and its variants that give up. A lock is the value of its
  \<open>thelock\<close>. The operations are cut at their accesses to it, as in \<open>Mcs_Lock\<close>: a constructor of \<open>spin_pc\<close> is an
  operation that is about to try once more, with the values of its variables, and one step is one round of its loop. A weak
  compare-and-exchange may fail although the value is the expected one; whether it does is an argument.
\<close>

section \<open>Operations\<close>

definition SPINLOCK_UNLOCKED_VALUE :: u64 where "SPINLOCK_UNLOCKED_VALUE = - 1"

definition SPINLOCK_LOCKED_VALUE :: u64 where "SPINLOCK_LOCKED_VALUE = 1"

datatype spin_pc = Outside | Lock | Limit u64 | Hwt_Cas u64 | Hwt_Limit u64 u64 | Inside

definition compare_exchange_weak :: "bool \<Rightarrow> u64 \<Rightarrow> u64 \<Rightarrow> u64 \<Rightarrow> bool \<times> u64 \<times> u64" where
  "compare_exchange_weak fails v expected desired = (if v = expected \<and> \<not> fails then (True, expected, desired) else (False, v, v))"

definition spin_return :: "bool \<Rightarrow> spin_pc" where
  "spin_return acquired = (if acquired then Inside else Outside)"

definition spinlock_init :: u64 where "spinlock_init = SPINLOCK_UNLOCKED_VALUE"

definition spinlock_unlock :: "u64 \<Rightarrow> u64" where "spinlock_unlock v = SPINLOCK_UNLOCKED_VALUE"

definition spinlock_is_locked :: "u64 \<Rightarrow> bool" where "spinlock_is_locked v \<longleftrightarrow> v \<noteq> SPINLOCK_UNLOCKED_VALUE"

definition spinlock_lock :: "bool \<Rightarrow> u64 \<Rightarrow> spin_pc \<times> u64" where
  "spinlock_lock fails v =
    (case compare_exchange_weak fails v SPINLOCK_UNLOCKED_VALUE SPINLOCK_LOCKED_VALUE of (ok, _, v) \<Rightarrow>
       (if ok then spin_return True else Lock, v))"

definition limit_call :: "u64 \<Rightarrow> spin_pc" where
  "limit_call limit = (if limit = 0 then Lock else Limit limit)"

definition limit_spinlock_lock :: "bool \<Rightarrow> u64 \<Rightarrow> u64 \<Rightarrow> spin_pc \<times> u64" where
  "limit_spinlock_lock fails limit v =
    (let more = limit > 0; limit = limit - 1 in
     if more
     then (case compare_exchange_weak fails v SPINLOCK_UNLOCKED_VALUE SPINLOCK_LOCKED_VALUE of (ok, _, v) \<Rightarrow>
            (if ok then spin_return (limit + 1 > 0) else Limit limit, v))
     else (spin_return (limit + 1 > 0), v))"

definition hwt_cas_spinlock_lock :: "bool \<Rightarrow> u64 \<Rightarrow> u64 \<Rightarrow> spin_pc \<times> u64" where
  "hwt_cas_spinlock_lock fails locked_val v =
    (case compare_exchange_weak fails v SPINLOCK_UNLOCKED_VALUE locked_val of (ok, old_lockval, v) \<Rightarrow>
       (if ok then spin_return True else if old_lockval = locked_val then spin_return False else Hwt_Cas locked_val, v))"

definition hwt_limit_call :: "u64 \<Rightarrow> u64 \<Rightarrow> spin_pc" where
  "hwt_limit_call limit locked_val = (if limit = 0 then Hwt_Cas locked_val else Hwt_Limit limit locked_val)"

definition hwt_limit_spinlock_lock :: "bool \<Rightarrow> u64 \<Rightarrow> u64 \<Rightarrow> u64 \<Rightarrow> spin_pc \<times> u64" where
  "hwt_limit_spinlock_lock fails limit locked_val v =
    (let more = limit > 0; limit = limit - 1 in
     if more
     then (case compare_exchange_weak fails v SPINLOCK_UNLOCKED_VALUE locked_val of (ok, old_lockval, v) \<Rightarrow>
            (if ok then spin_return (limit + 1 > 0)
             else if old_lockval = locked_val then spin_return False
             else Hwt_Limit limit locked_val, v))
     else (spin_return (limit + 1 > 0), v))"

section \<open>Threads\<close>

fun spin_access :: "bool \<Rightarrow> spin_pc \<Rightarrow> u64 \<Rightarrow> spin_pc \<times> u64" where
  "spin_access fails Lock v = spinlock_lock fails v"
| "spin_access fails (Limit limit) v = limit_spinlock_lock fails limit v"
| "spin_access fails (Hwt_Cas locked_val) v = hwt_cas_spinlock_lock fails locked_val v"
| "spin_access fails (Hwt_Limit limit locked_val) v = hwt_limit_spinlock_lock fails limit locked_val v"
| "spin_access fails Inside v = (Outside, spinlock_unlock v)"
| "spin_access fails Outside v = (Outside, v)"

type_synonym spin_state = "u64 \<times> (nat \<Rightarrow> spin_pc)"

text \<open>The value with which a thread marks a lock as its own is not the value of an unlocked lock.\<close>

inductive spin_step :: "nat \<Rightarrow> spin_state \<Rightarrow> spin_state \<Rightarrow> bool" where
  call_lock: "pc t = Outside \<Longrightarrow> spin_step t (v, pc) (v, pc(t := Lock))"
| call_limit: "pc t = Outside \<Longrightarrow> spin_step t (v, pc) (v, pc(t := limit_call limit))"
| call_hwt_cas: "pc t = Outside \<Longrightarrow> locked_val \<noteq> SPINLOCK_UNLOCKED_VALUE \<Longrightarrow> spin_step t (v, pc) (v, pc(t := Hwt_Cas locked_val))"
| call_hwt_limit: "pc t = Outside \<Longrightarrow> locked_val \<noteq> SPINLOCK_UNLOCKED_VALUE \<Longrightarrow>
    spin_step t (v, pc) (v, pc(t := hwt_limit_call limit locked_val))"
| access: "spin_access fails (pc t) v = (p, v') \<Longrightarrow> spin_step t (v, pc) (v', pc(t := p))"

definition spin_start :: "spin_state \<Rightarrow> bool" where
  "spin_start s \<longleftrightarrow> fst s = spinlock_init \<and> (\<forall>t. snd s t = Outside)"

fun good_value :: "spin_pc \<Rightarrow> bool" where
  "good_value (Hwt_Cas locked_val) \<longleftrightarrow> locked_val \<noteq> SPINLOCK_UNLOCKED_VALUE"
| "good_value (Hwt_Limit limit locked_val) \<longleftrightarrow> locked_val \<noteq> SPINLOCK_UNLOCKED_VALUE"
| "good_value _ \<longleftrightarrow> True"

definition spin_inv :: "spin_state \<Rightarrow> bool" where
  "spin_inv s \<longleftrightarrow> (\<forall>t. good_value (snd s t)) \<and>
    (if spinlock_is_locked (fst s) then \<exists>t. {u. snd s u = Inside} = {t} else {u. snd s u = Inside} = {})"

section \<open>Lemmas\<close>

lemma SPINLOCK_LOCKED_VALUE_differs [simp]: "SPINLOCK_LOCKED_VALUE \<noteq> SPINLOCK_UNLOCKED_VALUE"
  by (simp add: SPINLOCK_LOCKED_VALUE_def SPINLOCK_UNLOCKED_VALUE_def)

lemmas spin_ops = spinlock_lock_def limit_spinlock_lock_def hwt_cas_spinlock_lock_def hwt_limit_spinlock_lock_def
  compare_exchange_weak_def spin_return_def spinlock_unlock_def Let_def

text \<open>A thread is in the lock after an access exactly when the access found it unlocked and locked it.\<close>

lemma spin_access_locks:
  assumes "spin_access fails p v = (p', v')" and "p \<noteq> Inside" and "good_value p"
  shows "good_value p'" and "p' = Inside \<and> \<not> spinlock_is_locked v \<and> spinlock_is_locked v' \<or> p' \<noteq> Inside \<and> v' = v"
  using assms by (cases p; auto simp: spin_ops spinlock_is_locked_def word_gt_0 split: if_splits)+

lemma spin_inv_upd:
  assumes "spin_inv (v, pc)" and "pc t \<noteq> Inside" and "good_value p"
    and "p = Inside \<and> \<not> spinlock_is_locked v \<and> spinlock_is_locked v' \<or> p \<noteq> Inside \<and> v' = v"
  shows "spin_inv (v', pc(t := p))"
proof -
  have "{u. (pc(t := p)) u = Inside} = (if p = Inside then insert t {u. pc u = Inside} else {u. pc u = Inside})"
    using assms(2) by auto
  then show ?thesis using assms by (auto simp: spin_inv_def simp del: fun_upd_apply split: if_splits) (auto simp: fun_upd_apply)
qed

lemma spin_step_inv: "spin_step t s s' \<Longrightarrow> spin_inv s \<Longrightarrow> spin_inv s'"
proof (induction rule: spin_step.induct)
  case (access fails pc t v p v')
  have good: "good_value (pc u)" for u using access.prems by (simp add: spin_inv_def)
  show ?case
  proof (cases "pc t = Inside")
    case True
    moreover have "\<not> spinlock_is_locked SPINLOCK_UNLOCKED_VALUE" by (simp add: spinlock_is_locked_def)
    ultimately show ?thesis using access by (auto simp: spin_inv_def spinlock_unlock_def split: if_splits) (metis mem_Collect_eq singletonD)
  next
    case False
    show ?thesis using spin_access_locks [OF access.hyps False good] by (intro spin_inv_upd [OF access.prems False])
  qed
qed (auto simp: limit_call_def hwt_limit_call_def intro!: spin_inv_upd)

lemma spin_start_inv: "spin_start s \<Longrightarrow> spin_inv s"
  by (simp add: spin_start_def spin_inv_def spinlock_init_def spinlock_is_locked_def)

text \<open>
  A call of an operation among other threads: \<open>e i\<close> is the value of the lock at the access number \<open>i\<close> of the call, and whether
  the exchange fails for no reason. \<open>Inside\<close> and \<open>Outside\<close> are the results.
\<close>

primrec spin_run :: "(nat \<Rightarrow> bool \<times> u64) \<Rightarrow> nat \<Rightarrow> spin_pc \<Rightarrow> spin_pc" where
  "spin_run e 0 p = p"
| "spin_run e (Suc n) p = (case spin_run e n p of Outside \<Rightarrow> Outside | Inside \<Rightarrow> Inside
     | q \<Rightarrow> fst (spin_access (fst (e n)) q (snd (e n))))"

text \<open>The lock can be taken at an access.\<close>

definition takes :: "bool \<times> u64 \<Rightarrow> bool" where
  "takes a \<longleftrightarrow> \<not> fst a \<and> snd a = SPINLOCK_UNLOCKED_VALUE"

lemma unat_pred: "limit \<noteq> 0 \<Longrightarrow> unat (limit - 1 :: u64) = unat limit - 1"
  by (rule unat_minus_one)

lemma limit_run:
  "n \<le> unat limit \<Longrightarrow> if \<exists>i < n. takes (e i) then spin_run e n (Limit limit) = Inside
     else \<exists>m. spin_run e n (Limit limit) = Limit m \<and> unat m + n = unat limit"
proof (induction n)
  case (Suc n)
  show ?case
  proof (cases "\<exists>i < n. takes (e i)")
    case True
    then show ?thesis using Suc by (auto simp: less_Suc_eq)
  next
    case False
    then obtain m where m: "spin_run e n (Limit limit) = Limit m" "unat m + n = unat limit"
      using Suc.IH [OF Suc_leD [OF Suc.prems]] unfolding if_not_P [OF False] by blast
    then have "m \<noteq> 0" "0 < m" using Suc.prems by (auto simp: word_gt_0)
    with m unat_pred [of m] Suc.prems False show ?thesis by (auto simp: spin_ops takes_def less_Suc_eq)
  qed
qed simp

lemma hwt_limit_run:
  "n \<le> unat limit \<Longrightarrow> if \<exists>i < n. takes (e i) \<or> snd (e i) = w
     then spin_run e n (Hwt_Limit limit w) = (if \<exists>i < n. takes (e i) \<and> (\<forall>j < i. snd (e j) \<noteq> w) then Inside else Outside)
     else \<exists>m. spin_run e n (Hwt_Limit limit w) = Hwt_Limit m w \<and> unat m + n = unat limit"
proof (induction n)
  case (Suc n)
  show ?case
  proof (cases "\<exists>i < n. takes (e i) \<or> snd (e i) = w")
    case True
    then have "(\<exists>i < Suc n. takes (e i) \<and> (\<forall>j < i. snd (e j) \<noteq> w)) \<longleftrightarrow> (\<exists>i < n. takes (e i) \<and> (\<forall>j < i. snd (e j) \<noteq> w))"
      by (metis less_Suc_eq less_trans not_less_iff_gr_or_eq takes_def)
    then show ?thesis using Suc True by (auto simp: less_Suc_eq split: if_splits)
  next
    case False
    then obtain m where m: "spin_run e n (Hwt_Limit limit w) = Hwt_Limit m w" "unat m + n = unat limit"
      using Suc.IH [OF Suc_leD [OF Suc.prems]] unfolding if_not_P [OF False] by blast
    then have "m \<noteq> 0" "0 < m" using Suc.prems by (auto simp: word_gt_0)
    with m unat_pred [of m] Suc.prems False show ?thesis by (auto simp: spin_ops takes_def less_Suc_eq)
  qed
qed simp

section \<open>Properties\<close>

text \<open>
  C19. Mutual exclusion of the spin lock and its bounded variants: in every reachable state the lock is locked exactly when
  some thread is inside it, and then only one is. In particular an operation that gives up does not leave the lock locked,
  and one that returns true has it.
\<close>

theorem spinlock_mutual_exclusion:
  assumes "reach spin_start spin_step s"
  shows "if spinlock_is_locked (fst s) then \<exists>t. {u. snd s u = Inside} = {t} else {u. snd s u = Inside} = {}"
proof -
  have "spin_inv s"
    using assms spin_start_inv spin_step_inv by (rule reach_invariant)
  then show ?thesis by (simp add: spin_inv_def)
qed

theorem spinlock_mutual_exclusion_witness:
  "reach spin_start spin_step (1, (\<lambda>_. Outside)(3 := Inside)) \<and> (\<exists>t. {u. ((\<lambda>_. Outside)(3 := Inside)) u = Inside} = {t})"
proof -
  let ?o = "\<lambda>_. Outside"
  have "reach spin_start spin_step (spinlock_init, ?o)" by (rule reach.start) (simp add: spin_start_def)
  from reach.step [OF this spin_step.call_limit [of _ 3 _ 2]]
  have "reach spin_start spin_step (spinlock_init, ?o(3 := Limit 2))" by (simp add: limit_call_def)
  from reach.step [OF this spin_step.access [of False _ 3 _ Inside 1]]
  have r: "reach spin_start spin_step (1, ?o(3 := Inside))"
    by (simp add: spin_ops spinlock_init_def SPINLOCK_LOCKED_VALUE_def)
  with spinlock_mutual_exclusion [OF this] show ?thesis
    by (simp add: spinlock_is_locked_def SPINLOCK_UNLOCKED_VALUE_def)
qed

text \<open>
  C20. The variants with a limit, which is not zero, return whatever the other threads do, and try \<open>limit\<close> times: \<open>limit_spinlock_lock\<close>
  returns true if and only if one of its first \<open>limit\<close> attempts could take the lock, and \<open>hwt_limit_spinlock_lock\<close> if and only if
  one of them could before the lock was seen with the caller's own value. Otherwise they return false, even if the lock is free
  after the last attempt.
\<close>

theorem limit_spinlock_returns:
  assumes "limit \<noteq> 0"
  shows "spin_run e (Suc (unat limit)) (limit_call limit) = (if \<exists>i < unat limit. takes (e i) then Inside else Outside) \<and>
    spin_run e (Suc (unat limit)) (hwt_limit_call limit locked_val) =
      (if \<exists>i < unat limit. takes (e i) \<and> (\<forall>j < i. snd (e j) \<noteq> locked_val) then Inside else Outside)"
proof -
  have "limit_call limit = Limit limit" "hwt_limit_call limit locked_val = Hwt_Limit limit locked_val" using assms by (simp_all add: limit_call_def hwt_limit_call_def)
  then show ?thesis
    using limit_run [of "unat limit" limit e] hwt_limit_run [of "unat limit" limit e locked_val]
    by (auto simp: unat_eq_zero spin_ops split: if_splits)
qed

theorem limit_spinlock_returns_witness:
  "spin_run (\<lambda>i. (i = 0, - 1)) 3 (limit_call 2) = Inside \<and> spin_run (\<lambda>i. (False, if i < 2 then 1 else - 1)) 3 (limit_call 2) = Outside \<and>
   spin_run (\<lambda>i. (False, if i < 1 then 7 else - 1)) 3 (hwt_limit_call 2 7) = Outside"
proof -
  have n: "unat (2 :: u64) = 2" "Suc 2 = 3" by simp_all
  have "(\<exists>i < (2 :: nat). P i) \<longleftrightarrow> P 0 \<or> P 1" for P by (auto simp: less_2_cases_iff)
  then show ?thesis
    using limit_spinlock_returns [of 2 "\<lambda>i. (i = 0, - 1)"] limit_spinlock_returns [of 2 "\<lambda>i. (False, if i < 2 then 1 else - 1)"]
      limit_spinlock_returns [of 2 "\<lambda>i. (False, if i < 1 then 7 else - 1)" 7]
    unfolding n by (simp add: takes_def SPINLOCK_UNLOCKED_VALUE_def)
qed

end
