(* ===== verification/Fnb_Scan.thy ===== *)
theory Fnb_Scan
  imports Prelude "HOL-Library.Monad_Syntax"
begin

text \<open>
  The scan of the sections of an executable for the addresses of functions (\<open>src/hpcrun/fnbounds/scan.c\<close>, with \<open>fnb_add_function\<close>
  of \<open>src/hpcrun/fnbounds/fnbounds.c\<close>, through which every address is collected).

  A section is the list of its bytes, loaded at an address that only decides which reads are aligned, and a pointer into it is an
  offset. A read beyond the end, and a shift that C leaves undefined, is \<open>None\<close>. The file is what \<open>libelf\<close> tells about it, the record
  \<open>Elf\<close>: the result of each call that the scans make, a failure being \<open>None\<close>. The host is little-endian, as the section is.
  Offsets are natural numbers: they are bounded by the size of a section and the length of one record, which is below \<open>2 ^ 32\<close>.
\<close>

section \<open>The list of functions\<close>

record funclist =
  fl_entries :: "u64 list option"
  fl_num_entries :: u64
  fl_max_entries :: u64
  fl_is_relocatable :: bool
  fl_reference_offset :: u64

definition fnb_add_function :: "u64 \<Rightarrow> funclist \<Rightarrow> funclist option" where
  "fnb_add_function faddr resp = do {
     entries \<leftarrow> fl_entries resp;
     if unat (fl_num_entries resp) < length entries
     then (let entries = entries[unat (fl_num_entries resp) := faddr];
               resp = resp\<lparr> fl_entries := Some entries, fl_num_entries := fl_num_entries resp + 1 \<rparr>
           in if fl_num_entries resp \<ge> fl_max_entries resp
              then (let n = 2 * fl_max_entries resp
                    in Some (resp\<lparr> fl_max_entries := n,
                         fl_entries := Some (take (unat (fl_num_entries resp)) entries @ replicate (unat n - unat (fl_num_entries resp)) 0) \<rparr>))
              else Some resp)
     else None }"

section \<open>What libelf tells about a file\<close>

record GElf_Shdr =
  sh_name :: u32
  sh_type :: u32
  sh_flags :: u64
  sh_addr :: u64
  sh_offset :: u64
  sh_size :: u64
  sh_link :: u32
  sh_entsize :: u64

record GElf_Sym =
  st_name :: u32
  st_info :: byte
  st_value :: u64

record GElf_Phdr =
  p_type :: u32
  p_flags :: u32
  p_vaddr :: u64

record GElf_Ehdr =
  e_magic :: "byte list"
  e_class :: byte
  e_type :: u16

record Elf_Data =
  d_buf :: "byte list option"
  d_size :: nat
  d_address :: u64

record Elf =
  gelf_getehdr :: "GElf_Ehdr option"
  elf_getphdrnum :: "nat option"
  gelf_getphdr :: "nat \<Rightarrow> GElf_Phdr option"
  elf_getshdrnum :: "nat option"
  elf_getshdrstrndx :: "nat option"
  elf_nextscn :: "nat option \<Rightarrow> nat option"
  gelf_getshdr :: "nat \<Rightarrow> GElf_Shdr option"
  elf_strptr :: "nat \<Rightarrow> u32 \<Rightarrow> string option"
  gelf_offscn :: "u64 \<Rightarrow> nat option"
  elf_getdata :: "nat \<Rightarrow> Elf_Data option"
  gelf_getsym :: "nat \<Rightarrow> nat \<Rightarrow> GElf_Sym option"

definition fnb_doSectionScan :: "Elf \<Rightarrow> GElf_Shdr \<Rightarrow> bool" where
  "fnb_doSectionScan e secHead = (case elf_getshdrstrndx e of None \<Rightarrow> False
     | Some i \<Rightarrow> elf_strptr e i (sh_name secHead) \<noteq> None)"

section \<open>Decoding\<close>

definition EHF_ULEB128_ERROR :: u64 where "EHF_ULEB128_ERROR = 0xffffffffffffffff"
definition EHF_SLEB128_ERROR :: u64 where "EHF_SLEB128_ERROR = - 1"
definition EHF_DECDWRF_ERROR :: u64 where "EHF_DECDWRF_ERROR = 0xffffffffffffffff"

definition byte_at :: "byte list \<Rightarrow> nat \<Rightarrow> byte option" where
  "byte_at d off = (if off < length d then Some (d ! off) else None)"

definition bytes_from :: "byte list \<Rightarrow> nat \<Rightarrow> nat \<Rightarrow> byte list option" where
  "bytes_from d off n = (if off + n \<le> length d then Some (take n (drop off d)) else None)"

text \<open>\<open>(byte & 0x7f) << shift\<close> is computed in an \<open>int\<close> before it is widened.\<close>

definition shl_int :: "byte \<Rightarrow> nat \<Rightarrow> u64 option" where
  "shl_int b shift = (let v = push_bit shift (ucast (b AND 0x7f)) in if shift < 32 \<and> v < 0x80000000 then Some v else None)"

function uleb_loop :: "byte list \<Rightarrow> nat \<Rightarrow> u64 \<Rightarrow> nat \<Rightarrow> nat \<Rightarrow> (u64 \<times> nat \<times> nat) option" where
  "uleb_loop d input result shift ladv =
    (if shift < 63
     then do {
       b \<leftarrow> byte_at d input;
       x \<leftarrow> shl_int b shift;
       if b AND 0x80 = 0 then Some (result OR x, shift, Suc ladv)
       else uleb_loop d (Suc input) (result OR x) (shift + 7) (Suc ladv) }
     else Some (result, shift, ladv))"
  by pat_completeness auto
termination
  by (relation "measure (\<lambda>(d, input, result, shift, ladv). 63 - shift)") auto

declare uleb_loop.simps [simp del]

definition decodeULEB128 :: "byte list \<Rightarrow> nat \<Rightarrow> (u64 \<times> nat) option" where
  "decodeULEB128 d input = map_option (\<lambda>(result, shift, ladv). if shift > 63 then (EHF_ULEB128_ERROR, 0) else (result, ladv))
     (uleb_loop d input 0 0 0)"

function sleb_loop :: "byte list \<Rightarrow> nat \<Rightarrow> u64 \<Rightarrow> nat \<Rightarrow> nat \<Rightarrow> (u64 \<times> nat \<times> nat \<times> byte) option" where
  "sleb_loop d input result shift ladv = do {
     b \<leftarrow> byte_at d input;
     x \<leftarrow> shl_int b shift;
     if b AND 0x80 \<noteq> 0 then sleb_loop d (Suc input) (result OR x) (shift + 7) (Suc ladv)
     else Some (result OR x, shift + 7, Suc ladv, b) }"
  by pat_completeness auto
termination
  by (relation "measure (\<lambda>(d, input, _). length d - input)") (auto simp: byte_at_def split: if_splits)

declare sleb_loop.simps [simp del]

definition decodeSLEB128 :: "byte list \<Rightarrow> nat \<Rightarrow> (u64 \<times> nat) option" where
  "decodeSLEB128 d input = map_option (\<lambda>(result, shift, ladv, b).
       let result = (if shift < 64 \<and> b AND 0x40 \<noteq> 0 then result OR push_bit shift (- 1) else result)
       in if shift \<ge> 64 then (EHF_SLEB128_ERROR, 0) else (result, ladv))
     (sleb_loop d input 0 0 0)"

definition unalignedEndianRead :: "byte list \<Rightarrow> u64 \<Rightarrow> nat \<Rightarrow> nat \<Rightarrow> bool \<Rightarrow> u64 option" where
  "unalignedEndianRead d addr stream n sx =
    (let aligned = ((addr + of_nat stream) AND (of_nat n - 1) = 0)
     in if aligned \<and> n = 2
        then map_option (\<lambda>b. if sx then scast (le_val b :: u16) else ucast (le_val b :: u16)) (bytes_from d stream 2)
        else if aligned \<and> n = 4
        then map_option (\<lambda>b. if sx then scast (le_val b :: u32) else ucast (le_val b :: u32)) (bytes_from d stream 4)
        else if aligned \<and> n = 8
        then map_option le_val (bytes_from d stream 8)
        else map_option (\<lambda>b. le_val (b @ replicate (8 - n) (if sx \<and> b ! (n - 1) AND 0x80 \<noteq> 0 then 0xff else 0)))
          (bytes_from d stream n))"

record ehDecodeRecord_t =
  ehSecAddr :: u64
  textSecAddr :: u64
  dataSecAddr :: u64
  totalOffset :: u64
  fdeEnc :: byte

definition DW_EH_PE_absptr :: byte where "DW_EH_PE_absptr = 0x00"
definition DW_EH_PE_uleb128 :: byte where "DW_EH_PE_uleb128 = 0x01"
definition DW_EH_PE_udata2 :: byte where "DW_EH_PE_udata2 = 0x02"
definition DW_EH_PE_udata4 :: byte where "DW_EH_PE_udata4 = 0x03"
definition DW_EH_PE_udata8 :: byte where "DW_EH_PE_udata8 = 0x04"
definition DW_EH_PE_sleb128 :: byte where "DW_EH_PE_sleb128 = 0x09"
definition DW_EH_PE_sdata2 :: byte where "DW_EH_PE_sdata2 = 0x0a"
definition DW_EH_PE_sdata4 :: byte where "DW_EH_PE_sdata4 = 0x0b"
definition DW_EH_PE_sdata8 :: byte where "DW_EH_PE_sdata8 = 0x0c"
definition DW_EH_PE_pcrel :: byte where "DW_EH_PE_pcrel = 0x10"
definition DW_EH_PE_textrel :: byte where "DW_EH_PE_textrel = 0x20"
definition DW_EH_PE_datarel :: byte where "DW_EH_PE_datarel = 0x30"
definition DW_EH_PE_indirect :: byte where "DW_EH_PE_indirect = 0x80"
definition DW_EH_PE_indpcrel :: byte where "DW_EH_PE_indpcrel = DW_EH_PE_indirect OR DW_EH_PE_pcrel"
definition DW_EH_PE_omit :: byte where "DW_EH_PE_omit = 0xff"

lemmas DW_EH_PE_defs = DW_EH_PE_absptr_def DW_EH_PE_uleb128_def DW_EH_PE_udata2_def DW_EH_PE_udata4_def DW_EH_PE_udata8_def
  DW_EH_PE_sleb128_def DW_EH_PE_sdata2_def DW_EH_PE_sdata4_def DW_EH_PE_sdata8_def DW_EH_PE_pcrel_def DW_EH_PE_textrel_def
  DW_EH_PE_datarel_def DW_EH_PE_indirect_def DW_EH_PE_indpcrel_def DW_EH_PE_omit_def

text \<open>
  The cases of the two switches in the order of the source. A case without a break runs into the next one: an absolute address gets
  the base of a relative one, a signed 2-byte value is read once more as 4 bytes, and a signed 8-byte value ends as an error.
\<close>

definition dwarf_base :: "ehDecodeRecord_t \<Rightarrow> byte \<Rightarrow> u64 option" where
  "dwarf_base r opType =
    (if opType = DW_EH_PE_absptr \<or> opType = DW_EH_PE_pcrel \<or> opType = DW_EH_PE_indirect \<or> opType = DW_EH_PE_indpcrel
     then Some (ehSecAddr r + totalOffset r)
     else if opType = DW_EH_PE_textrel then Some (textSecAddr r)
     else if opType = DW_EH_PE_datarel then Some (dataSecAddr r)
     else None)"

definition decodeDwarfAddress :: "byte list \<Rightarrow> u64 \<Rightarrow> nat \<Rightarrow> ehDecodeRecord_t \<Rightarrow> nat \<Rightarrow> (u64 \<times> nat) option" where
  "decodeDwarfAddress d addr streamPtr decodeRecord adv =
    (let decodeType = fdeEnc decodeRecord AND 0x0f;
         opType = fdeEnc decodeRecord AND 0xf0;
         rd = unalignedEndianRead d addr streamPtr
     in if opType = DW_EH_PE_omit \<or> decodeType = DW_EH_PE_omit then Some (EHF_DECDWRF_ERROR, adv)
        else case dwarf_base decodeRecord opType of
          None \<Rightarrow> Some (EHF_DECDWRF_ERROR, 0)
        | Some base \<Rightarrow>
            if decodeType = DW_EH_PE_absptr then map_option (\<lambda>v. (base + v, 8)) (rd 8 False)
            else if decodeType = DW_EH_PE_uleb128 then map_option (\<lambda>(v, l). (base + v, l)) (decodeULEB128 d streamPtr)
            else if decodeType = DW_EH_PE_udata2 then map_option (\<lambda>v. (base + v, 2)) (rd 2 False)
            else if decodeType = DW_EH_PE_udata4 then map_option (\<lambda>v. (base + v, 4)) (rd 4 False)
            else if decodeType = DW_EH_PE_udata8 then map_option (\<lambda>v. (base + v, 8)) (rd 8 False)
            else if decodeType = DW_EH_PE_sleb128 then map_option (\<lambda>(v, l). (base + v, l)) (decodeSLEB128 d streamPtr)
            else if decodeType = DW_EH_PE_sdata2
              then do { _ \<leftarrow> rd 2 True; v \<leftarrow> rd 4 True; Some (base + v, 2 + 4) }
            else if decodeType = DW_EH_PE_sdata4 then map_option (\<lambda>v. (base + v, 4)) (rd 4 True)
            else if decodeType = DW_EH_PE_sdata8 then do { _ \<leftarrow> rd 8 True; Some (EHF_DECDWRF_ERROR, 0) }
            else Some (EHF_DECDWRF_ERROR, 0))"

section \<open>Sections with instructions\<close>

partial_function (option) plt_loop :: "u64 \<Rightarrow> u64 \<Rightarrow> u64 \<Rightarrow> funclist \<Rightarrow> funclist option" where
  "plt_loop ii endAddr pltEntrySize resp =
    (if ii < endAddr
     then (case fnb_add_function ii resp of None \<Rightarrow> None
           | Some resp \<Rightarrow> plt_loop (ii + pltEntrySize) endAddr pltEntrySize resp)
     else Some resp)"

declare plt_loop.simps [code]

definition fnb_pltscan :: "Elf \<Rightarrow> GElf_Shdr \<Rightarrow> funclist \<Rightarrow> (bool \<times> funclist) option" where
  "fnb_pltscan e secHead resp =
    (if \<not> fnb_doSectionScan e secHead then Some (False, resp)
     else (let startAddr = sh_addr secHead;
               endAddr = startAddr + sh_size secHead;
               pltEntrySize = sh_entsize secHead
           in if pltEntrySize = 0 then Some (True, resp)
              else map_option (Pair True) (plt_loop (startAddr + pltEntrySize) endAddr pltEntrySize resp)))"

definition fnb_pltsecscan :: "Elf \<Rightarrow> GElf_Shdr \<Rightarrow> funclist \<Rightarrow> (bool \<times> funclist) option" where
  "fnb_pltsecscan e secHead resp =
    (if \<not> fnb_doSectionScan e secHead then Some (False, resp)
     else (let startAddr = sh_addr secHead;
               endAddr = startAddr + sh_size secHead;
               pltEntrySize = sh_entsize secHead
           in if pltEntrySize = 0 then Some (True, resp)
              else map_option (Pair True) (plt_loop (startAddr + pltEntrySize) endAddr pltEntrySize resp)))"

definition fnb_initscan :: "Elf \<Rightarrow> GElf_Shdr \<Rightarrow> funclist \<Rightarrow> bool \<times> funclist" where
  "fnb_initscan e secHead resp = (if \<not> fnb_doSectionScan e secHead then (False, resp) else (False, resp))"

definition fnb_textscan :: "Elf \<Rightarrow> GElf_Shdr \<Rightarrow> funclist \<Rightarrow> bool \<times> funclist" where
  "fnb_textscan e secHead resp = (if \<not> fnb_doSectionScan e secHead then (False, resp) else (False, resp))"

definition fnb_finiscan :: "Elf \<Rightarrow> GElf_Shdr \<Rightarrow> funclist \<Rightarrow> bool \<times> funclist" where
  "fnb_finiscan e secHead resp = (if \<not> fnb_doSectionScan e secHead then (False, resp) else (False, resp))"

definition fnb_altinstr_replacementscan :: "Elf \<Rightarrow> GElf_Shdr \<Rightarrow> funclist \<Rightarrow> bool \<times> funclist" where
  "fnb_altinstr_replacementscan e secHead resp = (if \<not> fnb_doSectionScan e secHead then (False, resp) else (False, resp))"

section \<open>The frame section\<close>

record ehFDEAddrType_t =
  enc_R :: byte
  enc_P :: byte
  enc_L :: byte

record ehCIERecord_t =
  cieBaseAddress :: u64
  cieSize :: u64
  cieAugDataOffset :: u64
  cieAugData :: nat
  cieAddressOffset :: u64
  cieContainsType :: ehFDEAddrType_t
  cieFDEEncType :: ehFDEAddrType_t

record ehRecord_t =
  ehHdrSection :: "nat option"
  ehFrameSection :: "nat option"
  textSection :: "nat option"
  dataSection :: "nat option"

definition EHF_CIE_TRUE :: byte where "EHF_CIE_TRUE = 1"
definition EHF_CIE_FALSE :: byte where "EHF_CIE_FALSE = 0"
definition EHF_FORWARD_OFF :: u64 where "EHF_FORWARD_OFF = 1"

definition word_at :: "byte list \<Rightarrow> nat \<Rightarrow> u32 option" where
  "word_at d off = map_option le_val (bytes_from d off 4)"

definition aug_string :: "byte list \<Rightarrow> nat \<Rightarrow> byte list option" where
  "aug_string d off = (if 0 \<in> set (drop off d) then Some (takeWhile (\<lambda>b. b \<noteq> 0) (drop off d)) else None)"

text \<open>
  The bytes of the augmentation data, one character of the augmentation string after the other. The result says whether the record
  is complete; when it is not, the scan goes to the next record.
\<close>

fun cie_augmentation :: "byte list \<Rightarrow> u64 \<Rightarrow> ehDecodeRecord_t \<Rightarrow> nat \<Rightarrow> byte list \<Rightarrow> nat \<Rightarrow> ehCIERecord_t \<Rightarrow>
    (bool \<times> ehCIERecord_t) option" where
  "cie_augmentation d addr dr pb [] cieOffset c = Some (True, c)"
| "cie_augmentation d addr dr pb (b # bs) cieOffset c =
    (if b = 0x50
     then do {
       enc \<leftarrow> byte_at d (pb + cieOffset);
       let cieOffset = Suc cieOffset;
       let c = c\<lparr> cieContainsType := (cieContainsType c)\<lparr> enc_P := EHF_CIE_TRUE \<rparr>,
                  cieFDEEncType := (cieFDEEncType c)\<lparr> enc_P := enc \<rparr>,
                  cieAugDataOffset := of_nat (pb + cieOffset), cieAugData := pb + cieOffset \<rparr>;
       (v, a) \<leftarrow> decodeDwarfAddress d addr (pb + cieOffset) (dr\<lparr> totalOffset := of_nat (pb + cieOffset), fdeEnc := enc \<rparr>) 0;
       if v = EHF_DECDWRF_ERROR then Some (False, c)
       else cie_augmentation d addr dr pb bs (cieOffset + a) c }
     else if b = 0x4c
     then do {
       enc \<leftarrow> byte_at d (pb + cieOffset);
       cie_augmentation d addr dr pb bs (Suc cieOffset)
         (c\<lparr> cieContainsType := (cieContainsType c)\<lparr> enc_L := EHF_CIE_TRUE \<rparr>, cieFDEEncType := (cieFDEEncType c)\<lparr> enc_L := enc \<rparr> \<rparr>) }
     else if b = 0x52
     then do {
       enc \<leftarrow> byte_at d (pb + cieOffset);
       cie_augmentation d addr dr pb bs (Suc cieOffset)
         (c\<lparr> cieContainsType := (cieContainsType c)\<lparr> enc_R := EHF_CIE_TRUE \<rparr>, cieFDEEncType := (cieFDEEncType c)\<lparr> enc_R := enc \<rparr> \<rparr>) }
     else if b = 0x53
     then cie_augmentation d addr dr pb bs cieOffset (c\<lparr> cieAddressOffset := EHF_FORWARD_OFF \<rparr>)
     else Some (False, c\<lparr> cieSize := 0 \<rparr>))"

definition scan_cie :: "byte list \<Rightarrow> u64 \<Rightarrow> ehDecodeRecord_t \<Rightarrow> nat \<Rightarrow> u32 \<Rightarrow> ehCIERecord_t \<Rightarrow> (bool \<times> ehCIERecord_t) option" where
  "scan_cie d addr dr pb recLen c =
    (let c = c\<lparr> cieBaseAddress := of_nat pb, cieSize := ucast recLen + 4 \<rparr>; skip = Some (False, c\<lparr> cieSize := 0 \<rparr>)
     in do {
       cieVersion \<leftarrow> byte_at d (pb + 8);
       aug0 \<leftarrow> byte_at d (pb + 9);
       if aug0 \<noteq> 0x7a then skip
       else do {
         augString \<leftarrow> aug_string d (pb + 9);
         let cieOffset = 9 + length augString + 1;
         (codeAlign, a) \<leftarrow> decodeULEB128 d (pb + cieOffset);
         if codeAlign = EHF_ULEB128_ERROR then skip
         else do {
           let cieOffset = cieOffset + a;
           (dataAlign, a) \<leftarrow> decodeSLEB128 d (pb + cieOffset);
           if dataAlign = EHF_SLEB128_ERROR then skip
           else do {
             let cieOffset = cieOffset + a;
             ver \<leftarrow> (if cieVersion = 1 then Some (Some (Suc cieOffset))
                else if cieVersion = 3
                then map_option (\<lambda>(value, a). if value = EHF_ULEB128_ERROR then None else Some (cieOffset + a)) (decodeULEB128 d (pb + cieOffset))
                else Some None);
             case ver of None \<Rightarrow> skip
             | Some cieOffset \<Rightarrow> do {
                 (augDataLen, a) \<leftarrow> decodeULEB128 d (pb + cieOffset);
                 if augDataLen = EHF_ULEB128_ERROR then skip
                 else cie_augmentation d addr dr pb (tl augString) (cieOffset + a)
                   (c\<lparr> cieContainsType := \<lparr> enc_R = EHF_CIE_FALSE, enc_P = EHF_CIE_FALSE, enc_L = EHF_CIE_FALSE \<rparr>, cieAddressOffset := 0 \<rparr>) } } } } })"

text \<open>A frame description: the result says whether the scan goes on.\<close>

definition scan_fde :: "byte list \<Rightarrow> u64 \<Rightarrow> ehDecodeRecord_t \<Rightarrow> nat \<Rightarrow> u32 \<Rightarrow> nat \<Rightarrow> (nat \<Rightarrow> ehCIERecord_t) \<Rightarrow> funclist \<Rightarrow>
    (bool \<times> funclist) option" where
  "scan_fde d addr dr pb recType kc cieTable resp =
    (case List.find (\<lambda>kk. cieBaseAddress (cieTable kk) = of_nat pb + 4 - ucast recType) [0..<kc] of
       None \<Rightarrow> Some (False, resp)
     | Some curCIE \<Rightarrow>
        (let fdeRefCIE = cieTable curCIE; fdeOffset = 8
         in if cieSize fdeRefCIE = 0 then Some (True, resp)
            else do {
              resp \<leftarrow> (if enc_P (cieContainsType fdeRefCIE) = EHF_CIE_TRUE
                 then do {
                   (v, a) \<leftarrow> decodeDwarfAddress d addr (cieAugData fdeRefCIE)
                     (dr\<lparr> totalOffset := cieAugDataOffset fdeRefCIE, fdeEnc := enc_P (cieFDEEncType fdeRefCIE) \<rparr>) 0;
                   if v \<noteq> EHF_DECDWRF_ERROR then fnb_add_function v resp else Some resp }
                 else Some resp);
              (go, fdeOffset, resp) \<leftarrow> (if enc_R (cieContainsType fdeRefCIE) = EHF_CIE_TRUE
                 then do {
                   (v, a) \<leftarrow> decodeDwarfAddress d addr (pb + fdeOffset)
                     (dr\<lparr> totalOffset := of_nat (pb + fdeOffset), fdeEnc := enc_R (cieFDEEncType fdeRefCIE) \<rparr>) 0;
                   if v \<noteq> EHF_DECDWRF_ERROR
                   then do {
                     resp \<leftarrow> fnb_add_function (v + cieAddressOffset fdeRefCIE) resp;
                     let fdeOffset = fdeOffset + a;
                     (r, a) \<leftarrow> decodeDwarfAddress d addr (pb + fdeOffset)
                       (dr\<lparr> totalOffset := of_nat (pb + fdeOffset), fdeEnc := enc_R (cieFDEEncType fdeRefCIE) \<rparr>) a;
                     Some (r \<noteq> EHF_DECDWRF_ERROR, fdeOffset + a, resp) }
                   else Some (False, fdeOffset, resp) }
                 else Some (True, fdeOffset, resp));
              if go \<and> enc_L (cieContainsType fdeRefCIE) = EHF_CIE_TRUE
              then do {
                (augDataLen, a) \<leftarrow> decodeULEB128 d (pb + fdeOffset);
                if augDataLen = EHF_ULEB128_ERROR \<or> enc_L (cieFDEEncType fdeRefCIE) = DW_EH_PE_omit then Some (True, resp)
                else do {
                  let fdeOffset = fdeOffset + a;
                  (v, a) \<leftarrow> decodeDwarfAddress d addr (pb + fdeOffset)
                    (dr\<lparr> totalOffset := of_nat (pb + fdeOffset), fdeEnc := enc_L (cieFDEEncType fdeRefCIE) \<rparr>) a;
                  if v \<noteq> EHF_DECDWRF_ERROR then map_option (Pair True) (fnb_add_function v resp) else Some (True, resp) } }
              else Some (True, resp) }))"

function scan_records :: "byte list \<Rightarrow> u64 \<Rightarrow> ehDecodeRecord_t \<Rightarrow> nat \<Rightarrow> nat \<Rightarrow> nat \<Rightarrow> (nat \<Rightarrow> ehCIERecord_t) \<Rightarrow> funclist \<Rightarrow>
    (bool \<times> funclist) option" where
  "scan_records d addr dr dataSize pb kc cieTable resp =
    (case word_at d pb of None \<Rightarrow> None
     | Some recLen \<Rightarrow>
        if recLen = 0xffffffff then Some (False, resp)
        else if recLen = 0 then Some (True, resp)
        else
          (case word_at d (pb + 4) of None \<Rightarrow> None
           | Some recType \<Rightarrow>
              (case (if recType = 0
                     then map_option (\<lambda>(complete, c). (True, if complete then Suc kc else kc, cieTable(kc := c), resp))
                       (scan_cie d addr dr pb recLen (cieTable kc))
                     else map_option (\<lambda>(go, resp). (go, kc, cieTable, resp)) (scan_fde d addr dr pb recType kc cieTable resp)) of
                 None \<Rightarrow> None
               | Some (go, kc, cieTable, resp) \<Rightarrow>
                  if \<not> go then Some (False, resp)
                  else (let pb = pb + (unat recLen + 4)
                        in if pb \<ge> dataSize then Some (True, resp) else scan_records d addr dr dataSize pb kc cieTable resp))))"
  by pat_completeness auto
termination
  by (relation "measure (\<lambda>(d, addr, dr, dataSize, pb, _). dataSize - pb)") auto

declare scan_records.simps [simp del]

definition section_address :: "Elf \<Rightarrow> nat option \<Rightarrow> u64 option" where
  "section_address e sec = (case sec of None \<Rightarrow> Some 0 | Some s \<Rightarrow> map_option sh_addr (gelf_getshdr e s))"

definition fnb_ehframescan :: "(nat \<Rightarrow> ehCIERecord_t) \<Rightarrow> Elf \<Rightarrow> ehRecord_t \<Rightarrow> funclist \<Rightarrow> (bool \<times> funclist) option" where
  "fnb_ehframescan junk e ehRecord resp = (case ehFrameSection ehRecord of None \<Rightarrow> Some (False, resp)
     | Some frame \<Rightarrow>
        (case gelf_getshdr e frame of None \<Rightarrow> Some (False, resp)
         | Some ehSecHead \<Rightarrow>
            if \<not> fnb_doSectionScan e ehSecHead then Some (False, resp)
            else (case (section_address e (textSection ehRecord), section_address e (dataSection ehRecord), elf_getdata e frame) of
                (Some text, Some dat, Some data) \<Rightarrow>
                  (case d_buf data of None \<Rightarrow> Some (False, resp)
                   | Some d \<Rightarrow>
                      if d_size data = 0 then Some (False, resp)
                      else scan_records d (d_address data)
                        \<lparr> ehSecAddr = sh_addr ehSecHead, textSecAddr = text, dataSecAddr = dat, totalOffset = 0, fdeEnc = 0 \<rparr>
                        (d_size data) 0 0 junk resp)
              | _ \<Rightarrow> Some (False, resp))))"

end
