(* ===== verification/Fnb_Frame.thy ===== *)
theory Fnb_Frame
  imports Fnb_Scan
begin

text \<open>
  What the scan of a frame section finds. The encoders below are a reference for the format: the two variable-length encodings of
  integers, and records with relative 4-byte addresses, as compilers write them. The decoders are shown to invert them, and the scan
  of a whole section to collect the functions that were encoded.
\<close>

section \<open>Bytes at an offset\<close>

definition at_off :: "byte list \<Rightarrow> nat \<Rightarrow> byte list \<Rightarrow> bool" where
  "at_off d off xs \<longleftrightarrow> off + length xs \<le> length d \<and> take (length xs) (drop off d) = xs"

lemma at_off_Nil: "at_off d off [] \<longleftrightarrow> off \<le> length d"
  by (simp add: at_off_def)

lemma at_off_append: "at_off d off (xs @ ys) \<longleftrightarrow> at_off d off xs \<and> at_off d (off + length xs) ys"
  by (auto simp: at_off_def take_add add.commute add.left_commute)

lemma at_off_Cons: "at_off d off (x # xs) \<longleftrightarrow> byte_at d off = Some x \<and> at_off d (Suc off) xs"
  using at_off_append [of d off "[x]" xs]
  by (auto simp: at_off_def byte_at_def take_Suc_conv_app_nth drop_Suc nth_via_drop hd_drop_conv_nth)

lemma at_off_eq: "at_off d i xs \<Longrightarrow> i = j \<Longrightarrow> at_off d j xs"
  by simp

lemma byte_at_eq: "byte_at d i = b \<Longrightarrow> i = j \<Longrightarrow> byte_at d j = b"
  by simp

lemma at_off_bytes: "at_off d off xs \<Longrightarrow> n = length xs \<Longrightarrow> bytes_from d off n = Some xs"
  by (simp add: at_off_def bytes_from_def)

lemma at_off_mid: "off = length pre \<Longrightarrow> at_off (pre @ xs @ post) off xs"
  by (simp add: at_off_def)

section \<open>Fixed-size integers\<close>

lemma bit_le_val:
  "k < LENGTH('a) \<Longrightarrow> bit (le_val bs :: 'a::len word) k \<longleftrightarrow> k < 8 * length bs \<and> bit (bs ! (k div 8)) (k mod 8)"
proof (induction bs arbitrary: k)
  case (Cons b bs)
  show ?case
  proof (cases "k < 8")
    case True
    then show ?thesis using Cons.prems by (auto simp: bit_or_iff bit_push_bit_iff bit_ucast_iff)
  next
    case False
    then have k: "k = 8 + (k - 8)" "k div 8 = Suc ((k - 8) div 8)" "(k - 8) mod 8 = k mod 8"
      using le_div_geq le_mod_geq by auto
    have "\<not> bit b k" using False bit_imp_le_length [of b k] by auto
    then show ?thesis using Cons.IH [of "k - 8"] Cons.prems False k
      by (auto simp: bit_or_iff bit_push_bit_iff bit_ucast_iff)
  qed
qed simp

lemma ucast_le_val:
  assumes "8 * length bs \<le> LENGTH('a::len)"
  shows "ucast (le_val bs :: 'a word) = (le_val bs :: 'b::len word)"
proof (rule bit_word_eqI)
  fix n
  assume "n < LENGTH('b)"
  then show "bit (ucast (le_val bs :: 'a word) :: 'b word) n = bit (le_val bs :: 'b word) n"
    using assms bit_le_val [of n bs, where 'a = 'a] bit_le_val [of n bs, where 'a = 'b] bit_imp_le_length [of "le_val bs :: 'a word" n]
    by (cases "n < LENGTH('a)") (auto simp: bit_ucast_iff)
qed

lemma bit7: "bit b 7 \<longleftrightarrow> b AND 0x80 \<noteq> 0" for b :: byte
  using bit_iff_and_push_bit_not_eq_0 [of b 7] by simp

lemma bit_ff: "n < 8 \<Longrightarrow> bit (0xff :: int) n"
proof -
  have "(0xff :: int) = mask 8" by (simp add: mask_eq_exp_minus_1)
  then show "n < 8 \<Longrightarrow> bit (0xff :: int) n" by (simp only: bit_mask_iff, simp)
qed

lemma scast_le_val:
  assumes "8 * length bs = LENGTH('a::len)" and "bs \<noteq> []" and "LENGTH('b) = 64" and "length bs \<le> 8"
  shows "scast (le_val bs :: 'a word) = (le_val (bs @ replicate (8 - length bs) (if bs ! (length bs - 1) AND 0x80 \<noteq> 0 then 0xff else 0)) :: 'b::len word)"
proof (rule bit_word_eqI)
  fix k
  assume k: "k < LENGTH('b)"
  have l: "length bs > 0" using assms(2) by simp
  have top: "bit (le_val bs :: 'a word) (LENGTH('a) - 1) \<longleftrightarrow> bs ! (length bs - 1) AND 0x80 \<noteq> 0"
  proof -
    obtain m where m: "length bs = Suc m" using l by (cases "length bs") auto
    then have "LENGTH('a) - 1 = 8 * (length bs - 1) + 7" using assms(1) by simp
    then have "(LENGTH('a) - 1) div 8 = length bs - 1" "(LENGTH('a) - 1) mod 8 = 7" by simp_all
    then have "bit (le_val bs :: 'a word) (LENGTH('a) - 1) \<longleftrightarrow> bit (bs ! (length bs - 1)) 7"
      using assms(1) l bit_le_val [of "LENGTH('a) - 1" bs, where 'a = 'a] by simp
    moreover have "bit b 7 \<longleftrightarrow> b AND 0x80 \<noteq> 0" for b :: byte by (rule bit7)
    ultimately show ?thesis by simp
  qed
  show "bit (scast (le_val bs :: 'a word) :: 'b word) k = bit (le_val (bs @ replicate (8 - length bs) (if bs ! (length bs - 1) AND 0x80 \<noteq> 0 then 0xff else 0)) :: 'b word) k"
  proof (cases "k < LENGTH('a)")
    case True
    then show ?thesis using k assms by (auto simp: bit_signed_iff bit_le_val nth_append)
  next
    case False
    then show ?thesis using k assms top by (auto simp: bit_signed_iff bit_le_val nth_append) (simp add: bit_ff)
  qed
qed

text \<open>Whether a read is aligned does not matter.\<close>

lemma read_unsigned:
  assumes "at_off d off bs" and "length bs = 2 \<or> length bs = 4 \<or> length bs = 8"
  shows "unalignedEndianRead d addr off (length bs) False = Some (le_val bs)"
proof -
  note b = at_off_bytes [OF assms(1) refl]
  have z: "(le_val (bs @ replicate n 0) :: u64) = le_val bs" for n
  proof (rule bit_word_eqI)
    fix k
    assume "k < LENGTH(64)"
    then show "bit (le_val (bs @ replicate n 0) :: u64) k = bit (le_val bs :: u64) k"
      by (auto simp: bit_le_val nth_append)
  qed
  show ?thesis
    using assms(2) b z ucast_le_val [of bs, where 'a = 16 and 'b = 64] ucast_le_val [of bs, where 'a = 32 and 'b = 64]
    by (auto simp: unalignedEndianRead_def Let_def)
qed

lemma read_signed:
  assumes "at_off d off bs"
  shows "length bs = 2 \<Longrightarrow> unalignedEndianRead d addr off 2 True = Some (scast (le_val bs :: u16))"
    "length bs = 4 \<Longrightarrow> unalignedEndianRead d addr off 4 True = Some (scast (le_val bs :: u32))"
    "length bs = 8 \<Longrightarrow> unalignedEndianRead d addr off 8 True = Some (le_val bs)"
proof -
  have ne: "length bs = n \<Longrightarrow> n > 0 \<Longrightarrow> bs \<noteq> []" for n by auto
  show "length bs = 2 \<Longrightarrow> unalignedEndianRead d addr off 2 True = Some (scast (le_val bs :: u16))"
    using at_off_bytes [OF assms] ne scast_le_val [of bs, where 'a = 16 and 'b = 64] by (auto simp: unalignedEndianRead_def Let_def)
  show "length bs = 4 \<Longrightarrow> unalignedEndianRead d addr off 4 True = Some (scast (le_val bs :: u32))"
    using at_off_bytes [OF assms] ne scast_le_val [of bs, where 'a = 32 and 'b = 64] by (auto simp: unalignedEndianRead_def Let_def)
  show "length bs = 8 \<Longrightarrow> unalignedEndianRead d addr off 8 True = Some (le_val bs)"
    using at_off_bytes [OF assms] by (auto simp: unalignedEndianRead_def Let_def)
qed

section \<open>Variable-length integers\<close>

fun uleb :: "nat \<Rightarrow> byte list" where
  "uleb v = (if v < 128 then [of_nat v] else of_nat (128 + v mod 128) # uleb (v div 128))"

declare uleb.simps [simp del]

fun sleb :: "int \<Rightarrow> byte list" where
  "sleb v = (if - 64 \<le> v \<and> v < 64 then [of_nat (nat (v mod 128))] else of_nat (128 + nat (v mod 128)) # sleb (v div 128))"


declare sleb.simps [simp del]

text \<open>The value of a group of seven bits at a shift, as the loops add it.\<close>

lemma group_byte:
  assumes "w < 256"
  shows "(of_nat w :: byte) AND 0x7f = of_nat (w mod 128)" "(of_nat w :: byte) AND 0x80 = 0 \<longleftrightarrow> w < 128"
proof -
  have "(0x7f :: byte) = mask 7" by (simp add: mask_eq_exp_minus_1)
  then show "(of_nat w :: byte) AND 0x7f = of_nat (w mod 128)"
    by (simp only: flip: take_bit_eq_mask) (simp add: take_bit_of_nat take_bit_nat_def)
  have "bit (of_nat w :: byte) 7 \<longleftrightarrow> odd (w div 128)"
    by (simp add: bit_of_nat_iff bit_nat_def)
  moreover have "w div 128 = 0 \<or> w div 128 = 1" using assms by auto
  then have "odd (w div 128) \<longleftrightarrow> \<not> w < 128" by (auto simp: div_eq_0_iff)
  ultimately show "(of_nat w :: byte) AND 0x80 = 0 \<longleftrightarrow> w < 128" using bit7 [of "of_nat w"] by blast
qed

lemma shl_int_group:
  assumes "w < 256" and "w mod 128 * 2 ^ shift < 2 ^ 31" and "shift < 32"
  shows "shl_int (of_nat w) shift = Some (of_nat (w mod 128 * 2 ^ shift))"
proof -
  have "ucast (of_nat (w mod 128) :: byte) = (of_nat (w mod 128) :: u64)"
    by (simp add: unsigned_of_nat take_bit_nat_eq_self)
  then have p: "push_bit shift (ucast (of_nat w AND 0x7f :: byte)) = (of_nat (w mod 128 * 2 ^ shift) :: u64)"
    unfolding group_byte(1) [OF assms(1)] by (simp add: push_bit_eq_mult)
  have "of_nat (w mod 128 * 2 ^ shift) < (0x80000000 :: u64)"
  proof -
    have "unat (of_nat (w mod 128 * 2 ^ shift) :: u64) = w mod 128 * 2 ^ shift"
      using assms(2) by (simp add: unsigned_of_nat take_bit_nat_eq_self del: of_nat_mult)
    then show ?thesis using assms(2) by (simp add: word_less_nat_alt)
  qed
  then show ?thesis using assms(3) p by (simp add: shl_int_def Let_def)
qed

lemma or_disjoint:
  assumes "r < 2 ^ shift"
  shows "of_nat r OR of_nat (v * 2 ^ shift) = (of_nat (r + v * 2 ^ shift) :: u64)"
proof -
  have "r OR v * 2 ^ shift = r + v * 2 ^ shift"
  proof (rule disjunctive_add [symmetric])
    fix n
    have "bit r n \<Longrightarrow> n < shift" using assms by (metis bit_take_bit_iff take_bit_nat_eq_self)
    moreover have "bit (v * 2 ^ shift) n \<Longrightarrow> n \<ge> shift" by (simp add: bit_push_bit_iff flip: push_bit_eq_mult)
    ultimately show "\<not> bit r n \<or> \<not> bit (v * 2 ^ shift) n" by auto
  qed
  then show ?thesis by (metis of_nat_or_eq)
qed

lemma uleb_loop_uleb:
  assumes "at_off d off (uleb v)" and "r < 2 ^ shift" and "r + v * 2 ^ shift < 2 ^ 31" and "shift < 32"
  shows "\<exists>s \<le> 63. uleb_loop d off (of_nat r) shift n = Some (of_nat (r + v * 2 ^ shift), s, n + length (uleb v))"
  using assms
proof (induction v arbitrary: off r shift n rule: uleb.induct)
  case (1 v)
  show ?case
  proof (cases "v < 128")
    case True
    then show ?thesis using 1(2-)
      by (simp add: uleb.simps [of v] at_off_Cons uleb_loop.simps group_byte shl_int_group or_disjoint del: of_nat_add of_nat_mult)
  next
    case False
    let ?b = "128 + v mod 128"
    have b: "?b < 256" "?b mod 128 = v mod 128" "\<not> ?b < 128" by simp_all
    have v: "v = v mod 128 + 128 * (v div 128)" by simp
    have "v mod 128 * 2 ^ shift \<le> v * 2 ^ shift" by simp
    then have le: "v mod 128 * 2 ^ shift < 2 ^ 31" using "1.prems"(3) by linarith
    have sum: "(r + v mod 128 * 2 ^ shift) + v div 128 * 2 ^ (shift + 7) = r + v * 2 ^ shift"
    proof -
      have "v * 2 ^ shift = (v mod 128 + 128 * (v div 128)) * 2 ^ shift" using v by simp
      also have "\<dots> = v mod 128 * 2 ^ shift + v div 128 * 2 ^ (shift + 7)" by (simp only: distrib_right power_add) simp
      finally show ?thesis by simp
    qed
    have "128 * 2 ^ shift \<le> v * 2 ^ shift" using False by (intro mult_le_mono1) simp
    moreover have "2 ^ (shift + 7) = 128 * (2 :: nat) ^ shift" by (simp add: power_add)
    ultimately have "2 ^ (shift + 7) < (2 :: nat) ^ 31" using "1.prems"(3) by linarith
    then have sh: "shift + 7 < 32" using nat_power_less_imp_less [of 2 "shift + 7" 31] by simp
    have r: "r + v mod 128 * 2 ^ shift < 2 ^ (shift + 7)" 
    proof -
      have "v mod 128 + 1 \<le> 128" by (simp add: Suc_le_eq)
      then have "(v mod 128 + 1) * 2 ^ shift \<le> 128 * 2 ^ shift" by (rule mult_le_mono1)
      then have "v mod 128 * 2 ^ shift + 2 ^ shift \<le> 128 * 2 ^ shift" by (simp only: distrib_right mult_1)
      moreover have "2 ^ (shift + 7) = 128 * (2 :: nat) ^ shift" by (simp add: power_add)
      ultimately show ?thesis using "1.prems"(2) by linarith
    qed
    have u: "uleb v = of_nat ?b # uleb (v div 128)" using False by (subst uleb.simps) simp
    then have at: "byte_at d off = Some (of_nat ?b)" "at_off d (Suc off) (uleb (v div 128))"
      using "1.prems"(1) by (simp_all add: at_off_Cons)
    obtain s where s: "s \<le> 63" "uleb_loop d (Suc off) (of_nat (r + v mod 128 * 2 ^ shift)) (shift + 7) (Suc n) =
        Some (of_nat (r + v * 2 ^ shift), s, Suc n + length (uleb (v div 128)))"
      using "1.IH" [OF False at(2) r _ sh, of "Suc n"] "1.prems"(3) unfolding sum by blast
    have "uleb_loop d off (of_nat r) shift n = uleb_loop d (Suc off) (of_nat (r + v mod 128 * 2 ^ shift)) (shift + 7) (Suc n)"
      using at(1) "1.prems"(4) le b
      by (subst uleb_loop.simps) (simp add: group_byte shl_int_group or_disjoint [OF "1.prems"(2)] del: of_nat_add of_nat_mult)
    then show ?thesis using s u by auto
  qed
qed

lemma decode_uleb:
  assumes "at_off d off (uleb v)" and "v < 2 ^ 31"
  shows "decodeULEB128 d off = Some (of_nat v, length (uleb v))"
proof -
  obtain s where "s \<le> 63" "uleb_loop d off (of_nat 0) 0 0 = Some (of_nat (0 + v * 2 ^ 0), s, 0 + length (uleb v))"
    using uleb_loop_uleb [OF assms(1), of 0 0 0] assms(2) by auto
  then show ?thesis by (simp add: decodeULEB128_def)
qed

lemma sleb_cases:
  obtains (small) "- 64 \<le> v" "v < 64" "sleb v = [of_nat (nat (v mod 128))]"
  | (big) "\<not> (- 64 \<le> v \<and> v < 64)" "sleb v = of_nat (128 + nat (v mod 128)) # sleb (v div 128)"
  using sleb.simps [of v] by (cases "- 64 \<le> v \<and> v < 64") auto

lemma sleb_range:
  "length (sleb v) > 0 \<and> - (2 ^ (7 * length (sleb v))) \<le> 2 * v \<and> 2 * v < 2 ^ (7 * length (sleb v))"
proof (induction v rule: sleb.induct)
  case (1 v)
  show ?case
  proof (cases rule: sleb_cases [of v])
    case big
    let ?p = "2 ^ (7 * length (sleb (v div 128))) :: int"
    have ih: "length (sleb (v div 128)) > 0" "- ?p \<le> 2 * (v div 128)" "2 * (v div 128) < ?p" using 1 [OF big(1)] by auto
    have "even ?p" using ih(1) by simp
    then obtain h where "?p = 2 * h" by blast
    moreover from this have "v div 128 < h" using ih(3) by linarith
    moreover have "v = v mod 128 + 128 * (v div 128)" "0 \<le> v mod 128" "v mod 128 < 128" by simp_all
    ultimately have "- (128 * ?p) \<le> 2 * v \<and> 2 * v < 128 * ?p" using ih(2) by linarith
    then show ?thesis by (simp add: big(2) power_add)
  qed auto
qed

lemma sleb_length:
  "- (2 ^ (7 * k)) \<le> 2 * v \<Longrightarrow> 2 * v < 2 ^ (7 * k) \<Longrightarrow> k > 0 \<Longrightarrow> length (sleb v) \<le> k"
proof (induction k arbitrary: v)
  case (Suc k)
  show ?case
  proof (cases rule: sleb_cases [of v])
    case big
    have v: "v = v mod 128 + 128 * (v div 128)" "0 \<le> v mod 128" "v mod 128 < 128" by simp_all
    have k: "k > 0" using big(1) Suc.prems by (cases k) auto
    have p: "2 ^ (7 * Suc k) = 128 * (2 ^ (7 * k) :: int)" by (simp add: power_add)
    have "even (2 ^ (7 * k) :: int)" using k by simp
    then obtain h where h: "2 ^ (7 * k) = (2 * h :: int)" by blast
    have "- h \<le> v div 128" "v div 128 < h"
      using Suc.prems(1,2) v unfolding p h by linarith+
    then have "- (2 ^ (7 * k)) \<le> 2 * (v div 128)" "2 * (v div 128) < 2 ^ (7 * k)" unfolding h by linarith+
    then show ?thesis using Suc.IH [of "v div 128"] k big(2) by simp
  qed auto
qed simp

lemma bit6: "bit b 6 \<longleftrightarrow> b AND 0x40 \<noteq> 0" for b :: byte
  using bit_iff_and_push_bit_not_eq_0 [of b 6] by simp

lemma sign_byte: "w < 128 \<Longrightarrow> (of_nat w :: byte) AND 0x40 = 0 \<longleftrightarrow> w < 64"
proof -
  assume "w < 128"
  then have "w div 64 = 0 \<or> w div 64 = 1" by auto
  then have "odd (w div 64) \<longleftrightarrow> \<not> w < 64" by (auto simp: div_eq_0_iff)
  moreover have "bit (of_nat w :: byte) 6 \<longleftrightarrow> odd (w div 64)" by (simp add: bit_of_nat_iff bit_nat_def)
  ultimately show "(of_nat w :: byte) AND 0x40 = 0 \<longleftrightarrow> w < 64" using bit6 [of "of_nat w"] by blast
qed

lemma group_fits: "v < 128 \<Longrightarrow> shift \<le> 21 \<Longrightarrow> v * 2 ^ shift < (2 :: nat) ^ 31"
proof -
  assume "v < 128" "shift \<le> 21"
  then have "v * 2 ^ shift \<le> 127 * 2 ^ 21" by (intro mult_le_mono power_increasing) auto
  then show ?thesis by simp
qed

lemma group_below: "v < 128 \<Longrightarrow> r < 2 ^ shift \<Longrightarrow> r + v * 2 ^ shift < (2 :: nat) ^ (shift + 7)"
proof -
  assume a: "v < 128" "r < 2 ^ shift"
  then have "v + 1 \<le> 128" by simp
  then have "(v + 1) * 2 ^ shift \<le> 128 * (2 :: nat) ^ shift" by (rule mult_le_mono1)
  then have "v * 2 ^ shift + 2 ^ shift \<le> 128 * (2 :: nat) ^ shift" by (simp only: distrib_right mult_1)
  moreover have "2 ^ (shift + 7) = 128 * (2 :: nat) ^ shift" by (simp add: power_add)
  ultimately show ?thesis using a(2) by linarith
qed

lemma sleb_loop_sleb:
  assumes "at_off d off (sleb v)" and "r < 2 ^ shift" and "shift + 7 * length (sleb v) \<le> 28"
  shows "\<exists>b. sleb_loop d off (of_nat r) shift n =
      Some (of_nat (r + nat (v mod 2 ^ (7 * length (sleb v))) * 2 ^ shift), shift + 7 * length (sleb v), n + length (sleb v), b) \<and>
    (b AND 0x40 = 0 \<longleftrightarrow> v \<ge> 0)"
  using assms
proof (induction v arbitrary: off r shift n rule: sleb.induct)
  case (1 v)
  have w: "nat (v mod 128) < 128" by simp
  show ?case
  proof (cases rule: sleb_cases [of v])
    case small
    have sh: "shift \<le> 21" using "1.prems"(3) small(3) by simp
    have "v mod 128 < 64 \<longleftrightarrow> v \<ge> 0" using small(1,2) by presburger
    then have "nat (v mod 128) < 64 \<longleftrightarrow> v \<ge> 0" by (simp add: nat_less_iff)
    then show ?thesis using "1.prems" small(3) w sh group_fits [OF w sh]
      by (subst sleb_loop.simps) (simp add: at_off_Cons group_byte shl_int_group or_disjoint sign_byte del: of_nat_add of_nat_mult of_nat_nat)
  next
    case big
    let ?w = "nat (v mod 128)" and ?L = "length (sleb (v div 128))"
    have sh: "shift \<le> 21" using "1.prems"(3) big(2) by simp
    have at: "byte_at d off = Some (of_nat (128 + ?w))" "at_off d (Suc off) (sleb (v div 128))"
      using "1.prems"(1) unfolding big(2) by (simp_all add: at_off_Cons)
    have m: "128 + ?w < 256" "(128 + ?w) mod 128 = ?w" "\<not> 128 + ?w < 128" using w by simp_all
    have "v mod 2 ^ (7 * Suc ?L) = 128 * (v div 128 mod 2 ^ (7 * ?L)) + v mod 128"
      using zmod_zmult2_eq [of "2 ^ (7 * ?L)" v 128] by (simp add: power_add)
    moreover have "0 \<le> v div 128 mod 2 ^ (7 * ?L)" "0 \<le> v mod 128" by simp_all
    ultimately have sum: "(r + ?w * 2 ^ shift) + nat (v div 128 mod 2 ^ (7 * ?L)) * 2 ^ (shift + 7) = r + nat (v mod 2 ^ (7 * Suc ?L)) * 2 ^ shift"
      by (simp only: nat_add_distrib nat_mult_distrib mult_nonneg_nonneg power_add) (simp add: algebra_simps)
    have "sleb_loop d off (of_nat r) shift n = sleb_loop d (Suc off) (of_nat (r + ?w * 2 ^ shift)) (shift + 7) (Suc n)"
      using at(1) m sh group_fits [OF w sh]
      by (subst sleb_loop.simps) (simp add: group_byte shl_int_group or_disjoint [OF "1.prems"(2)] del: of_nat_add of_nat_mult of_nat_nat)
    moreover have "v div 128 \<ge> 0 \<longleftrightarrow> v \<ge> 0" by (simp add: pos_imp_zdiv_nonneg_iff)
    ultimately show ?thesis using "1.IH" [OF big(1) at(2) group_below [OF w "1.prems"(2)], of "Suc n"] "1.prems"(3)
      unfolding big(2) sum by (simp add: ac_simps)
  qed
qed

lemma sign_extend:
  assumes "- (2 ^ k) \<le> v" and "v < 0"
  shows "of_int (v mod 2 ^ k) OR push_bit k (- 1) = (of_int v :: u64)"
proof -
  have "bit v n" if "n \<ge> k" for n
  proof -
    have "(2 :: int) ^ k \<le> 2 ^ n" using that by simp
    then have "- (2 ^ n) \<le> v" using assms(1) by linarith
    then have "v div 2 ^ n = - 1" using assms(2) by (intro int_div_pos_eq [of _ _ _ "v + 2 ^ n"]) auto
    then show ?thesis by (simp add: bit_int_def)
  qed
  then show ?thesis
    by (intro bit_word_eqI) (auto simp: bit_or_iff bit_push_bit_iff bit_of_int_iff bit_take_bit_iff bit_not_iff bit_mask_iff simp flip: take_bit_eq_mod)
qed

lemma decode_sleb:
  assumes "at_off d off (sleb v)" and "- (2 ^ 27) \<le> v" and "v < 2 ^ 27"
  shows "decodeSLEB128 d off = Some (of_int v, length (sleb v))"
proof -
  have l: "length (sleb v) \<le> 4" using assms(2,3) by (intro sleb_length) auto
  let ?k = "7 * length (sleb v)"
  obtain b where b: "sleb_loop d off (of_nat 0) 0 0 = Some (of_nat (0 + nat (v mod 2 ^ ?k) * 2 ^ 0), 0 + ?k, 0 + length (sleb v), b)"
    "b AND 0x40 = 0 \<longleftrightarrow> v \<ge> 0"
    using sleb_loop_sleb [OF assms(1), of 0 0 0] l by auto
  have o: "of_nat (nat (v mod 2 ^ ?k)) = (of_int (v mod 2 ^ ?k) :: u64)" by simp
  have r: "- (2 ^ ?k) \<le> 2 * v" "2 * v < 2 ^ ?k" using sleb_range [of v] by simp_all
  show ?thesis
  proof (cases "v \<ge> 0")
    case True
    then have "v mod 2 ^ ?k = v" using r by (intro mod_pos_pos_trivial) linarith+
    then show ?thesis using b True l by (simp add: decodeSLEB128_def Let_def)
  next
    case False
    then have "of_int (v mod 2 ^ ?k) OR push_bit ?k (- 1) = (of_int v :: u64)" using r by (intro sign_extend) linarith+
    then show ?thesis using b False l o by (simp add: decodeSLEB128_def Let_def)
  qed
qed

section \<open>Addresses\<close>

text \<open>
  The reference for an encoded address. The high half of an encoding says what the address is relative to: \<open>1\<close> the place of the encoded
  bytes, that is the address of the frame section plus their offset \<open>off\<close> in it; \<open>2\<close> the start of the text section; \<open>3\<close> the start of the
  data section. Its uppermost bit marks an address of a word that holds the address; compilers combine it with the first. An absolute
  address (high half \<open>0\<close>) is left out: the decoder does not read it as one. The low half names the format of the distance; \<open>dwarf_bytes\<close> are
  its bytes and \<open>dwarf_fits\<close> the distances a format can hold, within what the decoders compute.
\<close>

definition encoded_base :: "ehDecodeRecord_t \<Rightarrow> byte \<Rightarrow> u64 \<Rightarrow> u64 option" where
  "encoded_base dr enc off =
    (if enc AND 0xf0 = 0x10 \<or> enc AND 0xf0 = 0x90 then Some (ehSecAddr dr + off)
     else if enc AND 0xf0 = 0x20 then Some (textSecAddr dr)
     else if enc AND 0xf0 = 0x30 then Some (dataSecAddr dr)
     else None)"

lemma dwarf_base_encoded: "encoded_base r enc (totalOffset r) = Some b \<Longrightarrow> dwarf_base r (enc AND 0xf0) = Some b"
  by (auto simp: encoded_base_def dwarf_base_def DW_EH_PE_defs split: if_splits)

definition dwarf_bytes :: "byte \<Rightarrow> u64 \<Rightarrow> byte list" where
  "dwarf_bytes fmt x =
    (if fmt = DW_EH_PE_uleb128 then uleb (unat x)
     else if fmt = DW_EH_PE_sleb128 then sleb (sint x)
     else if fmt = DW_EH_PE_udata2 then le_bytes 2 x
     else if fmt = DW_EH_PE_udata4 \<or> fmt = DW_EH_PE_sdata4 then le_bytes 4 x
     else le_bytes 8 x)"

definition dwarf_fits :: "byte \<Rightarrow> u64 \<Rightarrow> bool" where
  "dwarf_fits fmt x \<longleftrightarrow>
    fmt = DW_EH_PE_absptr \<or> fmt = DW_EH_PE_udata8 \<or>
    fmt = DW_EH_PE_uleb128 \<and> unat x < 2 ^ 31 \<or>
    fmt = DW_EH_PE_sleb128 \<and> - (2 ^ 27) \<le> sint x \<and> sint x < 2 ^ 27 \<or>
    fmt = DW_EH_PE_udata2 \<and> x = ucast (ucast x :: u16) \<or>
    fmt = DW_EH_PE_udata4 \<and> x = ucast (ucast x :: u32) \<or>
    fmt = DW_EH_PE_sdata4 \<and> x = scast (ucast x :: u32)"

lemma le_bytes_nth: "i < n \<Longrightarrow> le_bytes n x ! i = ucast (drop_bit (8 * i) x)"
  by (induction n arbitrary: i x) (auto simp: less_Suc_eq_0_disj drop_bit_drop_bit add.commute)

lemma le_bytes_ucast:
  assumes "8 * n \<le> LENGTH('b::len)"
  shows "le_bytes n (ucast (x :: 'a::len word) :: 'b word) = le_bytes n x"
proof (rule nth_equalityI)
  fix i
  assume "i < length (le_bytes n (ucast x :: 'b word))"
  then have i: "i < n" by simp
  show "le_bytes n (ucast x :: 'b word) ! i = le_bytes n x ! i"
  proof (rule bit_word_eqI)
    fix k
    assume "k < LENGTH(8)"
    then have "8 * i + k < LENGTH('b)" using i assms by simp
    then show "bit (le_bytes n (ucast x :: 'b word) ! i) k = bit (le_bytes n x ! i) k"
      using \<open>k < LENGTH(8)\<close> by (simp add: le_bytes_nth [OF i] bit_ucast_iff bit_drop_bit_eq)
  qed
qed simp

lemma le_val_le_bytes_ucast:
  assumes "8 * n = LENGTH('b::len)"
  shows "(le_val (le_bytes n (x :: 'a::len word)) :: 'b word) = ucast x"
  using le_bytes_ucast [of n x, where 'b = 'b] le_val_le_bytes_all [of n "ucast x :: 'b word"] assms by simp

lemma le_val_u64:
  assumes "8 * n = LENGTH('b::len)" and "n \<le> 8"
  shows "(le_val (le_bytes n (x :: u64)) :: u64) = ucast (ucast x :: 'b word)"
  using ucast_le_val [of "le_bytes n x", where 'a = 'b and 'b = 64] le_val_le_bytes_ucast [of n x, where 'b = 'b] assms by simp

lemma decode_dwarf:
  assumes at: "at_off d off (dwarf_bytes (fdeEnc r AND 0x0f) x)" and fits: "dwarf_fits (fdeEnc r AND 0x0f) x"
    and base: "dwarf_base r (fdeEnc r AND 0xf0) = Some b"
  shows "decodeDwarfAddress d addr off r adv = Some (b + x, length (dwarf_bytes (fdeEnc r AND 0x0f) x))"
proof -
  let ?f = "fdeEnc r AND 0x0f"
  have op: "fdeEnc r AND 0xf0 \<noteq> DW_EH_PE_omit"
    using base by (auto simp: dwarf_base_def DW_EH_PE_defs split: if_splits)
  note un = read_unsigned [OF at, of addr]
  show ?thesis
    using fits unfolding dwarf_fits_def
  proof (elim disjE conjE)
    assume f: "?f = DW_EH_PE_absptr"
    show ?thesis using un op base f by (simp add: decodeDwarfAddress_def dwarf_bytes_def DW_EH_PE_defs)
  next
    assume f: "?f = DW_EH_PE_udata8"
    show ?thesis using un op base f by (simp add: decodeDwarfAddress_def dwarf_bytes_def DW_EH_PE_defs)
  next
    assume f: "?f = DW_EH_PE_uleb128" and v: "unat x < 2 ^ 31"
    show ?thesis using decode_uleb [of d off "unat x"] at v op base f by (simp add: decodeDwarfAddress_def dwarf_bytes_def DW_EH_PE_defs)
  next
    assume f: "?f = DW_EH_PE_sleb128" and v: "- (2 ^ 27) \<le> sint x" "sint x < 2 ^ 27"
    show ?thesis using decode_sleb [of d off "sint x"] at v op base f by (simp add: decodeDwarfAddress_def dwarf_bytes_def DW_EH_PE_defs)
  next
    assume f: "?f = DW_EH_PE_udata2" and v: "x = ucast (ucast x :: u16)"
    show ?thesis using un op base f v le_val_u64 [of 2 x, where 'b = 16] by (simp add: decodeDwarfAddress_def dwarf_bytes_def DW_EH_PE_defs)
  next
    assume f: "?f = DW_EH_PE_udata4" and v: "x = ucast (ucast x :: u32)"
    show ?thesis using un op base f v le_val_u64 [of 4 x, where 'b = 32] by (simp add: decodeDwarfAddress_def dwarf_bytes_def DW_EH_PE_defs)
  next
    assume f: "?f = DW_EH_PE_sdata4" and v: "x = scast (ucast x :: u32)"
    show ?thesis using read_signed(2) [OF at, of addr] op base f v le_val_le_bytes_ucast [of 4 x, where 'b = 32]
      by (simp add: decodeDwarfAddress_def dwarf_bytes_def DW_EH_PE_defs)
  qed
qed

section \<open>Records\<close>

text \<open>
  \<open>rel dr enc pos v\<close> are the bytes at the offset \<open>pos\<close> of a section for the address \<open>v\<close> in the encoding \<open>enc\<close>, its distance to the base of
  the encoding; \<open>rel_ok\<close> says that the encoding can express it and that it is not the value that stands for an error.
\<close>

definition base_of :: "ehDecodeRecord_t \<Rightarrow> byte \<Rightarrow> nat \<Rightarrow> u64" where
  "base_of dr enc pos = the (encoded_base dr enc (of_nat pos))"

definition rel :: "ehDecodeRecord_t \<Rightarrow> byte \<Rightarrow> nat \<Rightarrow> u64 \<Rightarrow> byte list" where
  "rel dr enc pos v = dwarf_bytes (enc AND 0x0f) (v - base_of dr enc pos)"

definition rel_ok :: "ehDecodeRecord_t \<Rightarrow> byte \<Rightarrow> nat \<Rightarrow> u64 \<Rightarrow> bool" where
  "rel_ok dr enc pos v \<longleftrightarrow> encoded_base dr enc (of_nat pos) \<noteq> None \<and>
     dwarf_fits (enc AND 0x0f) (v - base_of dr enc pos) \<and> v \<noteq> EHF_DECDWRF_ERROR"

lemma decode_rel:
  assumes "at_off d pos (rel dr enc pos v)" and "rel_ok dr enc pos v"
  shows "decodeDwarfAddress d addr pos (dr\<lparr> totalOffset := of_nat pos, fdeEnc := enc \<rparr>) adv = Some (v, length (rel dr enc pos v))"
proof -
  let ?r = "dr\<lparr> totalOffset := of_nat pos, fdeEnc := enc \<rparr>"
  have "encoded_base ?r enc (totalOffset ?r) = Some (base_of dr enc pos)"
    using assms(2) by (auto simp: rel_ok_def base_of_def encoded_base_def)
  then have b: "dwarf_base ?r (enc AND 0xf0) = Some (base_of dr enc pos)" by (rule dwarf_base_encoded)
  then have "decodeDwarfAddress d addr pos ?r adv =
      Some (base_of dr enc pos + (v - base_of dr enc pos), length (dwarf_bytes (enc AND 0x0f) (v - base_of dr enc pos)))"
    using assms decode_dwarf [of d pos ?r "v - base_of dr enc pos" "base_of dr enc pos" addr adv] by (simp add: rel_def rel_ok_def)
  then show ?thesis by (simp add: rel_def)
qed

record cie_spec =
  cs_version3 :: bool
  cs_code :: nat
  cs_data :: int
  cs_ra :: nat
  cs_auglen :: nat
  cs_personality :: "(byte \<times> u64) option"
  cs_lsda :: "byte option"
  cs_enc :: byte
  cs_signal :: bool
  cs_rest :: "byte list"

definition cie_aug :: "cie_spec \<Rightarrow> byte list" where
  "cie_aug c = 0x7a # (if cs_personality c = None then [] else [0x50]) @ (if cs_lsda c = None then [] else [0x4c]) @ [0x52] @
     (if cs_signal c then [0x53] else [])"

definition cie_head :: "cie_spec \<Rightarrow> byte list" where
  "cie_head c = (if cs_version3 c then 3 else 1) # cie_aug c @ [0] @ uleb (cs_code c) @ sleb (cs_data c) @
     (if cs_version3 c then uleb (cs_ra c) else [of_nat (cs_ra c)]) @ uleb (cs_auglen c)"

definition personality_pos :: "nat \<Rightarrow> cie_spec \<Rightarrow> nat" where
  "personality_pos pos c = pos + 8 + length (cie_head c) + 1"

definition cie_body :: "ehDecodeRecord_t \<Rightarrow> nat \<Rightarrow> cie_spec \<Rightarrow> byte list" where
  "cie_body dr pos c = le_bytes 4 (0 :: u32) @ cie_head c @
     (case cs_personality c of None \<Rightarrow> [] | Some (enc, v) \<Rightarrow> enc # rel dr enc (personality_pos pos c) v) @
     (case cs_lsda c of None \<Rightarrow> [] | Some enc \<Rightarrow> [enc]) @ [cs_enc c] @ cs_rest c"

definition enc_cie :: "ehDecodeRecord_t \<Rightarrow> nat \<Rightarrow> cie_spec \<Rightarrow> byte list" where
  "enc_cie dr pos c = le_bytes 4 (of_nat (length (cie_body dr pos c)) :: u32) @ cie_body dr pos c"

definition valid_cie :: "ehDecodeRecord_t \<Rightarrow> nat \<Rightarrow> cie_spec \<Rightarrow> bool" where
  "valid_cie dr pos c \<longleftrightarrow> cs_code c < 2 ^ 31 \<and> - (2 ^ 27) \<le> cs_data c \<and> cs_data c < 2 ^ 27 \<and> cs_data c \<noteq> - 1 \<and> cs_ra c < 2 ^ 31 \<and>
     cs_auglen c < 2 ^ 31 \<and> length (cie_body dr pos c) < 2 ^ 32 - 1 \<and> cs_enc c AND 0x80 = 0 \<and>
     (case cs_personality c of None \<Rightarrow> True | Some (enc, v) \<Rightarrow> rel_ok dr enc (personality_pos pos c) v)"

text \<open>What the table of the scan holds of a record.\<close>

definition cie_entry :: "byte list \<Rightarrow> ehDecodeRecord_t \<Rightarrow> nat \<Rightarrow> cie_spec \<Rightarrow> ehCIERecord_t \<Rightarrow> bool" where
  "cie_entry d dr pos c r \<longleftrightarrow> cieBaseAddress r = of_nat pos \<and> cieSize r \<noteq> 0 \<and>
     cieAddressOffset r = (if cs_signal c then 1 else 0) \<and>
     enc_R (cieContainsType r) = EHF_CIE_TRUE \<and> enc_R (cieFDEEncType r) = cs_enc c \<and>
     (enc_L (cieContainsType r) = EHF_CIE_TRUE \<longleftrightarrow> cs_lsda c \<noteq> None) \<and>
     (\<forall>enc. cs_lsda c = Some enc \<longrightarrow> enc_L (cieFDEEncType r) = enc) \<and>
     (enc_P (cieContainsType r) = EHF_CIE_TRUE \<longleftrightarrow> cs_personality c \<noteq> None) \<and>
     (\<forall>enc v. cs_personality c = Some (enc, v) \<longrightarrow> enc_P (cieFDEEncType r) = enc \<and> cieAugData r = personality_pos pos c \<and>
        cieAugDataOffset r = of_nat (personality_pos pos c) \<and> at_off d (personality_pos pos c) (rel dr enc (personality_pos pos c) v) \<and>
        rel_ok dr enc (personality_pos pos c) v)"

lemma aug_string_at: "at_off d off (xs @ [0]) \<Longrightarrow> 0 \<notin> set xs \<Longrightarrow> aug_string d off = Some xs"
proof -
  assume a: "at_off d off (xs @ [0])" "0 \<notin> set xs"
  then have "take (length (xs @ [0])) (drop off d) = xs @ [0]" by (simp add: at_off_def)
  then have d: "drop off d = (xs @ [0]) @ drop (length (xs @ [0])) (drop off d)" by (metis append_take_drop_id)
  then have "0 \<in> set (drop off d)" by (metis Un_iff in_set_conv_decomp set_append)
  moreover have "takeWhile (\<lambda>b. b \<noteq> 0) (drop off d) = xs"
    by (subst d) (use a(2) in \<open>auto simp: takeWhile_append\<close>)
  ultimately show ?thesis by (simp add: aug_string_def)
qed

lemma cie_aug_nonzero: "0 \<notin> set (cie_aug c)"
  by (simp add: cie_aug_def)

lemma uleb_not_error: "v < 2 ^ 31 \<Longrightarrow> of_nat v \<noteq> EHF_ULEB128_ERROR"
proof
  assume v: "v < 2 ^ 31" "of_nat v = EHF_ULEB128_ERROR"
  then have "unat (of_nat v :: u64) = unat EHF_ULEB128_ERROR" by simp
  with v(1) show False by (simp add: EHF_ULEB128_ERROR_def unsigned_of_nat take_bit_nat_eq_self)
qed

lemma sleb_not_error:
  assumes "- (2 ^ 27) \<le> v" and "v < 2 ^ 27" and "v \<noteq> - 1"
  shows "of_int v \<noteq> EHF_SLEB128_ERROR"
proof
  assume "of_int v = EHF_SLEB128_ERROR"
  then have "sint (of_int v :: u64) = sint (- 1 :: u64)" by (simp add: EHF_SLEB128_ERROR_def)
  moreover have "sint (of_int v :: u64) = v" using assms(1,2) by (simp add: signed_of_int signed_take_bit_int_eq_self)
  ultimately show False using assms(3) by simp
qed

lemma cie_augmentation_entry:
  assumes at: "at_off d (pos + off) ((case cs_personality c of None \<Rightarrow> [] | Some (enc, v) \<Rightarrow> enc # rel dr enc (personality_pos pos c) v) @
      (case cs_lsda c of None \<Rightarrow> [] | Some enc \<Rightarrow> [enc]) @ [cs_enc c])"
    and off: "pos + Suc off = personality_pos pos c"
    and ok: "case cs_personality c of None \<Rightarrow> True | Some (enc, v) \<Rightarrow> rel_ok dr enc (personality_pos pos c) v"
    and r: "cieBaseAddress r = of_nat pos" "cieSize r \<noteq> 0" "cieAddressOffset r = 0"
      "cieContainsType r = \<lparr> enc_R = EHF_CIE_FALSE, enc_P = EHF_CIE_FALSE, enc_L = EHF_CIE_FALSE \<rparr>"
  shows "\<exists>r'. cie_augmentation d addr dr pos (tl (cie_aug c)) off r = Some (True, r') \<and> cie_entry d dr pos c r'"
proof -
  have pp: "Suc (pos + off) = personality_pos pos c" using off by simp
  then have ppa: "Suc (pos + (off + a)) = personality_pos pos c + a" for a by simp
  have w: "of_nat pos + (1 + of_nat off) = (of_nat (personality_pos pos c) :: u64)" by (simp flip: pp)
  have d: "decodeDwarfAddress d addr (personality_pos pos c) (dr\<lparr> totalOffset := of_nat (personality_pos pos c), fdeEnc := enc \<rparr>) 0 =
      Some (v, length (rel dr enc (personality_pos pos c) v)) \<and> v \<noteq> EHF_DECDWRF_ERROR" if "cs_personality c = Some (enc, v)" for enc v
    using at ok that decode_rel [of d "personality_pos pos c" dr enc v addr 0] pp
    by (simp add: at_off_append at_off_Cons rel_ok_def)
  show ?thesis
  proof (cases "cs_personality c")
    case None
    then show ?thesis using at r
      by (cases "cs_lsda c"; cases "cs_signal c")
        (auto simp: cie_aug_def cie_entry_def at_off_Cons EHF_CIE_TRUE_def EHF_CIE_FALSE_def EHF_FORWARD_OFF_def)
  next
    case (Some p)
    obtain enc v where p: "p = (enc, v)" by fastforce
    show ?thesis using at r d [of enc v] Some p ok
      by (cases "cs_lsda c"; cases "cs_signal c")
        (auto simp: pp ppa w Let_def cie_aug_def cie_entry_def at_off_Cons at_off_append EHF_CIE_TRUE_def EHF_CIE_FALSE_def EHF_FORWARD_OFF_def)
  qed
qed

lemma record_size: "ucast (n :: u32) + 4 \<noteq> (0 :: u64)"
proof
  assume "ucast n + 4 = (0 :: u64)"
  then have "ucast n = (- 4 :: u64)" by (simp add: eq_neg_iff_add_eq_0)
  then have "unat (ucast n :: u64) = unat (- 4 :: u64)" by simp
  moreover have n: "unat n < 2 ^ 32" by (rule less_le_trans [OF unsigned_less]) simp
  then have "unat (ucast n :: u64) < 2 ^ 32" by (simp add: unsigned_ucast_eq take_bit_nat_eq_self)
  ultimately show False by simp
qed

lemma scan_cie_entry:
  assumes at: "at_off d pos (enc_cie dr pos c)" and ok: "valid_cie dr pos c" and l: "recLen = of_nat (length (cie_body dr pos c))"
  shows "\<exists>r'. scan_cie d addr dr pos recLen r = Some (True, r') \<and> cie_entry d dr pos c r'"
proof -
  let ?n1 = "9 + length (cie_aug c) + 1" and ?u = "length (uleb (cs_code c))" and ?s = "length (sleb (cs_data c))"
  let ?ra = "if cs_version3 c then length (uleb (cs_ra c)) else 1" and ?g = "length (uleb (cs_auglen c))"
  let ?p = "case cs_personality c of None \<Rightarrow> [] | Some (enc, v) \<Rightarrow> enc # rel dr enc (personality_pos pos c) v"
  let ?t = "?p @ (case cs_lsda c of None \<Rightarrow> [] | Some enc \<Rightarrow> [enc]) @ [cs_enc c]"
  let ?rab = "if cs_version3 c then uleb (cs_ra c) else [of_nat (cs_ra c)]"
  have "at_off d pos (le_bytes 4 recLen @ le_bytes 4 (0 :: u32) @ [if cs_version3 c then 3 else 1] @ (cie_aug c @ [0]) @ uleb (cs_code c) @
      sleb (cs_data c) @ ?rab @ uleb (cs_auglen c) @ ?t @ cs_rest c)"
    using at unfolding enc_cie_def cie_body_def cie_head_def l by simp
  note H = this [unfolded at_off_append [of _ _ "le_bytes 4 recLen"] at_off_append [of _ _ "le_bytes 4 (0 :: u32)"]
    at_off_append [of _ _ "[if cs_version3 c then 3 else 1]"] at_off_append [of _ _ "cie_aug c @ [0]"] at_off_append [of _ _ "uleb (cs_code c)"]
    at_off_append [of _ _ "sleb (cs_data c)"] at_off_append [of _ _ ?rab] at_off_append [of _ _ "uleb (cs_auglen c)"]
    at_off_append [of _ _ ?t]]
  have a: "at_off d (pos + 8) [if cs_version3 c then 3 else 1]" "at_off d (pos + 9) (cie_aug c @ [0])"
    "at_off d (pos + ?n1) (uleb (cs_code c))" "at_off d (pos + (?n1 + ?u)) (sleb (cs_data c))"
    "at_off d (pos + (?n1 + ?u + ?s)) ?rab"
    "at_off d (pos + (?n1 + ?u + ?s + ?ra)) (uleb (cs_auglen c))"
    and tail: "at_off d (pos + (?n1 + ?u + ?s + ?ra + ?g)) ?t"
    using H by - (elim conjE, rule at_off_eq, assumption, simp)+
  have ver: "byte_at d (pos + 8) = Some (if cs_version3 c then 3 else 1)" using a(1) by (simp add: at_off_Cons)
  have aug0: "byte_at d (pos + 9) = Some 0x7a" using a(2) by (simp add: cie_aug_def at_off_Cons)
  have v: "cs_code c < 2 ^ 31" "cs_auglen c < 2 ^ 31" "cs_ra c < 2 ^ 31" "- (2 ^ 27) \<le> cs_data c" "cs_data c < 2 ^ 27" "cs_data c \<noteq> - 1"
    using ok by (simp_all add: valid_cie_def)
  have off: "pos + Suc (?n1 + ?u + ?s + ?ra + ?g) = personality_pos pos c"
    by (simp add: personality_pos_def cie_head_def)
  have size: "ucast recLen + 4 \<noteq> (0 :: u64)" by (rule record_size)
  obtain r' where r': "cie_augmentation d addr dr pos (tl (cie_aug c)) (?n1 + ?u + ?s + ?ra + ?g)
      (r\<lparr> cieBaseAddress := of_nat pos, cieSize := ucast recLen + 4,
          cieContainsType := \<lparr> enc_R = EHF_CIE_FALSE, enc_P = EHF_CIE_FALSE, enc_L = EHF_CIE_FALSE \<rparr>, cieAddressOffset := 0 \<rparr>) = Some (True, r')"
    "cie_entry d dr pos c r'"
    using cie_augmentation_entry [OF tail off, of "r\<lparr> cieBaseAddress := of_nat pos, cieSize := ucast recLen + 4,
          cieContainsType := \<lparr> enc_R = EHF_CIE_FALSE, enc_P = EHF_CIE_FALSE, enc_L = EHF_CIE_FALSE \<rparr>, cieAddressOffset := 0 \<rparr>" addr] ok size
    by (auto simp: valid_cie_def)
  note dec = decode_uleb [OF a(3) v(1)] decode_sleb [OF a(4) v(4,5)] decode_uleb [OF a(6) v(2)]
    uleb_not_error [OF v(1)] uleb_not_error [OF v(2)] uleb_not_error [OF v(3)] sleb_not_error [OF v(4-6)]
  show ?thesis
  proof (cases "cs_version3 c")
    case True
    then show ?thesis using r' decode_uleb [of d "pos + (?n1 + ?u + ?s)" "cs_ra c"] a(5) v(3) dec ver aug0 aug_string_at [OF a(2) cie_aug_nonzero]
      by (simp add: scan_cie_def Let_def ac_simps)
  next
    case False
    then show ?thesis using r' dec ver aug0 aug_string_at [OF a(2) cie_aug_nonzero] by (simp add: scan_cie_def Let_def ac_simps)
  qed
qed

section \<open>The list of functions\<close>

definition funcs :: "funclist \<Rightarrow> u64 list" where
  "funcs resp = take (unat (fl_num_entries resp)) (the (fl_entries resp))"

definition funclist_ok :: "funclist \<Rightarrow> bool" where
  "funclist_ok resp \<longleftrightarrow> (\<exists>entries. fl_entries resp = Some entries \<and> length entries = unat (fl_max_entries resp)) \<and>
     unat (fl_num_entries resp) < unat (fl_max_entries resp) \<and>
     unat (fl_max_entries resp) \<le> max 65536 (2 * unat (fl_num_entries resp))"

definition same_header :: "funclist \<Rightarrow> funclist \<Rightarrow> bool" where
  "same_header r s \<longleftrightarrow> fl_is_relocatable r = fl_is_relocatable s \<and> fl_reference_offset r = fl_reference_offset s"

lemma length_funcs: "funclist_ok resp \<Longrightarrow> length (funcs resp) = unat (fl_num_entries resp)"
  by (auto simp: funclist_ok_def funcs_def)

lemma unat_small:
  "unat (a :: u64) < 2 ^ 62 \<Longrightarrow> unat (a + 1) = unat a + 1" "unat (a :: u64) < 2 ^ 63 \<Longrightarrow> unat (2 * a) = 2 * unat a"
  by (simp_all add: unat_word_ariths)

lemma fnb_add_function_adds:
  assumes "funclist_ok resp" and "length (funcs resp) < 2 ^ 62 - 1"
  shows "\<exists>resp'. fnb_add_function v resp = Some resp' \<and> funclist_ok resp' \<and> funcs resp' = funcs resp @ [v] \<and> same_header resp' resp"
proof -
  let ?n = "unat (fl_num_entries resp)" and ?m = "unat (fl_max_entries resp)"
  obtain entries where e: "fl_entries resp = Some entries" "length entries = ?m" "?n < ?m" "?m \<le> max 65536 (2 * ?n)"
    using assms(1) by (auto simp: funclist_ok_def)
  have n: "?n < 2 ^ 62 - 1" using assms by (simp add: length_funcs)
  then have n1: "unat (fl_num_entries resp + 1) = ?n + 1" and m2: "unat (2 * fl_max_entries resp) = 2 * ?m"
    using e(4) by (simp_all add: unat_small)
  have t: "take (Suc ?n) (entries[?n := v]) = take ?n entries @ [v]"
    using e(2,3) by (simp add: take_Suc_conv_app_nth)
  show ?thesis
  proof (cases "fl_num_entries resp + 1 \<ge> fl_max_entries resp")
    case True
    then have "?m \<le> ?n + 1" using n1 by (simp add: word_le_nat_alt)
    with e(3) have "?m = Suc ?n" by simp
    then show ?thesis using e True n1 m2 t
      by (auto simp: fnb_add_function_def funclist_ok_def funcs_def same_header_def Let_def)
  next
    case False
    then have "?n + 1 < ?m" using n1 by (simp add: word_le_nat_alt not_le)
    then show ?thesis using e False n1 t
      by (auto simp: fnb_add_function_def funclist_ok_def funcs_def same_header_def Let_def)
  qed
qed

section \<open>Frame descriptions\<close>

record fde_spec =
  fs_cie :: nat
  fs_addr :: u64
  fs_range :: u64
  fs_auglen :: nat
  fs_lsda :: u64
  fs_rest :: "byte list"

definition range_pos :: "ehDecodeRecord_t \<Rightarrow> nat \<Rightarrow> cie_spec \<Rightarrow> fde_spec \<Rightarrow> nat" where
  "range_pos dr pos c f = pos + 8 + length (rel dr (cs_enc c) (pos + 8) (fs_addr f))"

text \<open>The range is a length: it is encoded in the format of the address, relative to nothing. The scan adds the base to it all the same.\<close>

definition range_bytes :: "cie_spec \<Rightarrow> fde_spec \<Rightarrow> byte list" where
  "range_bytes c f = dwarf_bytes (cs_enc c AND 0x0f) (fs_range f)"

definition range_word :: "ehDecodeRecord_t \<Rightarrow> nat \<Rightarrow> cie_spec \<Rightarrow> fde_spec \<Rightarrow> u64" where
  "range_word dr pos c f = base_of dr (cs_enc c) (range_pos dr pos c f) + fs_range f"

definition lsda_pos :: "ehDecodeRecord_t \<Rightarrow> nat \<Rightarrow> cie_spec \<Rightarrow> fde_spec \<Rightarrow> nat" where
  "lsda_pos dr pos c f = range_pos dr pos c f + length (range_bytes c f) + length (uleb (fs_auglen f))"

definition fde_body :: "ehDecodeRecord_t \<Rightarrow> nat \<Rightarrow> cie_spec \<Rightarrow> fde_spec \<Rightarrow> byte list" where
  "fde_body dr pos c f = le_bytes 4 (of_nat (pos + 4 - fs_cie f) :: u32) @ rel dr (cs_enc c) (pos + 8) (fs_addr f) @
     range_bytes c f @
     (case cs_lsda c of None \<Rightarrow> [] | Some enc \<Rightarrow> uleb (fs_auglen f) @ rel dr enc (lsda_pos dr pos c f) (fs_lsda f)) @ fs_rest f"

definition enc_fde :: "ehDecodeRecord_t \<Rightarrow> nat \<Rightarrow> cie_spec \<Rightarrow> fde_spec \<Rightarrow> byte list" where
  "enc_fde dr pos c f = le_bytes 4 (of_nat (length (fde_body dr pos c f)) :: u32) @ fde_body dr pos c f"

definition valid_fde :: "ehDecodeRecord_t \<Rightarrow> nat \<Rightarrow> cie_spec \<Rightarrow> fde_spec \<Rightarrow> bool" where
  "valid_fde dr pos c f \<longleftrightarrow> fs_cie f \<le> pos \<and> rel_ok dr (cs_enc c) (pos + 8) (fs_addr f) \<and>
     rel_ok dr (cs_enc c) (range_pos dr pos c f) (range_word dr pos c f) \<and> length (fde_body dr pos c f) < 2 ^ 32 - 1 \<and>
     (\<forall>enc. cs_lsda c = Some enc \<longrightarrow> enc \<noteq> DW_EH_PE_omit \<and> enc AND 0x80 = 0 \<and> fs_auglen f < 2 ^ 31 \<and> rel_ok dr enc (lsda_pos dr pos c f) (fs_lsda f))"

definition fde_functions :: "cie_spec \<Rightarrow> fde_spec \<Rightarrow> u64 list" where
  "fde_functions c f = (case cs_personality c of None \<Rightarrow> [] | Some (_, v) \<Rightarrow> [v]) @ [fs_addr f + (if cs_signal c then 1 else 0)] @
     (if cs_lsda c = None then [] else [fs_lsda f])"

lemma rel_range: "rel dr (cs_enc c) (range_pos dr pos c f) (range_word dr pos c f) = range_bytes c f"
  by (simp add: rel_def range_word_def range_bytes_def)

lemma scan_fde_adds:
  assumes at: "at_off d pos (enc_fde dr pos c f)" and ok: "valid_fde dr pos c f"
    and found: "List.find (\<lambda>kk. cieBaseAddress (tbl kk) = of_nat pos + 4 - ucast recType) [0..<kc] = Some k" "cie_entry d dr (fs_cie f) c (tbl k)"
    and resp: "funclist_ok resp" "length (funcs resp) < 2 ^ 62 - 3"
  shows "\<exists>resp'. scan_fde d addr dr pos recType kc tbl resp = Some (True, resp') \<and> funclist_ok resp' \<and>
    funcs resp' = funcs resp @ fde_functions c f \<and> same_header resp' resp"
proof -
  let ?e = "cs_enc c" and ?r = "tbl k"
  let ?a = "rel dr ?e (pos + 8) (fs_addr f)" and ?w = "range_bytes c f"
  let ?l = "case cs_lsda c of None \<Rightarrow> [] | Some enc \<Rightarrow> uleb (fs_auglen f) @ rel dr enc (lsda_pos dr pos c f) (fs_lsda f)"
  have "at_off d pos (le_bytes 4 (of_nat (length (fde_body dr pos c f)) :: u32) @ le_bytes 4 (of_nat (pos + 4 - fs_cie f) :: u32) @ ?a @ ?w @ ?l @ fs_rest f)"
    using at unfolding enc_fde_def fde_body_def by simp
  note H = this [unfolded at_off_append [of _ _ "le_bytes 4 (of_nat (length (fde_body dr pos c f)) :: u32)"]
    at_off_append [of _ _ "le_bytes 4 (of_nat (pos + 4 - fs_cie f) :: u32)"] at_off_append [of _ _ ?a] at_off_append [of _ _ ?w] at_off_append [of _ _ ?l]]
  have b: "at_off d (pos + 8) ?a" "at_off d (range_pos dr pos c f) ?w" "at_off d (range_pos dr pos c f + length ?w) ?l"
    using H by - (elim conjE, rule at_off_eq, assumption, simp add: range_pos_def)+
  note e = found(2) [unfolded cie_entry_def]
  have da: "decodeDwarfAddress d addr (pos + 8) (dr\<lparr> totalOffset := of_nat (pos + 8), fdeEnc := ?e \<rparr>) 0 = Some (fs_addr f, length ?a)"
    "fs_addr f \<noteq> EHF_DECDWRF_ERROR"
    using decode_rel [OF b(1)] ok by (auto simp: valid_fde_def rel_ok_def)
  have dw: "decodeDwarfAddress d addr (range_pos dr pos c f) (dr\<lparr> totalOffset := of_nat (range_pos dr pos c f), fdeEnc := ?e \<rparr>) z =
      Some (range_word dr pos c f, length ?w)" "range_word dr pos c f \<noteq> EHF_DECDWRF_ERROR" for z
    using decode_rel [of d "range_pos dr pos c f" dr ?e "range_word dr pos c f"] b(2) ok unfolding rel_range
    by (auto simp: valid_fde_def rel_ok_def)
  obtain resp1 where r1: "(if enc_P (cieContainsType ?r) = EHF_CIE_TRUE
                 then do {
                   (v, a) \<leftarrow> decodeDwarfAddress d addr (cieAugData ?r) (dr\<lparr> totalOffset := cieAugDataOffset ?r, fdeEnc := enc_P (cieFDEEncType ?r) \<rparr>) 0;
                   if v \<noteq> EHF_DECDWRF_ERROR then fnb_add_function v resp else Some resp }
                 else Some resp) = Some resp1"
      "funclist_ok resp1" "funcs resp1 = funcs resp @ (case cs_personality c of None \<Rightarrow> [] | Some (_, v) \<Rightarrow> [v])" "same_header resp1 resp"
  proof (cases "cs_personality c")
    case None
    then show ?thesis using e that [of resp] resp(1) by (simp add: same_header_def)
  next
    case (Some p)
    obtain enc v where p: "p = (enc, v)" by fastforce
    then have "decodeDwarfAddress d addr (cieAugData ?r) (dr\<lparr> totalOffset := cieAugDataOffset ?r, fdeEnc := enc_P (cieFDEEncType ?r) \<rparr>) 0 =
        Some (v, length (rel dr enc (personality_pos (fs_cie f) c) v))" "v \<noteq> EHF_DECDWRF_ERROR"
      using e Some decode_rel [of d "personality_pos (fs_cie f) c" dr enc v addr 0] by (auto simp: rel_ok_def)
    then show ?thesis using e Some p fnb_add_function_adds [OF resp(1), of v] resp(2) that by auto
  qed
  have n1: "length (funcs resp1) < 2 ^ 62 - 2" using resp(2) r1(3) by (auto split: option.splits)
  obtain resp2 where r2: "fnb_add_function (fs_addr f + cieAddressOffset ?r) resp1 = Some resp2" "funclist_ok resp2"
      "funcs resp2 = funcs resp1 @ [fs_addr f + (if cs_signal c then 1 else 0)]" "same_header resp2 resp1"
    using fnb_add_function_adds [OF r1(2)] n1 e by fastforce
  have R: "pos + (8 + length ?a) = range_pos dr pos c f" "pos + (8 + length ?a + length ?w) = range_pos dr pos c f + length ?w"
    "pos + (8 + length ?a + length ?w + x) = range_pos dr pos c f + length ?w + x" for x by (simp_all add: range_pos_def)
  have run: "scan_fde d addr dr pos recType kc tbl resp =
      (if enc_L (cieContainsType ?r) = EHF_CIE_TRUE
       then do {
         (augDataLen, a) \<leftarrow> decodeULEB128 d (range_pos dr pos c f + length ?w);
         if augDataLen = EHF_ULEB128_ERROR \<or> enc_L (cieFDEEncType ?r) = DW_EH_PE_omit then Some (True, resp2)
         else do {
           (v, a) \<leftarrow> decodeDwarfAddress d addr (range_pos dr pos c f + length ?w + a)
             (dr\<lparr> totalOffset := of_nat (range_pos dr pos c f + length ?w + a), fdeEnc := enc_L (cieFDEEncType ?r) \<rparr>) a;
           if v \<noteq> EHF_DECDWRF_ERROR then map_option (Pair True) (fnb_add_function v resp2) else Some (True, resp2) } }
       else Some (True, resp2))"
    unfolding scan_fde_def found(1) option.case Let_def r1(1)
    using e da dw r2(1) by (simp add: R Let_def case_prod_unfold del: of_nat_add cong: if_cong)
  show ?thesis
  proof (cases "cs_lsda c")
    case None
    then show ?thesis using run e r1 r2 by (auto simp: fde_functions_def same_header_def)
  next
    case (Some enc)
    have l: "at_off d (range_pos dr pos c f + length ?w) (uleb (fs_auglen f))" "fs_auglen f < 2 ^ 31"
      and rl: "at_off d (lsda_pos dr pos c f) (rel dr enc (lsda_pos dr pos c f) (fs_lsda f))" "rel_ok dr enc (lsda_pos dr pos c f) (fs_lsda f)"
      and o: "enc \<noteq> DW_EH_PE_omit"
      using b(3) Some ok by (auto simp: at_off_append lsda_pos_def valid_fde_def)
    have p: "range_pos dr pos c f + length ?w + length (uleb (fs_auglen f)) = lsda_pos dr pos c f" by (simp add: lsda_pos_def)
    have "length (funcs resp2) < 2 ^ 62 - 1" using n1 r2(3) by simp
    then obtain resp3 where r3: "fnb_add_function (fs_lsda f) resp2 = Some resp3" "funclist_ok resp3"
        "funcs resp3 = funcs resp2 @ [fs_lsda f]" "same_header resp3 resp2"
      using fnb_add_function_adds [OF r2(2)] by blast
    have "scan_fde d addr dr pos recType kc tbl resp = Some (True, resp3)"
      unfolding run using decode_uleb [OF l] uleb_not_error [OF l(2)] decode_rel [OF rl] rl(2) e Some o r3(1)
      by (simp add: p rel_ok_def del: of_nat_add)
    then show ?thesis using r1 r2 r3 Some by (auto simp: fde_functions_def same_header_def)
  qed
qed

section \<open>Whole sections\<close>

datatype frame = Cie cie_spec | Fde fde_spec

fun enc_frames :: "ehDecodeRecord_t \<Rightarrow> nat \<Rightarrow> (nat \<times> cie_spec) list \<Rightarrow> frame list \<Rightarrow> byte list" where
  "enc_frames dr pos cies [] = []"
| "enc_frames dr pos cies (Cie c # fs) = enc_cie dr pos c @ enc_frames dr (pos + length (enc_cie dr pos c)) (cies @ [(pos, c)]) fs"
| "enc_frames dr pos cies (Fde f # fs) =
    (let b = enc_fde dr pos (the (map_of cies (fs_cie f))) f in b @ enc_frames dr (pos + length b) cies fs)"

fun valid_frames :: "ehDecodeRecord_t \<Rightarrow> nat \<Rightarrow> (nat \<times> cie_spec) list \<Rightarrow> frame list \<Rightarrow> bool" where
  "valid_frames dr pos cies [] \<longleftrightarrow> True"
| "valid_frames dr pos cies (Cie c # fs) \<longleftrightarrow>
    valid_cie dr pos c \<and> valid_frames dr (pos + length (enc_cie dr pos c)) (cies @ [(pos, c)]) fs"
| "valid_frames dr pos cies (Fde f # fs) \<longleftrightarrow> (case map_of cies (fs_cie f) of None \<Rightarrow> False
     | Some c \<Rightarrow> valid_fde dr pos c f \<and> valid_frames dr (pos + length (enc_fde dr pos c f)) cies fs)"

fun frames_functions :: "ehDecodeRecord_t \<Rightarrow> nat \<Rightarrow> (nat \<times> cie_spec) list \<Rightarrow> frame list \<Rightarrow> u64 list" where
  "frames_functions dr pos cies [] = []"
| "frames_functions dr pos cies (Cie c # fs) = frames_functions dr (pos + length (enc_cie dr pos c)) (cies @ [(pos, c)]) fs"
| "frames_functions dr pos cies (Fde f # fs) =
    (let c = the (map_of cies (fs_cie f)) in fde_functions c f @ frames_functions dr (pos + length (enc_fde dr pos c f)) cies fs)"

definition table_ok :: "byte list \<Rightarrow> ehDecodeRecord_t \<Rightarrow> (nat \<times> cie_spec) list \<Rightarrow> nat \<Rightarrow> (nat \<Rightarrow> ehCIERecord_t) \<Rightarrow> bool" where
  "table_ok d dr cies pos tbl \<longleftrightarrow> distinct (map fst cies) \<and> (\<forall>k < length cies. fst (cies ! k) < pos \<and> cie_entry d dr (fst (cies ! k)) (snd (cies ! k)) (tbl k))"

lemma word_at_off: "at_off d pos (le_bytes 4 w) \<Longrightarrow> word_at d pos = Some w"
  using at_off_bytes [of d pos "le_bytes 4 w" 4] by (simp add: word_at_def)

lemma unat_length:
  assumes "n < 2 ^ 32 - 1" and "n > 0"
  shows "unat (of_nat n :: u32) = n" "of_nat n \<noteq> (0 :: u32)" "of_nat n \<noteq> (0xffffffff :: u32)"
proof -
  show u: "unat (of_nat n :: u32) = n" using assms by (simp add: unsigned_of_nat take_bit_nat_eq_self)
  show "of_nat n \<noteq> (0 :: u32)" using u assms(2) by auto
  show "of_nat n \<noteq> (0xffffffff :: u32)"
  proof
    assume "of_nat n = (0xffffffff :: u32)"
    then have "unat (of_nat n :: u32) = unat (0xffffffff :: u32)" by simp
    with u assms(1) show False by simp
  qed
qed

lemma table_ok_add:
  assumes "table_ok d dr cies pos tbl" and "cie_entry d dr pos c r" and "pos < pos'"
  shows "table_ok d dr (cies @ [(pos, c)]) pos' (tbl(length cies := r))"
proof -
  have "pos \<notin> set (map fst cies)"
  proof
    assume "pos \<in> set (map fst cies)"
    then obtain k where "k < length cies" "fst (cies ! k) = pos" by (auto simp: in_set_conv_nth)
    with assms(1) show False by (auto simp: table_ok_def)
  qed
  then show ?thesis using assms by (auto simp: table_ok_def nth_append less_Suc_eq)
qed

lemma table_ok_mono: "table_ok d dr cies pos tbl \<Longrightarrow> pos \<le> pos' \<Longrightarrow> table_ok d dr cies pos' tbl"
  by (auto simp: table_ok_def intro: less_le_trans)

lemma of_nat_u64_inj: "of_nat a = (of_nat b :: u64) \<Longrightarrow> a < 2 ^ 33 \<Longrightarrow> b < 2 ^ 33 \<Longrightarrow> a = b"
proof -
  assume a: "of_nat a = (of_nat b :: u64)" "a < 2 ^ 33" "b < 2 ^ 33"
  then have "unat (of_nat a :: u64) = unat (of_nat b :: u64)" by simp
  with a(2,3) show "a = b" by (simp add: unsigned_of_nat take_bit_nat_eq_self)
qed

lemma find_cie:
  assumes tbl: "table_ok d dr cies pos tbl" and pos: "pos < 2 ^ 32 - 5" and m: "map_of cies cpos = Some c" and "cpos \<le> pos"
  shows "\<exists>k. List.find (\<lambda>kk. cieBaseAddress (tbl kk) = of_nat pos + 4 - ucast (of_nat (pos + 4 - cpos) :: u32)) [0..<length cies] = Some k \<and>
    cie_entry d dr cpos c (tbl k)"
proof -
  have "ucast (of_nat (pos + 4 - cpos) :: u32) = (of_nat (pos + 4 - cpos) :: u64)"
    using pos by (simp add: unsigned_of_nat take_bit_nat_eq_self del: of_nat_diff)
  moreover have "of_nat (pos + 4 - cpos) = (of_nat pos + 4 - of_nat cpos :: u64)" using assms(4) by (simp add: of_nat_diff)
  ultimately have eq: "of_nat pos + 4 - ucast (of_nat (pos + 4 - cpos) :: u32) = (of_nat cpos :: u64)" by simp
  obtain k where k: "k < length cies" "cies ! k = (cpos, c)"
    using map_of_SomeD [OF m] by (auto simp: in_set_conv_nth)
  have e: "cie_entry d dr (fst (cies ! j)) (snd (cies ! j)) (tbl j)" "fst (cies ! j) < pos" if "j < length cies" for j
    using tbl that by (auto simp: table_ok_def)
  have "fst (cies ! j) \<noteq> cpos" if "j < k" for j
    using tbl k that nth_eq_iff_index_eq [of "map fst cies" j k] by (auto simp: table_ok_def)
  then have "cieBaseAddress (tbl j) \<noteq> of_nat cpos" if "j < k" for j
    using that e [of j] e [OF k(1)] k pos of_nat_u64_inj [of "fst (cies ! j)" cpos] by (fastforce simp: cie_entry_def)
  moreover have "cieBaseAddress (tbl k) = of_nat cpos" using e [OF k(1)] k(2) by (simp add: cie_entry_def)
  ultimately have "List.find (\<lambda>kk. cieBaseAddress (tbl kk) = of_nat cpos) [0..<length cies] = Some k"
    using k(1) by (auto simp: find_Some_iff)
  then show ?thesis using e [OF k(1)] k(2) unfolding eq by auto
qed

lemma enc_lengths:
  "length (enc_cie dr pos c) = length (cie_body dr pos c) + 4" "length (cie_body dr pos c) > 0"
  "length (enc_fde dr pos c f) = length (fde_body dr pos c f) + 4" "length (fde_body dr pos c f) > 0"
  by (simp_all add: enc_cie_def cie_body_def enc_fde_def fde_body_def)

lemma enc_nonempty: "enc_cie dr pos c \<noteq> []" "enc_fde dr pos c f \<noteq> []"
  using enc_lengths [of dr pos c] by (metis add_is_0 length_0_conv zero_neq_numeral)+

text \<open>One record: the loop goes on behind it, unless it was the last and no terminator follows.\<close>

lemma scan_records_step:
  assumes "at_off d pos (le_bytes 4 (of_nat n :: u32) @ le_bytes 4 recType)" and "n < 2 ^ 32 - 1" and "n > 0"
    and "(if recType = 0
          then map_option (\<lambda>(complete, c). (True, if complete then Suc kc else kc, tbl(kc := c), resp)) (scan_cie d addr dr pos (of_nat n) (tbl kc))
          else map_option (\<lambda>(go, resp). (go, kc, tbl, resp)) (scan_fde d addr dr pos recType kc tbl resp)) = Some (True, kc', tbl', resp')"
  shows "scan_records d addr dr dataSize pos kc tbl resp =
    (if pos + (n + 4) \<ge> dataSize then Some (True, resp') else scan_records d addr dr dataSize (pos + (n + 4)) kc' tbl' resp')"
proof -
  have "word_at d pos = Some (of_nat n)" "word_at d (pos + 4) = Some recType"
    using assms(1) by (simp_all add: at_off_append word_at_off)
  then show ?thesis using assms(4) unat_length [OF assms(2,3)] by (subst scan_records.simps) (simp add: Let_def)
qed

lemma scan_records_end: "at_off d pos (le_bytes 4 (0 :: u32)) \<Longrightarrow> scan_records d addr dr dataSize pos kc tbl resp = Some (True, resp)"
  by (subst scan_records.simps) (simp add: word_at_off)

lemma scan_frames:
  assumes "at_off d pos (enc_frames dr pos cies fs @ post)" and "pos + length (enc_frames dr pos cies fs @ post) = length d"
    and "valid_frames dr pos cies fs" and "table_ok d dr cies pos tbl" and "length d < 2 ^ 31"
    and "fs \<noteq> [] \<or> post \<noteq> []" and "post = [] \<or> (\<exists>rest. post = le_bytes 4 (0 :: u32) @ rest)"
    and "funclist_ok resp" and "length (funcs resp) + 3 * length fs < 2 ^ 62 - 3"
  shows "\<exists>resp'. scan_records d addr dr (length d) pos (length cies) tbl resp = Some (True, resp') \<and> funclist_ok resp' \<and>
    funcs resp' = funcs resp @ frames_functions dr pos cies fs \<and> same_header resp' resp"
  using assms
proof (induction fs arbitrary: pos cies tbl resp)
  case Nil
  then have "at_off d pos (le_bytes 4 (0 :: u32))" by (auto simp: at_off_append)
  then show ?case using Nil(8) by (simp add: scan_records_end same_header_def)
next
  case (Cons x fs)
  have go_on: "\<exists>resp'. (if pos' \<ge> length d then Some (True, resp1) else scan_records d addr dr (length d) pos' (length cies') tbl' resp1) =
        Some (True, resp') \<and> funclist_ok resp' \<and> funcs resp' = funcs resp1 @ frames_functions dr pos' cies' fs \<and> same_header resp' resp1"
    if "at_off d pos' (enc_frames dr pos' cies' fs @ post)" and len: "pos' + length (enc_frames dr pos' cies' fs @ post) = length d"
      and "valid_frames dr pos' cies' fs" and "table_ok d dr cies' pos' tbl'" and "funclist_ok resp1"
      and "length (funcs resp1) + 3 * length fs < 2 ^ 62 - 3" for pos' cies' tbl' resp1
  proof (cases "fs = [] \<and> post = []")
    case True
    then show ?thesis using len that(5) by (simp add: same_header_def)
  next
    case False
    have "enc_frames dr pos' cies' fs @ post \<noteq> []"
      using False by (cases fs; cases "hd fs") (auto simp: enc_nonempty Let_def)
    then have "0 < length (enc_frames dr pos' cies' fs @ post)" by blast
    then have "\<not> pos' \<ge> length d" using len by linarith
    then show ?thesis using Cons.IH [OF that(1-4) Cons.prems(5) _ Cons.prems(7) that(5,6)] False by simp
  qed
  show ?case
  proof (cases x)
    case (Cie c)
    let ?n = "length (cie_body dr pos c)" and ?cies = "cies @ [(pos, c)]"
    have at: "at_off d pos (enc_cie dr pos c)" "at_off d (pos + (?n + 4)) (enc_frames dr (pos + (?n + 4)) ?cies fs @ post)"
      using Cons.prems(1) Cie by (simp_all add: at_off_append enc_lengths add.assoc)
    have v: "valid_cie dr pos c" "valid_frames dr (pos + (?n + 4)) ?cies fs" using Cons.prems(3) Cie by (simp_all add: enc_lengths)
    have n: "?n < 2 ^ 32 - 1" "?n > 0" using v(1) enc_lengths by (simp_all add: valid_cie_def)
    obtain r where r: "scan_cie d addr dr pos (of_nat ?n) (tbl (length cies)) = Some (True, r)" "cie_entry d dr pos c r"
      using scan_cie_entry [OF at(1) v(1) refl] by blast
    have w: "at_off d pos (le_bytes 4 (of_nat ?n :: u32) @ le_bytes 4 (0 :: u32))"
      using at(1) by (simp add: enc_cie_def cie_body_def at_off_append)
    have st: "scan_records d addr dr (length d) pos (length cies) tbl resp =
        (if pos + (?n + 4) \<ge> length d then Some (True, resp)
         else scan_records d addr dr (length d) (pos + (?n + 4)) (length ?cies) (tbl(length cies := r)) resp)"
      using scan_records_step [OF w n, of "length cies" tbl resp addr dr "Suc (length cies)" "tbl(length cies := r)" resp "length d"] r(1) by simp
    have "pos + (?n + 4) + length (enc_frames dr (pos + (?n + 4)) ?cies fs @ post) = length d"
      using Cons.prems(2) Cie by (simp add: enc_lengths add.assoc)
    moreover have "table_ok d dr ?cies (pos + (?n + 4)) (tbl(length cies := r))"
      using table_ok_add [OF Cons.prems(4) r(2)] by simp
    ultimately show ?thesis using go_on [OF at(2) _ v(2) _ Cons.prems(8)] Cons.prems(9) Cie st by (simp add: enc_lengths)
  next
    case (Fde f)
    obtain c where c: "map_of cies (fs_cie f) = Some c" using Cons.prems(3) Fde by (auto split: option.splits)
    let ?n = "length (fde_body dr pos c f)" and ?t = "of_nat (pos + 4 - fs_cie f) :: u32"
    have at: "at_off d pos (enc_fde dr pos c f)" "at_off d (pos + (?n + 4)) (enc_frames dr (pos + (?n + 4)) cies fs @ post)"
      using Cons.prems(1) Fde c by (simp_all add: at_off_append enc_lengths add.assoc)
    have v: "valid_fde dr pos c f" "valid_frames dr (pos + (?n + 4)) cies fs" using Cons.prems(3) Fde c by (simp_all add: enc_lengths)
    have n: "?n < 2 ^ 32 - 1" "?n > 0" and le: "fs_cie f \<le> pos" using v(1) enc_lengths by (simp_all add: valid_fde_def)
    have len: "pos + (?n + 4) + length (enc_frames dr (pos + (?n + 4)) cies fs @ post) = length d"
      using Cons.prems(2) Fde c by (simp add: enc_lengths add.assoc)
    then have pos: "pos < 2 ^ 31" using Cons.prems(5) by linarith
    then have t: "?t \<noteq> 0" using unat_length(2) [of "pos + 4 - fs_cie f"] le by simp
    obtain k where k: "List.find (\<lambda>kk. cieBaseAddress (tbl kk) = of_nat pos + 4 - ucast ?t) [0..<length cies] = Some k" "cie_entry d dr (fs_cie f) c (tbl k)"
      using find_cie [OF Cons.prems(4) _ c le] pos by auto
    obtain resp1 where r: "scan_fde d addr dr pos ?t (length cies) tbl resp = Some (True, resp1)" "funclist_ok resp1"
        "funcs resp1 = funcs resp @ fde_functions c f" "same_header resp1 resp"
      using scan_fde_adds [OF at(1) v(1) k Cons.prems(8)] Cons.prems(9) by auto
    have w: "at_off d pos (le_bytes 4 (of_nat ?n :: u32) @ le_bytes 4 ?t)"
      using at(1) by (simp add: enc_fde_def fde_body_def at_off_append)
    have st: "scan_records d addr dr (length d) pos (length cies) tbl resp =
        (if pos + (?n + 4) \<ge> length d then Some (True, resp1) else scan_records d addr dr (length d) (pos + (?n + 4)) (length cies) tbl resp1)"
      using scan_records_step [OF w n, of "length cies" tbl resp addr dr "length cies" tbl resp1 "length d"] r(1) t by simp
    have "length (fde_functions c f) \<le> 3" by (auto simp: fde_functions_def split: option.split)
    then have "length (funcs resp1) + 3 * length fs < 2 ^ 62 - 3" using Cons.prems(9) r(3) by simp
    then show ?thesis using go_on [OF at(2) len v(2) table_ok_mono [OF Cons.prems(4)] r(2)] Fde c st r(3,4)
      by (auto simp: enc_lengths Let_def same_header_def)
  qed
qed

text \<open>
  What the scan needs of the file: the name of the section can be read, and so can the headers of the text and the data section, where
  there are such sections; a missing one counts as starting at 0.
\<close>

definition section_named :: "Elf \<Rightarrow> GElf_Shdr \<Rightarrow> bool" where
  "section_named e sh \<longleftrightarrow> (\<exists>strndx name. elf_getshdrstrndx e = Some strndx \<and> elf_strptr e strndx (sh_name sh) = Some name)"

definition starts_at :: "Elf \<Rightarrow> nat option \<Rightarrow> u64 \<Rightarrow> bool" where
  "starts_at e sec a \<longleftrightarrow> sec = None \<and> a = 0 \<or> (\<exists>i sh. sec = Some i \<and> gelf_getshdr e i = Some sh \<and> sh_addr sh = a)"

lemma section_named_scan: "section_named e sh \<Longrightarrow> fnb_doSectionScan e sh"
  by (auto simp: section_named_def fnb_doSectionScan_def)

lemma starts_at_address: "starts_at e sec a \<Longrightarrow> section_address e sec = Some a"
  by (auto simp: starts_at_def section_address_def)

lemma ehframescan_adds:
  assumes "d = enc_frames dr 0 [] fs @ post" and "fs \<noteq> [] \<or> post \<noteq> []" and "post = [] \<or> (\<exists>rest. post = le_bytes 4 (0 :: u32) @ rest)"
    and "valid_frames dr 0 [] fs" and "length d < 2 ^ 31" and "funclist_ok resp" and "length (funcs resp) + 3 * length fs < 2 ^ 62 - 3"
    and "ehFrameSection rec = Some frame" and "gelf_getshdr e frame = Some sh" and "section_named e sh"
    and "starts_at e (textSection rec) text" and "starts_at e (dataSection rec) dat"
    and "elf_getdata e frame = Some \<lparr> d_buf = Some d, d_size = length d, d_address = addr \<rparr>"
    and "dr = \<lparr> ehSecAddr = sh_addr sh, textSecAddr = text, dataSecAddr = dat, totalOffset = 0, fdeEnc = 0 \<rparr>"
  shows "\<exists>resp'. fnb_ehframescan junk e rec resp = Some (True, resp') \<and> funclist_ok resp' \<and>
    funcs resp' = funcs resp @ frames_functions dr 0 [] fs \<and> same_header resp' resp"
proof -
  have "at_off d 0 (enc_frames dr 0 [] fs @ post)" using assms(1) by (simp add: at_off_def)
  moreover have "table_ok d dr [] 0 junk" by (simp add: table_ok_def)
  moreover have "length d \<noteq> 0"
    using assms(1,2) by (cases fs; cases "hd fs") (auto simp: enc_nonempty Let_def)
  ultimately show ?thesis
    using scan_frames [of d 0 dr "[]" fs post junk resp addr] assms section_named_scan [OF assms(10)]
      starts_at_address [OF assms(11)] starts_at_address [OF assms(12)] by (simp add: fnb_ehframescan_def)
qed

section \<open>Properties\<close>

text \<open>
  C29. Decoding of addresses: for an address relative to its own place (direct or indirect), to the text section or to the data section,
  in any format but signed 2-byte and signed 8-byte, \<open>decodeDwarfAddress\<close> gives that base plus the encoded distance and advances by the
  length of its encoding, wherever the bytes lie in memory. An absolute address is not among them. The variable-length formats are read back as
  long as a group of seven bits, shifted in an \<open>int\<close>, does not leave it: up to \<open>2 ^ 31\<close> unsigned, and between \<open>- (2 ^ 27)\<close> and \<open>2 ^ 27\<close> signed.
\<close>

theorem decodeDwarfAddress_correct:
  assumes "at_off d off (dwarf_bytes (fdeEnc r AND 0x0f) x)" and "dwarf_fits (fdeEnc r AND 0x0f) x"
    and "encoded_base r (fdeEnc r) (totalOffset r) = Some b"
  shows "decodeDwarfAddress d addr off r adv = Some (b + x, length (dwarf_bytes (fdeEnc r AND 0x0f) x))"
  using assms(1,2) dwarf_base_encoded [OF assms(3)] by (rule decode_dwarf)

theorem decodeDwarfAddress_correct_witness:
  "decodeDwarfAddress [0, 0xf0, 0xff, 0xff, 0xff] 7 1 \<lparr> ehSecAddr = 0x1000, textSecAddr = 0, dataSecAddr = 0, totalOffset = 0x20, fdeEnc = 0x1b \<rparr> 0 =
    Some (0x1010, 4)"
proof -
  let ?r = "\<lparr> ehSecAddr = 0x1000, textSecAddr = 0, dataSecAddr = 0, totalOffset = 0x20, fdeEnc = 0x1b \<rparr>"
  have "at_off [0, 0xf0, 0xff, 0xff, 0xff] 1 (dwarf_bytes (fdeEnc ?r AND 0x0f) (- 16))" by code_simp
  moreover have "dwarf_fits (fdeEnc ?r AND 0x0f) (- 16)" by code_simp
  moreover have "encoded_base ?r (fdeEnc ?r) (totalOffset ?r) = Some 0x1020" by code_simp
  moreover have "length (dwarf_bytes (fdeEnc ?r AND 0x0f) (- 16)) = 4" by code_simp
  ultimately show ?thesis using decodeDwarfAddress_correct [of "[0, 0xf0, 0xff, 0xff, 0xff]" 1 ?r "- 16" "0x1020" 7 0] by simp
qed

text \<open>
  C28. The scan of a frame section collects exactly the functions of its records. For a section with any number of common and frame
  records of the form compilers write (an augmentation that begins with the letter z and names the encoding of addresses, with or
  without a personality function, language-specific data and the mark of a signal frame; addresses relative to their own place, to the
  text or to the data section, in any format but signed 2-byte and 8-byte, and no absolute ones; a data alignment other than -1), with or
  without a terminating record, the scan succeeds and appends for every frame record, in order, its personality function if it has
  one (when that is indirect, the word that holds its address), the start of its range (one further for a signal frame) and its
  language-specific data if it has one.
\<close>

theorem ehframescan_complete:
  assumes "d = enc_frames dr 0 [] fs @ post" and "fs \<noteq> [] \<or> post \<noteq> []" and "post = [] \<or> (\<exists>rest. post = le_bytes 4 (0 :: u32) @ rest)"
    and "valid_frames dr 0 [] fs" and "length d < 2 ^ 31" and "funclist_ok resp" and "length (funcs resp) + 3 * length fs < 2 ^ 62 - 3"
    and "ehFrameSection rec = Some frame" and "gelf_getshdr e frame = Some sh" and "section_named e sh"
    and "starts_at e (textSection rec) text" and "starts_at e (dataSection rec) dat"
    and "elf_getdata e frame = Some \<lparr> d_buf = Some d, d_size = length d, d_address = addr \<rparr>"
    and "dr = \<lparr> ehSecAddr = sh_addr sh, textSecAddr = text, dataSecAddr = dat, totalOffset = 0, fdeEnc = 0 \<rparr>"
  shows "\<exists>resp'. fnb_ehframescan junk e rec resp = Some (True, resp') \<and> funclist_ok resp' \<and>
    funcs resp' = funcs resp @ frames_functions dr 0 [] fs \<and> same_header resp' resp"
  using assms by (rule ehframescan_adds)

definition example_cie :: cie_spec where
  "example_cie = \<lparr> cs_version3 = False, cs_code = 1, cs_data = - 8, cs_ra = 16, cs_auglen = 7, cs_personality = Some (0x9b, 0x2000),
     cs_lsda = Some 0x1b, cs_enc = 0x1b, cs_signal = False, cs_rest = [12, 7, 8] \<rparr>"

definition example_fde :: "u64 \<Rightarrow> fde_spec" where
  "example_fde a = \<lparr> fs_cie = 0, fs_addr = a, fs_range = 0x30, fs_auglen = 4, fs_lsda = 0x3000, fs_rest = [0, 0] \<rparr>"

definition example_frames :: "frame list" where
  "example_frames = [Cie example_cie, Fde (example_fde 0x500), Fde (example_fde 0x540)]"

definition example_dr :: ehDecodeRecord_t where
  "example_dr = \<lparr> ehSecAddr = 0x1000, textSecAddr = 0, dataSecAddr = 0, totalOffset = 0, fdeEnc = 0 \<rparr>"

definition example_shdr :: GElf_Shdr where
  "example_shdr = \<lparr> sh_name = 1, sh_type = 1, sh_flags = 2, sh_addr = 0x1000, sh_offset = 0x1000, sh_size = 100, sh_link = 0, sh_entsize = 0 \<rparr>"

definition example_elf :: "byte list \<Rightarrow> Elf" where
  "example_elf d = \<lparr> gelf_getehdr = None, elf_getphdrnum = None, gelf_getphdr = (\<lambda>_. None), elf_getshdrnum = None, elf_getshdrstrndx = Some 5,
     elf_nextscn = (\<lambda>_. None), gelf_getshdr = (\<lambda>_. Some example_shdr), elf_strptr = (\<lambda>_ _. Some ''.eh_frame''), gelf_offscn = (\<lambda>_. None),
     elf_getdata = (\<lambda>_. Some \<lparr> d_buf = Some d, d_size = length d, d_address = 3 \<rparr>), gelf_getsym = (\<lambda>_ _. None) \<rparr>"

definition example_resp :: funclist where
  "example_resp = \<lparr> fl_entries = Some (replicate 8 0), fl_num_entries = 0, fl_max_entries = 8, fl_is_relocatable = True, fl_reference_offset = 0 \<rparr>"

lemma example_valid_frames: "valid_frames example_dr 0 [] example_frames"
proof -
  have c: "length (cie_body example_dr 0 example_cie) = 24" "rel_ok example_dr 0x9b (personality_pos 0 example_cie) 0x2000" by code_simp+
  have f: "length (fde_body example_dr p example_cie (example_fde a)) = 19" "rel_ok example_dr 0x1b (p + 8) a"
    "rel_ok example_dr 0x1b (range_pos example_dr p example_cie (example_fde a)) (range_word example_dr p example_cie (example_fde a))"
    "rel_ok example_dr 0x1b (lsda_pos example_dr p example_cie (example_fde a)) 0x3000"
    if "p = 28 \<and> a = 0x500 \<or> p = 51 \<and> a = 0x540" for p a
    using that by (elim disjE conjE; simp only: ; code_simp)+
  have "valid_cie example_dr 0 example_cie" using c by (simp add: valid_cie_def example_cie_def)
  moreover have "valid_fde example_dr p example_cie (example_fde a)" if "p = 28 \<and> a = 0x500 \<or> p = 51 \<and> a = 0x540" for p a
    using f [OF that] by (simp add: valid_fde_def example_fde_def example_cie_def DW_EH_PE_omit_def)
  ultimately show ?thesis using c f(1) by (simp add: example_frames_def enc_lengths) (simp add: example_fde_def)
qed

theorem ehframescan_complete_witness:
  "\<exists>resp'. fnb_ehframescan (\<lambda>_. undefined) (example_elf (enc_frames example_dr 0 [] example_frames))
      \<lparr> ehHdrSection = None, ehFrameSection = Some 3, textSection = None, dataSection = None \<rparr> example_resp = Some (True, resp') \<and>
    funcs resp' = [0x2000, 0x500, 0x3000, 0x2000, 0x540, 0x3000]"
proof -
  let ?d = "enc_frames example_dr 0 [] example_frames"
  let ?rec = "\<lparr> ehHdrSection = None, ehFrameSection = Some 3, textSection = None, dataSection = None \<rparr>"
  have l: "length ?d = 74" by code_simp
  have f: "funcs example_resp = []" "frames_functions example_dr 0 [] example_frames = [0x2000, 0x500, 0x3000, 0x2000, 0x540, 0x3000]"
    by code_simp+
  have r: "funclist_ok example_resp" by (simp add: funclist_ok_def example_resp_def)
  have h: "?d = ?d @ []" "example_frames \<noteq> [] \<or> [] \<noteq> []" "[] = [] \<or> (\<exists>rest. [] = le_bytes 4 (0 :: u32) @ rest)"
    "length ?d < 2 ^ 31" "length (funcs example_resp) + 3 * length example_frames < 2 ^ 62 - 3"
    using l by (simp_all add: f example_frames_def)
  have e: "ehFrameSection ?rec = Some 3" "gelf_getshdr (example_elf ?d) 3 = Some example_shdr" "section_named (example_elf ?d) example_shdr"
    "starts_at (example_elf ?d) (textSection ?rec) 0" "starts_at (example_elf ?d) (dataSection ?rec) 0"
    "elf_getdata (example_elf ?d) 3 = Some \<lparr> d_buf = Some ?d, d_size = length ?d, d_address = 3 \<rparr>"
    "example_dr = \<lparr> ehSecAddr = sh_addr example_shdr, textSecAddr = 0, dataSecAddr = 0, totalOffset = 0, fdeEnc = 0 \<rparr>"
    by (simp_all add: section_named_def example_elf_def starts_at_def example_dr_def example_shdr_def)
  from ehframescan_complete [OF h(1-3) example_valid_frames h(4) r h(5) e, of "\<lambda>_. undefined"] show ?thesis unfolding f by auto
qed

text \<open>
  C30. Where the decoder departs from the encoding it is given, because cases of its switches have no break: an absolute 8-byte address
  is taken as relative to its own position; a signed 2-byte distance is read as 4 bytes, and 6 are skipped; a signed 8-byte
  distance is refused.
\<close>

theorem decodeDwarfAddress_fallthrough:
  assumes "at_off d off bs" and "length bs = 8"
  shows "decodeDwarfAddress d addr off (r\<lparr> fdeEnc := DW_EH_PE_absptr \<rparr>) adv = Some (ehSecAddr r + totalOffset r + le_val bs, 8) \<and>
    decodeDwarfAddress d addr off (r\<lparr> fdeEnc := DW_EH_PE_pcrel OR DW_EH_PE_sdata2 \<rparr>) adv =
      Some (ehSecAddr r + totalOffset r + scast (le_val (take 4 bs) :: u32), 6) \<and>
    decodeDwarfAddress d addr off (r\<lparr> fdeEnc := DW_EH_PE_pcrel OR DW_EH_PE_sdata8 \<rparr>) adv = Some (EHF_DECDWRF_ERROR, 0)"
proof -
  have t: "at_off d off (take 2 bs)" "at_off d off (take 4 bs)"
    using assms at_off_append [of d off "take 2 bs" "drop 2 bs"] at_off_append [of d off "take 4 bs" "drop 4 bs"] by simp_all
  show ?thesis
    using read_unsigned [OF assms(1), of addr] read_signed(3) [OF assms, of addr] read_signed(1) [OF t(1), of addr] read_signed(2) [OF t(2), of addr] assms(2)
    by (simp add: decodeDwarfAddress_def dwarf_base_def DW_EH_PE_defs)
qed

theorem decodeDwarfAddress_fallthrough_witness:
  "decodeDwarfAddress [0x00, 0x05, 0, 0, 0, 0, 0, 0] 0 0 \<lparr> ehSecAddr = 0x1000, textSecAddr = 0, dataSecAddr = 0, totalOffset = 0x20, fdeEnc = 0 \<rparr> 0 =
    Some (0x1520, 8)"
proof -
  have "at_off [0x00, 0x05, 0, 0, 0, 0, 0, 0] 0 [0x00, 0x05, 0, 0, 0, 0, 0, 0]" by (simp add: at_off_def)
  from decodeDwarfAddress_fallthrough [OF this, of 0 "\<lparr> ehSecAddr = 0x1000, textSecAddr = 0, dataSecAddr = 0, totalOffset = 0x20, fdeEnc = 0 \<rparr>" 0]
  show ?thesis by (simp add: DW_EH_PE_absptr_def)
qed

text \<open>
  A common record that the scan does not support, with an augmentation that does not begin with the letter z, is not entered into the
  table: the first frame record that refers to it ends the scan with a failure, and the functions of all later records are missed.
\<close>

theorem ehframescan_unsupported_cie_aborts:
  assumes "at_off d 0 (le_bytes 4 (of_nat n :: u32) @ le_bytes 4 (0 :: u32))" and "0 < n" and "n < 2 ^ 32 - 1"
    and "byte_at d 8 \<noteq> None" and "byte_at d 9 = Some b" and "b \<noteq> 0x7a"
    and "at_off d (n + 4) (le_bytes 4 (of_nat m :: u32) @ le_bytes 4 (t :: u32))" and "0 < m" and "m < 2 ^ 32 - 1" and "t \<noteq> 0" and "n + 4 < dataSize"
  shows "scan_records d addr dr dataSize 0 0 cieTable resp = Some (False, resp)"
proof -
  obtain v where "byte_at d 8 = Some v" using assms(4) by auto
  then obtain c where "scan_cie d addr dr 0 (of_nat n) (cieTable 0) = Some (False, c)"
    using assms(5,6) by (simp add: scan_cie_def Let_def)
  then have "scan_records d addr dr dataSize 0 0 cieTable resp = scan_records d addr dr dataSize (n + 4) 0 (cieTable(0 := c)) resp"
    using scan_records_step [OF assms(1,3,2), of 0 cieTable resp addr dr 0 "cieTable(0 := c)" resp dataSize] assms(11) by simp
  moreover have "word_at d (n + 4) = Some (of_nat m)" "word_at d (n + 4 + 4) = Some t"
    using assms(7) by (simp_all add: at_off_append word_at_off)
  ultimately show ?thesis
    using assms(10) unat_length [OF assms(9,8)] by (subst (asm) (2) scan_records.simps) (simp add: scan_fde_def)
qed

theorem ehframescan_unsupported_cie_aborts_witness:
  "scan_records ([16, 0, 0, 0, 0, 0, 0, 0, 1, 0, 1, 0x78, 16, 0, 0, 0, 0, 0, 0, 0] @ [8, 0, 0, 0, 24, 0, 0, 0, 0, 0, 0, 0]) 0 example_dr 32 0 0
    (\<lambda>_. undefined) example_resp = Some (False, example_resp)"
proof -
  let ?d = "[16, 0, 0, 0, 0, 0, 0, 0, 1, 0, 1, 0x78, 16, 0, 0, 0, 0, 0, 0, 0] @ [8, 0, 0, 0, 24, 0, 0, 0, 0, 0, 0, 0] :: byte list"
  have "at_off ?d 0 (le_bytes 4 (of_nat 16 :: u32) @ le_bytes 4 (0 :: u32))" "at_off ?d (16 + 4) (le_bytes 4 (of_nat 8 :: u32) @ le_bytes 4 (24 :: u32))"
    by code_simp+
  from ehframescan_unsupported_cie_aborts [OF this(1) _ _ _ _ _ this(2), of 0] show ?thesis by (simp add: byte_at_def)
qed

end
