(* ===== verification/Fnbounds.thy ===== *)
theory Fnbounds
  imports Fnb_Frame Loadmap "HOL-Library.Sublist"
begin

text \<open>
  The table of functions of a load module: how it is built from the sections of the file (\<open>src/hpcrun/fnbounds/fnbounds.c\<close>), how it is
  searched (\<open>fnbounds_common.c\<close>), and how an instruction address is resolved through the load map (\<open>fnbounds_dynamic.c\<close>).
  The files are a parameter, what \<open>libelf\<close> tells about the file of a name, or nothing when it cannot be opened.
\<close>

section \<open>Building the table\<close>

definition MAX_FUNC :: u64 where "MAX_FUNC = 65536"

definition func_cmp :: "u64 \<Rightarrow> u64 \<Rightarrow> int" where
  "func_cmp fp1 fp2 = (if fp1 > fp2 then 1 else if fp1 < fp2 then - 1 else 0)"

text \<open>\<open>qsort\<close> of the C library: the order of elements that compare equal is unspecified there, and does not matter here.\<close>

fun insert_by :: "('a \<Rightarrow> 'a \<Rightarrow> int) \<Rightarrow> 'a \<Rightarrow> 'a list \<Rightarrow> 'a list" where
  "insert_by cmp x [] = [x]"
| "insert_by cmp x (y # ys) = (if cmp x y \<le> 0 then x # y # ys else y # insert_by cmp x ys)"

definition qsort :: "('a \<Rightarrow> 'a \<Rightarrow> int) \<Rightarrow> 'a list \<Rightarrow> 'a list" where
  "qsort cmp xs = foldr (insert_by cmp) xs []"

fun sym_loop :: "Elf \<Rightarrow> nat \<Rightarrow> GElf_Shdr \<Rightarrow> nat list \<Rightarrow> funclist \<Rightarrow> (bool \<times> funclist) option" where
  "sym_loop e data secHead [] resp = Some (True, resp)"
| "sym_loop e data secHead (ii # is) resp = (case gelf_getsym e data ii of None \<Rightarrow> Some (False, resp)
     | Some curSym \<Rightarrow>
        (case elf_strptr e (unat (sh_link secHead)) (st_name curSym) of None \<Rightarrow> Some (False, resp)
         | Some symName \<Rightarrow>
            if st_info curSym AND 0xf = 2 \<and> st_value curSym \<noteq> 0
            then (case fnb_add_function (st_value curSym) resp of None \<Rightarrow> None | Some resp \<Rightarrow> sym_loop e data secHead is resp)
            else sym_loop e data secHead is resp))"

definition symsecread :: "Elf \<Rightarrow> GElf_Shdr \<Rightarrow> funclist \<Rightarrow> (bool \<times> funclist) option" where
  "symsecread e secHead resp = (case gelf_offscn e (sh_offset secHead) of None \<Rightarrow> Some (False, resp)
     | Some sec \<Rightarrow>
        (case elf_getdata e sec of None \<Rightarrow> Some (False, resp)
         | Some _ \<Rightarrow>
            if sh_entsize secHead = 0 then None
            else sym_loop e sec secHead [0..<unat (sh_size secHead div sh_entsize secHead)] resp))"

definition dynsymread :: "Elf \<Rightarrow> GElf_Shdr \<Rightarrow> funclist \<Rightarrow> (bool \<times> funclist) option" where
  "dynsymread e sechdr resp = (if \<not> fnb_doSectionScan e sechdr then Some (False, resp) else symsecread e sechdr resp)"

definition symtabread :: "Elf \<Rightarrow> GElf_Shdr \<Rightarrow> funclist \<Rightarrow> (bool \<times> funclist) option" where
  "symtabread e sechdr resp = (if \<not> fnb_doSectionScan e sechdr then Some (False, resp) else symsecread e sechdr resp)"

definition SHT_PROGBITS :: u32 where "SHT_PROGBITS = 1"
definition SHT_SYMTAB :: u32 where "SHT_SYMTAB = 2"
definition SHT_DYNSYM :: u32 where "SHT_DYNSYM = 11"
definition SHF_ALLOC_EXECINSTR :: u64 where "SHF_ALLOC_EXECINSTR = 6"

record scan_state =
  ss_response :: funclist
  ss_ehInfo :: ehRecord_t
  ss_symTabPresent :: bool
  ss_dynSymIssue :: bool

text \<open>One section of the main loop, once its header and name are read.\<close>

definition section_bounds :: "GElf_Shdr \<Rightarrow> funclist \<Rightarrow> funclist option" where
  "section_bounds secHead resp =
    (if sh_flags secHead = SHF_ALLOC_EXECINSTR
     then (case fnb_add_function (sh_addr secHead) resp of None \<Rightarrow> None
           | Some resp \<Rightarrow> fnb_add_function (sh_addr secHead + sh_size secHead) resp)
     else Some resp)"

definition section_progbits :: "Elf \<Rightarrow> nat \<Rightarrow> GElf_Shdr \<Rightarrow> string \<Rightarrow> scan_state \<Rightarrow> scan_state option" where
  "section_progbits e sec secHead secName st =
    (let resp = ss_response st; set_resp = (\<lambda>r. st\<lparr> ss_response := snd r \<rparr>)
     in if secName = ''.plt'' then map_option set_resp (fnb_pltscan e secHead resp)
        else if secName = ''.plt.sec'' then map_option set_resp (fnb_pltsecscan e secHead resp)
        else if secName = ''.init'' then Some (set_resp (fnb_initscan e secHead resp))
        else if secName = ''.text''
          then Some ((set_resp (fnb_textscan e secHead resp))\<lparr> ss_ehInfo := (ss_ehInfo st)\<lparr> textSection := Some sec \<rparr> \<rparr>)
        else if secName = ''.data''
          then Some ((set_resp (fnb_textscan e secHead resp))\<lparr> ss_ehInfo := (ss_ehInfo st)\<lparr> dataSection := Some sec \<rparr> \<rparr>)
        else if secName = ''.fini'' then Some (set_resp (fnb_finiscan e secHead resp))
        else if secName = ''.eh_frame_hdr'' then Some (st\<lparr> ss_ehInfo := (ss_ehInfo st)\<lparr> ehHdrSection := Some sec \<rparr> \<rparr>)
        else if secName = ''.eh_frame'' then Some (st\<lparr> ss_ehInfo := (ss_ehInfo st)\<lparr> ehFrameSection := Some sec \<rparr> \<rparr>)
        else if secName = ''.altinstr_replacement'' then Some (set_resp (fnb_altinstr_replacementscan e secHead resp))
        else Some st)"

definition process_section :: "Elf \<Rightarrow> nat \<Rightarrow> GElf_Shdr \<Rightarrow> string \<Rightarrow> scan_state \<Rightarrow> scan_state option" where
  "process_section e sec secHead secName st = (case section_bounds secHead (ss_response st) of None \<Rightarrow> None
     | Some resp \<Rightarrow>
        (let st = st\<lparr> ss_response := resp \<rparr>
         in if sh_type secHead = SHT_SYMTAB
            then map_option (\<lambda>(rf, resp). st\<lparr> ss_response := resp, ss_symTabPresent := (if rf \<and> \<not> ss_dynSymIssue st then True else ss_symTabPresent st) \<rparr>)
              (symtabread e secHead resp)
            else if sh_type secHead = SHT_DYNSYM
            then map_option (\<lambda>(rf, resp). if rf then st\<lparr> ss_response := resp \<rparr>
                else st\<lparr> ss_response := resp, ss_dynSymIssue := True, ss_symTabPresent := False \<rparr>) (dynsymread e secHead resp)
            else if sh_type secHead = SHT_PROGBITS then section_progbits e sec secHead secName st
            else Some st))"

text \<open>
  The main loop over the sections after the first, number 0; \<open>Inl\<close> is the early return with a freed table, when \<open>libelf\<close> reports an error.
\<close>

fun section_loop :: "Elf \<Rightarrow> nat \<Rightarrow> nat \<Rightarrow> nat option \<Rightarrow> scan_state \<Rightarrow> (funclist + scan_state) option" where
  "section_loop e strndx 0 section st = Some (Inr st)"
| "section_loop e strndx (Suc n) section st =
    (let failed = (ss_response st)\<lparr> fl_entries := None, fl_max_entries := 0 \<rparr>
     in case elf_nextscn e section of None \<Rightarrow> Some (Inl failed)
        | Some sec \<Rightarrow>
           (case gelf_getshdr e sec of None \<Rightarrow> Some (Inl failed)
            | Some secHead \<Rightarrow>
               (case elf_strptr e strndx (sh_name secHead) of None \<Rightarrow> Some (Inl failed)
                | Some secName \<Rightarrow>
                   (case process_section e sec secHead secName st of None \<Rightarrow> None
                    | Some st \<Rightarrow> section_loop e strndx n (Some sec) st))))"

function unique_loop :: "u64 list \<Rightarrow> nat \<Rightarrow> nat \<Rightarrow> nat \<Rightarrow> u64 list \<times> nat" where
  "unique_loop entries lastunique i n =
    (if i < n
     then (if entries ! lastunique \<noteq> entries ! i
           then unique_loop (entries[Suc lastunique := entries ! i]) (Suc lastunique) (Suc i) n
           else unique_loop entries lastunique (Suc i) n)
     else (entries, lastunique))"
  by pat_completeness auto
termination
  by (relation "measure (\<lambda>(entries, lastunique, i, n). n - i)") auto

declare unique_loop.simps [simp del]

definition sort_unique :: "funclist \<Rightarrow> funclist option" where
  "sort_unique resp = (case fl_entries resp of None \<Rightarrow> None
     | Some entries \<Rightarrow>
        (let n = unat (fl_num_entries resp)
         in if n > length entries then None
            else (let entries = qsort func_cmp (take n entries) @ drop n entries
                  in if n > 0
                     then (case unique_loop entries 0 1 n of (entries, lastunique) \<Rightarrow>
                            Some (resp\<lparr> fl_entries := Some entries, fl_num_entries := of_nat lastunique + 1 \<rparr>))
                     else Some (resp\<lparr> fl_entries := Some entries \<rparr>))))"

fun phdr_loop :: "Elf \<Rightarrow> nat list \<Rightarrow> u64 option option" where
  "phdr_loop e [] = Some None"
| "phdr_loop e (j # js) = (case gelf_getphdr e j of None \<Rightarrow> None
     | Some p \<Rightarrow> if p_type p = 1 \<and> p_flags p AND 1 = 1 then Some (Some (p_vaddr p)) else phdr_loop e js)"

definition response0 :: funclist where
  "response0 = \<lparr> fl_entries = None, fl_num_entries = 0, fl_max_entries = 0, fl_is_relocatable = False, fl_reference_offset = 0 \<rparr>"

definition process_mapped_header :: "(nat \<Rightarrow> ehCIERecord_t) \<Rightarrow> Elf \<Rightarrow> funclist option" where
  "process_mapped_header junk lelf = (case gelf_getehdr lelf of None \<Rightarrow> Some response0
     | Some ehdr \<Rightarrow>
        if e_magic ehdr \<noteq> [0x7f, 0x45, 0x4c, 0x46] \<or> e_class ehdr \<noteq> 2 \<or> (e_type ehdr \<noteq> 2 \<and> e_type ehdr \<noteq> 3) then Some response0
        else (let response = response0\<lparr> fl_is_relocatable := (e_type ehdr = 3) \<rparr>
              in case elf_getphdrnum lelf of None \<Rightarrow> Some response
                 | Some jn \<Rightarrow>
                    (case phdr_loop lelf [0..<jn] of Some (Some vaddr) \<Rightarrow>
                        (let response = response\<lparr> fl_reference_offset := vaddr \<rparr>
                         in case (elf_getshdrnum lelf, elf_getshdrstrndx lelf) of
                             (Some nsec, Some secHeadStringIndex) \<Rightarrow>
                               (case section_loop lelf secHeadStringIndex (nsec - 1) None
                                   \<lparr> ss_response = response\<lparr> fl_entries := Some (replicate (unat MAX_FUNC) 0), fl_max_entries := MAX_FUNC \<rparr>,
                                     ss_ehInfo = \<lparr> ehHdrSection = None, ehFrameSection = None, textSection = None, dataSection = None \<rparr>,
                                     ss_symTabPresent = False, ss_dynSymIssue = False \<rparr> of
                                  None \<Rightarrow> None
                                | Some (Inl failed) \<Rightarrow> Some failed
                                | Some (Inr st) \<Rightarrow>
                                   (case (if \<not> ss_symTabPresent st then map_option snd (fnb_ehframescan junk lelf (ss_ehInfo st) (ss_response st))
                                          else Some (ss_response st)) of None \<Rightarrow> None
                                    | Some resp \<Rightarrow> sort_unique resp))
                           | _ \<Rightarrow> Some response)
                     | _ \<Rightarrow> Some response)))"

definition process_vdso :: funclist where
  "process_vdso = response0"

definition fnb_get_funclist :: "(nat \<Rightarrow> ehCIERecord_t) \<Rightarrow> (c_string \<Rightarrow> Elf option) \<Rightarrow> c_string \<Rightarrow> funclist option" where
  "fnb_get_funclist junk files name =
    (if name = [0x5b, 0x76, 0x64, 0x73, 0x6f, 0x5d] then Some process_vdso
     else (case files name of None \<Rightarrow> Some response0 | Some e \<Rightarrow> process_mapped_header junk e))"

section \<open>Searching the table\<close>

definition table_at :: "u64 list \<Rightarrow> int \<Rightarrow> u64 option" where
  "table_at table i = (if 0 \<le> i \<and> i < int (length table) then Some (table ! nat i) else None)"

definition middle :: "int \<Rightarrow> int \<Rightarrow> int option" where
  "middle lo high = (if lo + high < 0x80000000 then Some ((lo + high) div 2) else None)"

partial_function (option) lookup_loop :: "u64 list \<Rightarrow> u64 \<Rightarrow> int \<Rightarrow> int \<Rightarrow> int \<Rightarrow> int option" where
  "lookup_loop table ip lo high mid =
    (if lo = mid then Some lo
     else (case table_at table mid of None \<Rightarrow> None
           | Some v \<Rightarrow>
              (let lo = (if ip \<ge> v then mid else lo); high = (if ip \<ge> v then high else mid)
               in case middle lo high of None \<Rightarrow> None | Some mid \<Rightarrow> lookup_loop table ip lo high mid)))"

declare lookup_loop.simps [code]

text \<open>The result is the return code, 0 for success, and the values stored through \<open>start\<close> and \<open>end\<close>.\<close>

definition fnbounds_table_lookup :: "u64 list \<Rightarrow> int \<Rightarrow> u64 \<Rightarrow> (int \<times> u64 \<times> u64) option" where
  "fnbounds_table_lookup table len ip =
    (let last_i = len - 1
     in case table_at table 0 of None \<Rightarrow> None
        | Some first \<Rightarrow>
           if ip < first then Some (1, 0, 0)
           else (case table_at table last_i of None \<Rightarrow> None
             | Some end_v \<Rightarrow>
                if ip \<ge> end_v then Some (1, 0, 0)
                else (case middle 0 last_i of None \<Rightarrow> None
                  | Some mid \<Rightarrow>
                    (case lookup_loop table ip 0 last_i mid of None \<Rightarrow> None
                     | Some lo \<Rightarrow>
                        (case (table_at table lo, table_at table (lo + 1)) of (Some s, Some e) \<Rightarrow> Some (0, s, e) | _ \<Rightarrow> None)))))"

section \<open>The table is sorted and has no duplicates\<close>

lemma insert_by_insort: "insert_by func_cmp x ys = insort x ys"
  by (induction ys) (auto simp: func_cmp_def not_less)

lemma qsort_sort: "qsort func_cmp xs = sort xs"
  by (simp add: qsort_def sort_key_def insert_by_insort [abs_def])

lemma remdups_adj_snoc:
  "xs \<noteq> [] \<Longrightarrow> remdups_adj (xs @ [y]) = (if last xs = y then remdups_adj xs else remdups_adj xs @ [y])"
  by (induction xs rule: remdups_adj.induct) auto

lemma sorted_remdups_adj_strict: "sorted xs \<Longrightarrow> sorted_wrt (<) (remdups_adj xs)" for xs :: "'a::linorder list"
  by (induction xs rule: remdups_adj.induct) (auto simp: less_le)

lemma unique_loop_remdups:
  assumes "take (Suc l) es = remdups_adj (take i xs)" and "drop i es = drop i xs" and "length es = length xs" and "0 < i" and "i \<le> n" and "n \<le> length xs"
    and "l < i" and "unique_loop es l i n = (es', l')"
  shows "take (Suc l') es' = remdups_adj (take n xs) \<and> length es' = length xs \<and> l' < n"
  using assms
proof (induction es l i n rule: unique_loop.induct)
  case (1 es l i n)
  show ?case
  proof (cases "i < n")
    case False
    then show ?thesis using "1.prems" unique_loop.simps [of es l i n] by auto
  next
    case True
    have i: "i < length xs" using True "1.prems"(6) by simp
    then have ei: "es ! i = xs ! i" using "1.prems"(2,3) by (metis hd_drop_conv_nth)
    have "take i xs \<noteq> []" using i "1.prems"(4) by auto
    then have "es ! l = last (take i xs)"
      using "1.prems"(1,3,7) i last_remdups_adj [of "take i xs"] by (metis (no_types, lifting) last_snoc less_trans take_Suc_conv_app_nth)
    then have t: "take (Suc i) xs = take i xs @ [xs ! i]"
      "remdups_adj (take (Suc i) xs) = (if es ! l = xs ! i then remdups_adj (take i xs) else remdups_adj (take i xs) @ [xs ! i])"
      using remdups_adj_snoc [OF \<open>take i xs \<noteq> []\<close>] i by (simp_all add: take_Suc_conv_app_nth)
    have d: "drop (Suc i) es = drop (Suc i) xs" using "1.prems"(2) by (metis drop_Suc drop_drop drop_tl plus_1_eq_Suc tl_drop)
    show ?thesis
    proof (cases "es ! l \<noteq> es ! i")
      case neq: True
      let ?es = "es[Suc l := es ! i]"
      have "take (Suc (Suc l)) ?es = remdups_adj (take (Suc i) xs)"
        using "1.prems"(1,3,7) i neq t(2) ei by (simp add: take_Suc_conv_app_nth [of "Suc l"])
      moreover have "drop (Suc i) ?es = drop (Suc i) xs" using d "1.prems"(7) by simp
      moreover have "unique_loop ?es (Suc l) (Suc i) n = (es', l')" using "1.prems"(8) True neq by (simp add: unique_loop.simps [of es l i n])
      ultimately show ?thesis using "1.IH"(1) [OF True neq] "1.prems"(3-7) True by simp
    next
      case eq: False
      then have "unique_loop es l (Suc i) n = (es', l')" using "1.prems"(8) True by (simp add: unique_loop.simps [of es l i n])
      then show ?thesis using "1.IH"(2) [OF True eq] "1.prems" True eq t(2) ei d by simp
    qed
  qed
qed

lemma sort_unique_sorted:
  assumes "funclist_ok resp"
  shows "\<exists>resp'. sort_unique resp = Some resp' \<and> funcs resp' = sorted_list_of_set (set (funcs resp)) \<and> same_header resp' resp \<and>
    fl_entries resp' \<noteq> None \<and> length (funcs resp') = unat (fl_num_entries resp')"
proof -
  let ?n = "unat (fl_num_entries resp)"
  obtain es where es: "fl_entries resp = Some es" "?n < length es" using assms by (auto simp: funclist_ok_def)
  let ?xs = "sort (take ?n es) @ drop ?n es"
  have q: "qsort func_cmp (take ?n es) = sort (take ?n es)" by (rule qsort_sort)
  show ?thesis
  proof (cases "?n > 0")
    case False
    then show ?thesis using es by (auto simp: sort_unique_def q funcs_def same_header_def Let_def)
  next
    case True
    obtain es' l where u: "unique_loop ?xs 0 1 ?n = (es', l)" by fastforce
    have "take (Suc 0) zs = remdups_adj (take 1 zs)" for zs :: "u64 list" by (cases zs) auto
    from unique_loop_remdups [OF this _ _ _ _ _ _ u] True es(2)
    have r: "take (Suc l) es' = remdups_adj (sort (take ?n es))" "length es' = length es" "l < ?n" by simp_all
    have "?n < 2 ^ 64" by (rule less_le_trans [OF unsigned_less]) simp
    then have l1: "unat (of_nat l + 1 :: u64) = Suc l"
      using r(3) by (simp add: unat_word_ariths unsigned_of_nat take_bit_nat_eq_self)
    have "remdups_adj (sort (take ?n es)) = sorted_list_of_set (set (take ?n es))"
      by (rule strict_sorted_equal) (simp_all add: sorted_remdups_adj_strict)
    then show ?thesis using es True u r l1
      by (auto simp: sort_unique_def q funcs_def same_header_def Let_def)
  qed
qed

section \<open>The search\<close>

lemma table_at_nth: "i < length T \<Longrightarrow> table_at T (int i) = Some (T ! i)"
  by (simp add: table_at_def)

lemma lookup_loop_finds:
  assumes "lo < high" and "high < length T" and "high < 2 ^ 30" and "T ! lo \<le> ip" and "ip < T ! high"
  shows "\<exists>k. lookup_loop T ip (int lo) (int high) ((int lo + int high) div 2) = Some (int k) \<and> Suc k \<le> high \<and> T ! k \<le> ip \<and> ip < T ! Suc k"
  using assms
proof (induction "high - lo" arbitrary: lo high rule: less_induct)
  case less
  let ?m = "(lo + high) div 2"
  have m: "(int lo + int high) div 2 = int ?m" by simp
  show ?case
  proof (cases "Suc lo = high")
    case True
    then have "?m = lo" by simp
    then show ?thesis using less.prems True by (subst lookup_loop.simps) (auto simp: m)
  next
    case False
    then have mid: "lo < ?m" "?m < high" using less.prems(1) by auto
    have at: "table_at T (int ?m) = Some (T ! ?m)" using mid less.prems(2) by (intro table_at_nth) simp
    have mi: "middle (int a) (int b) = Some ((int a + int b) div 2)" if "a \<le> high" "b \<le> high" for a b
      using that less.prems(2,3) by (simp add: middle_def)
    show ?thesis
    proof (cases "ip \<ge> T ! ?m")
      case True
      then have "lookup_loop T ip (int lo) (int high) ((int lo + int high) div 2) =
          lookup_loop T ip (int ?m) (int high) ((int ?m + int high) div 2)"
        using mid at mi [of ?m high] by (subst lookup_loop.simps) (simp add: m Let_def)
      then show ?thesis using less.hyps [of high ?m] less.prems mid True by auto
    next
      case False
      then have "lookup_loop T ip (int lo) (int high) ((int lo + int high) div 2) =
          lookup_loop T ip (int lo) (int ?m) ((int lo + int ?m) div 2)"
        using mid at mi [of lo ?m] by (subst lookup_loop.simps) (simp add: m Let_def)
      moreover have "\<exists>k. lookup_loop T ip (int lo) (int ?m) ((int lo + int ?m) div 2) = Some (int k) \<and> Suc k \<le> ?m \<and> T ! k \<le> ip \<and> ip < T ! Suc k"
        using less.hyps [of ?m lo] less.prems mid False by simp
      moreover have "Suc k \<le> high" if "Suc k \<le> ?m" for k using that mid(2) by linarith
      ultimately show ?thesis by fastforce
    qed
  qed
qed

definition enclosing :: "u64 list \<Rightarrow> u64 \<Rightarrow> (u64 \<times> u64) option" where
  "enclosing T ip = (let below = filter (\<lambda>x. x \<le> ip) T; above = filter (\<lambda>x. ip < x) T
     in if below = [] \<or> above = [] then None else Some (Max (set below), Min (set above)))"

lemma enclosing_nth:
  assumes "sorted T" and "Suc k < length T" and "T ! k \<le> ip" and "ip < T ! Suc k"
  shows "enclosing T ip = Some (T ! k, T ! Suc k)"
proof -
  have le: "T ! i \<le> T ! j" if "i \<le> j" "j < length T" for i j using assms(1) that by (rule sorted_nth_mono)
  have "Max (set (filter (\<lambda>x. x \<le> ip) T)) = T ! k"
  proof (rule Max_eqI)
    fix y
    assume "y \<in> set (filter (\<lambda>x. x \<le> ip) T)"
    then obtain i where i: "i < length T" "y = T ! i" "T ! i \<le> ip" by (auto simp: in_set_conv_nth)
    then have "\<not> Suc k \<le> i" using le [of "Suc k" i] assms(4) by auto
    then show "y \<le> T ! k" using le [of i k] i assms(2) by simp
  qed (use assms(2,3) in auto)
  moreover have "Min (set (filter (\<lambda>x. ip < x) T)) = T ! Suc k"
  proof (rule Min_eqI)
    fix y
    assume "y \<in> set (filter (\<lambda>x. ip < x) T)"
    then obtain i where i: "i < length T" "y = T ! i" "ip < T ! i" by (auto simp: in_set_conv_nth)
    then have "\<not> i \<le> k" using le [of i k] assms(2,3) by auto
    then show "T ! Suc k \<le> y" using le [of "Suc k" i] i by simp
  qed (use assms(2,4) in auto)
  moreover have "filter (\<lambda>x. x \<le> ip) T \<noteq> []" "filter (\<lambda>x. ip < x) T \<noteq> []"
    using assms(2-4) by (auto simp: filter_empty_conv)
  ultimately show ?thesis by (simp add: enclosing_def Let_def)
qed

lemma enclosing_None:
  assumes "sorted T" and "T \<noteq> []" and "ip < hd T \<or> ip \<ge> last T"
  shows "enclosing T ip = None"
proof -
  have "hd T \<le> x \<and> x \<le> last T" if x: "x \<in> set T" for x
  proof -
    obtain i where "i < length T" "x = T ! i" using x by (auto simp: in_set_conv_nth)
    then show ?thesis
      using sorted_nth_mono [OF assms(1), of 0 i] sorted_nth_mono [OF assms(1), of i "length T - 1"] assms(2)
      by (simp add: hd_conv_nth last_conv_nth)
  qed
  then have "filter (\<lambda>x. x \<le> ip) T = [] \<or> filter (\<lambda>x. ip < x) T = []"
    using assms(3) by (fastforce simp: filter_empty_conv)
  then show ?thesis by (auto simp: enclosing_def Let_def)
qed

lemma table_lookup_enclosing:
  assumes "sorted (take n T)" and "0 < n" and "n \<le> length T" and "n \<le> 2 ^ 30"
  shows "fnbounds_table_lookup T (int n) ip = Some (case enclosing (take n T) ip of None \<Rightarrow> (1, 0, 0) | Some (s, e) \<Rightarrow> (0, s, e))"
proof -
  let ?T = "take n T"
  have l: "int n - 1 = int (n - 1)" using assms(2) by simp
  have ne: "T \<noteq> []" using assms(2,3) by auto
  then have ends: "?T \<noteq> []" "hd ?T = T ! 0" "last ?T = T ! (n - 1)"
    using assms(2,3) hd_conv_nth [of ?T] last_conv_nth [of ?T] by (auto simp: min_def)
  have f: "table_at T 0 = Some (T ! 0)" "table_at T (int (n - 1)) = Some (T ! (n - 1))"
    using assms(2,3) ne table_at_nth [of 0 T] table_at_nth [of "n - 1" T] by simp_all
  show ?thesis
  proof (cases "ip < T ! 0 \<or> ip \<ge> T ! (n - 1)")
    case True
    then have "enclosing ?T ip = None" using enclosing_None [OF assms(1) ends(1)] unfolding ends by blast
    then show ?thesis unfolding fnbounds_table_lookup_def l Let_def f option.case using True by auto
  next
    case False
    then have "T ! 0 \<le> ip" "ip < T ! (n - 1)" by (auto simp: not_less not_le)
    moreover from this have "0 < n - 1" by (cases "n - 1 = 0") auto
    moreover have "n - 1 < length T" "n - 1 < 2 ^ 30" using assms(2-4) by simp_all
    ultimately obtain k where k: "lookup_loop T ip (int 0) (int (n - 1)) ((int 0 + int (n - 1)) div 2) = Some (int k)"
        "Suc k \<le> n - 1" "T ! k \<le> ip" "ip < T ! Suc k"
      using lookup_loop_finds [of 0 "n - 1" T ip] by blast
    then have "Suc k < n" using assms(2) by linarith
    note k = k(1) this k(3,4)
    have en: "enclosing ?T ip = Some (T ! k, T ! Suc k)"
      using enclosing_nth [OF assms(1), of k ip] k(2-4) assms(3) by simp
    have "middle 0 (int (n - 1)) = Some (int (n - 1) div 2)" using assms(4) by (simp add: middle_def)
    moreover have "table_at T (int k) = Some (T ! k)" "table_at T (int k + 1) = Some (T ! Suc k)"
      using table_at_nth [of k T] table_at_nth [of "Suc k" T] k(2) assms(3) by (simp_all add: add.commute)
    moreover have "lookup_loop T ip 0 (int (n - 1)) (int (n - 1) div 2) = Some (int k)" using k(1) by simp
    ultimately show ?thesis using False unfolding fnbounds_table_lookup_def l Let_def f en by simp
  qed
qed

section \<open>What a file contributes\<close>

text \<open>
  \<open>collects m r vs\<close>: the scan \<open>m\<close> returns \<open>r\<close> and appends the addresses \<open>vs\<close> to any list of functions that has room for them.
\<close>

definition collects :: "(funclist \<Rightarrow> ('a \<times> funclist) option) \<Rightarrow> 'a \<Rightarrow> u64 list \<Rightarrow> bool" where
  "collects m r vs \<longleftrightarrow> (\<forall>resp. funclist_ok resp \<longrightarrow> length (funcs resp) + length vs < 2 ^ 61 \<longrightarrow>
     (\<exists>resp'. m resp = Some (r, resp') \<and> funclist_ok resp' \<and> funcs resp' = funcs resp @ vs \<and> same_header resp' resp))"

lemma same_header_trans: "same_header a b \<Longrightarrow> same_header b c \<Longrightarrow> same_header a c"
  by (simp add: same_header_def)

lemma same_header_refl [simp]: "same_header a a"
  by (simp add: same_header_def)

lemma collects_return: "collects (\<lambda>resp. Some (r, resp)) r []"
  by (simp add: collects_def)

lemma collects_add: "collects (\<lambda>resp. map_option (Pair r) (fnb_add_function v resp)) r [v]"
  unfolding collects_def
proof (intro allI impI)
  fix resp
  assume "funclist_ok resp" "length (funcs resp) + length [v] < 2 ^ 61"
  then show "\<exists>resp'. map_option (Pair r) (fnb_add_function v resp) = Some (r, resp') \<and> funclist_ok resp' \<and> funcs resp' = funcs resp @ [v] \<and>
      same_header resp' resp"
    using fnb_add_function_adds [of resp v] by auto
qed

lemma collects_bind:
  assumes "collects m r vs" and "collects m' r' ws" and "\<And>resp. n resp = (case m resp of None \<Rightarrow> None | Some (_, resp) \<Rightarrow> m' resp)"
  shows "collects n r' (vs @ ws)"
  unfolding collects_def
proof (intro allI impI)
  fix resp
  assume a: "funclist_ok resp" "length (funcs resp) + length (vs @ ws) < 2 ^ 61"
  then obtain s where s: "m resp = Some (r, s)" "funclist_ok s" "funcs s = funcs resp @ vs" "same_header s resp"
    using assms(1) by (auto simp: collects_def)
  then obtain t where "m' s = Some (r', t)" "funclist_ok t" "funcs t = funcs s @ ws" "same_header t s"
    using assms(2) a(2) by (auto simp: collects_def)
  with s show "\<exists>resp'. n resp = Some (r', resp') \<and> funclist_ok resp' \<and> funcs resp' = funcs resp @ (vs @ ws) \<and> same_header resp' resp"
    using assms(3) [of resp] same_header_trans by auto
qed

lemma collects_eq: "collects m r vs \<Longrightarrow> (\<And>resp. n resp = m resp) \<Longrightarrow> collects n r vs"
  by (simp add: collects_def)

definition plt_entries :: "GElf_Shdr \<Rightarrow> u64 list" where
  "plt_entries sh = map (\<lambda>i. sh_addr sh + of_nat i * sh_entsize sh) [1..<Suc ((unat (sh_size sh) - 1) div unat (sh_entsize sh))]"

definition symbols :: "Elf \<Rightarrow> GElf_Shdr \<Rightarrow> GElf_Sym list" where
  "symbols e sh = (case gelf_offscn e (sh_offset sh) of None \<Rightarrow> []
     | Some sec \<Rightarrow> concat (map (\<lambda>i. case gelf_getsym e sec i of None \<Rightarrow> [] | Some s \<Rightarrow> [s]) [0..<unat (sh_size sh div sh_entsize sh)]))"

definition symbol_functions :: "GElf_Sym list \<Rightarrow> u64 list" where
  "symbol_functions syms = map st_value (filter (\<lambda>s. st_info s AND 0xf = 2 \<and> st_value s \<noteq> 0) syms)"

definition symbols_ok :: "Elf \<Rightarrow> GElf_Shdr \<Rightarrow> bool" where
  "symbols_ok e sh \<longleftrightarrow> sh_entsize sh \<noteq> 0 \<and> (case gelf_offscn e (sh_offset sh) of None \<Rightarrow> False
     | Some sec \<Rightarrow> elf_getdata e sec \<noteq> None \<and>
        (\<forall>i < unat (sh_size sh div sh_entsize sh). \<exists>s. gelf_getsym e sec i = Some s \<and> elf_strptr e (unat (sh_link sh)) (st_name s) \<noteq> None))"

lemma sym_loop_collects:
  assumes "\<And>i. i \<in> set is \<Longrightarrow> \<exists>s. gelf_getsym e sec i = Some s \<and> elf_strptr e (unat (sh_link sh)) (st_name s) \<noteq> None"
  shows "collects (sym_loop e sec sh is) True (symbol_functions (concat (map (\<lambda>i. case gelf_getsym e sec i of None \<Rightarrow> [] | Some s \<Rightarrow> [s]) is)))"
  using assms
proof (induction "is")
  case Nil
  show ?case using collects_return [of True] by (simp add: symbol_functions_def)
next
  case (Cons i "is")
  obtain s where s: "gelf_getsym e sec i = Some s" "elf_strptr e (unat (sh_link sh)) (st_name s) \<noteq> None"
    using Cons.prems [of i] by auto
  show ?case
  proof (cases "st_info s AND 0xf = 2 \<and> st_value s \<noteq> 0")
    case True
    have "collects (sym_loop e sec sh (i # is)) True ([st_value s] @ symbol_functions (concat (map (\<lambda>i. case gelf_getsym e sec i of None \<Rightarrow> [] | Some s \<Rightarrow> [s]) is)))"
      by (rule collects_bind [OF collects_add [of "()"] Cons.IH]) (use Cons.prems s True in \<open>auto split: option.split\<close>)
    then show ?thesis using s True by (simp add: symbol_functions_def del: sym_loop.simps)
  next
    case False
    then show ?thesis using Cons.IH Cons.prems s by (auto simp: symbol_functions_def elim!: collects_eq split: option.split)
  qed
qed

lemma symsecread_collects:
  assumes "symbols_ok e sh"
  shows "collects (symsecread e sh) True (symbol_functions (symbols e sh))"
proof -
  obtain sec where sec: "gelf_offscn e (sh_offset sh) = Some sec" "elf_getdata e sec \<noteq> None" "sh_entsize sh \<noteq> 0"
    "\<And>i. i < unat (sh_size sh div sh_entsize sh) \<Longrightarrow> \<exists>s. gelf_getsym e sec i = Some s \<and> elf_strptr e (unat (sh_link sh)) (st_name s) \<noteq> None"
    using assms by (auto simp: symbols_ok_def split: option.splits)
  from sec(2) obtain dat where "elf_getdata e sec = Some dat" by auto
  then show ?thesis
    using sec(1,3) sym_loop_collects [of "[0..<unat (sh_size sh div sh_entsize sh)]" e sec sh] sec(4)
    by (auto simp: symbols_def symsecread_def intro: collects_eq)
qed

lemma plt_loop_collects:
  assumes "\<And>i. i < n \<Longrightarrow> a + of_nat i * sz < b" and "\<not> a + of_nat n * sz < b"
  shows "collects (\<lambda>resp. map_option (Pair True) (plt_loop a b sz resp)) True (map (\<lambda>i. a + of_nat i * sz) [0..<n])"
  using assms
proof (induction n arbitrary: a)
  case 0
  then have "plt_loop a b sz resp = Some resp" for resp by (subst plt_loop.simps) simp
  then show ?case using collects_eq [OF collects_return [of True], of "\<lambda>resp. map_option (Pair True) (plt_loop a b sz resp)"] by simp
next
  case (Suc n)
  have "a + sz + of_nat i * sz < b" if "i < n" for i using Suc.prems(1) [of "Suc i"] that by (simp add: algebra_simps)
  moreover have "\<not> a + sz + of_nat n * sz < b" using Suc.prems(2) by (simp add: algebra_simps)
  ultimately have ih: "collects (\<lambda>resp. map_option (Pair True) (plt_loop (a + sz) b sz resp)) True (map (\<lambda>i. (a + sz) + of_nat i * sz) [0..<n])"
    using Suc.IH by blast
  have m: "map (\<lambda>i. a + of_nat i * sz) [0..<Suc n] = [a] @ map (\<lambda>i. (a + sz) + of_nat i * sz) [0..<n]"
    by (simp add: upt_conv_Cons map_Suc_upt [symmetric] algebra_simps del: upt_Suc)
  show ?case unfolding m
    by (rule collects_bind [OF collects_add [of "()"] ih])
      (use Suc.prems(1) [of 0] in \<open>subst plt_loop.simps, auto split: option.split\<close>)
qed

definition plt_ok :: "GElf_Shdr \<Rightarrow> bool" where
  "plt_ok sh \<longleftrightarrow> unat (sh_addr sh) + unat (sh_size sh) + unat (sh_entsize sh) < 2 ^ 64"

lemma plt_collects:
  assumes "plt_ok sh" and "fnb_doSectionScan e sh"
  shows "collects (fnb_pltscan e sh) True (if sh_entsize sh = 0 then [] else plt_entries sh)" "fnb_pltsecscan e sh = fnb_pltscan e sh"
proof -
  show "fnb_pltsecscan e sh = fnb_pltscan e sh" by (rule ext) (simp add: fnb_pltsecscan_def fnb_pltscan_def)
  let ?a = "unat (sh_addr sh)" and ?s = "unat (sh_size sh)" and ?z = "unat (sh_entsize sh)"
  show "collects (fnb_pltscan e sh) True (if sh_entsize sh = 0 then [] else plt_entries sh)"
  proof (cases "sh_entsize sh = 0")
    case True
    then show ?thesis using assms(2) collects_eq [OF collects_return [of True], of "fnb_pltscan e sh"] by (simp add: fnb_pltscan_def Let_def)
  next
    case False
    let ?n = "(?s - 1) div ?z"
    have z: "?z > 0" using False by (simp add: unat_gt_0)
    have w: "?a + ?s + ?z < 2 ^ 64" using assms(1) by (simp add: plt_ok_def)
    have u: "unat (sh_addr sh + of_nat i * sh_entsize sh) = ?a + i * ?z" if i: "i * ?z \<le> ?s + ?z" for i
    proof -
      have "i * 1 \<le> i * ?z" using z by (intro mult_le_mono2) simp
      then have "i < 2 ^ 64" using i w by linarith
      then have "unat (of_nat i * sh_entsize sh) = i * ?z"
        using i w by (simp add: unat_word_ariths unsigned_of_nat take_bit_nat_eq_self)
      then show ?thesis using i w by (simp add: unat_word_ariths)
    qed
    have b: "unat (sh_addr sh + sh_size sh) = ?a + ?s" using w by (simp add: unat_word_ariths)
    have eq: "sh_addr sh + sh_entsize sh + of_nat i * sh_entsize sh = sh_addr sh + of_nat (Suc i) * sh_entsize sh" for i
      by (simp add: algebra_simps)
    have lt: "sh_addr sh + sh_entsize sh + of_nat i * sh_entsize sh < sh_addr sh + sh_size sh" if i: "i < ?n" for i
    proof -
      have "Suc i * ?z \<le> ?n * ?z" using i by (intro mult_le_mono1) simp
      also have "\<dots> \<le> ?s - 1" by simp
      finally have "Suc i * ?z \<le> ?s - 1" .
      moreover have "?s > 0" using i by (cases ?s) auto
      ultimately show ?thesis using u [of "Suc i"] unfolding eq by (simp add: word_less_nat_alt b)
    qed
    have ge: "\<not> sh_addr sh + sh_entsize sh + of_nat ?n * sh_entsize sh < sh_addr sh + sh_size sh"
    proof -
      have "?n * ?z \<le> ?s" using div_times_less_eq_dividend [of "?s - 1" ?z] by linarith
      moreover have "?s - 1 < Suc ?n * ?z" using dividend_less_div_times [OF z, of "?s - 1"] by simp
      ultimately show ?thesis using u [of "Suc ?n"] unfolding eq by (simp add: word_less_nat_alt b)
    qed
    have "map (\<lambda>i. sh_addr sh + sh_entsize sh + of_nat i * sh_entsize sh) [0..<?n] = plt_entries sh"
      unfolding eq plt_entries_def by (simp add: map_Suc_upt [symmetric] del: upt_Suc)
    then have "collects (\<lambda>resp. map_option (Pair True) (plt_loop (sh_addr sh + sh_entsize sh) (sh_addr sh + sh_size sh) (sh_entsize sh) resp)) True (plt_entries sh)"
      using plt_loop_collects [OF lt ge] by simp
    then show ?thesis using False assms(2) by (auto simp: fnb_pltscan_def Let_def intro: collects_eq)
  qed
qed

text \<open>The frame section of a file, as the encoder of \<open>Fnb_Frame\<close> writes it.\<close>

definition frame_section :: "Elf \<Rightarrow> ehRecord_t \<Rightarrow> ehDecodeRecord_t \<Rightarrow> frame list \<Rightarrow> bool" where
  "frame_section e eh dr fs \<longleftrightarrow> (\<exists>frame sh text dat d post addr. ehFrameSection eh = Some frame \<and> gelf_getshdr e frame = Some sh \<and>
     section_named e sh \<and> starts_at e (textSection eh) text \<and> starts_at e (dataSection eh) dat \<and>
     elf_getdata e frame = Some \<lparr> d_buf = Some d, d_size = length d, d_address = addr \<rparr> \<and>
     dr = \<lparr> ehSecAddr = sh_addr sh, textSecAddr = text, dataSecAddr = dat, totalOffset = 0, fdeEnc = 0 \<rparr> \<and>
     d = enc_frames dr 0 [] fs @ post \<and> (fs \<noteq> [] \<or> post \<noteq> []) \<and> (post = [] \<or> (\<exists>rest. post = le_bytes 4 (0 :: u32) @ rest)) \<and>
     valid_frames dr 0 [] fs \<and> length d < 2 ^ 31)"

lemma length_enc_frames_ge: "length fs \<le> length (enc_frames dr pos cies fs)"
proof (induction fs arbitrary: pos cies)
  case (Cons x fs)
  show ?case
  proof (cases x)
    case (Cie c)
    then show ?thesis using Cons [of "pos + length (enc_cie dr pos c)" "cies @ [(pos, c)]"] by (simp add: enc_lengths)
  next
    case (Fde f)
    let ?b = "enc_fde dr pos (the (map_of cies (fs_cie f))) f"
    show ?thesis using Fde Cons [of "pos + length ?b" cies] by (simp add: Let_def enc_lengths)
  qed
qed simp

lemma frame_section_collects:
  assumes "frame_section e eh dr fs"
  shows "collects (fnb_ehframescan junk e eh) True (frames_functions dr 0 [] fs)"
  unfolding collects_def
proof (intro allI impI)
  fix resp
  assume r: "funclist_ok resp" "length (funcs resp) + length (frames_functions dr 0 [] fs) < 2 ^ 61"
  obtain frame sh tx dat d post addr where f: "ehFrameSection eh = Some frame" "gelf_getshdr e frame = Some sh"
     "section_named e sh" "starts_at e (textSection eh) tx" "starts_at e (dataSection eh) dat"
     "elf_getdata e frame = Some \<lparr> d_buf = Some d, d_size = length d, d_address = addr \<rparr>"
     "dr = \<lparr> ehSecAddr = sh_addr sh, textSecAddr = tx, dataSecAddr = dat, totalOffset = 0, fdeEnc = 0 \<rparr>"
    and g: "d = enc_frames dr 0 [] fs @ post" "fs \<noteq> [] \<or> post \<noteq> []" "post = [] \<or> (\<exists>rest. post = le_bytes 4 (0 :: u32) @ rest)"
     "valid_frames dr 0 [] fs" "length d < 2 ^ 31"
    using assms unfolding frame_section_def by blast
  have "length (funcs resp) + 3 * length fs < 2 ^ 62 - 3" using r(2) g(5) length_enc_frames_ge [of fs dr 0 "[]"] unfolding g(1) by simp
  then show "\<exists>resp'. fnb_ehframescan junk e eh resp = Some (True, resp') \<and> funclist_ok resp' \<and>
      funcs resp' = funcs resp @ frames_functions dr 0 [] fs \<and> same_header resp' resp"
    by (intro ehframescan_adds [OF g r(1) _ f])
qed

section \<open>The sections of a file\<close>

definition section_functions :: "Elf \<Rightarrow> GElf_Shdr \<Rightarrow> string \<Rightarrow> u64 list" where
  "section_functions e sh name =
    (if sh_flags sh = SHF_ALLOC_EXECINSTR then [sh_addr sh, sh_addr sh + sh_size sh] else []) @
    (if sh_type sh = SHT_SYMTAB \<or> sh_type sh = SHT_DYNSYM then symbol_functions (symbols e sh)
     else if sh_type sh = SHT_PROGBITS \<and> (name = ''.plt'' \<or> name = ''.plt.sec'') \<and> sh_entsize sh \<noteq> 0 then plt_entries sh
     else [])"

definition section_ok :: "Elf \<Rightarrow> GElf_Shdr \<Rightarrow> string \<Rightarrow> bool" where
  "section_ok e sh name \<longleftrightarrow> ((sh_type sh = SHT_SYMTAB \<or> sh_type sh = SHT_DYNSYM) \<longrightarrow> symbols_ok e sh) \<and> plt_ok sh"

definition note_section :: "nat \<Rightarrow> GElf_Shdr \<Rightarrow> string \<Rightarrow> ehRecord_t \<Rightarrow> ehRecord_t" where
  "note_section sec sh name eh =
    (if sh_type sh \<noteq> SHT_PROGBITS then eh
     else if name = ''.text'' then eh\<lparr> textSection := Some sec \<rparr>
     else if name = ''.data'' then eh\<lparr> dataSection := Some sec \<rparr>
     else if name = ''.eh_frame_hdr'' then eh\<lparr> ehHdrSection := Some sec \<rparr>
     else if name = ''.eh_frame'' then eh\<lparr> ehFrameSection := Some sec \<rparr>
     else eh)"

lemma section_types [simp]: "SHT_PROGBITS \<noteq> SHT_SYMTAB" "SHT_PROGBITS \<noteq> SHT_DYNSYM" "SHT_SYMTAB \<noteq> SHT_DYNSYM"
  by (simp_all add: SHT_PROGBITS_def SHT_SYMTAB_def SHT_DYNSYM_def)

lemma section_bounds_collects:
  "collects (\<lambda>resp. map_option (Pair ()) (section_bounds sh resp)) () (if sh_flags sh = SHF_ALLOC_EXECINSTR then [sh_addr sh, sh_addr sh + sh_size sh] else [])"
proof (cases "sh_flags sh = SHF_ALLOC_EXECINSTR")
  case True
  have "collects (\<lambda>resp. map_option (Pair ()) (section_bounds sh resp)) () ([sh_addr sh] @ [sh_addr sh + sh_size sh])"
    by (rule collects_bind [OF collects_add [of "()"] collects_add]) (simp add: section_bounds_def True split: option.split)
  then show ?thesis using True by simp
next
  case False
  then show ?thesis using collects_return [of "()"] by (simp add: section_bounds_def)
qed

definition section_step :: "scan_state \<Rightarrow> scan_state \<Rightarrow> u64 list \<Rightarrow> bool" where
  "section_step st st' vs \<longleftrightarrow> funclist_ok (ss_response st') \<and> funcs (ss_response st') = funcs (ss_response st) @ vs \<and>
     same_header (ss_response st') (ss_response st)"

lemma process_section_step:
  assumes ok: "section_ok e sh name" "fnb_doSectionScan e sh" and st: "funclist_ok (ss_response st)" "\<not> ss_dynSymIssue st"
    and l: "length (funcs (ss_response st)) + length (section_functions e sh name) < 2 ^ 61"
  shows "\<exists>st'. process_section e sec sh name st = Some st' \<and> section_step st st' (section_functions e sh name) \<and> \<not> ss_dynSymIssue st' \<and>
    ss_symTabPresent st' = (ss_symTabPresent st \<or> sh_type sh = SHT_SYMTAB) \<and> ss_ehInfo st' = note_section sec sh name (ss_ehInfo st)"
proof -
  let ?b = "if sh_flags sh = SHF_ALLOC_EXECINSTR then [sh_addr sh, sh_addr sh + sh_size sh] else []"
  have lb: "length (funcs (ss_response st)) + length ?b < 2 ^ 61" using l by (simp add: section_functions_def)
  obtain r where r: "section_bounds sh (ss_response st) = Some r" "funclist_ok r" "funcs r = funcs (ss_response st) @ ?b" "same_header r (ss_response st)"
    using section_bounds_collects [of sh, unfolded collects_def, rule_format, OF st(1) lb] by auto
  note b = process_section_def r(1) option.case Let_def
  consider "sh_type sh = SHT_SYMTAB \<or> sh_type sh = SHT_DYNSYM" | "sh_type sh = SHT_PROGBITS" "name = ''.plt'' \<or> name = ''.plt.sec''"
    | "sh_type sh = SHT_PROGBITS" "\<not> (name = ''.plt'' \<or> name = ''.plt.sec'')"
    | "sh_type sh \<noteq> SHT_SYMTAB" "sh_type sh \<noteq> SHT_DYNSYM" "sh_type sh \<noteq> SHT_PROGBITS" by blast
  then show ?thesis
  proof cases
    case 1
    then have s: "symbols_ok e sh" and f: "section_functions e sh name = ?b @ symbol_functions (symbols e sh)"
      using ok(1) by (auto simp: section_ok_def section_functions_def)
    have "length (funcs r) + length (symbol_functions (symbols e sh)) < 2 ^ 61" using l unfolding f r(3) length_append by (simp only: add.assoc)
    then obtain r' where r': "symsecread e sh r = Some (True, r')" "funclist_ok r'" "funcs r' = funcs r @ symbol_functions (symbols e sh)" "same_header r' r"
      using symsecread_collects [OF s, unfolded collects_def, rule_format, OF r(2)] by blast
    have h: "same_header r' (ss_response st)" using r'(4) r(4) by (rule same_header_trans)
    have "sh_type sh \<noteq> SHT_PROGBITS" using 1 section_types(1,2) by metis
    then have n: "note_section sec sh name eh = eh" for eh by (simp add: note_section_def)
    show ?thesis using 1 r'(1-3) h r(3) ok(2) st(2)
      unfolding b section_step_def f n by (elim disjE) (simp_all add: symtabread_def dynsymread_def section_types(3) [symmetric])
  next
    case 2
    let ?p = "if sh_entsize sh = 0 then [] else plt_entries sh"
    have f: "section_functions e sh name = ?b @ ?p" "note_section sec sh name eh = eh" for eh
      using 2 by (auto simp: section_functions_def note_section_def)
    have p: "plt_ok sh" using ok(1) by (simp add: section_ok_def)
    have "length (funcs r) + length ?p < 2 ^ 61" using l unfolding f(1) r(3) length_append by (simp only: add.assoc)
    then obtain r' where r': "fnb_pltscan e sh r = Some (True, r')" "funclist_ok r'" "funcs r' = funcs r @ ?p" "same_header r' r"
      using plt_collects(1) [OF p ok(2), unfolded collects_def, rule_format, OF r(2)] by blast
    have h: "same_header r' (ss_response st)" using r'(4) r(4) by (rule same_header_trans)
    have "section_progbits e sec sh name (st\<lparr> ss_response := r \<rparr>) = Some (st\<lparr> ss_response := r' \<rparr>)"
      using 2(2) r'(1) plt_collects(2) [OF p ok(2)] by (auto simp: section_progbits_def Let_def)
    then show ?thesis using 2(1) r'(2,3) h r(3) st(2) unfolding b section_step_def f by simp
  next
    case 3
    have f: "section_functions e sh name = ?b" using 3 by (simp add: section_functions_def)
    have p: "section_progbits e sec sh name (st\<lparr> ss_response := r \<rparr>) = Some (st\<lparr> ss_response := r, ss_ehInfo := note_section sec sh name (ss_ehInfo st) \<rparr>)"
      using 3 unfolding section_progbits_def note_section_def Let_def
      by (simp add: fnb_initscan_def fnb_textscan_def fnb_finiscan_def fnb_altinstr_replacementscan_def)
    show ?thesis using 3(1) r(2-4) st(2) unfolding b section_step_def f by (simp add: p)
  next
    case 4
    then have f: "section_functions e sh name = ?b" "note_section sec sh name eh = eh" for eh by (simp_all add: section_functions_def note_section_def)
    show ?thesis using 4 r(2-4) st(2) unfolding b section_step_def f by simp
  qed
qed

fun sections :: "Elf \<Rightarrow> nat \<Rightarrow> nat option \<Rightarrow> (nat \<times> GElf_Shdr \<times> string) list \<Rightarrow> bool" where
  "sections e strndx prev [] \<longleftrightarrow> True"
| "sections e strndx prev ((sec, sh, name) # secs) \<longleftrightarrow> elf_nextscn e prev = Some sec \<and> gelf_getshdr e sec = Some sh \<and>
    elf_strptr e strndx (sh_name sh) = Some name \<and> section_ok e sh name \<and> sections e strndx (Some sec) secs"

definition secs_functions :: "Elf \<Rightarrow> (nat \<times> GElf_Shdr \<times> string) list \<Rightarrow> u64 list" where
  "secs_functions e secs = concat (map (\<lambda>(sec, sh, name). section_functions e sh name) secs)"

definition has_symtab :: "(nat \<times> GElf_Shdr \<times> string) list \<Rightarrow> bool" where
  "has_symtab secs \<longleftrightarrow> (\<exists>(sec, sh, name) \<in> set secs. sh_type sh = SHT_SYMTAB)"

definition note_sections :: "(nat \<times> GElf_Shdr \<times> string) list \<Rightarrow> ehRecord_t \<Rightarrow> ehRecord_t" where
  "note_sections secs = fold (\<lambda>(sec, sh, name). note_section sec sh name) secs"

lemma section_loop_collects:
  assumes "elf_getshdrstrndx e = Some strndx" and "sections e strndx prev secs" and "funclist_ok (ss_response st)" and "\<not> ss_dynSymIssue st"
    and "length (funcs (ss_response st)) + length (secs_functions e secs) < 2 ^ 61"
  shows "\<exists>st'. section_loop e strndx (length secs) prev st = Some (Inr st') \<and> section_step st st' (secs_functions e secs) \<and>
    ss_symTabPresent st' = (ss_symTabPresent st \<or> has_symtab secs) \<and> ss_ehInfo st' = note_sections secs (ss_ehInfo st)"
  using assms(2-)
proof (induction secs arbitrary: prev st)
  case Nil
  then show ?case by (auto simp: section_step_def secs_functions_def has_symtab_def note_sections_def)
next
  case (Cons x secs)
  obtain sec sh name where x: "x = (sec, sh, name)" by (cases x)
  have s: "elf_nextscn e prev = Some sec" "gelf_getshdr e sec = Some sh" "elf_strptr e strndx (sh_name sh) = Some name"
    "section_ok e sh name" "sections e strndx (Some sec) secs" using Cons.prems(1) x by simp_all
  have d: "fnb_doSectionScan e sh" using s(3) assms(1) by (simp add: fnb_doSectionScan_def)
  have f: "secs_functions e (x # secs) = section_functions e sh name @ secs_functions e secs" by (simp add: secs_functions_def x)
  obtain st1 where st1: "process_section e sec sh name st = Some st1" "section_step st st1 (section_functions e sh name)" "\<not> ss_dynSymIssue st1"
      "ss_symTabPresent st1 = (ss_symTabPresent st \<or> sh_type sh = SHT_SYMTAB)" "ss_ehInfo st1 = note_section sec sh name (ss_ehInfo st)"
    using process_section_step [OF s(4) d Cons.prems(2,3)] Cons.prems(4) unfolding f by auto
  have "length (funcs (ss_response st1)) + length (secs_functions e secs) < 2 ^ 61"
    using Cons.prems(4) st1(2) unfolding f section_step_def by simp
  then obtain st2 where st2: "section_loop e strndx (length secs) (Some sec) st1 = Some (Inr st2)" "section_step st1 st2 (secs_functions e secs)"
      "ss_symTabPresent st2 = (ss_symTabPresent st1 \<or> has_symtab secs)" "ss_ehInfo st2 = note_sections secs (ss_ehInfo st1)"
    using Cons.IH [OF s(5) _ st1(3)] st1(2) by (auto simp: section_step_def)
  have "section_step st st2 (secs_functions e (x # secs))"
    using st1(2) st2(2) unfolding f section_step_def same_header_def by simp
  moreover have "section_loop e strndx (length (x # secs)) prev st = Some (Inr st2)"
    using s(1-3) st1(1) st2(1) by (simp add: Let_def)
  moreover have "has_symtab (x # secs) \<longleftrightarrow> sh_type sh = SHT_SYMTAB \<or> has_symtab secs" "note_sections (x # secs) eh = note_sections secs (note_section sec sh name eh)" for eh
    by (simp_all add: has_symtab_def note_sections_def x)
  ultimately show ?case using st1(4,5) st2(3,4) by auto
qed

section \<open>The functions of a file\<close>

definition file_functions :: "Elf \<Rightarrow> (nat \<times> GElf_Shdr \<times> string) list \<Rightarrow> ehDecodeRecord_t \<Rightarrow> frame list \<Rightarrow> u64 list" where
  "file_functions e secs dr fs = secs_functions e secs @ (if has_symtab secs then [] else frames_functions dr 0 [] fs)"

definition no_sections :: ehRecord_t where
  "no_sections = \<lparr> ehHdrSection = None, ehFrameSection = None, textSection = None, dataSection = None \<rparr>"

text \<open>
  A file whose headers \<open>libelf\<close> can read: a 64-bit executable or shared object, in which the first program header of a loadable segment
  with the permission to execute gives the address \<open>vaddr\<close>.
\<close>

definition executable_segment :: "GElf_Phdr \<Rightarrow> bool" where
  "executable_segment p \<longleftrightarrow> p_type p = 1 \<and> bit (p_flags p) 0"

definition first_executable :: "Elf \<Rightarrow> nat \<Rightarrow> u64 \<Rightarrow> bool" where
  "first_executable e jn vaddr \<longleftrightarrow> (\<exists>j < jn. (\<exists>p. gelf_getphdr e j = Some p \<and> executable_segment p \<and> p_vaddr p = vaddr) \<and>
     (\<forall>i < j. \<exists>p. gelf_getphdr e i = Some p \<and> \<not> executable_segment p))"

lemma executable_flags: "executable_segment p \<longleftrightarrow> p_type p = 1 \<and> p_flags p AND 1 = 1"
  by (auto simp: executable_segment_def bit_0 and_one_eq odd_iff_mod_2_eq_one)

lemma phdr_loop_skips:
  assumes "\<And>i. i \<in> set js \<Longrightarrow> \<exists>p. gelf_getphdr e i = Some p \<and> \<not> executable_segment p"
  shows "phdr_loop e (js @ ks) = phdr_loop e ks"
  using assms by (induction js) (force simp: executable_flags)+

lemma phdr_loop_first:
  assumes "first_executable e jn vaddr"
  shows "phdr_loop e [0..<jn] = Some (Some vaddr)"
proof -
  obtain j p where j: "j < jn" "gelf_getphdr e j = Some p" "executable_segment p" "p_vaddr p = vaddr"
      "\<And>i. i \<in> set [0..<j] \<Longrightarrow> \<exists>p. gelf_getphdr e i = Some p \<and> \<not> executable_segment p"
    using assms by (auto simp: first_executable_def)
  have "[0..<jn] = [0..<j] @ j # [Suc j..<jn]" using upt_add_eq_append [of 0 j "jn - j"] j(1) by (simp add: upt_conv_Cons)
  then show ?thesis using phdr_loop_skips [of "[0..<j]" e "j # [Suc j..<jn]", OF j(5)] j(2-4) by (simp add: executable_flags)
qed

definition elf_headers :: "Elf \<Rightarrow> bool \<Rightarrow> u64 \<Rightarrow> bool" where
  "elf_headers e shared vaddr \<longleftrightarrow> (\<exists>h jn. gelf_getehdr e = Some h \<and> e_magic h = [0x7f, 0x45, 0x4c, 0x46] \<and> e_class h = 2 \<and>
     e_type h = (if shared then 3 else 2) \<and> elf_getphdrnum e = Some jn \<and> first_executable e jn vaddr)"

text \<open>The frame section is read only without a symbol table; then it is well-formed, or there is none.\<close>

definition elf_sections :: "Elf \<Rightarrow> (nat \<times> GElf_Shdr \<times> string) list \<Rightarrow> ehDecodeRecord_t \<Rightarrow> frame list \<Rightarrow> bool" where
  "elf_sections e secs dr fs \<longleftrightarrow> (\<exists>strndx. elf_getshdrnum e = Some (Suc (length secs)) \<and> elf_getshdrstrndx e = Some strndx \<and>
     sections e strndx None secs) \<and>
     (has_symtab secs \<or> frame_section e (note_sections secs no_sections) dr fs \<or>
      ehFrameSection (note_sections secs no_sections) = None \<and> fs = [])"

lemma funclist_start: "funclist_ok (r\<lparr> fl_entries := Some (replicate (unat MAX_FUNC) 0), fl_num_entries := 0, fl_max_entries := MAX_FUNC \<rparr>)"
  by (simp add: funclist_ok_def MAX_FUNC_def)

lemma mapped_header_functions:
  assumes h: "elf_headers e shared vaddr" and s: "elf_sections e secs dr fs" and l: "length (file_functions e secs dr fs) < 2 ^ 61"
  shows "\<exists>resp. process_mapped_header junk e = Some resp \<and> fl_entries resp \<noteq> None \<and>
    length (funcs resp) = unat (fl_num_entries resp) \<and> funcs resp = sorted_list_of_set (set (file_functions e secs dr fs)) \<and>
    fl_is_relocatable resp = shared \<and> fl_reference_offset resp = vaddr"
proof -
  obtain eh jn where eh: "gelf_getehdr e = Some eh" "e_magic eh = [0x7f, 0x45, 0x4c, 0x46]" "e_class eh = 2"
    "e_type eh = (if shared then 3 else 2)" "elf_getphdrnum e = Some jn" "phdr_loop e [0..<jn] = Some (Some vaddr)"
    using h phdr_loop_first unfolding elf_headers_def by blast
  obtain strndx where st: "elf_getshdrnum e = Some (Suc (length secs))" "elf_getshdrstrndx e = Some strndx" "sections e strndx None secs"
    using s unfolding elf_sections_def by blast
  let ?r0 = "response0\<lparr> fl_is_relocatable := shared, fl_reference_offset := vaddr, fl_entries := Some (replicate (unat MAX_FUNC) 0), fl_max_entries := MAX_FUNC \<rparr>"
  let ?st0 = "\<lparr> ss_response = ?r0, ss_ehInfo = no_sections, ss_symTabPresent = False, ss_dynSymIssue = False \<rparr>"
  have r0: "funclist_ok ?r0" "funcs ?r0 = []" by (simp_all add: funclist_ok_def MAX_FUNC_def funcs_def response0_def)
  have l1: "length (secs_functions e secs) < 2 ^ 61" using l by (simp add: file_functions_def)
  obtain st1 where s1: "section_loop e strndx (length secs) None ?st0 = Some (Inr st1)" "section_step ?st0 st1 (secs_functions e secs)"
      "ss_symTabPresent st1 = has_symtab secs" "ss_ehInfo st1 = note_sections secs no_sections"
    using section_loop_collects [OF st(2,3), of ?st0] r0 l1 by auto
  let ?r1 = "ss_response st1"
  have r1: "funclist_ok ?r1" "funcs ?r1 = secs_functions e secs" "same_header ?r1 ?r0"
    using s1(2) r0(2) by (simp_all add: section_step_def)
  obtain r2 where r2: "(if \<not> ss_symTabPresent st1 then map_option snd (fnb_ehframescan junk e (ss_ehInfo st1) ?r1) else Some ?r1) = Some r2"
      "funclist_ok r2" "funcs r2 = file_functions e secs dr fs" "same_header r2 ?r1"
  proof (cases "has_symtab secs")
    case True
    then show ?thesis using that [of ?r1] r1 s1(3) by (simp add: file_functions_def)
  next
    case False
    then have f: "frame_section e (note_sections secs no_sections) dr fs \<or> ehFrameSection (note_sections secs no_sections) = None \<and> fs = []"
      using s unfolding elf_sections_def by blast
    have "\<exists>b r2. fnb_ehframescan junk e (ss_ehInfo st1) ?r1 = Some (b, r2) \<and> funclist_ok r2 \<and> funcs r2 = funcs ?r1 @ frames_functions dr 0 [] fs \<and> same_header r2 ?r1"
      using f
    proof
      assume "frame_section e (note_sections secs no_sections) dr fs"
      moreover have "length (funcs ?r1) + length (frames_functions dr 0 [] fs) < 2 ^ 61" using l False unfolding r1(2) by (simp add: file_functions_def)
      ultimately show ?thesis using frame_section_collects [of e "ss_ehInfo st1" dr fs junk] r1(1) unfolding s1(4) collects_def by blast
    next
      assume "ehFrameSection (note_sections secs no_sections) = None \<and> fs = []"
      then show ?thesis using r1(1) by (intro exI [of _ False]) (simp add: fnb_ehframescan_def s1(4))
    qed
    then show ?thesis using that False s1(3) r1(2) by (auto simp: file_functions_def)
  qed
  have sl: "section_loop e strndx (length secs) None \<lparr> ss_response = response0\<lparr> fl_is_relocatable := shared, fl_reference_offset := vaddr,
       fl_entries := Some (replicate (unat MAX_FUNC) 0), fl_max_entries := MAX_FUNC \<rparr>,
     ss_ehInfo = \<lparr> ehHdrSection = None, ehFrameSection = None, textSection = None, dataSection = None \<rparr>, ss_symTabPresent = False, ss_dynSymIssue = False \<rparr> =
    Some (Inr st1)" using s1(1) by (simp add: no_sections_def)
  have ty: "(e_type eh = 3) = shared" "(e_type eh \<noteq> 2) = shared" using eh(4) by simp_all
  have "process_mapped_header junk e = sort_unique r2"
    unfolding process_mapped_header_def Let_def eh(1,2,3,5,6) st(1,2) option.case prod.case diff_Suc_1 ty
    by (simp add: sl r2(1) del: section_loop.simps)
  moreover have "same_header r2 ?r0" using r2(4) r1(3) by (rule same_header_trans)
  ultimately show ?thesis using sort_unique_sorted [OF r2(2)] unfolding r2(3) by (auto simp: same_header_def)
qed

section \<open>Properties\<close>

text \<open>
  C26. The table of functions of a file is complete, sorted and free of duplicates. Take a 64-bit executable or shared object whose headers
  and symbols \<open>libelf\<close> can read, with any number of sections, none of which wraps around the address space; without a static symbol table, let it have no frame section or one with
  records of the form of \<open>Fnb_Frame\<close> (an augmentation that begins with the letter z, relative addresses in the formats that are decoded right,
  a data alignment other than -1). Then the table holds exactly the bounds of the executable sections, the entries of the procedure linkage
  tables, the functions of the symbol tables and, when there is no static symbol table, those of the frame section; the description also
  says whether the file can be relocated, and its reference address is that of the first loadable segment with the permission to execute.
\<close>

theorem process_mapped_header_functions:
  assumes "elf_headers e shared vaddr" and "elf_sections e secs dr fs" and "length (file_functions e secs dr fs) < 2 ^ 61"
  shows "\<exists>resp. process_mapped_header junk e = Some resp \<and> fl_entries resp \<noteq> None \<and>
    length (funcs resp) = unat (fl_num_entries resp) \<and> funcs resp = sorted_list_of_set (set (file_functions e secs dr fs)) \<and>
    fl_is_relocatable resp = shared \<and> fl_reference_offset resp = vaddr"
  using assms by (rule mapped_header_functions)

definition example_section :: "nat \<Rightarrow> GElf_Shdr" where
  "example_section i =
    (if i = 1 then \<lparr> sh_name = 1, sh_type = 1, sh_flags = 6, sh_addr = 0x400, sh_offset = 0x400, sh_size = 0x200, sh_link = 0, sh_entsize = 0 \<rparr>
     else if i = 2 then \<lparr> sh_name = 2, sh_type = 1, sh_flags = 2, sh_addr = 0x700, sh_offset = 0x700, sh_size = 0x30, sh_link = 0, sh_entsize = 0x10 \<rparr>
     else example_shdr\<lparr> sh_name := 3 \<rparr>)"

definition example_file :: Elf where
  "example_file = (let d = enc_frames example_dr 0 [] example_frames in
     \<lparr> gelf_getehdr = Some \<lparr> e_magic = [0x7f, 0x45, 0x4c, 0x46], e_class = 2, e_type = 3 \<rparr>, elf_getphdrnum = Some 2,
       gelf_getphdr = (\<lambda>i. Some \<lparr> p_type = 1, p_flags = (if i = 0 then 4 else 5), p_vaddr = (if i = 0 then 0 else 0x400) \<rparr>), elf_getshdrnum = Some 4,
       elf_getshdrstrndx = Some 5, elf_nextscn = (\<lambda>s. case s of None \<Rightarrow> Some 1 | Some i \<Rightarrow> Some (Suc i)),
       gelf_getshdr = (\<lambda>i. Some (example_section i)),
       elf_strptr = (\<lambda>_ n. Some (if n = 1 then ''.init'' else if n = 2 then ''.plt'' else ''.eh_frame'')), gelf_offscn = (\<lambda>_. None),
       elf_getdata = (\<lambda>_. Some \<lparr> d_buf = Some d, d_size = length d, d_address = 3 \<rparr>), gelf_getsym = (\<lambda>_ _. None) \<rparr>)"

definition example_secs :: "(nat \<times> GElf_Shdr \<times> string) list" where
  "example_secs = [(1, example_section 1, ''.init''), (2, example_section 2, ''.plt''), (3, example_section 3, ''.eh_frame'')]"

lemma example_file_headers: "elf_headers example_file True 0x400"
proof -
  have "gelf_getehdr example_file = Some \<lparr> e_magic = [0x7f, 0x45, 0x4c, 0x46], e_class = 2, e_type = 3 \<rparr>" "elf_getphdrnum example_file = Some 2"
    by (simp_all add: example_file_def Let_def)
  moreover have "first_executable example_file 2 0x400" unfolding first_executable_def
    by (rule exI [of _ 1]) (simp add: example_file_def Let_def executable_flags)
  ultimately show ?thesis unfolding elf_headers_def by auto
qed

lemma example_file_sections: "elf_sections example_file example_secs example_dr example_frames"
proof -
  let ?d = "enc_frames example_dr 0 [] example_frames"
  have l: "length ?d = 74" by code_simp
  have n: "note_sections example_secs no_sections = no_sections\<lparr> ehFrameSection := Some 3 \<rparr>" by code_simp
  have "section_ok example_file (example_section 1) ''.init''" "section_ok example_file (example_section 2) ''.plt''"
    "section_ok example_file (example_section 3) ''.eh_frame''"
    by (simp_all add: section_ok_def plt_ok_def example_section_def example_shdr_def SHT_SYMTAB_def SHT_DYNSYM_def)
  moreover have "elf_nextscn example_file None = Some 1" "elf_nextscn example_file (Some 1) = Some 2" "elf_nextscn example_file (Some 2) = Some 3"
    "gelf_getshdr example_file i = Some (example_section i)" "elf_strptr example_file 5 (sh_name (example_section 1)) = Some ''.init''"
    "elf_strptr example_file 5 (sh_name (example_section 2)) = Some ''.plt''" "elf_strptr example_file 5 (sh_name (example_section 3)) = Some ''.eh_frame''" for i
    by (simp_all add: example_file_def Let_def example_section_def)
  ultimately have s: "sections example_file 5 None example_secs" by (simp add: example_secs_def)
  have "frame_section example_file (no_sections\<lparr> ehFrameSection := Some 3 \<rparr>) example_dr example_frames"
    unfolding frame_section_def
    by (rule exI [of _ 3], rule exI [of _ "example_section 3"], rule exI [of _ 0], rule exI [of _ 0], rule exI [of _ ?d], rule exI [of _ "[]"], rule exI [of _ 3])
      (use l example_valid_frames in \<open>simp_all add: example_file_def Let_def section_named_def starts_at_def no_sections_def example_section_def
        example_shdr_def example_dr_def example_frames_def\<close>)
  then have "frame_section example_file (note_sections example_secs no_sections) example_dr example_frames" unfolding n .
  moreover have "elf_getshdrnum example_file = Some (Suc (length example_secs))" "elf_getshdrstrndx example_file = Some 5"
    by (simp_all add: example_file_def Let_def example_secs_def)
  ultimately show ?thesis using s unfolding elf_sections_def by blast
qed

lemma example_file_functions:
  "file_functions example_file example_secs example_dr example_frames = [0x400, 0x600, 0x710, 0x720, 0x2000, 0x500, 0x3000, 0x2000, 0x540, 0x3000]"
  by code_simp

theorem process_mapped_header_functions_witness:
  "\<exists>resp. process_mapped_header (\<lambda>_. undefined) example_file = Some resp \<and>
    funcs resp = [0x400, 0x500, 0x540, 0x600, 0x710, 0x720, 0x2000, 0x3000] \<and> fl_is_relocatable resp \<and> fl_reference_offset resp = 0x400"
proof -
  have "sorted_list_of_set (set (file_functions example_file example_secs example_dr example_frames)) = [0x400, 0x500, 0x540, 0x600, 0x710, 0x720, 0x2000, 0x3000]"
    unfolding example_file_functions sorted_list_of_set_sort_remdups by code_simp
  then show ?thesis
    using process_mapped_header_functions [OF example_file_headers example_file_sections, of "\<lambda>_. undefined"] by (auto simp: example_file_functions)
qed

text \<open>
  C27. The search of the table finds the function that encloses an address. In a sorted table of up to \<open>2 ^ 30\<close> entries, the loop ends and
  returns the largest entry not above the address and the smallest above it, or reports that the address is outside the table; it never
  reads an element beyond the ends, and the sum of its indices does not overflow.
\<close>

theorem fnbounds_table_lookup_enclosing:
  assumes "sorted (take n T)" and "0 < n" and "n \<le> length T" and "n \<le> 2 ^ 30"
  shows "fnbounds_table_lookup T (int n) ip = Some (case enclosing (take n T) ip of None \<Rightarrow> (1, 0, 0) | Some (s, e) \<Rightarrow> (0, s, e))"
  using assms by (rule table_lookup_enclosing)

theorem fnbounds_table_lookup_enclosing_witness:
  "fnbounds_table_lookup [0x400, 0x500, 0x540, 0x600, 0] 4 0x53f = Some (0, 0x500, 0x540)"
proof -
  have "enclosing (take 4 [0x400, 0x500, 0x540, 0x600, 0]) 0x53f = Some (0x500, 0x540)" by code_simp
  then show ?thesis using fnbounds_table_lookup_enclosing [of 4 "[0x400, 0x500, 0x540, 0x600, 0]"] by simp
qed

end
