(* ===== verification/Fnb_Dynamic.thy ===== *)
theory Fnb_Dynamic
  imports Fnbounds
begin

text \<open>
  Function bounds of the load modules of a running process (\<open>src/hpcrun/fnbounds/fnbounds_dynamic.c\<close>): a module is mapped with the table
  that is built for its file, and an instruction address is resolved through the load map and that table.

  The tables live in a store of their own, allocated by \<open>fnb_get_funclist\<close>. \<open>realpath\<close> is a parameter, with \<open>None\<close> where it fails and leaves the
  buffer undefined. For a copy of the vdso, the query is made through a pointer to an array whose block has ended; what is read there is the
  parameter \<open>stale\<close>.
\<close>

section \<open>Operations\<close>

record fnb_state =
  fs_loadmap :: loadmap_state
  fs_tables :: "ptr \<Rightarrow> u64 list"
  fs_table_fresh :: ptr
  fs_lock :: bool

definition CRYPTO_HASH_STRING_LENGTH :: nat where "CRYPTO_HASH_STRING_LENGTH = 33"
definition PATH_MAX :: nat where "PATH_MAX = 4096"

definition PERFORM_RELOCATION :: "u64 \<Rightarrow> u64 \<Rightarrow> u64" where
  "PERFORM_RELOCATION addr offset = addr + offset"

definition fnbounds_init :: "bool \<Rightarrow> c_string \<Rightarrow> int" where
  "fnbounds_init disabled executable_name = (if disabled then 0 else 0)"

text \<open>The values stored through \<open>start\<close> and \<open>end\<close> are \<open>None\<close> where the function leaves them alone.\<close>

definition fnbounds_enclosing_addr :: "u64 \<Rightarrow> fnb_state \<Rightarrow> (bool \<times> (u64 \<times> u64) option \<times> ptr option \<times> fnb_state) option" where
  "fnbounds_enclosing_addr ip s = (case hpcrun_loadmap_findByAddr ip ip (fs_loadmap s) of None \<Rightarrow> None
     | Some (lm, m) \<Rightarrow>
        (let s = s\<lparr> fs_loadmap := m \<rparr>
         in case Option.bind lm (\<lambda>x. mod_dso_info (s_mods m x)) of None \<Rightarrow> Some (False, None, lm, s)
            | Some p \<Rightarrow>
               (let dso = s_dsos m p
                in if dso_nsymbols dso > 0
                   then (let ip_norm = (if dso_is_relocatable dso then ip - dso_start_to_ref_dist dso else ip)
                         in case dso_table dso of None \<Rightarrow> Some (False, None, lm, s)
                            | Some t \<Rightarrow>
                               (case fnbounds_table_lookup (fs_tables s t) (sint (ucast (dso_nsymbols dso) :: 32 word)) ip_norm of None \<Rightarrow> None
                                | Some (rv, st, en) \<Rightarrow>
                                   if rv = 0 \<and> dso_is_relocatable dso
                                   then Some (True, Some (PERFORM_RELOCATION st (dso_start_to_ref_dist dso), PERFORM_RELOCATION en (dso_start_to_ref_dist dso)), lm, s)
                                   else Some (rv = 0, Some (st, en), lm, s)))
                   else Some (False, None, lm, s))))"

definition vdso_filename :: "c_string \<Rightarrow> c_string \<Rightarrow> c_string option" where
  "vdso_filename incoming tmp =
    (if length (c_str incoming) < 9 + CRYPTO_HASH_STRING_LENGTH then Some tmp
     else (let off = length (c_str incoming) - 9 - CRYPTO_HASH_STRING_LENGTH
           in if off \<le> length tmp \<and> length (drop off tmp) < 10 + CRYPTO_HASH_STRING_LENGTH then Some (drop off tmp) else None))"

text \<open>The name of the module and the name for the query.\<close>

definition module_names :: "(c_string \<Rightarrow> c_string option) \<Rightarrow> c_string \<Rightarrow> c_string \<Rightarrow> (c_string \<times> c_string) option" where
  "module_names realpath stale incoming =
    (if take 13 (c_str incoming) = [108, 105, 110, 117, 120, 45, 103, 97, 116, 101, 46, 115, 111]
     then (let filename = take PATH_MAX (c_str incoming) in Some (filename, filename))
     else if sublist [47, 118, 100, 115, 111, 47] (c_str incoming) \<and> sublist [46, 118, 100, 115, 111] (c_str incoming)
     then (case realpath incoming of None \<Rightarrow> None
           | Some tmp \<Rightarrow> (case vdso_filename incoming tmp of None \<Rightarrow> None | Some filename \<Rightarrow> Some (filename, stale)))
     else (case realpath incoming of None \<Rightarrow> None | Some filename \<Rightarrow> Some (filename, filename)))"

definition fnbounds_compute :: "(nat \<Rightarrow> ehCIERecord_t) \<Rightarrow> (c_string \<Rightarrow> Elf option) \<Rightarrow> (c_string \<Rightarrow> c_string option) \<Rightarrow> c_string \<Rightarrow>
    c_string option \<Rightarrow> u64 \<Rightarrow> u64 \<Rightarrow> fnb_state \<Rightarrow> (ptr option \<times> fnb_state) option" where
  "fnbounds_compute junk files realpath stale incoming_filename start_a end_a s = (case incoming_filename of None \<Rightarrow> Some (None, s)
     | Some incoming \<Rightarrow>
        (case module_names realpath stale incoming of None \<Rightarrow> None
         | Some (filename, pathname_for_query) \<Rightarrow>
            (let make = (\<lambda>r s. case hpcrun_dso_make filename r start_a end_a (fs_loadmap s) of (d, m) \<Rightarrow> Some (Some d, s\<lparr> fs_loadmap := m \<rparr>))
             in case fnb_get_funclist junk files pathname_for_query of None \<Rightarrow> None
                | Some fnbres \<Rightarrow>
                   (case fl_entries fnbres of None \<Rightarrow> make None s
                    | Some entries \<Rightarrow>
                       (let t = fs_table_fresh s; s = s\<lparr> fs_tables := (fs_tables s)(t := entries), fs_table_fresh := Suc t \<rparr>
                        in if fl_num_entries fnbres < 1 then make None s
                           else (let reloc = (fl_is_relocatable fnbres \<and> \<not> (entries ! 0 \<ge> start_a \<and> entries ! 0 \<le> end_a))
                                 in make (Some \<lparr> fb_entries = Some t, fb_num_entries = fl_num_entries fnbres, fb_is_relocatable = reloc,
                                                 fb_reference_offset = fl_reference_offset fnbres \<rparr>) s))))))"

definition fnbounds_map_dso :: "(nat \<Rightarrow> ehCIERecord_t) \<Rightarrow> (c_string \<Rightarrow> Elf option) \<Rightarrow> (c_string \<Rightarrow> c_string option) \<Rightarrow> c_string \<Rightarrow>
    c_string option \<Rightarrow> u64 \<Rightarrow> u64 \<Rightarrow> ptr option \<Rightarrow> fnb_state \<Rightarrow> (ptr option \<times> fnb_state) option" where
  "fnbounds_map_dso junk files realpath stale module_name start_a end_a info s =
    (case fnbounds_compute junk files realpath stale module_name start_a end_a s of None \<Rightarrow> None
     | Some (None, s) \<Rightarrow> Some (None, s)
     | Some (Some dso, s) \<Rightarrow>
        (case hpcrun_loadmap_map dso (fs_loadmap s) of None \<Rightarrow> None
         | Some (lm, m) \<Rightarrow> Some (Some lm, s\<lparr> fs_loadmap := upd_mod lm (\<lambda>x. x\<lparr> mod_dlpi_phdr := info \<rparr>) m \<rparr>)))"

definition fnbounds_release_lock :: "fnb_state \<Rightarrow> fnb_state" where
  "fnbounds_release_lock s = s\<lparr> fs_lock := False \<rparr>"

definition fnbounds_fetch_executable_table :: "(c_string \<Rightarrow> c_string option) \<Rightarrow> fnb_state \<Rightarrow> (ptr option \<times> u64) option" where
  "fnbounds_fetch_executable_table realpath s =
    (case realpath [47, 112, 114, 111, 99, 47, 115, 101, 108, 102, 47, 101, 120, 101] of None \<Rightarrow> None
     | Some exename \<Rightarrow>
        (case hpcrun_loadmap_findByName exename (fs_loadmap s) of None \<Rightarrow> None
         | Some None \<Rightarrow> Some (None, 0)
         | Some (Some exe_lm) \<Rightarrow>
            (case mod_dso_info (s_mods (fs_loadmap s) exe_lm) of None \<Rightarrow> Some (None, 0)
             | Some d \<Rightarrow> Some (dso_table (s_dsos (fs_loadmap s) d), dso_nsymbols (s_dsos (fs_loadmap s) d)))))"

section \<open>Finding the module\<close>

lemma find_unique: "p \<in> set L \<Longrightarrow> P p \<Longrightarrow> (\<And>q. q \<in> set L \<Longrightarrow> q \<noteq> p \<Longrightarrow> \<not> P q) \<Longrightarrow> List.find P L = Some p"
  by (induction L) auto

lemma upd_first_names: "map mv_name (upd_first P (\<lambda>v. v\<lparr> mv_dso := x \<rparr>) V) = map mv_name V"
  by (induction V) auto

lemma upd_first_set: "v \<in> set (upd_first P f V) \<Longrightarrow> v \<in> set V \<or> (\<exists>u \<in> set V. P u \<and> v = f u)"
  by (induction V) (auto split: if_splits)

lemma spec_map_set:
  assumes "v \<in> set (spec_map n D V)" and "\<not> named n v"
  shows "v \<in> set V"
  using assms by (auto simp: spec_map_def spec_add_def named_def dest!: upd_first_set split: if_splits)

text \<open>The only module of a name is found by an address of its range that no other module covers.\<close>

lemma mapped_found:
  assumes v: "view s' L' = spec_map n D (view s L)" and d: "distinct (map mv_name (view s L))"
    and p: "p \<in> set L'" "named n (mview s' p)" "covers ip ip (mview s' p)"
    and others: "\<And>u. u \<in> set (view s L) \<Longrightarrow> named n u \<or> \<not> covers ip ip u"
  shows "List.find (\<lambda>p. covers ip ip (mview s' p)) L' = Some p"
proof (rule find_unique)
  have "distinct (map mv_name (view s' L'))"
  proof (cases "\<exists>u \<in> set (view s L). named n u")
    case True
    then show ?thesis using d by (simp add: v spec_map_def upd_first_names)
  next
    case False
    then have "c_str n \<notin> mv_name ` set (view s L)" unfolding named_def by force
    then show ?thesis using d False by (simp add: v spec_map_def spec_add_def)
  qed
  then have inj: "inj_on (\<lambda>p. mv_name (mview s' p)) (set L')" by (simp add: view_def distinct_map o_def comp_def)
  fix q
  assume q: "q \<in> set L'" "q \<noteq> p"
  then have "\<not> named n (mview s' q)" using inj p(1,2) by (auto simp: named_def inj_on_def)
  moreover have "mview s' q \<in> set (spec_map n D (view s L))" unfolding v [symmetric] using q by (simp add: view_def)
  ultimately show "\<not> covers ip ip (mview s' q)" using spec_map_set others by blast
qed (use p in auto)

lemma dlpi_keeps:
  assumes "loadmap_inv m L F R"
  shows "loadmap_inv (upd_mod p (\<lambda>x. x\<lparr> mod_dlpi_phdr := i \<rparr>) m) L F R" "view (upd_mod p (\<lambda>x. x\<lparr> mod_dlpi_phdr := i \<rparr>) m) L = view m L"
    "mview (upd_mod p (\<lambda>x. x\<lparr> mod_dlpi_phdr := i \<rparr>) m) q = mview m q"
proof -
  let ?m = "upd_mod p (\<lambda>x. x\<lparr> mod_dlpi_phdr := i \<rparr>) m"
  have mok: "mods_ok m L" using assms by (simp add: loadmap_inv_def)
  have "mods_ok ?m L" by (rule mods_ok_cong [OF mok]) auto
  moreover have "mod_dso_info (s_mods ?m q) = mod_dso_info (s_mods m q)" for q by simp
  ultimately show "loadmap_inv ?m L F R" using assms unfolding loadmap_inv_def dsos_ok_def by simp
  show e: "mview ?m q = mview m q" for q by (simp add: mview_def)
  show "view ?m L = view m L" by (simp add: view_def e)
qed

section \<open>Resolving an address\<close>

text \<open>What \<open>fnbounds_compute\<close> makes of the table of a file.\<close>

definition relocates :: "bool \<Rightarrow> u64 \<Rightarrow> u64 \<Rightarrow> u64 list \<Rightarrow> bool" where
  "relocates shared start_a end_a T \<longleftrightarrow> shared \<and> \<not> (start_a \<le> hd T \<and> hd T \<le> end_a)"

lemma compute_makes:
  assumes n: "module_names realpath stale name = Some (path, path)" and f: "fnb_get_funclist junk files path = Some resp"
    and e: "fl_entries resp \<noteq> None" and T: "funcs resp = T" "T \<noteq> []" "length T = unat (fl_num_entries resp)"
  shows "\<exists>d m t. fnbounds_compute junk files realpath stale (Some name) start_a end_a s =
      Some (Some d, s\<lparr> fs_tables := (fs_tables s)(fs_table_fresh s := t), fs_table_fresh := Suc (fs_table_fresh s), fs_loadmap := m \<rparr>) \<and>
    take (unat (fl_num_entries resp)) t = T \<and> length T \<le> length t \<and>
    hpcrun_dso_make path (Some \<lparr> fb_entries = Some (fs_table_fresh s), fb_num_entries = fl_num_entries resp,
      fb_is_relocatable = relocates (fl_is_relocatable resp) start_a end_a T, fb_reference_offset = fl_reference_offset resp \<rparr>) start_a end_a (fs_loadmap s) = (d, m)"
proof -
  obtain t where t: "fl_entries resp = Some t" using e by auto
  then have tk: "take (unat (fl_num_entries resp)) t = T" using T(1) by (simp add: funcs_def)
  then have l: "length T \<le> length t" by auto
  have "0 < length T" using T(2) by simp
  then have pos: "\<not> fl_num_entries resp < 1" unfolding T(3) by (simp add: word_less_nat_alt)
  have h: "t ! 0 = hd T" using \<open>0 < length T\<close> T(2) tk [symmetric] by (simp add: hd_conv_nth)
  obtain d m where dm: "hpcrun_dso_make path (Some \<lparr> fb_entries = Some (fs_table_fresh s), fb_num_entries = fl_num_entries resp,
      fb_is_relocatable = relocates (fl_is_relocatable resp) start_a end_a T, fb_reference_offset = fl_reference_offset resp \<rparr>) start_a end_a (fs_loadmap s) = (d, m)"
    by fastforce
  have "fnbounds_compute junk files realpath stale (Some name) start_a end_a s =
      Some (Some d, s\<lparr> fs_tables := (fs_tables s)(fs_table_fresh s := t), fs_table_fresh := Suc (fs_table_fresh s), fs_loadmap := m \<rparr>)"
    using dm pos by (simp add: fnbounds_compute_def n f t h Let_def relocates_def)
  with tk l dm show ?thesis by blast
qed

lemma dso_make_fields:
  assumes "hpcrun_dso_make name (Some r) a e s = (d, s')"
  shows "dso_table (s_dsos s' d) = fb_entries r" "dso_nsymbols (s_dsos s' d) = fb_num_entries r"
    "dso_is_relocatable (s_dsos s' d) = fb_is_relocatable r" "dso_name (s_dsos s' d) = c_str name"
    "dso_start_to_ref_dist (s_dsos s' d) = (if fb_is_relocatable r then a - fb_reference_offset r else 0)"
    "dso_start_addr (s_dsos s' d) = a" "dso_end_addr (s_dsos s' d) = e"
proof -
  obtain s1 where "hpcrun_dso_new s = (d, s1)" using assms by (auto simp: hpcrun_dso_make_def split: prod.splits)
  then show "dso_table (s_dsos s' d) = fb_entries r" "dso_nsymbols (s_dsos s' d) = fb_num_entries r"
    "dso_is_relocatable (s_dsos s' d) = fb_is_relocatable r" "dso_name (s_dsos s' d) = c_str name"
    "dso_start_to_ref_dist (s_dsos s' d) = (if fb_is_relocatable r then a - fb_reference_offset r else 0)"
    "dso_start_addr (s_dsos s' d) = a" "dso_end_addr (s_dsos s' d) = e"
    using assms by (cases "fb_is_relocatable r"; auto simp: hpcrun_dso_make_def Let_def)+
qed

lemma nsymbols_int:
  assumes "n \<le> 2 ^ 30" and "n = unat (k :: u64)"
  shows "sint (ucast k :: 32 word) = int n"
proof -
  have "uint k = int n" using assms(2) by simp
  then have "uint (ucast k :: 32 word) = int n"
    using assms(1) by (simp only: unsigned_ucast_eq) (simp add: take_bit_int_eq_self)
  then show ?thesis using assms(1) by (simp add: sint_uint signed_take_bit_int_eq_self)
qed

text \<open>
  The bounds of the function of a table that encloses an address, when the module is loaded at a distance \<open>off\<close> from where its table places it.
\<close>

definition relocated :: "u64 list \<Rightarrow> u64 \<Rightarrow> u64 \<Rightarrow> bool \<times> (u64 \<times> u64) option" where
  "relocated T off ip = (case enclosing T (ip - off) of None \<Rightarrow> (False, Some (0, 0)) | Some (a, b) \<Rightarrow> (True, Some (a + off, b + off)))"

lemma enclosing_addr_found:
  assumes inv: "loadmap_inv (fs_loadmap s) L F R" and ip: "ip \<noteq> 0" and fd: "List.find (\<lambda>p. covers ip ip (mview (fs_loadmap s) p)) L = Some p"
    and d: "mod_dso_info (s_mods (fs_loadmap s) p) = Some d" and dso: "dso = s_dsos (fs_loadmap s) d" and t: "dso_table dso = Some t"
    and n: "n = unat (dso_nsymbols dso)" "0 < n" "n \<le> 2 ^ 30" "n \<le> length (fs_tables s t)" and srt: "sorted (take n (fs_tables s t))"
    and r: "\<not> dso_is_relocatable dso \<Longrightarrow> dso_start_to_ref_dist dso = 0"
  shows "\<exists>m. fnbounds_enclosing_addr ip s = Some (case relocated (take n (fs_tables s t)) (dso_start_to_ref_dist dso) ip of (b, se) \<Rightarrow> (b, se, Some p, s\<lparr> fs_loadmap := m \<rparr>)) \<and>
    loadmap_inv m L F R"
proof -
  obtain m where m: "hpcrun_loadmap_findByAddr ip ip (fs_loadmap s) = Some (Some p, m)" "loadmap_inv m L F R" "s_dsos m = s_dsos (fs_loadmap s)"
      "mod_dso_info (s_mods m p) = Some d"
    using find_addr_inv [OF inv, of ip ip] ip fd d by auto
  have pos: "dso_nsymbols dso > 0" using n(1,2) by (simp add: word_less_nat_alt)
  note look = table_lookup_enclosing [OF srt n(2,4,3)]
  have "fnbounds_enclosing_addr ip s = Some (case relocated (take n (fs_tables s t)) (dso_start_to_ref_dist dso) ip of (b, se) \<Rightarrow> (b, se, Some p, s\<lparr> fs_loadmap := m \<rparr>))"
    using pos t r
    by (auto simp: fnbounds_enclosing_addr_def m(1,3,4) dso [symmetric] Let_def nsymbols_int [OF n(3,1)] look relocated_def PERFORM_RELOCATION_def
      split: option.split)
  with m(2) show ?thesis by blast
qed

section \<open>From the file to the bounds\<close>

definition ordinary_file :: "(c_string \<Rightarrow> c_string option) \<Rightarrow> (c_string \<Rightarrow> Elf option) \<Rightarrow> c_string \<Rightarrow> c_string \<Rightarrow> Elf \<Rightarrow> bool" where
  "ordinary_file realpath files name path e \<longleftrightarrow>
     take 13 (c_str name) \<noteq> [108, 105, 110, 117, 120, 45, 103, 97, 116, 101, 46, 115, 111] \<and>
     \<not> (sublist [47, 118, 100, 115, 111, 47] (c_str name) \<and> sublist [46, 118, 100, 115, 111] (c_str name)) \<and>
     realpath name = Some path \<and> path \<noteq> [0x5b, 0x76, 0x64, 0x73, 0x6f, 0x5d] \<and> files path = Some e"

text \<open>Questions for a number of addresses, one after the other.\<close>

fun run_asks :: "u64 list \<Rightarrow> fnb_state \<Rightarrow> fnb_state option" where
  "run_asks [] s = Some s"
| "run_asks (ip # ips) s = (case fnbounds_enclosing_addr ip s of None \<Rightarrow> None | Some (_, _, _, s) \<Rightarrow> run_asks ips s)"

definition answers_kept :: "fnb_state \<Rightarrow> fnb_state \<Rightarrow> bool" where
  "answers_kept s s' \<longleftrightarrow> fs_tables s' = fs_tables s \<and> s_dsos (fs_loadmap s') = s_dsos (fs_loadmap s) \<and>
     (\<forall>p. mod_dso_info (s_mods (fs_loadmap s') p) = mod_dso_info (s_mods (fs_loadmap s) p))"

lemma enclosing_addr_keeps:
  assumes "loadmap_inv (fs_loadmap s) L F R" and "fnbounds_enclosing_addr ip s = Some (b, se, lm, s')"
  shows "loadmap_inv (fs_loadmap s') L F R \<and> answers_kept s s'"
proof -
  obtain lm' m where m: "hpcrun_loadmap_findByAddr ip ip (fs_loadmap s) = Some (lm', m)" "loadmap_inv m L F R" "s_dsos m = s_dsos (fs_loadmap s)"
      "\<forall>p. mod_dso_info (s_mods m p) = mod_dso_info (s_mods (fs_loadmap s) p)"
    using find_addr_inv [OF assms(1), of ip ip] by blast
  have "s' = s\<lparr> fs_loadmap := m \<rparr>" using assms(2)
    by (simp add: fnbounds_enclosing_addr_def m(1) Let_def split: option.splits if_splits prod.splits)
  then show ?thesis using m(2-4) by (simp add: answers_kept_def)
qed

lemma run_asks_keeps:
  "loadmap_inv (fs_loadmap s) L F R \<Longrightarrow> run_asks ips s = Some s' \<Longrightarrow> loadmap_inv (fs_loadmap s') L F R \<and> answers_kept s s'"
proof (induction ips arbitrary: s)
  case Nil
  then show ?case by (simp add: answers_kept_def)
next
  case (Cons ip ips)
  then obtain b se lm s1 where s1: "fnbounds_enclosing_addr ip s = Some (b, se, lm, s1)" "run_asks ips s1 = Some s'"
    by (auto split: option.splits)
  note k = enclosing_addr_keeps [OF Cons.prems(1) s1(1)]
  from Cons.IH [OF conjunct1 [OF k] s1(2)] k show ?case by (simp add: answers_kept_def)
qed

lemma answers_kept_covers: "answers_kept s s' \<Longrightarrow> covers a b (mview (fs_loadmap s') p) = covers a b (mview (fs_loadmap s) p)"
  by (simp add: answers_kept_def mview_def covers_def)

text \<open>
  C25. From the file of a load module to the bounds of a function. When a module is mapped from \<open>start\<close> to \<open>end\<close>, for an ordinary file
  as in the theorem on the table of functions, with at least one function and at most \<open>2 ^ 30\<close>, into a load map whose modules have different names, then after any number of questions for any addresses, every question for an address of
  that range that no other module covers is answered from the functions of the file: the bounds are those of the function that encloses
  the address once the module is moved back to the addresses of its file, moved forward again by the same distance, and the module
  returned is the one mapped. A shared object whose first function already lies in the range is taken to be loaded where its file says.
\<close>

theorem map_dso_resolves:
  assumes inv: "loadmap_inv (fs_loadmap s) L F R" and names: "distinct (map mv_name (view (fs_loadmap s) L))"
    and elf: "ordinary_file realpath files name path e" "elf_headers e shared vaddr" "elf_sections e secs dr fs"
    and some: "file_functions e secs dr fs \<noteq> []" "length (file_functions e secs dr fs) \<le> 2 ^ 30"
    and T: "T = sorted_list_of_set (set (file_functions e secs dr fs))"
    and off: "off = (if relocates shared start_a end_a T then start_a - vaddr else 0)"
  shows "\<exists>lm s'. fnbounds_map_dso junk files realpath stale (Some name) start_a end_a info s = Some (Some lm, s') \<and>
    (\<forall>asked s1 ip. run_asks asked s' = Some s1 \<and> ip \<noteq> 0 \<and> start_a \<le> ip \<and> ip \<le> end_a \<and>
       (\<forall>u \<in> set (view (fs_loadmap s) L). named path u \<or> \<not> covers ip ip u) \<longrightarrow>
       (\<exists>b se s''. fnbounds_enclosing_addr ip s1 = Some (b, se, Some lm, s'') \<and> (b, se) = relocated T off ip))"
proof -
  have "length (file_functions e secs dr fs) < 2 ^ 61" by (rule le_less_trans [OF some(2)]) simp
  then obtain resp where resp: "process_mapped_header junk e = Some resp" "fl_entries resp \<noteq> None" "funcs resp = T"
      "length T = unat (fl_num_entries resp)" "fl_is_relocatable resp = shared" "fl_reference_offset resp = vaddr"
    using mapped_header_functions [OF elf(2,3), of junk] unfolding T by auto
  have ne: "T \<noteq> []" "sorted T" using some(1) unfolding T by simp_all
  have "length T \<le> length (file_functions e secs dr fs)" unfolding T by (simp add: card_length)
  then have small: "length T \<le> 2 ^ 30" using some(2) by linarith
  have nm: "module_names realpath stale name = Some (path, path)" "fnb_get_funclist junk files path = Some resp"
    using elf(1) resp(1) by (auto simp: ordinary_file_def module_names_def fnb_get_funclist_def)
  let ?r = "\<lparr> fb_entries = Some (fs_table_fresh s), fb_num_entries = fl_num_entries resp, fb_is_relocatable = relocates shared start_a end_a T, fb_reference_offset = vaddr \<rparr>"
  from compute_makes [OF nm resp(2,3) ne(1) resp(4), of start_a end_a s] obtain d m t where
    c: "fnbounds_compute junk files realpath stale (Some name) start_a end_a s =
      Some (Some d, s\<lparr> fs_tables := (fs_tables s)(fs_table_fresh s := t), fs_table_fresh := Suc (fs_table_fresh s), fs_loadmap := m \<rparr>)"
    and t: "take (length T) t = T" "length T \<le> length t" and mk: "hpcrun_dso_make path (Some ?r) start_a end_a (fs_loadmap s) = (d, m)"
    unfolding resp(4-6) by blast
  note di = dso_make_inv [OF inv mk] and df = dso_make_fields [OF mk]
  obtain p m1 L' F' where mp: "hpcrun_loadmap_map d m = Some (p, m1)" "loadmap_inv m1 L' F' R"
      "view m1 L' = spec_map path (dso_view (s_dsos m d)) (view (fs_loadmap s) L)" "p \<in> set L'" "named path (mview m1 p)"
      "mv_dso (mview m1 p) = Some (dso_view (s_dsos m d))" "mod_dso_info (s_mods m1 p) = Some d" "s_dsos m1 d = s_dsos m d"
    using map_inv [OF di(1,2)] unfolding df(4) di(3) spec_map_c_str by (auto simp: named_def)
  let ?m2 = "upd_mod p (\<lambda>x. x\<lparr> mod_dlpi_phdr := info \<rparr>) m1"
  let ?s' = "s\<lparr> fs_tables := (fs_tables s)(fs_table_fresh s := t), fs_table_fresh := Suc (fs_table_fresh s), fs_loadmap := ?m2 \<rparr>"
  note k = dlpi_keeps [OF mp(2), of p info]
  have run: "fnbounds_map_dso junk files realpath stale (Some name) start_a end_a info s = Some (Some p, ?s')"
    by (simp add: fnbounds_map_dso_def c mp(1))
  have inv': "loadmap_inv (fs_loadmap ?s') L' F' R" using k(1) by simp
  have "\<exists>b se s''. fnbounds_enclosing_addr ip s1 = Some (b, se, Some p, s'') \<and> (b, se) = relocated T off ip"
    if s1: "run_asks asked ?s' = Some s1" and ip: "ip \<noteq> 0" "start_a \<le> ip" "ip \<le> end_a"
      and others: "\<forall>u \<in> set (view (fs_loadmap s) L). named path u \<or> \<not> covers ip ip u" for asked s1 ip
  proof -
    have kept: "loadmap_inv (fs_loadmap s1) L' F' R" "answers_kept ?s' s1" using run_asks_keeps [OF inv' s1] by blast+
    have cov: "covers ip ip (mview ?m2 p)" using ip unfolding k(3) by (simp add: covers_def mp(6) dso_view_def df)
    have "List.find (\<lambda>p. covers ip ip (mview (fs_loadmap ?s') p)) L' = Some p"
      using mapped_found [OF mp(3) names mp(4,5)] cov others unfolding k(3) by (simp add: k(3))
    then have fd: "List.find (\<lambda>p. covers ip ip (mview (fs_loadmap s1) p)) L' = Some p" unfolding answers_kept_covers [OF kept(2)] .
    have "\<exists>m3. fnbounds_enclosing_addr ip s1 = Some (case relocated (take (length T) t) off ip of (b, se) \<Rightarrow> (b, se, Some p, s1\<lparr> fs_loadmap := m3 \<rparr>)) \<and>
        loadmap_inv m3 L' F' R"
      using enclosing_addr_found [OF kept(1) ip(1) fd, of d "s_dsos m d" "fs_table_fresh s" "length T"] kept(2) mp(7,8) df resp(4) ne t small
      by (auto simp: off answers_kept_def)
    then show ?thesis unfolding t(1) by (cases "relocated T off ip") auto
  qed
  then show ?thesis using run by blast
qed

definition example_fnb_state :: fnb_state where
  "example_fnb_state = \<lparr> fs_loadmap = hpcrun_initLoadmap lm_start, fs_tables = (\<lambda>_. []), fs_table_fresh = 0, fs_lock = False \<rparr>"

theorem map_dso_resolves_witness:
  "\<exists>lm s' s1 s''. fnbounds_map_dso (\<lambda>_. undefined) (\<lambda>_. Some example_file) (\<lambda>_. Some [47, 97]) [] (Some [97]) 0x7f0000 0x7fffff None example_fnb_state = Some (Some lm, s') \<and>
    run_asks [0x7f0150] s' = Some s1 \<and> fnbounds_enclosing_addr 0x7f0150 s1 = Some (True, Some (0x7f0140, 0x7f0200), Some lm, s'')"
proof -
  have inv: "loadmap_inv (fs_loadmap example_fnb_state) [] [] []"
    unfolding example_fnb_state_def by (simp, rule init_inv) (simp add: lm_start_def)
  have v: "distinct (map mv_name (view (fs_loadmap example_fnb_state) []))" by (simp add: view_def)
  have f: "ordinary_file (\<lambda>_. Some [47, 97]) (\<lambda>_. Some example_file) [97] [47, 97] example_file"
    by (simp add: ordinary_file_def c_str_def sublist_Cons_right)
  have T: "sorted_list_of_set (set (file_functions example_file example_secs example_dr example_frames)) = [0x400, 0x500, 0x540, 0x600, 0x710, 0x720, 0x2000, 0x3000]"
    unfolding example_file_functions sorted_list_of_set_sort_remdups by code_simp
  have r: "relocated [0x400, 0x500, 0x540, 0x600, 0x710, 0x720, 0x2000, 0x3000] 0x7efc00 0x7f0150 = (True, Some (0x7f0140, 0x7f0200))" by code_simp
  have o: "(0x7efc00 :: u64) = (if relocates True 0x7f0000 0x7fffff [0x400, 0x500, 0x540, 0x600, 0x710, 0x720, 0x2000, 0x3000] then 0x7f0000 - 0x400 else 0)"
    by code_simp
  have l: "file_functions example_file example_secs example_dr example_frames \<noteq> []" "length (file_functions example_file example_secs example_dr example_frames) \<le> 2 ^ 30"
    by (simp_all add: example_file_functions)
  have w: "(0x7f0150 :: u64) \<noteq> 0 \<and> (0x7f0000 :: u64) \<le> 0x7f0150 \<and> (0x7f0150 :: u64) \<le> 0x7fffff \<and>
    (\<forall>u \<in> set (view (fs_loadmap example_fnb_state) []). named [47, 97] u \<or> \<not> covers 0x7f0150 0x7f0150 u)" by (simp add: view_def)
  let ?run = "fnbounds_map_dso (\<lambda>_. undefined) (\<lambda>_. Some example_file) (\<lambda>_. Some [47, 97]) [] (Some [97]) 0x7f0000 0x7fffff None example_fnb_state"
  obtain lm s' where s': "?run = Some (Some lm, s')"
    and a: "\<forall>asked s1 ip. run_asks asked s' = Some s1 \<and> ip \<noteq> 0 \<and> 0x7f0000 \<le> ip \<and> ip \<le> 0x7fffff \<and>
       (\<forall>u \<in> set (view (fs_loadmap example_fnb_state) []). named [47, 97] u \<or> \<not> covers ip ip u) \<longrightarrow>
       (\<exists>b se s''. fnbounds_enclosing_addr ip s1 = Some (b, se, Some lm, s'') \<and>
         (b, se) = relocated [0x400, 0x500, 0x540, 0x600, 0x710, 0x720, 0x2000, 0x3000] 0x7efc00 ip)"
    using map_dso_resolves [OF inv v f example_file_headers example_file_sections l T [symmetric] o, of "\<lambda>_. undefined" "[]" None]
    by (elim exE conjE) (rule that)
  have ans: "\<exists>s''. fnbounds_enclosing_addr 0x7f0150 s1 = Some (True, Some (0x7f0140, 0x7f0200), Some lm, s'')" if "run_asks asked s' = Some s1" for asked s1
    using a [rule_format, of asked s1 "0x7f0150", OF conjI [OF that w]] unfolding r prod.inject by blast
  obtain s1 where s1: "fnbounds_enclosing_addr 0x7f0150 s' = Some (True, Some (0x7f0140, 0x7f0200), Some lm, s1)" using ans [of "[]" s'] by auto
  then have "run_asks [0x7f0150] s' = Some s1" by simp
  with s' ans show ?thesis by blast
qed

end
