(* ===== verification/Outbuf.thy ===== *)
theory Outbuf
  imports Hpcrun_Fmt
begin

text \<open>
  Buffered output for the trace files, made for signal handlers (\<open>src/common/lean/hpcio-buffer.c\<close>), and the writers of trace headers and
  records on such a buffer (\<open>src/common/lean/hpcrun-fmt.c\<close>).

  The kernel is a sequence of answers to the calls of \<open>write\<close>: a number of bytes, of which it takes at most those offered, an
  interruption before any byte was taken, which \<open>write\<close> reports as -1 with \<open>EINTR\<close>, or another failure, -1 with another error. The files
  are the bytes taken for each descriptor. The memory of a buffer is the list \<open>ob_buf\<close>; a copy beyond its end is \<open>None\<close>. Calls run to
  their end, so that the lock of a buffer is free when it is taken.
\<close>

section \<open>Buffers\<close>

definition HPCIO_OUTBUF_MAGIC :: u32 where "HPCIO_OUTBUF_MAGIC = 0x494F4246"
definition HPCIO_OUTBUF_LOCKED :: u32 where "HPCIO_OUTBUF_LOCKED = 1"
definition HPCIO_OUTBUF_UNLOCKED :: u32 where "HPCIO_OUTBUF_UNLOCKED = 2"

record hpcio_outbuf_t =
  ob_next :: "nat option"
  ob_magic :: u32
  ob_buf :: "byte list"
  ob_buf_size :: nat
  ob_in_use :: nat
  ob_fd :: int
  ob_flags :: u32
  ob_use_lock :: bool

datatype write_answer = Wrote nat | Interrupted | Failed

record outbuf_state =
  os_bufs :: "nat \<Rightarrow> hpcio_outbuf_t"
  os_freelist :: "nat option"
  os_fresh :: nat
  os_files :: "int \<Rightarrow> byte list"
  os_answers :: "nat \<Rightarrow> write_answer"
  os_calls :: nat
  os_close :: "int \<Rightarrow> bool"

text \<open>The result of \<open>write\<close>, and whether \<open>errno\<close> is \<open>EINTR\<close> after it.\<close>

definition sys_write :: "int \<Rightarrow> byte list \<Rightarrow> outbuf_state \<Rightarrow> int \<times> bool \<times> outbuf_state" where
  "sys_write fd bs s =
    (let s' = s\<lparr> os_calls := Suc (os_calls s) \<rparr>
     in case os_answers s (os_calls s) of
          Wrote n \<Rightarrow> (int (min n (length bs)), False, s'\<lparr> os_files := (os_files s)(fd := os_files s fd @ take n bs) \<rparr>)
        | Interrupted \<Rightarrow> (- 1, True, s')
        | Failed \<Rightarrow> (- 1, False, s'))"

definition freelist_dequeue :: "outbuf_state \<Rightarrow> nat option \<times> outbuf_state" where
  "freelist_dequeue s = (case os_freelist s of None \<Rightarrow> (None, s) | Some ob \<Rightarrow> (Some ob, s\<lparr> os_freelist := ob_next (os_bufs s ob) \<rparr>))"

definition outbuf_alloc :: "outbuf_state \<Rightarrow> nat \<times> outbuf_state" where
  "outbuf_alloc s = (case freelist_dequeue s of (Some ob, s) \<Rightarrow> (ob, s) | (None, s) \<Rightarrow> (os_fresh s, s\<lparr> os_fresh := Suc (os_fresh s) \<rparr>))"

definition upd_buf :: "nat \<Rightarrow> hpcio_outbuf_t \<Rightarrow> outbuf_state \<Rightarrow> outbuf_state" where
  "upd_buf p ob s = s\<lparr> os_bufs := (os_bufs s)(p := ob) \<rparr>"

definition outbuf_free :: "nat \<Rightarrow> outbuf_state \<Rightarrow> outbuf_state" where
  "outbuf_free p s = (upd_buf p ((os_bufs s p)\<lparr> ob_next := os_freelist s \<rparr>) s)\<lparr> os_freelist := Some p \<rparr>"

partial_function (option) flush_loop :: "hpcio_outbuf_t \<Rightarrow> nat \<Rightarrow> outbuf_state \<Rightarrow> (bool \<times> hpcio_outbuf_t \<times> outbuf_state) option" where
  "flush_loop ob amt_done s =
    (if amt_done < ob_in_use ob
     then (case sys_write (ob_fd ob) (take (ob_in_use ob - amt_done) (drop amt_done (ob_buf ob))) s of (ret, intr, s) \<Rightarrow>
       if ret > 0 \<or> (ret = 0 \<and> intr) then flush_loop ob (amt_done + nat ret) s
       else Some (False,
         (if amt_done > 0
          then ob\<lparr> ob_buf := take (ob_in_use ob - amt_done) (drop amt_done (ob_buf ob)) @ drop (ob_in_use ob - amt_done) (ob_buf ob), ob_in_use := amt_done \<rparr>
          else ob), s))
     else Some (True, ob\<lparr> ob_in_use := 0 \<rparr>, s))"

declare flush_loop.simps [code]

definition outbuf_flush_buffer :: "nat \<Rightarrow> outbuf_state \<Rightarrow> (bool \<times> outbuf_state) option" where
  "outbuf_flush_buffer p s = map_option (\<lambda>(ok, ob, s). (ok, upd_buf p ob s)) (flush_loop (os_bufs s p) 0 s)"

text \<open>The buffer is the memory that the client supplies, or \<open>None\<close> for a null pointer. The result is the buffer, if the call succeeds.\<close>

definition hpcio_outbuf_attach :: "int \<Rightarrow> byte list option \<Rightarrow> nat \<Rightarrow> u32 \<Rightarrow> outbuf_state \<Rightarrow> nat option \<times> outbuf_state" where
  "hpcio_outbuf_attach fd buf_start buf_size flags s = (case buf_start of None \<Rightarrow> (None, s)
     | Some buf \<Rightarrow>
        if fd < 0 \<or> buf_size = 0 then (None, s)
        else (case outbuf_alloc s of (p, s) \<Rightarrow>
          (Some p, upd_buf p \<lparr> ob_next = None, ob_magic = HPCIO_OUTBUF_MAGIC, ob_buf = buf, ob_buf_size = buf_size, ob_in_use = 0, ob_fd = fd,
             ob_flags = flags, ob_use_lock = (flags AND HPCIO_OUTBUF_LOCKED \<noteq> 0) \<rparr> s)))"

partial_function (option) outbuf_write_loop :: "nat \<Rightarrow> byte list \<Rightarrow> nat \<Rightarrow> outbuf_state \<Rightarrow> (nat \<times> outbuf_state) option" where
  "outbuf_write_loop p data amt_done s =
    (if amt_done < length data
     then (if ob_in_use (os_bufs s p) > ob_buf_size (os_bufs s p) then None
       else (case (if length data > ob_buf_size (os_bufs s p) - ob_in_use (os_bufs s p)
                   then map_option (\<lambda>(_, s). (ob_in_use (os_bufs s p) = ob_buf_size (os_bufs s p), s)) (outbuf_flush_buffer p s)
                   else Some (False, s)) of None \<Rightarrow> None
         | Some (full, s) \<Rightarrow>
            if full then Some (amt_done, s)
            else (let ob = os_bufs s p; amt = min (length data - amt_done) (ob_buf_size ob - ob_in_use ob)
                  in if ob_in_use ob + amt \<le> length (ob_buf ob)
                     then outbuf_write_loop p data (amt_done + amt)
                       (upd_buf p (ob\<lparr> ob_buf := take (ob_in_use ob) (ob_buf ob) @ take amt (drop amt_done data) @ drop (ob_in_use ob + amt) (ob_buf ob),
                          ob_in_use := ob_in_use ob + amt \<rparr>) s)
                     else None)))
     else Some (amt_done, s))"

declare outbuf_write_loop.simps [code]

definition bad_buffer :: "nat option \<Rightarrow> outbuf_state \<Rightarrow> bool" where
  "bad_buffer outbuf s \<longleftrightarrow> (case outbuf of None \<Rightarrow> True | Some p \<Rightarrow> ob_magic (os_bufs s p) \<noteq> HPCIO_OUTBUF_MAGIC)"

definition hpcio_outbuf_write :: "nat option \<Rightarrow> byte list \<Rightarrow> outbuf_state \<Rightarrow> (int \<times> outbuf_state) option" where
  "hpcio_outbuf_write outbuf data s =
    (if bad_buffer outbuf s then Some (- 1, s) else map_option (\<lambda>(n, s). (int n, s)) (outbuf_write_loop (the outbuf) data 0 s))"

definition hpcio_outbuf_flush :: "nat option \<Rightarrow> outbuf_state \<Rightarrow> (bool \<times> outbuf_state) option" where
  "hpcio_outbuf_flush outbuf s = (if bad_buffer outbuf s then Some (False, s) else outbuf_flush_buffer (the outbuf) s)"

text \<open>On success the pointer of the client is cleared; the buffer goes to the free list whether the flush and the close succeed or not.\<close>

definition hpcio_outbuf_close :: "nat option \<Rightarrow> outbuf_state \<Rightarrow> (bool \<times> nat option \<times> outbuf_state) option" where
  "hpcio_outbuf_close outbuf s =
    (if bad_buffer outbuf s then Some (False, outbuf, s)
     else (let p = the outbuf
           in case outbuf_flush_buffer p s of None \<Rightarrow> None
              | Some (ok, s) \<Rightarrow>
                 (let ok = (ok \<and> os_close s (ob_fd (os_bufs s p)));
                      s = (if ok then upd_buf p ((os_bufs s p)\<lparr> ob_magic := 0, ob_fd := - 1 \<rparr>) s else s)
                  in Some (ok, None, outbuf_free p s))))"

section \<open>Trace headers and records\<close>

definition hpctrace_fmt_hdr_outbuf :: "u64 \<Rightarrow> nat option \<Rightarrow> outbuf_state \<Rightarrow> (bool \<times> outbuf_state) option" where
  "hpctrace_fmt_hdr_outbuf flags outbuf s =
    (let buf = map (\<lambda>shift. ucast (drop_bit shift flags AND 0xff)) [56, 48, 40, 32, 24, 16, 8, 0]
     in case hpcio_outbuf_write outbuf HPCTRACE_FMT_Magic s of None \<Rightarrow> None
        | Some (_, s) \<Rightarrow>
           (case hpcio_outbuf_write outbuf HPCTRACE_FMT_Version s of None \<Rightarrow> None
            | Some (_, s) \<Rightarrow>
               (case hpcio_outbuf_write outbuf HPCTRACE_FMT_Endian s of None \<Rightarrow> None
                | Some (_, s) \<Rightarrow> map_option (\<lambda>(ret, s). (ret = 8, s)) (hpcio_outbuf_write outbuf buf s))))"

definition hpctrace_fmt_datum_outbuf :: "hpctrace_fmt_datum_t \<Rightarrow> u64 \<Rightarrow> nat option \<Rightarrow> outbuf_state \<Rightarrow> (bool \<times> outbuf_state) option" where
  "hpctrace_fmt_datum_outbuf x flags outbuf s =
    (let buf = map (\<lambda>shift. ucast (drop_bit shift (datum_comp x) AND 0xff)) [56, 48, 40, 32, 24, 16, 8, 0] @
           map (\<lambda>shift. ucast (drop_bit shift (datum_cpId x) AND 0xff)) [24, 16, 8, 0] @
           (if data_centric flags then map (\<lambda>shift. ucast (drop_bit shift (datum_metricId x) AND 0xff)) [24, 16, 8, 0] else [])
     in map_option (\<lambda>(ret, s). (ret = int (length buf), s)) (hpcio_outbuf_write outbuf buf s))"

section \<open>A kernel that delivers\<close>

text \<open>Every call takes a byte at least. An interruption is not such an answer: the code handles it as a failure.\<close>

definition delivers :: "outbuf_state \<Rightarrow> bool" where
  "delivers s \<longleftrightarrow> (\<forall>i. \<exists>n > 0. os_answers s i = Wrote n)"

definition pending :: "hpcio_outbuf_t \<Rightarrow> byte list" where
  "pending ob = take (ob_in_use ob) (ob_buf ob)"

definition outbuf_ok :: "hpcio_outbuf_t \<Rightarrow> bool" where
  "outbuf_ok ob \<longleftrightarrow> ob_magic ob = HPCIO_OUTBUF_MAGIC \<and> length (ob_buf ob) = ob_buf_size ob \<and> ob_in_use ob \<le> ob_buf_size ob \<and> 0 < ob_buf_size ob"

text \<open>Two states that differ in the contents of the files, the number of calls and the buffer \<open>p\<close> only.\<close>

definition rest_same :: "outbuf_state \<Rightarrow> outbuf_state \<Rightarrow> bool" where
  "rest_same s s' \<longleftrightarrow> os_freelist s' = os_freelist s \<and> os_fresh s' = os_fresh s \<and> os_answers s' = os_answers s \<and> os_close s' = os_close s"

lemma rest_same_trans [trans]: "rest_same a b \<Longrightarrow> rest_same b c \<Longrightarrow> rest_same a c"
  by (simp add: rest_same_def)

lemma rest_same_delivers: "rest_same s s' \<Longrightarrow> delivers s \<Longrightarrow> delivers s'"
  by (simp add: rest_same_def delivers_def)

lemma rest_same_upd [simp]: "rest_same s (upd_buf p ob s')  = rest_same s s'" "rest_same s s"
  by (simp_all add: rest_same_def upd_buf_def)

lemma upd_buf_simps [simp]:
  "os_bufs (upd_buf p ob s) = (os_bufs s)(p := ob)" "os_files (upd_buf p ob s) = os_files s" "os_close (upd_buf p ob s) = os_close s"
  "os_freelist (upd_buf p ob s) = os_freelist s" "os_answers (upd_buf p ob s) = os_answers s"
  by (simp_all add: upd_buf_def)

lemma flush_loop_delivers:
  assumes "delivers s" and "amt \<le> ob_in_use ob" and "ob_in_use ob \<le> length (ob_buf ob)"
  shows "\<exists>s'. flush_loop ob amt s = Some (True, ob\<lparr> ob_in_use := 0 \<rparr>, s') \<and> rest_same s s' \<and> os_bufs s' = os_bufs s \<and>
    os_files s' = (os_files s)(ob_fd ob := os_files s (ob_fd ob) @ drop amt (pending ob))"
  using assms
proof (induction "ob_in_use ob - amt" arbitrary: amt s rule: less_induct)
  case less
  show ?case
  proof (cases "amt < ob_in_use ob")
    case False
    then show ?thesis using less.prems by (subst flush_loop.simps) (simp add: pending_def)
  next
    case True
    obtain n where n: "os_answers s (os_calls s) = Wrote n" "0 < n" using less.prems(1) unfolding delivers_def by metis
    let ?bs = "take (ob_in_use ob - amt) (drop amt (ob_buf ob))"
    let ?s = "s\<lparr> os_calls := Suc (os_calls s), os_files := (os_files s)(ob_fd ob := os_files s (ob_fd ob) @ take n ?bs) \<rparr>"
    let ?a = "amt + min n (ob_in_use ob - amt)"
    have lb: "length ?bs = ob_in_use ob - amt" using less.prems(3) by simp
    have w: "sys_write (ob_fd ob) ?bs s = (int (min n (ob_in_use ob - amt)), False, ?s)"
      unfolding sys_write_def lb by (simp add: n)
    have "0 < min n (ob_in_use ob - amt)" using True n(2) by simp
    then have "flush_loop ob amt s = flush_loop ob ?a ?s"
      by (subst flush_loop.simps) (simp only: w True if_True prod.case nat_int of_nat_0_less_iff simp_thms)
    moreover have "delivers ?s" using less.prems(1) by (simp add: delivers_def)
    moreover have "ob_in_use ob - ?a < ob_in_use ob - amt" "?a \<le> ob_in_use ob" using True n(2) by (auto simp: min_def)
    ultimately obtain s' where s': "flush_loop ob amt s = Some (True, ob\<lparr> ob_in_use := 0 \<rparr>, s')" "rest_same ?s s'" "os_bufs s' = os_bufs s"
        "os_files s' = (os_files s)(ob_fd ob := os_files s (ob_fd ob) @ take n ?bs @ drop ?a (pending ob))"
      using less.hyps [of ?a ?s] less.prems(3) by auto
    have "take n ?bs @ drop ?a (pending ob) = drop amt (pending ob)"
    proof -
      have p: "?bs = drop amt (pending ob)" by (simp add: pending_def drop_take)
      have "drop ?a (pending ob) = drop n (drop amt (pending ob))"
        using less.prems(3) by (cases "n \<le> ob_in_use ob - amt") (simp_all add: pending_def add.commute)
      then show ?thesis unfolding p by (simp only: append_take_drop_id)
    qed
    then show ?thesis using s' by (auto simp: rest_same_def)
  qed
qed

lemma flush_buffer_delivers:
  assumes "delivers s" and "outbuf_ok (os_bufs s p)"
  shows "\<exists>s'. outbuf_flush_buffer p s = Some (True, s') \<and> rest_same s s' \<and> os_bufs s' = (os_bufs s)(p := (os_bufs s p)\<lparr> ob_in_use := 0 \<rparr>) \<and>
    os_files s' = (os_files s)(ob_fd (os_bufs s p) := os_files s (ob_fd (os_bufs s p)) @ pending (os_bufs s p))"
proof -
  have "ob_in_use (os_bufs s p) \<le> length (ob_buf (os_bufs s p))" using assms(2) by (simp add: outbuf_ok_def)
  from flush_loop_delivers [OF assms(1) _ this, of 0]
  show ?thesis by (auto simp: outbuf_flush_buffer_def)
qed

text \<open>What has been written to the buffer \<open>p\<close>, whether the kernel has it already or not.\<close>

definition outbuf_output :: "nat \<Rightarrow> outbuf_state \<Rightarrow> byte list" where
  "outbuf_output p s = os_files s (ob_fd (os_bufs s p)) @ pending (os_bufs s p)"

definition ready :: "nat \<Rightarrow> outbuf_state \<Rightarrow> bool" where
  "ready p s \<longleftrightarrow> delivers s \<and> outbuf_ok (os_bufs s p)"

text \<open>A step that adds the bytes \<open>bs\<close> to the output of \<open>p\<close> and changes nothing else.\<close>

definition adds :: "nat \<Rightarrow> byte list \<Rightarrow> outbuf_state \<Rightarrow> outbuf_state \<Rightarrow> bool" where
  "adds p bs s s' \<longleftrightarrow> ready p s' \<and> outbuf_output p s' = outbuf_output p s @ bs \<and> rest_same s s' \<and> ob_fd (os_bufs s' p) = ob_fd (os_bufs s p) \<and>
     (\<forall>q. q \<noteq> p \<longrightarrow> os_bufs s' q = os_bufs s q) \<and> (\<forall>fd. fd \<noteq> ob_fd (os_bufs s p) \<longrightarrow> os_files s' fd = os_files s fd)"

lemma adds_refl: "ready p s \<Longrightarrow> adds p [] s s"
  by (simp add: adds_def)

lemma adds_trans: "adds p as s t \<Longrightarrow> adds p bs t u \<Longrightarrow> adds p (as @ bs) s u"
  by (auto simp: adds_def rest_same_def)

lemma adds_copy:
  assumes "ready p s" and "ob = os_bufs s p" and "ob_in_use ob + length bs \<le> ob_buf_size ob"
  shows "adds p bs s (upd_buf p (ob\<lparr> ob_buf := take (ob_in_use ob) (ob_buf ob) @ bs @ drop (ob_in_use ob + length bs) (ob_buf ob),
    ob_in_use := ob_in_use ob + length bs \<rparr>) s)"
  using assms by (simp add: adds_def ready_def outbuf_ok_def delivers_def outbuf_output_def pending_def)

lemma adds_flush:
  assumes "ready p s"
  shows "\<exists>s'. outbuf_flush_buffer p s = Some (True, s') \<and> adds p [] s s' \<and> ob_in_use (os_bufs s' p) = 0 \<and> ob_buf_size (os_bufs s' p) = ob_buf_size (os_bufs s p)"
proof -
  obtain s' where s': "outbuf_flush_buffer p s = Some (True, s')" "rest_same s s'" "os_bufs s' = (os_bufs s)(p := (os_bufs s p)\<lparr> ob_in_use := 0 \<rparr>)"
     "os_files s' = (os_files s)(ob_fd (os_bufs s p) := os_files s (ob_fd (os_bufs s p)) @ pending (os_bufs s p))"
    using flush_buffer_delivers [of s p] assms by (auto simp: ready_def)
  have "delivers s'" using s'(2) rest_same_delivers assms by (auto simp: ready_def)
  then have "adds p [] s s'" using s'(2-4) assms by (auto simp: adds_def ready_def outbuf_output_def outbuf_ok_def pending_def)
  then show ?thesis using s' by auto
qed

lemma take_drop_append: "take n (drop a xs) @ drop (a + n) xs = drop a xs"
  by (metis append_take_drop_id drop_drop add.commute)

lemma write_loop_adds:
  assumes "ready p s" and "amt \<le> length data"
  shows "\<exists>s'. outbuf_write_loop p data amt s = Some (length data, s') \<and> adds p (drop amt data) s s'"
  using assms
proof (induction "length data - amt" arbitrary: amt s rule: less_induct)
  case less
  show ?case
  proof (cases "amt < length data")
    case False
    then have e: "amt = length data" using less.prems(2) by simp
    then have "outbuf_write_loop p data amt s = Some (length data, s)" by (subst outbuf_write_loop.simps) simp
    then show ?thesis using e adds_refl [OF less.prems(1)] by auto
  next
    case True
    have ok: "outbuf_ok (os_bufs s p)" using less.prems(1) by (simp add: ready_def)
    let ?fl = "if length data > ob_buf_size (os_bufs s p) - ob_in_use (os_bufs s p)
                   then map_option (\<lambda>(_, s). (ob_in_use (os_bufs s p) = ob_buf_size (os_bufs s p), s)) (outbuf_flush_buffer p s) else Some (False, s)"
    obtain s1 where s1: "?fl = Some (False, s1)" "adds p [] s s1" "ob_in_use (os_bufs s1 p) < ob_buf_size (os_bufs s1 p)"
    proof (cases "length data > ob_buf_size (os_bufs s p) - ob_in_use (os_bufs s p)")
      case yes: True
      obtain s1 where 1: "outbuf_flush_buffer p s = Some (True, s1)" "adds p [] s s1" "ob_in_use (os_bufs s1 p) = 0"
          "ob_buf_size (os_bufs s1 p) = ob_buf_size (os_bufs s p)" using adds_flush [OF less.prems(1)] by blast
      moreover have "0 < ob_buf_size (os_bufs s p)" using ok by (simp add: outbuf_ok_def)
      ultimately show ?thesis using that [of s1] yes by simp
    next
      case no: False
      have "0 < length data" using True by (cases data) auto
      then have "ob_in_use (os_bufs s p) < ob_buf_size (os_bufs s p)" using no by linarith
      then show ?thesis using that [of s] no adds_refl [OF less.prems(1)] by simp
    qed
    let ?ob = "os_bufs s1 p"
    let ?n = "min (length data - amt) (ob_buf_size ?ob - ob_in_use ?ob)"
    let ?bs = "take ?n (drop amt data)"
    let ?s2 = "upd_buf p (?ob\<lparr> ob_buf := take (ob_in_use ?ob) (ob_buf ?ob) @ ?bs @ drop (ob_in_use ?ob + ?n) (ob_buf ?ob), ob_in_use := ob_in_use ?ob + ?n \<rparr>) s1"
    have r1: "ready p s1" using s1(2) by (simp add: adds_def)
    have n: "0 < ?n" "length ?bs = ?n" "ob_in_use ?ob + ?n \<le> ob_buf_size ?ob" using True s1(3) by simp_all
    have a2: "adds p ?bs s1 ?s2" using adds_copy [OF r1 refl, of ?bs] n(2,3) by simp
    have "length (ob_buf ?ob) = ob_buf_size ?ob" using r1 by (simp add: ready_def outbuf_ok_def)
    then have fit: "ob_in_use ?ob + ?n \<le> length (ob_buf ?ob)" using n(3) by simp
    have "\<not> ob_in_use (os_bufs s p) > ob_buf_size (os_bufs s p)" using ok by (simp add: outbuf_ok_def)
    then have step: "outbuf_write_loop p data amt s = outbuf_write_loop p data (amt + ?n) ?s2"
      using True fit by (subst outbuf_write_loop.simps) (simp only: s1(1) if_True if_False option.case prod.case Let_def)
    have "length data - (amt + ?n) < length data - amt" "amt + ?n \<le> length data" using True n(1) by auto
    moreover have "ready p ?s2" using a2 by (simp add: adds_def)
    ultimately obtain s3 where s3: "outbuf_write_loop p data (amt + ?n) ?s2 = Some (length data, s3)" "adds p (drop (amt + ?n) data) ?s2 s3"
      using less.hyps [of "amt + ?n" ?s2] by blast
    have "?bs @ drop (amt + ?n) data = drop amt data" by (rule take_drop_append)
    then have "adds p (drop amt data) s s3" using adds_trans [OF adds_trans [OF s1(2) a2] s3(2)] by simp
    then show ?thesis using step s3(1) by auto
  qed
qed

lemma write_adds:
  assumes "ready p s"
  shows "\<exists>s'. hpcio_outbuf_write (Some p) data s = Some (int (length data), s') \<and> adds p data s s'"
  using write_loop_adds [OF assms, of 0 data] assms by (auto simp: hpcio_outbuf_write_def bad_buffer_def ready_def outbuf_ok_def)

lemma shift_bytes: "ucast (drop_bit n v AND 0xff) = (ucast (drop_bit n v) :: byte)" for v :: "'a::len word"
proof -
  have m: "(0xff :: 'a word) = mask 8" by (simp add: mask_eq_exp_minus_1)
  show ?thesis unfolding m by (rule bit_word_eqI) (auto simp: bit_simps dest: bit_imp_le_length)
qed

lemma hdr_adds:
  assumes "ready p s"
  shows "\<exists>s'. hpctrace_fmt_hdr_outbuf flags (Some p) s = Some (True, s') \<and> adds p (enc_trace_hdr flags) s s'"
proof -
  obtain s1 where s1: "hpcio_outbuf_write (Some p) HPCTRACE_FMT_Magic s = Some (int (length HPCTRACE_FMT_Magic), s1)" "adds p HPCTRACE_FMT_Magic s s1"
    using write_adds [OF assms] by blast
  obtain s2 where s2: "hpcio_outbuf_write (Some p) HPCTRACE_FMT_Version s1 = Some (int (length HPCTRACE_FMT_Version), s2)" "adds p HPCTRACE_FMT_Version s1 s2"
    using write_adds s1(2) unfolding adds_def by blast
  obtain s3 where s3: "hpcio_outbuf_write (Some p) HPCTRACE_FMT_Endian s2 = Some (int (length HPCTRACE_FMT_Endian), s3)" "adds p HPCTRACE_FMT_Endian s2 s3"
    using write_adds s2(2) unfolding adds_def by blast
  obtain s4 where s4: "hpcio_outbuf_write (Some p) (enc_int8 flags) s3 = Some (8, s4)" "adds p (enc_int8 flags) s3 s4"
    using write_adds [of p s3 "enc_int8 flags"] s3(2) unfolding adds_def by (auto simp: enc_int8_def)
  have e: "map (\<lambda>shift. ucast (drop_bit shift flags AND 0xff)) [56, 48, 40, 32, 24, 16, 8, 0] = enc_int8 flags"
    unfolding shift_bytes by (simp add: enc_int8_def)
  show ?thesis
    using s1(1) s2(1) s3(1) s4(1) adds_trans [OF s1(2) adds_trans [OF s2(2) adds_trans [OF s3(2) s4(2)]]]
    unfolding hpctrace_fmt_hdr_outbuf_def Let_def e by (auto simp: enc_trace_hdr_def)
qed

lemma datum_adds:
  assumes "ready p s"
  shows "\<exists>s'. hpctrace_fmt_datum_outbuf x flags (Some p) s = Some (True, s') \<and> adds p (enc_datum flags x) s s'"
proof -
  have e: "map (\<lambda>shift. ucast (drop_bit shift (datum_comp x) AND 0xff)) [56, 48, 40, 32, 24, 16, 8, 0] @
      map (\<lambda>shift. ucast (drop_bit shift (datum_cpId x) AND 0xff)) [24, 16, 8, 0] @
      (if data_centric flags then map (\<lambda>shift. ucast (drop_bit shift (datum_metricId x) AND 0xff)) [24, 16, 8, 0] else []) = enc_datum flags x"
    unfolding shift_bytes by (simp add: enc_datum_def enc_int8_def enc_int4_def)
  show ?thesis using write_adds [OF assms, of "enc_datum flags x"] unfolding hpctrace_fmt_datum_outbuf_def Let_def e by auto
qed

section \<open>A kernel that fails\<close>

text \<open>
  C36. A flush that fails after a part of the buffer was written corrupts the output. When the first call of \<open>write\<close> takes \<open>m\<close> of the bytes that are
  pending, and the next one fails or is interrupted by a signal, the remaining bytes are moved to the front, but the number of bytes in use is set to \<open>m\<close>, the number
  that was written, and not to the number that remains: what is pending afterwards is what remained only if exactly half of the buffer
  had been written. Otherwise bytes are lost, or bytes that were written already are written again.
\<close>

theorem outbuf_partial_flush_corrupts:
  assumes "outbuf_ok (os_bufs s p)" and "0 < m" and "m < ob_in_use (os_bufs s p)"
    and "os_answers s (os_calls s) = Wrote m" and "os_answers s (Suc (os_calls s)) = Failed \<or> os_answers s (Suc (os_calls s)) = Interrupted"
  shows "\<exists>s'. outbuf_flush_buffer p s = Some (False, s') \<and>
    os_files s' (ob_fd (os_bufs s p)) = os_files s (ob_fd (os_bufs s p)) @ take m (pending (os_bufs s p)) \<and> ob_in_use (os_bufs s' p) = m \<and>
    (pending (os_bufs s' p) = drop m (pending (os_bufs s p)) \<longleftrightarrow> 2 * m = ob_in_use (os_bufs s p))"
proof -
  let ?ob = "os_bufs s p"
  let ?n = "ob_in_use ?ob"
  have n: "?n \<le> length (ob_buf ?ob)" using assms(1) by (simp add: outbuf_ok_def)
  let ?s1 = "s\<lparr> os_calls := Suc (os_calls s), os_files := (os_files s)(ob_fd ?ob := os_files s (ob_fd ?ob) @ take m (pending ?ob)) \<rparr>"
  let ?s2 = "?s1\<lparr> os_calls := Suc (Suc (os_calls s)) \<rparr>"
  let ?ob' = "?ob\<lparr> ob_buf := take (?n - m) (drop m (ob_buf ?ob)) @ drop (?n - m) (ob_buf ?ob), ob_in_use := m \<rparr>"
  have "flush_loop ?ob 0 s = flush_loop ?ob m ?s1"
    using assms(2-4) n by (subst flush_loop.simps) (simp add: sys_write_def pending_def min_def)
  also have "\<dots> = Some (False, ?ob', ?s2)"
    using assms(2,3,5) by (subst flush_loop.simps) (auto simp: sys_write_def)
  finally have f: "outbuf_flush_buffer p s = Some (False, upd_buf p ?ob' ?s2)" by (simp add: outbuf_flush_buffer_def)
  have "length (ob_buf ?ob') = length (ob_buf ?ob)" using n assms(3) by simp
  then have "length (pending ?ob') = m" unfolding pending_def length_take using n assms(3) by simp
  moreover have "length (drop m (pending ?ob)) = ?n - m" using n by (simp add: pending_def)
  ultimately have "2 * m = ?n" if "pending ?ob' = drop m (pending ?ob)" using assms(3) arg_cong [OF that, of length] by simp
  moreover have "pending ?ob' = drop m (pending ?ob)" if "2 * m = ?n"
    using n that [symmetric] by (simp add: pending_def drop_take)
  ultimately show ?thesis using f by auto
qed

definition example_outbufs :: "write_answer list \<Rightarrow> outbuf_state" where
  "example_outbufs as = \<lparr> os_bufs = (\<lambda>_. \<lparr> ob_next = None, ob_magic = HPCIO_OUTBUF_MAGIC, ob_buf = [1, 2, 3, 4, 5, 6], ob_buf_size = 6, ob_in_use = 5, ob_fd = 3,
      ob_flags = 2, ob_use_lock = False \<rparr>), os_freelist = None, os_fresh = 1, os_files = (\<lambda>_. []),
     os_answers = (\<lambda>i. if i < length as then as ! i else Wrote 2), os_calls = 0, os_close = (\<lambda>_. True) \<rparr>"

theorem outbuf_partial_flush_corrupts_witness:
  "\<exists>s'. outbuf_flush_buffer 0 (example_outbufs [Wrote 1, Interrupted]) = Some (False, s') \<and> os_files s' 3 = [1] \<and> ob_in_use (os_bufs s' 0) = 1 \<and>
    pending (os_bufs s' 0) \<noteq> [2, 3, 4, 5]"
proof -
  have "outbuf_ok (os_bufs (example_outbufs [Wrote 1, Interrupted]) 0)" by (simp add: outbuf_ok_def example_outbufs_def)
  from outbuf_partial_flush_corrupts [OF this, of 1] show ?thesis by (simp add: example_outbufs_def pending_def)
qed

end
