(* ===== verification/Trace.thy ===== *)
theory Trace
  imports Outbuf Write_Data
begin

text \<open>
  The trace of a thread (\<open>src/hpcrun/trace.c\<close>): a record for every sample, written through a buffer to a file of its own, and the bounds of the
  times for the profile of the thread.

  \<open>DATACENTRIC_TRACE\<close> and \<open>LCA_TRACE\<close> are not defined, as in the build of the repository, so that the records carry the time, and the distance to
  the least common ancestor is dropped. The opened file, the memory of the buffer, the time of day and whether this process is sampled are
  arguments. \<open>Terminates\<close> is a call of \<open>hpcrun_terminate\<close>; an execution that is undefined or does not end is \<open>None\<close>.
\<close>

section \<open>Operations\<close>



definition HPCRUN_CPU_TRACE_FLAG :: u32 where "HPCRUN_CPU_TRACE_FLAG = 1"
definition HPCRUN_GPU_TRACE_FLAG :: u32 where "HPCRUN_GPU_TRACE_FLAG = 2"
definition HPCRUN_CPU_KERNEL_LAUNCH_TRACE_FLAG :: u32 where "HPCRUN_CPU_KERNEL_LAUNCH_TRACE_FLAG = 4"

record trace_data = core_profile_trace_data_t +
  cp_trace_last_time :: u64
  cp_trace_outbuf :: "nat option"

record trace_state =
  ts_tracing :: int
  ts_flags :: u32
  ts_prev_nanotime :: u64
  ts_outbufs :: outbuf_state
  ts_cct :: cct_state
  ts_cptd :: trace_data

definition hpcrun_trace_isactive :: "trace_state \<Rightarrow> int" where
  "hpcrun_trace_isactive s = ts_tracing s"

definition hpcrun_set_trace_metric :: "u32 \<Rightarrow> trace_state \<Rightarrow> trace_state" where
  "hpcrun_set_trace_metric m s = s\<lparr> ts_flags := ts_flags s OR m \<rparr>"

definition hpcrun_has_trace_metric :: "trace_state \<Rightarrow> int" where
  "hpcrun_has_trace_metric s = (if sint (ts_flags s) > 0 then 1 else 0)"

definition hpcrun_cpu_trace_on :: "trace_state \<Rightarrow> int" where
  "hpcrun_cpu_trace_on s = (if ts_flags s AND HPCRUN_CPU_TRACE_FLAG \<noteq> 0 then 1 else 0)"

definition hpcrun_gpu_trace_on :: "trace_state \<Rightarrow> int" where
  "hpcrun_gpu_trace_on s = (if ts_flags s AND HPCRUN_GPU_TRACE_FLAG \<noteq> 0 then 1 else 0)"

definition hpcrun_cpu_kernel_launch_trace_on :: "trace_state \<Rightarrow> int" where
  "hpcrun_cpu_kernel_launch_trace_on s = (if ts_flags s AND HPCRUN_CPU_KERNEL_LAUNCH_TRACE_FLAG \<noteq> 0 then 1 else 0)"

definition hpcrun_trace_init :: "int option \<Rightarrow> trace_state \<Rightarrow> trace_state" where
  "hpcrun_trace_init env s =
    (let s = (case env of None \<Rightarrow> s | Some v \<Rightarrow> s\<lparr> ts_tracing := v \<rparr>)
     in if ts_tracing s > 1 then hpcrun_set_trace_metric HPCRUN_CPU_KERNEL_LAUNCH_TRACE_FLAG s else s)"




definition note_time :: "u64 \<Rightarrow> trace_data \<Rightarrow> trace_data" where
  "note_time nanotime d =
    (let d = (if cp_trace_min_time_us d = 0 then d\<lparr> cp_trace_min_time_us := nanotime \<rparr> else d);
         d = (if cp_trace_max_time_us d < nanotime then d\<lparr> cp_trace_max_time_us := nanotime \<rparr> else d);
         d = (if cp_trace_last_time d > nanotime then d\<lparr> cp_trace_is_ordered := False \<rparr> else d)
     in d\<lparr> cp_trace_last_time := nanotime \<rparr>)"










section \<open>Histories of a trace\<close>










section \<open>What a history writes\<close>



lemma note_time_keeps [simp]: "cp_epoch (note_time t d) = cp_epoch d" "cp_trace_outbuf (note_time t d) = cp_trace_outbuf d"
  by (simp_all add: note_time_def Let_def)

lemma fold_note_time_keeps [simp]:
  "cp_epoch (fold (\<lambda>r. note_time (f r)) rs d) = cp_epoch d" "cp_trace_outbuf (fold (\<lambda>r. note_time (f r)) rs d) = cp_trace_outbuf d"
  by (induction rs arbitrary: d) simp_all








section \<open>Opening and closing\<close>







section \<open>The times\<close>


section \<open>Properties\<close>






end
