(* ===== verification/Mem.thy ===== *)
theory Mem
  imports Prelude
begin

text \<open>
  The allocator of the measurement code (\<open>src/hpcrun/memory/mem.c\<close>): a thread takes memory from the high end of a segment that it maps, never
  gives it back, and maps the next segment, or one for a single large request, when the space runs short.

  Addresses are 64-bit words, a null pointer is \<open>None\<close> as a result and 0 in a field. The kernel is a sequence of answers to the
  calls of \<open>mmap\<close>, and the segments it gave are recorded. The page size that \<open>sysconf\<close> reports and the numbers read from the environment are
  fields. Counters are unbounded integers.
\<close>

unbundle bit_operations_syntax

section \<open>State\<close>

definition DEFAULT_MEMSIZE :: u64 where "DEFAULT_MEMSIZE = 4 * 1024 * 1024"
definition MIN_LOW_MEMSIZE :: u64 where "MIN_LOW_MEMSIZE = 80 * 1024"

record hpcrun_meminfo_t =
  mi_start :: u64
  mi_size :: u64
  mi_low :: u64
  mi_high :: u64

record mem_state =
  memsize :: u64
  low_memsize :: u64
  pagesize :: u64
  allow_extra_mmap :: bool
  init_done :: bool
  num_segments :: int
  total_allocation :: int
  num_reclaims :: int
  num_failures :: int
  total_freeable :: int
  total_non_freeable :: int
  out_of_mem_mesg :: bool
  memstore :: hpcrun_meminfo_t
  mem_low :: bool
  sampling_disabled :: bool
  sys_pagesize :: int
  env_memsize :: "int option"
  env_low_memsize :: "int option"
  mmap_answers :: "nat \<Rightarrow> u64 option"
  mmap_calls :: nat
  segments :: "(u64 \<times> u64) list"

section \<open>Operations\<close>

definition round_up :: "u64 \<Rightarrow> u64" where
  "round_up n = (n + 7) AND NOT 7"

definition hpcrun_align_pagesize :: "u64 \<Rightarrow> mem_state \<Rightarrow> u64" where
  "hpcrun_align_pagesize n s = ((n + pagesize s - 1) div pagesize s) * pagesize s"

definition hpcrun_mem_init :: "mem_state \<Rightarrow> mem_state" where
  "hpcrun_mem_init s =
    (if init_done s then s
     else (let s = (if sys_pagesize s > 0 then s\<lparr> pagesize := of_int (sys_pagesize s) \<rparr> else s);
               s = (case env_memsize s of Some r \<Rightarrow> s\<lparr> memsize := hpcrun_align_pagesize (of_int r) s \<rparr> | None \<Rightarrow> s);
               s = (case env_low_memsize s of Some r \<Rightarrow> s\<lparr> low_memsize := of_int r \<rparr>
                    | None \<Rightarrow> s\<lparr> low_memsize := (if memsize s div 40 < MIN_LOW_MEMSIZE then MIN_LOW_MEMSIZE else memsize s div 40) \<rparr>)
           in s\<lparr> init_done := True \<rparr>))"

definition hpcrun_mmap_anon :: "u64 \<Rightarrow> mem_state \<Rightarrow> u64 option \<times> mem_state" where
  "hpcrun_mmap_anon n s =
    (let n = hpcrun_align_pagesize n s; a = mmap_answers s (mmap_calls s); s = s\<lparr> mmap_calls := Suc (mmap_calls s) \<rparr>
     in case a of None \<Rightarrow> (None, s)
        | Some addr \<Rightarrow> (Some addr, s\<lparr> segments := (addr, n) # segments s, num_segments := num_segments s + 1,
             total_allocation := total_allocation s + uint n \<rparr>))"

definition hpcrun_memory_reinit :: "mem_state \<Rightarrow> mem_state" where
  "hpcrun_memory_reinit s = s\<lparr> num_reclaims := 0, num_failures := 0, total_freeable := 0, total_non_freeable := 0, out_of_mem_mesg := False \<rparr>"

definition out_of_memory :: "mem_state \<Rightarrow> mem_state" where
  "out_of_memory s = s\<lparr> out_of_mem_mesg := True, sampling_disabled := True \<rparr>"

definition hpcrun_make_memstore :: "mem_state \<Rightarrow> mem_state" where
  "hpcrun_make_memstore s =
    (let s = hpcrun_mem_init s
     in case hpcrun_mmap_anon (memsize s) s of
          (None, s) \<Rightarrow> out_of_memory s
        | (Some addr, s) \<Rightarrow> s\<lparr> memstore := \<lparr> mi_start = addr, mi_size = memsize s, mi_low = addr, mi_high = addr + memsize s \<rparr> \<rparr>)"

definition hpcrun_reclaim_freeable_mem :: "mem_state \<Rightarrow> mem_state" where
  "hpcrun_reclaim_freeable_mem s =
    s\<lparr> memstore := (memstore s)\<lparr> mi_low := mi_start (memstore s) \<rparr>, mem_low := False, num_reclaims := num_reclaims s + 1 \<rparr>"

definition mem_failure :: "mem_state \<Rightarrow> u64 option \<times> mem_state" where
  "mem_failure s = (None, s\<lparr> num_failures := num_failures s + 1 \<rparr>)"

definition mem_room :: "mem_state \<Rightarrow> u64" where
  "mem_room s = mi_high (memstore s) - mi_low (memstore s)"

definition malloc_extra :: "u64 \<Rightarrow> mem_state \<Rightarrow> u64 option \<times> mem_state" where
  "malloc_extra n s = (case hpcrun_mmap_anon n s of
     (None, s) \<Rightarrow> mem_failure (out_of_memory s)
   | (Some addr, s) \<Rightarrow> (Some addr, s\<lparr> total_non_freeable := total_non_freeable s + uint n \<rparr>))"

definition malloc_refill :: "u64 \<Rightarrow> mem_state \<Rightarrow> mem_state" where
  "malloc_refill n s =
    (if mi_start (memstore s) = 0 \<or> mem_room s < low_memsize s \<or> mem_room s < n
     then (if allow_extra_mmap s then hpcrun_make_memstore s else out_of_memory s)
     else s)"

definition malloc_take :: "u64 \<Rightarrow> mem_state \<Rightarrow> u64 option \<times> mem_state" where
  "malloc_take n s =
    (if mi_start (memstore s) = 0 then mem_failure s
     else (let addr = mi_high (memstore s) - n
           in if addr \<le> mi_low (memstore s) then mem_failure s
              else (Some addr, s\<lparr> memstore := (memstore s)\<lparr> mi_high := addr \<rparr>, total_non_freeable := total_non_freeable s + uint n \<rparr>)))"

definition hpcrun_malloc :: "u64 \<Rightarrow> mem_state \<Rightarrow> u64 option \<times> mem_state" where
  "hpcrun_malloc n s =
    (if n = 0 then (None, s)
     else (let n = round_up n
           in if n > memsize s div 5 \<and> allow_extra_mmap s \<and> (mi_start (memstore s) = 0 \<or> n > mem_room s) then malloc_extra n s
              else malloc_take n (malloc_refill n s)))"

definition hpcrun_malloc_freeable :: "u64 \<Rightarrow> mem_state \<Rightarrow> u64 option \<times> mem_state" where
  "hpcrun_malloc_freeable n s = hpcrun_malloc n s"

record safe_state =
  is_initialized :: bool
  td_avail :: bool
  inside_hpcrun :: int

definition hpcrun_safe_enter :: "safe_state \<Rightarrow> bool \<times> safe_state" where
  "hpcrun_safe_enter g =
    (if \<not> is_initialized g \<or> \<not> td_avail g then (False, g)
     else (inside_hpcrun g = 0, g\<lparr> inside_hpcrun := 1 \<rparr>))"

definition hpcrun_safe_exit :: "safe_state \<Rightarrow> safe_state" where
  "hpcrun_safe_exit g =
    (if \<not> is_initialized g \<or> \<not> td_avail g then g else g\<lparr> inside_hpcrun := 0 \<rparr>)"

definition hpcrun_malloc_safe :: "u64 \<Rightarrow> safe_state \<times> mem_state \<Rightarrow> u64 option \<times> safe_state \<times> mem_state" where
  "hpcrun_malloc_safe n = (\<lambda>(g, s).
    let (unsafe, g) = hpcrun_safe_enter g;
        (m, s) = hpcrun_malloc n s;
        g = (if unsafe then hpcrun_safe_exit g else g)
    in (m, g, s))"

definition get_mem_low :: "mem_state \<Rightarrow> bool" where
  "get_mem_low s = mem_low s"

text \<open>The allocation between entry to and exit from the measurement code leaves the flag of the thread as it found it, also when it is nested.\<close>

lemma malloc_safe_keeps_flag:
  assumes "inside_hpcrun g = 0 \<or> inside_hpcrun g = 1"
  shows "hpcrun_malloc_safe n (g, s) = (fst (hpcrun_malloc n s), g, snd (hpcrun_malloc n s))"
  using assms by (auto simp: hpcrun_malloc_safe_def hpcrun_safe_enter_def hpcrun_safe_exit_def split: prod.splits)

section \<open>Arithmetic\<close>

lemma round_up_unat:
  assumes "unat n + 7 < 2 ^ 64"
  shows "unat (round_up n) = (unat n + 7) div 8 * 8" "unat n \<le> unat (round_up n)" "8 dvd unat (round_up n)"
proof -
  let ?x = "n + 7"
  have x: "unat ?x = unat n + 7" using assms by (simp add: unat_word_ariths)
  have m: "(7 :: u64) = mask 3" by (simp add: mask_eq_exp_minus_1)
  have "?x AND NOT (mask 3) = push_bit 3 (drop_bit 3 ?x)"
    by (rule bit_word_eqI) (auto simp: bit_simps)
  then have "round_up n = push_bit 3 (drop_bit 3 ?x)" by (simp add: round_up_def m)
  moreover have "unat (push_bit 3 (drop_bit 3 ?x)) = unat ?x div 8 * 8"
    using unsigned_less [of ?x] by (simp add: push_bit_eq_mult drop_bit_eq_div unat_word_ariths unat_div)
  ultimately show u: "unat (round_up n) = (unat n + 7) div 8 * 8" by (simp add: x)
  show "unat n \<le> unat (round_up n)" "8 dvd unat (round_up n)" unfolding u by simp_all
qed

lemma align_unat:
  assumes "0 < pagesize s" and "unat n + unat (pagesize s) < 2 ^ 64"
  shows "unat n \<le> unat (hpcrun_align_pagesize n s)"
proof -
  let ?p = "unat (pagesize s)"
  have p: "0 < ?p" using assms(1) by (simp add: word_less_nat_alt)
  have e: "unat (n + pagesize s - 1) = unat n + ?p - 1"
  proof -
    have "unat (n + pagesize s) = unat n + ?p" using assms(2) by (simp add: unat_word_ariths)
    moreover have "n + pagesize s \<noteq> 0" using calculation p by auto
    ultimately show ?thesis by (simp add: unat_minus_one)
  qed
  have "(unat n + ?p - 1) div ?p * ?p \<le> unat n + ?p - 1" by simp
  then have "(unat n + ?p - 1) div ?p * ?p < 2 ^ 64" using assms(2) by linarith
  then have u: "unat (hpcrun_align_pagesize n s) = (unat n + ?p - 1) div ?p * ?p"
    unfolding hpcrun_align_pagesize_def by (simp add: unat_mult_lem [THEN iffD1] unat_div e)
  have "unat n + ?p - 1 < ((unat n + ?p - 1) div ?p) * ?p + ?p" using dividend_less_div_times [OF p, of "unat n + ?p - 1"] by (simp add: add.commute)
  then show ?thesis unfolding u using p by linarith
qed

section \<open>Blocks\<close>

definition apart :: "u64 \<times> u64 \<Rightarrow> u64 \<times> u64 \<Rightarrow> bool" where
  "apart b c \<longleftrightarrow> unat (fst b) + unat (snd b) \<le> unat (fst c) \<or> unat (fst c) + unat (snd c) \<le> unat (fst b)"

definition inside :: "u64 \<times> u64 \<Rightarrow> u64 \<times> u64 \<Rightarrow> bool" where
  "inside b r \<longleftrightarrow> unat (fst r) \<le> unat (fst b) \<and> unat (fst b) + unat (snd b) \<le> unat (fst r) + unat (snd r)"

lemma apart_inside: "apart b r \<Longrightarrow> inside c r \<Longrightarrow> apart b c" "apart r b \<Longrightarrow> inside c r \<Longrightarrow> apart c b"
  by (auto simp: apart_def inside_def)

lemma apart_sym: "apart b c = apart c b"
  by (auto simp: apart_def)

text \<open>
  What \<open>mmap\<close> promises of the segments that it gives: they are not at address 0, do not wrap around, are aligned, and overlap no other.
\<close>

definition kernel_ok :: "(u64 \<times> u64) list \<Rightarrow> bool" where
  "kernel_ok R \<longleftrightarrow> sorted_wrt apart R \<and> (\<forall>r \<in> set R. 0 < unat (fst r) \<and> unat (fst r) + unat (snd r) < 2 ^ 64 \<and> 8 dvd unat (fst r))"

text \<open>
  The code subtracts the size of a request from the high end of the segment before it looks whether there is room. When a new segment
  could not be mapped, a request of up to a fifth of a segment is tried on the old one, whatever is left of it; the difference does
  not wrap around if no segment lies below that address.
\<close>

definition not_low :: "mem_state \<Rightarrow> (u64 \<times> u64) list \<Rightarrow> bool" where
  "not_low s R \<longleftrightarrow> (\<forall>r \<in> set R. memsize s div 5 \<le> fst r \<and> memsize (hpcrun_mem_init s) div 5 \<le> fst r)"

definition params_ok :: "mem_state \<Rightarrow> bool" where
  "params_ok s \<longleftrightarrow> 0 < pagesize s \<and> unat (pagesize s) \<le> 2 ^ 62 \<and> unat (memsize s) \<le> 2 ^ 62 \<and> 8 dvd unat (memsize s)"

text \<open>
  The blocks \<open>A\<close> in use lie in segments, are apart from each other, and are apart from the part of the current segment that is still free.
\<close>

definition free_part :: "mem_state \<Rightarrow> u64 \<times> u64" where
  "free_part s = (mi_start (memstore s), mi_high (memstore s) - mi_start (memstore s))"

definition store_ok :: "mem_state \<Rightarrow> bool" where
  "store_ok s \<longleftrightarrow> (mi_start (memstore s) \<noteq> 0 \<longrightarrow> mi_low (memstore s) = mi_start (memstore s) \<and> mi_start (memstore s) \<le> mi_high (memstore s) \<and>
     8 dvd unat (mi_high (memstore s)) \<and> (\<exists>r \<in> set (segments s). fst r = mi_start (memstore s) \<and> inside (free_part s) r))"

definition blocks_ok :: "mem_state \<Rightarrow> (u64 \<times> u64) list \<Rightarrow> bool" where
  "blocks_ok s A \<longleftrightarrow> sorted_wrt apart A \<and>
     (\<forall>b \<in> set A. 8 dvd unat (fst b) \<and> (\<exists>r \<in> set (segments s). inside b r) \<and> (mi_start (memstore s) \<noteq> 0 \<longrightarrow> apart b (free_part s)))"

definition mem_inv :: "mem_state \<Rightarrow> (u64 \<times> u64) list \<Rightarrow> bool" where
  "mem_inv s A \<longleftrightarrow> params_ok (hpcrun_mem_init s) \<and> (init_done s \<or> 0 < pagesize s \<and> unat (pagesize s) \<le> 2 ^ 62) \<and> store_ok s \<and> blocks_ok s A"

lemma mem_init_keeps [simp]:
  "segments (hpcrun_mem_init s) = segments s" "memstore (hpcrun_mem_init s) = memstore s" "mmap_answers (hpcrun_mem_init s) = mmap_answers s"
  "mmap_calls (hpcrun_mem_init s) = mmap_calls s" "init_done (hpcrun_mem_init s)" "num_failures (hpcrun_mem_init s) = num_failures s"
  "hpcrun_mem_init (hpcrun_mem_init s) = hpcrun_mem_init s" "allow_extra_mmap (hpcrun_mem_init s) = allow_extra_mmap s"
  by (auto simp: hpcrun_mem_init_def Let_def split: option.split)

text \<open>Steps that leave the parameters, the segments and the store alone.\<close>

definition keeps_mem :: "mem_state \<Rightarrow> mem_state \<Rightarrow> bool" where
  "keeps_mem s s' \<longleftrightarrow> memsize s' = memsize s \<and> low_memsize s' = low_memsize s \<and> pagesize s' = pagesize s \<and> init_done s' = init_done s \<and>
     sys_pagesize s' = sys_pagesize s \<and> env_memsize s' = env_memsize s \<and> env_low_memsize s' = env_low_memsize s"

lemma keeps_mem_init:
  assumes "keeps_mem s s'"
  shows "params_ok (hpcrun_mem_init s') = params_ok (hpcrun_mem_init s)"
proof -
  have "memsize (hpcrun_mem_init s') = memsize (hpcrun_mem_init s)" "pagesize (hpcrun_mem_init s') = pagesize (hpcrun_mem_init s)"
    using assms by (auto simp: keeps_mem_def hpcrun_mem_init_def hpcrun_align_pagesize_def Let_def split: option.split)
  then show ?thesis by (simp add: params_ok_def)
qed

lemma mem_inv_keeps:
  assumes "mem_inv s A" and "keeps_mem s s'" and "segments s' = segments s" and "memstore s' = memstore s"
  shows "mem_inv s' A"
  using assms keeps_mem_init [OF assms(2)]
  by (simp add: mem_inv_def store_ok_def blocks_ok_def free_part_def keeps_mem_def)

lemma kernel_ok_Cons: "kernel_ok (r # R) \<Longrightarrow> kernel_ok R"
  by (simp add: kernel_ok_def)

text \<open>A new segment is apart from all blocks.\<close>

lemma new_segment_apart:
  assumes "kernel_ok (r # R)" and "\<exists>q \<in> set R. inside b q" and "inside c r"
  shows "apart c b"
proof -
  obtain q where q: "q \<in> set R" "inside b q" using assms(2) by blast
  have "apart r q" using assms(1) q(1) by (simp add: kernel_ok_def)
  then have "apart r b" using q(2) apart_inside(1) by blast
  then show ?thesis using assms(3) apart_inside(2) by blast
qed

lemma malloc_extra_inv:
  assumes "mem_inv s A" and "malloc_extra n s = (r, s')" and "kernel_ok (segments s')" and "unat n \<le> 2 ^ 63" and "0 < unat n"
    and ps: "0 < pagesize s" "unat (pagesize s) \<le> 2 ^ 62"
  shows "case r of None \<Rightarrow> mem_inv s' A | Some a \<Rightarrow> mem_inv s' ((a, n) # A) \<and> a \<noteq> 0"
proof (cases "mmap_answers s (mmap_calls s)")
  case None
  then show ?thesis using assms(1,2)
    by (auto simp: malloc_extra_def hpcrun_mmap_anon_def mem_failure_def out_of_memory_def Let_def keeps_mem_def intro!: mem_inv_keeps [OF assms(1)])
next
  case (Some a)
  let ?m = "hpcrun_align_pagesize n s"
  have r: "r = Some a" and sg: "segments s' = (a, ?m) # segments s" and ms: "memstore s' = memstore s" and k: "keeps_mem s s'"
    using assms(2) Some by (auto simp: malloc_extra_def hpcrun_mmap_anon_def Let_def keeps_mem_def)
  have "unat n \<le> unat ?m" using ps assms(4) by (intro align_unat) simp_all
  then have ins: "inside (a, n) (a, ?m)" by (simp add: inside_def)
  have ker: "kernel_ok ((a, ?m) # segments s)" using assms(3) sg by simp
  have st: "store_ok s'" using assms(1) unfolding mem_inv_def store_ok_def sg ms free_part_def by (auto simp: free_part_def)
  have ap: "apart (a, n) b" if "b \<in> set A" for b
    using new_segment_apart [OF ker _ ins] assms(1) that unfolding mem_inv_def blocks_ok_def by blast
  have fp: "apart (a, n) (free_part s)" if "mi_start (memstore s) \<noteq> 0"
    using new_segment_apart [OF ker _ ins] assms(1) that unfolding mem_inv_def store_ok_def by blast
  have a: "8 dvd unat a" "a \<noteq> 0" using ker by (auto simp: kernel_ok_def)
  have "blocks_ok s' ((a, n) # A)"
    using assms(1) ap fp ins a unfolding mem_inv_def blocks_ok_def sg ms free_part_def by auto
  then have "mem_inv s' ((a, n) # A)" using assms(1) st keeps_mem_init [OF k] k by (simp add: mem_inv_def keeps_mem_def)
  then show ?thesis using r a(2) by simp
qed

lemma make_memstore_inv:
  assumes "mem_inv s A" and "kernel_ok (segments (hpcrun_make_memstore s))"
  shows "mem_inv (hpcrun_make_memstore s) A"
proof -
  let ?s = "hpcrun_mem_init s"
  have p: "params_ok ?s" using assms(1) by (simp add: mem_inv_def)
  have i: "mem_inv ?s A" using assms(1) by (simp add: mem_inv_def store_ok_def blocks_ok_def free_part_def)
  show ?thesis
  proof (cases "mmap_answers s (mmap_calls s)")
    case None
    then have "hpcrun_make_memstore s = out_of_memory (?s\<lparr> mmap_calls := Suc (mmap_calls s) \<rparr>)"
      by (simp add: hpcrun_make_memstore_def hpcrun_mmap_anon_def Let_def)
    then show ?thesis by (auto simp: out_of_memory_def keeps_mem_def intro!: mem_inv_keeps [OF i])
  next
    case (Some a)
    let ?m = "hpcrun_align_pagesize (memsize ?s) ?s"
    define s' where "s' = hpcrun_make_memstore s"
    have sg: "segments s' = (a, ?m) # segments s" and ms: "memstore s' = \<lparr> mi_start = a, mi_size = memsize ?s, mi_low = a, mi_high = a + memsize ?s \<rparr>"
      and k: "keeps_mem ?s s'"
      using Some by (simp_all add: s'_def hpcrun_make_memstore_def hpcrun_mmap_anon_def Let_def keeps_mem_def)
    have le: "unat (memsize ?s) \<le> unat ?m" using p by (intro align_unat) (simp_all add: params_ok_def)
    have ker: "kernel_ok ((a, ?m) # segments s)" using assms(2) sg by (simp add: s'_def)
    then have a: "0 < unat a" "unat a + unat ?m < 2 ^ 64" "8 dvd unat a" by (auto simp: kernel_ok_def)
    have h: "unat (a + memsize ?s) = unat a + unat (memsize ?s)" using a(2) le by (simp add: unat_word_ariths)
    have fp: "free_part s' = (a, memsize ?s)" by (simp add: free_part_def ms)
    have ins: "inside (a, memsize ?s) (a, ?m)" using le by (simp add: inside_def)
    have "8 dvd unat (a + memsize ?s)" unfolding h using a(3) p by (simp add: params_ok_def)
    moreover have "a \<le> a + memsize ?s" by (simp add: word_le_nat_alt h)
    ultimately have "store_ok s'" unfolding store_ok_def fp sg ms using ins by auto
    moreover have "apart b (a, memsize ?s)" if "b \<in> set A" for b
      using new_segment_apart [OF ker _ ins] assms(1) that apart_sym unfolding mem_inv_def blocks_ok_def by blast
    then have "blocks_ok s' A" using assms(1) unfolding mem_inv_def blocks_ok_def sg fp by auto
    ultimately show ?thesis using keeps_mem_init [OF k] p k unfolding mem_inv_def s'_def [symmetric] by (simp add: keeps_mem_def)
  qed
qed

lemma malloc_take_inv:
  assumes "mem_inv s A" and "malloc_take n s = (r, s')" and "mi_start (memstore s) \<noteq> 0 \<Longrightarrow> n \<le> mi_high (memstore s)" and "8 dvd unat n"
  shows "case r of None \<Rightarrow> mem_inv s' A | Some a \<Rightarrow> mem_inv s' ((a, n) # A) \<and> a \<noteq> 0"
proof (cases "mi_start (memstore s) = 0 \<or> mi_high (memstore s) - n \<le> mi_low (memstore s)")
  case True
  then have "r = None" "s' = s\<lparr> num_failures := num_failures s + 1 \<rparr>" using assms(2) by (auto simp: malloc_take_def mem_failure_def Let_def split: if_split_asm)
  then show ?thesis by (auto simp: keeps_mem_def intro!: mem_inv_keeps [OF assms(1)])
next
  case False
  let ?h = "mi_high (memstore s)" and ?l = "mi_start (memstore s)"
  have st: "mi_low (memstore s) = ?l" "?l \<le> ?h" "8 dvd unat ?h" and l0: "?l \<noteq> 0"
    and "\<exists>q \<in> set (segments s). fst q = ?l \<and> inside (free_part s) q"
    using assms(1) False by (auto simp: mem_inv_def store_ok_def)
  then obtain q where q: "q \<in> set (segments s)" "fst q = ?l" "inside (free_part s) q" by blast
  have r: "r = Some (?h - n)" and s': "segments s' = segments s" "memstore s' = (memstore s)\<lparr> mi_high := ?h - n \<rparr>" "keeps_mem s s'"
    using assms(2) False by (auto simp: malloc_take_def Let_def keeps_mem_def)
  have "n \<le> ?h" using assms(3) l0 by simp
  then have u: "unat (?h - n) = unat ?h - unat n" "unat n \<le> unat ?h" by (simp_all add: unat_sub word_le_nat_alt)
  have gt: "unat ?l < unat (?h - n)" using False st(1) by (simp add: word_less_nat_alt word_le_nat_alt)
  then have f: "unat (?h - ?l) = unat ?h - unat ?l" "unat (?h - n - ?l) = unat (?h - n) - unat ?l"
    using st(2) by (auto simp: word_le_nat_alt intro!: unat_sub)
  have ins: "inside (?h - n, n) (free_part s)" "inside (free_part s') (free_part s)" "apart (?h - n, n) (free_part s')"
    using gt u f st(2) by (auto simp: inside_def apart_def free_part_def s' word_le_nat_alt)
  have insq: "inside (?h - n, n) q" "inside (free_part s') q" using ins(1,2) q(3) by (auto simp: inside_def)
  have "8 dvd unat (?h - n)" using u st(3) assms(4) by (simp add: dvd_diff_nat)
  moreover have "?l \<le> ?h - n" using gt by (simp add: word_le_nat_alt)
  ultimately have "store_ok s'" using l0 q(1,2) insq(2) st(1) unfolding store_ok_def s' by auto
  moreover have old: "apart b (free_part s)" if "b \<in> set A" for b using assms(1) l0 that by (simp add: mem_inv_def blocks_ok_def)
  have "apart (?h - n, n) b" "apart b (free_part s')" if "b \<in> set A" for b
    using apart_inside(1) [OF old [OF that]] ins(1,2) apart_sym [of b] by simp_all
  then have "blocks_ok s' ((?h - n, n) # A)"
    using assms(1) q(1) insq(1) ins(3) \<open>8 dvd unat (?h - n)\<close> unfolding mem_inv_def blocks_ok_def s'(1) by auto
  ultimately have "mem_inv s' ((?h - n, n) # A)" using assms(1) keeps_mem_init [OF s'(3)] s'(3) by (simp add: mem_inv_def keeps_mem_def)
  moreover have "?h - n \<noteq> 0" using gt by auto
  ultimately show ?thesis using r by simp
qed

text \<open>A segment is not larger than the size that is in force.\<close>

definition room_ok :: "mem_state \<Rightarrow> bool" where
  "room_ok s \<longleftrightarrow> (mi_start (memstore s) \<noteq> 0 \<longrightarrow> init_done s \<and> mem_room s \<le> memsize s)"

lemma make_memstore_store:
  assumes "mmap_answers s (mmap_calls s) = Some a"
  shows "memstore (hpcrun_make_memstore s) = \<lparr> mi_start = a, mi_size = memsize (hpcrun_mem_init s), mi_low = a, mi_high = a + memsize (hpcrun_mem_init s) \<rparr>"
    and "memsize (hpcrun_make_memstore s) = memsize (hpcrun_mem_init s)" and "init_done (hpcrun_make_memstore s)"
    and "segments (hpcrun_make_memstore s) = (a, hpcrun_align_pagesize (memsize (hpcrun_mem_init s)) (hpcrun_mem_init s)) # segments s"
  using assms by (simp_all add: hpcrun_make_memstore_def hpcrun_mmap_anon_def Let_def)

lemma make_memstore_fails:
  assumes "mmap_answers s (mmap_calls s) = None"
  shows "memstore (hpcrun_make_memstore s) = memstore s" and "init_done (hpcrun_make_memstore s)" and "memsize (hpcrun_make_memstore s) = memsize (hpcrun_mem_init s)"
  using assms by (simp_all add: hpcrun_make_memstore_def hpcrun_mmap_anon_def out_of_memory_def Let_def)

lemma refill_room:
  assumes inv: "mem_inv s A" and room: "room_ok s" and ker: "kernel_ok (segments (malloc_refill n s))" and ext: "allow_extra_mmap s"
  shows "room_ok (malloc_refill n s)"
    and "mi_start (memstore (malloc_refill n s)) \<noteq> 0 \<Longrightarrow> n \<le> mem_room s \<Longrightarrow> mi_start (memstore s) \<noteq> 0 \<Longrightarrow> n \<le> mi_high (memstore (malloc_refill n s))"
proof -
  let ?s = "malloc_refill n s"
  have old: "mem_room s \<le> mi_high (memstore s)" if "mi_start (memstore s) \<noteq> 0"
    using inv that unfolding mem_inv_def store_ok_def mem_room_def by (auto simp: word_le_nat_alt unat_sub)
  have init: "hpcrun_mem_init s = s" if "mi_start (memstore s) \<noteq> 0" using room that by (simp add: room_ok_def hpcrun_mem_init_def)
  have "room_ok ?s \<and> (mi_start (memstore ?s) \<noteq> 0 \<longrightarrow> n \<le> mem_room s \<longrightarrow> mi_start (memstore s) \<noteq> 0 \<longrightarrow> n \<le> mi_high (memstore ?s))"
  proof (cases "mi_start (memstore s) = 0 \<or> mem_room s < low_memsize s \<or> mem_room s < n")
    case False
    then have "?s = s" by (simp add: malloc_refill_def)
    then show ?thesis using room old by (auto intro: order.trans)
  next
    case True
    then have s: "?s = hpcrun_make_memstore s" using ext by (simp add: malloc_refill_def)
    show ?thesis
    proof (cases "mmap_answers s (mmap_calls s)")
      case None
      note f = make_memstore_fails [OF None]
      have "mem_room ?s = mem_room s" by (simp add: mem_room_def s f)
      then show ?thesis using room old init by (auto simp: room_ok_def s f intro: order.trans)
    next
      case (Some a)
      note m = make_memstore_store [OF Some]
      let ?i = "hpcrun_mem_init s"
      have "unat a + unat (hpcrun_align_pagesize (memsize ?i) ?i) < 2 ^ 64" using ker by (simp add: s m(4) kernel_ok_def)
      moreover have "unat (memsize ?i) \<le> unat (hpcrun_align_pagesize (memsize ?i) ?i)"
        using inv by (intro align_unat) (simp_all add: mem_inv_def params_ok_def)
      ultimately have h: "unat (a + memsize ?i) = unat a + unat (memsize ?i)" by (simp add: unat_word_ariths)
      have "mem_room ?s = memsize ?i" by (simp add: mem_room_def s m(1))
      moreover have "memsize ?i \<le> mi_high (memstore ?s)" by (simp add: s m(1) word_le_nat_alt h)
      ultimately show ?thesis using room init m(2,3) unfolding room_ok_def s by (auto intro: order.trans)
    qed
  qed
  then show "room_ok ?s" "mi_start (memstore ?s) \<noteq> 0 \<Longrightarrow> n \<le> mem_room s \<Longrightarrow> mi_start (memstore s) \<noteq> 0 \<Longrightarrow> n \<le> mi_high (memstore ?s)" by blast+
qed

lemma take_room:
  assumes "mem_inv s A" and "room_ok s" and "malloc_take n s = (r, s')" and "mi_start (memstore s) \<noteq> 0 \<Longrightarrow> n \<le> mi_high (memstore s)"
  shows "room_ok s'"
proof (cases "mi_start (memstore s) = 0 \<or> mi_high (memstore s) - n \<le> mi_low (memstore s)")
  case True
  then show ?thesis using assms(2,3) by (auto simp: malloc_take_def mem_failure_def room_ok_def mem_room_def Let_def split: if_split_asm)
next
  case False
  let ?h = "mi_high (memstore s)" and ?l = "mi_low (memstore s)"
  have "mi_low (memstore s) \<le> ?h" using assms(1) False by (auto simp: mem_inv_def store_ok_def)
  moreover have "n \<le> ?h" "?l < ?h - n" using assms(4) False by auto
  ultimately have "?h - n - ?l \<le> ?h - ?l" by (simp add: word_le_nat_alt word_less_nat_alt unat_sub)
  moreover have "memstore s' = (memstore s)\<lparr> mi_high := ?h - n \<rparr>" "init_done s' = init_done s" "memsize s' = memsize s"
    using assms(3) False by (auto simp: malloc_take_def Let_def)
  ultimately show ?thesis using assms(2) False unfolding room_ok_def mem_room_def by (auto intro: order.trans)
qed

lemma malloc_inv:
  assumes "mem_inv s A" and "room_ok s" and "hpcrun_malloc n s = (r, s')" and "kernel_ok (segments s')" and "not_low s (segments s')" and "unat n \<le> 2 ^ 63"
    and "allow_extra_mmap s"
  shows "room_ok s'" and "case r of None \<Rightarrow> mem_inv s' A | Some a \<Rightarrow> mem_inv s' ((a, round_up n) # A) \<and> a \<noteq> 0"
proof -
  have "room_ok s' \<and> (case r of None \<Rightarrow> mem_inv s' A | Some a \<Rightarrow> mem_inv s' ((a, round_up n) # A) \<and> a \<noteq> 0)"
  proof (cases "n = 0")
    case True
    then show ?thesis using assms(1-3) by (simp add: hpcrun_malloc_def)
  next
    case False
    let ?n = "round_up n"
    have u: "unat ?n = (unat n + 7) div 8 * 8" "8 dvd unat ?n" "unat n \<le> unat ?n" using round_up_unat [of n] assms(6) by simp_all
    have n: "unat ?n \<le> 2 ^ 63" "0 < unat ?n" using u(1) u(3) assms(6) False by (auto simp: unat_gt_0 [symmetric])
    have ps: "0 < pagesize s" "unat (pagesize s) \<le> 2 ^ 62"
      using assms(1) by (auto simp: mem_inv_def params_ok_def hpcrun_mem_init_def split: if_splits)
    show ?thesis
    proof (cases "?n > memsize s div 5 \<and> allow_extra_mmap s \<and> (mi_start (memstore s) = 0 \<or> ?n > mem_room s)")
      case True
      then have x: "malloc_extra ?n s = (r, s')" using assms(3) False by (simp add: hpcrun_malloc_def Let_def)
      then have "memstore s' = memstore s" "init_done s' = init_done s" "memsize s' = memsize s"
        by (auto simp: malloc_extra_def hpcrun_mmap_anon_def mem_failure_def out_of_memory_def Let_def split: option.splits)
      then have "room_ok s'" using assms(2) by (simp add: room_ok_def mem_room_def)
      then show ?thesis using malloc_extra_inv [OF assms(1) x assms(4) n ps] by simp
    next
      case small: False
      let ?s = "malloc_refill ?n s"
      have t: "malloc_take ?n ?s = (r, s')" using assms(3) False small by (simp add: hpcrun_malloc_def Let_def)
      then have sg: "segments s' = segments ?s" by (auto simp: malloc_take_def mem_failure_def Let_def split: if_split_asm)
      have i: "mem_inv ?s A"
        using make_memstore_inv [OF assms(1)] assms(1,4,7) unfolding sg by (auto simp: malloc_refill_def)
      note rf = refill_room [OF assms(1,2) _ assms(7), of ?n]
      have "?n \<le> mi_high (memstore ?s)" if st: "mi_start (memstore ?s) \<noteq> 0"
      proof (cases "?n \<le> memsize s div 5")
        case True
        obtain q where q: "q \<in> set (segments ?s)" "fst q = mi_start (memstore ?s)" "mi_start (memstore ?s) \<le> mi_high (memstore ?s)"
          using i st unfolding mem_inv_def store_ok_def by blast
        have "memsize s div 5 \<le> fst q" using assms(5) q(1) unfolding sg not_low_def by blast
        with True q(2,3) show ?thesis by (metis order.trans)
      next
        case False
        with small assms(7) have "?n \<le> mem_room s" "mi_start (memstore s) \<noteq> 0" by auto
        then show ?thesis using rf(2) [OF _ st] assms(4) unfolding sg by blast
      qed
      note hi = this
      have "room_ok ?s" using rf(1) assms(4) unfolding sg by blast
      then show ?thesis using malloc_take_inv [OF i t hi u(2)] take_room [OF i _ t hi] by blast
    qed
  qed
  then show "room_ok s'" "case r of None \<Rightarrow> mem_inv s' A | Some a \<Rightarrow> mem_inv s' ((a, round_up n) # A) \<and> a \<noteq> 0" by blast+
qed

lemma malloc_memsize:
  assumes "hpcrun_malloc n s = (r, s')"
  shows "memsize s' = memsize s \<or> memsize s' = memsize (hpcrun_mem_init s)" and "memsize (hpcrun_mem_init s') = memsize (hpcrun_mem_init s)"
proof -
  have k: "memsize (hpcrun_mem_init t') = memsize (hpcrun_mem_init t)" if "keeps_mem t t'" for t t'
    using that by (auto simp: keeps_mem_def hpcrun_mem_init_def hpcrun_align_pagesize_def Let_def split: option.split)
  have mm: "keeps_mem t (snd (hpcrun_mmap_anon k t))" for k t by (simp add: hpcrun_mmap_anon_def Let_def keeps_mem_def split: option.split)
  have mk: "keeps_mem (hpcrun_mem_init t) (hpcrun_make_memstore t)" for t
    using mm [of "hpcrun_mem_init t" "memsize (hpcrun_mem_init t)"]
    by (auto simp: hpcrun_make_memstore_def out_of_memory_def Let_def keeps_mem_def split: prod.splits option.splits)
  have ex: "keeps_mem t (snd (malloc_extra k t))" for k t
    using mm [of t k] by (auto simp: malloc_extra_def mem_failure_def out_of_memory_def keeps_mem_def split: prod.splits option.splits)
  have rf: "keeps_mem t (malloc_refill k t) \<or> keeps_mem (hpcrun_mem_init t) (malloc_refill k t)" for k t
    using mk [of t] by (auto simp: malloc_refill_def out_of_memory_def keeps_mem_def)
  have tk: "keeps_mem t (snd (malloc_take k t))" for k t by (simp add: malloc_take_def mem_failure_def Let_def keeps_mem_def)
  have tr: "keeps_mem t u \<Longrightarrow> keeps_mem u v \<Longrightarrow> keeps_mem t v" for t u v by (simp add: keeps_mem_def)
  have "keeps_mem s s' \<or> keeps_mem (hpcrun_mem_init s) s'"
  proof -
    have s': "s' = snd (hpcrun_malloc n s)" using assms by simp
    have "keeps_mem s s" by (simp add: keeps_mem_def)
    then show ?thesis unfolding s' using ex [of s "round_up n"] rf [of s "round_up n"] tr [OF _ tk] by (auto simp: hpcrun_malloc_def Let_def)
  qed
  then show "memsize s' = memsize s \<or> memsize s' = memsize (hpcrun_mem_init s)" "memsize (hpcrun_mem_init s') = memsize (hpcrun_mem_init s)"
    using k [of s s'] k [of "hpcrun_mem_init s" s'] by (auto simp: keeps_mem_def)
qed

lemma not_low_malloc: "hpcrun_malloc n s = (r, s') \<Longrightarrow> not_low s R \<Longrightarrow> not_low s' R"
  using malloc_memsize [of n s r s'] by (auto simp: not_low_def)

lemma malloc_segments:
  assumes "hpcrun_malloc n s = (r, s')"
  shows "\<exists>R. segments s' = R @ segments s" "allow_extra_mmap s' = allow_extra_mmap s"
proof -
  have mm: "\<exists>R. segments (snd (hpcrun_mmap_anon k t)) = R @ segments t" "allow_extra_mmap (snd (hpcrun_mmap_anon k t)) = allow_extra_mmap t" for k t
    by (simp_all add: hpcrun_mmap_anon_def Let_def split: option.split)
  have mk: "\<exists>R. segments (hpcrun_make_memstore t) = R @ segments t" "allow_extra_mmap (hpcrun_make_memstore t) = allow_extra_mmap t" for t
    using mm [of "memsize (hpcrun_mem_init t)" "hpcrun_mem_init t"]
    by (auto simp: hpcrun_make_memstore_def out_of_memory_def Let_def split: prod.splits option.splits)
  have ex: "\<exists>R. segments (snd (malloc_extra k t)) = R @ segments t" "allow_extra_mmap (snd (malloc_extra k t)) = allow_extra_mmap t" for k t
    using mm [of k t] by (auto simp: malloc_extra_def mem_failure_def out_of_memory_def split: prod.splits option.splits)
  have rf: "\<exists>R. segments (malloc_refill k t) = R @ segments t" "allow_extra_mmap (malloc_refill k t) = allow_extra_mmap t" for k t
    using mk [of t] by (auto simp: malloc_refill_def out_of_memory_def)
  have tk: "segments (snd (malloc_take k t)) = segments t" "allow_extra_mmap (snd (malloc_take k t)) = allow_extra_mmap t" for k t
    by (simp_all add: malloc_take_def mem_failure_def Let_def)
  have s': "s' = snd (hpcrun_malloc n s)" using assms by simp
  show "\<exists>R. segments s' = R @ segments s" "allow_extra_mmap s' = allow_extra_mmap s"
    unfolding s' using ex [of "round_up n" s] rf [of "round_up n" s] tk by (simp_all add: hpcrun_malloc_def Let_def)
qed

fun run_mallocs :: "u64 list \<Rightarrow> mem_state \<Rightarrow> (u64 \<times> u64) list \<times> mem_state" where
  "run_mallocs [] s = ([], s)"
| "run_mallocs (n # ns) s = (case hpcrun_malloc n s of (r, s) \<Rightarrow>
     (case run_mallocs ns s of (bs, s) \<Rightarrow> ((case r of None \<Rightarrow> bs | Some a \<Rightarrow> (a, n) # bs), s)))"

lemma kernel_ok_append: "kernel_ok (R @ S) \<Longrightarrow> kernel_ok S"
  by (auto simp: kernel_ok_def sorted_wrt_append)

lemma run_mallocs_segments: "\<exists>R. segments (snd (run_mallocs ns s)) = R @ segments s"
proof (induction ns arbitrary: s)
  case (Cons n ns)
  obtain r s1 where 1: "hpcrun_malloc n s = (r, s1)" by fastforce
  obtain R where "segments s1 = R @ segments s" using malloc_segments(1) [OF 1] by blast
  moreover obtain R' where "segments (snd (run_mallocs ns s1)) = R' @ segments s1" using Cons.IH by blast
  ultimately show ?case by (simp add: 1 split: prod.split) (metis append.assoc snd_conv)
qed simp

lemma run_mallocs_inv:
  assumes "mem_inv s A" and "room_ok s" and "run_mallocs ns s = (bs, s')" and "kernel_ok (segments s')" and "not_low s (segments s')"
    and "\<forall>n \<in> set ns. unat n \<le> 2 ^ 63" and "allow_extra_mmap s"
  shows "mem_inv s' (rev (map (\<lambda>(a, n). (a, round_up n)) bs) @ A) \<and> (\<forall>b \<in> set bs. fst b \<noteq> 0 \<and> snd b \<in> set ns)"
  using assms
proof (induction ns arbitrary: s A bs)
  case (Cons n ns)
  obtain r s1 bs1 where 1: "hpcrun_malloc n s = (r, s1)" "run_mallocs ns s1 = (bs1, s')" "bs = (case r of None \<Rightarrow> bs1 | Some a \<Rightarrow> (a, n) # bs1)"
    using Cons.prems(3) by (auto split: prod.splits)
  obtain R where R: "segments s' = R @ segments s1" using run_mallocs_segments [of ns s1] 1(2) by auto
  then have "kernel_ok (segments s1)" "not_low s (segments s1)" using Cons.prems(4,5) kernel_ok_append by (auto simp: not_low_def)
  note i = malloc_inv [OF Cons.prems(1,2) 1(1) this _ Cons.prems(7)]
  have i: "room_ok s1" "case r of None \<Rightarrow> mem_inv s1 A | Some a \<Rightarrow> mem_inv s1 ((a, round_up n) # A) \<and> a \<noteq> 0" using i Cons.prems(6) by simp_all
  have al: "allow_extra_mmap s1" using malloc_segments(2) [OF 1(1)] Cons.prems(7) by simp
  have nl: "not_low s1 (segments s')" by (rule not_low_malloc [OF 1(1) Cons.prems(5)])
  show ?case
  proof (cases r)
    case None
    then show ?thesis using Cons.IH [of s1 A bs1] 1 i al nl Cons.prems(4,6) by auto
  next
    case (Some a)
    then show ?thesis using Cons.IH [of s1 "(a, round_up n) # A" bs1] 1 i al nl Cons.prems(4,6) by auto
  qed
qed simp

section \<open>Properties\<close>

definition mem_start :: "mem_state \<Rightarrow> bool" where
  "mem_start s \<longleftrightarrow> mi_start (memstore s) = 0 \<and> segments s = [] \<and> allow_extra_mmap s \<and> params_ok (hpcrun_mem_init s) \<and> params_ok s"

text \<open>
  C10. The blocks that a thread allocates never overlap. For requests of up to \<open>2 ^ 63\<close> bytes in any order, and whichever calls of \<open>mmap\<close> fail, the
  blocks that were returned are pairwise apart, aligned to 8 bytes and inside segments that the kernel gave. The kernel is one that
  gives aligned segments that overlap no other and do not wrap around, none of them below a fifth of the size of a segment (820 kB by
  default), since the code subtracts the size of a request from an address before it compares.
\<close>

theorem malloc_blocks_apart:
  assumes "mem_start s" and "run_mallocs ns s = (bs, s')" and "kernel_ok (segments s')" and "not_low s (segments s')" and "\<forall>n \<in> set ns. unat n \<le> 2 ^ 63"
  shows "sorted_wrt apart bs \<and> (\<forall>(a, n) \<in> set bs. a \<noteq> 0 \<and> 8 dvd unat a \<and> n \<in> set ns \<and> (\<exists>r \<in> set (segments s'). inside (a, n) r))"
proof -
  let ?f = "\<lambda>(a, n). (a, round_up n)"
  have "mem_inv s []" using assms(1) by (simp add: mem_inv_def mem_start_def store_ok_def blocks_ok_def params_ok_def)
  moreover have "room_ok s" using assms(1) by (simp add: room_ok_def mem_start_def)
  ultimately have "mem_inv s' (rev (map ?f bs) @ []) \<and> (\<forall>b \<in> set bs. fst b \<noteq> 0 \<and> snd b \<in> set ns)"
    by (rule run_mallocs_inv [OF _ _ assms(2-5)]) (use assms(1) in \<open>simp add: mem_start_def\<close>)
  then
  have i: "mem_inv s' (rev (map ?f bs))" "\<forall>b \<in> set bs. fst b \<noteq> 0 \<and> snd b \<in> set ns" by auto
  have ins: "inside b (?f b)" if "b \<in> set bs" for b
  proof -
    have "unat (snd b) \<le> 2 ^ 63" using i(2) that assms(5) by blast
    then have "unat (snd b) \<le> unat (round_up (snd b))" using round_up_unat(2) [of "snd b"] by simp
    then show ?thesis by (cases b) (simp add: inside_def)
  qed
  have "sorted_wrt (\<lambda>b c. apart (?f c) (?f b)) bs"
    using i(1) by (simp add: mem_inv_def blocks_ok_def sorted_wrt_rev sorted_wrt_map)
  moreover have "apart b c" if "b \<in> set bs" "c \<in> set bs" "apart (?f c) (?f b)" for b c
    using apart_inside [OF _ ins [OF that(1)]] apart_inside [OF _ ins [OF that(2)]] that(3) by (simp only: apart_sym [of b c])
  ultimately have "sorted_wrt apart bs" by (rule sorted_wrt_mono_rel [rotated])
  moreover have "a \<noteq> 0 \<and> 8 dvd unat a \<and> n \<in> set ns \<and> (\<exists>r \<in> set (segments s'). inside (a, n) r)" if b: "(a, n) \<in> set bs" for a n
  proof -
    have "(a, round_up n) \<in> set (rev (map ?f bs))" using b by force
    then have "8 dvd unat a" "\<exists>r \<in> set (segments s'). inside (a, round_up n) r" using i(1) by (auto simp: mem_inv_def blocks_ok_def)
    moreover have "inside (a, n) r" if "inside (a, round_up n) r" for r using ins [OF b] that by (auto simp: inside_def)
    ultimately show ?thesis using i(2) b by fastforce
  qed
  ultimately show ?thesis by auto
qed

definition example_mem :: mem_state where
  "example_mem = \<lparr> memsize = DEFAULT_MEMSIZE, low_memsize = MIN_LOW_MEMSIZE, pagesize = 4096, allow_extra_mmap = True, init_done = False, num_segments = 0,
     total_allocation = 0, num_reclaims = 0, num_failures = 0, total_freeable = 0, total_non_freeable = 0, out_of_mem_mesg = False,
     memstore = \<lparr> mi_start = 0, mi_size = 0, mi_low = 0, mi_high = 0 \<rparr>, mem_low = False, sampling_disabled = False, sys_pagesize = 4096,
     env_memsize = None, env_low_memsize = None, mmap_answers = (\<lambda>i. if i = 1 then None else Some (of_nat i * 0x10000000 + 0x70000000)), mmap_calls = 0, segments = [] \<rparr>"

theorem malloc_blocks_apart_witness:
  "\<exists>s'. run_mallocs [24, 3000000, 8000000, 5, 9000000] example_mem = ([(0x703fffe8, 24), (0x70123928, 3000000), (0x70123920, 5), (0x90000000, 9000000)], s') \<and>
    sorted_wrt apart [(0x703fffe8, 24), (0x70123928, 3000000), (0x70123920, 5), (0x90000000, 9000000)]"
proof -
  obtain bs s' where r: "run_mallocs [24, 3000000, 8000000, 5, 9000000] example_mem = (bs, s')" by fastforce
  have bs: "fst (run_mallocs [24, 3000000, 8000000, 5, 9000000] example_mem) = [(0x703fffe8, 24), (0x70123928, 3000000), (0x70123920, 5), (0x90000000, 9000000)]"
    "segments (snd (run_mallocs [24, 3000000, 8000000, 5, 9000000] example_mem)) = [(0x90000000, 0x896000), (0x70000000, 0x400000)]"
    by code_simp+
  have m: "pagesize (hpcrun_mem_init example_mem) = 4096" "memsize (hpcrun_mem_init example_mem) = 0x400000" by code_simp+
  then have "mem_start example_mem" by (simp add: mem_start_def params_ok_def) (simp add: example_mem_def DEFAULT_MEMSIZE_def)
  moreover have "kernel_ok (segments s')" using bs(2) r by (simp add: kernel_ok_def apart_def)
  moreover have "memsize example_mem = 0x400000" by (simp add: example_mem_def DEFAULT_MEMSIZE_def)
  then have "not_low example_mem (segments s')" using bs(2) r m by (simp add: not_low_def)
  ultimately show ?thesis using malloc_blocks_apart [OF _ r] r bs(1) by simp
qed

text \<open>
  C11. When \<open>hpcrun_malloc\<close> fails although the kernel has memory. With segments that are not smaller than the reserve, a request of the usual kind
  returns null in two cases only: when it is for nothing, and when it fits the current segment exactly, because a block that
  would begin at the low end is refused, without mapping another segment.
\<close>

theorem malloc_fails_iff:
  assumes "mem_inv s A" and "init_done s" and "allow_extra_mmap s" and "mmap_answers s (mmap_calls s) = Some a"
    and "kernel_ok ((a, hpcrun_align_pagesize (memsize s) s) # segments s)" and "unat n \<le> 2 ^ 63" and "low_memsize s \<le> memsize s"
  shows "fst (hpcrun_malloc n s) = None \<longleftrightarrow>
    n = 0 \<or> (mi_start (memstore s) \<noteq> 0 \<and> round_up n = mem_room s \<and> low_memsize s \<le> mem_room s)"
proof (cases "n = 0")
  case True
  then show ?thesis by (simp add: hpcrun_malloc_def)
next
  case False
  let ?n = "round_up n"
  have u: "unat ?n = (unat n + 7) div 8 * 8" "unat n \<le> unat ?n" using round_up_unat [of n] assms(6) by simp_all
  then have n: "0 < ?n" using False unat_gt_0 [of n] by (simp add: word_less_nat_alt)
  let ?l = "mi_start (memstore s)" and ?h = "mi_high (memstore s)"
  have init: "hpcrun_mem_init s = s" using assms(2) by (simp add: hpcrun_mem_init_def)
  have p: "params_ok s" using assms(1) init by (simp add: mem_inv_def)
  show ?thesis
  proof (cases "?n > memsize s div 5 \<and> (?l = 0 \<or> ?n > mem_room s)")
    case True
    then show ?thesis using False assms(3,4) by (auto simp: hpcrun_malloc_def malloc_extra_def hpcrun_mmap_anon_def Let_def)
  next
    case small: False
    let ?s = "malloc_refill ?n s"
    have m: "hpcrun_malloc n s = malloc_take ?n ?s" using small False assms(3) by (auto simp: hpcrun_malloc_def Let_def)
    show ?thesis
    proof (cases "?l = 0 \<or> mem_room s < low_memsize s \<or> mem_room s < ?n")
      case True
      have s: "memstore ?s = \<lparr> mi_start = a, mi_size = memsize s, mi_low = a, mi_high = a + memsize s \<rparr>"
        using True assms(3,4) by (simp add: malloc_refill_def hpcrun_make_memstore_def init hpcrun_mmap_anon_def Let_def)
      have "memsize s div 5 \<le> memsize s" by (simp add: word_le_nat_alt unat_div)
      moreover have "?n \<noteq> memsize s" if "?n \<le> memsize s div 5"
      proof
        assume "?n = memsize s"
        then have "unat ?n \<le> unat ?n div 5" using that by (simp add: word_le_nat_alt unat_div)
        then show False using n by (simp add: word_less_nat_alt)
      qed
      ultimately have "?n < memsize s" using small True assms(7) n by (auto simp: not_less)
      then have lt: "unat ?n < unat (memsize s)" by (simp add: word_less_nat_alt)
      have "unat (memsize s) \<le> unat (hpcrun_align_pagesize (memsize s) s)" using p by (intro align_unat) (simp_all add: params_ok_def)
      then have h: "unat (a + memsize s) = unat a + unat (memsize s)" "a \<noteq> 0"
        using assms(5) by (auto simp: kernel_ok_def unat_word_ariths)
      then have "unat (a + memsize s - ?n) = unat a + unat (memsize s) - unat ?n" using lt by (subst unat_sub) (simp_all add: word_le_nat_alt)
      then have "\<not> a + memsize s - ?n \<le> a" using lt by (simp add: word_le_nat_alt)
      then have "fst (hpcrun_malloc n s) \<noteq> None" unfolding m malloc_take_def s using h(2) by (simp add: Let_def)
      then show ?thesis using True False n by auto
    next
      case fits: False
      then have s: "?s = s" by (simp add: malloc_refill_def)
      have st: "mi_low (memstore s) = ?l" "?l \<le> ?h" using assms(1) fits by (auto simp: mem_inv_def store_ok_def)
      have r: "unat (mem_room s) = unat ?h - unat ?l" using st by (simp add: mem_room_def unat_sub)
      have "unat ?n \<le> unat (mem_room s)" using fits by (simp add: word_le_nat_alt not_less)
      then have "unat (?h - ?n) = unat ?h - unat ?n" using r by (subst unat_sub) (simp_all add: word_le_nat_alt)
      then have "?h - ?n \<le> ?l \<longleftrightarrow> ?n = mem_room s"
        using r \<open>unat ?n \<le> unat (mem_room s)\<close> st(2) by (auto simp: word_le_nat_alt word_unat_eq_iff)
      then show ?thesis unfolding m s malloc_take_def using fits st(1) False by (auto simp: Let_def mem_failure_def not_less)
    qed
  qed
qed

definition example_mem2 :: mem_state where
  "example_mem2 = snd (hpcrun_malloc 16 (example_mem\<lparr> mmap_answers := (\<lambda>i. Some (of_nat i * 0x10000000 + 0x70000000)) \<rparr>))"

theorem malloc_fails_iff_witness:
  "fst (hpcrun_malloc 0x3ffff0 example_mem2) = None \<and> fst (hpcrun_malloc 0x3fffe0 example_mem2) \<noteq> None"
proof -
  let ?s0 = "example_mem\<lparr> mmap_answers := (\<lambda>i. Some (of_nat i * 0x10000000 + 0x70000000)) \<rparr>"
  have c: "init_done example_mem2" "allow_extra_mmap example_mem2" "mmap_answers example_mem2 (mmap_calls example_mem2) = Some 0x80000000"
    "low_memsize example_mem2 \<le> memsize example_mem2" by code_simp+
  have d: "mi_start (memstore example_mem2) \<noteq> 0" "mem_room example_mem2 = 0x3ffff0" "low_memsize example_mem2 \<le> 0x3ffff0" "round_up 0x3ffff0 = 0x3ffff0"
    "round_up 0x3fffe0 = 0x3fffe0" by code_simp+
  have sg: "hpcrun_align_pagesize (memsize example_mem2) example_mem2 = 0x400000" "segments example_mem2 = [(0x70000000, 0x400000)]" by code_simp+
  have "pagesize (hpcrun_mem_init ?s0) = 4096" "memsize (hpcrun_mem_init ?s0) = 0x400000" by code_simp+
  then have i0: "mem_inv ?s0 []"
    by (simp add: mem_inv_def params_ok_def) (simp add: example_mem_def DEFAULT_MEMSIZE_def store_ok_def blocks_ok_def)
  obtain r where r: "hpcrun_malloc 16 ?s0 = (r, example_mem2)" unfolding example_mem2_def by (metis prod.collapse)
  have k: "kernel_ok [(0x80000000, 0x400000), (0x70000000, 0x400000)]" "kernel_ok [(0x70000000, 0x400000)]" by (simp_all add: kernel_ok_def apart_def)
  have ro: "room_ok ?s0" by (simp add: room_ok_def example_mem_def)
  have "not_low ?s0 [(0x70000000, 0x400000)]" by code_simp
  then have nl: "not_low ?s0 (segments example_mem2)" using sg(2) by simp
  have "allow_extra_mmap ?s0" by (simp add: example_mem_def)
  then obtain A where A: "mem_inv example_mem2 A" using malloc_inv(2) [OF i0 ro r] k(2) sg(2) nl by (cases r) auto
  note t = malloc_fails_iff [OF A c(1-3)]
  have "fst (hpcrun_malloc 0x3ffff0 example_mem2) = None" using t [of "0x3ffff0"] c(4) d k(1) sg by simp
  moreover have "fst (hpcrun_malloc 0x3fffe0 example_mem2) \<noteq> None" using t [of "0x3fffe0"] c(4) d k(1) sg by simp
  ultimately show ?thesis by blast
qed

text \<open>
  C37. A request near the end of the address space is granted. The size is rounded up to a multiple of 8 without a check, so that the seven
  largest sizes become 0: \<open>hpcrun_malloc\<close> returns the address where the free part of the segment ends, which is that of the block
  allocated before, and counts a success.
\<close>

theorem malloc_size_wraps:
  assumes "2 ^ 64 \<le> unat n + 7" and "mi_start (memstore s) \<noteq> 0" and "mi_low (memstore s) < mi_high (memstore s)" and "low_memsize s \<le> mem_room s"
  shows "hpcrun_malloc n s = (Some (mi_high (memstore s)), s)"
proof -
  have "n \<noteq> 0" using assms(1) by auto
  have lt: "unat n < 2 ^ 64" using unsigned_less [of n] by simp
  have "unat (n + 7) = (unat n + 7) mod 2 ^ 64" by (simp add: unat_word_ariths)
  also have "\<dots> = (unat n + 7 - 2 ^ 64) mod 2 ^ 64" by (rule le_mod_geq [OF assms(1)])
  also have "\<dots> < 8" using lt by (intro le_less_trans [OF mod_less_eq_dividend]) linarith
  finally have "n + 7 < 8" by (simp add: word_less_nat_alt)
  then have "(n + 7) div 8 = 0" by (simp add: word_unat_eq_iff unat_div word_less_nat_alt)
  moreover have "(n + 7) AND NOT (mask 3) = push_bit 3 (drop_bit 3 (n + 7))"
    by (rule bit_word_eqI) (auto simp: bit_simps)
  moreover have "(7 :: u64) = mask 3" by (simp add: mask_eq_exp_minus_1)
  ultimately have "round_up n = 0" by (simp add: round_up_def drop_bit_eq_div)
  moreover have "\<not> mem_room s < low_memsize s" "\<not> mi_high (memstore s) \<le> mi_low (memstore s)" using assms(3,4) by simp_all
  ultimately show ?thesis using assms(2) \<open>n \<noteq> 0\<close>
    by (simp add: hpcrun_malloc_def malloc_refill_def malloc_take_def Let_def)
qed

theorem malloc_size_wraps_witness:
  "hpcrun_malloc 0xfffffffffffffffc example_mem2 = (Some 0x703ffff0, example_mem2)"
proof -
  have "mi_start (memstore example_mem2) \<noteq> 0" "mi_low (memstore example_mem2) < mi_high (memstore example_mem2)" "low_memsize example_mem2 \<le> mem_room example_mem2"
    "mi_high (memstore example_mem2) = 0x703ffff0" by code_simp+
  then show ?thesis using malloc_size_wraps [of "0xfffffffffffffffc" example_mem2] by simp
qed

end
