(* ===== verification/Rwlock.thy ===== *)
theory Rwlock
  imports Mcs_Lock Prelude
begin

text \<open>
  The phase-fair reader-writer lock of \<open>src/common/lean/pfq-rwlock.c\<close>, on top of the queue lock. As there, a thread is
  named by the address of its queue node, the operations are cut at their accesses to shared memory, and a constructor of \<open>pfq_pc\<close> says
  which access comes next and carries the local variables that are still needed. A store to one byte of a counter is an access
  of its own, and so are the load of \<open>whead\<close> and the store through it. \<open>Fault\<close> is a store through a null pointer.
\<close>

unbundle bit_operations_syntax

section \<open>Data\<close>

definition READER_INCREMENT :: u32 where "READER_INCREMENT = 0x100"
definition PHASE_BIT :: u32 where "PHASE_BIT = 0x001"
definition WRITER_PRESENT :: u32 where "WRITER_PRESENT = 0x002"
definition WRITER_MASK :: u32 where "WRITER_MASK = PHASE_BIT OR WRITER_PRESENT"

record pfq_rwlock_t =
  rw_r_in :: u32
  rw_r_out :: u32
  rw_last :: u32
  rw_writer_blocking_readers :: "u32 \<Rightarrow> bool"
  rw_wtail :: mcs_lock_t
  rw_whead :: "ptr option"

datatype pfq_pc = Out
  | Read_Arrive | Read_Spin u32 | Reading | Read_Leave | Read_Last u32 | Read_Head | Read_Store ptr
  | Write_Mcs mcs_pc | Write_Block | Write_Head | Write_Phase | Write_Bar u32 | Write_In | Write_Last u32 | Write_Out u32 | Write_Spin | Writing
  | Done_Phase | Done_In_Load u32 | Done_In_Store u32 byte | Done_Out_Load u32 | Done_Out_Store u32 byte | Done_Bar u32 | Done_Mcs mcs_pc
  | Fault

section \<open>Operations\<close>

definition pfq_rwlock_init :: "pfq_rwlock_t \<Rightarrow> pfq_rwlock_t" where
  "pfq_rwlock_init l = l\<lparr> rw_r_in := 0, rw_r_out := 0, rw_last := 0,
     rw_writer_blocking_readers := (rw_writer_blocking_readers l)(0 := False, 1 := False), rw_wtail := mcs_init (rw_wtail l), rw_whead := None \<rparr>"

fun pfq_rwlock_read_lock :: "ptr \<Rightarrow> pfq_pc \<Rightarrow> pfq_rwlock_t \<Rightarrow> pfq_pc \<times> pfq_rwlock_t" where
  "pfq_rwlock_read_lock me Read_Arrive l =
    (let ticket = rw_r_in l
     in (if ticket AND WRITER_PRESENT \<noteq> 0 then Read_Spin (ticket AND PHASE_BIT) else Reading, l\<lparr> rw_r_in := ticket + READER_INCREMENT \<rparr>))"
| "pfq_rwlock_read_lock me (Read_Spin phase) l = (if rw_writer_blocking_readers l phase then Read_Spin phase else Reading, l)"
| "pfq_rwlock_read_lock me pc l = (pc, l)"

fun pfq_rwlock_read_unlock :: "ptr \<Rightarrow> pfq_pc \<Rightarrow> pfq_rwlock_t \<Rightarrow> pfq_pc \<times> pfq_rwlock_t" where
  "pfq_rwlock_read_unlock me Read_Leave l =
    (let ticket = rw_r_out l
     in (if ticket AND WRITER_PRESENT \<noteq> 0 then Read_Last ticket else Out, l\<lparr> rw_r_out := ticket + READER_INCREMENT \<rparr>))"
| "pfq_rwlock_read_unlock me (Read_Last ticket) l = (if ticket = rw_last l then Read_Head else Out, l)"
| "pfq_rwlock_read_unlock me Read_Head l = (case rw_whead l of Some p \<Rightarrow> Read_Store p | None \<Rightarrow> Fault, l)"
| "pfq_rwlock_read_unlock me (Read_Store p) l = (Out, l\<lparr> rw_wtail := set_blocked p False (rw_wtail l) \<rparr>)"
| "pfq_rwlock_read_unlock me pc l = (pc, l)"

fun pfq_rwlock_write_lock :: "ptr \<Rightarrow> pfq_pc \<Rightarrow> pfq_rwlock_t \<Rightarrow> pfq_pc \<times> pfq_rwlock_t" where
  "pfq_rwlock_write_lock me (Write_Mcs p) l =
    (let (p, wtail) = mcs_lock me p (rw_wtail l)
     in (if p = Critical then Write_Block else Write_Mcs p, l\<lparr> rw_wtail := wtail \<rparr>))"
| "pfq_rwlock_write_lock me Write_Block l = (Write_Head, l\<lparr> rw_wtail := set_blocked me True (rw_wtail l) \<rparr>)"
| "pfq_rwlock_write_lock me Write_Head l = (Write_Phase, l\<lparr> rw_whead := Some me \<rparr>)"
| "pfq_rwlock_write_lock me Write_Phase l = (Write_Bar (rw_r_in l AND PHASE_BIT), l)"
| "pfq_rwlock_write_lock me (Write_Bar phase) l =
    (Write_In, l\<lparr> rw_writer_blocking_readers := (rw_writer_blocking_readers l)(phase := True) \<rparr>)"
| "pfq_rwlock_write_lock me Write_In l = (Write_Last (rw_r_in l), l\<lparr> rw_r_in := rw_r_in l OR WRITER_PRESENT \<rparr>)"
| "pfq_rwlock_write_lock me (Write_Last i) l = (Write_Out i, l\<lparr> rw_last := i - READER_INCREMENT + WRITER_PRESENT \<rparr>)"
| "pfq_rwlock_write_lock me (Write_Out i) l =
    (if i \<noteq> rw_r_out l then Write_Spin else Writing, l\<lparr> rw_r_out := rw_r_out l OR WRITER_PRESENT \<rparr>)"
| "pfq_rwlock_write_lock me Write_Spin l = (if mn_blocked (ml_nodes (rw_wtail l) me) then Write_Spin else Writing, l)"
| "pfq_rwlock_write_lock me pc l = (pc, l)"

definition lsb :: "u32 \<Rightarrow> byte" where
  "lsb x = ucast x"

definition store_lsb :: "u32 \<Rightarrow> byte \<Rightarrow> u32" where
  "store_lsb x b = (x AND NOT 0xff) OR ucast b"

fun pfq_rwlock_write_unlock :: "ptr \<Rightarrow> pfq_pc \<Rightarrow> pfq_rwlock_t \<Rightarrow> pfq_pc \<times> pfq_rwlock_t" where
  "pfq_rwlock_write_unlock me Done_Phase l = (Done_In_Load (ucast (lsb (rw_r_in l)) AND PHASE_BIT), l)"
| "pfq_rwlock_write_unlock me (Done_In_Load phase) l = (Done_In_Store phase (lsb (rw_r_in l)), l)"
| "pfq_rwlock_write_unlock me (Done_In_Store phase b) l =
    (Done_Out_Load phase, l\<lparr> rw_r_in := store_lsb (rw_r_in l) (b XOR ucast WRITER_MASK) \<rparr>)"
| "pfq_rwlock_write_unlock me (Done_Out_Load phase) l = (Done_Out_Store phase (lsb (rw_r_out l)), l)"
| "pfq_rwlock_write_unlock me (Done_Out_Store phase b) l =
    (Done_Bar phase, l\<lparr> rw_r_out := store_lsb (rw_r_out l) (b XOR ucast WRITER_MASK) \<rparr>)"
| "pfq_rwlock_write_unlock me (Done_Bar phase) l =
    (Done_Mcs Unlock_Load, l\<lparr> rw_writer_blocking_readers := (rw_writer_blocking_readers l)(phase := False) \<rparr>)"
| "pfq_rwlock_write_unlock me (Done_Mcs p) l =
    (let (p, wtail) = mcs_unlock me p (rw_wtail l)
     in (if p = Idle then Out else Done_Mcs p, l\<lparr> rw_wtail := wtail \<rparr>))"
| "pfq_rwlock_write_unlock me pc l = (pc, l)"

section \<open>Threads\<close>

fun pfq_access :: "ptr \<Rightarrow> pfq_pc \<Rightarrow> pfq_rwlock_t \<Rightarrow> pfq_pc \<times> pfq_rwlock_t" where
  "pfq_access t Read_Arrive l = pfq_rwlock_read_lock t Read_Arrive l"
| "pfq_access t (Read_Spin x) l = pfq_rwlock_read_lock t (Read_Spin x) l"
| "pfq_access t Read_Leave l = pfq_rwlock_read_unlock t Read_Leave l"
| "pfq_access t (Read_Last x) l = pfq_rwlock_read_unlock t (Read_Last x) l"
| "pfq_access t Read_Head l = pfq_rwlock_read_unlock t Read_Head l"
| "pfq_access t (Read_Store p) l = pfq_rwlock_read_unlock t (Read_Store p) l"
| "pfq_access t Done_Phase l = pfq_rwlock_write_unlock t Done_Phase l"
| "pfq_access t (Done_In_Load x) l = pfq_rwlock_write_unlock t (Done_In_Load x) l"
| "pfq_access t (Done_In_Store x b) l = pfq_rwlock_write_unlock t (Done_In_Store x b) l"
| "pfq_access t (Done_Out_Load x) l = pfq_rwlock_write_unlock t (Done_Out_Load x) l"
| "pfq_access t (Done_Out_Store x b) l = pfq_rwlock_write_unlock t (Done_Out_Store x b) l"
| "pfq_access t (Done_Bar x) l = pfq_rwlock_write_unlock t (Done_Bar x) l"
| "pfq_access t (Done_Mcs p) l = pfq_rwlock_write_unlock t (Done_Mcs p) l"
| "pfq_access t p l = pfq_rwlock_write_lock t p l"

type_synonym pfq_state = "pfq_rwlock_t \<times> (ptr \<Rightarrow> pfq_pc)"

datatype pfq_call = Call_Read | Call_Write | Go

fun pfq_next :: "pfq_call \<Rightarrow> ptr \<Rightarrow> pfq_state \<Rightarrow> pfq_state" where
  "pfq_next c t (l, pc) =
    (case pc t of Out \<Rightarrow> (l, pc(t := (case c of Call_Read \<Rightarrow> Read_Arrive | Call_Write \<Rightarrow> Write_Mcs Lock_Init | Go \<Rightarrow> Out)))
     | Reading \<Rightarrow> (l, pc(t := Read_Leave))
     | Writing \<Rightarrow> (l, pc(t := Done_Phase))
     | Fault \<Rightarrow> (l, pc)
     | p \<Rightarrow> (case pfq_access t p l of (p', l') \<Rightarrow> (l', pc(t := p'))))"

definition pfq_step :: "ptr \<Rightarrow> pfq_state \<Rightarrow> pfq_state \<Rightarrow> bool" where
  "pfq_step t s s' \<longleftrightarrow> (\<exists>c. s' = pfq_next c t s)"

definition pfq_start :: "pfq_state \<Rightarrow> bool" where
  "pfq_start s \<longleftrightarrow> (\<exists>l. fst s = pfq_rwlock_init l) \<and> (\<forall>t. snd s t = Out)"

section \<open>Counters\<close>

text \<open>A counter holds a number of readers in its upper 24 bits, the flag of a writer and the phase.\<close>

definition ctr :: "nat \<Rightarrow> bool \<Rightarrow> bool \<Rightarrow> u32" where
  "ctr n w p = push_bit 8 (of_nat n) OR (push_bit 1 (of_bool w) OR of_bool p)"

lemmas flag_defs = READER_INCREMENT_def PHASE_BIT_def WRITER_PRESENT_def WRITER_MASK_def

lemma ctr_bit: "bit (ctr n w p) i \<longleftrightarrow> i < 32 \<and> (if i = 0 then p else if i = 1 then w else 8 \<le> i \<and> bit n (i - 8))"
  by (auto simp: ctr_def bit_simps)

lemma ctr_eq: "ctr n w p = ctr m v q \<longleftrightarrow> w = v \<and> p = q \<and> take_bit 24 n = take_bit 24 m"
proof
  assume e: "ctr n w p = ctr m v q"
  have "p = q" using arg_cong [OF e, of "\<lambda>x. bit x 0"] by (simp add: ctr_bit)
  moreover have "w = v" using arg_cong [OF e, of "\<lambda>x. bit x 1"] by (simp add: ctr_bit)
  moreover have "bit (take_bit 24 n) i = bit (take_bit 24 m) i" for i
    using arg_cong [OF e, of "\<lambda>x. bit x (i + 8)"] by (auto simp: ctr_bit bit_take_bit_iff)
  ultimately show "w = v \<and> p = q \<and> take_bit 24 n = take_bit 24 m" by (auto intro: bit_eqI)
next
  assume a: "w = v \<and> p = q \<and> take_bit 24 n = take_bit 24 m"
  have "bit n i = bit m i" if "i < 24" for i
    using a that by (metis bit_take_bit_iff)
  then show "ctr n w p = ctr m v q" using a by (intro bit_word_eqI) (auto simp: ctr_bit)
qed

lemma ctr_nat: "ctr n w p = of_nat (256 * n + 2 * of_bool w + of_bool p)"
proof -
  have "push_bit 1 (of_bool w) AND of_bool p = (0 :: u32)" by (rule bit_word_eqI) (auto simp: bit_simps)
  then have 1: "push_bit 1 (of_bool w) OR of_bool p = push_bit 1 (of_bool w :: u32) + of_bool p" by (simp add: disjunctive_add_eq_or)
  have "push_bit 8 (of_nat n) AND (push_bit 1 (of_bool w) OR of_bool p) = (0 :: u32)" by (rule bit_word_eqI) (auto simp: bit_simps)
  then have "ctr n w p = push_bit 8 (of_nat n) + (push_bit 1 (of_bool w) OR of_bool p)" unfolding ctr_def by (rule disjunctive_add_eq_or [symmetric])
  then show ?thesis unfolding 1 by (simp add: push_bit_eq_mult)
qed

lemma ctr_arrive: "ctr n w p + READER_INCREMENT = ctr (Suc n) w p"
  by (simp add: ctr_nat READER_INCREMENT_def)

lemma ctr_tests:
  "ctr n w p AND WRITER_PRESENT \<noteq> 0 \<longleftrightarrow> w" "ctr n w p AND PHASE_BIT = of_bool p" "ctr n w p OR WRITER_PRESENT = ctr n True p" "bit (ctr n w p) 0 = p"
  "bit (ctr n w p) 1 = w" "bit (ctr n w p) (Suc 0) = w"
proof -
  have t: "(2 :: u32) = push_bit 1 1" "(1 :: u32) = of_bool True" by simp_all
  have e: "ctr n w p AND 2 = push_bit 1 (of_bool w)" by (subst t(1)) (rule bit_word_eqI, auto simp: ctr_bit bit_simps)
  then show "ctr n w p AND WRITER_PRESENT \<noteq> 0 \<longleftrightarrow> w" by (simp add: WRITER_PRESENT_def)
  show "ctr n w p AND PHASE_BIT = of_bool p" unfolding PHASE_BIT_def by (subst t(2)) (rule bit_word_eqI, auto simp: ctr_bit bit_simps)
  show "ctr n w p OR WRITER_PRESENT = ctr n True p" unfolding WRITER_PRESENT_def by (subst t(1)) (rule bit_word_eqI, auto simp: ctr_bit bit_simps)
qed (simp_all add: ctr_bit)

definition flags :: "bool \<Rightarrow> bool \<Rightarrow> byte" where
  "flags w p = push_bit 1 (of_bool w) OR of_bool p"

lemma ctr_lsb:
  "lsb (ctr n w p) = flags w p" "ucast (flags w p) AND PHASE_BIT = of_bool p"
  "store_lsb (ctr n w p) (flags v q XOR ucast WRITER_MASK) = ctr n (\<not> v) (\<not> q)"
proof -
  show "lsb (ctr n w p) = flags w p" unfolding lsb_def flags_def by (rule bit_word_eqI) (auto simp: ctr_bit bit_simps)
  show "ucast (flags w p) AND PHASE_BIT = of_bool p" by (cases w; cases p; simp; code_simp)
  have "(ucast (flags v q XOR ucast WRITER_MASK) :: u32) = ctr 0 (\<not> v) (\<not> q)" by (cases v; cases q; simp; code_simp)
  moreover have m: "(0xff :: u32) = mask 8" by (simp add: mask_eq_exp_minus_1)
  moreover have "(ctr n w p AND NOT (mask 8)) OR ctr 0 v' q' = ctr n v' q'" for v' q'
    by (rule bit_word_eqI) (auto simp: ctr_bit bit_simps)
  ultimately show "store_lsb (ctr n w p) (flags v q XOR ucast WRITER_MASK) = ctr n (\<not> v) (\<not> q)" by (simp add: store_lsb_def)
qed

lemma ctr_last: "ctr n False p - READER_INCREMENT + WRITER_PRESENT = ctr (n + (2 ^ 24 - 1)) True p"
proof -
  have "Suc (n + (2 ^ 24 - 1)) = n + 2 ^ 24" by simp
  then have "ctr (n + (2 ^ 24 - 1)) True p + READER_INCREMENT = ctr (n + 2 ^ 24) True p" by (simp only: ctr_arrive)
  also have "\<dots> = ctr n True p" by (simp add: ctr_eq take_bit_eq_mod)
  also have "\<dots> = ctr n False p + WRITER_PRESENT" by (simp add: ctr_nat WRITER_PRESENT_def)
  finally show ?thesis by (simp add: algebra_simps)
qed

lemmas ctr_simps = ctr_arrive ctr_tests ctr_lsb ctr_last

section \<open>Executions in time\<close>

text \<open>
  Ghost counters follow an execution: the readers that arrived and left, the readers that arrived before the last announcement
  of a writer, the number of announcements, and for a reader that left the number of announcements at that moment. An execution is
  \<open>in_time\<close> when the 24 bits that count readers are enough, and when a reader that found a writer present has returned from its unlock
  before the second announcement of a writer after that. \<open>pfq_run\<close> are the executions all of whose states are.
\<close>

record pfq_ghost =
  g_arrived :: nat
  g_left :: nat
  g_before :: nat
  g_epoch :: nat
  g_seen :: "ptr \<Rightarrow> nat"

fun pfq_count :: "ptr \<Rightarrow> pfq_pc \<Rightarrow> pfq_ghost \<Rightarrow> pfq_ghost" where
  "pfq_count t Read_Arrive g = g\<lparr> g_arrived := Suc (g_arrived g) \<rparr>"
| "pfq_count t Read_Leave g = g\<lparr> g_left := Suc (g_left g), g_seen := (g_seen g)(t := g_epoch g) \<rparr>"
| "pfq_count t Write_In g = g\<lparr> g_before := g_arrived g \<rparr>"
| "pfq_count t (Write_Last i) g = g\<lparr> g_epoch := Suc (g_epoch g) \<rparr>"
| "pfq_count t _ g = g"

fun leaving :: "pfq_pc \<Rightarrow> bool" where
  "leaving (Read_Last _) = True"
| "leaving Read_Head = True"
| "leaving (Read_Store _) = True"
| "leaving _ = False"

definition in_time :: "pfq_state \<Rightarrow> pfq_ghost \<Rightarrow> bool" where
  "in_time s g \<longleftrightarrow> g_arrived g < g_left g + 2 ^ 24 \<and> (bit (rw_r_out (fst s)) 1 \<longrightarrow> g_arrived g < g_before g + 2 ^ 24) \<and>
     (\<forall>t. leaving (snd s t) \<longrightarrow> g_epoch g \<le> Suc (g_seen g t))"

inductive pfq_run :: "pfq_state \<Rightarrow> pfq_ghost \<Rightarrow> bool" where
  begin_run: "pfq_start s \<Longrightarrow> pfq_run s \<lparr> g_arrived = 0, g_left = 0, g_before = 0, g_epoch = 0, g_seen = (\<lambda>_. 0) \<rparr>"
| go_on: "pfq_run s g \<Longrightarrow> pfq_step t s s' \<Longrightarrow> g' = pfq_count t (snd s t) g \<Longrightarrow> in_time s' g' \<Longrightarrow> pfq_run s' g'"

section \<open>The invariant\<close>

text \<open>
  The thread \<open>w\<close> that has the queue lock, if there is one, is the writer, and the classes below say how far it has come. \<open>P\<close> is the phase
  of \<open>r_in\<close>. \<open>counters_ok\<close> describes the fields of the lock, \<open>readers_ok\<close> the readers that are inside, and \<open>signals_ok\<close> the readers that are
  leaving: at most one of them holds a token, the duty to wake the writer, and only when the writer waits for it.
\<close>

fun held :: "pfq_pc \<Rightarrow> bool" where
  "held Write_Block = True" | "held Write_Head = True" | "held Write_Phase = True" | "held (Write_Bar _) = True" | "held Write_In = True"
| "held (Write_Last _) = True" | "held (Write_Out _) = True" | "held Write_Spin = True" | "held Writing = True" | "held Done_Phase = True"
| "held (Done_In_Load _) = True" | "held (Done_In_Store _ _) = True" | "held (Done_Out_Load _) = True" | "held (Done_Out_Store _ _) = True"
| "held (Done_Bar _) = True" | "held _ = False"

fun mcs_of :: "pfq_pc \<Rightarrow> mcs_pc" where
  "mcs_of (Write_Mcs p) = p"
| "mcs_of (Done_Mcs p) = p"
| "mcs_of p = (if held p then Critical else Idle)"

fun inside :: "pfq_pc \<Rightarrow> bool" where
  "inside (Read_Spin _) = True" | "inside Reading = True" | "inside Read_Leave = True" | "inside _ = False"

fun entered :: "pfq_pc \<Rightarrow> bool" where
  "entered Writing = True" | "entered Done_Phase = True" | "entered (Done_In_Load _) = True" | "entered (Done_In_Store _ _) = True" | "entered _ = False"

fun late :: "pfq_pc \<Rightarrow> bool" where
  "late (Done_Out_Load _) = True" | "late (Done_Out_Store _ _) = True" | "late _ = False"

fun announced :: "pfq_pc \<Rightarrow> bool" where
  "announced (Write_Last _) = True" | "announced (Write_Out _) = True" | "announced Write_Spin = True" | "announced p = entered p"

fun warned :: "pfq_pc \<Rightarrow> bool" where
  "warned Write_Spin = True" | "warned p = (entered p \<or> late p)"

fun stored :: "pfq_pc \<Rightarrow> bool" where
  "stored (Write_Out _) = True" | "stored Write_Spin = True" | "stored p = entered p"

fun unbarred :: "pfq_pc \<Rightarrow> bool" where
  "unbarred (Done_Bar _) = True" | "unbarred p = late p"

fun barred :: "pfq_pc \<Rightarrow> bool" where
  "barred Write_In = True" | "barred p = announced p"

fun armed :: "pfq_pc \<Rightarrow> bool" where
  "armed Write_Head = True" | "armed Write_Phase = True" | "armed (Write_Bar _) = True" | "armed Write_In = True" | "armed (Write_Last _) = True"
| "armed (Write_Out _) = True" | "armed _ = False"

fun locals_ok :: "bool \<Rightarrow> nat \<Rightarrow> pfq_pc \<Rightarrow> bool" where
  "locals_ok P n (Write_Bar x) = (x = of_bool P)"
| "locals_ok P n (Write_Last i) = (i = ctr n False P)"
| "locals_ok P n (Write_Out i) = (i = ctr n False P)"
| "locals_ok P n (Done_In_Load x) = (x = of_bool P)"
| "locals_ok P n (Done_In_Store x b) = (x = of_bool P \<and> b = flags True P)"
| "locals_ok P n (Done_Out_Load x) = (x = of_bool (\<not> P))"
| "locals_ok P n (Done_Out_Store x b) = (x = of_bool (\<not> P) \<and> b = flags True (\<not> P))"
| "locals_ok P n (Done_Bar x) = (x = of_bool (\<not> P))"
| "locals_ok P n _ = True"

fun in_lock :: "mcs_pc \<Rightarrow> bool" where
  "in_lock Lock_Init = True" | "in_lock Lock_Swap = True" | "in_lock (Lock_Block _) = True" | "in_lock (Lock_Link _) = True" | "in_lock Lock_Spin = True"
| "in_lock _ = False"

fun in_unlock :: "mcs_pc \<Rightarrow> bool" where
  "in_unlock Unlock_Load = True" | "in_unlock Unlock_Swap = True" | "in_unlock Unlock_Spin = True" | "in_unlock (Unlock_Signal _) = True" | "in_unlock _ = False"

fun pc_ok :: "pfq_pc \<Rightarrow> bool" where
  "pc_ok (Write_Mcs p) = in_lock p" | "pc_ok (Done_Mcs p) = in_unlock p" | "pc_ok Fault = False" | "pc_ok _ = True"

definition writer_pc :: "ptr option \<Rightarrow> (ptr \<Rightarrow> pfq_pc) \<Rightarrow> pfq_pc" where
  "writer_pc w pc = (case w of None \<Rightarrow> Out | Some h \<Rightarrow> pc h)"

definition tokens :: "pfq_rwlock_t \<Rightarrow> (ptr \<Rightarrow> pfq_pc) \<Rightarrow> ptr set" where
  "tokens l pc = {t. pc t = Read_Last (rw_last l) \<or> pc t = Read_Head \<or> (\<exists>p. pc t = Read_Store p)}"

definition queue_ok :: "ptr option \<Rightarrow> pfq_rwlock_t \<Rightarrow> (ptr \<Rightarrow> pfq_pc) \<Rightarrow> bool" where
  "queue_ok w l pc \<longleftrightarrow> (\<exists>q. mcs_inv q (rw_wtail l) (mcs_of \<circ> pc)) \<and> (\<forall>t. held (pc t) \<longleftrightarrow> w = Some t) \<and>
     (\<forall>h. w = Some h \<longrightarrow> (armed (pc h) \<longrightarrow> mn_blocked (ml_nodes (rw_wtail l) h)) \<and> (pc h \<noteq> Write_Block \<longrightarrow> pc h \<noteq> Write_Head \<longrightarrow> rw_whead l = w)) \<and>
     (\<forall>t. pc_ok (pc t))"

definition counters_ok :: "pfq_pc \<Rightarrow> bool \<Rightarrow> pfq_rwlock_t \<Rightarrow> pfq_ghost \<Rightarrow> bool" where
  "counters_ok wp P l g \<longleftrightarrow> rw_r_in l = ctr (g_arrived g) (announced wp) P \<and> rw_r_out l = ctr (g_left g) (warned wp) (P \<noteq> late wp) \<and>
     (\<forall>b. rw_writer_blocking_readers l (of_bool b) = (barred wp \<and> b = P \<or> unbarred wp \<and> b \<noteq> P)) \<and> locals_ok P (g_before g) wp \<and>
     (g_epoch g > 0 \<longrightarrow> bit (rw_last l) 0 = (P = stored wp)) \<and> (stored wp \<or> late wp \<longrightarrow> 0 < g_epoch g \<and> rw_last l = ctr (g_before g + (2 ^ 24 - 1)) True (P \<noteq> late wp))"

definition readers_ok :: "pfq_pc \<Rightarrow> bool \<Rightarrow> (ptr \<Rightarrow> pfq_pc) \<Rightarrow> pfq_ghost \<Rightarrow> bool" where
  "readers_ok wp P pc g \<longleftrightarrow> finite {t. inside (pc t)} \<and> card {t. inside (pc t)} + g_left g = g_arrived g \<and>
     (\<forall>t x. pc t = Read_Spin x \<longrightarrow> x = of_bool (\<not> P) \<or> announced wp \<and> x = of_bool P) \<and>
     (announced wp \<longrightarrow> card {t. inside (pc t) \<and> pc t \<noteq> Read_Spin (of_bool P)} + g_left g = g_before g) \<and>
     (entered wp \<longrightarrow> g_left g = g_before g) \<and> (late wp \<longrightarrow> g_before g \<le> g_left g)"

definition writer_blocked :: "ptr option \<Rightarrow> pfq_rwlock_t \<Rightarrow> bool" where
  "writer_blocked w l = (case w of Some h \<Rightarrow> mn_blocked (ml_nodes (rw_wtail l) h) | None \<Rightarrow> False)"

definition token_ok :: "pfq_pc \<Rightarrow> bool \<Rightarrow> bool \<Rightarrow> ptr set \<Rightarrow> bool" where
  "token_ok wp blocked drained T \<longleftrightarrow>
     (if wp = Write_Spin then if drained then if blocked then \<exists>t. T = {t} else T = {} else T = {} \<and> blocked else T = {})"

definition tickets_ok :: "pfq_rwlock_t \<Rightarrow> (ptr \<Rightarrow> pfq_pc) \<Rightarrow> pfq_ghost \<Rightarrow> bool" where
  "tickets_ok l pc g \<longleftrightarrow> (\<forall>t x. pc t = Read_Last x \<longrightarrow>
     0 < g_seen g t \<and> g_seen g t \<le> g_epoch g \<and> bit x 0 = (bit (rw_last l) 0 = (g_seen g t = g_epoch g)))"

definition signals_ok :: "ptr option \<Rightarrow> pfq_rwlock_t \<Rightarrow> (ptr \<Rightarrow> pfq_pc) \<Rightarrow> pfq_ghost \<Rightarrow> bool" where
  "signals_ok w l pc g \<longleftrightarrow> tickets_ok l pc g \<and> (\<forall>t p. pc t = Read_Store p \<longrightarrow> w = Some p) \<and>
     token_ok (writer_pc w pc) (writer_blocked w l) (g_left g = g_before g) (tokens l pc)"

definition pfq_holds :: "ptr option \<Rightarrow> bool \<Rightarrow> pfq_rwlock_t \<Rightarrow> (ptr \<Rightarrow> pfq_pc) \<Rightarrow> pfq_ghost \<Rightarrow> bool" where
  "pfq_holds w P l pc g \<longleftrightarrow> queue_ok w l pc \<and> counters_ok (writer_pc w pc) P l g \<and> readers_ok (writer_pc w pc) P pc g \<and> signals_ok w l pc g"

section \<open>Steps keep the invariant\<close>

lemma writer_pc_upd [simp]: "writer_pc w (pc(t := p)) = (if w = Some t then p else writer_pc w pc)"
  by (auto simp: writer_pc_def split: option.splits)

lemma writer_pc_Some [simp]: "writer_pc (Some h) pc = pc h" "writer_pc None pc = Out"
  by (simp_all add: writer_pc_def)

lemma coll_upd: "{u. Q ((pc(t := p)) u)} = (if Q p then insert t {u. Q (pc u)} else {u. Q (pc u)} - {t})"
  by auto

lemma coll_same: "Q p = Q (pc t) \<Longrightarrow> {u. Q ((pc(t := p)) u)} = {u. Q (pc u)}"
  by (auto split: if_splits)

lemma tokens_upd:
  "tokens l (pc(t := p)) =
    (if p = Read_Last (rw_last l) \<or> p = Read_Head \<or> (\<exists>q. p = Read_Store q) then insert t (tokens l pc) else tokens l pc - {t})"
  by (auto simp: tokens_def)

lemma tokens_cong: "rw_last l' = rw_last l \<Longrightarrow> tokens l' pc = tokens l pc"
  by (simp add: tokens_def)

lemma held_mcs: "held p \<Longrightarrow> mcs_of p = Critical"
  by (cases p) auto

lemma holder_blocked:
  assumes "mcs_inv q l pc" and "holding (pc h)"
  shows "mcs_inv q (set_blocked h b l) pc"
proof -
  obtain r where q: "q = h # r" using holding_first [OF assms] by blast
  have d: "distinct q" using mcs_invD(1) [OF assms(1)] .
  have "lined (set_blocked h b l) pc q = lined l pc q" by (rule lined_cong) (use d q in auto)
  moreover have "first_ok (set_blocked h b l) pc q" using mcs_invD(4) [OF assms(1)] assms(2) q by (auto simp: first_ok_def)
  ultimately show ?thesis using mcs_invD [OF assms(1)] by (auto simp: mcs_inv_def)
qed

lemma queue_okD:
  assumes "queue_ok w l pc"
  shows "\<exists>q. mcs_inv q (rw_wtail l) (mcs_of \<circ> pc)" "held (pc t) \<longleftrightarrow> w = Some t"
    "w = Some h \<Longrightarrow> armed (pc h) \<Longrightarrow> mn_blocked (ml_nodes (rw_wtail l) h)"
    "w = Some h \<Longrightarrow> pc h \<noteq> Write_Block \<Longrightarrow> pc h \<noteq> Write_Head \<Longrightarrow> rw_whead l = w"
  using assms by (auto simp: queue_ok_def)

lemma queue_frame:
  assumes "queue_ok w l pc" and "rw_wtail l' = rw_wtail l" "rw_whead l' = rw_whead l" and "held p = held (pc t)" "held p \<Longrightarrow> armed p \<Longrightarrow> armed (pc t)"
    and "mcs_of p = mcs_of (pc t)" and "held p \<Longrightarrow> p = Write_Block \<or> p = Write_Head \<or> pc t \<noteq> Write_Block \<and> pc t \<noteq> Write_Head"
    and "pc_ok p"
  shows "queue_ok w l' (pc(t := p))"
proof -
  have "mcs_of \<circ> pc(t := p) = mcs_of \<circ> pc" using assms(6) by auto
  then show ?thesis using assms unfolding queue_ok_def by (auto split: if_splits)
qed

lemma queue_head:
  assumes "queue_ok (Some t) l pc" and "pc t = Write_Head"
  shows "queue_ok (Some t) (l\<lparr> rw_whead := Some t \<rparr>) (pc(t := Write_Phase))"
proof -
  have "mcs_of \<circ> pc(t := Write_Phase) = mcs_of \<circ> pc" using assms(2) by auto
  then show ?thesis using assms unfolding queue_ok_def by (auto split: if_splits)
qed

lemma queue_block:
  assumes "queue_ok (Some t) l pc" and "pc t = Write_Block"
  shows "queue_ok (Some t) (l\<lparr> rw_wtail := set_blocked t True (rw_wtail l) \<rparr>) (pc(t := Write_Head))"
proof -
  have e: "mcs_of \<circ> pc(t := Write_Head) = mcs_of \<circ> pc" using assms(2) by auto
  obtain q where "mcs_inv q (rw_wtail l) (mcs_of \<circ> pc)" using queue_okD(1) [OF assms(1)] by blast
  then have "mcs_inv q (set_blocked t True (rw_wtail l)) (mcs_of \<circ> pc)" by (rule holder_blocked) (simp add: assms(2))
  then show ?thesis using assms e unfolding queue_ok_def by (auto split: if_splits)
qed

lemma queue_store:
  assumes "queue_ok (Some h) l pc" and "pc h = Write_Spin" and "pc t = Read_Store h"
  shows "queue_ok (Some h) (l\<lparr> rw_wtail := set_blocked h False (rw_wtail l) \<rparr>) (pc(t := Out))"
proof -
  have e: "mcs_of \<circ> pc(t := Out) = mcs_of \<circ> pc" using assms(3) by auto
  obtain q where "mcs_inv q (rw_wtail l) (mcs_of \<circ> pc)" using queue_okD(1) [OF assms(1)] by blast
  then have "mcs_inv q (set_blocked h False (rw_wtail l)) (mcs_of \<circ> pc)" by (rule holder_blocked) (simp add: assms(2))
  then show ?thesis using assms e unfolding queue_ok_def by (auto split: if_splits)
qed

lemma mcs_other_blocked:
  assumes "mcs_inv q l pc" and "holding (pc h)" and "mcs_step t (l, pc) (l', pc')" and "t \<noteq> h"
  shows "mn_blocked (ml_nodes l' h) = mn_blocked (ml_nodes l h)"
proof -
  have "\<not> holding (pc t)" using holding_first [OF assms(1,2)] holding_first [OF assms(1), of t] assms(4) by auto
  then show ?thesis using assms(3,4) by (cases "pc t") (auto elim!: mcs_stepE split: if_splits option.splits)
qed

lemma queue_mcs:
  assumes ok: "queue_ok w l pc" and st: "mcs_step t (rw_wtail l, mcs_of \<circ> pc) (ml, (mcs_of \<circ> pc)(t := mcs_of p))"
    and w: "w' = (if held p then Some t else if w = Some t then None else w)" and nh: "held p \<Longrightarrow> p = Write_Block"
    and p: "pc_ok p"
    and l': "rw_wtail l' = ml" "rw_whead l' = rw_whead l"
  shows "queue_ok w' l' (pc(t := p))"
proof -
  obtain q where q: "mcs_inv q (rw_wtail l) (mcs_of \<circ> pc)" using queue_okD(1) [OF ok] by blast
  have e: "mcs_of \<circ> pc(t := p) = (mcs_of \<circ> pc)(t := mcs_of p)" by auto
  obtain q' where q': "mcs_inv q' ml (mcs_of \<circ> pc(t := p))" using mcs_step_inv [OF st q] e by auto
  have one: "h = t" if "held p" "w = Some h" for h
  proof -
    have "holding ((mcs_of \<circ> pc(t := p)) t)" using that(1) by (simp add: held_mcs)
    moreover have "holding ((mcs_of \<circ> pc(t := p)) h)" using queue_okD(2) [OF ok, of h] that by (auto simp: held_mcs)
    ultimately show ?thesis using holding_first [OF q', of t] holding_first [OF q', of h] by auto
  qed
  have held: "held ((pc(t := p)) u) \<longleftrightarrow> w' = Some u" for u
    using queue_okD(2) [OF ok, of u] w one by (cases "u = t"; cases "held p") auto
  have bl: "mn_blocked (ml_nodes ml h) = mn_blocked (ml_nodes (rw_wtail l) h)" if "w = Some h" "h \<noteq> t" for h
    by (rule mcs_other_blocked [OF q _ st]) (use queue_okD(2) [OF ok, of h] that in \<open>auto simp: held_mcs\<close>)
  have wr: "(armed ((pc(t := p)) h) \<longrightarrow> mn_blocked (ml_nodes (rw_wtail l') h)) \<and>
      ((pc(t := p)) h \<noteq> Write_Block \<longrightarrow> (pc(t := p)) h \<noteq> Write_Head \<longrightarrow> rw_whead l' = w')" if "w' = Some h" for h
  proof (cases "held p")
    case True
    then have "h = t" "p = Write_Block" using that w nh by auto
    then show ?thesis by simp
  next
    case False
    then have h: "h \<noteq> t" "w = Some h" "w' = w" using that w by (auto split: if_splits)
    then show ?thesis using queue_okD(3,4) [OF ok h(2)] bl [OF h(2,1)] l' by simp
  qed
  have "\<forall>u. pc_ok ((pc(t := p)) u)" using p ok unfolding queue_ok_def by simp
  with wr held q' l'(1) show ?thesis unfolding queue_ok_def by blast
qed

lemma held_simps: "held p \<Longrightarrow> \<not> inside p \<and> \<not> leaving p" by (cases p) auto

lemma pfq_holdsD:
  assumes "pfq_holds w P l pc g"
  shows "queue_ok w l pc" "counters_ok (writer_pc w pc) P l g" "readers_ok (writer_pc w pc) P pc g" "signals_ok w l pc g"
  using assms by (simp_all add: pfq_holds_def)

lemma signalsD:
  assumes "signals_ok w l pc g"
  shows "tickets_ok l pc g" "pc u = Read_Store p \<Longrightarrow> w = Some p"
    "token_ok (writer_pc w pc) (writer_blocked w l) (g_left g = g_before g) (tokens l pc)" "writer_pc w pc \<noteq> Write_Spin \<Longrightarrow> tokens l pc = {}"
  using assms by (auto simp: signals_ok_def token_ok_def)

lemma tickets_upd:
  assumes "tickets_ok l pc g" and "\<not> leaving p" and "rw_last l' = rw_last l" "g_epoch g' = g_epoch g" "\<And>u. u \<noteq> t \<Longrightarrow> g_seen g' u = g_seen g u"
  shows "tickets_ok l' (pc(t := p)) g'"
  unfolding tickets_ok_def
proof (intro allI impI)
  fix u x
  assume "(pc(t := p)) u = Read_Last x"
  then have u: "u \<noteq> t" "pc u = Read_Last x" using assms(2) by (auto split: if_splits)
  then have "0 < g_seen g u \<and> g_seen g u \<le> g_epoch g \<and> bit x 0 = (bit (rw_last l) 0 = (g_seen g u = g_epoch g))"
    using assms(1) unfolding tickets_ok_def by blast
  then show "0 < g_seen g' u \<and> g_seen g' u \<le> g_epoch g' \<and> bit x 0 = (bit (rw_last l') 0 = (g_seen g' u = g_epoch g'))"
    using assms(3-5) u(1) by simp
qed

lemma signals_calm:
  assumes "tickets_ok l pc g" and "tokens l pc = {}" and "writer_pc w pc \<noteq> Write_Spin"
  shows "signals_ok w l pc g"
proof -
  have "pc u \<noteq> Read_Store p" for u p using assms(2) unfolding tokens_def by blast
  then show ?thesis using assms by (simp add: signals_ok_def token_ok_def)
qed

lemma signals_writer:
  assumes "signals_ok (Some t) l pc g" and "\<not> leaving p" "pc t \<noteq> Write_Spin" "p \<noteq> Write_Spin" and "rw_last l' = rw_last l"
    and "g_seen g' = g_seen g" "g_epoch g' = g_epoch g" and "w = Some t \<or> w = None"
  shows "signals_ok w l' (pc(t := p)) g'"
proof (rule signals_calm)
  show "tickets_ok l' (pc(t := p)) g'" by (rule tickets_upd [OF signalsD(1) [OF assms(1)]]) (use assms in auto)
  have "tokens l pc = {}" using signalsD(4) [OF assms(1)] assms(3) by simp
  moreover have "tokens l' (pc(t := p)) = tokens l pc - {t}" using assms(2) tokens_cong [OF assms(5)] by (auto simp: tokens_upd)
  ultimately show "tokens l' (pc(t := p)) = {}" by simp
  show "writer_pc w (pc(t := p)) \<noteq> Write_Spin" using assms(4,8) by auto
qed

lemma readers_frame:
  assumes "readers_ok wp P pc g" and "inside p = inside (pc t)" "\<And>x. p = Read_Spin x \<longleftrightarrow> pc t = Read_Spin x"
    and "announced wp' = announced wp" "entered wp' \<Longrightarrow> g_left g = g_before g" "late wp' \<Longrightarrow> late wp"
  shows "readers_ok wp' P (pc(t := p)) g"
proof -
  have "{u. inside ((pc(t := p)) u)} = {u. inside (pc u)}" by (rule coll_same) (simp add: assms(2))
  moreover have "{u. inside ((pc(t := p)) u) \<and> (pc(t := p)) u \<noteq> Read_Spin (of_bool P)} = {u. inside (pc u) \<and> pc u \<noteq> Read_Spin (of_bool P)}"
    by (rule coll_same) (simp add: assms(2,3))
  ultimately show ?thesis using assms(1,3-6) unfolding readers_ok_def by auto
qed

lemma writer_move:
  assumes h: "pfq_holds (Some t) P l pc g" and "held p" "pc t \<noteq> Write_Spin" "p \<noteq> Write_Spin" and "rw_last l' = rw_last l"
    and "announced p = announced (pc t)" "entered p = entered (pc t)" "late p \<Longrightarrow> late (pc t)"
    and "queue_ok (Some t) l' (pc(t := p))" "counters_ok p P l' g"
  shows "pfq_holds (Some t) P l' (pc(t := p)) g"
proof -
  have q: "queue_ok (Some t) l pc" and r: "readers_ok (pc t) P pc g" and s: "signals_ok (Some t) l pc g"
    using h by (simp_all add: pfq_holds_def)
  have "held (pc t)" using queue_okD(2) [OF q, of t] by simp
  moreover have "entered (pc t) \<Longrightarrow> g_left g = g_before g" using r by (simp add: readers_ok_def)
  moreover have "\<And>x. p = Read_Spin x \<longleftrightarrow> pc t = Read_Spin x" using \<open>held p\<close> calculation by auto
  ultimately show ?thesis using assms held_simps
    by (auto simp: pfq_holds_def intro!: signals_writer [OF s] readers_frame [OF r])
qed

fun quiet :: "pfq_pc \<Rightarrow> bool" where
  "quiet Write_Block = True" | "quiet Write_Head = True" | "quiet Write_Phase = True" | "quiet (Write_Bar _) = True" | "quiet Done_Phase = True"
| "quiet (Done_In_Load _) = True" | "quiet (Done_Out_Load _) = True" | "quiet (Done_Out_Store _ _) = True" | "quiet _ = False"

lemma writer_quiet:
  assumes h: "pfq_holds (Some t) P l pc g" and p: "quiet (pc t)"
  shows "pfq_holds (Some t) P (snd (pfq_access t (pc t) l)) (pc(t := fst (pfq_access t (pc t) l))) g"
proof -
  let ?p = "fst (pfq_access t (pc t) l)" and ?l = "snd (pfq_access t (pc t) l)"
  have q: "queue_ok (Some t) l pc" and c: "counters_ok (pc t) P l g" using h by (simp_all add: pfq_holds_def)
  have "queue_ok (Some t) ?l (pc(t := ?p))"
    using p by (cases rule: quiet.elims(2)) (auto intro!: queue_block [OF q] queue_head [OF q] queue_frame [OF q])
  moreover have "counters_ok ?p P ?l g"
    using p by (cases rule: quiet.elims(2)) (use c in \<open>simp_all add: counters_ok_def ctr_simps\<close>)
  ultimately have qc: "queue_ok (Some t) ?l (pc(t := ?p))" "counters_ok ?p P ?l g" by blast+
  from p show ?thesis by (cases rule: quiet.elims(2)) (use qc in \<open>auto intro!: writer_move [OF h]\<close>)
qed

lemma take_bit_near: "m \<le> n \<Longrightarrow> n < m + 2 ^ 24 \<Longrightarrow> take_bit 24 n = take_bit 24 m \<longleftrightarrow> n = (m :: nat)"
  by (auto simp: take_bit_eq_mod mod_eq_dvd_iff_nat dest!: dvd_imp_le)

lemma early_subset:
  assumes "readers_ok wp P pc g"
  shows "card {t. inside (pc t) \<and> pc t \<noteq> Read_Spin (of_bool P)} \<le> card {t. inside (pc t)}"
  using assms by (intro card_mono) (auto simp: readers_ok_def)

lemma moves_Write_In:
  assumes h: "pfq_holds (Some t) P l pc g" and p: "pc t = Write_In"
  shows "pfq_holds (Some t) P (l\<lparr> rw_r_in := rw_r_in l OR WRITER_PRESENT \<rparr>) (pc(t := Write_Last (rw_r_in l))) (g\<lparr> g_before := g_arrived g \<rparr>)"
proof -
  have q: "queue_ok (Some t) l pc" and c: "counters_ok (pc t) P l g" and r: "readers_ok (pc t) P pc g" and s: "signals_ok (Some t) l pc g"
    using h by (simp_all add: pfq_holds_def)
  let ?l = "l\<lparr> rw_r_in := rw_r_in l OR WRITER_PRESENT \<rparr>" and ?p = "Write_Last (rw_r_in l)" and ?g = "g\<lparr> g_before := g_arrived g \<rparr>"
  have "queue_ok (Some t) ?l (pc(t := ?p))" by (rule queue_frame [OF q]) (simp_all add: p)
  moreover have "counters_ok ?p P ?l ?g" using c by (simp add: p counters_ok_def ctr_simps)
  moreover have "readers_ok ?p P (pc(t := ?p)) ?g"
  proof -
    have "pc u \<noteq> Read_Spin (of_bool P)" for u using r p unfolding readers_ok_def by (cases P) force+
    then have "{u. inside ((pc(t := ?p)) u) \<and> (pc(t := ?p)) u \<noteq> Read_Spin (of_bool P)} = {u. inside (pc u)}" using p by auto
    moreover have "{u. inside ((pc(t := ?p)) u)} = {u. inside (pc u)}" by (rule coll_same) (simp add: p)
    ultimately show ?thesis using r p by (auto simp: readers_ok_def)
  qed
  moreover have "signals_ok (Some t) ?l (pc(t := ?p)) ?g" by (rule signals_writer [OF s]) (simp_all add: p)
  ultimately show ?thesis by (simp add: pfq_holds_def)
qed

lemma moves_Write_Last:
  assumes h: "pfq_holds (Some t) P l pc g" and p: "pc t = Write_Last i"
    and lag: "\<And>u. leaving (pc u) \<Longrightarrow> g_epoch g \<le> g_seen g u"
  shows "pfq_holds (Some t) P (l\<lparr> rw_last := i - READER_INCREMENT + WRITER_PRESENT \<rparr>) (pc(t := Write_Out i)) (g\<lparr> g_epoch := Suc (g_epoch g) \<rparr>)"
proof -
  have q: "queue_ok (Some t) l pc" and c: "counters_ok (pc t) P l g" and r: "readers_ok (pc t) P pc g" and s: "signals_ok (Some t) l pc g"
    using h by (simp_all add: pfq_holds_def)
  let ?l = "l\<lparr> rw_last := i - READER_INCREMENT + WRITER_PRESENT \<rparr>" and ?p = "Write_Out i" and ?g = "g\<lparr> g_epoch := Suc (g_epoch g) \<rparr>"
  have last: "rw_last ?l = ctr (g_before g + (2 ^ 24 - 1)) True P" using c by (simp add: p counters_ok_def ctr_simps)
  have "queue_ok (Some t) ?l (pc(t := ?p))" by (rule queue_frame [OF q]) (simp_all add: p)
  moreover have "counters_ok ?p P ?l ?g" using c last by (simp add: p counters_ok_def ctr_simps)
  moreover have "readers_ok ?p P (pc(t := ?p)) ?g" using readers_frame [OF r, of ?p t ?p] by (simp add: p readers_ok_def)
  moreover have "signals_ok (Some t) ?l (pc(t := ?p)) ?g"
  proof -
    have old: "g_seen g u = g_epoch g \<and> 0 < g_epoch g \<and> bit x 0 = (\<not> P)" if u: "pc u = Read_Last x" for u x
    proof -
      have "0 < g_seen g u \<and> g_seen g u \<le> g_epoch g \<and> bit x 0 = (bit (rw_last l) 0 = (g_seen g u = g_epoch g))"
        using signalsD(1) [OF s] u unfolding tickets_ok_def by blast
      moreover have "g_epoch g \<le> g_seen g u" using lag u by simp
      moreover have "0 < g_epoch g \<Longrightarrow> bit (rw_last l) 0 = (\<not> P)" using c by (simp add: p counters_ok_def)
      ultimately show ?thesis by simp
    qed
    have "tokens l pc = {}" using signalsD(4) [OF s] by (simp add: p)
    moreover have "pc u \<noteq> Read_Last (ctr (g_before g + (2 ^ 24 - 1)) True P)" for u
      using old [of u "ctr (g_before g + (2 ^ 24 - 1)) True P"] by (simp add: ctr_tests(4)) blast
    ultimately have tok: "tokens ?l (pc(t := ?p)) = {}" unfolding tokens_def last by auto
    have "bit (rw_last ?l) 0 = P" unfolding last by (rule ctr_tests(4))
    then have "0 < g_seen ?g u \<and> g_seen ?g u \<le> g_epoch ?g \<and> bit x 0 = (bit (rw_last ?l) 0 = (g_seen ?g u = g_epoch ?g))"
      if "(pc(t := ?p)) u = Read_Last x" for u x using old [of u x] that by (simp split: if_splits)
    then have "tickets_ok ?l (pc(t := ?p)) ?g" unfolding tickets_ok_def by blast
    then show ?thesis using tok by (rule signals_calm) simp
  qed
  ultimately show ?thesis by (simp add: pfq_holds_def)
qed

lemma moves_Write_Out:
  assumes h: "pfq_holds (Some t) P l pc g" and p: "pc t = Write_Out i" and few: "g_arrived g < g_left g + 2 ^ 24"
  shows "pfq_holds (Some t) P (l\<lparr> rw_r_out := rw_r_out l OR WRITER_PRESENT \<rparr>) (pc(t := if i \<noteq> rw_r_out l then Write_Spin else Writing)) g"
proof -
  have q: "queue_ok (Some t) l pc" and c: "counters_ok (pc t) P l g" and r: "readers_ok (pc t) P pc g" and s: "signals_ok (Some t) l pc g"
    using h by (simp_all add: pfq_holds_def)
  let ?l = "l\<lparr> rw_r_out := rw_r_out l OR WRITER_PRESENT \<rparr>" and ?p = "if i \<noteq> rw_r_out l then Write_Spin else Writing"
  have "g_left g \<le> g_before g" "g_before g < g_left g + 2 ^ 24"
    using r early_subset [OF r] few by (simp_all add: p readers_ok_def)
  moreover have "i = rw_r_out l \<longleftrightarrow> take_bit 24 (g_before g) = take_bit 24 (g_left g)" using c by (simp add: p counters_ok_def ctr_eq)
  ultimately have out: "i = rw_r_out l \<longleftrightarrow> g_before g = g_left g" by (simp add: take_bit_near)
  have "queue_ok (Some t) ?l (pc(t := ?p))" by (rule queue_frame [OF q]) (simp_all add: p)
  moreover have "counters_ok ?p P ?l g" using c by (simp add: p counters_ok_def ctr_simps)
  moreover have "readers_ok ?p P (pc(t := ?p)) g" by (rule readers_frame [OF r]) (use out in \<open>auto simp: p split: if_splits\<close>)
  moreover have "signals_ok (Some t) ?l (pc(t := ?p)) g"
  proof -
    have "tokens ?l (pc(t := ?p)) = tokens l pc - {t}" by (simp add: tokens_upd tokens_cong [of ?l l])
    moreover have "tokens l pc = {}" using signalsD(4) [OF s] by (simp add: p)
    ultimately have "tokens ?l (pc(t := ?p)) = {}" by simp
    moreover have "writer_blocked (Some t) ?l" using queue_okD(3) [OF q] by (simp add: p writer_blocked_def)
    ultimately have "token_ok ?p (writer_blocked (Some t) ?l) (g_left g = g_before g) (tokens ?l (pc(t := ?p)))" using out by (auto simp: token_ok_def)
    moreover have "tickets_ok ?l (pc(t := ?p)) g" by (rule tickets_upd [OF signalsD(1) [OF s]]) auto
    moreover have "(pc(t := ?p)) u \<noteq> Read_Store y" for u y using \<open>tokens ?l (pc(t := ?p)) = {}\<close> unfolding tokens_def by blast
    ultimately show ?thesis by (simp add: signals_ok_def)
  qed
  ultimately show ?thesis by (simp only: pfq_holds_def writer_pc_upd if_True simp_thms)
qed

lemma moves_Write_Spin:
  assumes h: "pfq_holds (Some t) P l pc g" and p: "pc t = Write_Spin" and b: "\<not> mn_blocked (ml_nodes (rw_wtail l) t)"
  shows "pfq_holds (Some t) P l (pc(t := Writing)) g"
proof -
  have q: "queue_ok (Some t) l pc" and c: "counters_ok (pc t) P l g" and r: "readers_ok (pc t) P pc g" and s: "signals_ok (Some t) l pc g"
    using h by (simp_all add: pfq_holds_def)
  have ended: "g_left g = g_before g" "tokens l pc = {}" using signalsD(3) [OF s] b by (auto simp: p token_ok_def writer_blocked_def split: if_splits)
  have "queue_ok (Some t) l (pc(t := Writing))" by (rule queue_frame [OF q]) (simp_all add: p)
  moreover have "counters_ok Writing P l g" using c by (simp add: p counters_ok_def ctr_simps)
  moreover have "readers_ok Writing P (pc(t := Writing)) g" by (rule readers_frame [OF r]) (simp_all add: p ended(1))
  moreover have "signals_ok (Some t) l (pc(t := Writing)) g"
    by (rule signals_calm) (use tickets_upd [OF signalsD(1) [OF s], of Writing l g t] ended(2) in \<open>auto simp: tokens_upd\<close>)
  ultimately show ?thesis by (simp add: pfq_holds_def)
qed

lemma moves_Done_In_Store:
  assumes h: "pfq_holds (Some t) P l pc g" and p: "pc t = Done_In_Store x b"
  shows "pfq_holds (Some t) (\<not> P) (l\<lparr> rw_r_in := store_lsb (rw_r_in l) (b XOR ucast WRITER_MASK) \<rparr>) (pc(t := Done_Out_Load x)) g"
proof -
  have q: "queue_ok (Some t) l pc" and c: "counters_ok (pc t) P l g" and r: "readers_ok (pc t) P pc g" and s: "signals_ok (Some t) l pc g"
    using h by (simp_all add: pfq_holds_def)
  let ?l = "l\<lparr> rw_r_in := store_lsb (rw_r_in l) (b XOR ucast WRITER_MASK) \<rparr>" and ?p = "Done_Out_Load x"
  have "queue_ok (Some t) ?l (pc(t := ?p))" by (rule queue_frame [OF q]) (simp_all add: p)
  moreover have "counters_ok ?p (\<not> P) ?l g" using c by (auto simp: p counters_ok_def ctr_simps)
  moreover have "readers_ok ?p (\<not> P) (pc(t := ?p)) g"
  proof -
    have "announced (pc t)" "entered (pc t)" by (simp_all add: p)
    then have "card {u. inside (pc u) \<and> pc u \<noteq> Read_Spin (of_bool P)} + g_left g = g_before g" "g_left g = g_before g"
      using r unfolding readers_ok_def by blast+
    then have "card {u. inside (pc u) \<and> pc u \<noteq> Read_Spin (of_bool P)} = 0" by linarith
    moreover have "finite {u. inside (pc u) \<and> pc u \<noteq> Read_Spin (of_bool P)}"
      by (rule finite_subset [of _ "{u. inside (pc u)}"]) (use r in \<open>auto simp: readers_ok_def\<close>)
    ultimately have "{u. inside (pc u) \<and> pc u \<noteq> Read_Spin (of_bool P)} = {}" by (simp only: card_0_eq)
    then have none: "\<not> (inside (pc u) \<and> pc u \<noteq> Read_Spin (of_bool P))" for u by blast
    have "y = of_bool P" if "(pc(t := ?p)) u = Read_Spin y" for u y
      using none [of u] that by (auto split: if_splits)
    moreover have "{u. inside ((pc(t := ?p)) u)} = {u. inside (pc u)}" by (rule coll_same) (simp add: p)
    ultimately show ?thesis using r by (simp add: p readers_ok_def)
  qed
  moreover have "signals_ok (Some t) ?l (pc(t := ?p)) g" by (rule signals_writer [OF s]) (simp_all add: p)
  ultimately show ?thesis by (simp add: pfq_holds_def)
qed

lemma moves_Done_Bar:
  assumes h: "pfq_holds (Some t) P l pc g" and p: "pc t = Done_Bar x"
  shows "pfq_holds None P (l\<lparr> rw_writer_blocking_readers := (rw_writer_blocking_readers l)(x := False) \<rparr>) (pc(t := Done_Mcs Unlock_Load)) g"
proof -
  have q: "queue_ok (Some t) l pc" and c: "counters_ok (pc t) P l g" and r: "readers_ok (pc t) P pc g" and s: "signals_ok (Some t) l pc g"
    using h by (simp_all add: pfq_holds_def)
  let ?l = "l\<lparr> rw_writer_blocking_readers := (rw_writer_blocking_readers l)(x := False) \<rparr>" and ?p = "Done_Mcs Unlock_Load"
  have "mcs_step t (rw_wtail l, mcs_of \<circ> pc) (rw_wtail l, (mcs_of \<circ> pc)(t := mcs_of ?p))"
    using mcs_step.call_unlock [of "mcs_of \<circ> pc" t "rw_wtail l"] by (simp add: p)
  then have "queue_ok None ?l (pc(t := ?p))" by (rule queue_mcs [OF q]) simp_all
  moreover have "counters_ok Out P ?l g" using c by (auto simp: p counters_ok_def ctr_simps)
  moreover have "readers_ok Out P (pc(t := ?p)) g" by (rule readers_frame [OF r]) (simp_all add: p)
  moreover have "signals_ok None ?l (pc(t := ?p)) g" by (rule signals_writer [OF s]) (simp_all add: p)
  ultimately show ?thesis by (simp add: pfq_holds_def)
qed

lemma signals_reader:
  assumes s: "signals_ok w l pc g" and "w \<noteq> Some t" and "\<not> leaving (pc t)" "\<not> leaving p" and "rw_last l' = rw_last l"
    and "\<And>h. w = Some h \<Longrightarrow> mn_blocked (ml_nodes (rw_wtail l') h) = mn_blocked (ml_nodes (rw_wtail l) h)"
    and "g_seen g' = g_seen g" "g_epoch g' = g_epoch g" "g_left g' = g_left g" "g_before g' = g_before g"
  shows "signals_ok w l' (pc(t := p)) g'"
proof -
  have "t \<notin> tokens l pc" using assms(3) by (auto simp: tokens_def)
  moreover have "tokens l' (pc(t := p)) = tokens l pc - {t}"
    using assms(4) tokens_cong [OF assms(5)] by (auto simp: tokens_upd)
  ultimately have "tokens l' (pc(t := p)) = tokens l pc" by simp
  moreover have "tickets_ok l' (pc(t := p)) g'" by (rule tickets_upd [OF signalsD(1) [OF s]]) (use assms in auto)
  moreover have "writer_blocked w l' = writer_blocked w l" using assms(6) by (simp add: writer_blocked_def split: option.split)
  moreover have "w = Some y" if "(pc(t := p)) u = Read_Store y" for u y
    using signalsD(2) [OF s, of u y] that assms(4) by (auto split: if_splits)
  ultimately show ?thesis using signalsD(3) [OF s] assms(2,9,10) by (simp add: signals_ok_def)
qed

lemma reader_calls:
  assumes h: "pfq_holds w P l pc g" and p: "pc t = Out \<and> p = Read_Arrive \<or> pc t = Reading \<and> p = Read_Leave"
  shows "pfq_holds w P l (pc(t := p)) g"
proof -
  have q: "queue_ok w l pc" and c: "counters_ok (writer_pc w pc) P l g" and r: "readers_ok (writer_pc w pc) P pc g" and s: "signals_ok w l pc g"
    using h by (simp_all add: pfq_holds_def)
  have w: "w \<noteq> Some t" using queue_okD(2) [OF q, of t] p by auto
  have "queue_ok w l (pc(t := p))" by (rule queue_frame [OF q]) (use p in auto)
  moreover have "readers_ok (writer_pc w pc) P (pc(t := p)) g" by (rule readers_frame [OF r]) (use p r in \<open>auto simp: readers_ok_def\<close>)
  moreover have "signals_ok w l (pc(t := p)) g" by (rule signals_reader [OF s w]) (use p in auto)
  ultimately show ?thesis using c w by (simp add: pfq_holds_def)
qed

lemma mcs_moves:
  assumes h: "pfq_holds w P l pc g" and p: "\<not> held (pc t)" "\<not> inside (pc t)" "\<not> leaving (pc t)" "\<not> inside p" "\<not> leaving p"
    and st: "mcs_step t (rw_wtail l, mcs_of \<circ> pc) (ml, (mcs_of \<circ> pc)(t := mcs_of p))" and wb: "held p \<Longrightarrow> p = Write_Block" and ok: "pc_ok p"
  shows "\<exists>w'. pfq_holds w' P (l\<lparr> rw_wtail := ml \<rparr>) (pc(t := p)) g"
proof -
  have q: "queue_ok w l pc" and c: "counters_ok (writer_pc w pc) P l g" and r: "readers_ok (writer_pc w pc) P pc g" and s: "signals_ok w l pc g"
    using h by (simp_all add: pfq_holds_def)
  let ?l = "l\<lparr> rw_wtail := ml \<rparr>"
  have w: "w \<noteq> Some t" using queue_okD(2) [OF q, of t] p by auto
  define w' where "w' = (if held p then Some t else w)"
  have q': "queue_ok w' ?l (pc(t := p))" by (rule queue_mcs [OF q st]) (use w wb ok in \<open>auto simp: w'_def\<close>)
  have new: "w = None" if "held p"
  proof (rule ccontr)
    assume "w \<noteq> None"
    then obtain v where "w = Some v" "v \<noteq> t" using w by auto
    then show False using queue_okD(2) [OF q, of v] queue_okD(2) [OF q', of v] that by (simp add: w'_def)
  qed
  have wp: "writer_pc w' (pc(t := p)) = (if held p then Write_Block else writer_pc w pc)" using w wb by (auto simp: w'_def)
  have "counters_ok (writer_pc w' (pc(t := p))) P ?l g" unfolding wp using c new by (auto simp: counters_ok_def)
  moreover have "readers_ok (if held p then Write_Block else writer_pc w pc) P (pc(t := p)) g"
  proof (rule readers_frame [OF r])
    show "inside p = inside (pc t)" using p by simp
    show "p = Read_Spin x \<longleftrightarrow> pc t = Read_Spin x" for x using p by auto
    show "announced (if held p then Write_Block else writer_pc w pc) = announced (writer_pc w pc)" using new by simp
    show "entered (if held p then Write_Block else writer_pc w pc) \<Longrightarrow> g_left g = g_before g" using r by (simp add: readers_ok_def split: if_splits)
    show "late (if held p then Write_Block else writer_pc w pc) \<Longrightarrow> late (writer_pc w pc)" by (simp split: if_splits)
  qed
  moreover have "signals_ok w' ?l (pc(t := p)) g"
  proof -
    obtain qu where qu: "mcs_inv qu (rw_wtail l) (mcs_of \<circ> pc)" using queue_okD(1) [OF q] by blast
    have "mn_blocked (ml_nodes ml v) = mn_blocked (ml_nodes (rw_wtail l) v)" if "w = Some v" for v
      by (rule mcs_other_blocked [OF qu _ st]) (use queue_okD(2) [OF q, of v] that w in \<open>auto simp: held_mcs\<close>)
    then have s': "signals_ok w ?l (pc(t := p)) g" by (intro signals_reader [OF s w]) (use p in auto)
    show ?thesis
    proof (cases "held p")
      case True
      then have "tokens ?l (pc(t := p)) = {}" using signalsD(4) [OF s'] new by simp
      with signalsD(1) [OF s'] show ?thesis by (rule signals_calm) (simp add: w'_def True wb)
    qed (use s' in \<open>simp add: w'_def\<close>)
  qed
  ultimately have "pfq_holds w' P ?l (pc(t := p)) g" using q' unfolding pfq_holds_def wp by simp
  then show ?thesis ..
qed

lemma moves_Read_Arrive:
  assumes h: "pfq_holds w P l pc g" and p: "pc t = Read_Arrive"
  shows "pfq_holds w P (l\<lparr> rw_r_in := rw_r_in l + READER_INCREMENT \<rparr>)
    (pc(t := if rw_r_in l AND WRITER_PRESENT \<noteq> 0 then Read_Spin (rw_r_in l AND PHASE_BIT) else Reading)) (g\<lparr> g_arrived := Suc (g_arrived g) \<rparr>)"
proof -
  note q = pfq_holdsD(1) [OF h] and c = pfq_holdsD(2) [OF h] and r = pfq_holdsD(3) [OF h] and s = pfq_holdsD(4) [OF h]
  let ?l = "l\<lparr> rw_r_in := rw_r_in l + READER_INCREMENT \<rparr>" and ?g = "g\<lparr> g_arrived := Suc (g_arrived g) \<rparr>"
  define p' where "p' = (if announced (writer_pc w pc) then Read_Spin (of_bool P) else Reading)"
  have "rw_r_in l = ctr (g_arrived g) (announced (writer_pc w pc)) P" using c by (simp add: counters_ok_def)
  then have p'_eq: "(if rw_r_in l AND WRITER_PRESENT \<noteq> 0 then Read_Spin (rw_r_in l AND PHASE_BIT) else Reading) = p'" by (simp add: p'_def ctr_tests)
  have pp: "inside p'" "\<not> leaving p'" "\<not> held p'" "mcs_of p' = Idle" "pc_ok p'" by (simp_all add: p'_def)
  have w: "w \<noteq> Some t" using queue_okD(2) [OF q, of t] p by auto
  have "queue_ok w ?l (pc(t := p'))" by (rule queue_frame [OF q]) (simp_all add: p pp)
  moreover have "counters_ok (writer_pc w pc) P ?l ?g" using c by (simp add: counters_ok_def ctr_arrive)
  moreover have "readers_ok (writer_pc w pc) P (pc(t := p')) ?g"
  proof -
    have "{u. inside ((pc(t := p')) u)} = insert t {u. inside (pc u)}" by (subst coll_upd) (simp add: pp)
    moreover have "card (insert t {u. inside (pc u)}) = Suc (card {u. inside (pc u)})" using r p by (simp add: readers_ok_def)
    moreover have "announced (writer_pc w pc) \<Longrightarrow>
        {u. inside ((pc(t := p')) u) \<and> (pc(t := p')) u \<noteq> Read_Spin (of_bool P)} = {u. inside (pc u) \<and> pc u \<noteq> Read_Spin (of_bool P)}"
      by (rule coll_same) (simp add: p'_def p)
    moreover have "x = of_bool (\<not> P) \<or> announced (writer_pc w pc) \<and> x = of_bool P" if "(pc(t := p')) u = Read_Spin x" for u x
      using that r unfolding readers_ok_def p'_def by (cases "u = t") (auto split: if_splits)
    ultimately show ?thesis using r unfolding readers_ok_def by simp
  qed
  moreover have "signals_ok w ?l (pc(t := p')) ?g" by (rule signals_reader [OF s w]) (simp_all add: p pp)
  ultimately show ?thesis using w unfolding p'_eq by (simp add: pfq_holds_def)
qed

lemma moves_Read_Spin:
  assumes h: "pfq_holds w P l pc g" and p: "pc t = Read_Spin x" and b: "\<not> rw_writer_blocking_readers l x"
  shows "pfq_holds w P l (pc(t := Reading)) g"
proof -
  note q = pfq_holdsD(1) [OF h] and c = pfq_holdsD(2) [OF h] and r = pfq_holdsD(3) [OF h] and s = pfq_holdsD(4) [OF h]
  have w: "w \<noteq> Some t" using queue_okD(2) [OF q, of t] p by auto
  have an: "announced wp \<Longrightarrow> barred wp" for wp by (cases wp) auto
  have x: "x = of_bool (\<not> P)"
  proof (rule ccontr)
    assume "x \<noteq> of_bool (\<not> P)"
    then have "announced (writer_pc w pc)" "x = of_bool P" using r p unfolding readers_ok_def by blast+
    then show False using b c an unfolding counters_ok_def by blast
  qed
  have "queue_ok w l (pc(t := Reading))" by (rule queue_frame [OF q]) (simp_all add: p)
  moreover have "readers_ok (writer_pc w pc) P (pc(t := Reading)) g"
  proof -
    have "{u. inside ((pc(t := Reading)) u)} = {u. inside (pc u)}" by (rule coll_same) (simp add: p)
    moreover have "{u. inside ((pc(t := Reading)) u) \<and> (pc(t := Reading)) u \<noteq> Read_Spin (of_bool P)} = {u. inside (pc u) \<and> pc u \<noteq> Read_Spin (of_bool P)}"
      by (rule coll_same) (simp add: p x)
    ultimately show ?thesis using r unfolding readers_ok_def by auto
  qed
  moreover have "signals_ok w l (pc(t := Reading)) g" by (rule signals_reader [OF s w]) (simp_all add: p)
  ultimately show ?thesis using c w by (simp add: pfq_holds_def)
qed

lemma leaves_readers:
  assumes r: "readers_ok wp P pc g" and p: "pc t = Read_Leave" and p': "p' = Out \<or> p' = Read_Last y"
  shows "readers_ok wp P (pc(t := p')) (g\<lparr> g_left := Suc (g_left g), g_seen := f \<rparr>)" "\<not> entered wp" "announced wp \<Longrightarrow> g_left g < g_before g"
    "g_left g < g_arrived g"
proof -
  let ?A = "{u. inside (pc u)}" and ?E = "{u. inside (pc u) \<and> pc u \<noteq> Read_Spin (of_bool P)}"
  have fin: "finite ?A" using r by (simp add: readers_ok_def)
  then have finE: "finite ?E" by (rule finite_subset [rotated]) auto
  have A: "card ?A = Suc (card (?A - {t}))" by (rule card.remove [OF fin]) (simp add: p)
  have E: "card ?E = Suc (card (?E - {t}))" by (rule card.remove [OF finE]) (simp add: p)
  have cE: "announced wp \<Longrightarrow> card ?E + g_left g = g_before g" and cA: "card ?A + g_left g = g_arrived g" and en: "entered wp \<Longrightarrow> g_left g = g_before g"
    using r unfolding readers_ok_def by blast+
  then show lt: "announced wp \<Longrightarrow> g_left g < g_before g" "g_left g < g_arrived g" using E A by linarith+
  have "entered wp \<Longrightarrow> announced wp" by (cases wp) auto
  then show ne: "\<not> entered wp" using lt(1) en by fastforce
  have np: "\<not> inside p'" "\<And>x. p' \<noteq> Read_Spin x" using p' by auto
  have sA: "{u. inside ((pc(t := p')) u)} = ?A - {t}" by (subst coll_upd) (simp add: np)
  have sE: "{u. inside ((pc(t := p')) u) \<and> (pc(t := p')) u \<noteq> Read_Spin (of_bool P)} = ?E - {t}" using np by auto
  show "readers_ok wp P (pc(t := p')) (g\<lparr> g_left := Suc (g_left g), g_seen := f \<rparr>)"
    unfolding readers_ok_def sA sE
  proof (intro conjI allI impI)
    fix u x
    assume "(pc(t := p')) u = Read_Spin x"
    then have "pc u = Read_Spin x" using np by (auto split: if_splits)
    then show "x = of_bool (\<not> P) \<or> announced wp \<and> x = of_bool P" using r unfolding readers_ok_def by blast
  next
    assume "late wp"
    then show "g_before (g\<lparr> g_left := Suc (g_left g), g_seen := f \<rparr>) \<le> g_left (g\<lparr> g_left := Suc (g_left g), g_seen := f \<rparr>)" using r by (simp add: readers_ok_def)
  qed (use fin A E cE cA ne in auto)
qed

lemma last_ticket:
  assumes "readers_ok wp P pc g" and "\<not> entered wp" "announced wp \<Longrightarrow> g_left g < g_before g" "g_left g < g_arrived g"
    and "g_arrived g < Suc (g_left g) + 2 ^ 24" "g_arrived g < g_before g + 2 ^ 24" and "warned wp"
  shows "take_bit 24 (g_left g) = take_bit 24 (g_before g + (2 ^ 24 - 1)) \<longleftrightarrow> wp = Write_Spin \<and> Suc (g_left g) = g_before g"
proof (cases "wp = Write_Spin")
  case True
  have "card {t. inside (pc t) \<and> pc t \<noteq> Read_Spin (of_bool P)} + g_left g = g_before g" "card {t. inside (pc t)} + g_left g = g_arrived g"
    using assms(1) by (simp_all add: True readers_ok_def)
  then have "g_before g \<le> g_arrived g" using early_subset [OF assms(1)] by linarith
  moreover have "g_left g < g_before g" using assms(3) True by simp
  ultimately have "take_bit 24 (g_before g + (2 ^ 24 - 1)) = take_bit 24 (g_left g + 2 ^ 24) \<longleftrightarrow> g_before g + (2 ^ 24 - 1) = g_left g + 2 ^ 24"
    using assms(5) by (intro take_bit_near) linarith+
  moreover have "take_bit 24 (g_left g + 2 ^ 24) = take_bit 24 (g_left g)" by (simp add: take_bit_eq_mod)
  moreover have "g_before g + (2 ^ 24 - 1) = g_left g + 2 ^ 24 \<longleftrightarrow> Suc (g_left g) = g_before g" by auto
  ultimately show ?thesis using True by metis
next
  case False
  then have "late wp" using assms(2,7) by (cases wp) auto
  then have "g_before g \<le> g_left g" using assms(1) by (simp add: readers_ok_def)
  then have "take_bit 24 (g_before g + (2 ^ 24 - 1)) = take_bit 24 (g_left g) \<longleftrightarrow> g_before g + (2 ^ 24 - 1) = g_left g"
    using assms(4,6) by (intro take_bit_near) linarith+
  moreover have "g_before g + (2 ^ 24 - 1) \<noteq> g_left g" using assms(4,6) by linarith
  ultimately show ?thesis using False by metis
qed

lemma moves_Read_Leave:
  assumes h: "pfq_holds w P l pc g" and p: "pc t = Read_Leave"
    and few: "g_arrived g < Suc (g_left g) + 2 ^ 24" "bit (rw_r_out l) 1 \<Longrightarrow> g_arrived g < g_before g + 2 ^ 24"
  shows "pfq_holds w P (l\<lparr> rw_r_out := rw_r_out l + READER_INCREMENT \<rparr>)
    (pc(t := if rw_r_out l AND WRITER_PRESENT \<noteq> 0 then Read_Last (rw_r_out l) else Out)) (g\<lparr> g_left := Suc (g_left g), g_seen := (g_seen g)(t := g_epoch g) \<rparr>)"
proof -
  note q = pfq_holdsD(1) [OF h] and c = pfq_holdsD(2) [OF h] and r = pfq_holdsD(3) [OF h] and s = pfq_holdsD(4) [OF h]
  let ?wp = "writer_pc w pc" and ?l = "l\<lparr> rw_r_out := rw_r_out l + READER_INCREMENT \<rparr>"
  let ?g = "g\<lparr> g_left := Suc (g_left g), g_seen := (g_seen g)(t := g_epoch g) \<rparr>"
  have out: "rw_r_out l = ctr (g_left g) (warned ?wp) (P \<noteq> late ?wp)" using c by (simp add: counters_ok_def)
  define p' where "p' = (if warned ?wp then Read_Last (rw_r_out l) else Out)"
  have p'_eq: "(if rw_r_out l AND WRITER_PRESENT \<noteq> 0 then Read_Last (rw_r_out l) else Out) = p'" by (simp add: p'_def out ctr_tests)
  have pp: "\<not> held p'" "mcs_of p' = Idle" "pc_ok p'" "p' = Out \<or> p' = Read_Last (rw_r_out l)" by (simp_all add: p'_def)
  note lv = leaves_readers [OF r p pp(4)]
  have w: "w \<noteq> Some t" using queue_okD(2) [OF q, of t] p by auto
  have "queue_ok w ?l (pc(t := p'))" by (rule queue_frame [OF q]) (simp_all add: p pp)
  moreover have "counters_ok ?wp P ?l ?g" using c by (simp add: counters_ok_def ctr_arrive)
  moreover have "readers_ok ?wp P (pc(t := p')) ?g" by (rule lv(1))
  moreover have "signals_ok w ?l (pc(t := p')) ?g"
  proof (cases "warned ?wp")
    case False
    then have wp: "?wp \<noteq> Write_Spin" "p' = Out" by (auto simp: p'_def)
    have "tokens l pc = {}" using signalsD(4) [OF s wp(1)] .
    then have "tokens ?l (pc(t := p')) = {}" by (simp add: wp(2) tokens_upd tokens_cong [of ?l l])
    then show ?thesis
      by (intro signals_calm tickets_upd [OF signalsD(1) [OF s]]) (use w wp in simp_all)
  next
    case True
    have wl: "stored ?wp \<or> late ?wp" using True by (cases ?wp) auto
    then have last: "0 < g_epoch g" "rw_last l = ctr (g_before g + (2 ^ 24 - 1)) True (P \<noteq> late ?wp)" using c by (simp_all add: counters_ok_def)
    have tk: "tokens ?l z = tokens l z" for z by (simp add: tokens_def)
    have T: "tokens ?l (pc(t := p')) = (if rw_r_out l = rw_last l then insert t (tokens l pc) else tokens l pc - {t})"
      unfolding tk tokens_upd by (simp add: p'_def True)
    have eq: "rw_r_out l = rw_last l \<longleftrightarrow> ?wp = Write_Spin \<and> Suc (g_left g) = g_before g"
      using last_ticket [OF r lv(2-4)] few True unfolding out last(2) by (simp add: ctr_tests ctr_eq)
    have "tickets_ok ?l (pc(t := p')) ?g"
      unfolding tickets_ok_def
    proof (intro allI impI)
      fix u x
      assume u: "(pc(t := p')) u = Read_Last x"
      show "0 < g_seen ?g u \<and> g_seen ?g u \<le> g_epoch ?g \<and> bit x 0 = (bit (rw_last ?l) 0 = (g_seen ?g u = g_epoch ?g))"
      proof (cases "u = t")
        case True
        then have "x = rw_r_out l" using u by (simp add: p'_def split: if_splits)
        then show ?thesis using True last by (simp add: out ctr_tests)
      next
        case False
        then show ?thesis using signalsD(1) [OF s] u unfolding tickets_ok_def by simp
      qed
    qed
    moreover have "w = Some y" if "(pc(t := p')) u = Read_Store y" for u y
      using signalsD(2) [OF s, of u y] that by (auto simp: p'_def split: if_splits)
    moreover have "token_ok ?wp (writer_blocked w l) (Suc (g_left g) = g_before g) (tokens ?l (pc(t := p')))"
    proof (cases "?wp = Write_Spin")
      case True
      then have "tokens l pc = {}" "writer_blocked w l" using signalsD(3) [OF s] lv(3) by (auto simp: token_ok_def split: if_splits)
      then show ?thesis unfolding T eq by (auto simp: token_ok_def True)
    next
      case False
      then show ?thesis using signalsD(4) [OF s] unfolding T eq by (simp add: token_ok_def)
    qed
    moreover have "writer_blocked w ?l = writer_blocked w l" by (simp add: writer_blocked_def split: option.split)
    ultimately show ?thesis using w by (simp add: signals_ok_def)
  qed
  ultimately show ?thesis using w unfolding p'_eq by (simp add: pfq_holds_def)
qed

lemma token_writer:
  assumes h: "pfq_holds w P l pc g" and "t \<in> tokens l pc"
  shows "\<exists>v. w = Some v \<and> pc v = Write_Spin \<and> rw_whead l = Some v \<and> mn_blocked (ml_nodes (rw_wtail l) v) \<and> g_left g = g_before g \<and> tokens l pc = {t}"
proof -
  note q = pfq_holdsD(1) [OF h] and s = pfq_holdsD(4) [OF h]
  have "writer_pc w pc = Write_Spin" using signalsD(4) [OF s] assms(2) by auto
  then obtain v where v: "w = Some v" "pc v = Write_Spin" by (cases w) auto
  then show ?thesis using signalsD(3) [OF s] queue_okD(4) [OF q v(1)] assms(2) by (auto simp: token_ok_def writer_blocked_def split: if_splits)
qed

lemma moves_Read_Last:
  assumes h: "pfq_holds w P l pc g" and p: "pc t = Read_Last x"
  shows "pfq_holds w P l (pc(t := if x = rw_last l then Read_Head else Out)) g"
proof -
  note q = pfq_holdsD(1) [OF h] and c = pfq_holdsD(2) [OF h] and r = pfq_holdsD(3) [OF h] and s = pfq_holdsD(4) [OF h]
  let ?p = "if x = rw_last l then Read_Head else Out"
  have w: "w \<noteq> Some t" using queue_okD(2) [OF q, of t] p by auto
  have "queue_ok w l (pc(t := ?p))" by (rule queue_frame [OF q]) (simp_all add: p split: if_splits)
  moreover have "readers_ok (writer_pc w pc) P (pc(t := ?p)) g" by (rule readers_frame [OF r]) (use r in \<open>simp_all add: p readers_ok_def\<close>)
  moreover have "tokens l (pc(t := ?p)) = tokens l pc" unfolding tokens_def using p by auto
  moreover have "w = Some y" if "(pc(t := ?p)) u = Read_Store y" for u y
    using signalsD(2) [OF s, of u y] that by (auto split: if_splits)
  moreover have "u \<noteq> t \<and> pc u = Read_Last y" if "(pc(t := ?p)) u = Read_Last y" for u y using that by (auto split: if_splits)
  then have "tickets_ok l (pc(t := ?p)) g" using signalsD(1) [OF s] unfolding tickets_ok_def by blast
  ultimately show ?thesis using c w signalsD(3) [OF s] by (simp add: pfq_holds_def signals_ok_def)
qed

lemma moves_Read_Head:
  assumes h: "pfq_holds w P l pc g" and p: "pc t = Read_Head"
  shows "\<exists>v. rw_whead l = Some v \<and> pfq_holds w P l (pc(t := Read_Store v)) g"
proof -
  note q = pfq_holdsD(1) [OF h] and c = pfq_holdsD(2) [OF h] and r = pfq_holdsD(3) [OF h] and s = pfq_holdsD(4) [OF h]
  obtain v where v: "w = Some v" "rw_whead l = Some v" using token_writer [OF h, of t] p by (auto simp: tokens_def)
  let ?p = "Read_Store v"
  have w: "w \<noteq> Some t" using queue_okD(2) [OF q, of t] p by auto
  have "queue_ok w l (pc(t := ?p))" by (rule queue_frame [OF q]) (simp_all add: p)
  moreover have "readers_ok (writer_pc w pc) P (pc(t := ?p)) g" by (rule readers_frame [OF r]) (use r in \<open>simp_all add: p readers_ok_def\<close>)
  moreover have "tokens l (pc(t := ?p)) = tokens l pc" unfolding tokens_def using p by auto
  moreover have "w = Some y" if "(pc(t := ?p)) u = Read_Store y" for u y
    using signalsD(2) [OF s, of u y] that v by (auto split: if_splits)
  moreover have "u \<noteq> t \<and> pc u = Read_Last y" if "(pc(t := ?p)) u = Read_Last y" for u y using that by (auto split: if_splits)
  then have "tickets_ok l (pc(t := ?p)) g" using signalsD(1) [OF s] unfolding tickets_ok_def by blast
  ultimately have "pfq_holds w P l (pc(t := ?p)) g" using c w signalsD(3) [OF s] by (simp add: pfq_holds_def signals_ok_def)
  with v(2) show ?thesis by blast
qed

lemma moves_Read_Store:
  assumes h: "pfq_holds w P l pc g" and p: "pc t = Read_Store v"
  shows "pfq_holds w P (l\<lparr> rw_wtail := set_blocked v False (rw_wtail l) \<rparr>) (pc(t := Out)) g"
proof -
  note q = pfq_holdsD(1) [OF h] and c = pfq_holdsD(2) [OF h] and r = pfq_holdsD(3) [OF h] and s = pfq_holdsD(4) [OF h]
  let ?l = "l\<lparr> rw_wtail := set_blocked v False (rw_wtail l) \<rparr>"
  have wv: "w = Some v" using signalsD(2) [OF s p] .
  have T: "pc v = Write_Spin" "g_left g = g_before g" "tokens l pc = {t}" using token_writer [OF h, of t] p wv by (auto simp: tokens_def)
  have w: "w \<noteq> Some t" using queue_okD(2) [OF q, of t] p by auto
  have "queue_ok w ?l (pc(t := Out))" unfolding wv by (rule queue_store) (use q wv T p in auto)
  moreover have "counters_ok (writer_pc w pc) P ?l g" using c by (simp add: counters_ok_def)
  moreover have "readers_ok (writer_pc w pc) P (pc(t := Out)) g" by (rule readers_frame [OF r]) (use r in \<open>simp_all add: p readers_ok_def\<close>)
  moreover have tk: "tokens ?l (pc(t := Out)) = {}" using T(3) by (simp add: tokens_upd tokens_cong [of ?l l])
  moreover have "(pc(t := Out)) u \<noteq> Read_Store y" for u y using tk unfolding tokens_def by blast
  moreover have "tickets_ok ?l (pc(t := Out)) g" by (rule tickets_upd [OF signalsD(1) [OF s]]) simp_all
  ultimately show ?thesis using w wv T(1,2) by (simp add: pfq_holds_def signals_ok_def token_ok_def writer_blocked_def)
qed

lemma mcs_lock_step:
  assumes "mcs_of (pc t) = p" and "in_lock p" and "mcs_lock t p l = (p', l')"
  shows "mcs_step t (l, mcs_of \<circ> pc) (l', (mcs_of \<circ> pc)(t := p'))" "in_lock p' \<or> p' = Critical"
proof -
  have "mcs_access t p l = (p', l')" using assms(2,3) by (cases p) auto
  then show "mcs_step t (l, mcs_of \<circ> pc) (l', (mcs_of \<circ> pc)(t := p'))" using assms by (intro mcs_step.access) auto
  show "in_lock p' \<or> p' = Critical" using assms(2,3) by (cases p) (auto split: option.splits if_splits)
qed

lemma mcs_unlock_step:
  assumes "mcs_of (pc t) = p" and "in_unlock p" and "mcs_unlock t p l = (p', l')"
  shows "mcs_step t (l, mcs_of \<circ> pc) (l', (mcs_of \<circ> pc)(t := p'))" "in_unlock p' \<or> p' = Idle"
proof -
  have "mcs_access t p l = (p', l')" using assms(2,3) by (cases p) auto
  then show "mcs_step t (l, mcs_of \<circ> pc) (l', (mcs_of \<circ> pc)(t := p'))" using assms by (intro mcs_step.access) auto
  show "in_unlock p' \<or> p' = Idle" using assms(2,3) by (cases p) (auto split: option.splits if_splits)
qed

definition pfq_inv :: "pfq_state \<Rightarrow> pfq_ghost \<Rightarrow> bool" where
  "pfq_inv s g \<longleftrightarrow> (\<exists>w P. pfq_holds w P (fst s) (snd s) g)"

lemma pfq_invI: "pfq_holds w P l pc g \<Longrightarrow> pfq_inv (l, pc) g"
  unfolding pfq_inv_def fst_conv snd_conv by blast

lemma pfq_next_mcs:
  assumes h: "pfq_holds w P l pc g" and p: "pc t = Write_Mcs p \<or> pc t = Done_Mcs p \<or> pc t = Out"
  shows "pfq_inv (pfq_next c t (l, pc)) g"
proof -
  have ok: "pc_ok (pc t)" using pfq_holdsD(1) [OF h] by (simp add: queue_ok_def)
  consider "pc t = Write_Mcs p" "in_lock p" | "pc t = Done_Mcs p" "in_unlock p" | "pc t = Out" using p ok by auto
  then show ?thesis
  proof cases
    case 1
    obtain p' l' where a: "mcs_lock t p (rw_wtail l) = (p', l')" by fastforce
    note m = mcs_lock_step [of pc t p, OF _ 1(2) a]
    let ?p = "if p' = Critical then Write_Block else Write_Mcs p'"
    have "mcs_of ?p = p'" by simp
    then have "\<exists>w'. pfq_holds w' P (l\<lparr> rw_wtail := l' \<rparr>) (pc(t := ?p)) g"
      by (intro mcs_moves [OF h]) (use m 1 in \<open>auto split: if_splits\<close>)
    then show ?thesis using 1 a by (auto intro: pfq_invI)
  next
    case 2
    obtain p' l' where a: "mcs_unlock t p (rw_wtail l) = (p', l')" by fastforce
    note m = mcs_unlock_step [of pc t p, OF _ 2(2) a]
    let ?p = "if p' = Idle then Out else Done_Mcs p'"
    have "mcs_of ?p = p'" by simp
    then have "\<exists>w'. pfq_holds w' P (l\<lparr> rw_wtail := l' \<rparr>) (pc(t := ?p)) g"
      by (intro mcs_moves [OF h]) (use m 2 in \<open>auto split: if_splits\<close>)
    then show ?thesis using 2 a by (auto intro: pfq_invI)
  next
    case 3
    show ?thesis
    proof (cases c)
      case Call_Read
      then show ?thesis using 3 reader_calls [OF h, of t Read_Arrive] by (auto intro: pfq_invI)
    next
      case Call_Write
      have "mcs_step t (rw_wtail l, mcs_of \<circ> pc) (rw_wtail l, (mcs_of \<circ> pc)(t := mcs_of (Write_Mcs Lock_Init)))"
        using mcs_step.call_lock [of "mcs_of \<circ> pc" t "rw_wtail l"] 3 by simp
      from mcs_moves [OF h _ _ _ _ _ this] show ?thesis using 3 Call_Write by (auto intro: pfq_invI)
    next
      case Go
      then show ?thesis using h 3 by (auto simp: fun_upd_idem intro: pfq_invI)
    qed
  qed
qed

lemma pfq_next_writer:
  assumes h: "pfq_holds (Some t) P l pc g" and it: "in_time (pfq_next c t (l, pc)) (pfq_count t (pc t) g)"
  shows "pfq_inv (pfq_next c t (l, pc)) (pfq_count t (pc t) g)"
proof (cases "quiet (pc t)")
  case True
  then show ?thesis using writer_quiet [OF h True] by (cases rule: quiet.elims(2)) (auto simp: pfq_inv_def)
next
  case False
  have "held (pc t)" using queue_okD(2) [OF pfq_holdsD(1) [OF h], of t] by simp
  with False show ?thesis
  proof (cases "pc t")
    case Write_In
    then show ?thesis using moves_Write_In [OF h] by (auto intro: pfq_invI)
  next
    case (Write_Last i)
    have "g_epoch g \<le> g_seen g u" if "leaving (pc u)" for u using it that Write_Last by (auto simp: in_time_def dest!: spec [of _ u] split: if_splits)
    then show ?thesis using moves_Write_Last [OF h Write_Last] Write_Last by (auto intro: pfq_invI)
  next
    case (Write_Out i)
    then have "g_arrived g < g_left g + 2 ^ 24" using it by (simp add: in_time_def)
    then show ?thesis using moves_Write_Out [OF h Write_Out] Write_Out by (auto intro: pfq_invI split: if_splits)
  next
    case Write_Spin
    then show ?thesis using moves_Write_Spin [OF h] h by (auto simp: fun_upd_idem intro: pfq_invI)
  next
    case Writing
    have "queue_ok (Some t) l (pc(t := Done_Phase))" by (rule queue_frame [OF pfq_holdsD(1) [OF h]]) (simp_all add: Writing)
    moreover have "counters_ok Done_Phase P l g" using pfq_holdsD(2) [OF h] by (simp add: Writing counters_ok_def ctr_tests)
    ultimately have "pfq_holds (Some t) P l (pc(t := Done_Phase)) g" by (intro writer_move [OF h]) (simp_all add: Writing)
    then show ?thesis using Writing by (auto intro: pfq_invI)
  next
    case (Done_In_Store x b)
    then show ?thesis using moves_Done_In_Store [OF h] by (auto intro: pfq_invI)
  next
    case (Done_Bar x)
    then show ?thesis using moves_Done_Bar [OF h] by (auto intro: pfq_invI)
  qed auto
qed

lemma pfq_next_inv:
  assumes "pfq_inv (l, pc) g" and it: "in_time (pfq_next c t (l, pc)) (pfq_count t (pc t) g)"
  shows "pfq_inv (pfq_next c t (l, pc)) (pfq_count t (pc t) g)"
proof -
  obtain w P where h: "pfq_holds w P l pc g" using assms(1) unfolding pfq_inv_def by auto
  have ok: "pc_ok (pc t)" "held (pc t) \<longleftrightarrow> w = Some t" using pfq_holdsD(1) [OF h] by (auto simp: queue_ok_def)
  show ?thesis
  proof (cases "held (pc t)")
    case True
    then show ?thesis using pfq_next_writer [OF _ it, of P] h ok by simp
  next
    case False
    then show ?thesis
    proof (cases "pc t")
      case Out
      then show ?thesis using pfq_next_mcs [OF h, of t] by simp
    next
      case (Write_Mcs p)
      then show ?thesis using pfq_next_mcs [OF h, of t p] by simp
    next
      case (Done_Mcs p)
      then show ?thesis using pfq_next_mcs [OF h, of t p] by simp
    next
      case Read_Arrive
      then show ?thesis using moves_Read_Arrive [OF h Read_Arrive] by (auto simp: Let_def intro: pfq_invI)
    next
      case (Read_Spin x)
      then show ?thesis using moves_Read_Spin [OF h Read_Spin] h by (auto simp: fun_upd_idem intro: pfq_invI)
    next
      case Reading
      then show ?thesis using reader_calls [OF h, of t Read_Leave] by (auto intro: pfq_invI)
    next
      case Read_Leave
      have "bit (rw_r_out l + READER_INCREMENT) 1 = bit (rw_r_out l) 1"
        using pfq_holdsD(2) [OF h] by (simp add: counters_ok_def ctr_arrive ctr_tests)
      then show ?thesis using moves_Read_Leave [OF h Read_Leave] it Read_Leave by (auto simp: in_time_def Let_def intro: pfq_invI)
    next
      case (Read_Last x)
      then show ?thesis using moves_Read_Last [OF h Read_Last] by (auto intro: pfq_invI split: if_splits)
    next
      case Read_Head
      then show ?thesis using moves_Read_Head [OF h Read_Head] by (auto intro: pfq_invI)
    next
      case (Read_Store v)
      then show ?thesis using moves_Read_Store [OF h Read_Store] by (auto intro: pfq_invI)
    qed (use ok in auto)
  qed
qed

lemma pfq_start_inv: "pfq_start s \<Longrightarrow> pfq_inv s \<lparr> g_arrived = 0, g_left = 0, g_before = 0, g_epoch = 0, g_seen = (\<lambda>_. 0) \<rparr>"
proof -
  assume "pfq_start s"
  then obtain l where s: "s = (pfq_rwlock_init l, \<lambda>_. Out)" by (cases s) (auto simp: pfq_start_def)
  have "mcs_start (mcs_init (rw_wtail l), mcs_of \<circ> (\<lambda>_. Out))" by (simp add: mcs_start_def mcs_init_def)
  from mcs_start_inv [OF this] have "queue_ok None (pfq_rwlock_init l) (\<lambda>_. Out)" by (auto simp: queue_ok_def pfq_rwlock_init_def)
  moreover have "ctr 0 False False = 0" by (simp add: ctr_def)
  then have "counters_ok Out False (pfq_rwlock_init l) \<lparr> g_arrived = 0, g_left = 0, g_before = 0, g_epoch = 0, g_seen = (\<lambda>_. 0) \<rparr>"
    by (simp add: counters_ok_def pfq_rwlock_init_def of_bool_def)
  ultimately have "pfq_holds None False (pfq_rwlock_init l) (\<lambda>_. Out) \<lparr> g_arrived = 0, g_left = 0, g_before = 0, g_epoch = 0, g_seen = (\<lambda>_. 0) \<rparr>"
    by (simp add: pfq_holds_def readers_ok_def signals_ok_def tickets_ok_def token_ok_def tokens_def)
  then show ?thesis unfolding s by (rule pfq_invI)
qed

lemma pfq_run_inv: "pfq_run s g \<Longrightarrow> pfq_inv s g"
proof (induction rule: pfq_run.induct)
  case (go_on s g t s' g')
  then obtain c where "s' = pfq_next c t s" by (auto simp: pfq_step_def)
  with go_on show ?case using pfq_next_inv [of "fst s" "snd s" g c t] by simp
qed (rule pfq_start_inv)

section \<open>Examples of executions\<close>

fun pfq_steps :: "(pfq_call \<times> ptr) list \<Rightarrow> pfq_state \<Rightarrow> pfq_state" where
  "pfq_steps [] s = s"
| "pfq_steps ((c, t) # cs) s = pfq_steps cs (pfq_next c t s)"

definition example_rw :: pfq_state where
  "example_rw = (pfq_rwlock_init \<lparr> rw_r_in = 7, rw_r_out = 7, rw_last = 7, rw_writer_blocking_readers = (\<lambda>_. False),
     rw_wtail = \<lparr> ml_tail = None, ml_nodes = (\<lambda>_. \<lparr> mn_next = None, mn_blocked = False \<rparr>) \<rparr>, rw_whead = None \<rparr>, \<lambda>_. Out)"

definition wlock :: "ptr \<Rightarrow> (pfq_call \<times> ptr) list" where
  "wlock t = (Call_Write, t) # replicate 9 (Go, t)"

definition overtaking :: "ptr \<Rightarrow> ptr \<Rightarrow> ptr \<Rightarrow> (pfq_call \<times> ptr) list" where
  "overtaking r a b = wlock a @ replicate 4 (Go, a) @ [(Call_Read, r), (Go, r), (Go, r), (Go, r)] @ replicate 5 (Go, a) @
     wlock a @ replicate 4 (Go, a) @ replicate 5 (Go, a) @
     wlock a @ [(Go, r), (Go, r)] @ replicate 4 (Go, a) @ replicate 5 (Go, a) @
     wlock b @ (Call_Write, a) # replicate 5 (Go, a)"

fun in_time_on :: "ptr list \<Rightarrow> pfq_state \<Rightarrow> pfq_ghost \<Rightarrow> bool" where
  "in_time_on ts (l, pc) g = (g_arrived g < g_left g + 8 \<and> (bit (rw_r_out l) 1 \<longrightarrow> g_arrived g < g_before g + 8) \<and>
     (\<forall>t\<in>set ts. leaving (pc t) \<longrightarrow> g_epoch g \<le> Suc (g_seen g t)))"

fun run_on :: "ptr list \<Rightarrow> (pfq_call \<times> ptr) list \<Rightarrow> pfq_state \<Rightarrow> pfq_ghost \<Rightarrow> (pfq_state \<times> pfq_ghost) option" where
  "run_on ts [] s g = Some (s, g)"
| "run_on ts ((c, t) # cs) s g =
    (let s' = pfq_next c t s; g' = pfq_count t (snd s t) g in if t \<in> set ts \<and> in_time_on ts s' g' then run_on ts cs s' g' else None)"

lemma pfq_next_pc: "u \<noteq> t \<Longrightarrow> snd (pfq_next c t s) u = snd s u"
  by (cases s) (auto split: pfq_pc.splits prod.splits)

lemma run_on_run:
  assumes "pfq_run s g" and "\<And>t. t \<notin> set ts \<Longrightarrow> snd s t = Out" and "run_on ts cs s g = Some (s', g')"
  shows "pfq_run s' g'"
  using assms
proof (induction cs arbitrary: s g)
  case (Cons a cs)
  obtain c t where a: "a = (c, t)" by fastforce
  let ?s = "pfq_next c t s" and ?g = "pfq_count t (snd s t) g"
  have r: "t \<in> set ts" "in_time_on ts ?s ?g" "run_on ts cs ?s ?g = Some (s', g')" using Cons.prems(3) by (auto simp: a Let_def split: if_splits)
  have out: "snd ?s u = Out" if "u \<notin> set ts" for u using that r(1) Cons.prems(2) [OF that] pfq_next_pc [of u t c s] by auto
  have "leaving (snd ?s u) \<Longrightarrow> u \<in> set ts" for u using out [of u] by fastforce
  then have "in_time ?s ?g" using r(2) by (cases ?s) (auto simp: in_time_def)
  then have "pfq_run ?s ?g" by (intro pfq_run.go_on [OF Cons.prems(1), of t ?s]) (auto simp: pfq_step_def)
  then show ?case using Cons.IH [OF _ out r(3)] by blast
qed simp

definition example_ghost :: pfq_ghost where
  "example_ghost = \<lparr> g_arrived = 0, g_left = 0, g_before = 0, g_epoch = 0, g_seen = (\<lambda>_. 0) \<rparr>"

definition handover :: "(pfq_call \<times> ptr) list" where
  "handover = [(Call_Read, 0), (Go, 0)] @ wlock 1 @ replicate 5 (Go, 0) @ [(Call_Read, 0), (Go, 0), (Go, 1)]"

lemma example_rw_start: "pfq_start example_rw"
  by (auto simp: pfq_start_def example_rw_def)

subsection \<open>A reader that is late\<close>

text \<open>
  The states of an execution in which the calls run one after the other but for one reader, by the counters, the value of \<open>last\<close>, the queue of
  the writers and \<open>whead\<close>. The reader arrives when the writer has set its flags back in \<open>r_in\<close> and not yet in \<open>r_out\<close>, and leaves at once;
  it holds the ticket that the second next writer stores in \<open>last\<close>.
\<close>

lemma pfq_steps_append: "pfq_steps (cs @ ds) s = pfq_steps ds (pfq_steps cs s)"
  by (induction cs s rule: pfq_steps.induct) auto

abbreviation rw_at :: "u32 \<Rightarrow> u32 \<Rightarrow> u32 \<Rightarrow> (u32 \<Rightarrow> bool) \<Rightarrow> ptr option \<Rightarrow> (ptr \<Rightarrow> mcs_node_t) \<Rightarrow> ptr option \<Rightarrow> pfq_rwlock_t" where
  "rw_at i ou la B tail N H \<equiv> \<lparr> rw_r_in = i, rw_r_out = ou, rw_last = la, rw_writer_blocking_readers = B,
     rw_wtail = \<lparr> ml_tail = tail, ml_nodes = N \<rparr>, rw_whead = H \<rparr>"

lemma ctr_wrap: "ctr 16777216 w p = ctr 0 w p"
  by (simp add: ctr_eq take_bit_eq_mod)

lemma moves_list: "replicate 4 x = [x, x, x, x]" "replicate 5 x = [x, x, x, x, x]" "replicate 8 x = [x, x, x, x, x, x, x, x]"
  "replicate 9 x = [x, x, x, x, x, x, x, x, x]" by (simp_all add: eval_nat_numeral)

lemma writer_enters:
  "P a = Out \<Longrightarrow> pfq_steps (wlock a) (rw_at (ctr n False p) (ctr n False p) la B None N H, P) =
    (rw_at (ctr n True p) (ctr n True p) (ctr (n + (2 ^ 24 - 1)) True p) (B(of_bool p := True)) (Some a) (N(a := (N a)\<lparr> mn_next := None, mn_blocked := True \<rparr>)) (Some a),
     P(a := Writing))"
  by (simp add: wlock_def moves_list Let_def set_next_def set_blocked_def ctr_simps)

lemma writer_turns:
  "P a = Writing \<Longrightarrow> pfq_steps (replicate 4 (Go, a)) (rw_at (ctr n True p) (ctr m True p) la B tail N H, P) =
    (rw_at (ctr n False (\<not> p)) (ctr m True p) la B tail N H, P(a := Done_Out_Load (of_bool p)))"
  by (simp add: moves_list Let_def ctr_simps)

lemma writer_leaves:
  "P a = Done_Out_Load (of_bool p) \<Longrightarrow> mn_next (N a) = None \<Longrightarrow>
   pfq_steps (replicate 5 (Go, a)) (rw_at i (ctr m True p) la B (Some a) N H, P) =
    (rw_at i (ctr m False (\<not> p)) la (B(of_bool p := False)) None N H, P(a := Out))"
  by (simp add: moves_list Let_def ctr_simps)

lemma reader_delays:
  "P r = Out \<Longrightarrow> pfq_steps [(Call_Read, r), (Go, r), (Go, r), (Go, r)] (rw_at (ctr n False p) (ctr m True q) la B tail N H, P) =
    (rw_at (ctr (Suc n) False p) (ctr (Suc m) True q) la B tail N H, P(r := Read_Last (ctr m True q)))"
  by (simp add: Let_def ctr_simps)

lemma reader_mistakes:
  "P r = Read_Last x \<Longrightarrow> pfq_steps [(Go, r), (Go, r)] (rw_at i ou x B tail N (Some a), P) = (rw_at i ou x B tail N (Some a), P(r := Read_Store a))"
  by simp

lemma writer_queues:
  "P a = Out \<Longrightarrow> a \<noteq> b \<Longrightarrow> pfq_steps ((Call_Write, a) # replicate 5 (Go, a)) (rw_at i ou la B (Some b) N H, P) =
    (rw_at i ou la B (Some a) (N(a := (N a)\<lparr> mn_next := None, mn_blocked := True \<rparr>, b := (N b)\<lparr> mn_next := Some a \<rparr>)) H, P(a := Write_Mcs Lock_Spin))"
  by (simp add: moves_list Let_def set_next_def set_blocked_def)

lemma writer_intrudes:
  "P r = Read_Store a \<Longrightarrow> P a = Write_Mcs Lock_Spin \<Longrightarrow> a \<noteq> r \<Longrightarrow>
   snd (pfq_steps ((Go, r) # replicate 8 (Go, a)) (rw_at (ctr n True p) (ctr n True p) la B tail N H, P)) = P(r := Out, a := Writing)"
  by (simp add: moves_list Let_def set_next_def set_blocked_def ctr_simps)

lemma overtaking_calls:
  assumes "distinct [r, a, b]"
  shows "snd ` set (overtaking r a b) \<subseteq> {r, a, b}" "filter (\<lambda>m. fst m = Call_Read) (overtaking r a b) = [(Call_Read, r)]"
    "(Call_Write, r) \<notin> set (overtaking r a b)"
  using assms by (auto simp: overtaking_def wlock_def moves_list)

lemma overtaking_state:
  assumes "pfq_start s" and d: "distinct [r, a, b]"
  shows "\<exists>la B N P. pfq_steps (overtaking r a b) s = (rw_at (ctr 1 True True) (ctr 1 True True) la B (Some a) N (Some b), P) \<and>
    P r = Read_Store a \<and> P a = Write_Mcs Lock_Spin \<and> P b = Writing \<and> mn_blocked (N a)"
proof -
  have c0: "ctr 0 False False = 0" by (simp add: ctr_def)
  obtain l where "s = (pfq_rwlock_init l, \<lambda>_. Out)" using assms(1) by (cases s) (auto simp: pfq_start_def)
  then obtain la B N where s: "s = (rw_at (ctr 0 False False) (ctr 0 False False) la B None N None, \<lambda>_. Out)"
    by (cases l; cases "rw_wtail l") (auto simp: pfq_rwlock_init_def mcs_init_def c0)
  have n: "a \<noteq> r" "r \<noteq> a" "b \<noteq> r" "b \<noteq> a" "r \<noteq> b" "a \<noteq> b" using d by auto
  show ?thesis unfolding s overtaking_def
    by (simp add: pfq_steps_append writer_enters writer_turns writer_leaves reader_delays reader_mistakes writer_queues n ctr_wrap del: pfq_steps.simps append.simps)
qed

section \<open>Properties\<close>

text \<open>
  C17. Exclusion: in every execution in time, of any number of threads that call the four operations in any interleaving, a thread that has
  acquired the lock for writing excludes all readers and all other writers. The executions may have any length; the
  counters of 32 bits wrap around.
\<close>

theorem pfq_exclusion:
  assumes "pfq_run (l, pc) g" and "pc t = Writing"
  shows "pc u \<noteq> Reading \<and> (pc u = Writing \<longrightarrow> u = t)"
proof -
  obtain w P where h: "pfq_holds w P l pc g" using pfq_run_inv [OF assms(1)] unfolding pfq_inv_def by auto
  have w: "held (pc v) \<longleftrightarrow> w = Some v" for v using queue_okD(2) [OF pfq_holdsD(1) [OF h]] .
  then have wt: "w = Some t" using assms(2) by (metis held.simps(9))
  moreover have "pc u \<noteq> Reading"
  proof
    assume u: "pc u = Reading"
    have r: "readers_ok Writing P pc g" using pfq_holdsD(3) [OF h] wt assms(2) by simp
    have wr: "announced Writing" "entered Writing" by simp_all
    let ?E = "{t. inside (pc t) \<and> pc t \<noteq> Read_Spin (of_bool P)}"
    have e: "card ?E + g_left g = g_before g" "g_left g = g_before g" "finite {t. inside (pc t)}"
      using r wr unfolding readers_ok_def by blast+
    have "finite ?E" by (rule finite_subset [OF _ e(3)]) auto
    moreover have "card ?E = 0" using e(1,2) by linarith
    moreover have "u \<in> ?E" using u by simp
    ultimately show False by (metis card_0_eq emptyE)
  qed
  ultimately show ?thesis using w [of u] by auto
qed

theorem pfq_exclusion_witness:
  "\<exists>l pc g. pfq_run (l, pc) g \<and> pc 1 = Writing \<and> pc 0 = Read_Spin 0 \<and> pc 0 \<noteq> Reading"
proof -
  have r: "map_option (\<lambda>(s, g). (snd s 0, snd s 1)) (run_on [0, 1] handover example_rw example_ghost) = Some (Read_Spin 0, Writing)" by code_simp
  then obtain l pc g where e: "run_on [0, 1] handover example_rw example_ghost = Some ((l, pc), g)" "pc 0 = Read_Spin 0" "pc 1 = Writing" by auto
  have "pfq_run example_rw example_ghost" unfolding example_ghost_def by (rule pfq_run.begin_run [OF example_rw_start])
  from run_on_run [OF this _ e(1)] have run: "pfq_run (l, pc) g" by (simp add: example_rw_def)
  then show ?thesis using pfq_exclusion [OF run e(3), of 0] e by blast
qed

text \<open>
  C34. Without the condition on time the lock is not exclusive, for any three threads and from every initial state. There is an execution of a
  reader \<open>r\<close> that reads once and two writers \<open>a\<close> and \<open>b\<close> that leads to a state in which \<open>b\<close> writes, \<open>a\<close> waits in the queue of the writers for its flag
  \<open>blocked\<close>, and \<open>r\<close>, still in its unlock, is about to clear just this flag; after that store and further steps of \<open>a\<close> alone, both \<open>a\<close> and \<open>b\<close> write.
\<close>

theorem pfq_writers_not_exclusive:
  assumes "pfq_start s" and "distinct [r, a, b]"
  shows "\<exists>cs ds l pc. pfq_steps cs s = (l, pc) \<and> pc r = Read_Store a \<and> pc a = Write_Mcs Lock_Spin \<and> mn_blocked (ml_nodes (rw_wtail l) a) \<and> pc b = Writing \<and>
    snd (pfq_steps ((Go, r) # ds) (l, pc)) a = Writing \<and> snd (pfq_steps ((Go, r) # ds) (l, pc)) b = Writing \<and> set ds \<subseteq> {(Go, a)} \<and>
    snd ` set cs \<subseteq> {r, a, b} \<and> filter (\<lambda>m. fst m = Call_Read) cs = [(Call_Read, r)] \<and> (Call_Write, r) \<notin> set cs"
proof -
  obtain la B N P where st: "pfq_steps (overtaking r a b) s = (rw_at (ctr 1 True True) (ctr 1 True True) la B (Some a) N (Some b), P)"
      "P r = Read_Store a" "P a = Write_Mcs Lock_Spin" "P b = Writing" "mn_blocked (N a)"
    using overtaking_state [OF assms] by blast
  have d: "a \<noteq> r" "b \<noteq> r" "b \<noteq> a" using assms(2) by auto
  let ?ds = "replicate 8 (Go, a)"
  have "snd (pfq_steps ((Go, r) # ?ds) (rw_at (ctr 1 True True) (ctr 1 True True) la B (Some a) N (Some b), P)) = P(r := Out, a := Writing)"
    by (rule writer_intrudes [OF st(2,3) d(1)])
  then show ?thesis using st d overtaking_calls [OF assms(2)]
    by (intro exI [of _ "overtaking r a b"] exI [of _ ?ds] exI [of _ "rw_at (ctr 1 True True) (ctr 1 True True) la B (Some a) N (Some b)"] exI [of _ P]) auto
qed

theorem pfq_writers_not_exclusive_witness:
  "\<exists>cs. snd (pfq_steps cs example_rw) 1 = Writing \<and> snd (pfq_steps cs example_rw) 2 = Writing"
proof -
  have "distinct [0, 1, 2 :: ptr]" by simp
  from pfq_writers_not_exclusive [OF example_rw_start this] obtain cs ds l pc where
    "pfq_steps cs example_rw = (l, pc)" "snd (pfq_steps ((Go, 0) # ds) (l, pc)) 1 = Writing" "snd (pfq_steps ((Go, 0) # ds) (l, pc)) 2 = Writing"
    by blast
  then show ?thesis by (intro exI [of _ "cs @ (Go, 0) # ds"]) (simp only: pfq_steps_append)
qed

end
