(* ===== verification/Mpsc_Queue.thy ===== *)
theory Mpsc_Queue
  imports Interleaving Splay "HOL-Library.Sublist"
begin

text \<open>
  The queues with many producers and one consumer that carry the records of the GPU channels:
  \<open>src/common/lean/collections/mpsc-queue.h\<close> and \<open>src/common/lean/producer_wfq.c\<close>. The operations are cut at their accesses to
  shared memory. An entry is enqueued by the thread that owns it and belongs to the consumer when a dequeue has returned it, so
  the running calls of enqueue are named by their entries: \<open>mq_entry\<close> says which access the enqueue of an entry performs next, \<open>Deq_\<close>
  and \<open>Wfq_\<close> constructors say it for the consumer. \<open>Wfq_Fault\<close> is an access through a null pointer.
\<close>

section \<open>Data\<close>

record mpsc_queue_t =
  mq_head :: "ptr option"
  mq_tail :: "ptr option"
  mq_next :: "ptr \<Rightarrow> ptr option"

datatype mq_entry = Free | Enq_Clear | Enq_Swap | Enq_Link "ptr option" | Queued

datatype mq_consumer = Deq_Idle | Deq_Head | Deq_Next ptr | Deq_Advance ptr ptr | Deq_Tail ptr | Deq_Clear ptr
  | Wfq_Head | Wfq_Empty | Wfq_Next ptr | Wfq_Advance ptr ptr | Wfq_Tail ptr | Wfq_Wait ptr | Wfq_Load ptr | Wfq_Store ptr "ptr option" | Wfq_Fault
  | Deq_Returns "ptr option"

section \<open>Operations\<close>

definition mpsc_queue_init :: "mpsc_queue_t \<Rightarrow> mpsc_queue_t" where
  "mpsc_queue_init q = q\<lparr> mq_head := None, mq_tail := None \<rparr>"

fun mpsc_queue_enqueue :: "ptr \<Rightarrow> mq_entry \<Rightarrow> mpsc_queue_t \<Rightarrow> mq_entry \<times> mpsc_queue_t" where
  "mpsc_queue_enqueue e Enq_Clear q = (Enq_Swap, q\<lparr> mq_next := (mq_next q)(e := None) \<rparr>)"
| "mpsc_queue_enqueue e Enq_Swap q = (Enq_Link (mq_tail q), q\<lparr> mq_tail := Some e \<rparr>)"
| "mpsc_queue_enqueue e (Enq_Link predecessor) q = (Queued,
    (case predecessor of Some p \<Rightarrow> q\<lparr> mq_next := (mq_next q)(p := Some e) \<rparr> | None \<Rightarrow> q\<lparr> mq_head := Some e \<rparr>))"
| "mpsc_queue_enqueue e s q = (s, q)"

fun mpsc_queue_dequeue :: "mq_consumer \<Rightarrow> mpsc_queue_t \<Rightarrow> mq_consumer \<times> mpsc_queue_t" where
  "mpsc_queue_dequeue Deq_Head q = (case mq_head q of Some f \<Rightarrow> Deq_Next f | None \<Rightarrow> Deq_Returns None, q)"
| "mpsc_queue_dequeue (Deq_Next f) q = (case mq_next q f of Some n \<Rightarrow> Deq_Advance f n | None \<Rightarrow> Deq_Tail f, q)"
| "mpsc_queue_dequeue (Deq_Advance f n) q = (Deq_Returns (Some f), q\<lparr> mq_head := Some n \<rparr>)"
| "mpsc_queue_dequeue (Deq_Tail f) q =
    (if mq_tail q = Some f then (Deq_Clear f, q\<lparr> mq_tail := None \<rparr>) else (Deq_Returns None, q))"
| "mpsc_queue_dequeue (Deq_Clear f) q =
    (Deq_Returns (Some f), if mq_head q = Some f then q\<lparr> mq_head := None \<rparr> else q)"
| "mpsc_queue_dequeue c q = (c, q)"

definition producer_wfq_init :: "mpsc_queue_t \<Rightarrow> mpsc_queue_t" where
  "producer_wfq_init q = q\<lparr> mq_head := None, mq_tail := None \<rparr>"

fun producer_wfq_enqueue :: "ptr \<Rightarrow> mq_entry \<Rightarrow> mpsc_queue_t \<Rightarrow> mq_entry \<times> mpsc_queue_t" where
  "producer_wfq_enqueue e Enq_Clear q = (Enq_Swap, q\<lparr> mq_next := (mq_next q)(e := None) \<rparr>)"
| "producer_wfq_enqueue e Enq_Swap q = (Enq_Link (mq_tail q), q\<lparr> mq_tail := Some e \<rparr>)"
| "producer_wfq_enqueue e (Enq_Link l) q = (Queued,
    (case l of None \<Rightarrow> q\<lparr> mq_head := Some e \<rparr> | Some p \<Rightarrow> q\<lparr> mq_next := (mq_next q)(p := Some e) \<rparr>))"
| "producer_wfq_enqueue e s q = (s, q)"

fun producer_wfq_dequeue :: "mq_consumer \<Rightarrow> mpsc_queue_t \<Rightarrow> mq_consumer \<times> mpsc_queue_t" where
  "producer_wfq_dequeue Wfq_Head q = (case mq_head q of Some f \<Rightarrow> Wfq_Next f | None \<Rightarrow> Wfq_Empty, q\<lparr> mq_head := None \<rparr>)"
| "producer_wfq_dequeue Wfq_Empty q = (case mq_tail q of None \<Rightarrow> Deq_Returns None | Some _ \<Rightarrow> Wfq_Head, q)"
| "producer_wfq_dequeue (Wfq_Next f) q = (case mq_next q f of Some second \<Rightarrow> Wfq_Advance f second | None \<Rightarrow> Wfq_Tail f, q)"
| "producer_wfq_dequeue (Wfq_Advance f second) q = (Deq_Returns (Some f), q\<lparr> mq_head := Some second \<rparr>)"
| "producer_wfq_dequeue (Wfq_Tail f) q =
    (case mq_tail q of None \<Rightarrow> (Wfq_Fault, q)
     | Some t \<Rightarrow> if t = f then (Deq_Returns (Some f), q\<lparr> mq_tail := None \<rparr>) else (Wfq_Wait t, q))"
| "producer_wfq_dequeue (Wfq_Wait f) q = (case mq_next q f of None \<Rightarrow> Wfq_Wait f | Some _ \<Rightarrow> Wfq_Load f, q)"
| "producer_wfq_dequeue (Wfq_Load f) q = (Wfq_Store f (mq_next q f), q)"
| "producer_wfq_dequeue (Wfq_Store f n) q = (Deq_Returns (Some f), q\<lparr> mq_head := n \<rparr>)"
| "producer_wfq_dequeue c q = (c, q)"

section \<open>Executions\<close>

text \<open>
  \<open>mq_history enq deq first s arrivals returned\<close>: the calls can reach the state \<open>s\<close> so that the entries took their places at the tail in the
  order \<open>arrivals\<close>, and the consumer got the entries \<open>returned\<close>. The queue of \<open>mpsc-queue.h\<close> and the one of \<open>producer_wfq.c\<close> differ in
  the operations, and in the first access of a dequeue.
\<close>

record mq_state =
  ms_queue :: mpsc_queue_t
  ms_entry :: "ptr \<Rightarrow> mq_entry"
  ms_consumer :: mq_consumer

datatype mq_move = Call_Enqueue ptr | Enqueue ptr | Call_Dequeue | Dequeue

type_synonym mq_enqueue = "ptr \<Rightarrow> mq_entry \<Rightarrow> mpsc_queue_t \<Rightarrow> mq_entry \<times> mpsc_queue_t"
type_synonym mq_dequeue = "mq_consumer \<Rightarrow> mpsc_queue_t \<Rightarrow> mq_consumer \<times> mpsc_queue_t"

fun mq_next_state :: "mq_enqueue \<Rightarrow> mq_dequeue \<Rightarrow> mq_consumer \<Rightarrow> mq_move \<Rightarrow> mq_state \<Rightarrow> mq_state" where
  "mq_next_state enq deq first (Call_Enqueue e) s = (if ms_entry s e = Free then s\<lparr> ms_entry := (ms_entry s)(e := Enq_Clear) \<rparr> else s)"
| "mq_next_state enq deq first (Enqueue e) s =
    (if ms_entry s e = Free \<or> ms_entry s e = Queued then s
     else (case enq e (ms_entry s e) (ms_queue s) of (p, q) \<Rightarrow> s\<lparr> ms_entry := (ms_entry s)(e := p), ms_queue := q \<rparr>))"
| "mq_next_state enq deq first Call_Dequeue s = (if ms_consumer s = Deq_Idle then s\<lparr> ms_consumer := first \<rparr> else s)"
| "mq_next_state enq deq first Dequeue s =
    (case ms_consumer s of
       Deq_Idle \<Rightarrow> s | Wfq_Fault \<Rightarrow> s
     | Deq_Returns r \<Rightarrow> s\<lparr> ms_consumer := Deq_Idle, ms_entry := (case r of Some f \<Rightarrow> (ms_entry s)(f := Free) | None \<Rightarrow> ms_entry s) \<rparr>
     | c \<Rightarrow> (case deq c (ms_queue s) of (c', q) \<Rightarrow> s\<lparr> ms_consumer := c', ms_queue := q \<rparr>))"

definition mq_arrival :: "mq_move \<Rightarrow> mq_state \<Rightarrow> ptr list" where
  "mq_arrival m s = (case m of Enqueue e \<Rightarrow> if ms_entry s e = Enq_Swap then [e] else [] | _ \<Rightarrow> [])"

definition mq_return :: "mq_move \<Rightarrow> mq_state \<Rightarrow> ptr list" where
  "mq_return m s = (case (m, ms_consumer s) of (Dequeue, Deq_Returns (Some f)) \<Rightarrow> [f] | _ \<Rightarrow> [])"

definition mq_start :: "(mpsc_queue_t \<Rightarrow> mpsc_queue_t) \<Rightarrow> mq_state \<Rightarrow> bool" where
  "mq_start ini s \<longleftrightarrow> (\<exists>q. ms_queue s = ini q) \<and> (\<forall>e. ms_entry s e = Free) \<and> ms_consumer s = Deq_Idle"

inductive mq_history :: "mq_enqueue \<Rightarrow> mq_dequeue \<Rightarrow> mq_consumer \<Rightarrow> (mpsc_queue_t \<Rightarrow> mpsc_queue_t) \<Rightarrow> mq_state \<Rightarrow> ptr list \<Rightarrow> ptr list \<Rightarrow> bool"
  for enq deq first ini where
  history_start: "mq_start ini s \<Longrightarrow> mq_history enq deq first ini s [] []"
| history_step: "mq_history enq deq first ini s arrivals returned \<Longrightarrow>
    mq_history enq deq first ini (mq_next_state enq deq first m s) (arrivals @ mq_arrival m s) (returned @ mq_return m s)"

abbreviation mpsc_history :: "mq_state \<Rightarrow> ptr list \<Rightarrow> ptr list \<Rightarrow> bool" where
  "mpsc_history \<equiv> mq_history mpsc_queue_enqueue mpsc_queue_dequeue Deq_Head mpsc_queue_init"

abbreviation wfq_history :: "mq_state \<Rightarrow> ptr list \<Rightarrow> ptr list \<Rightarrow> bool" where
  "wfq_history \<equiv> mq_history producer_wfq_enqueue producer_wfq_dequeue Wfq_Head producer_wfq_init"

section \<open>The invariant\<close>

text \<open>The entries \<open>Q\<close> that arrived and were not taken form a list in which the link to an entry may still be missing.\<close>

fun mq_in :: "mq_entry \<Rightarrow> bool" where
  "mq_in (Enq_Link _) = True" | "mq_in Queued = True" | "mq_in _ = False"

definition mq_behind :: "(ptr \<Rightarrow> ptr option) \<Rightarrow> (ptr \<Rightarrow> mq_entry) \<Rightarrow> ptr \<Rightarrow> ptr \<Rightarrow> bool" where
  "mq_behind nx st p u \<longleftrightarrow> st u = Queued \<and> nx p = Some u \<or> st u = Enq_Link (Some p) \<and> nx p = None"

fun mq_lined :: "(ptr \<Rightarrow> ptr option) \<Rightarrow> (ptr \<Rightarrow> mq_entry) \<Rightarrow> ptr list \<Rightarrow> bool" where
  "mq_lined nx st [] \<longleftrightarrow> True"
| "mq_lined nx st [p] \<longleftrightarrow> nx p = None"
| "mq_lined nx st (p # u # Q) \<longleftrightarrow> mq_behind nx st p u \<and> mq_lined nx st (u # Q)"

fun taken :: "mq_consumer \<Rightarrow> ptr list" where
  "taken (Deq_Clear f) = [f]" | "taken (Deq_Returns (Some f)) = [f]" | "taken _ = []"

fun consumer_ok :: "mq_consumer \<Rightarrow> mpsc_queue_t \<Rightarrow> ptr list \<Rightarrow> bool" where
  "consumer_ok (Deq_Next f) q Q = (\<exists>R. Q = f # R \<and> mq_head q = Some f)"
| "consumer_ok (Deq_Advance f n) q Q = (\<exists>R. Q = f # n # R \<and> mq_head q = Some f \<and> mq_next q f = Some n)"
| "consumer_ok (Deq_Tail f) q Q = (\<exists>R. Q = f # R \<and> mq_head q = Some f)"
| "consumer_ok Deq_Idle q Q = True" | "consumer_ok Deq_Head q Q = True" | "consumer_ok (Deq_Clear f) q Q = True" | "consumer_ok (Deq_Returns r) q Q = True"
| "consumer_ok _ q Q = False"

definition head_ok :: "mq_state \<Rightarrow> ptr list \<Rightarrow> bool" where
  "head_ok s Q \<longleftrightarrow> (case Q of
      f # R \<Rightarrow> ms_entry s f = Queued \<and> mq_head (ms_queue s) = Some f \<or>
               ms_entry s f = Enq_Link None \<and> (mq_head (ms_queue s) = None \<or> (\<exists>g. ms_consumer s = Deq_Clear g \<and> mq_head (ms_queue s) = Some g))
    | [] \<Rightarrow> mq_head (ms_queue s) = None \<or> (\<exists>g. ms_consumer s = Deq_Clear g \<and> mq_head (ms_queue s) = Some g))"

definition mq_inv :: "mq_state \<Rightarrow> ptr list \<Rightarrow> bool" where
  "mq_inv s Q \<longleftrightarrow> distinct (taken (ms_consumer s) @ Q) \<and> {e. mq_in (ms_entry s e)} = set (taken (ms_consumer s) @ Q) \<and>
     (\<forall>f \<in> set (taken (ms_consumer s)). ms_entry s f = Queued) \<and>
     mq_tail (ms_queue s) = (if Q = [] then None else Some (last Q)) \<and> mq_lined (mq_next (ms_queue s)) (ms_entry s) Q \<and> head_ok s Q \<and>
     consumer_ok (ms_consumer s) (ms_queue s) Q \<and> (\<forall>e. ms_entry s e = Enq_Swap \<longrightarrow> mq_next (ms_queue s) e = None)"

lemma mq_invD:
  assumes "mq_inv s Q"
  shows "distinct (taken (ms_consumer s) @ Q)" "mq_in (ms_entry s e) \<longleftrightarrow> e \<in> set (taken (ms_consumer s) @ Q)"
    "f \<in> set (taken (ms_consumer s)) \<Longrightarrow> ms_entry s f = Queued" "mq_tail (ms_queue s) = (if Q = [] then None else Some (last Q))"
    "mq_lined (mq_next (ms_queue s)) (ms_entry s) Q" "head_ok s Q" "consumer_ok (ms_consumer s) (ms_queue s) Q"
    "ms_entry s e = Enq_Swap \<Longrightarrow> mq_next (ms_queue s) e = None"
  using assms unfolding mq_inv_def by (auto simp del: set_append)

lemma mq_lined_cong:
  "(\<And>p. p \<in> set Q \<Longrightarrow> nx' p = nx p) \<Longrightarrow> (\<And>p. p \<in> set Q \<Longrightarrow> st' p = st p) \<Longrightarrow> mq_lined nx' st' Q = mq_lined nx st Q"
  by (induction nx st Q rule: mq_lined.induct) (auto simp: mq_behind_def)

lemma mq_lined_last: "mq_lined nx st Q \<Longrightarrow> Q \<noteq> [] \<Longrightarrow> nx (last Q) = None"
  by (induction nx st Q rule: mq_lined.induct) auto

lemma mq_lined_snoc:
  "mq_lined nx st Q \<Longrightarrow> Q \<noteq> [] \<Longrightarrow> e \<notin> set Q \<Longrightarrow> nx e = None \<Longrightarrow> mq_lined nx (st(e := Enq_Link (Some (last Q)))) (Q @ [e])"
  by (induction nx st Q rule: mq_lined.induct) (auto simp: mq_behind_def)

text \<open>An entry that is to be linked has its predecessor in front of it, whose link is missing.\<close>

lemma mq_lined_link:
  "mq_lined nx st Q \<Longrightarrow> distinct Q \<Longrightarrow> e \<in> set (tl Q) \<Longrightarrow> st e = Enq_Link (Some p) \<Longrightarrow> mq_lined (nx(p := Some e)) (st(e := Queued)) Q"
  "mq_lined nx st Q \<Longrightarrow> e \<in> set (tl Q) \<Longrightarrow> st e = Enq_Link (Some p) \<Longrightarrow> p \<in> set Q \<and> nx p = None"
  "mq_lined nx st Q \<Longrightarrow> e \<in> set (tl Q) \<Longrightarrow> st e \<noteq> Enq_Link None"
proof (induction nx st Q rule: mq_lined.induct)
  case (3 nx st h u Q)
  {
    case 1
    show ?case
    proof (cases "e = u")
      case True
      then have "p = h" using 1 by (auto simp: mq_behind_def)
      moreover have "mq_lined (nx(h := Some u)) (st(u := Queued)) (u # Q)"
        using 1 True by (cases Q) (auto simp: mq_behind_def intro: mq_lined_cong [THEN iffD1, rotated -1])
      ultimately show ?thesis using True by (simp add: mq_behind_def fun_upd_def)
    next
      case False
      then have "e \<in> set Q" using 1 by simp
      moreover from this have "p \<in> set (u # Q)" using 1 "3.IH"(2) by auto
      ultimately show ?thesis using 1 "3.IH"(1) False by (auto simp: mq_behind_def)
    qed
  next
    case 2
    then show ?case using "3.IH"(2) by (cases "e = u") (auto simp: mq_behind_def)
  next
    case 3
    then show ?case using "3.IH"(3) by (cases "e = u") (auto simp: mq_behind_def)
  }
qed auto

lemma mq_swap_inv:
  assumes inv: "mq_inv s Q" and e: "ms_entry s e = Enq_Swap"
  shows "mq_inv (s\<lparr> ms_entry := (ms_entry s)(e := Enq_Link (mq_tail (ms_queue s))), ms_queue := (ms_queue s)\<lparr> mq_tail := Some e \<rparr> \<rparr>) (Q @ [e])"
proof -
  note I = mq_invD [OF inv]
  have n: "e \<notin> set Q" "e \<notin> set (taken (ms_consumer s))" using I(2) [of e] e by auto
  have "mq_lined (mq_next (ms_queue s)) ((ms_entry s)(e := Enq_Link (mq_tail (ms_queue s)))) (Q @ [e])"
    using mq_lined_snoc [OF I(5) _ n(1) I(8) [OF e]] I(4) I(8) [OF e] by (cases "Q = []") auto
  moreover have "head_ok (s\<lparr> ms_entry := (ms_entry s)(e := Enq_Link (mq_tail (ms_queue s))), ms_queue := (ms_queue s)\<lparr> mq_tail := Some e \<rparr> \<rparr>) (Q @ [e])"
    using I(4,6) n by (cases Q) (auto simp: head_ok_def)
  moreover have "consumer_ok (ms_consumer s) ((ms_queue s)\<lparr> mq_tail := Some e \<rparr>) (Q @ [e])"
    using I(7) by (cases "ms_consumer s") auto
  moreover have "{x. mq_in (((ms_entry s)(e := Enq_Link (mq_tail (ms_queue s)))) x)} = set (taken (ms_consumer s) @ Q @ [e])"
    using I(2) by auto
  ultimately show ?thesis using I(1,3,8) n unfolding mq_inv_def by auto
qed

lemma mq_link_inv:
  assumes inv: "mq_inv s Q" and e: "ms_entry s e = Enq_Link (Some p)"
  shows "mq_inv (s\<lparr> ms_entry := (ms_entry s)(e := Queued), ms_queue := (ms_queue s)\<lparr> mq_next := (mq_next (ms_queue s))(p := Some e) \<rparr> \<rparr>) Q"
proof -
  note I = mq_invD [OF inv]
  have t: "e \<in> set (tl Q)"
  proof -
    have "e \<in> set Q" using I(2) [of e] I(3) [of e] e by auto
    then show ?thesis using I(6) e by (cases Q) (auto simp: head_ok_def)
  qed
  have d: "distinct Q" using I(1) by simp
  note l = mq_lined_link(1) [OF I(5) d t e] mq_lined_link(2) [OF I(5) t e]
  have hd: "Q \<noteq> []" "hd Q \<noteq> e" using t d by (cases Q; auto)+
  then have "head_ok (s\<lparr> ms_entry := (ms_entry s)(e := Queued), ms_queue := (ms_queue s)\<lparr> mq_next := (mq_next (ms_queue s))(p := Some e) \<rparr> \<rparr>) Q"
    using I(6) by (cases Q) (auto simp: head_ok_def)
  moreover have "consumer_ok (ms_consumer s) ((ms_queue s)\<lparr> mq_next := (mq_next (ms_queue s))(p := Some e) \<rparr>) Q"
    using I(7) l(2) by (cases "ms_consumer s") auto
  moreover have "{x. mq_in (((ms_entry s)(e := Queued)) x)} = set (taken (ms_consumer s) @ Q)"
    using I(2) I(2) [of e] e by auto
  moreover have "mq_next (ms_queue s) x = None \<and> x \<noteq> p" if "ms_entry s x = Enq_Swap" for x
    using I(8) [OF that] I(2) [of x] l(2) that by auto
  ultimately show ?thesis using I(1,3,4) l(1) unfolding mq_inv_def by auto
qed

lemma mq_head_inv:
  assumes inv: "mq_inv s Q" and e: "ms_entry s e = Enq_Link None"
  shows "mq_inv (s\<lparr> ms_entry := (ms_entry s)(e := Queued), ms_queue := (ms_queue s)\<lparr> mq_head := Some e \<rparr> \<rparr>) Q"
proof -
  note I = mq_invD [OF inv]
  have "e \<in> set Q" using I(2) [of e] I(3) [of e] e by auto
  moreover have "e \<notin> set (tl Q)" using mq_lined_link(3) [OF I(5)] e by auto
  ultimately obtain R where Q: "Q = e # R" by (cases Q) auto
  have "mq_lined (mq_next (ms_queue s)) ((ms_entry s)(e := Queued)) Q"
    using I(1,5) unfolding Q by (cases R) (auto simp: mq_behind_def fun_upd_def intro: mq_lined_cong [THEN iffD1, rotated -1])
  moreover have "head_ok (s\<lparr> ms_entry := (ms_entry s)(e := Queued), ms_queue := (ms_queue s)\<lparr> mq_head := Some e \<rparr> \<rparr>) Q" by (simp add: head_ok_def Q)
  moreover have "consumer_ok (ms_consumer s) ((ms_queue s)\<lparr> mq_head := Some e \<rparr>) Q"
    using I(6,7) e Q by (cases "ms_consumer s") (auto simp: head_ok_def)
  moreover have "{x. mq_in (((ms_entry s)(e := Queued)) x)} = set (taken (ms_consumer s) @ Q)"
    using I(2) I(2) [of e] e by auto
  ultimately show ?thesis using I(1,3,4,8) unfolding mq_inv_def by auto
qed

lemma mq_clear_inv:
  assumes inv: "mq_inv s Q" and e: "ms_entry s e = Enq_Clear"
  shows "mq_inv (s\<lparr> ms_entry := (ms_entry s)(e := Enq_Swap), ms_queue := (ms_queue s)\<lparr> mq_next := (mq_next (ms_queue s))(e := None) \<rparr> \<rparr>) Q"
proof -
  note I = mq_invD [OF inv]
  have n: "e \<notin> set Q" "e \<notin> set (taken (ms_consumer s))" using I(2) [of e] e by auto
  have "mq_lined ((mq_next (ms_queue s))(e := None)) ((ms_entry s)(e := Enq_Swap)) Q = mq_lined (mq_next (ms_queue s)) (ms_entry s) Q"
    by (rule mq_lined_cong) (use n in auto)
  moreover have "head_ok (s\<lparr> ms_entry := (ms_entry s)(e := Enq_Swap), ms_queue := (ms_queue s)\<lparr> mq_next := (mq_next (ms_queue s))(e := None) \<rparr> \<rparr>) Q"
    using I(6) n by (cases Q) (auto simp: head_ok_def)
  moreover have "consumer_ok (ms_consumer s) ((ms_queue s)\<lparr> mq_next := (mq_next (ms_queue s))(e := None) \<rparr>) Q"
    using I(7) n by (cases "ms_consumer s") auto
  moreover have "{x. mq_in (((ms_entry s)(e := Enq_Swap)) x)} = set (taken (ms_consumer s) @ Q)"
    using I(2) I(2) [of e] e by auto
  ultimately show ?thesis using I(1,3-5,8) n unfolding mq_inv_def by auto
qed

text \<open>The consumer: a step without a store, the two ways to take an entry, and the return.\<close>

lemma mq_look_inv:
  assumes inv: "mq_inv s Q" and c: "taken c = taken (ms_consumer s)" "consumer_ok c (ms_queue s) Q" and "\<And>g. ms_consumer s \<noteq> Deq_Clear g"
  shows "mq_inv (s\<lparr> ms_consumer := c \<rparr>) Q"
proof -
  note I = mq_invD [OF inv]
  have "head_ok (s\<lparr> ms_consumer := c \<rparr>) Q" using I(6) assms(4) by (auto simp: head_ok_def split: list.splits)
  then show ?thesis using inv c unfolding mq_inv_def by auto
qed

lemma mq_advance_inv:
  assumes inv: "mq_inv s Q" and c: "ms_consumer s = Deq_Advance f n"
  shows "\<exists>R. Q = f # n # R \<and> mq_inv (s\<lparr> ms_consumer := Deq_Returns (Some f), ms_queue := (ms_queue s)\<lparr> mq_head := Some n \<rparr> \<rparr>) (n # R)"
proof -
  note I = mq_invD [OF inv]
  obtain R where Q: "Q = f # n # R" "mq_head (ms_queue s) = Some f" "mq_next (ms_queue s) f = Some n" using I(7) c by auto
  have "mq_behind (mq_next (ms_queue s)) (ms_entry s) f n" "mq_lined (mq_next (ms_queue s)) (ms_entry s) (n # R)" using I(5) Q by simp_all
  moreover from this have "ms_entry s n = Queued" using Q by (auto simp: mq_behind_def)
  moreover have "ms_entry s f = Queued" using I(6) Q c by (auto simp: head_ok_def)
  ultimately have "mq_inv (s\<lparr> ms_consumer := Deq_Returns (Some f), ms_queue := (ms_queue s)\<lparr> mq_head := Some n \<rparr> \<rparr>) (n # R)"
    using I(1-4,8) c Q by (auto simp: mq_inv_def head_ok_def)
  then show ?thesis using Q(1) by blast
qed

lemma mq_single_inv:
  assumes inv: "mq_inv s Q" and c: "ms_consumer s = Deq_Tail f" and t: "mq_tail (ms_queue s) = Some f"
  shows "Q = [f] \<and> mq_inv (s\<lparr> ms_consumer := Deq_Clear f, ms_queue := (ms_queue s)\<lparr> mq_tail := None \<rparr> \<rparr>) []"
proof -
  note I = mq_invD [OF inv]
  obtain R where Q: "Q = f # R" "mq_head (ms_queue s) = Some f" using I(7) c by auto
  have "R = []" using I(1,4) Q t by (cases R rule: rev_cases) auto
  moreover have "ms_entry s f = Queued" using I(6) Q c by (auto simp: head_ok_def)
  ultimately show ?thesis using I(2,8) c Q by (auto simp: mq_inv_def head_ok_def)
qed

lemma mq_clear_head_inv:
  assumes inv: "mq_inv s Q" and c: "ms_consumer s = Deq_Clear f"
  shows "mq_inv (s\<lparr> ms_consumer := Deq_Returns (Some f), ms_queue := if mq_head (ms_queue s) = Some f then (ms_queue s)\<lparr> mq_head := None \<rparr> else ms_queue s \<rparr>) Q"
    (is "mq_inv ?s Q")
proof -
  note I = mq_invD [OF inv]
  have "head_ok ?s Q" using I(1,6) c by (cases Q) (auto simp: head_ok_def)
  then show ?thesis using I(1-5,8) c unfolding mq_inv_def by auto
qed

lemma mq_return_inv:
  assumes inv: "mq_inv s Q" and c: "ms_consumer s = Deq_Returns r"
  shows "mq_inv (s\<lparr> ms_consumer := Deq_Idle, ms_entry := (case r of Some f \<Rightarrow> (ms_entry s)(f := Free) | None \<Rightarrow> ms_entry s) \<rparr>) Q"
proof (cases r)
  case None
  then show ?thesis using mq_look_inv [OF inv, of Deq_Idle] c by simp
next
  case (Some f)
  note I = mq_invD [OF inv]
  have f: "f \<notin> set Q" using I(1) c Some by simp
  have "mq_lined (mq_next (ms_queue s)) ((ms_entry s)(f := Free)) Q = mq_lined (mq_next (ms_queue s)) (ms_entry s) Q"
    by (rule mq_lined_cong) (use f in auto)
  moreover have "head_ok (s\<lparr> ms_consumer := Deq_Idle, ms_entry := (ms_entry s)(f := Free) \<rparr>) Q"
    using I(6) f c by (cases Q) (auto simp: head_ok_def)
  ultimately show ?thesis using I(1-5,8) c Some f unfolding mq_inv_def by auto
qed

text \<open>A move keeps the invariant, and the entries that were taken and are in the queue change by what arrives and what is returned.\<close>

abbreviation mpsc_next :: "mq_move \<Rightarrow> mq_state \<Rightarrow> mq_state" where
  "mpsc_next \<equiv> mq_next_state mpsc_queue_enqueue mpsc_queue_dequeue Deq_Head"

lemma mpsc_enqueue_inv:
  assumes inv: "mq_inv s Q"
  shows "mq_inv (mpsc_next (Enqueue e) s) (Q @ mq_arrival (Enqueue e) s)" "ms_consumer (mpsc_next (Enqueue e) s) = ms_consumer s"
    "mq_inv (mpsc_next (Call_Enqueue e) s) Q"
proof -
  show "mq_inv (mpsc_next (Enqueue e) s) (Q @ mq_arrival (Enqueue e) s)"
  proof (cases "ms_entry s e")
    case (Enq_Link p)
    then show ?thesis using inv mq_link_inv [OF inv, of e] mq_head_inv [OF inv, of e] by (cases p) (auto simp: mq_arrival_def)
  qed (use inv mq_swap_inv [OF inv] mq_clear_inv [OF inv] in \<open>auto simp: mq_arrival_def\<close>)
  show "ms_consumer (mpsc_next (Enqueue e) s) = ms_consumer s" by (auto split: prod.split)
  show "mq_inv (mpsc_next (Call_Enqueue e) s) Q"
  proof (cases "ms_entry s e = Free")
    case True
    note I = mq_invD [OF inv]
    have n: "e \<notin> set Q" "e \<notin> set (taken (ms_consumer s))" using I(2) [of e] True by auto
    have "mq_lined (mq_next (ms_queue s)) ((ms_entry s)(e := Enq_Clear)) Q = mq_lined (mq_next (ms_queue s)) (ms_entry s) Q"
      by (rule mq_lined_cong) (use n in auto)
    moreover have "head_ok (s\<lparr> ms_entry := (ms_entry s)(e := Enq_Clear) \<rparr>) Q" using I(6) n by (cases Q) (auto simp: head_ok_def)
    moreover have "{x. mq_in (((ms_entry s)(e := Enq_Clear)) x)} = set (taken (ms_consumer s) @ Q)" using I(2) I(2) [of e] True by auto
    ultimately show ?thesis using I(1,3-5,7,8) n True unfolding mq_inv_def by auto
  qed (use inv in simp)
qed

lemma mpsc_dequeue_inv:
  assumes inv: "mq_inv s Q"
  shows "\<exists>Q'. mq_inv (mpsc_next Dequeue s) Q' \<and> taken (ms_consumer s) @ Q = mq_return Dequeue s @ taken (ms_consumer (mpsc_next Dequeue s)) @ Q'"
proof (cases "ms_consumer s")
  case Deq_Head
  have "mq_head (ms_queue s) = Some f \<Longrightarrow> \<exists>R. Q = f # R" for f
    using mq_invD(6) [OF inv] Deq_Head by (cases Q) (auto simp: head_ok_def)
  then show ?thesis using Deq_Head
    by (intro exI [of _ Q]) (auto simp: mq_return_def intro!: mq_look_inv [OF inv] split: option.split)
next
  case (Deq_Next f)
  obtain R where R: "Q = f # R" "mq_head (ms_queue s) = Some f" using mq_invD(7) [OF inv] Deq_Next by auto
  show ?thesis
  proof (cases "mq_next (ms_queue s) f")
    case None
    then show ?thesis using Deq_Next R mq_look_inv [OF inv, of "Deq_Tail f"] by (intro exI [of _ Q]) (auto simp: mq_return_def)
  next
    case (Some n)
    then have "\<exists>R'. R = n # R'" using mq_invD(5) [OF inv] R by (cases R) (auto simp: mq_behind_def)
    then show ?thesis using Deq_Next R Some mq_look_inv [OF inv, of "Deq_Advance f n"] by (intro exI [of _ Q]) (auto simp: mq_return_def)
  qed
next
  case (Deq_Advance f n)
  then show ?thesis using mq_advance_inv [OF inv] by (fastforce simp: mq_return_def)
next
  case (Deq_Tail f)
  then show ?thesis using mq_single_inv [OF inv] mq_look_inv [OF inv, of "Deq_Returns None"] by (fastforce simp: mq_return_def)
next
  case (Deq_Clear f)
  then show ?thesis using mq_clear_head_inv [OF inv] by (fastforce simp: mq_return_def)
next
  case (Deq_Returns r)
  then show ?thesis using mq_return_inv [OF inv] by (intro exI [of _ Q]) (cases r; simp add: mq_return_def)
qed (use inv mq_invD(7) [OF inv] in \<open>auto simp: mq_return_def\<close>)

lemma mpsc_history_inv:
  "mpsc_history s arrivals returned \<Longrightarrow> \<exists>Q. mq_inv s Q \<and> arrivals = returned @ taken (ms_consumer s) @ Q"
proof (induction rule: mq_history.induct)
  case (history_start s)
  then have "mq_inv s []" by (auto simp: mq_inv_def mq_start_def head_ok_def mpsc_queue_init_def)
  with history_start show ?case by (auto simp: mq_start_def)
next
  case (history_step s arrivals returned m)
  then obtain Q where Q: "mq_inv s Q" "arrivals = returned @ taken (ms_consumer s) @ Q" by blast
  show ?case
  proof (cases m)
    case (Call_Enqueue e)
    then show ?thesis using Q mpsc_enqueue_inv(3) [OF Q(1)] by (intro exI [of _ Q]) (auto simp: mq_arrival_def mq_return_def)
  next
    case (Enqueue e)
    then show ?thesis using Q mpsc_enqueue_inv(1,2) [OF Q(1), of e] by (intro exI [of _ "Q @ mq_arrival m s"]) (auto simp: mq_return_def)
  next
    case Call_Dequeue
    then show ?thesis using Q mq_look_inv [OF Q(1), of Deq_Head] by (intro exI [of _ Q]) (auto simp: mq_arrival_def mq_return_def)
  next
    case Dequeue
    then show ?thesis using Q mpsc_dequeue_inv [OF Q(1)] by (auto simp: mq_arrival_def)
  qed
qed

section \<open>Examples of executions\<close>

fun mq_run :: "mq_enqueue \<Rightarrow> mq_dequeue \<Rightarrow> mq_consumer \<Rightarrow> mq_move list \<Rightarrow> mq_state \<times> ptr list \<times> ptr list \<Rightarrow> mq_state \<times> ptr list \<times> ptr list" where
  "mq_run enq deq first [] h = h"
| "mq_run enq deq first (m # ms) (s, a, r) = mq_run enq deq first ms (mq_next_state enq deq first m s, a @ mq_arrival m s, r @ mq_return m s)"

lemma mq_run_history:
  assumes "mq_history enq deq first ini s a r" and "mq_run enq deq first ms (s, a, r) = (s', a', r')"
  shows "mq_history enq deq first ini s' a' r'"
  using assms by (induction ms arbitrary: s a r) (auto intro: mq_history.history_step)

definition example_mq :: mq_state where
  "example_mq = \<lparr> ms_queue = \<lparr> mq_head = None, mq_tail = None, mq_next = (\<lambda>_. None) \<rparr>, ms_entry = (\<lambda>_. Free), ms_consumer = Deq_Idle \<rparr>"

definition race_moves :: "mq_move list" where
  "race_moves = Call_Enqueue 1 # replicate 3 (Enqueue 1) @ Call_Enqueue 2 # replicate 2 (Enqueue 2) @ Call_Dequeue # replicate 3 Dequeue @
     Enqueue 2 # Call_Enqueue 3 # replicate 3 (Enqueue 3) @ replicate 4 Dequeue"

lemma example_mq_start:
  "mq_start mpsc_queue_init example_mq" "mq_start producer_wfq_init example_mq"
  by (auto simp: mq_start_def example_mq_def mpsc_queue_init_def producer_wfq_init_def intro: exI [of _ "\<lparr> mq_head = None, mq_tail = None, mq_next = (\<lambda>_. None) \<rparr>"])

definition race_state :: mq_state where
  "race_state = fst (mq_run mpsc_queue_enqueue mpsc_queue_dequeue Deq_Head race_moves (example_mq, [], []))"

lemma race_history:
  "mpsc_history race_state [1, 2, 3] []" "ms_consumer race_state = Deq_Idle" "ms_entry race_state e = (if e = 1 \<or> e = 2 \<or> e = 3 then Queued else Free)"
proof -
  have r: "snd (mq_run mpsc_queue_enqueue mpsc_queue_dequeue Deq_Head race_moves (example_mq, [], [])) = ([1, 2, 3], [])" by code_simp
  show "mpsc_history race_state [1, 2, 3] []"
    by (rule mq_run_history [OF mq_history.history_start]) (use r in \<open>auto simp: race_state_def example_mq_start prod_eq_iff\<close>)
  show "ms_consumer race_state = Deq_Idle" by code_simp
  show "ms_entry race_state e = (if e = 1 \<or> e = 2 \<or> e = 3 then Queued else Free)"
    by (simp add: race_state_def race_moves_def example_mq_def numeral_eq_Suc mq_arrival_def mq_return_def)
qed

section \<open>Properties\<close>

text \<open>
  C15. First in, first out, without loss: whatever the producers and the consumer do, in every interleaving of their accesses the entries
  that \<open>dequeue\<close> has returned are the first of those that arrived at the tail, in that order; all others are still in the queue or
  on their way to the consumer, each once.
\<close>

theorem mpsc_queue_fifo:
  assumes "mpsc_history s arrivals returned"
  shows "\<exists>waiting. arrivals = returned @ waiting \<and> distinct waiting \<and> (\<forall>e. e \<in> set waiting \<longleftrightarrow> mq_in (ms_entry s e))"
proof -
  obtain Q where "mq_inv s Q" "arrivals = returned @ taken (ms_consumer s) @ Q" using mpsc_history_inv [OF assms] by blast
  then show ?thesis using mq_invD(1,2) by (intro exI [of _ "taken (ms_consumer s) @ Q"]) auto
qed

theorem mpsc_queue_fifo_witness:
  "\<exists>s. mpsc_history s [1, 2, 3] [] \<and> (\<forall>e. e \<in> set [1, 2, 3] \<longleftrightarrow> mq_in (ms_entry s e))"
  using mpsc_queue_fifo [OF race_history(1)] race_history(1) by auto

text \<open>
  C16. A call of \<open>dequeue\<close> that finds no enqueue under way returns the entry that arrived first of those that were not returned, and
  null only if there is none.
\<close>

theorem mpsc_dequeue_first:
  assumes "mpsc_history s arrivals returned" and "ms_consumer s = Deq_Idle" and "\<And>e. ms_entry s e = Free \<or> ms_entry s e = Queued" and "arrivals = returned @ waiting"
  shows "\<exists>n. ms_consumer ((mpsc_next Dequeue ^^ n) (mpsc_next Call_Dequeue s)) = Deq_Returns (case waiting of [] \<Rightarrow> None | f # _ \<Rightarrow> Some f)"
proof -
  obtain Q where inv: "mq_inv s Q" "arrivals = returned @ Q" using mpsc_history_inv [OF assms(1)] assms(2) by auto
  then have Q: "waiting = Q" using assms(4) by simp
  note I = mq_invD [OF inv(1)]
  let ?s = "mpsc_next Call_Dequeue s"
  have s: "ms_consumer ?s = Deq_Head" "ms_queue ?s = ms_queue s" using assms(2) by simp_all
  show ?thesis
  proof (cases Q)
    case Nil
    then have "mq_head (ms_queue s) = None" using I(6) assms(2) by (simp add: head_ok_def)
    then show ?thesis using s Q Nil by (intro exI [of _ 1]) simp
  next
    case (Cons f R)
    then have h: "mq_head (ms_queue s) = Some f" using I(6) assms(2) assms(3) [of f] by (auto simp: head_ok_def)
    show ?thesis
    proof (cases "mq_next (ms_queue s) f")
      case (Some n)
      then show ?thesis using s h Q Cons by (intro exI [of _ 3]) (simp add: numeral_3_eq_3)
    next
      case None
      have "R = []" using I(5) assms(3) [of "hd R"] None Cons by (cases R) (auto simp: mq_behind_def)
      then have "mq_tail (ms_queue s) = Some f" using I(4) Cons by simp
      then show ?thesis using s h Q Cons None by (intro exI [of _ 4]) (simp add: numeral_eq_Suc)
    qed
  qed
qed

theorem mpsc_dequeue_first_witness:
  "\<exists>s n. mpsc_history s [1, 2, 3] [] \<and> ms_consumer s = Deq_Idle \<and> ms_consumer ((mpsc_next Dequeue ^^ n) (mpsc_next Call_Dequeue s)) = Deq_Returns (Some 1)"
proof -
  have "ms_entry race_state e = Free \<or> ms_entry race_state e = Queued" for e using race_history(3) [of e] by simp
  then show ?thesis using mpsc_dequeue_first [OF race_history(1,2), of "[1, 2, 3]"] race_history(1,2) by fastforce
qed

end
