(* ===== verification/Producer_Wfq.thy ===== *)
theory Producer_Wfq
  imports Mpsc_Queue
begin

text \<open>
  What the queue of \<open>src/common/lean/producer_wfq.c\<close> does with its entries. An invariant describes every execution: the entries \<open>Q\<close> that the
  consumer can still reach form a list, as in the queue of \<open>mpsc-queue.h\<close>, and besides there are entries \<open>G\<close> that no access reaches any more. An entry
  can be taken from the tail before its own enqueue has stored the link of its predecessor; that predecessor is then one of \<open>G\<close>. The
  enqueue ends here with the return of the entry; the store that is left out would be to an entry of \<open>G\<close>.
\<close>

section \<open>The invariant\<close>

fun wfq_held :: "mq_consumer \<Rightarrow> ptr option" where
  "wfq_held (Wfq_Next f) = Some f" | "wfq_held (Wfq_Advance f n) = Some f" | "wfq_held (Wfq_Tail f) = Some f"
| "wfq_held (Wfq_Wait f) = Some f" | "wfq_held (Wfq_Load f) = Some f" | "wfq_held (Wfq_Store f n) = Some f"
| "wfq_held _ = None"

fun wfq_ok :: "mq_consumer \<Rightarrow> (ptr \<Rightarrow> ptr option) \<Rightarrow> (ptr \<Rightarrow> mq_entry) \<Rightarrow> bool" where
  "wfq_ok (Wfq_Next f) nx st = (st f = Queued)" | "wfq_ok (Wfq_Tail f) nx st = (st f = Queued)"
| "wfq_ok (Wfq_Advance f n) nx st = (st f = Queued \<and> nx f = Some n)"
| "wfq_ok (Wfq_Load f) nx st = (nx f \<noteq> None)" | "wfq_ok (Wfq_Store f n) nx st = (nx f = n \<and> n \<noteq> None)"
| "wfq_ok (Wfq_Wait f) nx st = True" | "wfq_ok Wfq_Head nx st = True" | "wfq_ok Wfq_Empty nx st = True"
| "wfq_ok Deq_Idle nx st = True" | "wfq_ok (Deq_Returns r) nx st = True" | "wfq_ok _ nx st = False"

definition first_ok :: "mq_state \<Rightarrow> ptr list \<Rightarrow> bool" where
  "first_ok s Q \<longleftrightarrow> (case wfq_held (ms_consumer s) of Some f \<Rightarrow> mq_head (ms_queue s) = None \<and> (\<exists>R. Q = f # R)
     | None \<Rightarrow> (case Q of [] \<Rightarrow> mq_head (ms_queue s) = None
         | f # R \<Rightarrow> ms_entry s f = Queued \<and> mq_head (ms_queue s) = Some f \<or> ms_entry s f = Enq_Link None \<and> mq_head (ms_queue s) = None))"

definition wfq_inv :: "mq_state \<Rightarrow> ptr list \<Rightarrow> ptr set \<Rightarrow> bool" where
  "wfq_inv s Q G \<longleftrightarrow> distinct (taken (ms_consumer s) @ Q) \<and> set (taken (ms_consumer s) @ Q) \<inter> G = {} \<and>
     {e. mq_in (ms_entry s e)} = set (taken (ms_consumer s) @ Q) \<union> G \<and>
     mq_tail (ms_queue s) = (if Q = [] then None else Some (last Q)) \<and> mq_lined (mq_next (ms_queue s)) (ms_entry s) Q \<and> first_ok s Q \<and>
     wfq_ok (ms_consumer s) (mq_next (ms_queue s)) (ms_entry s) \<and>
     (\<forall>e p. ms_entry s e = Enq_Link (Some p) \<longrightarrow> e \<in> set (tl Q) \<or> p \<in> G) \<and>
     (\<forall>e. ms_entry s e = Enq_Link None \<longrightarrow> (\<exists>R. Q = e # R) \<and> wfq_held (ms_consumer s) = None) \<and>
     (\<forall>e. ms_entry s e = Enq_Swap \<longrightarrow> mq_next (ms_queue s) e = None)"

lemma wfq_invD:
  assumes "wfq_inv s Q G"
  shows "distinct (taken (ms_consumer s) @ Q)" "set (taken (ms_consumer s) @ Q) \<inter> G = {}"
    "mq_in (ms_entry s e) \<longleftrightarrow> e \<in> set (taken (ms_consumer s)) \<or> e \<in> set Q \<or> e \<in> G"
    "mq_tail (ms_queue s) = (if Q = [] then None else Some (last Q))"
    "mq_lined (mq_next (ms_queue s)) (ms_entry s) Q" "first_ok s Q" "wfq_ok (ms_consumer s) (mq_next (ms_queue s)) (ms_entry s)"
    "ms_entry s e = Enq_Link (Some p) \<Longrightarrow> e \<in> set (tl Q) \<or> p \<in> G"
    "ms_entry s e = Enq_Link None \<Longrightarrow> (\<exists>R. Q = e # R) \<and> wfq_held (ms_consumer s) = None"
    "ms_entry s e = Enq_Swap \<Longrightarrow> mq_next (ms_queue s) e = None"
  using assms unfolding wfq_inv_def set_append by blast+

lemma mq_lined_cong_tl:
  "(\<And>p. p \<in> set Q \<Longrightarrow> nx' p = nx p) \<Longrightarrow> (\<And>p. p \<in> set (tl Q) \<Longrightarrow> st' p = st p) \<Longrightarrow> mq_lined nx' st' Q = mq_lined nx st Q"
proof (induction nx st Q rule: mq_lined.induct)
  case (3 nx st p u Q)
  then have "mq_lined nx' st' (u # Q) = mq_lined nx st (u # Q)" by (cases Q) auto
  then show ?case using 3 by (simp add: mq_behind_def)
qed auto

lemma mq_lined_before: "mq_lined nx st Q \<Longrightarrow> e \<in> set (tl Q) \<Longrightarrow> st e = Enq_Link (Some p) \<Longrightarrow> p \<in> set (butlast Q)"
  by (induction nx st Q rule: mq_lined.induct) (auto simp: mq_behind_def split: if_splits)

lemma mq_lined_second: "mq_lined nx st (f # R) \<Longrightarrow> nx f = Some n \<Longrightarrow> \<exists>R'. R = n # R' \<and> st n = Queued \<and> mq_lined nx st R"
  by (cases R) (auto simp: mq_behind_def)

section \<open>The producers\<close>

abbreviation wfq_next :: "mq_move \<Rightarrow> mq_state \<Rightarrow> mq_state" where
  "wfq_next \<equiv> mq_next_state producer_wfq_enqueue producer_wfq_dequeue Wfq_Head"

lemma wfq_ok_upd: "wfq_ok c nx st \<Longrightarrow> wfq_held c = Some f \<Longrightarrow> nx' f = nx f \<or> nx f = None \<Longrightarrow> st' f = st f \<or> st' f = Queued \<Longrightarrow> wfq_ok c nx' st'"
  by (cases c) auto

lemma wfq_ok_none: "wfq_ok c nx st \<Longrightarrow> wfq_held c = None \<Longrightarrow> wfq_ok c nx' st'"
  by (cases c) auto

text \<open>A step that changes an entry which is not in the queue, and its link.\<close>

lemma wfq_outside_inv:
  assumes inv: "wfq_inv s Q G" and e: "\<not> mq_in (ms_entry s e)" "\<not> mq_in x" "x = Enq_Swap \<Longrightarrow> nx' = None"
    "nx' = mq_next (ms_queue s) e \<or> nx' = None"
  shows "wfq_inv (s\<lparr> ms_entry := (ms_entry s)(e := x), ms_queue := (ms_queue s)\<lparr> mq_next := (mq_next (ms_queue s))(e := nx') \<rparr> \<rparr>) Q G"
    (is "wfq_inv ?s Q G")
proof -
  note I = wfq_invD [OF inv]
  have n: "e \<notin> set Q" "e \<notin> set (taken (ms_consumer s))" "e \<notin> G" using I(3) [of e] e(1) by auto
  have l: "x \<noteq> Enq_Link p" for p using e(2) by auto
  have "mq_lined (mq_next (ms_queue ?s)) (ms_entry ?s) Q = mq_lined (mq_next (ms_queue s)) (ms_entry s) Q"
    by (rule mq_lined_cong_tl) (use n(1) in \<open>cases Q; auto\<close>)+
  moreover have f: "first_ok ?s Q" using I(6) n(1) by (auto simp: first_ok_def split: option.splits list.splits)
  moreover have "wfq_ok (ms_consumer s) (mq_next (ms_queue ?s)) (ms_entry ?s)"
  proof (cases "wfq_held (ms_consumer s)")
    case (Some f)
    then have "f \<noteq> e" using I(6) n(1) by (auto simp: first_ok_def)
    then show ?thesis using wfq_ok_upd [OF I(7) Some] by simp
  qed (use wfq_ok_none [OF I(7)] in simp)
  moreover have "{y. mq_in (ms_entry ?s y)} = set (taken (ms_consumer s) @ Q) \<union> G" using I(3) n e(2) by auto
  ultimately show ?thesis using I(1,2,4,5) I(8-10) e(3) l unfolding wfq_inv_def by auto
qed

lemma wfq_swap_inv:
  assumes inv: "wfq_inv s Q G" and e: "ms_entry s e = Enq_Swap"
  shows "wfq_inv (s\<lparr> ms_entry := (ms_entry s)(e := Enq_Link (mq_tail (ms_queue s))), ms_queue := (ms_queue s)\<lparr> mq_tail := Some e \<rparr> \<rparr>) (Q @ [e]) G"
    (is "wfq_inv ?s _ G")
proof -
  note I = wfq_invD [OF inv]
  have n: "e \<notin> set Q" "e \<notin> set (taken (ms_consumer s))" "e \<notin> G" using I(3) [of e] e by auto
  have "mq_lined (mq_next (ms_queue s)) (ms_entry ?s) (Q @ [e])"
    using mq_lined_snoc [OF I(5) _ n(1) I(10) [OF e]] I(4) I(10) [OF e] by (cases "Q = []") auto
  moreover have "first_ok ?s (Q @ [e])" using I(4,6) n by (cases Q) (auto simp: first_ok_def split: option.splits)
  moreover have "wfq_ok (ms_consumer s) (mq_next (ms_queue s)) (ms_entry ?s)"
  proof (cases "wfq_held (ms_consumer s)")
    case (Some f)
    then have "f \<noteq> e" using I(6) n(1) by (auto simp: first_ok_def)
    then show ?thesis using wfq_ok_upd [OF I(7) Some] by simp
  qed (use wfq_ok_none [OF I(7)] in simp)
  moreover have "{x. mq_in (ms_entry ?s x)} = set (taken (ms_consumer s) @ Q @ [e]) \<union> G" using I(3) by auto
  moreover have "x \<in> set (tl (Q @ [e])) \<or> p \<in> G" if "ms_entry ?s x = Enq_Link (Some p)" for x p
    using that I(4) I(8) [of x p] by (cases Q) (auto split: if_splits)
  moreover have "(\<exists>R. Q @ [e] = x # R) \<and> wfq_held (ms_consumer s) = None" if "ms_entry ?s x = Enq_Link None" for x
    using that I(4,6) I(9) [of x] by (cases Q) (auto simp: first_ok_def split: if_splits option.splits)
  ultimately show ?thesis using I(1,2,10) n unfolding wfq_inv_def by auto
qed

lemma wfq_link_inv:
  assumes inv: "wfq_inv s Q G" and e: "ms_entry s e = Enq_Link (Some p)"
  shows "wfq_inv (s\<lparr> ms_entry := (ms_entry s)(e := Queued), ms_queue := (ms_queue s)\<lparr> mq_next := (mq_next (ms_queue s))(p := Some e) \<rparr> \<rparr>) Q G"
    (is "wfq_inv ?s Q G")
proof -
  note I = wfq_invD [OF inv]
  have d: "distinct Q" using I(1) by simp
  have l: "mq_lined (mq_next (ms_queue ?s)) (ms_entry ?s) Q \<and> mq_in (ms_entry s p) \<and> (p \<in> set Q \<longrightarrow> mq_next (ms_queue s) p = None)"
  proof (cases "e \<in> set (tl Q)")
    case True
    then show ?thesis using mq_lined_link(1) [OF I(5) d True e] mq_lined_link(2) [OF I(5) True e] I(3) [of p] by simp
  next
    case False
    then have p: "p \<in> G" "p \<notin> set Q" using I(2) I(8) [OF e] by auto
    then have "mq_lined (mq_next (ms_queue ?s)) (ms_entry ?s) Q = mq_lined (mq_next (ms_queue s)) (ms_entry s) Q"
      by (intro mq_lined_cong_tl) (use False in auto)
    then show ?thesis using I(5) I(3) [of p] p by simp
  qed
  have "first_ok ?s Q" using I(6) e by (cases Q) (auto simp: first_ok_def split: option.splits)
  moreover have "wfq_ok (ms_consumer s) (mq_next (ms_queue ?s)) (ms_entry ?s)"
  proof (cases "wfq_held (ms_consumer s)")
    case (Some f)
    then have "f \<in> set Q" using I(6) by (auto simp: first_ok_def)
    then show ?thesis using l by (intro wfq_ok_upd [OF I(7) Some]) auto
  qed (use wfq_ok_none [OF I(7)] in simp)
  moreover have "{x. mq_in (ms_entry ?s x)} = set (taken (ms_consumer s) @ Q) \<union> G" using I(3) I(3) [of e] e by auto
  moreover have "mq_next (ms_queue ?s) x = None" if "ms_entry ?s x = Enq_Swap" for x
    using I(10) [of x] l that by (auto split: if_splits)
  ultimately show ?thesis using I(1,2,4,8,9) l unfolding wfq_inv_def by auto
qed

lemma wfq_head_inv:
  assumes inv: "wfq_inv s Q G" and e: "ms_entry s e = Enq_Link None"
  shows "wfq_inv (s\<lparr> ms_entry := (ms_entry s)(e := Queued), ms_queue := (ms_queue s)\<lparr> mq_head := Some e \<rparr> \<rparr>) Q G"
    (is "wfq_inv ?s Q G")
proof -
  note I = wfq_invD [OF inv]
  obtain R where R: "Q = e # R" "wfq_held (ms_consumer s) = None" using I(9) [OF e] by blast
  have "e \<notin> set R" using I(1) R by simp
  then have "mq_lined (mq_next (ms_queue ?s)) (ms_entry ?s) Q = mq_lined (mq_next (ms_queue s)) (ms_entry s) Q"
    by (intro mq_lined_cong_tl) (auto simp: R(1))
  moreover have "first_ok ?s Q" using R by (simp add: first_ok_def)
  moreover have "{x. mq_in (ms_entry ?s x)} = set (taken (ms_consumer s) @ Q) \<union> G" using I(3) I(3) [of e] e by auto
  ultimately show ?thesis using I(1,2,4,5,8,9,10) wfq_ok_none [OF I(7) R(2)] unfolding wfq_inv_def by auto
qed

lemma wfq_enqueue_inv:
  assumes inv: "wfq_inv s Q G"
  shows "wfq_inv (wfq_next (Enqueue e) s) (Q @ mq_arrival (Enqueue e) s) G" "wfq_inv (wfq_next (Call_Enqueue e) s) Q G"
proof -
  show "wfq_inv (wfq_next (Enqueue e) s) (Q @ mq_arrival (Enqueue e) s) G"
  proof (cases "ms_entry s e")
    case (Enq_Link p)
    then show ?thesis using inv wfq_link_inv [OF inv, of e] wfq_head_inv [OF inv, of e] by (cases p) (auto simp: mq_arrival_def)
  qed (use inv wfq_swap_inv [OF inv] wfq_outside_inv [OF inv, of e Enq_Swap None] in \<open>auto simp: mq_arrival_def\<close>)
  show "wfq_inv (wfq_next (Call_Enqueue e) s) Q G"
    using inv wfq_outside_inv [OF inv, of e Enq_Clear "mq_next (ms_queue s) e"] by auto
qed

section \<open>The consumer\<close>

lemma wfq_look_inv:
  assumes inv: "wfq_inv s Q G" and c: "taken c = taken (ms_consumer s)" "wfq_held c = wfq_held (ms_consumer s)" "wfq_ok c (mq_next (ms_queue s)) (ms_entry s)"
  shows "wfq_inv (s\<lparr> ms_consumer := c \<rparr>) Q G"
proof -
  have "first_ok (s\<lparr> ms_consumer := c \<rparr>) Q" using wfq_invD(6) [OF inv] c by (auto simp: first_ok_def split: option.splits list.splits)
  then show ?thesis using inv c unfolding wfq_inv_def by auto
qed

lemma wfq_take_inv:
  assumes inv: "wfq_inv s Q G" and f: "wfq_held (ms_consumer s) = Some f" "mq_next (ms_queue s) f = Some n"
  shows "wfq_inv (s\<lparr> ms_consumer := Deq_Returns (Some f), ms_queue := (ms_queue s)\<lparr> mq_head := Some n \<rparr> \<rparr>) (tl Q) G"
proof -
  note I = wfq_invD [OF inv]
  have t: "taken (ms_consumer s) = []" using f(1) by (cases "ms_consumer s") auto
  obtain R where Q: "Q = f # R" using I(6) f(1) by (auto simp: first_ok_def)
  obtain R' where R: "R = n # R'" "ms_entry s n = Queued" "mq_lined (mq_next (ms_queue s)) (ms_entry s) R"
    using mq_lined_second [OF I(5) [unfolded Q] f(2)] by blast
  have "x \<in> set R' \<or> p \<in> G" if "ms_entry s x = Enq_Link (Some p)" for x p using I(8) [OF that] that Q R by auto
  moreover have "ms_entry s x \<noteq> Enq_Link None" for x using I(9) [of x] f(1) by auto
  ultimately show ?thesis using I(1-4) I(10) Q R t unfolding wfq_inv_def by (auto simp: first_ok_def)
qed

lemma wfq_single_inv:
  assumes inv: "wfq_inv s Q G" and c: "ms_consumer s = Wfq_Tail f" and t: "mq_tail (ms_queue s) = Some f"
  shows "wfq_inv (s\<lparr> ms_consumer := Deq_Returns (Some f), ms_queue := (ms_queue s)\<lparr> mq_tail := None \<rparr> \<rparr>) [] G"
proof -
  note I = wfq_invD [OF inv]
  obtain R where Q: "Q = f # R" "mq_head (ms_queue s) = None" using I(6) c by (auto simp: first_ok_def)
  have R: "R = []" using I(1,4) Q t by (cases R rule: rev_cases) auto
  have "p \<in> G" if "ms_entry s x = Enq_Link (Some p)" for x p using I(8) [OF that] Q R by auto
  moreover have "ms_entry s x \<noteq> Enq_Link None" for x using I(9) [of x] c by auto
  ultimately show ?thesis using I(1-3) I(10) c Q R unfolding wfq_inv_def by (auto simp: first_ok_def)
qed

text \<open>The exchange of the tail fails: all entries but the last are lost, the one the consumer held among them.\<close>

lemma wfq_loss_inv:
  assumes inv: "wfq_inv s Q G" and c: "ms_consumer s = Wfq_Tail f" and t: "mq_tail (ms_queue s) \<noteq> Some f"
  shows "mq_tail (ms_queue s) = Some (last Q) \<and> last Q \<noteq> f \<and> f \<in> set (butlast Q) \<and> ms_entry s f = Queued \<and>
    wfq_inv (s\<lparr> ms_consumer := Wfq_Wait (last Q) \<rparr>) [last Q] (G \<union> set (butlast Q))"
proof -
  note I = wfq_invD [OF inv]
  obtain R where Q: "Q = f # R" "mq_head (ms_queue s) = None" using I(6) c by (auto simp: first_ok_def)
  have R: "R \<noteq> []" using I(4) Q t by auto
  have tl: "mq_tail (ms_queue s) = Some (last Q)" "last Q \<noteq> f" using I(4) Q t by auto
  have "Q = butlast Q @ [last Q]" using Q(1) by simp
  then have d: "set Q = insert (last Q) (set (butlast Q))" "last Q \<notin> set (butlast Q)"
    using I(1) by (metis Un_insert_right list.set sup_bot_right set_append, metis distinct_append not_distinct_conv_prefix)
  have "p \<in> G \<union> set (butlast Q)" if "ms_entry s x = Enq_Link (Some p)" for x p
    using I(8) [OF that] mq_lined_before [OF I(5) _ that] by auto
  moreover have "ms_entry s x \<noteq> Enq_Link None" for x using I(9) [of x] c by auto
  moreover have "mq_next (ms_queue s) (last Q) = None" using mq_lined_last [OF I(5)] Q by simp
  ultimately have "wfq_inv (s\<lparr> ms_consumer := Wfq_Wait (last Q) \<rparr>) [last Q] (G \<union> set (butlast Q))"
    using I(1-3) I(10) c Q d tl unfolding wfq_inv_def by (auto simp: first_ok_def)
  then show ?thesis using tl Q R I(7) c by auto
qed

lemma wfq_dequeue_inv:
  assumes inv: "wfq_inv s Q G"
  shows "\<exists>Q' G'. wfq_inv (wfq_next Dequeue s) Q' G' \<and> G \<subseteq> G' \<and> set (mq_return Dequeue s) \<inter> G = {}"
proof (cases "ms_consumer s")
  case Wfq_Head
  note I = wfq_invD [OF inv]
  show ?thesis
  proof (cases "mq_head (ms_queue s)")
    case None
    then have "wfq_next Dequeue s = s\<lparr> ms_consumer := Wfq_Empty \<rparr>" using Wfq_Head by (cases s; cases "ms_queue s") auto
    then show ?thesis using Wfq_Head wfq_look_inv [OF inv, of Wfq_Empty] by (auto simp: mq_return_def simp del: mq_next_state.simps)
  next
    case (Some f)
    then obtain R where R: "Q = f # R" "ms_entry s f = Queued" using I(6) Wfq_Head by (auto simp: first_ok_def split: list.splits)
    have "ms_entry s x \<noteq> Enq_Link None" for x using I(9) [of x] R by auto
    then have "wfq_inv (wfq_next Dequeue s) Q G" using I(1-5) I(8) I(10) R Wfq_Head Some unfolding wfq_inv_def by (auto simp: first_ok_def)
    then show ?thesis using Wfq_Head by (auto simp: mq_return_def)
  qed
next
  case Wfq_Empty
  then show ?thesis using wfq_look_inv [OF inv, of "Deq_Returns None"] wfq_look_inv [OF inv, of Wfq_Head]
    by (cases "mq_tail (ms_queue s)") (auto simp: mq_return_def)
next
  case (Wfq_Next f)
  then show ?thesis using wfq_invD(7) [OF inv] wfq_look_inv [OF inv, of "Wfq_Tail f"] wfq_look_inv [OF inv, of "Wfq_Advance f n" for n]
    by (cases "mq_next (ms_queue s) f") (auto simp: mq_return_def)
next
  case (Wfq_Advance f n)
  then show ?thesis using wfq_take_inv [OF inv, of f n] wfq_invD(7) [OF inv] by (auto simp: mq_return_def)
next
  case (Wfq_Tail f)
  show ?thesis
  proof (cases "mq_tail (ms_queue s) = Some f")
    case True
    then show ?thesis using Wfq_Tail wfq_single_inv [OF inv] by (auto simp: mq_return_def)
  next
    case False
    then show ?thesis using Wfq_Tail wfq_loss_inv [OF inv Wfq_Tail False]
      by (intro exI [of _ "[last Q]"] exI [of _ "G \<union> set (butlast Q)"]) (auto simp: mq_return_def)
  qed
next
  case (Wfq_Wait f)
  then show ?thesis using wfq_look_inv [OF inv, of "Wfq_Wait f"] wfq_look_inv [OF inv, of "Wfq_Load f"]
    by (intro exI [of _ Q] exI [of _ G]) (auto simp: mq_return_def split: option.split)
next
  case (Wfq_Load f)
  then show ?thesis using wfq_invD(7) [OF inv] wfq_look_inv [OF inv, of "Wfq_Store f (mq_next (ms_queue s) f)"] by (auto simp: mq_return_def)
next
  case (Wfq_Store f n)
  then show ?thesis using wfq_take_inv [OF inv, of f] wfq_invD(7) [OF inv]
    by (intro exI [of _ "tl Q"] exI [of _ G]) (auto simp: mq_return_def)
next
  case (Deq_Returns r)
  show ?thesis
  proof (cases r)
    case None
    then show ?thesis using Deq_Returns wfq_look_inv [OF inv, of Deq_Idle] by (auto simp: mq_return_def)
  next
    case (Some f)
    note I = wfq_invD [OF inv]
    have f: "f \<notin> set Q" "f \<notin> G" using I(1,2) Deq_Returns Some by auto
    have "mq_lined (mq_next (ms_queue s)) ((ms_entry s)(f := Free)) Q = mq_lined (mq_next (ms_queue s)) (ms_entry s) Q"
      by (rule mq_lined_cong_tl) (use f(1) in \<open>cases Q; auto\<close>)+
    moreover have "first_ok (wfq_next Dequeue s) Q" using I(6) f(1) Deq_Returns Some by (cases Q) (auto simp: first_ok_def)
    ultimately have "wfq_inv (wfq_next Dequeue s) Q G" using I(1-5) I(8-10) f Deq_Returns Some unfolding wfq_inv_def by auto
    then show ?thesis using f(2) Deq_Returns Some by (auto simp: mq_return_def)
  qed
qed (use inv wfq_invD(7) [OF inv] in \<open>auto simp: mq_return_def\<close>)

lemma wfq_next_inv:
  assumes inv: "wfq_inv s Q G"
  shows "\<exists>Q' G'. wfq_inv (wfq_next m s) Q' G' \<and> G \<subseteq> G' \<and> set (mq_return m s) \<inter> G = {}"
proof (cases m)
  case (Enqueue e)
  then show ?thesis using wfq_enqueue_inv(1) [OF inv, of e] by (auto simp: mq_return_def simp del: mq_next_state.simps)
next
  case (Call_Enqueue e)
  then show ?thesis using wfq_enqueue_inv(2) [OF inv, of e] by (auto simp: mq_return_def simp del: mq_next_state.simps)
next
  case Call_Dequeue
  then show ?thesis using inv wfq_look_inv [OF inv, of Wfq_Head]
    by (intro exI [of _ Q] exI [of _ G]) (auto simp: mq_return_def)
next
  case Dequeue
  then show ?thesis using wfq_dequeue_inv [OF inv] by blast
qed

lemma wfq_history_inv: "wfq_history s arrivals returned \<Longrightarrow> \<exists>Q G. wfq_inv s Q G"
proof (induction rule: mq_history.induct)
  case (history_start s)
  then have "wfq_inv s [] {}" by (auto simp: wfq_inv_def mq_start_def first_ok_def producer_wfq_init_def)
  then show ?case by blast
next
  case (history_step s arrivals returned m)
  then show ?case using wfq_next_inv by blast
qed

section \<open>A lost entry stays lost\<close>

lemma wfq_entry_kept:
  assumes "wfq_inv s Q G" and "f \<in> G" and "ms_entry s f = Queued"
  shows "ms_entry (wfq_next m s) f = Queued"
proof (cases m)
  case Dequeue
  have "f \<notin> set (taken (ms_consumer s))" using wfq_invD(2) [OF assms(1)] assms(2) by auto
  then show ?thesis using assms(3) Dequeue by (auto split: mq_consumer.split option.split prod.split)
qed (use assms(3) in \<open>auto split: prod.split\<close>)

lemma wfq_run_lost:
  assumes "wfq_inv s Q G" and "f \<in> G" and "ms_entry s f = Queued"
    and "mq_run producer_wfq_enqueue producer_wfq_dequeue Wfq_Head ms (s, a, r) = (s', a', r')"
  shows "\<exists>later. r' = r @ later \<and> f \<notin> set later \<and> ms_entry s' f = Queued"
  using assms
proof (induction ms arbitrary: s a r Q G)
  case (Cons m ms)
  obtain Q' G' where n: "wfq_inv (wfq_next m s) Q' G'" "G \<subseteq> G'" "set (mq_return m s) \<inter> G = {}" using wfq_next_inv [OF Cons.prems(1)] by blast
  have "f \<in> G'" using n(2) Cons.prems(2) by blast
  moreover have "mq_run producer_wfq_enqueue producer_wfq_dequeue Wfq_Head ms (wfq_next m s, a @ mq_arrival m s, r @ mq_return m s) = (s', a', r')"
    using Cons.prems(4) by (simp del: mq_next_state.simps)
  ultimately obtain later where "r' = (r @ mq_return m s) @ later" "f \<notin> set later" "ms_entry s' f = Queued"
    using Cons.IH [OF n(1) _ wfq_entry_kept [OF Cons.prems(1-3)]] by blast
  then show ?case using n(3) Cons.prems(2) by (intro exI [of _ "mq_return m s @ later"]) auto
qed simp

section \<open>Properties\<close>

text \<open>
  C33. The queue of \<open>producer_wfq.c\<close> loses entries. In every execution, when the consumer has taken the entry \<open>f\<close> from the head and seen no
  successor, and the exchange of the tail fails because another entry has arrived, then the call goes on with the last entry instead of \<open>f\<close>:
  whatever the producers and the consumer do from there on, no call of \<open>dequeue\<close> ever returns \<open>f\<close>, although its enqueue is complete.
\<close>

theorem producer_wfq_loses_entry:
  assumes "wfq_history s arrivals returned" and "ms_consumer s = Wfq_Tail f" and "mq_tail (ms_queue s) \<noteq> Some f"
    and "mq_run producer_wfq_enqueue producer_wfq_dequeue Wfq_Head (Dequeue # ms) (s, arrivals, returned) = (s', arrivals', returned')"
  shows "(\<exists>t. t \<noteq> f \<and> mq_tail (ms_queue s) = Some t \<and> ms_consumer (wfq_next Dequeue s) = Wfq_Wait t) \<and>
    (\<exists>later. returned' = returned @ later \<and> f \<notin> set later) \<and> ms_entry s' f = Queued"
proof -
  obtain Q G where inv: "wfq_inv s Q G" using wfq_history_inv [OF assms(1)] by blast
  note L = wfq_loss_inv [OF inv assms(2,3)]
  have n: "wfq_next Dequeue s = s\<lparr> ms_consumer := Wfq_Wait (last Q) \<rparr>" using L assms(2) by simp
  then have "mq_run producer_wfq_enqueue producer_wfq_dequeue Wfq_Head ms (s\<lparr> ms_consumer := Wfq_Wait (last Q) \<rparr>, arrivals, returned) = (s', arrivals', returned')"
    using assms(2,4) by (simp add: mq_arrival_def mq_return_def del: mq_next_state.simps)
  moreover have "f \<in> G \<union> set (butlast Q)" "ms_entry (s\<lparr> ms_consumer := Wfq_Wait (last Q) \<rparr>) f = Queued" using L by simp_all
  ultimately have "\<exists>later. returned' = returned @ later \<and> f \<notin> set later \<and> ms_entry s' f = Queued"
    using wfq_run_lost L by blast
  then show ?thesis using L n by auto
qed

theorem producer_wfq_loses_entry_witness:
  "\<exists>s s' ms. wfq_history s [1, 2] [] \<and> ms_consumer s = Wfq_Tail 1 \<and>
    mq_run producer_wfq_enqueue producer_wfq_dequeue Wfq_Head (Dequeue # ms) (s, [1, 2], []) = (s', [1, 2, 3], [2]) \<and> ms_entry s' 1 = Queued"
proof -
  let ?run = "mq_run producer_wfq_enqueue producer_wfq_dequeue Wfq_Head"
  let ?h = "?run (take 10 race_moves) (example_mq, [], [])"
  have h: "snd ?h = ([1, 2], [])" "ms_consumer (fst ?h) = Wfq_Tail 1" "mq_tail (ms_queue (fst ?h)) = Some 2" by code_simp+
  have "snd (?run (Dequeue # drop 11 race_moves) ?h) = ([1, 2, 3], [2])" by code_simp
  then obtain s s' where s: "?h = (s, [1, 2], [])" "?run (Dequeue # drop 11 race_moves) (s, [1, 2], []) = (s', [1, 2, 3], [2])"
    using h(1) by (metis prod.collapse)
  have w: "wfq_history s [1, 2] []" by (rule mq_run_history [OF mq_history.history_start s(1)]) (rule example_mq_start(2))
  have c: "ms_consumer s = Wfq_Tail 1" "mq_tail (ms_queue s) \<noteq> Some 1" using h(2,3) unfolding s(1) by simp_all
  from producer_wfq_loses_entry [OF w c s(2)] w c(1) s(2) show ?thesis by blast
qed

end
