(* ===== verification/Unwind_Tree.thy ===== *)
theory Unwind_Tree
  imports Linked_List
begin

text \<open>
  The binary trees of \<open>src/common/lean/binarytree.c\<close> and the trees of unwind intervals built on them (\<open>src/hpcrun/unwind/common/interval_t.c\<close>,
  \<open>binarytree_uwi.c\<close>): the unwinder collects the intervals of a function as a list linked by the right pointers, turns
  the list into a balanced tree, and searches the tree for the interval of an address. Nodes are addresses; a recipe is what the
  unwinder made of it and is not looked at. \<open>None\<close> is an execution that dereferences a null pointer, calls \<open>abort\<close>, reads a variable
  that was not set, or does not end.
\<close>

section \<open>Data\<close>

record interval_t =
  iv_start :: u64
  iv_end :: u64

record 'r uwi_t =
  uwi_interval :: interval_t
  uwi_recipe :: 'r

record 'v bt_store =
  bt_left :: link
  bt_right :: link
  bt_val :: "ptr \<Rightarrow> 'v"
  bt_fresh :: ptr

section \<open>Binary trees\<close>

definition binarytree_new :: "'v bt_store \<Rightarrow> ptr \<times> 'v bt_store" where
  "binarytree_new st = (let n = bt_fresh st
     in (n, st\<lparr> bt_fresh := Suc n, bt_right := (bt_right st)(n := None), bt_left := (bt_left st)(n := None) \<rparr>))"

partial_function (option) binarytree_del :: "ptr option \<Rightarrow> 'v bt_store \<Rightarrow> ptr list \<Rightarrow> ('v bt_store \<times> ptr list) option" where
  "binarytree_del root st freed = (case root of None \<Rightarrow> Some (st, freed)
     | Some n \<Rightarrow>
         Option.bind (binarytree_del (bt_left st n) st freed) (\<lambda>(st, freed).
         let st = st\<lparr> bt_left := (bt_left st)(n := None) \<rparr>
         in Option.bind (binarytree_del (bt_right st n) st freed) (\<lambda>(st, freed).
            Some (st\<lparr> bt_right := (bt_right st)(n := None) \<rparr>, freed @ [n]))))"

definition binarytree_rootval :: "ptr option \<Rightarrow> 'v bt_store \<Rightarrow> 'v option" where
  "binarytree_rootval tree st = map_option (bt_val st) tree"

definition binarytree_leftsubtree :: "ptr option \<Rightarrow> 'v bt_store \<Rightarrow> ptr option option" where
  "binarytree_leftsubtree tree st = map_option (bt_left st) tree"

definition binarytree_rightsubtree :: "ptr option \<Rightarrow> 'v bt_store \<Rightarrow> ptr option option" where
  "binarytree_rightsubtree tree st = map_option (bt_right st) tree"

definition binarytree_set_leftsubtree :: "ptr option \<Rightarrow> ptr option \<Rightarrow> 'v bt_store \<Rightarrow> 'v bt_store option" where
  "binarytree_set_leftsubtree tree subtree st = map_option (\<lambda>n. st\<lparr> bt_left := (bt_left st)(n := subtree) \<rparr>) tree"

definition binarytree_set_rightsubtree :: "ptr option \<Rightarrow> ptr option \<Rightarrow> 'v bt_store \<Rightarrow> 'v bt_store option" where
  "binarytree_set_rightsubtree tree subtree st = map_option (\<lambda>n. st\<lparr> bt_right := (bt_right st)(n := subtree) \<rparr>) tree"

partial_function (option) binarytree_count :: "ptr option \<Rightarrow> 'v bt_store \<Rightarrow> int option" where
  "binarytree_count tree st = (case tree of None \<Rightarrow> Some 0
     | Some n \<Rightarrow> Option.bind (binarytree_count (bt_left st n) st) (\<lambda>l.
                  Option.bind (binarytree_count (bt_right st n) st) (\<lambda>r. Some (l + r + 1))))"

function binarytree_list_to_tree :: "ptr option \<Rightarrow> nat \<Rightarrow> 'v bt_store \<Rightarrow> (ptr option \<times> ptr option \<times> 'v bt_store) option" where
  "binarytree_list_to_tree head count st =
    (if count = 0 then Some (None, head, st)
     else (case binarytree_list_to_tree head (count div 2) st of None \<Rightarrow> None
           | Some (lsub, head, st) \<Rightarrow>
               (case head of None \<Rightarrow> None
                | Some root \<Rightarrow>
                    (case binarytree_list_to_tree (bt_right st root) (count - count div 2 - 1) (st\<lparr> bt_left := (bt_left st)(root := lsub) \<rparr>) of None \<Rightarrow> None
                     | Some (rsub, head, st) \<Rightarrow> Some (Some root, head, st\<lparr> bt_right := (bt_right st)(root := rsub) \<rparr>)))))"
  by pat_completeness auto
termination by (relation "measure (\<lambda>(h, c, s). c)") auto

declare binarytree_list_to_tree.simps [simp del]

datatype tail_loc = Head_Var | Right_Of ptr

definition store_tail :: "tail_loc \<Rightarrow> ptr option \<Rightarrow> ptr option option \<times> 'v bt_store \<Rightarrow> ptr option option \<times> 'v bt_store" where
  "store_tail tail v = (\<lambda>(head, st). case tail of Head_Var \<Rightarrow> (Some v, st) | Right_Of n \<Rightarrow> (head, st\<lparr> bt_right := (bt_right st)(n := v) \<rparr>))"

partial_function (option) binarytree_listify_helper ::
    "ptr option \<Rightarrow> tail_loc \<Rightarrow> ptr option option \<times> 'v bt_store \<Rightarrow> (ptr option option \<times> 'v bt_store) option" where
  "binarytree_listify_helper root tail hs = (case root of None \<Rightarrow> Some hs
     | Some n \<Rightarrow>
         Option.bind (binarytree_listify_helper (bt_left (snd hs) n) tail hs) (\<lambda>(head, st).
         let hs = store_tail tail (Some n) (head, st\<lparr> bt_left := (bt_left st)(n := None) \<rparr>)
         in binarytree_listify_helper (bt_right (snd hs) n) (Right_Of n) hs))"

definition binarytree_listify :: "ptr option \<Rightarrow> 'v bt_store \<Rightarrow> (ptr option \<times> 'v bt_store) option" where
  "binarytree_listify root st =
    Option.bind (binarytree_listify_helper root Head_Var (None, st)) (\<lambda>(head, st). map_option (\<lambda>h. (h, st)) head)"

fun listalloc_loop :: "nat \<Rightarrow> tail_loc \<Rightarrow> ptr option option \<times> 'v bt_store \<Rightarrow> ptr option option \<times> 'v bt_store" where
  "listalloc_loop 0 tail hs = hs"
| "listalloc_loop (Suc k) tail (head, st) =
    (let (n, st) = binarytree_new st in listalloc_loop k (Right_Of n) (store_tail tail (Some n) (head, st)))"

definition binarytree_listalloc :: "nat \<Rightarrow> 'v bt_store \<Rightarrow> (ptr option \<times> 'v bt_store) option" where
  "binarytree_listalloc num_elts st = (let (head, st) = listalloc_loop num_elts Head_Var (None, st) in map_option (\<lambda>h. (h, st)) head)"

partial_function (option) binarytree_find :: "('v \<Rightarrow> 'k \<Rightarrow> int) \<Rightarrow> 'k \<Rightarrow> 'v bt_store \<Rightarrow> ptr option \<Rightarrow> ptr option option" where
  "binarytree_find matches val st root = (case root of None \<Rightarrow> Some None
     | Some n \<Rightarrow> let cmp_status = matches (bt_val st n) val
                 in if cmp_status = 0 then Some (Some n)
                    else binarytree_find matches val st (if cmp_status > 0 then bt_left st n else bt_right st n))"

partial_function (option) binarytree_height :: "ptr option \<Rightarrow> 'v bt_store \<Rightarrow> int option" where
  "binarytree_height root st = (case root of None \<Rightarrow> Some 0
     | Some n \<Rightarrow> Option.bind (binarytree_height (bt_left st n) st) (\<lambda>l.
                  Option.bind (binarytree_height (bt_right st n) st) (\<lambda>r. Some (if l > r then l + 1 else r + 1))))"

partial_function (option) binarytree_insert :: "('v \<Rightarrow> 'v \<Rightarrow> int) \<Rightarrow> ptr \<Rightarrow> ptr option \<Rightarrow> 'v bt_store \<Rightarrow> (ptr option \<times> 'v bt_store) option" where
  "binarytree_insert compare key root st = (case root of None \<Rightarrow> Some (Some key, st)
     | Some n \<Rightarrow>
         if compare (bt_val st n) (bt_val st key) > 0 then
           Option.bind (binarytree_insert compare key (bt_left st n) st) (\<lambda>(l, st). Some (Some n, st\<lparr> bt_left := (bt_left st)(n := l) \<rparr>))
         else if compare (bt_val st n) (bt_val st key) < 0 then
           Option.bind (binarytree_insert compare key (bt_right st n) st) (\<lambda>(r, st). Some (Some n, st\<lparr> bt_right := (bt_right st)(n := r) \<rparr>))
         else Some (Some n, st))"

declare binarytree_del.simps [code] binarytree_count.simps [code] binarytree_listify_helper.simps [code]
  binarytree_find.simps [code] binarytree_height.simps [code] binarytree_insert.simps [code]

section \<open>Unwind intervals\<close>

definition interval_t_cmp :: "interval_t \<Rightarrow> interval_t \<Rightarrow> int" where
  "interval_t_cmp p1 p2 = (if iv_start p1 < iv_start p2 then -1 else if iv_start p1 = iv_start p2 then 0 else 1)"

definition interval_t_inrange :: "interval_t \<Rightarrow> u64 \<Rightarrow> int" where
  "interval_t_inrange interval address =
    (if address = - 1 \<and> iv_start interval = - 1 then 0
     else if address < iv_start interval then 1 else if address < iv_end interval then 0 else -1)"

definition uwi_t_cmp :: "'r uwi_t \<Rightarrow> 'r uwi_t \<Rightarrow> int" where
  "uwi_t_cmp uwi1 uwi2 = interval_t_cmp (uwi_interval uwi1) (uwi_interval uwi2)"

definition uwi_t_inrange :: "'r uwi_t \<Rightarrow> u64 \<Rightarrow> int" where
  "uwi_t_inrange uwi address = interval_t_inrange (uwi_interval uwi) address"

type_synonym 'r uwi_store = "'r uwi_t bt_store"

definition bitree_uwi_rebalance :: "ptr option \<Rightarrow> nat \<Rightarrow> 'r uwi_store \<Rightarrow> (ptr option \<times> 'r uwi_store) option" where
  "bitree_uwi_rebalance tree count st = map_option (\<lambda>(balanced, _, st). (balanced, st)) (binarytree_list_to_tree tree count st)"

definition bitree_uwi_flatten :: "ptr option \<Rightarrow> 'r uwi_store \<Rightarrow> (ptr option \<times> 'r uwi_store) option" where
  "bitree_uwi_flatten tree st = binarytree_listify tree st"

definition bitree_uwi_find :: "ptr option \<Rightarrow> 'r uwi_t \<Rightarrow> 'r uwi_store \<Rightarrow> ptr option option" where
  "bitree_uwi_find tree val st = binarytree_find uwi_t_cmp val st tree"

definition bitree_uwi_inrange :: "ptr option \<Rightarrow> u64 \<Rightarrow> 'r uwi_store \<Rightarrow> ptr option option" where
  "bitree_uwi_inrange tree address st = binarytree_find uwi_t_inrange address st tree"

definition bitree_uwi_rootval :: "ptr option \<Rightarrow> 'r uwi_store \<Rightarrow> 'r uwi_t option" where
  "bitree_uwi_rootval tree st = binarytree_rootval tree st"

definition bitree_uwi_leftsubtree :: "ptr option \<Rightarrow> 'r uwi_store \<Rightarrow> ptr option option" where
  "bitree_uwi_leftsubtree tree st = binarytree_leftsubtree tree st"

definition bitree_uwi_rightsubtree :: "ptr option \<Rightarrow> 'r uwi_store \<Rightarrow> ptr option option" where
  "bitree_uwi_rightsubtree tree st = binarytree_rightsubtree tree st"

definition bitree_uwi_set_leftsubtree :: "ptr option \<Rightarrow> ptr option \<Rightarrow> 'r uwi_store \<Rightarrow> 'r uwi_store option" where
  "bitree_uwi_set_leftsubtree tree subtree st = binarytree_set_leftsubtree tree subtree st"

definition bitree_uwi_set_rightsubtree :: "ptr option \<Rightarrow> ptr option \<Rightarrow> 'r uwi_store \<Rightarrow> 'r uwi_store option" where
  "bitree_uwi_set_rightsubtree tree subtree st = binarytree_set_rightsubtree tree subtree st"

definition bitree_uwi_interval :: "ptr option \<Rightarrow> 'r uwi_store \<Rightarrow> interval_t option" where
  "bitree_uwi_interval tree st = (case tree of None \<Rightarrow> None | Some _ \<Rightarrow> map_option uwi_interval (bitree_uwi_rootval tree st))"

definition bitree_uwi_recipe :: "ptr option \<Rightarrow> 'r uwi_store \<Rightarrow> 'r option" where
  "bitree_uwi_recipe tree st = (case tree of None \<Rightarrow> None | Some _ \<Rightarrow> map_option uwi_recipe (bitree_uwi_rootval tree st))"

definition NUM_NODES :: nat where "NUM_NODES = 10"

datatype unwinder_t = DWARF_UNWINDER | NATIVE_UNWINDER

record 'r uwi_state =
  us_store :: "'r uwi_store"
  us_GF :: "unwinder_t \<Rightarrow> ptr option"
  us_lf :: "unwinder_t \<Rightarrow> ptr option"

definition bitree_uwi_init :: "'r uwi_state \<Rightarrow> 'r uwi_state" where
  "bitree_uwi_init s = s\<lparr> us_GF := (\<lambda>_. None) \<rparr>"

definition refill_local :: "unwinder_t \<Rightarrow> bool \<Rightarrow> 'r uwi_state \<Rightarrow> 'r uwi_state option" where
  "refill_local uw locked s =
    (let shared = (if locked then us_GF s uw else None)
     in case shared of
          Some _ \<Rightarrow> Option.bind (bitree_uwi_leftsubtree shared (us_store s)) (\<lambda>rest.
            Option.bind (bitree_uwi_set_leftsubtree shared None (us_store s)) (\<lambda>st.
              Some (s\<lparr> us_lf := (us_lf s)(uw := shared), us_GF := (us_GF s)(uw := rest), us_store := st \<rparr>)))
        | None \<Rightarrow> map_option (\<lambda>(h, st). s\<lparr> us_store := st, us_lf := (us_lf s)(uw := h) \<rparr>) (binarytree_listalloc NUM_NODES (us_store s)))"

definition bitree_uwi_malloc :: "unwinder_t \<Rightarrow> bool \<Rightarrow> 'r uwi_state \<Rightarrow> (ptr option \<times> 'r uwi_state) option" where
  "bitree_uwi_malloc uw locked s =
    Option.bind (if us_lf s uw = None then refill_local uw locked s else Some s) (\<lambda>s.
      case us_lf s uw of None \<Rightarrow> Some (None, s)
      | Some n \<Rightarrow> Option.bind (bitree_uwi_rightsubtree (Some n) (us_store s)) (\<lambda>rest.
          Option.bind (bitree_uwi_set_rightsubtree (Some n) None (us_store s)) (\<lambda>st.
            Some (Some n, s\<lparr> us_lf := (us_lf s)(uw := rest), us_store := st \<rparr>))))"

definition bitree_uwi_free :: "unwinder_t \<Rightarrow> ptr option \<Rightarrow> 'r uwi_state \<Rightarrow> 'r uwi_state option" where
  "bitree_uwi_free uw tree s =
    (case tree of None \<Rightarrow> Some s
     | Some _ \<Rightarrow> Option.bind (bitree_uwi_flatten tree (us_store s)) (\<lambda>(tree, st).
         Option.bind (bitree_uwi_set_leftsubtree tree (us_GF s uw) st) (\<lambda>st.
           Some (s\<lparr> us_store := st, us_GF := (us_GF s)(uw := tree) \<rparr>))))"

section \<open>Building\<close>

definition keeps_outside :: "ptr set \<Rightarrow> 'v bt_store \<Rightarrow> 'v bt_store \<Rightarrow> bool" where
  "keeps_outside A st st' \<longleftrightarrow> (\<forall>n. n \<notin> A \<longrightarrow> bt_left st' n = bt_left st n \<and> bt_right st' n = bt_right st n) \<and> bt_val st' = bt_val st \<and> bt_fresh st' = bt_fresh st"

lemma keeps_tree: "keeps_outside A st st' \<Longrightarrow> A \<inter> set_tree t = {} \<Longrightarrow> tree_at (bt_left st') (bt_right st') p t = tree_at (bt_left st) (bt_right st) p t"
  by (rule tree_at_cong) (auto simp: keeps_outside_def)

lemma keeps_linked: "keeps_outside A st st' \<Longrightarrow> A \<inter> set L = {} \<Longrightarrow> linked (bt_right st') p L = linked (bt_right st) p L"
  by (rule linked_cong) (auto simp: keeps_outside_def)

lemma list_to_tree:
  assumes "linked (bt_right st) head (L @ M)" and "length L = count"
  shows "\<exists>t head' st'. binarytree_list_to_tree head count st = Some (root_of t, head', st') \<and> tree_at (bt_left st') (bt_right st') (root_of t) t \<and>
    inorder t = L \<and> linked (bt_right st') head' M \<and> keeps_outside (set L) st st' \<and> (L \<noteq> [] \<longrightarrow> 2 ^ height t \<le> 2 * count)"
  using assms
proof (induction count arbitrary: st head L M rule: less_induct)
  case (less count)
  show ?case
  proof (cases "count = 0")
    case True
    then show ?thesis using less.prems by (intro exI [of _ Leaf]) (simp add: binarytree_list_to_tree.simps [of head 0] keeps_outside_def)
  next
    case False
    define mid where "mid = count div 2"
    define L1 where "L1 = take mid L"
    have mid: "mid < count" "mid < length L" using False less.prems(2) by (simp_all add: mid_def)
    then obtain r L2 where r: "drop mid L = r # L2" by (metis Cons_nth_drop_Suc)
    have L: "L = L1 @ r # L2" "length L1 = mid" "length L2 = count - mid - 1"
    proof -
      show "L = L1 @ r # L2" using append_take_drop_id [of mid L] r by (simp add: L1_def)
      show "length L1 = mid" using mid by (simp add: L1_def)
      have "length (drop mid L) = Suc (length L2)" by (simp add: r)
      then show "length L2 = count - mid - 1" using less.prems(2) by simp
    qed
    have d: "distinct (L @ M)" using less.prems(1) by (rule linked_distinct)
    obtain t1 head1 st1 where 1: "binarytree_list_to_tree head mid st = Some (root_of t1, head1, st1)" "tree_at (bt_left st1) (bt_right st1) (root_of t1) t1"
        "inorder t1 = L1" "linked (bt_right st1) head1 (r # L2 @ M)" "keeps_outside (set L1) st st1" "L1 \<noteq> [] \<longrightarrow> 2 ^ height t1 \<le> 2 * mid"
      using less.IH [OF mid(1), of st head L1 "r # L2 @ M"] less.prems(1) L(1,2) by auto
    define st2 where "st2 = st1\<lparr> bt_left := (bt_left st1)(r := root_of t1) \<rparr>"
    have h: "head1 = Some r" "linked (bt_right st2) (bt_right st1 r) (L2 @ M)" using 1(4) by (simp_all add: st2_def)
    obtain t2 head2 st3 where 2: "binarytree_list_to_tree (bt_right st1 r) (count - mid - 1) st2 = Some (root_of t2, head2, st3)"
        "tree_at (bt_left st3) (bt_right st3) (root_of t2) t2" "inorder t2 = L2" "linked (bt_right st3) head2 M" "keeps_outside (set L2) st2 st3"
        "L2 \<noteq> [] \<longrightarrow> 2 ^ height t2 \<le> 2 * (count - mid - 1)"
      using less.IH [OF _ h(2) L(3)] False by auto
    define st4 where "st4 = st3\<lparr> bt_right := (bt_right st3)(r := root_of t2) \<rparr>"
    let ?t = "Node t1 r t2"
    have sets: "set_tree t1 = set L1" "set_tree t2 = set L2" using 1(3) 2(3) by (metis set_inorder)+
    have nr: "r \<notin> set L1" "r \<notin> set L2" "r \<notin> set M" "set L2 \<inter> set L1 = {}" using d L(1) by auto
    have "tree_at (bt_left st2) (bt_right st2) (root_of t1) t1" using 1(2) nr(1) sets(1) by (simp add: st2_def)
    then have "tree_at (bt_left st3) (bt_right st3) (root_of t1) t1" using keeps_tree [OF 2(5), of t1] nr(4) sets(1) by simp
    moreover have "bt_left st3 r = root_of t1" using 2(5) nr(2) by (simp add: keeps_outside_def st2_def)
    ultimately have "tree_at (bt_left st4) (bt_right st4) (root_of ?t) ?t" using 2(2) nr sets by (simp add: st4_def)
    moreover have "keeps_outside (set L) st st4" using 1(5) 2(5) L(1) by (auto simp: keeps_outside_def st2_def st4_def)
    moreover have "linked (bt_right st4) head2 M" using 2(4) nr(3) by (simp add: st4_def)
    moreover have "binarytree_list_to_tree head count st = Some (root_of ?t, head2, st4)"
      using 1(1) 2(1) False h(1) by (subst binarytree_list_to_tree.simps) (simp add: mid_def st2_def st4_def)
    moreover have "2 ^ height ?t \<le> 2 * count"
    proof -
      have "2 ^ height t1 \<le> count" using 1(3,6) L(2) mid(1) False by (cases "L1 = []") (auto simp: mid_def)
      moreover have "2 ^ height t2 \<le> count" using 2(3,6) L(3) False by (cases "L2 = []") (auto simp: mid_def)
      ultimately show ?thesis by (simp add: max_def)
    qed
    ultimately show ?thesis using 1(3) 2(3) L(1) by (intro exI [of _ ?t] exI [of _ head2] exI [of _ st4]) simp
  qed
qed

lemma rebalance:
  assumes "linked (bt_right st) head L"
  shows "\<exists>t st'. bitree_uwi_rebalance head (length L) st = Some (root_of t, st') \<and> tree_at (bt_left st') (bt_right st') (root_of t) t \<and> inorder t = L \<and>
    bt_val st' = bt_val st \<and> (L \<noteq> [] \<longrightarrow> 2 ^ height t \<le> 2 * length L)"
  using list_to_tree [of st head L "[]" "length L"] assms by (auto simp: bitree_uwi_rebalance_def keeps_outside_def)

section \<open>Searching\<close>

lemma find_in_tree:
  assumes "tree_at (bt_left st) (bt_right st) root t"
    and "sorted_wrt (\<lambda>a b. matches (bt_val st a) key \<ge> 0 \<longrightarrow> matches (bt_val st b) key > 0) (inorder t)"
  shows "binarytree_find matches key st root = Some (List.find (\<lambda>n. matches (bt_val st n) key = 0) (inorder t))"
  using assms
proof (induction t arbitrary: root)
  case (Node t1 a t2)
  let ?m = "\<lambda>n. matches (bt_val st n) key"
  have lr: "\<And>b. b \<in> set (inorder t1) \<Longrightarrow> ?m b \<ge> 0 \<Longrightarrow> ?m a > 0" "\<And>b. b \<in> set (inorder t2) \<Longrightarrow> ?m a \<ge> 0 \<Longrightarrow> ?m b > 0"
    using Node.prems(2) by (auto simp: sorted_wrt_append)
  have f1: "List.find (\<lambda>n. ?m n = 0) (inorder t1) = None" if "?m a \<le> 0" using lr(1) that by (force simp: find_None_iff)
  have f2: "List.find (\<lambda>n. ?m n = 0) (inorder t2) = None" if "?m a \<ge> 0" using lr(2) that by (force simp: find_None_iff)
  have app: "List.find P (xs @ ys) = (case List.find P xs of None \<Rightarrow> List.find P ys | Some x \<Rightarrow> Some x)" for P and xs ys :: "ptr list"
    by (induction xs) auto
  have IH: "binarytree_find matches key st (bt_left st a) = Some (List.find (\<lambda>n. ?m n = 0) (inorder t1))"
    "binarytree_find matches key st (bt_right st a) = Some (List.find (\<lambda>n. ?m n = 0) (inorder t2))"
    using Node.IH Node.prems by (auto simp: sorted_wrt_append)
  have root: "root = Some a" using Node.prems(1) by simp
  consider "?m a = 0" | "?m a > 0" | "?m a < 0" by linarith
  then show ?case unfolding root using IH f1 f2 by cases (subst binarytree_find.simps, simp add: app split: option.split)+
qed (simp add: binarytree_find.simps)

lemma inrange_simps:
  assumes "iv_start i < iv_end i"
  shows "interval_t_inrange i a = 0 \<longleftrightarrow> iv_start i \<le> a \<and> a < iv_end i" "interval_t_inrange i a \<ge> 0 \<longleftrightarrow> a < iv_end i" "interval_t_inrange i a > 0 \<longleftrightarrow> a < iv_start i"
proof -
  have "iv_start i \<noteq> - 1" using assms word_order.extremum [of "iv_end i"] by auto
  then show "interval_t_inrange i a = 0 \<longleftrightarrow> iv_start i \<le> a \<and> a < iv_end i" "interval_t_inrange i a \<ge> 0 \<longleftrightarrow> a < iv_end i" "interval_t_inrange i a > 0 \<longleftrightarrow> a < iv_start i"
    using assms by (auto simp: interval_t_inrange_def not_le)
qed

section \<open>Measures of a tree\<close>

lemma tree_measures:
  assumes "tree_at (bt_left st) (bt_right st) root t"
  shows "binarytree_count root st = Some (int (size t))" "binarytree_height root st = Some (int (height t))"
  using assms by (induction t arbitrary: root) (simp_all add: binarytree_count.simps binarytree_height.simps max_def)

lemma binarytree_del:
  assumes "tree_at (bt_left st) (bt_right st) root t" and "distinct (inorder t)"
  shows "\<exists>st'. binarytree_del root st freed = Some (st', freed @ postorder t) \<and> keeps_outside (set_tree t) st st'"
  using assms
proof (induction t arbitrary: root st freed)
  case Leaf
  then show ?case by (simp add: binarytree_del.simps keeps_outside_def)
next
  case (Node t1 a t2)
  have d: "a \<notin> set_tree t1" "a \<notin> set_tree t2" "set_tree t1 \<inter> set_tree t2 = {}" using Node.prems(2) by auto
  have l: "tree_at (bt_left st) (bt_right st) (bt_left st a) t1" "distinct (inorder t1)" using Node.prems by auto
  obtain st1 where 1: "binarytree_del (bt_left st a) st freed = Some (st1, freed @ postorder t1)" "keeps_outside (set_tree t1) st st1"
    using Node.IH(1) [OF l] by blast
  let ?st1 = "st1\<lparr> bt_left := (bt_left st1)(a := None) \<rparr>"
  have k: "keeps_outside (insert a (set_tree t1)) st ?st1" using 1(2) by (auto simp: keeps_outside_def)
  have ra: "bt_right st1 a = bt_right st a" using 1(2) d(1) by (simp add: keeps_outside_def)
  have r: "tree_at (bt_left ?st1) (bt_right ?st1) (bt_right st a) t2" "distinct (inorder t2)"
    using Node.prems keeps_tree [OF k, of t2] d by auto
  obtain st2 where 2: "binarytree_del (bt_right st a) ?st1 (freed @ postorder t1) = Some (st2, (freed @ postorder t1) @ postorder t2)"
      "keeps_outside (set_tree t2) ?st1 st2" using Node.IH(2) [OF r] by blast
  have "keeps_outside (set_tree (Node t1 a t2)) st (st2\<lparr> bt_right := (bt_right st2)(a := None) \<rparr>)" using k 2(2) by (auto simp: keeps_outside_def)
  then show ?case using Node.prems(1) 1(1) 2(1) ra by (subst binarytree_del.simps) auto
qed

section \<open>Flattening\<close>

text \<open>
  \<open>binarytree_listify_helper\<close> moves its own copy of \<open>tail\<close> only. What a call hangs on the caller's pointer for the left subtree is overwritten by the
  root, and what remains of the tree is its right spine.
\<close>

fun spine_of :: "ptr tree \<Rightarrow> ptr list" where
  "spine_of Leaf = []"
| "spine_of (Node t1 a t2) = a # spine_of t2"

lemma spine_of: "set (spine_of t) \<subseteq> set_tree t" "length (spine_of t) \<le> height t"
  by (induction t) auto

definition flat_result :: "ptr tree \<Rightarrow> tail_loc \<Rightarrow> ptr option option \<Rightarrow> 'v bt_store \<Rightarrow> ptr option option \<times> 'v bt_store \<Rightarrow> bool" where
  "flat_result t tail head st hs \<longleftrightarrow> linked (bt_right (snd hs)) (root_of t) (spine_of t) \<and>
     (t \<noteq> Leaf \<longrightarrow> (case tail of Head_Var \<Rightarrow> fst hs = Some (root_of t) | Right_Of p \<Rightarrow> bt_right (snd hs) p = root_of t)) \<and>
     (\<forall>n. n \<notin> set_tree t \<longrightarrow> bt_left (snd hs) n = bt_left st n \<and> (tail \<noteq> Right_Of n \<longrightarrow> bt_right (snd hs) n = bt_right st n)) \<and>
     (t = Leaf \<longrightarrow> snd hs = st) \<and> (tail \<noteq> Head_Var \<longrightarrow> fst hs = head) \<and> bt_val (snd hs) = bt_val st"

lemma listify_helper:
  assumes "tree_at (bt_left st) (bt_right st) root t" and "distinct (inorder t)" and "\<And>p. tail = Right_Of p \<Longrightarrow> p \<notin> set_tree t"
  shows "\<exists>hs. binarytree_listify_helper root tail (head, st) = Some hs \<and> flat_result t tail head st hs"
  using assms
proof (induction t arbitrary: root st tail head)
  case Leaf
  then show ?case by (simp add: binarytree_listify_helper.simps flat_result_def)
next
  case (Node t1 a t2)
  have d: "a \<notin> set_tree t1" "a \<notin> set_tree t2" "set_tree t1 \<inter> set_tree t2 = {}" using Node.prems(2) by auto
  have tl: "tail \<noteq> Right_Of a" "\<And>p. tail = Right_Of p \<Longrightarrow> p \<notin> set_tree t1" "\<And>p. tail = Right_Of p \<Longrightarrow> p \<notin> set_tree t2"
    using Node.prems(3) by auto
  obtain head1 st1 where 1: "binarytree_listify_helper (bt_left st a) tail (head, st) = Some (head1, st1)" "flat_result t1 tail head st (head1, st1)"
    using Node.IH(1) [of st "bt_left st a" tail head] Node.prems(1,2) tl(2) by auto
  define hs where "hs = store_tail tail (Some a) (head1, st1\<lparr> bt_left := (bt_left st1)(a := None) \<rparr>)"
  have st1: "bt_left st1 n = bt_left st n" "tail \<noteq> Right_Of n \<Longrightarrow> bt_right st1 n = bt_right st n" if "n \<notin> set_tree t1" for n
    using 1(2) that by (simp_all add: flat_result_def)
  have hs: "bt_left (snd hs) n = (if n = a then None else bt_left st1 n)" "bt_right (snd hs) n = (if tail = Right_Of n then Some a else bt_right st1 n)" for n
    by (auto simp: hs_def store_tail_def split: tail_loc.split)
  have "tree_at (bt_left st) (bt_right st) (bt_right st a) t2" using Node.prems(1) by simp
  moreover have "tree_at (bt_left (snd hs)) (bt_right (snd hs)) p t2 = tree_at (bt_left st) (bt_right st) p t2" for p
  proof (rule tree_at_cong)
    fix n
    assume "n \<in> set_tree t2"
    then have "n \<notin> set_tree t1" "n \<noteq> a" "tail \<noteq> Right_Of n" using d tl(3) by auto
    then show "bt_left (snd hs) n = bt_left st n \<and> bt_right (snd hs) n = bt_right st n" using hs st1 by simp
  qed
  ultimately have t2: "tree_at (bt_left (snd hs)) (bt_right (snd hs)) (bt_right st a) t2" by simp
  have ra: "bt_right (snd hs) a = bt_right st a" using hs(2) [of a] st1(2) [OF d(1) tl(1)] tl(1) by simp
  obtain hs' where 2: "binarytree_listify_helper (bt_right st a) (Right_Of a) (fst hs, snd hs) = Some hs'" "flat_result t2 (Right_Of a) (fst hs) (snd hs) hs'"
    using Node.IH(2) [OF t2, of "Right_Of a" "fst hs"] Node.prems(2) d(2) by auto
  have run: "binarytree_listify_helper root tail (head, st) = Some hs'"
    using Node.prems(1) 1(1) 2(1) ra by (subst binarytree_listify_helper.simps) (simp add: hs_def)
  have lv: "bt_left (snd hs') n = bt_left (snd hs) n" "n \<noteq> a \<Longrightarrow> bt_right (snd hs') n = bt_right (snd hs) n" if "n \<notin> set_tree t2" for n
    using 2(2) that by (simp_all add: flat_result_def)
  have "bt_right (snd hs') a = root_of t2"
  proof (cases "t2 = Leaf")
    case True
    then show ?thesis using 2(2) ra Node.prems(1) by (simp add: flat_result_def)
  qed (use 2(2) in \<open>simp add: flat_result_def\<close>)
  then have "linked (bt_right (snd hs')) (Some a) (spine_of (Node t1 a t2))" using 2(2) by (simp add: flat_result_def)
  moreover have "case tail of Head_Var \<Rightarrow> fst hs' = Some (Some a) | Right_Of p \<Rightarrow> bt_right (snd hs') p = Some a"
  proof (cases tail)
    case Head_Var
    have "fst hs' = fst hs" using 2(2) by (simp add: flat_result_def)
    then show ?thesis using Head_Var by (simp add: hs_def store_tail_def)
  next
    case (Right_Of p)
    then have "p \<noteq> a" "p \<notin> set_tree t2" using tl by auto
    then show ?thesis using Right_Of lv(2) [of p] hs(2) [of p] by simp
  qed
  moreover have "bt_left (snd hs') n = bt_left st n \<and> (tail \<noteq> Right_Of n \<longrightarrow> bt_right (snd hs') n = bt_right st n)" if "n \<notin> set_tree (Node t1 a t2)" for n
    using that lv [of n] hs [of n] st1 [of n] by auto
  moreover have "bt_val (snd hs') = bt_val st" using 2(2) 1(2) by (auto simp: flat_result_def hs_def store_tail_def split: tail_loc.split)
  moreover have "tail \<noteq> Head_Var \<longrightarrow> fst hs' = head" using 1(2) 2(2) by (auto simp: flat_result_def hs_def store_tail_def split: tail_loc.split)
  ultimately have "flat_result (Node t1 a t2) tail head st hs'" by (simp add: flat_result_def split: tail_loc.splits)
  with run show ?case by blast
qed

lemma listify:
  assumes "tree_at (bt_left st) (bt_right st) root t" and "distinct (inorder t)" and "t \<noteq> Leaf"
  shows "\<exists>st'. binarytree_listify root st = Some (root, st') \<and> linked (bt_right st') root (spine_of t)"
  using listify_helper [OF assms(1,2), of Head_Var None] tree_at_root [OF assms(1)] assms(3)
  by (auto simp: binarytree_listify_def flat_result_def)

section \<open>The free lists\<close>

lemmas uwi_access_defs = bitree_uwi_leftsubtree_def bitree_uwi_rightsubtree_def bitree_uwi_set_leftsubtree_def bitree_uwi_set_rightsubtree_def
  binarytree_leftsubtree_def binarytree_rightsubtree_def binarytree_set_leftsubtree_def binarytree_set_rightsubtree_def

lemma linked_right_update: "linked nx (Some n) (n # L) \<Longrightarrow> linked (nx(n := None)) (nx n) L"
  using linked_distinct [of nx "Some n" "n # L"] by simp

text \<open>The nodes of the local list are handed out one after the other, each cut off from the list.\<close>

lemma uwi_malloc_local:
  assumes "us_lf s uw = Some n" and "linked (bt_right (us_store s)) (Some n) (n # L)"
  shows "\<exists>s'. bitree_uwi_malloc uw locked s = Some (Some n, s') \<and> linked (bt_right (us_store s')) (us_lf s' uw) L \<and> bt_right (us_store s') n = None \<and> us_GF s' = us_GF s"
  using assms linked_right_update [OF assms(2)] by (auto simp: bitree_uwi_malloc_def uwi_access_defs)

text \<open>A block of the shared list becomes the local list, and what was shared before the block was freed is shared again.\<close>

lemma uwi_free_malloc:
  assumes "tree_at (bt_left (us_store s)) (bt_right (us_store s)) (Some n) t" and "distinct (inorder t)" and "us_lf s uw = None"
  shows "\<exists>s1 s2. bitree_uwi_free uw (Some n) s = Some s1 \<and> bitree_uwi_malloc uw True s1 = Some (Some n, s2) \<and>
     us_GF s2 = us_GF s \<and> linked (bt_right (us_store s2)) (us_lf s2 uw) (tl (spine_of t))"
proof -
  have "t \<noteq> Leaf" using assms(1) by (cases t) auto
  from listify [OF assms(1,2) this] obtain st where l: "binarytree_listify (Some n) (us_store s) = Some (Some n, st)" "linked (bt_right st) (Some n) (spine_of t)" by blast
  then obtain F where F: "spine_of t = n # F" by (cases "spine_of t") auto
  show ?thesis using l assms(3) linked_right_update [of "bt_right st" n F]
    by (auto simp: F bitree_uwi_free_def bitree_uwi_malloc_def refill_local_def bitree_uwi_flatten_def uwi_access_defs fun_upd_twist fun_upd_idem)
qed

definition example_uwi :: "unit uwi_store" where
  "example_uwi = \<lparr> bt_left = (\<lambda>_. None), bt_right = (\<lambda>n. if 1 \<le> n \<and> n < 7 then Some (Suc n) else None),
     bt_val = (\<lambda>n. \<lparr> uwi_interval = \<lparr> iv_start = of_nat (16 * n), iv_end = of_nat (16 * n + 12) \<rparr>, uwi_recipe = () \<rparr>), bt_fresh = 8 \<rparr>"

lemma example_uwi_linked: "linked (bt_right example_uwi) (Some 1) [1, 2, 3, 4, 5, 6, 7]"
  by (simp add: example_uwi_def)

section \<open>Properties\<close>

text \<open>
  C18. From the list of intervals of a function to the recipe of an address. For a list of non-empty intervals in increasing order,
  \<open>bitree_uwi_rebalance\<close> returns a tree of logarithmic height, and \<open>bitree_uwi_inrange\<close> finds in it, for every address, the
  node of the interval that contains the address, and none if there is none.
\<close>

theorem uwi_inrange_correct:
  fixes st :: "'r uwi_store"
  defines "iv \<equiv> \<lambda>n. uwi_interval (bt_val st n)"
  assumes "linked (bt_right st) head L" and "\<And>n. n \<in> set L \<Longrightarrow> iv_start (iv n) < iv_end (iv n)" and "sorted_wrt (\<lambda>a b. iv_end (iv a) \<le> iv_start (iv b)) L"
  shows "\<exists>tree st'. bitree_uwi_rebalance head (length L) st = Some (tree, st') \<and>
     (\<exists>h. binarytree_height tree st' = Some (int h) \<and> 2 ^ h \<le> 2 * length L + 1) \<and>
     (\<forall>a. bitree_uwi_inrange tree a st' = Some (List.find (\<lambda>n. iv_start (iv n) \<le> a \<and> a < iv_end (iv n)) L))"
proof -
  obtain t st' where t: "bitree_uwi_rebalance head (length L) st = Some (root_of t, st')" "tree_at (bt_left st') (bt_right st') (root_of t) t" "inorder t = L"
      "bt_val st' = bt_val st" "L \<noteq> [] \<longrightarrow> 2 ^ height t \<le> 2 * length L" using rebalance [OF assms(2)] by blast
  have m: "uwi_t_inrange (bt_val st' n) a = interval_t_inrange (iv n) a" for n a by (simp add: uwi_t_inrange_def iv_def t(4))
  have "sorted_wrt (\<lambda>x y. uwi_t_inrange (bt_val st' x) a \<ge> 0 \<longrightarrow> uwi_t_inrange (bt_val st' y) a > 0) (inorder t)" for a
    unfolding m t(3) by (rule sorted_wrt_mono_rel [OF _ assms(4)]) (use inrange_simps(2,3) [OF assms(3)] in auto)
  from find_in_tree [OF t(2) this]
  have "bitree_uwi_inrange (root_of t) a st' = Some (List.find (\<lambda>n. interval_t_inrange (iv n) a = 0) L)" for a
    by (simp add: bitree_uwi_inrange_def m t(3))
  moreover have "List.find (\<lambda>n. interval_t_inrange (iv n) a = 0) L = List.find (\<lambda>n. iv_start (iv n) \<le> a \<and> a < iv_end (iv n)) L" for a
    by (rule find_cong) (use inrange_simps(1) [OF assms(3)] in auto)
  moreover have "2 ^ height t \<le> 2 * length L + 1" using t(3,5) by (cases "L = []") auto
  ultimately show ?thesis using t(1) tree_measures(2) [OF t(2)] by (intro exI [of _ "root_of t"] exI [of _ st']) auto
qed

theorem uwi_inrange_correct_witness:
  "\<exists>tree st'. bitree_uwi_rebalance (Some 1) 7 example_uwi = Some (tree, st') \<and> bitree_uwi_inrange tree 0x35 st' = Some (Some 3) \<and> bitree_uwi_inrange tree 0x3d st' = Some None"
proof -
  let ?iv = "\<lambda>n. uwi_interval (bt_val example_uwi n)"
  have iv: "iv_start (?iv n) = of_nat (16 * n)" "iv_end (?iv n) = of_nat (16 * n + 12)" for n by (simp_all add: example_uwi_def)
  have "iv_start (?iv n) < iv_end (?iv n)" if "n \<in> set [1, 2, 3, 4, 5, 6, 7]" for n unfolding iv using that by auto
  moreover have "sorted_wrt (\<lambda>a b. iv_end (?iv a) \<le> iv_start (?iv b)) [1, 2, 3, 4, 5, 6, 7]" unfolding iv by simp
  ultimately obtain tree st' where "bitree_uwi_rebalance (Some 1) (length [1, 2, 3, 4, 5, 6, 7 :: nat]) example_uwi = Some (tree, st')"
      "\<forall>a. bitree_uwi_inrange tree a st' = Some (List.find (\<lambda>n. iv_start (?iv n) \<le> a \<and> a < iv_end (?iv n)) [1, 2, 3, 4, 5, 6, 7])"
    using uwi_inrange_correct [OF example_uwi_linked] by blast
  moreover have "length [1, 2, 3, 4, 5, 6, 7 :: nat] = 7" by simp
  ultimately have "bitree_uwi_rebalance (Some 1) 7 example_uwi = Some (tree, st')"
      "bitree_uwi_inrange tree a st' = Some (List.find (\<lambda>n. iv_start (?iv n) \<le> a \<and> a < iv_end (?iv n)) [1, 2, 3, 4, 5, 6, 7])" for a
    by (simp_all only: simp_thms)
  then show ?thesis unfolding iv by auto
qed

text \<open>
  C35. \<open>bitree_uwi_free\<close> loses memory. Of the tree that was made of a list of n intervals, only the nodes of its right spine reach the
  global list of free nodes, that is at most \<open>log2 n + 1\<close> of n: the helper of \<open>binarytree_listify\<close> overwrites what it has flattened of a
  left subtree.
\<close>

theorem uwi_free_loses_nodes:
  assumes "linked (bt_right st) head L" and "L \<noteq> []" and "bitree_uwi_rebalance head (length L) st = Some (tree, st')" and "us_store s = st'"
  shows "\<exists>s' F. bitree_uwi_free uw tree s = Some s' \<and> linked (bt_right (us_store s')) (us_GF s' uw) F \<and> set F \<subseteq> set L \<and> 2 ^ length F \<le> 2 * length L"
proof -
  obtain t where t: "tree = root_of t" "tree_at (bt_left st') (bt_right st') (root_of t) t" "inorder t = L" "2 ^ height t \<le> 2 * length L"
    using rebalance [OF assms(1)] assms(2,3) by auto
  have "distinct (inorder t)" using linked_distinct [OF assms(1)] t(3) by simp
  moreover have "t \<noteq> Leaf" using t(3) assms(2) by auto
  ultimately obtain st2 where l: "binarytree_listify tree st' = Some (tree, st2)" "linked (bt_right st2) tree (spine_of t)" using listify t(1,2) by blast
  moreover obtain n where n: "tree = Some n" using t(1) \<open>t \<noteq> Leaf\<close> by (cases t) auto
  ultimately have "bitree_uwi_free uw tree s = Some (s\<lparr> us_store := st2\<lparr> bt_left := (bt_left st2)(n := us_GF s uw) \<rparr>, us_GF := (us_GF s)(uw := tree) \<rparr>)"
    using assms(4) by (simp add: bitree_uwi_free_def bitree_uwi_flatten_def bitree_uwi_set_leftsubtree_def binarytree_set_leftsubtree_def)
  moreover have "2 ^ length (spine_of t) \<le> 2 * length L"
    using t(4) spine_of(2) [of t] by (meson le_trans one_le_numeral power_increasing)
  moreover have "set (spine_of t) \<subseteq> set L" using spine_of(1) [of t] t(3) by (metis set_inorder)
  ultimately show ?thesis using l(2) by (intro exI [of _ "s\<lparr> us_store := st2\<lparr> bt_left := (bt_left st2)(n := us_GF s uw) \<rparr>, us_GF := (us_GF s)(uw := tree) \<rparr>"] exI [of _ "spine_of t"]) simp
qed

theorem uwi_free_loses_nodes_witness:
  "\<exists>s s' F. bitree_uwi_free NATIVE_UNWINDER (Some 4) s = Some (s' :: unit uwi_state) \<and> linked (bt_right (us_store s')) (us_GF s' NATIVE_UNWINDER) F \<and>
     set F \<subseteq> {1, 2, 3, 4, 5, 6, 7} \<and> length F \<le> 3"
proof -
  have "map_option fst (bitree_uwi_rebalance (Some 1) 7 example_uwi) = Some (Some 4)" by code_simp
  then obtain st' where "bitree_uwi_rebalance (Some 1) 7 example_uwi = Some (Some 4, st')" by auto
  moreover have "length [1, 2, 3, 4, 5, 6, 7 :: nat] = 7" by simp
  ultimately have r: "bitree_uwi_rebalance (Some 1) (length [1, 2, 3, 4, 5, 6, 7 :: nat]) example_uwi = Some (Some 4, st')" by (simp only:)
  obtain s' F where "bitree_uwi_free NATIVE_UNWINDER (Some 4) \<lparr> us_store = st', us_GF = (\<lambda>_. None), us_lf = (\<lambda>_. None) \<rparr> = Some s'"
      "linked (bt_right (us_store s')) (us_GF s' NATIVE_UNWINDER) F" "set F \<subseteq> set [1, 2, 3, 4, 5, 6, 7]" "2 ^ length F \<le> 2 * length [1, 2, 3, 4, 5, 6, 7 :: nat]"
    using uwi_free_loses_nodes [OF example_uwi_linked _ r, of "\<lparr> us_store = st', us_GF = (\<lambda>_. None), us_lf = (\<lambda>_. None) \<rparr>" NATIVE_UNWINDER] by (metis list.distinct(1) uwi_state.select_convs(1))
  moreover from this have "(2 :: nat) ^ length F < 2 ^ 4" by simp
  then have "length F < 4" by (subst (asm) power_strict_increasing_iff) auto
  ultimately show ?thesis by (intro exI conjI) (assumption, assumption, simp_all)
qed

end
