(* ===== verification/Spec2Isabelle.thy ===== *)
theory Spec2Isabelle
  imports Fmt_Metadb Fmt_Profiledb Fmt_Cctdb Fmt_Tracedb Splay_Uint64 Write_Data Mcs_Lock Spinlock Fnb_Dynamic Trace Mem Rwlock Producer_Wfq Unwind_Tree
begin

text \<open>
  HPCToolkit measures programs and attributes what it measured to calling contexts. This development models the part of it
  that carries the measurements: from the samples that \<open>hpcrun\<close> records in a thread, through the calling context trees, their metric
  values and the load map, to the measurement file, and from there through the reader that the analysis uses; beside it, the formats of
  the four databases that the analysis writes. All paths below are relative to \<open>src/\<close> of the repository's \<open>src\<close> directory.

  \<^bold>\<open>How the parts interact.\<close> A sample arrives as a backtrace. \<open>hpcrun/cct_insert_backtrace.c\<close> inserts its frames into the tree of the thread
  (\<open>hpcrun/cct/cct.c\<close>, whose children are splay trees, \<open>common/lean/splay-macros.h\<close>) and adds the value of the sample to the metric values
  of the node (\<open>hpcrun/cct2metrics.c\<close>, over the registry and the lists of values of \<open>hpcrun/metrics.c\<close>). Addresses are relative to load
  modules, which \<open>hpcrun/loadmap.c\<close> numbers, and the unwinder learns the bounds of the function of an address from the tables of
  \<open>hpcrun/fnbounds\<close>. At the end of a thread \<open>hpcrun/write_data.c\<close> writes header, load map, trees, metric table,
  dictionary of id tuples, sparse metrics and footer with the writers of \<open>common/lean/hpcrun-fmt.c\<close>, \<open>hpcfmt.c\<close>, \<open>id-tuple.c\<close> and \<open>hpcio.c\<close>; the
  sparse reader of \<open>hpcrun-fmt.c\<close> enumerates such a file. When tracing is on, \<open>hpcrun/trace.c\<close> appends the identifier of the node of each sample to the
  trace of the thread, through a buffer of \<open>common/lean/hpcio-buffer.c\<close>. What these parts keep lives in memory that \<open>hpcrun/memory/mem.c\<close>
  hands out. Threads exclude each other with the locks of \<open>common/lean\<close> and pass records to each other through its queues; the recipes by
  which the unwinder takes a step are kept in trees of intervals (\<open>hpcrun/unwind/common/binarytree_uwi.c\<close>, over \<open>common/lean/binarytree.c\<close>).

  \<^bold>\<open>Conventions.\<close> Machine integers are words of their width; \<open>int\<close> is used for a C \<open>int\<close> where it cannot overflow. Pointers are numbers, a null
  pointer is \<open>None\<close>, and the structures a pointer can reach are stores, functions from pointers to fields, so that aliasing is that of the
  source. An execution that the C standard leaves undefined, or that does not end, is \<open>None\<close> (\<open>HPCFMT_UB\<close> for readers and writers of
  streams). Allocation succeeds unless an allocator is an argument. Debugging output is left out.

  \<^bold>\<open>Theories.\<close>

  \<^item> \<open>Prelude\<close>: words, bytes and lists. \<open>Linked_List\<close>: lists in a store, and the loops over them.
  \<^item> \<open>Fmt_Primitive\<close>, \<open>Fmt_Metadb\<close>, \<open>Fmt_Profiledb\<close>, \<open>Fmt_Cctdb\<close>, \<open>Fmt_Tracedb\<close> (\<open>common/lean/formats/\<close>): the structures of the databases
    as readers and writers of a memory. The locale \<open>struct_codec\<close> is the contract of a reader and a writer; each structure interprets
    it, which gives the round trips, that a write stays within its structure, and the round trips of arrays.
  \<^item> \<open>Stdio\<close>, \<open>Hpcio\<close>, \<open>Hpcfmt\<close>, \<open>Id_Tuple\<close>, \<open>Hpcrun_Fmt\<close> (\<open>common/lean/hpcio.c\<close>, \<open>hpcfmt.c\<close>, \<open>id-tuple.c\<close>, \<open>hpcrun-fmt.c\<close>): streams that can fail
    and end, and the readers and writers of every section of a measurement file and of a trace. The locales \<open>codec\<close> and \<open>strict_codec\<close>
    are their contracts: what is written is read back, and a truncated section is refused where the code checks.
  \<^item> \<open>Sparse_File\<close>, \<open>Sparse_Read\<close> (\<open>common/lean/hpcrun-fmt.c\<close>): the object that enumerates a measurement file. The locale \<open>section_iterator\<close>
    is what its four iterators have in common; the lemmas show that they give every element of a section once, in order.
  \<^item> \<open>Splay\<close>, \<open>Splay_Map\<close>, \<open>Splay_Uint64\<close> (\<open>common/lean/splay-macros.h\<close>, \<open>splay-uint64.c\<close>): the top-down splay loop on pointers, refined to a function
    on trees; the tree of 64-bit keys as a finite map (locale \<open>node_map\<close>).
  \<^item> \<open>Cct_Walk\<close>, \<open>Cct\<close>, \<open>Cct_Trie\<close>, \<open>Cct_Backtrace\<close> (\<open>hpcrun/cct/cct.c\<close>, \<open>cct_bundle.c\<close>, \<open>hpcrun/cct_insert_backtrace.c\<close>): the calling context trees as a
    store, their walks (locales \<open>cct_op\<close> and \<open>cct_walker\<close>), and the refinement of insertion to a trie of call paths.
  \<^item> \<open>Metrics\<close>, \<open>Cct2metrics\<close> (\<open>hpcrun/metrics.c\<close>, \<open>hpcrun/cct2metrics.c\<close>): the registry of metrics with its finalization, the values of a context
    with their dense and sparse copies, and the splay map from contexts to values.
  \<^item> \<open>Loadmap\<close> (\<open>hpcrun/loadmap.c\<close>): the linked list of load modules, the free list of descriptions and the clients, refined to a list of modules.
  \<^item> \<open>Cct_Write\<close>, \<open>Cct_File\<close>, \<open>Write_Data\<close> (\<open>hpcrun/cct/cct.c\<close>, \<open>hpcrun/write_data.c\<close>, \<open>hpcrun/epoch.c\<close>): writing a tree and collecting its sparse
    metrics; the samples of a thread end to end; the whole file.

  \<^item> \<open>Fnb_Scan\<close>, \<open>Fnb_Frame\<close>, \<open>Fnbounds\<close>, \<open>Fnb_Dynamic\<close> (\<open>hpcrun/fnbounds/\<close>): the scan of an executable for the addresses of its functions, down to the
    bytes of its frame section; the sorted table and its binary search; and the resolution of an instruction address through the load
    map, from the file of a module to the bounds of a function.

  \<^item> \<open>Outbuf\<close>, \<open>Trace\<close> (\<open>common/lean/hpcio-buffer.c\<close>, \<open>hpcrun/trace.c\<close>): output buffers on a kernel that can write parts, be interrupted and fail, and the trace of a
    thread from its opening to its closing. \<open>Mem\<close> (\<open>hpcrun/memory/mem.c\<close>): the allocator, with the segments the kernel gave and the blocks
    that are in use.

  \<^item> \<open>Unwind_Tree\<close> (\<open>common/lean/binarytree.c\<close>, \<open>hpcrun/unwind/common/interval_t.c\<close>, \<open>binarytree_uwi.c\<close>): trees of intervals in a store, their balancing,
    search and flattening, and the free lists of their nodes.

  \<^item> \<open>Interleaving\<close>, \<open>Mcs_Lock\<close>, \<open>Spinlock\<close>, \<open>Rwlock\<close> (\<open>common/lean/mcs-lock.c\<close>, \<open>common/lean/spinlock.h\<close>, \<open>common/lean/pfq-rwlock.c\<close>): the locks as step
    relations of threads that access a shared memory; mutual exclusion and order as invariants of the reachable states, and progress in
    fair executions (locale \<open>progress\<close>). For the reader-writer lock exclusion is shown for readers that leave in time, and executions
    that break it otherwise. \<open>Mpsc_Queue\<close>, \<open>Producer_Wfq\<close> (\<open>common/lean/collections/mpsc-queue.h\<close>, \<open>producer_wfq.c\<close>): queues in the same way, with
    the order of arrival as their history; the second theory follows the entries that the queue of \<open>producer_wfq.c\<close> loses.

  \<^bold>\<open>What is shown.\<close> The properties carry their claim in the text before them. The central ones follow a sample through the program: the
  trees of a thread are the prefixes of the recorded call paths and the value at a context is the sum of the samples taken there; the
  file that is then written is accepted by the reader, which enumerates the load modules, the metrics, the contexts and exactly the
  non-zero values; a trace that is closed holds a record for every call that appended one, and for every gap. Around them stand the invariants of the components, the refinements of their pointer structures to maps, tries and
  lists, the round trips of all formats, and the behaviour on truncated files, on overflow and on misuse. Where the code departs from
  what it means to do, the departure is proved.

  \<^bold>\<open>Bounds and fuel.\<close> Loops over pointer structures are partial functions or recursions with a measure; where a traversal takes a bound, the
  theorems show that any bound above the size of the structure gives the result. The bounds in the hypotheses are those of the code's
  integers: \<open>2 ^ 31\<close> persistent identifiers, \<open>2 ^ 16 - 1\<close> metrics, \<open>2 ^ 31\<close> values, \<open>2 ^ 27\<close> nodes of a profile (the reader multiplies their number
  by the size of a record in 32 bits), and lengths of files below \<open>2 ^ 62\<close>.

  \<^bold>\<open>Not modelled.\<close> The sample sources, unwinders, and the OpenMP and GPU support, which are interfaces to the kernel, to machine code and to
  libraries outside the repository; process and thread management; the C++ programs \<open>hpcprof\<close> and \<open>hpcstruct\<close>; text output and
  debugging dumps; the opening of files. Outside the theories of the locks and queues an operation
  runs to its end without interference; the memory of the locks and queues is sequentially consistent.
\<close>

section \<open>Properties across the four databases\<close>

lemmas fmt_check_defs =
  fmt_metadb_check_def fmt_profiledb_check_def fmt_cctdb_check_def fmt_tracedb_check_def
  char_to_int_def

text \<open>
  The version check of each of the four databases accepts a file header its own writer
  produced, as an exact match with minor version 0, whatever the signedness of \<open>char\<close>; and the
  checks tell the databases apart: a header of one database is invalid for the three others.
\<close>

theorem fmt_checks_own_header:
  "fmt_metadb_check s (fmt_metadb_fHdr_write m d mh) d = (fmt_version_exact, Some 0) \<and>
   fmt_profiledb_check s (fmt_profiledb_fHdr_write m d ph) d = (fmt_version_exact, Some 0) \<and>
   fmt_cctdb_check s (fmt_cctdb_fHdr_write m d ch) d = (fmt_version_exact, Some 0) \<and>
   fmt_tracedb_check s (fmt_tracedb_fHdr_write m d th) d = (fmt_version_exact, Some 0) \<and>
   fmt_profiledb_check s (fmt_metadb_fHdr_write m d mh) d = (fmt_version_invalid, None) \<and>
   fmt_cctdb_check s (fmt_metadb_fHdr_write m d mh) d = (fmt_version_invalid, None) \<and>
   fmt_tracedb_check s (fmt_metadb_fHdr_write m d mh) d = (fmt_version_invalid, None) \<and>
   fmt_metadb_check s (fmt_profiledb_fHdr_write m d ph) d = (fmt_version_invalid, None) \<and>
   fmt_cctdb_check s (fmt_profiledb_fHdr_write m d ph) d = (fmt_version_invalid, None) \<and>
   fmt_tracedb_check s (fmt_profiledb_fHdr_write m d ph) d = (fmt_version_invalid, None) \<and>
   fmt_metadb_check s (fmt_cctdb_fHdr_write m d ch) d = (fmt_version_invalid, None) \<and>
   fmt_profiledb_check s (fmt_cctdb_fHdr_write m d ch) d = (fmt_version_invalid, None) \<and>
   fmt_tracedb_check s (fmt_cctdb_fHdr_write m d ch) d = (fmt_version_invalid, None) \<and>
   fmt_metadb_check s (fmt_tracedb_fHdr_write m d th) d = (fmt_version_invalid, None) \<and>
   fmt_profiledb_check s (fmt_tracedb_fHdr_write m d th) d = (fmt_version_invalid, None) \<and>
   fmt_cctdb_check s (fmt_tracedb_fHdr_write m d th) d = (fmt_version_invalid, None)"
  by (intro conjI) (simp_all add: fmt_check_defs fmt_simps)

text \<open>
  The minor version of an otherwise right header is reported back, and 0 is the exact match.
  Where \<open>char\<close> is unsigned every other minor version is newer (\<open>fmt_version_forward\<close>); where it is
  signed, as on x86, the minor versions from 128 on come out as older (\<open>fmt_version_backward\<close>).
\<close>

theorem fmt_checks_minor_version:
  "fmt_metadb_check s (put_byte (fmt_metadb_fHdr_write m d mh) (d + 0xf) v) d =
     (if v = 0 then fmt_version_exact
      else if s \<and> bit v 7 then fmt_version_backward else fmt_version_forward, Some v) \<and>
   fmt_profiledb_check s (put_byte (fmt_profiledb_fHdr_write m d ph) (d + 0xf) v) d =
     (if v = 0 then fmt_version_exact
      else if s \<and> bit v 7 then fmt_version_backward else fmt_version_forward, Some v) \<and>
   fmt_cctdb_check s (put_byte (fmt_cctdb_fHdr_write m d ch) (d + 0xf) v) d =
     (if v = 0 then fmt_version_exact
      else if s \<and> bit v 7 then fmt_version_backward else fmt_version_forward, Some v) \<and>
   fmt_tracedb_check s (put_byte (fmt_tracedb_fHdr_write m d th) (d + 0xf) v) d =
     (if v = 0 then fmt_version_exact
      else if s \<and> bit v 7 then fmt_version_backward else fmt_version_forward, Some v)"
proof -
  have neg: "sint v < 0 \<longleftrightarrow> bit v 7" for v :: byte
    using bit_last_iff [of v] by simp
  have zero: "sint v = 0 \<longleftrightarrow> v = 0" "uint v = 0 \<longleftrightarrow> v = 0" for v :: byte
    using signed_eq_0_iff [of v, where 'a = int] by (auto simp: uint_0_iff)
  have "sint v > 0 \<longleftrightarrow> v \<noteq> 0 \<and> \<not> bit v 7" and "uint v > 0 \<longleftrightarrow> v \<noteq> 0"
    using neg [of v] zero [of v] uint_ge_0 [of v] by linarith+
  then show ?thesis
    by (intro conjI) (simp_all add: fmt_check_defs fmt_simps neg)
qed

text \<open>
  No writer of the four databases changes a byte outside the size its format gives the
  structure.
\<close>

theorem fmt_writers_in_bounds:
  "{i. fmt_metadb_fHdr_write m d x0 i \<noteq> m i}
      \<subseteq> {d..<d + FMT_METADB_SZ_FHdr} \<and>
   {i. fmt_metadb_generalSHdr_write m d x1 i \<noteq> m i}
      \<subseteq> {d..<d + FMT_METADB_SZ_GeneralSHdr} \<and>
   {i. fmt_metadb_idNamesSHdr_write m d x2 i \<noteq> m i}
      \<subseteq> {d..<d + FMT_METADB_SZ_IdNamesSHdr} \<and>
   {i. fmt_metadb_metricsSHdr_write m d x3 i \<noteq> m i}
      \<subseteq> {d..<d + FMT_METADB_SZ_MetricsSHdr} \<and>
   {i. fmt_metadb_metricDesc_write m d x4 i \<noteq> m i}
      \<subseteq> {d..<d + FMT_METADB_SZ_MetricDesc} \<and>
   {i. fmt_metadb_propScopeInst_write m d x5 i \<noteq> m i}
      \<subseteq> {d..<d + FMT_METADB_SZ_PropScopeInst} \<and>
   {i. fmt_metadb_summaryStat_write m d x6 i \<noteq> m i}
      \<subseteq> {d..<d + FMT_METADB_SZ_SummaryStat} \<and>
   {i. fmt_metadb_propScope_write m d x7 i \<noteq> m i}
      \<subseteq> {d..<d + FMT_METADB_SZ_PropScope} \<and>
   {i. fmt_metadb_modulesSHdr_write m d x8 i \<noteq> m i}
      \<subseteq> {d..<d + FMT_METADB_SZ_ModulesSHdr} \<and>
   {i. fmt_metadb_moduleSpec_write m d x9 i \<noteq> m i}
      \<subseteq> {d..<d + FMT_METADB_SZ_ModuleSpec} \<and>
   {i. fmt_metadb_filesSHdr_write m d x10 i \<noteq> m i}
      \<subseteq> {d..<d + FMT_METADB_SZ_FilesSHdr} \<and>
   {i. fmt_metadb_fileSpec_write m d x11 i \<noteq> m i}
      \<subseteq> {d..<d + FMT_METADB_SZ_FileSpec} \<and>
   {i. fmt_metadb_functionsSHdr_write m d x12 i \<noteq> m i}
      \<subseteq> {d..<d + FMT_METADB_SZ_FunctionsSHdr} \<and>
   {i. fmt_metadb_functionSpec_write m d x13 i \<noteq> m i}
      \<subseteq> {d..<d + FMT_METADB_SZ_FunctionSpec} \<and>
   {i. fmt_metadb_contextsSHdr_write m d x14 i \<noteq> m i}
      \<subseteq> {d..<d + FMT_METADB_SZ_ContextsSHdr} \<and>
   {i. fmt_metadb_entryPoint_write m d x15 i \<noteq> m i}
      \<subseteq> {d..<d + FMT_METADB_SZ_EntryPoint} \<and>
   {i. fmt_profiledb_fHdr_write m d x16 i \<noteq> m i}
      \<subseteq> {d..<d + FMT_PROFILEDB_SZ_FHdr} \<and>
   {i. fmt_profiledb_profInfoSHdr_write m d x17 i \<noteq> m i}
      \<subseteq> {d..<d + FMT_PROFILEDB_SZ_ProfInfoSHdr} \<and>
   {i. fmt_profiledb_profInfo_write m d x18 i \<noteq> m i}
      \<subseteq> {d..<d + FMT_PROFILEDB_SZ_ProfInfo} \<and>
   {i. fmt_profiledb_mVal_write m d x19 i \<noteq> m i}
      \<subseteq> {d..<d + FMT_PROFILEDB_SZ_MVal} \<and>
   {i. fmt_profiledb_cIdx_write m d x20 i \<noteq> m i}
      \<subseteq> {d..<d + FMT_PROFILEDB_SZ_CIdx} \<and>
   {i. fmt_profiledb_idTupleHdr_write m d x21 i \<noteq> m i}
      \<subseteq> {d..<d + FMT_PROFILEDB_SZ_IdTupleHdr} \<and>
   {i. fmt_profiledb_idTupleElem_write m d x22 i \<noteq> m i}
      \<subseteq> {d..<d + FMT_PROFILEDB_SZ_IdTupleElem} \<and>
   {i. fmt_cctdb_fHdr_write m d x23 i \<noteq> m i}
      \<subseteq> {d..<d + FMT_CCTDB_SZ_FHdr} \<and>
   {i. fmt_cctdb_ctxInfoSHdr_write m d x24 i \<noteq> m i}
      \<subseteq> {d..<d + FMT_CCTDB_SZ_CtxInfoSHdr} \<and>
   {i. fmt_cctdb_ctxInfo_write m d x25 i \<noteq> m i}
      \<subseteq> {d..<d + FMT_CCTDB_SZ_CtxInfo} \<and>
   {i. fmt_cctdb_pVal_write m d x26 i \<noteq> m i}
      \<subseteq> {d..<d + FMT_CCTDB_SZ_PVal} \<and>
   {i. fmt_cctdb_mIdx_write m d x27 i \<noteq> m i}
      \<subseteq> {d..<d + FMT_CCTDB_SZ_MIdx} \<and>
   {i. fmt_tracedb_fHdr_write m d x28 i \<noteq> m i}
      \<subseteq> {d..<d + FMT_TRACEDB_SZ_FHdr} \<and>
   {i. fmt_tracedb_ctxTraceSHdr_write m d x29 i \<noteq> m i}
      \<subseteq> {d..<d + FMT_TRACEDB_SZ_CtxTraceSHdr} \<and>
   {i. fmt_tracedb_ctxTrace_write m d x30 i \<noteq> m i}
      \<subseteq> {d..<d + FMT_TRACEDB_SZ_CtxTrace} \<and>
   {i. fmt_tracedb_ctxSample_write m d x31 i \<noteq> m i}
      \<subseteq> {d..<d + FMT_TRACEDB_SZ_CtxSample}"
  by (intro conjI metadb_fHdr.wr_inside metadb_generalSHdr.wr_inside metadb_idNamesSHdr.wr_inside
      metadb_metricsSHdr.wr_inside metadb_metricDesc.wr_inside metadb_propScopeInst.wr_inside
      metadb_summaryStat.wr_inside metadb_propScope.wr_inside metadb_modulesSHdr.wr_inside
      metadb_moduleSpec.wr_inside metadb_filesSHdr.wr_inside metadb_fileSpec.wr_inside
      metadb_functionsSHdr.wr_inside metadb_functionSpec.wr_inside metadb_contextsSHdr.wr_inside
      metadb_entryPoint.wr_inside profiledb_fHdr.wr_inside profiledb_profInfoSHdr.wr_inside
      profiledb_profInfo.wr_inside profiledb_mVal.wr_inside profiledb_cIdx.wr_inside
      profiledb_idTupleHdr.wr_inside profiledb_idTupleElem.wr_inside cctdb_fHdr.wr_inside
      cctdb_ctxInfoSHdr.wr_inside cctdb_ctxInfo.wr_inside cctdb_pVal.wr_inside
      cctdb_mIdx.wr_inside tracedb_fHdr.wr_inside tracedb_ctxTraceSHdr.wr_inside
      tracedb_ctxTrace.wr_inside tracedb_ctxSample.wr_inside)

end
